(* ===== verification/Kern_Prelude.thy ===== *)
theory Kern_Prelude
  imports Main "HOL-Library.Word"
begin

unbundle bit_operations_syntax

text \<open>
  Shared vocabulary of the development: the machine words of the 32-bit kernel, the outcome
  type of kernel code, and the lemma collections the component theories add to.

  Kernel code does one of six things: it returns, it calls \<open>panic()\<close>, it dereferences a
  pointer that does not point to a live object, it gives up the processor inside a mutex and
  does not come back by itself, it stops the core, or it loops forever. A kernel operation is therefore a function into
  \<open>kfail + 'a\<close>: \<open>Inr\<close> carries the state and the result of a call that returned,
  \<open>Inl\<close> says why it did not.
\<close>

section \<open>Machine words\<close>

type_synonym u8 = "8 word"
type_synonym u16 = "16 word"
type_synonym u32 = "32 word"

text \<open>\<open>NULL\<close>, and the \<open>int\<close> error codes as 32-bit patterns.\<close>

abbreviation NULL :: u32 where "NULL \<equiv> 0"

lemma bit32_less: "bit (w :: u32) j \<Longrightarrow> j < 32"
  by (auto dest: bit_imp_le_length)

lemma unat_word_of_nat32: "n < 2 ^ 32 \<Longrightarrow> unat (word_of_nat n :: u32) = n"
  by (simp add: unsigned_of_nat take_bit_nat_eq_self)

lemma unat_drop_bit5: "unat (drop_bit 5 (w :: u32)) = unat w div 32"
  by (simp add: drop_bit_eq_div unat_div)

lemma unat_mod32: "unat ((w :: u32) mod 32) = unat w mod 32"
  by (simp add: unat_mod)

named_theorems kdefs \<open>definitions of the small operations, unfolded by the component proofs\<close>
named_theorems krules \<open>inversion rules for calls that returned\<close>

section \<open>Outcomes of kernel code\<close>

datatype kfail =
    PANIC   \<comment> \<open>a call of \<open>panic()\<close>\<close>
  | FAULT   \<comment> \<open>a dereference of a pointer to no live object, or an access out of an array's range\<close>
  | BLOCKS  \<comment> \<open>the caller is put on a mutex's queue and switches away\<close>
  | HALTS   \<comment> \<open>the core is stopped\<close>
  | SPINS   \<comment> \<open>a loop whose condition never becomes false\<close>

type_synonym 'a kres = "kfail + 'a"

definition kbind :: "'a kres \<Rightarrow> ('a \<Rightarrow> 'b kres) \<Rightarrow> 'b kres" where
  "kbind m f = (case m of Inl e \<Rightarrow> Inl e | Inr x \<Rightarrow> f x)"

definition kassert :: "kfail \<Rightarrow> bool \<Rightarrow> unit kres" where
  "kassert e b = (if b then Inr () else Inl e)"

text \<open>Dereferencing: the object a pointer refers to, or \<open>FAULT\<close>.\<close>

definition kderef :: "(u32 \<rightharpoonup> 'a) \<Rightarrow> u32 \<Rightarrow> 'a kres" where
  "kderef store p = (case store p of None \<Rightarrow> Inl FAULT | Some x \<Rightarrow> Inr x)"

text \<open>A computation that may not end (\<open>None\<close>) or fail.\<close>

definition obind :: "'a kres option \<Rightarrow> ('a \<Rightarrow> 'b kres option) \<Rightarrow> 'b kres option" where
  "obind m f = (case m of None \<Rightarrow> None | Some (Inl e) \<Rightarrow> Some (Inl e) | Some (Inr x) \<Rightarrow> f x)"

lemma kbind_Inl [simp]: "kbind (Inl e) f = Inl e"
  by (simp add: kbind_def)

lemma kbind_Inr [simp]: "kbind (Inr x) f = f x"
  by (simp add: kbind_def)

lemma kbind_assoc [simp]: "kbind (kbind m f) g = kbind m (\<lambda>x. kbind (f x) g)"
  by (cases m) simp_all

lemma kbind_eq_Inr [krules]: "kbind m f = Inr y \<longleftrightarrow> (\<exists>x. m = Inr x \<and> f x = Inr y)"
  by (cases m) simp_all

lemma kbind_eq_Inl [krules]:
  "kbind m f = Inl e \<longleftrightarrow> m = Inl e \<or> (\<exists>x. m = Inr x \<and> f x = Inl e)"
  by (cases m) simp_all

lemma kassert_True [simp]: "b \<Longrightarrow> kassert e b = Inr ()"
  by (simp add: kassert_def)

lemma kassert_False [simp]: "\<not> b \<Longrightarrow> kassert e b = Inl e"
  by (simp add: kassert_def)

lemma kassert_eq_Inr [krules]: "kassert e b = Inr u \<longleftrightarrow> b"
  by (simp add: kassert_def)

lemma kassert_eq_Inl [krules]: "kassert e b = Inl e' \<longleftrightarrow> \<not> b \<and> e' = e"
  by (auto simp: kassert_def)

lemma kderef_Some [simp]: "store p = Some x \<Longrightarrow> kderef store p = Inr x"
  by (simp add: kderef_def)

lemma kderef_None [simp]: "store p = None \<Longrightarrow> kderef store p = Inl FAULT"
  by (simp add: kderef_def)

lemma kderef_eq_Inr [krules]: "kderef store p = Inr x \<longleftrightarrow> store p = Some x"
  by (simp add: kderef_def split: option.splits)

lemma kderef_eq_Inl [krules]: "kderef store p = Inl e \<longleftrightarrow> store p = None \<and> e = FAULT"
  by (auto simp add: kderef_def split: option.splits)

lemma obind_simps [simp]: "obind None f = None" "obind (Some (Inl e)) f = Some (Inl e)" "obind (Some (Inr x)) f = f x"
  by (simp_all add: obind_def)

section \<open>Lists\<close>

text \<open>The first element with a property taken out of a list: what a queue search does.\<close>

fun remove_first :: "('a \<Rightarrow> bool) \<Rightarrow> 'a list \<Rightarrow> 'a option \<times> 'a list" where
  "remove_first P [] = (None, [])"
| "remove_first P (x # xs) =
     (if P x then (Some x, xs)
      else (case remove_first P xs of (r, ys) \<Rightarrow> (r, x # ys)))"

lemma remove_first_None: "remove_first P xs = (None, ys) \<Longrightarrow> ys = xs \<and> (\<forall>x \<in> set xs. \<not> P x)"
  by (induction xs arbitrary: ys) (auto split: if_splits prod.splits)

lemma remove_first_Some:
  "remove_first P xs = (Some x, ys) \<Longrightarrow>
     \<exists>us vs. xs = us @ x # vs \<and> ys = us @ vs \<and> P x \<and> (\<forall>u \<in> set us. \<not> P u)"
proof (induction xs arbitrary: ys)
  case Nil
  then show ?case by simp
next
  case (Cons z zs)
  show ?case
  proof (cases "P z")
    case True
    with Cons.prems have "z # zs = [] @ x # zs \<and> ys = [] @ zs \<and> P x" by auto
    then show ?thesis by fastforce
  next
    case False
    with Cons.prems obtain ys' where "remove_first P zs = (Some x, ys')" and ys: "ys = z # ys'"
      by (auto split: prod.splits)
    from Cons.IH [OF this(1)] obtain us vs where
      "zs = us @ x # vs" "ys' = us @ vs" "P x" "\<forall>u \<in> set us. \<not> P u" by blast
    with False ys have "z # zs = (z # us) @ x # vs \<and> ys = (z # us) @ vs \<and> P x \<and>
        (\<forall>u \<in> set (z # us). \<not> P u)" by simp
    then show ?thesis by blast
  qed
qed

lemma remove_first_exists:
  "(fst (remove_first P xs) \<noteq> None) = (\<exists>x \<in> set xs. P x)"
  by (induction xs) (auto split: prod.splits)

lemma list_update_same_length [simp]: "length (xs[i := v]) = length xs"
  by simp

lemma sint_word_of_nat32: "n < 2 ^ 31 \<Longrightarrow> sint (word_of_nat n :: u32) = int n"
  by (simp add: signed_of_nat signed_take_bit_int_eq_self)

end
