(* ===== verification/Seg_Tree.thy ===== *)
theory Seg_Tree
  imports Kern_Prelude
begin

text \<open>
  \<open>kern/seg_tree.c\<close>: the physical frame allocator. A perfect binary tree in an array; node
  \<open>i\<close> has children \<open>2i\<close> and \<open>2i+1\<close>, the leaves \<open>size \<dots> 2 size - 1\<close> are bitmaps
  of 32 frames each (1: free) and an inner node holds the smallest free frame below it, or \<open>NAN\<close>.

  Array positions are natural numbers: \<open>size = get_next_pow2(max_num) >> 5\<close> is at most
  \<open>2^27\<close>, so \<open>index * 2 + 1\<close> and \<open>(index - size) << 5\<close> do not wrap. Node contents stay
  32-bit words. An access outside the array is \<open>FAULT\<close>.

  The lemmas show that the root is the least free frame, that \<open>get_next\<close> takes exactly that frame
  out of the free set and \<open>put_back\<close> puts exactly its argument in, and that \<open>init_seg_tree\<close>
  starts with the frames \<open>0 \<dots> num - 1\<close> free.
\<close>

unbundle bit_operations_syntax

section \<open>Data and helpers\<close>

definition NAN :: u32 where "NAN = - 1"

record seg_state =
  max_num :: nat
  size_n :: nat   \<comment> \<open>\<open>size\<close>, the number of leaves\<close>
  seg_tree :: "nat \<Rightarrow> u32 list option"   \<comment> \<open>one array per cpu, \<open>None\<close> for \<open>NULL\<close>\<close>

definition get_next_pow2 :: "u32 \<Rightarrow> u32" where
  "get_next_pow2 value =
     (let value = value - 1;
          value = value OR drop_bit 1 value;
          value = value OR drop_bit 2 value;
          value = value OR drop_bit 4 value;
          value = value OR drop_bit 8 value;
          value = value OR drop_bit 16 value
      in value + 1)"

text \<open>The \<open>bsf\<close> instruction on a non-zero operand: the index of the lowest set bit.\<close>

definition asm_bsf :: "u32 \<Rightarrow> nat" where
  "asm_bsf w = (case filter (bit w) [0..<32] of [] \<Rightarrow> 0 | i # _ \<Rightarrow> i)"

definition IS_LEAF :: "nat \<Rightarrow> nat \<Rightarrow> bool" where
  "IS_LEAF sz x \<longleftrightarrow> x \<ge> sz"

definition IS_VALID :: "nat \<Rightarrow> nat \<Rightarrow> bool" where
  "IS_VALID sz x \<longleftrightarrow> x < 2 * sz"

section \<open>Initialisation\<close>

text \<open>The loop that marks the existing frames of a partly used leaf.\<close>

function leaf_fill :: "nat \<Rightarrow> nat \<Rightarrow> nat \<Rightarrow> u32 \<Rightarrow> u32 \<Rightarrow> u32" where
  "leaf_fill base mx i msk acc =
     (if base + i < mx then leaf_fill base mx (Suc i) (push_bit 1 msk) (acc OR msk) else acc)"
  by pat_completeness auto
termination
  by (relation "measure (\<lambda>(base, mx, i, msk, acc). mx - (base + i))") auto

declare leaf_fill.simps [simp del]

definition init_leaf :: "nat \<Rightarrow> nat \<Rightarrow> nat \<Rightarrow> u32" where
  "init_leaf sz mx index =
     (if (index - sz + 1) * 32 \<le> mx then - 1
      else leaf_fill ((index - sz) * 32) mx 0 1 0)"

text \<open>\<open>None\<close>: the recursion does not come back (it would not for \<open>index = 0\<close>).\<close>

partial_function (option) init_recursive ::
  "nat \<Rightarrow> nat \<Rightarrow> nat \<Rightarrow> u32 list \<Rightarrow> (u32 list \<times> u32) option" where
  "init_recursive sz mx index t =
     (if \<not> IS_VALID sz index then Some (t, NAN)
      else if \<not> IS_LEAF sz index then
        Option.bind (init_recursive sz mx (index * 2) t) (\<lambda>r.
        Option.bind (init_recursive sz mx (index * 2 + 1) ((fst r)[index := snd r])) (\<lambda>r2.
        Some (fst r2, fst r2 ! index)))
      else
        (let t = t[index := init_leaf sz mx index]
         in Some (t, if t ! index = 0 then NAN else word_of_nat ((index - sz) * 32))))"

text \<open>\<open>calloc_ok\<close> is whether \<open>calloc\<close> found memory; the recursion is known to return, so
  \<open>None\<close> maps to \<open>FAULT\<close> and is shown impossible.\<close>

definition init_seg_tree :: "nat \<Rightarrow> bool \<Rightarrow> int \<Rightarrow> seg_state \<Rightarrow> (seg_state \<times> int) kres" where
  "init_seg_tree cur_cpu calloc_ok num s =
     (let s = (if cur_cpu = 0
               then s\<lparr>max_num := nat num,
                      size_n := unat (drop_bit 5 (get_next_pow2 (word_of_int num)))\<rparr>
               else s)
      in if \<not> calloc_ok then Inr (s\<lparr>seg_tree := (seg_tree s)(cur_cpu := None)\<rparr>, - 1)
         else case init_recursive (size_n s) (max_num s) 1 (replicate (2 * size_n s) 0) of
                None \<Rightarrow> Inl FAULT
              | Some (t, _) \<Rightarrow> Inr (s\<lparr>seg_tree := (seg_tree s)(cur_cpu := Some t)\<rparr>, 0))"

section \<open>Allocation and release\<close>

definition child_value :: "nat \<Rightarrow> u32 list \<Rightarrow> nat \<Rightarrow> u32" where
  "child_value sz t i =
     (if IS_LEAF sz i
      then (if t ! i = 0 then NAN else word_of_nat ((i - sz) * 32) + word_of_nat (asm_bsf (t ! i)))
      else t ! i)"

fun update_tree :: "nat \<Rightarrow> u32 list \<Rightarrow> nat \<Rightarrow> u32 list" where
  "update_tree sz t index =
     (if index \<noteq> 0 then
        (let left_index = index * 2;
             left = child_value sz t left_index;
             right_index = left_index + 1;
             right = child_value sz t right_index;
             t = t[index := if left \<noteq> NAN then left else right]
         in update_tree sz t (index div 2))
      else t)"

declare update_tree.simps [simp del]

definition get_next :: "nat \<Rightarrow> seg_state \<Rightarrow> (seg_state \<times> u32) kres" where
  "get_next cur_cpu s =
     (case seg_tree s cur_cpu of None \<Rightarrow> Inl FAULT | Some t \<Rightarrow>
        if length t \<le> 1 then Inl FAULT
        else let rv = t ! 1
             in if rv = NAN then Inr (s, NAN)
                else let index = unat (drop_bit 5 rv) + size_n s;
                         pos = unat (rv mod 32)
                     in if length t \<le> index then Inl FAULT
                        else let t = t[index := t ! index AND NOT (push_bit pos 1)];
                                 t = update_tree (size_n s) t (index div 2)
                             in Inr (s\<lparr>seg_tree := (seg_tree s)(cur_cpu := Some t)\<rparr>, rv))"

definition put_back :: "nat \<Rightarrow> u32 \<Rightarrow> seg_state \<Rightarrow> seg_state kres" where
  "put_back cur_cpu frame_index s =
     (case seg_tree s cur_cpu of None \<Rightarrow> Inl FAULT | Some t \<Rightarrow>
        let index = unat (drop_bit 5 frame_index) + size_n s;
            pos = unat (frame_index mod 32)
        in if length t \<le> index then Inl FAULT
           else let t = t[index := t ! index OR push_bit pos 1];
                    t = update_tree (size_n s) t (index div 2)
                in Inr (s\<lparr>seg_tree := (seg_tree s)(cur_cpu := Some t)\<rparr>))"

section \<open>Bit-level facts\<close>

lemma smear_step:
  fixes v w :: u32
  assumes "\<And>i. bit w i \<longleftrightarrow> (\<exists>j \<ge> i. j < i + n \<and> bit v j)" and "n \<le> 32"
  shows "bit (w OR drop_bit n w) i \<longleftrightarrow> (\<exists>j \<ge> i. j < i + (n + n) \<and> bit v j)"
proof -
  have "bit (w OR drop_bit n w) i \<longleftrightarrow> bit w i \<or> bit w (n + i)"
    by (auto simp: bit_or_iff bit_drop_bit_eq dest: bit_imp_le_length)
  also have "\<dots> \<longleftrightarrow> (\<exists>j \<ge> i. j < i + n \<and> bit v j) \<or> (\<exists>j \<ge> n + i. j < n + i + n \<and> bit v j)"
    by (simp only: assms(1))
  also have "\<dots> \<longleftrightarrow> (\<exists>j \<ge> i. j < i + (n + n) \<and> bit v j)"
  proof
    assume "\<exists>j \<ge> i. j < i + (n + n) \<and> bit v j"
    then obtain j where "i \<le> j" "j < i + (n + n)" "bit v j" by blast
    then show "(\<exists>j \<ge> i. j < i + n \<and> bit v j) \<or> (\<exists>j \<ge> n + i. j < n + i + n \<and> bit v j)"
      by (cases "j < i + n") (auto intro!: exI [of _ j])
  next
    assume "(\<exists>j \<ge> i. j < i + n \<and> bit v j) \<or> (\<exists>j \<ge> n + i. j < n + i + n \<and> bit v j)"
    then obtain j where "i \<le> j" "j < i + (n + n)" "bit v j"
    proof (elim disjE exE conjE)
      fix j assume "n + i \<le> j" "j < n + i + n" "bit v j"
      then show thesis by (intro that [of j]) simp_all
    qed (simp add: that)
    then show "\<exists>j \<ge> i. j < i + (n + n) \<and> bit v j" by blast
  qed
  finally show ?thesis .
qed

definition smear :: "u32 \<Rightarrow> u32" where
  "smear v =
     (let v = v OR drop_bit 1 v; v = v OR drop_bit 2 v; v = v OR drop_bit 4 v;
          v = v OR drop_bit 8 v
      in v OR drop_bit 16 v)"

lemma get_next_pow2_smear: "get_next_pow2 v = smear (v - 1) + 1"
  by (simp add: get_next_pow2_def smear_def Let_def)

lemma bit_smear: "bit (smear v) i \<longleftrightarrow> (\<exists>j \<ge> i. bit v j)"
proof -
  have 0: "bit v i \<longleftrightarrow> (\<exists>j \<ge> i. j < i + 1 \<and> bit v j)" for i
    by (auto simp: less_Suc_eq_le dest: antisym)
  have 1: "bit (v OR drop_bit 1 v) i \<longleftrightarrow> (\<exists>j \<ge> i. j < i + 2 \<and> bit v j)" for i
    using smear_step [where w = v and v = v and n = 1, OF 0] by simp
  define v1 where "v1 = v OR drop_bit 1 v"
  have 2: "bit (v1 OR drop_bit 2 v1) i \<longleftrightarrow> (\<exists>j \<ge> i. j < i + 4 \<and> bit v j)" for i
    using smear_step [where w = v1 and v = v and n = 2] 1 by (simp add: v1_def)
  define v2 where "v2 = v1 OR drop_bit 2 v1"
  have 3: "bit (v2 OR drop_bit 4 v2) i \<longleftrightarrow> (\<exists>j \<ge> i. j < i + 8 \<and> bit v j)" for i
    using smear_step [where w = v2 and v = v and n = 4] 2 by (simp add: v2_def)
  define v3 where "v3 = v2 OR drop_bit 4 v2"
  have 4: "bit (v3 OR drop_bit 8 v3) i \<longleftrightarrow> (\<exists>j \<ge> i. j < i + 16 \<and> bit v j)" for i
    using smear_step [where w = v3 and v = v and n = 8] 3 by (simp add: v3_def)
  define v4 where "v4 = v3 OR drop_bit 8 v3"
  have 5: "bit (v4 OR drop_bit 16 v4) i \<longleftrightarrow> (\<exists>j \<ge> i. j < i + 32 \<and> bit v j)" for i
    using smear_step [where w = v4 and v = v and n = 16] 4 by (simp add: v4_def)
  have "smear v = v4 OR drop_bit 16 v4"
    by (simp add: smear_def Let_def v1_def v2_def v3_def v4_def)
  moreover have "j < i + 32" if "bit v j" for j using bit32_less [OF that] by simp
  ultimately show ?thesis using 5 by auto
qed

text \<open>Smearing gives the all-ones word below the highest set bit.\<close>

lemma smear_mask:
  assumes "v \<noteq> 0"
  shows "\<exists>m. m < 32 \<and> smear v = mask (Suc m) \<and> bit v m \<and> unat v < 2 ^ Suc m \<and> 2 ^ m \<le> unat v"
proof -
  define m where "m = Max {j. bit v j}"
  have fin: "finite {j. bit v j}"
    by (rule finite_subset [of _ "{..<32}"]) (auto dest: bit_imp_le_length)
  have ne: "{j. bit v j} \<noteq> {}" using assms by (auto simp: bit_eq_iff)
  have m: "bit v m" and top: "\<And>j. bit v j \<Longrightarrow> j \<le> m"
    using Max_in [OF fin ne] Max_ge [OF fin] by (auto simp: m_def)
  from m have m32: "m < 32" by (auto dest: bit_imp_le_length)
  have "bit (smear v) n \<longleftrightarrow> n \<le> m" for n
    unfolding bit_smear using m top by (meson order_trans)
  then have "smear v = mask (Suc m)"
    by (intro bit_word_eqI) (use m32 in \<open>auto simp: bit_mask_iff less_Suc_eq_le\<close>)
  moreover have "take_bit (Suc m) v = v"
    by (rule bit_word_eqI) (use top in \<open>auto simp: bit_take_bit_iff le_imp_less_Suc\<close>)
  then have "unat v < 2 ^ Suc m"
    by (metis take_bit_nat_less_exp unsigned_take_bit_eq)
  moreover have "2 ^ m \<le> unat v"
  proof (rule ccontr)
    assume "\<not> 2 ^ m \<le> unat v"
    then have "unat v div 2 ^ m = 0" by simp
    moreover have "odd (unat v div 2 ^ m)" using m by (simp add: bit_unsigned_iff bit_iff_odd [symmetric] m32)
    ultimately show False by simp
  qed
  ultimately show ?thesis using m m32 by blast
qed

lemma bit_leaf_fill:
  "\<lbrakk>msk = 2 ^ i; p < 32\<rbrakk> \<Longrightarrow>
   bit (leaf_fill base mx i msk acc) p \<longleftrightarrow> bit acc p \<or> (i \<le> p \<and> base + p < mx)"
proof (induction base mx i msk acc rule: leaf_fill.induct)
  case (1 base mx i msk acc)
  show ?case
  proof (cases "base + i < mx")
    case True
    have "bit msk p \<longleftrightarrow> p = i" using "1.prems" by (auto simp: bit_exp_iff)
    moreover have "bit (leaf_fill base mx (Suc i) (push_bit 1 msk) (acc OR msk)) p \<longleftrightarrow>
        bit (acc OR msk) p \<or> (Suc i \<le> p \<and> base + p < mx)"
      using "1.prems" True by (intro "1.IH") (auto simp: push_bit_eq_mult)
    ultimately show ?thesis using True by (subst leaf_fill.simps) (auto simp: bit_or_iff)
  next
    case False
    then show ?thesis by (subst leaf_fill.simps) auto
  qed
qed

lemma bit_init_leaf:
  "p < 32 \<Longrightarrow> bit (init_leaf sz mx i) p \<longleftrightarrow> (i - sz) * 32 + p < mx"
  by (auto simp: init_leaf_def bit_leaf_fill)

lemma init_leaf_eq_0: "init_leaf sz mx i = 0 \<longleftrightarrow> mx \<le> (i - sz) * 32"
proof
  assume "init_leaf sz mx i = 0"
  then have "\<not> bit (init_leaf sz mx i) 0" by simp
  then show "mx \<le> (i - sz) * 32" by (simp add: bit_init_leaf)
next
  assume "mx \<le> (i - sz) * 32"
  then show "init_leaf sz mx i = 0"
    by (intro bit_word_eqI) (simp add: bit_init_leaf)
qed

lemma asm_bsf_least:
  assumes "w \<noteq> 0"
  shows "bit w (asm_bsf w) \<and> asm_bsf w < 32 \<and> (\<forall>j < asm_bsf w. \<not> bit w j)"
proof -
  define L where "L = filter (bit w) [0..<32]"
  have set_L: "set L = {j. bit w j}"
    unfolding L_def set_filter set_upt by (auto dest: bit32_less)
  with assms have ne: "L \<noteq> []" by (auto simp: bit_eq_iff)
  have bsf: "asm_bsf w = hd L" using ne by (auto simp: asm_bsf_def L_def [symmetric] split: list.splits)
  have srt: "sorted L" unfolding L_def by (simp add: sorted_wrt_filter)
  from ne have in_L: "hd L \<in> set L" by simp
  have "\<not> bit w j" if "j < hd L" for j
  proof
    assume "bit w j"
    then have "j \<in> set L" by (simp add: set_L)
    with srt ne that show False by (cases L) auto
  qed
  with in_L bsf show ?thesis by (auto simp: set_L dest: bit32_less)
qed

section \<open>The free set and the tree invariant\<close>

text \<open>What the allocator means: the set of free frames, read off the leaves.\<close>

definition leaf_bit :: "nat \<Rightarrow> u32 list \<Rightarrow> nat \<Rightarrow> bool" where
  "leaf_bit sz t f \<longleftrightarrow> bit (t ! (sz + f div 32)) (f mod 32)"

definition frames_in :: "nat \<Rightarrow> u32 list \<Rightarrow> nat \<Rightarrow> nat \<Rightarrow> nat set" where
  "frames_in sz t lo hi = {f. lo \<le> sz + f div 32 \<and> sz + f div 32 < hi \<and> leaf_bit sz t f}"

definition free_set :: "nat \<Rightarrow> u32 list \<Rightarrow> nat set" where
  "free_set sz t = frames_in sz t sz (2 * sz)"

definition enc :: "nat set \<Rightarrow> u32" where
  "enc S = (if S = {} then NAN else word_of_nat (Min S))"

definition combine :: "u32 \<Rightarrow> u32 \<Rightarrow> u32" where
  "combine left right = (if left \<noteq> NAN then left else right)"

definition node_ok :: "nat \<Rightarrow> u32 list \<Rightarrow> nat \<Rightarrow> bool" where
  "node_ok sz t i \<longleftrightarrow> t ! i = combine (child_value sz t (2 * i)) (child_value sz t (2 * i + 1))"

text \<open>Fewer than \<open>2^31\<close> frames (\<open>max_num\<close> is an \<open>int\<close>), so at most \<open>2^26\<close> leaves,
  and at least two leaves: with a single leaf the root would be a bitmap.\<close>

definition seg_shape :: "nat \<Rightarrow> u32 list \<Rightarrow> bool" where
  "seg_shape sz t \<longleftrightarrow> (\<exists>k. 1 \<le> k \<and> k \<le> 26 \<and> sz = 2 ^ k) \<and> length t = 2 * sz"

definition seg_inv :: "nat \<Rightarrow> u32 list \<Rightarrow> bool" where
  "seg_inv sz t \<longleftrightarrow> seg_shape sz t \<and> (\<forall>i. 1 \<le> i \<and> i < sz \<longrightarrow> node_ok sz t i)"

lemma finite_frames_in: "finite (frames_in sz t lo hi)"
proof (rule finite_subset)
  show "frames_in sz t lo hi \<subseteq> {f. f div 32 < hi}" by (auto simp: frames_in_def)
  have "{f. f div 32 < hi} \<subseteq> {..< 32 * hi}" by (auto simp: less_mult_imp_div_less div_less_iff_less_mult mult.commute)
  then show "finite {f. f div 32 < hi}" by (rule finite_subset) simp
qed

lemma frames_in_split:
  "lo \<le> mid \<Longrightarrow> mid \<le> hi \<Longrightarrow> frames_in sz t lo hi = frames_in sz t lo mid \<union> frames_in sz t mid hi"
  by (auto simp: frames_in_def)

lemma frames_in_below:
  "f \<in> frames_in sz t lo mid \<Longrightarrow> g \<in> frames_in sz t mid hi \<Longrightarrow> f < g"
proof -
  assume "f \<in> frames_in sz t lo mid" "g \<in> frames_in sz t mid hi"
  then have "f div 32 < g div 32" by (auto simp: frames_in_def)
  then show "f < g" by (meson div_le_mono leD leI)
qed

text \<open>Encodings of frames below \<open>2^31\<close> are never \<open>NAN\<close>.\<close>

lemma frame_not_NAN: "f < 2 ^ 31 \<Longrightarrow> word_of_nat f \<noteq> NAN"
proof
  assume "f < 2 ^ 31" and "word_of_nat f = NAN"
  then have "unat (word_of_nat f :: u32) = unat NAN" by simp
  moreover have "unat (word_of_nat f :: u32) = f"
    using \<open>f < 2 ^ 31\<close> by (intro unat_word_of_nat32) simp
  moreover have "unat NAN = 2 ^ 32 - 1" unfolding NAN_def by (simp add: unsigned_minus_1_eq_mask mask_eq_exp_minus_1)
  ultimately show False using \<open>f < 2 ^ 31\<close> by simp
qed

lemma frames_in_bound:
  assumes "seg_shape sz t" and "f \<in> frames_in sz t lo hi" and "hi \<le> 2 * sz"
  shows "f < 2 ^ 31"
proof -
  from assms obtain k where k: "k \<le> 26" "sz = 2 ^ k" by (auto simp: seg_shape_def)
  from assms(2,3) have "f div 32 < sz" by (auto simp: frames_in_def)
  also have "sz \<le> 2 ^ 26" unfolding k(2) by (rule power_increasing) (use k(1) in auto)
  finally show ?thesis by simp
qed

lemma combine_enc:
  assumes "seg_shape sz t" and "lo \<le> mid" "mid \<le> hi" "hi \<le> 2 * sz"
  shows "combine (enc (frames_in sz t lo mid)) (enc (frames_in sz t mid hi)) = enc (frames_in sz t lo hi)"
proof (cases "frames_in sz t lo mid = {}")
  case True
  then show ?thesis using frames_in_split [OF assms(2,3), of sz t] by (simp add: combine_def enc_def)
next
  case False
  let ?A = "frames_in sz t lo mid" and ?B = "frames_in sz t mid hi"
  have "Min ?A \<in> ?A" using False by (intro Min_in finite_frames_in)
  then have nn: "word_of_nat (Min ?A) \<noteq> NAN"
    using assms frames_in_bound [OF assms(1), of "Min ?A" lo mid] by (intro frame_not_NAN) simp
  have "Min (?A \<union> ?B) = Min ?A"
  proof (rule Min_eqI)
    show "Min ?A \<le> y" if "y \<in> ?A \<union> ?B" for y
      using that \<open>Min ?A \<in> ?A\<close> finite_frames_in [of sz t lo mid]
      by (auto dest: frames_in_below intro: less_imp_le)
  qed (use \<open>Min ?A \<in> ?A\<close> finite_frames_in in auto)
  with nn False show ?thesis using frames_in_split [OF assms(2,3), of sz t] by (simp add: combine_def enc_def)
qed

lemma leaf_value:
  assumes "seg_shape sz t" and "sz \<le> i" "i < 2 * sz"
  shows "child_value sz t i = enc (frames_in sz t i (i + 1))"
proof (cases "t ! i = 0")
  case True
  have "frames_in sz t i (i + 1) = {}"
  proof -
    have "\<not> leaf_bit sz t f" if "i \<le> sz + f div 32" "sz + f div 32 < i + 1" for f
    proof -
      from that have "sz + f div 32 = i" by simp
      with True show ?thesis by (simp add: leaf_bit_def)
    qed
    then show ?thesis by (auto simp: frames_in_def)
  qed
  with True assms show ?thesis by (simp add: child_value_def IS_LEAF_def enc_def)
next
  case False
  let ?b = "asm_bsf (t ! i)" and ?f = "(i - sz) * 32 + asm_bsf (t ! i)"
  note b = asm_bsf_least [OF False]
  have f_in: "?f \<in> frames_in sz t i (i + 1)"
    using assms b by (auto simp: frames_in_def leaf_bit_def)
  moreover have "Min (frames_in sz t i (i + 1)) = ?f"
  proof (rule Min_eqI [OF finite_frames_in _ f_in])
    fix g assume "g \<in> frames_in sz t i (i + 1)"
    then have "sz + g div 32 = i" and b': "leaf_bit sz t g" by (auto simp: frames_in_def)
    then have g: "g div 32 = i - sz" "bit (t ! i) (g mod 32)" by (auto simp: leaf_bit_def)
    then have "?b \<le> g mod 32" using b by (meson not_le)
    then show "?f \<le> g" using g(1) by (metis add_le_cancel_left div_mult_mod_eq)
  qed
  ultimately show ?thesis using False assms
    by (auto simp: child_value_def IS_LEAF_def enc_def)
qed

text \<open>The meaning of every node: the least free frame below it.\<close>

lemma node_value:
  assumes "seg_shape (2 ^ k) t"
    and ok: "\<forall>j. 1 \<le> j \<and> j < 2 ^ k \<longrightarrow> node_ok (2 ^ k) t j"
    and "d \<le> k" and "2 ^ (k - d) \<le> i" and "i < 2 ^ (k - d + 1)"
  shows "child_value (2 ^ k) t i = enc (frames_in (2 ^ k) t (i * 2 ^ d) ((i + 1) * 2 ^ d))"
  using assms(3-5)
proof (induction d arbitrary: i)
  case 0
  then show ?case using leaf_value [OF assms(1), of i] by simp
next
  case (Suc d)
  let ?sz = "2 ^ k :: nat"
  from Suc.prems have kd: "k - d = Suc (k - Suc d)" by simp
  have "i < 2 ^ (k - d)" using Suc.prems kd by simp
  also have "\<dots> \<le> ?sz" by (simp add: power_increasing)
  finally have small: "i < ?sz" .
  have pos: "1 \<le> i" using Suc.prems(2) by (metis le_trans one_le_numeral one_le_power)
  have l: "child_value ?sz t (2 * i) = enc (frames_in ?sz t (2 * i * 2 ^ d) ((2 * i + 1) * 2 ^ d))"
    by (rule Suc.IH) (use Suc.prems kd in auto)
  have r: "child_value ?sz t (2 * i + 1) = enc (frames_in ?sz t ((2 * i + 1) * 2 ^ d) ((2 * i + 1 + 1) * 2 ^ d))"
    by (rule Suc.IH) (use Suc.prems kd in auto)
  have hi: "(2 * i + 1 + 1) * 2 ^ d \<le> 2 * ?sz"
  proof -
    have "i + 1 \<le> 2 ^ (k - d)" using \<open>i < 2 ^ (k - d)\<close> by simp
    then have "(i + 1) * 2 ^ d \<le> 2 ^ (k - d) * 2 ^ d" by (rule mult_le_mono1)
    also have "\<dots> = ?sz" using Suc.prems by (simp add: power_add [symmetric])
    finally show ?thesis by (simp add: algebra_simps)
  qed
  have "child_value ?sz t i = t ! i" using small by (simp add: child_value_def IS_LEAF_def)
  also have "\<dots> = combine (child_value ?sz t (2 * i)) (child_value ?sz t (2 * i + 1))"
    using ok pos small by (simp add: node_ok_def)
  also have "\<dots> = enc (frames_in ?sz t (2 * i * 2 ^ d) ((2 * i + 1 + 1) * 2 ^ d))"
    unfolding l r by (rule combine_enc [OF assms(1)]) (use hi in auto)
  finally show ?case by (simp add: algebra_simps)
qed

lemma root_value: "seg_inv sz t \<Longrightarrow> t ! 1 = enc (free_set sz t)"
proof -
  assume inv: "seg_inv sz t"
  then obtain k where k: "1 \<le> k" "sz = 2 ^ k" by (auto simp: seg_inv_def seg_shape_def)
  have "child_value sz t 1 = enc (frames_in sz t (1 * 2 ^ k) ((1 + 1) * 2 ^ k))"
    using inv k node_value [of k t k 1] by (simp add: seg_inv_def)
  moreover have "1 < sz" using k by (metis One_nat_def Suc_le_lessD one_less_numeral_iff one_less_power semiring_norm(76))
  moreover have "(1 + 1) * 2 ^ k = 2 * sz" using k by simp
  ultimately show ?thesis using k by (simp add: child_value_def IS_LEAF_def free_set_def mult_2)
qed

section \<open>Updating the path to the root\<close>

definition above :: "nat \<Rightarrow> nat \<Rightarrow> bool" where
  "above idx i \<longleftrightarrow> (\<exists>d. i = idx div 2 ^ d)"

lemma above_self: "above i i"
  by (auto simp: above_def intro: exI [of _ 0])

lemma above_step: "above idx i \<Longrightarrow> i = idx \<or> above (idx div 2) i"
proof -
  assume "above idx i"
  then obtain d where d: "i = idx div 2 ^ d" by (auto simp: above_def)
  show ?thesis
  proof (cases d)
    case 0
    with d show ?thesis by simp
  next
    case (Suc e)
    with d have "i = (idx div 2) div 2 ^ e" by (simp add: div_mult2_eq)
    then show ?thesis by (auto simp: above_def)
  qed
qed

lemma child_value_upd: "i \<noteq> j \<Longrightarrow> child_value sz (t[i := w]) j = child_value sz t j"
  by (simp add: child_value_def)

lemma node_ok_upd:
  "\<lbrakk>i \<noteq> j; j div 2 \<noteq> i\<rbrakk> \<Longrightarrow> node_ok sz (t[j := w]) i = node_ok sz t i"
proof -
  assume "i \<noteq> j" "j div 2 \<noteq> i"
  then have "j \<noteq> 2 * i" "j \<noteq> 2 * i + 1" by auto
  with \<open>i \<noteq> j\<close> show ?thesis by (simp add: node_ok_def child_value_upd)
qed

lemma update_tree_inv:
  "\<lbrakk>seg_shape sz t; idx < sz; \<forall>i. 1 \<le> i \<and> i < sz \<and> \<not> above idx i \<longrightarrow> node_ok sz t i\<rbrakk> \<Longrightarrow>
   seg_inv sz (update_tree sz t idx) \<and> (\<forall>i \<ge> sz. update_tree sz t idx ! i = t ! i)"
proof (induction sz t idx rule: update_tree.induct)
  case (1 sz t idx)
  show ?case
  proof (cases "idx = 0")
    case True
    then have "\<not> above idx i" if "1 \<le> i" for i using that by (auto simp: above_def)
    moreover have "update_tree sz t 0 = t" by (subst update_tree.simps) simp
    ultimately show ?thesis using 1 True by (auto simp: seg_inv_def)
  next
    case False
    define w where "w = combine (child_value sz t (idx * 2)) (child_value sz t (idx * 2 + 1))"
    let ?t = "t[idx := w]"
    have eq: "update_tree sz t idx = update_tree sz ?t (idx div 2)"
      using False by (subst update_tree.simps) (simp add: Let_def w_def combine_def)
    have shape: "seg_shape sz ?t" using "1.prems"(1) by (simp add: seg_shape_def)
    have "node_ok sz ?t i" if i: "1 \<le> i" "i < sz" "\<not> above (idx div 2) i" for i
    proof (cases "i = idx")
      case True
      have "idx < length t" using "1.prems"(1,2) by (simp add: seg_shape_def)
      with True False show ?thesis by (simp add: node_ok_def child_value_upd w_def mult.commute)
    next
      case False
      have "idx div 2 \<noteq> i" using i above_self by blast
      moreover have "\<not> above idx i" using above_step [of idx i] False i by auto
      ultimately show ?thesis using False "1.prems"(3) i by (subst node_ok_upd) auto
    qed
    then have "seg_inv sz (update_tree sz ?t (idx div 2)) \<and>
        (\<forall>i \<ge> sz. update_tree sz ?t (idx div 2) ! i = ?t ! i)"
      using False shape "1.prems"(2) "1.IH" by (simp add: Let_def w_def combine_def)
    then show ?thesis using "1.prems"(2) by (simp add: eq)
  qed
qed

text \<open>Changing one leaf and updating its ancestors keeps the invariant and changes only that leaf.\<close>

lemma leaf_update:
  fixes w :: u32
  assumes inv: "seg_inv sz t" and L: "sz \<le> L" "L < 2 * sz"
  defines "t' \<equiv> update_tree sz (t[L := w]) (L div 2)"
  shows "seg_inv sz t'" and "\<And>i. sz \<le> i \<Longrightarrow> t' ! i = t[L := w] ! i"
proof -
  have shape: "seg_shape sz (t[L := w])" using inv by (simp add: seg_inv_def seg_shape_def)
  have ok: "node_ok sz (t[L := w]) i" if "1 \<le> i" "i < sz" "\<not> above (L div 2) i" for i
  proof -
    have "L div 2 \<noteq> i" using that above_self by blast
    with that inv L show ?thesis by (subst node_ok_upd) (auto simp: seg_inv_def)
  qed
  have "L div 2 < sz" using L by auto
  with update_tree_inv [OF shape] ok show "seg_inv sz t'" and "\<And>i. sz \<le> i \<Longrightarrow> t' ! i = t[L := w] ! i"
    by (auto simp: t'_def)
qed

lemma free_set_leaf:
  "free_set sz t = {f. f div 32 < sz \<and> leaf_bit sz t f}"
  by (auto simp: free_set_def frames_in_def)

lemma free_set_cong:
  "(\<And>i. sz \<le> i \<Longrightarrow> t' ! i = t ! i) \<Longrightarrow> free_set sz t' = free_set sz t"
  by (simp add: free_set_leaf leaf_bit_def)

lemma free_set_upd:
  assumes "length t = 2 * sz" and "f div 32 < sz"
  shows "free_set sz (t[sz + f div 32 := t ! (sz + f div 32) AND NOT (push_bit (f mod 32) 1)]) = free_set sz t - {f}"
    and "free_set sz (t[sz + f div 32 := t ! (sz + f div 32) OR push_bit (f mod 32) 1]) = insert f (free_set sz t)"
proof -
  have len: "sz + f div 32 < length t" using assms by simp
  have same: "g = f \<longleftrightarrow> g div 32 = f div 32 \<and> g mod 32 = f mod 32" for g
    by (metis div_mult_mod_eq)
  have bit1: "bit (push_bit (f mod 32) 1 :: u32) (g mod 32) \<longleftrightarrow> g mod 32 = f mod 32" for g
    by (auto simp: bit_exp_iff)
  have nthu: "t[sz + f div 32 := w] ! (sz + g div 32) = (if g div 32 = f div 32 then w else t ! (sz + g div 32))"
    for g w using len by simp
  show "free_set sz (t[sz + f div 32 := t ! (sz + f div 32) AND NOT (push_bit (f mod 32) 1)]) = free_set sz t - {f}"
  proof (rule set_eqI)
    fix g
    show "g \<in> free_set sz (t[sz + f div 32 := t ! (sz + f div 32) AND NOT (push_bit (f mod 32) 1)]) \<longleftrightarrow>
        g \<in> free_set sz t - {f}"
      unfolding free_set_leaf leaf_bit_def nthu mem_Collect_eq Diff_iff singleton_iff
      by (cases "g div 32 = f div 32")
         (simp_all only: if_True if_False bit_and_iff bit_not_iff bit1 same possible_bit_word,
           auto simp: bit_and_iff bit_not_iff bit_exp_iff)
  qed
  show "free_set sz (t[sz + f div 32 := t ! (sz + f div 32) OR push_bit (f mod 32) 1]) = insert f (free_set sz t)"
  proof (rule set_eqI)
    fix g
    show "g \<in> free_set sz (t[sz + f div 32 := t ! (sz + f div 32) OR push_bit (f mod 32) 1]) \<longleftrightarrow>
        g \<in> insert f (free_set sz t)"
      unfolding free_set_leaf leaf_bit_def nthu mem_Collect_eq insert_iff using assms(2)
      by (cases "g div 32 = f div 32")
         (simp_all only: if_True if_False bit_or_iff bit1 same, auto simp: bit_or_iff bit_exp_iff)
  qed
qed

lemma get_next_some:
  assumes "seg_tree s cpu = Some t" and inv: "seg_inv (size_n s) t" and ne: "free_set (size_n s) t \<noteq> {}"
  shows "\<exists>t'. get_next cpu s = Inr (s\<lparr>seg_tree := (seg_tree s)(cpu := Some t')\<rparr>,
                                   word_of_nat (Min (free_set (size_n s) t))) \<and>
     seg_inv (size_n s) t' \<and>
     free_set (size_n s) t' = free_set (size_n s) t - {Min (free_set (size_n s) t)}"
proof -
  let ?sz = "size_n s" and ?m = "Min (free_set (size_n s) t)"
  have fin: "finite (free_set ?sz t)" by (simp add: free_set_def finite_frames_in)
  have m_in: "?m \<in> free_set ?sz t" using fin ne by (rule Min_in)
  have m31: "?m < 2 ^ 31"
    using inv m_in frames_in_bound [of ?sz t ?m ?sz "2 * ?sz"] by (auto simp: free_set_def seg_inv_def)
  from inv have len: "length t = 2 * ?sz" and pos: "?sz > 0" by (auto simp: seg_inv_def seg_shape_def)
  have root: "t ! 1 = word_of_nat ?m" using root_value [OF inv] ne by (simp add: enc_def)
  have mdiv: "?m div 32 < ?sz" using m_in by (simp add: free_set_leaf)
  have unat_m: "unat (word_of_nat ?m :: u32) = ?m" using m31 by (intro unat_word_of_nat32) simp
  define L where "L = ?sz + ?m div 32"
  define w where "w = t ! L AND NOT (push_bit (?m mod 32) 1)"
  define t' where "t' = update_tree ?sz (t[L := w]) (L div 2)"
  have L: "?sz \<le> L" "L < 2 * ?sz" using mdiv by (simp_all add: L_def)
  note upd = leaf_update [OF inv L, where w = w, folded t'_def]
  have "free_set ?sz t' = free_set ?sz (t[L := w])" by (rule free_set_cong) (rule upd(2))
  also have "\<dots> = free_set ?sz t - {?m}" unfolding L_def w_def by (rule free_set_upd(1) [OF len mdiv])
  finally have frees: "free_set ?sz t' = free_set ?sz t - {?m}" .
  have "get_next cpu s = Inr (s\<lparr>seg_tree := (seg_tree s)(cpu := Some t')\<rparr>, word_of_nat ?m)"
    using assms(1) len pos L frame_not_NAN [OF m31]
    by (simp add: get_next_def Let_def root [unfolded One_nat_def] unat_drop_bit5 unat_mod32 unat_m t'_def w_def L_def add.commute)
  with upd(1) frees show ?thesis by blast
qed

lemma get_next_none:
  assumes "seg_tree s cpu = Some t" and inv: "seg_inv (size_n s) t" and "free_set (size_n s) t = {}"
  shows "get_next cpu s = Inr (s, NAN)"
proof -
  from inv have "length t = 2 * size_n s" "size_n s > 0" by (auto simp: seg_inv_def seg_shape_def)
  moreover have "t ! 1 = NAN" using root_value [OF inv] assms(3) by (simp add: enc_def)
  ultimately show ?thesis using assms(1) by (simp add: get_next_def Let_def)
qed

lemma put_back_some:
  assumes "seg_tree s cpu = Some t" and inv: "seg_inv (size_n s) t" and f: "f div 32 < size_n s"
  shows "\<exists>t'. put_back cpu (word_of_nat f) s = Inr (s\<lparr>seg_tree := (seg_tree s)(cpu := Some t')\<rparr>) \<and>
     seg_inv (size_n s) t' \<and> free_set (size_n s) t' = insert f (free_set (size_n s) t)"
proof -
  let ?sz = "size_n s"
  from inv obtain k where k: "k \<le> 26" "?sz = 2 ^ k" and len: "length t = 2 * ?sz"
    by (auto simp: seg_inv_def seg_shape_def)
  have "?sz \<le> 2 ^ 26" unfolding k(2) by (rule power_increasing) (use k(1) in auto)
  with f have "f < 2 ^ 32" by simp
  then have unat_f: "unat (word_of_nat f :: u32) = f" by (rule unat_word_of_nat32)
  define L where "L = ?sz + f div 32"
  define w where "w = t ! L OR push_bit (f mod 32) 1"
  define t' where "t' = update_tree ?sz (t[L := w]) (L div 2)"
  have L: "?sz \<le> L" "L < 2 * ?sz" using f by (simp_all add: L_def)
  note upd = leaf_update [OF inv L, where w = w, folded t'_def]
  have "free_set ?sz t' = free_set ?sz (t[L := w])" by (rule free_set_cong) (rule upd(2))
  also have "\<dots> = insert f (free_set ?sz t)" unfolding L_def w_def by (rule free_set_upd(2) [OF len f])
  finally have frees: "free_set ?sz t' = insert f (free_set ?sz t)" .
  have "put_back cpu (word_of_nat f) s = Inr (s\<lparr>seg_tree := (seg_tree s)(cpu := Some t')\<rparr>)"
    using assms(1) len L
    by (simp add: put_back_def Let_def unat_drop_bit5 unat_mod32 unat_f t'_def w_def L_def add.commute)
  with upd(1) frees show ?thesis by blast
qed

section \<open>Initialisation establishes the invariant\<close>

lemma get_next_pow2_value:
  assumes "1 < unat v" and "unat v \<le> 2 ^ 31"
  shows "\<exists>j \<le> 31. unat (get_next_pow2 v) = 2 ^ j \<and> unat v \<le> 2 ^ j \<and> 2 ^ j < 2 * unat v"
proof -
  have "v \<noteq> 0" using assms by auto
  then have v1: "unat (v - 1) = unat v - 1" by (rule unat_minus_one)
  then have "v - 1 \<noteq> 0" using assms by (auto simp: unat_eq_0 [symmetric])
  from smear_mask [OF this] obtain m where m: "smear (v - 1) = mask (Suc m)"
    "unat (v - 1) < 2 ^ Suc m" "2 ^ m \<le> unat (v - 1)" by blast
  have "(2::nat) ^ m < 2 ^ 31" using m(3) v1 assms by linarith
  then have m31: "m < 31" by (rule power_less_imp_less_exp [rotated]) simp
  have "get_next_pow2 v = 2 ^ Suc m"
    by (simp add: get_next_pow2_smear m(1) mask_eq_exp_minus_1)
  moreover have "unat (2 ^ Suc m :: u32) = 2 ^ Suc m"
  proof -
    have "(2 :: nat) ^ Suc m < 2 ^ 32" using m31 by (intro power_strict_increasing) auto
    from unat_word_of_nat32 [OF this] show ?thesis by simp
  qed
  ultimately show ?thesis using m m31 v1 assms by (intro exI [of _ "Suc m"]) auto
qed

definition init_value :: "nat \<Rightarrow> nat \<Rightarrow> nat \<Rightarrow> nat \<Rightarrow> u32" where
  "init_value sz mx d i =
     (if (i * 2 ^ d - sz) * 32 < mx then word_of_nat ((i * 2 ^ d - sz) * 32) else NAN)"

lemma above_children: "above m i \<Longrightarrow> m = i \<or> above m (2 * i) \<or> above m (2 * i + 1)"
proof -
  assume "above m i"
  then obtain d where d: "i = m div 2 ^ d" by (auto simp: above_def)
  show ?thesis
  proof (cases d)
    case 0
    with d show ?thesis by simp
  next
    case (Suc e)
    with d have "(m div 2 ^ e) div 2 = i" by (simp add: div_mult2_eq [symmetric] mult.commute)
    then have "m div 2 ^ e = 2 * i \<or> m div 2 ^ e = 2 * i + 1" by auto
    then show ?thesis by (metis above_def)
  qed
qed

lemma above_le: "above m i \<Longrightarrow> i \<le> m"
  by (auto simp: above_def)

lemma above_double: "above m i \<Longrightarrow> above (2 * m) i \<and> above (2 * m + 1) i"
proof -
  assume "above m i"
  then obtain d where d: "i = m div 2 ^ d" by (auto simp: above_def)
  have "i = (2 * m) div 2 ^ Suc d" "i = (2 * m + 1) div 2 ^ Suc d" using d by (simp_all add: div_mult2_eq)
  then show ?thesis unfolding above_def by blast
qed

lemma above_siblings: "\<lbrakk>1 \<le> i; above m (2 * i)\<rbrakk> \<Longrightarrow> \<not> above m (2 * i + 1)"
proof
  assume i: "1 \<le> i" and "above m (2 * i)" "above m (2 * i + 1)"
  then obtain d e where d: "2 * i = m div 2 ^ d" and e: "2 * i + 1 = m div 2 ^ e" by (auto simp: above_def)
  consider "d \<le> e" | "e < d" by linarith
  then show False
  proof cases
    case 1
    then have "m div 2 ^ e = (m div 2 ^ d) div 2 ^ (e - d)"
      by (simp add: div_mult2_eq [symmetric] power_add [symmetric])
    then have "m div 2 ^ e \<le> m div 2 ^ d" by (simp add: div_le_dividend)
    with d e show False by simp
  next
    case 2
    then obtain c where c: "d = e + Suc c" using less_iff_Suc_add by auto
    have "m div 2 ^ d = ((m div 2 ^ e) div 2) div 2 ^ c"
      by (simp add: c div_mult2_eq [symmetric] power_add mult_ac)
    also have "\<dots> \<le> (m div 2 ^ e) div 2" by (rule div_le_dividend)
    finally have "2 * i \<le> (2 * i + 1) div 2" by (simp only: d [symmetric] e [symmetric])
    with i show False by simp
  qed
qed

lemma above_one: "1 \<le> m \<Longrightarrow> above m 1"
proof (induction m rule: less_induct)
  case (less m)
  show ?case
  proof (cases "m = 1")
    case True
    then show ?thesis by (simp add: above_self)
  next
    case False
    with less have "above (m div 2) 1" by auto
    then obtain d where "1 = (m div 2) div 2 ^ d" by (auto simp: above_def)
    then have "1 = m div 2 ^ Suc d" by (simp add: div_mult2_eq)
    then show ?thesis unfolding above_def by blast
  qed
qed

lemma init_value_combine:
  assumes "mx < 2 ^ 31" and "sz \<le> 2 * i * 2 ^ d"
  shows "combine (init_value sz mx d (2 * i)) (init_value sz mx d (2 * i + 1)) = init_value sz mx d (2 * i)"
proof (cases "(2 * i * 2 ^ d - sz) * 32 < mx")
  case True
  then have "init_value sz mx d (2 * i) \<noteq> NAN"
    using assms frame_not_NAN [of "(2 * i * 2 ^ d - sz) * 32"] by (simp add: init_value_def)
  then show ?thesis by (simp add: combine_def)
next
  case False
  have "(2 * i * 2 ^ d - sz) * 32 \<le> ((2 * i + 1) * 2 ^ d - sz) * 32"
    by (intro mult_le_mono1 diff_le_mono) simp
  with False have "\<not> ((2 * i + 1) * 2 ^ d - sz) * 32 < mx" by linarith
  with False show ?thesis by (simp add: combine_def init_value_def)
qed

definition init_post :: "nat \<Rightarrow> nat \<Rightarrow> nat \<Rightarrow> u32 list \<Rightarrow> u32 list \<Rightarrow> bool" where
  "init_post sz mx i t t' \<longleftrightarrow> length t' = 2 * sz \<and>
     (\<forall>m. \<not> above m i \<longrightarrow> t' ! m = t ! m) \<and>
     (\<forall>m. sz \<le> m \<and> m < 2 * sz \<and> above m i \<longrightarrow> t' ! m = init_leaf sz mx m) \<and>
     (\<forall>m. m < sz \<and> above m i \<longrightarrow> node_ok sz t' m)"

lemma init_recursive_leaf:
  assumes "sz \<le> i" "i < 2 * sz" "length t = 2 * sz" "0 < sz"
  shows "\<exists>t'. init_recursive sz mx i t = Some (t', init_value sz mx 0 i) \<and> init_post sz mx i t t' \<and>
     child_value sz t' i = init_value sz mx 0 i"
proof -
  let ?t = "t[i := init_leaf sz mx i]"
  have leaf: "t[i := init_leaf sz mx i] ! i = init_leaf sz mx i" using assms by simp
  have eq: "init_recursive sz mx i t = Some (?t, init_value sz mx 0 i)"
    using assms leaf
    by (subst init_recursive.simps)
       (auto simp: IS_VALID_def IS_LEAF_def Let_def init_value_def init_leaf_eq_0 not_le)
  have only: "m = i" if "above m i" "m < 2 * sz" for m
  proof -
    from that obtain d where d: "i = m div 2 ^ d" by (auto simp: above_def)
    show ?thesis
    proof (cases d)
      case (Suc e)
      then have "i \<le> m div 2" using d by (simp add: div_mult2_eq div_le_dividend)
      with that assms show ?thesis by simp
    qed (use d in simp)
  qed
  have "init_post sz mx i t ?t"
  proof -
    have "?t ! m = t ! m" if "\<not> above m i" for m using that above_self [of i] by (cases "m = i") auto
    moreover have "?t ! m = init_leaf sz mx m" if "m < 2 * sz" "above m i" for m using only that leaf by auto
    moreover have "\<not> (m < sz \<and> above m i)" for m using above_le [of m i] assms(1) by auto
    ultimately show ?thesis using assms(3) by (auto simp: init_post_def)
  qed
  moreover have "asm_bsf (init_leaf sz mx i) = 0" if "init_leaf sz mx i \<noteq> 0"
  proof -
    from that have "bit (init_leaf sz mx i) 0" by (simp add: bit_init_leaf init_leaf_eq_0 not_le)
    with asm_bsf_least [OF that] show ?thesis by (metis gr0I)
  qed
  then have "child_value sz ?t i = init_value sz mx 0 i"
    using assms leaf init_leaf_eq_0 [of sz mx i]
    by (auto simp: child_value_def IS_LEAF_def init_value_def)
  ultimately show ?thesis using eq by blast
qed

lemma child_value_cong: "t' ! i = t ! i \<Longrightarrow> child_value sz t' i = child_value sz t i"
  by (simp add: child_value_def)

text \<open>The two recursive calls write disjoint subtrees, so what the first established survives the
  second.\<close>

lemma init_post_join:
  assumes i: "1 \<le> i" "i < sz"
    and l: "init_post sz mx (2 * i) t t1" and r: "init_post sz mx (2 * i + 1) (t1[i := v]) t3"
    and ok: "node_ok sz t3 i"
  shows "init_post sz mx i t t3"
proof -
  have keep: "t3 ! m = t1 ! m" if "m \<noteq> i" "\<not> above m (2 * i + 1)" for m
    using r that by (simp add: init_post_def)
  have left: "t3 ! m = t1 ! m" if "above m (2 * i)" for m
  proof (rule keep)
    show "m \<noteq> i" using above_le [OF that] i by auto
    show "\<not> above m (2 * i + 1)" using above_siblings that i by blast
  qed
  have node: "node_ok sz t3 m" if m: "m < sz" "above m i" for m
  proof -
    consider "m = i" | "above m (2 * i)" | "above m (2 * i + 1)" using above_children m(2) by blast
    then show ?thesis
    proof cases
      case 2
      then have "node_ok sz t1 m" using l m by (simp add: init_post_def)
      moreover have "t3 ! m = t1 ! m" "t3 ! (2 * m) = t1 ! (2 * m)" "t3 ! (2 * m + 1) = t1 ! (2 * m + 1)"
        using left 2 above_double [OF 2] by blast+
      ultimately show ?thesis
        by (simp add: node_ok_def child_value_cong [of t3 "2 * m" t1]
            child_value_cong [of t3 "2 * m + 1" t1, simplified])
    qed (use ok r m in \<open>auto simp: init_post_def\<close>)
  qed
  have leaf: "t3 ! m = init_leaf sz mx m" if m: "sz \<le> m" "m < 2 * sz" "above m i" for m
  proof -
    from m i above_children [OF m(3)] consider "above m (2 * i)" | "above m (2 * i + 1)" by auto
    then show ?thesis
    proof cases
      case 1
      then show ?thesis using l m left by (simp add: init_post_def)
    qed (use r m in \<open>simp add: init_post_def\<close>)
  qed
  have rest: "t3 ! m = t ! m" if "\<not> above m i" for m
  proof -
    have "\<not> above m (2 * i)" "\<not> above m (2 * i + 1)"
    proof -
      have up: "above c i" if "c div 2 = i" for c
        unfolding above_def by (rule exI [of _ 1]) (use that in simp)
      have trans: "above m c \<Longrightarrow> above c i \<Longrightarrow> above m i" for c
        unfolding above_def by (metis div_mult2_eq power_add)
      show "\<not> above m (2 * i)" using trans [of "2 * i"] up [of "2 * i"] that by auto
      show "\<not> above m (2 * i + 1)" using trans [of "2 * i + 1"] up [of "2 * i + 1"] that by auto
    qed
    moreover have "m \<noteq> i" using that above_self by blast
    ultimately show ?thesis using keep l by (simp add: init_post_def)
  qed
  show ?thesis using node leaf rest r by (simp add: init_post_def)
qed

lemma init_recursive_ok:
  assumes "mx < 2 ^ 31" and "d \<le> k" and "2 ^ (k - d) \<le> i" and "i < 2 ^ (k - d + 1)" and "length t = 2 * 2 ^ k"
  shows "\<exists>t'. init_recursive (2 ^ k) mx i t = Some (t', init_value (2 ^ k) mx d i) \<and>
     init_post (2 ^ k) mx i t t' \<and> child_value (2 ^ k) t' i = init_value (2 ^ k) mx d i"
  using assms(2-5)
proof (induction d arbitrary: i t)
  case 0
  then show ?case using init_recursive_leaf [of "2 ^ k" i t mx] by simp
next
  case (Suc d)
  let ?sz = "2 ^ k :: nat"
  from Suc.prems have kd: "k - d = Suc (k - Suc d)" by simp
  have "i < 2 ^ (k - d)" using Suc.prems kd by simp
  also have "\<dots> \<le> ?sz" by (simp add: power_increasing)
  finally have small: "i < ?sz" .
  have pos: "1 \<le> i" using Suc.prems(2) by (metis le_trans one_le_numeral one_le_power)
  have base: "?sz \<le> 2 * i * 2 ^ d"
  proof -
    have "2 ^ (k - Suc d) * 2 ^ Suc d = ?sz" using Suc.prems by (simp only: power_add [symmetric]) simp
    moreover have "2 ^ (k - Suc d) * 2 ^ Suc d \<le> i * 2 ^ Suc d" using Suc.prems(2) by (rule mult_le_mono1)
    ultimately show ?thesis by (simp add: mult_ac)
  qed
  obtain t1 where t1: "init_recursive ?sz mx (2 * i) t = Some (t1, init_value ?sz mx d (2 * i))"
      "init_post ?sz mx (2 * i) t t1" "child_value ?sz t1 (2 * i) = init_value ?sz mx d (2 * i)"
    using Suc.IH [of "2 * i" t] Suc.prems kd by auto
  define v where "v = init_value ?sz mx d (2 * i)"
  have len1: "length (t1[i := v]) = 2 * 2 ^ k" using t1(2) by (simp add: init_post_def)
  obtain t3 where t3: "init_recursive ?sz mx (2 * i + 1) (t1[i := v]) = Some (t3, init_value ?sz mx d (2 * i + 1))"
      "init_post ?sz mx (2 * i + 1) (t1[i := v]) t3"
      "child_value ?sz t3 (2 * i + 1) = init_value ?sz mx d (2 * i + 1)"
    using Suc.IH [of "2 * i + 1" "t1[i := v]"] Suc.prems(1-3) kd len1 by auto
  have "\<not> above i (2 * i + 1)" using above_le by fastforce
  then have t3i: "t3 ! i = v" using t3(2) len1 small by (simp add: init_post_def)
  have "\<not> above (2 * i) (2 * i + 1)" using above_le by fastforce
  then have "t3 ! (2 * i) = t1 ! (2 * i)" using t3(2) pos by (simp add: init_post_def)
  then have l: "child_value ?sz t3 (2 * i) = v" using t1(3) by (simp add: child_value_cong [of t3 "2 * i" t1] v_def)
  have "node_ok ?sz t3 i"
    using init_value_combine [OF assms(1) base] by (simp add: node_ok_def t3i l t3(3) [simplified] v_def)
  with init_post_join [OF pos small t1(2) t3(2)] have post: "init_post ?sz mx i t t3" .
  have "init_recursive ?sz mx i t = Some (t3, v)"
    using small t1(1) t3(1) t3i
    by (subst init_recursive.simps) (simp add: IS_VALID_def IS_LEAF_def mult.commute v_def)
  moreover have "v = init_value ?sz mx (Suc d) i" by (simp add: v_def init_value_def mult_ac)
  moreover have "child_value ?sz t3 i = v" using small t3i by (simp add: child_value_def IS_LEAF_def)
  ultimately show ?case using post by auto
qed

lemma init_recursive_root:
  assumes "mx < 2 ^ 31" and "1 \<le> k" "k \<le> 26" and "mx \<le> 32 * 2 ^ k"
  shows "\<exists>t v. init_recursive (2 ^ k) mx 1 (replicate (2 * 2 ^ k) 0) = Some (t, v) \<and>
     seg_inv (2 ^ k) t \<and> free_set (2 ^ k) t = {..<mx}"
proof -
  let ?sz = "2 ^ k :: nat"
  obtain t where t: "init_recursive ?sz mx 1 (replicate (2 * ?sz) 0) = Some (t, init_value ?sz mx k 1)"
      and post: "init_post ?sz mx 1 (replicate (2 * ?sz) 0) t"
    using init_recursive_ok [OF assms(1), of k k 1 "replicate (2 * ?sz) 0"] by auto
  have inv: "seg_inv ?sz t"
    using post assms(2,3) above_one by (auto simp: seg_inv_def seg_shape_def init_post_def)
  have bits: "leaf_bit ?sz t f \<longleftrightarrow> f < mx" if "f div 32 < ?sz" for f
  proof -
    have "above (?sz + f div 32) 1" by (rule above_one) (simp add: Suc_leI)
    with post that have "t ! (?sz + f div 32) = init_leaf ?sz mx (?sz + f div 32)"
      by (simp add: init_post_def)
    then show ?thesis by (simp add: leaf_bit_def bit_init_leaf)
  qed
  have "f div 32 < ?sz" if "f < mx" for f using that assms(4) by auto
  with bits have "free_set ?sz t = {..<mx}" by (auto simp: free_set_leaf)
  with t inv show ?thesis by blast
qed

section \<open>The allocator contract\<close>

text \<open>Up to \<open>n\<close> allocations in a row, stopping at the first that fails.\<close>

primrec run_allocs :: "('s \<Rightarrow> 's \<times> nat option) \<Rightarrow> nat \<Rightarrow> 's \<Rightarrow> 's \<times> nat list" where
  "run_allocs alloc 0 s = (s, [])"
| "run_allocs alloc (Suc n) s =
     (case alloc s of (s', None) \<Rightarrow> (s', [])
      | (s', Some f) \<Rightarrow> (case run_allocs alloc n s' of (s'', fs) \<Rightarrow> (s'', f # fs)))"

text \<open>
  What the physical memory manager relies on: a pool has a set of free frames, allocation takes the
  least of them out (or reports that there is none) and release puts one back. The client lemmas
  speak of runs of allocations.
\<close>

locale frame_pool =
  fixes pool_inv :: "'s \<Rightarrow> bool"
    and frees :: "'s \<Rightarrow> nat set"
    and alloc :: "'s \<Rightarrow> 's \<times> nat option"
    and release :: "nat \<Rightarrow> 's \<Rightarrow> 's"
    and valid :: "'s \<Rightarrow> nat \<Rightarrow> bool"
  assumes finite_frees: "pool_inv s \<Longrightarrow> finite (frees s)"
    and alloc_empty: "\<lbrakk>pool_inv s; frees s = {}\<rbrakk> \<Longrightarrow> alloc s = (s, None)"
    and alloc_least: "\<lbrakk>pool_inv s; frees s \<noteq> {}\<rbrakk> \<Longrightarrow>
       \<exists>s'. alloc s = (s', Some (Min (frees s))) \<and> pool_inv s' \<and> frees s' = frees s - {Min (frees s)}"
    and release_frees: "\<lbrakk>pool_inv s; valid s f\<rbrakk> \<Longrightarrow>
       pool_inv (release f s) \<and> frees (release f s) = insert f (frees s)"
begin

lemma alloc_Some:
  assumes "pool_inv s" and "alloc s = (s', Some f)"
  shows "f = Min (frees s) \<and> f \<in> frees s \<and> frees s' = frees s - {f} \<and> pool_inv s'"
proof -
  have ne: "frees s \<noteq> {}" using assms alloc_empty by fastforce
  have "Min (frees s) \<in> frees s" using finite_frees [OF assms(1)] ne by (rule Min_in)
  moreover obtain s1 where "alloc s = (s1, Some (Min (frees s)))" "pool_inv s1" "frees s1 = frees s - {Min (frees s)}"
    using alloc_least [OF assms(1) ne] by blast
  ultimately show ?thesis using assms(2) by simp
qed

text \<open>No frame is handed out twice, all were free before, none is free after, and frames come in
  increasing order; the run stops short only when the pool is exhausted.\<close>

lemma allocs_spec:
  "\<lbrakk>pool_inv s; run_allocs alloc n s = (s', fs)\<rbrakk> \<Longrightarrow>
     distinct fs \<and> sorted fs \<and> set fs \<subseteq> frees s \<and> frees s' = frees s - set fs \<and> pool_inv s' \<and>
     length fs = min n (card (frees s))"
proof (induction n arbitrary: s s' fs)
  case 0
  then show ?case by simp
next
  case (Suc n)
  obtain s1 r where a: "alloc s = (s1, r)" by fastforce
  show ?case
  proof (cases "frees s = {}")
    case True
    with Suc.prems a alloc_empty [OF Suc.prems(1) True] show ?thesis by auto
  next
    case False
    from alloc_least [OF Suc.prems(1) False] a have r: "r = Some (Min (frees s))"
      and s1: "pool_inv s1" "frees s1 = frees s - {Min (frees s)}" by auto
    obtain s2 gs where b: "run_allocs alloc n s1 = (s2, gs)" by fastforce
    from Suc.prems a r b have fs: "fs = Min (frees s) # gs" "s' = s2" by simp_all
    note ih = Suc.IH [OF s1(1) b]
    note fin = finite_frees [OF Suc.prems(1)]
    have m: "Min (frees s) \<in> frees s" using fin False by (rule Min_in)
    have le: "Min (frees s) \<le> g" if "g \<in> frees s" for g using that fin by simp
    have sub: "set gs \<subseteq> frees s - {Min (frees s)}" using ih s1(2) by blast
    have card: "card (frees s) = Suc (card (frees s1))" unfolding s1(2) by (rule card.remove [OF fin m])
    define f where "f = Min (frees s)"
    have g: "distinct gs" "sorted gs" "frees s2 = frees s - {f} - set gs" "pool_inv s2"
      "length gs = min n (card (frees s1))" using ih s1(2) by (simp_all add: f_def)
    have f: "f \<notin> set gs" "set gs \<subseteq> frees s" "\<forall>g \<in> set gs. f \<le> g" "f \<in> frees s"
      using sub le m unfolding f_def [symmetric] by blast+
    have eq: "fs = f # gs" "s' = s2" using fs by (simp_all add: f_def)
    have "distinct fs \<and> sorted fs \<and> set fs \<subseteq> frees s" using f g(1,2) by (simp add: eq)
    moreover have "frees s' = frees s - set fs" unfolding eq g(3) by auto
    moreover have "pool_inv s' \<and> length fs = min (Suc n) (card (frees s))"
      using g(4,5) by (simp add: eq card)
    ultimately show ?thesis by blast
  qed
qed

end

definition seg_ok :: "nat \<Rightarrow> seg_state \<Rightarrow> bool" where
  "seg_ok cpu s \<longleftrightarrow> (case seg_tree s cpu of None \<Rightarrow> False | Some t \<Rightarrow> seg_inv (size_n s) t)"

definition seg_frees :: "nat \<Rightarrow> seg_state \<Rightarrow> nat set" where
  "seg_frees cpu s = (case seg_tree s cpu of None \<Rightarrow> {} | Some t \<Rightarrow> free_set (size_n s) t)"

definition seg_alloc :: "nat \<Rightarrow> seg_state \<Rightarrow> seg_state \<times> nat option" where
  "seg_alloc cpu s =
     (case get_next cpu s of Inl _ \<Rightarrow> (s, None)
      | Inr (s', r) \<Rightarrow> (s', if r = NAN then None else Some (unat r)))"

definition seg_release :: "nat \<Rightarrow> nat \<Rightarrow> seg_state \<Rightarrow> seg_state" where
  "seg_release cpu f s = (case put_back cpu (word_of_nat f) s of Inl _ \<Rightarrow> s | Inr s' \<Rightarrow> s')"

lemma seg_frees_bound: "seg_ok cpu s \<Longrightarrow> f \<in> seg_frees cpu s \<Longrightarrow> f < 2 ^ 31 \<and> f div 32 < size_n s"
  using frames_in_bound [of "size_n s" _ f "size_n s" "2 * size_n s"]
  by (auto simp: seg_ok_def seg_frees_def seg_inv_def free_set_def frames_in_def split: option.splits)

text \<open>The facts about \<open>get_next\<close> and \<open>put_back\<close> in terms of the pool.\<close>

lemma get_next_pool:
  assumes "seg_ok cpu s" and "seg_frees cpu s \<noteq> {}"
  shows "\<exists>t'. get_next cpu s = Inr (s\<lparr>seg_tree := (seg_tree s)(cpu := Some t')\<rparr>, word_of_nat (Min (seg_frees cpu s))) \<and>
     seg_ok cpu (s\<lparr>seg_tree := (seg_tree s)(cpu := Some t')\<rparr>) \<and>
     seg_frees cpu (s\<lparr>seg_tree := (seg_tree s)(cpu := Some t')\<rparr>) = seg_frees cpu s - {Min (seg_frees cpu s)}"
  using assms get_next_some by (auto simp: seg_ok_def seg_frees_def split: option.splits)

lemma get_next_pool_none:
  "\<lbrakk>seg_ok cpu s; seg_frees cpu s = {}\<rbrakk> \<Longrightarrow> get_next cpu s = Inr (s, NAN)"
  using get_next_none by (auto simp: seg_ok_def seg_frees_def split: option.splits)

lemma put_back_pool:
  assumes "seg_ok cpu s" and "f div 32 < size_n s"
  shows "\<exists>t'. put_back cpu (word_of_nat f) s = Inr (s\<lparr>seg_tree := (seg_tree s)(cpu := Some t')\<rparr>) \<and>
     seg_ok cpu (s\<lparr>seg_tree := (seg_tree s)(cpu := Some t')\<rparr>) \<and>
     seg_frees cpu (s\<lparr>seg_tree := (seg_tree s)(cpu := Some t')\<rparr>) = insert f (seg_frees cpu s)"
  using assms put_back_some by (auto simp: seg_ok_def seg_frees_def split: option.splits)

interpretation seg_pool: frame_pool "seg_ok cpu" "seg_frees cpu" "seg_alloc cpu" "seg_release cpu"
  "\<lambda>s f. f div 32 < size_n s" for cpu
proof unfold_locales
  fix s assume ok: "seg_ok cpu s"
  then show "finite (seg_frees cpu s)"
    by (auto simp: seg_frees_def free_set_def finite_frames_in split: option.splits)
  show "seg_alloc cpu s = (s, None)" if "seg_frees cpu s = {}"
    using get_next_pool_none [OF ok that] by (simp add: seg_alloc_def)
  show "\<exists>s'. seg_alloc cpu s = (s', Some (Min (seg_frees cpu s))) \<and> seg_ok cpu s' \<and>
      seg_frees cpu s' = seg_frees cpu s - {Min (seg_frees cpu s)}" if ne: "seg_frees cpu s \<noteq> {}"
  proof -
    have "Min (seg_frees cpu s) \<in> seg_frees cpu s"
      using ne ok by (intro Min_in) (auto simp: seg_frees_def free_set_def finite_frames_in split: option.splits)
    then have m: "Min (seg_frees cpu s) < 2 ^ 31" using seg_frees_bound [OF ok] by blast
    then have "unat (word_of_nat (Min (seg_frees cpu s)) :: u32) = Min (seg_frees cpu s)"
      by (intro unat_word_of_nat32) simp
    with frame_not_NAN [OF m] have "seg_alloc cpu s = (s', Some (Min (seg_frees cpu s)))"
      if "get_next cpu s = Inr (s', word_of_nat (Min (seg_frees cpu s)))" for s'
      using that by (simp add: seg_alloc_def)
    with get_next_pool [OF ok ne] show ?thesis by blast
  qed
  show "seg_ok cpu (seg_release cpu f s) \<and> seg_frees cpu (seg_release cpu f s) = insert f (seg_frees cpu s)"
    if v: "f div 32 < size_n s" for f
  proof -
    obtain t' where t': "put_back cpu (word_of_nat f) s = Inr (s\<lparr>seg_tree := (seg_tree s)(cpu := Some t')\<rparr>)"
      "seg_ok cpu (s\<lparr>seg_tree := (seg_tree s)(cpu := Some t')\<rparr>)"
      "seg_frees cpu (s\<lparr>seg_tree := (seg_tree s)(cpu := Some t')\<rparr>) = insert f (seg_frees cpu s)"
      using put_back_pool [OF ok v] by blast
    from t'(1) have "seg_release cpu f s = s\<lparr>seg_tree := (seg_tree s)(cpu := Some t')\<rparr>"
      by (simp only: seg_release_def sum.case)
    with t'(2,3) show ?thesis by (simp only: simp_thms)
  qed
qed

section \<open>Properties\<close>

text \<open>The number of leaves that core 0 computes for \<open>num\<close> frames, and the tree that every core builds with it.\<close>

definition leaves_for :: "int \<Rightarrow> nat" where
  "leaves_for num = unat (drop_bit 5 (get_next_pow2 (word_of_int num)))"

lemma init_tree_correct:
  assumes "32 < num" and "num < 2 ^ 31"
  shows "\<exists>t w. init_recursive (leaves_for num) (nat num) 1 (replicate (2 * leaves_for num) 0) = Some (t, w) \<and>
    seg_inv (leaves_for num) t \<and> free_set (leaves_for num) t = {..<nat num}"
proof -
  define v :: u32 where "v = word_of_int num"
  have v: "unat v = nat num" using assms unfolding v_def by (simp add: unsigned_of_int take_bit_int_eq_self)
  obtain j where j: "j \<le> 31" "unat (get_next_pow2 v) = 2 ^ j" "nat num \<le> 2 ^ j" "2 ^ j < 2 * nat num"
    using get_next_pow2_value [of v, unfolded v] assms by (auto simp: nat_le_iff)
  have "5 < j"
  proof (rule ccontr)
    assume "\<not> 5 < j"
    then have "(2 :: nat) ^ j \<le> 2 ^ 5" by (intro power_increasing) auto
    with j(3) have "nat num \<le> 2 ^ 5" by (rule order_trans)
    with assms(1) show False by simp
  qed
  then have k: "j = 5 + (j - 5)" "1 \<le> j - 5" by simp_all
  define k where "k = j - 5"
  note k = k [folded k_def]
  have sz: "leaves_for num = 2 ^ k" unfolding leaves_for_def v_def [symmetric] unat_drop_bit5 j(2) by (subst k(1)) (simp add: power_add)
  have "nat num < 2 ^ 31" using assms by simp
  moreover have "nat num \<le> 32 * 2 ^ k" using j(3) by (subst (asm) k(1)) (simp add: power_add)
  ultimately show ?thesis unfolding sz using init_recursive_root [of "nat num" k] j(1) k by auto
qed

text \<open>\<open>init_seg_tree\<close> with more than 32 frames succeeds, establishes the tree invariant, and leaves exactly the
  frames \<open>0 \<dots> num - 1\<close> free: on core 0, which sets the size for all, and then on every other core.\<close>

theorem init_seg_tree_correct:
  assumes "32 < num" and "num < 2 ^ 31"
  shows "\<exists>s'. init_seg_tree 0 True num s = Inr (s', 0) \<and> seg_ok 0 s' \<and> seg_frees 0 s' = {..<nat num} \<and>
    max_num s' = nat num \<and> size_n s' = leaves_for num"
proof -
  from init_tree_correct [OF assms] obtain t w where
    "init_recursive (leaves_for num) (nat num) 1 (replicate (2 * leaves_for num) 0) = Some (t, w)"
    "seg_inv (leaves_for num) t" "free_set (leaves_for num) t = {..<nat num}" by blast
  then show ?thesis by (simp add: init_seg_tree_def Let_def leaves_for_def [symmetric] seg_ok_def seg_frees_def)
qed

lemma init_seg_tree_worker:
  assumes "32 < num" and "num < 2 ^ 31" and "max_num s = nat num" and "size_n s = leaves_for num" and "c \<noteq> 0"
  shows "\<exists>t. init_seg_tree c True m s = Inr (s\<lparr>seg_tree := (seg_tree s)(c := Some t)\<rparr>, 0) \<and>
    seg_ok c (s\<lparr>seg_tree := (seg_tree s)(c := Some t)\<rparr>) \<and> seg_frees c (s\<lparr>seg_tree := (seg_tree s)(c := Some t)\<rparr>) = {..<nat num}"
proof -
  from init_tree_correct [OF assms(1,2)] obtain t w where
    "init_recursive (leaves_for num) (nat num) 1 (replicate (2 * leaves_for num) 0) = Some (t, w)"
    "seg_inv (leaves_for num) t" "free_set (leaves_for num) t = {..<nat num}" by blast
  then show ?thesis using assms(3-5) by (auto simp: init_seg_tree_def seg_ok_def seg_frees_def)
qed

theorem init_seg_tree_correct_witness:
  "\<exists>s'. init_seg_tree 0 True 100 \<lparr>max_num = 0, size_n = 0, seg_tree = (\<lambda>_. None)\<rparr> = Inr (s', 0) \<and>
     seg_ok 0 s' \<and> seg_frees 0 s' = {..<nat 100} \<and> max_num s' = nat 100 \<and> size_n s' = leaves_for 100"
  by (rule init_seg_tree_correct) simp_all

text \<open>\<open>get_next\<close> returns the free frame with the smallest index and removes exactly that
  frame from the free set, or \<open>NAN\<close> with the state unchanged when there is none; the tree invariant
  is kept.\<close>

theorem get_next_correct:
  assumes "seg_ok cpu s"
  shows "\<exists>s' r. get_next cpu s = Inr (s', r) \<and> seg_ok cpu s' \<and>
     (if seg_frees cpu s = {} then r = NAN \<and> s' = s
      else r \<noteq> NAN \<and> unat r = Min (seg_frees cpu s) \<and> seg_frees cpu s' = seg_frees cpu s - {unat r})"
proof (cases "seg_frees cpu s = {}")
  case True
  with get_next_pool_none [OF assms True] assms show ?thesis by simp
next
  case False
  have "Min (seg_frees cpu s) < 2 ^ 31"
    using False seg_pool.finite_frees [OF assms] by (metis Min_in assms seg_frees_bound)
  then have "unat (word_of_nat (Min (seg_frees cpu s)) :: u32) = Min (seg_frees cpu s)"
    "word_of_nat (Min (seg_frees cpu s)) \<noteq> NAN"
    by (auto intro!: unat_word_of_nat32 frame_not_NAN)
  with get_next_pool [OF assms False] False show ?thesis by auto
qed

definition seg_example :: seg_state where
  "seg_example = \<lparr>max_num = 64, size_n = 2, seg_tree = (\<lambda>_. Some [0, 0, - 1, - 1])\<rparr>"

lemma seg_example_ok: "seg_ok 0 seg_example"
proof -
  have "\<not> 0 < asm_bsf (- 1)" using asm_bsf_least [of "- 1"] by (auto dest: spec [of _ 0])
  then have b: "asm_bsf (- 1) = 0" by simp
  have "\<forall>i. 1 \<le> i \<and> i < 2 \<longrightarrow> node_ok 2 [0, 0, - 1, - 1] i"
    by (auto simp: node_ok_def child_value_def combine_def IS_LEAF_def b less_2_cases_iff NAN_def)
  then show ?thesis by (auto simp: seg_ok_def seg_example_def seg_inv_def seg_shape_def intro: exI [of _ 1])
qed

theorem get_next_correct_witness:
  "\<exists>s' r. get_next 0 seg_example = Inr (s', r) \<and> seg_ok 0 s' \<and>
     (if seg_frees 0 seg_example = {} then r = NAN \<and> s' = seg_example
      else r \<noteq> NAN \<and> unat r = Min (seg_frees 0 seg_example) \<and>
           seg_frees 0 s' = seg_frees 0 seg_example - {unat r})"
  by (rule get_next_correct) (rule seg_example_ok)

text \<open>Releasing what was allocated restores the free set. After \<open>get_next\<close> returned a
  frame, \<open>put_back\<close> of that frame gives back a tree with the original free set.\<close>

theorem get_next_put_back:
  assumes "seg_ok cpu s" and "get_next cpu s = Inr (s1, r)" and "r \<noteq> NAN"
  shows "\<exists>s2. put_back cpu r s1 = Inr s2 \<and> seg_ok cpu s2 \<and> seg_frees cpu s2 = seg_frees cpu s"
proof -
  have ne: "seg_frees cpu s \<noteq> {}" using assms get_next_pool_none by fastforce
  have m: "Min (seg_frees cpu s) \<in> seg_frees cpu s"
    using ne seg_pool.finite_frees [OF assms(1)] by simp
  obtain t' where t': "get_next cpu s = Inr (s\<lparr>seg_tree := (seg_tree s)(cpu := Some t')\<rparr>, word_of_nat (Min (seg_frees cpu s)))"
    "seg_ok cpu (s\<lparr>seg_tree := (seg_tree s)(cpu := Some t')\<rparr>)"
    "seg_frees cpu (s\<lparr>seg_tree := (seg_tree s)(cpu := Some t')\<rparr>) = seg_frees cpu s - {Min (seg_frees cpu s)}"
    using get_next_pool [OF assms(1) ne] by blast
  with assms(2) have r: "r = word_of_nat (Min (seg_frees cpu s))"
    and s1: "s1 = s\<lparr>seg_tree := (seg_tree s)(cpu := Some t')\<rparr>" by simp_all
  have "Min (seg_frees cpu s) div 32 < size_n s1" using seg_frees_bound [OF assms(1) m] s1 by simp
  from put_back_pool [OF t'(2) [folded s1] this] obtain s2 where
    "put_back cpu r s1 = Inr s2" "seg_ok cpu s2" "seg_frees cpu s2 = insert (Min (seg_frees cpu s)) (seg_frees cpu s1)"
    unfolding r by blast
  then show ?thesis using t'(3) s1 m by (simp add: insert_absorb)
qed

theorem get_next_put_back_witness:
  "\<exists>s1 r s2. get_next 0 seg_example = Inr (s1, r) \<and> r \<noteq> NAN \<and> put_back 0 r s1 = Inr s2 \<and> seg_ok 0 s2 \<and>
     seg_frees 0 s2 = seg_frees 0 seg_example"
proof -
  have "0 \<in> seg_frees 0 seg_example"
    by (simp add: seg_frees_def seg_example_def free_set_leaf leaf_bit_def)
  then obtain s1 r where g: "get_next 0 seg_example = Inr (s1, r)" "r \<noteq> NAN"
    using seg_pool.alloc_least [OF seg_example_ok] by (force simp: seg_alloc_def split: sum.splits if_splits prod.splits)
  from get_next_put_back [OF seg_example_ok g] g show ?thesis by blast
qed

text \<open>A run of allocations never hands out a frame twice: the frames returned by any number
  of consecutive allocations are distinct, were all free at the start and are all allocated at the end,
  and come in increasing order.\<close>

theorem seg_allocs_distinct:
  assumes "seg_ok cpu s" and "run_allocs (seg_alloc cpu) n s = (s', fs)"
  shows "distinct fs \<and> sorted fs \<and> set fs \<subseteq> seg_frees cpu s \<and> seg_frees cpu s' = seg_frees cpu s - set fs \<and>
     length fs = min n (card (seg_frees cpu s))"
  using seg_pool.allocs_spec [OF assms] by blast

theorem seg_allocs_distinct_witness:
  "\<exists>s' fs. run_allocs (seg_alloc 0) 3 seg_example = (s', fs) \<and> distinct fs"
proof -
  obtain s' fs where a: "run_allocs (seg_alloc 0) 3 seg_example = (s', fs)" by fastforce
  from seg_allocs_distinct [OF seg_example_ok a] a show ?thesis by blast
qed

text \<open>The minimum size of the pool matters. With exactly 32 frames the tree has a single
  leaf, which is also the root: right after initialisation \<open>get_next\<close> reads the all-free bitmap as
  \<open>NAN\<close> and reports that no frame is free although all 32 are.\<close>

theorem init_seg_tree_32_frames:
  "\<exists>s'. init_seg_tree 0 True 32 s = Inr (s', 0) \<and> size_n s' = 1 \<and> seg_frees 0 s' = {..<32} \<and>
     get_next 0 s' = Inr (s', NAN)"
proof -
  have p: "unat (drop_bit 5 (get_next_pow2 32)) = 1"
    using get_next_pow2_value [of 32] by (simp add: get_next_pow2_def Let_def)
  have t: "init_recursive 1 32 1 [0, 0] = Some ([0, - 1], word_of_nat 0)"
    by (subst init_recursive.simps) (simp add: IS_VALID_def IS_LEAF_def Let_def init_leaf_def)
  have "free_set 1 [0, - 1] = {..<32}"
    unfolding free_set_leaf by (auto simp: leaf_bit_def)
  then show ?thesis using p t
    by (simp add: init_seg_tree_def Let_def seg_frees_def get_next_def NAN_def numeral_2_eq_2)
qed

end
