(* ===== verification/Simple_Queue.thy ===== *)
theory Simple_Queue
  imports Kern_Prelude
begin

text \<open>
  \<open>kern/simple_queue.c\<close>: the intrusive doubly linked queue every kernel list is built from
  (scheduler queue, mutex waiters, message queues, zombie list, wait queues).

  The first half translates the C code statement by statement over an explicit heap of nodes, so
  that the aliasing of \<open>head\<close>, \<open>tail\<close> and the nodes is part of the model. A queue at
  address \<open>q\<close> has its \<open>head\<close> node at \<open>q\<close> and its \<open>tail\<close> node at
  \<open>q + 12\<close> (\<open>sizeof(simple_node_t)\<close> is 12). The second half states the contract of
  a FIFO queue as the locale \<open>fifo_queue\<close>, proves its client lemmas once, and interprets it
  both on the heap code and on the list operations \<open>q_enqueue\<close>, \<open>q_dequeue\<close>,
  \<open>q_remove\<close> with which the other components use their queues.
\<close>

section \<open>The heap of queue nodes\<close>

record simple_node_heap =
  thr_f :: "u32 \<Rightarrow> u32"   \<comment> \<open>field \<open>thr\<close> of the node at an address\<close>
  next_f :: "u32 \<Rightarrow> u32"  \<comment> \<open>field \<open>next\<close>\<close>
  prev_f :: "u32 \<Rightarrow> u32"  \<comment> \<open>field \<open>prev\<close>\<close>

definition set_next :: "u32 \<Rightarrow> u32 \<Rightarrow> simple_node_heap \<Rightarrow> simple_node_heap" where
  "set_next n v h = h\<lparr>next_f := (next_f h)(n := v)\<rparr>"

definition set_prev :: "u32 \<Rightarrow> u32 \<Rightarrow> simple_node_heap \<Rightarrow> simple_node_heap" where
  "set_prev n v h = h\<lparr>prev_f := (prev_f h)(n := v)\<rparr>"

text \<open>The addresses of the two sentinel nodes of a \<open>simple_queue_t\<close>.\<close>

definition head_of :: "u32 \<Rightarrow> u32" where "head_of deque = deque"
definition tail_of :: "u32 \<Rightarrow> u32" where "tail_of deque = deque + 12"

section \<open>The operations\<close>

definition simple_queue_init :: "u32 \<Rightarrow> simple_node_heap \<Rightarrow> simple_node_heap \<times> int" where
  "simple_queue_init deque h =
     (let h = set_prev (head_of deque) NULL h;
          h = set_next (head_of deque) (tail_of deque) h;
          h = set_prev (tail_of deque) (head_of deque) h;
          h = set_next (tail_of deque) NULL h
      in (h, 0))"

definition simple_queue_enqueue ::
  "u32 \<Rightarrow> u32 \<Rightarrow> simple_node_heap \<Rightarrow> simple_node_heap \<times> int" where
  "simple_queue_enqueue deque new_node h =
     (let h = set_next new_node (tail_of deque) h;
          h = set_prev new_node (prev_f h (tail_of deque)) h;
          h = set_next (prev_f h (tail_of deque)) new_node h;
          h = set_prev (tail_of deque) new_node h
      in (h, 0))"

definition simple_queue_dequeue ::
  "u32 \<Rightarrow> simple_node_heap \<Rightarrow> simple_node_heap \<times> u32" where
  "simple_queue_dequeue deque h =
     (if next_f h (head_of deque) = tail_of deque then (h, NULL)
      else let rv = next_f h (head_of deque);
               h = set_next (head_of deque) (next_f h (next_f h (head_of deque))) h;
               h = set_prev (next_f h (head_of deque)) (head_of deque) h
           in (h, rv))"

text \<open>
  The searches walk the list from \<open>head\<close> and stop at \<open>tail\<close>; on a corrupted list they
  would not stop, so the loops are option-valued (\<open>None\<close>: never returns). \<open>tid_of\<close>
  reads the \<open>tid\<close> through the node's \<open>thr\<close> pointer: the \<open>tcb_t\<close> itself for
  \<open>simple_queue_remove_tid\<close>, the requesting thread of a message for
  \<open>smp_simple_queue_remove_tid\<close>.
\<close>

partial_function (option) remove_tid_loop ::
  "(u32 \<Rightarrow> int) \<Rightarrow> u32 \<Rightarrow> int \<Rightarrow> u32 \<Rightarrow> simple_node_heap \<Rightarrow>
     (simple_node_heap \<times> u32) option" where
  "remove_tid_loop tid_of deque tid node h =
     (if next_f h node \<noteq> tail_of deque then
        (if tid_of (thr_f h (next_f h node)) = tid then
           (let tmp = next_f h node;
                h = set_next node (next_f h (next_f h node)) h;
                h = set_prev (next_f h node) node h
            in Some (h, tmp))
         else remove_tid_loop tid_of deque tid (next_f h node) h)
      else Some (h, NULL))"

definition simple_queue_remove_tid ::
  "(u32 \<Rightarrow> int) \<Rightarrow> u32 \<Rightarrow> int \<Rightarrow> simple_node_heap \<Rightarrow> (simple_node_heap \<times> u32) option" where
  "simple_queue_remove_tid tcb_tid deque tid h =
     remove_tid_loop tcb_tid deque tid (head_of deque) h"

definition smp_simple_queue_remove_tid ::
  "(u32 \<Rightarrow> u32) \<Rightarrow> (u32 \<Rightarrow> int) \<Rightarrow> u32 \<Rightarrow> int \<Rightarrow> simple_node_heap \<Rightarrow>
     (simple_node_heap \<times> u32) option" where
  "smp_simple_queue_remove_tid msg_req_thr tcb_tid deque tid h =
     remove_tid_loop (\<lambda>msg. tcb_tid (msg_req_thr msg)) deque tid (head_of deque) h"

partial_function (option) is_exist_tid_loop ::
  "(u32 \<Rightarrow> int) \<Rightarrow> u32 \<Rightarrow> int \<Rightarrow> u32 \<Rightarrow> simple_node_heap \<Rightarrow> int option" where
  "is_exist_tid_loop tid_of deque tid node h =
     (if next_f h node \<noteq> tail_of deque then
        (if tid_of (thr_f h (next_f h node)) = tid then Some 1
         else is_exist_tid_loop tid_of deque tid (next_f h node) h)
      else Some 0)"

definition simple_queue_is_exist_tid ::
  "(u32 \<Rightarrow> int) \<Rightarrow> u32 \<Rightarrow> int \<Rightarrow> simple_node_heap \<Rightarrow> int option" where
  "simple_queue_is_exist_tid tcb_tid deque tid h =
     is_exist_tid_loop tcb_tid deque tid (head_of deque) h"

definition simple_queue_destroy :: "u32 \<Rightarrow> simple_node_heap \<Rightarrow> int" where
  "simple_queue_destroy deque h =
     (if next_f h (head_of deque) \<noteq> tail_of deque then -1 else 0)"

partial_function (option) size_loop :: "u32 \<Rightarrow> int \<Rightarrow> u32 \<Rightarrow> simple_node_heap \<Rightarrow> int option" where
  "size_loop deque count node h =
     (if next_f h node \<noteq> tail_of deque then size_loop deque (count + 1) (next_f h node) h
      else Some count)"

definition simple_queue_size :: "u32 \<Rightarrow> simple_node_heap \<Rightarrow> int option" where
  "simple_queue_size deque h = size_loop deque 0 (head_of deque) h"

lemmas sq_defs [kdefs] = set_next_def set_prev_def simple_queue_init_def simple_queue_enqueue_def
  simple_queue_dequeue_def simple_queue_destroy_def

section \<open>The list a queue represents\<close>

text \<open>\<open>dll h a ns b\<close>: from node \<open>a\<close> the nodes \<open>ns\<close> lead to node \<open>b\<close>, and
  every \<open>prev\<close> pointer undoes the \<open>next\<close> pointer before it.\<close>

primrec dll :: "simple_node_heap \<Rightarrow> u32 \<Rightarrow> u32 list \<Rightarrow> u32 \<Rightarrow> bool" where
  "dll h a [] b \<longleftrightarrow> next_f h a = b \<and> prev_f h b = a"
| "dll h a (n # ns) b \<longleftrightarrow> next_f h a = n \<and> prev_f h n = a \<and> dll h n ns b"

text \<open>The queue at \<open>q\<close> holds the nodes \<open>ns\<close>, none of them twice, none of them a sentinel
  and none of them \<open>NULL\<close>.\<close>

definition sq_rep :: "simple_node_heap \<Rightarrow> u32 \<Rightarrow> u32 list \<Rightarrow> bool" where
  "sq_rep h q ns \<longleftrightarrow> dll h (head_of q) ns (tail_of q) \<and>
     distinct (head_of q # ns @ [tail_of q]) \<and> NULL \<notin> set ns"

lemma head_tail_neq [simp]: "head_of q \<noteq> tail_of q" "tail_of q \<noteq> head_of q"
  by (simp_all add: head_of_def tail_of_def)

lemma dll_cong:
  "\<lbrakk>\<And>n. n \<in> set (a # ns) \<Longrightarrow> next_f h' n = next_f h n;
    \<And>n. n \<in> set (ns @ [b]) \<Longrightarrow> prev_f h' n = prev_f h n\<rbrakk>
   \<Longrightarrow> dll h' a ns b = dll h a ns b"
  by (induction ns arbitrary: a) simp_all

lemma dll_append: "dll h a (xs @ y # ys) b \<longleftrightarrow> dll h a xs y \<and> dll h y ys b"
  by (induction xs arbitrary: a) auto

lemma dll_last: "dll h a ns b \<Longrightarrow> prev_f h b = last (a # ns)"
  by (induction ns arbitrary: a) auto

lemma dll_first: "dll h a ns b \<Longrightarrow> next_f h a = hd (ns @ [b])"
  by (cases ns) auto

lemma dll_snoc:
  assumes "dll h a ns b" and "distinct (a # ns @ [b])" and "n \<notin> set (a # ns @ [b])"
  shows "dll (h\<lparr>next_f := (next_f h)(n := b, last (a # ns) := n),
                prev_f := (prev_f h)(n := last (a # ns), b := n)\<rparr>) a (ns @ [n]) b"
  using assms
proof (induction ns arbitrary: a)
  case Nil
  then show ?case by auto
next
  case (Cons m ms)
  let ?upd = "\<lambda>l. h\<lparr>next_f := (next_f h)(n := b, l := n), prev_f := (prev_f h)(n := l, b := n)\<rparr>"
  from Cons.prems have "dll (?upd (last (m # ms))) m (ms @ [n]) b"
    by (intro Cons.IH) auto
  moreover have "last (m # ms) \<noteq> a" using Cons.prems(2) by (metis distinct.simps(2) last_in_set
        list.distinct(1) Un_iff set_append)
  moreover define l where "l = last (m # ms)"
  ultimately have "dll (?upd l) m (ms @ [n]) b" and "l \<noteq> a" by simp_all
  with Cons.prems have "dll (?upd l) a ((m # ms) @ [n]) b" by auto
  then show ?case by (simp only: l_def last_ConsR [OF list.distinct(2)])
qed

lemma dll_bypass:
  assumes "dll h a (n # ns) b" and "distinct (a # n # ns @ [b])"
  shows "dll (h\<lparr>next_f := (next_f h)(a := hd (ns @ [b])),
                prev_f := (prev_f h)(hd (ns @ [b]) := a)\<rparr>) a ns b"
proof (cases ns)
  case Nil
  with assms show ?thesis by auto
next
  case (Cons m ms)
  with assms have "dll h m ms b" by auto
  then have "dll (h\<lparr>next_f := (next_f h)(a := m), prev_f := (prev_f h)(m := a)\<rparr>) m ms b"
    by (subst dll_cong) (use assms Cons in auto)
  with Cons show ?thesis by simp
qed

section \<open>The heap code implements the list operations\<close>

lemma simple_queue_init_rep: "sq_rep (fst (simple_queue_init q h)) q []"
  by (auto simp: sq_rep_def sq_defs Let_def)

lemma simple_queue_enqueue_rep:
  assumes rep: "sq_rep h q ns" and new: "n \<notin> set (head_of q # ns @ [tail_of q])" "n \<noteq> NULL"
  shows "sq_rep (fst (simple_queue_enqueue q n h)) q (ns @ [n])"
proof -
  from rep have d: "dll h (head_of q) ns (tail_of q)"
    and dist: "distinct (head_of q # ns @ [tail_of q])" by (auto simp: sq_rep_def)
  have p: "prev_f h (tail_of q) = last (head_of q # ns)" using dll_last [OF d] .
  have ne: "last (head_of q # ns) \<noteq> n" using new last_in_set [of "head_of q # ns"] by auto
  have "fst (simple_queue_enqueue q n h) =
      h\<lparr>next_f := (next_f h)(n := tail_of q, last (head_of q # ns) := n),
        prev_f := (prev_f h)(n := last (head_of q # ns), tail_of q := n)\<rparr>"
    using new p ne by (simp add: sq_defs Let_def fun_upd_twist)
  with dll_snoc [OF d dist, of n] new rep show ?thesis by (auto simp: sq_rep_def)
qed

lemma simple_queue_dequeue_empty:
  "sq_rep h q [] \<Longrightarrow> simple_queue_dequeue q h = (h, NULL)"
  by (simp add: sq_rep_def simple_queue_dequeue_def)

lemma simple_queue_dequeue_rep:
  assumes rep: "sq_rep h q (n # ns)"
  shows "snd (simple_queue_dequeue q h) = n \<and> sq_rep (fst (simple_queue_dequeue q h)) q ns"
proof -
  from rep have d: "dll h (head_of q) (n # ns) (tail_of q)"
    and dist: "distinct (head_of q # n # ns @ [tail_of q])" by (auto simp: sq_rep_def)
  from d dist have n: "next_f h (head_of q) = n" "n \<noteq> tail_of q" "n \<noteq> head_of q" by auto
  from d have "dll h n ns (tail_of q)" by simp
  then have nn: "next_f h n = hd (ns @ [tail_of q])" by (rule dll_first)
  have ret: "snd (simple_queue_dequeue q h) = n"
    using n by (simp add: simple_queue_dequeue_def Let_def)
  have "fst (simple_queue_dequeue q h) =
     h\<lparr>next_f := (next_f h)(head_of q := hd (ns @ [tail_of q])),
       prev_f := (prev_f h)(hd (ns @ [tail_of q]) := head_of q)\<rparr>"
    using n nn by (simp add: sq_defs Let_def)
  with dll_bypass [OF d dist] rep ret show ?thesis by (auto simp: sq_rep_def)
qed

lemma simple_queue_destroy_rep:
  "sq_rep h q ns \<Longrightarrow> simple_queue_destroy q h = (if ns = [] then 0 else -1)"
  by (cases ns) (auto simp: sq_rep_def simple_queue_destroy_def)

lemma remove_tid_loop_rep:
  "\<lbrakk>dll h a ns (tail_of q); distinct (a # ns @ [tail_of q])\<rbrakk> \<Longrightarrow>
   (case remove_first (\<lambda>n. tid_of (thr_f h n) = tid) ns of
      (None, _) \<Rightarrow> remove_tid_loop tid_of q tid a h = Some (h, NULL)
    | (Some m, ms) \<Rightarrow> \<exists>h'. remove_tid_loop tid_of q tid a h = Some (h', m) \<and>
         dll h' a ms (tail_of q) \<and> thr_f h' = thr_f h \<and>
         (\<forall>x. x \<notin> set (a # ns) \<longrightarrow> next_f h' x = next_f h x) \<and>
         (\<forall>x. x \<notin> set (ns @ [tail_of q]) \<longrightarrow> prev_f h' x = prev_f h x))"
proof (induction ns arbitrary: a)
  case Nil
  then show ?case by (subst remove_tid_loop.simps) simp
next
  case (Cons n ns)
  let ?P = "\<lambda>n. tid_of (thr_f h n) = tid"
  from Cons.prems have n: "next_f h a = n" "n \<noteq> tail_of q" "n \<noteq> a" and d: "dll h n ns (tail_of q)"
    by auto
  show ?case
  proof (cases "?P n")
    case True
    let ?h' = "h\<lparr>next_f := (next_f h)(a := hd (ns @ [tail_of q])),
       prev_f := (prev_f h)(hd (ns @ [tail_of q]) := a)\<rparr>"
    have "remove_tid_loop tid_of q tid a h = Some (?h', n)"
      using n True dll_first [OF d] by (subst remove_tid_loop.simps) (simp add: sq_defs Let_def)
    moreover have "dll ?h' a ns (tail_of q)" using dll_bypass [OF Cons.prems(1)] Cons.prems(2) by simp
    moreover have "hd (ns @ [tail_of q]) \<in> set (ns @ [tail_of q])" by (rule hd_in_set) simp
    ultimately show ?thesis using True by auto
  next
    case False
    have step: "remove_tid_loop tid_of q tid a h = remove_tid_loop tid_of q tid n h"
      using n False by (subst remove_tid_loop.simps) simp
    have dist: "distinct (n # ns @ [tail_of q])" using Cons.prems(2) by simp
    show ?thesis
    proof (cases "fst (remove_first ?P ns)")
      case None
      then obtain ms where "remove_first ?P ns = (None, ms)" by (cases "remove_first ?P ns") simp
      with Cons.IH [OF d dist] step False show ?thesis by simp
    next
      case (Some m)
      then obtain ms where r: "remove_first ?P ns = (Some m, ms)" by (cases "remove_first ?P ns") simp
      with Cons.IH [OF d dist] obtain h' where h':
        "remove_tid_loop tid_of q tid n h = Some (h', m)" "dll h' n ms (tail_of q)" "thr_f h' = thr_f h"
        "\<forall>x. x \<notin> set (n # ns) \<longrightarrow> next_f h' x = next_f h x"
        "\<forall>x. x \<notin> set (ns @ [tail_of q]) \<longrightarrow> prev_f h' x = prev_f h x" by auto
      have "next_f h' a = n" "prev_f h' n = a" using h'(4,5) n Cons.prems by auto
      with h' r step False n show ?thesis by auto
    qed
  qed
qed

lemma simple_queue_remove_tid_rep:
  assumes rep: "sq_rep h q ns" and r: "remove_first (\<lambda>n. tid_of (thr_f h n) = tid) ns = (res, ms)"
  shows "\<exists>h'. remove_tid_loop tid_of q tid (head_of q) h = Some (h', case res of None \<Rightarrow> NULL | Some m \<Rightarrow> m)
     \<and> sq_rep h' q ms \<and> thr_f h' = thr_f h"
proof -
  from rep have d: "dll h (head_of q) ns (tail_of q)"
    and dist: "distinct (head_of q # ns @ [tail_of q])" by (auto simp: sq_rep_def)
  note loop = remove_tid_loop_rep [OF d dist, of tid_of tid, unfolded r]
  show ?thesis
  proof (cases res)
    case None
    with r have "ms = ns" by (auto dest: remove_first_None)
    with None loop rep show ?thesis by simp
  next
    case (Some m)
    with r obtain us vs where "ns = us @ m # vs" "ms = us @ vs" by (auto dest!: remove_first_Some)
    with Some loop rep show ?thesis by (auto simp: sq_rep_def)
  qed
qed

lemma is_exist_tid_loop_rep:
  "\<lbrakk>dll h a ns (tail_of q); tail_of q \<notin> set ns\<rbrakk> \<Longrightarrow>
   is_exist_tid_loop tid_of q tid a h = Some (if \<exists>n \<in> set ns. tid_of (thr_f h n) = tid then 1 else 0)"
proof (induction ns arbitrary: a)
  case Nil
  then show ?case by (subst is_exist_tid_loop.simps) simp
next
  case (Cons n ns)
  then have "next_f h a = n" "n \<noteq> tail_of q" by auto
  with Cons show ?case by (subst is_exist_tid_loop.simps) auto
qed

lemma simple_queue_is_exist_tid_rep:
  "sq_rep h q ns \<Longrightarrow> simple_queue_is_exist_tid tid_of q tid h =
     Some (if \<exists>n \<in> set ns. tid_of (thr_f h n) = tid then 1 else 0)"
  by (auto simp add: simple_queue_is_exist_tid_def sq_rep_def is_exist_tid_loop_rep)

lemma size_loop_rep:
  "\<lbrakk>dll h a ns (tail_of q); tail_of q \<notin> set ns\<rbrakk> \<Longrightarrow>
   size_loop q c a h = Some (c + int (length ns))"
proof (induction ns arbitrary: a c)
  case Nil
  then show ?case by (subst size_loop.simps) simp
next
  case (Cons n ns)
  then have "next_f h a = n" "n \<noteq> tail_of q" by auto
  with Cons show ?case by (subst size_loop.simps) auto
qed

lemma simple_queue_size_rep: "sq_rep h q ns \<Longrightarrow> simple_queue_size q h = Some (int (length ns))"
  by (auto simp add: simple_queue_size_def sq_rep_def size_loop_rep)

text \<open>A queue is untouched by a heap that agrees with the old one on its own nodes: operations on one
  queue do not disturb another.\<close>

lemma sq_rep_frame:
  assumes "sq_rep h q ns"
    and "\<And>x. x \<in> set (head_of q # ns @ [tail_of q]) \<Longrightarrow> next_f h' x = next_f h x \<and> prev_f h' x = prev_f h x"
  shows "sq_rep h' q ns"
  using assms dll_cong [of "head_of q" ns h' h "tail_of q"] by (auto simp: sq_rep_def)

section \<open>Queues as lists\<close>

text \<open>
  The operations on the represented list. The components that keep queues hold the list of the
  queued \<open>thr\<close> pointers and use these; the interpretations below show that the heap code and
  the list operations satisfy one contract.
\<close>

definition q_enqueue :: "'a list \<Rightarrow> 'a \<Rightarrow> 'a list" where
  "q_enqueue q x = q @ [x]"

definition q_dequeue :: "'a list \<Rightarrow> 'a option \<times> 'a list" where
  "q_dequeue q = (case q of [] \<Rightarrow> (None, []) | x # xs \<Rightarrow> (Some x, xs))"

definition q_remove :: "('a \<Rightarrow> bool) \<Rightarrow> 'a list \<Rightarrow> 'a option \<times> 'a list" where
  "q_remove P q = remove_first P q"

lemma q_simps [simp]:
  "q_enqueue q x = q @ [x]" "q_dequeue [] = (None, [])" "q_dequeue (y # ys) = (Some y, ys)"
  by (simp_all add: q_enqueue_def q_dequeue_def)

lemma q_dequeue_cases:
  obtains "q = []" "q_dequeue q = (None, [])" | x xs where "q = x # xs" "q_dequeue q = (Some x, xs)"
  by (cases q) auto

text \<open>
  The contract of a FIFO queue over a state: \<open>rep s xs\<close> says that the state holds the elements
  \<open>xs\<close>, and \<open>fresh s x\<close> that \<open>x\<close> may be put into it. A queue operation that meets
  these laws serves elements in arrival order.
\<close>

locale fifo_queue =
  fixes rep :: "'s \<Rightarrow> 'a list \<Rightarrow> bool"
    and enq :: "'a \<Rightarrow> 's \<Rightarrow> 's"
    and deq :: "'s \<Rightarrow> 's \<times> 'a option"
    and admissible :: "'a \<Rightarrow> bool"
  assumes rep_enq: "\<lbrakk>rep s xs; x \<notin> set xs; admissible x\<rbrakk> \<Longrightarrow> rep (enq x s) (xs @ [x])"
    and deq_Nil: "rep s [] \<Longrightarrow> deq s = (s, None)"
    and deq_Cons: "rep s (x # xs) \<Longrightarrow> \<exists>s'. deq s = (s', Some x) \<and> rep s' xs"
begin

lemma rep_enq_all:
  "\<lbrakk>rep s xs; distinct (xs @ ys); \<forall>y \<in> set ys. admissible y\<rbrakk> \<Longrightarrow> rep (fold enq ys s) (xs @ ys)"
proof (induction ys arbitrary: s xs)
  case Nil
  then show ?case by simp
next
  case (Cons y ys)
  then have "rep (enq y s) (xs @ [y])" by (intro rep_enq) auto
  with Cons.prems have "rep (fold enq ys (enq y s)) ((xs @ [y]) @ ys)" by (intro Cons.IH) auto
  then show ?case by simp
qed

text \<open>Draining a queue yields its elements in arrival order, and then nothing.\<close>

lemma drain_order:
  "\<lbrakk>rep s xs; n \<ge> length xs\<rbrakk> \<Longrightarrow>
   (\<exists>s'. fold (\<lambda>_ (s, out). (case deq s of (s', r) \<Rightarrow> (s', out @ [r]))) [0..<n] (s, out) =
      (s', out @ map Some xs @ replicate (n - length xs) None) \<and> rep s' [])"
proof (induction n arbitrary: s xs out)
  case 0
  then show ?case by simp
next
  case (Suc n)
  have shift: "fold (\<lambda>_::nat. f) [0..<Suc n] z = fold (\<lambda>_. f) [0..<n] (f z)" for f :: "'z \<Rightarrow> 'z" and z
    by (induction n arbitrary: z) simp_all
  show ?case
  proof (cases xs)
    case Nil
    with Suc.prems have rs: "rep s []" and "deq s = (s, None)" by (simp_all add: deq_Nil)
    moreover from Suc.IH [OF rs, of "out @ [None]"] obtain s' where
      "fold (\<lambda>_ (s, out). (case deq s of (s', r) \<Rightarrow> (s', out @ [r]))) [0..<n] (s, out @ [None]) =
        (s', (out @ [None]) @ map Some [] @ replicate n None)" "rep s' []" by auto
    ultimately show ?thesis using Nil by (simp only: shift) simp
  next
    case (Cons y ys)
    with Suc.prems obtain s1 where s1: "deq s = (s1, Some y)" "rep s1 ys"
      using deq_Cons by blast
    from Suc.prems Cons have "length ys \<le> n" by simp
    from Suc.IH [OF s1(2) this, of "out @ [Some y]"] s1 Cons show ?thesis
      by (simp only: shift) auto
  qed
qed

lemma fifo_order:
  assumes "rep s []" and "distinct xs" and "\<forall>x \<in> set xs. admissible x"
  shows "snd (fold (\<lambda>_ (s, out). (case deq s of (s', r) \<Rightarrow> (s', out @ [r]))) [0..<length xs]
           (fold enq xs s, [])) = map Some xs"
  using drain_order [of "fold enq xs s" xs "length xs" "[]"] rep_enq_all [of s "[]" xs] assms by auto

end

text \<open>The heap code as a queue at a fixed address: \<open>NULL\<close> is the C result for "empty".\<close>

definition heap_enq :: "u32 \<Rightarrow> u32 \<Rightarrow> simple_node_heap \<Rightarrow> simple_node_heap" where
  "heap_enq q n h = fst (simple_queue_enqueue q n h)"

definition heap_deq :: "u32 \<Rightarrow> simple_node_heap \<Rightarrow> simple_node_heap \<times> u32 option" where
  "heap_deq q h = (case simple_queue_dequeue q h of (h', r) \<Rightarrow> (h', if r = NULL then None else Some r))"

interpretation heap_queue: fifo_queue "\<lambda>h. sq_rep h q" "heap_enq q" "heap_deq q"
  "\<lambda>n. n \<noteq> NULL \<and> n \<noteq> head_of q \<and> n \<noteq> tail_of q" for q
proof unfold_locales
  fix h ns n
  assume "sq_rep h q ns" "n \<notin> set ns" "n \<noteq> NULL \<and> n \<noteq> head_of q \<and> n \<noteq> tail_of q"
  then show "sq_rep (heap_enq q n h) q (ns @ [n])"
    unfolding heap_enq_def by (intro simple_queue_enqueue_rep) auto
next
  fix h assume "sq_rep h q []"
  then show "heap_deq q h = (h, None)" by (simp add: heap_deq_def simple_queue_dequeue_empty)
next
  fix h n ns assume rep: "sq_rep h q (n # ns)"
  then have "n \<noteq> NULL" by (auto simp: sq_rep_def)
  with simple_queue_dequeue_rep [OF rep] show "\<exists>h'. heap_deq q h = (h', Some n) \<and> sq_rep h' q ns"
    by (cases "simple_queue_dequeue q h") (auto simp: heap_deq_def)
qed

interpretation list_queue: fifo_queue "(=)" "\<lambda>x q. q_enqueue q x" "\<lambda>q. (case q_dequeue q of (r, q') \<Rightarrow> (q', r))"
  "\<lambda>_. True"
  by unfold_locales auto

section \<open>Properties\<close>

text \<open>Elements put into an initialised queue come out in arrival order. For any distinct
  nodes that are neither \<open>NULL\<close> nor a sentinel of the queue, initialising the queue at \<open>q\<close>,
  enqueueing the nodes one after the other and dequeueing as often returns exactly those nodes in the
  order they were enqueued.\<close>

theorem simple_queue_fifo:
  assumes "distinct ns" and "\<forall>n \<in> set ns. n \<noteq> NULL \<and> n \<noteq> head_of q \<and> n \<noteq> tail_of q"
  shows "snd (fold (\<lambda>_ (h, out). (case heap_deq q h of (h', r) \<Rightarrow> (h', out @ [r]))) [0..<length ns]
           (fold (heap_enq q) ns (fst (simple_queue_init q h)), [])) = map Some ns"
  using assms simple_queue_init_rep by (intro heap_queue.fifo_order)

theorem simple_queue_fifo_witness:
  "snd (fold (\<lambda>_ (h, out). (case heap_deq 100 h of (h', r) \<Rightarrow> (h', out @ [r]))) [0..<length [200, 300, 400 :: u32]]
      (fold (heap_enq 100) [200, 300, 400 :: u32]
         (fst (simple_queue_init 100 \<lparr>thr_f = (\<lambda>_. 0), next_f = (\<lambda>_. 0), prev_f = (\<lambda>_. 0)\<rparr>)), []))
   = map Some [200, 300, 400 :: u32]"
  by (rule simple_queue_fifo) (simp_all add: head_of_def tail_of_def)

text \<open>\<open>simple_queue_remove_tid\<close> unlinks exactly the first node whose thread has the
  wanted \<open>tid\<close>, keeps every other node in order and leaves a well-formed doubly linked queue; it
  always terminates, and returns \<open>NULL\<close> with the queue unchanged when there is no such node.\<close>

theorem simple_queue_remove_tid_correct:
  assumes "sq_rep h q ns"
  shows "\<exists>h' r. simple_queue_remove_tid tcb_tid q tid h = Some (h', r) \<and>
     ((r = NULL \<and> (\<forall>n \<in> set ns. tcb_tid (thr_f h n) \<noteq> tid) \<and> sq_rep h' q ns) \<or>
      (\<exists>us vs. ns = us @ r # vs \<and> tcb_tid (thr_f h r) = tid \<and>
          (\<forall>u \<in> set us. tcb_tid (thr_f h u) \<noteq> tid) \<and> sq_rep h' q (us @ vs)))"
proof -
  let ?P = "\<lambda>n. tcb_tid (thr_f h n) = tid"
  obtain res ms where r: "remove_first ?P ns = (res, ms)" by fastforce
  from simple_queue_remove_tid_rep [OF assms r] obtain h' where h':
    "simple_queue_remove_tid tcb_tid q tid h = Some (h', case res of None \<Rightarrow> NULL | Some m \<Rightarrow> m)"
    "sq_rep h' q ms" by (auto simp: simple_queue_remove_tid_def)
  show ?thesis
  proof (cases res)
    case None
    with r h' remove_first_None [of ?P ns ms] show ?thesis by auto
  next
    case (Some m)
    with r remove_first_Some [of ?P ns m ms] obtain us vs where
      "ns = us @ m # vs" "ms = us @ vs" "?P m" "\<forall>u \<in> set us. \<not> ?P u" by auto
    with h' Some show ?thesis by auto
  qed
qed

theorem simple_queue_remove_tid_correct_witness:
  "\<exists>h h' r. sq_rep h 100 [200] \<and> simple_queue_remove_tid (\<lambda>_. 7) 100 7 h = Some (h', r) \<and>
     ((r = NULL \<and> (\<forall>n \<in> set [200 :: u32]. (7 :: int) \<noteq> 7) \<and> sq_rep h' 100 [200]) \<or>
      (\<exists>us vs. [200 :: u32] = us @ r # vs \<and> (7 :: int) = 7 \<and>
          (\<forall>u \<in> set us. (7 :: int) \<noteq> 7) \<and> sq_rep h' 100 (us @ vs)))"
proof -
  let ?h = "\<lparr>thr_f = (\<lambda>_. 0), next_f = (\<lambda>x. if x = 100 then 200 else 112),
       prev_f = (\<lambda>x. if x = 112 then 200 else 100)\<rparr> :: simple_node_heap"
  have rep: "sq_rep ?h 100 [200]" by (simp add: sq_rep_def head_of_def tail_of_def)
  show ?thesis using rep simple_queue_remove_tid_correct [OF rep, of "\<lambda>_. 7" 7] by blast
qed

end
