(* ===== verification/Mutex.thy ===== *)
theory Mutex
  imports Simple_Queue
begin

text \<open>
  The blocking mutex (\<open>kern/mutex.c\<close>).

  Each call runs its body under the mutex's inner spinlock, so the bodies are atomic functions on
  \<open>mutex_t\<close>; the queue of waiting threads is the list of their tcb addresses (the node queue of
  \<open>Simple_Queue\<close> refines it). What happens outside the spinlock (the \<open>while\<close> loop around
  \<open>context_switch(OP_BLOCK)\<close>, and \<open>context_switch(OP_MAKE_RUNNABLE)\<close> after an unlock) is
  interleaved freely by the step relation \<open>mx_step\<close>.
\<close>

section \<open>Operations\<close>

datatype thread_state_t = NORMAL | BLOCKED | MADE_RUNNABLE | WAKEUP

record mutex_t =
  lock_holder :: int          \<comment> \<open>a tid; -1 available; -2 destroyed\<close>
  deque :: "u32 list"         \<comment> \<open>the tcbs blocked on the mutex\<close>

definition mutex_init :: "mutex_t \<Rightarrow> mutex_t \<times> int" where
  "mutex_init mp = (mp\<lparr>lock_holder := - 1, deque := []\<rparr>, 0)"

definition mutex_destroy :: "mutex_t \<Rightarrow> mutex_t kres" where
  "mutex_destroy mp =
     (if lock_holder mp = - 2 then Inl PANIC
      else if lock_holder mp \<noteq> - 1 \<or> deque mp \<noteq> [] then Inl PANIC
      else Inr (mp\<lparr>lock_holder := - 2\<rparr>))"

text \<open>The part of \<open>mutex_lock\<close> under the spinlock; \<open>True\<close>: the caller has the mutex, \<open>False\<close>: it
  is queued and goes to the \<open>while\<close> loop.\<close>

definition mutex_lock :: "u32 \<Rightarrow> int \<Rightarrow> mutex_t \<Rightarrow> (mutex_t \<times> bool) kres" where
  "mutex_lock thr thr_tid mp =
     (if lock_holder mp = - 2 then Inl PANIC
      else if lock_holder mp = - 1 then Inr (mp\<lparr>lock_holder := thr_tid\<rparr>, True)
      else Inr (mp\<lparr>deque := q_enqueue (deque mp) thr\<rparr>, False))"

definition mutex_try_lock :: "int \<Rightarrow> mutex_t \<Rightarrow> (mutex_t \<times> int) kres" where
  "mutex_try_lock thr_tid mp =
     (if lock_holder mp = - 2 then Inl PANIC
      else if lock_holder mp = - 1 then Inr (mp\<lparr>lock_holder := thr_tid\<rparr>, 0)
      else Inr (mp, - 1))"

text \<open>\<open>tid_of\<close> reads the \<open>tid\<close> field of a tcb; the result names the thread to pass to
  \<open>context_switch(OP_MAKE_RUNNABLE)\<close>.\<close>

definition mutex_unlock :: "(u32 \<Rightarrow> int) \<Rightarrow> mutex_t \<Rightarrow> (mutex_t \<times> u32 option) kres" where
  "mutex_unlock tid_of mp =
     (if lock_holder mp = - 2 then Inl PANIC
      else if lock_holder mp = - 1 then Inl PANIC
      else case q_dequeue (deque mp) of
             (None, _) \<Rightarrow> Inr (mp\<lparr>lock_holder := - 1\<rparr>, None)
           | (Some thr, q) \<Rightarrow> Inr (mp\<lparr>lock_holder := tid_of thr, deque := q\<rparr>, Some thr))"

text \<open>The branches of the three calls.\<close>

lemma mutex_lockE:
  assumes "mutex_lock thr i mp = Inr (m, got)"
  obtains (take) "lock_holder mp = - 1" "m = mp\<lparr>lock_holder := i\<rparr>" "got"
    | (queued) "lock_holder mp \<noteq> - 1" "lock_holder mp \<noteq> - 2" "m = mp\<lparr>deque := deque mp @ [thr]\<rparr>" "\<not> got"
  using assms by (auto simp: mutex_lock_def split: if_splits)

lemma mutex_try_lockE:
  assumes "mutex_try_lock i mp = Inr (m, rv)"
  obtains (take) "lock_holder mp = - 1" "m = mp\<lparr>lock_holder := i\<rparr>" "rv = 0"
    | (held) "lock_holder mp \<noteq> - 1" "lock_holder mp \<noteq> - 2" "m = mp" "rv = - 1"
  using assms by (auto simp: mutex_try_lock_def split: if_splits)

lemma mutex_unlockE:
  assumes "mutex_unlock tid_of mp = Inr (m, w)"
  obtains (release) "lock_holder mp \<noteq> - 1" "lock_holder mp \<noteq> - 2" "deque mp = []" "m = mp\<lparr>lock_holder := - 1\<rparr>" "w = None"
    | (hand_over) u us where "lock_holder mp \<noteq> - 1" "lock_holder mp \<noteq> - 2" "deque mp = u # us"
        "m = mp\<lparr>lock_holder := tid_of u, deque := us\<rparr>" "w = Some u"
  using assms by (cases "deque mp") (auto simp: mutex_unlock_def split: if_splits)

section \<open>The calls as one thread sees them\<close>

text \<open>
  For the components that use a mutex: the running thread, the tids of the threads, and the other
  threads its calls have made runnable so far. A call of \<open>mutex_lock\<close> that queues the caller
  returns at once if the caller already holds the mutex (the \<open>while\<close> condition is false) and
  otherwise blocks. A call of \<open>mutex_unlock\<close> may find the caller itself in the queue and then
  performs \<open>OP_MAKE_RUNNABLE\<close> on the caller.
\<close>

record kthr =
  me :: u32
  tids :: "u32 \<Rightarrow> int"
  my_state :: thread_state_t
  made_runnable :: "u32 list"

abbreviation my_tid :: "kthr \<Rightarrow> int" where "my_tid k \<equiv> tids k (me k)"

definition kmutex_lock :: "kthr \<Rightarrow> mutex_t \<Rightarrow> mutex_t kres" where
  "kmutex_lock k mp =
     kbind (mutex_lock (me k) (my_tid k) mp) (\<lambda>(mp, got).
       if got then Inr mp
       else if lock_holder mp \<noteq> my_tid k then Inl BLOCKS
       else Inr mp)"

definition kmake_runnable :: "u32 \<Rightarrow> kthr \<Rightarrow> kthr kres" where
  "kmake_runnable thr k =
     (if thr = me k
      then (case my_state k of
              BLOCKED \<Rightarrow> Inr (k\<lparr>my_state := NORMAL, made_runnable := made_runnable k @ [thr]\<rparr>)
            | NORMAL \<Rightarrow> Inr (k\<lparr>my_state := MADE_RUNNABLE\<rparr>)
            | _ \<Rightarrow> Inl PANIC)
      else Inr (k\<lparr>made_runnable := made_runnable k @ [thr]\<rparr>))"

definition kmutex_unlock :: "mutex_t \<Rightarrow> kthr \<Rightarrow> (mutex_t \<times> kthr) kres" where
  "kmutex_unlock mp k =
     kbind (mutex_unlock (tids k) mp) (\<lambda>(mp, w).
       case w of None \<Rightarrow> Inr (mp, k)
       | Some thr \<Rightarrow> kbind (kmake_runnable thr k) (\<lambda>k. Inr (mp, k)))"

definition free_mutex :: mutex_t where
  "free_mutex = \<lparr>lock_holder = - 1, deque = []\<rparr>"

definition held_by :: "int \<Rightarrow> mutex_t" where
  "held_by i = \<lparr>lock_holder = i, deque = []\<rparr>"

lemma kmutex_lock_free [simp]: "kmutex_lock k free_mutex = Inr (held_by (my_tid k))"
  by (simp add: kmutex_lock_def mutex_lock_def free_mutex_def held_by_def)

lemma kmutex_unlock_held [simp]: "0 \<le> i \<Longrightarrow> kmutex_unlock (held_by i) k = Inr (free_mutex, k)"
  by (simp add: kmutex_unlock_def mutex_unlock_def free_mutex_def held_by_def)

text \<open>A thread that locks a mutex it already holds gets through and queues itself behind itself;
  its unlock then performs \<open>OP_MAKE_RUNNABLE\<close> on itself.\<close>

lemma kmutex_relock:
  "0 \<le> my_tid k \<Longrightarrow>
     kmutex_lock k (held_by (my_tid k)) = Inr \<lparr>lock_holder = my_tid k, deque = [me k]\<rparr> \<and>
     kmutex_unlock \<lparr>lock_holder = my_tid k, deque = [me k]\<rparr> k =
       kbind (kmake_runnable (me k) k) (\<lambda>k'. Inr (held_by (my_tid k), k'))"
  by (simp add: kmutex_lock_def mutex_lock_def kmutex_unlock_def mutex_unlock_def held_by_def)

section \<open>Threads using the mutex\<close>

datatype mpc =
    Outside            \<comment> \<open>not in a mutex call\<close>
  | At_check           \<comment> \<open>about to evaluate \<open>mp->lock_holder != thr->tid\<close>\<close>
  | At_block           \<comment> \<open>about to call \<open>context_switch(OP_BLOCK, 0)\<close>\<close>
  | Asleep             \<comment> \<open>switched away in \<open>OP_BLOCK\<close>\<close>
  | Critical           \<comment> \<open>\<open>mutex_lock\<close> returned\<close>
  | Waking u32         \<comment> \<open>in \<open>mutex_unlock\<close>, about to make this thread runnable\<close>
  | Panicked           \<comment> \<open>reached the \<open>panic\<close> of \<open>OP_MAKE_RUNNABLE\<close>\<close>

record mx_sys =
  mtx :: mutex_t
  mpc :: "u32 \<Rightarrow> mpc"
  tstate :: "u32 \<Rightarrow> thread_state_t"

definition mgoto :: "u32 \<Rightarrow> mpc \<Rightarrow> mx_sys \<Rightarrow> mx_sys" where
  "mgoto t p s = s\<lparr>mpc := (mpc s)(t := p)\<rparr>"

definition set_state :: "u32 \<Rightarrow> thread_state_t \<Rightarrow> mx_sys \<Rightarrow> mx_sys" where
  "set_state t st s = s\<lparr>tstate := (tstate s)(t := st)\<rparr>"

inductive mx_step :: "(u32 \<Rightarrow> int) \<Rightarrow> mx_sys \<Rightarrow> mx_sys \<Rightarrow> bool" for tid_of where
  lock: "\<lbrakk>mpc s t = Outside; mutex_lock t (tid_of t) (mtx s) = Inr (m, got)\<rbrakk> \<Longrightarrow>
     mx_step tid_of s (mgoto t (if got then Critical else At_check) (s\<lparr>mtx := m\<rparr>))"
| try_lock: "\<lbrakk>mpc s t = Outside; mutex_try_lock (tid_of t) (mtx s) = Inr (m, rv)\<rbrakk> \<Longrightarrow>
     mx_step tid_of s (mgoto t (if rv = 0 then Critical else Outside) (s\<lparr>mtx := m\<rparr>))"
| check: "mpc s t = At_check \<Longrightarrow>
     mx_step tid_of s (mgoto t (if lock_holder (mtx s) \<noteq> tid_of t then At_block else Critical) s)"
| block_skip: "\<lbrakk>mpc s t = At_block; tstate s t = WAKEUP \<or> tstate s t = MADE_RUNNABLE\<rbrakk> \<Longrightarrow>
     mx_step tid_of s (mgoto t At_check (set_state t NORMAL s))"
| block: "\<lbrakk>mpc s t = At_block; tstate s t = NORMAL\<rbrakk> \<Longrightarrow>
     mx_step tid_of s (mgoto t Asleep (set_state t BLOCKED s))"
| scheduled: "\<lbrakk>mpc s t = Asleep; tstate s t = NORMAL\<rbrakk> \<Longrightarrow>
     mx_step tid_of s (mgoto t At_check s)"
| unlock: "\<lbrakk>mpc s t = Critical; mutex_unlock tid_of (mtx s) = Inr (m, w)\<rbrakk> \<Longrightarrow>
     mx_step tid_of s
       (mgoto t (case w of None \<Rightarrow> Outside | Some u \<Rightarrow> Waking u) (s\<lparr>mtx := m\<rparr>))"
| make_runnable: "mpc s t = Waking u \<Longrightarrow>
     mx_step tid_of s
       (case tstate s u of
          BLOCKED \<Rightarrow> mgoto t Outside (set_state u NORMAL s)
        | NORMAL \<Rightarrow> mgoto t Outside (set_state u MADE_RUNNABLE s)
        | _ \<Rightarrow> mgoto t Panicked s)"

definition mx_init :: mx_sys where
  "mx_init = \<lparr>mtx = fst (mutex_init \<lparr>lock_holder = 0, deque = []\<rparr>), mpc = (\<lambda>_. Outside),
              tstate = (\<lambda>_. NORMAL)\<rparr>"

inductive mx_reachable :: "(u32 \<Rightarrow> int) \<Rightarrow> mx_sys \<Rightarrow> bool" for tid_of where
  init: "mx_reachable tid_of mx_init"
| step: "\<lbrakk>mx_reachable tid_of s; mx_step tid_of s t\<rbrakk> \<Longrightarrow> mx_reachable tid_of t"

text \<open>A waiting thread is queued or has been handed the mutex; the owner is critical or was handed
  the mutex; a thread that is really blocked is queued or about to be woken.\<close>

definition waits :: "mx_sys \<Rightarrow> u32 \<Rightarrow> bool" where
  "waits s t \<longleftrightarrow> mpc s t \<in> {At_check, At_block, Asleep}"

definition woken :: "mx_sys \<Rightarrow> u32 \<Rightarrow> bool" where
  "woken s t \<longleftrightarrow> (\<exists>u. mpc s u = Waking t)"

definition thr_ok :: "(u32 \<Rightarrow> int) \<Rightarrow> mx_sys \<Rightarrow> u32 \<Rightarrow> bool" where
  "thr_ok tid_of s t \<longleftrightarrow>
     (t \<in> set (deque (mtx s)) \<longrightarrow> waits s t \<and> lock_holder (mtx s) \<noteq> tid_of t) \<and>
     (mpc s t = Critical \<longrightarrow> lock_holder (mtx s) = tid_of t) \<and>
     (waits s t \<longrightarrow> t \<in> set (deque (mtx s)) \<or> lock_holder (mtx s) = tid_of t) \<and>
     (lock_holder (mtx s) = tid_of t \<longrightarrow> mpc s t = Critical \<or> waits s t) \<and>
     (tstate s t = BLOCKED \<longrightarrow> mpc s t = Asleep) \<and>
     (lock_holder (mtx s) = tid_of t \<and>
        (tstate s t = BLOCKED \<or> mpc s t = At_block \<and> tstate s t = NORMAL) \<longrightarrow>
      woken s t)"

definition mx_inv :: "(u32 \<Rightarrow> int) \<Rightarrow> mx_sys \<Rightarrow> bool" where
  "mx_inv tid_of s \<longleftrightarrow>
     lock_holder (mtx s) \<noteq> - 2 \<and>
     (lock_holder (mtx s) = - 1 \<longrightarrow> deque (mtx s) = []) \<and>
     distinct (deque (mtx s)) \<and> (\<forall>t. thr_ok tid_of s t)"

lemma mx_inv_init: "(\<And>t. 0 \<le> tid_of t) \<Longrightarrow> mx_inv tid_of mx_init"
proof -
  assume nn: "\<And>t. 0 \<le> tid_of t"
  have "- 1 \<noteq> tid_of t" for t using nn [of t] by linarith
  then show ?thesis by (simp add: mx_inv_def thr_ok_def mx_init_def mutex_init_def waits_def)
qed

lemma mx_upd [simp]:
  "mpc (mgoto t p s) = (mpc s)(t := p)" "mtx (mgoto t p s) = mtx s" "tstate (mgoto t p s) = tstate s"
  "mpc (set_state t st s) = mpc s" "mtx (set_state t st s) = mtx s"
  "tstate (set_state t st s) = (tstate s)(t := st)"
  by (simp_all add: mgoto_def set_state_def)

lemma waits_upd [simp]:
  "waits (mgoto t p s) x \<longleftrightarrow> (if x = t then p \<in> {At_check, At_block, Asleep} else waits s x)"
  "waits (s\<lparr>mtx := m\<rparr>) x = waits s x" "waits (set_state u st s) x = waits s x"
  by (simp_all add: waits_def)

lemma woken_upd [simp]: "woken (s\<lparr>mtx := m\<rparr>) x = woken s x" "woken (set_state u st s) x = woken s x"
  by (simp_all add: woken_def)

lemma woken_mgoto:
  "woken (mgoto t p s) x \<longleftrightarrow> p = Waking x \<or> (\<exists>u. u \<noteq> t \<and> mpc s u = Waking x)"
  by (auto simp: woken_def)

lemma woken_mono: "woken s x \<Longrightarrow> mpc s t \<noteq> Waking x \<Longrightarrow> woken (mgoto t p s) x"
  by (auto simp: woken_def)

lemma waits_pc:
  "mpc s t = Outside \<Longrightarrow> \<not> waits s t" "mpc s t = Critical \<Longrightarrow> \<not> waits s t"
  "mpc s t = Waking u \<Longrightarrow> \<not> waits s t"
  "mpc s t = At_check \<Longrightarrow> waits s t" "mpc s t = At_block \<Longrightarrow> waits s t" "mpc s t = Asleep \<Longrightarrow> waits s t"
  by (simp_all add: waits_def)

text \<open>Thread ids are different from one another and from the two special values of \<open>lock_holder\<close>.\<close>

definition good_tids :: "(u32 \<Rightarrow> int) \<Rightarrow> bool" where
  "good_tids tid_of \<longleftrightarrow> inj tid_of \<and> (\<forall>t. 0 \<le> tid_of t)"

lemma good_tids_simps:
  assumes "good_tids tid_of"
  shows "tid_of t = tid_of u \<longleftrightarrow> t = u" "tid_of t \<noteq> - 1" "- 1 \<noteq> tid_of t" "tid_of t \<noteq> - 2" "- 2 \<noteq> tid_of t"
proof -
  have "0 \<le> tid_of t" using assms by (simp add: good_tids_def)
  then show "tid_of t \<noteq> - 1" "- 1 \<noteq> tid_of t" "tid_of t \<noteq> - 2" "- 2 \<noteq> tid_of t" by linarith+
  show "tid_of t = tid_of u \<longleftrightarrow> t = u" using assms by (auto simp: good_tids_def dest: injD)
qed

lemma mx_invI:
  assumes "lock_holder (mtx s) \<noteq> - 2" "lock_holder (mtx s) = - 1 \<longrightarrow> deque (mtx s) = []"
    "distinct (deque (mtx s))" "\<And>t. thr_ok tid_of s t"
  shows "mx_inv tid_of s"
  using assms by (simp add: mx_inv_def)

lemma mx_invD:
  assumes "mx_inv tid_of s"
  shows "lock_holder (mtx s) \<noteq> - 2" "lock_holder (mtx s) = - 1 \<longrightarrow> deque (mtx s) = []" "distinct (deque (mtx s))" "thr_ok tid_of s t"
  using assms by (simp_all add: mx_inv_def)

text \<open>A thread takes the free mutex, queues itself, moves on without touching the mutex, or gives the mutex up.\<close>

lemma mx_inv_take:
  assumes inv: "mx_inv tid_of s" and g: "good_tids tid_of" and "mpc s t = Outside" and "lock_holder (mtx s) = - 1"
  shows "mx_inv tid_of (mgoto t Critical (s\<lparr>mtx := (mtx s)\<lparr>lock_holder := tid_of t\<rparr>\<rparr>))" (is "mx_inv tid_of ?s")
proof (rule mx_invI)
  fix x show "thr_ok tid_of ?s x" using assms(3,4) mx_invD(4) [OF inv, of x] mx_invD(4) [OF inv, of t] mx_invD(1-3) [OF inv] good_tids_simps [OF g]
    by (cases "x = t") (simp_all add: thr_ok_def waits_pc woken_mono)
qed (use mx_invD [OF inv] assms(4) good_tids_simps [OF g] in simp_all)

lemma mx_inv_queue:
  assumes inv: "mx_inv tid_of s" and g: "good_tids tid_of" and "mpc s t = Outside" and "lock_holder (mtx s) \<noteq> - 1"
  shows "mx_inv tid_of (mgoto t At_check (s\<lparr>mtx := (mtx s)\<lparr>deque := deque (mtx s) @ [t]\<rparr>\<rparr>))" (is "mx_inv tid_of ?s")
proof (rule mx_invI)
  fix x show "thr_ok tid_of ?s x" using assms(3,4) mx_invD(4) [OF inv, of x] mx_invD(4) [OF inv, of t] mx_invD(1-3) [OF inv] good_tids_simps [OF g]
    by (cases "x = t") (simp_all add: thr_ok_def waits_pc woken_mono)
qed (use mx_invD(4) [OF inv, of t] mx_invD(1-3) [OF inv] assms(3,4) in \<open>simp_all add: thr_ok_def waits_pc\<close>)

lemma mx_inv_local:
  assumes inv: "mx_inv tid_of s" and "mtx s' = mtx s" and "\<And>x. thr_ok tid_of s' x"
  shows "mx_inv tid_of s'"
  using assms mx_invD [OF inv] by (intro mx_invI) simp_all

lemma mx_inv_unlock:
  assumes inv: "mx_inv tid_of s" and g: "good_tids tid_of" and c: "mpc s t = Critical" and u: "mutex_unlock tid_of (mtx s) = Inr (m, w)"
  shows "mx_inv tid_of (mgoto t (case w of None \<Rightarrow> Outside | Some u \<Rightarrow> Waking u) (s\<lparr>mtx := m\<rparr>))" (is "mx_inv tid_of ?s")
  using u
proof (cases rule: mutex_unlockE)
  case release
  show ?thesis
  proof (rule mx_invI)
    fix x show "thr_ok tid_of ?s x" using release c mx_invD(4) [OF inv, of x] mx_invD(4) [OF inv, of t] mx_invD(1-3) [OF inv] good_tids_simps [OF g]
      unfolding release(4,5) by (cases "x = t") (simp_all add: thr_ok_def waits_pc woken_mono)
  qed (use mx_invD [OF inv] release in simp_all)
next
  case (hand_over v us)
  show ?thesis
  proof (rule mx_invI)
    fix x show "thr_ok tid_of ?s x" using hand_over c mx_invD(4) [OF inv, of x] mx_invD(4) [OF inv, of t] mx_invD(1-3) [OF inv] good_tids_simps [OF g]
      unfolding hand_over(4,5) by (cases "x = t"; cases "x = v") (auto simp add: thr_ok_def waits_pc woken_mono woken_mgoto)
  qed (use mx_invD [OF inv] hand_over good_tids_simps [OF g] in simp_all)
qed

lemma mx_inv_step:
  assumes "mx_step tid_of s s'" and inv: "mx_inv tid_of s" and g: "good_tids tid_of"
  shows "mx_inv tid_of s'"
proof -
  note ok = mx_invD(4) [OF inv]
  from assms(1) show ?thesis
  proof (cases rule: mx_step.cases)
    case (lock t m got)
    from lock(3) show ?thesis
      by (cases rule: mutex_lockE) (use mx_inv_take [OF inv g lock(2)] mx_inv_queue [OF inv g lock(2)] in \<open>simp_all add: lock(1)\<close>)
  next
    case (try_lock t m rv)
    from try_lock(3) show ?thesis
    proof (cases rule: mutex_try_lockE)
      case held
      then have "s' = s" using try_lock(1,2) by (simp add: mgoto_def fun_upd_idem)
      with inv show ?thesis by simp
    qed (use mx_inv_take [OF inv g try_lock(2)] in \<open>simp_all add: try_lock(1)\<close>)
  next
    case (unlock t m w)
    from mx_inv_unlock [OF inv g unlock(2,3)] show ?thesis by (simp only: unlock(1))
  next
    case (make_runnable t u)
    have "thr_ok tid_of s' x" for x using make_runnable ok [of x] ok [of t] ok [of u]
      by (cases "x = u"; cases "x = t"; cases "tstate s u") (simp_all add: thr_ok_def waits_pc woken_mono)
    then show ?thesis using make_runnable by (intro mx_inv_local [OF inv]) (auto split: thread_state_t.splits)
  next
    case (check t)
    have "thr_ok tid_of s' x" for x using check ok [of x] ok [of t]
      by (cases "x = t") (simp_all add: thr_ok_def waits_pc woken_mono)
    then show ?thesis using check by (intro mx_inv_local [OF inv]) simp_all
  next
    case (block_skip t)
    have "thr_ok tid_of s' x" for x using block_skip ok [of x] ok [of t]
      by (cases "x = t") (simp_all add: thr_ok_def waits_pc woken_mono)
    then show ?thesis using block_skip by (intro mx_inv_local [OF inv]) simp_all
  next
    case (block t)
    have "thr_ok tid_of s' x" for x using block ok [of x] ok [of t]
      by (cases "x = t") (simp_all add: thr_ok_def waits_pc woken_mono)
    then show ?thesis using block by (intro mx_inv_local [OF inv]) simp_all
  next
    case (scheduled t)
    have "thr_ok tid_of s' x" for x using scheduled ok [of x] ok [of t]
      by (cases "x = t") (simp_all add: thr_ok_def waits_pc woken_mono)
    then show ?thesis using scheduled by (intro mx_inv_local [OF inv]) simp_all
  qed
qed

lemma mx_inv_reachable:
  assumes "mx_reachable tid_of s" and "inj tid_of" and "\<And>t. 0 \<le> tid_of t"
  shows "mx_inv tid_of s"
  using assms(1)
proof induction
  case init
  then show ?case using assms(3) by (rule mx_inv_init)
next
  case (step s t)
  then show ?case using mx_inv_step assms(2,3) by (auto simp: good_tids_def)
qed

lemma uint_tids: "inj (uint :: u32 \<Rightarrow> int)" "0 \<le> uint (t :: u32)"
  by (simp_all add: inj_def word_uint_eq_iff)

lemmas mx_reach_step = mx_reachable.step [OF _ mx_step.lock] mx_reachable.step [OF _ mx_step.unlock]
  mx_reachable.step [OF _ mx_step.check] mx_reachable.step [OF _ mx_step.make_runnable]

section \<open>Properties\<close>

text \<open>C9: mutual exclusion. However the threads of the system interleave their lock, try-lock,
  block, wake-up and unlock steps, no two threads are between the return of \<open>mutex_lock\<close> (or a
  successful \<open>mutex_try_lock\<close>) and their \<open>mutex_unlock\<close>, as long as threads have distinct
  non-negative tids.\<close>

theorem mutex_mutual_exclusion:
  assumes "mx_reachable tid_of s" and "inj tid_of" and "\<And>t. 0 \<le> tid_of t"
    and "mpc s t = Critical" and "mpc s u = Critical"
  shows "t = u"
proof -
  from mx_inv_reachable [OF assms(1-3)] have "thr_ok tid_of s t" "thr_ok tid_of s u"
    by (simp_all add: mx_inv_def)
  with assms(4,5) have "tid_of t = tid_of u" by (simp add: thr_ok_def)
  with assms(2) show ?thesis by (rule injD)
qed

definition mx_locked :: mx_sys where
  "mx_locked = mgoto 1 Critical (mx_init\<lparr>mtx := \<lparr>lock_holder = 1, deque = []\<rparr>\<rparr>)"

lemma mx_locked_reachable: "mx_reachable uint mx_locked"
proof -
  have "mutex_lock 1 (uint (1 :: u32)) (mtx mx_init) = Inr (\<lparr>lock_holder = 1, deque = []\<rparr>, True)"
    by (simp add: mx_init_def mutex_init_def mutex_lock_def)
  from mx_reachable.step [OF mx_reachable.init mx_step.lock [of _ _ uint, OF _ this]] show ?thesis
    by (simp add: mx_locked_def mx_init_def)
qed

theorem mutex_mutual_exclusion_witness:
  "mpc mx_locked 1 = Critical \<and> (\<forall>u. (mpc mx_locked u = Critical) = (u = 1))"
proof -
  have c: "mpc mx_locked 1 = Critical" by (simp add: mx_locked_def)
  have "1 = u" if "mpc mx_locked u = Critical" for u
    using mutex_mutual_exclusion [OF mx_locked_reachable uint_tids c that] .
  with c show ?thesis by auto
qed

lemma mx_holder_is_thread:
  assumes "mx_reachable tid_of s"
  shows "lock_holder (mtx s) = - 1 \<or> (\<exists>u. lock_holder (mtx s) = tid_of u)"
  using assms
proof induction
  case init
  then show ?case by (simp add: mx_init_def mutex_init_def)
next
  case (step s s')
  from step(2) show ?case
  proof (cases rule: mx_step.cases)
    case (lock t m got)
    from lock(3) show ?thesis by (cases rule: mutex_lockE) (use step(3) in \<open>auto simp: lock(1)\<close>)
  next
    case (try_lock t m rv)
    from try_lock(3) show ?thesis by (cases rule: mutex_try_lockE) (use step(3) in \<open>auto simp: try_lock(1)\<close>)
  next
    case (unlock t m w)
    from unlock(3) show ?thesis by (cases rule: mutex_unlockE) (auto simp: unlock(1))
  qed (use step(3) in \<open>auto split: thread_state_t.splits\<close>)
qed

text \<open>C21: no lost wake-up. However the threads interleave, (1) every queued thread is blocked or on its way to block, and the
  mutex is then held by another thread, which is critical or was handed the mutex and waits to notice it; (2) every blocked
  thread is queued, or it was handed the mutex and another thread is about to make it runnable; (3) the same holds of a
  thread that is about to block; (4) the unlock of the thread that is critical succeeds, hands the mutex to the oldest
  queued thread and names it for the wake-up, and frees the mutex only when the queue is empty.\<close>

theorem mutex_no_lost_wakeup:
  assumes "mx_reachable tid_of s" and "inj tid_of" and "\<And>t. 0 \<le> tid_of t"
  shows "(\<forall>t \<in> set (deque (mtx s)). mpc s t \<in> {At_check, At_block, Asleep} \<and>
       (\<exists>u. u \<noteq> t \<and> lock_holder (mtx s) = tid_of u \<and> mpc s u \<in> {Critical, At_check, At_block, Asleep})) \<and>
    (\<forall>t. tstate s t = BLOCKED \<longrightarrow> mpc s t = Asleep \<and>
       (t \<in> set (deque (mtx s)) \<or> lock_holder (mtx s) = tid_of t \<and> (\<exists>u. mpc s u = Waking t))) \<and>
    (\<forall>t. mpc s t = At_block \<and> tstate s t = NORMAL \<longrightarrow>
       t \<in> set (deque (mtx s)) \<or> lock_holder (mtx s) = tid_of t \<and> (\<exists>u. mpc s u = Waking t)) \<and>
    (\<forall>t. mpc s t = Critical \<longrightarrow>
       (\<exists>m. mutex_unlock tid_of (mtx s) = Inr (m, case deque (mtx s) of [] \<Rightarrow> None | u # _ \<Rightarrow> Some u) \<and>
          lock_holder m = (case deque (mtx s) of [] \<Rightarrow> - 1 | u # _ \<Rightarrow> tid_of u) \<and> deque m = tl (deque (mtx s))))"
proof (intro conjI ballI allI impI)
  note inv = mx_inv_reachable [OF assms]
  have g: "good_tids tid_of" using assms(2,3) by (simp add: good_tids_def)
  note ok = mx_invD(4) [OF inv]
  { fix t assume t: "t \<in> set (deque (mtx s))"
    show "mpc s t \<in> {At_check, At_block, Asleep}" using ok [of t] t by (simp add: thr_ok_def waits_def)
    have "lock_holder (mtx s) \<noteq> - 1" using mx_invD(2) [OF inv] t by auto
    then obtain u where u: "lock_holder (mtx s) = tid_of u" using mx_holder_is_thread [OF assms(1)] by blast
    moreover have "u \<noteq> t" using ok [of t] t u by (auto simp: thr_ok_def)
    moreover have "mpc s u \<in> {Critical, At_check, At_block, Asleep}" using ok [of u] u by (auto simp: thr_ok_def waits_def)
    ultimately show "\<exists>u. u \<noteq> t \<and> lock_holder (mtx s) = tid_of u \<and> mpc s u \<in> {Critical, At_check, At_block, Asleep}" by blast }
  { fix t assume t: "tstate s t = BLOCKED"
    then show a: "mpc s t = Asleep" using ok [of t] by (simp add: thr_ok_def)
    then show "t \<in> set (deque (mtx s)) \<or> lock_holder (mtx s) = tid_of t \<and> (\<exists>u. mpc s u = Waking t)"
      using ok [of t] t waits_pc(6) [of s t] by (auto simp: thr_ok_def woken_def) }
  { fix t assume t: "mpc s t = At_block \<and> tstate s t = NORMAL"
    then show "t \<in> set (deque (mtx s)) \<or> lock_holder (mtx s) = tid_of t \<and> (\<exists>u. mpc s u = Waking t)"
      using ok [of t] waits_pc(5) [of s t] by (auto simp: thr_ok_def woken_def) }
  { fix t assume t: "mpc s t = Critical"
    then have "lock_holder (mtx s) = tid_of t" using ok [of t] by (simp add: thr_ok_def)
    then show "\<exists>m. mutex_unlock tid_of (mtx s) = Inr (m, case deque (mtx s) of [] \<Rightarrow> None | u # _ \<Rightarrow> Some u) \<and>
          lock_holder m = (case deque (mtx s) of [] \<Rightarrow> - 1 | u # _ \<Rightarrow> tid_of u) \<and> deque m = tl (deque (mtx s))"
      using good_tids_simps [OF g] by (cases "deque (mtx s)") (auto simp: mutex_unlock_def) }
qed

definition mx_queued :: mx_sys where
  "mx_queued = mgoto 2 At_check (mx_locked\<lparr>mtx := \<lparr>lock_holder = 1, deque = [2]\<rparr>\<rparr>)"

lemma mx_queued_reachable: "mx_reachable uint mx_queued"
proof -
  have "mutex_lock 2 (uint (2 :: u32)) (mtx mx_locked) = Inr (\<lparr>lock_holder = 1, deque = [2]\<rparr>, False)"
    by (simp add: mx_locked_def mutex_lock_def)
  from mx_reachable.step [OF mx_locked_reachable mx_step.lock [of _ _ uint, OF _ this]] show ?thesis
    by (simp add: mx_queued_def mx_locked_def mx_init_def)
qed

theorem mutex_no_lost_wakeup_witness:
  "mpc mx_queued 2 \<in> {At_check, At_block, Asleep} \<and> (\<exists>u. u \<noteq> 2 \<and> lock_holder (mtx mx_queued) = uint (u :: u32)) \<and>
   (\<exists>m. mutex_unlock uint (mtx mx_queued) = Inr (m, Some 2) \<and> lock_holder m = 2)"
proof -
  have q: "deque (mtx mx_queued) = [2]" "mpc mx_queued 1 = Critical" by (simp_all add: mx_queued_def mx_locked_def)
  note L = mutex_no_lost_wakeup [OF mx_queued_reachable uint_tids]
  have "mpc mx_queued 2 \<in> {At_check, At_block, Asleep} \<and> (\<exists>u. u \<noteq> 2 \<and> lock_holder (mtx mx_queued) = uint (u :: u32))"
    using bspec [OF conjunct1 [OF L], of 2] q(1) by auto
  moreover have "\<exists>m. mutex_unlock uint (mtx mx_queued) = Inr (m, Some 2) \<and> lock_holder m = 2"
    using conjunct2 [OF conjunct2 [OF conjunct2 [OF L]], rule_format, OF q(2)] q(1) by auto
  ultimately show ?thesis by blast
qed

text \<open>A stale wake-up can panic the kernel. \<open>mutex_unlock\<close> makes the next owner runnable after
  it released the spinlock; the next owner may by then have entered without blocking, left, and
  queued again. The late \<open>OP_MAKE_RUNNABLE\<close> marks it \<open>MADE_RUNNABLE\<close>, and the hand-over of
  its second turn finds that state and panics. Three threads and ten steps suffice.\<close>

theorem mutex_stale_wakeup_panics: "\<exists>s. mx_reachable uint s \<and> mpc s 3 = Panicked"
proof -
  let ?N = "\<lambda>_ :: u32. NORMAL"
  let ?O = "\<lambda>_ :: u32. Outside"
  let ?R = "\<lambda>s h q p st. mx_reachable uint s \<and> mtx s = \<lparr>lock_holder = h, deque = q\<rparr> \<and> mpc s = p \<and> tstate s = st"
  have s2: "?R mx_queued 1 [2] (?O(1 := Critical, 2 := At_check)) ?N"
    using mx_queued_reachable by (simp add: mx_queued_def mx_locked_def mx_init_def)
  obtain s3 where s3: "?R s3 2 [] (?O(1 := Waking 2, 2 := At_check)) ?N"
    using s2 mx_reach_step(2) [of uint mx_queued 1 "\<lparr>lock_holder = 2, deque = []\<rparr>" "Some 2"]
    by (fastforce simp: mutex_unlock_def fun_upd_twist)
  obtain s4 where s4: "?R s4 2 [] (?O(1 := Waking 2, 2 := Critical)) ?N"
    using s3 mx_reach_step(3) [of uint s3 2] by fastforce
  obtain s5 where s5: "?R s5 (- 1) [] (?O(1 := Waking 2)) ?N"
    using s4 mx_reach_step(2) [of uint s4 2 "\<lparr>lock_holder = - 1, deque = []\<rparr>" None]
    by (fastforce simp: mutex_unlock_def fun_upd_idem)
  obtain s6 where s6: "?R s6 3 [] (?O(1 := Waking 2, 3 := Critical)) ?N"
    using s5 mx_reach_step(1) [of uint s5 3 "\<lparr>lock_holder = 3, deque = []\<rparr>" True]
    by (fastforce simp: mutex_lock_def)
  obtain s7 where s7: "?R s7 3 [2] (?O(1 := Waking 2, 3 := Critical, 2 := At_check)) ?N"
    using s6 mx_reach_step(1) [of uint s6 2 "\<lparr>lock_holder = 3, deque = [2]\<rparr>" False]
    by (fastforce simp: mutex_lock_def)
  obtain s8 where s8: "?R s8 3 [2] (?O(1 := Outside, 3 := Critical, 2 := At_check)) (?N(2 := MADE_RUNNABLE))"
    using s7 mx_reach_step(4) [of uint s7 1 2] by (fastforce simp: fun_upd_twist)
  obtain s9 where s9: "?R s9 2 [] (?O(1 := Outside, 3 := Waking 2, 2 := At_check)) (?N(2 := MADE_RUNNABLE))"
    using s8 mx_reach_step(2) [of uint s8 3 "\<lparr>lock_holder = 2, deque = []\<rparr>" "Some 2"]
    by (fastforce simp: mutex_unlock_def fun_upd_twist)
  from s9 mx_reach_step(4) [of uint s9 3 2] have "mx_reachable uint (mgoto 3 Panicked s9)" by simp
  then show ?thesis by (rule_tac x = "mgoto 3 Panicked s9" in exI) simp
qed

end
