(* ===== verification/PM.thy ===== *)
theory PM
  imports Seg_Tree Mutex
begin

text \<open>
  The physical memory manager (\<open>kern/pm.c\<close>): user frames are divided evenly among the cores; each
  core hands out frames of its part from its segment tree under its own mutex, and keeps a counter
  of the frames that are not yet promised to anybody (\<open>reserve_frames\<close>).

  A frame allocation whose address is the local APIC's page is skipped by a recursive call.
\<close>

section \<open>State and operations\<close>

definition PAGE_SIZE :: nat where "PAGE_SIZE = 4096"
definition USER_MEM_START :: u32 where "USER_MEM_START = 0x1000000"
definition ERROR_NOT_ENOUGH_MEM :: u32 where "ERROR_NOT_ENOUGH_MEM = - 3"

record pm =
  seg :: seg_state
  num_cpus :: int
  num_free_frames_per_core :: int
  num_free_frames_left :: "nat \<Rightarrow> int option"   \<comment> \<open>\<open>None\<close>: not allocated\<close>
  lapic_base :: u32
  pm_lock :: "nat \<Rightarrow> mutex_t option"

text \<open>The address of frame \<open>index\<close> of a core, and the index of an address, in 32-bit arithmetic.\<close>

definition frame_addr :: "nat \<Rightarrow> pm \<Rightarrow> u32 \<Rightarrow> u32" where
  "frame_addr cur_cpu s index =
     USER_MEM_START + index * word_of_nat PAGE_SIZE +
     word_of_nat cur_cpu * word_of_int (num_free_frames_per_core s) * word_of_nat PAGE_SIZE"

definition frame_index :: "nat \<Rightarrow> pm \<Rightarrow> u32 \<Rightarrow> u32" where
  "frame_index cur_cpu s base =
     (base - word_of_nat cur_cpu * word_of_int (num_free_frames_per_core s) * word_of_nat PAGE_SIZE
      - USER_MEM_START) div word_of_nat PAGE_SIZE"

definition lock_of :: "nat \<Rightarrow> pm \<Rightarrow> mutex_t kres" where
  "lock_of cur_cpu s = (case pm_lock s cur_cpu of None \<Rightarrow> Inl FAULT | Some m \<Rightarrow> Inr m)"

definition set_lock :: "nat \<Rightarrow> mutex_t \<Rightarrow> pm \<Rightarrow> pm" where
  "set_lock cur_cpu m s = s\<lparr>pm_lock := (pm_lock s)(cur_cpu := Some m)\<rparr>"

text \<open>One round of \<open>get_frames_raw\<close>: \<open>get_next()\<close> between lock and unlock.\<close>

definition locked_get_next :: "nat \<Rightarrow> pm \<times> kthr \<Rightarrow> ((pm \<times> kthr) \<times> u32) kres" where
  "locked_get_next cur_cpu = (\<lambda>(s, k).
     kbind (lock_of cur_cpu s) (\<lambda>m.
     kbind (kmutex_lock k m) (\<lambda>m.
     let s = set_lock cur_cpu m s in
     kbind (get_next cur_cpu (seg s)) (\<lambda>(sg, index).
     kbind (kmutex_unlock m k) (\<lambda>(m, k).
     Inr ((set_lock cur_cpu m (s\<lparr>seg := sg\<rparr>), k), index))))))"

text \<open>\<open>None\<close>: the recursion never returns.\<close>

partial_function (option) get_frames_rec ::
  "nat \<Rightarrow> pm \<times> kthr \<Rightarrow> ((pm \<times> kthr) \<times> u32) kres option" where
  "get_frames_rec cur_cpu sk =
     (case locked_get_next cur_cpu sk of
        Inl e \<Rightarrow> Some (Inl e)
      | Inr (sk, index) \<Rightarrow>
          if index = NAN then Some (Inr (sk, ERROR_NOT_ENOUGH_MEM))
          else let new_frame = frame_addr cur_cpu (fst sk) index
               in if new_frame = lapic_base (fst sk) then get_frames_rec cur_cpu sk
                  else Some (Inr (sk, new_frame)))"

definition get_frames_raw :: "nat \<Rightarrow> pm \<times> kthr \<Rightarrow> ((pm \<times> kthr) \<times> u32) kres" where
  "get_frames_raw cur_cpu sk = (case get_frames_rec cur_cpu sk of None \<Rightarrow> Inl FAULT | Some r \<Rightarrow> r)"

definition free_frames_raw :: "u32 \<Rightarrow> nat \<Rightarrow> pm \<times> kthr \<Rightarrow> (pm \<times> kthr) kres" where
  "free_frames_raw base cur_cpu = (\<lambda>(s, k).
     let index = frame_index cur_cpu s base in
     kbind (lock_of cur_cpu s) (\<lambda>m.
     kbind (kmutex_lock k m) (\<lambda>m.
     let s = set_lock cur_cpu m s in
     kbind (put_back cur_cpu index (seg s)) (\<lambda>sg.
     kbind (kmutex_unlock m k) (\<lambda>(m, k).
     Inr (set_lock cur_cpu m (s\<lparr>seg := sg\<rparr>), k))))))"

text \<open>\<open>phys\<close>, \<open>cpus\<close>, \<open>lapic\<close>: what the machine and the MP table report; the three booleans:
  whether the two \<open>malloc\<close> calls and the \<open>calloc\<close> inside \<open>init_seg_tree\<close> found memory.\<close>

definition init_pm :: "int \<Rightarrow> int \<Rightarrow> u32 \<Rightarrow> bool \<Rightarrow> bool \<Rightarrow> bool \<Rightarrow> nat \<Rightarrow> pm \<Rightarrow> (pm \<times> int) kres" where
  "init_pm phys cpus lapic ok1 ok2 ok3 cur_cpu s =
     (let s = (if cur_cpu = 0
               then s\<lparr>num_cpus := cpus,
                      num_free_frames_per_core :=
                        (phys - int (unat USER_MEM_START div PAGE_SIZE)) div cpus,
                      lapic_base := lapic\<rparr>
               else s)
      in if \<not> ok1 then Inr (s\<lparr>num_free_frames_left := (num_free_frames_left s)(cur_cpu := None)\<rparr>, - 1)
         else let s = s\<lparr>num_free_frames_left :=
                         (num_free_frames_left s)(cur_cpu := Some (num_free_frames_per_core s))\<rparr>
              in kbind (init_seg_tree cur_cpu ok2 (num_free_frames_per_core s) (seg s)) (\<lambda>(sg, rv).
                 let s = s\<lparr>seg := sg\<rparr>
                 in if rv < 0 then Inr (s, - 1)
                    else if \<not> ok3 then Inr (s\<lparr>pm_lock := (pm_lock s)(cur_cpu := None)\<rparr>, - 1)
                    else case mutex_init free_mutex of (m, rv) \<Rightarrow>
                      let s = s\<lparr>pm_lock := (pm_lock s)(cur_cpu := Some m)\<rparr>
                      in if rv < 0 then Inr (s, - 1) else Inr (s, 0)))"

text \<open>\<open>atomic_add\<close> returns the new value.\<close>

definition reserve_frames :: "int \<Rightarrow> nat \<Rightarrow> pm \<Rightarrow> (pm \<times> int) kres" where
  "reserve_frames count cur_cpu s =
     (case num_free_frames_left s cur_cpu of None \<Rightarrow> Inl FAULT
      | Some n \<Rightarrow>
          let n = n + - count
          in if n < 0
             then Inr (s\<lparr>num_free_frames_left := (num_free_frames_left s)(cur_cpu := Some (n + count))\<rparr>, - 1)
             else Inr (s\<lparr>num_free_frames_left := (num_free_frames_left s)(cur_cpu := Some n)\<rparr>, 0))"

definition unreserve_frames :: "int \<Rightarrow> nat \<Rightarrow> pm \<Rightarrow> pm kres" where
  "unreserve_frames count cur_cpu s =
     (case num_free_frames_left s cur_cpu of None \<Rightarrow> Inl FAULT
      | Some n \<Rightarrow> Inr (s\<lparr>num_free_frames_left := (num_free_frames_left s)(cur_cpu := Some (n + count))\<rparr>))"

section \<open>Invariant\<close>

text \<open>The core's tree is a good pool whose indices are below the core's share, its mutex is free
  when a thread enters, the frames of all cores fit below 4 GB.\<close>

definition pm_ok :: "nat \<Rightarrow> pm \<Rightarrow> bool" where
  "pm_ok c s \<longleftrightarrow> seg_ok c (seg s) \<and> pm_lock s c = Some free_mutex \<and>
     0 \<le> num_free_frames_per_core s \<and>
     (int c + 1) * num_free_frames_per_core s * 4096 + 0x1000000 \<le> 2 ^ 32 \<and>
     (\<forall>i \<in> seg_frees c (seg s). int i < num_free_frames_per_core s)"

lemma unat_frame_addr:
  assumes "0 \<le> n" and n: "n = num_free_frames_per_core s" and i: "int i < n"
    and fit: "(int c + 1) * n * 4096 + 0x1000000 \<le> 2 ^ 32"
  shows "unat (frame_addr c s (word_of_nat i)) = 0x1000000 + (i + c * nat n) * 4096"
proof -
  have "frame_addr c s (word_of_nat i) = word_of_nat (0x1000000 + (i + c * nat n) * 4096)"
    using assms(1) by (simp add: frame_addr_def n [symmetric] USER_MEM_START_def PAGE_SIZE_def algebra_simps flip: of_nat_nat)
  moreover have "int (0x1000000 + (i + c * nat n) * 4096) < 2 ^ 32"
  proof -
    have e: "int (0x1000000 + (i + c * nat n) * 4096) = 0x1000000 + (int i + int c * n) * 4096"
      using assms(1) by simp
    define x where "x = int c * n"
    have "(x + n) * 4096 + 0x1000000 \<le> 2 ^ 32" using fit by (simp add: algebra_simps x_def)
    then have "0x1000000 + (int i + x) * 4096 < 2 ^ 32" using i by simp
    then show ?thesis by (simp only: e x_def)
  qed
  then have "0x1000000 + (i + c * nat n) * 4096 < 2 ^ 32" by (simp flip: of_nat_less_iff [where 'a = int])
  ultimately show ?thesis by (simp only: unat_word_of_nat32)
qed

lemma frame_index_addr:
  assumes "0 \<le> n" and n: "n = num_free_frames_per_core s" and i: "int i < n"
    and fit: "(int c + 1) * n * 4096 + 0x1000000 \<le> 2 ^ 32"
  shows "frame_index c s (frame_addr c s (word_of_nat i)) = word_of_nat i"
proof -
  have "frame_addr c s (word_of_nat i) - word_of_nat c * word_of_int (num_free_frames_per_core s) * word_of_nat PAGE_SIZE
      - USER_MEM_START = word_of_nat i * (word_of_nat PAGE_SIZE :: u32)"
    by (simp add: frame_addr_def)
  moreover have "i * 4096 < 2 ^ 32"
  proof -
    have "n \<le> (int c + 1) * n" using assms(1) by (simp add: algebra_simps)
    then have "n * 4096 \<le> 2 ^ 32" using fit by linarith
    then have "int (i * 4096) < 2 ^ 32" using i by simp
    then show ?thesis by simp
  qed
  then have "(word_of_nat i * word_of_nat PAGE_SIZE :: u32) div word_of_nat PAGE_SIZE = word_of_nat i"
    using unat_word_of_nat32 [of "i * 4096"] by (simp add: PAGE_SIZE_def word_unat_eq_iff unat_div unat_word_of_nat32)
  ultimately show ?thesis by (simp add: frame_index_def)
qed

text \<open>\<open>pm_ok\<close> seen through the frame pool of the segment tree.\<close>

lemma pm_ok_pool:
  assumes "pm_ok c s" and "seg_ok c sg" and "seg_frees c sg \<subseteq> seg_frees c (seg s) \<union> {i. int i < num_free_frames_per_core s}"
  shows "pm_ok c (s\<lparr>seg := sg\<rparr>)"
  using assms by (auto simp: pm_ok_def)

lemma set_lock_simps [simp]:
  "lock_of c (set_lock c m s) = Inr m" "seg (set_lock c m s) = seg s"
  "set_lock c m (set_lock c m' s) = set_lock c m s"
  "set_lock c m (s\<lparr>seg := sg\<rparr>) = (set_lock c m s)\<lparr>seg := sg\<rparr>"
  "pm_lock s c = Some m \<Longrightarrow> set_lock c m s = s"
  "num_free_frames_per_core (set_lock c m s) = num_free_frames_per_core s"
  "lapic_base (set_lock c m s) = lapic_base s"
  by (simp_all add: set_lock_def lock_of_def fun_upd_idem)

lemma locked_get_next_eq:
  assumes "pm_lock s c = Some free_mutex" and "0 \<le> my_tid k"
  shows "locked_get_next c (s, k) = kbind (get_next c (seg s)) (\<lambda>(sg, index). Inr ((s\<lparr>seg := sg\<rparr>, k), index))"
proof -
  have "lock_of c s = Inr free_mutex" using assms(1) by (simp add: lock_of_def)
  then show ?thesis using assms
    by (cases "get_next c (seg s)") (auto simp: locked_get_next_def Let_def)
qed

text \<open>The frames that can really be handed out: the free ones except the local APIC's page.\<close>

definition usable :: "nat \<Rightarrow> pm \<Rightarrow> nat set" where
  "usable c s = {i \<in> seg_frees c (seg s). frame_addr c s (word_of_nat i) \<noteq> lapic_base s}"

lemma finite_usable: "pm_ok c s \<Longrightarrow> finite (usable c s)"
  using seg_pool.finite_frees [of c "seg s"] by (simp add: usable_def pm_ok_def)

lemma frame_addr_seg [simp]: "frame_addr c (s\<lparr>seg := sg\<rparr>) i = frame_addr c s i"
  by (simp add: frame_addr_def)

lemma get_frames_step:
  assumes ok: "pm_ok c s" and tid: "0 \<le> my_tid k"
  shows "seg_frees c (seg s) = {} \<Longrightarrow> get_frames_rec c (s, k) = Some (Inr ((s, k), ERROR_NOT_ENOUGH_MEM))"
    and "seg_frees c (seg s) \<noteq> {} \<Longrightarrow> \<exists>sg. seg_ok c sg \<and>
       seg_frees c sg = seg_frees c (seg s) - {Min (seg_frees c (seg s))} \<and>
       get_frames_rec c (s, k) =
         (let f = frame_addr c s (word_of_nat (Min (seg_frees c (seg s))))
          in if f = lapic_base s then get_frames_rec c (s\<lparr>seg := sg\<rparr>, k) else Some (Inr ((s\<lparr>seg := sg\<rparr>, k), f)))"
proof -
  have sok: "seg_ok c (seg s)" and lk: "pm_lock s c = Some free_mutex" using ok by (simp_all add: pm_ok_def)
  note eq = locked_get_next_eq [OF lk tid]
  show "get_frames_rec c (s, k) = Some (Inr ((s, k), ERROR_NOT_ENOUGH_MEM))" if "seg_frees c (seg s) = {}"
    using get_next_pool_none [OF sok that] by (subst get_frames_rec.simps) (simp add: eq)
  assume ne: "seg_frees c (seg s) \<noteq> {}"
  define m where "m = Min (seg_frees c (seg s))"
  obtain t' where t': "get_next c (seg s) = Inr ((seg s)\<lparr>seg_tree := (seg_tree (seg s))(c := Some t')\<rparr>, word_of_nat m)"
    "seg_ok c ((seg s)\<lparr>seg_tree := (seg_tree (seg s))(c := Some t')\<rparr>)"
    "seg_frees c ((seg s)\<lparr>seg_tree := (seg_tree (seg s))(c := Some t')\<rparr>) = seg_frees c (seg s) - {m}"
    using get_next_pool [OF sok ne] unfolding m_def by blast
  define sg where "sg = (seg s)\<lparr>seg_tree := (seg_tree (seg s))(c := Some t')\<rparr>"
  have "m \<in> seg_frees c (seg s)" unfolding m_def using seg_pool.finite_frees [OF sok] ne by (rule Min_in)
  then have "m < 2 ^ 31" using seg_frees_bound [OF sok] by blast
  then have nan: "word_of_nat m \<noteq> NAN" by (rule frame_not_NAN)
  have "get_frames_rec c (s, k) =
         (let f = frame_addr c s (word_of_nat m)
          in if f = lapic_base s then get_frames_rec c (s\<lparr>seg := sg\<rparr>, k) else Some (Inr ((s\<lparr>seg := sg\<rparr>, k), f)))"
    using nan by (subst get_frames_rec.simps) (simp add: eq t'(1) [folded sg_def] Let_def)
  with t'(2,3) show "\<exists>sg. seg_ok c sg \<and> seg_frees c sg = seg_frees c (seg s) - {Min (seg_frees c (seg s))} \<and>
       get_frames_rec c (s, k) =
         (let f = frame_addr c s (word_of_nat (Min (seg_frees c (seg s))))
          in if f = lapic_base s then get_frames_rec c (s\<lparr>seg := sg\<rparr>, k) else Some (Inr ((s\<lparr>seg := sg\<rparr>, k), f)))"
    unfolding m_def [symmetric] sg_def [symmetric] by blast
qed

lemma get_frames_rec_spec:
  assumes "pm_ok c s" and "0 \<le> my_tid k"
  shows "\<exists>sg r. get_frames_rec c (s, k) = Some (Inr ((s\<lparr>seg := sg\<rparr>, k), r)) \<and> pm_ok c (s\<lparr>seg := sg\<rparr>) \<and>
     (if usable c s = {} then r = ERROR_NOT_ENOUGH_MEM \<and> usable c (s\<lparr>seg := sg\<rparr>) = {}
      else r = frame_addr c s (word_of_nat (Min (usable c s))) \<and>
           usable c (s\<lparr>seg := sg\<rparr>) = usable c s - {Min (usable c s)})"
  using assms(1)
proof (induction "card (seg_frees c (seg s))" arbitrary: s rule: less_induct)
  case less
  have sok: "seg_ok c (seg s)" using less.prems by (simp add: pm_ok_def)
  note fin = seg_pool.finite_frees [OF sok]
  show ?case
  proof (cases "seg_frees c (seg s) = {}")
    case True
    then have "usable c s = {}" by (simp add: usable_def)
    with get_frames_step(1) [OF less.prems assms(2) True] less.prems show ?thesis
      by (intro exI [of _ "seg s"]) simp
  next
    case False
    define m where "m = Min (seg_frees c (seg s))"
    have m: "m \<in> seg_frees c (seg s)" unfolding m_def using fin False by (rule Min_in)
    obtain sg where sg: "seg_ok c sg" "seg_frees c sg = seg_frees c (seg s) - {m}"
      "get_frames_rec c (s, k) = (let f = frame_addr c s (word_of_nat m)
          in if f = lapic_base s then get_frames_rec c (s\<lparr>seg := sg\<rparr>, k) else Some (Inr ((s\<lparr>seg := sg\<rparr>, k), f)))"
      using get_frames_step(2) [OF less.prems assms(2) False] unfolding m_def by blast
    have ok: "pm_ok c (s\<lparr>seg := sg\<rparr>)" using less.prems sg(1,2) by (intro pm_ok_pool) auto
    show ?thesis
    proof (cases "frame_addr c s (word_of_nat m) = lapic_base s")
      case True
      then have u: "usable c (s\<lparr>seg := sg\<rparr>) = usable c s" using sg(2) by (auto simp: usable_def)
      have "card (seg_frees c sg) < card (seg_frees c (seg s))" unfolding sg(2) using fin m by (rule card_Diff1_less)
      then have "\<exists>sga r. get_frames_rec c (s\<lparr>seg := sg\<rparr>, k) = Some (Inr ((s\<lparr>seg := sga\<rparr>, k), r)) \<and>
          pm_ok c (s\<lparr>seg := sga\<rparr>) \<and>
          (if usable c s = {} then r = ERROR_NOT_ENOUGH_MEM \<and> usable c (s\<lparr>seg := sga\<rparr>) = {}
           else r = frame_addr c s (word_of_nat (Min (usable c s))) \<and>
                usable c (s\<lparr>seg := sga\<rparr>) = usable c s - {Min (usable c s)})"
        using less.hyps [of "s\<lparr>seg := sg\<rparr>"] ok unfolding u by (simp cong: if_cong)
      with True sg(3) show ?thesis by (simp only: Let_def if_True refl)
    next
      case False
      have mu: "m \<in> usable c s" using m False by (simp add: usable_def)
      have "Min (usable c s) = m"
      proof (rule Min_eqI)
        show "finite (usable c s)" using less.prems by (rule finite_usable)
        show "m \<le> y" if "y \<in> usable c s" for y using that fin by (auto simp: usable_def m_def)
      qed (rule mu)
      moreover have "usable c (s\<lparr>seg := sg\<rparr>) = usable c s - {m}" using sg(2) by (auto simp: usable_def)
      ultimately show ?thesis using sg(3) False ok mu by (auto simp: Let_def)
    qed
  qed
qed

lemma free_frames_raw_spec:
  assumes ok: "pm_ok c s" and tid: "0 \<le> my_tid k" and i: "int i < num_free_frames_per_core s"
    and leaf: "i div 32 < size_n (seg s)"
  shows "\<exists>sg. free_frames_raw (frame_addr c s (word_of_nat i)) c (s, k) = Inr (s\<lparr>seg := sg\<rparr>, k) \<and>
     pm_ok c (s\<lparr>seg := sg\<rparr>) \<and> seg_frees c sg = insert i (seg_frees c (seg s)) \<and> size_n sg = size_n (seg s)"
proof -
  have sok: "seg_ok c (seg s)" and lk: "pm_lock s c = Some free_mutex" using ok by (simp_all add: pm_ok_def)
  have idx: "frame_index c s (frame_addr c s (word_of_nat i)) = word_of_nat i"
    using ok i by (intro frame_index_addr [OF _ refl]) (auto simp: pm_ok_def)
  obtain t' where t': "put_back c (word_of_nat i) (seg s) = Inr ((seg s)\<lparr>seg_tree := (seg_tree (seg s))(c := Some t')\<rparr>)"
    "seg_ok c ((seg s)\<lparr>seg_tree := (seg_tree (seg s))(c := Some t')\<rparr>)"
    "seg_frees c ((seg s)\<lparr>seg_tree := (seg_tree (seg s))(c := Some t')\<rparr>) = insert i (seg_frees c (seg s))"
    using put_back_pool [OF sok leaf] by blast
  define sg where "sg = (seg s)\<lparr>seg_tree := (seg_tree (seg s))(c := Some t')\<rparr>"
  have "lock_of c s = Inr free_mutex" using lk by (simp add: lock_of_def)
  then have "free_frames_raw (frame_addr c s (word_of_nat i)) c (s, k) = Inr (s\<lparr>seg := sg\<rparr>, k)"
    using tid lk by (simp add: free_frames_raw_def idx t'(1) [folded sg_def] Let_def)
  moreover have "pm_ok c (s\<lparr>seg := sg\<rparr>)"
    using ok t'(2,3) [folded sg_def] i by (intro pm_ok_pool) auto
  ultimately show ?thesis using t'(3) [folded sg_def] by (auto simp: sg_def)
qed

lemma get_frames_raw_spec:
  assumes "pm_ok c s" and "0 \<le> my_tid k"
  shows "\<exists>sg r. get_frames_raw c (s, k) = Inr ((s\<lparr>seg := sg\<rparr>, k), r) \<and> pm_ok c (s\<lparr>seg := sg\<rparr>) \<and>
     (if usable c s = {} then r = ERROR_NOT_ENOUGH_MEM \<and> usable c (s\<lparr>seg := sg\<rparr>) = {}
      else r = frame_addr c s (word_of_nat (Min (usable c s))) \<and>
           usable c (s\<lparr>seg := sg\<rparr>) = usable c s - {Min (usable c s)})"
proof -
  have "get_frames_raw c (s, k) = x \<longleftrightarrow> get_frames_rec c (s, k) = Some x" if "get_frames_rec c (s, k) \<noteq> None" for x
    using that by (auto simp: get_frames_raw_def)
  with get_frames_rec_spec [OF assms] show ?thesis by (metis option.distinct(1))
qed

section \<open>Properties\<close>

text \<open>C11: \<open>get_frames_raw\<close> always returns; it gives the address of the least usable frame of the core
  and makes exactly that frame unusable, never the local APIC's page, or reports
  \<open>ERROR_NOT_ENOUGH_MEM\<close> when no usable frame is left. The address is page aligned, in user memory
  and in the core's own part.\<close>

theorem get_frames_raw_correct:
  assumes "pm_ok c s" and "0 \<le> my_tid k" and "usable c s \<noteq> {}"
  shows "\<exists>s' r i. get_frames_raw c (s, k) = Inr ((s', k), r) \<and> pm_ok c s' \<and>
     i = Min (usable c s) \<and> usable c s' = usable c s - {i} \<and> r \<noteq> lapic_base s \<and>
     int i < num_free_frames_per_core s \<and>
     unat r = 0x1000000 + (i + c * nat (num_free_frames_per_core s)) * 4096"
proof -
  obtain sg r where r: "get_frames_raw c (s, k) = Inr ((s\<lparr>seg := sg\<rparr>, k), r)" "pm_ok c (s\<lparr>seg := sg\<rparr>)"
    "r = frame_addr c s (word_of_nat (Min (usable c s)))" "usable c (s\<lparr>seg := sg\<rparr>) = usable c s - {Min (usable c s)}"
    using get_frames_raw_spec [OF assms(1,2)] assms(3) by auto
  have u: "Min (usable c s) \<in> usable c s" using finite_usable [OF assms(1)] assms(3) by (rule Min_in)
  then have i: "int (Min (usable c s)) < num_free_frames_per_core s"
    using assms(1) unfolding usable_def pm_ok_def by blast
  have "unat r = 0x1000000 + (Min (usable c s) + c * nat (num_free_frames_per_core s)) * 4096"
    unfolding r(3) using assms(1) i by (intro unat_frame_addr [OF _ refl]) (simp_all add: pm_ok_def)
  moreover have "r \<noteq> lapic_base s" using u r(3) by (simp add: usable_def)
  ultimately show ?thesis using r i by blast
qed

definition pm_example :: pm where
  "pm_example = \<lparr>seg = seg_example, num_cpus = 1, num_free_frames_per_core = 64,
                 num_free_frames_left = [0 \<mapsto> 64], lapic_base = 0xFEE00000, pm_lock = [0 \<mapsto> free_mutex]\<rparr>"

definition kthr_example :: kthr where
  "kthr_example = \<lparr>me = 0x2000, tids = (\<lambda>_. 5), my_state = NORMAL, made_runnable = []\<rparr>"

lemma pm_example_ok: "pm_ok 0 pm_example"
proof -
  have "i < 64" if "i \<in> seg_frees 0 seg_example" for i
  proof -
    have "i div 32 < 2" using seg_frees_bound [OF seg_example_ok that] by (simp add: seg_example_def)
    then show ?thesis by (simp add: div_less_iff_less_mult)
  qed
  then show ?thesis using seg_example_ok by (simp add: pm_ok_def pm_example_def)
qed

lemma pm_example_usable: "usable 0 pm_example \<noteq> {}"
proof -
  have "0 \<in> seg_frees 0 seg_example"
    by (simp add: seg_frees_def seg_example_def free_set_def frames_in_def leaf_bit_def)
  then have "0 \<in> usable 0 pm_example"
    by (simp add: usable_def pm_example_def frame_addr_def USER_MEM_START_def)
  then show ?thesis by blast
qed

theorem get_frames_raw_correct_witness:
  "\<exists>s' r i. get_frames_raw 0 (pm_example, kthr_example) = Inr ((s', kthr_example), r) \<and> pm_ok 0 s' \<and>
     i = Min (usable 0 pm_example) \<and> usable 0 s' = usable 0 pm_example - {i} \<and> r \<noteq> lapic_base pm_example \<and>
     int i < num_free_frames_per_core pm_example \<and>
     unat r = 0x1000000 + (i + 0 * nat (num_free_frames_per_core pm_example)) * 4096"
  by (rule get_frames_raw_correct [OF pm_example_ok _ pm_example_usable]) (simp add: kthr_example_def)

text \<open>Frames never coincide: different in-range frames, of one core or of two, have different
  addresses, although each core numbers its frames from 0.\<close>

theorem frame_addr_disjoint:
  assumes "0 \<le> num_free_frames_per_core s" and "int i < num_free_frames_per_core s" and "int j < num_free_frames_per_core s"
    and "(int c + 1) * num_free_frames_per_core s * 4096 + 0x1000000 \<le> 2 ^ 32"
    and "(int d + 1) * num_free_frames_per_core s * 4096 + 0x1000000 \<le> 2 ^ 32"
    and "c \<noteq> d \<or> i \<noteq> j"
  shows "frame_addr c s (word_of_nat i) \<noteq> frame_addr d s (word_of_nat j)"
proof
  assume eq: "frame_addr c s (word_of_nat i) = frame_addr d s (word_of_nat j)"
  define n where "n = nat (num_free_frames_per_core s)"
  have ij: "i < n" "j < n" using assms(2,3) by (simp_all add: n_def)
  have "0x1000000 + (i + c * n) * 4096 = 0x1000000 + (j + d * n) * 4096"
    using unat_frame_addr [OF assms(1) refl assms(2,4)] unat_frame_addr [OF assms(1) refl assms(3,5)] eq
    by (simp add: n_def)
  then have e: "i + c * n = j + d * n" by simp
  then have "(i + c * n) div n = (j + d * n) div n" "(i + c * n) mod n = (j + d * n) mod n" by simp_all
  with ij assms(6) show False by simp
qed

theorem frame_addr_disjoint_witness:
  "frame_addr 0 pm_example (word_of_nat 63) \<noteq> frame_addr 1 pm_example (word_of_nat 0)"
  by (rule frame_addr_disjoint) (simp_all add: pm_example_def)

text \<open>The reservation counter is exact and never goes negative. \<open>reserve_frames\<close> succeeds
  exactly when the counter covers the request and then subtracts it, otherwise reports -1 and leaves
  the counter; \<open>unreserve_frames\<close> undoes a successful reservation.\<close>

theorem reserve_frames_correct:
  assumes "num_free_frames_left s c = Some n" and "0 \<le> n"
  shows "\<exists>s' rv. reserve_frames count c s = Inr (s', rv) \<and>
     (if count \<le> n then rv = 0 \<and> num_free_frames_left s' c = Some (n - count) \<and> unreserve_frames count c s' = Inr s
      else rv = - 1 \<and> s' = s)"
proof (cases "count \<le> n")
  case True
  with assms show ?thesis by (simp add: reserve_frames_def unreserve_frames_def fun_upd_idem)
next
  case False
  with assms show ?thesis by (simp add: reserve_frames_def fun_upd_idem)
qed

theorem reserve_frames_correct_witness:
  "\<exists>s' rv. reserve_frames 65 0 pm_example = Inr (s', rv) \<and>
     (if 65 \<le> (64 :: int) then rv = 0 \<and> num_free_frames_left s' 0 = Some (64 - 65) \<and> unreserve_frames 65 0 s' = Inr pm_example
      else rv = - 1 \<and> s' = pm_example)"
  by (rule reserve_frames_correct) (simp_all add: pm_example_def)

end
