(* ===== verification/VM.thy ===== *)
theory VM
  imports PM
begin

text \<open>
  Virtual memory (\<open>kern/vm.c\<close>): two-level page tables, zero-fill-on-demand regions, cloning and
  freeing of address spaces, and the checks of user pointers.

  Page directories and page tables are 1024-entry blocks of the kernel heap: \<open>tabs\<close> maps the
  address of a live block to its entries, \<open>sfree\<close> removes it, and an access through a pointer to no
  block is a \<open>FAULT\<close>. What \<open>smemalign\<close> and \<open>malloc\<close> return is the list \<open>smem\<close> (NULL when it is used
  up), so the theorems speak about every behaviour of the allocator. \<open>frames\<close> holds the bytes of
  physical frames; an access to a virtual page goes through the current page directory. \<open>tlb_inv\<close>
  records the pages whose TLB entry was invalidated. The page-table locks of the running thread's
  task and the thread itself are part of the state, since the code takes several of them at a time.
\<close>

section \<open>Constants and state\<close>

definition PAGE_ALIGN_MASK :: u32 where "PAGE_ALIGN_MASK = 0xFFFFF000"
definition NUM_PT_KERNEL :: nat where "NUM_PT_KERNEL = 4"
definition NUM_PT_PER_LOCK :: nat where "NUM_PT_PER_LOCK = 16"
definition NUM_ENTRIES :: nat where "NUM_ENTRIES = 1024"   \<comment> \<open>\<open>PAGE_SIZE/ENTRY_SIZE\<close>\<close>

definition PG_P :: nat where "PG_P = 0"
definition PG_RW :: nat where "PG_RW = 1"
definition PG_US :: nat where "PG_US = 2"
definition PG_PWT :: nat where "PG_PWT = 3"
definition PG_PCD :: nat where "PG_PCD = 4"
definition PG_A :: nat where "PG_A = 5"
definition PG_D :: nat where "PG_D = 6"
definition PG_PS :: nat where "PG_PS = 7"
definition PG_PAT :: nat where "PG_PAT = 7"
definition PG_G :: nat where "PG_G = 8"
definition PG_NEW_PAGES_START :: nat where "PG_NEW_PAGES_START = 9"
definition PG_NEW_PAGES_END :: nat where "PG_NEW_PAGES_END = 10"
definition PG_ZFOD :: nat where "PG_ZFOD = 11"

lemmas pg_bits = PG_P_def PG_RW_def PG_US_def PG_PWT_def PG_PCD_def PG_A_def PG_D_def PG_PS_def
  PG_PAT_def PG_G_def PG_NEW_PAGES_START_def PG_NEW_PAGES_END_def PG_ZFOD_def

definition GET_PD_INDEX :: "u32 \<Rightarrow> nat" where "GET_PD_INDEX va = unat (drop_bit 22 va)"
definition GET_PT_INDEX :: "u32 \<Rightarrow> nat" where "GET_PT_INDEX va = unat (drop_bit 22 (push_bit 10 va))"
definition GET_CTRL_BITS :: "u32 \<Rightarrow> u32" where "GET_CTRL_BITS e = drop_bit 20 (push_bit 20 e)"
definition GET_VA_BASE :: "nat \<Rightarrow> nat \<Rightarrow> u32" where
  "GET_VA_BASE i j = push_bit 22 (word_of_nat i) OR push_bit 12 (word_of_nat j)"

definition SET_BIT :: "u32 \<Rightarrow> nat \<Rightarrow> u32" where "SET_BIT a n = a OR push_bit n 1"
definition CLR_BIT :: "u32 \<Rightarrow> nat \<Rightarrow> u32" where "CLR_BIT a n = a AND NOT (push_bit n 1)"
definition IS_SET :: "u32 \<Rightarrow> nat \<Rightarrow> bool" where "IS_SET a n \<longleftrightarrow> drop_bit n a AND 1 = 1"

definition ERROR_MALLOC_LIB :: int where "ERROR_MALLOC_LIB = - 1"
definition ERROR_NOT_ENOUGH_MEM_I :: int where "ERROR_NOT_ENOUGH_MEM_I = - 3"
definition ERROR_BASE_NOT_ALIGNED :: int where "ERROR_BASE_NOT_ALIGNED = - 7"
definition ERROR_LEN :: int where "ERROR_LEN = - 15"
definition ERROR_OVERLAP :: int where "ERROR_OVERLAP = - 31"
definition ERROR_KERNEL_SPACE :: int where "ERROR_KERNEL_SPACE = - 63"
definition ERROR_READ_ONLY :: int where "ERROR_READ_ONLY = - 127"
definition ERROR_NOT_NULL_TERM :: int where "ERROR_NOT_NULL_TERM = - 255"
definition ERROR_PAGE_NOT_ALLOC :: int where "ERROR_PAGE_NOT_ALLOC = - 511"
definition ERROR_BASE_NOT_PREV :: int where "ERROR_BASE_NOT_PREV = - 1023"

lemmas mem_errors = ERROR_MALLOC_LIB_def ERROR_NOT_ENOUGH_MEM_I_def ERROR_BASE_NOT_ALIGNED_def ERROR_LEN_def
  ERROR_OVERLAP_def ERROR_KERNEL_SPACE_def ERROR_READ_ONLY_def ERROR_NOT_NULL_TERM_def
  ERROR_PAGE_NOT_ALLOC_def ERROR_BASE_NOT_PREV_def

record vm =
  cr3 :: u32
  cr0_pg :: bool
  tabs :: "u32 \<rightharpoonup> (nat \<Rightarrow> u32)"
  frames :: "u32 \<Rightarrow> nat \<Rightarrow> u8"
  init_page_dir :: "nat \<Rightarrow> u32"
  ctrl_bits_pde :: u32
  ctrl_bits_pte :: u32
  all_zero_frame :: u32
  pmem :: pm
  thr :: kthr
  pt_locks :: "mutex_t list"
  smem :: "u32 list"
  sfreed :: "u32 list"
  tlb_inv :: "u32 list"
  vcpu :: nat

section \<open>Memory accesses and calls of other components\<close>

definition rd :: "u32 \<Rightarrow> nat \<Rightarrow> vm \<Rightarrow> u32 kres" where
  "rd b j s = (case tabs s b of None \<Rightarrow> Inl FAULT
     | Some t \<Rightarrow> if j < NUM_ENTRIES then Inr (t j) else Inl FAULT)"

definition wr :: "u32 \<Rightarrow> nat \<Rightarrow> u32 \<Rightarrow> vm \<Rightarrow> vm kres" where
  "wr b j v s = (case tabs s b of None \<Rightarrow> Inl FAULT
     | Some t \<Rightarrow> if j < NUM_ENTRIES then Inr (s\<lparr>tabs := (tabs s)(b \<mapsto> t(j := v))\<rparr>) else Inl FAULT)"

text \<open>\<open>smemalign(PAGE_SIZE, PAGE_SIZE)\<close> and \<open>malloc(PAGE_SIZE)\<close>; \<open>memset(p, 0, PAGE_SIZE)\<close>.\<close>

definition smemalign :: "vm \<Rightarrow> vm \<times> u32" where
  "smemalign s = (case smem s of [] \<Rightarrow> (s, NULL) | a # r \<Rightarrow> (s\<lparr>smem := r\<rparr>, a))"

definition clear_table :: "u32 \<Rightarrow> vm \<Rightarrow> vm" where
  "clear_table b s = s\<lparr>tabs := (tabs s)(b \<mapsto> (\<lambda>_. 0))\<rparr>"

definition sfree :: "u32 \<Rightarrow> vm \<Rightarrow> vm kres" where
  "sfree b s = (if tabs s b = None then Inl FAULT
     else Inr (s\<lparr>tabs := (tabs s)(b := None), sfreed := sfreed s @ [b]\<rparr>))"

definition vfree :: "u32 \<Rightarrow> vm \<Rightarrow> vm" where
  "vfree b s = s\<lparr>sfreed := sfreed s @ [b]\<rparr>"

definition asm_invalidate_tlb :: "u32 \<Rightarrow> vm \<Rightarrow> vm" where
  "asm_invalidate_tlb page s = s\<lparr>tlb_inv := tlb_inv s @ [page]\<rparr>"

text \<open>The frame a virtual page is mapped to by the current page directory.\<close>

definition walk :: "u32 \<Rightarrow> vm \<Rightarrow> u32 kres" where
  "walk page s =
     kbind (rd (cr3 s) (GET_PD_INDEX page) s) (\<lambda>pde.
     if \<not> IS_SET pde PG_P then Inl FAULT
     else kbind (rd (pde AND PAGE_ALIGN_MASK) (GET_PT_INDEX page) s) (\<lambda>pte.
     if \<not> IS_SET pte PG_P then Inl FAULT else Inr (pte AND PAGE_ALIGN_MASK)))"

definition write_page :: "u32 \<Rightarrow> (nat \<Rightarrow> u8) \<Rightarrow> vm \<Rightarrow> vm kres" where
  "write_page page bytes s = kbind (walk page s) (\<lambda>f. Inr (s\<lparr>frames := (frames s)(f := bytes)\<rparr>))"

definition read_page :: "u32 \<Rightarrow> vm \<Rightarrow> (nat \<Rightarrow> u8) kres" where
  "read_page page s = kbind (walk page s) (\<lambda>f. Inr (frames s f))"

definition read_byte :: "u32 \<Rightarrow> vm \<Rightarrow> u8 kres" where
  "read_byte va s = kbind (walk (va AND PAGE_ALIGN_MASK) s) (\<lambda>f. Inr (frames s f (unat (va AND 0xFFF))))"

definition vm_get_frame :: "vm \<Rightarrow> (vm \<times> u32) kres" where
  "vm_get_frame s = kbind (get_frames_raw (vcpu s) (pmem s, thr s)) (\<lambda>((p, k), f).
     Inr (s\<lparr>pmem := p, thr := k\<rparr>, f))"

definition vm_free_frame :: "u32 \<Rightarrow> vm \<Rightarrow> vm kres" where
  "vm_free_frame f s = kbind (free_frames_raw f (vcpu s) (pmem s, thr s)) (\<lambda>(p, k).
     Inr (s\<lparr>pmem := p, thr := k\<rparr>))"

definition vm_reserve :: "int \<Rightarrow> vm \<Rightarrow> (vm \<times> int) kres" where
  "vm_reserve count s = kbind (reserve_frames count (vcpu s) (pmem s)) (\<lambda>(p, rv). Inr (s\<lparr>pmem := p\<rparr>, rv))"

definition vm_unreserve :: "int \<Rightarrow> vm \<Rightarrow> vm kres" where
  "vm_unreserve count s = kbind (unreserve_frames count (vcpu s) (pmem s)) (\<lambda>p. Inr (s\<lparr>pmem := p\<rparr>))"

definition pt_lock :: "nat \<Rightarrow> vm \<Rightarrow> vm kres" where
  "pt_lock i s = (if length (pt_locks s) \<le> i then Inl FAULT
     else kbind (kmutex_lock (thr s) (pt_locks s ! i)) (\<lambda>m. Inr (s\<lparr>pt_locks := (pt_locks s)[i := m]\<rparr>)))"

definition pt_unlock :: "nat \<Rightarrow> vm \<Rightarrow> vm kres" where
  "pt_unlock i s = (if length (pt_locks s) \<le> i then Inl FAULT
     else kbind (kmutex_unlock (pt_locks s ! i) (thr s)) (\<lambda>(m, k).
          Inr (s\<lparr>pt_locks := (pt_locks s)[i := m], thr := k\<rparr>)))"

text \<open>The loops that lock upwards from an index and unlock downwards from one.\<close>

primrec pt_lock_up :: "nat \<Rightarrow> nat \<Rightarrow> vm \<Rightarrow> vm kres" where
  "pt_lock_up 0 i s = Inr s"
| "pt_lock_up (Suc n) i s = kbind (pt_lock i s) (pt_lock_up n (i + 1))"

primrec pt_unlock_down :: "nat \<Rightarrow> nat \<Rightarrow> vm \<Rightarrow> vm kres" where
  "pt_unlock_down 0 i s = Inr s"
| "pt_unlock_down (Suc n) i s = kbind (pt_unlock i s) (pt_unlock_down n (i - 1))"

section \<open>Initialisation\<close>

definition init_pg_ctrl_bits :: "vm \<Rightarrow> vm" where
  "init_pg_ctrl_bits s =
     (let c = SET_BIT 0 PG_P; c = SET_BIT c PG_RW; c = CLR_BIT c PG_US; c = CLR_BIT c PG_PWT;
          c = CLR_BIT c PG_PCD; c = CLR_BIT c PG_A;
          d = CLR_BIT c PG_PS;
          t = SET_BIT c PG_D; t = CLR_BIT t PG_PAT; t = CLR_BIT t PG_G
      in s\<lparr>ctrl_bits_pde := d, ctrl_bits_pte := t\<rparr>)"

definition enable_paging :: "vm \<Rightarrow> vm" where
  "enable_paging s = s\<lparr>cr0_pg := True\<rparr>"

text \<open>The loops of \<open>init_pd\<close>; the error value is the 32-bit pattern of \<open>ERROR_MALLOC_LIB\<close>.\<close>

primrec init_pd_alloc :: "nat list \<Rightarrow> u32 \<Rightarrow> vm \<Rightarrow> (vm \<times> bool) kres" where
  "init_pd_alloc [] pd s = Inr (s, True)"
| "init_pd_alloc (i # is) pd s =
     (case smemalign s of (s, new_pt) \<Rightarrow>
        if new_pt = NULL then Inr (s, False)
        else let s = clear_table new_pt s
             in kbind (wr pd i (new_pt OR ctrl_bits_pde s) s) (init_pd_alloc is pd))"

primrec init_pd_fill :: "nat list \<Rightarrow> u32 \<Rightarrow> vm \<Rightarrow> vm kres" where
  "init_pd_fill [] pd s = Inr s"
| "init_pd_fill (i # is) pd s =
     kbind (rd pd i s) (\<lambda>pde.
     let pt = pde AND PAGE_ALIGN_MASK; bits = SET_BIT (ctrl_bits_pte s) PG_G
     in case tabs s pt of None \<Rightarrow> Inl FAULT
        | Some _ \<Rightarrow> init_pd_fill is pd (s\<lparr>tabs := (tabs s)(pt \<mapsto> (\<lambda>j. GET_VA_BASE i j OR bits))\<rparr>))"

definition init_pd :: "vm \<Rightarrow> (vm \<times> u32) kres" where
  "init_pd s =
     (case smemalign s of (s, pd) \<Rightarrow>
        if pd = NULL then Inr (s, word_of_int ERROR_MALLOC_LIB)
        else let s = clear_table pd s
             in kbind (init_pd_alloc [0 ..< NUM_PT_KERNEL] pd s) (\<lambda>(s, ok).
                if \<not> ok then Inr (s, word_of_int ERROR_MALLOC_LIB)
                else kbind (init_pd_fill [0 ..< NUM_PT_KERNEL] pd s) (\<lambda>s. Inr (s, pd))))"

definition LAPIC_VIRT_BASE :: u32 where "LAPIC_VIRT_BASE = 0x1000"

text \<open>\<open>lapic\<close>: what \<open>smp_lapic_base\<close> returns.\<close>

definition set_local_apic_translation :: "u32 \<Rightarrow> u32 \<Rightarrow> vm \<Rightarrow> vm kres" where
  "set_local_apic_translation lapic pd_base s =
     (let page = LAPIC_VIRT_BASE in
      kbind (rd pd_base (GET_PD_INDEX page) s) (\<lambda>pde.
      if \<not> IS_SET pde PG_P then Inl PANIC
      else let bits = SET_BIT (SET_BIT (ctrl_bits_pte s) PG_US) PG_PCD
           in wr (pde AND PAGE_ALIGN_MASK) (GET_PT_INDEX page) (lapic OR bits) s))"

primrec init_vm_raw_loop :: "nat list \<Rightarrow> u32 \<Rightarrow> vm \<Rightarrow> (vm \<times> int) kres" where
  "init_vm_raw_loop [] lapic s = Inr (s, 0)"
| "init_vm_raw_loop (i # is) lapic s =
     kbind (init_pd s) (\<lambda>(s, pd).
     if pd = word_of_int ERROR_MALLOC_LIB then Inr (s, - 1)
     else kbind (set_local_apic_translation lapic pd s) (\<lambda>s.
          init_vm_raw_loop is lapic (s\<lparr>init_page_dir := (init_page_dir s)(i := pd)\<rparr>)))"

definition init_vm_raw :: "nat \<Rightarrow> u32 \<Rightarrow> vm \<Rightarrow> (vm \<times> int) kres" where
  "init_vm_raw cpus lapic s = init_vm_raw_loop [0 ..< cpus] lapic s"

definition adopt_init_pd :: "nat \<Rightarrow> vm \<Rightarrow> vm" where
  "adopt_init_pd cur_cpu s = enable_paging (s\<lparr>cr3 := init_page_dir s cur_cpu\<rparr>)"

definition init_vm :: "int \<Rightarrow> nat \<Rightarrow> u32 \<Rightarrow> bool \<Rightarrow> bool \<Rightarrow> bool \<Rightarrow> vm \<Rightarrow> (vm \<times> int) kres" where
  "init_vm phys cpus lapic ok1 ok2 ok3 s =
     (let s = init_pg_ctrl_bits s in
      kbind (init_vm_raw cpus lapic s) (\<lambda>(s, rv).
      if rv < 0 then Inr (s, - 1)
      else let s = adopt_init_pd 0 s
           in case smemalign s of (s, new_f) \<Rightarrow>
                if new_f = NULL then Inr (s, ERROR_MALLOC_LIB)
                else let s = s\<lparr>frames := (frames s)(new_f := (\<lambda>_. 0)), all_zero_frame := new_f\<rparr>
                     in kbind (init_pm phys (int cpus) lapic ok1 ok2 ok3 (vcpu s) (pmem s)) (\<lambda>(p, ret).
                        Inr (s\<lparr>pmem := p\<rparr>, ret))))"

section \<open>Regions of the current address space\<close>

text \<open>The pages of a region: from the page of its first byte to the page of its last byte.\<close>

definition page_lowest :: "u32 \<Rightarrow> u32" where
  "page_lowest va = va AND PAGE_ALIGN_MASK"

definition page_highest :: "u32 \<Rightarrow> u32 \<Rightarrow> u32" where
  "page_highest va size_bytes = (va + size_bytes - 1) AND PAGE_ALIGN_MASK"

definition page_count :: "u32 \<Rightarrow> u32 \<Rightarrow> nat" where
  "page_count lowest highest = 1 + unat (highest - lowest) div PAGE_SIZE"

text \<open>\<open>count_pages_user_space\<close>.\<close>

primrec count_pte_loop :: "(nat \<Rightarrow> u32) \<Rightarrow> nat list \<Rightarrow> int \<Rightarrow> int" where
  "count_pte_loop pt [] n = n"
| "count_pte_loop pt (j # js) n = count_pte_loop pt js (if IS_SET (pt j) PG_P then n + 1 else n)"

primrec count_pde_loop :: "vm \<Rightarrow> nat list \<Rightarrow> int \<Rightarrow> int kres" where
  "count_pde_loop s [] n = Inr n"
| "count_pde_loop s (i # is) n =
     kbind (rd (cr3 s) i s) (\<lambda>pde.
     if IS_SET pde PG_P
     then (case tabs s (pde AND PAGE_ALIGN_MASK) of None \<Rightarrow> Inl FAULT
           | Some pt \<Rightarrow> count_pde_loop s is (count_pte_loop pt [0 ..< NUM_ENTRIES] n))
     else count_pde_loop s is n)"

definition count_pages_user_space :: "vm \<Rightarrow> int kres" where
  "count_pages_user_space s = count_pde_loop s [NUM_PT_KERNEL ..< NUM_ENTRIES] 0"

text \<open>\<open>clear_pd_entry\<close>: \<open>sizeof(char)\<close> is 1, so only bit 0 of each byte is looked at and byte \<open>i\<close> stands
  for the directory entry \<open>i + pd_index_start\<close>.\<close>

primrec clear_pd_loop :: "nat list \<Rightarrow> u8 list \<Rightarrow> nat \<Rightarrow> vm \<Rightarrow> vm kres" where
  "clear_pd_loop [] bitmap pd_index_start s = Inr s"
| "clear_pd_loop (i # is) bitmap pd_index_start s =
     (if bit (bitmap ! i) 0
      then let pd_index = i * 1 + 0 + pd_index_start in
           kbind (rd (cr3 s) pd_index s) (\<lambda>pde.
           kbind (sfree (pde AND PAGE_ALIGN_MASK) s) (\<lambda>s.
           kbind (wr (cr3 s) pd_index 0 s) (clear_pd_loop is bitmap pd_index_start)))
      else clear_pd_loop is bitmap pd_index_start s)"

definition clear_pd_entry :: "u8 list \<Rightarrow> nat \<Rightarrow> nat \<Rightarrow> vm \<Rightarrow> vm kres" where
  "clear_pd_entry bitmap bitmap_size pd_index_start s =
     clear_pd_loop [0 ..< bitmap_size] bitmap pd_index_start s"

text \<open>The loop of \<open>count_pages_allocated\<close> over the remaining \<open>n\<close> pages.\<close>

primrec count_alloc_loop ::
  "nat \<Rightarrow> u32 \<Rightarrow> nat \<Rightarrow> bool \<Rightarrow> u8 list \<Rightarrow> int \<Rightarrow> vm \<Rightarrow> (vm \<times> int) kres" where
  "count_alloc_loop 0 page low is_new bitmap num s = Inr (s, num)"
| "count_alloc_loop (Suc n) page low is_new bitmap num s =
     kbind (rd (cr3 s) (GET_PD_INDEX page) s) (\<lambda>pde.
     if IS_SET pde PG_P then
       kbind (rd (pde AND PAGE_ALIGN_MASK) (GET_PT_INDEX page) s) (\<lambda>pte.
       if IS_SET pte PG_P
       then if is_new
            then kbind (clear_pd_entry bitmap (length bitmap) low s) (\<lambda>s. Inr (s, num + 1))
            else count_alloc_loop n (page + word_of_nat PAGE_SIZE) low is_new bitmap (num + 1) s
       else count_alloc_loop n (page + word_of_nat PAGE_SIZE) low is_new bitmap num s)
     else
       case smemalign s of (s, new_pt) \<Rightarrow>
         if new_pt = NULL
         then kbind (clear_pd_entry bitmap (length bitmap) low s) (\<lambda>s. Inr (s, ERROR_MALLOC_LIB))
         else
           let s = clear_table new_pt s;
               bits = SET_BIT (ctrl_bits_pde s) PG_US;
               rel = GET_PD_INDEX page - low
           in kbind (wr (cr3 s) (GET_PD_INDEX page) (new_pt OR bits) s) (\<lambda>s.
              if length bitmap \<le> rel div 8 then Inl FAULT
              else count_alloc_loop n (page + word_of_nat PAGE_SIZE) low is_new
                     (bitmap[rel div 8 := bitmap ! (rel div 8) OR push_bit (rel mod 8) 1]) num s))"

definition count_pages_allocated :: "u32 \<Rightarrow> u32 \<Rightarrow> bool \<Rightarrow> vm \<Rightarrow> (vm \<times> int) kres" where
  "count_pages_allocated va size_bytes is_new s =
     (let lowest = page_lowest va;
          highest = page_highest va size_bytes;
          count = page_count lowest highest;
          num_page_tables = int (GET_PD_INDEX highest) - int (GET_PD_INDEX lowest) + 1;
          bitmap_size = nat ((num_page_tables - 1) div 1 + 1)
      in count_alloc_loop count lowest (GET_PD_INDEX lowest) is_new (replicate bitmap_size 0) 0 s)"

text \<open>One round of \<open>remove_region\<close>: the lock for the page's table is taken when it is not the one
  held (\<open>None\<close> is -1). The loop runs until a page marked as the end; \<open>None\<close> as result of the loop:
  it never ends.\<close>

datatype remove_status = Removed_last | Removed_more | Not_prev

definition remove_page :: "bool \<Rightarrow> u32 \<Rightarrow> nat option \<Rightarrow> vm \<Rightarrow> (vm \<times> nat \<times> remove_status) kres" where
  "remove_page is_first page held s =
     (let pd_index = GET_PD_INDEX page; cur = pd_index div NUM_PT_PER_LOCK in
      kbind (if held = Some cur then Inr s
             else kbind (case held of None \<Rightarrow> Inr s | Some h \<Rightarrow> pt_unlock h s) (pt_lock cur)) (\<lambda>s.
      kbind (rd (cr3 s) pd_index s) (\<lambda>pde.
      if \<not> IS_SET pde PG_P then kbind (pt_unlock cur s) (\<lambda>s. Inr (s, cur, Not_prev))
      else
        let pt = pde AND PAGE_ALIGN_MASK in
        kbind (rd pt (GET_PT_INDEX page) s) (\<lambda>pte.
        if \<not> IS_SET pte PG_P then kbind (pt_unlock cur s) (\<lambda>s. Inr (s, cur, Not_prev))
        else if is_first \<and> \<not> IS_SET pte PG_NEW_PAGES_START
        then kbind (pt_unlock cur s) (\<lambda>s. Inr (s, cur, Not_prev))
        else
          kbind (if \<not> IS_SET pte PG_ZFOD then vm_free_frame (pte AND PAGE_ALIGN_MASK) s else Inr s) (\<lambda>s.
          kbind (vm_unreserve 1 s) (\<lambda>s.
          kbind (wr pt (GET_PT_INDEX page) 0 s) (\<lambda>s.
          Inr (asm_invalidate_tlb page s, cur,
               if IS_SET pte PG_NEW_PAGES_END then Removed_last else Removed_more))))))))"

partial_function (option) remove_loop :: "bool \<Rightarrow> u32 \<Rightarrow> nat option \<Rightarrow> vm \<Rightarrow> (vm \<times> int) kres option" where
  "remove_loop is_first page held s =
     (case remove_page is_first page held s of
        Inl e \<Rightarrow> Some (Inl e)
      | Inr (s, cur, st) \<Rightarrow>
          (case st of
             Not_prev \<Rightarrow> Some (Inr (s, ERROR_BASE_NOT_PREV))
           | Removed_last \<Rightarrow> Some (kbind (pt_unlock cur s) (\<lambda>s. Inr (s, 0)))
           | Removed_more \<Rightarrow> remove_loop False (page + word_of_nat PAGE_SIZE) (Some cur) s))"

definition remove_region :: "u32 \<Rightarrow> vm \<Rightarrow> (vm \<times> int) kres option" where
  "remove_region va s = remove_loop True (page_lowest va) None s"

text \<open>Zero fill on demand: the result is 1 when the page was made writable.\<close>

definition is_page_ZFOD :: "u32 \<Rightarrow> u32 \<Rightarrow> bool \<Rightarrow> vm \<Rightarrow> (vm \<times> int) kres" where
  "is_page_ZFOD va error_code need_check s =
     (if need_check \<and> \<not> (IS_SET error_code PG_P \<and> IS_SET error_code PG_US \<and> IS_SET error_code PG_RW)
      then Inr (s, 0)
      else
        let page = va AND PAGE_ALIGN_MASK;
            pd_index = GET_PD_INDEX page;
            lock = pd_index div NUM_PT_PER_LOCK
        in kbind (pt_lock lock s) (\<lambda>s.
           kbind (rd (cr3 s) pd_index s) (\<lambda>pde.
           if IS_SET pde PG_P then
             let pt = pde AND PAGE_ALIGN_MASK in
             kbind (rd pt (GET_PT_INDEX page) s) (\<lambda>pte.
             if IS_SET pte PG_P then
               if \<not> IS_SET pte PG_ZFOD then kbind (pt_unlock lock s) (\<lambda>s. Inr (s, 0))
               else
                 let pte = SET_BIT (CLR_BIT pte PG_ZFOD) PG_RW in
                 kbind (wr pt (GET_PT_INDEX page) pte s) (\<lambda>s.
                 kbind (vm_get_frame s) (\<lambda>(s, new_f).
                 if new_f = ERROR_NOT_ENOUGH_MEM then Inl PANIC
                 else
                   kbind (wr pt (GET_PT_INDEX page) (new_f OR (pte AND NOT PAGE_ALIGN_MASK)) s) (\<lambda>s.
                   kbind (write_page page (\<lambda>_. 0) (asm_invalidate_tlb page s)) (\<lambda>s.
                   kbind (pt_unlock lock s) (\<lambda>s. Inr (s, 1))))))
             else kbind (pt_unlock lock s) (\<lambda>s. Inr (s, 0)))
           else kbind (pt_unlock lock s) (\<lambda>s. Inr (s, 0)))))"

text \<open>The mapping loop of \<open>new_region\<close> over the remaining \<open>n\<close> pages.\<close>

definition new_pte_bits :: "u32 \<Rightarrow> u32 \<Rightarrow> u32 \<Rightarrow> bool \<Rightarrow> bool \<Rightarrow> bool \<Rightarrow> vm \<Rightarrow> u32" where
  "new_pte_bits page lowest highest rw_perm is_new is_ZFOD s =
     (let b = SET_BIT (ctrl_bits_pte s) PG_US;
          b = (if is_new \<and> page = lowest then SET_BIT b PG_NEW_PAGES_START else b);
          b = (if is_new \<and> page = highest then SET_BIT b PG_NEW_PAGES_END else b)
      in if is_ZFOD then CLR_BIT (SET_BIT b PG_ZFOD) PG_RW
         else if rw_perm then SET_BIT b PG_RW else CLR_BIT b PG_RW)"

primrec map_loop ::
  "nat \<Rightarrow> u32 \<Rightarrow> u32 \<Rightarrow> u32 \<Rightarrow> bool \<Rightarrow> bool \<Rightarrow> bool \<Rightarrow> vm \<Rightarrow> vm kres" where
  "map_loop 0 page lowest highest rw_perm is_new is_ZFOD s = Inr s"
| "map_loop (Suc n) page lowest highest rw_perm is_new is_ZFOD s =
     kbind (rd (cr3 s) (GET_PD_INDEX page) s) (\<lambda>pde.
     if \<not> IS_SET pde PG_P then Inl PANIC
     else
       let pt = pde AND PAGE_ALIGN_MASK in
       kbind (rd pt (GET_PT_INDEX page) s) (\<lambda>pte.
       kbind
         (if IS_SET pte PG_P then Inr s
          else
            let bits = new_pte_bits page lowest highest rw_perm is_new is_ZFOD s in
            kbind (if is_ZFOD then Inr (s, all_zero_frame s) else vm_get_frame s) (\<lambda>(s, new_f).
            kbind (wr pt (GET_PT_INDEX page) (new_f OR bits) s) (\<lambda>s.
            let s = asm_invalidate_tlb page s
            in if is_ZFOD then Inr s else write_page page (\<lambda>_. 0) s)))
         (\<lambda>s. map_loop n (page + word_of_nat PAGE_SIZE) lowest highest rw_perm is_new is_ZFOD s)))"

definition new_region :: "u32 \<Rightarrow> u32 \<Rightarrow> bool \<Rightarrow> bool \<Rightarrow> bool \<Rightarrow> vm \<Rightarrow> (vm \<times> int) kres" where
  "new_region va size_bytes rw_perm is_new is_ZFOD s =
     (let lowest = page_lowest va;
          highest = page_highest va size_bytes;
          lo_lock = GET_PD_INDEX lowest div NUM_PT_PER_LOCK;
          hi_lock = GET_PD_INDEX highest div NUM_PT_PER_LOCK;
          num_pt_lock = nat (int hi_lock - int lo_lock + 1)
      in kbind (if is_new then pt_lock_up num_pt_lock lo_lock s else Inr s) (\<lambda>s.
         kbind (count_pages_allocated va size_bytes is_new s) (\<lambda>(s, num).
         if num < 0
         then kbind (if is_new then pt_unlock_down num_pt_lock hi_lock s else Inr s) (\<lambda>s.
              Inr (s, ERROR_MALLOC_LIB))
         else if is_new \<and> 0 < num
         then kbind (pt_unlock_down num_pt_lock hi_lock s) (\<lambda>s. Inr (s, ERROR_OVERLAP))
         else
           let count = page_count lowest highest in
           kbind (vm_reserve (int count - num) s) (\<lambda>(s, rv).
           if rv = - 1
           then kbind (if is_new then pt_unlock_down num_pt_lock hi_lock s else Inr s) (\<lambda>s.
                Inr (s, ERROR_NOT_ENOUGH_MEM_I))
           else
             kbind (map_loop count lowest lowest highest rw_perm is_new is_ZFOD s) (\<lambda>s.
             kbind (if is_new then pt_unlock_down num_pt_lock hi_lock s else Inr s) (\<lambda>s.
             Inr (s, 0)))))))"

definition new_pages :: "u32 \<Rightarrow> u32 \<Rightarrow> vm \<Rightarrow> (vm \<times> int) kres" where
  "new_pages base len s =
     (if base mod word_of_nat PAGE_SIZE \<noteq> 0 then Inr (s, ERROR_BASE_NOT_ALIGNED)
      else if \<not> (0 < sint len \<and> sint len mod int PAGE_SIZE = 0) then Inr (s, ERROR_LEN)
      else if 0xFFFFFFFF - base + 1 < len then Inr (s, ERROR_LEN)
      else if \<not> USER_MEM_START \<le> base then Inr (s, ERROR_KERNEL_SPACE)
      else new_region base len True True True s)"

definition remove_pages :: "u32 \<Rightarrow> vm \<Rightarrow> (vm \<times> int) kres option" where
  "remove_pages base s = remove_region base s"

section \<open>Whole address spaces\<close>

definition create_pd :: "vm \<Rightarrow> (vm \<times> u32) kres" where
  "create_pd s =
     (case smemalign s of (s, pd) \<Rightarrow>
        if pd = NULL then Inr (s, word_of_int ERROR_MALLOC_LIB)
        else let s = clear_table pd s
             in case tabs s (cr3 s) of None \<Rightarrow> Inl FAULT
                | Some old \<Rightarrow> Inr (s\<lparr>tabs := (tabs s)(pd \<mapsto> (\<lambda>i. if i < NUM_PT_KERNEL then old i else 0))\<rparr>, pd))"

text \<open>\<open>free_space\<close>: the loop over a table's entries, and over the directory.\<close>

primrec free_pte_loop :: "nat list \<Rightarrow> u32 \<Rightarrow> bool \<Rightarrow> vm \<Rightarrow> vm kres" where
  "free_pte_loop [] pt need s = Inr s"
| "free_pte_loop (j # js) pt need s =
     kbind (rd pt j s) (\<lambda>pte.
     kbind
       (if IS_SET pte PG_P then
          kbind (if \<not> IS_SET pte PG_ZFOD then vm_free_frame (pte AND PAGE_ALIGN_MASK) s else Inr s) (\<lambda>s.
          if need then vm_unreserve 1 s else Inr s)
        else Inr s)
       (free_pte_loop js pt need))"

primrec free_pde_loop :: "nat list \<Rightarrow> u32 \<Rightarrow> bool \<Rightarrow> bool \<Rightarrow> vm \<Rightarrow> vm kres" where
  "free_pde_loop [] pd_base is_kernel need s = Inr s"
| "free_pde_loop (i # is) pd_base is_kernel need s =
     kbind (rd pd_base i s) (\<lambda>pde.
     kbind
       (if IS_SET pde PG_P \<and> \<not> is_kernel then
          let pt = pde AND PAGE_ALIGN_MASK in
          kbind (free_pte_loop [0 ..< NUM_ENTRIES] pt need s) (sfree pt)
        else Inr s)
       (free_pde_loop is pd_base is_kernel need))"

definition free_space :: "u32 \<Rightarrow> bool \<Rightarrow> bool \<Rightarrow> vm \<Rightarrow> vm kres" where
  "free_space pd_base is_kernel need s =
     (let pde_start = (if is_kernel then 0 else NUM_PT_KERNEL);
          pde_end = (if is_kernel then NUM_PT_KERNEL else NUM_ENTRIES)
      in free_pde_loop [pde_start ..< pde_end] pd_base is_kernel need s)"

definition free_entire_space :: "u32 \<Rightarrow> bool \<Rightarrow> vm \<Rightarrow> vm kres" where
  "free_entire_space pd_base need s =
     kbind (free_space pd_base False need s) (\<lambda>s.
     kbind (free_space pd_base True need s) (sfree pd_base))"

text \<open>\<open>clone_pd\<close>: the loop over the entries of one table, with the remapping of the old entry through
  which the new frame is written.\<close>

primrec clone_pte_loop :: "nat list \<Rightarrow> nat \<Rightarrow> u32 \<Rightarrow> u32 \<Rightarrow> vm \<Rightarrow> vm kres" where
  "clone_pte_loop [] i old_pt new_pt s = Inr s"
| "clone_pte_loop (j # js) i old_pt new_pt s =
     kbind (rd new_pt j s) (\<lambda>pte.
     kbind
       (if IS_SET pte PG_P then
          let old_frame = pte AND PAGE_ALIGN_MASK; va = GET_VA_BASE i j in
          kbind (vm_get_frame s) (\<lambda>(s, new_f).
          kbind (read_page va s) (\<lambda>frame_buf.
          kbind (wr old_pt j (new_f OR GET_CTRL_BITS pte) s) (\<lambda>s.
          kbind (write_page va frame_buf (asm_invalidate_tlb va s)) (\<lambda>s.
          kbind (wr old_pt j (old_frame OR GET_CTRL_BITS pte) s) (\<lambda>s.
          wr new_pt j (new_f OR GET_CTRL_BITS pte) (asm_invalidate_tlb va s))))))
        else Inr s)
       (clone_pte_loop js i old_pt new_pt))"

text \<open>The result of the directory loop is \<open>False\<close> when a page table could not be allocated.\<close>

primrec clone_pde_loop :: "nat list \<Rightarrow> u32 \<Rightarrow> vm \<Rightarrow> (vm \<times> bool) kres" where
  "clone_pde_loop [] pd s = Inr (s, True)"
| "clone_pde_loop (i # is) pd s =
     kbind (rd (cr3 s) i s) (\<lambda>pde.
     if \<not> IS_SET pde PG_P then clone_pde_loop is pd s
     else if i < NUM_PT_KERNEL then kbind (wr pd i pde s) (clone_pde_loop is pd)
     else
       case smemalign s of (s, new_pt) \<Rightarrow>
         if new_pt = NULL then Inr (s, False)
         else
           let old_pt = pde AND PAGE_ALIGN_MASK in
           case tabs s old_pt of None \<Rightarrow> Inl FAULT
           | Some t \<Rightarrow>
               kbind (wr pd i (new_pt OR GET_CTRL_BITS pde) (s\<lparr>tabs := (tabs s)(new_pt \<mapsto> t)\<rparr>)) (\<lambda>s.
               kbind (clone_pte_loop [0 ..< NUM_ENTRIES] i old_pt new_pt s) (clone_pde_loop is pd)))"

definition clone_pd :: "vm \<Rightarrow> (vm \<times> u32) kres" where
  "clone_pd s =
     kbind (count_pages_user_space s) (\<lambda>num.
     kbind (vm_reserve num s) (\<lambda>(s, rv).
     if rv < 0 then Inr (s, ERROR_NOT_ENOUGH_MEM)
     else case smemalign s of (s, frame_buf) \<Rightarrow>
       if frame_buf = NULL then Inr (s, word_of_int ERROR_MALLOC_LIB)
       else case smemalign s of (s, pd) \<Rightarrow>
         if pd = NULL then Inr (vfree frame_buf s, word_of_int ERROR_MALLOC_LIB)
         else
           kbind (clone_pde_loop [0 ..< NUM_ENTRIES] pd (clear_table pd s)) (\<lambda>(s, ok).
           if \<not> ok then
             kbind (free_entire_space pd False (vfree frame_buf s)) (\<lambda>s.
             kbind (vm_unreserve num s) (\<lambda>s. Inr (s, word_of_int ERROR_MALLOC_LIB)))
           else Inr (vfree frame_buf s, pd))))"

section \<open>Checking user memory\<close>

text \<open>The scan for a terminating zero inside one page: the next byte to look at, and the result when
  the check is finished.\<close>

lemma scan_decr:
  "cur AND PAGE_ALIGN_MASK = page \<Longrightarrow> (cur + 1) AND PAGE_ALIGN_MASK = page \<Longrightarrow> unat cur < unat (cur + 1 :: u32)"
proof -
  assume a: "cur AND PAGE_ALIGN_MASK = page" "(cur + 1) AND PAGE_ALIGN_MASK = page"
  have "cur \<noteq> - 1" using a by (auto simp: PAGE_ALIGN_MASK_def)
  then have "1 + cur \<noteq> 0" by (simp add: add_eq_0_iff)
  then show ?thesis using unatSuc [of cur] by (simp add: add.commute)
qed

lemma u32_bound: "unat (w :: u32) < 4294967296"
  using unsigned_less [of w] by simp

lemma scan_measure:
  "cur AND PAGE_ALIGN_MASK = page \<Longrightarrow> (cur + 1) AND PAGE_ALIGN_MASK = page \<Longrightarrow>
     4294967296 - unat (cur + 1) < 4294967296 - unat (cur :: u32)"
  using scan_decr [of cur page] u32_bound [of "cur + 1"] by linarith

function scan_null :: "u32 \<Rightarrow> u32 \<Rightarrow> u32 \<Rightarrow> vm \<Rightarrow> (u32 \<times> int option) kres" where
  "scan_null page last_byte cur s =
     (if cur AND PAGE_ALIGN_MASK = page then
        kbind (read_byte cur s) (\<lambda>c.
        if c = 0 then Inr (cur, Some 0)
        else if cur = last_byte then Inr (cur, Some ERROR_NOT_NULL_TERM)
        else scan_null page last_byte (cur + 1) s)
      else Inr (cur, None))"
  by pat_completeness auto
termination
  by (relation "measure (\<lambda>(page, last, cur, s). if cur AND PAGE_ALIGN_MASK = page then 2 ^ 32 - unat cur else 0)")
    (auto intro: scan_measure simp: u32_bound)

declare scan_null.simps [simp del]

primrec check_loop :: "nat \<Rightarrow> u32 \<Rightarrow> u32 \<Rightarrow> u32 \<Rightarrow> bool \<Rightarrow> bool \<Rightarrow> vm \<Rightarrow> (vm \<times> int) kres" where
  "check_loop 0 page cur last_byte is_null need_w s = Inr (s, 0)"
| "check_loop (Suc n) page cur last_byte is_null need_w s =
     kbind (rd (cr3 s) (GET_PD_INDEX page) s) (\<lambda>pde.
     if \<not> IS_SET pde PG_P then Inr (s, ERROR_PAGE_NOT_ALLOC)
     else
       kbind (rd (pde AND PAGE_ALIGN_MASK) (GET_PT_INDEX page) s) (\<lambda>pte.
       if \<not> IS_SET pte PG_P then Inr (s, ERROR_PAGE_NOT_ALLOC)
       else if is_null then
         kbind (scan_null page last_byte cur s) (\<lambda>(cur, fin).
         case fin of Some ret \<Rightarrow> Inr (s, ret)
         | None \<Rightarrow> check_loop n (page + word_of_nat PAGE_SIZE) cur last_byte is_null need_w s)
       else if need_w \<and> \<not> IS_SET pte PG_RW then
         kbind (is_page_ZFOD page 0 False s) (\<lambda>(s, z).
         if z = 0 then Inr (s, ERROR_READ_ONLY)
         else check_loop n (page + word_of_nat PAGE_SIZE) cur last_byte is_null need_w s)
       else check_loop n (page + word_of_nat PAGE_SIZE) cur last_byte is_null need_w s))"

definition check_mem_validness :: "u32 \<Rightarrow> int \<Rightarrow> bool \<Rightarrow> bool \<Rightarrow> vm \<Rightarrow> (vm \<times> int) kres" where
  "check_mem_validness va max_bytes is_null need_w s =
     (if va < USER_MEM_START then Inr (s, ERROR_KERNEL_SPACE)
      else if max_bytes < 0 then Inr (s, ERROR_LEN)
      else
        let last_byte = va + word_of_int max_bytes - 1 in
        if \<not> is_null \<and> last_byte < va then Inr (s, ERROR_LEN)
        else
          let last_byte = (if is_null \<and> last_byte < va then 0xFFFFFFFF else last_byte);
              lowest = va AND PAGE_ALIGN_MASK;
              highest = last_byte AND PAGE_ALIGN_MASK;
              count = page_count lowest highest;
              lo_lock = GET_PD_INDEX lowest div NUM_PT_PER_LOCK;
              hi_lock = GET_PD_INDEX highest div NUM_PT_PER_LOCK;
              num_pt_lock = nat (int hi_lock - int lo_lock + 1)
          in kbind (pt_lock_up num_pt_lock lo_lock s) (\<lambda>s.
             kbind (check_loop count lowest va last_byte is_null need_w s) (\<lambda>(s, ret).
             kbind (pt_unlock_down num_pt_lock hi_lock s) (\<lambda>s. Inr (s, ret)))))"

end
