(* ===== verification/VM_Space.thy ===== *)
theory VM_Space
  imports VM
begin

text \<open>
  What the operations of \<open>VM\<close> do to address spaces. \<open>pte_at\<close> is the abstraction: the page table
  entry of a page in the current address space. \<open>as_ok\<close> says that the current directory and the
  tables it names are live blocks and distinct, so that writing one entry changes one page.
\<close>

section \<open>Pages and entries\<close>

lemma IS_SET_bit: "IS_SET a n \<longleftrightarrow> bit a n"
  by (simp add: IS_SET_def bit_iff_odd_drop_bit and_one_eq odd_iff_mod_2_eq_one)

lemma bit_SET_BIT: "bit (SET_BIT a n) m \<longleftrightarrow> bit a m \<or> (m = n \<and> m < 32)"
  by (auto simp: SET_BIT_def bit_simps)

lemma bit_CLR_BIT: "bit (CLR_BIT a n) m \<longleftrightarrow> bit a m \<and> m \<noteq> n"
  by (auto simp: CLR_BIT_def bit_simps dest: bit32_less)

lemma bit_mask: "bit PAGE_ALIGN_MASK n \<longleftrightarrow> 12 \<le> n \<and> n < 32"
proof -
  have e: "PAGE_ALIGN_MASK = NOT (mask 12)" by (simp add: PAGE_ALIGN_MASK_def mask_eq_exp_minus_1)
  show ?thesis unfolding e by (auto simp: bit_simps)
qed

definition aligned :: "u32 \<Rightarrow> bool" where
  "aligned p \<longleftrightarrow> p AND PAGE_ALIGN_MASK = p"

lemma aligned_bit: "aligned p \<longleftrightarrow> (\<forall>n < 12. \<not> bit p n)"
  by (auto simp: aligned_def bit_eq_iff bit_and_iff bit_mask dest: bit32_less) (meson bit32_less not_less)

lemma aligned_page_lowest: "aligned (va AND PAGE_ALIGN_MASK)"
  by (simp add: aligned_def ac_simps)

lemma PDI_less: "GET_PD_INDEX p < 1024"
proof -
  have "unat (drop_bit 22 p) = unat p div 2 ^ 22" by (simp add: drop_bit_eq_div unat_div)
  moreover have "unat p < 2 ^ 32" using unsigned_less [of p] by simp
  ultimately show ?thesis by (simp add: GET_PD_INDEX_def div_less_iff_less_mult)
qed

lemma PTI_less: "GET_PT_INDEX p < 1024"
proof -
  have "unat (drop_bit 22 (push_bit 10 p)) = unat (push_bit 10 p) div 2 ^ 22" by (simp add: drop_bit_eq_div unat_div)
  moreover have "unat (push_bit 10 p) < 2 ^ 32" using unsigned_less [of "push_bit 10 p"] by simp
  ultimately show ?thesis by (simp add: GET_PT_INDEX_def div_less_iff_less_mult)
qed

lemma page_indices_inj:
  assumes "aligned p" and "aligned q" and "GET_PD_INDEX p = GET_PD_INDEX q" and "GET_PT_INDEX p = GET_PT_INDEX q"
  shows "p = q"
proof (rule bit_word_eqI)
  fix n assume n: "n < LENGTH(32)"
  have "drop_bit 22 p = drop_bit 22 q" using assms(3) by (simp add: GET_PD_INDEX_def word_unat_eq_iff)
  then have "bit (drop_bit 22 p) m = bit (drop_bit 22 q) m" for m by simp
  then have hi: "bit p (22 + m) = bit q (22 + m)" for m by (simp add: bit_drop_bit_eq)
  have "drop_bit 22 (push_bit 10 p) = drop_bit 22 (push_bit 10 q)" using assms(4) by (simp add: GET_PT_INDEX_def word_unat_eq_iff)
  then have "bit (drop_bit 22 (push_bit 10 p)) m = bit (drop_bit 22 (push_bit 10 q)) m" for m by simp
  then have lo: "bit (push_bit 10 p) (22 + m) = bit (push_bit 10 q) (22 + m)" for m
    by (simp only: bit_drop_bit_eq comp_apply)
  consider "n < 12" | "12 \<le> n" "n < 22" | "22 \<le> n" by linarith
  then show "bit p n = bit q n"
  proof cases
    case 1
    then show ?thesis using assms(1,2) by (simp add: aligned_bit)
  next
    case 2
    then have "bit (push_bit 10 p) (22 + (n - 12)) = bit p n" "bit (push_bit 10 q) (22 + (n - 12)) = bit q n"
      using n by (simp_all add: bit_simps)
    with lo show ?thesis by simp
  next
    case 3
    then show ?thesis using hi [of "n - 22"] by simp
  qed
qed

definition pte_at :: "vm \<Rightarrow> u32 \<Rightarrow> u32 option" where
  "pte_at s page = (case tabs s (cr3 s) of None \<Rightarrow> None
     | Some pd \<Rightarrow> let pde = pd (GET_PD_INDEX page) in
         if \<not> bit pde 0 then None
         else map_option (\<lambda>pt. pt (GET_PT_INDEX page)) (tabs s (pde AND PAGE_ALIGN_MASK)))"

definition as_ok :: "vm \<Rightarrow> bool" where
  "as_ok s \<longleftrightarrow> (case tabs s (cr3 s) of None \<Rightarrow> False | Some pd \<Rightarrow>
     (\<forall>i < 1024. bit (pd i) 0 \<longrightarrow>
        tabs s (pd i AND PAGE_ALIGN_MASK) \<noteq> None \<and> pd i AND PAGE_ALIGN_MASK \<noteq> cr3 s \<and>
        (\<forall>j < 1024. j \<noteq> i \<and> bit (pd j) 0 \<longrightarrow> pd j AND PAGE_ALIGN_MASK \<noteq> pd i AND PAGE_ALIGN_MASK)))"

text \<open>The directory entry of a page and its table, when present.\<close>

lemma present_table:
  assumes "as_ok s" and "tabs s (cr3 s) = Some pd" and "bit (pd (GET_PD_INDEX p)) 0"
  obtains pt where "tabs s (pd (GET_PD_INDEX p) AND PAGE_ALIGN_MASK) = Some pt"
    "pte_at s p = Some (pt (GET_PT_INDEX p))" "pd (GET_PD_INDEX p) AND PAGE_ALIGN_MASK \<noteq> cr3 s"
  using assms PDI_less [of p] by (auto simp: as_ok_def pte_at_def)

text \<open>Writing the entry of a page whose table is present.\<close>

definition put_pte :: "u32 \<Rightarrow> u32 \<Rightarrow> vm \<Rightarrow> vm" where
  "put_pte p v s = (case tabs s (cr3 s) of None \<Rightarrow> s | Some pd \<Rightarrow>
     let b = pd (GET_PD_INDEX p) AND PAGE_ALIGN_MASK
     in case tabs s b of None \<Rightarrow> s | Some pt \<Rightarrow> s\<lparr>tabs := (tabs s)(b \<mapsto> pt(GET_PT_INDEX p := v))\<rparr>)"

lemma put_pte_frame [simp]:
  "cr3 (put_pte p v s) = cr3 s" "pmem (put_pte p v s) = pmem s" "thr (put_pte p v s) = thr s"
  "pt_locks (put_pte p v s) = pt_locks s" "smem (put_pte p v s) = smem s" "vcpu (put_pte p v s) = vcpu s"
  "frames (put_pte p v s) = frames s" "all_zero_frame (put_pte p v s) = all_zero_frame s"
  "ctrl_bits_pte (put_pte p v s) = ctrl_bits_pte s" "ctrl_bits_pde (put_pte p v s) = ctrl_bits_pde s"
  "tlb_inv (put_pte p v s) = tlb_inv s"
  by (simp_all add: put_pte_def Let_def split: option.splits)

lemma put_pte_wr:
  assumes "as_ok s" and "tabs s (cr3 s) = Some pd" and "bit (pd (GET_PD_INDEX p)) 0"
  shows "wr (pd (GET_PD_INDEX p) AND PAGE_ALIGN_MASK) (GET_PT_INDEX p) v s = Inr (put_pte p v s)"
  using assms PTI_less [of p] by (auto simp: wr_def put_pte_def NUM_ENTRIES_def elim: present_table)

lemma put_pte_dir: "as_ok s \<Longrightarrow> tabs s (cr3 s) = Some pd \<Longrightarrow> bit (pd (GET_PD_INDEX p)) 0 \<Longrightarrow>
    tabs (put_pte p v s) (cr3 s) = Some pd"
  by (auto simp: put_pte_def elim: present_table)

lemma put_pte_ok:
  assumes "as_ok s" and "tabs s (cr3 s) = Some pd" and "bit (pd (GET_PD_INDEX p)) 0"
  shows "as_ok (put_pte p v s)"
proof -
  have dom: "tabs (put_pte p v s) b \<noteq> None" if "tabs s b \<noteq> None" for b
    using that by (auto simp: put_pte_def Let_def split: option.splits)
  from assms(1,2) have "\<forall>i < 1024. bit (pd i) 0 \<longrightarrow>
        tabs s (pd i AND PAGE_ALIGN_MASK) \<noteq> None \<and> pd i AND PAGE_ALIGN_MASK \<noteq> cr3 s \<and>
        (\<forall>j < 1024. j \<noteq> i \<and> bit (pd j) 0 \<longrightarrow> pd j AND PAGE_ALIGN_MASK \<noteq> pd i AND PAGE_ALIGN_MASK)"
    by (simp only: as_ok_def option.case)
  then have "\<forall>i < 1024. bit (pd i) 0 \<longrightarrow>
        tabs (put_pte p v s) (pd i AND PAGE_ALIGN_MASK) \<noteq> None \<and> pd i AND PAGE_ALIGN_MASK \<noteq> cr3 s \<and>
        (\<forall>j < 1024. j \<noteq> i \<and> bit (pd j) 0 \<longrightarrow> pd j AND PAGE_ALIGN_MASK \<noteq> pd i AND PAGE_ALIGN_MASK)"
    using dom by blast
  then show ?thesis unfolding as_ok_def put_pte_frame(1) put_pte_dir [OF assms, of v] option.case .
qed

lemma put_pte_at:
  assumes "as_ok s" and "tabs s (cr3 s) = Some pd" and "bit (pd (GET_PD_INDEX p)) 0"
    and "aligned p" and "aligned q"
  shows "pte_at (put_pte p v s) q = (if q = p then Some v else pte_at s q)"
proof -
  obtain pt where pt: "tabs s (pd (GET_PD_INDEX p) AND PAGE_ALIGN_MASK) = Some pt"
    "pd (GET_PD_INDEX p) AND PAGE_ALIGN_MASK \<noteq> cr3 s" using present_table [OF assms(1-3)] by blast
  have dist: "pd (GET_PD_INDEX q) AND PAGE_ALIGN_MASK \<noteq> pd (GET_PD_INDEX p) AND PAGE_ALIGN_MASK"
    if "GET_PD_INDEX q \<noteq> GET_PD_INDEX p" "bit (pd (GET_PD_INDEX q)) 0"
    using assms(1-3) that PDI_less [of p] PDI_less [of q] by (auto simp: as_ok_def)
  show ?thesis
  proof (cases "GET_PD_INDEX q = GET_PD_INDEX p")
    case True
    then have "GET_PT_INDEX q = GET_PT_INDEX p \<longleftrightarrow> q = p"
      using page_indices_inj [OF assms(5,4)] by auto
    with True pt assms(2,3) show ?thesis by (auto simp: pte_at_def put_pte_def)
  next
    case False
    then have "q \<noteq> p" by auto
    with False pt assms(2,3) dist show ?thesis by (auto simp: pte_at_def put_pte_def Let_def)
  qed
qed

section \<open>Walks, locks and frames\<close>

lemma aligned_unat: "aligned p \<longleftrightarrow> unat p mod 4096 = 0"
proof -
  have "aligned p \<longleftrightarrow> take_bit 12 p = 0"
    by (auto simp: aligned_bit bit_eq_iff bit_take_bit_iff)
  also have "\<dots> \<longleftrightarrow> unat (take_bit 12 p) = 0" by (simp add: unsigned_eq_0_iff)
  also have "unat (take_bit 12 p) = unat p mod 4096" by (simp add: take_bit_eq_mod unat_mod)
  finally show ?thesis .
qed

text \<open>Reading the directory and the table of a page.\<close>

lemma rd_pde: "tabs s (cr3 s) = Some pd \<Longrightarrow> rd (cr3 s) (GET_PD_INDEX p) s = Inr (pd (GET_PD_INDEX p))"
  using PDI_less [of p] by (simp add: rd_def NUM_ENTRIES_def)

lemma rd_pte:
  assumes "as_ok s" and "tabs s (cr3 s) = Some pd" and "bit (pd (GET_PD_INDEX p)) 0" and "pte_at s p = Some pte"
  shows "rd (pd (GET_PD_INDEX p) AND PAGE_ALIGN_MASK) (GET_PT_INDEX p) s = Inr pte"
  using assms PTI_less [of p] by (auto simp: rd_def NUM_ENTRIES_def elim: present_table)

lemma pte_at_dir:
  assumes "as_ok s" and "pte_at s p = Some pte"
  obtains pd where "tabs s (cr3 s) = Some pd" and "bit (pd (GET_PD_INDEX p)) 0"
  using assms by (auto simp: pte_at_def Let_def split: option.splits if_splits)

lemma walk_pte:
  assumes "as_ok s" and "pte_at s p = Some pte" and "bit pte 0"
  shows "walk p s = Inr (pte AND PAGE_ALIGN_MASK)"
proof -
  obtain pd where pd: "tabs s (cr3 s) = Some pd" "bit (pd (GET_PD_INDEX p)) 0"
    by (rule pte_at_dir [OF assms(1,2)])
  then show ?thesis using rd_pde [OF pd(1)] rd_pte [OF assms(1) pd assms(2)] assms(3)
    by (simp add: walk_def IS_SET_bit PG_P_def)
qed

text \<open>Fields that do not matter for the mapping.\<close>

lemma pte_at_cong:
  assumes "cr3 s' = cr3 s" and "tabs s' = tabs s"
  shows "pte_at s' p = pte_at s p" "as_ok s' = as_ok s"
  unfolding pte_at_def as_ok_def assms by (rule refl)+

lemmas pte_at_frame [simp] =
  pte_at_cong [of "s\<lparr>pmem := p\<rparr>" s for s p, simplified] pte_at_cong [of "s\<lparr>frames := p\<rparr>" s for s p, simplified]
  pte_at_cong [of "s\<lparr>thr := p\<rparr>" s for s p, simplified] pte_at_cong [of "s\<lparr>pt_locks := p\<rparr>" s for s p, simplified]
  pte_at_cong [of "s\<lparr>tlb_inv := p\<rparr>" s for s p, simplified]

definition set_ptl :: "nat \<Rightarrow> mutex_t \<Rightarrow> vm \<Rightarrow> vm" where
  "set_ptl i m s = s\<lparr>pt_locks := (pt_locks s)[i := m]\<rparr>"

lemma set_ptl_frame [simp]:
  "cr3 (set_ptl i m s) = cr3 s" "tabs (set_ptl i m s) = tabs s" "pmem (set_ptl i m s) = pmem s"
  "thr (set_ptl i m s) = thr s" "frames (set_ptl i m s) = frames s" "vcpu (set_ptl i m s) = vcpu s"
  "pt_locks (set_ptl i m s) = (pt_locks s)[i := m]" "smem (set_ptl i m s) = smem s"
  "all_zero_frame (set_ptl i m s) = all_zero_frame s" "ctrl_bits_pte (set_ptl i m s) = ctrl_bits_pte s"
  "tlb_inv (set_ptl i m s) = tlb_inv s"
  by (simp_all add: set_ptl_def)

lemma pte_at_set_ptl [simp]: "pte_at (set_ptl i m s) p = pte_at s p" "as_ok (set_ptl i m s) = as_ok s"
  by (simp_all add: set_ptl_def)

lemma pte_at_invl [simp]:
  "pte_at (asm_invalidate_tlb q s) p = pte_at s p" "as_ok (asm_invalidate_tlb q s) = as_ok s"
  "cr3 (asm_invalidate_tlb q s) = cr3 s" "tabs (asm_invalidate_tlb q s) = tabs s"
  "pmem (asm_invalidate_tlb q s) = pmem s" "thr (asm_invalidate_tlb q s) = thr s"
  "frames (asm_invalidate_tlb q s) = frames s" "pt_locks (asm_invalidate_tlb q s) = pt_locks s"
  "vcpu (asm_invalidate_tlb q s) = vcpu s" "all_zero_frame (asm_invalidate_tlb q s) = all_zero_frame s"
  "ctrl_bits_pte (asm_invalidate_tlb q s) = ctrl_bits_pte s"
  by (simp_all add: asm_invalidate_tlb_def)

lemma pt_lock_free:
  "i < length (pt_locks s) \<Longrightarrow> pt_locks s ! i = free_mutex \<Longrightarrow>
     pt_lock i s = Inr (set_ptl i (held_by (my_tid (thr s))) s)"
  by (simp add: pt_lock_def set_ptl_def)

lemma pt_unlock_held:
  "i < length (pt_locks s) \<Longrightarrow> pt_locks s ! i = held_by t \<Longrightarrow> 0 \<le> t \<Longrightarrow>
     pt_unlock i s = Inr (set_ptl i free_mutex s)"
  by (simp add: pt_unlock_def set_ptl_def)

text \<open>A new frame from the manager: aligned, zero low bits, and no longer usable.\<close>

definition frames_ready :: "vm \<Rightarrow> bool" where
  "frames_ready s \<longleftrightarrow> pm_ok (vcpu s) (pmem s) \<and> 0 \<le> my_tid (thr s)"

lemma vm_get_frame_some:
  assumes "frames_ready s" and "usable (vcpu s) (pmem s) \<noteq> {}"
  obtains p f where "vm_get_frame s = Inr (s\<lparr>pmem := p\<rparr>, f)" "aligned f" "f \<noteq> ERROR_NOT_ENOUGH_MEM"
    "pm_ok (vcpu s) p" "usable (vcpu s) p = usable (vcpu s) (pmem s) - {Min (usable (vcpu s) (pmem s))}"
    "f = frame_addr (vcpu s) (pmem s) (word_of_nat (Min (usable (vcpu s) (pmem s))))"
    "num_free_frames_left p = num_free_frames_left (pmem s)"
proof -
  let ?c = "vcpu s" and ?p = "pmem s" and ?i = "Min (usable (vcpu s) (pmem s))"
  have ok: "pm_ok ?c ?p" "0 \<le> my_tid (thr s)" using assms(1) by (simp_all add: frames_ready_def)
  obtain sg where r: "get_frames_raw ?c (?p, thr s) = Inr ((?p\<lparr>seg := sg\<rparr>, thr s), frame_addr ?c ?p (word_of_nat ?i))"
    "pm_ok ?c (?p\<lparr>seg := sg\<rparr>)" "usable ?c (?p\<lparr>seg := sg\<rparr>) = usable ?c ?p - {?i}"
    using get_frames_raw_spec [OF ok] assms(2) by auto
  have "?i \<in> usable ?c ?p" using finite_usable [OF ok(1)] assms(2) by (rule Min_in)
  then have i: "int ?i < num_free_frames_per_core ?p" using ok(1) unfolding usable_def pm_ok_def by blast
  have u: "unat (frame_addr ?c ?p (word_of_nat ?i)) = 0x1000000 + (?i + ?c * nat (num_free_frames_per_core ?p)) * 4096"
    using ok(1) i by (intro unat_frame_addr [OF _ refl]) (simp_all add: pm_ok_def)
  then have "unat (frame_addr ?c ?p (word_of_nat ?i)) mod 4096 = 0" by (simp add: mod_add_eq)
  then have al: "aligned (frame_addr ?c ?p (word_of_nat ?i))" by (simp add: aligned_unat)
  moreover have "\<not> aligned ERROR_NOT_ENOUGH_MEM" by (simp add: aligned_unat ERROR_NOT_ENOUGH_MEM_def)
  ultimately have "frame_addr ?c ?p (word_of_nat ?i) \<noteq> ERROR_NOT_ENOUGH_MEM" by auto
  moreover have "vm_get_frame s = Inr (s\<lparr>pmem := ?p\<lparr>seg := sg\<rparr>\<rparr>, frame_addr ?c ?p (word_of_nat ?i))"
    by (simp add: vm_get_frame_def r(1))
  ultimately show ?thesis using that [of "?p\<lparr>seg := sg\<rparr>"] r(2,3) al by simp
qed

lemma vm_get_frame_ex:
  assumes "frames_ready s" and "usable (vcpu s) (pmem s) \<noteq> {}" and "vcpu s = c" and "pmem s = p0"
  shows "\<exists>p f. vm_get_frame s = Inr (s\<lparr>pmem := p\<rparr>, f) \<and> aligned f \<and> f \<noteq> ERROR_NOT_ENOUGH_MEM \<and>
    pm_ok c p \<and> usable c p = usable c p0 - {Min (usable c p0)} \<and>
    f = frame_addr c p0 (word_of_nat (Min (usable c p0))) \<and> num_free_frames_left p = num_free_frames_left p0"
  unfolding assms(3,4) [symmetric] by (rule vm_get_frame_some [OF assms(1,2)]) blast

section \<open>Zero fill on demand\<close>

text \<open>The entry that replaces a zero-fill entry.\<close>

definition filled_pte :: "u32 \<Rightarrow> u32 \<Rightarrow> u32" where
  "filled_pte f pte = f OR (SET_BIT (CLR_BIT pte PG_ZFOD) PG_RW AND NOT PAGE_ALIGN_MASK)"

lemma filled_pte_bits:
  assumes "aligned f"
  shows "filled_pte f pte AND PAGE_ALIGN_MASK = f" "bit (filled_pte f pte) 0 \<longleftrightarrow> bit pte 0"
    "bit (filled_pte f pte) 1" "\<not> bit (filled_pte f pte) 11"
proof -
  have b: "bit (filled_pte f pte) n \<longleftrightarrow> bit f n \<or> (n < 12 \<and> (bit pte n \<and> n \<noteq> 11 \<or> n = 1))" for n
    by (auto simp: filled_pte_def bit_simps bit_SET_BIT bit_CLR_BIT bit_mask pg_bits dest: bit32_less)
  show "filled_pte f pte AND PAGE_ALIGN_MASK = f"
    using assms by (auto intro!: bit_word_eqI simp: bit_and_iff b bit_mask aligned_bit) (meson not_less)
  show "bit (filled_pte f pte) 0 \<longleftrightarrow> bit pte 0" "bit (filled_pte f pte) 1" "\<not> bit (filled_pte f pte) 11"
    using assms by (simp_all add: b aligned_bit)
qed

text \<open>The state after the fill, before the page-table lock is released.\<close>

definition filled :: "u32 \<Rightarrow> u32 \<Rightarrow> pm \<Rightarrow> u32 \<Rightarrow> vm \<Rightarrow> vm" where
  "filled page pte p f s =
     (let s = put_pte page (SET_BIT (CLR_BIT pte PG_ZFOD) PG_RW) s;
          s = put_pte page (filled_pte f pte) (s\<lparr>pmem := p\<rparr>);
          s = asm_invalidate_tlb page s
      in s\<lparr>frames := (frames s)(f := (\<lambda>_. 0))\<rparr>)"

lemma filled_spec:
  assumes ok: "as_ok s" and pte: "pte_at s page = Some pte" and al: "aligned page"
  shows "as_ok (filled page pte p f s)"
    and "aligned q \<Longrightarrow> pte_at (filled page pte p f s) q = (if q = page then Some (filled_pte f pte) else pte_at s q)"
    and "frames (filled page pte p f s) = (frames s)(f := (\<lambda>_. 0))"
    and "pmem (filled page pte p f s) = p" "thr (filled page pte p f s) = thr s"
        "pt_locks (filled page pte p f s) = pt_locks s" "cr3 (filled page pte p f s) = cr3 s"
        "vcpu (filled page pte p f s) = vcpu s"
proof -
  obtain pd where pd: "tabs s (cr3 s) = Some pd" "bit (pd (GET_PD_INDEX page)) 0" by (rule pte_at_dir [OF ok pte])
  define s1 where "s1 = (put_pte page (SET_BIT (CLR_BIT pte PG_ZFOD) PG_RW) s)\<lparr>pmem := p\<rparr>"
  have 1: "as_ok s1" "tabs s1 (cr3 s1) = Some pd"
    using put_pte_ok [OF ok pd] put_pte_dir [OF ok pd] by (simp_all add: s1_def)
  have 2: "as_ok (put_pte page (filled_pte f pte) s1)" by (rule put_pte_ok [OF 1 pd(2)])
  have eq: "filled page pte p f s = (asm_invalidate_tlb page (put_pte page (filled_pte f pte) s1))
      \<lparr>frames := (frames s)(f := (\<lambda>_. 0))\<rparr>"
    by (simp add: filled_def s1_def Let_def)
  show "as_ok (filled page pte p f s)" using 2 by (simp add: eq)
  show "pte_at (filled page pte p f s) q = (if q = page then Some (filled_pte f pte) else pte_at s q)" if "aligned q"
    using put_pte_at [OF 1 pd(2) al that] put_pte_at [OF ok pd al that] by (simp add: eq s1_def)
  show "frames (filled page pte p f s) = (frames s)(f := (\<lambda>_. 0))" "pmem (filled page pte p f s) = p"
    "thr (filled page pte p f s) = thr s" "pt_locks (filled page pte p f s) = pt_locks s"
    "cr3 (filled page pte p f s) = cr3 s" "vcpu (filled page pte p f s) = vcpu s"
    by (simp_all add: eq s1_def)
qed

text \<open>\<open>is_page_ZFOD\<close> on a zero-fill page, from the point where it holds the page-table lock.\<close>

lemma zfod_fill:
  assumes ok: "as_ok s" and pte: "pte_at s page = Some pte" "bit pte 0" "bit pte 11" and al: "aligned page"
    and fr: "vm_get_frame (put_pte page (SET_BIT (CLR_BIT pte PG_ZFOD) PG_RW) s) =
               Inr ((put_pte page (SET_BIT (CLR_BIT pte PG_ZFOD) PG_RW) s)\<lparr>pmem := p\<rparr>, f)"
      "aligned f" "f \<noteq> ERROR_NOT_ENOUGH_MEM"
    and lk: "pt_lock (GET_PD_INDEX page div 16) s0 = Inr s"
  shows "is_page_ZFOD page 0 False s0 =
     kbind (pt_unlock (GET_PD_INDEX page div 16) (filled page pte p f s)) (\<lambda>s. Inr (s, 1))"
proof -
  obtain pd where pd: "tabs s (cr3 s) = Some pd" "bit (pd (GET_PD_INDEX page)) 0" by (rule pte_at_dir [OF ok pte(1)])
  define s1 where "s1 = (put_pte page (SET_BIT (CLR_BIT pte PG_ZFOD) PG_RW) s)\<lparr>pmem := p\<rparr>"
  have 1: "as_ok s1" "tabs s1 (cr3 s1) = Some pd"
    using put_pte_ok [OF ok pd] put_pte_dir [OF ok pd] by (simp_all add: s1_def)
  define s2 where "s2 = put_pte page (filled_pte f pte) s1"
  have "as_ok s2" "pte_at s2 page = Some (filled_pte f pte)"
    using put_pte_ok [OF 1 pd(2)] put_pte_at [OF 1 pd(2) al al] by (simp_all add: s2_def)
  then have "walk page (asm_invalidate_tlb page s2) = Inr f"
    using walk_pte [of "asm_invalidate_tlb page s2" page] filled_pte_bits [OF fr(2), of pte] pte(2) by simp
  then have w: "write_page page (\<lambda>_. 0) (asm_invalidate_tlb page s2) = Inr (filled page pte p f s)"
    by (simp add: write_page_def filled_def s1_def s2_def Let_def)
  have a: "page AND PAGE_ALIGN_MASK = page" using al by (simp add: aligned_def)
  have set: "IS_SET (pd (GET_PD_INDEX page)) PG_P" "IS_SET pte PG_P" "IS_SET pte PG_ZFOD"
    using pte(2,3) pd(2) by (simp_all add: IS_SET_bit pg_bits)
  show ?thesis
    unfolding is_page_ZFOD_def Let_def a NUM_PT_PER_LOCK_def
    using set fr(3)
    by (simp add: lk rd_pde [OF pd(1)] rd_pte [OF ok pd pte(1)] put_pte_wr [OF ok pd] fr(1)
        put_pte_wr [OF 1 pd(2), unfolded s1_def] w [unfolded s2_def s1_def filled_pte_def])
qed

text \<open>The same call by a thread that already holds the page-table lock: it gets through, and its
  unlock makes the thread itself runnable.\<close>

lemma pt_relock:
  assumes "i < length (pt_locks s)" and "pt_locks s ! i = held_by (my_tid (thr s))" and "0 \<le> my_tid (thr s)"
  shows "pt_lock i s = Inr (set_ptl i \<lparr>lock_holder = my_tid (thr s), deque = [me (thr s)]\<rparr> s)"
  using assms kmutex_relock [of "thr s"] by (simp add: pt_lock_def set_ptl_def)

lemma pt_unlock_self:
  assumes "i < length (pt_locks s)" and "0 \<le> my_tid (thr s)"
    and "pt_locks s ! i = \<lparr>lock_holder = my_tid (thr s), deque = [me (thr s)]\<rparr>"
  shows "my_state (thr s) = NORMAL \<Longrightarrow>
      pt_unlock i s = Inr ((set_ptl i (held_by (my_tid (thr s))) s)\<lparr>thr := (thr s)\<lparr>my_state := MADE_RUNNABLE\<rparr>\<rparr>)"
    and "my_state (thr s) = MADE_RUNNABLE \<Longrightarrow> pt_unlock i s = Inl PANIC"
  using assms kmutex_relock [of "thr s"] by (simp_all add: pt_unlock_def kmake_runnable_def set_ptl_def)

lemma zfod_relock:
  assumes ok: "as_ok s" and pte: "pte_at s page = Some pte" "bit pte 0" "bit pte 11" and al: "aligned page"
    and fr: "frames_ready s" "usable (vcpu s) (pmem s) \<noteq> {}"
    and lk: "GET_PD_INDEX page div 16 < length (pt_locks s)"
      "pt_locks s ! (GET_PD_INDEX page div 16) = held_by (my_tid (thr s))"
  shows "my_state (thr s) = MADE_RUNNABLE \<Longrightarrow> is_page_ZFOD page 0 False s = Inl PANIC"
    and "my_state (thr s) = NORMAL \<Longrightarrow> \<exists>s' p f. is_page_ZFOD page 0 False s = Inr (s', 1) \<and> as_ok s' \<and>
      (\<forall>q. aligned q \<longrightarrow> pte_at s' q = (if q = page then Some (filled_pte f pte) else pte_at s q)) \<and>
      pmem s' = p \<and> pm_ok (vcpu s) p \<and> usable (vcpu s) p = usable (vcpu s) (pmem s) - {Min (usable (vcpu s) (pmem s))} \<and>
      thr s' = (thr s)\<lparr>my_state := MADE_RUNNABLE\<rparr> \<and> pt_locks s' = pt_locks s \<and> vcpu s' = vcpu s \<and> cr3 s' = cr3 s"
proof -
  let ?l = "GET_PD_INDEX page div 16" and ?b = "SET_BIT (CLR_BIT pte PG_ZFOD) PG_RW"
  have tid: "0 \<le> my_tid (thr s)" using fr(1) by (simp add: frames_ready_def)
  define s1 where "s1 = set_ptl ?l \<lparr>lock_holder = my_tid (thr s), deque = [me (thr s)]\<rparr> s"
  have l: "pt_lock ?l s = Inr s1" unfolding s1_def by (rule pt_relock [OF lk tid])
  have 1: "as_ok s1" "pte_at s1 page = Some pte" using ok pte(1) by (simp_all add: s1_def)
  have v: "vcpu (put_pte page ?b s1) = vcpu s" "pmem (put_pte page ?b s1) = pmem s" "thr (put_pte page ?b s1) = thr s"
    by (simp_all add: s1_def)
  have "frames_ready (put_pte page ?b s1)" "usable (vcpu (put_pte page ?b s1)) (pmem (put_pte page ?b s1)) \<noteq> {}"
    using fr unfolding frames_ready_def v .
  from vm_get_frame_ex [OF this v(1,2)]
  obtain p f where f: "vm_get_frame (put_pte page ?b s1) = Inr ((put_pte page ?b s1)\<lparr>pmem := p\<rparr>, f)"
    "aligned f" "f \<noteq> ERROR_NOT_ENOUGH_MEM" "pm_ok (vcpu s) p"
    "usable (vcpu s) p = usable (vcpu s) (pmem s) - {Min (usable (vcpu s) (pmem s))}"
    by blast
  note z = zfod_fill [OF 1 pte(2,3) al f(1-3) l]
  note F = filled_spec [OF 1 al, where p = p and f = f]
  have s1f: "pt_locks s1 = (pt_locks s)[?l := \<lparr>lock_holder = my_tid (thr s), deque = [me (thr s)]\<rparr>]"
    "thr s1 = thr s" "vcpu s1 = vcpu s" "cr3 s1 = cr3 s" "\<And>q. pte_at s1 q = pte_at s q"
    by (simp_all add: s1_def)
  have m: "pt_locks (filled page pte p f s1) ! ?l = \<lparr>lock_holder = my_tid (thr s), deque = [me (thr s)]\<rparr>"
    "?l < length (pt_locks (filled page pte p f s1))" "thr (filled page pte p f s1) = thr s"
    using lk by (simp_all add: F s1f)
  show "is_page_ZFOD page 0 False s = Inl PANIC" if "my_state (thr s) = MADE_RUNNABLE"
    using z pt_unlock_self(2) [of ?l "filled page pte p f s1"] m tid that by simp
  assume N: "my_state (thr s) = NORMAL"
  define s2 where "s2 = (set_ptl ?l (held_by (my_tid (thr s))) (filled page pte p f s1))\<lparr>thr := (thr s)\<lparr>my_state := MADE_RUNNABLE\<rparr>\<rparr>"
  have "is_page_ZFOD page 0 False s = Inr (s2, 1)"
    using z pt_unlock_self(1) [of ?l "filled page pte p f s1"] m tid N by (simp add: s2_def)
  moreover have "as_ok s2" using F(1) by (simp add: s2_def)
  moreover have "\<forall>q. aligned q \<longrightarrow> pte_at s2 q = (if q = page then Some (filled_pte f pte) else pte_at s q)"
    using F(2) by (simp add: s2_def s1f)
  moreover have "pt_locks s2 = pt_locks s" using lk list_update_id [of "pt_locks s" ?l] by (simp add: s2_def F s1f)
  moreover have "pmem s2 = p" "thr s2 = (thr s)\<lparr>my_state := MADE_RUNNABLE\<rparr>" "vcpu s2 = vcpu s" "cr3 s2 = cr3 s"
    by (simp_all add: s2_def F s1f)
  ultimately show "\<exists>s' p f. is_page_ZFOD page 0 False s = Inr (s', 1) \<and> as_ok s' \<and>
      (\<forall>q. aligned q \<longrightarrow> pte_at s' q = (if q = page then Some (filled_pte f pte) else pte_at s q)) \<and>
      pmem s' = p \<and> pm_ok (vcpu s) p \<and> usable (vcpu s) p = usable (vcpu s) (pmem s) - {Min (usable (vcpu s) (pmem s))} \<and>
      thr s' = (thr s)\<lparr>my_state := MADE_RUNNABLE\<rparr> \<and> pt_locks s' = pt_locks s \<and> vcpu s' = vcpu s \<and> cr3 s' = cr3 s"
    using f(4,5) by blast
qed

section \<open>Page arithmetic\<close>

lemma unat_page: "unat (va AND PAGE_ALIGN_MASK) = unat va div 4096 * 4096"
proof -
  have "va AND PAGE_ALIGN_MASK = push_bit 12 (drop_bit 12 va)"
    by (rule bit_word_eqI) (auto simp: bit_simps bit_mask)
  moreover have "unat (push_bit 12 (drop_bit 12 va)) = unat va div 4096 * 4096"
  proof -
    have "unat (drop_bit 12 va) = unat va div 4096" by (simp add: drop_bit_eq_div unat_div)
    moreover have "unat va div 4096 * 4096 < 2 ^ 32" using u32_bound [of va] by simp
    ultimately show ?thesis
      by (simp add: push_bit_eq_mult unat_word_ariths(2))
  qed
  ultimately show ?thesis by simp
qed

lemma unat_add_small: "unat (p :: u32) + n < 2 ^ 32 \<Longrightarrow> unat (p + word_of_nat n) = unat p + n"
  by (simp add: unat_word_ariths(1) unat_word_of_nat32)

lemma page_step:
  assumes "aligned p" and "unat p + 4096 * k < 2 ^ 32"
  shows "aligned (p + word_of_nat (4096 * k))" "unat (p + word_of_nat (4096 * k)) = unat p + 4096 * k"
  using unat_add_small [OF assms(2)] assms(1) by (simp_all add: aligned_unat)

text \<open>The first and last page and the number of pages of an aligned region of \<open>n\<close> whole pages.\<close>

lemma region_pages:
  assumes "aligned p" and "0 < n" and "unat p + 4096 * n \<le> 2 ^ 32"
  shows "page_lowest p = p"
    and "page_highest p (word_of_nat (4096 * n)) = p + word_of_nat (4096 * (n - 1))"
    and "page_count p (p + word_of_nat (4096 * (n - 1))) = n"
proof -
  show "page_lowest p = p" using assms(1) by (simp add: page_lowest_def aligned_def)
  have e: "p + word_of_nat (4096 * n) - 1 = p + word_of_nat (4096 * n - 1)"
    using assms(2) by (simp add: of_nat_diff)
  have b: "unat p + (4096 * n - 1) < 2 ^ 32" using assms(2,3) by linarith
  have "unat (p + word_of_nat (4096 * n - 1)) = unat p + (4096 * n - 1)" by (rule unat_add_small [OF b])
  moreover obtain m where m: "unat p = 4096 * m" using assms(1) by (auto simp: aligned_unat)
  moreover have "(4096 * m + (4096 * n - 1)) div 4096 = m + (n - 1)"
  proof -
    have "4096 * m + (4096 * n - 1) = 4096 * (m + (n - 1)) + 4095" using assms(2) by (cases n) auto
    then show ?thesis by simp
  qed
  ultimately have "unat ((p + word_of_nat (4096 * n - 1)) AND PAGE_ALIGN_MASK) = unat p + 4096 * (n - 1)"
    by (simp add: unat_page)
  moreover have "unat (p + word_of_nat (4096 * (n - 1))) = unat p + 4096 * (n - 1)"
    using assms(2,3) by (intro unat_add_small) (cases n, auto)
  ultimately show "page_highest p (word_of_nat (4096 * n)) = p + word_of_nat (4096 * (n - 1))"
    unfolding page_highest_def e by (simp add: word_unat_eq_iff)
  have "4096 * (n - 1) < 2 ^ 32" using assms(2,3) by (cases n) auto
  then show "page_count p (p + word_of_nat (4096 * (n - 1))) = n"
    using assms(2) unat_word_of_nat32 [of "4096 * (n - 1)"] by (simp add: page_count_def PAGE_SIZE_def)
qed

lemma region_last_byte:
  assumes "0 < n" and "unat (p :: u32) + 4096 * n \<le> 2 ^ 32"
  shows "\<not> p + word_of_nat (4096 * n) - 1 < p"
proof -
  have e: "p + word_of_nat (4096 * n) - 1 = p + word_of_nat (4096 * n - 1)" using assms(1) by (simp add: of_nat_diff)
  have u: "unat (p + word_of_nat (4096 * n - 1)) = unat p + (4096 * n - 1)"
    using assms by (intro unat_add_small) linarith
  show ?thesis unfolding e word_less_nat_alt u by simp
qed

section \<open>Properties\<close>

lemma filled_pte_low: "aligned f \<Longrightarrow> n < 12 \<Longrightarrow> bit (filled_pte f pte) n \<longleftrightarrow> n = 1 \<or> n \<noteq> 11 \<and> bit pte n"
  by (auto simp: filled_pte_def aligned_bit bit_or_iff bit_and_iff bit_not_iff bit_mask bit_SET_BIT bit_CLR_BIT pg_bits)

text \<open>The call of the kernel for a page, without a fault.\<close>

lemma zfod_page_filled:
  assumes "as_ok s" and "aligned page" and "pte_at s page = Some pte" and "bit pte 0" and "bit pte 11"
    and "frames_ready s" and "usable (vcpu s) (pmem s) \<noteq> {}"
    and "GET_PD_INDEX page div 16 < length (pt_locks s)" and "pt_locks s ! (GET_PD_INDEX page div 16) = free_mutex"
  shows "\<exists>s' f pte'. is_page_ZFOD page 0 False s = Inr (s', 1) \<and> as_ok s' \<and>
     f = frame_addr (vcpu s) (pmem s) (word_of_nat (Min (usable (vcpu s) (pmem s)))) \<and>
     pte_at s' page = Some pte' \<and> pte' AND PAGE_ALIGN_MASK = f \<and> (\<forall>n < 12. bit pte' n \<longleftrightarrow> n = 1 \<or> n \<noteq> 11 \<and> bit pte n) \<and>
     (\<forall>q. aligned q \<and> q \<noteq> page \<longrightarrow> pte_at s' q = pte_at s q) \<and>
     frames s' = (frames s)(f := (\<lambda>_. 0)) \<and> pt_locks s' = pt_locks s \<and>
     usable (vcpu s) (pmem s') = usable (vcpu s) (pmem s) - {Min (usable (vcpu s) (pmem s))}"
proof -
  let ?l = "GET_PD_INDEX page div 16" and ?b = "SET_BIT (CLR_BIT pte PG_ZFOD) PG_RW"
  have tid: "0 \<le> my_tid (thr s)" using assms(6) by (simp add: frames_ready_def)
  define s1 where "s1 = set_ptl ?l (held_by (my_tid (thr s))) s"
  have l: "pt_lock ?l s = Inr s1" unfolding s1_def by (rule pt_lock_free [OF assms(8,9)])
  have 1: "as_ok s1" "pte_at s1 page = Some pte" using assms(1,3) by (simp_all add: s1_def)
  have s1f: "pt_locks s1 = (pt_locks s)[?l := held_by (my_tid (thr s))]" "frames s1 = frames s" "\<And>q. pte_at s1 q = pte_at s q"
    by (simp_all add: s1_def)
  have v: "vcpu (put_pte page ?b s1) = vcpu s" "pmem (put_pte page ?b s1) = pmem s" "thr (put_pte page ?b s1) = thr s"
    by (simp_all add: s1_def)
  have "frames_ready (put_pte page ?b s1)" "usable (vcpu (put_pte page ?b s1)) (pmem (put_pte page ?b s1)) \<noteq> {}"
    using assms(6,7) unfolding frames_ready_def v .
  from vm_get_frame_ex [OF this v(1,2)]
  obtain p f where f: "vm_get_frame (put_pte page ?b s1) = Inr ((put_pte page ?b s1)\<lparr>pmem := p\<rparr>, f)"
    "aligned f" "f \<noteq> ERROR_NOT_ENOUGH_MEM"
    "usable (vcpu s) p = usable (vcpu s) (pmem s) - {Min (usable (vcpu s) (pmem s))}"
    "f = frame_addr (vcpu s) (pmem s) (word_of_nat (Min (usable (vcpu s) (pmem s))))" by blast
  note F = filled_spec [OF 1 assms(2), where p = p and f = f]
  define s2 where "s2 = set_ptl ?l free_mutex (filled page pte p f s1)"
  have "pt_unlock ?l (filled page pte p f s1) = Inr s2"
    unfolding s2_def using assms(8) tid by (intro pt_unlock_held [of _ _ "my_tid (thr s)"]) (simp_all add: F s1f)
  then have "is_page_ZFOD page 0 False s = Inr (s2, 1)"
    using zfod_fill [OF 1 assms(4,5,2) f(1-3) l] by simp
  moreover have "pt_locks s2 = pt_locks s" using assms(9) list_update_id [of "pt_locks s" ?l] by (simp add: s2_def F s1f)
  moreover have "as_ok s2" "frames s2 = (frames s)(f := (\<lambda>_. 0))" "pmem s2 = p" using F(1) by (simp_all add: s2_def F s1f)
  moreover have "pte_at s2 page = Some (filled_pte f pte)" using F(2) [OF assms(2)] by (simp add: s2_def)
  moreover have "\<forall>q. aligned q \<and> q \<noteq> page \<longrightarrow> pte_at s2 q = pte_at s q" using F(2) by (simp add: s2_def s1f)
  ultimately show ?thesis using f(4,5) filled_pte_bits(1) [OF f(2), of pte] filled_pte_low [OF f(2), of _ pte] by blast
qed

text \<open>A page that is not present, or not marked: the lock is taken and given back.\<close>

lemma zfod_not_marked:
  assumes ok: "as_ok s" and al: "aligned page" and tid: "0 \<le> my_tid (thr s)"
    and no: "\<forall>pte. pte_at s page = Some pte \<longrightarrow> \<not> bit pte 0 \<or> \<not> bit pte 11"
    and l: "GET_PD_INDEX page div 16 < length (pt_locks s)" "pt_locks s ! (GET_PD_INDEX page div 16) = free_mutex"
  shows "is_page_ZFOD page 0 False s = Inr (s, 0)"
proof -
  let ?l = "GET_PD_INDEX page div 16"
  define s1 where "s1 = set_ptl ?l (held_by (my_tid (thr s))) s"
  have lk: "pt_lock ?l s = Inr s1" unfolding s1_def by (rule pt_lock_free [OF l])
  have "set_ptl ?l free_mutex s1 = s" using l list_update_id [of "pt_locks s" ?l] by (simp add: s1_def set_ptl_def)
  then have un: "pt_unlock ?l s1 = Inr s"
    using pt_unlock_held [of ?l s1 "my_tid (thr s)"] l(1) tid by (simp add: s1_def)
  have a: "page AND PAGE_ALIGN_MASK = page" using al by (simp add: aligned_def)
  have 1: "as_ok s1" "pte_at s1 page = pte_at s page" using ok by (simp_all add: s1_def)
  obtain pd where pd: "tabs s1 (cr3 s1) = Some pd" using ok by (auto simp: as_ok_def s1_def split: option.splits)
  show ?thesis
  proof (cases "bit (pd (GET_PD_INDEX page)) 0")
    case False
    then show ?thesis unfolding is_page_ZFOD_def Let_def a NUM_PT_PER_LOCK_def
      by (simp add: lk un rd_pde [OF pd] IS_SET_bit pg_bits)
  next
    case True
    then obtain pte where pte: "pte_at s1 page = Some pte" using 1(1) pd PDI_less [of page] by (auto simp: as_ok_def pte_at_def Let_def)
    then have "\<not> bit pte 0 \<or> \<not> bit pte 11" using no 1(2) by simp
    then show ?thesis unfolding is_page_ZFOD_def Let_def a NUM_PT_PER_LOCK_def
      using True by (auto simp: lk un rd_pde [OF pd] rd_pte [OF 1(1) pd True pte] IS_SET_bit pg_bits)
  qed
qed

text \<open>C30: the page-fault call of \<open>is_page_ZFOD\<close>, with the faulting address and the error code of the fault. A write (bit 1 of the
  error code) from user mode (bit 2) to a page that is present (bit 0) and whose entry is marked ZFOD is repaired: the result is 1, the
  page of the address is then mapped to the least usable frame, which is all zero, its entry has the old low bits except that
  it is writable and not marked; every other page and frame is as before, and the lock is free again. Any other fault, whatever the
  page, and any fault on a page that is not marked gives 0 and changes nothing. The table's lock is free and a usable
  frame exists.\<close>

theorem is_page_ZFOD_correct:
  assumes "as_ok s" and "page = va AND 0xFFFFF000" and "frames_ready s" and "usable (vcpu s) (pmem s) \<noteq> {}"
    and "GET_PD_INDEX page div 16 < length (pt_locks s)" and "pt_locks s ! (GET_PD_INDEX page div 16) = free_mutex"
  shows "if bit error_code 0 \<and> bit error_code 1 \<and> bit error_code 2 \<and> (\<exists>pte. pte_at s page = Some pte \<and> bit pte 0 \<and> bit pte 11)
     then \<exists>s' f pte pte'. is_page_ZFOD va error_code True s = Inr (s', 1) \<and> as_ok s' \<and>
       f = frame_addr (vcpu s) (pmem s) (word_of_nat (Min (usable (vcpu s) (pmem s)))) \<and>
       pte_at s page = Some pte \<and> pte_at s' page = Some pte' \<and> pte' AND PAGE_ALIGN_MASK = f \<and>
       (\<forall>n < 12. bit pte' n \<longleftrightarrow> n = 1 \<or> n \<noteq> 11 \<and> bit pte n) \<and>
       (\<forall>q. aligned q \<and> q \<noteq> page \<longrightarrow> pte_at s' q = pte_at s q) \<and>
       frames s' = (frames s)(f := (\<lambda>_. 0)) \<and> pt_locks s' = pt_locks s \<and>
       usable (vcpu s) (pmem s') = usable (vcpu s) (pmem s) - {Min (usable (vcpu s) (pmem s))}
     else is_page_ZFOD va error_code True s = Inr (s, 0)"
proof -
  have p: "va AND PAGE_ALIGN_MASK = page" "page AND PAGE_ALIGN_MASK = page" using assms(2) by (simp_all add: PAGE_ALIGN_MASK_def ac_simps)
  have al: "aligned page" using p(2) by (simp add: aligned_def)
  have e: "is_page_ZFOD va error_code True s =
      (if bit error_code 0 \<and> bit error_code 1 \<and> bit error_code 2 then is_page_ZFOD page 0 False s else Inr (s, 0))"
    unfolding is_page_ZFOD_def p IS_SET_bit pg_bits by simp
  show ?thesis
  proof (cases "\<exists>pte. pte_at s page = Some pte \<and> bit pte 0 \<and> bit pte 11")
    case True
    then obtain pte where pte: "pte_at s page = Some pte" "bit pte 0" "bit pte 11" by blast
    from zfod_page_filled [OF assms(1) al pte assms(3-6)] pte show ?thesis unfolding e by auto
  next
    case False
    then have "is_page_ZFOD page 0 False s = Inr (s, 0)"
      using assms(3) by (intro zfod_not_marked [OF assms(1) al _ _ assms(5,6)]) (auto simp: frames_ready_def)
    then show ?thesis unfolding e using False by simp
  qed
qed

text \<open>An address space with two zero-fill pages at the start of user memory.\<close>

definition vm_example :: vm where
  "vm_example = \<lparr>cr3 = 0x100000, cr0_pg = True,
     tabs = [0x100000 \<mapsto> (\<lambda>i. if i = 4 then 0x101007 else 0),
             0x101000 \<mapsto> (\<lambda>j. if j \<le> 1 then 0x200845 else 0)],
     frames = (\<lambda>_ _. 0), init_page_dir = (\<lambda>_. 0x100000), ctrl_bits_pde = 3, ctrl_bits_pte = 0x43,
     all_zero_frame = 0x200000, pmem = pm_example, thr = kthr_example,
     pt_locks = replicate 64 free_mutex, smem = [], sfreed = [], tlb_inv = [], vcpu = 0\<rparr>"

lemma vm_example_facts:
  "as_ok vm_example" "pte_at vm_example 0x1000000 = Some 0x200845" "pte_at vm_example 0x1001000 = Some 0x200845"
  "aligned 0x1000000" "frames_ready vm_example" "usable (vcpu vm_example) (pmem vm_example) \<noteq> {}"
  "GET_PD_INDEX 0x1000000 = 4" "GET_PD_INDEX 0x1001000 = 4"
proof -
  show "aligned 0x1000000" by (simp add: aligned_def PAGE_ALIGN_MASK_def)
  show i: "GET_PD_INDEX 0x1000000 = 4" "GET_PD_INDEX 0x1001000 = 4" by (simp_all add: GET_PD_INDEX_def)
  have j: "GET_PT_INDEX 0x1000000 = 0" "GET_PT_INDEX 0x1001000 = 1" by (simp_all add: GET_PT_INDEX_def)
  show "as_ok vm_example" by (auto simp: as_ok_def vm_example_def PAGE_ALIGN_MASK_def)
  show "pte_at vm_example 0x1000000 = Some 0x200845" "pte_at vm_example 0x1001000 = Some 0x200845"
    by (simp_all add: pte_at_def vm_example_def i j PAGE_ALIGN_MASK_def)
  show "frames_ready vm_example" using pm_example_ok by (simp add: frames_ready_def vm_example_def kthr_example_def)
  show "usable (vcpu vm_example) (pmem vm_example) \<noteq> {}" using pm_example_usable by (simp add: vm_example_def)
qed

theorem is_page_ZFOD_correct_witness:
  "(\<exists>s' pte'. is_page_ZFOD 0x1000ABC 7 True vm_example = Inr (s', 1) \<and> pte_at s' 0x1000000 = Some pte' \<and> bit pte' 1 \<and> \<not> bit pte' 11 \<and>
     pte_at s' 0x1001000 = pte_at vm_example 0x1001000) \<and>
   is_page_ZFOD 0x1000ABC 5 True vm_example = Inr (vm_example, 0)"
proof -
  have h: "(0x1000000 :: u32) = 0x1000ABC AND 0xFFFFF000" "GET_PD_INDEX 0x1000000 div 16 < length (pt_locks vm_example)"
    "pt_locks vm_example ! (GET_PD_INDEX 0x1000000 div 16) = free_mutex"
    by (simp_all add: vm_example_facts(7)) (simp_all add: vm_example_def)
  note Z = is_page_ZFOD_correct [OF vm_example_facts(1) h(1) vm_example_facts(5,6) h(2,3)]
  have b: "bit (7 :: u32) 0" "bit (7 :: u32) 1" "bit (7 :: u32) 2" "\<not> bit (5 :: u32) 1" "bit (0x200845 :: u32) 0" "bit (0x200845 :: u32) 11"
    by (simp_all add: bit_numeral_simps)
  have "aligned 0x1001000" by (simp add: aligned_def PAGE_ALIGN_MASK_def)
  then have "\<exists>s' pte'. is_page_ZFOD 0x1000ABC 7 True vm_example = Inr (s', 1) \<and> pte_at s' 0x1000000 = Some pte' \<and> bit pte' 1 \<and> \<not> bit pte' 11 \<and>
     pte_at s' 0x1001000 = pte_at vm_example 0x1001000"
    using Z [of 7] b vm_example_facts(2) by force
  moreover have "is_page_ZFOD 0x1000ABC 5 True vm_example = Inr (vm_example, 0)" using Z [of 5] b by simp
  ultimately show ?thesis by blast
qed

text \<open>A page of the check loop that is zero-fill and read-only.\<close>

lemma check_loop_zfod:
  assumes "as_ok s" and "pte_at s page = Some pte" and "bit pte 0" and "\<not> bit pte 1"
  shows "check_loop (Suc n) page cur last_byte False True s =
     kbind (is_page_ZFOD page 0 False s) (\<lambda>(s, z).
       if z = 0 then Inr (s, ERROR_READ_ONLY)
       else check_loop n (page + word_of_nat PAGE_SIZE) cur last_byte False True s)"
proof -
  obtain pd where pd: "tabs s (cr3 s) = Some pd" "bit (pd (GET_PD_INDEX page)) 0" by (rule pte_at_dir [OF assms(1,2)])
  show ?thesis using assms(3,4) pd(2) by (simp add: rd_pde [OF pd(1)] rd_pte [OF assms(1) pd assms(2)] IS_SET_bit pg_bits)
qed

text \<open>A user buffer over two zero-fill pages panics the kernel. \<open>check_mem_validness\<close> holds the
  page-table lock when it calls \<open>is_page_ZFOD\<close>, which takes the same lock again. The thread gets
  through, but its inner unlock performs \<open>OP_MAKE_RUNNABLE\<close> on the running thread itself: the first
  page leaves the thread in state \<open>MADE_RUNNABLE\<close>, and the second page reaches the panic of
  \<open>OP_MAKE_RUNNABLE\<close>.\<close>

theorem check_mem_two_ZFOD_pages_panics:
  assumes ok: "as_ok s" and al: "aligned p" and fit: "unat p + 8192 \<le> 2 ^ 32" and user: "USER_MEM_START \<le> p"
    and a: "pte_at s p = Some a" "bit a 0" "\<not> bit a 1" "bit a 11"
    and b: "pte_at s (p + 4096) = Some b" "bit b 0" "\<not> bit b 1" "bit b 11"
    and lk: "GET_PD_INDEX p div 16 < length (pt_locks s)" "GET_PD_INDEX (p + 4096) div 16 = GET_PD_INDEX p div 16"
      "pt_locks s ! (GET_PD_INDEX p div 16) = free_mutex"
    and fr: "frames_ready s" "usable (vcpu s) (pmem s) \<noteq> {}"
      "usable (vcpu s) (pmem s) - {Min (usable (vcpu s) (pmem s))} \<noteq> {}"
    and st: "my_state (thr s) = NORMAL"
  shows "check_mem_validness p 8192 False True s = Inl PANIC"
proof -
  let ?l = "GET_PD_INDEX p div 16"
  define s1 where "s1 = set_ptl ?l (held_by (my_tid (thr s))) s"
  have l: "pt_lock ?l s = Inr s1" unfolding s1_def by (rule pt_lock_free [OF lk(1,3)])
  have s1f: "as_ok s1" "\<And>q. pte_at s1 q = pte_at s q" "thr s1 = thr s" "vcpu s1 = vcpu s" "pmem s1 = pmem s"
    "pt_locks s1 = (pt_locks s)[?l := held_by (my_tid (thr s))]" using ok by (simp_all add: s1_def)
  have "frames_ready s1" "usable (vcpu s1) (pmem s1) \<noteq> {}" using fr(1,2) unfolding frames_ready_def s1f .
  note z1 = zfod_relock(2) [OF s1f(1) _ a(2,4) al this]
  obtain s2 f where z1: "is_page_ZFOD p 0 False s1 = Inr (s2, 1)" "as_ok s2"
    "\<forall>q. aligned q \<longrightarrow> pte_at s2 q = (if q = p then Some (filled_pte f a) else pte_at s q)"
    "pm_ok (vcpu s) (pmem s2)" "usable (vcpu s) (pmem s2) = usable (vcpu s) (pmem s) - {Min (usable (vcpu s) (pmem s))}"
    "thr s2 = (thr s)\<lparr>my_state := MADE_RUNNABLE\<rparr>" "pt_locks s2 = pt_locks s1" "vcpu s2 = vcpu s"
    using z1 a(1) lk(1) st unfolding s1f by auto
  have al2: "aligned (p + 4096)" using page_step(1) [OF al, of 1] fit by simp
  have ne: "p + 4096 \<noteq> p" by simp
  have "pte_at s2 (p + 4096) = Some b" using z1(3) al2 ne b(1) by simp
  moreover have "frames_ready s2" "usable (vcpu s2) (pmem s2) \<noteq> {}"
    using fr(1,3) z1(4,5) unfolding frames_ready_def z1(6,8) by simp_all
  moreover have "pt_locks s2 ! (GET_PD_INDEX (p + 4096) div 16) = held_by (my_tid (thr s2))"
    "GET_PD_INDEX (p + 4096) div 16 < length (pt_locks s2)" using lk by (simp_all add: z1(6,7) s1f)
  ultimately have z2: "is_page_ZFOD (p + 4096) 0 False s2 = Inl PANIC"
    using zfod_relock(1) [OF z1(2) _ b(2,4) al2] z1(6) by simp
  have c: "check_loop 2 p p x False True s1 = Inl PANIC" for x
  proof -
    have "check_loop 2 p p x False True s1 = check_loop (Suc 1) p p x False True s1" by (simp only: Suc_1)
    also have "\<dots> = check_loop (Suc 0) (p + 4096) p x False True s2"
      using check_loop_zfod [OF s1f(1), of p a 1 p x] a s1f(2) z1(1) by (simp add: PAGE_SIZE_def)
    also have "\<dots> = Inl PANIC" using check_loop_zfod [OF z1(2), of "p + 4096" b 0 p x] \<open>pte_at s2 (p + 4096) = Some b\<close> b z2 by simp
    finally show ?thesis .
  qed
  have r: "p AND PAGE_ALIGN_MASK = p" "(8191 + p) AND PAGE_ALIGN_MASK = p + 4096" "page_count p (p + 4096) = 2"
    "p \<le> 8191 + p"
    using region_pages [OF al, of 2] region_last_byte [of 2 p] fit by (simp_all add: page_lowest_def page_highest_def not_less)
  show ?thesis
    using user l c lk(2) by (simp add: check_mem_validness_def Let_def r NUM_PT_PER_LOCK_def not_less)
qed

lemma vm_example_two: "usable (vcpu vm_example) (pmem vm_example) - {Min (usable (vcpu vm_example) (pmem vm_example))} \<noteq> {}"
proof -
  have "i \<in> usable 0 pm_example" if "i \<le> 1" for i
  proof -
    have "i \<in> seg_frees 0 seg_example" using that
      by (simp add: seg_frees_def seg_example_def free_set_def frames_in_def leaf_bit_def)
    moreover have "frame_addr 0 pm_example (word_of_nat i) \<noteq> lapic_base pm_example"
      using that by (cases i) (simp_all add: frame_addr_def pm_example_def USER_MEM_START_def PAGE_SIZE_def)
    ultimately show ?thesis by (simp add: usable_def) (simp add: pm_example_def)
  qed
  then have "0 \<in> usable 0 pm_example" "1 \<in> usable 0 pm_example" by simp_all
  then have "usable 0 pm_example - {x} \<noteq> {}" for x by (metis Diff_eq_empty_iff singletonD subsetD zero_neq_one)
  then show ?thesis by (simp add: vm_example_def)
qed

theorem check_mem_two_ZFOD_pages_panics_witness:
  "check_mem_validness 0x1000000 8192 False True vm_example = Inl PANIC"
  by (rule check_mem_two_ZFOD_pages_panics [OF vm_example_facts(1,4) _ _ vm_example_facts(2) _ _ _ _ _ _ _ _ _ _ vm_example_facts(5,6) vm_example_two])
    (simp_all add: vm_example_facts USER_MEM_START_def, simp_all add: vm_example_def kthr_example_def)

end
