(* ===== verification/VM_Regions.thy ===== *)
theory VM_Regions
  imports VM_Space
begin

text \<open>
  \<open>new_pages\<close> and \<open>remove_pages\<close> on address spaces. \<open>mapped\<close> forgets the page tables: it gives the
  entry of every mapped page. The lemmas follow the phases of \<open>new_region\<close>: the page-table locks,
  the loop that allocates missing tables, the loop that writes the entries.
\<close>

section \<open>The mapped pages\<close>

definition mapped :: "vm \<Rightarrow> u32 \<Rightarrow> u32 option" where
  "mapped s q = (case pte_at s q of None \<Rightarrow> None | Some e \<Rightarrow> if bit e 0 then Some e else None)"

lemma mapped_cong:
  "cr3 s' = cr3 s \<Longrightarrow> tabs s' = tabs s \<Longrightarrow> mapped s' q = mapped s q"
  by (simp add: mapped_def pte_at_cong [of s' s])

definition table_present :: "vm \<Rightarrow> u32 \<Rightarrow> bool" where
  "table_present s p \<longleftrightarrow> pte_at s p \<noteq> None"

lemma table_present_dir:
  assumes "as_ok s" and "tabs s (cr3 s) = Some pd"
  shows "table_present s p \<longleftrightarrow> bit (pd (GET_PD_INDEX p)) 0"
  using assms PDI_less [of p] by (auto simp: table_present_def pte_at_def as_ok_def Let_def split: if_splits)

lemma PDI_div: "GET_PD_INDEX p = unat p div 4194304"
  by (simp add: GET_PD_INDEX_def drop_bit_eq_div unat_div)

section \<open>Locks\<close>

definition lock_range :: "nat \<Rightarrow> nat \<Rightarrow> mutex_t \<Rightarrow> mutex_t list \<Rightarrow> mutex_t list" where
  "lock_range i n m L = map (\<lambda>j. if i \<le> j \<and> j < i + n then m else L ! j) [0 ..< length L]"

lemma lock_range_0 [simp]: "lock_range i 0 m L = L"
  by (rule nth_equalityI) (auto simp: lock_range_def)

lemma length_lock_range [simp]: "length (lock_range i n m L) = length L"
  by (simp add: lock_range_def)

lemma nth_lock_range: "j < length L \<Longrightarrow> lock_range i n m L ! j = (if i \<le> j \<and> j < i + n then m else L ! j)"
  by (simp add: lock_range_def)

lemma pt_lock_up_free:
  assumes "\<forall>j. i \<le> j \<and> j < i + n \<longrightarrow> pt_locks s ! j = free_mutex" and "i + n \<le> length (pt_locks s)"
  shows "pt_lock_up n i s = Inr (s\<lparr>pt_locks := lock_range i n (held_by (my_tid (thr s))) (pt_locks s)\<rparr>)"
  using assms
proof (induction n arbitrary: i s)
  case 0
  then show ?case by simp
next
  case (Suc n)
  let ?m = "held_by (my_tid (thr s))"
  let ?s = "set_ptl i ?m s"
  have l: "pt_lock i s = Inr ?s" using Suc.prems by (intro pt_lock_free) auto
  have "pt_lock_up n (i + 1) ?s = Inr (?s\<lparr>pt_locks := lock_range (i + 1) n ?m (pt_locks ?s)\<rparr>)"
    using Suc.IH [of "i + 1" ?s] Suc.prems by simp
  moreover have "lock_range (i + 1) n ?m (pt_locks ?s) = lock_range i (Suc n) ?m (pt_locks s)"
    using Suc.prems(2) by (intro nth_equalityI) (auto simp: nth_lock_range nth_list_update)
  ultimately show ?case using l by (simp add: set_ptl_def)
qed

lemma pt_unlock_down_held:
  assumes "\<forall>j. i \<le> j \<and> j < i + n \<longrightarrow> pt_locks s ! j = held_by t" and "i + n \<le> length (pt_locks s)" and "0 \<le> t"
  shows "pt_unlock_down n (i + n - 1) s = Inr (s\<lparr>pt_locks := lock_range i n free_mutex (pt_locks s)\<rparr>)"
  using assms
proof (induction n arbitrary: s)
  case 0
  then show ?case by simp
next
  case (Suc n)
  let ?s = "set_ptl (i + n) free_mutex s"
  have l: "pt_unlock (i + n) s = Inr ?s" using Suc.prems by (intro pt_unlock_held [of _ _ t]) auto
  have "pt_unlock_down n (i + n - 1) ?s = Inr (?s\<lparr>pt_locks := lock_range i n free_mutex (pt_locks ?s)\<rparr>)"
    using Suc.IH [of ?s] Suc.prems by simp
  moreover have "lock_range i n free_mutex (pt_locks ?s) = lock_range i (Suc n) free_mutex (pt_locks s)"
    using Suc.prems(2) by (intro nth_equalityI) (auto simp: nth_lock_range nth_list_update)
  ultimately show ?case using l by (simp add: set_ptl_def)
qed

lemma lock_range_undo:
  assumes "\<forall>j. i \<le> j \<and> j < i + n \<longrightarrow> L ! j = m"
  shows "lock_range i n m (lock_range i n m' L) = L"
  using assms by (intro nth_equalityI) (auto simp: nth_lock_range)

section \<open>Allocating the missing page tables\<close>

text \<open>The allocator's promise: blocks not in use, different from each other, page aligned, and enough
  of them for the directory entries that are absent.\<close>

definition absent_tables :: "vm \<Rightarrow> nat set" where
  "absent_tables s = (case tabs s (cr3 s) of None \<Rightarrow> {} | Some pd \<Rightarrow> {i. i < 1024 \<and> \<not> bit (pd i) 0})"

definition allocator_ok :: "vm \<Rightarrow> bool" where
  "allocator_ok s \<longleftrightarrow> distinct (smem s) \<and> (\<forall>a \<in> set (smem s). a \<noteq> NULL \<and> aligned a \<and> tabs s a = None) \<and>
     card (absent_tables s) \<le> length (smem s)"

lemma same_tables_cong:
  "cr3 s' = cr3 s \<Longrightarrow> tabs s' = tabs s \<Longrightarrow> as_ok s' = as_ok s"
  "cr3 s' = cr3 s \<Longrightarrow> tabs s' = tabs s \<Longrightarrow> smem s' = smem s \<Longrightarrow> allocator_ok s' = allocator_ok s"
proof -
  show "as_ok s' = as_ok s" if "cr3 s' = cr3 s" "tabs s' = tabs s" using that by (rule pte_at_cong(2))
  show "allocator_ok s' = allocator_ok s" if "cr3 s' = cr3 s" "tabs s' = tabs s" "smem s' = smem s"
    unfolding allocator_ok_def absent_tables_def that by (rule refl)
qed

definition ctrl_ok :: "vm \<Rightarrow> bool" where
  "ctrl_ok s \<longleftrightarrow> ctrl_bits_pde s = 0x3 \<and> ctrl_bits_pte s = 0x43 \<and> aligned (all_zero_frame s)"

lemma init_pg_ctrl_bits_values:
  "ctrl_bits_pde (init_pg_ctrl_bits s) = 0x3" "ctrl_bits_pte (init_pg_ctrl_bits s) = 0x43"
  by (simp_all add: init_pg_ctrl_bits_def Let_def SET_BIT_def CLR_BIT_def pg_bits)

text \<open>The state after a new table is entered for page \<open>p\<close>.\<close>

definition add_table :: "u32 \<Rightarrow> u32 \<Rightarrow> u32 list \<Rightarrow> (nat \<Rightarrow> u32) \<Rightarrow> vm \<Rightarrow> vm" where
  "add_table p a r pd s = s\<lparr>smem := r, tabs := (tabs s)(a \<mapsto> (\<lambda>_. 0), cr3 s \<mapsto> pd(GET_PD_INDEX p := a OR 7))\<rparr>"

lemma new_pde: "aligned a \<Longrightarrow> (a OR 7) AND PAGE_ALIGN_MASK = a \<and> bit (a OR 7) 0"
proof -
  assume "aligned a"
  then have "(a OR 7) AND PAGE_ALIGN_MASK = a"
    unfolding aligned_def by (simp add: PAGE_ALIGN_MASK_def bit.conj_disj_distrib2)
  then show ?thesis by (simp add: bit_or_iff)
qed

lemma add_table_spec:
  assumes ok: "as_ok s" and pd: "tabs s (cr3 s) = Some pd" and ab: "\<not> bit (pd (GET_PD_INDEX p)) 0"
    and a: "aligned a" "tabs s a = None"
  shows "as_ok (add_table p a r pd s)"
    and "tabs (add_table p a r pd s) (cr3 s) = Some (pd(GET_PD_INDEX p := a OR 7))"
    and "mapped (add_table p a r pd s) q = mapped s q"
    and "absent_tables (add_table p a r pd s) = absent_tables s - {GET_PD_INDEX p}"
    and "table_present (add_table p a r pd s) q \<longleftrightarrow> table_present s q \<or> GET_PD_INDEX q = GET_PD_INDEX p"
proof -
  let ?s = "add_table p a r pd s"
  have ne: "a \<noteq> cr3 s" using a pd by auto
  note n = new_pde [OF a(1)]
  show d: "tabs ?s (cr3 s) = Some (pd(GET_PD_INDEX p := a OR 7))" by (simp add: add_table_def)
  have c: "cr3 ?s = cr3 s" by (simp add: add_table_def)
  have t: "tabs ?s b = (if b = a then Some (\<lambda>_. 0) else tabs s b)" if "b \<noteq> cr3 s" for b
    using that by (simp add: add_table_def)
  have old: "tabs s (pd i AND PAGE_ALIGN_MASK) \<noteq> None" "pd i AND PAGE_ALIGN_MASK \<noteq> cr3 s"
    "pd i AND PAGE_ALIGN_MASK \<noteq> a" "j < 1024 \<Longrightarrow> j \<noteq> i \<Longrightarrow> bit (pd j) 0 \<Longrightarrow> pd j AND PAGE_ALIGN_MASK \<noteq> pd i AND PAGE_ALIGN_MASK"
    if "i < 1024" "bit (pd i) 0" for i j
    using ok pd a(2) that by (auto simp: as_ok_def)
  show ok': "as_ok ?s"
    unfolding as_ok_def c d option.case
  proof (intro allI impI)
    fix i assume i: "i < 1024" "bit ((pd(GET_PD_INDEX p := a OR 7)) i) 0"
    show "tabs ?s ((pd(GET_PD_INDEX p := a OR 7)) i AND PAGE_ALIGN_MASK) \<noteq> None \<and>
      (pd(GET_PD_INDEX p := a OR 7)) i AND PAGE_ALIGN_MASK \<noteq> cr3 s \<and>
      (\<forall>j < 1024. j \<noteq> i \<and> bit ((pd(GET_PD_INDEX p := a OR 7)) j) 0 \<longrightarrow>
         (pd(GET_PD_INDEX p := a OR 7)) j AND PAGE_ALIGN_MASK \<noteq> (pd(GET_PD_INDEX p := a OR 7)) i AND PAGE_ALIGN_MASK)"
    proof (cases "i = GET_PD_INDEX p")
      case True
      then show ?thesis using n ne old(3) t [of a] by auto
    next
      case False
      with i have "bit (pd i) 0" by simp
      with i(1) False show ?thesis using n old [of i] t [of "pd i AND PAGE_ALIGN_MASK"] by auto
    qed
  qed
  have pq: "pte_at ?s q = (if GET_PD_INDEX q = GET_PD_INDEX p then Some 0 else pte_at s q)"
  proof (cases "GET_PD_INDEX q = GET_PD_INDEX p")
    case True
    then show ?thesis using n ne by (simp add: pte_at_def c d t)
  next
    case False
    then show ?thesis using old(2,3) [of "GET_PD_INDEX q"] PDI_less [of q] by (auto simp: pte_at_def c d pd t Let_def)
  qed
  have none: "pte_at s q = None" if "GET_PD_INDEX q = GET_PD_INDEX p"
    using ab that by (simp add: pte_at_def pd)
  show "mapped ?s q = mapped s q" using none by (simp add: mapped_def pq)
  show "table_present ?s q \<longleftrightarrow> table_present s q \<or> GET_PD_INDEX q = GET_PD_INDEX p" by (auto simp: table_present_def pq)
  show "absent_tables ?s = absent_tables s - {GET_PD_INDEX p}" using n by (auto simp: absent_tables_def c d pd)
qed

text \<open>The pages of a region, one after the other.\<close>

definition page_no :: "u32 \<Rightarrow> nat \<Rightarrow> u32" where
  "page_no p k = p + word_of_nat (4096 * k)"

lemma page_no_0 [simp]: "page_no p 0 = p"
  by (simp add: page_no_def)

lemma page_no_Suc: "page_no (p + 4096) k = page_no p (Suc k)"
  by (simp add: page_no_def algebra_simps)

lemma next_page:
  assumes "aligned p" and "unat p + 4096 * Suc m \<le> 2 ^ 32"
  shows "aligned (p + 4096) \<and> unat (p + 4096) + 4096 * m \<le> 2 ^ 32"
proof (cases "unat p + 4096 < 2 ^ 32")
  case True
  then show ?thesis using page_step [OF assms(1), of 1] assms(2) by simp
next
  case False
  then have u: "unat p = 2 ^ 32 - 4096" "m = 0" using assms(2) by simp_all
  then have "p = - 4096" by (simp add: word_unat_eq_iff)
  then have "p + 4096 = 0" by simp
  with u(2) show ?thesis by (simp add: aligned_def)
qed

lemma page_no_inj:
  assumes "unat p + 4096 * n \<le> 2 ^ 32" and "j < n" and "k < n"
  shows "page_no p j = page_no p k \<longleftrightarrow> j = k"
proof -
  have "unat (page_no p i) = unat p + 4096 * i" if "i < n" for i
    unfolding page_no_def using assms(1) that by (intro unat_add_small) linarith
  then show ?thesis using assms(2,3) by (metis add_left_cancel mult_left_cancel zero_neq_numeral)
qed

definition same_rest :: "vm \<Rightarrow> vm \<Rightarrow> bool" where
  "same_rest s s' \<longleftrightarrow> cr3 s' = cr3 s \<and> pmem s' = pmem s \<and> thr s' = thr s \<and> pt_locks s' = pt_locks s \<and>
     frames s' = frames s \<and> vcpu s' = vcpu s \<and> all_zero_frame s' = all_zero_frame s \<and>
     ctrl_bits_pte s' = ctrl_bits_pte s \<and> ctrl_bits_pde s' = ctrl_bits_pde s"

lemma same_rest_refl [simp]: "same_rest s s"
  by (simp add: same_rest_def)

lemma same_rest_trans: "same_rest s t \<Longrightarrow> same_rest t u \<Longrightarrow> same_rest s u"
  by (simp add: same_rest_def)

lemma allocator_take:
  assumes "allocator_ok s" and "as_ok s" and "tabs s (cr3 s) = Some pd" and "\<not> bit (pd (GET_PD_INDEX p)) 0"
  obtains a r where "smem s = a # r" and "a \<noteq> NULL" and "aligned a" and "tabs s a = None"
    and "allocator_ok (add_table p a r pd s)"
proof -
  have i: "GET_PD_INDEX p \<in> absent_tables s" using assms(3,4) PDI_less by (simp add: absent_tables_def)
  have fin: "finite (absent_tables s)" using assms(3) by (simp add: absent_tables_def)
  have "0 < card (absent_tables s)" using i fin by (auto simp: card_gt_0_iff)
  then obtain a r where ar: "smem s = a # r" using assms(1) by (cases "smem s") (auto simp: allocator_ok_def)
  have a: "a \<noteq> NULL" "aligned a" "tabs s a = None" and r: "distinct r" "a \<notin> set r"
    "\<forall>b \<in> set r. b \<noteq> NULL \<and> aligned b \<and> tabs s b = None"
    using assms(1) by (auto simp: allocator_ok_def ar)
  have "cr3 s \<notin> set r" using r(3) assms(3) by auto
  with r(2) have t: "tabs (add_table p a r pd s) b = tabs s b" if "b \<in> set r" for b
    using that by (auto simp: add_table_def)
  have "card (absent_tables (add_table p a r pd s)) \<le> length r"
    using add_table_spec(4) [OF assms(2-4) a(2,3)] assms(1) fin i by (auto simp: allocator_ok_def ar card_Diff_singleton)
  moreover have "smem (add_table p a r pd s) = r" by (simp add: add_table_def)
  ultimately have "allocator_ok (add_table p a r pd s)" using r t by (simp add: allocator_ok_def)
  with that ar a show ?thesis by blast
qed

lemma count_alloc_ok:
  assumes "as_ok s" and "allocator_ok s" and "ctrl_ok s" and "aligned page" and "unat page + 4096 * m \<le> 2 ^ 32"
    and "\<forall>k < m. mapped s (page_no page k) = None"
    and "\<forall>k < m. GET_PD_INDEX (page_no page k) - low < length bitmap"
  shows "\<exists>s'. count_alloc_loop m page low True bitmap num s = Inr (s', num) \<and> as_ok s' \<and>
     (\<forall>q. mapped s' q = mapped s q) \<and> (\<forall>k < m. table_present s' (page_no page k)) \<and>
     (\<forall>q. table_present s q \<longrightarrow> table_present s' q) \<and> same_rest s s'"
  using assms
proof (induction m arbitrary: page s bitmap)
  case 0
  then show ?case by simp
next
  case (Suc m)
  obtain pd where pd: "tabs s (cr3 s) = Some pd" using Suc.prems(1) by (auto simp: as_ok_def split: option.splits)
  note np = next_page [OF Suc.prems(4,5)]
  have later: "\<forall>k < m. mapped s (page_no (page + 4096) k) = None"
    "\<forall>k < m. GET_PD_INDEX (page_no (page + 4096) k) - low < length bitmap"
    using Suc.prems(6,7) by (auto simp: page_no_Suc)
  have here: "mapped s page = None" "GET_PD_INDEX page - low < length bitmap"
    using Suc.prems(6,7) by (auto dest: spec [of _ 0])
  have all: "(\<forall>k < Suc m. table_present s' (page_no page k)) \<longleftrightarrow>
      table_present s' page \<and> (\<forall>k < m. table_present s' (page_no (page + 4096) k))" for s'
    by (simp add: All_less_Suc2 page_no_Suc)
  show ?case
  proof (cases "bit (pd (GET_PD_INDEX page)) 0")
    case True
    obtain pt where pt: "pte_at s page = Some (pt (GET_PT_INDEX page))" by (rule present_table [OF Suc.prems(1) pd True])
    define e where "e = pt (GET_PT_INDEX page)"
    have "\<not> bit e 0" using here(1) pt by (simp add: mapped_def e_def split: if_splits)
    then have "count_alloc_loop (Suc m) page low True bitmap num s = count_alloc_loop m (page + 4096) low True bitmap num s"
      using True rd_pte [OF Suc.prems(1) pd True pt [folded e_def]]
      by (simp add: rd_pde [OF pd] IS_SET_bit PG_P_def PAGE_SIZE_def)
    moreover have "table_present s page" using True table_present_dir [OF Suc.prems(1) pd] by simp
    ultimately show ?thesis using Suc.IH [OF Suc.prems(1-3) _ _ later] np unfolding all by auto
  next
    case False
    obtain a r where a: "smem s = a # r" "a \<noteq> NULL" "aligned a" "tabs s a = None" "allocator_ok (add_table page a r pd s)"
      by (rule allocator_take [OF Suc.prems(2,1) pd False])
    let ?s = "add_table page a r pd s"
    note A = add_table_spec [OF Suc.prems(1) pd False a(3,4), where r = r]
    let ?rel = "GET_PD_INDEX page - low"
    let ?b = "bitmap[?rel div 8 := bitmap ! (?rel div 8) OR push_bit (?rel mod 8) 1]"
    have ne: "a \<noteq> cr3 s" using a(4) pd by auto
    have "SET_BIT 3 PG_US = (7 :: u32)" by (simp add: SET_BIT_def PG_US_def)
    then have "wr (cr3 s) (GET_PD_INDEX page) (a OR SET_BIT (ctrl_bits_pde s) PG_US) (clear_table a (s\<lparr>smem := r\<rparr>)) = Inr ?s"
      using Suc.prems(3) PDI_less [of page] ne pd
      by (simp add: wr_def clear_table_def NUM_ENTRIES_def ctrl_ok_def add_table_def fun_upd_twist)
    moreover have "?rel div 8 < length bitmap" using here(2) by (meson div_le_dividend le_less_trans)
    ultimately have step: "count_alloc_loop (Suc m) page low True bitmap num s = count_alloc_loop m (page + 4096) low True ?b num ?s"
      using False a(1,2) by (simp add: rd_pde [OF pd] IS_SET_bit PG_P_def smemalign_def Let_def clear_table_def PAGE_SIZE_def)
    have "ctrl_ok ?s" "same_rest s ?s" using Suc.prems(3) by (simp_all add: ctrl_ok_def add_table_def same_rest_def)
    moreover have "\<forall>k < m. mapped ?s (page_no (page + 4096) k) = None" using later(1) A(3) by simp
    moreover have "\<forall>k < m. GET_PD_INDEX (page_no (page + 4096) k) - low < length ?b" using later(2) by simp
    ultimately obtain s' where s': "count_alloc_loop m (page + 4096) low True ?b num ?s = Inr (s', num)" "as_ok s'"
      "\<forall>q. mapped s' q = mapped ?s q" "\<forall>k < m. table_present s' (page_no (page + 4096) k)"
      "\<forall>q. table_present ?s q \<longrightarrow> table_present s' q" "same_rest ?s s'"
      using Suc.IH [OF A(1) a(5)] np by blast
    moreover have "table_present s' page" using s'(5) A(5) by blast
    ultimately show ?thesis unfolding step all using A(3,5) same_rest_trans [OF \<open>same_rest s ?s\<close>] by auto
  qed
qed

section \<open>Writing the entries\<close>

text \<open>The entry of a zero-fill page of a region.\<close>

definition zfod_entry :: "vm \<Rightarrow> bool \<Rightarrow> bool \<Rightarrow> u32" where
  "zfod_entry s is_first is_last = all_zero_frame s OR
     (0x845 OR (if is_first then 0x200 else 0) OR (if is_last then 0x400 else 0))"

lemma new_pte_bits_zfod:
  "ctrl_ok s \<Longrightarrow> new_pte_bits page lowest highest rw True True s =
     (0x845 OR (if page = lowest then 0x200 else 0) OR (if page = highest then 0x400 else 0))"
  by (simp add: new_pte_bits_def ctrl_ok_def Let_def SET_BIT_def CLR_BIT_def pg_bits)

lemma zfod_entry_bits:
  assumes "aligned (all_zero_frame s)"
  shows "bit (zfod_entry s a b) 0" "\<not> bit (zfod_entry s a b) 1" "bit (zfod_entry s a b) 11"
    "bit (zfod_entry s a b) 9 \<longleftrightarrow> a" "bit (zfod_entry s a b) 10 \<longleftrightarrow> b"
  using assms by (auto simp: zfod_entry_def bit_or_iff aligned_bit)

lemma map_loop_zfod:
  assumes "as_ok s" and "ctrl_ok s" and "aligned page" and "unat page + 4096 * m \<le> 2 ^ 32"
    and "\<forall>k < m. table_present s (page_no page k)" and "\<forall>k < m. mapped s (page_no page k) = None"
  shows "\<exists>s'. map_loop m page lowest highest rw True True s = Inr s' \<and> as_ok s' \<and>
     (\<forall>q. aligned q \<longrightarrow> mapped s' q = (if \<exists>k < m. q = page_no page k
         then Some (zfod_entry s (q = lowest) (q = highest)) else mapped s q)) \<and>
     (\<forall>q. aligned q \<and> table_present s q \<longrightarrow> table_present s' q) \<and> same_rest s s'"
  using assms
proof (induction m arbitrary: page s)
  case 0
  then show ?case by simp
next
  case (Suc m)
  obtain pd where pd: "tabs s (cr3 s) = Some pd" using Suc.prems(1) by (auto simp: as_ok_def split: option.splits)
  note np = next_page [OF Suc.prems(3,4)]
  have here: "table_present s page" "mapped s page = None" using Suc.prems(5,6) by (auto dest: spec [of _ 0])
  have P: "bit (pd (GET_PD_INDEX page)) 0" using here(1) table_present_dir [OF Suc.prems(1) pd] by simp
  obtain e where e: "pte_at s page = Some e" using here(1) by (auto simp: table_present_def)
  have "\<not> bit e 0" using here(2) e by (simp add: mapped_def split: if_splits)
  define v where "v = zfod_entry s (page = lowest) (page = highest)"
  define s1 where "s1 = asm_invalidate_tlb page (put_pte page v s)"
  have step: "map_loop (Suc m) page lowest highest rw True True s = map_loop m (page + 4096) lowest highest rw True True s1"
    using P \<open>\<not> bit e 0\<close> Suc.prems(2)
    by (simp add: rd_pde [OF pd] rd_pte [OF Suc.prems(1) pd P e] IS_SET_bit PG_P_def PAGE_SIZE_def Let_def
        new_pte_bits_zfod zfod_entry_def [symmetric] put_pte_wr [OF Suc.prems(1) pd P] s1_def v_def)
  have v0: "bit v 0" using zfod_entry_bits(1) Suc.prems(2) by (simp add: v_def ctrl_ok_def)
  have at: "pte_at s1 q = (if q = page then Some v else pte_at s q)" if "aligned q" for q
    using put_pte_at [OF Suc.prems(1) pd P Suc.prems(3) that, of v] by (simp add: s1_def)
  have m1: "mapped s1 q = (if q = page then Some v else mapped s q)" if "aligned q" for q
    using at [OF that] v0 by (simp add: mapped_def)
  have t1: "table_present s1 q" if "aligned q" "table_present s q" for q
    using at [OF that(1)] that(2) by (simp add: table_present_def)
  have s1: "as_ok s1" "ctrl_ok s1" "same_rest s s1"
    using put_pte_ok [OF Suc.prems(1) pd P, of v] Suc.prems(2) by (simp_all add: s1_def ctrl_ok_def same_rest_def asm_invalidate_tlb_def)
  have z: "zfod_entry s1 x y = zfod_entry s x y" for x y using s1(3) by (simp add: zfod_entry_def same_rest_def)
  have al: "aligned (page_no page k)" if "k < Suc m" for k
    unfolding page_no_def using Suc.prems(3,4) that by (intro page_step(1)) auto
  have ne: "page_no page (Suc k) \<noteq> page" if "k < m" for k
    using page_no_inj [OF Suc.prems(4), of "Suc k" 0] that by simp
  have later: "\<forall>k < m. table_present s1 (page_no (page + 4096) k)" "\<forall>k < m. mapped s1 (page_no (page + 4096) k) = None"
    using Suc.prems(5,6) t1 m1 al ne by (auto simp: page_no_Suc)
  obtain s' where s': "map_loop m (page + 4096) lowest highest rw True True s1 = Inr s'" "as_ok s'"
    "\<forall>q. aligned q \<longrightarrow> mapped s' q = (if \<exists>k < m. q = page_no (page + 4096) k
         then Some (zfod_entry s1 (q = lowest) (q = highest)) else mapped s1 q)"
    "\<forall>q. aligned q \<and> table_present s1 q \<longrightarrow> table_present s' q" "same_rest s1 s'"
    using Suc.IH [OF s1(1,2) _ _ later] np by blast
  have ex: "(\<exists>k < Suc m. q = page_no page k) \<longleftrightarrow> q = page \<or> (\<exists>k < m. q = page_no (page + 4096) k)" for q
    by (auto simp: Ex_less_Suc2 page_no_Suc)
  have "mapped s' q = (if \<exists>k < Suc m. q = page_no page k
         then Some (zfod_entry s (q = lowest) (q = highest)) else mapped s q)" if "aligned q" for q
    using s'(3) [rule_format, OF that] m1 [OF that] unfolding ex z v_def by (auto split: if_splits)
  then show ?case unfolding step using s' t1 same_rest_trans [OF s1(3)] by blast
qed

section \<open>\<open>new_pages\<close>\<close>

text \<open>What \<open>new_pages\<close> needs to succeed: a region of \<open>n\<close> whole pages in user space, none of it mapped,
  the task's locks free, the frames to reserve, and the allocator's promise.\<close>

definition region_free :: "u32 \<Rightarrow> nat \<Rightarrow> vm \<Rightarrow> bool" where
  "region_free base n s \<longleftrightarrow> aligned base \<and> 0 < n \<and> n < 2 ^ 19 \<and> unat base + 4096 * n \<le> 2 ^ 32 \<and>
     USER_MEM_START \<le> base \<and> (\<forall>k < n. mapped s (page_no base k) = None)"

definition task_ready :: "vm \<Rightarrow> bool" where
  "task_ready s \<longleftrightarrow> as_ok s \<and> allocator_ok s \<and> ctrl_ok s \<and> pt_locks s = replicate 64 free_mutex \<and> 0 \<le> my_tid (thr s)"

lemma PDI_mono: "unat p \<le> unat q \<Longrightarrow> GET_PD_INDEX p \<le> GET_PD_INDEX q"
  by (simp add: PDI_div div_le_mono)

lemma page_no_unat: "unat p + 4096 * n \<le> 2 ^ 32 \<Longrightarrow> k < n \<Longrightarrow> unat (page_no p k) = unat p + 4096 * k"
  unfolding page_no_def by (intro unat_add_small) linarith

lemma count_pages_raw:
  assumes "as_ok s" and "allocator_ok s" and "ctrl_ok s"
    and r: "aligned base" "0 < n" "unat base + 4096 * n \<le> 2 ^ 32" "\<forall>k < n. mapped s (page_no base k) = None"
  shows "\<exists>s'. count_pages_allocated base (word_of_nat (4096 * n)) True s = Inr (s', 0) \<and> as_ok s' \<and>
     (\<forall>q. mapped s' q = mapped s q) \<and> (\<forall>k < n. table_present s' (page_no base k)) \<and> same_rest s s'"
proof -
  let ?hi = "page_no base (n - 1)"
  let ?b = "replicate (nat (int (GET_PD_INDEX ?hi) - int (GET_PD_INDEX base) + 1)) (0 :: u8)"
  have "GET_PD_INDEX (page_no base k) - GET_PD_INDEX base < length ?b" if "k < n" for k
  proof -
    have "GET_PD_INDEX (page_no base k) \<le> GET_PD_INDEX ?hi"
      "GET_PD_INDEX base \<le> GET_PD_INDEX (page_no base k)"
      using that page_no_unat [OF r(3)] by (auto intro!: PDI_mono)
    then show ?thesis unfolding length_replicate by linarith
  qed
  moreover have "count_pages_allocated base (word_of_nat (4096 * n)) True s =
      count_alloc_loop n base (GET_PD_INDEX base) True ?b 0 s"
    using region_pages [OF r(1-3)] by (simp add: count_pages_allocated_def Let_def page_no_def)
  ultimately show ?thesis
    using count_alloc_ok [of s base n "GET_PD_INDEX base" ?b 0] assms(1-3) r by auto
qed

lemma ctrl_ok_same_rest: "same_rest s s' \<Longrightarrow> ctrl_ok s' = ctrl_ok s"
  by (simp add: same_rest_def ctrl_ok_def)

lemma zfod_entry_same_rest: "same_rest s s' \<Longrightarrow> zfod_entry s' = zfod_entry s"
  by (simp add: same_rest_def zfod_entry_def fun_eq_iff)

text \<open>The locks a region takes.\<close>

lemma region_locks:
  assumes "unat base + 4096 * n \<le> 2 ^ 32" and "0 < n"
  defines "lo \<equiv> GET_PD_INDEX base div 16" and "hi \<equiv> GET_PD_INDEX (page_no base (n - 1)) div 16"
  shows "nat (int hi - int lo + 1) = hi + 1 - lo" "lo + (hi + 1 - lo) - 1 = hi" "lo + (hi + 1 - lo) \<le> 64"
proof -
  have "lo \<le> hi" unfolding lo_def hi_def using page_no_unat [OF assms(1), of "n - 1"] assms(2)
    by (intro div_le_mono PDI_mono) simp
  moreover have "hi < 64" unfolding hi_def using PDI_less [of "page_no base (n - 1)"] by (simp add: less_mult_imp_div_less)
  ultimately show "nat (int hi - int lo + 1) = hi + 1 - lo" "lo + (hi + 1 - lo) - 1 = hi" "lo + (hi + 1 - lo) \<le> 64"
    by simp_all
qed

definition reserved :: "nat \<Rightarrow> vm \<Rightarrow> pm" where
  "reserved n s = (pmem s)\<lparr>num_free_frames_left := (num_free_frames_left (pmem s))
     (vcpu s \<mapsto> the (num_free_frames_left (pmem s) (vcpu s)) - int n)\<rparr>"

lemma vm_reserve_ok:
  assumes "num_free_frames_left (pmem s) (vcpu s) = Some r" and "int n \<le> r"
  shows "vm_reserve (int n) s = Inr (s\<lparr>pmem := reserved n s\<rparr>, 0)"
  using assms by (simp add: vm_reserve_def reserve_frames_def reserved_def)

lemma new_region_spec:
  assumes t: "task_ready s" and r: "region_free base n s"
    and free: "num_free_frames_left (pmem s) (vcpu s) = Some c" "int n \<le> c"
  shows "\<exists>s'. new_region base (word_of_nat (4096 * n)) True True True s = Inr (s', 0) \<and> as_ok s' \<and>
     (\<forall>q. aligned q \<longrightarrow> mapped s' q = (if \<exists>k < n. q = page_no base k
         then Some (zfod_entry s (q = base) (q = page_no base (n - 1))) else mapped s q)) \<and>
     same_rest (s\<lparr>pmem := reserved n s\<rparr>) s'"
proof -
  have al: "aligned base" "0 < n" "unat base + 4096 * n \<le> 2 ^ 32" "\<forall>k < n. mapped s (page_no base k) = None"
    using r by (simp_all add: region_free_def)
  have T: "pt_locks s = replicate 64 free_mutex" "0 \<le> my_tid (thr s)" "ctrl_ok s" using t by (simp_all add: task_ready_def)
  define lo where "lo = GET_PD_INDEX base div 16"
  define hi where "hi = GET_PD_INDEX (page_no base (n - 1)) div 16"
  define m where "m = held_by (my_tid (thr s))"
  note L = region_locks [OF al(3,2), folded lo_def hi_def]
  define w where "w = hi + 1 - lo"
  define s1 where "s1 = s\<lparr>pt_locks := lock_range lo w m (pt_locks s)\<rparr>"
  have l: "pt_lock_up w lo s = Inr s1"
    unfolding s1_def m_def using L(3) T(1) by (intro pt_lock_up_free) (auto simp: w_def)
  have m1: "mapped s1 q = mapped s q" for q by (rule mapped_cong) (simp_all add: s1_def)
  have "as_ok s1" "allocator_ok s1" "ctrl_ok s1"
    using t same_tables_cong [of s1 s] by (simp_all add: s1_def task_ready_def ctrl_ok_def)
  moreover have "\<forall>k < n. mapped s1 (page_no base k) = None" using al(4) m1 by simp
  ultimately obtain s2 where s2: "count_pages_allocated base (word_of_nat (4096 * n)) True s1 = Inr (s2, 0)" "as_ok s2"
    "\<forall>q. mapped s2 q = mapped s1 q" "\<forall>k < n. table_present s2 (page_no base k)" "same_rest s1 s2"
    using count_pages_raw [OF _ _ _ al(1-3)] by blast
  define s3 where "s3 = s2\<lparr>pmem := reserved n s\<rparr>"
  have res: "vm_reserve (int n) s2 = Inr (s3, 0)"
    using vm_reserve_ok [of s2 c n] free s2(5) by (simp add: s3_def same_rest_def s1_def reserved_def)
  have m3: "mapped s3 q = mapped s q" for q using mapped_cong [of s3 s2 q] s2(3) m1 by (simp add: s3_def)
  have s3: "as_ok s3" "ctrl_ok s3" "\<forall>k < n. table_present s3 (page_no base k)" "\<forall>k < n. mapped s3 (page_no base k) = None"
    using s2(2,4,5) T(3) al(4) m3 same_tables_cong(1) [of s3 s2]
    by (simp_all add: s3_def ctrl_ok_def same_rest_def s1_def table_present_def pte_at_cong [of "s2\<lparr>pmem := reserved n s\<rparr>" s2])
  have z: "zfod_entry s3 = zfod_entry s" using s2(5) by (simp add: fun_eq_iff zfod_entry_def s3_def same_rest_def s1_def)
  obtain s4 where s4: "map_loop n base base (page_no base (n - 1)) True True True s3 = Inr s4" "as_ok s4"
    "\<forall>q. aligned q \<longrightarrow> mapped s4 q = (if \<exists>k < n. q = page_no base k
       then Some (zfod_entry s (q = base) (q = page_no base (n - 1))) else mapped s q)" "same_rest s3 s4"
    using map_loop_zfod [OF s3(1,2) al(1,3) s3(3,4), of base "page_no base (n - 1)" True] unfolding z m3 by blast
  have lk: "pt_locks s4 = lock_range lo w m (pt_locks s)" "thr s4 = thr s"
    using s4(4) s2(5) by (simp_all add: same_rest_def s3_def s1_def)
  define s5 where "s5 = s4\<lparr>pt_locks := pt_locks s\<rparr>"
  have u: "pt_unlock_down w hi s4 = Inr s5"
  proof -
    have "pt_unlock_down w (lo + w - 1) s4 = Inr (s4\<lparr>pt_locks := lock_range lo w free_mutex (pt_locks s4)\<rparr>)"
      using L(3) T(1,2) by (intro pt_unlock_down_held [of _ _ _ "my_tid (thr s)"]) (auto simp: lk nth_lock_range w_def m_def)
    moreover have "lock_range lo w free_mutex (pt_locks s4) = pt_locks s"
      unfolding lk using T(1) L(3) by (intro lock_range_undo) (auto simp: w_def)
    ultimately show ?thesis using L(2) by (simp add: w_def s5_def)
  qed
  have P: "page_lowest base = base" "page_highest base (word_of_nat (4096 * n)) = page_no base (n - 1)"
    "page_count base (page_no base (n - 1)) = n"
    using region_pages [OF al(1-3)] unfolding page_no_def by auto
  have "new_region base (word_of_nat (4096 * n)) True True True s = Inr (s5, 0)"
    unfolding new_region_def Let_def P NUM_PT_PER_LOCK_def lo_def [symmetric] hi_def [symmetric] L(1) w_def [symmetric]
    by (simp only: l s2(1) res s4(1) u if_True kbind_Inr prod.case) (simp add: res s4(1) [unfolded One_nat_def] u)
  moreover have "as_ok s5" using s4(2) same_tables_cong(1) [of s5 s4] by (simp add: s5_def)
  moreover have "mapped s5 q = mapped s4 q" for q by (rule mapped_cong) (simp_all add: s5_def)
  moreover have "same_rest (s\<lparr>pmem := reserved n s\<rparr>) s5"
    using s4(4) s2(5) by (simp add: same_rest_def s5_def s3_def s1_def)
  ultimately show ?thesis using s4(3) by auto
qed

lemma new_pages_region:
  assumes "region_free base n s"
  shows "new_pages base (word_of_nat (4096 * n)) s = new_region base (word_of_nat (4096 * n)) True True True s"
proof -
  let ?len = "word_of_nat (4096 * n) :: u32"
  have r: "aligned base" "0 < n" "n < 2 ^ 19" "unat base + 4096 * n \<le> 2 ^ 32" "USER_MEM_START \<le> base"
    using assms by (simp_all add: region_free_def)
  have u: "unat ?len = 4096 * n" using r(3) by (intro unat_word_of_nat32) simp
  have "sint ?len = int (4096 * n)" using r(3) by (intro sint_word_of_nat32) simp
  moreover have "base mod word_of_nat PAGE_SIZE = 0"
    using r(1) by (simp add: aligned_unat word_unat_eq_iff unat_mod PAGE_SIZE_def)
  moreover have "\<not> 0xFFFFFFFF - base + 1 < ?len"
  proof -
    have "base \<le> 0xFFFFFFFF" using u32_bound [of base] by (simp add: word_le_nat_alt)
    then have "unat (0xFFFFFFFF - base) = 0xFFFFFFFF - unat base" by (simp add: unat_sub)
    moreover from this have "unat (0xFFFFFFFF - base + word_of_nat 1) = unat (0xFFFFFFFF - base) + 1"
      using r(5) by (intro unat_add_small) (simp add: USER_MEM_START_def word_le_nat_alt)
    ultimately show ?thesis using r(4) u by (simp add: word_less_nat_alt)
  qed
  ultimately show ?thesis using r(2,5) by (simp add: new_pages_def PAGE_SIZE_def)
qed

section \<open>\<open>remove_pages\<close>\<close>

abbreviation free_locks :: "mutex_t list" where
  "free_locks \<equiv> replicate 64 free_mutex"

definition lock_held :: "nat option \<Rightarrow> vm \<Rightarrow> bool" where
  "lock_held h s \<longleftrightarrow> pt_locks s = (case h of None \<Rightarrow> free_locks | Some i \<Rightarrow> free_locks[i := held_by (my_tid (thr s))]) \<and>
     (case h of None \<Rightarrow> True | Some i \<Rightarrow> i < 64) \<and> 0 \<le> my_tid (thr s)"

definition unreserved :: "vm \<Rightarrow> pm" where
  "unreserved s = (pmem s)\<lparr>num_free_frames_left := (num_free_frames_left (pmem s))
     (vcpu s \<mapsto> the (num_free_frames_left (pmem s) (vcpu s)) + 1)\<rparr>"

text \<open>The state after a round that took lock \<open>i\<close> and removed a zero-fill page.\<close>

definition removed :: "u32 \<Rightarrow> nat \<Rightarrow> vm \<Rightarrow> vm" where
  "removed page i s = asm_invalidate_tlb page (put_pte page 0
     (s\<lparr>pt_locks := free_locks[i := held_by (my_tid (thr s))], pmem := unreserved s\<rparr>))"

lemma pt_switch:
  assumes "lock_held h s" and "i < 64"
  shows "(if h = Some i then Inr s
     else kbind (case h of None \<Rightarrow> Inr s | Some h \<Rightarrow> pt_unlock h s) (pt_lock i)) =
       Inr (s\<lparr>pt_locks := free_locks[i := held_by (my_tid (thr s))]\<rparr>)"
proof (cases h)
  case None
  then show ?thesis using assms pt_lock_free [of i s] by (simp add: lock_held_def set_ptl_def)
next
  case (Some j)
  let ?m = "held_by (my_tid (thr s))"
  have s: "pt_locks s = free_locks[j := ?m]" "j < 64" "0 \<le> my_tid (thr s)" using assms(1) Some by (simp_all add: lock_held_def)
  show ?thesis
  proof (cases "j = i")
    case True
    have "s\<lparr>pt_locks := pt_locks s\<rparr> = s" by simp
    then show ?thesis using True Some s(1) by simp
  next
    case False
    have u: "pt_unlock j s = Inr (s\<lparr>pt_locks := free_locks\<rparr>)"
    proof -
      have "free_locks[j := free_mutex] = free_locks" using s(2) list_update_id [of free_locks j] by simp
      then show ?thesis using pt_unlock_held [of j s "my_tid (thr s)"] s by (simp add: set_ptl_def)
    qed
    have "pt_lock i (s\<lparr>pt_locks := free_locks\<rparr>) = Inr (s\<lparr>pt_locks := free_locks[i := ?m]\<rparr>)"
      using pt_lock_free [of i "s\<lparr>pt_locks := free_locks\<rparr>"] assms(2) by (simp add: set_ptl_def)
    then show ?thesis using False Some u by simp
  qed
qed

lemma mapped_dir:
  assumes "as_ok s" and "mapped s page = Some e"
  obtains pd where "tabs s (cr3 s) = Some pd" "bit (pd (GET_PD_INDEX page)) 0" "pte_at s page = Some e" "bit e 0"
proof -
  have e: "pte_at s page = Some e" "bit e 0" using assms(2) by (simp_all add: mapped_def split: option.splits if_splits)
  show ?thesis by (rule pte_at_dir [OF assms(1) e(1)]) (use that e in blast)
qed

lemma remove_page_zfod:
  assumes "as_ok s" and "mapped s page = Some e" and "bit e 11" and "is_first \<Longrightarrow> bit e 9"
    and "num_free_frames_left (pmem s) (vcpu s) = Some c" and "lock_held h s"
  shows "remove_page is_first page h s = Inr (removed page (GET_PD_INDEX page div 16) s, GET_PD_INDEX page div 16,
     if bit e 10 then Removed_last else Removed_more)"
proof -
  let ?i = "GET_PD_INDEX page div 16"
  define s1 where "s1 = s\<lparr>pt_locks := free_locks[?i := held_by (my_tid (thr s))]\<rparr>"
  obtain pd where pd: "tabs s (cr3 s) = Some pd" "bit (pd (GET_PD_INDEX page)) 0" "pte_at s page = Some e" "bit e 0"
    by (rule mapped_dir [OF assms(1,2)])
  have i: "?i < 64" using PDI_less [of page] by (simp add: less_mult_imp_div_less)
  note l = pt_switch [OF assms(6) i, folded s1_def]
  have 1: "as_ok s1" "tabs s1 (cr3 s1) = Some pd" "pte_at s1 page = Some e" using assms(1) pd by (simp_all add: s1_def)
  have first: "\<not> (is_first \<and> \<not> bit e 9)" using assms(4) by blast
  have u: "vm_unreserve 1 s1 = Inr (s1\<lparr>pmem := unreserved s\<rparr>)"
    using assms(5) by (simp add: vm_unreserve_def unreserve_frames_def s1_def unreserved_def)
  have ok2: "as_ok (s1\<lparr>pmem := unreserved s\<rparr>)" "tabs (s1\<lparr>pmem := unreserved s\<rparr>) (cr3 (s1\<lparr>pmem := unreserved s\<rparr>)) = Some pd"
    using 1 by simp_all
  show ?thesis
    unfolding remove_page_def Let_def NUM_PT_PER_LOCK_def l kbind_Inr rd_pde [OF 1(2)]
    using pd(2,4) assms(3) first rd_pte [OF 1(1,2) pd(2) 1(3)] u put_pte_wr [OF ok2 pd(2), of 0]
    by (cases "bit e 9") (simp_all add: IS_SET_bit pg_bits removed_def s1_def)
qed

lemma removed_spec:
  assumes "as_ok s" and "mapped s page = Some e" and "aligned page" and "i < 64" and "0 \<le> my_tid (thr s)"
  shows "as_ok (removed page i s)" and "aligned q \<Longrightarrow> mapped (removed page i s) q = (if q = page then None else mapped s q)"
    and "lock_held (Some i) (removed page i s)"
    and "same_rest (s\<lparr>pmem := unreserved s, pt_locks := free_locks[i := held_by (my_tid (thr s))]\<rparr>) (removed page i s)"
proof -
  obtain pd where pd: "tabs s (cr3 s) = Some pd" "bit (pd (GET_PD_INDEX page)) 0" "pte_at s page = Some e"
    by (rule mapped_dir [OF assms(1,2)])
  let ?s = "s\<lparr>pt_locks := free_locks[i := held_by (my_tid (thr s))], pmem := unreserved s\<rparr>"
  have ok: "as_ok ?s" "tabs ?s (cr3 ?s) = Some pd" using assms(1) pd(1) by simp_all
  show "as_ok (removed page i s)" using put_pte_ok [OF ok pd(2)] by (simp add: removed_def)
  show "mapped (removed page i s) q = (if q = page then None else mapped s q)" if "aligned q"
    using put_pte_at [OF ok pd(2) assms(3) that, of 0] by (simp add: removed_def mapped_def)
  show "lock_held (Some i) (removed page i s)" using assms(4,5) by (simp add: lock_held_def removed_def)
  show "same_rest (s\<lparr>pmem := unreserved s, pt_locks := free_locks[i := held_by (my_tid (thr s))]\<rparr>) (removed page i s)"
    by (simp add: same_rest_def removed_def asm_invalidate_tlb_def)
qed

lemma remove_loop_zfod:
  assumes "as_ok s" and "aligned page" and "unat page + 4096 * Suc m \<le> 2 ^ 32"
    and "\<forall>k \<le> m. \<exists>e. mapped s (page_no page k) = Some e \<and> bit e 11 \<and> (bit e 10 \<longleftrightarrow> k = m) \<and> (k = 0 \<and> is_first \<longrightarrow> bit e 9)"
    and "num_free_frames_left (pmem s) (vcpu s) = Some c" and "lock_held h s"
  shows "\<exists>s'. remove_loop is_first page h s = Some (Inr (s', 0)) \<and> as_ok s' \<and>
     (\<forall>q. aligned q \<longrightarrow> mapped s' q = (if \<exists>k \<le> m. q = page_no page k then None else mapped s q)) \<and>
     same_rest (s\<lparr>pmem := (pmem s)\<lparr>num_free_frames_left := (num_free_frames_left (pmem s))(vcpu s \<mapsto> c + int (Suc m))\<rparr>,
                  pt_locks := free_locks\<rparr>) s'"
  using assms
proof (induction m arbitrary: page s is_first h c)
  case 0
  let ?i = "GET_PD_INDEX page div 16"
  obtain e where e: "mapped s page = Some e" "bit e 11" "bit e 10" "is_first \<Longrightarrow> bit e 9" using "0.prems"(4) by auto
  have i: "?i < 64" using PDI_less [of page] by (simp add: less_mult_imp_div_less)
  have tid: "0 \<le> my_tid (thr s)" using "0.prems"(6) by (simp add: lock_held_def)
  note R = removed_spec [OF "0.prems"(1) e(1) "0.prems"(2) i tid]
  have fl: "free_locks[?i := free_mutex] = free_locks" using i list_update_id [of free_locks ?i] by simp
  have u: "pt_unlock ?i (removed page ?i s) = Inr ((removed page ?i s)\<lparr>pt_locks := free_locks\<rparr>)"
    using pt_unlock_held [of ?i "removed page ?i s" "my_tid (thr s)"] R(4) i tid fl
    by (simp add: same_rest_def set_ptl_def)
  have "remove_loop is_first page h s = Some (Inr ((removed page ?i s)\<lparr>pt_locks := free_locks\<rparr>, 0))"
    using remove_page_zfod [OF "0.prems"(1) e(1,2,4) "0.prems"(5,6)] e(3) u by (subst remove_loop.simps) simp
  moreover have "mapped ((removed page ?i s)\<lparr>pt_locks := free_locks\<rparr>) q =
      (if \<exists>k \<le> 0. q = page_no page k then None else mapped s q)" if "aligned q" for q
    using mapped_cong [of "(removed page ?i s)\<lparr>pt_locks := free_locks\<rparr>" "removed page ?i s" q] R(2) [OF that] by simp
  moreover have "as_ok ((removed page ?i s)\<lparr>pt_locks := free_locks\<rparr>)" using R(1) by simp
  moreover have "same_rest (s\<lparr>pmem := (pmem s)\<lparr>num_free_frames_left := (num_free_frames_left (pmem s))(vcpu s \<mapsto> c + int (Suc 0))\<rparr>,
                  pt_locks := free_locks\<rparr>) ((removed page ?i s)\<lparr>pt_locks := free_locks\<rparr>)"
    using R(4) "0.prems"(5) by (simp add: same_rest_def unreserved_def)
  ultimately show ?case by blast
next
  case (Suc m)
  let ?i = "GET_PD_INDEX page div 16"
  let ?s = "removed page ?i s"
  obtain e where e: "mapped s page = Some e" "bit e 11" "\<not> bit e 10" "is_first \<Longrightarrow> bit e 9" using Suc.prems(4) by fastforce
  have i: "?i < 64" using PDI_less [of page] by (simp add: less_mult_imp_div_less)
  have tid: "0 \<le> my_tid (thr s)" using Suc.prems(6) by (simp add: lock_held_def)
  note R = removed_spec [OF Suc.prems(1) e(1) Suc.prems(2) i tid]
  note np = next_page [OF Suc.prems(2,3)]
  have step: "remove_loop is_first page h s = remove_loop False (page + 4096) (Some ?i) ?s"
    using remove_page_zfod [OF Suc.prems(1) e(1,2,4) Suc.prems(5,6)] e(3)
    by (subst remove_loop.simps) (simp add: PAGE_SIZE_def)
  have al: "aligned (page_no page k)" if "k < Suc (Suc m)" for k
    unfolding page_no_def using Suc.prems(2,3) that by (intro page_step(1)) auto
  have ne: "page_no page (Suc k) \<noteq> page" if "k \<le> m" for k
    using page_no_inj [OF Suc.prems(3), of "Suc k" 0] that by simp
  have later: "\<forall>k \<le> m. \<exists>e. mapped ?s (page_no (page + 4096) k) = Some e \<and> bit e 11 \<and> (bit e 10 \<longleftrightarrow> k = m) \<and> (k = 0 \<and> False \<longrightarrow> bit e 9)"
  proof (intro allI impI)
    fix k assume k: "k \<le> m"
    then obtain e where "mapped s (page_no page (Suc k)) = Some e" "bit e 11" "bit e 10 \<longleftrightarrow> k = m" using Suc.prems(4) by fastforce
    then show "\<exists>e. mapped ?s (page_no (page + 4096) k) = Some e \<and> bit e 11 \<and> (bit e 10 \<longleftrightarrow> k = m) \<and> (k = 0 \<and> False \<longrightarrow> bit e 9)"
      using R(2) [OF al, of "Suc k"] ne [OF k] k by (simp add: page_no_Suc)
  qed
  have c: "num_free_frames_left (pmem ?s) (vcpu ?s) = Some (c + 1)"
    using R(4) Suc.prems(5) by (simp add: same_rest_def unreserved_def)
  obtain s' where s': "remove_loop False (page + 4096) (Some ?i) ?s = Some (Inr (s', 0))" "as_ok s'"
    "\<forall>q. aligned q \<longrightarrow> mapped s' q = (if \<exists>k \<le> m. q = page_no (page + 4096) k then None else mapped ?s q)"
    "same_rest (?s\<lparr>pmem := (pmem ?s)\<lparr>num_free_frames_left := (num_free_frames_left (pmem ?s))(vcpu ?s \<mapsto> c + 1 + int (Suc m))\<rparr>,
                  pt_locks := free_locks\<rparr>) s'"
    using Suc.IH [OF R(1) conjunct1 [OF np] conjunct2 [OF np] later c R(3)] by blast
  have ex: "(\<exists>k \<le> Suc m. q = page_no page k) \<longleftrightarrow> q = page \<or> (\<exists>k \<le> m. q = page_no (page + 4096) k)" for q
    using Ex_less_Suc2 [of "Suc m" "\<lambda>k. q = page_no page k"] by (simp add: page_no_Suc less_Suc_eq_le)
  have "mapped s' q = (if \<exists>k \<le> Suc m. q = page_no page k then None else mapped s q)" if "aligned q" for q
    using s'(3) [rule_format, OF that] R(2) [OF that] unfolding ex by auto
  moreover have "same_rest (s\<lparr>pmem := (pmem s)\<lparr>num_free_frames_left := (num_free_frames_left (pmem s))(vcpu s \<mapsto> c + int (Suc (Suc m)))\<rparr>,
                  pt_locks := free_locks\<rparr>) s'"
    using s'(4) R(4) by (simp add: same_rest_def unreserved_def algebra_simps)
  ultimately show ?case unfolding step using s'(1,2) by blast
qed

section \<open>Properties\<close>

text \<open>C7: \<open>new_pages\<close> allocates. On a free page-aligned region of \<open>n\<close> pages of user space, with at least
  \<open>n\<close> frames left, it returns 0; afterwards exactly the pages of the region are new, each of them
  mapped read-only to the shared zero frame and marked zero-fill, the first and the last one marked
  as the ends of the region, every other mapping is as before, \<open>n\<close> frames are reserved and all
  page-table locks are free again.\<close>

theorem new_pages_correct:
  assumes "task_ready s" and "region_free base n s"
    and "num_free_frames_left (pmem s) (vcpu s) = Some c" and "int n \<le> c"
  shows "\<exists>s'. new_pages base (word_of_nat (4096 * n)) s = Inr (s', 0) \<and>
     (\<forall>q. aligned q \<longrightarrow> mapped s' q = (if \<exists>k < n. q = page_no base k
         then Some (zfod_entry s (q = base) (q = page_no base (n - 1))) else mapped s q)) \<and>
     num_free_frames_left (pmem s') (vcpu s) = Some (c - int n) \<and> pt_locks s' = pt_locks s \<and> frames s' = frames s \<and>
     bit (zfod_entry s a b) 0 \<and> \<not> bit (zfod_entry s a b) 1 \<and> bit (zfod_entry s a b) 11 \<and>
     (bit (zfod_entry s a b) 9 \<longleftrightarrow> a) \<and> (bit (zfod_entry s a b) 10 \<longleftrightarrow> b)"
proof -
  have "aligned (all_zero_frame s)" using assms(1) by (simp add: task_ready_def ctrl_ok_def)
  note z = zfod_entry_bits [OF this, of a b]
  obtain s' where s': "new_region base (word_of_nat (4096 * n)) True True True s = Inr (s', 0)"
    "\<forall>q. aligned q \<longrightarrow> mapped s' q = (if \<exists>k < n. q = page_no base k
         then Some (zfod_entry s (q = base) (q = page_no base (n - 1))) else mapped s q)"
    "same_rest (s\<lparr>pmem := reserved n s\<rparr>) s'"
    using new_region_spec [OF assms] by blast
  have "num_free_frames_left (pmem s') (vcpu s) = Some (c - int n)" "pt_locks s' = pt_locks s" "frames s' = frames s"
    using s'(3) assms(3) by (simp_all add: same_rest_def reserved_def)
  with s'(1,2) z show ?thesis unfolding new_pages_region [OF assms(2)] by blast
qed

text \<open>A task whose user space is empty: 1024 page tables can be allocated.\<close>

definition vm_empty :: vm where
  "vm_empty = vm_example\<lparr>tabs := [0x100000 \<mapsto> (\<lambda>_. 0)],
     smem := map (\<lambda>k. word_of_nat (0x200000 + 4096 * k)) [0 ..< 1024]\<rparr>"

lemma vm_empty_ready: "task_ready vm_empty"
proof -
  have u: "unat (word_of_nat (0x200000 + 4096 * k) :: u32) = 0x200000 + 4096 * k" if "k < 1024" for k
    using that by (intro unat_word_of_nat32) simp
  have "inj_on (\<lambda>k. word_of_nat (0x200000 + 4096 * k) :: u32) {0 ..< 1024}"
    by (rule inj_onI) (metis u add_left_cancel atLeastLessThan_iff mult_left_cancel zero_neq_numeral)
  then have d: "distinct (smem vm_empty)" by (simp add: vm_empty_def distinct_map)
  have t: "a \<noteq> NULL \<and> aligned a \<and> tabs vm_empty a = None" if a: "a \<in> set (smem vm_empty)" for a
  proof -
    obtain k where "k < 1024" "a = word_of_nat (0x200000 + 4096 * k)" using a by (auto simp: vm_empty_def)
    with u have "unat a = 0x200000 + 4096 * k" by blast
    then show ?thesis by (auto simp: vm_empty_def aligned_unat word_unat_eq_iff)
  qed
  have "card (absent_tables vm_empty) \<le> length (smem vm_empty)"
    by (simp add: absent_tables_def vm_empty_def vm_example_def)
  with d t have "allocator_ok vm_empty" by (simp add: allocator_ok_def)
  moreover have "ctrl_ok vm_empty" by (simp add: ctrl_ok_def vm_empty_def vm_example_def aligned_def PAGE_ALIGN_MASK_def)
  moreover have "as_ok vm_empty" by (simp add: as_ok_def vm_empty_def vm_example_def)
  ultimately show ?thesis by (simp add: task_ready_def vm_empty_def vm_example_def kthr_example_def)
qed

lemma vm_empty_region: "region_free 0x1000000 3 vm_empty"
  by (simp add: region_free_def aligned_def PAGE_ALIGN_MASK_def USER_MEM_START_def mapped_def pte_at_def vm_empty_def vm_example_def)

lemma vm_empty_left: "num_free_frames_left (pmem vm_empty) (vcpu vm_empty) = Some 64"
  by (simp add: vm_empty_def vm_example_def pm_example_def)

theorem new_pages_correct_witness:
  "\<exists>s'. new_pages 0x1000000 (word_of_nat (4096 * 3)) vm_empty = Inr (s', 0) \<and>
     (\<forall>q. aligned q \<longrightarrow> mapped s' q = (if \<exists>k < 3. q = page_no 0x1000000 k
         then Some (zfod_entry vm_empty (q = 0x1000000) (q = page_no 0x1000000 (3 - 1))) else mapped vm_empty q)) \<and>
     num_free_frames_left (pmem s') (vcpu vm_empty) = Some (64 - int 3) \<and> pt_locks s' = pt_locks vm_empty \<and>
     frames s' = frames vm_empty \<and>
     bit (zfod_entry vm_empty True False) 0 \<and> \<not> bit (zfod_entry vm_empty True False) 1 \<and>
     bit (zfod_entry vm_empty True False) 11 \<and> (bit (zfod_entry vm_empty True False) 9 \<longleftrightarrow> True) \<and>
     (bit (zfod_entry vm_empty True False) 10 \<longleftrightarrow> False)"
  by (rule new_pages_correct [OF vm_empty_ready vm_empty_region vm_empty_left]) simp

text \<open>The marks of a new region, as \<open>remove_pages\<close> reads them.\<close>

lemma region_marks:
  assumes "aligned base" and "unat base + 4096 * Suc m \<le> 2 ^ 32" and al: "aligned (all_zero_frame s)"
    and s1: "\<forall>q. aligned q \<longrightarrow> mapped s1 q = (if \<exists>k < Suc m. q = page_no base k
         then Some (zfod_entry s (q = base) (q = page_no base m)) else mapped s q)"
  shows "\<forall>k \<le> m. \<exists>e. mapped s1 (page_no base k) = Some e \<and> bit e 11 \<and> (bit e 10 \<longleftrightarrow> k = m) \<and> (k = 0 \<and> True \<longrightarrow> bit e 9)"
proof (intro allI impI)
  fix k assume k: "k \<le> m"
  then have "aligned (page_no base k)" unfolding page_no_def using assms(1,2) by (intro page_step(1)) auto
  then have "mapped s1 (page_no base k) = Some (zfod_entry s (page_no base k = base) (page_no base k = page_no base m))"
    using s1 k by (auto simp: less_Suc_eq_le)
  moreover have "page_no base k = page_no base m \<longleftrightarrow> k = m" using page_no_inj [OF assms(2), of k m] k by simp
  ultimately show "\<exists>e. mapped s1 (page_no base k) = Some e \<and> bit e 11 \<and> (bit e 10 \<longleftrightarrow> k = m) \<and> (k = 0 \<and> True \<longrightarrow> bit e 9)"
    using zfod_entry_bits [OF al] by simp
qed

text \<open>C10: \<open>remove_pages\<close> undoes \<open>new_pages\<close>. Removing a region that was just allocated returns 0 and
  gives back every mapping, the reservation and the locks as they were before the allocation.\<close>

theorem remove_new_pages:
  assumes "task_ready s" and "region_free base n s"
    and "num_free_frames_left (pmem s) (vcpu s) = Some c" and "int n \<le> c"
  shows "\<exists>s1 s2. new_pages base (word_of_nat (4096 * n)) s = Inr (s1, 0) \<and> remove_pages base s1 = Some (Inr (s2, 0)) \<and>
     (\<forall>q. aligned q \<longrightarrow> mapped s2 q = mapped s q) \<and> pmem s2 = pmem s \<and> pt_locks s2 = pt_locks s \<and> frames s2 = frames s"
proof -
  have al: "aligned (all_zero_frame s)" using assms(1) by (simp add: task_ready_def ctrl_ok_def)
  have r: "aligned base" "0 < n" "unat base + 4096 * n \<le> 2 ^ 32" "\<forall>k < n. mapped s (page_no base k) = None"
    using assms(2) by (simp_all add: region_free_def)
  obtain m where m: "n = Suc m" using r(2) by (cases n) auto
  obtain s1 where s1: "new_region base (word_of_nat (4096 * n)) True True True s = Inr (s1, 0)" "as_ok s1"
    "\<forall>q. aligned q \<longrightarrow> mapped s1 q = (if \<exists>k < n. q = page_no base k
         then Some (zfod_entry s (q = base) (q = page_no base (n - 1))) else mapped s q)"
    "same_rest (s\<lparr>pmem := reserved n s\<rparr>) s1"
    using new_region_spec [OF assms] by blast
  have R: "unat base + 4096 * Suc m \<le> 2 ^ 32" using r(3) m by simp
  note ents = region_marks [OF r(1) R al s1(3) [unfolded m diff_Suc_1]]
  have c: "num_free_frames_left (pmem s1) (vcpu s1) = Some (c - int n)"
    using s1(4) assms(3) by (simp add: same_rest_def reserved_def)
  have l: "lock_held None s1" using s1(4) assms(1) by (simp add: lock_held_def same_rest_def task_ready_def)
  obtain s2 where s2: "remove_loop True base None s1 = Some (Inr (s2, 0))"
    "\<forall>q. aligned q \<longrightarrow> mapped s2 q = (if \<exists>k \<le> m. q = page_no base k then None else mapped s1 q)"
    "same_rest (s1\<lparr>pmem := (pmem s1)\<lparr>num_free_frames_left := (num_free_frames_left (pmem s1))(vcpu s1 \<mapsto> c - int n + int (Suc m))\<rparr>,
                  pt_locks := free_locks\<rparr>) s2"
    using remove_loop_zfod [OF s1(2) r(1) R ents c l] by blast
  have "mapped s2 q = mapped s q" if q: "aligned q" for q
  proof (cases "\<exists>k \<le> m. q = page_no base k")
    case True
    then show ?thesis using s2(2) q r(4) m by auto
  next
    case False
    then have "\<not> (\<exists>k < n. q = page_no base k)" using m by (auto simp: less_Suc_eq_le)
    with False show ?thesis using s2(2) [rule_format, OF q] s1(3) [rule_format, OF q] by (simp only: if_False)
  qed
  moreover have "pmem s2 = pmem s"
    using s2(3) s1(4) assms(3) m by (simp add: same_rest_def reserved_def fun_upd_idem)
  moreover have "pt_locks s2 = pt_locks s" "frames s2 = frames s"
    using s2(3) s1(4) assms(1) by (simp_all add: same_rest_def task_ready_def)
  moreover have "remove_pages base s1 = Some (Inr (s2, 0))"
    using s2(1) r(1) by (simp add: remove_pages_def remove_region_def page_lowest_def aligned_def)
  ultimately show ?thesis using s1(1) unfolding new_pages_region [OF assms(2)] by blast
qed

theorem remove_new_pages_witness:
  "\<exists>s1 s2. new_pages 0x1000000 (word_of_nat (4096 * 3)) vm_empty = Inr (s1, 0) \<and>
     remove_pages 0x1000000 s1 = Some (Inr (s2, 0)) \<and> (\<forall>q. aligned q \<longrightarrow> mapped s2 q = mapped vm_empty q) \<and>
     pmem s2 = pmem vm_empty \<and> pt_locks s2 = pt_locks vm_empty \<and> frames s2 = frames vm_empty"
  by (rule remove_new_pages [OF vm_empty_ready vm_empty_region vm_empty_left]) simp

end
