(* ===== verification/Spinlock.thy ===== *)
theory Spinlock
  imports Kern_Prelude
begin

text \<open>
  \<open>kern/spinlock.c\<close>: the two-processor spinlock with bounded waiting that protects the message
  queues shared by a worker core and the manager core.

  \<open>spinlock_init\<close>, \<open>spinlock_unlock\<close> and \<open>spinlock_destroy\<close> are functions on the lock
  record. Because the point of a spinlock is what happens between its instructions, locking and
  unlocking are also modelled as a step relation in which every step is one shared-memory access of
  \<open>spinlock_lock\<close> or \<open>spinlock_unlock\<close> by one of the two contenders (contender 0 is the
  manager core, contender 1 the worker core: \<open>cpu_id = (smp_get_cpu() == 0) ? 0 : 1\<close>). The
  lemmas show mutual exclusion, that a released lock is never lost, and that a waiting contender is
  overtaken at most once.
\<close>

section \<open>The lock and its operations\<close>

record spinlock_t =
  available :: int
  waiting0 :: int
  waiting1 :: int

text \<open>\<open>waiting[i]\<close> for \<open>i\<close> in \<open>{0, 1}\<close>; the contender is a \<open>bool\<close>, false for index 0.\<close>

definition waiting :: "spinlock_t \<Rightarrow> bool \<Rightarrow> int" where
  "waiting l i = (if i then waiting1 l else waiting0 l)"

definition set_waiting :: "bool \<Rightarrow> int \<Rightarrow> spinlock_t \<Rightarrow> spinlock_t" where
  "set_waiting i v l = (if i then l\<lparr>waiting1 := v\<rparr> else l\<lparr>waiting0 := v\<rparr>)"

definition cpu_id :: "int \<Rightarrow> bool" where
  "cpu_id smp_get_cpu = (if smp_get_cpu = 0 then False else True)"

text \<open>\<open>asm_xchg(&lock->available, v)\<close>: the new lock and the old value.\<close>

definition xchg_available :: "int \<Rightarrow> spinlock_t \<Rightarrow> spinlock_t \<times> int" where
  "xchg_available v l = (l\<lparr>available := v\<rparr>, available l)"

definition spinlock_init :: "spinlock_t \<Rightarrow> spinlock_t \<times> int" where
  "spinlock_init l = (l\<lparr>available := 1, waiting0 := 0, waiting1 := 0\<rparr>, 0)"

text \<open>The loop of \<open>spinlock_lock\<close>, run by one contender while the other stands still:
  \<open>None\<close> if it spins forever.\<close>

definition spinlock_lock :: "bool \<Rightarrow> spinlock_t \<Rightarrow> spinlock_t option" where
  "spinlock_lock i l =
     (let l = set_waiting i 1 l;
          (l', old) = xchg_available 0 l
      in if old \<noteq> 0 then Some (set_waiting i 0 l') else None)"

definition spinlock_unlock :: "bool \<Rightarrow> spinlock_t \<Rightarrow> spinlock_t" where
  "spinlock_unlock i l =
     (if waiting l (\<not> i) \<noteq> 0 then set_waiting (\<not> i) 0 l
      else fst (xchg_available 1 l))"

definition spinlock_destroy :: "spinlock_t \<Rightarrow> spinlock_t" where
  "spinlock_destroy l = fst (xchg_available 0 l)"

lemmas spin_defs [kdefs] = waiting_def set_waiting_def xchg_available_def spinlock_init_def
  spinlock_lock_def spinlock_unlock_def spinlock_destroy_def

section \<open>Two contenders, one instruction at a time\<close>

datatype pc =
    Outside      \<comment> \<open>not using the lock\<close>
  | Announced    \<comment> \<open>\<open>waiting[cpu_id] = 1\<close> done, about to test \<open>waiting[cpu_id]\<close>\<close>
  | Tested       \<comment> \<open>\<open>waiting[cpu_id]\<close> was non-zero, about to \<open>asm_xchg(&available, 0)\<close>\<close>
  | Acquired     \<comment> \<open>out of the loop, about to clear \<open>waiting[cpu_id]\<close>\<close>
  | Critical     \<comment> \<open>\<open>spinlock_lock\<close> returned\<close>
  | Releasing    \<comment> \<open>\<open>spinlock_unlock\<close> found the other not waiting, about to set \<open>available\<close>\<close>
  | HandingOver  \<comment> \<open>\<open>spinlock_unlock\<close> found the other waiting, about to clear its flag\<close>

record sl_sys =
  lock :: spinlock_t
  pcs :: "bool \<Rightarrow> pc"
  entries :: "bool \<Rightarrow> nat"
     \<comment> \<open>ghost: how often a contender passed the loop since the other last announced itself\<close>

definition goto :: "bool \<Rightarrow> pc \<Rightarrow> sl_sys \<Rightarrow> sl_sys" where
  "goto i p s = s\<lparr>pcs := (pcs s)(i := p)\<rparr>"

definition passed :: "bool \<Rightarrow> sl_sys \<Rightarrow> sl_sys" where
  "passed i s = s\<lparr>entries := (entries s)(i := Suc (entries s i))\<rparr>"

inductive sl_step :: "sl_sys \<Rightarrow> sl_sys \<Rightarrow> bool" where
  announce: "pcs s i = Outside \<Longrightarrow>
     sl_step s (goto i Announced (s\<lparr>lock := set_waiting i 1 (lock s),
                                   entries := (entries s)(\<not> i := 0)\<rparr>))"
| test_waiting: "pcs s i = Announced \<Longrightarrow> waiting (lock s) i \<noteq> 0 \<Longrightarrow> sl_step s (goto i Tested s)"
| test_handed: "pcs s i = Announced \<Longrightarrow> waiting (lock s) i = 0 \<Longrightarrow>
     sl_step s (passed i (goto i Acquired s))"
| xchg_ok: "pcs s i = Tested \<Longrightarrow> snd (xchg_available 0 (lock s)) \<noteq> 0 \<Longrightarrow>
     sl_step s (passed i (goto i Acquired (s\<lparr>lock := fst (xchg_available 0 (lock s))\<rparr>)))"
| xchg_spin: "pcs s i = Tested \<Longrightarrow> snd (xchg_available 0 (lock s)) = 0 \<Longrightarrow>
     sl_step s (goto i Announced (s\<lparr>lock := fst (xchg_available 0 (lock s))\<rparr>))"
| enter: "pcs s i = Acquired \<Longrightarrow>
     sl_step s (goto i Critical (s\<lparr>lock := set_waiting i 0 (lock s)\<rparr>))"
| unlock_none: "pcs s i = Critical \<Longrightarrow> waiting (lock s) (\<not> i) = 0 \<Longrightarrow>
     sl_step s (goto i Releasing s)"
| unlock_some: "pcs s i = Critical \<Longrightarrow> waiting (lock s) (\<not> i) \<noteq> 0 \<Longrightarrow>
     sl_step s (goto i HandingOver s)"
| release: "pcs s i = Releasing \<Longrightarrow>
     sl_step s (goto i Outside (s\<lparr>lock := fst (xchg_available 1 (lock s))\<rparr>))"
| hand_over: "pcs s i = HandingOver \<Longrightarrow>
     sl_step s (goto i Outside (s\<lparr>lock := set_waiting (\<not> i) 0 (lock s)\<rparr>))"

definition sl_init :: sl_sys where
  "sl_init = \<lparr>lock = fst (spinlock_init \<lparr>available = 0, waiting0 = 0, waiting1 = 0\<rparr>),
              pcs = (\<lambda>_. Outside), entries = (\<lambda>_. 0)\<rparr>"

inductive sl_reachable :: "sl_sys \<Rightarrow> bool" where
  sl_start: "sl_reachable sl_init"
| sl_next: "sl_reachable s \<Longrightarrow> sl_step s t \<Longrightarrow> sl_reachable t"

lemmas step_defs = goto_def passed_def waiting_def set_waiting_def xchg_available_def

section \<open>The invariant\<close>

text \<open>A contender holds the lock from the moment it leaves the loop until its releasing write. A
  contender that announced itself and whose flag was cleared by the other has been handed the lock.\<close>

definition handed :: "sl_sys \<Rightarrow> bool \<Rightarrow> bool" where
  "handed s i \<longleftrightarrow> pcs s i \<in> {Announced, Tested} \<and> waiting (lock s) i = 0"

definition owns :: "sl_sys \<Rightarrow> bool \<Rightarrow> bool" where
  "owns s i \<longleftrightarrow> pcs s i \<in> {Acquired, Critical, Releasing, HandingOver} \<or> handed s i"

definition sl_inv :: "sl_sys \<Rightarrow> bool" where
  "sl_inv s \<longleftrightarrow>
     \<not> (owns s False \<and> owns s True) \<and>
     available (lock s) \<in> {0, 1} \<and>
     (available (lock s) = 1 \<longleftrightarrow> \<not> owns s False \<and> \<not> owns s True) \<and>
     (\<forall>i. waiting (lock s) i \<in> {0, 1}) \<and>
     (\<forall>i. pcs s i \<in> {Outside, Critical, Releasing, HandingOver} \<longrightarrow> waiting (lock s) i = 0) \<and>
     (\<forall>i. pcs s i = HandingOver \<longrightarrow> pcs s (\<not> i) \<in> {Announced, Tested} \<and> waiting (lock s) (\<not> i) = 1)"

text \<open>Overtaking: while \<open>i\<close> waits unserved, the other passed the loop at most once, and after a
  pass it either still has the lock or will hand it over.\<close>

definition bounded_inv :: "sl_sys \<Rightarrow> bool" where
  "bounded_inv s \<longleftrightarrow>
     (\<forall>i. pcs s (\<not> i) \<in> {Announced, Tested} \<and> waiting (lock s) (\<not> i) = 1 \<longrightarrow>
        entries s i \<le> 1 \<and>
        (entries s i = 1 \<longrightarrow> pcs s i \<in> {Acquired, Critical, HandingOver}))"

lemma sl_inv_init: "sl_inv sl_init"
  by (simp add: sl_inv_def sl_init_def owns_def handed_def spin_defs)

lemma bounded_inv_init: "bounded_inv sl_init"
  by (simp add: bounded_inv_def sl_init_def)

lemma all_bool: "(\<forall>i. P i) \<longleftrightarrow> P False \<and> P True"
  by (metis (full_types))

text \<open>Both invariants are checked step by step: the instruction, the contender that executes it, and
  the position of both contenders determine the new state.\<close>

lemma sl_step_inv: "sl_step s t \<Longrightarrow> sl_inv s \<Longrightarrow> sl_inv t"
  by (induction rule: sl_step.induct;
      case_tac i; case_tac "pcs s (\<not> i)";
      simp add: sl_inv_def owns_def handed_def step_defs all_bool; linarith?)

lemma sl_step_bounded: "sl_step s t \<Longrightarrow> sl_inv s \<Longrightarrow> bounded_inv s \<Longrightarrow> bounded_inv t"
  by (induction rule: sl_step.induct;
      case_tac i; case_tac "pcs s (\<not> i)";
      simp add: sl_inv_def bounded_inv_def owns_def handed_def step_defs all_bool; linarith?)

lemma sl_reachable_inv: "sl_reachable s \<Longrightarrow> sl_inv s \<and> bounded_inv s"
  by (induction rule: sl_reachable.induct)
     (auto intro: sl_inv_init bounded_inv_init sl_step_inv sl_step_bounded)

inductive_cases sl_stepE: "sl_step s t"

section \<open>Properties\<close>

text \<open>C28: mutual exclusion. In no reachable state of the two contenders are both between the
  return of \<open>spinlock_lock\<close> and the releasing write of \<open>spinlock_unlock\<close>.\<close>

theorem spinlock_mutual_exclusion:
  assumes "sl_reachable s" and "pcs s i \<in> {Critical, Releasing, HandingOver}"
    and "pcs s j \<in> {Critical, Releasing, HandingOver}"
  shows "i = j"
proof -
  have inv: "\<not> (owns s False \<and> owns s True)" using sl_reachable_inv [OF assms(1)] by (simp add: sl_inv_def)
  have "owns s i" "owns s j" using assms(2,3) by (auto simp: owns_def)
  with inv show ?thesis by (cases i; cases j) auto
qed

text \<open>A run into the critical section, used by the witnesses.\<close>

definition sl_run1 :: sl_sys where
  "sl_run1 = sl_init\<lparr>lock := \<lparr>available = 0, waiting0 = 0, waiting1 = 0\<rparr>, pcs := (\<lambda>_. Outside)(True := Critical),
      entries := (\<lambda>_. 0)(True := 1)\<rparr>"

lemma sl_run1_reachable: "sl_reachable sl_run1"
proof -
  define s1 where "s1 = goto True Announced (sl_init\<lparr>lock := set_waiting True 1 (lock sl_init),
     entries := (entries sl_init)(\<not> True := 0)\<rparr>)"
  define s2 where "s2 = goto True Tested s1"
  define s3 where "s3 = passed True (goto True Acquired (s2\<lparr>lock := fst (xchg_available 0 (lock s2))\<rparr>))"
  note defs = s1_def s2_def s3_def sl_init_def goto_def passed_def spin_defs
  have "sl_reachable s1" unfolding s1_def
    by (rule sl_next [OF sl_start]) (rule sl_step.announce, simp add: sl_init_def)
  then have "sl_reachable s2" unfolding s2_def
    by (rule sl_next) (rule sl_step.test_waiting, simp_all add: defs)
  then have "sl_reachable s3" unfolding s3_def
    by (rule sl_next) (rule sl_step.xchg_ok, simp_all add: defs)
  then have "sl_reachable (goto True Critical (s3\<lparr>lock := set_waiting True 0 (lock s3)\<rparr>))"
    by (rule sl_next) (rule sl_step.enter, simp add: defs)
  moreover have "(\<lambda>_. 0)(False := 0, True := Suc 0) = (\<lambda>_. 0)(True := Suc 0)" by auto
  ultimately show ?thesis by (simp add: sl_run1_def defs)
qed

theorem spinlock_mutual_exclusion_witness:
  "sl_reachable sl_run1 \<and> pcs sl_run1 True = Critical \<and> pcs sl_run1 False \<notin> {Critical, Releasing, HandingOver}"
  using spinlock_mutual_exclusion [OF sl_run1_reachable, of True False] sl_run1_reachable
  by (simp add: sl_run1_def)

text \<open>Bounded waiting. While a contender has announced itself (\<open>waiting\<close> flag set) and not
  been served, the other contender gets through the loop of \<open>spinlock_lock\<close> at most once.\<close>

theorem spinlock_bounded_waiting:
  assumes "sl_reachable s" and "pcs s i \<in> {Announced, Tested}" and "waiting (lock s) i = 1"
  shows "entries s (\<not> i) \<le> 1"
proof -
  have b: "bounded_inv s" using sl_reachable_inv [OF assms(1)] by simp
  show ?thesis using b [unfolded bounded_inv_def, rule_format, of "\<not> i"] assms(2,3) by simp
qed

theorem spinlock_bounded_waiting_witness:
  "\<exists>s. sl_reachable s \<and> pcs s False = Announced \<and> waiting (lock s) False = 1 \<and> entries s True \<le> 1"
proof -
  let ?s = "goto False Announced (sl_run1\<lparr>lock := set_waiting False 1 (lock sl_run1),
      entries := (entries sl_run1)(\<not> False := 0)\<rparr>)"
  have r: "sl_reachable ?s"
    by (rule sl_next [OF sl_run1_reachable]) (rule sl_step.announce, simp add: sl_run1_def)
  have w: "pcs ?s False = Announced" "waiting (lock ?s) False = 1"
    by (simp_all add: goto_def sl_run1_def spin_defs)
  from spinlock_bounded_waiting [OF r, of False] w r show ?thesis by auto
qed

text \<open>No lost lock. Whenever neither contender owns the lock, \<open>available\<close> is 1, and whenever
  \<open>available\<close> is 1 nobody owns it: a waiting contender can always get the lock once it is released,
  and is never left spinning on a lock that nobody holds.\<close>

theorem spinlock_no_lost_lock:
  assumes "sl_reachable s"
  shows "available (lock s) = 1 \<longleftrightarrow> \<not> owns s False \<and> \<not> owns s True"
  using sl_reachable_inv [OF assms] by (simp add: sl_inv_def)

theorem spinlock_no_lost_lock_witness:
  "sl_reachable sl_init \<and> available (lock sl_init) = 1 \<and> \<not> owns sl_init True"
  using spinlock_no_lost_lock [OF sl_start] sl_start
  by (simp add: sl_init_def spin_defs)

text \<open>The uncontended functions are runs of the step relation, and undo each other.\<close>

lemma spinlock_lock_free:
  "available l = 1 \<Longrightarrow> \<exists>l'. spinlock_lock i l = Some l' \<and> available l' = 0 \<and> waiting l' i = 0 \<and>
     waiting l' (\<not> i) = waiting l (\<not> i)"
  by (auto simp: spin_defs)

lemma spinlock_lock_unlock:
  "\<lbrakk>available l = 1; waiting l False = 0; waiting l True = 0; spinlock_lock i l = Some l'\<rbrakk> \<Longrightarrow>
     spinlock_unlock i l' = l"
  by (cases l) (auto simp: spin_defs split: if_splits)

end
