(* ===== verification/Hashtable.thy ===== *)
theory Hashtable
  imports Kern_Prelude
begin

text \<open>
  The chained hash table of the kernel (\<open>kern/hashtable.c\<close>), used by the process table of the
  manager core.

  A bucket's chain is the list of the \<open>(key, value)\<close> pairs of its nodes in link order. The table
  does not replace: \<open>hashtable_put\<close> puts a node in front of the chain, \<open>hashtable_get\<close> finds
  the newest node of a key, \<open>hashtable_remove\<close> unlinks the newest one. The contract
  \<open>key_stacks\<close> says exactly this: a table is a stack of values per key.
\<close>

record hashtable_t =
  array :: "(u32 \<times> u32) list list option"   \<comment> \<open>\<open>None\<close>: the NULL pointer\<close>
  ht_size :: int
  func :: "u32 \<Rightarrow> int"

text \<open>\<open>malloc_ok\<close>: whether \<open>malloc\<close> returned memory.\<close>

definition hashtable_init :: "bool \<Rightarrow> hashtable_t \<Rightarrow> hashtable_t \<times> int" where
  "hashtable_init malloc_ok table =
     (if \<not> malloc_ok then (table\<lparr>array := None\<rparr>, - 1)
      else (table\<lparr>array := Some (replicate (nat (ht_size table)) [])\<rparr>, 0))"

text \<open>The chain at \<open>table->array[index]\<close>; an index outside the array is a wild access.\<close>

definition bucket :: "hashtable_t \<Rightarrow> int \<Rightarrow> (u32 \<times> u32) list kres" where
  "bucket table index =
     (case array table of None \<Rightarrow> Inl FAULT
      | Some a \<Rightarrow> if 0 \<le> index \<and> nat index < length a then Inr (a ! nat index) else Inl FAULT)"

definition set_bucket :: "hashtable_t \<Rightarrow> int \<Rightarrow> (u32 \<times> u32) list \<Rightarrow> hashtable_t" where
  "set_bucket table index c = table\<lparr>array := map_option (\<lambda>a. a[nat index := c]) (array table)\<rparr>"

definition hashtable_put :: "bool \<Rightarrow> u32 \<Rightarrow> u32 \<Rightarrow> hashtable_t \<Rightarrow> (hashtable_t \<times> int) kres" where
  "hashtable_put malloc_ok key value table =
     (let index = func table key
      in if \<not> malloc_ok then Inr (table, - 1)
         else kbind (bucket table index) (\<lambda>c.
              Inr (set_bucket table index ((key, value) # c), 0)))"

primrec chain_get :: "u32 \<Rightarrow> (u32 \<times> u32) list \<Rightarrow> u32 \<times> int" where
  "chain_get key [] = (NULL, 0)"
| "chain_get key (n # c) = (if fst n = key then (snd n, 1) else chain_get key c)"

definition hashtable_get :: "u32 \<Rightarrow> hashtable_t \<Rightarrow> (u32 \<times> int) kres" where
  "hashtable_get key table =
     (let index = func table key
      in kbind (bucket table index) (\<lambda>c. Inr (chain_get key c)))"

primrec chain_remove :: "u32 \<Rightarrow> (u32 \<times> u32) list \<Rightarrow> (u32 \<times> u32) list \<times> u32 \<times> int" where
  "chain_remove key [] = ([], NULL, 0)"
| "chain_remove key (n # c) =
     (if fst n = key then (c, snd n, 1)
      else (case chain_remove key c of (c', rv, is_find) \<Rightarrow> (n # c', rv, is_find)))"

definition hashtable_remove :: "u32 \<Rightarrow> hashtable_t \<Rightarrow> (hashtable_t \<times> u32 \<times> int) kres" where
  "hashtable_remove key table =
     (let index = func table key
      in kbind (bucket table index) (\<lambda>c.
         case chain_remove key c of (c', rv, is_find) \<Rightarrow>
           Inr (set_bucket table index c', rv, is_find)))"

text \<open>Every node and the array are freed; the pointer keeps its value, so later use is wild.
  The result counts the nodes freed.\<close>

definition hashtable_destroy :: "hashtable_t \<Rightarrow> (hashtable_t \<times> nat) kres" where
  "hashtable_destroy table =
     (case array table of
        None \<Rightarrow> if 0 < ht_size table then Inl FAULT else Inr (table, 0)
      | Some a \<Rightarrow> if ht_size table \<le> int (length a)
          then Inr (table\<lparr>array := None\<rparr>, sum_list (map length (take (nat (ht_size table)) a)))
          else Inl FAULT)"

section \<open>A stack of values per key\<close>

definition ht_ok :: "hashtable_t \<Rightarrow> bool" where
  "ht_ok t \<longleftrightarrow> (case array t of None \<Rightarrow> False | Some a \<Rightarrow>
      length a = nat (ht_size t) \<and> (\<forall>i < length a. \<forall>n \<in> set (a ! i). func t (fst n) = int i))"

definition in_range :: "hashtable_t \<Rightarrow> u32 \<Rightarrow> bool" where
  "in_range t k \<longleftrightarrow> 0 \<le> func t k \<and> func t k < ht_size t"

definition ht_values :: "hashtable_t \<Rightarrow> u32 \<Rightarrow> u32 list" where
  "ht_values t k = (case array t of None \<Rightarrow> []
     | Some a \<Rightarrow> map snd (filter (\<lambda>n. fst n = k) (a ! nat (func t k))))"

lemma chain_get_spec:
  "chain_get k c = (case map snd (filter (\<lambda>n. fst n = k) c) of [] \<Rightarrow> (NULL, 0) | v # _ \<Rightarrow> (v, 1))"
  by (induction c) auto

lemma chain_remove_spec:
  assumes "chain_remove k c = (c', rv, f)"
  shows "(rv, f) = chain_get k c"
    and "map snd (filter (\<lambda>n. fst n = k) c') = tl (map snd (filter (\<lambda>n. fst n = k) c))"
    and "j \<noteq> k \<Longrightarrow> filter (\<lambda>n. fst n = j) c' = filter (\<lambda>n. fst n = j) c"
    and "set c' \<subseteq> set c"
  using assms by (induction c arbitrary: c') (auto split: if_splits prod.splits)

lemma bucket_ok: "ht_ok t \<Longrightarrow> in_range t k \<Longrightarrow> \<exists>a. array t = Some a \<and>
    nat (func t k) < length a \<and> bucket t (func t k) = Inr (a ! nat (func t k))"
  by (auto simp: ht_ok_def in_range_def bucket_def split: option.splits)

lemma set_bucket_simps [simp]:
  "func (set_bucket t i c) = func t" "ht_size (set_bucket t i c) = ht_size t"
  "array (set_bucket t i c) = map_option (\<lambda>a. a[nat i := c]) (array t)"
  by (simp_all add: set_bucket_def)

text \<open>Replacing a chain by one with nodes that belong there keeps the table well formed, and changes
  only the keys of that bucket.\<close>

lemma set_bucket_ok:
  assumes "ht_ok t" and "in_range t k" and "\<forall>n \<in> set c. func t (fst n) = func t k"
  shows "ht_ok (set_bucket t (func t k) c)"
  using assms by (auto simp: ht_ok_def in_range_def nth_list_update split: option.splits)

lemma ht_values_set_bucket:
  assumes "ht_ok t" and "in_range t k" and "in_range t j"
  shows "ht_values (set_bucket t (func t k) c) j =
    (if func t j = func t k then map snd (filter (\<lambda>n. fst n = j) c) else ht_values t j)"
  using assms by (auto simp: ht_ok_def in_range_def ht_values_def nth_list_update nat_eq_iff split: option.splits)

text \<open>The contract of a table that shadows: per key a stack of values.\<close>

locale key_stacks =
  fixes inv :: "'s \<Rightarrow> bool"
    and valid :: "'s \<Rightarrow> 'k \<Rightarrow> bool"
    and vals :: "'s \<Rightarrow> 'k \<Rightarrow> 'v list"
    and put :: "'k \<Rightarrow> 'v \<Rightarrow> 's \<Rightarrow> 's"
    and get :: "'k \<Rightarrow> 's \<Rightarrow> 'v option"
    and rem :: "'k \<Rightarrow> 's \<Rightarrow> 's \<times> 'v option"
  assumes put_inv: "\<lbrakk>inv s; valid s k\<rbrakk> \<Longrightarrow> inv (put k v s) \<and> valid (put k v s) = valid s"
    and put_vals: "\<lbrakk>inv s; valid s k; valid s j\<rbrakk> \<Longrightarrow>
        vals (put k v s) j = (if j = k then v # vals s k else vals s j)"
    and get_vals: "\<lbrakk>inv s; valid s k\<rbrakk> \<Longrightarrow> get k s = (case vals s k of [] \<Rightarrow> None | v # _ \<Rightarrow> Some v)"
    and rem_inv: "\<lbrakk>inv s; valid s k\<rbrakk> \<Longrightarrow> inv (fst (rem k s)) \<and> valid (fst (rem k s)) = valid s"
    and rem_result: "\<lbrakk>inv s; valid s k\<rbrakk> \<Longrightarrow> snd (rem k s) = get k s"
    and rem_vals: "\<lbrakk>inv s; valid s k; valid s j\<rbrakk> \<Longrightarrow>
        vals (fst (rem k s)) j = (if j = k then tl (vals s k) else vals s j)"
begin

lemma get_put: "\<lbrakk>inv s; valid s k; valid s j\<rbrakk> \<Longrightarrow> get j (put k v s) = (if j = k then Some v else get j s)"
  by (simp add: put_inv get_vals put_vals)

lemma rem_put:
  assumes "inv s" and "valid s k" and "valid s j"
  shows "snd (rem k (put k v s)) = Some v \<and> get j (fst (rem k (put k v s))) = get j s"
  using assms by (simp add: put_inv rem_inv rem_result get_vals put_vals rem_vals)

lemma get_rem_unique:
  "\<lbrakk>inv s; valid s k; length (vals s k) \<le> 1\<rbrakk> \<Longrightarrow> get k (fst (rem k s)) = None"
  by (cases "vals s k") (auto simp: rem_inv get_vals rem_vals)

lemma get_rem_other: "\<lbrakk>inv s; valid s k; valid s j; j \<noteq> k\<rbrakk> \<Longrightarrow> get j (fst (rem k s)) = get j s"
  by (simp add: rem_inv get_vals rem_vals)

end

definition put_ok :: "u32 \<Rightarrow> u32 \<Rightarrow> hashtable_t \<Rightarrow> hashtable_t" where
  "put_ok k v t = (case hashtable_put True k v t of Inr (t', _) \<Rightarrow> t' | Inl _ \<Rightarrow> t)"

definition get_ok :: "u32 \<Rightarrow> hashtable_t \<Rightarrow> u32 option" where
  "get_ok k t = (case hashtable_get k t of Inr (v, f) \<Rightarrow> if f = 0 then None else Some v | Inl _ \<Rightarrow> None)"

definition rem_ok :: "u32 \<Rightarrow> hashtable_t \<Rightarrow> hashtable_t \<times> u32 option" where
  "rem_ok k t = (case hashtable_remove k t of Inr (t', v, f) \<Rightarrow> (t', if f = 0 then None else Some v) | Inl _ \<Rightarrow> (t, None))"

lemma hashtable_put_returns:
  "ht_ok t \<Longrightarrow> in_range t k \<Longrightarrow> hashtable_put True k v t = Inr (put_ok k v t, 0)"
  using bucket_ok [of t k] by (auto simp: put_ok_def hashtable_put_def Let_def)

lemma hashtable_get_returns:
  "ht_ok t \<Longrightarrow> in_range t k \<Longrightarrow>
     hashtable_get k t = Inr (case get_ok k t of None \<Rightarrow> (NULL, 0) | Some v \<Rightarrow> (v, 1))"
  using bucket_ok [of t k] by (auto simp: get_ok_def hashtable_get_def chain_get_spec split: list.splits)

lemma hashtable_remove_returns:
  "ht_ok t \<Longrightarrow> in_range t k \<Longrightarrow>
     hashtable_remove k t = Inr (fst (rem_ok k t), case snd (rem_ok k t) of None \<Rightarrow> (NULL, 0) | Some v \<Rightarrow> (v, 1))"
proof -
  assume "ht_ok t" "in_range t k"
  from bucket_ok [OF this] obtain c where b: "bucket t (func t k) = Inr c" by blast
  obtain c' rv f where r: "chain_remove k c = (c', rv, f)" by (metis prod_cases3)
  from chain_remove_spec(1) [OF r] have "rv = NULL \<and> f = 0 \<or> f = 1"
    by (auto simp: chain_get_spec split: list.splits)
  with b r show ?thesis by (auto simp: rem_ok_def hashtable_remove_def)
qed

interpretation ht: key_stacks ht_ok in_range ht_values put_ok get_ok rem_ok
proof unfold_locales
  fix t k assume ok: "ht_ok t" and k: "in_range t k"
  obtain a where a: "array t = Some a" "nat (func t k) < length a" "bucket t (func t k) = Inr (a ! nat (func t k))"
    using bucket_ok [OF ok k] by blast
  have here: "func t (fst n) = func t k" if "n \<in> set (a ! nat (func t k))" for n
  proof -
    have "\<forall>n \<in> set (a ! nat (func t k)). func t (fst n) = int (nat (func t k))"
      using ok a(2) unfolding ht_ok_def a(1) option.case by blast
    with that k show ?thesis by (simp add: in_range_def)
  qed
  have put: "put_ok k v t = set_bucket t (func t k) ((k, v) # a ! nat (func t k))" for v
    by (simp add: put_ok_def hashtable_put_def a Let_def)
  show "ht_ok (put_ok k v t) \<and> in_range (put_ok k v t) = in_range t" for v
  proof -
    have "\<forall>n \<in> set ((k, v) # a ! nat (func t k)). func t (fst n) = func t k" using here by simp
    from set_bucket_ok [OF ok k this] show ?thesis unfolding put by (simp add: in_range_def fun_eq_iff)
  qed
  show "ht_values (put_ok k v t) j = (if j = k then v # ht_values t k else ht_values t j)" if "in_range t j" for v j
    unfolding put ht_values_set_bucket [OF ok k that] using a by (auto simp: ht_values_def)
  show get: "get_ok k t = (case ht_values t k of [] \<Rightarrow> None | v # _ \<Rightarrow> Some v)"
    by (simp add: get_ok_def hashtable_get_def a Let_def ht_values_def chain_get_spec split: list.splits)
  obtain c' rv f where r: "chain_remove k (a ! nat (func t k)) = (c', rv, f)" by (metis prod_cases3)
  note c' = chain_remove_spec [OF r]
  have rem: "rem_ok k t = (set_bucket t (func t k) c', if f = 0 then None else Some rv)"
    by (simp add: rem_ok_def hashtable_remove_def a r Let_def)
  show "ht_ok (fst (rem_ok k t)) \<and> in_range (fst (rem_ok k t)) = in_range t"
  proof -
    have "\<forall>n \<in> set c'. func t (fst n) = func t k" using here c'(4) by blast
    from set_bucket_ok [OF ok k this] show ?thesis unfolding rem by (simp add: in_range_def fun_eq_iff)
  qed
  show "snd (rem_ok k t) = get_ok k t"
    using c'(1) by (auto simp: rem get_ok_def hashtable_get_def a chain_get_spec split: list.splits)
  show "ht_values (fst (rem_ok k t)) j = (if j = k then tl (ht_values t k) else ht_values t j)" if "in_range t j" for j
    unfolding rem fst_conv ht_values_set_bucket [OF ok k that] using a c'(2,3) by (auto simp: ht_values_def)
qed

section \<open>Properties\<close>

text \<open>Round trips of the hash table. On a well-formed table with hash values in range,
  \<open>hashtable_put\<close> succeeds when \<open>malloc\<close> does; afterwards the key is found with the new value
  and every other key answers as before, and \<open>hashtable_remove\<close> of the key returns the value and
  gives back a table that answers every key as the original one did.\<close>

theorem hashtable_roundtrip:
  assumes "ht_ok t" and "in_range t k" and "in_range t j"
  shows "\<exists>t1 t2. hashtable_put True k v t = Inr (t1, 0) \<and>
     hashtable_get k t1 = Inr (v, 1) \<and>
     (j \<noteq> k \<longrightarrow> hashtable_get j t1 = hashtable_get j t) \<and>
     hashtable_remove k t1 = Inr (t2, v, 1) \<and>
     hashtable_get j t2 = hashtable_get j t \<and> ht_ok t2"
proof -
  let ?t1 = "put_ok k v t"
  let ?t2 = "fst (rem_ok k ?t1)"
  have 1: "ht_ok ?t1" "in_range ?t1 = in_range t" using ht.put_inv [OF assms(1,2)] by auto
  have 2: "ht_ok ?t2" "in_range ?t2 = in_range t" using ht.rem_inv [of ?t1 k] 1 assms(2) by auto
  have g: "get_ok k ?t1 = Some v" "j \<noteq> k \<Longrightarrow> get_ok j ?t1 = get_ok j t"
    using ht.get_put [OF assms(1,2)] assms(2,3) by auto
  have r: "snd (rem_ok k ?t1) = Some v" "get_ok j ?t2 = get_ok j t"
    using ht.rem_put [OF assms] by auto
  have "hashtable_put True k v t = Inr (?t1, 0)" using assms by (intro hashtable_put_returns)
  moreover have "hashtable_get k ?t1 = Inr (v, 1)" using hashtable_get_returns [of ?t1 k] 1 assms g by simp
  moreover have "j \<noteq> k \<longrightarrow> hashtable_get j ?t1 = hashtable_get j t"
    using hashtable_get_returns [of ?t1 j] hashtable_get_returns [of t j] 1 assms g by simp
  moreover have "hashtable_remove k ?t1 = Inr (?t2, v, 1)"
    using hashtable_remove_returns [of ?t1 k] 1 assms r by simp
  moreover have "hashtable_get j ?t2 = hashtable_get j t"
    using hashtable_get_returns [of ?t2 j] hashtable_get_returns [of t j] 2 assms r by simp
  ultimately show ?thesis using 2 by blast
qed

definition ht_example :: hashtable_t where
  "ht_example = fst (hashtable_init True \<lparr>array = None, ht_size = 3, func = (\<lambda>k. uint k mod 3)\<rparr>)"

lemma ht_example_ok: "ht_ok ht_example" "in_range ht_example k"
  by (auto simp: ht_example_def hashtable_init_def ht_ok_def in_range_def nth_Cons split: nat.splits)

theorem hashtable_roundtrip_witness:
  "\<exists>t1 t2. hashtable_put True 7 40 ht_example = Inr (t1, 0) \<and>
     hashtable_get 7 t1 = Inr (40, 1) \<and>
     ((4 :: u32) \<noteq> 7 \<longrightarrow> hashtable_get 4 t1 = hashtable_get 4 ht_example) \<and>
     hashtable_remove 7 t1 = Inr (t2, 40, 1) \<and>
     hashtable_get 4 t2 = hashtable_get 4 ht_example \<and> ht_ok t2"
  by (rule hashtable_roundtrip) (rule ht_example_ok)+

end
