(* ===== verification/Console.thy ===== *)
theory Console
  imports Kern_Prelude
begin

text \<open>
  The console driver (\<open>kern/console_driver.c\<close>).

  Video memory is the list of the \<open>2 * 25 * 80\<close> bytes at \<open>CONSOLE_MEM_BASE\<close>, characters at even
  and colours at odd offsets; an access beyond it is a \<open>FAULT\<close>. The 16-bit \<open>logical_cursor\<close> is a
  number with every assignment reduced modulo \<open>2 ^ 16\<close>. The CRTC's two cursor registers are part of
  the state, so that what the hardware shows can be compared with the logical cursor. The driver's
  spinlock only excludes other cores and is not part of the state.
\<close>

section \<open>State and operations\<close>

definition CONSOLE_WIDTH :: nat where "CONSOLE_WIDTH = 80"
definition CONSOLE_HEIGHT :: nat where "CONSOLE_HEIGHT = 25"

definition L2P :: "nat \<Rightarrow> nat \<Rightarrow> nat" where "L2P row col = row * CONSOLE_WIDTH + col"
definition P2R :: "nat \<Rightarrow> nat" where "P2R offset = offset div CONSOLE_WIDTH"
definition P2C :: "nat \<Rightarrow> nat" where "P2C offset = offset mod CONSOLE_WIDTH"

definition CHECK_COLOR :: "u32 \<Rightarrow> bool" where "CHECK_COLOR color \<longleftrightarrow> color AND 0xFFFFFF00 = 0"
definition CHECK_ROW :: "int \<Rightarrow> bool" where "CHECK_ROW row \<longleftrightarrow> 0 \<le> row \<and> row < int CONSOLE_HEIGHT"
definition CHECK_COL :: "int \<Rightarrow> bool" where "CHECK_COL col \<longleftrightarrow> 0 \<le> col \<and> col < int CONSOLE_WIDTH"

lemmas console_consts = CONSOLE_WIDTH_def CONSOLE_HEIGHT_def L2P_def P2R_def P2C_def

record console =
  vmem :: "u8 list"
  term_color :: u8
  logical_cursor :: nat
  is_hidden :: bool
  crtc_lsb :: u8
  crtc_msb :: u8

text \<open>Bytes at an offset of \<open>CONSOLE_MEM_BASE\<close>.\<close>

definition vwrite :: "nat \<Rightarrow> u8 \<Rightarrow> console \<Rightarrow> console kres" where
  "vwrite i b s = (if i < length (vmem s) then Inr (s\<lparr>vmem := (vmem s)[i := b]\<rparr>) else Inl FAULT)"

definition vread :: "nat \<Rightarrow> console \<Rightarrow> u8 kres" where
  "vread i s = (if i < length (vmem s) then Inr (vmem s ! i) else Inl FAULT)"

definition init_console_driver :: "console \<Rightarrow> console kres" where
  "init_console_driver s =
     kbind (vread 1 s) (\<lambda>c. Inr (s\<lparr>term_color := c,
        logical_cursor := unat (crtc_msb s) * 256 + unat (crtc_lsb s), is_hidden := False\<rparr>))"

definition set_hardware_cursor :: "nat \<Rightarrow> console \<Rightarrow> console" where
  "set_hardware_cursor offset s =
     s\<lparr>crtc_lsb := word_of_nat offset, crtc_msb := word_of_nat (offset div 256)\<rparr>"

text \<open>The two loops of \<open>scrollup\<close>, from byte \<open>i\<close> in steps of two.\<close>

function copy_up :: "nat \<Rightarrow> nat \<Rightarrow> nat \<Rightarrow> console \<Rightarrow> console kres" where
  "copy_up offset end_index i s =
     (if i < end_index then
        kbind (vread (i + offset) s) (\<lambda>ch.
        kbind (vwrite i ch s) (\<lambda>s.
        kbind (vread (i + 1 + offset) s) (\<lambda>col.
        kbind (vwrite (i + 1) col s) (\<lambda>s.
        copy_up offset end_index (i + 2) s))))
      else Inr s)"
  by pat_completeness auto
termination
  by (relation "measure (\<lambda>(offset, e, i, s). e - i)") auto

function fill_blank :: "nat \<Rightarrow> nat \<Rightarrow> console \<Rightarrow> console kres" where
  "fill_blank end_index i s =
     (if i < end_index then
        kbind (vwrite i 0x20 s) (\<lambda>s.
        kbind (vwrite (i + 1) (term_color s) s) (\<lambda>s.
        fill_blank end_index (i + 2) s))
      else Inr s)"
  by pat_completeness auto
termination
  by (relation "measure (\<lambda>(e, i, s). e - i)") auto

declare copy_up.simps [simp del] fill_blank.simps [simp del]

definition scrollup :: "console \<Rightarrow> console kres" where
  "scrollup s =
     (let end_index = (CONSOLE_HEIGHT - 1) * CONSOLE_WIDTH * 2;
          offset = CONSOLE_WIDTH * 2
      in kbind (copy_up offset end_index 0 s) (\<lambda>s.
         fill_blank (end_index + CONSOLE_WIDTH * 2) end_index s))"

definition set_logical :: "nat \<Rightarrow> console \<Rightarrow> console" where
  "set_logical n s = s\<lparr>logical_cursor := n mod 2 ^ 16\<rparr>"

text \<open>The character codes of \<open>\\n\<close>, \<open>\\r\<close> and \<open>\\b\<close>.\<close>

definition NL :: u8 where "NL = 10"
definition CR :: u8 where "CR = 13"
definition BS :: u8 where "BS = 8"

definition putbyte :: "u8 \<Rightarrow> console \<Rightarrow> console kres" where
  "putbyte ch s =
     (let offset = logical_cursor s in
      kbind
        (if ch = NL then
           (if P2R offset = CONSOLE_HEIGHT - 1
            then kbind (scrollup s) (\<lambda>s. Inr (set_logical (L2P (P2R offset) 0) s))
            else Inr (set_logical (L2P (P2R offset + 1) 0) s))
         else if ch = CR then Inr (set_logical (L2P (P2R offset) 0) s)
         else if ch = BS then
           (if P2C offset > 0 then
              let offset = offset - 1; s = set_logical offset s
              in kbind (vwrite (2 * offset) 0x20 s) (\<lambda>s.
                 vwrite (2 * offset + 1) (term_color s) s)
            else Inr s)
         else
           kbind (vwrite (2 * offset) ch s) (\<lambda>s.
           kbind (vwrite (2 * offset + 1) (term_color s) s) (\<lambda>s.
           if offset = CONSOLE_HEIGHT * CONSOLE_WIDTH - 1
           then kbind (scrollup s) (\<lambda>s. Inr (set_logical (L2P (P2R offset) 0) s))
           else Inr (set_logical (offset + 1) s))))
        (\<lambda>s. Inr (if is_hidden s then s else set_hardware_cursor (logical_cursor s) s)))"

text \<open>\<open>str = None\<close>: the NULL pointer; otherwise the bytes the pointer refers to.\<close>

primrec put_each :: "u8 list \<Rightarrow> console \<Rightarrow> console kres" where
  "put_each [] s = Inr s"
| "put_each (ch # cs) s = kbind (putbyte ch s) (put_each cs)"

definition putbytes :: "u8 list option \<Rightarrow> int \<Rightarrow> console \<Rightarrow> console kres" where
  "putbytes str len s =
     (case str of None \<Rightarrow> Inr s
      | Some bytes \<Rightarrow> if len \<le> int (length bytes) then put_each (take (nat len) bytes) s else Inl FAULT)"

definition draw_char :: "int \<Rightarrow> int \<Rightarrow> u8 \<Rightarrow> u32 \<Rightarrow> console \<Rightarrow> console kres" where
  "draw_char row col ch color s =
     (if \<not> (CHECK_ROW row \<and> CHECK_COL col \<and> CHECK_COLOR color) then Inr s
      else let offset = nat row * CONSOLE_WIDTH + nat col
           in kbind (vwrite (2 * offset) ch s) (\<lambda>s.
              vwrite (2 * offset + 1) (ucast (color AND 0xFF)) s))"

definition get_char :: "int \<Rightarrow> int \<Rightarrow> console \<Rightarrow> u8 kres" where
  "get_char row col s =
     (if \<not> (CHECK_ROW row \<and> CHECK_COL col) then Inr 0
      else vread (2 * (nat row * CONSOLE_WIDTH + nat col)) s)"

definition set_term_color :: "u32 \<Rightarrow> console \<Rightarrow> console \<times> int" where
  "set_term_color color s =
     (if \<not> CHECK_COLOR color then (s, - 1) else (s\<lparr>term_color := ucast color\<rparr>, 0))"

text \<open>\<open>term_color\<close> is a signed \<open>char\<close>: it is sign extended.\<close>

definition get_term_color :: "console \<Rightarrow> int" where
  "get_term_color s = sint (term_color s)"

definition set_cursor :: "int \<Rightarrow> int \<Rightarrow> console \<Rightarrow> console \<times> int" where
  "set_cursor row col s =
     (if \<not> (CHECK_ROW row \<and> CHECK_COL col) then (s, - 1)
      else let s = set_logical (L2P (nat row) (nat col)) s
           in (if is_hidden s then s else set_hardware_cursor (logical_cursor s) s, 0))"

definition get_cursor :: "console \<Rightarrow> int \<times> int" where
  "get_cursor s = (int (P2R (logical_cursor s)), int (P2C (logical_cursor s)))"

definition hide_cursor :: "console \<Rightarrow> console" where
  "hide_cursor s = set_hardware_cursor (CONSOLE_WIDTH * CONSOLE_WIDTH) (s\<lparr>is_hidden := True\<rparr>)"

definition show_cursor :: "console \<Rightarrow> console" where
  "show_cursor s = (let s = s\<lparr>is_hidden := False\<rparr> in set_hardware_cursor (logical_cursor s) s)"

definition clear_console :: "console \<Rightarrow> console kres" where
  "clear_console s =
     kbind (fill_blank (CONSOLE_HEIGHT * CONSOLE_WIDTH * 2) 0 s) (\<lambda>s.
       let s = set_logical 0 s in Inr (if is_hidden s then s else set_hardware_cursor 0 s))"

section \<open>Invariant\<close>

text \<open>The screen has its size, the cursor is on it, and an unhidden hardware cursor shows it.\<close>

definition shown_cursor :: "console \<Rightarrow> nat" where
  "shown_cursor s = unat (crtc_msb s) * 256 + unat (crtc_lsb s)"

definition con_ok :: "console \<Rightarrow> bool" where
  "con_ok s \<longleftrightarrow> length (vmem s) = 4000 \<and> logical_cursor s < 2000 \<and>
     (\<not> is_hidden s \<longrightarrow> shown_cursor s = logical_cursor s)"

lemma set_hw_shows: "n < 2 ^ 16 \<Longrightarrow> shown_cursor (set_hardware_cursor n s) = n"
  by (simp add: shown_cursor_def set_hardware_cursor_def unsigned_of_nat take_bit_nat_def)

lemma set_hw_fields [simp]:
  "vmem (set_hardware_cursor n s) = vmem s" "term_color (set_hardware_cursor n s) = term_color s"
  "logical_cursor (set_hardware_cursor n s) = logical_cursor s" "is_hidden (set_hardware_cursor n s) = is_hidden s"
  by (simp_all add: set_hardware_cursor_def)

lemma set_logical_fields [simp]:
  "vmem (set_logical n s) = vmem s" "term_color (set_logical n s) = term_color s"
  "logical_cursor (set_logical n s) = n mod 2 ^ 16" "is_hidden (set_logical n s) = is_hidden s"
  by (simp_all add: set_logical_def)

text \<open>What the two loops compute.\<close>

lemma copy_up_loop:
  assumes "i \<le> e" and "even (e - i)" and "e + offset \<le> length (vmem s)" and "2 \<le> offset"
  shows "\<exists>v. copy_up offset e i s = Inr (s\<lparr>vmem := v\<rparr>) \<and> length v = length (vmem s) \<and>
    (\<forall>j < length v. v ! j = (if i \<le> j \<and> j < e then vmem s ! (j + offset) else vmem s ! j))"
  using assms
proof (induction offset e i s rule: copy_up.induct)
  case (1 offset e i s)
  show ?case
  proof (cases "i < e")
    case False
    with 1(2) show ?thesis by (auto simp: copy_up.simps intro!: exI [of _ "vmem s"])
  next
    case True
    then have i2: "i + 2 \<le> e" using 1(3) by presburger
    have len: "i + 1 + offset < length (vmem s)" using i2 1(4) by simp
    define v where "v = (vmem s)[i := vmem s ! (i + offset), i + 1 := vmem s ! (i + 1 + offset)]"
    have step: "copy_up offset e i s = copy_up offset e (i + 2) (s\<lparr>vmem := v\<rparr>)"
      using True len 1(5) by (subst copy_up.simps) (simp add: vread_def vwrite_def v_def)
    have ev: "even (e - (i + 2))" using 1(3) i2 by (simp add: even_diff_nat)
    have le: "e + offset \<le> length (vmem (s\<lparr>vmem := v\<rparr>))" using 1(4) by (simp add: v_def)
    obtain w where "copy_up offset e (i + 2) (s\<lparr>vmem := v\<rparr>) = Inr ((s\<lparr>vmem := v\<rparr>)\<lparr>vmem := w\<rparr>)"
      "length w = length (vmem (s\<lparr>vmem := v\<rparr>))" "\<forall>j < length w. w ! j =
         (if i + 2 \<le> j \<and> j < e then vmem (s\<lparr>vmem := v\<rparr>) ! (j + offset) else vmem (s\<lparr>vmem := v\<rparr>) ! j)"
      using 1(1) [OF True i2 ev le 1(5)] by blast
    then have w: "copy_up offset e (i + 2) (s\<lparr>vmem := v\<rparr>) = Inr (s\<lparr>vmem := w\<rparr>)"
      "length w = length v" "\<forall>j < length w. w ! j = (if i + 2 \<le> j \<and> j < e then v ! (j + offset) else v ! j)"
      by simp_all
    have "w ! j = (if i \<le> j \<and> j < e then vmem s ! (j + offset) else vmem s ! j)" if "j < length w" for j
    proof (cases "j < i + 2")
      case True
      with w(3) that i2 have "w ! j = v ! j" by simp
      moreover have "i \<le> j \<Longrightarrow> j = i \<or> j = i + 1" using True by auto
      ultimately show ?thesis using len i2 True by (auto simp: v_def nth_list_update)
    next
      case False
      have "v ! (j + offset) = vmem s ! (j + offset)" "v ! j = vmem s ! j"
        using False 1(5) by (simp_all add: v_def)
      with w(3) that False show ?thesis by simp
    qed
    moreover have "length w = length (vmem s)" using w(2) by (simp add: v_def)
    ultimately show ?thesis using w(1) step by (intro exI [of _ w]) simp
  qed
qed

lemma fill_blank_loop:
  assumes "i \<le> e" and "even (e - i)" and "e \<le> length (vmem s)"
  shows "\<exists>v. fill_blank e i s = Inr (s\<lparr>vmem := v\<rparr>) \<and> length v = length (vmem s) \<and>
    (\<forall>j < length v. v ! j = (if i \<le> j \<and> j < e then (if even (j - i) then 0x20 else term_color s) else vmem s ! j))"
  using assms
proof (induction e i s rule: fill_blank.induct)
  case (1 e i s)
  show ?case
  proof (cases "i < e")
    case False
    with 1(2) show ?thesis by (auto simp: fill_blank.simps intro!: exI [of _ "vmem s"])
  next
    case True
    then have i2: "i + 2 \<le> e" using 1(3) by presburger
    define v where "v = (vmem s)[i := 0x20, i + 1 := term_color s]"
    have step: "fill_blank e i s = fill_blank e (i + 2) (s\<lparr>vmem := v\<rparr>)"
      using True i2 1(4) by (subst fill_blank.simps) (simp add: vwrite_def v_def)
    have ev: "even (e - (i + 2))" using 1(3) i2 by (simp add: even_diff_nat)
    have le: "e \<le> length (vmem (s\<lparr>vmem := v\<rparr>))" using 1(4) by (simp add: v_def)
    obtain w where "fill_blank e (i + 2) (s\<lparr>vmem := v\<rparr>) = Inr ((s\<lparr>vmem := v\<rparr>)\<lparr>vmem := w\<rparr>)"
      "length w = length (vmem (s\<lparr>vmem := v\<rparr>))" "\<forall>j < length w. w ! j =
         (if i + 2 \<le> j \<and> j < e then (if even (j - (i + 2)) then 0x20 else term_color (s\<lparr>vmem := v\<rparr>))
          else vmem (s\<lparr>vmem := v\<rparr>) ! j)"
      using 1(1) [OF True i2 ev le] by blast
    then have w: "fill_blank e (i + 2) (s\<lparr>vmem := v\<rparr>) = Inr (s\<lparr>vmem := w\<rparr>)"
      "length w = length v" "\<forall>j < length w. w ! j = (if i + 2 \<le> j \<and> j < e then (if even (j - (i + 2)) then 0x20 else term_color s) else v ! j)"
      by simp_all
    have "w ! j = (if i \<le> j \<and> j < e then (if even (j - i) then 0x20 else term_color s) else vmem s ! j)" if "j < length w" for j
    proof (cases "j < i + 2")
      case True
      with w(3) that i2 have "w ! j = v ! j" by simp
      moreover have "i \<le> j \<Longrightarrow> j = i \<or> j = i + 1" using True by auto
      ultimately show ?thesis using i2 True 1(4) by (auto simp: v_def nth_list_update)
    next
      case False
      have "v ! j = vmem s ! j" "even (j - (i + 2)) \<longleftrightarrow> even (j - i)"
        using False by (simp_all add: v_def even_diff_nat)
      with w(3) that False show ?thesis by simp
    qed
    moreover have "length w = length (vmem s)" using w(2) by (simp add: v_def)
    ultimately show ?thesis using w(1) step by (intro exI [of _ w]) simp
  qed
qed

text \<open>\<open>scrollup\<close> in one step: the first line is dropped and a blank line appended.\<close>

definition blank_line :: "console \<Rightarrow> u8 list" where
  "blank_line s = concat (replicate CONSOLE_WIDTH [0x20, term_color s])"

lemma nth_concat_pairs: "j < 2 * n \<Longrightarrow> concat (replicate n [a, b]) ! j = (if even j then a else b)"
proof (induction n arbitrary: j)
  case (Suc n)
  show ?case
  proof (cases "j < 2")
    case True
    then have "j = 0 \<or> j = 1" by auto
    then show ?thesis by auto
  next
    case False
    then obtain k where "j = Suc (Suc k)" by (metis add_2_eq_Suc le_add_diff_inverse not_less)
    with Suc show ?thesis by simp
  qed
qed simp

lemma length_concat_pairs: "length (concat (replicate n [a, b])) = 2 * n"
  by (induction n) simp_all

lemma scrollup_eq:
  assumes "length (vmem s) = 4000"
  shows "scrollup s = Inr (s\<lparr>vmem := drop 160 (vmem s) @ blank_line s\<rparr>)"
proof -
  obtain v where v: "copy_up 160 3840 0 s = Inr (s\<lparr>vmem := v\<rparr>)" "length v = 4000"
    "\<forall>j < length v. v ! j = (if j < 3840 then vmem s ! (j + 160) else vmem s ! j)"
    using copy_up_loop [of 0 3840 160 s] assms by auto
  obtain w where w: "fill_blank 4000 3840 (s\<lparr>vmem := v\<rparr>) = Inr (s\<lparr>vmem := w\<rparr>)" "length w = 4000"
    "\<forall>j < length w. w ! j = (if 3840 \<le> j \<and> j < 4000 then (if even (j - 3840) then 0x20 else term_color s) else v ! j)"
    using fill_blank_loop [of 3840 4000 "s\<lparr>vmem := v\<rparr>"] v(2) by auto
  have "w = drop 160 (vmem s) @ blank_line s"
  proof (rule nth_equalityI)
    show "length w = length (drop 160 (vmem s) @ blank_line s)"
      using w(2) assms by (simp add: blank_line_def length_concat_pairs console_consts)
    fix j assume j: "j < length w"
    show "w ! j = (drop 160 (vmem s) @ blank_line s) ! j"
    proof (cases "j < 3840")
      case True
      with w(3) v(2,3) j assms show ?thesis by (simp add: nth_append add.commute)
    next
      case False
      with w(3) j w(2) have "w ! j = (if even (j - 3840) then 0x20 else term_color s)" by simp
      with False j w(2) assms show ?thesis
        by (simp add: nth_append blank_line_def console_consts nth_concat_pairs)
    qed
  qed
  with v(1) w(1) show ?thesis by (simp add: scrollup_def console_consts)
qed

lemma length_blank_line [simp]: "length (blank_line s) = 160"
  by (simp add: blank_line_def length_concat_pairs console_consts)

text \<open>The end of every cursor move: the logical cursor is stored and shown unless hidden.\<close>

definition settle :: "console \<Rightarrow> console" where
  "settle s = (if is_hidden s then s else set_hardware_cursor (logical_cursor s) s)"

lemma settle_fields [simp]:
  "vmem (settle s) = vmem s" "term_color (settle s) = term_color s" "logical_cursor (settle s) = logical_cursor s"
  "is_hidden (settle s) = is_hidden s"
  by (simp_all add: settle_def)

lemma con_ok_settle: "length (vmem s) = 4000 \<Longrightarrow> logical_cursor s < 2000 \<Longrightarrow> con_ok (settle s)"
  by (simp add: con_ok_def settle_def set_hw_shows)

text \<open>Every branch of \<open>putbyte\<close>.\<close>

lemma putbyte_char:
  assumes "length (vmem s) = 4000" and "logical_cursor s < 1999" and "ch \<notin> {NL, CR, BS}"
  shows "putbyte ch s = Inr (settle (s\<lparr>vmem := (vmem s)[2 * logical_cursor s := ch, 2 * logical_cursor s + 1 := term_color s],
            logical_cursor := logical_cursor s + 1\<rparr>))"
  using assms by (simp add: putbyte_def Let_def vwrite_def settle_def set_logical_def console_consts)

lemma putbyte_char_last:
  assumes "length (vmem s) = 4000" and "logical_cursor s = 1999" and "ch \<notin> {NL, CR, BS}"
  shows "putbyte ch s = Inr (settle (s\<lparr>vmem := drop 160 ((vmem s)[3998 := ch, 3999 := term_color s]) @ blank_line s,
            logical_cursor := 1920\<rparr>))"
  using assms by (simp add: putbyte_def Let_def vwrite_def settle_def set_logical_def console_consts
      scrollup_eq blank_line_def)

lemma putbyte_NL:
  assumes "length (vmem s) = 4000" and "logical_cursor s < 2000"
  shows "putbyte NL s = Inr (settle (if logical_cursor s div 80 = 24
     then s\<lparr>vmem := drop 160 (vmem s) @ blank_line s, logical_cursor := 1920\<rparr>
     else s\<lparr>logical_cursor := (logical_cursor s div 80 + 1) * 80\<rparr>))"
proof -
  have "(logical_cursor s div 80 + 1) * 80 < 2 ^ 16" using assms(2) by simp
  then show ?thesis using assms
    by (simp add: putbyte_def Let_def settle_def set_logical_def console_consts scrollup_eq)
qed

lemma putbyte_CR:
  assumes "logical_cursor s < 2000"
  shows "putbyte CR s = Inr (settle (s\<lparr>logical_cursor := logical_cursor s div 80 * 80\<rparr>))"
  using assms by (simp add: putbyte_def Let_def settle_def set_logical_def console_consts NL_def CR_def)

lemma putbyte_BS:
  assumes "length (vmem s) = 4000" and "logical_cursor s < 2000"
  shows "putbyte BS s = Inr (settle (if 0 < logical_cursor s mod 80
     then s\<lparr>logical_cursor := logical_cursor s - 1,
            vmem := (vmem s)[2 * (logical_cursor s - 1) := 0x20, 2 * (logical_cursor s - 1) + 1 := term_color s]\<rparr>
     else s))"
proof -
  have "0 < logical_cursor s mod 80 \<Longrightarrow> 0 < logical_cursor s" by (cases "logical_cursor s") auto
  then show ?thesis using assms
    by (auto simp add: putbyte_def Let_def settle_def set_logical_def vwrite_def console_consts NL_def CR_def BS_def)
qed

lemma putbyte_ok:
  assumes "con_ok s"
  shows "\<exists>s'. putbyte ch s = Inr s' \<and> con_ok s' \<and> term_color s' = term_color s \<and> is_hidden s' = is_hidden s"
proof -
  have l: "length (vmem s) = 4000" "logical_cursor s < 2000" using assms by (simp_all add: con_ok_def)
  consider "ch = NL" | "ch = CR" | "ch = BS" | "ch \<notin> {NL, CR, BS}" "logical_cursor s < 1999"
    | "ch \<notin> {NL, CR, BS}" "logical_cursor s = 1999" using l(2) by fastforce
  then show ?thesis
  proof cases
    case 1
    have "logical_cursor s div 80 < 25" using l(2) by (simp add: div_less_iff_less_mult)
    then have "logical_cursor s div 80 \<noteq> 24 \<Longrightarrow> (logical_cursor s div 80 + 1) * 80 < 2000" by simp
    then show ?thesis using putbyte_NL [OF l] l 1 by (auto intro!: con_ok_settle)
  next
    case 2
    then show ?thesis using putbyte_CR [OF l(2)] l by (auto intro!: con_ok_settle)
  next
    case 3
    then show ?thesis using putbyte_BS [OF l] l by (auto intro!: con_ok_settle)
  next
    case 4
    then show ?thesis using putbyte_char [OF l(1)] l by (auto intro!: con_ok_settle)
  next
    case 5
    then show ?thesis using putbyte_char_last [OF l(1)] l by (auto intro!: con_ok_settle)
  qed
qed

lemma put_each_ok: "con_ok s \<Longrightarrow> \<exists>s'. put_each cs s = Inr s' \<and> con_ok s'"
proof (induction cs arbitrary: s)
  case (Cons c cs)
  then show ?case using putbyte_ok [OF Cons.prems, of c] by auto
qed simp

text \<open>The screen cell by cell.\<close>

definition cell :: "console \<Rightarrow> nat \<Rightarrow> u8 \<times> u8" where
  "cell s i = (vmem s ! (2 * i), vmem s ! (2 * i + 1))"

lemma put_each_text:
  assumes "con_ok s" and "set cs \<inter> {NL, CR, BS} = {}" and "logical_cursor s + length cs < 2000"
  shows "\<exists>s'. put_each cs s = Inr s' \<and> con_ok s' \<and> term_color s' = term_color s \<and>
     logical_cursor s' = logical_cursor s + length cs \<and>
     (\<forall>i < 2000. cell s' i = (if logical_cursor s \<le> i \<and> i < logical_cursor s + length cs
                              then (cs ! (i - logical_cursor s), term_color s) else cell s i))"
  using assms
proof (induction cs arbitrary: s)
  case Nil
  then show ?case by auto
next
  case (Cons c cs)
  have l: "length (vmem s) = 4000" using Cons.prems(1) by (simp add: con_ok_def)
  define s1 where "s1 = settle (s\<lparr>vmem := (vmem s)[2 * logical_cursor s := c, 2 * logical_cursor s + 1 := term_color s],
            logical_cursor := logical_cursor s + 1\<rparr>)"
  have p: "putbyte c s = Inr s1" unfolding s1_def using Cons.prems by (intro putbyte_char [OF l]) auto
  have s1: "con_ok s1" "term_color s1 = term_color s" "logical_cursor s1 = logical_cursor s + 1"
    using Cons.prems l unfolding s1_def by (auto intro!: con_ok_settle)
  have c1: "cell s1 i = (if i = logical_cursor s then (c, term_color s) else cell s i)" if "i < 2000" for i
    using that l Cons.prems(3) unfolding s1_def cell_def by (auto simp: nth_list_update)
  from Cons.IH [OF s1(1)] Cons.prems(2,3) s1 obtain s' where s': "put_each cs s1 = Inr s'" "con_ok s'"
    "term_color s' = term_color s" "logical_cursor s' = logical_cursor s + 1 + length cs"
    "\<forall>i < 2000. cell s' i = (if logical_cursor s + 1 \<le> i \<and> i < logical_cursor s + 1 + length cs
                              then (cs ! (i - (logical_cursor s + 1)), term_color s) else cell s1 i)" by auto
  have "cell s' i = (if logical_cursor s \<le> i \<and> i < logical_cursor s + length (c # cs)
                     then ((c # cs) ! (i - logical_cursor s), term_color s) else cell s i)" if "i < 2000" for i
  proof (cases "i = logical_cursor s")
    case True
    with s'(5) c1 that show ?thesis by simp
  next
    case False
    then have "(c # cs) ! (i - logical_cursor s) = cs ! (i - (logical_cursor s + 1))" if "logical_cursor s \<le> i"
      using that by (simp add: nth_Cons')
    with False s'(5) c1 that show ?thesis by auto
  qed
  with p s' show ?case by auto
qed

section \<open>Properties\<close>

text \<open>C29: the console never writes outside video memory. From a state with the cursor on the screen,
  \<open>putbytes\<close> of any bytes, control characters included, returns with the cursor on the screen and
  the hardware cursor, unless hidden, where the logical one is.\<close>

theorem putbytes_safe:
  assumes "con_ok s" and "len \<le> int (length bytes)"
  shows "\<exists>s'. putbytes (Some bytes) len s = Inr s' \<and> con_ok s'"
  using put_each_ok [OF assms(1)] assms(2) by (simp add: putbytes_def)

definition con_example :: console where
  "con_example = \<lparr>vmem = replicate 4000 0, term_color = 7, logical_cursor = 1999, is_hidden = False,
                  crtc_lsb = 0xCF, crtc_msb = 7\<rparr>"

lemma con_example_ok: "con_ok con_example"
  by (simp add: con_ok_def con_example_def shown_cursor_def)

theorem putbytes_safe_witness:
  "\<exists>s'. putbytes (Some [65, 8, 10, 66]) 4 con_example = Inr s' \<and> con_ok s'"
  by (rule putbytes_safe) (simp_all add: con_example_ok)

text \<open>\<open>scrollup\<close>'s two byte loops drop the top line, move every other line up and blank the
  bottom line in the current colour, without touching anything else.\<close>

theorem scrollup_correct:
  assumes "length (vmem s) = 4000"
  shows "scrollup s = Inr (s\<lparr>vmem := drop 160 (vmem s) @ concat (replicate 80 [0x20, term_color s])\<rparr>)"
  using scrollup_eq [OF assms] by (simp add: blank_line_def console_consts)

theorem scrollup_correct_witness:
  "scrollup con_example = Inr (con_example\<lparr>vmem := drop 160 (vmem con_example) @
     concat (replicate 80 [0x20, term_color con_example])\<rparr>)"
  by (rule scrollup_correct) (simp add: con_example_def)

text \<open>Plain text appears where the cursor is. Printing characters other than newline, return
  and backspace that fit before the last cell puts them into consecutive cells in the current colour,
  leaves every other cell, and advances the cursor by their number.\<close>

theorem putbytes_text:
  assumes "con_ok s" and "set cs \<inter> {NL, CR, BS} = {}" and "logical_cursor s + length cs < 2000"
  shows "\<exists>s'. putbytes (Some cs) (int (length cs)) s = Inr s' \<and>
     logical_cursor s' = logical_cursor s + length cs \<and>
     (\<forall>i < 2000. cell s' i = (if logical_cursor s \<le> i \<and> i < logical_cursor s + length cs
                              then (cs ! (i - logical_cursor s), term_color s) else cell s i))"
  using put_each_text [OF assms] by (auto simp: putbytes_def)

theorem putbytes_text_witness:
  "\<exists>s'. putbytes (Some [72, 105]) (int (length [72 :: u8, 105])) (con_example\<lparr>logical_cursor := 0, is_hidden := True\<rparr>) = Inr s' \<and>
     logical_cursor s' = logical_cursor (con_example\<lparr>logical_cursor := 0, is_hidden := True\<rparr>) + length [72 :: u8, 105] \<and>
     (\<forall>i < 2000. cell s' i =
        (if logical_cursor (con_example\<lparr>logical_cursor := 0, is_hidden := True\<rparr>) \<le> i \<and>
            i < logical_cursor (con_example\<lparr>logical_cursor := 0, is_hidden := True\<rparr>) + length [72 :: u8, 105]
         then ([72, 105] ! (i - logical_cursor (con_example\<lparr>logical_cursor := 0, is_hidden := True\<rparr>)),
               term_color (con_example\<lparr>logical_cursor := 0, is_hidden := True\<rparr>))
         else cell (con_example\<lparr>logical_cursor := 0, is_hidden := True\<rparr>) i))"
  by (rule putbytes_text) (simp_all add: con_ok_def con_example_def NL_def CR_def BS_def)

end
