(* ===== verification/Keyboard.thy ===== *)
theory Keyboard
  imports Simple_Queue
begin

text \<open>
  The keyboard driver's scancode buffer (\<open>kern/keyboard_driver.c\<close>): a ring of 256 bytes with one
  slot wasted, filled by the interrupt handler and drained by \<open>readchar\<close>.

  \<open>process_scancode\<close> belongs to the support library: it is the parameter \<open>scan\<close>, a function of the
  library's hidden modifier state and the scancode that gives the next state and the result word.
  The buffer is shown to be a bounded queue.
\<close>

type_synonym kh_state = "u16 \<times> u16 \<times> u32"
type_synonym scanner = "kh_state \<Rightarrow> u8 \<Rightarrow> kh_state \<times> u32"

definition KEY_BUF_SIZE :: nat where "KEY_BUF_SIZE = 256"

definition KH_HASDATA :: "u32 \<Rightarrow> bool" where "KH_HASDATA k \<longleftrightarrow> drop_bit 16 k AND 0x04 \<noteq> 0"
definition KH_ISMAKE :: "u32 \<Rightarrow> bool" where "KH_ISMAKE k \<longleftrightarrow> drop_bit 16 k AND 0x01 \<noteq> 0"
definition KH_GETCHAR :: "u32 \<Rightarrow> u32" where "KH_GETCHAR k = k AND 0xFF"

record keyboard =
  keybuf :: "u8 list"
  front :: nat
  rear :: nat
  kh :: kh_state

definition init_keyboard_driver :: "keyboard \<Rightarrow> keyboard" where
  "init_keyboard_driver s = s\<lparr>front := 0, rear := 0\<rparr>"

text \<open>The first part of \<open>keyboard_interrupt_handler\<close>: store the scancode unless the ring is full.\<close>

definition store_scancode :: "u8 \<Rightarrow> keyboard \<Rightarrow> keyboard" where
  "store_scancode scancode s =
     (if (front s + 1) mod KEY_BUF_SIZE \<noteq> rear s
      then s\<lparr>keybuf := (keybuf s)[front s := scancode], front := (front s + 1) mod KEY_BUF_SIZE\<rparr>
      else s)"

text \<open>The loop of \<open>readchar\<close>, also in the interrupt handler: process scancodes until one gives a
  character or the ring is empty. It ends because every round moves \<open>rear\<close> towards \<open>front\<close>; a ring
  with a pointer out of range is not drained.\<close>

definition pending :: "keyboard \<Rightarrow> nat" where
  "pending s = (front s + KEY_BUF_SIZE - rear s) mod KEY_BUF_SIZE"

definition ring_ok :: "keyboard \<Rightarrow> bool" where
  "ring_ok s \<longleftrightarrow> length (keybuf s) = KEY_BUF_SIZE \<and> front s < KEY_BUF_SIZE \<and> rear s < KEY_BUF_SIZE"

lemma pending_eq:
  assumes "front s < 256" and "rear s < 256"
  shows "pending s = (if rear s \<le> front s then front s - rear s else front s + 256 - rear s)"
proof (cases "rear s \<le> front s")
  case True
  then have "front s + 256 - rear s = (front s - rear s) + 256" by simp
  with True assms show ?thesis unfolding pending_def KEY_BUF_SIZE_def by (simp only: mod_add_self2) simp
next
  case False
  with assms show ?thesis by (simp add: pending_def KEY_BUF_SIZE_def)
qed

lemma Suc_mod_256: "n < 256 \<Longrightarrow> Suc n mod 256 = (if n = 255 then 0 else Suc n)"
  by simp

lemma ring_bounds: "ring_ok s \<Longrightarrow> front s < 256 \<and> rear s < 256"
  by (simp add: ring_ok_def KEY_BUF_SIZE_def)

lemma pending_pop:
  assumes "ring_ok s" and "front s \<noteq> rear s"
  shows "pending s = Suc (pending (s\<lparr>rear := (rear s + 1) mod KEY_BUF_SIZE, kh := k\<rparr>))"
proof -
  note b = ring_bounds [OF assms(1)]
  let ?s = "s\<lparr>rear := (rear s + 1) mod KEY_BUF_SIZE, kh := k\<rparr>"
  have r: "rear ?s = (if rear s = 255 then 0 else Suc (rear s))" "front ?s = front s"
    using b by (simp_all add: KEY_BUF_SIZE_def Suc_mod_256)
  have p: "pending ?s = (if rear ?s \<le> front ?s then front ?s - rear ?s else front ?s + 256 - rear ?s)"
    using b r by (intro pending_eq) (auto split: if_splits)
  show ?thesis unfolding p r using b assms(2) by (simp add: pending_eq) arith
qed

lemma pending_decr:
  "ring_ok s \<Longrightarrow> front s \<noteq> rear s \<Longrightarrow> pending (s\<lparr>rear := Suc (rear s) mod KEY_BUF_SIZE, kh := k\<rparr>) < pending s"
  using pending_pop [of s k] by simp

function readchar :: "scanner \<Rightarrow> keyboard \<Rightarrow> (keyboard \<times> int) kres" where
  "readchar scan s =
     (if \<not> ring_ok s then Inl FAULT
      else if front s \<noteq> rear s then
        (let scancode = keybuf s ! rear s;
             (k, augchar) = scan (kh s) scancode;
             s = s\<lparr>rear := (rear s + 1) mod KEY_BUF_SIZE, kh := k\<rparr>
         in if KH_HASDATA augchar \<and> KH_ISMAKE augchar then Inr (s, uint (KH_GETCHAR augchar))
            else readchar scan s)
      else Inr (s, - 1))"
  by pat_completeness auto
termination
  by (relation "measure (\<lambda>(scan, s). pending s)") (auto intro: pending_decr)

declare readchar.simps [simp del]

section \<open>The ring is a bounded queue\<close>

definition scancodes :: "keyboard \<Rightarrow> u8 list" where
  "scancodes s = map (\<lambda>i. keybuf s ! ((rear s + i) mod KEY_BUF_SIZE)) [0 ..< pending s]"

lemma length_scancodes [simp]: "length (scancodes s) = pending s"
  by (simp add: scancodes_def)

lemma pending_less: "pending s < 256"
  by (simp add: pending_def KEY_BUF_SIZE_def)

lemma rear_pending: "ring_ok s \<Longrightarrow> (rear s + pending s) mod 256 = front s"
  by (simp add: pending_def ring_ok_def KEY_BUF_SIZE_def mod_add_right_eq)

lemma pending_full:
  assumes "ring_ok s"
  shows "(front s + 1) mod 256 = rear s \<longleftrightarrow> pending s = 255"
  using ring_bounds [OF assms] by (simp add: pending_eq Suc_mod_256) arith

lemma pending_push:
  assumes "ring_ok s" and "pending s \<noteq> 255"
  shows "pending (s\<lparr>keybuf := b, front := (front s + 1) mod 256\<rparr>) = Suc (pending s)"
proof -
  have "pending (s\<lparr>keybuf := b, front := (front s + 1) mod 256\<rparr>) = ((front s + 1) mod 256 + (256 - rear s)) mod 256"
    using assms(1) by (simp add: pending_def KEY_BUF_SIZE_def ring_ok_def)
  also have "\<dots> = (Suc (front s + (256 - rear s))) mod 256" by (simp add: mod_add_left_eq)
  also have "\<dots> = Suc (pending s) mod 256"
    using assms(1) by (simp add: pending_def KEY_BUF_SIZE_def ring_ok_def mod_Suc_eq)
  finally show ?thesis using assms(2) pending_less [of s] by simp
qed

lemma store_scancode_ok: "ring_ok s \<Longrightarrow> ring_ok (store_scancode c s)"
  by (simp add: ring_ok_def store_scancode_def KEY_BUF_SIZE_def)

lemma store_scancode_scancodes:
  assumes "ring_ok s"
  shows "scancodes (store_scancode c s) = (if pending s = 255 then scancodes s else q_enqueue (scancodes s) c)"
proof (cases "pending s = 255")
  case True
  then show ?thesis using pending_full [OF assms] by (simp add: store_scancode_def KEY_BUF_SIZE_def)
next
  case False
  let ?s = "s\<lparr>keybuf := (keybuf s)[front s := c], front := (front s + 1) mod 256\<rparr>"
  have st: "store_scancode c s = ?s"
    using False pending_full [OF assms] by (simp add: store_scancode_def KEY_BUF_SIZE_def)
  have p: "pending ?s = Suc (pending s)" using False by (rule pending_push [OF assms])
  have old: "(rear s + i) mod 256 \<noteq> front s" if "i < pending s" for i
  proof
    assume "(rear s + i) mod 256 = front s"
    then have "(rear s + i) mod 256 = (rear s + pending s) mod 256" using rear_pending [OF assms] by simp
    then have "256 dvd (rear s + pending s) - (rear s + i)"
      using that by (metis add_le_cancel_left less_imp_le mod_eq_dvd_iff_nat)
    then have "256 dvd pending s - i" by simp
    with that pending_less [of s] show False by (auto dest: dvd_imp_le)
  qed
  have len: "front s < length (keybuf s)" using assms by (simp add: ring_ok_def)
  have "scancodes ?s = map (\<lambda>i. keybuf ?s ! ((rear s + i) mod 256)) [0 ..< pending s] @ [keybuf ?s ! ((rear s + pending s) mod 256)]"
    unfolding scancodes_def p by (simp add: KEY_BUF_SIZE_def)
  also have "\<dots> = scancodes s @ [c]"
    using old [THEN not_sym] len rear_pending [OF assms] by (simp add: scancodes_def KEY_BUF_SIZE_def)
  finally show ?thesis using st False by simp
qed

lemma scancodes_pop:
  assumes "ring_ok s" and "front s \<noteq> rear s"
  shows "scancodes s = keybuf s ! rear s # scancodes (s\<lparr>rear := (rear s + 1) mod KEY_BUF_SIZE, kh := k\<rparr>)"
proof -
  have r: "rear s mod 256 = rear s" using assms(1) by (simp add: ring_ok_def KEY_BUF_SIZE_def)
  have e: "(Suc (rear s) mod 256 + i) mod 256 = (rear s + Suc i) mod 256" for i
    by (simp add: mod_add_left_eq)
  show ?thesis
    unfolding scancodes_def pending_pop [OF assms, of k]
    by (simp add: KEY_BUF_SIZE_def r e upt_conv_Cons map_Suc_upt [symmetric] del: upt_Suc)
qed

text \<open>What \<open>readchar\<close> does to a list of scancodes: the reference it is compared with.\<close>

primrec decode :: "scanner \<Rightarrow> kh_state \<Rightarrow> u8 list \<Rightarrow> kh_state \<times> u8 list \<times> int" where
  "decode scan k [] = (k, [], - 1)"
| "decode scan k (c # cs) =
     (case scan k c of (k', a) \<Rightarrow>
        if KH_HASDATA a \<and> KH_ISMAKE a then (k', cs, uint (KH_GETCHAR a)) else decode scan k' cs)"

lemma readchar_decode:
  assumes "ring_ok s"
  shows "\<exists>s'. readchar scan s = Inr (s', snd (snd (decode scan (kh s) (scancodes s)))) \<and> ring_ok s' \<and>
     kh s' = fst (decode scan (kh s) (scancodes s)) \<and>
     scancodes s' = fst (snd (decode scan (kh s) (scancodes s)))"
  using assms
proof (induction scan s rule: readchar.induct)
  case (1 scan s)
  show ?case
  proof (cases "front s = rear s")
    case True
    then have "pending s = 0" using 1(2) by (simp add: pending_def ring_ok_def KEY_BUF_SIZE_def)
    then have "scancodes s = []" by (simp add: scancodes_def)
    then show ?thesis using True 1(2) by (subst readchar.simps) (simp add: Let_def)
  next
    case False
    obtain k a where sc: "scan (kh s) (keybuf s ! rear s) = (k, a)" by fastforce
    let ?s = "s\<lparr>rear := (rear s + 1) mod KEY_BUF_SIZE, kh := k\<rparr>"
    have ok: "ring_ok ?s" using 1(2) by (simp add: ring_ok_def KEY_BUF_SIZE_def)
    have cs: "scancodes s = keybuf s ! rear s # scancodes ?s" by (rule scancodes_pop [OF 1(2) False])
    show ?thesis
    proof (cases "KH_HASDATA a \<and> KH_ISMAKE a")
      case True
      then show ?thesis using False 1(2) sc ok cs by (subst readchar.simps) (simp add: Let_def)
    next
      case no: False
      have "readchar scan s = readchar scan ?s"
        using False 1(2) sc no by (subst readchar.simps) (simp only: Let_def prod.case if_True if_False not_True_eq_False not_False_eq_True)
      moreover have "decode scan (kh s) (scancodes s) = decode scan (kh ?s) (scancodes ?s)"
        using sc no cs by auto
      moreover note 1(1) [OF _ False _ _ _ _ no ok, of "keybuf s ! rear s" "(k, a)" k]
      ultimately show ?thesis using 1(2) sc by simp
    qed
  qed
qed

section \<open>Properties\<close>

text \<open>The ring buffer refines a bounded queue. Storing a scancode appends it unless 255 are
  pending, in which case it is dropped; \<open>readchar\<close> returns, takes scancodes in arrival order up to
  the first one that decodes to a pressed key's character and leaves the later ones, or drains the
  buffer and returns -1.\<close>

theorem keyboard_ring_fifo:
  assumes "ring_ok s"
  shows "ring_ok (store_scancode c s) \<and>
     scancodes (store_scancode c s) = (if length (scancodes s) = 255 then scancodes s else scancodes s @ [c]) \<and>
     (\<exists>s'. readchar scan s = Inr (s', snd (snd (decode scan (kh s) (scancodes s)))) \<and> ring_ok s' \<and>
        kh s' = fst (decode scan (kh s) (scancodes s)) \<and>
        scancodes s' = fst (snd (decode scan (kh s) (scancodes s))))"
  using store_scancode_ok [OF assms] store_scancode_scancodes [OF assms] readchar_decode [OF assms]
  by simp

definition kbd_example :: keyboard where
  "kbd_example = \<lparr>keybuf = replicate 256 7, front = 2, rear = 255, kh = (0, 0, 0)\<rparr>"

theorem keyboard_ring_fifo_witness:
  "ring_ok (store_scancode 9 kbd_example) \<and>
   scancodes (store_scancode 9 kbd_example) =
     (if length (scancodes kbd_example) = 255 then scancodes kbd_example else scancodes kbd_example @ [9]) \<and>
   (\<exists>s'. readchar (\<lambda>k c. (k, ucast c)) kbd_example =
          Inr (s', snd (snd (decode (\<lambda>k c. (k, ucast c)) (kh kbd_example) (scancodes kbd_example)))) \<and>
        ring_ok s' \<and>
        kh s' = fst (decode (\<lambda>k c. (k, ucast c)) (kh kbd_example) (scancodes kbd_example)) \<and>
        scancodes s' = fst (snd (decode (\<lambda>k c. (k, ucast c)) (kh kbd_example) (scancodes kbd_example))))"
  by (rule keyboard_ring_fifo) (simp add: ring_ok_def kbd_example_def KEY_BUF_SIZE_def)

end
