(* ===== verification/Priority_Queue.thy ===== *)
theory Priority_Queue
  imports Kern_Prelude "HOL-Library.Multiset"
begin

text \<open>
  \<open>priority_queue.c\<close>: a list of nodes in the order of a comparison function. The chain from
  \<open>head.next\<close> is a list of the nodes' data; \<open>compare\<close> is the function the queue was initialised with.
\<close>

record 'a pri_queue =
  nodes :: "'a list"
  compare :: "'a \<Rightarrow> 'a \<Rightarrow> int"

definition pri_queue_init :: "('a \<Rightarrow> 'a \<Rightarrow> int) \<Rightarrow> 'a pri_queue \<times> int" where
  "pri_queue_init cmp = (\<lparr>nodes = [], compare = cmp\<rparr>, 0)"

text \<open>The loop over \<open>tmp->next\<close>, then the insertion behind \<open>tmp\<close>.\<close>

primrec enqueue_loop :: "('a \<Rightarrow> 'a \<Rightarrow> int) \<Rightarrow> 'a \<Rightarrow> 'a list \<Rightarrow> 'a list" where
  "enqueue_loop cmp x [] = [x]"
| "enqueue_loop cmp x (y # ys) = (if 0 < cmp x y then y # enqueue_loop cmp x ys else x # y # ys)"

definition pri_queue_enqueue :: "'a \<Rightarrow> 'a pri_queue \<Rightarrow> 'a pri_queue \<times> int" where
  "pri_queue_enqueue x q = (q\<lparr>nodes := enqueue_loop (compare q) x (nodes q)\<rparr>, 0)"

definition pri_queue_dequeue :: "'a pri_queue \<Rightarrow> 'a pri_queue \<times> 'a option" where
  "pri_queue_dequeue q = (case nodes q of [] \<Rightarrow> (q, None) | x # xs \<Rightarrow> (q\<lparr>nodes := xs\<rparr>, Some x))"

definition pri_queue_get_first :: "'a pri_queue \<Rightarrow> 'a option" where
  "pri_queue_get_first q = (case nodes q of [] \<Rightarrow> None | x # xs \<Rightarrow> Some x)"

definition pri_queue_destroy :: "'a pri_queue \<Rightarrow> int" where
  "pri_queue_destroy q = 0"

section \<open>Comparison functions\<close>

text \<open>What the queue relies on: the function decides a total preorder, given by a key.\<close>

locale comparator =
  fixes cmp :: "'a \<Rightarrow> 'a \<Rightarrow> int" and key :: "'a \<Rightarrow> 'k :: linorder"
  assumes cmp_pos: "0 < cmp x y \<longleftrightarrow> key y < key x"
begin

lemma enqueue_mset: "mset (enqueue_loop cmp x xs) = add_mset x (mset xs)"
  by (induction xs) simp_all

lemma enqueue_sorted: "sorted (map key xs) \<Longrightarrow> sorted (map key (enqueue_loop cmp x xs))"
proof (induction xs)
  case (Cons y ys)
  have "set (enqueue_loop cmp x ys) = insert x (set ys)"
    using enqueue_mset [of x ys] by (metis set_mset_add_mset_insert set_mset_mset)
  with Cons show ?case by (auto simp: cmp_pos)
qed simp

text \<open>The order among equal keys: the newest first; other nodes keep their order.\<close>

lemma enqueue_split:
  assumes "sorted (map key xs)"
  shows "enqueue_loop cmp x xs = filter (\<lambda>y. key y < key x) xs @ x # filter (\<lambda>y. \<not> key y < key x) xs"
  using assms
proof (induction xs)
  case (Cons y ys)
  show ?case
  proof (cases "key y < key x")
    case True
    then show ?thesis using Cons by (simp add: cmp_pos)
  next
    case False
    then have "filter (\<lambda>y. key y < key x) ys = []" "filter (\<lambda>y. \<not> key y < key x) ys = ys"
      using Cons.prems by (auto simp: filter_empty_conv filter_id_conv)
    then show ?thesis using False by (simp add: cmp_pos)
  qed
qed simp

end

end
