(* ===== verification/Kernel_State.thy ===== *)
theory Kernel_State
  imports Hashtable Console Keyboard VM Priority_Queue
begin

text \<open>
  The shared state of the kernel: thread and process control blocks, messages, the queues of every
  core, and the manager core's tables. A C object is an entry of a store (a partial map from its
  address); reading through a pointer without an object is \<open>FAULT\<close>. Queue nodes are represented by
  what they carry (the queues are the lists of \<open>Simple_Queue\<close>), because the nodes live on the stacks
  of the threads and in the messages that are queued.

  The code between \<open>spinlock_lock\<close> and \<open>spinlock_unlock\<close> runs alone (theory \<open>Spinlock\<close>), the code
  between \<open>mutex_lock\<close> and \<open>mutex_unlock\<close> too (theory \<open>Mutex\<close>): such a section is one state change.
\<close>

section \<open>Control blocks and messages\<close>

record swexn_t =
  sw_esp3 :: u32
  sw_eip :: u32
  sw_arg :: u32

record pcb_t =
  pid :: int
  page_table_base :: u32
  ppid :: int
  status :: int
  cur_thr_num :: int
  task_pt_locks :: "mutex_t list"

record tcb_t =
  k_stack_esp :: u32
  tid :: int
  pcb :: u32
  result :: int
  state :: thread_state_t
  swexn_struct :: u32
  my_msg :: u32
  ori_cpu :: int

datatype msg_type_t =
    FORK | THREAD_FORK | VANISH | WAIT | YIELD | MAKE_RUNNABLE | READLINE | PRINT | SET_TERM_COLOR
  | SET_CURSOR_POS | GET_CURSOR_POS | SET_INIT_PCB | RESPONSE | FORK_RESPONSE | WAIT_RESPONSE
  | VANISH_BACK | HALT | NONE

text \<open>The union \<open>data\<close> is its four words, so that a member written through one structure is read
  through another as in memory. A word that holds an \<open>int\<close> is its value, a word that holds a pointer
  is the pointer's address.\<close>

record msg_t =
  req_thr :: u32
  req_cpu :: int
  mtype :: msg_type_t
  d0 :: int
  d1 :: int
  d2 :: int
  d3 :: int

abbreviation fork_data :: "u32 \<Rightarrow> int \<Rightarrow> int \<Rightarrow> int \<Rightarrow> msg_t \<Rightarrow> msg_t" where
  "fork_data new_thr retry_times new_tid parent m \<equiv> m\<lparr>d0 := uint new_thr, d1 := retry_times, d2 := new_tid, d3 := parent\<rparr>"

abbreviation fork_new_thr :: "msg_t \<Rightarrow> u32" where "fork_new_thr m \<equiv> word_of_int (d0 m)"
abbreviation fork_retry_times :: "msg_t \<Rightarrow> int" where "fork_retry_times m \<equiv> d1 m"
abbreviation fork_new_tid :: "msg_t \<Rightarrow> int" where "fork_new_tid m \<equiv> d2 m"
abbreviation fork_ppid :: "msg_t \<Rightarrow> int" where "fork_ppid m \<equiv> d3 m"
abbreviation fork_req_msg :: "msg_t \<Rightarrow> u32" where "fork_req_msg m \<equiv> word_of_int (d0 m)"
abbreviation fork_result :: "msg_t \<Rightarrow> int" where "fork_result m \<equiv> d1 m"
abbreviation wait_pid :: "msg_t \<Rightarrow> int" where "wait_pid m \<equiv> d0 m"
abbreviation wait_response_status :: "msg_t \<Rightarrow> int" where "wait_response_status m \<equiv> d0 m"
abbreviation wait_response_pid :: "msg_t \<Rightarrow> int" where "wait_response_pid m \<equiv> d1 m"
abbreviation vanish_pid :: "msg_t \<Rightarrow> int" where "vanish_pid m \<equiv> d0 m"
abbreviation vanish_ppid :: "msg_t \<Rightarrow> int" where "vanish_ppid m \<equiv> d1 m"
abbreviation vanish_status :: "msg_t \<Rightarrow> int" where "vanish_status m \<equiv> d2 m"
abbreviation response_result :: "msg_t \<Rightarrow> int" where "response_result m \<equiv> d0 m"
abbreviation search_tid :: "msg_t \<Rightarrow> int" where "search_tid m \<equiv> d0 m"
abbreviation search_next_core :: "msg_t \<Rightarrow> int" where "search_next_core m \<equiv> d1 m"
abbreviation search_result :: "msg_t \<Rightarrow> int" where "search_result m \<equiv> d2 m"
abbreviation vanish_back_cpu :: "msg_t \<Rightarrow> int" where "vanish_back_cpu m \<equiv> d0 m"
abbreviation io_len :: "msg_t \<Rightarrow> int" where "io_len m \<equiv> d0 m"
abbreviation io_buf :: "msg_t \<Rightarrow> u32" where "io_buf m \<equiv> word_of_int (d1 m)"
abbreviation set_init_pid :: "msg_t \<Rightarrow> int" where "set_init_pid m \<equiv> d0 m"

section \<open>The manager core's tables\<close>

record exit_status_t =
  es_pid :: int
  es_status :: int

record pcb_vanish_wait_t =
  child_exit_status_list :: "u32 list"   \<comment> \<open>exit status nodes\<close>
  exit_status :: u32
  exit_status_node :: u32
  num_alive :: int
  num_zombie :: int
  wait_queue :: "u32 list"               \<comment> \<open>messages of waiting threads\<close>

record lifecycle =
  tasks :: "u32 \<rightharpoonup> pcb_vanish_wait_t"
  exit_statuses :: "u32 \<rightharpoonup> exit_status_t"
  es_nodes :: "u32 \<rightharpoonup> u32"               \<comment> \<open>field \<open>thr\<close> of an exit status node\<close>
  ht_pid_pcb :: hashtable_t
  mgr_init_task :: u32
  fork_next_core :: int

record readline =
  read_waiting_thr :: u32
  reading_count :: int
  reading_length :: int
  reading_buf :: u32
  readline_queue :: "u32 list"           \<comment> \<open>messages\<close>

section \<open>The kernel\<close>

record kst =
  tcbs :: "u32 \<rightharpoonup> tcb_t"
  pcbs :: "u32 \<rightharpoonup> pcb_t"
  msgs :: "u32 \<rightharpoonup> msg_t"
  swexns :: "u32 \<rightharpoonup> swexn_t"
  heap :: "u32 list"                     \<comment> \<open>what the next calls of \<open>malloc\<close> return\<close>
  kstacks :: "u32 list"                  \<comment> \<open>what the next calls of \<open>smemalign(K_STACK_SIZE, K_STACK_SIZE)\<close> return\<close>
  freed :: "u32 list"                    \<comment> \<open>blocks given back\<close>
  kmem :: "u32 \<Rightarrow> u8"                    \<comment> \<open>the bytes of the kernel stacks\<close>
  id_count :: int
  queues :: "nat \<Rightarrow> u32 list"            \<comment> \<open>the scheduler's queue of each core\<close>
  cur_running_thr :: "nat \<Rightarrow> u32"
  idle_thr :: "nat \<Rightarrow> u32"
  msg_queues :: "nat \<Rightarrow> u32 list"        \<comment> \<open>even: from a worker, odd: to a worker\<close>
  num_worker_cores :: nat
  zombie_lists :: "nat \<Rightarrow> u32 list"
  zombie_list_locks :: "nat \<Rightarrow> mutex_t"
  malloc_lib_locks :: "nat \<Rightarrow> mutex_t"
  sleep_queue :: "nat \<Rightarrow> (u32 \<times> u32) pri_queue"  \<comment> \<open>time to wake up, thread\<close>
  deschedule_queues :: "nat \<Rightarrow> u32 list"
  num_ticks :: "nat \<Rightarrow> u32"
  init_task :: u32
  kvm :: vm
  life :: lifecycle
  con :: console
  kbd :: keyboard
  rdl :: readline
  esp0 :: "nat \<Rightarrow> u32"

text \<open>Access through pointers.\<close>

definition get_tcb :: "u32 \<Rightarrow> kst \<Rightarrow> tcb_t kres" where
  "get_tcb p s = kderef (tcbs s) p"

definition mod_tcb :: "u32 \<Rightarrow> (tcb_t \<Rightarrow> tcb_t) \<Rightarrow> kst \<Rightarrow> kst kres" where
  "mod_tcb p f s = kbind (get_tcb p s) (\<lambda>t. Inr (s\<lparr>tcbs := (tcbs s)(p \<mapsto> f t)\<rparr>))"

definition get_pcb :: "u32 \<Rightarrow> kst \<Rightarrow> pcb_t kres" where
  "get_pcb p s = kderef (pcbs s) p"

definition mod_pcb :: "u32 \<Rightarrow> (pcb_t \<Rightarrow> pcb_t) \<Rightarrow> kst \<Rightarrow> kst kres" where
  "mod_pcb p f s = kbind (get_pcb p s) (\<lambda>t. Inr (s\<lparr>pcbs := (pcbs s)(p \<mapsto> f t)\<rparr>))"

definition get_msg :: "u32 \<Rightarrow> kst \<Rightarrow> msg_t kres" where
  "get_msg p s = kderef (msgs s) p"

definition mod_msg :: "u32 \<Rightarrow> (msg_t \<Rightarrow> msg_t) \<Rightarrow> kst \<Rightarrow> kst kres" where
  "mod_msg p f s = kbind (get_msg p s) (\<lambda>t. Inr (s\<lparr>msgs := (msgs s)(p \<mapsto> f t)\<rparr>))"

lemmas store_defs [kdefs] = get_tcb_def mod_tcb_def get_pcb_def mod_pcb_def get_msg_def mod_msg_def kderef_def

lemma store_simps [simp]:
  "tcbs s p = Some t \<Longrightarrow> get_tcb p s = Inr t"
  "tcbs s p = Some t \<Longrightarrow> mod_tcb p f s = Inr (s\<lparr>tcbs := (tcbs s)(p \<mapsto> f t)\<rparr>)"
  "pcbs s p = Some c \<Longrightarrow> get_pcb p s = Inr c"
  "pcbs s p = Some c \<Longrightarrow> mod_pcb p g s = Inr (s\<lparr>pcbs := (pcbs s)(p \<mapsto> g c)\<rparr>)"
  "msgs s p = Some m \<Longrightarrow> get_msg p s = Inr m"
  "msgs s p = Some m \<Longrightarrow> mod_msg p h s = Inr (s\<lparr>msgs := (msgs s)(p \<mapsto> h m)\<rparr>)"
  by (simp_all add: kdefs)

text \<open>The \<open>malloc\<close> library, and the release of a \<open>swexn_t\<close>; \<open>free(NULL)\<close> does nothing, a second release of
  the same block is a wild access.\<close>

definition kmalloc :: "kst \<Rightarrow> kst \<times> u32" where
  "kmalloc s = (case heap s of [] \<Rightarrow> (s, NULL) | a # r \<Rightarrow> (s\<lparr>heap := r\<rparr>, a))"

definition smemalign_stack :: "kst \<Rightarrow> kst \<times> u32" where
  "smemalign_stack s = (case kstacks s of [] \<Rightarrow> (s, NULL) | a # r \<Rightarrow> (s\<lparr>kstacks := r\<rparr>, a))"

definition kfree :: "u32 \<Rightarrow> kst \<Rightarrow> kst" where
  "kfree p s = s\<lparr>freed := freed s @ [p]\<rparr>"

definition free_swexn :: "u32 \<Rightarrow> kst \<Rightarrow> kst kres" where
  "free_swexn p s =
     (if p = NULL then Inr s
      else if swexns s p = None then Inl FAULT
      else Inr (kfree p (s\<lparr>swexns := (swexns s)(p := None)\<rparr>)))"

text \<open>\<open>set_cr3\<close>.\<close>

definition kset_cr3 :: "u32 \<Rightarrow> kst \<Rightarrow> kst" where
  "kset_cr3 b s = s\<lparr>kvm := (kvm s)\<lparr>cr3 := b\<rparr>\<rparr>"

text \<open>Words of the kernel stacks, little endian, and \<open>memcpy\<close> between them.\<close>

definition rd32 :: "u32 \<Rightarrow> (u32 \<Rightarrow> u8) \<Rightarrow> u32" where
  "rd32 a m = ucast (m a) OR push_bit 8 (ucast (m (a + 1))) OR push_bit 16 (ucast (m (a + 2))) OR
     push_bit 24 (ucast (m (a + 3)))"

definition wr32 :: "u32 \<Rightarrow> u32 \<Rightarrow> (u32 \<Rightarrow> u8) \<Rightarrow> u32 \<Rightarrow> u8" where
  "wr32 a v m = m(a := ucast v, a + 1 := ucast (drop_bit 8 v), a + 2 := ucast (drop_bit 16 v),
     a + 3 := ucast (drop_bit 24 v))"

definition kmemcpy :: "u32 \<Rightarrow> u32 \<Rightarrow> nat \<Rightarrow> (u32 \<Rightarrow> u8) \<Rightarrow> u32 \<Rightarrow> u8" where
  "kmemcpy dst src len m = (\<lambda>a. if unat (a - dst) < len then m (src + (a - dst)) else m a)"

lemma rd32_wr32 [simp]: "rd32 a (wr32 a v m) = v"
proof -
  have ne: "a + 1 \<noteq> a" "a + 2 \<noteq> a" "a + 3 \<noteq> a" "a + 2 \<noteq> a + 1" "a + 3 \<noteq> a + 1" "a + 3 \<noteq> a + 2" by simp_all
  have "rd32 a (wr32 a v m) = ucast (ucast v :: u8) OR push_bit 8 (ucast (ucast (drop_bit 8 v) :: u8)) OR
      push_bit 16 (ucast (ucast (drop_bit 16 v) :: u8)) OR push_bit 24 (ucast (ucast (drop_bit 24 v) :: u8))"
    unfolding rd32_def wr32_def using ne by (simp del: add_left_cancel)
  also have "\<dots> = v"
  proof (rule bit_word_eqI)
    fix n :: nat assume "n < LENGTH(32)"
    then have "n < 8 \<or> 8 \<le> n \<and> n < 16 \<or> 16 \<le> n \<and> n < 24 \<or> 24 \<le> n \<and> n < 32" by auto
    then show "bit (ucast (ucast v :: u8) OR push_bit 8 (ucast (ucast (drop_bit 8 v) :: u8)) OR
      push_bit 16 (ucast (ucast (drop_bit 16 v) :: u8)) OR push_bit 24 (ucast (ucast (drop_bit 24 v) :: u8)) :: u32) n = bit v n"
      by (auto simp: bit_or_iff bit_push_bit_iff bit_ucast_iff bit_drop_bit_eq)
  qed
  finally show ?thesis .
qed

lemma wr32_other: "4 \<le> unat (b - a) \<Longrightarrow> wr32 a v m b = m b"
proof -
  assume h: "4 \<le> unat (b - a)"
  have "b \<noteq> a + word_of_nat k" if "k < 4" for k
  proof
    assume "b = a + word_of_nat k"
    then have "unat (b - a) = k" using that by (simp add: unat_word_of_nat32)
    with h that show False by simp
  qed
  from this [of 0] this [of 1] this [of 2] this [of 3] show ?thesis by (simp add: wr32_def)
qed

end
