(* ===== verification/Control_Block.thy ===== *)
theory Control_Block
  imports Kernel_State
begin

text \<open>
  \<open>control_block.c\<close>: thread and process control blocks. A thread's control block is the top of its
  8 KB kernel stack, so its address is computed from any address of the stack.
\<close>

section \<open>Addresses\<close>

definition K_STACK_BITS :: nat where "K_STACK_BITS = 13"
definition K_STACK_SIZE :: u32 where "K_STACK_SIZE = 8192"
definition SIZEOF_TCB :: u32 where "SIZEOF_TCB = 32"
definition STACK_OVERFLOW_LIMIT :: int where "STACK_OVERFLOW_LIMIT = 0x1C00"
definition NUM_PT_LOCKS_PER_PD :: nat where "NUM_PT_LOCKS_PER_PD = 64"

definition GET_K_STACK_INDEX :: "u32 \<Rightarrow> u32" where
  "GET_K_STACK_INDEX x = drop_bit K_STACK_BITS x"

definition tcb_get_high_addr :: "u32 \<Rightarrow> u32" where
  "tcb_get_high_addr addr = (GET_K_STACK_INDEX addr + 1) * K_STACK_SIZE - SIZEOF_TCB"

definition tcb_get_low_addr :: "u32 \<Rightarrow> u32" where
  "tcb_get_low_addr addr = GET_K_STACK_INDEX addr * K_STACK_SIZE"

definition tcb_get_entry :: "u32 \<Rightarrow> u32" where
  "tcb_get_entry addr = tcb_get_high_addr addr"

text \<open>The difference of two pointers is an \<open>int\<close>.\<close>

definition tcb_is_stack_overflow :: "u32 \<Rightarrow> bool" where
  "tcb_is_stack_overflow esp = (STACK_OVERFLOW_LIMIT < sint (tcb_get_high_addr esp - esp))"

section \<open>The page-table locks of a task\<close>

text \<open>The loop that initialises them; the result is the index at which \<open>mutex_init\<close> failed.\<close>

primrec init_pt_locks :: "nat list \<Rightarrow> mutex_t list \<Rightarrow> mutex_t list \<times> nat option" where
  "init_pt_locks [] L = (L, None)"
| "init_pt_locks (i # is) L =
     (case mutex_init (L ! i) of (m, rv) \<Rightarrow>
        if rv < 0 then (L, Some i) else init_pt_locks is (L[i := m]))"

primrec destroy_pt_locks :: "nat list \<Rightarrow> mutex_t list \<Rightarrow> mutex_t list kres" where
  "destroy_pt_locks [] L = Inr L"
| "destroy_pt_locks (i # is) L = kbind (mutex_destroy (L ! i)) (\<lambda>m. destroy_pt_locks is (L[i := m]))"

text \<open>Memory fresh from \<open>malloc\<close>, before it is written.\<close>

definition raw_locks :: "mutex_t list" where
  "raw_locks = replicate NUM_PT_LOCKS_PER_PD \<lparr>lock_holder = 0, deque = []\<rparr>"

definition raw_msg :: msg_t where
  "raw_msg = \<lparr>req_thr = NULL, req_cpu = 0, mtype = NONE, d0 = 0, d1 = 0, d2 = 0, d3 = 0\<rparr>"

section \<open>Operations\<close>

definition tcb_create_process_only :: "u32 \<Rightarrow> u32 \<Rightarrow> u32 \<Rightarrow> kst \<Rightarrow> (kst \<times> u32) kres" where
  "tcb_create_process_only thread pthr new_page_table_base s =
     (case kmalloc s of (s, process) \<Rightarrow>
        if process = NULL then Inr (s, NULL)
        else
          kbind (get_tcb thread s) (\<lambda>t.
          kbind (if pthr \<noteq> NULL
                 then kbind (get_tcb pthr s) (\<lambda>p. kbind (get_pcb (pcb p) s) (\<lambda>c. Inr (pid c)))
                 else Inr (- 1)) (\<lambda>pp.
          case init_pt_locks [0 ..< NUM_PT_LOCKS_PER_PD] raw_locks of
            (L, Some i) \<Rightarrow> kbind (destroy_pt_locks [0 ..< i - 1] L) (\<lambda>_. Inr (kfree process s, NULL))
          | (L, None) \<Rightarrow>
              let s = s\<lparr>pcbs := (pcbs s)(process \<mapsto> \<lparr>pid = tid t, page_table_base = new_page_table_base, ppid = pp,
                          status = 0, cur_thr_num = 1, task_pt_locks = L\<rparr>)\<rparr>
              in kbind (mod_tcb thread (\<lambda>t. t\<lparr>pcb := process\<rparr>) s) (\<lambda>s. Inr (s, process)))))"

text \<open>\<open>cur_cpu\<close>: what \<open>smp_get_cpu\<close> returns. The field \<open>result\<close> is not initialised: it is what the
  stack memory holds at its offset.\<close>

definition tcb_create_thread_only :: "nat \<Rightarrow> u32 \<Rightarrow> thread_state_t \<Rightarrow> kst \<Rightarrow> kst \<times> u32" where
  "tcb_create_thread_only cur_cpu process st s =
     (case smemalign_stack s of (s, k_esp) \<Rightarrow>
        if k_esp = NULL then (s, NULL)
        else
          let thread = tcb_get_entry k_esp in
          case kmalloc s of (s, m) \<Rightarrow>
            if m = NULL then (kfree k_esp s, NULL)
            else
              let n = id_count s + 1;
                  t = \<lparr>k_stack_esp = tcb_get_high_addr k_esp, tid = n, pcb = process,
                       result = sint (rd32 (thread + 12) (kmem s)), state = st, swexn_struct = NULL, my_msg = m,
                       ori_cpu = int cur_cpu\<rparr>
              in (s\<lparr>msgs := (msgs s)(m \<mapsto> raw_msg), id_count := n, tcbs := (tcbs s)(thread \<mapsto> t)\<rparr>, thread))"

definition tcb_create_idle_process :: "nat \<Rightarrow> thread_state_t \<Rightarrow> u32 \<Rightarrow> kst \<Rightarrow> (kst \<times> u32) kres" where
  "tcb_create_idle_process cur_cpu st new_page_table_base s =
     (case tcb_create_thread_only cur_cpu NULL st s of (s, thread) \<Rightarrow>
        if thread = NULL then Inr (s, NULL)
        else case kmalloc s of (s, process) \<Rightarrow>
          if process = NULL then Inr (s, NULL)
          else
            kbind (get_tcb thread s) (\<lambda>t.
            case init_pt_locks [0 ..< NUM_PT_LOCKS_PER_PD] raw_locks of
              (L, Some i) \<Rightarrow> Inr (s, NULL)
            | (L, None) \<Rightarrow>
                let s = s\<lparr>pcbs := (pcbs s)(process \<mapsto> \<lparr>pid = tid t, page_table_base = new_page_table_base, ppid = 0,
                            status = 0, cur_thr_num = 1, task_pt_locks = L\<rparr>)\<rparr>
                in kbind (mod_tcb thread (\<lambda>t. t\<lparr>pcb := process\<rparr>) s) (\<lambda>s. Inr (s, thread))))"

text \<open>The control block goes with the stack; the thread's message is not released.\<close>

definition tcb_free_thread :: "u32 \<Rightarrow> kst \<Rightarrow> kst kres" where
  "tcb_free_thread th s =
     kbind (get_tcb th s) (\<lambda>t.
     kbind (if swexn_struct t \<noteq> NULL
            then kbind (free_swexn (swexn_struct t) s) (mod_tcb th (\<lambda>t. t\<lparr>swexn_struct := NULL\<rparr>))
            else Inr s) (\<lambda>s.
     let stack_low = tcb_get_low_addr (k_stack_esp t) in
     if tcb_get_entry (k_stack_esp t) = NULL then Inl PANIC
     else Inr (kfree stack_low (s\<lparr>tcbs := (tcbs s)(tcb_get_entry (k_stack_esp t) := None)\<rparr>))))"

text \<open>The version that is called with the allocator's lock already held: the same steps.\<close>

definition tcb_vanish_thread :: "u32 \<Rightarrow> kst \<Rightarrow> kst kres" where
  "tcb_vanish_thread th s =
     kbind (get_tcb th s) (\<lambda>t.
     kbind (if swexn_struct t \<noteq> NULL
            then kbind (free_swexn (swexn_struct t) s) (mod_tcb th (\<lambda>t. t\<lparr>swexn_struct := NULL\<rparr>))
            else Inr s) (\<lambda>s.
     let stack_low = tcb_get_low_addr (k_stack_esp t) in
     if tcb_get_entry (k_stack_esp t) = NULL then Inl PANIC
     else Inr (kfree stack_low (s\<lparr>tcbs := (tcbs s)(tcb_get_entry (k_stack_esp t) := None)\<rparr>))))"

definition tcb_free_process :: "u32 \<Rightarrow> kst \<Rightarrow> kst kres" where
  "tcb_free_process process s =
     kbind (get_pcb process s) (\<lambda>c.
     kbind (destroy_pt_locks [0 ..< NUM_PT_LOCKS_PER_PD] (task_pt_locks c)) (\<lambda>_.
     Inr (kfree process (s\<lparr>pcbs := (pcbs s)(process := None)\<rparr>))))"

section \<open>The address of a control block\<close>

lemma low_addr_unat: "unat (tcb_get_low_addr a) = unat a div 8192 * 8192"
proof -
  have "unat (drop_bit 13 a) = unat a div 8192" by (simp add: drop_bit_eq_div unat_div)
  moreover have "unat a div 8192 * 8192 < 2 ^ 32" using u32_bound [of a] by simp
  ultimately show ?thesis
    by (simp add: tcb_get_low_addr_def GET_K_STACK_INDEX_def K_STACK_BITS_def K_STACK_SIZE_def unat_word_ariths(2))
qed

lemma high_low_addr: "tcb_get_high_addr a = tcb_get_low_addr a + 8160"
  by (simp add: tcb_get_high_addr_def tcb_get_low_addr_def K_STACK_SIZE_def SIZEOF_TCB_def algebra_simps)

lemma high_addr_unat: "unat (tcb_get_high_addr a) = unat a div 8192 * 8192 + 8160"
proof -
  have "unat a div 8192 < 524288" using u32_bound [of a] by simp
  then have "unat a div 8192 * 8192 + 8160 < 2 ^ 32" by simp
  then show ?thesis using low_addr_unat [of a] by (simp add: high_low_addr unat_word_ariths(1))
qed

lemma stack_addr_div:
  assumes "unat (base :: u32) mod 8192 = 0" and "i < 8192"
  shows "unat (base + word_of_nat i) = unat base + i \<and> (unat base + i) div 8192 * 8192 = unat base"
proof -
  obtain q where q: "unat base = 8192 * q" using assms(1) by auto
  have "q < 524288" using u32_bound [of base] q by linarith
  then have "unat base + i < 2 ^ 32" using assms(2) q by simp
  moreover have "(unat base + i) div 8192 * 8192 = unat base" using assms(2) q by simp
  ultimately show ?thesis using unat_word_of_nat32 [of i] by (simp add: unat_word_ariths(1))
qed

lemma stack_entry:
  assumes "unat base mod 8192 = 0" and "i < 8192"
  shows "tcb_get_entry (base + word_of_nat i) = base + 8160 \<and> tcb_get_low_addr (base + word_of_nat i) = base \<and>
     (tcb_is_stack_overflow (base + word_of_nat i) \<longleftrightarrow> i < 992)"
proof -
  note d = stack_addr_div [OF assms]
  have lo: "tcb_get_low_addr (base + word_of_nat i) = base" using low_addr_unat d by (simp add: word_unat_eq_iff)
  then have hi: "tcb_get_high_addr (base + word_of_nat i) = base + 8160" by (simp add: high_low_addr)
  have e: "tcb_get_high_addr (base + word_of_nat i) - (base + word_of_nat i) = word_of_int (8160 - int i)"
    by (simp add: hi)
  have "sint (word_of_int (8160 - int i) :: u32) = 8160 - int i"
    unfolding signed_of_int using assms(2) by (simp add: signed_take_bit_int_eq_self)
  then have "tcb_is_stack_overflow (base + word_of_nat i) \<longleftrightarrow> i < 992"
    unfolding tcb_is_stack_overflow_def e STACK_OVERFLOW_LIMIT_def by linarith
  with lo hi show ?thesis by (simp add: tcb_get_entry_def)
qed

text \<open>The control block of a thread is found from any address of its stack. For an 8 KB aligned
  stack, every address inside gives the same \<open>tcb\<close> address, 32 bytes below the end, and the same low end;
  the overflow check fires exactly when less than 992 bytes are left.\<close>

theorem tcb_get_entry_stack:
  assumes "unat base mod 8192 = 0" and "i < 8192"
  shows "tcb_get_entry (base + word_of_nat i) = base + 8160 \<and> tcb_get_low_addr (base + word_of_nat i) = base \<and>
     (tcb_is_stack_overflow (base + word_of_nat i) \<longleftrightarrow> i < 992)"
  using assms by (rule stack_entry)

theorem tcb_get_entry_stack_witness:
  "tcb_get_entry (0x200000 + word_of_nat 500) = 0x200000 + 8160 \<and>
   tcb_get_low_addr (0x200000 + word_of_nat 500) = 0x200000 \<and>
   (tcb_is_stack_overflow (0x200000 + word_of_nat 500) \<longleftrightarrow> 500 < (992 :: nat))"
  by (rule tcb_get_entry_stack) simp_all

section \<open>Threads\<close>

lemma init_pt_locks_ok:
  "distinct is \<Longrightarrow> set is \<subseteq> {0 ..< length L} \<Longrightarrow>
     init_pt_locks is L = (map (\<lambda>j. if j \<in> set is then free_mutex else L ! j) [0 ..< length L], None)"
proof (induction "is" arbitrary: L)
  case Nil
  then show ?case by (simp add: map_nth)
next
  case (Cons i "is")
  have "mutex_init (L ! i) = (free_mutex, 0)" by (simp add: mutex_init_def free_mutex_def)
  moreover have "init_pt_locks is (L[i := free_mutex]) =
      (map (\<lambda>j. if j \<in> set is then free_mutex else L[i := free_mutex] ! j) [0 ..< length L], None)"
    using Cons.IH [of "L[i := free_mutex]"] Cons.prems by simp
  ultimately show ?case using Cons.prems by (auto simp: nth_list_update)
qed

lemma pt_locks_ready: "init_pt_locks [0 ..< NUM_PT_LOCKS_PER_PD] raw_locks = (replicate NUM_PT_LOCKS_PER_PD free_mutex, None)"
  by (subst init_pt_locks_ok) (auto simp: raw_locks_def NUM_PT_LOCKS_PER_PD_def intro: nth_equalityI)

lemma destroy_pt_locks_free:
  "distinct is \<Longrightarrow> (\<forall>i \<in> set is. L ! i = free_mutex) \<Longrightarrow> \<exists>L'. destroy_pt_locks is L = Inr L'"
proof (induction "is" arbitrary: L)
  case (Cons i "is")
  have d: "mutex_destroy (L ! i) = Inr ((L ! i)\<lparr>lock_holder := - 2\<rparr>)"
    using Cons.prems by (simp add: mutex_destroy_def free_mutex_def)
  have "\<forall>j \<in> set is. L[i := (L ! i)\<lparr>lock_holder := - 2\<rparr>] ! j = free_mutex"
  proof
    fix j assume j: "j \<in> set is"
    then have "j \<noteq> i" using Cons.prems(1) by auto
    then show "L[i := (L ! i)\<lparr>lock_holder := - 2\<rparr>] ! j = free_mutex" using Cons.prems(2) j by simp
  qed
  then show ?case using Cons.IH Cons.prems d by auto
qed simp

text \<open>Thread creation. With memory for the stack and the message, the new control block sits at the
  top of the stack with the next thread id, in the given state and task, with no exception handler, its
  own message, and the stack pointer at the control block; without memory nothing but the stack block
  changes hands and \<open>NULL\<close> is returned.\<close>

theorem tcb_create_thread_only_correct:
  assumes "kstacks s = k # ks" and "k \<noteq> NULL" and "unat k mod 8192 = 0" and "heap s = m # hs"
  shows "\<exists>s'. tcb_create_thread_only c p st s = (s', if m = NULL then NULL else k + 8160) \<and>
     (if m = NULL then tcbs s' = tcbs s \<and> id_count s' = id_count s \<and> freed s' = freed s @ [k]
      else (\<exists>t. tcbs s' = (tcbs s)(k + 8160 \<mapsto> t) \<and> tid t = id_count s + 1 \<and> pcb t = p \<and> state t = st \<and>
            swexn_struct t = NULL \<and> my_msg t = m \<and> k_stack_esp t = k + 8160 \<and> ori_cpu t = int c) \<and>
           id_count s' = id_count s + 1 \<and> msgs s' m \<noteq> None)"
proof -
  have "tcb_get_entry k = k + 8160" using stack_entry [OF assms(3), of 0] by simp
  then show ?thesis
    using assms(1,2,4)
    by (auto simp: tcb_create_thread_only_def smemalign_stack_def kmalloc_def kfree_def Let_def tcb_get_entry_def
      intro!: exI [of _ "\<lparr>k_stack_esp = k + 8160, tid = id_count s + 1, pcb = p, result = sint (rd32 (8172 + k) (kmem s)),
        state = st, swexn_struct = NULL, my_msg = m, ori_cpu = int c\<rparr>"])
qed

definition kst_example :: kst where
  "kst_example = \<lparr>tcbs = Map.empty, pcbs = Map.empty, msgs = Map.empty, swexns = Map.empty,
     heap = [0x300000, 0x300040], kstacks = [0x200000, 0x202000], freed = [], kmem = (\<lambda>_. 0), id_count = - 1,
     queues = (\<lambda>_. []), cur_running_thr = (\<lambda>_. NULL), idle_thr = (\<lambda>_. NULL), msg_queues = (\<lambda>_. []),
     num_worker_cores = 3, zombie_lists = (\<lambda>_. []), zombie_list_locks = (\<lambda>_. free_mutex),
     malloc_lib_locks = (\<lambda>_. free_mutex), sleep_queue = (\<lambda>_. \<lparr>nodes = [], compare = (\<lambda>_ _. 0)\<rparr>), deschedule_queues = (\<lambda>_. []),
     num_ticks = (\<lambda>_. 0), init_task = NULL,
     kvm = \<lparr>cr3 = 0x100000, cr0_pg = True, tabs = Map.empty, frames = (\<lambda>_ _. 0), init_page_dir = (\<lambda>_. 0x100000),
       ctrl_bits_pde = 3, ctrl_bits_pte = 0x43, all_zero_frame = 0x200000, pmem = pm_example, thr = kthr_example,
       pt_locks = [], smem = [], sfreed = [], tlb_inv = [], vcpu = 0\<rparr>,
     life = \<lparr>tasks = Map.empty, exit_statuses = Map.empty, es_nodes = Map.empty,
       ht_pid_pcb = \<lparr>array = Some (replicate 7 []), ht_size = 7, func = (\<lambda>k. uint k mod 7)\<rparr>,
       mgr_init_task = NULL, fork_next_core = 0\<rparr>,
     con = \<lparr>vmem = replicate 4000 0, term_color = 7, logical_cursor = 0, is_hidden = False, crtc_lsb = 0, crtc_msb = 0\<rparr>,
     kbd = \<lparr>keybuf = replicate 256 0, front = 0, rear = 0, kh = (0, 0, 0)\<rparr>,
     rdl = \<lparr>read_waiting_thr = NULL, reading_count = 0, reading_length = 0, reading_buf = NULL, readline_queue = []\<rparr>,
     esp0 = (\<lambda>_. 0)\<rparr>"

theorem tcb_create_thread_only_correct_witness:
  "\<exists>s'. tcb_create_thread_only 1 0x400000 NORMAL kst_example = (s', if 0x300000 = NULL then NULL else 0x200000 + 8160) \<and>
     (if 0x300000 = NULL then tcbs s' = tcbs kst_example \<and> id_count s' = id_count kst_example \<and> freed s' = freed kst_example @ [0x200000]
      else (\<exists>t. tcbs s' = (tcbs kst_example)(0x200000 + 8160 \<mapsto> t) \<and> tid t = id_count kst_example + 1 \<and> pcb t = 0x400000 \<and>
            state t = NORMAL \<and> swexn_struct t = NULL \<and> my_msg t = 0x300000 \<and> k_stack_esp t = 0x200000 + 8160 \<and> ori_cpu t = int 1) \<and>
           id_count s' = id_count kst_example + 1 \<and> msgs s' 0x300000 \<noteq> None)"
  by (rule tcb_create_thread_only_correct [where ks = "[0x202000]" and hs = "[0x300040]"]) (simp_all add: kst_example_def)

end
