(* ===== verification/Smp_Message.thy ===== *)
theory Smp_Message
  imports Control_Block
begin

text \<open>
  \<open>smp_message.c\<close>: every worker core has a queue to the manager core (index \<open>2 (cpu - 1)\<close>) and one
  from it (index \<open>2 (cpu - 1) + 1\<close>). An index outside the arrays is a wild access.
\<close>

section \<open>Operations\<close>

text \<open>The two calls of \<open>calloc\<close> fail when \<open>malloc\<close> does.\<close>

definition msg_init :: "nat \<Rightarrow> kst \<Rightarrow> (kst \<times> int) kres" where
  "msg_init cpus s =
     (if cpus \<le> 1 then Inl PANIC
      else
        let s = s\<lparr>num_worker_cores := cpus - 1\<rparr> in
        case kmalloc s of (s, qs) \<Rightarrow>
          if qs = NULL then Inr (s, - 1)
          else case kmalloc s of (s, ls) \<Rightarrow>
            if ls = NULL then Inr (s, - 1) else Inr (s, 0))"

text \<open>\<open>init_ap_msg\<close>: the queues, then the locks; nothing is entered in the arrays unless all four
  allocations succeed.\<close>

definition init_ap_msg :: "nat \<Rightarrow> kst \<Rightarrow> (kst \<times> int) kres" where
  "init_ap_msg cur_cpu s =
     (case kmalloc s of (s, inq) \<Rightarrow> if inq = NULL then Inr (s, - 1) else
      case kmalloc s of (s, outq) \<Rightarrow> if outq = NULL then Inr (s, - 1) else
      case kmalloc s of (s, inq_lock) \<Rightarrow> if inq_lock = NULL then Inr (s, - 1) else
      case kmalloc s of (s, outq_lock) \<Rightarrow> if outq_lock = NULL then Inr (s, - 1) else
      if cur_cpu = 0 \<or> num_worker_cores s < cur_cpu then Inl FAULT
      else Inr (s\<lparr>msg_queues := (msg_queues s)((cur_cpu - 1) * 2 := [], (cur_cpu - 1) * 2 + 1 := [])\<rparr>, 0))"

definition worker_send_msg :: "nat \<Rightarrow> u32 \<Rightarrow> kst \<Rightarrow> kst kres" where
  "worker_send_msg cur_cpu msg s =
     (if cur_cpu = 0 \<or> num_worker_cores s < cur_cpu then Inl FAULT
      else let i = (cur_cpu - 1) * 2
           in Inr (s\<lparr>msg_queues := (msg_queues s)(i := q_enqueue (msg_queues s i) msg)\<rparr>))"

definition worker_recv_msg :: "nat \<Rightarrow> kst \<Rightarrow> (kst \<times> u32) kres" where
  "worker_recv_msg cur_cpu s =
     (if cur_cpu = 0 \<or> num_worker_cores s < cur_cpu then Inl FAULT
      else let i = (cur_cpu - 1) * 2 + 1
           in case q_dequeue (msg_queues s i) of
                (None, q) \<Rightarrow> Inr (s, NULL)
              | (Some m, q) \<Rightarrow> Inr (s\<lparr>msg_queues := (msg_queues s)(i := q)\<rparr>, m))"

definition manager_send_msg :: "u32 \<Rightarrow> int \<Rightarrow> kst \<Rightarrow> kst kres" where
  "manager_send_msg msg dest_cpu s =
     (if dest_cpu < 1 \<or> int (num_worker_cores s) < dest_cpu then Inl FAULT
      else let i = nat ((dest_cpu - 1) * 2 + 1)
           in Inr (s\<lparr>msg_queues := (msg_queues s)(i := q_enqueue (msg_queues s i) msg)\<rparr>))"

text \<open>The polling loop; \<open>None\<close>: it never finds a message.\<close>

partial_function (option) manager_poll :: "nat \<Rightarrow> kst \<Rightarrow> (kst \<times> u32) option" where
  "manager_poll i s =
     (case q_dequeue (msg_queues s i) of
        (Some m, q) \<Rightarrow> Some (s\<lparr>msg_queues := (msg_queues s)(i := q)\<rparr>, m)
      | (None, q) \<Rightarrow> manager_poll ((i + 2) mod (2 * num_worker_cores s)) s)"

definition manager_recv_msg :: "kst \<Rightarrow> (kst \<times> u32) option" where
  "manager_recv_msg s = manager_poll 0 s"

definition get_thr_from_msg_queue :: "nat \<Rightarrow> kst \<Rightarrow> (kst \<times> u32) kres" where
  "get_thr_from_msg_queue cur_cpu s =
     (if cur_cpu = 0 then Inr (s, NULL)
      else
        kbind (worker_recv_msg cur_cpu s) (\<lambda>(s, msg).
        if msg = NULL then Inr (s, NULL)
        else
          kbind (get_msg msg s) (\<lambda>m.
          case mtype m of
            FORK \<Rightarrow> Inr (s, fork_new_thr m)
          | FORK_RESPONSE \<Rightarrow> Inr (s, req_thr m)
          | WAIT_RESPONSE \<Rightarrow> Inr (s, req_thr m)
          | RESPONSE \<Rightarrow> Inr (s, req_thr m)
          | MAKE_RUNNABLE \<Rightarrow>
              kbind (get_tcb (idle_thr s cur_cpu) s) (\<lambda>i.
              kbind (mod_tcb (req_thr m) (\<lambda>t. t\<lparr>pcb := pcb i\<rparr>) s) (\<lambda>s. Inr (s, req_thr m)))
          | YIELD \<Rightarrow>
              kbind (get_tcb (idle_thr s cur_cpu) s) (\<lambda>i.
              kbind (mod_tcb (req_thr m) (\<lambda>t. t\<lparr>pcb := pcb i\<rparr>) s) (\<lambda>s. Inr (s, req_thr m)))
          | HALT \<Rightarrow> Inl HALTS
          | _ \<Rightarrow> Inr (s, NULL))))"

section \<open>Delivery\<close>

definition mgr_pending :: "kst \<Rightarrow> bool" where
  "mgr_pending s \<longleftrightarrow> (\<exists>k < num_worker_cores s. msg_queues s (2 * k) \<noteq> [])"

lemma manager_poll_first:
  assumes "k < num_worker_cores s" and "msg_queues s (2 * k) = m # q" and "j \<le> k"
    and "\<forall>l. j \<le> l \<and> l < k \<longrightarrow> msg_queues s (2 * l) = []"
  shows "manager_poll (2 * j) s = Some (s\<lparr>msg_queues := (msg_queues s)(2 * k := q)\<rparr>, m)"
  using assms(3,4)
proof (induction "k - j" arbitrary: j)
  case 0
  then show ?case using assms(2) by (subst manager_poll.simps) simp
next
  case (Suc d)
  then have "msg_queues s (2 * j) = []" "j < k" by auto
  moreover have "(2 * j + 2) mod (2 * num_worker_cores s) = 2 * (j + 1)"
    using \<open>j < k\<close> assms(1) by simp
  moreover have "manager_poll (2 * (j + 1)) s = Some (s\<lparr>msg_queues := (msg_queues s)(2 * k := q)\<rparr>, m)"
    using Suc by (intro Suc.hyps) auto
  ultimately show ?case by (subst manager_poll.simps) simp
qed

text \<open>C32: polling terminates with the first pending message. Whenever some worker has sent a message,
  \<open>manager_recv_msg\<close> returns, with the oldest message of the lowest-numbered core that has one, and removes
  exactly that message.\<close>

theorem manager_recv_msg_first:
  assumes "mgr_pending s"
  shows "\<exists>k m q. k < num_worker_cores s \<and> msg_queues s (2 * k) = m # q \<and> (\<forall>l < k. msg_queues s (2 * l) = []) \<and>
     manager_recv_msg s = Some (s\<lparr>msg_queues := (msg_queues s)(2 * k := q)\<rparr>, m)"
proof -
  let ?P = "\<lambda>k. k < num_worker_cores s \<and> msg_queues s (2 * k) \<noteq> []"
  define k where "k = (LEAST k. ?P k)"
  have ex: "\<exists>k. ?P k" using assms by (simp add: mgr_pending_def)
  have k: "?P k" unfolding k_def by (rule LeastI_ex [OF ex])
  then obtain m q where mq: "msg_queues s (2 * k) = m # q" by (cases "msg_queues s (2 * k)") auto
  have first: "\<forall>l < k. msg_queues s (2 * l) = []"
    using not_less_Least [of _ ?P] k unfolding k_def [symmetric] by fastforce
  have "manager_poll (2 * 0) s = Some (s\<lparr>msg_queues := (msg_queues s)(2 * k := q)\<rparr>, m)"
    using k mq first by (intro manager_poll_first) auto
  with k mq first show ?thesis by (auto simp: manager_recv_msg_def)
qed

theorem manager_recv_msg_first_witness:
  "\<exists>k m q. k < num_worker_cores (kst_example\<lparr>msg_queues := (\<lambda>_. [])(4 := [7, 8])\<rparr>) \<and>
     msg_queues (kst_example\<lparr>msg_queues := (\<lambda>_. [])(4 := [7, 8])\<rparr>) (2 * k) = m # q \<and>
     (\<forall>l < k. msg_queues (kst_example\<lparr>msg_queues := (\<lambda>_. [])(4 := [7, 8])\<rparr>) (2 * l) = []) \<and>
     manager_recv_msg (kst_example\<lparr>msg_queues := (\<lambda>_. [])(4 := [7, 8])\<rparr>) =
       Some ((kst_example\<lparr>msg_queues := (\<lambda>_. [])(4 := [7, 8])\<rparr>)\<lparr>msg_queues := (msg_queues (kst_example\<lparr>msg_queues := (\<lambda>_. [])(4 := [7, 8])\<rparr>))(2 * k := q)\<rparr>, m)"
  by (rule manager_recv_msg_first) (auto simp: mgr_pending_def kst_example_def intro: exI [of _ 2])

end
