(* ===== verification/Scheduler.thy ===== *)
theory Scheduler
  imports Smp_Message
begin

text \<open>
  \<open>scheduler.c\<close>: the run queue of each core. Threads that a message brings back to the core come before
  the queue.
\<close>

definition tid_is :: "kst \<Rightarrow> int \<Rightarrow> u32 \<Rightarrow> bool" where
  "tid_is s i p = (case tcbs s p of None \<Rightarrow> False | Some t \<Rightarrow> tid t = i)"

definition scheduler_init :: "nat \<Rightarrow> kst \<Rightarrow> kst \<times> int" where
  "scheduler_init cur_cpu s =
     (case kmalloc s of (s, q) \<Rightarrow>
        if q = NULL then (s, - 1) else (s\<lparr>queues := (queues s)(cur_cpu := [])\<rparr>, 0))"

definition scheduler_block :: "nat \<Rightarrow> kst \<Rightarrow> kst \<times> u32" where
  "scheduler_block cur_cpu s =
     (case q_dequeue (queues s cur_cpu) of
        (None, q) \<Rightarrow> (s, NULL)
      | (Some p, q) \<Rightarrow> (s\<lparr>queues := (queues s)(cur_cpu := q)\<rparr>, p))"

definition scheduler_get_next :: "nat \<Rightarrow> int \<Rightarrow> kst \<Rightarrow> (kst \<times> u32) kres" where
  "scheduler_get_next cur_cpu mode s =
     (if mode = - 1
      then kbind (get_thr_from_msg_queue cur_cpu s) (\<lambda>(s, rv).
           if rv \<noteq> NULL then Inr (s, rv)
           else (case q_dequeue (queues s cur_cpu) of
                   (None, q) \<Rightarrow> Inr (s, NULL)
                 | (Some p, q) \<Rightarrow> Inr (s\<lparr>queues := (queues s)(cur_cpu := q)\<rparr>, p)))
      else (case q_remove (tid_is s mode) (queues s cur_cpu) of
              (None, q) \<Rightarrow> Inr (s, NULL)
            | (Some p, q) \<Rightarrow> Inr (s\<lparr>queues := (queues s)(cur_cpu := q)\<rparr>, p)))"

definition scheduler_make_runnable :: "nat \<Rightarrow> u32 \<Rightarrow> kst \<Rightarrow> kst kres" where
  "scheduler_make_runnable cur_cpu thread s =
     kbind (get_tcb thread s) (\<lambda>_.
     Inr (s\<lparr>queues := (queues s)(cur_cpu := q_enqueue (queues s cur_cpu) thread)\<rparr>))"

definition scheduler_is_exist_or_running :: "nat \<Rightarrow> int \<Rightarrow> kst \<Rightarrow> bool kres" where
  "scheduler_is_exist_or_running cur_cpu i s =
     (let rv = (\<exists>p \<in> set (queues s cur_cpu). tid_is s i p) in
      kbind (get_tcb (cur_running_thr s cur_cpu) s) (\<lambda>t.
      Inr (rv \<or> i = tid t)))"

end
