(* ===== verification/Context_Switcher.thy ===== *)
theory Context_Switcher
  imports Scheduler
begin

text \<open>
  \<open>context_switcher.c\<close>, with the zombie lists and \<open>fork_create_process\<close> of \<open>syscall_lifecycle.c\<close> that it
  calls. \<open>context_switch_get_next\<close> is one definition per operation. A thread that is switched away comes
  back later: \<open>env\<close> is what the rest of the system does until then, and gives the core on which the thread
  runs again.
\<close>

section \<open>Operation codes and error codes\<close>

definition OP_CONTEXT_SWITCH :: nat where "OP_CONTEXT_SWITCH = 0"
definition OP_FORK :: nat where "OP_FORK = 1"
definition OP_THREAD_FORK :: nat where "OP_THREAD_FORK = 2"
definition OP_BLOCK :: nat where "OP_BLOCK = 3"
definition OP_MAKE_RUNNABLE :: nat where "OP_MAKE_RUNNABLE = 4"
definition OP_RESUME :: nat where "OP_RESUME = 5"
definition OP_YIELD :: nat where "OP_YIELD = 6"
definition OP_SEND_MSG :: nat where "OP_SEND_MSG = 7"

lemmas op_codes = OP_CONTEXT_SWITCH_def OP_FORK_def OP_THREAD_FORK_def OP_BLOCK_def OP_MAKE_RUNNABLE_def
  OP_RESUME_def OP_YIELD_def OP_SEND_MSG_def

definition ENOMEM :: int where "ENOMEM = - 12"
definition EMORETHR :: int where "EMORETHR = - 256"
definition ETHREAD :: int where "ETHREAD = - 257"

type_synonym environment = "kst \<Rightarrow> (kst \<times> nat) kres"

section \<open>Zombie lists\<close>

definition get_next_zombie :: "nat \<Rightarrow> kst \<Rightarrow> kst \<times> u32 option" where
  "get_next_zombie c s = (case q_dequeue (zombie_lists s c) of (z, q) \<Rightarrow> (s\<lparr>zombie_lists := (zombie_lists s)(c := q)\<rparr>, z))"

definition put_next_zombie :: "nat \<Rightarrow> u32 \<Rightarrow> kst \<Rightarrow> kst" where
  "put_next_zombie c z s = s\<lparr>zombie_lists := (zombie_lists s)(c := q_enqueue (zombie_lists s c) z)\<rparr>"

section \<open>Choosing the next thread\<close>

definition set_running :: "nat \<Rightarrow> u32 \<Rightarrow> kst \<Rightarrow> kst" where
  "set_running c th s = s\<lparr>cur_running_thr := (cur_running_thr s)(c := th)\<rparr>"

text \<open>\<open>OP_CONTEXT_SWITCH\<close> and \<open>OP_YIELD\<close>.\<close>

definition op_switch :: "bool \<Rightarrow> nat \<Rightarrow> int \<Rightarrow> u32 \<Rightarrow> kst \<Rightarrow> (kst \<times> u32) kres" where
  "op_switch is_syscall c arg this s =
     kbind (scheduler_get_next c arg s) (\<lambda>(s, new).
     if new = NULL
     then kbind (if arg = - 1
                 then (if is_syscall then mod_tcb this (\<lambda>t. t\<lparr>result := 0\<rparr>) s else Inr s)
                 else mod_tcb this (\<lambda>t. t\<lparr>result := ETHREAD\<rparr>) s) (\<lambda>s. Inr (s, this))
     else
       kbind (if is_syscall then mod_tcb this (\<lambda>t. t\<lparr>result := 0\<rparr>) s else Inr s) (\<lambda>s.
       kbind (if this \<noteq> idle_thr s c then scheduler_make_runnable c this s else Inr s) (\<lambda>s.
       Inr (set_running c new s, new))))"

text \<open>The end of \<open>OP_BLOCK\<close> and \<open>OP_SEND_MSG\<close>: the head of the run queue, or the idle thread.\<close>

definition pick_next :: "nat \<Rightarrow> u32 \<Rightarrow> kst \<Rightarrow> (kst \<times> u32) kres" where
  "pick_next c this s =
     (case scheduler_block c s of (s, new) \<Rightarrow>
        if new = NULL
        then if this = idle_thr s c then Inl PANIC
             else if idle_thr s c = NULL then Inl PANIC
             else Inr (set_running c (idle_thr s c) s, idle_thr s c)
        else Inr (set_running c new s, new))"

definition op_block :: "nat \<Rightarrow> u32 \<Rightarrow> kst \<Rightarrow> (kst \<times> u32) kres" where
  "op_block c this s =
     kbind (get_tcb this s) (\<lambda>t.
     if state t = WAKEUP \<or> state t = MADE_RUNNABLE
     then kbind (mod_tcb this (\<lambda>t. t\<lparr>state := NORMAL\<rparr>) s) (\<lambda>s. Inr (s, this))
     else if state t = NORMAL
     then kbind (mod_tcb this (\<lambda>t. t\<lparr>state := BLOCKED\<rparr>) s) (pick_next c this)
     else Inl PANIC)"

definition op_make_runnable :: "nat \<Rightarrow> u32 \<Rightarrow> kst \<Rightarrow> kst kres" where
  "op_make_runnable c new s =
     (if new = NULL then Inr s
      else kbind (get_tcb new s) (\<lambda>n.
           if state n = BLOCKED
           then kbind (mod_tcb new (\<lambda>t. t\<lparr>state := NORMAL\<rparr>) s) (scheduler_make_runnable c new)
           else if state n = NORMAL then mod_tcb new (\<lambda>t. t\<lparr>state := MADE_RUNNABLE\<rparr>) s
           else Inl PANIC))"

definition op_resume :: "nat \<Rightarrow> u32 \<Rightarrow> u32 \<Rightarrow> kst \<Rightarrow> (kst \<times> u32) kres" where
  "op_resume c new this s =
     kbind (scheduler_make_runnable c this s) (\<lambda>s.
     kbind (get_tcb new s) (\<lambda>n.
     kbind (if state n = BLOCKED then mod_tcb new (\<lambda>t. t\<lparr>state := NORMAL\<rparr>) s
            else if state n = NORMAL then mod_tcb new (\<lambda>t. t\<lparr>state := WAKEUP\<rparr>) s
            else Inl PANIC) (\<lambda>s.
     Inr (set_running c new s, new))))"

definition op_send_msg :: "nat \<Rightarrow> u32 \<Rightarrow> kst \<Rightarrow> (kst \<times> u32) kres" where
  "op_send_msg c this s =
     kbind (get_tcb this s) (\<lambda>t.
     kbind (worker_send_msg c (my_msg t) s) (pick_next c this))"

section \<open>Calls of the virtual memory\<close>

definition tid_of :: "kst \<Rightarrow> u32 \<Rightarrow> int" where
  "tid_of s p = (case tcbs s p of None \<Rightarrow> - 1 | Some t \<Rightarrow> tid t)"

primrec make_all_runnable :: "nat \<Rightarrow> u32 list \<Rightarrow> kst \<Rightarrow> kst kres" where
  "make_all_runnable c [] s = Inr s"
| "make_all_runnable c (th # ths) s = kbind (op_make_runnable c th s) (make_all_runnable c ths)"

text \<open>Thread \<open>this\<close> on core \<open>c\<close> calls a function of \<open>vm.c\<close>: it works on the page-table locks of the thread's
  task, and the threads its unlocks release become runnable.\<close>

definition enter_vm :: "nat \<Rightarrow> u32 \<Rightarrow> kst \<Rightarrow> vm kres" where
  "enter_vm c this s =
     kbind (get_tcb this s) (\<lambda>t.
     kbind (get_pcb (pcb t) s) (\<lambda>p.
     Inr ((kvm s)\<lparr>pt_locks := task_pt_locks p, vcpu := c,
           thr := \<lparr>me = this, tids = tid_of s, my_state = state t, made_runnable = []\<rparr>\<rparr>)))"

definition leave_vm :: "nat \<Rightarrow> u32 \<Rightarrow> vm \<Rightarrow> kst \<Rightarrow> kst kres" where
  "leave_vm c this v s =
     kbind (get_tcb this s) (\<lambda>t.
     kbind (mod_pcb (pcb t) (\<lambda>p. p\<lparr>task_pt_locks := pt_locks v\<rparr>) (s\<lparr>kvm := v\<rparr>)) (\<lambda>s.
     kbind (mod_tcb this (\<lambda>t. t\<lparr>state := my_state (thr v)\<rparr>) s) (make_all_runnable c (made_runnable (thr v)))))"

definition vm_call :: "nat \<Rightarrow> u32 \<Rightarrow> (vm \<Rightarrow> (vm \<times> 'a) kres) \<Rightarrow> kst \<Rightarrow> (kst \<times> 'a) kres" where
  "vm_call c this f s =
     kbind (enter_vm c this s) (\<lambda>v.
     kbind (f v) (\<lambda>(v, r).
     kbind (leave_vm c this v s) (\<lambda>s. Inr (s, r))))"

definition vm_call0 :: "nat \<Rightarrow> u32 \<Rightarrow> (vm \<Rightarrow> vm kres) \<Rightarrow> kst \<Rightarrow> kst kres" where
  "vm_call0 c this f s = kbind (vm_call c this (\<lambda>v. kbind (f v) (\<lambda>v. Inr (v, ()))) s) (\<lambda>(s, _). Inr s)"

section \<open>Processes for \<open>fork\<close>\<close>

text \<open>\<open>this\<close> is the thread that runs: the new one, or the idle thread.\<close>

definition fork_create_process :: "nat \<Rightarrow> u32 \<Rightarrow> u32 \<Rightarrow> u32 \<Rightarrow> kst \<Rightarrow> (kst \<times> int) kres" where
  "fork_create_process c this new_thr old_thr s =
     kbind (vm_call c this clone_pd s) (\<lambda>(s, base).
     if base = word_of_int ERROR_MALLOC_LIB \<or> base = ERROR_NOT_ENOUGH_MEM then Inr (s, - 1)
     else
       let undo = (\<lambda>s. kbind (vm_call0 c this (free_entire_space base True) s) (\<lambda>s. Inr (s, - 1))) in
       kbind (get_tcb old_thr s) (\<lambda>old.
       kbind (if swexn_struct old \<noteq> NULL
              then case kmalloc s of (s, x) \<Rightarrow>
                kbind (mod_tcb new_thr (\<lambda>t. t\<lparr>swexn_struct := x\<rparr>) s) (\<lambda>s.
                if x = NULL then Inr (s, False)
                else kbind (kderef (swexns s) (swexn_struct old)) (\<lambda>w.
                     Inr (s\<lparr>swexns := (swexns s)(x \<mapsto> w)\<rparr>, True)))
              else Inr (s, True)) (\<lambda>(s, ok).
       if \<not> ok then undo s
       else
         kbind (tcb_create_process_only new_thr old_thr base s) (\<lambda>(s, p).
         if p = NULL
         then kbind (get_tcb new_thr s) (\<lambda>n. kbind (free_swexn (swexn_struct n) s) undo)
         else Inr (s, 0)))))"

section \<open>Copying a thread\<close>

definition get_last_ebp :: "u32 \<Rightarrow> (u32 \<Rightarrow> u8) \<Rightarrow> u32" where
  "get_last_ebp ebp m = rd32 ebp m"

text \<open>The stack part of \<open>internal_thread_fork\<close>: \<open>esp\<close> is the old thread's stack pointer, \<open>new_top\<close> the new
  thread's initial one.\<close>

definition copy_kstack :: "u32 \<Rightarrow> u32 \<Rightarrow> u32 \<Rightarrow> (u32 \<Rightarrow> u8) \<Rightarrow> u32 \<Rightarrow> u8" where
  "copy_kstack esp len new_top m =
     (let nesp = new_top - len;
          m = kmemcpy nesp esp (unat len) m;
          m = wr32 (nesp + 12) new_top m;
          diff = nesp - esp;
          ebp = nesp + 56;
          m = wr32 ebp (rd32 ebp m + diff) m;
          ebp = get_last_ebp ebp m
      in wr32 ebp (rd32 ebp m + diff) m)"

definition internal_thread_fork :: "nat \<Rightarrow> u32 \<Rightarrow> kst \<Rightarrow> (kst \<times> u32) kres" where
  "internal_thread_fork c this s =
     kbind (get_tcb this s) (\<lambda>t.
     case tcb_create_thread_only c (pcb t) NORMAL s of (s, new) \<Rightarrow>
       if new = NULL then Inr (s, NULL)
       else
         kbind (get_tcb this s) (\<lambda>t.
         kbind (get_tcb new s) (\<lambda>n.
         let len = tcb_get_high_addr (k_stack_esp t) - k_stack_esp t;
             s = s\<lparr>kmem := copy_kstack (k_stack_esp t) len (k_stack_esp n) (kmem s)\<rparr>
         in kbind (mod_tcb new (\<lambda>n. n\<lparr>k_stack_esp := k_stack_esp n - len\<rparr>) s) (\<lambda>s. Inr (s, new)))))"

definition op_thread_fork :: "nat \<Rightarrow> u32 \<Rightarrow> kst \<Rightarrow> (kst \<times> u32) kres" where
  "op_thread_fork c this s =
     kbind (internal_thread_fork c this s) (\<lambda>(s, new).
     if new = NULL
     then kbind (mod_tcb this (\<lambda>t. t\<lparr>result := ENOMEM\<rparr>) s) (\<lambda>s. Inr (s, this))
     else
       kbind (get_tcb new s) (\<lambda>n.
       kbind (mod_tcb this (\<lambda>t. t\<lparr>result := tid n\<rparr>) s) (\<lambda>s.
       kbind (mod_tcb new (\<lambda>t. t\<lparr>result := 0\<rparr>) s) (\<lambda>s.
       kbind (get_tcb this s) (\<lambda>t.
       kbind (mod_pcb (pcb t) (\<lambda>p. p\<lparr>cur_thr_num := cur_thr_num p + 1\<rparr>) s) (\<lambda>s.
       kbind (scheduler_make_runnable c this s) (\<lambda>s.
       Inr (set_running c new s, new))))))))"

section \<open>Freeing zombies\<close>

definition unlock_zombie_list :: "nat \<Rightarrow> kst \<Rightarrow> kst kres" where
  "unlock_zombie_list c s =
     kbind (mutex_unlock (tid_of s) (zombie_list_locks s c)) (\<lambda>(m, w).
     let s = s\<lparr>zombie_list_locks := (zombie_list_locks s)(c := m)\<rparr>
     in case w of None \<Rightarrow> Inr s | Some th \<Rightarrow> op_make_runnable c th s)"

definition unlock_malloc_lib :: "nat \<Rightarrow> kst \<Rightarrow> kst kres" where
  "unlock_malloc_lib c s =
     kbind (mutex_unlock (tid_of s) (malloc_lib_locks s c)) (\<lambda>(m, w).
     let s = s\<lparr>malloc_lib_locks := (malloc_lib_locks s)(c := m)\<rparr>
     in case w of None \<Rightarrow> Inr s | Some th \<Rightarrow> op_make_runnable c th s)"

definition reap_zombie :: "nat \<Rightarrow> u32 \<Rightarrow> kst \<Rightarrow> kst kres" where
  "reap_zombie c this s =
     kbind (get_tcb this s) (\<lambda>t.
     kbind (mutex_try_lock (tid t) (zombie_list_locks s c)) (\<lambda>(zm, rv).
     let s = s\<lparr>zombie_list_locks := (zombie_list_locks s)(c := zm)\<rparr> in
     if rv < 0 then Inr s
     else
       kbind (mutex_try_lock (tid t) (malloc_lib_locks s c)) (\<lambda>(mm, rv).
       let s = s\<lparr>malloc_lib_locks := (malloc_lib_locks s)(c := mm)\<rparr> in
       if rv < 0 then unlock_zombie_list c s
       else
         kbind (case get_next_zombie c s of
                  (s, None) \<Rightarrow> Inr s
                | (s, Some z) \<Rightarrow>
                    kbind (get_tcb z s) (\<lambda>zt.
                    if tid t = tid zt \<or> state zt \<noteq> BLOCKED then Inr (put_next_zombie c z s)
                    else tcb_vanish_thread z s)) (\<lambda>s.
         kbind (unlock_malloc_lib c s) (unlock_zombie_list c)))))"

section \<open>\<open>context_switch\<close>\<close>

text \<open>The part after the switch that every operation runs, and the whole of
  \<open>context_switch(OP_SEND_MSG, 0)\<close>.\<close>

definition after_switch :: "nat \<Rightarrow> nat \<Rightarrow> u32 \<Rightarrow> kst \<Rightarrow> kst kres" where
  "after_switch op c this s =
     kbind (get_tcb this s) (\<lambda>t.
     kbind (get_pcb (pcb t) s) (\<lambda>p.
     let s = (if page_table_base p \<noteq> cr3 (kvm s) then kset_cr3 (page_table_base p) s else s);
         s = s\<lparr>esp0 := (esp0 s)(c := tcb_get_high_addr (k_stack_esp t - 1))\<rparr>
     in if op = OP_MAKE_RUNNABLE then Inr s else reap_zombie c this s))"

definition come_back :: "environment \<Rightarrow> nat \<Rightarrow> u32 \<Rightarrow> kst \<times> u32 \<Rightarrow> (kst \<times> nat) kres" where
  "come_back env c this r = (case r of (s, new) \<Rightarrow> if new = this then Inr (s, c) else env s)"

definition switch_send_msg :: "environment \<Rightarrow> nat \<Rightarrow> u32 \<Rightarrow> kst \<Rightarrow> (kst \<times> nat) kres" where
  "switch_send_msg env c this s =
     kbind (op_send_msg c this s) (\<lambda>r.
     kbind (come_back env c this r) (\<lambda>(s, c).
     kbind (after_switch OP_SEND_MSG c this s) (\<lambda>s. Inr (s, c))))"

definition op_fork :: "environment \<Rightarrow> nat \<Rightarrow> u32 \<Rightarrow> kst \<Rightarrow> (kst \<times> u32) kres" where
  "op_fork env c this s =
     kbind (get_tcb this s) (\<lambda>t.
     kbind (get_pcb (pcb t) s) (\<lambda>p.
     if 1 < cur_thr_num p
     then kbind (mod_tcb this (\<lambda>t. t\<lparr>result := EMORETHR\<rparr>) s) (\<lambda>s. Inr (s, this))
     else
       kbind (internal_thread_fork c this s) (\<lambda>(s, new).
       if new = NULL then kbind (mod_tcb this (\<lambda>t. t\<lparr>result := ENOMEM\<rparr>) s) (\<lambda>s. Inr (s, this))
       else
         kbind (mod_tcb new (\<lambda>t. t\<lparr>result := 0\<rparr>) s) (\<lambda>s.
         kbind (get_tcb new s) (\<lambda>n.
         let is_idle = (this = idle_thr s c) in
         kbind
           (if \<not> is_idle then
              kbind (mod_msg (my_msg t) (\<lambda>m. fork_data new 0 (tid n) (pid p)
                        (m\<lparr>req_thr := this, req_cpu := int c, mtype := FORK\<rparr>)) s) (\<lambda>s.
              kbind (mod_msg (my_msg n) (\<lambda>m. m\<lparr>mtype := FORK_RESPONSE, d0 := uint (my_msg t)\<rparr>) s) (\<lambda>s.
              kbind (switch_send_msg env c this s) (\<lambda>(s, c).
              kbind (get_msg (my_msg t) s) (\<lambda>m. Inr (s, fork_result m)))))
            else
              kbind (mod_msg (my_msg n) (\<lambda>m. m\<lparr>mtype := NONE\<rparr>) s) (\<lambda>s.
              fork_create_process c this new this s)) (\<lambda>(s, rv).
         if rv < 0
         then kbind (tcb_free_thread new s) (\<lambda>s.
              kbind (mod_tcb this (\<lambda>t. t\<lparr>result := ENOMEM\<rparr>) s) (\<lambda>s. Inr (s, this)))
         else
           kbind (mod_tcb this (\<lambda>t. t\<lparr>result := tid n\<rparr>) s) (\<lambda>s.
           if is_idle
           then kbind (scheduler_make_runnable c this s) (\<lambda>s. Inr (set_running c new s, new))
           else Inr (s, this))))))))"

text \<open>The argument is the 32-bit \<open>arg\<close>, read as an \<open>int\<close> or as a pointer.\<close>

definition context_switch_get_next ::
  "environment \<Rightarrow> nat \<Rightarrow> nat \<Rightarrow> u32 \<Rightarrow> u32 \<Rightarrow> kst \<Rightarrow> (kst \<times> u32) kres" where
  "context_switch_get_next env c op arg this s =
     (if op = OP_CONTEXT_SWITCH then op_switch False c (sint arg) this s
      else if op = OP_YIELD then op_switch True c (sint arg) this s
      else if op = OP_FORK then op_fork env c this s
      else if op = OP_THREAD_FORK then op_thread_fork c this s
      else if op = OP_BLOCK then op_block c this s
      else if op = OP_MAKE_RUNNABLE then kbind (op_make_runnable c arg s) (\<lambda>s. Inr (s, this))
      else if op = OP_RESUME then op_resume c arg this s
      else if op = OP_SEND_MSG then op_send_msg c this s
      else Inr (s, this))"

text \<open>What the new thread of \<open>fork\<close> does when it first runs, in \<open>context_switch\<close> after the switch.\<close>

definition fork_child :: "environment \<Rightarrow> nat \<Rightarrow> u32 \<Rightarrow> kst \<Rightarrow> (kst \<times> nat) kres" where
  "fork_child env c this s =
     kbind (get_tcb this s) (\<lambda>t.
     kbind (get_msg (my_msg t) s) (\<lambda>m.
     kbind
       (if mtype m = FORK_RESPONSE then
          kbind (get_pcb (pcb t) s) (\<lambda>p.
          let s = kset_cr3 (page_table_base p) s in
          kbind (get_msg (fork_req_msg m) s) (\<lambda>req.
          kbind (fork_create_process c this this (req_thr req) s) (\<lambda>(s, rv).
          kbind (mod_msg (my_msg t) (\<lambda>m. m\<lparr>req_thr := this, req_cpu := int c, d1 := rv\<rparr>) s) (\<lambda>s.
          switch_send_msg env c this s))))
        else Inr (s, c)) (\<lambda>(s, c).
     kbind (get_tcb this s) (\<lambda>t.
     kbind (get_pcb (pcb t) s) (\<lambda>p. Inr (kset_cr3 (page_table_base p) s, c))))))"

definition switched_in :: "environment \<Rightarrow> nat \<Rightarrow> nat \<Rightarrow> u32 \<Rightarrow> kst \<Rightarrow> (kst \<times> nat) kres" where
  "switched_in env c op this s =
     kbind (get_tcb this s) (\<lambda>t.
     kbind (if op = OP_FORK \<and> result t = 0 then fork_child env c this s else Inr (s, c)) (\<lambda>(s, c).
     kbind (after_switch op c this s) (\<lambda>s. Inr (s, c))))"

definition context_switch :: "environment \<Rightarrow> nat \<Rightarrow> nat \<Rightarrow> u32 \<Rightarrow> u32 \<Rightarrow> kst \<Rightarrow> (kst \<times> nat) kres" where
  "context_switch env c op arg this s =
     (if this = NULL then Inr (s, c)
      else
        kbind (context_switch_get_next env c op arg this s) (\<lambda>r.
        kbind (come_back env c this r) (\<lambda>(s, c).
        switched_in env c op this s)))"

definition context_switcher_init :: "nat \<Rightarrow> kst \<Rightarrow> kst \<times> int" where
  "context_switcher_init cur_cpu s =
     (case kmalloc s of (s, r) \<Rightarrow>
        if r = NULL then (s, - 1)
        else case kmalloc s of (s, l) \<Rightarrow> if l = NULL then (s, - 1) else (s, 0))"

definition get_current_running_thr :: "nat \<Rightarrow> kst \<Rightarrow> u32" where
  "get_current_running_thr cur_cpu s = cur_running_thr s cur_cpu"

end
