(* ===== verification/Run_Queue.thy ===== *)
theory Run_Queue
  imports Context_Switcher "HOL-Library.Multiset"
begin

text \<open>
  Properties of the context switcher: the run queue of a core and the messages it has not read under the operations of
  \<open>context_switch_get_next\<close>, the hand-shake of blocking and waking, and the copy of a kernel stack.
\<close>

section \<open>The run queue of a core\<close>

text \<open>A thread that can run: it has a control block and is not \<open>BLOCKED\<close>.\<close>

definition ready :: "kst \<Rightarrow> u32 \<Rightarrow> bool" where
  "ready s p \<longleftrightarrow> p \<noteq> NULL \<and> (\<exists>t. tcbs s p = Some t \<and> state t \<noteq> BLOCKED)"

text \<open>The running thread and the idle thread can run, so can every queued thread; the queue has no
  repetition and does not contain the running thread.\<close>

definition core_inv :: "nat \<Rightarrow> kst \<Rightarrow> bool" where
  "core_inv c s \<longleftrightarrow> ready s (cur_running_thr s c) \<and> ready s (idle_thr s c) \<and> (\<forall>p \<in> set (queues s c). ready s p) \<and>
     distinct (queues s c) \<and> cur_running_thr s c \<notin> set (queues s c)"

text \<open>The messages the manager has sent to a worker core and the core has not read, the thread such a
  message msg_brings back, and the threads that are on their way to the core.\<close>

definition inbox :: "nat \<Rightarrow> kst \<Rightarrow> u32 list" where
  "inbox c s = msg_queues s ((c - 1) * 2 + 1)"

definition msg_brings :: "kst \<Rightarrow> u32 \<Rightarrow> u32 option" where
  "msg_brings s a = (case msgs s a of None \<Rightarrow> None
     | Some m \<Rightarrow> if mtype m = FORK then Some (fork_new_thr m)
                 else if mtype m \<in> {FORK_RESPONSE, WAIT_RESPONSE, RESPONSE, MAKE_RUNNABLE, YIELD} then Some (req_thr m) else None)"

definition awaited :: "nat \<Rightarrow> kst \<Rightarrow> u32 list" where
  "awaited c s = List.map_filter (msg_brings s) (inbox c s)"

text \<open>The threads on their way can run, are all different and are neither queued nor running nor the idle
  thread.\<close>

definition inbox_inv :: "nat \<Rightarrow> kst \<Rightarrow> bool" where
  "inbox_inv c s \<longleftrightarrow> (\<forall>a \<in> set (inbox c s). a \<noteq> NULL \<and> msgs s a \<noteq> None) \<and> distinct (awaited c s) \<and>
     (\<forall>p \<in> set (awaited c s). ready s p \<and> p \<notin> set (queues s c) \<and> p \<noteq> cur_running_thr s c \<and> p \<noteq> idle_thr s c)"

text \<open>The next message tells the core to halt.\<close>

definition told_to_halt :: "nat \<Rightarrow> kst \<Rightarrow> bool" where
  "told_to_halt c s \<longleftrightarrow> (case inbox c s of [] \<Rightarrow> False
     | a # _ \<Rightarrow> (case msgs s a of None \<Rightarrow> False | Some m \<Rightarrow> mtype m = HALT))"

text \<open>What the allocators hand out next is not in use: a stack is aligned and holds no thread, a message
  block is not waiting in the core's queue.\<close>

definition fresh_memory :: "nat \<Rightarrow> kst \<Rightarrow> bool" where
  "fresh_memory c s \<longleftrightarrow>
     (case kstacks s of [] \<Rightarrow> True | k # _ \<Rightarrow> k = NULL \<or> unat k mod 8192 = 0 \<and> tcbs s (k + 8160) = None) \<and>
     (case heap s of [] \<Rightarrow> True | m # _ \<Rightarrow> m \<notin> set (inbox c s))"

definition no_memory :: "kst \<Rightarrow> bool" where
  "no_memory s \<longleftrightarrow> (case kstacks s of [] \<Rightarrow> True | k # _ \<Rightarrow> k = NULL \<or> (case heap s of [] \<Rightarrow> True | m # _ \<Rightarrow> m = NULL))"

text \<open>The thread is on the core: it runs, is queued, or is on its way.\<close>

definition on_core :: "nat \<Rightarrow> u32 \<Rightarrow> kst \<Rightarrow> bool" where
  "on_core c p s \<longleftrightarrow> p = cur_running_thr s c \<or> p \<in> set (queues s c) \<or> p \<in> set (awaited c s)"

text \<open>The task of the running thread.\<close>

definition task_of_running :: "nat \<Rightarrow> kst \<Rightarrow> pcb_t option" where
  "task_of_running c s = (case tcbs s (cur_running_thr s c) of None \<Rightarrow> None | Some t \<Rightarrow> pcbs s (pcb t))"

definition has_task :: "nat \<Rightarrow> kst \<Rightarrow> bool" where
  "has_task c s \<longleftrightarrow> task_of_running c s \<noteq> None"

definition many_threads :: "nat \<Rightarrow> kst \<Rightarrow> bool" where
  "many_threads c s \<longleftrightarrow> (case task_of_running c s of None \<Rightarrow> False | Some p \<Rightarrow> 1 < cur_thr_num p)"

text \<open>When an operation is in order: the idle thread never gives up the processor for good; a thread that
  is resumed or made runnable exists and no earlier wake-up of it is outstanding, and one that is resumed
  before it has blocked is not on the core; memory that is handed out is not in use.\<close>

definition in_order :: "nat \<Rightarrow> nat \<Rightarrow> u32 \<Rightarrow> kst \<Rightarrow> bool" where
  "in_order c op arg s \<longleftrightarrow>
     (op \<in> {OP_BLOCK, OP_SEND_MSG} \<longrightarrow> cur_running_thr s c \<noteq> idle_thr s c) \<and>
     (op = OP_RESUME \<longrightarrow> arg \<noteq> NULL \<and>
        (\<exists>t. tcbs s arg = Some t \<and> (state t = BLOCKED \<or> state t = NORMAL \<and> \<not> on_core c arg s))) \<and>
     (op = OP_MAKE_RUNNABLE \<longrightarrow> arg = NULL \<or> (\<exists>t. tcbs s arg = Some t \<and> state t \<in> {BLOCKED, NORMAL})) \<and>
     (op \<in> {OP_THREAD_FORK, OP_FORK} \<longrightarrow> fresh_memory c s \<and> has_task c s) \<and>
     (op = OP_FORK \<longrightarrow> many_threads c s \<or> no_memory s)"

lemma ready_tcbs_upd:
  "ready s p \<Longrightarrow> (\<And>t. tcbs s q = Some t \<Longrightarrow> state (f t) = BLOCKED \<Longrightarrow> q \<noteq> p) \<Longrightarrow> tcbs s q = Some u \<Longrightarrow>
     ready (s\<lparr>tcbs := (tcbs s)(q \<mapsto> f u)\<rparr>) p"
  by (auto simp: ready_def)

lemma ready_frame [simp]:
  "ready (s\<lparr>queues := q\<rparr>) p = ready s p" "ready (s\<lparr>cur_running_thr := r\<rparr>) p = ready s p"
  "ready (s\<lparr>msg_queues := mq\<rparr>) p = ready s p"
  by (simp_all add: ready_def)

lemma ready_result:
  "tcbs s q = Some u \<Longrightarrow> ready (s\<lparr>tcbs := (tcbs s)(q \<mapsto> u\<lparr>result := v\<rparr>)\<rparr>) p = ready s p"
  by (auto simp: ready_def)

lemma ready_state:
  "tcbs s q = Some u \<Longrightarrow> st \<noteq> BLOCKED \<Longrightarrow> ready s p \<Longrightarrow> ready (s\<lparr>tcbs := (tcbs s)(q \<mapsto> u\<lparr>state := st\<rparr>)\<rparr>) p"
  by (auto simp: ready_def)

lemma ready_blocked:
  "tcbs s q = Some u \<Longrightarrow> p \<noteq> q \<Longrightarrow> ready (s\<lparr>tcbs := (tcbs s)(q \<mapsto> u\<lparr>state := st\<rparr>)\<rparr>) p = ready s p"
  by (auto simp: ready_def)

lemma ready_tcb: "ready s p \<Longrightarrow> \<exists>t. tcbs s p = Some t \<and> state t \<noteq> BLOCKED \<and> p \<noteq> NULL"
  by (auto simp: ready_def)

lemma core_inv_run:
  assumes "core_inv c s"
  obtains t where "tcbs s (cur_running_thr s c) = Some t" "state t \<noteq> BLOCKED" "cur_running_thr s c \<noteq> NULL"
  using assms by (auto simp: core_inv_def ready_def)

text \<open>When the running thread is marked \<open>BLOCKED\<close>, all the others can still run.\<close>

lemma others_ready:
  assumes "core_inv c s" and "this = cur_running_thr s c" and "this \<noteq> idle_thr s c" and "tcbs s this = Some t"
  defines "s' \<equiv> s\<lparr>tcbs := (tcbs s)(this \<mapsto> t\<lparr>state := BLOCKED\<rparr>)\<rparr>"
  shows "\<forall>p \<in> set (queues s' c). ready s' p" "distinct (queues s' c)" "ready s' (idle_thr s' c)" "this \<noteq> idle_thr s' c"
    "this \<notin> set (queues s' c)"
proof -
  have r: "ready s' p" if "p \<noteq> this" "ready s p" for p using ready_blocked [OF assms(4) that(1)] that(2) by (simp add: s'_def)
  have I: "ready s (idle_thr s c)" "\<forall>p \<in> set (queues s c). ready s p \<and> p \<noteq> this" "distinct (queues s c)" "this \<notin> set (queues s c)"
    using assms(1,2) by (auto simp: core_inv_def)
  have e: "queues s' = queues s" "idle_thr s' = idle_thr s" by (simp_all add: s'_def)
  show "\<forall>p \<in> set (queues s' c). ready s' p" "distinct (queues s' c)" "ready s' (idle_thr s' c)" "this \<noteq> idle_thr s' c"
    "this \<notin> set (queues s' c)" using I r assms(3) by (simp_all add: e)
qed

text \<open>What an operation may do to a core without touching the threads on their way: the threads of the
  core afterwards are threads it had, its idle thread, or \<open>X\<close>, and only the running thread can lose the
  ability to run.\<close>

definition core_moves :: "nat \<Rightarrow> u32 set \<Rightarrow> kst \<Rightarrow> kst \<Rightarrow> bool" where
  "core_moves c X s s' \<longleftrightarrow> inbox c s' = inbox c s \<and> (\<forall>a \<in> set (inbox c s). msgs s' a = msgs s a) \<and> idle_thr s' c = idle_thr s c \<and>
     insert (cur_running_thr s' c) (set (queues s' c)) \<subseteq> X \<union> {idle_thr s c, cur_running_thr s c} \<union> set (queues s c) \<and>
     (\<forall>p. ready s p \<and> p \<noteq> cur_running_thr s c \<longrightarrow> ready s' p)"

lemma awaited_cong:
  assumes "inbox c s' = inbox c s" and "\<forall>a \<in> set (inbox c s). msgs s' a = msgs s a"
  shows "awaited c s' = awaited c s"
  using assms by (auto simp: awaited_def List.map_filter_def msg_brings_def intro!: map_cong filter_cong)

lemma moves_inbox:
  assumes "inbox_inv c s" and "core_moves c X s s'" and "X \<inter> set (awaited c s) = {}"
  shows "inbox_inv c s'"
proof -
  have e: "awaited c s' = awaited c s" using assms(2) by (intro awaited_cong) (auto simp: core_moves_def)
  show ?thesis using assms unfolding inbox_inv_def e core_moves_def by auto
qed

lemma pick_next_inv:
  assumes "\<forall>p \<in> set (queues s c). ready s p" and "distinct (queues s c)" and "ready s (idle_thr s c)" and "this \<noteq> idle_thr s c"
    and "this \<notin> set (queues s c)"
  shows "\<exists>s' new. pick_next c this s = Inr (s', new) \<and> core_inv c s' \<and> cur_running_thr s' c = new \<and> new \<noteq> this \<and>
     tcbs s' = tcbs s \<and> msg_queues s' = msg_queues s \<and> core_moves c {} s s' \<and> msgs s' = msgs s"
proof (cases "queues s c")
  case Nil
  then show ?thesis using assms
    by (auto simp: pick_next_def scheduler_block_def set_running_def core_inv_def core_moves_def inbox_def dest: ready_tcb)
next
  case (Cons p q)
  then have "p \<noteq> NULL" using assms(1) by (auto simp: ready_def)
  then show ?thesis using assms Cons
    by (auto simp: pick_next_def scheduler_block_def set_running_def core_inv_def core_moves_def inbox_def)
qed

text \<open>All threads that wait for the processor of a core, and what the scheduler hands out: one of them, or
  nothing.\<close>

definition core_pending :: "nat \<Rightarrow> kst \<Rightarrow> u32 multiset" where
  "core_pending c s = mset (queues s c) + mset (awaited c s)"

definition handed_out :: "nat \<Rightarrow> u32 \<Rightarrow> kst \<Rightarrow> kst \<Rightarrow> bool" where
  "handed_out c p s s' \<longleftrightarrow> core_pending c s = core_pending c s' + (if p = NULL then {#} else {#p#}) \<and> set (awaited c s') \<subseteq> set (awaited c s) \<and>
     set (inbox c s') \<subseteq> set (inbox c s) \<and> msgs s' = msgs s \<and> cur_running_thr s' = cur_running_thr s \<and> idle_thr s' = idle_thr s \<and>
     ready s' = ready s \<and> dom (tcbs s') = dom (tcbs s)"

lemma handed_from_queue:
  assumes "queues s c = us @ p # vs" and "p \<noteq> NULL"
  shows "handed_out c p s (s\<lparr>queues := (queues s)(c := us @ vs)\<rparr>)"
  using assms by (simp add: handed_out_def core_pending_def awaited_def inbox_def fun_eq_iff msg_brings_def [abs_def])

lemma read_message:
  assumes "inbox c s = a # q" and "msgs s a = Some m" and "msg_brings s a = r"
    and "mq = (msg_queues s)((c - 1) * 2 + 1 := q)"
  shows "handed_out c (case r of None \<Rightarrow> NULL | Some p \<Rightarrow> p) s (s\<lparr>msg_queues := mq\<rparr>) \<or> r = Some NULL"
  using assms
  by (auto simp: handed_out_def core_pending_def awaited_def inbox_def fun_eq_iff msg_brings_def [abs_def] List.map_filter_def split: option.splits)

lemma handed_out_refl: "handed_out c NULL s s"
  by (simp add: handed_out_def)

lemma handed_out_trans: "handed_out c NULL s s1 \<Longrightarrow> handed_out c p s1 s2 \<Longrightarrow> handed_out c p s s2"
  by (auto simp: handed_out_def)

lemma handed_out_upd:
  assumes "handed_out c p s s'" and "tcbs s' q = Some t" and "state u = state t"
  shows "handed_out c p s (s'\<lparr>tcbs := (tcbs s')(q \<mapsto> u)\<rparr>)"
proof -
  let ?s = "s'\<lparr>tcbs := (tcbs s')(q \<mapsto> u)\<rparr>"
  have "ready ?s = ready s'" using assms(2,3) by (auto simp: ready_def fun_eq_iff)
  moreover have "awaited c ?s = awaited c s'" by (rule awaited_cong) (simp_all add: inbox_def)
  ultimately show ?thesis using assms unfolding handed_out_def by (auto simp: core_pending_def inbox_def)
qed

lemma get_thr_from_msg_queue_hands_out:
  assumes "core_inv c s" and "inbox_inv c s" and "0 < c" "c \<le> num_worker_cores s" and "\<not> told_to_halt c s"
  shows "\<exists>s' p. get_thr_from_msg_queue c s = Inr (s', p) \<and> handed_out c p s s'"
proof (cases "inbox c s")
  case Nil
  then show ?thesis using assms(3,4) handed_out_refl by (auto simp: get_thr_from_msg_queue_def worker_recv_msg_def inbox_def)
next
  case (Cons a q)
  define mq where "mq = (msg_queues s)((c - 1) * 2 + 1 := q)"
  obtain m where m: "a \<noteq> NULL" "msgs s a = Some m" using assms(2) Cons by (auto simp: inbox_inv_def)
  obtain i where i: "tcbs s (idle_thr s c) = Some i" using assms(1) by (auto simp: core_inv_def ready_def)
  have out: "ready s p" if "msg_brings s a = Some p" for p
    using assms(2) Cons that by (auto simp: inbox_inv_def awaited_def)
  have recv: "worker_recv_msg c s = Inr (s\<lparr>msg_queues := mq\<rparr>, a)"
    using Cons assms(3,4) by (simp add: worker_recv_msg_def inbox_def mq_def)
  have nh: "mtype m \<noteq> HALT" using assms(5) Cons m(2) by (simp add: told_to_halt_def)
  note hand = read_message [OF Cons m(2) refl mq_def]
  show ?thesis
  proof (cases "msg_brings s a")
    case None
    then have "get_thr_from_msg_queue c s = Inr (s\<lparr>msg_queues := mq\<rparr>, NULL)"
      using recv m nh assms(3) by (cases "mtype m") (auto simp: get_thr_from_msg_queue_def msg_brings_def)
    then show ?thesis using hand None by simp
  next
    case (Some p)
    obtain t where t: "tcbs s p = Some t" "p \<noteq> NULL" using out [OF Some] by (auto simp: ready_def)
    have h: "handed_out c p s (s\<lparr>msg_queues := mq\<rparr>)" using hand Some t(2) by simp
    have "get_thr_from_msg_queue c s = Inr (s\<lparr>msg_queues := mq\<rparr>, p) \<or>
        get_thr_from_msg_queue c s = Inr (s\<lparr>msg_queues := mq, tcbs := (tcbs s)(p \<mapsto> t\<lparr>pcb := pcb i\<rparr>)\<rparr>, p)"
      using recv m nh assms(3) i t Some by (cases "mtype m") (auto simp: get_thr_from_msg_queue_def msg_brings_def)
    then show ?thesis using h handed_out_upd [OF h, of p t] t(1) by auto
  qed
qed

lemma dequeue_hands_out:
  assumes "\<forall>p \<in> set (queues s c). p \<noteq> NULL"
  shows "\<exists>s' p. (case q_dequeue (queues s c) of (None, q) \<Rightarrow> Inr (s, NULL)
      | (Some p, q) \<Rightarrow> Inr (s\<lparr>queues := (queues s)(c := q)\<rparr>, p)) = (Inr (s', p) :: (kst \<times> u32) kres) \<and> handed_out c p s s'"
  using assms handed_from_queue [of s c "[]"] handed_out_refl by (cases "queues s c") auto

lemma scheduler_get_next_hands_out:
  assumes inv: "core_inv c s" "inbox_inv c s" and c: "0 < c" "c \<le> num_worker_cores s" and "mode = - 1 \<longrightarrow> \<not> told_to_halt c s"
  shows "\<exists>s' p. scheduler_get_next c mode s = Inr (s', p) \<and> handed_out c p s s'"
proof (cases "mode = - 1")
  case True
  then obtain s1 p where g: "get_thr_from_msg_queue c s = Inr (s1, p)" "handed_out c p s s1"
    using get_thr_from_msg_queue_hands_out [OF inv c] assms(5) by blast
  show ?thesis
  proof (cases "p = NULL")
    case False
    then show ?thesis using True g by (auto simp: scheduler_get_next_def)
  next
    case n: True
    have "set (queues s1 c) \<subseteq> set_mset (core_pending c s1)" by (simp add: core_pending_def)
    also have "\<dots> = set_mset (core_pending c s)" using g(2) n by (simp add: handed_out_def)
    also have "\<dots> = set (queues s c) \<union> set (awaited c s)" by (simp add: core_pending_def)
    finally have "\<forall>p \<in> set (queues s1 c). p \<noteq> NULL" using inv by (auto simp: core_inv_def inbox_inv_def ready_def)
    from dequeue_hands_out [OF this] obtain s2 p2 where
      "(case q_dequeue (queues s1 c) of (None, q) \<Rightarrow> Inr (s1, NULL)
      | (Some p, q) \<Rightarrow> Inr (s1\<lparr>queues := (queues s1)(c := q)\<rparr>, p)) = (Inr (s2, p2) :: (kst \<times> u32) kres)" "handed_out c p2 s1 s2" by blast
    with handed_out_trans [of c s s1 p2 s2] g n True show ?thesis by (simp add: scheduler_get_next_def)
  qed
next
  case False
  obtain r ys where r: "remove_first (tid_is s mode) (queues s c) = (r, ys)" by (cases "remove_first (tid_is s mode) (queues s c)")
  show ?thesis
  proof (cases r)
    case None
    then show ?thesis using False r handed_out_refl by (auto simp: scheduler_get_next_def q_remove_def)
  next
    case (Some p)
    from remove_first_Some [OF r [unfolded Some]] obtain us vs where q: "queues s c = us @ p # vs" "ys = us @ vs" by blast
    then have "p \<noteq> NULL" using inv(1) by (auto simp: core_inv_def ready_def)
    from handed_from_queue [OF q(1) this] q(2) show ?thesis using False r Some by (auto simp: scheduler_get_next_def q_remove_def)
  qed
qed

text \<open>A thread that was handed out can be made the running one, the thread that ran goes to the queue.\<close>

lemma handed_out_inv:
  assumes inv: "core_inv c s" "inbox_inv c s" and h: "handed_out c p s s'"
  shows "p = NULL \<longrightarrow> core_inv c s' \<and> inbox_inv c s'"
    and "p \<noteq> NULL \<longrightarrow> core_inv c (set_running c p (s'\<lparr>queues := (queues s')(c := queues s' c @ [cur_running_thr s c])\<rparr>)) \<and>
      inbox_inv c (set_running c p (s'\<lparr>queues := (queues s')(c := queues s' c @ [cur_running_thr s c])\<rparr>))"
    and "p \<noteq> NULL \<longrightarrow> core_inv c (set_running c p s') \<and> inbox_inv c (set_running c p s')"
proof -
  let ?L = "\<lambda>s. queues s c @ awaited c s"
  have L: "mset (?L s) = mset ((if p = NULL then [] else [p]) @ ?L s')" using h by (simp add: handed_out_def core_pending_def)
  have "distinct (?L s)" using inv by (auto simp: core_inv_def inbox_inv_def)
  then have d: "distinct ((if p = NULL then [] else [p]) @ ?L s')" using mset_eq_imp_distinct_iff [OF L] by blast
  have st: "set (?L s) = set ((if p = NULL then [] else [p]) @ ?L s')" using L by (rule mset_eq_setD)
  have r: "\<forall>q \<in> set (?L s). ready s' q \<and> q \<noteq> cur_running_thr s c"
    using inv h by (auto simp: core_inv_def inbox_inv_def handed_out_def)
  have f: "ready s' (cur_running_thr s c)" "ready s' (idle_thr s' c)" "cur_running_thr s' = cur_running_thr s"
    "\<forall>a \<in> set (inbox c s'). a \<noteq> NULL \<and> msgs s' a \<noteq> None" "\<forall>q \<in> set (awaited c s'). q \<noteq> idle_thr s' c"
    using inv h by (auto simp: core_inv_def inbox_inv_def handed_out_def)
  have aw: "awaited c (set_running c p (s'\<lparr>queues := x\<rparr>)) = awaited c s'" "awaited c (set_running c p s') = awaited c s'" for x
    by (rule awaited_cong; simp add: inbox_def set_running_def)+
  show "p = NULL \<longrightarrow> core_inv c s' \<and> inbox_inv c s'" using d st r f by (auto simp: core_inv_def inbox_inv_def)
  show "p \<noteq> NULL \<longrightarrow> core_inv c (set_running c p (s'\<lparr>queues := (queues s')(c := queues s' c @ [cur_running_thr s c])\<rparr>)) \<and>
      inbox_inv c (set_running c p (s'\<lparr>queues := (queues s')(c := queues s' c @ [cur_running_thr s c])\<rparr>))"
    unfolding inbox_inv_def aw using d st r f by (auto simp: core_inv_def set_running_def inbox_def)
  show "p \<noteq> NULL \<longrightarrow> core_inv c (set_running c p s') \<and> inbox_inv c (set_running c p s')"
    unfolding inbox_inv_def aw using d st r f by (auto simp: core_inv_def set_running_def inbox_def)
qed

lemma op_switch_inv:
  assumes inv: "core_inv c s" "inbox_inv c s" and c: "0 < c" "c \<le> num_worker_cores s" and "arg = - 1 \<longrightarrow> \<not> told_to_halt c s"
  defines "this \<equiv> cur_running_thr s c"
  shows "\<exists>s' new. op_switch b c arg this s = Inr (s', new) \<and> core_inv c s' \<and> inbox_inv c s' \<and> cur_running_thr s' c = new"
proof -
  obtain s1 p where g: "scheduler_get_next c arg s = Inr (s1, p)" "handed_out c p s s1"
    using scheduler_get_next_hands_out [OF inv c assms(5)] by blast
  obtain t where t: "tcbs s this = Some t" "this \<noteq> NULL" unfolding this_def by (rule core_inv_run [OF inv(1)])
  then have "this \<in> dom (tcbs s1)" using g(2) by (auto simp: handed_out_def)
  then obtain u where u: "tcbs s1 this = Some u" by blast
  have res: "handed_out c p s (s1\<lparr>tcbs := (tcbs s1)(this \<mapsto> u\<lparr>result := v\<rparr>)\<rparr>)" for v
    by (rule handed_out_upd [OF g(2) u]) simp
  have e: "cur_running_thr s1 c = this" "idle_thr s1 = idle_thr s" using g(2) by (auto simp: handed_out_def this_def)
  show ?thesis
  proof (cases "p = NULL")
    case True
    then show ?thesis using g u e handed_out_inv(1) [OF inv g(2)] handed_out_inv(1) [OF inv res] by (auto simp: op_switch_def)
  next
    case False
    define s2 where "s2 = (if b then s1\<lparr>tcbs := (tcbs s1)(this \<mapsto> u\<lparr>result := 0\<rparr>)\<rparr> else s1)"
    have h: "handed_out c p s s2" using g(2) res by (simp add: s2_def)
    obtain w where w: "tcbs s2 this = Some w" using u by (cases b) (auto simp: s2_def)
    have "op_switch b c arg this s = (if this \<noteq> idle_thr s2 c
        then Inr (set_running c p (s2\<lparr>queues := (queues s2)(c := queues s2 c @ [this])\<rparr>), p) else Inr (set_running c p s2, p))"
      using g(1) False u w by (auto simp: op_switch_def s2_def scheduler_make_runnable_def)
    then show ?thesis using handed_out_inv(2,3) [OF inv h] False by (auto simp: this_def set_running_def)
  qed
qed

lemma op_switch_halts:
  assumes "inbox_inv c s" and c: "0 < c" "c \<le> num_worker_cores s" and "told_to_halt c s"
  shows "op_switch b c (- 1) this s = Inl HALTS"
  using assms
  by (auto simp: op_switch_def scheduler_get_next_def get_thr_from_msg_queue_def worker_recv_msg_def told_to_halt_def inbox_inv_def
      inbox_def split: list.splits option.splits)

lemma op_block_inv:
  assumes inv: "core_inv c s" and "cur_running_thr s c \<noteq> idle_thr s c"
  defines "this \<equiv> cur_running_thr s c"
  shows "\<exists>s' new. op_block c this s = Inr (s', new) \<and> core_inv c s' \<and> cur_running_thr s' c = new \<and> core_moves c {} s s'"
proof -
  obtain t where t: "tcbs s this = Some t" "state t \<noteq> BLOCKED" unfolding this_def by (rule core_inv_run [OF inv])
  show ?thesis
  proof (cases "state t = NORMAL")
    case False
    then have w: "state t = WAKEUP \<or> state t = MADE_RUNNABLE" using t(2) by (cases "state t") auto
    let ?s = "s\<lparr>tcbs := (tcbs s)(this \<mapsto> t\<lparr>state := NORMAL\<rparr>)\<rparr>"
    have "core_inv c ?s" "core_moves c {} s ?s"
      using inv ready_state [OF t(1)] by (auto simp: core_inv_def core_moves_def inbox_def)
    with w t(1) show ?thesis by (auto simp: op_block_def this_def)
  next
    case True
    let ?s = "s\<lparr>tcbs := (tcbs s)(this \<mapsto> t\<lparr>state := BLOCKED\<rparr>)\<rparr>"
    note O = others_ready [OF inv this_def [THEN meta_eq_to_obj_eq] _ t(1)]
    have "\<exists>s' new. pick_next c this ?s = Inr (s', new) \<and> core_inv c s' \<and> cur_running_thr s' c = new \<and> core_moves c {} ?s s'"
      using pick_next_inv [OF O] assms(2) unfolding this_def by blast
    moreover have "core_moves c {} s s'" if "core_moves c {} ?s s'" for s'
      using that ready_blocked [OF t(1)] by (auto simp: core_moves_def inbox_def this_def)
    ultimately show ?thesis using t(1) True by (auto simp: op_block_def)
  qed
qed

lemma op_make_runnable_inv:
  assumes inv: "core_inv c s" and p: "tcbs s p = Some u" "state u \<in> {BLOCKED, NORMAL}" "p \<noteq> NULL"
  shows "\<exists>s'. op_make_runnable c p s = Inr s' \<and> core_inv c s' \<and> cur_running_thr s' c = cur_running_thr s c \<and>
    core_moves c (if state u = BLOCKED then {p} else {}) s s'"
proof (cases "state u = BLOCKED")
  case True
  then have out: "p \<notin> set (queues s c)" "p \<noteq> cur_running_thr s c" using inv p(1) by (auto simp: core_inv_def ready_def)
  let ?s = "s\<lparr>tcbs := (tcbs s)(p \<mapsto> u\<lparr>state := NORMAL\<rparr>)\<rparr>"
  have r: "ready ?s q" if "ready s q" for q using ready_state [OF p(1) _ that] by simp
  have "ready ?s p" using p(3) by (simp add: ready_def)
  with r have "core_inv c (?s\<lparr>queues := (queues s)(c := queues s c @ [p])\<rparr>)" using inv out by (auto simp: core_inv_def)
  moreover have "core_moves c {p} s (?s\<lparr>queues := (queues s)(c := queues s c @ [p])\<rparr>)" using r by (auto simp: core_moves_def inbox_def)
  ultimately show ?thesis using True p by (simp add: op_make_runnable_def scheduler_make_runnable_def)
next
  case False
  let ?s = "s\<lparr>tcbs := (tcbs s)(p \<mapsto> u\<lparr>state := MADE_RUNNABLE\<rparr>)\<rparr>"
  have "core_inv c ?s" "core_moves c {} s ?s"
    using inv ready_state [OF p(1)] by (auto simp: core_inv_def core_moves_def inbox_def)
  then show ?thesis using False p by (simp add: op_make_runnable_def)
qed

lemma op_resume_inv:
  assumes inv: "core_inv c s" and p: "tcbs s p = Some u" "p \<noteq> NULL" "state u = BLOCKED \<or> state u = NORMAL \<and> \<not> on_core c p s"
  shows "\<exists>s'. op_resume c p (cur_running_thr s c) s = Inr (s', p) \<and> core_inv c s' \<and> cur_running_thr s' c = p \<and> core_moves c {p} s s'"
proof -
  let ?me = "cur_running_thr s c" and ?st = "if state u = BLOCKED then NORMAL else WAKEUP"
  obtain t where t: "tcbs s ?me = Some t" by (rule core_inv_run [OF inv])
  have out: "p \<notin> set (queues s c)" "p \<noteq> ?me" using inv p by (auto simp: core_inv_def ready_def on_core_def)
  define s2 where "s2 = s\<lparr>queues := (queues s)(c := queues s c @ [?me]), tcbs := (tcbs s)(p \<mapsto> u\<lparr>state := ?st\<rparr>),
     cur_running_thr := (cur_running_thr s)(c := p)\<rparr>"
  have "op_resume c p ?me s = Inr (s2, p)"
    using t p by (auto simp: op_resume_def scheduler_make_runnable_def set_running_def s2_def)
  moreover have r: "ready s2 q" if "ready s q" for q using that by (auto simp: ready_def s2_def)
  moreover have "ready s2 p" using p(2) by (simp add: ready_def s2_def)
  moreover have e: "queues s2 c = queues s c @ [?me]" "cur_running_thr s2 c = p" "idle_thr s2 = idle_thr s" by (simp_all add: s2_def)
  moreover have "core_moves c {p} s s2" using r e by (auto simp: core_moves_def inbox_def s2_def)
  ultimately show ?thesis using inv out by (auto simp: core_inv_def)
qed

text \<open>A thread that is resumed before it has blocked, while it runs or waits in the queue, runs and is queued
  at once.\<close>

lemma op_resume_scheduled:
  assumes inv: "core_inv c s" and p: "tcbs s p = Some u" "state u = NORMAL" "p = cur_running_thr s c \<or> p \<in> set (queues s c)"
  shows "\<exists>s'. op_resume c p (cur_running_thr s c) s = Inr (s', p) \<and> cur_running_thr s' c = p \<and> p \<in> set (queues s' c) \<and> \<not> core_inv c s'"
proof -
  obtain t where "tcbs s (cur_running_thr s c) = Some t" by (rule core_inv_run [OF inv])
  then show ?thesis using p by (auto simp: op_resume_def scheduler_make_runnable_def set_running_def core_inv_def)
qed

lemma op_send_msg_inv:
  assumes inv: "core_inv c s" and "cur_running_thr s c \<noteq> idle_thr s c" and "0 < c" "c \<le> num_worker_cores s"
    and t: "tcbs s (cur_running_thr s c) = Some t"
  shows "\<exists>s' new. op_send_msg c (cur_running_thr s c) s = Inr (s', new) \<and> core_inv c s' \<and> cur_running_thr s' c = new \<and>
     core_moves c {} s s' \<and> new \<noteq> cur_running_thr s c \<and> msg_queues s' ((c - 1) * 2) = msg_queues s ((c - 1) * 2) @ [my_msg t] \<and> msgs s' = msgs s"
proof -
  let ?me = "cur_running_thr s c"
  let ?s = "s\<lparr>msg_queues := (msg_queues s)((c - 1) * 2 := msg_queues s ((c - 1) * 2) @ [my_msg t])\<rparr>"
  obtain s' new where n: "pick_next c ?me ?s = Inr (s', new)" "core_inv c s'" "cur_running_thr s' c = new" "core_moves c {} ?s s'" "new \<noteq> ?me"
      "msg_queues s' = msg_queues ?s" "msgs s' = msgs ?s"
    using pick_next_inv [of ?s c ?me] inv assms(2) by (auto simp: core_inv_def)
  have "core_moves c {} s s'" using n(4) by (auto simp: core_moves_def inbox_def)
  moreover have "msg_queues s' ((c - 1) * 2) = msg_queues s ((c - 1) * 2) @ [my_msg t]" "msgs s' = msgs s" using n(6,7) by simp_all
  moreover have "op_send_msg c ?me s = Inr (s', new)" using t assms(3,4) n(1) by (simp add: op_send_msg_def worker_send_msg_def Let_def)
  ultimately show ?thesis using n(2,3,5) by blast
qed

section \<open>Blocking and waking\<close>

text \<open>Core 1 with an idle thread, a running one, a queued one and a blocked one.\<close>

definition tcb_example :: "int \<Rightarrow> u32 \<Rightarrow> thread_state_t \<Rightarrow> tcb_t" where
  "tcb_example i k st = \<lparr>k_stack_esp = k, tid = i, pcb = 0x400000, result = 0, state = st, swexn_struct = NULL,
     my_msg = 0x500000, ori_cpu = 1\<rparr>"

definition core_example :: kst where
  "core_example = kst_example\<lparr>tcbs := [0x201FE0 \<mapsto> tcb_example 0 0x201F00 NORMAL, 0x203FE0 \<mapsto> tcb_example 1 0x203F00 NORMAL,
       0x205FE0 \<mapsto> tcb_example 2 0x205F00 NORMAL, 0x207FE0 \<mapsto> tcb_example 3 0x207F00 BLOCKED],
     idle_thr := (\<lambda>_. 0x201FE0), cur_running_thr := (\<lambda>_. 0x203FE0), queues := (\<lambda>_. [0x205FE0])\<rparr>"

lemma core_example_inv: "core_inv 1 core_example"
  by (simp add: core_inv_def ready_def core_example_def tcb_example_def)

lemma core_example_cores: "num_worker_cores core_example = 3"
  by (simp add: core_example_def kst_example_def)

text \<open>C19: a wake-up is never lost between a thread's decision to sleep and its \<open>OP_BLOCK\<close>. If the waker
  comes first, the thread's block returns at once and nothing else has changed; if the block comes first,
  the waker puts the thread back into the run queue, in state \<open>NORMAL\<close>.\<close>

theorem block_wakeup_race:
  assumes "core_inv c s" and "p = cur_running_thr s c" and "p \<noteq> idle_thr s c" and "tcbs s p = Some t" and "state t = NORMAL"
  shows "(\<exists>s1. op_make_runnable c p s = Inr s1 \<and> op_block c p s1 = Inr (s, p)) \<and>
     (\<exists>s1 q s2. op_block c p s = Inr (s1, q) \<and> q \<noteq> p \<and> op_make_runnable c p s1 = Inr s2 \<and> core_inv c s2 \<and>
       p \<in> set (queues s2 c) \<and> tcbs s2 p = Some t)"
proof -
  have p: "p \<noteq> NULL" using assms(1,2) by (auto simp: core_inv_def ready_def)
  have t: "t\<lparr>state := NORMAL\<rparr> = t" using assms(5) by (cases t) simp
  have "s\<lparr>tcbs := (tcbs s)(p \<mapsto> t)\<rparr> = s" using assms(4) by (simp add: fun_upd_idem)
  then have s: "s\<lparr>tcbs := (tcbs s)(p \<mapsto> t\<lparr>state := NORMAL\<rparr>)\<rparr> = s" unfolding t .
  have A: "\<exists>s1. op_make_runnable c p s = Inr s1 \<and> op_block c p s1 = Inr (s, p)"
    using assms(4,5) p s by (simp add: op_make_runnable_def op_block_def)
  let ?s = "s\<lparr>tcbs := (tcbs s)(p \<mapsto> t\<lparr>state := BLOCKED\<rparr>)\<rparr>"
  obtain s1 q where s1: "pick_next c p ?s = Inr (s1, q)" "core_inv c s1" "q \<noteq> p" "tcbs s1 = tcbs ?s" "cur_running_thr s1 c = q"
    using pick_next_inv [OF others_ready [OF assms(1-4)]] by blast
  have tp: "tcbs s1 p = Some (t\<lparr>state := BLOCKED\<rparr>)" using s1(4) by simp
  obtain s2 where s2: "op_make_runnable c p s1 = Inr s2" "core_inv c s2" using op_make_runnable_inv [OF s1(2) tp _ p] by auto
  have "s2 = s1\<lparr>tcbs := (tcbs s1)(p \<mapsto> t), queues := (queues s1)(c := queues s1 c @ [p])\<rparr>"
    using s2(1) tp p t by (simp add: op_make_runnable_def scheduler_make_runnable_def)
  with s1 s2 have "\<exists>s1 q s2. op_block c p s = Inr (s1, q) \<and> q \<noteq> p \<and> op_make_runnable c p s1 = Inr s2 \<and> core_inv c s2 \<and>
       p \<in> set (queues s2 c) \<and> tcbs s2 p = Some t"
    using assms(4,5) by (simp add: op_block_def)
  with A show ?thesis by blast
qed

theorem block_wakeup_race_witness:
  "(\<exists>s1. op_make_runnable 1 0x203FE0 core_example = Inr s1 \<and> op_block 1 0x203FE0 s1 = Inr (core_example, 0x203FE0)) \<and>
   (\<exists>s1 q s2. op_block 1 0x203FE0 core_example = Inr (s1, q) \<and> q \<noteq> 0x203FE0 \<and> op_make_runnable 1 0x203FE0 s1 = Inr s2 \<and> core_inv 1 s2 \<and>
       0x203FE0 \<in> set (queues s2 1) \<and> tcbs s2 0x203FE0 = Some (tcb_example 1 0x203F00 NORMAL))"
proof -
  have h: "0x203FE0 = cur_running_thr core_example 1" "0x203FE0 \<noteq> idle_thr core_example 1"
    "tcbs core_example 0x203FE0 = Some (tcb_example 1 0x203F00 NORMAL)" "state (tcb_example 1 0x203F00 NORMAL) = NORMAL"
    by (simp_all add: core_example_def tcb_example_def)
  show ?thesis by (rule block_wakeup_race [OF core_example_inv h])
qed

section \<open>Copying a kernel stack\<close>

text \<open>Addresses as offsets of a stack.\<close>

definition stk :: "u32 \<Rightarrow> nat \<Rightarrow> u32" where
  "stk b i = b + word_of_nat i"

lemma off_diff:
  assumes "i < 8192" and "j < 8192"
  shows "unat (stk b i - stk b j) = (if j \<le> i then i - j else 2 ^ 32 - (j - i))"
proof -
  have e: "stk b i - stk b j = (word_of_int (int i - int j) :: u32)" by (simp add: stk_def)
  have "uint (word_of_int (int i - int j) :: u32) = (int i - int j) mod 2 ^ 32" unfolding uint_word_of_int by simp
  also have "\<dots> = (if j \<le> i then int (i - j) else int (2 ^ 32 - (j - i)))"
  proof (cases "j \<le> i")
    case True
    then have "0 \<le> int i - int j" "int i - int j < 2 ^ 32" using assms by auto
    then show ?thesis using True by (simp add: of_nat_diff mod_pos_pos_trivial)
  next
    case False
    then have "(int i - int j) mod 2 ^ 32 = (int i - int j + 2 ^ 32) mod 2 ^ 32" by simp
    also have "\<dots> = int i - int j + 2 ^ 32" using False assms by (intro mod_pos_pos_trivial) auto
    finally show ?thesis using False assms by (simp add: of_nat_diff)
  qed
  finally have "uint (word_of_int (int i - int j) :: u32) = (if j \<le> i then int (i - j) else int (2 ^ 32 - (j - i)))" .
  then show ?thesis unfolding e unat_eq_nat_uint by (simp split: if_splits)
qed

lemma wr32_off:
  assumes "i < 8192" and "j < 8188" and "i < j \<or> j + 4 \<le> i"
  shows "wr32 (stk b j) v m (stk b i) = m (stk b i)"
  using assms by (intro wr32_other) (auto simp: off_diff)

lemma add_off: "stk b j + word_of_nat k = stk b (j + k)"
  by (simp add: stk_def)

lemma rd32_cong:
  assumes "\<forall>k < 4. m (a + word_of_nat k) = m' (b + word_of_nat k)"
  shows "rd32 a m = rd32 b m'"
  using assms [rule_format, of 0] assms [rule_format, of 1] assms [rule_format, of 2] assms [rule_format, of 3]
  by (simp add: rd32_def)

lemma rd32_wr32_off:
  assumes "i < 8188" and "j < 8188" and "i + 4 \<le> j \<or> j + 4 \<le> i"
  shows "rd32 (stk b i) (wr32 (stk b j) v m) = rd32 (stk b i) m"
proof (rule rd32_cong, intro allI impI)
  fix k :: nat assume "k < 4"
  then show "wr32 (stk b j) v m (stk b i + word_of_nat k) = m (stk b i + word_of_nat k)"
    unfolding add_off using assms by (intro wr32_off) auto
qed

lemma kmemcpy_off:
  assumes "off \<le> i" and "i < 8160" and "off < 8160"
  shows "kmemcpy (stk bn off) (stk bo off) (8160 - off) m (stk bn i) = m (stk bo i)"
proof -
  have "unat (stk bn i - stk bn off) < 8160 - off" using assms by (simp add: off_diff)
  moreover have "stk bo off + (stk bn i - stk bn off) = stk bo i" by (simp add: stk_def)
  ultimately show ?thesis by (simp add: kmemcpy_def)
qed

lemma rd32_kmemcpy:
  assumes "off \<le> i" and "i + 4 \<le> 8160" and "off < 8160"
  shows "rd32 (stk bn i) (kmemcpy (stk bn off) (stk bo off) (8160 - off) m) = rd32 (stk bo i) m"
proof (rule rd32_cong, intro allI impI)
  fix d :: nat assume "d < 4"
  then show "kmemcpy (stk bn off) (stk bo off) (8160 - off) m (stk bn i + word_of_nat d) = m (stk bo i + word_of_nat d)"
    unfolding add_off using assms by (intro kmemcpy_off) auto
qed

lemma wr32_outside:
  assumes a: "8160 - off \<le> unat (a - stk b off)" and j: "off \<le> j" "j + 4 \<le> 8160"
  shows "wr32 (stk b j) v m a = m a"
proof (rule wr32_other)
  define w :: u32 where "w = word_of_nat (j - off)"
  have e: "a - stk b j = (a - stk b off) - w" using j(1) by (simp add: w_def stk_def of_nat_diff)
  have u: "unat w = j - off" unfolding w_def using j by (intro unat_word_of_nat32) simp
  then have "w \<le> a - stk b off" using a j by (simp add: word_le_nat_alt)
  then have "unat ((a - stk b off) - w) = unat (a - stk b off) - (j - off)" by (simp add: unat_sub u)
  then show "4 \<le> unat (a - stk b j)" unfolding e using a j by simp
qed

text \<open>The copy is one \<open>memcpy\<close> and three words.\<close>

lemma copy_kstack_writes:
  fixes bo bn :: u32
  assumes "off + 60 \<le> k" and "k + 4 \<le> 8160" and "rd32 (stk bo (off + 56)) m = stk bo k"
  shows "copy_kstack (stk bo off) (word_of_nat (8160 - off)) (stk bn 8160) m =
    wr32 (stk bn k) (rd32 (stk bo k) m + (bn - bo)) (wr32 (stk bn (off + 56)) (stk bn k) (wr32 (stk bn (off + 12)) (stk bn 8160)
      (kmemcpy (stk bn off) (stk bo off) (8160 - off) m)))"
proof -
  have off: "off < 8100" using assms(1,2) by simp
  have len: "unat (word_of_nat (8160 - off) :: u32) = 8160 - off" by (intro unat_word_of_nat32) simp
  have nesp: "stk bn 8160 - word_of_nat (8160 - off) = stk bn off" using off by (simp add: stk_def of_nat_diff)
  define m1 where "m1 = kmemcpy (stk bn off) (stk bo off) (8160 - off) m"
  define m2 where "m2 = wr32 (stk bn (off + 12)) (stk bn 8160) m1"
  define m3 where "m3 = wr32 (stk bn (off + 56)) (stk bn k) m2"
  have e56: "rd32 (stk bn (off + 56)) m2 = stk bo k"
    unfolding m2_def m1_def using rd32_wr32_off [of "off + 56" "off + 12" bn] rd32_kmemcpy [of off "off + 56"] off assms(1-3) by simp
  have ek: "rd32 (stk bn k) m3 = rd32 (stk bo k) m"
    unfolding m3_def m2_def m1_def using rd32_wr32_off [of k _ bn] rd32_kmemcpy [of off k] assms(1,2) by simp
  have l56: "rd32 (stk bn (off + 56)) m3 = stk bn k" by (simp only: m3_def rd32_wr32)
  have "stk bn off - stk bo off = bn - bo" "stk bn off + 12 = stk bn (off + 12)" "stk bn off + 56 = stk bn (off + 56)"
    "stk bo k + (bn - bo) = stk bn k" by (simp_all add: stk_def)
  note p = this
  show ?thesis
    unfolding copy_kstack_def Let_def nesp len p(2,3) get_last_ebp_def p(1) m1_def [symmetric]
      m2_def [symmetric] e56 p(4) m3_def [symmetric] l56 ek ..
qed

text \<open>C20: a forked thread's stack is a relocated copy. For two 8 KB stacks and a saved stack pointer at
  offset \<open>off\<close> whose saved frame pointer refers to offset \<open>k\<close> of the old stack, the new stack holds the same
  bytes at the same offsets, except for three words: the saved top of stack is the new thread's, the saved
  frame pointer refers to offset \<open>k\<close> of the new stack, and the frame pointer stored there is moved by the
  distance of the stacks. No byte outside the new stack is written.\<close>

theorem copy_kstack_correct:
  fixes bo bn :: u32
  assumes "off + 60 \<le> k" and "k + 4 \<le> 8160" and "rd32 (stk bo (off + 56)) m = stk bo k"
  defines "m' \<equiv> copy_kstack (stk bo off) (word_of_nat (8160 - off)) (stk bn 8160) m"
  shows "rd32 (stk bn (off + 12)) m' = stk bn 8160 \<and>
     rd32 (stk bn (off + 56)) m' = stk bn k \<and>
     rd32 (stk bn k) m' = rd32 (stk bo k) m + (bn - bo) \<and>
     (\<forall>i. off \<le> i \<and> i < 8160 \<and> i \<notin> {off + 12 ..< off + 16} \<union> {off + 56 ..< off + 60} \<union> {k ..< k + 4} \<longrightarrow>
        m' (stk bn i) = m (stk bo i)) \<and>
     (\<forall>a. 8160 - off \<le> unat (a - (stk bn off)) \<longrightarrow> m' a = m a)"
proof -
  let ?m1 = "kmemcpy (stk bn off) (stk bo off) (8160 - off) m"
  have m': "m' = wr32 (stk bn k) (rd32 (stk bo k) m + (bn - bo)) (wr32 (stk bn (off + 56)) (stk bn k) (wr32 (stk bn (off + 12)) (stk bn 8160) ?m1))"
    unfolding m'_def by (rule copy_kstack_writes [OF assms(1-3)])
  have "rd32 (stk bn (off + 12)) m' = stk bn 8160"
    unfolding m' using rd32_wr32_off [of "off + 12" _ bn] assms(1,2) by simp
  moreover have "rd32 (stk bn (off + 56)) m' = stk bn k"
    unfolding m' using rd32_wr32_off [of "off + 56" k bn] assms(1,2) by simp
  moreover have "rd32 (stk bn k) m' = rd32 (stk bo k) m + (bn - bo)" by (simp only: m' rd32_wr32)
  moreover have "m' (stk bn i) = m (stk bo i)"
    if "off \<le> i" "i < 8160" "i \<notin> {off + 12 ..< off + 16} \<union> {off + 56 ..< off + 60} \<union> {k ..< k + 4}" for i
  proof -
    have "m' (stk bn i) = ?m1 (stk bn i)" unfolding m' using that assms(1,2) wr32_off [of i _ bn] by auto
    with kmemcpy_off [of off i bn bo m] that assms(1,2) show ?thesis by simp
  qed
  moreover have "m' a = m a" if a: "8160 - off \<le> unat (a - (stk bn off))" for a
  proof -
    have "?m1 a = m a" using a by (simp add: kmemcpy_def)
    then show ?thesis unfolding m' using wr32_outside [OF a] assms(1,2) by simp
  qed
  ultimately show ?thesis by blast
qed

theorem copy_kstack_correct_witness:
  "\<exists>m m'. m' = copy_kstack (stk 0x200000 8000) (word_of_nat (8160 - 8000)) (stk 0x202000 8160) m \<and>
     rd32 (stk 0x202000 (8000 + 56)) m' = stk 0x202000 8100"
proof -
  define m where "m = wr32 (stk 0x200000 (8000 + 56)) (stk 0x200000 8100) (\<lambda>_. 0)"
  have "rd32 (stk 0x200000 (8000 + 56)) m = stk 0x200000 8100" by (simp only: m_def rd32_wr32)
  from copy_kstack_correct [OF _ _ this, where bn = "0x202000"] show ?thesis by (rule_tac x = m in exI) simp
qed

section \<open>\<open>thread_fork\<close>\<close>

lemma internal_thread_fork_spec:
  assumes "tcbs s p = Some t" and "kstacks s = k # ks" and "k \<noteq> NULL" and "unat k mod 8192 = 0" and "k + 8160 \<noteq> p"
    and "k + 8160 \<noteq> NULL" and "heap s = m # hs" and "m \<noteq> NULL"
  shows "\<exists>s' n. internal_thread_fork c p s = Inr (s', k + 8160) \<and> tcbs s' = (tcbs s)(k + 8160 \<mapsto> n) \<and>
     tid n = id_count s + 1 \<and> pcb n = pcb t \<and> state n = NORMAL \<and> swexn_struct n = NULL \<and>
     pcbs s' = pcbs s \<and> queues s' = queues s \<and> id_count s' = id_count s + 1 \<and> idle_thr s' = idle_thr s \<and>
     cur_running_thr s' = cur_running_thr s \<and> my_msg n = m \<and> msgs s' = (msgs s)(m \<mapsto> raw_msg) \<and> msg_queues s' = msg_queues s \<and>
     num_worker_cores s' = num_worker_cores s"
proof -
  let ?n = "\<lparr>k_stack_esp = k + 8160 - (tcb_get_high_addr (k_stack_esp t) - k_stack_esp t), tid = id_count s + 1, pcb = pcb t,
    result = sint (rd32 (8172 + k) (kmem s)), state = NORMAL, swexn_struct = NULL, my_msg = m, ori_cpu = int c\<rparr>"
  have e: "tcb_get_high_addr k = k + 8160" using stack_entry [OF assms(4), of 0] by (simp add: tcb_get_entry_def)
  show ?thesis
    using assms(1-3,5-8)
    by (auto simp: internal_thread_fork_def tcb_create_thread_only_def smemalign_stack_def kmalloc_def
        tcb_get_entry_def e Let_def intro!: exI [of _ ?n])
qed

text \<open>\<open>thread_fork\<close>. With memory available the caller gets the new thread's id, which is one more than the
  last id given out, and goes to the end of the run queue; the new thread belongs to the same task, whose
  thread count grows by one, has result 0 and no exception handler, and runs next. The soundness of the
  run queue is kept.\<close>

theorem thread_fork_correct:
  assumes "core_inv c s" and "p = cur_running_thr s c" and "tcbs s p = Some t" and "pcbs s (pcb t) = Some task"
    and "kstacks s = k # ks" and "k \<noteq> NULL" and "unat k mod 8192 = 0" and "k + 8160 \<noteq> NULL" and "tcbs s (k + 8160) = None"
    and "heap s = m # hs" and "m \<noteq> NULL"
  shows "\<exists>s' n. context_switch_get_next env c OP_THREAD_FORK arg p s = Inr (s', k + 8160) \<and>
     tcbs s' p = Some (t\<lparr>result := id_count s + 1\<rparr>) \<and>
     tcbs s' (k + 8160) = Some n \<and> result n = 0 \<and> tid n = id_count s + 1 \<and> pcb n = pcb t \<and> swexn_struct n = NULL \<and>
     pcbs s' (pcb t) = Some (task\<lparr>cur_thr_num := cur_thr_num task + 1\<rparr>) \<and>
     queues s' c = queues s c @ [p] \<and> cur_running_thr s' c = k + 8160 \<and> core_inv c s' \<and>
     (m \<notin> set (inbox c s) \<longrightarrow> core_moves c {k + 8160} s s')"
proof -
  have ne: "k + 8160 \<noteq> p" using assms(3,9) by auto
  obtain s1 n where s1: "internal_thread_fork c p s = Inr (s1, k + 8160)" "tcbs s1 = (tcbs s)(k + 8160 \<mapsto> n)"
     "tid n = id_count s + 1" "pcb n = pcb t" "state n = NORMAL" "swexn_struct n = NULL"
     "pcbs s1 = pcbs s" "queues s1 = queues s" "idle_thr s1 = idle_thr s" "cur_running_thr s1 = cur_running_thr s"
     "msgs s1 = (msgs s)(m \<mapsto> raw_msg)" "msg_queues s1 = msg_queues s"
    using internal_thread_fork_spec [OF assms(3,5-7) ne assms(8,10,11)] by blast
  define s2 where "s2 = s1\<lparr>tcbs := (tcbs s)(k + 8160 \<mapsto> n\<lparr>result := 0\<rparr>, p \<mapsto> t\<lparr>result := id_count s + 1\<rparr>),
     pcbs := (pcbs s)(pcb t \<mapsto> task\<lparr>cur_thr_num := cur_thr_num task + 1\<rparr>),
     queues := (queues s)(c := queues s c @ [p]), cur_running_thr := (cur_running_thr s)(c := k + 8160)\<rparr>"
  have "context_switch_get_next env c OP_THREAD_FORK arg p s = Inr (s2, k + 8160)"
    using s1 ne assms(3,4,8)
    by (simp add: context_switch_get_next_def op_codes op_thread_fork_def scheduler_make_runnable_def set_running_def s2_def
        fun_upd_twist [of "k + 8160" p])
  moreover have r: "ready s2 q" if "ready s q" for q using that assms(3) s1(5) by (auto simp: ready_def s2_def)
  moreover have "core_inv c s2"
  proof -
    have "ready s2 (k + 8160)" using assms(8) s1(5) ne by (simp add: ready_def s2_def)
    moreover have "queues s2 c = queues s c @ [p]" "cur_running_thr s2 c = k + 8160" "idle_thr s2 = idle_thr s"
      using s1 by (simp_all add: s2_def)
    moreover have "k + 8160 \<notin> set (queues s c)" using assms(1,9) by (auto simp: core_inv_def ready_def)
    ultimately show ?thesis using assms(1,2) ne r by (auto simp: core_inv_def)
  qed
  moreover have "m \<notin> set (inbox c s) \<longrightarrow> core_moves c {k + 8160} s s2"
    using r s1 assms(2) by (auto simp: core_moves_def inbox_def s2_def)
  moreover have "tcbs s2 p = Some (t\<lparr>result := id_count s + 1\<rparr>)" "tcbs s2 (k + 8160) = Some (n\<lparr>result := 0\<rparr>)"
    "pcbs s2 (pcb t) = Some (task\<lparr>cur_thr_num := cur_thr_num task + 1\<rparr>)" "queues s2 c = queues s c @ [p]" "cur_running_thr s2 c = k + 8160"
    using ne by (simp_all add: s2_def)
  ultimately show ?thesis using s1 by auto
qed

definition pcb_example :: pcb_t where
  "pcb_example = \<lparr>pid = 1, page_table_base = 0x100000, ppid = 0, status = 0, cur_thr_num = 1, task_pt_locks = []\<rparr>"

definition fork_example :: kst where
  "fork_example = core_example\<lparr>pcbs := [0x400000 \<mapsto> pcb_example], kstacks := [0x210000]\<rparr>"

lemma fork_example_facts:
  "core_inv 1 fork_example" "0x203FE0 = cur_running_thr fork_example 1"
  "tcbs fork_example 0x203FE0 = Some (tcb_example 1 0x203F00 NORMAL)"
  "pcbs fork_example (pcb (tcb_example 1 0x203F00 NORMAL)) = Some pcb_example"
  "kstacks fork_example = [0x210000]" "heap fork_example = [0x300000, 0x300040]"
  "tcbs fork_example (0x210000 + 8160) = None"
proof -
  show "core_inv 1 fork_example" using core_example_inv by (simp add: core_inv_def ready_def fork_example_def)
qed (simp_all add: fork_example_def core_example_def kst_example_def tcb_example_def)

theorem thread_fork_correct_witness:
  "\<exists>s' n. context_switch_get_next (\<lambda>s. Inr (s, 1)) 1 OP_THREAD_FORK 0 0x203FE0 fork_example = Inr (s', 0x210000 + 8160) \<and>
     tcbs s' 0x203FE0 = Some ((tcb_example 1 0x203F00 NORMAL)\<lparr>result := id_count fork_example + 1\<rparr>) \<and>
     tcbs s' (0x210000 + 8160) = Some n \<and> result n = 0 \<and> tid n = id_count fork_example + 1 \<and>
     pcb n = pcb (tcb_example 1 0x203F00 NORMAL) \<and> swexn_struct n = NULL \<and>
     pcbs s' (pcb (tcb_example 1 0x203F00 NORMAL)) = Some (pcb_example\<lparr>cur_thr_num := cur_thr_num pcb_example + 1\<rparr>) \<and>
     queues s' 1 = queues fork_example 1 @ [0x203FE0] \<and> cur_running_thr s' 1 = 0x210000 + 8160 \<and> core_inv 1 s'"
  using thread_fork_correct [OF fork_example_facts(1-5) _ _ _ fork_example_facts(7,6), where env = "\<lambda>s. Inr (s, 1)" and arg = 0] by auto

section \<open>Choosing the next thread\<close>

lemma internal_thread_fork_none:
  assumes "tcbs s p = Some t" and "no_memory s"
  shows "\<exists>s'. internal_thread_fork c p s = Inr (s', NULL) \<and> tcbs s' = tcbs s \<and> queues s' = queues s \<and> idle_thr s' = idle_thr s \<and>
     cur_running_thr s' = cur_running_thr s \<and> msgs s' = msgs s \<and> msg_queues s' = msg_queues s"
  using assms
  by (auto simp: internal_thread_fork_def tcb_create_thread_only_def smemalign_stack_def kmalloc_def kfree_def no_memory_def
      split: list.splits)

lemma memory_at_hand:
  assumes "\<not> no_memory s" and "fresh_memory c s"
  obtains k ks m hs where "kstacks s = k # ks" "k \<noteq> NULL" "unat k mod 8192 = 0" "k + 8160 \<noteq> NULL" "tcbs s (k + 8160) = None"
    "heap s = m # hs" "m \<noteq> NULL" "m \<notin> set (inbox c s)"
proof -
  obtain k ks m hs where "kstacks s = k # ks" "k \<noteq> NULL" "heap s = m # hs" "m \<noteq> NULL"
    using assms(1) by (auto simp: no_memory_def split: list.splits)
  moreover have "k + 8160 \<noteq> NULL" if "unat k mod 8192 = 0" for k :: u32
  proof
    assume "k + 8160 = NULL"
    then have "k = - 8160" by (simp add: eq_neg_iff_add_eq_0)
    then show False using that by simp
  qed
  ultimately show ?thesis using assms(2) that by (auto simp: fresh_memory_def)
qed

text \<open>A core that only changed results or spare memory is as before.\<close>

lemma error_result_inv:
  fixes v :: int
  assumes inv: "core_inv c s" "inbox_inv c s" and s1: "tcbs s1 = tcbs s" "queues s1 = queues s" "idle_thr s1 = idle_thr s"
    "cur_running_thr s1 = cur_running_thr s" "msgs s1 = msgs s" "msg_queues s1 = msg_queues s"
    and t: "tcbs s q = Some t"
  defines "s2 \<equiv> s1\<lparr>tcbs := (tcbs s1)(q \<mapsto> t\<lparr>result := v\<rparr>)\<rparr>"
  shows "core_inv c s2 \<and> inbox_inv c s2 \<and> cur_running_thr s2 c = cur_running_thr s c"
proof -
  have r: "ready s2 = ready s" using s1(1) t by (auto simp: ready_def s2_def fun_eq_iff)
  have "core_moves c {} s s2" using s1 r by (auto simp: core_moves_def inbox_def s2_def)
  then show ?thesis using moves_inbox [OF inv(2)] inv(1) s1 r by (auto simp: core_inv_def s2_def)
qed

lemma thread_fork_inv:
  assumes inv: "core_inv c s" "inbox_inv c s" and "fresh_memory c s" and "has_task c s"
  shows "\<exists>s' new. context_switch_get_next env c OP_THREAD_FORK arg (cur_running_thr s c) s = Inr (s', new) \<and> core_inv c s' \<and> inbox_inv c s' \<and>
     cur_running_thr s' c = new"
proof -
  obtain t task where t: "tcbs s (cur_running_thr s c) = Some t" "pcbs s (pcb t) = Some task"
    using assms(4) by (auto simp: has_task_def task_of_running_def split: option.splits)
  show ?thesis
  proof (cases "no_memory s")
    case True
    then obtain s1 where s1: "internal_thread_fork c (cur_running_thr s c) s = Inr (s1, NULL)" "tcbs s1 = tcbs s" "queues s1 = queues s"
      "idle_thr s1 = idle_thr s" "cur_running_thr s1 = cur_running_thr s" "msgs s1 = msgs s" "msg_queues s1 = msg_queues s"
      using internal_thread_fork_none [OF t(1)] by blast
    then show ?thesis using error_result_inv [OF inv s1(2-7) t(1), where v = ENOMEM] t(1)
      by (simp add: context_switch_get_next_def op_codes op_thread_fork_def)
  next
    case False
    then obtain k ks m hs where k: "kstacks s = k # ks" "k \<noteq> NULL" "unat k mod 8192 = 0" "k + 8160 \<noteq> NULL" "tcbs s (k + 8160) = None"
        "heap s = m # hs" "m \<noteq> NULL" "m \<notin> set (inbox c s)"
      using memory_at_hand [OF _ assms(3)] by metis
    obtain s' where s': "context_switch_get_next env c OP_THREAD_FORK arg (cur_running_thr s c) s = Inr (s', k + 8160)"
        "cur_running_thr s' c = k + 8160" "core_inv c s'" "core_moves c {k + 8160} s s'"
      using thread_fork_correct [OF inv(1) refl t k(1-7)] k(8) by blast
    have "{k + 8160} \<inter> set (awaited c s) = {}" using inv(2) k(5) by (auto simp: inbox_inv_def ready_def)
    from moves_inbox [OF inv(2) s'(4) this] s' show ?thesis by blast
  qed
qed

lemma fork_error_inv:
  assumes inv: "core_inv c s" "inbox_inv c s" and "has_task c s" and "many_threads c s \<or> no_memory s"
  shows "\<exists>s'. context_switch_get_next env c OP_FORK arg (cur_running_thr s c) s = Inr (s', cur_running_thr s c) \<and> core_inv c s' \<and>
     inbox_inv c s' \<and> cur_running_thr s' c = cur_running_thr s c"
proof -
  obtain t task where t: "tcbs s (cur_running_thr s c) = Some t" "pcbs s (pcb t) = Some task"
    using assms(3) by (auto simp: has_task_def task_of_running_def split: option.splits)
  show ?thesis
  proof (cases "many_threads c s")
    case True
    then show ?thesis using t error_result_inv [OF inv refl refl refl refl refl refl t(1), where v = EMORETHR]
      by (simp add: context_switch_get_next_def op_codes op_fork_def many_threads_def task_of_running_def)
  next
    case False
    then obtain s1 where s1: "internal_thread_fork c (cur_running_thr s c) s = Inr (s1, NULL)" "tcbs s1 = tcbs s" "queues s1 = queues s"
      "idle_thr s1 = idle_thr s" "cur_running_thr s1 = cur_running_thr s" "msgs s1 = msgs s" "msg_queues s1 = msg_queues s"
      using internal_thread_fork_none [OF t(1)] assms(4) by blast
    then show ?thesis using False error_result_inv [OF inv s1(2-7) t(1), where v = ENOMEM] t
      by (simp add: context_switch_get_next_def op_codes op_fork_def many_threads_def task_of_running_def)
  qed
qed

text \<open>A thread other than the idle one that forks with memory at hand sends its request and leaves the core to
  another thread. \<open>s'\<close> is the state in which the rest of the system takes over: what it answers is what the
  operation answers.\<close>

lemma fork_sends_request:
  assumes inv: "core_inv c s" "inbox_inv c s" and c: "0 < c" "c \<le> num_worker_cores s" and run: "this = cur_running_thr s c" "this \<noteq> idle_thr s c"
    and t: "tcbs s this = Some t" "pcbs s (pcb t) = Some task" "cur_thr_num task \<le> 1" "msgs s (my_msg t) \<noteq> None" "my_msg t \<notin> set (inbox c s)"
    and k: "kstacks s = k # ks" "k \<noteq> NULL" "unat k mod 8192 = 0" "k + 8160 \<noteq> NULL" "tcbs s (k + 8160) = None"
    and m: "heap s = m # hs" "m \<noteq> NULL" "m \<notin> set (inbox c s)" "m \<noteq> my_msg t"
  shows "\<exists>s' next req. core_inv c s' \<and> inbox_inv c s' \<and> cur_running_thr s' c = next \<and> next \<noteq> this \<and>
     msg_queues s' ((c - 1) * 2) = msg_queues s ((c - 1) * 2) @ [my_msg t] \<and> msgs s' (my_msg t) = Some req \<and> mtype req = FORK \<and>
     req_thr req = this \<and> fork_new_thr req = k + 8160 \<and>
     (\<forall>env e. env s' = Inl e \<longrightarrow> context_switch_get_next env c OP_FORK arg this s = Inl e)"
proof -
  have ne: "k + 8160 \<noteq> this" using t(1) k(5) by auto
  obtain s1 n where s1: "internal_thread_fork c this s = Inr (s1, k + 8160)" "tcbs s1 = (tcbs s)(k + 8160 \<mapsto> n)"
     "tid n = id_count s + 1" "state n = NORMAL" "pcbs s1 = pcbs s" "queues s1 = queues s" "idle_thr s1 = idle_thr s"
     "cur_running_thr s1 = cur_running_thr s" "my_msg n = m" "msgs s1 = (msgs s)(m \<mapsto> raw_msg)" "msg_queues s1 = msg_queues s"
     "num_worker_cores s1 = num_worker_cores s"
    using internal_thread_fork_spec [OF t(1) k(1-3) ne k(4) m(1,2)] by blast
  obtain r where r: "msgs s (my_msg t) = Some r" using t(4) by blast
  define req where "req = fork_data (k + 8160) 0 (tid n) (pid task) (r\<lparr>req_thr := this, req_cpu := int c, mtype := FORK\<rparr>)"
  define s2 where "s2 = s1\<lparr>tcbs := (tcbs s1)(k + 8160 \<mapsto> n\<lparr>result := 0\<rparr>),
     msgs := (msgs s1)(my_msg t \<mapsto> req, m \<mapsto> raw_msg\<lparr>mtype := FORK_RESPONSE, d0 := uint (my_msg t)\<rparr>)\<rparr>"
  have rd: "ready s2 q" if "ready s q" for q using that k(5) s1(2,4) by (auto simp: ready_def s2_def)
  have e: "queues s2 = queues s" "cur_running_thr s2 = cur_running_thr s" "idle_thr s2 = idle_thr s" "num_worker_cores s2 = num_worker_cores s"
    "msg_queues s2 = msg_queues s" "tcbs s2 this = Some t" "msgs s2 (my_msg t) = Some req"
    using s1 ne t(1) m(4) by (simp_all add: s2_def)
  have i2: "core_inv c s2" using inv(1) rd e by (auto simp: core_inv_def)
  have "core_moves c {} s s2" using rd e t(5) m(3) s1(10) by (auto simp: core_moves_def inbox_def s2_def)
  from moves_inbox [OF inv(2) this] have b2: "inbox_inv c s2" by simp
  obtain s3 nxt where s3: "op_send_msg c this s2 = Inr (s3, nxt)" "core_inv c s3" "cur_running_thr s3 c = nxt" "core_moves c {} s2 s3" "nxt \<noteq> this"
      "msg_queues s3 ((c - 1) * 2) = msg_queues s2 ((c - 1) * 2) @ [my_msg t]" "msgs s3 = msgs s2"
    using op_send_msg_inv [OF i2, of t] e run c by auto
  have b3: "inbox_inv c s3" using moves_inbox [OF b2 s3(4)] by simp
  have "context_switch_get_next env c OP_FORK arg this s = Inl e" if "env s3 = Inl e" for env e
    using that t r s1 run(2) s3(1,5) k(4) m(4) ne
    by (simp add: context_switch_get_next_def op_codes op_fork_def switch_send_msg_def come_back_def Let_def s2_def req_def)
  moreover have "mtype req = FORK" "req_thr req = this" "fork_new_thr req = k + 8160" by (simp_all add: req_def)
  ultimately show ?thesis using s3 b3 e(5,7) by (intro exI [of _ s3] exI [of _ nxt] exI [of _ req]) simp
qed

lemma sint_minus_1: "sint (a :: u32) = - 1 \<longleftrightarrow> a = - 1"
  by (metis signed_minus_1 signed_word_eqI)

text \<open>The running thread can fork: it is not the idle one and is alone in its task, memory is at hand and is
  not in use, and its message is neither waiting for the core nor handed out again.\<close>

definition can_fork :: "nat \<Rightarrow> kst \<Rightarrow> bool" where
  "can_fork c s \<longleftrightarrow> cur_running_thr s c \<noteq> idle_thr s c \<and> has_task c s \<and> \<not> many_threads c s \<and> \<not> no_memory s \<and> fresh_memory c s \<and>
     (case tcbs s (cur_running_thr s c) of None \<Rightarrow> False | Some t \<Rightarrow> msgs s (my_msg t) \<noteq> None \<and> my_msg t \<notin> set (inbox c s) \<and>
        my_msg t \<noteq> hd (heap s))"

lemma get_next_in_order:
  assumes inv: "core_inv c s" "inbox_inv c s" and c: "0 < c" "c \<le> num_worker_cores s" and ord: "in_order c op arg s"
    and go: "op \<in> {OP_CONTEXT_SWITCH, OP_YIELD} \<and> arg = - 1 \<longrightarrow> \<not> told_to_halt c s"
  shows "\<exists>s' new. context_switch_get_next env c op arg (cur_running_thr s c) s = Inr (s', new) \<and> core_inv c s' \<and> inbox_inv c s' \<and>
     cur_running_thr s' c = new"
proof -
  have away: "{p} \<inter> set (awaited c s) = {}" if "tcbs s p = Some u" "state u = BLOCKED" for p u
    using inv(2) that by (auto simp: inbox_inv_def ready_def)
  obtain me where me: "tcbs s (cur_running_thr s c) = Some me" by (rule core_inv_run [OF inv(1)])
  consider "op = OP_CONTEXT_SWITCH \<or> op = OP_YIELD" | "op = OP_FORK" | "op = OP_THREAD_FORK" | "op = OP_BLOCK" | "op = OP_MAKE_RUNNABLE"
    | "op = OP_RESUME" | "op = OP_SEND_MSG"
    | "op \<notin> {OP_CONTEXT_SWITCH, OP_YIELD, OP_FORK, OP_THREAD_FORK, OP_BLOCK, OP_MAKE_RUNNABLE, OP_RESUME, OP_SEND_MSG}" by blast
  then show ?thesis
  proof cases
    case 1
    then show ?thesis using op_switch_inv [OF inv c] go by (auto simp: context_switch_get_next_def op_codes sint_minus_1)
  next
    case 2
    then have "has_task c s" "many_threads c s \<or> no_memory s" using ord by (simp_all add: in_order_def)
    from fork_error_inv [OF inv this, of env arg] 2 show ?thesis by blast
  next
    case 3
    then have "fresh_memory c s" "has_task c s" using ord by (simp_all add: in_order_def)
    from thread_fork_inv [OF inv this, of env arg] 3 show ?thesis by blast
  next
    case 4
    then show ?thesis using op_block_inv [OF inv(1)] moves_inbox [OF inv(2), of "{}"] ord
      by (fastforce simp: context_switch_get_next_def in_order_def op_codes)
  next
    case 5
    show ?thesis
    proof (cases "arg = NULL")
      case True
      then show ?thesis using 5 inv by (simp add: context_switch_get_next_def op_codes op_make_runnable_def)
    next
      case False
      then obtain u where u: "tcbs s arg = Some u" "state u \<in> {BLOCKED, NORMAL}" using 5 ord by (auto simp: in_order_def op_codes)
      obtain s' where s': "op_make_runnable c arg s = Inr s'" "core_inv c s'" "cur_running_thr s' c = cur_running_thr s c"
          "core_moves c (if state u = BLOCKED then {arg} else {}) s s'" using op_make_runnable_inv [OF inv(1) u False] by blast
      have "inbox_inv c s'" using moves_inbox [OF inv(2) s'(4)] away [OF u(1)] by (simp split: if_splits)
      with s' 5 show ?thesis by (simp add: context_switch_get_next_def op_codes)
    qed
  next
    case 6
    then obtain u where u: "tcbs s arg = Some u" "arg \<noteq> NULL" "state u = BLOCKED \<or> state u = NORMAL \<and> \<not> on_core c arg s"
      using ord by (auto simp: in_order_def op_codes)
    from op_resume_inv [OF inv(1) this] obtain s' where s': "op_resume c arg (cur_running_thr s c) s = Inr (s', arg)" "core_inv c s'"
        "cur_running_thr s' c = arg" "core_moves c {arg} s s'" by blast
    have "inbox_inv c s'" using moves_inbox [OF inv(2) s'(4)] away [OF u(1)] u(3) by (auto simp: on_core_def)
    with s' 6 show ?thesis by (simp add: context_switch_get_next_def op_codes)
  next
    case 7
    then show ?thesis using op_send_msg_inv [OF inv(1) _ c me] moves_inbox [OF inv(2), of "{}"] ord
      by (fastforce simp: context_switch_get_next_def in_order_def op_codes)
  next
    case 8
    then show ?thesis using inv by (simp add: context_switch_get_next_def)
  qed
qed

text \<open>C8: choosing the next thread keeps a worker core sound. Let the run queue be free of repetitions, not
  hold the running thread and hold only threads that can run, and let the messages from the manager that the
  core has not read bring back threads that can run and are not on the core. Then
  (1) every operation code that is in order returns a thread that is then the running one, and the core is
  sound again: switching and yielding with messages pending or not, blocking, making runnable, resuming,
  sending a message, \<open>thread_fork\<close> with and without memory, the two errors of \<open>fork\<close>, any other code;
  only a pending \<open>HALT\<close> message makes a switch to any thread halt the core instead;
  (2) a thread that forks a process sends its \<open>FORK\<close> request to the manager and leaves the core, sound again,
  to another thread (what it does when the manager has answered is not part of the statement; nor is the fork
  by the idle thread at boot);
  (3) the exception: \<open>OP_RESUME\<close> of a thread that has not blocked yet and runs or is queued makes it run and
  leaves it in the queue as well.\<close>

theorem get_next_keeps_core_inv:
  assumes inv: "core_inv c s" "inbox_inv c s" and c: "0 < c" "c \<le> num_worker_cores s"
  shows "(in_order c op arg s \<longrightarrow>
       (if op \<in> {OP_CONTEXT_SWITCH, OP_YIELD} \<and> arg = - 1 \<and> told_to_halt c s
        then context_switch_get_next env c op arg (cur_running_thr s c) s = Inl HALTS
        else \<exists>s' new. context_switch_get_next env c op arg (cur_running_thr s c) s = Inr (s', new) \<and> core_inv c s' \<and> inbox_inv c s' \<and>
          cur_running_thr s' c = new)) \<and>
     (can_fork c s \<longrightarrow> (\<exists>s' next t req. core_inv c s' \<and> inbox_inv c s' \<and> cur_running_thr s' c = next \<and> next \<noteq> cur_running_thr s c \<and>
        tcbs s (cur_running_thr s c) = Some t \<and> msg_queues s' ((c - 1) * 2) = msg_queues s ((c - 1) * 2) @ [my_msg t] \<and>
        msgs s' (my_msg t) = Some req \<and> mtype req = FORK \<and> req_thr req = cur_running_thr s c \<and>
        (\<forall>env e. env s' = Inl e \<longrightarrow> context_switch_get_next env c OP_FORK arg (cur_running_thr s c) s = Inl e))) \<and>
     (\<forall>u. tcbs s arg = Some u \<and> state u = NORMAL \<and> (arg = cur_running_thr s c \<or> arg \<in> set (queues s c)) \<longrightarrow>
        (\<exists>s'. context_switch_get_next env c OP_RESUME arg (cur_running_thr s c) s = Inr (s', arg) \<and> cur_running_thr s' c = arg \<and>
          arg \<in> set (queues s' c) \<and> \<not> core_inv c s'))"
    (is "(_ \<longrightarrow> ?A) \<and> (_ \<longrightarrow> ?B) \<and> ?C")
proof (intro conjI impI)
  assume ord: "in_order c op arg s"
  show ?A
    using op_switch_halts [OF inv(2) c] get_next_in_order [OF inv c ord]
    by (auto simp: context_switch_get_next_def op_codes sint_minus_1)
next
  assume f: "can_fork c s"
  then obtain t task where t: "tcbs s (cur_running_thr s c) = Some t" "pcbs s (pcb t) = Some task" "cur_thr_num task \<le> 1"
    by (auto simp: can_fork_def has_task_def many_threads_def task_of_running_def split: option.splits)
  have "\<not> no_memory s" "fresh_memory c s" using f by (simp_all add: can_fork_def)
  then obtain k ks m hs where k: "kstacks s = k # ks" "k \<noteq> NULL" "unat k mod 8192 = 0" "k + 8160 \<noteq> NULL" "tcbs s (k + 8160) = None"
        "heap s = m # hs" "m \<noteq> NULL" "m \<notin> set (inbox c s)" by (rule memory_at_hand)
  have "cur_running_thr s c \<noteq> idle_thr s c" "msgs s (my_msg t) \<noteq> None" "my_msg t \<notin> set (inbox c s)" "m \<noteq> my_msg t"
    using f t(1) k(6) by (auto simp: can_fork_def)
  from fork_sends_request [OF inv c refl this(1) t this(2,3) k(1-8) this(4), of arg] t(1) show ?B by blast
next
  show ?C using op_resume_scheduled [OF inv(1)] by (auto simp: context_switch_get_next_def op_codes)
qed

text \<open>Core 1 with, in addition, an answer from the manager for a thread that is on its way.\<close>

definition msg_example :: kst where
  "msg_example = core_example\<lparr>tcbs := (tcbs core_example)(0x209FE0 \<mapsto> tcb_example 4 0x209F00 NORMAL),
     msgs := [0x500100 \<mapsto> raw_msg\<lparr>req_thr := 0x209FE0, mtype := RESPONSE\<rparr>], msg_queues := (\<lambda>i. if i = 1 then [0x500100] else [])\<rparr>"

theorem get_next_keeps_core_inv_witness:
  "(\<exists>s' new. context_switch_get_next (\<lambda>s. Inr (s, 1)) 1 OP_YIELD (- 1) (cur_running_thr msg_example 1) msg_example = Inr (s', new) \<and>
     core_inv 1 s' \<and> inbox_inv 1 s' \<and> cur_running_thr s' 1 = new) \<and>
   (\<exists>s'. context_switch_get_next (\<lambda>s. Inr (s, 1)) 1 OP_RESUME 0x205FE0 (cur_running_thr msg_example 1) msg_example = Inr (s', 0x205FE0) \<and>
     \<not> core_inv 1 s')"
proof -
  have i: "core_inv 1 msg_example" using core_example_inv by (auto simp: core_inv_def ready_def msg_example_def core_example_def)
  have b: "inbox_inv 1 msg_example"
    by (simp add: inbox_inv_def inbox_def awaited_def msg_brings_def msg_example_def core_example_def ready_def tcb_example_def)
  have n: "0 < (1 :: nat)" "1 \<le> num_worker_cores msg_example" by (simp_all add: msg_example_def core_example_cores)
  have o: "in_order 1 OP_YIELD (- 1) msg_example" by (simp add: in_order_def op_codes)
  have h: "\<not> told_to_halt 1 msg_example" by (simp add: told_to_halt_def inbox_def msg_example_def)
  have q: "tcbs msg_example 0x205FE0 = Some (tcb_example 2 0x205F00 NORMAL)" "0x205FE0 \<in> set (queues msg_example 1)"
    "state (tcb_example 2 0x205F00 NORMAL) = NORMAL"
    by (simp_all add: msg_example_def core_example_def tcb_example_def)
  note T = get_next_keeps_core_inv [OF i b n, where env = "\<lambda>s. Inr (s, 1)"]
  have "\<exists>s' new. context_switch_get_next (\<lambda>s. Inr (s, 1)) 1 OP_YIELD (- 1) (cur_running_thr msg_example 1) msg_example = Inr (s', new) \<and>
     core_inv 1 s' \<and> inbox_inv 1 s' \<and> cur_running_thr s' 1 = new"
    using conjunct1 [OF T, of OP_YIELD "- 1"] o h by presburger
  moreover have "\<exists>s'. context_switch_get_next (\<lambda>s. Inr (s, 1)) 1 OP_RESUME 0x205FE0 (cur_running_thr msg_example 1) msg_example = Inr (s', 0x205FE0) \<and>
     \<not> core_inv 1 s'"
    using conjunct2 [OF conjunct2 [OF T], rule_format, of "0x205FE0" "tcb_example 2 0x205F00 NORMAL"] q by blast
  ultimately show ?thesis ..
qed

end
