(* ===== verification/Smp_Lifecycle.thy ===== *)
theory Smp_Lifecycle
  imports Run_Queue
begin

text \<open>
  \<open>smp_syscall_lifecycle.c\<close>: how the manager core serves \<open>fork\<close>, \<open>wait\<close> and \<open>vanish\<close>. Every task has a
  \<open>pcb_vanish_wait_t\<close>, found by its pid in a hash table as long as the task lives. The manager core runs one
  thread, so the mutexes of these tables are always free when it takes them.
\<close>

definition ECHILD :: int where "ECHILD = - 10"
definition PID_PCB_HASH_SIZE :: int where "PID_PCB_HASH_SIZE = 1021"

section \<open>The table of tasks\<close>

text \<open>The remainder of C: it has the sign of the dividend.\<close>

definition ht_pid_pcb_hashfunc :: "u32 \<Rightarrow> int" where
  "ht_pid_pcb_hashfunc key =
     (let t = sint key in if t < 0 then - ((- t) mod PID_PCB_HASH_SIZE) else t mod PID_PCB_HASH_SIZE)"

definition set_life :: "(lifecycle \<Rightarrow> lifecycle) \<Rightarrow> kst \<Rightarrow> kst" where
  "set_life f s = s\<lparr>life := f (life s)\<rparr>"

definition get_vw :: "u32 \<Rightarrow> kst \<Rightarrow> pcb_vanish_wait_t kres" where
  "get_vw p s = kderef (tasks (life s)) p"

definition mod_vw :: "u32 \<Rightarrow> (pcb_vanish_wait_t \<Rightarrow> pcb_vanish_wait_t) \<Rightarrow> kst \<Rightarrow> kst kres" where
  "mod_vw p f s = kbind (get_vw p s) (\<lambda>t. Inr (set_life (\<lambda>l. l\<lparr>tasks := (tasks l)(p \<mapsto> f t)\<rparr>) s))"

definition get_task :: "int \<Rightarrow> kst \<Rightarrow> u32 kres" where
  "get_task i s =
     kbind (hashtable_get (word_of_int i) (ht_pid_pcb (life s))) (\<lambda>(v, is_find).
     Inr (if is_find \<noteq> 0 then v else NULL))"

definition ht_put_task :: "int \<Rightarrow> u32 \<Rightarrow> kst \<Rightarrow> (kst \<times> int) kres" where
  "ht_put_task i p s =
     (case kmalloc s of (s, n) \<Rightarrow>
        kbind (hashtable_put (n \<noteq> NULL) (word_of_int i) p (ht_pid_pcb (life s))) (\<lambda>(t, rv).
        Inr (set_life (\<lambda>l. l\<lparr>ht_pid_pcb := t\<rparr>) s, rv)))"

definition ht_remove_task :: "int \<Rightarrow> kst \<Rightarrow> kst kres" where
  "ht_remove_task i s =
     kbind (hashtable_remove (word_of_int i) (ht_pid_pcb (life s))) (\<lambda>(t, v, is_find).
     Inr (set_life (\<lambda>l. l\<lparr>ht_pid_pcb := t\<rparr>) s))"

definition smp_syscall_vanish_init :: "kst \<Rightarrow> kst \<times> int" where
  "smp_syscall_vanish_init s =
     (case kmalloc s of (s, a) \<Rightarrow>
        case hashtable_init (a \<noteq> NULL) ((ht_pid_pcb (life s))\<lparr>ht_size := PID_PCB_HASH_SIZE, func := ht_pid_pcb_hashfunc\<rparr>) of
          (t, rv) \<Rightarrow> (set_life (\<lambda>l. l\<lparr>ht_pid_pcb := t\<rparr>) s, if rv < 0 then - 1 else 0))"

definition create_pcb_vanish_wait_struct :: "int \<Rightarrow> kst \<Rightarrow> (kst \<times> int) kres" where
  "create_pcb_vanish_wait_struct i s =
     (case kmalloc s of (s, process) \<Rightarrow>
      if process = NULL then Inr (s, - 1)
      else
        kbind (ht_put_task i process s) (\<lambda>(s, rv).
        if rv < 0 then Inr (kfree process s, - 1)
        else case kmalloc s of (s, es) \<Rightarrow>
          if es = NULL then kbind (ht_remove_task i s) (\<lambda>s. Inr (kfree process s, - 1))
          else
            let s = set_life (\<lambda>l. l\<lparr>exit_statuses := (exit_statuses l)(es \<mapsto> \<lparr>es_pid = i, es_status = 0\<rparr>)\<rparr>) s in
            case kmalloc s of (s, node) \<Rightarrow>
              if node = NULL then kbind (ht_remove_task i s) (\<lambda>s. Inr (kfree process (kfree es s), - 1))
              else
                Inr (set_life (\<lambda>l. l\<lparr>es_nodes := (es_nodes l)(node \<mapsto> es),
                  tasks := (tasks l)(process \<mapsto> \<lparr>child_exit_status_list = [], exit_status = es, exit_status_node = node,
                     num_alive = 0, num_zombie = 0, wait_queue = []\<rparr>)\<rparr>) s, 0)))"

definition free_pcb_vanish_wait_struct :: "u32 \<Rightarrow> kst \<Rightarrow> kst kres" where
  "free_pcb_vanish_wait_struct p s =
     kbind (get_vw p s) (\<lambda>_. Inr (kfree p (set_life (\<lambda>l. l\<lparr>tasks := (tasks l)(p := None)\<rparr>) s)))"

section \<open>Handlers\<close>

text \<open>After a failure the code goes on: the message is sent a second time.\<close>

definition smp_syscall_fork :: "u32 \<Rightarrow> kst \<Rightarrow> kst kres" where
  "smp_syscall_fork msg s =
     kbind (get_msg msg s) (\<lambda>m.
     kbind (create_pcb_vanish_wait_struct (fork_new_tid m) s) (\<lambda>(s, rv).
     kbind (if rv < 0
            then kbind (mod_msg msg (\<lambda>m. m\<lparr>mtype := FORK_RESPONSE, d1 := - 1\<rparr>) s) (manager_send_msg msg (req_cpu m))
            else Inr s) (\<lambda>s.
     kbind (manager_send_msg msg (fork_next_core (life s) + 1) s) (\<lambda>s.
     Inr (set_life (\<lambda>l. l\<lparr>fork_next_core := (fork_next_core l + 1) mod int (num_worker_cores s)\<rparr>) s)))))"

definition smp_fork_response :: "u32 \<Rightarrow> kst \<Rightarrow> kst kres" where
  "smp_fork_response msg s =
     kbind (get_msg msg s) (\<lambda>m.
     let ori = fork_req_msg m in
     kbind (get_msg ori s) (\<lambda>om.
     if fork_result m = 0 then
       kbind (get_task (fork_ppid om) s) (\<lambda>parent.
       kbind (mod_vw parent (\<lambda>t. t\<lparr>num_alive := num_alive t + 1\<rparr>) s) (\<lambda>s.
       kbind (mod_msg ori (\<lambda>om. om\<lparr>mtype := FORK_RESPONSE, d1 := fork_result m\<rparr>) s) (\<lambda>s.
       kbind (manager_send_msg ori (req_cpu om) s) (manager_send_msg msg (req_cpu m)))))
     else if fork_retry_times om = int (num_worker_cores s) then
       kbind (ht_remove_task (fork_new_tid m) s) (\<lambda>s.
       kbind (get_task (fork_new_tid m) s) (\<lambda>this_task.
       kbind (free_pcb_vanish_wait_struct this_task s) (\<lambda>s.
       kbind (mod_msg ori (\<lambda>om. om\<lparr>mtype := FORK_RESPONSE, d1 := fork_result m\<rparr>) s) (manager_send_msg ori (req_cpu om)))))
     else
       kbind (mod_msg ori (\<lambda>om. om\<lparr>d1 := fork_retry_times om + 1\<rparr>) s) (\<lambda>s.
       manager_send_msg ori ((req_cpu m + 1) mod int (num_worker_cores s) + 1) s)))"

definition smp_set_init_pcb :: "u32 \<Rightarrow> kst \<Rightarrow> kst kres" where
  "smp_set_init_pcb msg s =
     kbind (get_msg msg s) (\<lambda>m.
     kbind (create_pcb_vanish_wait_struct (set_init_pid m) s) (\<lambda>(s, rv).
     kbind (if rv = 0
            then kbind (get_task (set_init_pid m) s) (\<lambda>p. Inr (set_life (\<lambda>l. l\<lparr>mgr_init_task := p\<rparr>) s))
            else Inr s) (\<lambda>s.
     kbind (mod_msg msg (\<lambda>m. m\<lparr>mtype := RESPONSE, d0 := rv\<rparr>) s) (manager_send_msg msg (req_cpu m)))))"

text \<open>Handing the oldest exit status of a task to a thread's message.\<close>

definition reap_child :: "u32 \<Rightarrow> u32 \<Rightarrow> kst \<Rightarrow> kst kres" where
  "reap_child p wait_msg s =
     kbind (mod_vw p (\<lambda>t. t\<lparr>num_zombie := num_zombie t - 1\<rparr>) s) (\<lambda>s.
     kbind (get_vw p s) (\<lambda>t.
     case q_dequeue (child_exit_status_list t) of
       (None, q) \<Rightarrow> Inl FAULT
     | (Some node, q) \<Rightarrow>
         kbind (mod_vw p (\<lambda>t. t\<lparr>child_exit_status_list := q\<rparr>) s) (\<lambda>s.
         kbind (kderef (es_nodes (life s)) node) (\<lambda>es.
         kbind (kderef (exit_statuses (life s)) es) (\<lambda>e.
         kbind (mod_msg wait_msg (\<lambda>m. m\<lparr>mtype := WAIT_RESPONSE, d1 := es_pid e, d0 := es_status e\<rparr>) s) (\<lambda>s.
         let s = kfree node (kfree es (set_life (\<lambda>l. l\<lparr>exit_statuses := (exit_statuses l)(es := None),
                     es_nodes := (es_nodes l)(node := None)\<rparr>) s)) in
         kbind (get_msg wait_msg s) (\<lambda>m. manager_send_msg wait_msg (req_cpu m) s)))))))"

text \<open>Waking the first waiting thread of a task, if there is one.\<close>

definition wake_waiter :: "u32 \<Rightarrow> kst \<Rightarrow> kst kres" where
  "wake_waiter p s =
     kbind (get_vw p s) (\<lambda>t.
     case q_dequeue (wait_queue t) of
       (None, q) \<Rightarrow> Inr s
     | (Some w, q) \<Rightarrow> kbind (mod_vw p (\<lambda>t. t\<lparr>wait_queue := q\<rparr>) s) (reap_child p w))"

text \<open>The loop that moves the unreaped children of a task to \<open>init\<close>.\<close>

primrec adopt_children :: "u32 list \<Rightarrow> u32 \<Rightarrow> kst \<Rightarrow> kst kres" where
  "adopt_children [] ini s = Inr s"
| "adopt_children (n # ns) ini s =
     kbind (mod_vw ini (\<lambda>t. t\<lparr>child_exit_status_list := q_enqueue (child_exit_status_list t) n,
                              num_zombie := num_zombie t + 1\<rparr>) s) (adopt_children ns ini)"

text \<open>The source loop takes a node from the task's list and puts it at the end of \<open>init\<close>'s list until the
  former is empty; when both are the same list it never ends.\<close>

text \<open>The three parts of \<open>smp_syscall_vanish\<close>: report the exit status to the parent (or to \<open>init\<close>), remove the
  task from the table, hand the unreaped children to \<open>init\<close>.\<close>

definition vanish_report :: "u32 \<Rightarrow> msg_t \<Rightarrow> kst \<Rightarrow> kst kres" where
  "vanish_report this_task m s =
     kbind (get_task (vanish_ppid m) s) (\<lambda>parent.
     let parent = (if parent = NULL then mgr_init_task (life s) else parent) in
     kbind (get_vw this_task s) (\<lambda>t.
     kbind (kderef (exit_statuses (life s)) (exit_status t)) (\<lambda>e.
     let s = set_life (\<lambda>l. l\<lparr>exit_statuses := (exit_statuses l)(exit_status t \<mapsto> e\<lparr>es_status := vanish_status m\<rparr>)\<rparr>) s in
     kbind (mod_vw parent (\<lambda>p. p\<lparr>child_exit_status_list := q_enqueue (child_exit_status_list p) (exit_status_node t),
                               num_zombie := num_zombie p + 1, num_alive := num_alive p - 1\<rparr>) s)
       (wake_waiter parent))))"

definition vanish_forget :: "msg_t \<Rightarrow> kst \<Rightarrow> kst kres" where
  "vanish_forget m s =
     kbind (hashtable_remove (word_of_int (vanish_pid m)) (ht_pid_pcb (life s))) (\<lambda>(t, v, is_find).
     if is_find = 0 then Inl PANIC else Inr (set_life (\<lambda>l. l\<lparr>ht_pid_pcb := t\<rparr>) s))"

definition vanish_orphans :: "u32 \<Rightarrow> kst \<Rightarrow> kst kres" where
  "vanish_orphans this_task s =
     (let ini = mgr_init_task (life s) in
      kbind (get_vw this_task s) (\<lambda>t.
      let ns = child_exit_status_list t in
      if this_task = ini \<and> ns \<noteq> [] then Inl SPINS
      else
      kbind (mod_vw this_task (\<lambda>t. t\<lparr>child_exit_status_list := []\<rparr>) s) (\<lambda>s.
      kbind (get_vw ini s) (\<lambda>_.
      kbind (adopt_children ns ini s) (\<lambda>s.
      if ns \<noteq> [] then wake_waiter ini s else Inr s)))))"

definition smp_syscall_vanish :: "u32 \<Rightarrow> kst \<Rightarrow> kst kres" where
  "smp_syscall_vanish msg s =
     kbind (get_msg msg s) (\<lambda>m.
     kbind (get_task (vanish_pid m) s) (\<lambda>this_task.
     if this_task = NULL then Inl PANIC
     else
       kbind (vanish_report this_task m s) (\<lambda>s.
       kbind (vanish_forget m s) (\<lambda>s.
       kbind (vanish_orphans this_task s) (\<lambda>s.
       kbind (free_pcb_vanish_wait_struct this_task s) (\<lambda>s.
       kbind (mod_msg msg (\<lambda>m. m\<lparr>mtype := RESPONSE\<rparr>) s) (manager_send_msg msg (req_cpu m))))))))"

definition smp_syscall_wait :: "u32 \<Rightarrow> kst \<Rightarrow> kst kres" where
  "smp_syscall_wait msg s =
     kbind (get_msg msg s) (\<lambda>m.
     kbind (get_task (wait_pid m) s) (\<lambda>p.
     if p = NULL then Inl PANIC
     else
       kbind (get_vw p s) (\<lambda>t.
       if num_zombie t = 0 \<and> num_alive t = int (length (wait_queue t))
       then kbind (mod_msg msg (\<lambda>m. m\<lparr>mtype := WAIT_RESPONSE, d1 := ECHILD\<rparr>) s) (manager_send_msg msg (req_cpu m))
       else if num_zombie t = 0
       then mod_vw p (\<lambda>t. t\<lparr>wait_queue := q_enqueue (wait_queue t) msg\<rparr>) s
       else reap_child p msg s)))"

section \<open>Frame rules\<close>

lemma vw_simps [simp]:
  "tasks (life s) p = Some t \<Longrightarrow> get_vw p s = Inr t"
  "tasks (life s) p = Some t \<Longrightarrow> mod_vw p f s = Inr (set_life (\<lambda>l. l\<lparr>tasks := (tasks l)(p \<mapsto> f t)\<rparr>) s)"
  by (simp_all add: get_vw_def mod_vw_def kderef_def)

lemma get_vw_Inr: "get_vw p s = Inr t \<longleftrightarrow> tasks (life s) p = Some t"
  by (auto simp: get_vw_def kderef_def split: option.splits)

lemma mod_vw_Inr: "mod_vw p f s = Inr s' \<longleftrightarrow>
    (\<exists>t. tasks (life s) p = Some t \<and> s' = set_life (\<lambda>l. l\<lparr>tasks := (tasks l)(p \<mapsto> f t)\<rparr>) s)"
  by (auto simp: mod_vw_def kbind_eq_Inr get_vw_Inr)

lemma get_msg_Inr: "get_msg p s = Inr m \<longleftrightarrow> msgs s p = Some m"
  by (auto simp: get_msg_def kderef_def split: option.splits)

lemma mod_msg_Inr: "mod_msg p f s = Inr s' \<longleftrightarrow> (\<exists>m. msgs s p = Some m \<and> s' = s\<lparr>msgs := (msgs s)(p \<mapsto> f m)\<rparr>)"
  by (auto simp: mod_msg_def kbind_eq_Inr get_msg_Inr)

lemma kderef_Inr: "kderef st p = Inr x \<longleftrightarrow> st p = Some x"
  by (auto simp: kderef_def split: option.splits)

lemma set_life_frame [simp]:
  "msgs (set_life f s) = msgs s" "life (set_life f s) = f (life s)" "msg_queues (set_life f s) = msg_queues s"
  "num_worker_cores (set_life f s) = num_worker_cores s" "heap (set_life f s) = heap s"
  by (simp_all add: set_life_def)

lemma kfree_frame [simp]:
  "msgs (kfree p s) = msgs s" "life (kfree p s) = life s" "msg_queues (kfree p s) = msg_queues s"
  "num_worker_cores (kfree p s) = num_worker_cores s"
  by (simp_all add: kfree_def)

lemma manager_send_msg_Inr:
  "manager_send_msg w c s = Inr s' \<longleftrightarrow> 1 \<le> c \<and> c \<le> int (num_worker_cores s) \<and>
     s' = s\<lparr>msg_queues := (msg_queues s)(nat ((c - 1) * 2 + 1) := msg_queues s (nat ((c - 1) * 2 + 1)) @ [w])\<rparr>"
  by (auto simp: manager_send_msg_def Let_def)

lemmas inv_rules = kbind_eq_Inr get_vw_Inr mod_vw_Inr get_msg_Inr mod_msg_Inr kderef_Inr manager_send_msg_Inr

text \<open>The effect of the two steps on the tables of tasks.\<close>

lemma reap_child_tasks:
  assumes "reap_child p w s = Inr s'"
  obtains t n ns where "tasks (life s) p = Some t" "child_exit_status_list t = n # ns"
    "tasks (life s') = (tasks (life s))(p \<mapsto> t\<lparr>num_zombie := num_zombie t - 1, child_exit_status_list := ns\<rparr>)"
    "mgr_init_task (life s') = mgr_init_task (life s)" "ht_pid_pcb (life s') = ht_pid_pcb (life s)"
proof -
  from assms obtain t where t: "tasks (life s) p = Some t" by (auto simp: reap_child_def inv_rules)
  show ?thesis
  proof (cases "child_exit_status_list t")
    case Nil
    with assms t show ?thesis by (simp add: reap_child_def)
  next
    case (Cons n ns)
    show ?thesis by (rule that [OF t Cons]) (use assms t Cons in \<open>auto simp: reap_child_def inv_rules Let_def\<close>)
  qed
qed

lemma wake_waiter_tasks:
  assumes "wake_waiter p s = Inr s'"
  obtains t where "tasks (life s) p = Some t" "mgr_init_task (life s') = mgr_init_task (life s)"
    "ht_pid_pcb (life s') = ht_pid_pcb (life s)"
    "wait_queue t = [] \<and> s' = s \<or> (\<exists>w ws n ns. wait_queue t = w # ws \<and> child_exit_status_list t = n # ns \<and>
       tasks (life s') = (tasks (life s))(p \<mapsto> t\<lparr>wait_queue := ws, num_zombie := num_zombie t - 1, child_exit_status_list := ns\<rparr>))"
proof -
  from assms obtain t where t: "tasks (life s) p = Some t" by (auto simp: wake_waiter_def inv_rules)
  show ?thesis
  proof (cases "wait_queue t")
    case Nil
    with assms t have "s' = s" by (simp add: wake_waiter_def)
    with t Nil that show ?thesis by blast
  next
    case (Cons w ws)
    let ?s = "set_life (\<lambda>l. l\<lparr>tasks := (tasks l)(p \<mapsto> t\<lparr>wait_queue := ws\<rparr>)\<rparr>) s"
    have "reap_child p w ?s = Inr s'" using assms t Cons by (simp add: wake_waiter_def)
    then obtain u n ns where "tasks (life ?s) p = Some u" "child_exit_status_list u = n # ns"
      "tasks (life s') = (tasks (life ?s))(p \<mapsto> u\<lparr>num_zombie := num_zombie u - 1, child_exit_status_list := ns\<rparr>)"
      "mgr_init_task (life s') = mgr_init_task (life ?s)" "ht_pid_pcb (life s') = ht_pid_pcb (life ?s)"
      by (rule reap_child_tasks)
    then show ?thesis using t Cons by (intro that [of t]) auto
  qed
qed

section \<open>Zombies and waiting threads\<close>

text \<open>The counter is the number of unreaped children, and no thread waits while there is one.\<close>

definition vw_ok :: "pcb_vanish_wait_t \<Rightarrow> bool" where
  "vw_ok t \<longleftrightarrow> num_zombie t = int (length (child_exit_status_list t)) \<and>
     (wait_queue t = [] \<or> child_exit_status_list t = [])"

definition zombies_ok :: "kst \<Rightarrow> bool" where
  "zombies_ok s \<longleftrightarrow> (\<forall>p t. tasks (life s) p = Some t \<longrightarrow> vw_ok t)"

lemma zombies_ok_upd: "zombies_ok s \<Longrightarrow> vw_ok t \<Longrightarrow> tasks (life s') = (tasks (life s))(p \<mapsto> t) \<Longrightarrow> zombies_ok s'"
  by (simp add: zombies_ok_def)

lemma zombies_ok_cong: "tasks (life s') = tasks (life s) \<Longrightarrow> zombies_ok s' = zombies_ok s"
  by (simp add: zombies_ok_def)

lemma wait_zombies_ok:
  assumes "smp_syscall_wait msg s = Inr s'" and "zombies_ok s"
  shows "zombies_ok s'"
proof -
  from assms(1) obtain m p where m: "msgs s msg = Some m" "get_task (wait_pid m) s = Inr p" "p \<noteq> NULL"
    by (auto simp: smp_syscall_wait_def inv_rules split: if_splits)
  with assms(1) obtain t where t: "tasks (life s) p = Some t" by (auto simp: smp_syscall_wait_def inv_rules)
  have ok: "vw_ok t" using assms(2) t by (simp add: zombies_ok_def)
  consider (none) "num_zombie t = 0" "num_alive t = int (length (wait_queue t))"
    | (queue) "num_zombie t = 0" "num_alive t \<noteq> int (length (wait_queue t))" | (reap) "num_zombie t \<noteq> 0" by blast
  then show ?thesis
  proof cases
    case none
    then show ?thesis using assms m t zombies_ok_cong [of s' s] by (auto simp: smp_syscall_wait_def inv_rules)
  next
    case queue
    then have "vw_ok (t\<lparr>wait_queue := wait_queue t @ [msg]\<rparr>)" using ok by (simp add: vw_ok_def)
    with queue show ?thesis using assms m t zombies_ok_upd [OF assms(2)] by (auto simp: smp_syscall_wait_def inv_rules)
  next
    case reap
    then have "reap_child p msg s = Inr s'" using assms(1) m t by (simp add: smp_syscall_wait_def)
    then obtain u n ns where u: "tasks (life s) p = Some u" "child_exit_status_list u = n # ns"
      "tasks (life s') = (tasks (life s))(p \<mapsto> u\<lparr>num_zombie := num_zombie u - 1, child_exit_status_list := ns\<rparr>)"
      by (rule reap_child_tasks)
    then have "vw_ok (u\<lparr>num_zombie := num_zombie u - 1, child_exit_status_list := ns\<rparr>)" using ok t by (auto simp: vw_ok_def)
    with u(3) show ?thesis by (rule zombies_ok_upd [OF assms(2), rotated])
  qed
qed

lemma wake_waiter_ok:
  assumes "wake_waiter p s = Inr s'" and "tasks (life s) p = Some t" and "num_zombie t = int (length (child_exit_status_list t))"
    and "length (wait_queue t) \<le> 1 \<or> length (child_exit_status_list t) \<le> 1"
  shows "\<exists>u. tasks (life s') = (tasks (life s))(p \<mapsto> u) \<and> vw_ok u \<and> length (wait_queue u) \<le> length (wait_queue t)"
  using assms(1)
proof (rule wake_waiter_tasks)
  fix v
  assume v: "tasks (life s) p = Some v" and d: "wait_queue v = [] \<and> s' = s \<or> (\<exists>w ws n ns. wait_queue v = w # ws \<and>
     child_exit_status_list v = n # ns \<and>
       tasks (life s') = (tasks (life s))(p \<mapsto> v\<lparr>wait_queue := ws, num_zombie := num_zombie v - 1, child_exit_status_list := ns\<rparr>))"
  have [simp]: "v = t" using v assms(2) by simp
  from d show ?thesis
  proof
    assume "wait_queue v = [] \<and> s' = s"
    then show ?thesis using assms(2,3) by (intro exI [of _ t]) (simp add: vw_ok_def fun_upd_idem)
  next
    assume "\<exists>w ws n ns. wait_queue v = w # ws \<and> child_exit_status_list v = n # ns \<and>
       tasks (life s') = (tasks (life s))(p \<mapsto> v\<lparr>wait_queue := ws, num_zombie := num_zombie v - 1, child_exit_status_list := ns\<rparr>)"
    then obtain w ws n ns where e: "wait_queue t = w # ws" "child_exit_status_list t = n # ns"
       "tasks (life s') = (tasks (life s))(p \<mapsto> t\<lparr>wait_queue := ws, num_zombie := num_zombie t - 1, child_exit_status_list := ns\<rparr>)"
      by auto
    have "vw_ok (t\<lparr>wait_queue := ws, num_zombie := num_zombie t - 1, child_exit_status_list := ns\<rparr>)"
      using e(1,2) assms(3,4) by (auto simp: vw_ok_def)
    with e show ?thesis by (intro exI [of _ "t\<lparr>wait_queue := ws, num_zombie := num_zombie t - 1, child_exit_status_list := ns\<rparr>"]) simp
  qed
qed

lemma vanish_report_ok:
  assumes "vanish_report this m s = Inr s'" and "zombies_ok s"
  shows "zombies_ok s' \<and> mgr_init_task (life s') = mgr_init_task (life s) \<and>
     (\<forall>q u. tasks (life s') q = Some u \<longrightarrow> (\<exists>t. tasks (life s) q = Some t \<and> length (wait_queue u) \<le> length (wait_queue t)))"
proof -
  from assms(1) obtain par0 where par0: "get_task (vanish_ppid m) s = Inr par0" by (auto simp: vanish_report_def inv_rules Let_def)
  define par where "par = (if par0 = NULL then mgr_init_task (life s) else par0)"
  from assms(1) obtain t e where t: "tasks (life s) this = Some t" "exit_statuses (life s) (exit_status t) = Some e"
    by (auto simp: vanish_report_def inv_rules Let_def)
  define s1 where "s1 = set_life (\<lambda>l. l\<lparr>exit_statuses := (exit_statuses l)(exit_status t \<mapsto> e\<lparr>es_status := vanish_status m\<rparr>)\<rparr>) s"
  from assms(1) par0 t obtain p where p: "tasks (life s1) par = Some p"
    by (auto simp: vanish_report_def inv_rules Let_def s1_def par_def kderef_def)
  define p' where "p' = p\<lparr>child_exit_status_list := child_exit_status_list p @ [exit_status_node t],
     num_zombie := num_zombie p + 1, num_alive := num_alive p - 1\<rparr>"
  define s2 where "s2 = set_life (\<lambda>l. l\<lparr>tasks := (tasks l)(par \<mapsto> p')\<rparr>) s1"
  have s1t: "tasks (life s1) = tasks (life s)" by (simp add: s1_def)
  have w: "wake_waiter par s2 = Inr s'"
    using assms(1) par0 t p by (simp add: vanish_report_def Let_def par_def [symmetric] kderef_def s1_def [symmetric] s2_def p'_def)
  have ok: "vw_ok p" using assms(2) p s1t by (simp add: zombies_ok_def)
  have "tasks (life s2) par = Some p'" "num_zombie p' = int (length (child_exit_status_list p'))"
    "length (wait_queue p') \<le> 1 \<or> length (child_exit_status_list p') \<le> 1"
    using ok by (auto simp: s2_def p'_def vw_ok_def)
  from wake_waiter_ok [OF w this] obtain u where u: "tasks (life s') = (tasks (life s2))(par \<mapsto> u)" "vw_ok u"
    "length (wait_queue u) \<le> length (wait_queue p')" by blast
  have e: "tasks (life s') = (tasks (life s))(par \<mapsto> u)" using u(1) s1t by (simp add: s2_def)
  have "mgr_init_task (life s') = mgr_init_task (life s2)" using w by (rule wake_waiter_tasks) simp
  then have "mgr_init_task (life s') = mgr_init_task (life s)" by (simp add: s2_def s1_def)
  moreover have "zombies_ok s'" using zombies_ok_upd [OF assms(2) u(2) e] .
  moreover have "wait_queue p' = wait_queue p" by (simp add: p'_def)
  ultimately show ?thesis using e u(3) p s1t by auto
qed

lemma adopt_children_tasks:
  assumes "adopt_children ns ini s = Inr s'" and "tasks (life s) ini = Some t"
  shows "tasks (life s') = (tasks (life s))(ini \<mapsto> t\<lparr>child_exit_status_list := child_exit_status_list t @ ns,
     num_zombie := num_zombie t + int (length ns)\<rparr>)"
  using assms
proof (induction ns arbitrary: s t)
  case Nil
  then show ?case by (simp add: fun_upd_idem)
next
  case (Cons n ns)
  define t1 where "t1 = t\<lparr>child_exit_status_list := child_exit_status_list t @ [n], num_zombie := num_zombie t + 1\<rparr>"
  define s1 where "s1 = set_life (\<lambda>l. l\<lparr>tasks := (tasks l)(ini \<mapsto> t1)\<rparr>) s"
  have "adopt_children ns ini s1 = Inr s'" using Cons.prems by (simp add: s1_def t1_def)
  moreover have "tasks (life s1) = (tasks (life s))(ini \<mapsto> t1)" by (simp add: s1_def)
  moreover have "t1\<lparr>child_exit_status_list := child_exit_status_list t1 @ ns, num_zombie := num_zombie t1 + int (length ns)\<rparr> =
      t\<lparr>child_exit_status_list := child_exit_status_list t @ n # ns, num_zombie := num_zombie t + int (length (n # ns))\<rparr>"
    by (simp add: t1_def)
  ultimately show ?case using Cons.IH [of s1 t1] by (simp add: fun_eq_iff)
qed

lemma vanish_orphans_ok:
  assumes "vanish_orphans this s = Inr s'" and "zombies_ok s"
    and "\<forall>t. tasks (life s) (mgr_init_task (life s)) = Some t \<longrightarrow> length (wait_queue t) \<le> 1"
  shows "\<forall>q u. q \<noteq> this \<and> tasks (life s') q = Some u \<longrightarrow> vw_ok u"
proof -
  let ?ini = "mgr_init_task (life s)"
  from assms(1) obtain t where t: "tasks (life s) this = Some t" by (auto simp: vanish_orphans_def inv_rules Let_def)
  define ns where "ns = child_exit_status_list t"
  define s1 where "s1 = set_life (\<lambda>l. l\<lparr>tasks := (tasks l)(this \<mapsto> t\<lparr>child_exit_status_list := []\<rparr>)\<rparr>) s"
  have ne: "\<not> (this = ?ini \<and> ns \<noteq> [])" using assms(1) t by (auto simp: vanish_orphans_def ns_def Let_def split: if_splits)
  with assms(1) t obtain i where i: "tasks (life s1) ?ini = Some i"
    by (auto simp: vanish_orphans_def ns_def [symmetric] s1_def [symmetric] inv_rules Let_def)
  from assms(1) t ne i obtain s2 where s2: "adopt_children ns ?ini s1 = Inr s2"
    and s': "(if ns \<noteq> [] then wake_waiter ?ini s2 else Inr s2) = Inr s'"
    by (auto simp: vanish_orphans_def ns_def [symmetric] s1_def [symmetric] inv_rules Let_def)
  define i' where "i' = i\<lparr>child_exit_status_list := child_exit_status_list i @ ns, num_zombie := num_zombie i + int (length ns)\<rparr>"
  have t2: "tasks (life s2) = (tasks (life s1))(?ini \<mapsto> i')" unfolding i'_def by (rule adopt_children_tasks [OF s2 i])
  have others: "vw_ok u" if "q \<noteq> this" "tasks (life s1) q = Some u" for q u
    using that assms(2) by (simp add: s1_def zombies_ok_def)
  show ?thesis
  proof (cases "ns = []")
    case True
    have "i' = i" using True by (simp add: i'_def)
    then have "tasks (life s') = tasks (life s1)" using True s' t2 i by (simp add: fun_upd_idem)
    with others show ?thesis by auto
  next
    case False
    then have ii: "this \<noteq> ?ini" "tasks (life s) ?ini = Some i" using ne i by (auto simp: s1_def)
    then have "vw_ok i" "length (wait_queue i) \<le> 1" using assms(2,3) by (auto simp: zombies_ok_def)
    then have z: "num_zombie i' = int (length (child_exit_status_list i'))" "length (wait_queue i') \<le> 1"
      by (simp_all add: i'_def vw_ok_def)
    have "wake_waiter ?ini s2 = Inr s'" "tasks (life s2) ?ini = Some i'" using False s' t2 by simp_all
    from wake_waiter_ok [OF this z(1)] z(2) obtain u where "tasks (life s') = (tasks (life s2))(?ini \<mapsto> u)" "vw_ok u" by blast
    then show ?thesis using others t2 by auto
  qed
qed

lemma vanish_zombies_ok:
  assumes "smp_syscall_vanish msg s = Inr s'" and "zombies_ok s"
    and "\<forall>t. tasks (life s) (mgr_init_task (life s)) = Some t \<longrightarrow> length (wait_queue t) \<le> 1"
  shows "zombies_ok s'"
proof -
  from assms(1) obtain m this s1 s2 s3 s4 where m: "vanish_report this m s = Inr s1" "vanish_forget m s1 = Inr s2"
    "vanish_orphans this s2 = Inr s3" "free_pcb_vanish_wait_struct this s3 = Inr s4"
    and s': "tasks (life s') = tasks (life s4)"
    by (auto simp: smp_syscall_vanish_def kbind_eq_Inr mod_msg_Inr manager_send_msg_Inr split: if_splits)
  note R = vanish_report_ok [OF m(1) assms(2)]
  have s2: "tasks (life s2) = tasks (life s1)" "mgr_init_task (life s2) = mgr_init_task (life s1)"
    using m(2) by (auto simp: vanish_forget_def kbind_eq_Inr split: if_splits)
  have "\<forall>t. tasks (life s2) (mgr_init_task (life s2)) = Some t \<longrightarrow> length (wait_queue t) \<le> 1"
    using R assms(3) unfolding s2 by fastforce
  moreover have "zombies_ok s2" using R zombies_ok_cong [OF s2(1)] by simp
  ultimately have "\<forall>q u. q \<noteq> this \<and> tasks (life s3) q = Some u \<longrightarrow> vw_ok u" using vanish_orphans_ok [OF m(3)] by blast
  moreover have "tasks (life s4) = (tasks (life s3))(this := None)"
    using m(4) by (auto simp: free_pcb_vanish_wait_struct_def inv_rules)
  ultimately show ?thesis unfolding zombies_ok_def s' by (auto split: if_splits)
qed

end
