(* ===== verification/Smp_Consoleio.thy ===== *)
theory Smp_Consoleio
  imports Smp_Lifecycle
begin

text \<open>
  \<open>smp_syscall_consoleio.c\<close> and the rest of the keyboard interrupt handler: the manager core owns the
  console and the keyboard. One \<open>readline\<close> is served at a time; \<open>read_waiting_thr\<close> is the thread whose request
  waits for input. \<open>scan\<close> is \<open>process_scancode\<close> of the 410 library.
\<close>

definition set_rdl :: "(readline \<Rightarrow> readline) \<Rightarrow> kst \<Rightarrow> kst" where
  "set_rdl f s = s\<lparr>rdl := f (rdl s)\<rparr>"

definition smp_syscall_print_init :: "mutex_t \<Rightarrow> mutex_t \<times> int" where
  "smp_syscall_print_init print_lock = mutex_init print_lock"

definition smp_syscall_read_init :: "kst \<Rightarrow> kst \<times> int" where
  "smp_syscall_read_init s = (set_rdl (\<lambda>r. r\<lparr>read_waiting_thr := NULL, readline_queue := []\<rparr>) s, 0)"

definition has_read_waiting_thr :: "kst \<Rightarrow> bool" where
  "has_read_waiting_thr s = (read_waiting_thr (rdl s) \<noteq> NULL)"

text \<open>The character \<open>ch\<close> is echoed and put into the buffer, or it takes the last one back.\<close>

definition take_char :: "u8 \<Rightarrow> kst \<Rightarrow> kst kres" where
  "take_char ch s =
     kbind (if \<not> (ch = BS \<and> reading_count (rdl s) = 0) then putbyte ch (con s) else Inr (con s)) (\<lambda>cn.
     let s = s\<lparr>con := cn\<rparr>; n = reading_count (rdl s) in
     Inr (if ch = BS then set_rdl (\<lambda>r. r\<lparr>reading_count := (if n = 0 then 0 else n - 1)\<rparr>) s
          else set_rdl (\<lambda>r. r\<lparr>reading_count := n + 1\<rparr>)
                 (s\<lparr>kmem := (kmem s)(reading_buf (rdl s) + word_of_int n := ch)\<rparr>)))"

lemma take_char_frame: "take_char ch s = Inr s' \<Longrightarrow> kbd s' = kbd s"
  by (auto simp: take_char_def kbind_eq_Inr Let_def set_rdl_def split: if_splits)

lemma readchar_pending: "readchar scan k = Inr (k', ch) \<Longrightarrow> ch \<noteq> - 1 \<Longrightarrow> pending k' < pending k"
proof (induction scan k rule: readchar.induct)
  case (1 scan k)
  show ?case
  proof (cases "ring_ok k \<and> front k \<noteq> rear k")
    case False
    then show ?thesis using "1.prems" by (auto simp: readchar.simps [of scan k] split: if_splits)
  next
    case True
    obtain q a where q: "scan (kh k) (keybuf k ! rear k) = (q, a)" by (cases "scan (kh k) (keybuf k ! rear k)")
    let ?k = "k\<lparr>rear := (rear k + 1) mod KEY_BUF_SIZE, kh := q\<rparr>"
    have p: "pending k = Suc (pending ?k)" using pending_pop [of k q] True by simp
    show ?thesis
    proof (cases "KH_HASDATA a \<and> KH_ISMAKE a")
      case True
      then show ?thesis using "1.prems" \<open>ring_ok k \<and> _\<close> q p by (auto simp: readchar.simps [of scan k] Let_def)
    next
      case False
      then have "readchar scan ?k = Inr (k', ch)" using "1.prems"(1) \<open>ring_ok k \<and> _\<close> q
        by (auto simp: readchar.simps [of scan k] Let_def split: if_splits)
      then show ?thesis using "1.IH" [of "keybuf k ! rear k" "(q, a)" q a ?k] False \<open>ring_ok k \<and> _\<close> q p "1.prems"(2) by auto
    qed
  qed
qed

text \<open>The loop of \<open>smp_syscall_readline\<close>; the result is \<open>False\<close> when the request has to wait for input.\<close>

function readline_loop :: "scanner \<Rightarrow> u32 \<Rightarrow> kst \<Rightarrow> (kst \<times> bool) kres" where
  "readline_loop scan th s =
     (if \<not> reading_count (rdl s) < reading_length (rdl s) then Inr (s, True)
      else case readchar scan (kbd s) of
        Inl e \<Rightarrow> Inl e
      | Inr (k, ch) \<Rightarrow>
          if ch = - 1 then Inr (set_rdl (\<lambda>r. r\<lparr>read_waiting_thr := th\<rparr>) (s\<lparr>kbd := k\<rparr>), False)
          else (case take_char (word_of_int ch) (s\<lparr>kbd := k\<rparr>) of
                  Inl e \<Rightarrow> Inl e
                | Inr s \<Rightarrow> if word_of_int ch = NL then Inr (s, True) else readline_loop scan th s))"
  by pat_completeness auto
termination
  by (relation "measure (\<lambda>(scan, th, s). pending (kbd s))") (auto dest!: take_char_frame readchar_pending)

declare readline_loop.simps [simp del]

definition smp_syscall_readline :: "scanner \<Rightarrow> u32 \<Rightarrow> kst \<Rightarrow> kst kres" where
  "smp_syscall_readline scan msg s =
     (if has_read_waiting_thr s
      then Inr (set_rdl (\<lambda>r. r\<lparr>readline_queue := q_enqueue (readline_queue r) msg\<rparr>) s)
      else
        kbind (get_msg msg s) (\<lambda>m.
        let s = set_rdl (\<lambda>r. r\<lparr>reading_count := 0, reading_length := io_len m, reading_buf := io_buf m\<rparr>) s in
        kbind (readline_loop scan (req_thr m) s) (\<lambda>(s, finished).
        if \<not> finished then Inr s
        else kbind (mod_msg msg (\<lambda>m. m\<lparr>mtype := RESPONSE, d0 := reading_count (rdl s)\<rparr>) s)
               (manager_send_msg msg (req_cpu m)))))"

text \<open>The result is the thread to send back, or \<open>NULL\<close>. When a request is queued, the thread that waits next
  is read from the finished request's message.\<close>

definition resume_reading_thr :: "u8 \<Rightarrow> kst \<Rightarrow> (kst \<times> u32) kres" where
  "resume_reading_thr ch s =
     kbind (take_char ch s) (\<lambda>s.
     if reading_count (rdl s) = reading_length (rdl s) \<or> ch = NL then
       kbind (get_tcb (read_waiting_thr (rdl s)) s) (\<lambda>t.
       kbind (mod_msg (my_msg t) (\<lambda>m. m\<lparr>mtype := RESPONSE, d0 := reading_count (rdl s)\<rparr>) s) (\<lambda>s.
       let rv = read_waiting_thr (rdl s) in
       case q_dequeue (readline_queue (rdl s)) of
         (None, q) \<Rightarrow> Inr (set_rdl (\<lambda>r. r\<lparr>read_waiting_thr := NULL\<rparr>) s, rv)
       | (Some next_msg, q) \<Rightarrow>
           kbind (get_msg next_msg s) (\<lambda>nm.
           kbind (get_msg (my_msg t) s) (\<lambda>m.
           Inr (set_rdl (\<lambda>r. r\<lparr>readline_queue := q, reading_count := 0, reading_length := io_len nm,
                              reading_buf := io_buf nm, read_waiting_thr := req_thr m\<rparr>) s, rv)))))
     else Inr (s, NULL))"

definition keyboard_interrupt_handler :: "scanner \<Rightarrow> u8 \<Rightarrow> kst \<Rightarrow> kst kres" where
  "keyboard_interrupt_handler scan scancode s =
     (let s = s\<lparr>kbd := store_scancode scancode (kbd s)\<rparr> in
      kbind
        (if has_read_waiting_thr s
         then kbind (readchar scan (kbd s)) (\<lambda>(k, ch).
              if ch \<noteq> - 1 then resume_reading_thr (word_of_int ch) (s\<lparr>kbd := k\<rparr>) else Inr (s\<lparr>kbd := k\<rparr>, NULL))
         else Inr (s, NULL)) (\<lambda>(s, th).
      if th \<noteq> NULL
      then kbind (get_tcb th s) (\<lambda>t. kbind (get_msg (my_msg t) s) (\<lambda>m. manager_send_msg (my_msg t) (req_cpu m) s))
      else Inr s))"

definition smp_syscall_get_cursor_pos :: "u32 \<Rightarrow> kst \<Rightarrow> kst kres" where
  "smp_syscall_get_cursor_pos msg s =
     (case get_cursor (con s) of (row, col) \<Rightarrow>
      kbind (get_msg msg s) (\<lambda>m.
      kbind (mod_msg msg (\<lambda>m. m\<lparr>mtype := RESPONSE, d0 := row, d1 := col\<rparr>) s) (manager_send_msg msg (req_cpu m))))"

definition kbytes :: "u32 \<Rightarrow> nat \<Rightarrow> kst \<Rightarrow> u8 list" where
  "kbytes buf n s = map (\<lambda>i. kmem s (buf + word_of_nat i)) [0 ..< n]"

definition smp_syscall_print :: "u32 \<Rightarrow> kst \<Rightarrow> kst kres" where
  "smp_syscall_print msg s =
     kbind (get_msg msg s) (\<lambda>m.
     kbind (putbytes (if io_buf m = NULL then None else Some (kbytes (io_buf m) (nat (io_len m)) s)) (io_len m) (con s)) (\<lambda>cn.
     kbind (mod_msg msg (\<lambda>m. m\<lparr>mtype := RESPONSE, d0 := 0\<rparr>) (s\<lparr>con := cn\<rparr>)) (manager_send_msg msg (req_cpu m))))"

definition smp_syscall_set_cursor_pos :: "u32 \<Rightarrow> kst \<Rightarrow> kst kres" where
  "smp_syscall_set_cursor_pos msg s =
     kbind (get_msg msg s) (\<lambda>m.
     case set_cursor (d0 m) (d1 m) (con s) of (cn, ret) \<Rightarrow>
     kbind (mod_msg msg (\<lambda>m. m\<lparr>mtype := RESPONSE, d0 := ret\<rparr>) (s\<lparr>con := cn\<rparr>)) (manager_send_msg msg (req_cpu m)))"

definition smp_syscall_set_term_color :: "u32 \<Rightarrow> kst \<Rightarrow> kst kres" where
  "smp_syscall_set_term_color msg s =
     kbind (get_msg msg s) (\<lambda>m.
     case set_term_color (word_of_int (d0 m)) (con s) of (cn, ret) \<Rightarrow>
     kbind (mod_msg msg (\<lambda>m. m\<lparr>mtype := RESPONSE, d0 := ret\<rparr>) (s\<lparr>con := cn\<rparr>)) (manager_send_msg msg (req_cpu m)))"

end
