(* ===== verification/Manager.thy ===== *)
theory Manager
  imports Smp_Consoleio
begin

text \<open>
  The manager core: the handlers of \<open>smp_syscall_thr_management.c\<close> and \<open>smp_syscall_misc.c\<close>, and the loop of
  \<open>smp_manager_scheduler.c\<close> that receives a message and dispatches it on its type.
\<close>

section \<open>Searching the cores\<close>

text \<open>The core a search for a thread visits after core \<open>next_core\<close>.\<close>

definition search_next :: "int \<Rightarrow> int \<Rightarrow> int" where
  "search_next n next_core = (next_core + 1) mod n + 1"

definition smp_make_runnable_syscall_handler :: "u32 \<Rightarrow> kst \<Rightarrow> kst kres" where
  "smp_make_runnable_syscall_handler msg s =
     kbind (get_msg msg s) (\<lambda>m.
     if search_result m = 0 then manager_send_msg msg (req_cpu m) s
     else
       let c = search_next (int (num_worker_cores s)) (search_next_core m) in
       kbind (mod_msg msg (\<lambda>m. m\<lparr>d1 := c\<rparr>) s) (manager_send_msg msg c))"

definition smp_yield_syscall_handler :: "u32 \<Rightarrow> kst \<Rightarrow> kst kres" where
  "smp_yield_syscall_handler msg s =
     kbind (get_msg msg s) (\<lambda>m.
     if search_result m = 0 then manager_send_msg msg (req_cpu m) s
     else
       let c = search_next (int (num_worker_cores s)) (search_next_core m) in
       kbind (mod_msg msg (\<lambda>m. m\<lparr>d1 := c\<rparr>) s) (manager_send_msg msg c))"

text \<open>The broadcast of \<open>smp_syscall_halt\<close>; \<open>buf\<close> is the address of the array of messages on the stack, a
  message has 40 bytes.\<close>

primrec halt_broadcast :: "nat list \<Rightarrow> u32 \<Rightarrow> msg_t \<Rightarrow> kst \<Rightarrow> kst kres" where
  "halt_broadcast [] buf m s = Inr s"
| "halt_broadcast (i # is) buf m s =
     (let p = buf + word_of_nat (40 * i) in
      kbind (manager_send_msg p (int i + 1) (s\<lparr>msgs := (msgs s)(p \<mapsto> raw_msg\<lparr>req_thr := req_thr m, req_cpu := req_cpu m, mtype := HALT\<rparr>)\<rparr>))
        (halt_broadcast is buf m))"

definition smp_syscall_halt :: "u32 \<Rightarrow> u32 \<Rightarrow> kst \<Rightarrow> kst kres" where
  "smp_syscall_halt buf msg s =
     kbind (get_msg msg s) (\<lambda>m.
     kbind (halt_broadcast [0 ..< num_worker_cores s] buf m s) (\<lambda>s. Inl HALTS))"

section \<open>The dispatch loop\<close>

definition manager_dispatch :: "scanner \<Rightarrow> u32 \<Rightarrow> u32 \<Rightarrow> kst \<Rightarrow> kst kres" where
  "manager_dispatch scan buf msg s =
     kbind (get_msg msg s) (\<lambda>m.
     case mtype m of
       FORK \<Rightarrow> smp_syscall_fork msg s
     | FORK_RESPONSE \<Rightarrow> smp_fork_response msg s
     | WAIT \<Rightarrow> smp_syscall_wait msg s
     | VANISH \<Rightarrow> smp_syscall_vanish msg s
     | VANISH_BACK \<Rightarrow> kbind (mod_msg msg (\<lambda>m. m\<lparr>mtype := RESPONSE\<rparr>) s) (manager_send_msg msg (vanish_back_cpu m))
     | SET_CURSOR_POS \<Rightarrow> smp_syscall_set_cursor_pos msg s
     | SET_TERM_COLOR \<Rightarrow> smp_syscall_set_term_color msg s
     | GET_CURSOR_POS \<Rightarrow> smp_syscall_get_cursor_pos msg s
     | READLINE \<Rightarrow> smp_syscall_readline scan msg s
     | PRINT \<Rightarrow> smp_syscall_print msg s
     | SET_INIT_PCB \<Rightarrow> smp_set_init_pcb msg s
     | MAKE_RUNNABLE \<Rightarrow> smp_make_runnable_syscall_handler msg s
     | YIELD \<Rightarrow> smp_yield_syscall_handler msg s
     | HALT \<Rightarrow> smp_syscall_halt buf msg s
     | _ \<Rightarrow> Inr s)"

text \<open>One round of the loop; \<open>None\<close>: no message is pending.\<close>

definition manager_round :: "scanner \<Rightarrow> u32 \<Rightarrow> kst \<Rightarrow> kst kres option" where
  "manager_round scan buf s =
     (case manager_recv_msg s of None \<Rightarrow> None | Some (s, msg) \<Rightarrow> Some (manager_dispatch scan buf msg s))"

section \<open>Tasks, zombies and waiting threads\<close>

lemma manager_send_tasks: "manager_send_msg w c s = Inr s' \<Longrightarrow> life s' = life s"
  by (auto simp: manager_send_msg_Inr)

lemma ht_put_task_tasks:
  "ht_put_task i p s = Inr (s', rv) \<Longrightarrow> tasks (life s') = tasks (life s) \<and> mgr_init_task (life s') = mgr_init_task (life s)"
  by (auto simp: ht_put_task_def kmalloc_def kbind_eq_Inr split: list.splits)

lemma ht_remove_task_tasks:
  "ht_remove_task i s = Inr s' \<Longrightarrow> tasks (life s') = tasks (life s) \<and> mgr_init_task (life s') = mgr_init_task (life s)"
  by (auto simp: ht_remove_task_def kbind_eq_Inr)

lemma kmalloc_life [simp]: "kmalloc s = (s', p) \<Longrightarrow> life s' = life s"
  by (auto simp: kmalloc_def split: list.splits)

lemma create_struct_tasks:
  assumes "create_pcb_vanish_wait_struct i s = Inr (s', rv)"
  shows "tasks (life s') = tasks (life s) \<or> (\<exists>p es n. tasks (life s') = (tasks (life s))(p \<mapsto>
     \<lparr>child_exit_status_list = [], exit_status = es, exit_status_node = n, num_alive = 0, num_zombie = 0, wait_queue = []\<rparr>))"
proof -
  obtain s1 p where 1: "kmalloc s = (s1, p)" by (cases "kmalloc s")
  show ?thesis
  proof (cases "p = NULL")
    case True
    then show ?thesis using assms 1 by (auto simp: create_pcb_vanish_wait_struct_def)
  next
    case False
    from assms 1 False obtain s2 rv2 where 2: "ht_put_task i p s1 = Inr (s2, rv2)"
      by (auto simp: create_pcb_vanish_wait_struct_def kbind_eq_Inr)
    note t2 = ht_put_task_tasks [OF 2]
    obtain s3 es where 3: "kmalloc s2 = (s3, es)" by (cases "kmalloc s2")
    define s4 where "s4 = set_life (\<lambda>l. l\<lparr>exit_statuses := (exit_statuses l)(es \<mapsto> \<lparr>es_pid = i, es_status = 0\<rparr>)\<rparr>) s3"
    obtain s5 n where 5: "kmalloc s4 = (s5, n)" by (cases "kmalloc s4")
    have l: "life s1 = life s" "life s3 = life s2" "tasks (life s4) = tasks (life s3)" "life s5 = life s4"
      using 1 3 5 by (auto simp: s4_def)
    show ?thesis
      using assms 1 False 2 3 5 t2 l
      by (auto simp: create_pcb_vanish_wait_struct_def s4_def [symmetric] kbind_eq_Inr dest!: ht_remove_task_tasks split: if_splits) blast
  qed
qed

lemma create_struct_zombies:
  assumes "create_pcb_vanish_wait_struct i s = Inr (s', rv)" and "zombies_ok s"
  shows "zombies_ok s'"
  using create_struct_tasks [OF assms(1)]
proof
  assume "tasks (life s') = tasks (life s)"
  then show ?thesis using zombies_ok_cong assms(2) by blast
next
  assume "\<exists>p es n. tasks (life s') = (tasks (life s))(p \<mapsto>
     \<lparr>child_exit_status_list = [], exit_status = es, exit_status_node = n, num_alive = 0, num_zombie = 0, wait_queue = []\<rparr>)"
  then obtain p es n where t: "tasks (life s') = (tasks (life s))(p \<mapsto>
     \<lparr>child_exit_status_list = [], exit_status = es, exit_status_node = n, num_alive = 0, num_zombie = 0, wait_queue = []\<rparr>)"
    by blast
  show ?thesis by (rule zombies_ok_upd [OF assms(2) _ t]) (simp add: vw_ok_def)
qed

lemma readline_loop_life: "readline_loop scan th s = Inr (s', b) \<Longrightarrow> life s' = life s"
proof (induction scan th s rule: readline_loop.induct)
  case (1 scan th s)
  show ?case
  proof (cases "reading_count (rdl s) < reading_length (rdl s)")
    case False
    then show ?thesis using "1.prems" by (simp add: readline_loop.simps [of scan th s])
  next
    case True
    then obtain k ch where r: "readchar scan (kbd s) = Inr (k, ch)"
      using "1.prems" by (auto simp: readline_loop.simps [of scan th s] split: sum.splits)
    show ?thesis
    proof (cases "ch = - 1")
      case True
      then show ?thesis using r "1.prems" \<open>reading_count _ < _\<close> by (auto simp: readline_loop.simps [of scan th s] set_rdl_def)
    next
      case False
      then obtain s1 where t: "take_char (word_of_int ch) (s\<lparr>kbd := k\<rparr>) = Inr s1"
        using r "1.prems" \<open>reading_count _ < _\<close> by (auto simp: readline_loop.simps [of scan th s] split: sum.splits)
      have l: "life s1 = life s" using t by (auto simp: take_char_def kbind_eq_Inr Let_def set_rdl_def split: if_splits)
      show ?thesis
      proof (cases "word_of_int ch = NL")
        case True
        then show ?thesis using r t False l "1.prems" \<open>reading_count _ < _\<close> by (auto simp: readline_loop.simps [of scan th s])
      next
        case nl: False
        then have "readline_loop scan th s1 = Inr (s', b)"
          using r t False "1.prems" \<open>reading_count _ < _\<close> by (simp add: readline_loop.simps [of scan th s])
        then show ?thesis using "1.IH" [of "(k, ch)" k ch s1] r t False nl l \<open>reading_count _ < _\<close> by simp
      qed
    qed
  qed
qed

text \<open>The messages that have nothing to do with tasks.\<close>

lemma dispatch_quiet:
  assumes "manager_dispatch scan buf msg s = Inr s'" and "msgs s msg = Some m"
    and "mtype m \<notin> {FORK, FORK_RESPONSE, WAIT, VANISH, SET_INIT_PCB}"
  shows "life s' = life s"
proof (cases "mtype m")
  case READLINE
  then show ?thesis using assms(1,2)
    by (auto simp: manager_dispatch_def smp_syscall_readline_def inv_rules set_rdl_def Let_def dest!: readline_loop_life split: if_splits)
qed (use assms in \<open>auto simp: manager_dispatch_def inv_rules smp_syscall_set_cursor_pos_def smp_syscall_set_term_color_def
      smp_syscall_get_cursor_pos_def smp_syscall_print_def smp_make_runnable_syscall_handler_def smp_yield_syscall_handler_def
      smp_syscall_halt_def Let_def split: prod.splits if_splits\<close>)

lemma fork_response_zombies_ok:
  assumes "zombies_ok s" and r: "smp_fork_response msg s = Inr s'"
  shows "zombies_ok s'"
proof -
  from r obtain m om where m: "msgs s msg = Some m" and om: "msgs s (fork_req_msg m) = Some om"
    by (auto simp: smp_fork_response_def inv_rules Let_def)
  consider (good) "fork_result m = 0" | (gave_up) "fork_result m \<noteq> 0" "fork_retry_times om = int (num_worker_cores s)"
    | (retry) "fork_result m \<noteq> 0" "fork_retry_times om \<noteq> int (num_worker_cores s)" by blast
  then show ?thesis
  proof cases
    case good
    then obtain p t where "tasks (life s) p = Some t" "tasks (life s') = (tasks (life s))(p \<mapsto> t\<lparr>num_alive := num_alive t + 1\<rparr>)"
      using r m om by (auto simp: smp_fork_response_def inv_rules Let_def)
    moreover from this(1) have "vw_ok (t\<lparr>num_alive := num_alive t + 1\<rparr>)" using assms(1) by (simp add: zombies_ok_def vw_ok_def)
    ultimately show ?thesis using zombies_ok_upd [OF assms(1)] by blast
  next
    case gave_up
    then obtain p where "tasks (life s') = (tasks (life s))(p := None)"
      using r m om by (auto simp: smp_fork_response_def free_pcb_vanish_wait_struct_def inv_rules Let_def dest!: ht_remove_task_tasks)
    then show ?thesis using assms(1) by (auto simp: zombies_ok_def split: if_splits)
  next
    case retry
    then have "tasks (life s') = tasks (life s)" using r m om by (auto simp: smp_fork_response_def inv_rules Let_def)
    from zombies_ok_cong [OF this] assms(1) show ?thesis by simp
  qed
qed

text \<open>C1: the manager never lets a thread wait beside an unreaped child. For every task, the zombie counter is
  the number of exit statuses in its list and no thread is queued in \<open>wait\<close> while that list is not empty;
  serving any message keeps this, as long as at most one thread of \<open>init\<close> waits.\<close>

theorem manager_dispatch_zombies_ok:
  assumes "zombies_ok s" and "\<forall>t. tasks (life s) (mgr_init_task (life s)) = Some t \<longrightarrow> length (wait_queue t) \<le> 1"
    and "manager_dispatch scan buf msg s = Inr s'"
  shows "zombies_ok s'"
proof -
  from assms(3) obtain m where m: "msgs s msg = Some m" by (auto simp: manager_dispatch_def inv_rules)
  have same: "zombies_ok s'" if "tasks (life s') = tasks (life s)" using zombies_ok_cong [OF that] assms(1) by simp
  show ?thesis
  proof (cases "mtype m")
    case FORK
    then obtain s1 rv s2 s3 where c: "create_pcb_vanish_wait_struct (fork_new_tid m) s = Inr (s1, rv)"
      and "tasks (life s') = tasks (life s1)"
      using assms(3) m by (auto simp: manager_dispatch_def smp_syscall_fork_def inv_rules dest!: manager_send_tasks split: if_splits)
    then show ?thesis using create_struct_zombies [OF c assms(1)] zombies_ok_cong by blast
  next
    case FORK_RESPONSE
    then show ?thesis using assms(1,3) m fork_response_zombies_ok by (simp add: manager_dispatch_def)
  next
    case WAIT
    then show ?thesis using assms(1,3) m wait_zombies_ok by (simp add: manager_dispatch_def)
  next
    case VANISH
    then show ?thesis using assms m vanish_zombies_ok by (simp add: manager_dispatch_def)
  next
    case SET_INIT_PCB
    then obtain s1 rv where c: "create_pcb_vanish_wait_struct (set_init_pid m) s = Inr (s1, rv)"
      and "tasks (life s') = tasks (life s1)"
      using assms(3) m by (auto simp: manager_dispatch_def smp_set_init_pcb_def inv_rules split: if_splits)
    then show ?thesis using create_struct_zombies [OF c assms(1)] zombies_ok_cong by blast
  qed (use dispatch_quiet [OF assms(3) m] same in simp_all)
qed

text \<open>Three tasks: \<open>init\<close> (pid 1), its child (pid 5), and a child of that one (pid 6). The message at \<open>0x1000\<close>
  reports that task 6 vanishes with status 42, the one at \<open>0x2000\<close> is a call of \<open>wait\<close> by task 5.\<close>

definition vw_example :: "u32 \<Rightarrow> u32 \<Rightarrow> int \<Rightarrow> pcb_vanish_wait_t" where
  "vw_example es node alive = \<lparr>child_exit_status_list = [], exit_status = es, exit_status_node = node,
     num_alive = alive, num_zombie = 0, wait_queue = []\<rparr>"

definition life_example :: kst where
  "life_example = kst_example\<lparr>
     msgs := [0x1000 \<mapsto> \<lparr>req_thr = 0x201fe0, req_cpu = 2, mtype = VANISH, d0 = 6, d1 = 5, d2 = 42, d3 = 0\<rparr>,
              0x2000 \<mapsto> \<lparr>req_thr = 0x203fe0, req_cpu = 1, mtype = WAIT, d0 = 5, d1 = 0, d2 = 0, d3 = 0\<rparr>],
     life := \<lparr>tasks = [0x10 \<mapsto> vw_example 0x11 0x12 1, 0x20 \<mapsto> vw_example 0x21 0x22 1, 0x30 \<mapsto> vw_example 0x31 0x32 0],
       exit_statuses = [0x11 \<mapsto> \<lparr>es_pid = 1, es_status = 0\<rparr>, 0x21 \<mapsto> \<lparr>es_pid = 5, es_status = 0\<rparr>, 0x31 \<mapsto> \<lparr>es_pid = 6, es_status = 0\<rparr>],
       es_nodes = [0x12 \<mapsto> 0x11, 0x22 \<mapsto> 0x21, 0x32 \<mapsto> 0x31],
       ht_pid_pcb = \<lparr>array = Some [[], [(1, 0x10)], [], [], [], [(5, 0x20)], [(6, 0x30)]], ht_size = 7, func = (\<lambda>k. uint k mod 7)\<rparr>,
       mgr_init_task = 0x10, fork_next_core = 0\<rparr>\<rparr>"

lemma ex_table:
  "\<forall>i < length [[], [(1 :: u32, 0x10)], [], [], [], [(5, 0x20)], [(6, 0x30 :: u32)]].
     \<forall>n \<in> set ([[], [(1, 0x10)], [], [], [], [(5, 0x20)], [(6, 0x30 :: u32)]] ! i). uint (fst n :: u32) mod 7 = int i"
proof (intro allI impI)
  fix i assume "i < length [[], [(1 :: u32, 0x10)], [], [], [], [(5, 0x20)], [(6, 0x30 :: u32)]]"
  then have "i \<in> {0, 1, 2, 3, 4, 5, 6}" by auto
  then show "\<forall>n \<in> set ([[], [(1, 0x10)], [], [], [], [(5, 0x20)], [(6, 0x30 :: u32)]] ! i). uint (fst n :: u32) mod 7 = int i" by auto
qed

theorem manager_dispatch_zombies_ok_witness:
  "zombies_ok life_example \<and>
   (\<exists>s'. manager_dispatch (\<lambda>q b. (q, 0)) 0 0x2000 life_example = Inr s' \<and> zombies_ok s')"
proof
  show z: "zombies_ok life_example" by (simp add: zombies_ok_def life_example_def vw_example_def vw_ok_def)
  have "\<exists>s'. manager_dispatch (\<lambda>q b. (q, 0)) 0 0x2000 life_example = Inr s'"
    by (simp add: manager_dispatch_def smp_syscall_wait_def get_task_def hashtable_get_def bucket_def life_example_def vw_example_def)
  then obtain s' where s': "manager_dispatch (\<lambda>q b. (q, 0)) 0 0x2000 life_example = Inr s'" ..
  have "zombies_ok s'"
    by (rule manager_dispatch_zombies_ok [OF z _ s']) (simp add: life_example_def vw_example_def)
  with s' show "\<exists>s'. manager_dispatch (\<lambda>q b. (q, 0)) 0 0x2000 life_example = Inr s' \<and> zombies_ok s'" by blast
qed

end
