(* ===== verification/Life_Properties.thy ===== *)
theory Life_Properties
  imports Manager
begin

text \<open>
  What the manager core promises to tasks: exit statuses reach the parent, and where the code falls short
  of it. The hash table of tasks is used through its interface (\<open>key_stacks\<close>).
\<close>

section \<open>The table of tasks\<close>

definition task_of :: "kst \<Rightarrow> int \<Rightarrow> u32 option" where
  "task_of s i = get_ok (word_of_int i) (ht_pid_pcb (life s))"

definition pid_ok :: "kst \<Rightarrow> int \<Rightarrow> bool" where
  "pid_ok s i \<longleftrightarrow> ht_ok (ht_pid_pcb (life s)) \<and> in_range (ht_pid_pcb (life s)) (word_of_int i)"

lemma get_task_of: "pid_ok s i \<Longrightarrow> get_task i s = Inr (case task_of s i of None \<Rightarrow> NULL | Some p \<Rightarrow> p)"
  by (simp add: get_task_def task_of_def pid_ok_def hashtable_get_returns split: option.splits)

lemma task_of_cong: "ht_pid_pcb (life s') = ht_pid_pcb (life s) \<Longrightarrow> task_of s' i = task_of s i \<and> pid_ok s' i = pid_ok s i"
  by (simp add: task_of_def pid_ok_def)

lemma vanish_forget_found:
  assumes "pid_ok s i" and "task_of s i = Some p" and "vanish_pid m = i"
  shows "\<exists>t. vanish_forget m s = Inr (set_life (\<lambda>l. l\<lparr>ht_pid_pcb := t\<rparr>) s) \<and>
     (\<forall>j. pid_ok s j \<longrightarrow> pid_ok (set_life (\<lambda>l. l\<lparr>ht_pid_pcb := t\<rparr>) s) j \<and>
        (word_of_int j \<noteq> (word_of_int i :: u32) \<longrightarrow> task_of (set_life (\<lambda>l. l\<lparr>ht_pid_pcb := t\<rparr>) s) j = task_of s j))"
proof -
  let ?H = "ht_pid_pcb (life s)" and ?k = "word_of_int i :: u32"
  have ok: "ht_ok ?H" "in_range ?H ?k" using assms(1) by (simp_all add: pid_ok_def)
  have "snd (rem_ok ?k ?H) = Some p" using ht.rem_result [OF ok] assms(2) by (simp add: task_of_def)
  then have "hashtable_remove ?k ?H = Inr (fst (rem_ok ?k ?H), p, 1)" using hashtable_remove_returns [OF ok] by simp
  then have "vanish_forget m s = Inr (set_life (\<lambda>l. l\<lparr>ht_pid_pcb := fst (rem_ok ?k ?H)\<rparr>) s)"
    using assms(3) by (simp add: vanish_forget_def)
  moreover have "get_ok j (fst (rem_ok ?k ?H)) = get_ok j ?H" if "in_range ?H j" "j \<noteq> ?k" for j
    using ht.get_rem_other [OF ok that] .
  moreover have "ht_ok (fst (rem_ok ?k ?H))" "in_range (fst (rem_ok ?k ?H)) = in_range ?H" using ht.rem_inv [OF ok] by simp_all
  ultimately show ?thesis by (intro exI [of _ "fst (rem_ok ?k ?H)"]) (auto simp: pid_ok_def task_of_def)
qed

lemma mgr_send [simp]:
  "1 \<le> c \<Longrightarrow> c \<le> int (num_worker_cores s) \<Longrightarrow> manager_send_msg w c s =
     Inr (s\<lparr>msg_queues := (msg_queues s)(nat ((c - 1) * 2 + 1) := msg_queues s (nat ((c - 1) * 2 + 1)) @ [w])\<rparr>)"
  by (simp add: manager_send_msg_def Let_def)

section \<open>Exit statuses\<close>

text \<open>A task that can vanish, and a parent with nothing to reap.\<close>

definition child_ready :: "kst \<Rightarrow> int \<Rightarrow> u32 \<Rightarrow> bool" where
  "child_ready s i p \<longleftrightarrow> pid_ok s i \<and> task_of s i = Some p \<and> p \<noteq> NULL \<and>
     (\<exists>t e. tasks (life s) p = Some t \<and> exit_statuses (life s) (exit_status t) = Some e \<and> es_pid e = i \<and>
        es_nodes (life s) (exit_status_node t) = Some (exit_status t) \<and> child_exit_status_list t = [])"

definition parent_idle :: "kst \<Rightarrow> int \<Rightarrow> u32 \<Rightarrow> bool" where
  "parent_idle s i p \<longleftrightarrow> pid_ok s i \<and> task_of s i = Some p \<and> p \<noteq> NULL \<and>
     (\<exists>t. tasks (life s) p = Some t \<and> wait_queue t = [] \<and> child_exit_status_list t = [] \<and> num_zombie t = 0)"

text \<open>The state after the report of a child's status to an idle parent.\<close>

definition reported :: "u32 \<Rightarrow> pcb_vanish_wait_t \<Rightarrow> exit_status_t \<Rightarrow> u32 \<Rightarrow> pcb_vanish_wait_t \<Rightarrow> int \<Rightarrow> kst \<Rightarrow> kst" where
  "reported this t e par p st s = set_life (\<lambda>l. l\<lparr>exit_statuses := (exit_statuses l)(exit_status t \<mapsto> e\<lparr>es_status := st\<rparr>),
     tasks := (tasks l)(par \<mapsto> p\<lparr>child_exit_status_list := child_exit_status_list p @ [exit_status_node t],
       num_zombie := num_zombie p + 1, num_alive := num_alive p - 1\<rparr>)\<rparr>) s"

lemma vanish_report_idle:
  assumes "get_task (vanish_ppid m) s = Inr par0" and "par = (if par0 = NULL then mgr_init_task (life s) else par0)"
    and "tasks (life s) this = Some t" and "exit_statuses (life s) (exit_status t) = Some e"
    and "tasks (life s) par = Some p" and "wait_queue p = []"
  shows "vanish_report this m s = Inr (reported this t e par p (vanish_status m) s)"
  using assms by (simp add: vanish_report_def Let_def kderef_def wake_waiter_def reported_def set_life_def)

text \<open>A task without children of its own: nothing is moved to \<open>init\<close>.\<close>

lemma vanish_orphans_none:
  assumes "tasks (life s) this = Some t" and "child_exit_status_list t = []" and "tasks (life s) (mgr_init_task (life s)) \<noteq> None"
  shows "vanish_orphans this s = Inr (set_life (\<lambda>l. l\<lparr>tasks := (tasks l)(this \<mapsto> t\<lparr>child_exit_status_list := []\<rparr>)\<rparr>) s)" (is "_ = Inr ?s")
proof -
  have "tasks (life ?s) (mgr_init_task (life s)) \<noteq> None" using assms(3) by simp
  then obtain iv where "get_vw (mgr_init_task (life s)) ?s = Inr iv" by (auto simp: get_vw_Inr)
  then show ?thesis using assms(1,2) by (simp add: vanish_orphans_def Let_def)
qed

text \<open>A wait of a task with one unreaped child.\<close>

lemma wait_reaps_one:
  assumes "msgs s wm = Some w" and "1 \<le> req_cpu w" "req_cpu w \<le> int (num_worker_cores s)"
    and "get_task (wait_pid w) s = Inr par" and "par \<noteq> NULL" and "tasks (life s) par = Some p"
    and "child_exit_status_list p = [nd]" and "num_zombie p = 1"
    and "es_nodes (life s) nd = Some es" and "exit_statuses (life s) es = Some e"
  shows "\<exists>s'. smp_syscall_wait wm s = Inr s' \<and> msgs s' wm = Some (w\<lparr>mtype := WAIT_RESPONSE, d1 := es_pid e, d0 := es_status e\<rparr>) \<and>
     wm \<in> set (msg_queues s' (nat ((req_cpu w - 1) * 2 + 1)))"
  using assms by (simp add: smp_syscall_wait_def reap_child_def kderef_def Let_def)

text \<open>C2: the exit status of a child reaches its parent. When a task without unreaped children vanishes and
  its living parent has no zombie and no waiting thread, then the manager answers the next \<open>wait\<close> of the
  parent with the child's pid and exit status, on the core that asked.\<close>

theorem vanish_wait_roundtrip:
  assumes child: "child_ready s i this" and parent: "parent_idle s j par" and "this \<noteq> par"
    and "(word_of_int i :: u32) \<noteq> word_of_int j" and ini: "tasks (life s) (mgr_init_task (life s)) \<noteq> None"
    and vm: "msgs s vm = Some m" "vanish_pid m = i" "vanish_ppid m = j" "vanish_status m = st"
       "1 \<le> req_cpu m" "req_cpu m \<le> int (num_worker_cores s)"
    and wm: "msgs s wm = Some w" "wait_pid w = j" "1 \<le> req_cpu w" "req_cpu w \<le> int (num_worker_cores s)" "wm \<noteq> vm"
  shows "\<exists>s1 s2. smp_syscall_vanish vm s = Inr s1 \<and> smp_syscall_wait wm s1 = Inr s2 \<and>
     msgs s2 wm = Some (w\<lparr>mtype := WAIT_RESPONSE, d1 := i, d0 := st\<rparr>) \<and>
     wm \<in> set (msg_queues s2 (nat ((req_cpu w - 1) * 2 + 1)))"
proof -
  from child obtain t e where t: "tasks (life s) this = Some t" "exit_statuses (life s) (exit_status t) = Some e" "es_pid e = i"
    "es_nodes (life s) (exit_status_node t) = Some (exit_status t)" "child_exit_status_list t = []" "this \<noteq> NULL"
    and ti: "pid_ok s i" "task_of s i = Some this" by (auto simp: child_ready_def)
  from parent obtain p where p: "tasks (life s) par = Some p" "wait_queue p = []" "child_exit_status_list p = []" "num_zombie p = 0" "par \<noteq> NULL"
    and tj: "pid_ok s j" "task_of s j = Some par" by (auto simp: parent_idle_def)
  define p1 where "p1 = p\<lparr>child_exit_status_list := [exit_status_node t], num_zombie := 1, num_alive := num_alive p - 1\<rparr>"
  define s1 where "s1 = reported this t e par p st s"
  have s1: "life s1 = (life s)\<lparr>exit_statuses := (exit_statuses (life s))(exit_status t \<mapsto> e\<lparr>es_status := st\<rparr>),
      tasks := (tasks (life s))(par \<mapsto> p1)\<rparr>" "msgs s1 = msgs s" "num_worker_cores s1 = num_worker_cores s"
    using p by (simp_all add: s1_def reported_def p1_def)
  have rep: "vanish_report this m s = Inr s1"
    using vanish_report_idle [of m s par par this t e p] get_task_of [OF tj(1)] tj(2) vm p t by (simp add: s1_def)
  have c1: "task_of s1 x = task_of s x" "pid_ok s1 x = pid_ok s x" for x using task_of_cong [of s1 s x] s1(1) by simp_all
  obtain H where H: "vanish_forget m s1 = Inr (set_life (\<lambda>l. l\<lparr>ht_pid_pcb := H\<rparr>) s1)"
    "pid_ok (set_life (\<lambda>l. l\<lparr>ht_pid_pcb := H\<rparr>) s1) j" "task_of (set_life (\<lambda>l. l\<lparr>ht_pid_pcb := H\<rparr>) s1) j = Some par"
    using vanish_forget_found [of s1 i this m] ti tj vm assms(4) c1 by auto
  define s2 where "s2 = set_life (\<lambda>l. l\<lparr>ht_pid_pcb := H\<rparr>) s1"
  define s3 where "s3 = set_life (\<lambda>l. l\<lparr>tasks := (tasks l)(this \<mapsto> t\<lparr>child_exit_status_list := []\<rparr>)\<rparr>) s2"
  define s4 where "s4 = kfree this (set_life (\<lambda>l. l\<lparr>tasks := (tasks l)(this := None)\<rparr>) s3)"
  define q where "q = nat ((req_cpu m - 1) * 2 + 1)"
  define s5 where "s5 = s4\<lparr>msgs := (msgs s4)(vm \<mapsto> m\<lparr>mtype := RESPONSE\<rparr>), msg_queues := (msg_queues s4)(q := msg_queues s4 q @ [vm])\<rparr>"
  have t2: "tasks (life s2) this = Some t" "tasks (life s2) (mgr_init_task (life s2)) \<noteq> None"
    using t(1) ini assms(3) by (auto simp: s2_def s1)
  have orph: "vanish_orphans this s2 = Inr s3" unfolding s3_def by (rule vanish_orphans_none [OF t2(1) t(5) t2(2)])
  have v: "smp_syscall_vanish vm s = Inr s5"
    using vm t(6) get_task_of [OF ti(1)] ti(2) rep H(1) orph
    by (simp add: smp_syscall_vanish_def s2_def [symmetric] free_pcb_vanish_wait_struct_def s4_def [symmetric])
      (simp add: s4_def s3_def s2_def s1 s5_def q_def)
  have l5: "tasks (life s5) par = Some p1" "exit_statuses (life s5) (exit_status t) = Some (e\<lparr>es_status := st\<rparr>)"
    "es_nodes (life s5) (exit_status_node t) = Some (exit_status t)" "msgs s5 wm = Some w" "num_worker_cores s5 = num_worker_cores s"
    using assms(3) wm t(4) by (simp_all add: s5_def s4_def s3_def s2_def s1)
  have g5: "get_task j s5 = Inr par"
  proof -
    have "ht_pid_pcb (life s5) = ht_pid_pcb (life s2)" by (simp add: s5_def s4_def s3_def)
    then show ?thesis using get_task_of [of s5 j] task_of_cong [of s5 s2 j] H(2,3) by (simp add: s2_def)
  qed
  have "wait_pid w = j" "child_exit_status_list p1 = [exit_status_node t]" "num_zombie p1 = 1" using wm(2) by (simp_all add: p1_def)
  from wait_reaps_one [OF l5(4) wm(3) _ _ p(5) l5(1) this(2,3) l5(3,2)] v g5 wm(2,4) l5(5) t(3) show ?thesis by auto
qed

theorem vanish_wait_roundtrip_witness:
  "\<exists>s1 s2. smp_syscall_vanish 0x1000 life_example = Inr s1 \<and> smp_syscall_wait 0x2000 s1 = Inr s2 \<and>
     msgs s2 0x2000 = Some (\<lparr>req_thr = 0x203fe0, req_cpu = 1, mtype = WAIT, d0 = 5, d1 = 0, d2 = 0, d3 = 0\<rparr>\<lparr>mtype := WAIT_RESPONSE, d1 := 6, d0 := 42\<rparr>) \<and>
     0x2000 \<in> set (msg_queues s2 (nat ((req_cpu \<lparr>req_thr = 0x203fe0, req_cpu = 1, mtype = WAIT, d0 = 5, d1 = 0, d2 = 0, d3 = 0\<rparr> - 1) * 2 + 1)))"
proof (rule vanish_wait_roundtrip [where i = 6 and j = 5 and this = "0x30" and par = "0x20"
      and m = "\<lparr>req_thr = 0x201fe0, req_cpu = 2, mtype = VANISH, d0 = 6, d1 = 5, d2 = 42, d3 = 0\<rparr>"])
  show "child_ready life_example 6 0x30"
    by (simp add: child_ready_def pid_ok_def task_of_def life_example_def vw_example_def get_ok_def hashtable_get_def bucket_def ht_ok_def in_range_def ex_table [simplified])
  show "parent_idle life_example 5 0x20"
    by (simp add: parent_idle_def pid_ok_def task_of_def life_example_def vw_example_def get_ok_def hashtable_get_def bucket_def ht_ok_def in_range_def ex_table [simplified])
qed (simp_all add: life_example_def vw_example_def kst_example_def)

end
