(* ===== verification/Syscall_Base.thy ===== *)
theory Syscall_Base
  imports Run_Queue
begin

text \<open>
  What the system call handlers share: access to memory by virtual address (the kernel's own memory is
  mapped one to one below \<open>USER_MEM_START\<close>, the rest through the page tables), requests to the manager
  core, and the ways out of the kernel. With them the handlers of \<open>syscall_memory.c\<close> and \<open>syscall_misc.c\<close>.
\<close>

definition ENOENT :: int where "ENOENT = - 2"
definition E2BIG :: int where "E2BIG = - 7"
definition ENOEXEC :: int where "ENOEXEC = - 8"
definition EFAULT :: int where "EFAULT = - 14"
definition EINVAL :: int where "EINVAL = - 22"
definition ENAMETOOLONG :: int where "ENAMETOOLONG = - 36"
definition EALLOCATED :: int where "EALLOCATED = - 258"

lemmas syscall_errors = ENOENT_def E2BIG_def ENOEXEC_def EFAULT_def EINVAL_def ENAMETOOLONG_def EALLOCATED_def
  ENOMEM_def EMORETHR_def ETHREAD_def

section \<open>Memory by virtual address\<close>

text \<open>The kernel writes to read-only user pages too (\<open>WP\<close> of \<open>%cr0\<close> is not set).\<close>

definition ld8 :: "u32 \<Rightarrow> kst \<Rightarrow> u8 kres" where
  "ld8 a s = (if a < USER_MEM_START then Inr (kmem s a) else read_byte a (kvm s))"

definition st8 :: "u32 \<Rightarrow> u8 \<Rightarrow> kst \<Rightarrow> kst kres" where
  "st8 a b s =
     (if a < USER_MEM_START then Inr (s\<lparr>kmem := (kmem s)(a := b)\<rparr>)
      else kbind (walk (a AND PAGE_ALIGN_MASK) (kvm s)) (\<lambda>f.
           Inr (s\<lparr>kvm := (kvm s)\<lparr>frames := (frames (kvm s))(f := (frames (kvm s) f)(unat (a AND 0xFFF) := b))\<rparr>\<rparr>)))"

primrec ld_bytes :: "nat \<Rightarrow> u32 \<Rightarrow> kst \<Rightarrow> u8 list kres" where
  "ld_bytes 0 a s = Inr []"
| "ld_bytes (Suc n) a s = kbind (ld8 a s) (\<lambda>b. kbind (ld_bytes n (a + 1) s) (\<lambda>bs. Inr (b # bs)))"

primrec st_bytes :: "u32 \<Rightarrow> u8 list \<Rightarrow> kst \<Rightarrow> kst kres" where
  "st_bytes a [] s = Inr s"
| "st_bytes a (b # bs) s = kbind (st8 a b s) (st_bytes (a + 1) bs)"

definition word_bytes :: "u32 \<Rightarrow> u8 list" where
  "word_bytes v = [ucast v, ucast (drop_bit 8 v), ucast (drop_bit 16 v), ucast (drop_bit 24 v)]"

definition ld32 :: "u32 \<Rightarrow> kst \<Rightarrow> u32 kres" where
  "ld32 a s =
     kbind (ld_bytes 4 a s) (\<lambda>b.
     Inr (ucast (b ! 0) OR push_bit 8 (ucast (b ! 1)) OR push_bit 16 (ucast (b ! 2)) OR push_bit 24 (ucast (b ! 3))))"

definition st32 :: "u32 \<Rightarrow> u32 \<Rightarrow> kst \<Rightarrow> kst kres" where
  "st32 a v s = st_bytes a (word_bytes v) s"

text \<open>\<open>memcpy\<close> of disjoint areas.\<close>

definition memcpy :: "u32 \<Rightarrow> u32 \<Rightarrow> nat \<Rightarrow> kst \<Rightarrow> kst kres" where
  "memcpy dst src n s = kbind (ld_bytes n src s) (\<lambda>b. st_bytes dst b s)"

text \<open>A C string from an address up to its terminating zero. A string that runs past the last address is a
  wild access.\<close>

function cstring :: "u32 \<Rightarrow> kst \<Rightarrow> u8 list kres" where
  "cstring a s =
     (case ld8 a s of Inl e \<Rightarrow> Inl e
      | Inr b \<Rightarrow>
          if b = 0 then Inr []
          else if a = 0xFFFFFFFF then Inl FAULT
          else kbind (cstring (a + 1) s) (\<lambda>bs. Inr (b # bs)))"
  by pat_completeness auto
termination
proof (relation "measure (\<lambda>(a, s). 4294967295 - unat a)", simp)
  fix a :: u32 and s :: kst and b :: u8
  assume "a \<noteq> 0xFFFFFFFF"
  then have "unat a \<noteq> 4294967295" by (simp add: word_unat_eq_iff)
  then have "unat a < 4294967295" using u32_bound [of a] by linarith
  moreover from this have "unat (a + 1) = unat a + 1" by (simp add: unat_word_ariths(1))
  ultimately show "((a + 1, s), (a, s)) \<in> measure (\<lambda>(a, s). 4294967295 - unat a)" by simp
qed

declare cstring.simps [simp del]

text \<open>\<open>strcmp(p, str) == 0\<close> for a known string, and \<open>strncmp(p, q, n) == 0\<close>.\<close>

primrec strcmp_eq :: "u8 list \<Rightarrow> u32 \<Rightarrow> kst \<Rightarrow> bool kres" where
  "strcmp_eq [] p s = kbind (ld8 p s) (\<lambda>b. Inr (b = 0))"
| "strcmp_eq (x # xs) p s = kbind (ld8 p s) (\<lambda>b. if b = x then strcmp_eq xs (p + 1) s else Inr False)"

primrec strncmp_eq :: "nat \<Rightarrow> u32 \<Rightarrow> u32 \<Rightarrow> kst \<Rightarrow> bool kres" where
  "strncmp_eq 0 p q s = Inr True"
| "strncmp_eq (Suc n) p q s =
     kbind (ld8 p s) (\<lambda>b. kbind (ld8 q s) (\<lambda>b'.
     if b \<noteq> b' then Inr False else if b = 0 then Inr True else strncmp_eq n (p + 1) (q + 1) s))"

section \<open>Requests to the manager core\<close>

text \<open>Fill in the thread's message, send it, and read it when the thread is back.\<close>

definition send_request :: "environment \<Rightarrow> nat \<Rightarrow> u32 \<Rightarrow> (msg_t \<Rightarrow> msg_t) \<Rightarrow> kst \<Rightarrow> (kst \<times> nat \<times> msg_t) kres" where
  "send_request env c this f s =
     kbind (get_tcb this s) (\<lambda>t.
     kbind (mod_msg (my_msg t) (\<lambda>m. f (m\<lparr>req_thr := this, req_cpu := int c\<rparr>)) s) (\<lambda>s.
     kbind (context_switch env c OP_SEND_MSG 0 this s) (\<lambda>(s, c).
     kbind (get_tcb this s) (\<lambda>t.
     kbind (get_msg (my_msg t) s) (\<lambda>m. Inr (s, c, m))))))"

definition user_check :: "nat \<Rightarrow> u32 \<Rightarrow> u32 \<Rightarrow> int \<Rightarrow> bool \<Rightarrow> bool \<Rightarrow> kst \<Rightarrow> (kst \<times> int) kres" where
  "user_check c this va n is_null need_w s = vm_call c this (check_mem_validness va n is_null need_w) s"

section \<open>Leaving the kernel\<close>

record ureg_t =
  ur_cause :: u32
  ur_cr2 :: u32
  ur_ds :: u32
  ur_es :: u32
  ur_fs :: u32
  ur_gs :: u32
  ur_edi :: u32
  ur_esi :: u32
  ur_ebp :: u32
  ur_zero :: u32
  ur_ebx :: u32
  ur_edx :: u32
  ur_ecx :: u32
  ur_eax :: u32
  ur_error_code :: u32
  ur_eip :: u32
  ur_cs :: u32
  ur_eflags :: u32
  ur_esp :: u32
  ur_ss :: u32

definition SIZEOF_UREG :: u32 where "SIZEOF_UREG = 80"

definition ureg_of_words :: "u32 list \<Rightarrow> ureg_t" where
  "ureg_of_words w = \<lparr>ur_cause = w ! 0, ur_cr2 = w ! 1, ur_ds = w ! 2, ur_es = w ! 3, ur_fs = w ! 4, ur_gs = w ! 5,
     ur_edi = w ! 6, ur_esi = w ! 7, ur_ebp = w ! 8, ur_zero = w ! 9, ur_ebx = w ! 10, ur_edx = w ! 11,
     ur_ecx = w ! 12, ur_eax = w ! 13, ur_error_code = w ! 14, ur_eip = w ! 15, ur_cs = w ! 16, ur_eflags = w ! 17,
     ur_esp = w ! 18, ur_ss = w ! 19\<rparr>"

definition words_of_ureg :: "ureg_t \<Rightarrow> u32 list" where
  "words_of_ureg u = [ur_cause u, ur_cr2 u, ur_ds u, ur_es u, ur_fs u, ur_gs u, ur_edi u, ur_esi u, ur_ebp u, ur_zero u,
     ur_ebx u, ur_edx u, ur_ecx u, ur_eax u, ur_error_code u, ur_eip u, ur_cs u, ur_eflags u, ur_esp u, ur_ss u]"

primrec ld_words :: "nat \<Rightarrow> u32 \<Rightarrow> kst \<Rightarrow> u32 list kres" where
  "ld_words 0 a s = Inr []"
| "ld_words (Suc n) a s = kbind (ld32 a s) (\<lambda>w. kbind (ld_words n (a + 4) s) (\<lambda>ws. Inr (w # ws)))"

primrec st_words :: "u32 \<Rightarrow> u32 list \<Rightarrow> kst \<Rightarrow> kst kres" where
  "st_words a [] s = Inr s"
| "st_words a (w # ws) s = kbind (st32 a w s) (st_words (a + 4) ws)"

text \<open>The handler returns, adopts a set of registers (\<open>asm_ret_newureg\<close>), starts a user handler
  (\<open>asm_ret_swexn_handler\<close>: eip, cs, eflags, esp, ss) or starts a program on a prepared kernel stack
  (\<open>asm_new_process_iret\<close>, \<open>asm_idle_process_iret\<close>).\<close>

datatype kexit = RETURNS int | ADOPTS ureg_t | RUNS_HANDLER u32 u32 u32 u32 u32 | STARTS bool u32

definition SEGSEL_USER_CS :: u32 where "SEGSEL_USER_CS = 0x23"
definition SEGSEL_USER_DS :: u32 where "SEGSEL_USER_DS = 0x2b"

section \<open>Memory system calls\<close>

definition new_pages_error :: "int \<Rightarrow> int" where
  "new_pages_error ret =
     (if ret = ERROR_BASE_NOT_ALIGNED \<or> ret = ERROR_LEN then EINVAL
      else if ret = ERROR_KERNEL_SPACE then EFAULT
      else if ret = ERROR_OVERLAP then EALLOCATED
      else if ret = ERROR_MALLOC_LIB \<or> ret = ERROR_NOT_ENOUGH_MEM_I then ENOMEM
      else ret)"

definition new_pages_syscall_handler :: "nat \<Rightarrow> u32 \<Rightarrow> u32 \<Rightarrow> int \<Rightarrow> kst \<Rightarrow> (kst \<times> int) kres" where
  "new_pages_syscall_handler c this base len s =
     kbind (vm_call c this (new_pages base (word_of_int len)) s) (\<lambda>(s, ret). Inr (s, new_pages_error ret))"

text \<open>\<open>None\<close>: the loop over the pages of the region does not end.\<close>

definition remove_pages_syscall_handler :: "nat \<Rightarrow> u32 \<Rightarrow> u32 \<Rightarrow> kst \<Rightarrow> (kst \<times> int) kres option" where
  "remove_pages_syscall_handler c this base s =
     (case enter_vm c this s of Inl e \<Rightarrow> Some (Inl e)
      | Inr v \<Rightarrow> (case remove_pages base v of None \<Rightarrow> None
         | Some r \<Rightarrow> Some (kbind r (\<lambda>(v, ret). kbind (leave_vm c this v s) (\<lambda>s. Inr (s, if ret < 0 then EINVAL else ret))))))"

section \<open>Files and halt\<close>

text \<open>The table of files in the kernel image is generated by the build: names and contents are a parameter.\<close>

type_synonym file_table = "(u8 list \<times> u8 list) list"

definition DOT :: "u8 list" where "DOT = [46]"

text \<open>The contents of the file \<open>.\<close>.\<close>

definition dot_file :: "file_table \<Rightarrow> u8 list" where
  "dot_file toc = concat (map (\<lambda>f. fst f @ [0]) toc) @ [0]"

definition syscall_readfile_init :: "file_table \<Rightarrow> kst \<Rightarrow> (kst \<times> u8 list option \<times> int)" where
  "syscall_readfile_init toc s =
     (case kmalloc s of (s, p) \<Rightarrow> if p = NULL then (s, None, - 1) else (s, Some (dot_file toc), 0))"

text \<open>The common part for \<open>.\<close> and a file: check the offset, cut the count, copy.\<close>

definition read_from :: "u8 list \<Rightarrow> u32 \<Rightarrow> int \<Rightarrow> int \<Rightarrow> kst \<Rightarrow> (kst \<times> int) kres" where
  "read_from bytes buf cnt offset s =
     (if int (length bytes) < offset then Inr (s, - 1)
      else
        let cnt = (if int (length bytes) < sint (word_of_int (offset + cnt) :: u32) then int (length bytes) - offset else cnt) in
        if offset + cnt \<le> int (length bytes)
        then kbind (st_bytes buf (take (nat cnt) (drop (nat offset) bytes)) s) (\<lambda>s. Inr (s, cnt))
        else Inl FAULT)"

primrec readfile_loop :: "file_table \<Rightarrow> u32 \<Rightarrow> u32 \<Rightarrow> int \<Rightarrow> int \<Rightarrow> kst \<Rightarrow> (kst \<times> int) kres" where
  "readfile_loop [] filename buf cnt offset s = Inr (s, - 1)"
| "readfile_loop (f # fs) filename buf cnt offset s =
     kbind (strcmp_eq (fst f) filename s) (\<lambda>eq.
     if eq then read_from (snd f) buf cnt offset s else readfile_loop fs filename buf cnt offset s)"

definition readfile_syscall_handler ::
  "file_table \<Rightarrow> nat \<Rightarrow> u32 \<Rightarrow> u32 \<Rightarrow> u32 \<Rightarrow> int \<Rightarrow> int \<Rightarrow> kst \<Rightarrow> (kst \<times> int) kres" where
  "readfile_syscall_handler toc c this filename buf cnt offset s =
     (if cnt < 0 \<or> offset < 0 then Inr (s, - 1)
      else
        kbind (user_check c this buf cnt False True s) (\<lambda>(s, rv).
        if rv < 0 then Inr (s, - 1)
        else
          kbind (strcmp_eq DOT filename s) (\<lambda>dot.
          if dot then read_from (dot_file toc) buf cnt offset s
          else readfile_loop toc filename buf cnt offset s)))"

text \<open>On real hardware, where \<open>sim_halt\<close> does nothing.\<close>

definition halt_syscall_handler :: "environment \<Rightarrow> nat \<Rightarrow> u32 \<Rightarrow> kst \<Rightarrow> (kst \<times> nat) kres" where
  "halt_syscall_handler env c this s =
     kbind (send_request env c this (\<lambda>m. m\<lparr>mtype := HALT\<rparr>) s) (\<lambda>(s, c, m). Inr (s, c))"

end
