(* ===== verification/Thread_Mgmt.thy ===== *)
theory Thread_Mgmt
  imports Syscall_Base
begin

text \<open>
  \<open>syscall_thr_management.c\<close> and the timer interrupt of \<open>timer_driver.c\<close>: sleeping, yielding, software
  exception handlers, \<open>deschedule\<close> and \<open>make_runnable\<close>. The queues of descheduled and of sleeping threads are
  used under their locks.
\<close>

section \<open>Initialisation\<close>

definition sleep_queue_compare :: "u32 \<times> u32 \<Rightarrow> u32 \<times> u32 \<Rightarrow> int" where
  "sleep_queue_compare this that =
     (let t1 = fst this; t2 = fst that in if t2 < t1 then 1 else if t1 < t2 then - 1 else 0)"

definition syscall_sleep_init :: "nat \<Rightarrow> kst \<Rightarrow> kst \<times> int" where
  "syscall_sleep_init c s =
     (case kmalloc s of (s, p) \<Rightarrow>
      if p = NULL then (s, - 1)
      else case pri_queue_init sleep_queue_compare of (q, rv) \<Rightarrow>
        if rv < 0 then (s, - 1)
        else let s = s\<lparr>sleep_queue := (sleep_queue s)(c := q)\<rparr> in
          case kmalloc s of (s, l) \<Rightarrow> (s, if l = NULL then - 1 else 0))"

definition syscall_deschedule_init :: "nat \<Rightarrow> kst \<Rightarrow> kst \<times> int" where
  "syscall_deschedule_init c s =
     (case kmalloc s of (s, q) \<Rightarrow>
      if q = NULL then (s, - 1)
      else case kmalloc s of (s, m) \<Rightarrow>
        if m = NULL then (s, - 1) else (s\<lparr>deschedule_queues := (deschedule_queues s)(c := [])\<rparr>, 0))"

section \<open>Time\<close>

definition gettid_syscall_handler :: "u32 \<Rightarrow> kst \<Rightarrow> int kres" where
  "gettid_syscall_handler this s = kbind (get_tcb this s) (\<lambda>t. Inr (tid t))"

definition timer_get_ticks :: "nat \<Rightarrow> kst \<Rightarrow> u32" where
  "timer_get_ticks c s = num_ticks s c"

definition get_ticks_syscall_handler :: "nat \<Rightarrow> kst \<Rightarrow> u32" where
  "get_ticks_syscall_handler c s = timer_get_ticks c s"

text \<open>The part of \<open>sleep\<close> under the lock, then the whole.\<close>

definition sleep_enqueue :: "nat \<Rightarrow> u32 \<Rightarrow> int \<Rightarrow> kst \<Rightarrow> kst" where
  "sleep_enqueue c this ticks s =
     s\<lparr>sleep_queue := (sleep_queue s)(c := fst (pri_queue_enqueue (word_of_int ticks + timer_get_ticks c s, this) (sleep_queue s c)))\<rparr>"

definition sleep_syscall_handler :: "environment \<Rightarrow> nat \<Rightarrow> u32 \<Rightarrow> int \<Rightarrow> kst \<Rightarrow> (kst \<times> nat \<times> int) kres" where
  "sleep_syscall_handler env c this ticks s =
     (if ticks < 0 then Inr (s, c, EINVAL)
      else if ticks = 0 then Inr (s, c, 0)
      else kbind (context_switch env c OP_BLOCK 0 this (sleep_enqueue c this ticks s)) (\<lambda>(s, c). Inr (s, c, 0)))"

definition timer_callback :: "nat \<Rightarrow> kst \<Rightarrow> kst \<times> u32" where
  "timer_callback c s =
     (case pri_queue_get_first (sleep_queue s c) of
        None \<Rightarrow> (s, NULL)
      | Some (t, th) \<Rightarrow>
          if t \<le> timer_get_ticks c s
          then (s\<lparr>sleep_queue := (sleep_queue s)(c := fst (pri_queue_dequeue (sleep_queue s c)))\<rparr>, th)
          else (s, NULL))"

text \<open>\<open>esp\<close>: the stack pointer of the interrupted thread \<open>this\<close>.\<close>

definition apic_timer_interrupt_handler :: "environment \<Rightarrow> nat \<Rightarrow> u32 \<Rightarrow> u32 \<Rightarrow> kst \<Rightarrow> (kst \<times> nat) kres" where
  "apic_timer_interrupt_handler env c esp this s =
     (case timer_callback c (s\<lparr>num_ticks := (num_ticks s)(c := num_ticks s c + 1)\<rparr>) of (s, next_thr) \<Rightarrow>
      if tcb_is_stack_overflow esp then Inl PANIC
      else if next_thr = NULL then context_switch env c OP_CONTEXT_SWITCH (- 1) this s
      else context_switch env c OP_RESUME next_thr this s)"

section \<open>\<open>yield\<close>\<close>

text \<open>One turn of the loop: look on the current core, then let the manager send the thread on.\<close>

definition yield_visit :: "environment \<Rightarrow> nat \<Rightarrow> u32 \<Rightarrow> u32 \<Rightarrow> kst \<Rightarrow> (kst \<times> nat) kres" where
  "yield_visit env c this msg s =
     kbind (get_msg msg s) (\<lambda>m.
     kbind (scheduler_is_exist_or_running c (search_tid m) s) (\<lambda>found.
     kbind (if found then mod_msg msg (\<lambda>m. m\<lparr>d2 := 0\<rparr>) s else Inr s) (\<lambda>s.
     context_switch env c OP_SEND_MSG 0 this s)))"

partial_function (option) yield_loop ::
  "environment \<Rightarrow> nat \<Rightarrow> u32 \<Rightarrow> u32 \<Rightarrow> kst \<Rightarrow> (kst \<times> nat) kres option" where
  "yield_loop env c this msg s =
     (case yield_visit env c this msg s of Inl e \<Rightarrow> Some (Inl e)
      | Inr (s, c) \<Rightarrow> (case msgs s msg of None \<Rightarrow> Some (Inl FAULT)
         | Some m \<Rightarrow> if search_result m < 0 \<and> int c \<noteq> req_cpu m then yield_loop env c this msg s else Some (Inr (s, c))))"

text \<open>After the search the thread gets its own task back.\<close>

definition search_done :: "nat \<Rightarrow> u32 \<Rightarrow> u32 \<Rightarrow> u32 \<Rightarrow> kst \<Rightarrow> (kst \<times> nat \<times> int) kres" where
  "search_done c this msg p s =
     kbind (mod_tcb this (\<lambda>t. t\<lparr>pcb := p\<rparr>) s) (\<lambda>s.
     kbind (get_pcb p s) (\<lambda>pc.
     kbind (get_msg msg s) (\<lambda>m.
     Inr (kset_cr3 (page_table_base pc) s, c, if search_result m < 0 then ETHREAD else 0))))"

definition search_msg :: "u32 \<Rightarrow> nat \<Rightarrow> msg_type_t \<Rightarrow> int \<Rightarrow> msg_t \<Rightarrow> msg_t" where
  "search_msg this c ty i m = m\<lparr>req_thr := this, req_cpu := int c, mtype := ty, d0 := i, d2 := - 1, d1 := int c\<rparr>"

definition yield_syscall_handler ::
  "environment \<Rightarrow> nat \<Rightarrow> u32 \<Rightarrow> int \<Rightarrow> kst \<Rightarrow> (kst \<times> nat \<times> int) kres option" where
  "yield_syscall_handler env c this i s =
     (case kbind (context_switch env c OP_YIELD (word_of_int i) this s) (\<lambda>(s, c).
           kbind (get_tcb this s) (\<lambda>t.
           if 0 \<le> result t then Inr (s, c, t, False)
           else kbind (mod_msg (my_msg t) (search_msg this c YIELD i) s) (\<lambda>s. Inr (s, c, t, True)))) of
        Inl e \<Rightarrow> Some (Inl e)
      | Inr (s, c, t, search) \<Rightarrow>
          if \<not> search then Some (Inr (s, c, 0))
          else (case yield_loop env c this (my_msg t) s of
                  None \<Rightarrow> None
                | Some r \<Rightarrow> Some (kbind r (\<lambda>(s, c). search_done c this (my_msg t) (pcb t) s))))"

section \<open>\<open>swexn\<close>\<close>

definition EFLAGS_GET_RSV :: "u32 \<Rightarrow> u32" where "EFLAGS_GET_RSV n = n AND 0xffc0802a"
definition EFLAGS_GET_IOPL :: "u32 \<Rightarrow> u32" where "EFLAGS_GET_IOPL n = drop_bit 12 n AND 3"
definition EFLAGS_GET_TF :: "u32 \<Rightarrow> u32" where "EFLAGS_GET_TF n = drop_bit 8 n AND 1"
definition EFLAGS_GET_IF :: "u32 \<Rightarrow> u32" where "EFLAGS_GET_IF n = drop_bit 9 n AND 1"
definition EFLAGS_GET_NT :: "u32 \<Rightarrow> u32" where "EFLAGS_GET_NT n = drop_bit 14 n AND 1"
definition EFLAGS_GET_OTHER :: "u32 \<Rightarrow> u32" where "EFLAGS_GET_OTHER n = drop_bit 17 n AND 0x1f"

lemmas eflags_defs = EFLAGS_GET_RSV_def EFLAGS_GET_IOPL_def EFLAGS_GET_TF_def EFLAGS_GET_IF_def EFLAGS_GET_NT_def
  EFLAGS_GET_OTHER_def

definition is_newureg_valid :: "ureg_t \<Rightarrow> bool" where
  "is_newureg_valid u =
     (if ur_ds u \<noteq> SEGSEL_USER_DS \<or> ur_es u \<noteq> SEGSEL_USER_DS \<or> ur_fs u \<noteq> SEGSEL_USER_DS \<or>
         ur_gs u \<noteq> SEGSEL_USER_DS \<or> ur_ss u \<noteq> SEGSEL_USER_DS \<or> ur_cs u \<noteq> SEGSEL_USER_CS then False
      else if ur_ebp u < USER_MEM_START \<or> ur_esp u < USER_MEM_START \<or> ur_eip u < USER_MEM_START then False
      else if EFLAGS_GET_RSV (ur_eflags u) \<noteq> 2 \<or> EFLAGS_GET_IOPL (ur_eflags u) \<noteq> 0 \<or>
         EFLAGS_GET_TF (ur_eflags u) \<noteq> 0 \<or> EFLAGS_GET_IF (ur_eflags u) \<noteq> 1 \<or>
         EFLAGS_GET_NT (ur_eflags u) \<noteq> 0 \<or> EFLAGS_GET_OTHER (ur_eflags u) \<noteq> 0 then False
      else True)"

text \<open>The check of \<open>user_newureg\<close>; \<open>None\<close>: invalid.\<close>

definition swexn_newureg :: "nat \<Rightarrow> u32 \<Rightarrow> u32 \<Rightarrow> kst \<Rightarrow> (kst \<times> ureg_t option) kres" where
  "swexn_newureg c this user_newureg s =
     kbind (user_check c this user_newureg (uint SIZEOF_UREG) False False s) (\<lambda>(s, rv).
     if rv < 0 then Inr (s, None)
     else kbind (ld_words 20 user_newureg s) (\<lambda>w.
          Inr (s, if is_newureg_valid (ureg_of_words w) then Some (ureg_of_words w) else None)))"

text \<open>Registering or deregistering the handler; both checks of memory look at \<open>esp3\<close>.\<close>

definition swexn_register :: "nat \<Rightarrow> u32 \<Rightarrow> u32 \<Rightarrow> u32 \<Rightarrow> u32 \<Rightarrow> kst \<Rightarrow> (kst \<times> int) kres" where
  "swexn_register c this esp3 eip arg s =
     kbind (get_tcb this s) (\<lambda>t.
     if esp3 = NULL \<or> eip = NULL then
       (if swexn_struct t \<noteq> NULL
        then kbind (free_swexn (swexn_struct t) s) (\<lambda>s.
             kbind (mod_tcb this (\<lambda>t. t\<lparr>swexn_struct := NULL\<rparr>) s) (\<lambda>s. Inr (s, 0)))
        else Inr (s, 0))
     else
       kbind (user_check c this esp3 1 False True s) (\<lambda>(s, rv).
       if rv < 0 then Inr (s, EINVAL)
       else kbind (user_check c this esp3 1 False False s) (\<lambda>(s, rv).
         if rv < 0 then Inr (s, EINVAL)
         else
           kbind (if swexn_struct t = NULL
                  then case kmalloc s of (s, x) \<Rightarrow> kbind (mod_tcb this (\<lambda>t. t\<lparr>swexn_struct := x\<rparr>) s) (\<lambda>s. Inr (s, x))
                  else Inr (s, swexn_struct t)) (\<lambda>(s, x).
           if x = NULL then Inr (s, ENOMEM)
           else Inr (s\<lparr>swexns := (swexns s)(x \<mapsto> \<lparr>sw_esp3 = esp3, sw_eip = eip, sw_arg = arg\<rparr>)\<rparr>, 0)))))"

definition swexn_syscall_handler ::
  "nat \<Rightarrow> u32 \<Rightarrow> u32 \<Rightarrow> u32 \<Rightarrow> u32 \<Rightarrow> u32 \<Rightarrow> kst \<Rightarrow> (kst \<times> kexit) kres" where
  "swexn_syscall_handler c this esp3 eip arg user_newureg s =
     kbind (if user_newureg \<noteq> NULL then swexn_newureg c this user_newureg s else Inr (s, None)) (\<lambda>(s, u).
     if user_newureg \<noteq> NULL \<and> u = None then Inr (s, RETURNS EINVAL)
     else
       kbind (swexn_register c this esp3 eip arg s) (\<lambda>(s, rv).
       if rv < 0 then Inr (s, RETURNS rv)
       else Inr (s, case u of Some u \<Rightarrow> ADOPTS u | None \<Rightarrow> RETURNS 0)))"

section \<open>\<open>deschedule\<close> and \<open>make_runnable\<close>\<close>

definition deschedule_syscall_handler :: "environment \<Rightarrow> nat \<Rightarrow> u32 \<Rightarrow> u32 \<Rightarrow> kst \<Rightarrow> (kst \<times> nat \<times> int) kres" where
  "deschedule_syscall_handler env c this reject s =
     kbind (user_check c this reject 4 False True s) (\<lambda>(s, rv).
     if rv < 0 then Inr (s, c, EFAULT)
     else
       kbind (ld32 reject s) (\<lambda>r.
       if r \<noteq> 0 then Inr (s, c, 0)
       else
         let s = s\<lparr>deschedule_queues := (deschedule_queues s)(c := q_enqueue (deschedule_queues s c) this)\<rparr> in
         kbind (context_switch env c OP_BLOCK 0 this s) (\<lambda>(s, c). Inr (s, c, 0))))"

text \<open>One turn of the loop: take the thread out of the current core's queue and make it runnable.\<close>

definition make_runnable_visit :: "environment \<Rightarrow> nat \<Rightarrow> u32 \<Rightarrow> u32 \<Rightarrow> int \<Rightarrow> kst \<Rightarrow> (kst \<times> nat) kres" where
  "make_runnable_visit env c this msg i s =
     (case q_remove (tid_is s i) (deschedule_queues s c) of (node, q) \<Rightarrow>
      let s = s\<lparr>deschedule_queues := (deschedule_queues s)(c := q)\<rparr> in
      kbind (case node of None \<Rightarrow> Inr (s, c)
             | Some th \<Rightarrow> kbind (context_switch env c OP_MAKE_RUNNABLE th this s) (\<lambda>(s, c).
                 kbind (mod_msg msg (\<lambda>m. m\<lparr>d2 := 0\<rparr>) s) (\<lambda>s. Inr (s, c)))) (\<lambda>(s, c).
      context_switch env c OP_SEND_MSG 0 this s))"

partial_function (option) make_runnable_loop ::
  "environment \<Rightarrow> nat \<Rightarrow> u32 \<Rightarrow> u32 \<Rightarrow> int \<Rightarrow> kst \<Rightarrow> (kst \<times> nat) kres option" where
  "make_runnable_loop env c this msg i s =
     (case make_runnable_visit env c this msg i s of Inl e \<Rightarrow> Some (Inl e)
      | Inr (s, c) \<Rightarrow> (case msgs s msg of None \<Rightarrow> Some (Inl FAULT)
         | Some m \<Rightarrow> if search_result m < 0 \<and> int c \<noteq> req_cpu m then make_runnable_loop env c this msg i s
                     else Some (Inr (s, c))))"

definition make_runnable_syscall_handler ::
  "environment \<Rightarrow> nat \<Rightarrow> u32 \<Rightarrow> int \<Rightarrow> kst \<Rightarrow> (kst \<times> nat \<times> int) kres option" where
  "make_runnable_syscall_handler env c this i s =
     (case kbind (get_tcb this s) (\<lambda>t.
           kbind (mod_msg (my_msg t) (search_msg this c MAKE_RUNNABLE i) s) (\<lambda>s. Inr (s, t))) of
        Inl e \<Rightarrow> Some (Inl e)
      | Inr (s, t) \<Rightarrow>
          (case make_runnable_loop env c this (my_msg t) i s of
             None \<Rightarrow> None
           | Some r \<Rightarrow> Some (kbind r (\<lambda>(s, c). search_done c this (my_msg t) (pcb t) s))))"

section \<open>Sleeping threads\<close>

text \<open>The contract of the priority queue holds for its comparison function, by the time to wake up.\<close>

interpretation sleepers: comparator sleep_queue_compare fst
  by unfold_locales (auto simp: sleep_queue_compare_def Let_def)

definition sleep_ok :: "nat \<Rightarrow> kst \<Rightarrow> bool" where
  "sleep_ok c s \<longleftrightarrow> compare (sleep_queue s c) = sleep_queue_compare \<and> sorted (map fst (nodes (sleep_queue s c)))"

abbreviation sleeping :: "nat \<Rightarrow> kst \<Rightarrow> (u32 \<times> u32) list" where
  "sleeping c s \<equiv> nodes (sleep_queue s c)"

lemma sleep_enqueue_ok:
  assumes "sleep_ok c s"
  shows "sleep_ok c (sleep_enqueue c this n s)"
    and "mset (sleeping c (sleep_enqueue c this n s)) = add_mset (word_of_int n + num_ticks s c, this) (mset (sleeping c s))"
  using assms by (simp_all add: sleep_ok_def sleep_enqueue_def pri_queue_enqueue_def timer_get_ticks_def
      sleepers.enqueue_sorted sleepers.enqueue_mset)

lemma timer_callback_ok:
  assumes "sleep_ok c s" and "\<forall>e \<in> set (sleeping c s). snd e \<noteq> NULL" and r: "timer_callback c s = (s', th)"
  shows "sleep_ok c s'"
    and "th = NULL \<Longrightarrow> s' = s \<and> (\<forall>e \<in> set (sleeping c s). num_ticks s c < fst e)"
    and "th \<noteq> NULL \<Longrightarrow> \<exists>t. t \<le> num_ticks s c \<and> (\<forall>e \<in> set (sleeping c s). t \<le> fst e) \<and>
           sleeping c s = (t, th) # sleeping c s'"
  using assms
  by (auto simp: timer_callback_def pri_queue_get_first_def pri_queue_dequeue_def sleep_ok_def timer_get_ticks_def
      split: list.splits if_splits prod.splits)

text \<open>C14: sleeping threads are woken in the order of their times, none early and none forgotten. Going to sleep
  adds exactly the thread with its time to wake up and keeps the queue sorted; a timer interrupt that
  wakes nobody finds nobody due, and one that wakes a thread takes the thread with the least time, which
  is due, out of the queue and leaves all others in.\<close>

theorem sleep_wakes_in_order:
  assumes "sleep_ok c s" and "\<forall>e \<in> set (sleeping c s). snd e \<noteq> NULL"
  shows "sleep_ok c (sleep_enqueue c this n s) \<and>
     mset (sleeping c (sleep_enqueue c this n s)) = add_mset (word_of_int n + num_ticks s c, this) (mset (sleeping c s)) \<and>
     (case timer_callback c s of (s', th) \<Rightarrow>
        sleep_ok c s' \<and>
        (if th = NULL then s' = s \<and> (\<forall>e \<in> set (sleeping c s). num_ticks s c < fst e)
         else \<exists>t. t \<le> num_ticks s c \<and> (\<forall>e \<in> set (sleeping c s). t \<le> fst e) \<and> sleeping c s = (t, th) # sleeping c s'))"
  using sleep_enqueue_ok [OF assms(1)] timer_callback_ok [OF assms] by (auto split: prod.splits)

definition sleep_example :: kst where
  "sleep_example = kst_example\<lparr>sleep_queue := (\<lambda>_. \<lparr>nodes = [(40, 0x201fe0), (90, 0x203fe0)], compare = sleep_queue_compare\<rparr>),
     num_ticks := (\<lambda>_. 50)\<rparr>"

theorem sleep_wakes_in_order_witness:
  "sleep_ok 1 (sleep_enqueue 1 0x205fe0 20 sleep_example) \<and>
     mset (sleeping 1 (sleep_enqueue 1 0x205fe0 20 sleep_example)) =
       add_mset (word_of_int 20 + num_ticks sleep_example 1, 0x205fe0) (mset (sleeping 1 sleep_example)) \<and>
     (case timer_callback 1 sleep_example of (s', th) \<Rightarrow>
        sleep_ok 1 s' \<and>
        (if th = NULL then s' = sleep_example \<and> (\<forall>e \<in> set (sleeping 1 sleep_example). num_ticks sleep_example 1 < fst e)
         else \<exists>t. t \<le> num_ticks sleep_example 1 \<and> (\<forall>e \<in> set (sleeping 1 sleep_example). t \<le> fst e) \<and>
           sleeping 1 sleep_example = (t, th) # sleeping 1 s'))"
  by (rule sleep_wakes_in_order) (simp_all add: sleep_ok_def sleep_example_def)

text \<open>The time to wake up wraps around: a thread that goes to sleep across the wrap of the tick counter is due at
  once.\<close>

lemma sleep_wraps_around:
  assumes "sleep_ok c s" and "sleeping c s = []" and "0 < n" "n < 2 ^ 31" and "2 ^ 32 \<le> uint (num_ticks s c) + n"
  shows "snd (timer_callback c (sleep_enqueue c this n s)) = this"
proof -
  let ?w = "word_of_int n + num_ticks s c"
  have "uint ?w = (n + uint (num_ticks s c)) mod 2 ^ 32"
    using assms(3,4) by (simp add: uint_word_ariths(1) unsigned_of_int take_bit_int_eq_self)
  also have "\<dots> = uint (num_ticks s c) + n - 2 ^ 32"
  proof -
    have "uint (num_ticks s c) < 2 ^ 32" using uint_bounded [of "num_ticks s c"] by simp
    then have "0 \<le> uint (num_ticks s c) + n - 2 ^ 32" "uint (num_ticks s c) + n - 2 ^ 32 < 2 ^ 32" using assms(4,5) by simp_all
    moreover have "n + uint (num_ticks s c) = (uint (num_ticks s c) + n - 2 ^ 32) + 2 ^ 32" by simp
    ultimately show ?thesis by (metis mod_add_self2 mod_pos_pos_trivial)
  qed
  finally have "?w \<le> num_ticks s c" using assms(4) by (simp add: word_le_def)
  then show ?thesis using assms(1,2)
    by (simp add: timer_callback_def sleep_enqueue_def pri_queue_enqueue_def pri_queue_get_first_def timer_get_ticks_def sleep_ok_def)
qed

section \<open>Registers that a thread may adopt\<close>

text \<open>User mode: user segments, addresses outside the kernel, interrupts on, no access to ports, no single
  stepping, no nested task, not virtual 8086 mode.\<close>

definition user_mode :: "ureg_t \<Rightarrow> bool" where
  "user_mode u \<longleftrightarrow> ur_cs u = SEGSEL_USER_CS \<and> ur_ss u = SEGSEL_USER_DS \<and> ur_ds u = SEGSEL_USER_DS \<and> ur_es u = SEGSEL_USER_DS \<and>
     ur_fs u = SEGSEL_USER_DS \<and> ur_gs u = SEGSEL_USER_DS \<and> USER_MEM_START \<le> ur_eip u \<and> USER_MEM_START \<le> ur_esp u \<and>
     bit (ur_eflags u) 9 \<and> \<not> bit (ur_eflags u) 12 \<and> \<not> bit (ur_eflags u) 13 \<and> \<not> bit (ur_eflags u) 8 \<and>
     \<not> bit (ur_eflags u) 14 \<and> \<not> bit (ur_eflags u) 17"

lemma eflags_bits:
  "EFLAGS_GET_IF n = 1 \<Longrightarrow> bit n 9" "EFLAGS_GET_IOPL n = 0 \<Longrightarrow> \<not> bit n 12 \<and> \<not> bit n 13" "EFLAGS_GET_TF n = 0 \<Longrightarrow> \<not> bit n 8"
  "EFLAGS_GET_NT n = 0 \<Longrightarrow> \<not> bit n 14" "EFLAGS_GET_OTHER n = 0 \<Longrightarrow> \<not> bit n 17"
proof -
  have b: "bit (drop_bit k n AND m) j = (bit n (k + j) \<and> bit m j)" for k j :: nat and m :: u32
    by (simp add: bit_and_iff bit_drop_bit_eq add.commute)
  show "EFLAGS_GET_IF n = 1 \<Longrightarrow> bit n 9" using b [of 9 1 0] by (auto simp: eflags_defs)
  show "EFLAGS_GET_IOPL n = 0 \<Longrightarrow> \<not> bit n 12 \<and> \<not> bit n 13" using b [of 12 3 0] b [of 12 3 1] by (auto simp: eflags_defs bit_numeral_rec)
  show "EFLAGS_GET_TF n = 0 \<Longrightarrow> \<not> bit n 8" using b [of 8 1 0] by (auto simp: eflags_defs)
  show "EFLAGS_GET_NT n = 0 \<Longrightarrow> \<not> bit n 14" using b [of 14 1 0] by (auto simp: eflags_defs)
  show "EFLAGS_GET_OTHER n = 0 \<Longrightarrow> \<not> bit n 17" using b [of 17 "0x1f" 0] by (auto simp: eflags_defs bit_numeral_rec)
qed

lemma newureg_user_mode: "is_newureg_valid u \<Longrightarrow> user_mode u"
  by (auto simp: is_newureg_valid_def user_mode_def eflags_bits not_less split: if_splits)

text \<open>C12: \<open>swexn\<close> cannot be used to leave user mode. Whatever block of registers a thread passes, if the system
  call adopts a set of registers, that set runs in user mode with interrupts on.\<close>

theorem swexn_adopts_user_mode:
  assumes "swexn_syscall_handler c this esp3 eip arg newureg s = Inr (s', ADOPTS u)"
  shows "user_mode u"
proof -
  from assms have "newureg \<noteq> NULL"
    by (auto simp: swexn_syscall_handler_def kbind_eq_Inr split: if_splits)
  with assms obtain s1 where "swexn_newureg c this newureg s = Inr (s1, Some u)"
    by (auto simp: swexn_syscall_handler_def kbind_eq_Inr split: if_splits option.splits)
  then have "is_newureg_valid u" by (auto simp: swexn_newureg_def kbind_eq_Inr split: if_splits)
  then show ?thesis by (rule newureg_user_mode)
qed

text \<open>A thread that passes, at the start of user memory, the registers to continue at \<open>0x1000100\<close>.\<close>

definition newureg_words :: "u32 list" where
  "newureg_words = [14, 0, 0x2b, 0x2b, 0x2b, 0x2b, 0, 0, 0x1000000, 0, 0, 0, 0, 0, 0, 0x1000100, 0x23, 0x202, 0x1000f00, 0x2b]"

definition newureg_example :: kst where
  "newureg_example = kst_example\<lparr>
     tcbs := [0x201fe0 \<mapsto> \<lparr>k_stack_esp = 0x201fe0, tid = 5, pcb = 0x400000, result = 0, state = NORMAL,
       swexn_struct = NULL, my_msg = 0x300040, ori_cpu = 1\<rparr>],
     pcbs := [0x400000 \<mapsto> \<lparr>pid = 5, page_table_base = 0x100000, ppid = 1, status = 0, cur_thr_num = 1,
       task_pt_locks = replicate 64 free_mutex\<rparr>],
     kvm := (kvm kst_example)\<lparr>
       tabs := [0x100000 \<mapsto> (\<lambda>i. if i = 4 then 0x101007 else 0), 0x101000 \<mapsto> (\<lambda>j. if j = 0 then 0x300007 else 0)],
       frames := (\<lambda>_ i. concat (map word_bytes newureg_words) ! i)\<rparr>\<rparr>"

lemma newureg_check:
  "\<exists>s'. user_check 1 0x201fe0 0x1000000 80 False False newureg_example = Inr (s', 0) \<and>
     tcbs s' = tcbs newureg_example \<and> cr3 (kvm s') = 0x100000 \<and> tabs (kvm s') = tabs (kvm newureg_example) \<and>
     frames (kvm s') = frames (kvm newureg_example)"
  by (simp add: user_check_def vm_call_def enter_vm_def leave_vm_def newureg_example_def kst_example_def check_mem_validness_def
      USER_MEM_START_def PAGE_ALIGN_MASK_def page_count_def GET_PD_INDEX_def GET_PT_INDEX_def NUM_PT_PER_LOCK_def PAGE_SIZE_def
      pt_lock_def pt_unlock_def rd_def NUM_ENTRIES_def IS_SET_def PG_P_def PG_RW_def tid_of_def Let_def)

lemma ld_words_numeral:
  "ld_words (numeral k) a s = kbind (ld32 a s) (\<lambda>w. kbind (ld_words (pred_numeral k) (a + 4) s) (\<lambda>ws. Inr (w # ws)))"
  by (simp add: numeral_eq_Suc)

lemma ld32_bytes:
  "ld8 a s = Inr b0 \<Longrightarrow> ld8 (a + 1) s = Inr b1 \<Longrightarrow> ld8 (a + 2) s = Inr b2 \<Longrightarrow> ld8 (a + 3) s = Inr b3 \<Longrightarrow>
     ld32 a s = Inr (ucast b0 OR push_bit 8 (ucast b1) OR push_bit 16 (ucast b2) OR push_bit 24 (ucast b3))"
  by (simp add: ld32_def numeral_eq_Suc add.assoc)

lemma newureg_ld:
  assumes "cr3 (kvm s) = 0x100000" and "tabs (kvm s) = tabs (kvm newureg_example)" and "frames (kvm s) = frames (kvm newureg_example)"
  shows "ld_words 20 0x1000000 s = Inr newureg_words"
proof -
  define F where "F = concat (map word_bytes newureg_words)"
  have F: "F = [14, 0, 0, 0, 0, 0, 0, 0, 43, 0, 0, 0, 43, 0, 0, 0, 43, 0, 0, 0, 43, 0, 0, 0, 0, 0, 0, 0, 0, 0, 0, 0,
      0, 0, 0, 1, 0, 0, 0, 0, 0, 0, 0, 0, 0, 0, 0, 0, 0, 0, 0, 0, 0, 0, 0, 0, 0, 0, 0, 0, 0, 1, 0, 1, 0x23, 0, 0, 0,
      2, 2, 0, 0, 0, 15, 0, 1, 43, 0, 0, 0]"
    by (simp add: F_def newureg_words_def word_bytes_def)
  have w: "walk 0x1000000 (kvm s) = Inr 0x300000"
    using assms by (simp add: walk_def rd_def newureg_example_def GET_PD_INDEX_def GET_PT_INDEX_def NUM_ENTRIES_def IS_SET_def PG_P_def
        PAGE_ALIGN_MASK_def)
  have fr: "frames (kvm s) f k = F ! k" for f k using assms(3) by (simp add: newureg_example_def F_def)
  have b: "a AND PAGE_ALIGN_MASK = 0x1000000 \<Longrightarrow> USER_MEM_START \<le> a \<Longrightarrow> ld8 a s = Inr (F ! unat (a AND 0xFFF))" for a
    by (simp add: ld8_def read_byte_def w fr not_less [symmetric])
  show ?thesis
    by (simp add: ld_words_numeral ld32_bytes b PAGE_ALIGN_MASK_def USER_MEM_START_def F newureg_words_def)
qed

theorem swexn_adopts_user_mode_witness:
  "\<exists>s'. swexn_syscall_handler 1 0x201fe0 NULL NULL 0 0x1000000 newureg_example = Inr (s', ADOPTS (ureg_of_words newureg_words)) \<and>
     user_mode (ureg_of_words newureg_words)"
proof -
  from newureg_check obtain s' where s': "user_check 1 0x201fe0 0x1000000 80 False False newureg_example = Inr (s', 0)"
    "tcbs s' = tcbs newureg_example" "cr3 (kvm s') = 0x100000" "tabs (kvm s') = tabs (kvm newureg_example)"
    "frames (kvm s') = frames (kvm newureg_example)" by blast
  have v: "is_newureg_valid (ureg_of_words newureg_words)"
    by (simp add: is_newureg_valid_def ureg_of_words_def newureg_words_def SEGSEL_USER_DS_def SEGSEL_USER_CS_def USER_MEM_START_def eflags_defs)
  have "swexn_newureg 1 0x201fe0 0x1000000 newureg_example = Inr (s', Some (ureg_of_words newureg_words))"
    using s'(1) newureg_ld [OF s'(3,4,5)] v by (simp add: swexn_newureg_def SIZEOF_UREG_def)
  moreover have "tcbs s' 0x201fe0 \<noteq> None" "\<forall>t. tcbs s' 0x201fe0 = Some t \<longrightarrow> swexn_struct t = NULL"
    using s'(2) by (simp_all add: newureg_example_def)
  ultimately have "swexn_syscall_handler 1 0x201fe0 NULL NULL 0 0x1000000 newureg_example = Inr (s', ADOPTS (ureg_of_words newureg_words))"
    by (auto simp: swexn_syscall_handler_def swexn_register_def)
  then show ?thesis using swexn_adopts_user_mode by blast
qed

text \<open>The address of the handler is not checked: \<open>swexn\<close> registers any address for which the stack is valid, in
  the kernel or unmapped.\<close>

lemma swexn_registers_any_eip:
  assumes "tcbs s this = Some t" and "swexn_struct t = x" "x \<noteq> NULL" and "esp3 \<noteq> NULL" "eip \<noteq> NULL"
    and "user_check c this esp3 1 False True s = Inr (s1, 0)" and "user_check c this esp3 1 False False s1 = Inr (s2, 0)"
  shows "swexn_syscall_handler c this esp3 eip arg NULL s =
     Inr (s2\<lparr>swexns := (swexns s2)(x \<mapsto> \<lparr>sw_esp3 = esp3, sw_eip = eip, sw_arg = arg\<rparr>)\<rparr>, RETURNS 0)"
  using assms by (simp add: swexn_syscall_handler_def swexn_register_def)

end
