(* ===== verification/Core_Search.thy ===== *)
theory Core_Search
  imports Life_Properties Thread_Mgmt
begin

text \<open>
  The search over the cores that \<open>yield\<close> and \<open>make_runnable\<close> perform: the thread travels, sent on by the
  manager core, until it has found the other thread or is back where it started.
\<close>

section \<open>The cores a search visits\<close>

lemma search_next_pow:
  assumes "0 < n" and "1 \<le> r" and "r \<le> n"
  shows "(search_next n ^^ k) r = (r - 1 + 2 * int k) mod n + 1"
proof (induction k)
  case 0
  then show ?case using assms by simp
next
  case (Suc k)
  have "(search_next n ^^ Suc k) r = ((r - 1 + 2 * int k) mod n + 1 + 1) mod n + 1"
    by (simp add: Suc.IH) (simp add: search_next_def)
  also have "\<dots> = (r - 1 + 2 * int (Suc k)) mod n + 1"
  proof -
    have "((r - 1 + 2 * int k) mod n + 1 + 1) mod n = (r - 1 + 2 * int k + 2) mod n"
      using mod_add_left_eq [of "r - 1 + 2 * int k" n 2] by (simp add: add.assoc)
    then show ?thesis by simp
  qed
  finally show ?case .
qed

lemma search_misses_even:
  assumes "1 \<le> r" and "r \<le> int n" and ev: "even n"
  shows "\<exists>c. 1 \<le> c \<and> c \<le> int n \<and> (\<forall>k. (search_next (int n) ^^ k) r \<noteq> c)"
proof (intro exI conjI allI notI)
  let ?c = "if r = 1 then 2 else r - 1"
  show "1 \<le> ?c" "?c \<le> int n" using assms by auto
  fix k assume "(search_next (int n) ^^ k) r = ?c"
  then have "(r - 1 + 2 * int k) mod int n = ?c - 1" using search_next_pow [OF _ assms(1,2)] assms(1,2) by simp
  then have "even (r - 1) = even (?c - 1)" using ev by (metis dvd_mod_iff even_add even_mult_iff even_numeral even_of_nat)
  then show False using assms(1,2) by (auto split: if_splits)
qed

lemma search_finds_odd:
  assumes "1 \<le> r" and "r \<le> int n" and "odd n" and c: "1 \<le> c" "c \<le> int n"
  shows "\<exists>k. (search_next (int n) ^^ k) r = c"
proof -
  define h where "h = (int n + 1) div 2"
  obtain q where "n = 2 * q + 1" using assms(3) by (rule oddE)
  then have h: "2 * h = int n + 1" by (simp add: h_def)
  define k where "k = nat ((c - r + int n) * h)"
  have "0 \<le> (c - r + int n) * h" using c assms h by simp
  then have "2 * int k = (c - r + int n) * (2 * h)" by (simp add: k_def)
  also have "\<dots> = (c - r + int n) + (c - r + int n) * int n" using h by (simp add: algebra_simps)
  finally have "r - 1 + 2 * int k = c - 1 + (1 + (c - r + int n)) * int n" by (simp add: algebra_simps)
  then have "(r - 1 + 2 * int k) mod int n = (c - 1 + (1 + (c - r + int n)) * int n) mod int n" by (rule arg_cong)
  also have "\<dots> = c - 1" using c by simp
  finally show ?thesis using search_next_pow [OF _ assms(1,2)] c by (intro exI [of _ k]) simp
qed

text \<open>C34: a search reaches every core exactly when the number of worker cores is odd. It always comes back to the
  core it started from, after \<open>n\<close> steps for an odd and \<open>n/2\<close> steps for an even number \<open>n\<close> of workers, so the
  loop ends; but for an even number it passes over every second core, and a thread that waits there is not
  found.\<close>

theorem search_reaches_all_iff_odd:
  assumes "1 \<le> r" and "r \<le> int n"
  shows "((\<forall>c. 1 \<le> c \<and> c \<le> int n \<longrightarrow> (\<exists>k. (search_next (int n) ^^ k) r = c)) \<longleftrightarrow> odd n) \<and>
     (search_next (int n) ^^ (if odd n then n else n div 2)) r = r"
proof
  note pow = search_next_pow [OF _ assms]
  show "(\<forall>c. 1 \<le> c \<and> c \<le> int n \<longrightarrow> (\<exists>k. (search_next (int n) ^^ k) r = c)) \<longleftrightarrow> odd n"
    using search_misses_even [OF assms] search_finds_odd [OF assms] by blast
  show "(search_next (int n) ^^ (if odd n then n else n div 2)) r = r"
  proof (cases "odd n")
    case True
    have "(r - 1 + 2 * int n) mod int n = r - 1" using assms by simp
    then show ?thesis using pow assms True by simp
  next
    case False
    then have "2 * int (n div 2) = int n" by auto
    then have "(r - 1 + 2 * int (n div 2)) mod int n = r - 1" using assms by simp
    then show ?thesis using pow assms False by simp
  qed
qed

theorem search_reaches_all_iff_odd_witness:
  "((\<forall>c. 1 \<le> c \<and> c \<le> int 4 \<longrightarrow> (\<exists>k. (search_next (int 4) ^^ k) 3 = c)) \<longleftrightarrow> odd (4 :: nat)) \<and>
     (search_next (int 4) ^^ (if odd (4 :: nat) then 4 else 4 div 2)) 3 = 3"
  by (rule search_reaches_all_iff_odd) simp_all

end
