(* ===== verification/Loader.thy ===== *)
theory Loader
  imports Syscall_Base
begin

text \<open>
  \<open>loader.c\<close>: a program file becomes a user address space with a stack for \<open>_main\<close>, and a kernel stack from
  which \<open>iret\<close> enters it. The files (\<open>toc\<close>) and the ELF reader of the 410 library (\<open>elf_check_header\<close>,
  \<open>elf_load_helper\<close>) are parameters.
\<close>

section \<open>Files\<close>

definition is_file_exist :: "file_table \<Rightarrow> u8 list \<Rightarrow> bool" where
  "is_file_exist toc filename = list_ex (\<lambda>f. fst f = filename) toc"

text \<open>The sum of offset and size is a 32-bit \<open>int\<close>; a copy that leaves the file is a wild access.\<close>

primrec getbytes :: "file_table \<Rightarrow> u8 list \<Rightarrow> int \<Rightarrow> int \<Rightarrow> u32 \<Rightarrow> kst \<Rightarrow> (kst \<times> int) kres" where
  "getbytes [] filename offset len buf s = Inr (s, - 1)"
| "getbytes (f # fs) filename offset len buf s =
     (if fst f = filename then
        if int (length (snd f)) < sint (word_of_int (offset + len) :: u32) then Inr (s, - 1)
        else if 0 \<le> offset \<and> 0 \<le> len \<and> offset + len \<le> int (length (snd f))
        then kbind (st_bytes buf (take (nat len) (drop (nat offset) (snd f))) s) (\<lambda>s. Inr (s, len))
        else Inl FAULT
      else getbytes fs filename offset len buf s)"

record simple_elf_t =
  e_entry :: u32
  e_txtoff :: u32
  e_txtlen :: u32
  e_txtstart :: u32
  e_datoff :: u32
  e_datlen :: u32
  e_datstart :: u32
  e_rodatoff :: u32
  e_rodatlen :: u32
  e_rodatstart :: u32
  e_bsslen :: u32
  e_bssstart :: u32

record elf_reader =
  elf_check_header :: "u8 list \<Rightarrow> bool"
  elf_load_helper :: "u8 list \<Rightarrow> simple_elf_t option"

section \<open>The user stack\<close>

definition MAX_ADDR :: u32 where "MAX_ADDR = 0xFFFFFFFF"
definition SIZE_USER_STACK_ARG :: nat where "SIZE_USER_STACK_ARG = 20"
definition ALIGNMENT :: nat where "ALIGNMENT = 4"

definition push_to_stack :: "u32 \<Rightarrow> u32 \<Rightarrow> kst \<Rightarrow> (kst \<times> u32) kres" where
  "push_to_stack esp v s = kbind (st32 (esp - 4) v s) (\<lambda>s. Inr (s, esp - 4))"

definition stack_len :: "u8 list list \<Rightarrow> nat" where
  "stack_len argv =
     (let n = SIZE_USER_STACK_ARG + length argv * 4 + sum_list (map (\<lambda>a. length a + 1) argv)
      in n + (ALIGNMENT - n mod ALIGNMENT))"

definition stack_pages :: "u8 list list \<Rightarrow> nat" where
  "stack_pages argv = stack_len argv div PAGE_SIZE + 1"

definition stack_low :: "u8 list list \<Rightarrow> u32" where
  "stack_low argv = MAX_ADDR - word_of_nat (stack_pages argv * PAGE_SIZE) + 1"

text \<open>The strings, downwards from the end of the stack.\<close>

primrec put_strings :: "u8 list list \<Rightarrow> u32 \<Rightarrow> kst \<Rightarrow> (kst \<times> u32) kres" where
  "put_strings [] addr s = Inr (s, addr)"
| "put_strings (a # as) addr s =
     (let addr = addr - word_of_nat (length a + 1) in
      kbind (st_bytes addr (a @ [0]) s) (put_strings as addr))"

text \<open>The pointers to them, upwards.\<close>

primrec put_pointers :: "u8 list list \<Rightarrow> u32 \<Rightarrow> u32 \<Rightarrow> kst \<Rightarrow> (kst \<times> u32) kres" where
  "put_pointers [] arg_addr addr s = Inr (s, addr)"
| "put_pointers (a # as) arg_addr addr s =
     (let arg_addr = arg_addr - word_of_nat (length a + 1) in
      kbind (st32 addr arg_addr s) (put_pointers as arg_addr (addr + 4)))"

definition build_user_stack :: "u8 list list \<Rightarrow> kst \<Rightarrow> (kst \<times> u32) kres" where
  "build_user_stack argv s =
     (let n = word_of_nat (length argv) in
      kbind (put_strings argv MAX_ADDR s) (\<lambda>(s, addr).
      let addr = addr - addr mod word_of_nat ALIGNMENT;
          addr = addr - n * 4
      in kbind (put_pointers argv MAX_ADDR addr s) (\<lambda>(s, addr).
      let addr = addr - n * 4 in
      kbind (push_to_stack addr (stack_low argv) s) (\<lambda>(s, esp).
      kbind (push_to_stack esp MAX_ADDR s) (\<lambda>(s, esp).
      kbind (push_to_stack esp addr s) (\<lambda>(s, esp).
      kbind (push_to_stack esp n s) (\<lambda>(s, esp).
      Inr (s, esp - 4))))))))"

section \<open>\<open>loadTask\<close>\<close>

text \<open>The regions of the program; the first one that fails decides.\<close>

primrec new_regions :: "nat \<Rightarrow> u32 \<Rightarrow> (u32 \<times> u32 \<times> bool \<times> bool) list \<Rightarrow> kst \<Rightarrow> (kst \<times> int) kres" where
  "new_regions c this [] s = Inr (s, 0)"
| "new_regions c this (r # rs) s =
     (case r of (va, len, rw, zfod) \<Rightarrow>
      kbind (vm_call c this (new_region va len rw False zfod) s) (\<lambda>(s, rv).
      if rv < 0 then Inr (s, rv) else new_regions c this rs s))"

definition elf_regions :: "simple_elf_t \<Rightarrow> (u32 \<times> u32 \<times> bool \<times> bool) list" where
  "elf_regions e =
     [(e_txtstart e, e_txtlen e, False, False), (e_datstart e, e_datlen e, True, False),
      (e_rodatstart e, e_rodatlen e, False, False), (e_bssstart e, e_bsslen e, True, True)]"

definition copy_segments :: "file_table \<Rightarrow> u8 list \<Rightarrow> simple_elf_t \<Rightarrow> kst \<Rightarrow> kst kres" where
  "copy_segments toc filename e s =
     kbind (getbytes toc filename (sint (e_txtoff e)) (sint (e_txtlen e)) (e_txtstart e) s) (\<lambda>(s, _).
     kbind (getbytes toc filename (sint (e_datoff e)) (sint (e_datlen e)) (e_datstart e) s) (\<lambda>(s, _).
     kbind (getbytes toc filename (sint (e_rodatoff e)) (sint (e_rodatlen e)) (e_rodatstart e) s) (\<lambda>(s, _). Inr s)))"

text \<open>The result is the error code, or the initial stack pointer and the entry point of the program.\<close>

definition loadTask ::
  "file_table \<Rightarrow> elf_reader \<Rightarrow> nat \<Rightarrow> u32 \<Rightarrow> u8 list \<Rightarrow> u8 list list \<Rightarrow> kst \<Rightarrow> (kst \<times> (int + u32 \<times> u32)) kres" where
  "loadTask toc elf c this filename argv s =
     (if \<not> is_file_exist toc filename then Inr (s, Inl ENOENT)
      else if \<not> elf_check_header elf filename then Inr (s, Inl ENOEXEC)
      else case elf_load_helper elf filename of None \<Rightarrow> Inr (s, Inl ENOEXEC)
      | Some e \<Rightarrow>
          kbind (new_regions c this (elf_regions e) s) (\<lambda>(s, rv).
          if rv < 0 then Inr (s, Inl ENOMEM)
          else
            kbind (copy_segments toc filename e s) (\<lambda>s.
            kbind (vm_call c this (new_region (stack_low argv) (word_of_nat (stack_pages argv * PAGE_SIZE)) True False False) s) (\<lambda>(s, rv).
            if rv < 0 then Inr (s, Inl ENOMEM)
            else kbind (build_user_stack argv s) (\<lambda>(s, usr_esp). Inr (s, Inr (usr_esp, e_entry e)))))))"

section \<open>The kernel stack\<close>

definition load_kernel_stack :: "u32 \<Rightarrow> nat \<Rightarrow> u32 \<Rightarrow> u32 \<Rightarrow> u32 \<Rightarrow> bool \<Rightarrow> kst \<Rightarrow> (kst \<times> kexit) kres" where
  "load_kernel_stack init_eflags c k_esp u_esp program is_idle s =
     (let s = s\<lparr>esp0 := (esp0 s)(c := k_esp)\<rparr> in
      kbind (push_to_stack k_esp SEGSEL_USER_DS s) (\<lambda>(s, k_esp).
      kbind (push_to_stack k_esp u_esp s) (\<lambda>(s, k_esp).
      kbind (push_to_stack k_esp init_eflags s) (\<lambda>(s, k_esp).
      kbind (push_to_stack k_esp SEGSEL_USER_CS s) (\<lambda>(s, k_esp).
      kbind (push_to_stack k_esp program s) (\<lambda>(s, k_esp).
      kbind (push_to_stack k_esp SEGSEL_USER_DS s) (\<lambda>(s, k_esp).
      Inr (s, STARTS is_idle k_esp))))))))"

end
