(* ===== verification/Syscall_Lifecycle.thy ===== *)
theory Syscall_Lifecycle
  imports Loader
begin

text \<open>
  \<open>syscall_lifecycle.c\<close>, the part that runs on the caller's core, and the start of the first task from
  \<open>loader.c\<close>. \<open>esp\<close> is the stack pointer in the handler.
\<close>

definition EXEC_MAX_ARG_SIZE :: nat where "EXEC_MAX_ARG_SIZE = 128"
definition EXEC_MAX_ARGC :: nat where "EXEC_MAX_ARGC = 31"   \<comment> \<open>\<open>(8192 >> 1) / 128 - 1\<close>\<close>

section \<open>\<open>fork\<close>, \<open>thread_fork\<close>, \<open>set_status\<close>\<close>

definition fork_syscall_handler :: "environment \<Rightarrow> nat \<Rightarrow> u32 \<Rightarrow> kst \<Rightarrow> (kst \<times> nat \<times> int) kres" where
  "fork_syscall_handler env c this s =
     kbind (context_switch env c OP_FORK 0 this s) (\<lambda>(s, c). kbind (get_tcb this s) (\<lambda>t. Inr (s, c, result t)))"

definition thread_fork_syscall_handler :: "environment \<Rightarrow> nat \<Rightarrow> u32 \<Rightarrow> kst \<Rightarrow> (kst \<times> nat \<times> int) kres" where
  "thread_fork_syscall_handler env c this s =
     kbind (context_switch env c OP_THREAD_FORK 0 this s) (\<lambda>(s, c). kbind (get_tcb this s) (\<lambda>t. Inr (s, c, result t)))"

definition set_status_syscall_handler :: "u32 \<Rightarrow> int \<Rightarrow> kst \<Rightarrow> kst kres" where
  "set_status_syscall_handler this st s =
     kbind (get_tcb this s) (\<lambda>t. mod_pcb (pcb t) (\<lambda>p. p\<lparr>status := st\<rparr>) s)"

definition set_init_pcb :: "environment \<Rightarrow> nat \<Rightarrow> u32 \<Rightarrow> u32 \<Rightarrow> kst \<Rightarrow> (kst \<times> nat \<times> int) kres" where
  "set_init_pcb env c this init_pcb s =
     kbind (get_pcb init_pcb s) (\<lambda>p.
     kbind (send_request env c this (\<lambda>m. m\<lparr>mtype := SET_INIT_PCB, d0 := pid p\<rparr>) (s\<lparr>init_task := init_pcb\<rparr>)) (\<lambda>(s, c, m).
     Inr (s, c, response_result m)))"

section \<open>\<open>exec\<close>\<close>

definition string_error :: "int \<Rightarrow> int \<Rightarrow> int" where
  "string_error too_long rv = (if rv = ERROR_NOT_NULL_TERM then too_long else EFAULT)"

text \<open>The loop over \<open>argvec\<close>; the result is an error code or the number of arguments.\<close>

primrec count_args :: "nat \<Rightarrow> nat \<Rightarrow> u32 \<Rightarrow> nat \<Rightarrow> u32 \<Rightarrow> kst \<Rightarrow> (kst \<times> (int + nat)) kres" where
  "count_args 0 c this argc argvec s = Inr (s, Inr argc)"
| "count_args (Suc n) c this argc argvec s =
     kbind (user_check c this (argvec + 4 * word_of_nat argc) 4 False False s) (\<lambda>(s, rv).
     if rv < 0 then Inr (s, Inl EFAULT)
     else
       kbind (ld32 (argvec + 4 * word_of_nat argc) s) (\<lambda>a.
       if a = NULL then Inr (s, Inr argc)
       else
         kbind (user_check c this a (int EXEC_MAX_ARG_SIZE) True False s) (\<lambda>(s, rv).
         if rv < 0 then Inr (s, Inl (string_error E2BIG rv))
         else count_args n c this (argc + 1) argvec s)))"

text \<open>The argument check of \<open>exec\<close>.\<close>

definition exec_check :: "nat \<Rightarrow> u32 \<Rightarrow> u32 \<Rightarrow> u32 \<Rightarrow> kst \<Rightarrow> (kst \<times> (int + nat)) kres" where
  "exec_check c this execname argvec s =
     (if execname = NULL then Inr (s, Inl EINVAL)
      else
        kbind (ld8 execname s) (\<lambda>b.
        if b = 0 then Inr (s, Inl EINVAL)
        else
          kbind (user_check c this execname (int EXEC_MAX_ARG_SIZE) True False s) (\<lambda>(s, rv).
          if rv < 0 then Inr (s, Inl (string_error ENAMETOOLONG rv))
          else
            kbind (count_args EXEC_MAX_ARGC c this 0 argvec s) (\<lambda>(s, r).
            case r of Inl e \<Rightarrow> Inr (s, Inl e)
            | Inr argc \<Rightarrow>
                if argc = EXEC_MAX_ARGC then Inr (s, Inl E2BIG)
                else
                  kbind (ld32 argvec s) (\<lambda>a0.
                  if a0 = NULL then Inr (s, Inl EINVAL)
                  else kbind (strncmp_eq EXEC_MAX_ARG_SIZE execname a0 s) (\<lambda>eq.
                       Inr (s, if eq then Inr argc else Inl EINVAL)))))))"

text \<open>The copies in kernel memory.\<close>

primrec copy_args :: "nat list \<Rightarrow> u32 \<Rightarrow> kst \<Rightarrow> u8 list list kres" where
  "copy_args [] argvec s = Inr []"
| "copy_args (i # is) argvec s =
     kbind (ld32 (argvec + 4 * word_of_nat i) s) (\<lambda>a.
     kbind (cstring a s) (\<lambda>str.
     kbind (copy_args is argvec s) (\<lambda>strs. Inr (str # strs))))"

text \<open>The new address space; on an error of \<open>loadTask\<close> the old one comes back.\<close>

definition exec_load ::
  "file_table \<Rightarrow> elf_reader \<Rightarrow> nat \<Rightarrow> u32 \<Rightarrow> u8 list \<Rightarrow> u8 list list \<Rightarrow> kst \<Rightarrow> (kst \<times> (int + u32 \<times> u32)) kres" where
  "exec_load toc elf c this my_execname argv s =
     (let old_pd = cr3 (kvm s) in
      kbind (vm_call c this create_pd s) (\<lambda>(s, new_pd).
      if new_pd = word_of_int ERROR_MALLOC_LIB then Inr (s, Inl ENOMEM)
      else
        kbind (get_tcb this s) (\<lambda>t.
        kbind (mod_pcb (pcb t) (\<lambda>p. p\<lparr>page_table_base := new_pd\<rparr>) s) (\<lambda>s.
        kbind (loadTask toc elf c this my_execname argv (kset_cr3 new_pd s)) (\<lambda>(s, r).
        case r of
          Inl e \<Rightarrow>
            kbind (mod_pcb (pcb t) (\<lambda>p. p\<lparr>page_table_base := old_pd\<rparr>) s) (\<lambda>s.
            kbind (vm_call0 c this (free_entire_space new_pd True) (kset_cr3 old_pd s)) (\<lambda>s. Inr (s, Inl e)))
        | Inr x \<Rightarrow> kbind (vm_call0 c this (free_entire_space old_pd True) s) (\<lambda>s. Inr (s, Inr x)))))))"

definition clear_swexn :: "u32 \<Rightarrow> kst \<Rightarrow> kst kres" where
  "clear_swexn this s =
     kbind (get_tcb this s) (\<lambda>t.
     if swexn_struct t \<noteq> NULL
     then kbind (free_swexn (swexn_struct t) s) (mod_tcb this (\<lambda>t. t\<lparr>swexn_struct := NULL\<rparr>))
     else Inr s)"

definition exec_syscall_handler ::
  "file_table \<Rightarrow> elf_reader \<Rightarrow> u32 \<Rightarrow> nat \<Rightarrow> u32 \<Rightarrow> u32 \<Rightarrow> u32 \<Rightarrow> u32 \<Rightarrow> kst \<Rightarrow> (kst \<times> kexit) kres" where
  "exec_syscall_handler toc elf init_eflags c esp this execname argvec s =
     kbind (get_tcb this s) (\<lambda>t.
     kbind (get_pcb (pcb t) s) (\<lambda>p.
     if 1 < cur_thr_num p then Inr (s, RETURNS EMORETHR)
     else
       kbind (exec_check c this execname argvec s) (\<lambda>(s, r).
       case r of Inl e \<Rightarrow> Inr (s, RETURNS e)
       | Inr argc \<Rightarrow>
           kbind (cstring execname s) (\<lambda>my_execname.
           kbind (copy_args [0 ..< argc] argvec s) (\<lambda>argv.
           kbind (exec_load toc elf c this my_execname argv s) (\<lambda>(s, r).
           case r of Inl e \<Rightarrow> Inr (s, RETURNS e)
           | Inr (usr_esp, my_program) \<Rightarrow>
               kbind (mod_tcb this (\<lambda>t. t\<lparr>k_stack_esp := tcb_get_high_addr esp\<rparr>) s) (\<lambda>s.
               kbind (clear_swexn this s)
                 (load_kernel_stack init_eflags c (tcb_get_high_addr esp) usr_esp my_program False))))))))"

text \<open>\<open>idle_process_init\<close>: the idle task of core 1 forks and loads \<open>init\<close>.\<close>

definition INIT :: "u8 list" where "INIT = [105, 110, 105, 116]"

definition idle_process_init ::
  "environment \<Rightarrow> file_table \<Rightarrow> elf_reader \<Rightarrow> u32 \<Rightarrow> nat \<Rightarrow> u32 \<Rightarrow> u32 \<Rightarrow> kst \<Rightarrow> (kst \<times> kexit option) kres" where
  "idle_process_init env toc elf init_eflags c esp this s =
     (if c \<noteq> 1 then Inr (s, None)
      else
        kbind (context_switch env c OP_FORK 0 this s) (\<lambda>(s, c).
        kbind (get_tcb this s) (\<lambda>t.
        if result t \<noteq> 0 then Inr (s, None)
        else
          let old_pd = cr3 (kvm s) in
          kbind (vm_call c this create_pd s) (\<lambda>(s, new_pd).
          if new_pd = word_of_int ERROR_MALLOC_LIB then Inl PANIC
          else
            kbind (mod_pcb (pcb t) (\<lambda>p. p\<lparr>page_table_base := new_pd\<rparr>) s) (\<lambda>s.
            kbind (loadTask toc elf c this INIT [INIT] (kset_cr3 new_pd s)) (\<lambda>(s, r).
            case r of Inl e \<Rightarrow> Inl PANIC
            | Inr (usr_esp, my_program) \<Rightarrow>
                kbind (vm_call0 c this (free_entire_space old_pd True) s) (\<lambda>s.
                kbind (mod_tcb this (\<lambda>t. t\<lparr>k_stack_esp := tcb_get_high_addr esp\<rparr>) s) (\<lambda>s.
                kbind (set_init_pcb env c this (pcb t) s) (\<lambda>(s, c, rv).
                if rv < 0 then Inl PANIC
                else kbind (load_kernel_stack init_eflags c (tcb_get_high_addr esp) usr_esp my_program False s) (\<lambda>(s, x).
                     Inr (s, Some x)))))))))))"

section \<open>\<open>vanish\<close> and \<open>wait\<close>\<close>

definition syscall_vanish_init :: "nat \<Rightarrow> kst \<Rightarrow> kst \<times> int" where
  "syscall_vanish_init c s =
     (case kmalloc s of (s, q) \<Rightarrow>
      if q = NULL then (s, - 1)
      else case kmalloc s of (s, l) \<Rightarrow>
        if l = NULL then (s, - 1)
        else case mutex_init (zombie_list_locks s c) of (m, rv) \<Rightarrow>
          (s\<lparr>zombie_lists := (zombie_lists s)(c := []), zombie_list_locks := (zombie_list_locks s)(c := m)\<rparr>,
           if rv < 0 then - 1 else 0))"

definition become_zombie :: "nat \<Rightarrow> u32 \<Rightarrow> kst \<Rightarrow> kst kres" where
  "become_zombie c this s =
     kbind (mutex_lock this (tid_of s this) (zombie_list_locks s c)) (\<lambda>(m, got).
     if \<not> got then Inl BLOCKS
     else unlock_zombie_list c (put_next_zombie c this (s\<lparr>zombie_list_locks := (zombie_list_locks s)(c := m)\<rparr>)))"

text \<open>The last thread of a task reports and releases the task.\<close>

definition vanish_task :: "environment \<Rightarrow> nat \<Rightarrow> u32 \<Rightarrow> u32 \<Rightarrow> bool \<Rightarrow> kst \<Rightarrow> (kst \<times> nat) kres" where
  "vanish_task env c this this_task is_kernel_kill s =
     kbind (if is_kernel_kill then mod_pcb this_task (\<lambda>p. p\<lparr>status := - 2\<rparr>) s else Inr s) (\<lambda>s.
     kbind (get_pcb this_task s) (\<lambda>p.
     kbind (send_request env c this (\<lambda>m. m\<lparr>mtype := VANISH, d0 := pid p, d1 := ppid p, d2 := status p\<rparr>) s) (\<lambda>(s, c, _).
     kbind (get_pcb this_task s) (\<lambda>p.
     kbind (vm_call0 c this (free_entire_space (page_table_base p) True) s) (\<lambda>s.
     kbind (tcb_free_process this_task s) (\<lambda>s. Inr (s, c)))))))"

text \<open>Everything up to the last block.\<close>

definition vanish_prepare :: "environment \<Rightarrow> nat \<Rightarrow> u32 \<Rightarrow> bool \<Rightarrow> kst \<Rightarrow> (kst \<times> nat) kres" where
  "vanish_prepare env c this is_kernel_kill s =
     kbind (get_tcb this s) (\<lambda>t.
     let this_task = pcb t in
     if this_task = NULL then Inl PANIC
     else
       kbind (mod_tcb this (\<lambda>t. t\<lparr>pcb := init_task s\<rparr>) s) (\<lambda>s.
       kbind (get_pcb (init_task s) s) (\<lambda>ip.
       kbind (mod_pcb this_task (\<lambda>p. p\<lparr>cur_thr_num := cur_thr_num p - 1\<rparr>) (kset_cr3 (page_table_base ip) s)) (\<lambda>s.
       kbind (get_pcb this_task s) (\<lambda>p.
       kbind (if cur_thr_num p = 0 then vanish_task env c this this_task is_kernel_kill s else Inr (s, c)) (\<lambda>(s, c).
       kbind (get_tcb this s) (\<lambda>t.
       kbind (send_request env c this (\<lambda>m. m\<lparr>mtype := VANISH_BACK, d0 := ori_cpu t\<rparr>) s) (\<lambda>(s, c, _).
       kbind (become_zombie c this s) (\<lambda>s. Inr (s, c))))))))))"

definition vanish_syscall_handler :: "environment \<Rightarrow> nat \<Rightarrow> u32 \<Rightarrow> bool \<Rightarrow> kst \<Rightarrow> kst kres" where
  "vanish_syscall_handler env c this is_kernel_kill s =
     (if this = NULL then Inl PANIC
      else
        kbind (vanish_prepare env c this is_kernel_kill s) (\<lambda>(s, c).
        kbind (context_switch env c OP_BLOCK 0 this s) (\<lambda>_. Inl PANIC)))"

definition wait_syscall_handler :: "environment \<Rightarrow> nat \<Rightarrow> u32 \<Rightarrow> u32 \<Rightarrow> kst \<Rightarrow> (kst \<times> nat \<times> int) kres" where
  "wait_syscall_handler env c this status_ptr s =
     kbind (if status_ptr \<noteq> NULL then user_check c this status_ptr 4 False True s else Inr (s, 0)) (\<lambda>(s, rv).
     if rv < 0 then Inr (s, c, EFAULT)
     else
       kbind (get_tcb this s) (\<lambda>t.
       kbind (get_pcb (pcb t) s) (\<lambda>p.
       kbind (send_request env c this (\<lambda>m. m\<lparr>mtype := WAIT, d0 := pid p\<rparr>) s) (\<lambda>(s, c, m).
       kbind (if status_ptr \<noteq> NULL \<and> 0 < wait_response_pid m
              then st32 status_ptr (word_of_int (wait_response_status m)) s else Inr s) (\<lambda>s.
       Inr (s, c, wait_response_pid m))))))"

end
