(* ===== verification/Syscall_Console.thy ===== *)
theory Syscall_Console
  imports Syscall_Base
begin

text \<open>
  \<open>syscall_consoleio.c\<close>: the caller's side of the console system calls. Text is copied through kernel memory,
  because the manager core runs in another address space.
\<close>

definition MAX_READLINE_BUF :: int where "MAX_READLINE_BUF = 4096"   \<comment> \<open>\<open>K_STACK_SIZE >> 1\<close>\<close>

text \<open>\<open>print\<close> after its check; \<open>src\<close> reads the bytes that \<open>memcpy\<close> copies.\<close>

definition print_from :: "environment \<Rightarrow> nat \<Rightarrow> u32 \<Rightarrow> int \<Rightarrow> (kst \<Rightarrow> u8 list kres) \<Rightarrow> kst \<Rightarrow> (kst \<times> nat \<times> int) kres" where
  "print_from env c this len src s =
     (case kmalloc s of (s, kernel_buf) \<Rightarrow>
      if kernel_buf = NULL then Inr (s, c, ENOMEM)
      else
        kbind (src s) (\<lambda>b.
        kbind (st_bytes kernel_buf b s) (\<lambda>s.
        kbind (send_request env c this (\<lambda>m. m\<lparr>mtype := PRINT, d0 := len, d1 := uint kernel_buf\<rparr>) s) (\<lambda>(s, c, m).
        Inr (kfree kernel_buf s, c, response_result m)))))"

definition print_syscall_handler :: "environment \<Rightarrow> nat \<Rightarrow> u32 \<Rightarrow> int \<Rightarrow> u32 \<Rightarrow> bool \<Rightarrow> kst \<Rightarrow> (kst \<times> nat \<times> int) kres" where
  "print_syscall_handler env c this len buf is_kernel_call s =
     kbind (if \<not> is_kernel_call then user_check c this buf len False False s else Inr (s, 0)) (\<lambda>(s, rv).
     if rv < 0 then Inr (s, c, EFAULT)
     else print_from env c this len (ld_bytes (nat len) buf) s)"

text \<open>A negative count would be copied as a huge \<open>size_t\<close>.\<close>

definition readline_syscall_handler :: "environment \<Rightarrow> nat \<Rightarrow> u32 \<Rightarrow> int \<Rightarrow> u32 \<Rightarrow> kst \<Rightarrow> (kst \<times> nat \<times> int) kres" where
  "readline_syscall_handler env c this len buf s =
     kbind (user_check c this buf len False True s) (\<lambda>(s, rv).
     if rv < 0 then Inr (s, c, EFAULT)
     else if MAX_READLINE_BUF < len then Inr (s, c, EINVAL)
     else case kmalloc s of (s, kernel_buf) \<Rightarrow>
       if kernel_buf = NULL then Inr (s, c, ENOMEM)
       else
         kbind (send_request env c this (\<lambda>m. m\<lparr>mtype := READLINE, d1 := uint kernel_buf, d0 := len\<rparr>) s) (\<lambda>(s, c, m).
         if response_result m < 0 then Inl FAULT
         else kbind (memcpy buf kernel_buf (nat (response_result m)) s) (\<lambda>s.
              Inr (kfree kernel_buf s, c, response_result m))))"

definition set_term_color_syscall_handler :: "environment \<Rightarrow> nat \<Rightarrow> u32 \<Rightarrow> int \<Rightarrow> kst \<Rightarrow> (kst \<times> nat \<times> int) kres" where
  "set_term_color_syscall_handler env c this color s =
     kbind (send_request env c this (\<lambda>m. m\<lparr>mtype := SET_TERM_COLOR, d0 := color\<rparr>) s) (\<lambda>(s, c, m).
     Inr (s, c, response_result m))"

definition set_cursor_pos_syscall_handler :: "environment \<Rightarrow> nat \<Rightarrow> u32 \<Rightarrow> int \<Rightarrow> int \<Rightarrow> kst \<Rightarrow> (kst \<times> nat \<times> int) kres" where
  "set_cursor_pos_syscall_handler env c this row col s =
     kbind (send_request env c this (\<lambda>m. m\<lparr>mtype := SET_CURSOR_POS, d0 := row, d1 := col\<rparr>) s) (\<lambda>(s, c, m).
     Inr (s, c, response_result m))"

definition get_cursor_pos_syscall_handler :: "environment \<Rightarrow> nat \<Rightarrow> u32 \<Rightarrow> u32 \<Rightarrow> u32 \<Rightarrow> kst \<Rightarrow> (kst \<times> nat \<times> int) kres" where
  "get_cursor_pos_syscall_handler env c this row col s =
     kbind (user_check c this row 4 False True s) (\<lambda>(s, rv).
     if rv < 0 then Inr (s, c, - 1)
     else kbind (user_check c this col 4 False True s) (\<lambda>(s, rv).
       if rv < 0 then Inr (s, c, - 1)
       else
         kbind (send_request env c this (\<lambda>m. m\<lparr>mtype := GET_CURSOR_POS\<rparr>) s) (\<lambda>(s, c, m).
         kbind (st32 row (word_of_int (d0 m)) s) (\<lambda>s.
         kbind (st32 col (word_of_int (d1 m)) s) (\<lambda>s. Inr (s, c, 0))))))"

end
