(* ===== verification/Exception_Handler.thy ===== *)
theory Exception_Handler
  imports Syscall_Lifecycle Syscall_Console
begin

text \<open>
  \<open>exception_handler.c\<close>: a fault on a zero-fill page is repaired, otherwise the thread's registered handler
  runs on its own stack with the register values, otherwise the reason and the registers are printed and
  the thread is killed.
\<close>

section \<open>Register values\<close>

text \<open>\<open>ebp\<close> points to words; \<open>ureg\<close> starts as zeros with its cause.\<close>

definition get_ureg :: "u32 \<Rightarrow> u32 \<Rightarrow> bool \<Rightarrow> kst \<Rightarrow> ureg_t kres" where
  "get_ureg cause ebp has_error_code s =
     (let e = (if has_error_code then 1 else 0 :: u32) in
      kbind (ld_words 4 (ebp + 12) s) (\<lambda>seg.
      kbind (ld_words 8 (ebp + 32) s) (\<lambda>gp.
      kbind (ld_words 5 (ebp + 4 * (16 + e)) s) (\<lambda>fr.
      kbind (if has_error_code then ld32 (ebp + 64) s else Inr 0) (\<lambda>ec.
      Inr \<lparr>ur_cause = cause, ur_cr2 = 0, ur_ds = seg ! 0, ur_es = seg ! 1, ur_fs = seg ! 2, ur_gs = seg ! 3,
           ur_edi = gp ! 0, ur_esi = gp ! 1, ur_ebp = gp ! 2, ur_zero = 0, ur_ebx = gp ! 4, ur_edx = gp ! 5,
           ur_ecx = gp ! 6, ur_eax = gp ! 7, ur_error_code = ec, ur_eip = fr ! 0, ur_cs = fr ! 1, ur_eflags = fr ! 2,
           ur_esp = fr ! 3, ur_ss = fr ! 4\<rparr>)))))"

section \<open>Texts\<close>

definition MAX_BUF_SIZE :: nat where "MAX_BUF_SIZE = 512"

text \<open>\<open>%x\<close> and \<open>%d\<close> of \<open>sprintf\<close>.\<close>

fun digits :: "nat \<Rightarrow> nat \<Rightarrow> string" where
  "digits b n = (if b < 2 \<or> n < b then [''0123456789abcdef'' ! (n mod 16)]
                 else digits b (n div b) @ [''0123456789abcdef'' ! (n mod b)])"

declare digits.simps [simp del]

definition hex :: "u32 \<Rightarrow> string" where "hex w = digits 16 (unat w)"

definition dec :: "int \<Rightarrow> string" where
  "dec i = (if i < 0 then ''-'' @ digits 10 (nat (- i)) else digits 10 (nat i))"

definition bytes_of :: "string \<Rightarrow> u8 list" where
  "bytes_of str = map (\<lambda>ch. word_of_nat (of_char ch)) str"

definition NEWLINE :: string where "NEWLINE = [CHR 10]"

definition dump_text :: "int \<Rightarrow> ureg_t \<Rightarrow> string" where
  "dump_text i u =
     NEWLINE @ ''Register dump for thread tid '' @ dec i @ '':'' @ NEWLINE @
     ''cause: 0x'' @ hex (ur_cause u) @ '', cr2: 0x'' @ hex (ur_cr2 u) @ '', ds: 0x'' @ hex (ur_ds u) @ NEWLINE @
     ''es: 0x'' @ hex (ur_es u) @ '', fs: 0x'' @ hex (ur_fs u) @ '', gs: 0x'' @ hex (ur_gs u) @ NEWLINE @
     ''edi: 0x'' @ hex (ur_edi u) @ '', esi: 0x'' @ hex (ur_esi u) @ '', ebp: 0x'' @ hex (ur_ebp u) @ NEWLINE @
     ''zero: 0x'' @ hex (ur_zero u) @ '', ebx: 0x'' @ hex (ur_ebx u) @ '', edx: 0x'' @ hex (ur_edx u) @ NEWLINE @
     ''ecx: 0x'' @ hex (ur_ecx u) @ '', eax: 0x'' @ hex (ur_eax u) @ '', error code: 0x'' @ hex (ur_error_code u) @ NEWLINE @
     ''eip: 0x'' @ hex (ur_eip u) @ '', cs: 0x'' @ hex (ur_cs u) @ '', eflags: 0x'' @ hex (ur_eflags u) @ NEWLINE @
     ''esp: 0x'' @ hex (ur_esp u) @ '', ss: 0x'' @ hex (ur_ss u) @ NEWLINE"

definition exception_text :: "int \<Rightarrow> u32 \<Rightarrow> u32 \<Rightarrow> string" where
  "exception_text ty fault_va error_code =
     (if ty = 0 then ''Division Error''
      else if ty = 1 then ''Debug Exception''
      else if ty = 2 then ''Non-Maskable Interrupt''
      else if ty = 3 then ''Breakpoint''
      else if ty = 4 then ''Overflow''
      else if ty = 5 then ''BOUND Range exceeded''
      else if ty = 6 then ''UnDefined Opcode''
      else if ty = 7 then ''No Math coprocessor''
      else if ty = 8 then ''Double Fault''
      else if ty = 9 then ''Coprocessor Segment Overrun''
      else if ty = 10 then ''Invalid Task Segment Selector''
      else if ty = 11 then ''Segment Not Present''
      else if ty = 12 then ''Stack Segment Fault''
      else if ty = 13 then ''General Protection Fault''
      else if ty = 14 then
        ''Page fault: a '' @ (if IS_SET error_code PG_RW then ''write'' else ''read'') @ '' in '' @
        (if IS_SET error_code PG_US then ''user'' else ''kernel'') @ '' mode to a '' @
        (if IS_SET error_code PG_P then ''protected'' else ''non-present'') @ '' page at address 0x'' @ hex fault_va
      else if ty = 16 then ''X87 Math Fault''
      else if ty = 17 then ''Alignment Check''
      else if ty = 18 then ''Machine Check''
      else if ty = 19 then ''SSE Floating Point Exception''
      else ''Unknown exception type: '' @ dec ty)"

text \<open>A text of the kernel goes to the console.\<close>

definition print_text :: "environment \<Rightarrow> nat \<Rightarrow> u32 \<Rightarrow> string \<Rightarrow> kst \<Rightarrow> (kst \<times> nat) kres" where
  "print_text env c this txt s =
     kbind (print_from env c this (int (length txt)) (\<lambda>_. Inr (bytes_of txt)) s) (\<lambda>(s, c, _). Inr (s, c))"

definition dump_register :: "environment \<Rightarrow> nat \<Rightarrow> u32 \<Rightarrow> int \<Rightarrow> ureg_t \<Rightarrow> kst \<Rightarrow> (kst \<times> nat) kres" where
  "dump_register env c this i u s = print_text env c this (dump_text i u) s"

definition exception_interpret :: "environment \<Rightarrow> nat \<Rightarrow> u32 \<Rightarrow> int \<Rightarrow> u32 \<Rightarrow> u32 \<Rightarrow> kst \<Rightarrow> (kst \<times> nat) kres" where
  "exception_interpret env c this ty fault_va error_code s = print_text env c this (exception_text ty fault_va error_code) s"

section \<open>The handler\<close>

definition IDT_DF :: int where "IDT_DF = 8"
definition IDT_TS :: int where "IDT_TS = 10"
definition IDT_PF :: int where "IDT_PF = 14"
definition IDT_AC :: int where "IDT_AC = 17"

definition BAD_ADDR :: u32 where "BAD_ADDR = 0xdeadbeef"

definition has_error_code :: "int \<Rightarrow> bool" where
  "has_error_code ty = (ty = IDT_DF \<or> (IDT_TS \<le> ty \<and> ty \<le> IDT_PF) \<or> ty = IDT_AC)"

text \<open>The user's exception stack.\<close>

definition build_swexn_stack :: "u32 \<Rightarrow> u32 \<Rightarrow> ureg_t \<Rightarrow> kst \<Rightarrow> (kst \<times> u32) kres" where
  "build_swexn_stack esp3 arg u s =
     (let pos = esp3 - SIZEOF_UREG in
      kbind (st_words pos (words_of_ureg u) s) (\<lambda>s.
      kbind (st32 (pos - 4) pos s) (\<lambda>s.
      kbind (st32 (pos - 8) arg s) (\<lambda>s.
      kbind (st32 (pos - 12) BAD_ADDR s) (\<lambda>s.
      Inr (s, pos - 12))))))"

text \<open>The handler starts the thread's own handler, which is deregistered first.\<close>

definition run_swexn :: "u32 \<Rightarrow> u32 \<Rightarrow> ureg_t \<Rightarrow> kst \<Rightarrow> (kst \<times> kexit) kres" where
  "run_swexn init_eflags this u s =
     kbind (get_tcb this s) (\<lambda>t.
     kbind (kderef (swexns s) (swexn_struct t)) (\<lambda>w.
     kbind (free_swexn (swexn_struct t) s) (\<lambda>s.
     kbind (mod_tcb this (\<lambda>t. t\<lparr>swexn_struct := NULL\<rparr>) s) (\<lambda>s.
     kbind (build_swexn_stack (sw_esp3 w) (sw_arg w) u s) (\<lambda>(s, esp).
     Inr (s, RUNS_HANDLER (sw_eip w) SEGSEL_USER_CS init_eflags esp SEGSEL_USER_DS))))))"

text \<open>\<open>ebp\<close> and \<open>cr2\<close> are the registers; \<open>None\<close>: the faulting instruction runs again.\<close>

definition exception_handler ::
  "environment \<Rightarrow> u32 \<Rightarrow> nat \<Rightarrow> u32 \<Rightarrow> u32 \<Rightarrow> u32 \<Rightarrow> int \<Rightarrow> kst \<Rightarrow> (kst \<times> kexit option) kres" where
  "exception_handler env init_eflags c this ebp cr2 ty s =
     kbind (get_ureg (word_of_int ty) ebp (has_error_code ty) s) (\<lambda>u.
     let u = (if ty = IDT_PF then u\<lparr>ur_cr2 := cr2\<rparr> else u) in
     kbind (if ty = IDT_PF then vm_call c this (is_page_ZFOD cr2 (ur_error_code u) True) s else Inr (s, 0)) (\<lambda>(s, fixed).
     if fixed \<noteq> 0 then Inr (s, None)
     else if this = NULL then Inl PANIC
     else
       kbind (get_tcb this s) (\<lambda>t.
       if swexn_struct t = NULL
       then
         kbind (exception_interpret env c this ty (ur_cr2 u) (ur_error_code u) s) (\<lambda>(s, c).
         kbind (dump_register env c this (tid t) u s) (\<lambda>(s, c).
         kbind (vanish_syscall_handler env c this True s) (\<lambda>s. Inl PANIC)))
       else kbind (run_swexn init_eflags this u s) (\<lambda>(s, x). Inr (s, Some x)))))"

section \<open>The buffers\<close>

lemma digits_length: "2 \<le> b \<Longrightarrow> n < b ^ Suc k \<Longrightarrow> length (digits b n) \<le> Suc k"
proof (induction k arbitrary: n)
  case 0
  then show ?case by (simp add: digits.simps [of b n])
next
  case (Suc k)
  show ?case
  proof (cases "n < b")
    case False
    have "n div b < b ^ Suc k" using Suc.prems by (intro less_mult_imp_div_less) (simp add: mult.commute)
    then show ?thesis using Suc False by (simp add: digits.simps [of b n])
  qed (simp add: digits.simps [of b n])
qed

lemma hex_length: "length (hex w) \<le> 8"
  using digits_length [of 16 "unat w" 7] u32_bound [of w] by (simp add: hex_def)

lemma dec_length: "- (2 ^ 31) \<le> i \<Longrightarrow> i < 2 ^ 31 \<Longrightarrow> length (dec i) \<le> 11"
proof -
  assume "- (2 ^ 31) \<le> i" "i < 2 ^ 31"
  then have "nat (- i) < 10 ^ Suc 9" "nat i < 10 ^ Suc 9" by simp_all
  then show ?thesis using digits_length [of 10 "nat (- i)" 9] digits_length [of 10 "nat i" 9] by (simp add: dec_def)
qed

text \<open>The texts about a killed thread fit their buffers. For every thread id, every register value and every
  exception, the text with its terminating zero is at most \<open>MAX_BUF_SIZE\<close> bytes, so \<open>sprintf\<close> never leaves
  the array on the kernel stack.\<close>

theorem exception_texts_fit:
  assumes "- (2 ^ 31) \<le> i" and "i < 2 ^ 31" and "- (2 ^ 31) \<le> ty" and "ty < 2 ^ 31"
  shows "length (dump_text i u) + 1 \<le> MAX_BUF_SIZE \<and> length (exception_text ty va ec) + 1 \<le> MAX_BUF_SIZE"
proof
  note d = dec_length [OF assms(1,2)]
  have "length (dump_text i u) \<le> 266 + 11 + 20 * 8"
    using d hex_length [of "ur_cause u"] hex_length [of "ur_cr2 u"] hex_length [of "ur_ds u"] hex_length [of "ur_es u"]
      hex_length [of "ur_fs u"] hex_length [of "ur_gs u"] hex_length [of "ur_edi u"] hex_length [of "ur_esi u"]
      hex_length [of "ur_ebp u"] hex_length [of "ur_zero u"] hex_length [of "ur_ebx u"] hex_length [of "ur_edx u"]
      hex_length [of "ur_ecx u"] hex_length [of "ur_eax u"] hex_length [of "ur_error_code u"] hex_length [of "ur_eip u"]
      hex_length [of "ur_cs u"] hex_length [of "ur_eflags u"] hex_length [of "ur_esp u"] hex_length [of "ur_ss u"]
    unfolding dump_text_def NEWLINE_def by simp
  then show "length (dump_text i u) + 1 \<le> MAX_BUF_SIZE" by (simp add: MAX_BUF_SIZE_def)
  show "length (exception_text ty va ec) + 1 \<le> MAX_BUF_SIZE"
    using dec_length [OF assms(3,4)] hex_length [of va] by (simp add: exception_text_def MAX_BUF_SIZE_def)
qed

theorem exception_texts_fit_witness:
  "length (dump_text 7 (ureg_of_words (replicate 20 0xFFFFFFFF))) + 1 \<le> MAX_BUF_SIZE \<and>
   length (exception_text 14 0xFFFFFFFF 6) + 1 \<le> MAX_BUF_SIZE"
  by (rule exception_texts_fit) simp_all

end
