(* ===== verification/Memory_View.thy ===== *)
theory Memory_View
  imports Exception_Handler
begin

text \<open>
  Memory as the running thread sees it: a function from virtual addresses to bytes. On a set of mapped
  addresses without aliases, the stores of the handlers are updates of this function, whatever frames the
  page tables give; with it the stacks that the loader and the exception handler build are read back.
\<close>

section \<open>The view\<close>

definition mem :: "kst \<Rightarrow> u32 \<Rightarrow> u8" where
  "mem s a = (case ld8 a s of Inr b \<Rightarrow> b | Inl _ \<Rightarrow> 0)"

text \<open>The place of a user address: its frame and the offset in it.\<close>

definition place :: "kst \<Rightarrow> u32 \<Rightarrow> (u32 \<times> nat) option" where
  "place s a = (case walk (a AND PAGE_ALIGN_MASK) (kvm s) of Inr f \<Rightarrow> Some (f, unat (a AND 0xFFF)) | Inl _ \<Rightarrow> None)"

definition mem_ok :: "u32 set \<Rightarrow> kst \<Rightarrow> bool" where
  "mem_ok A s \<longleftrightarrow> (\<forall>a \<in> A. USER_MEM_START \<le> a \<longrightarrow> place s a \<noteq> None) \<and>
     (\<forall>a \<in> A. \<forall>b \<in> A. USER_MEM_START \<le> a \<longrightarrow> USER_MEM_START \<le> b \<longrightarrow> place s a = place s b \<longrightarrow> a = b)"

text \<open>What a store leaves alone.\<close>

definition same_but_bytes :: "kst \<Rightarrow> kst \<Rightarrow> bool" where
  "same_but_bytes s s' \<longleftrightarrow> (\<exists>k f. s' = s\<lparr>kmem := k, kvm := (kvm s)\<lparr>frames := f\<rparr>\<rparr>)"

lemma same_but_bytes_refl [simp]: "same_but_bytes s s"
proof -
  have "s = s\<lparr>kmem := kmem s, kvm := (kvm s)\<lparr>frames := frames (kvm s)\<rparr>\<rparr>" by simp
  then show ?thesis unfolding same_but_bytes_def by blast
qed

lemma same_but_bytes_trans: "same_but_bytes s s' \<Longrightarrow> same_but_bytes s' s'' \<Longrightarrow> same_but_bytes s s''"
proof -
  assume "same_but_bytes s s'" "same_but_bytes s' s''"
  then obtain k f k' f' where "s' = s\<lparr>kmem := k, kvm := (kvm s)\<lparr>frames := f\<rparr>\<rparr>"
    "s'' = s'\<lparr>kmem := k', kvm := (kvm s')\<lparr>frames := f'\<rparr>\<rparr>" unfolding same_but_bytes_def by blast
  then have "s'' = s\<lparr>kmem := k', kvm := (kvm s)\<lparr>frames := f'\<rparr>\<rparr>" by simp
  then show ?thesis unfolding same_but_bytes_def by blast
qed

lemma walk_frames [simp]: "walk p (v\<lparr>frames := f\<rparr>) = walk p v"
proof -
  have "rd b j (v\<lparr>frames := f\<rparr>) = rd b j v" for b j by (simp add: rd_def)
  then show ?thesis by (simp add: walk_def cong: if_cong)
qed

lemma same_but_bytes_simps:
  "same_but_bytes s s' \<Longrightarrow> tcbs s' = tcbs s" "same_but_bytes s s' \<Longrightarrow> pcbs s' = pcbs s"
  "same_but_bytes s s' \<Longrightarrow> msgs s' = msgs s" "same_but_bytes s s' \<Longrightarrow> swexns s' = swexns s"
  "same_but_bytes s s' \<Longrightarrow> place s' = place s"
  by (auto simp: same_but_bytes_def place_def fun_eq_iff)

lemma mem_ok_same: "same_but_bytes s s' \<Longrightarrow> mem_ok A s' = mem_ok A s"
  by (simp add: mem_ok_def same_but_bytes_simps)

lemma mem_ok_subset: "mem_ok A s \<Longrightarrow> B \<subseteq> A \<Longrightarrow> mem_ok B s"
  unfolding mem_ok_def by blast

lemma place_byte: "USER_MEM_START \<le> a \<Longrightarrow> place s a = Some (f, i) \<Longrightarrow> ld8 a s = Inr (frames (kvm s) f i)"
  by (auto simp: place_def ld8_def read_byte_def split: sum.splits)

lemma ld8_mem: "mem_ok A s \<Longrightarrow> a \<in> A \<Longrightarrow> ld8 a s = Inr (mem s a)"
proof -
  assume "mem_ok A s" "a \<in> A"
  then have "USER_MEM_START \<le> a \<longrightarrow> (\<exists>f i. place s a = Some (f, i))" by (auto simp: mem_ok_def)
  then have "\<exists>b. ld8 a s = Inr b" using place_byte [of a s] by (cases "a < USER_MEM_START") (auto simp: ld8_def not_less)
  then show ?thesis by (auto simp: mem_def)
qed

lemma st8_mem:
  assumes "mem_ok A s" and "a \<in> A"
  shows "\<exists>s'. st8 a b s = Inr s' \<and> same_but_bytes s s' \<and> (\<forall>x \<in> A. mem s' x = ((mem s)(a := b)) x)"
proof (cases "a < USER_MEM_START")
  case True
  let ?s = "s\<lparr>kmem := (kmem s)(a := b)\<rparr>"
  have "same_but_bytes s ?s" unfolding same_but_bytes_def
    by (rule exI [of _ "(kmem s)(a := b)"], rule exI [of _ "frames (kvm s)"]) simp
  moreover have "mem ?s x = ((mem s)(a := b)) x" for x using True by (auto simp: mem_def ld8_def)
  ultimately show ?thesis using True by (simp add: st8_def)
next
  case False
  then have ua: "USER_MEM_START \<le> a" by simp
  with assms obtain f i where p: "place s a = Some (f, i)" by (auto simp: mem_ok_def)
  then have w: "walk (a AND PAGE_ALIGN_MASK) (kvm s) = Inr f" "i = unat (a AND 0xFFF)"
    by (auto simp: place_def split: sum.splits)
  define s' where "s' = s\<lparr>kvm := (kvm s)\<lparr>frames := (frames (kvm s))(f := (frames (kvm s) f)(i := b))\<rparr>\<rparr>"
  have same: "same_but_bytes s s'" unfolding same_but_bytes_def s'_def
    by (rule exI [of _ "kmem s"], rule exI [of _ "(frames (kvm s))(f := (frames (kvm s) f)(i := b))"]) simp
  have "mem s' x = ((mem s)(a := b)) x" if x: "x \<in> A" for x
  proof (cases "x < USER_MEM_START")
    case True
    then show ?thesis using ua by (auto simp: mem_def ld8_def s'_def)
  next
    case False
    then have ux: "USER_MEM_START \<le> x" by simp
    then obtain g j where q: "place s x = Some (g, j)" using assms(1) x by (auto simp: mem_ok_def)
    have q': "place s' x = Some (g, j)" using q same by (simp add: same_but_bytes_simps)
    have "mem s' x = frames (kvm s') g j" "mem s x = frames (kvm s) g j"
      using place_byte [OF ux q] place_byte [OF ux q'] by (simp_all add: mem_def)
    moreover have "x = a \<longleftrightarrow> (g, j) = (f, i)" using assms x ua ux p q unfolding mem_ok_def by (metis option.inject)
    ultimately show ?thesis by (auto simp: s'_def)
  qed
  then show ?thesis using w same ua by (auto simp: st8_def s'_def not_less)
qed

section \<open>Words\<close>

abbreviation word_at :: "u32 \<Rightarrow> u32 set" where
  "word_at a \<equiv> {a, a + 1, a + 2, a + 3}"

lemma st32_mem:
  assumes "mem_ok A s" and "word_at a \<subseteq> A"
  shows "\<exists>s'. st32 a v s = Inr s' \<and> same_but_bytes s s' \<and> (\<forall>x \<in> A. mem s' x = wr32 a v (mem s) x)"
proof -
  have a: "a \<in> A" "a + 1 \<in> A" "a + 2 \<in> A" "a + 3 \<in> A" using assms(2) by auto
  from st8_mem [OF assms(1) a(1)] obtain s1 where s1: "st8 a (ucast v) s = Inr s1" "same_but_bytes s s1"
    "\<forall>x \<in> A. mem s1 x = ((mem s)(a := ucast v)) x" by blast
  have o1: "mem_ok A s1" using assms(1) mem_ok_same [OF s1(2)] by simp
  from st8_mem [OF o1 a(2)] obtain s2 where s2: "st8 (a + 1) (ucast (drop_bit 8 v)) s1 = Inr s2" "same_but_bytes s1 s2"
    "\<forall>x \<in> A. mem s2 x = ((mem s1)(a + 1 := ucast (drop_bit 8 v))) x" by blast
  have o2: "mem_ok A s2" using o1 mem_ok_same [OF s2(2)] by simp
  from st8_mem [OF o2 a(3)] obtain s3 where s3: "st8 (a + 2) (ucast (drop_bit 16 v)) s2 = Inr s3" "same_but_bytes s2 s3"
    "\<forall>x \<in> A. mem s3 x = ((mem s2)(a + 2 := ucast (drop_bit 16 v))) x" by blast
  have o3: "mem_ok A s3" using o2 mem_ok_same [OF s3(2)] by simp
  from st8_mem [OF o3 a(4)] obtain s4 where s4: "st8 (a + 3) (ucast (drop_bit 24 v)) s3 = Inr s4" "same_but_bytes s3 s4"
    "\<forall>x \<in> A. mem s4 x = ((mem s3)(a + 3 := ucast (drop_bit 24 v))) x" by blast
  have "st32 a v s = Inr s4"
    using s1(1) s2(1) s3(1) s4(1) by (simp add: st32_def word_bytes_def add.assoc)
  moreover have "same_but_bytes s s4" using s1(2) s2(2) s3(2) s4(2) same_but_bytes_trans by blast
  moreover have "\<forall>x \<in> A. mem s4 x = wr32 a v (mem s) x" using s1(3) s2(3) s3(3) s4(3) by (simp add: wr32_def)
  ultimately show ?thesis by blast
qed

lemma ld32_mem:
  assumes "mem_ok A s" and "word_at a \<subseteq> A"
  shows "ld32 a s = Inr (rd32 a (mem s))"
proof -
  have "ld8 a s = Inr (mem s a)" "ld8 (a + 1) s = Inr (mem s (a + 1))" "ld8 (a + 1 + 1) s = Inr (mem s (a + 2))"
    "ld8 (a + 1 + 1 + 1) s = Inr (mem s (a + 3))"
    using ld8_mem [OF assms(1)] assms(2) by (simp_all add: add.assoc)
  then show ?thesis by (simp add: ld32_def eval_nat_numeral rd32_def del: add.assoc)
qed

text \<open>Words at different multiples of four from a base do not overlap.\<close>

abbreviation nth_word :: "u32 \<Rightarrow> nat \<Rightarrow> u32" where
  "nth_word b i \<equiv> b + word_of_nat (4 * i)"

lemma nth_word_apart:
  assumes "i \<noteq> j" and "i < 2 ^ 30" and "j < 2 ^ 30" and "k < 4"
  shows "4 \<le> unat (nth_word b i + word_of_nat k - nth_word b j)"
proof -
  have eq: "nth_word b i + word_of_nat k - nth_word b j = (word_of_int (4 * int i + int k - 4 * int j) :: u32)" by simp
  have u: "uint (nth_word b i + word_of_nat k - nth_word b j) = (4 * int i + int k - 4 * int j) mod 2 ^ 32"
    unfolding eq by (simp only: unsigned_of_int take_bit_eq_mod) simp
  have "4 \<le> (4 * int i + int k - 4 * int j) mod 2 ^ 32"
  proof (cases "j < i")
    case True
    then have "(4 * int i + int k - 4 * int j) mod 2 ^ 32 = 4 * int i + int k - 4 * int j"
      using assms by (intro mod_pos_pos_trivial) simp_all
    then show ?thesis using True by simp
  next
    case False
    then have "i < j" using assms(1) by simp
    have "(4 * int i + int k - 4 * int j) mod 2 ^ 32 = (4 * int i + int k - 4 * int j + 2 ^ 32) mod 2 ^ 32" by simp
    also have "\<dots> = 4 * int i + int k - 4 * int j + 2 ^ 32"
      using \<open>i < j\<close> assms by (intro mod_pos_pos_trivial) simp_all
    finally show ?thesis using assms by simp
  qed
  moreover have "int (unat x) = uint x" for x :: u32 by simp
  ultimately show ?thesis using u by (metis nat_int_comparison(3) of_nat_numeral)
qed

lemma rd32_wr32_apart:
  assumes "i \<noteq> j" and "i < 2 ^ 30" and "j < 2 ^ 30"
  shows "rd32 (nth_word b i) (wr32 (nth_word b j) v m) = rd32 (nth_word b i) m"
proof -
  have "wr32 (nth_word b j) v m (nth_word b i + word_of_nat k) = m (nth_word b i + word_of_nat k)" if "k < 4" for k
    by (rule wr32_other, rule nth_word_apart [OF assms that])
  from this [of 0] this [of 1] this [of 2] this [of 3] show ?thesis by (simp add: rd32_def)
qed

lemma rd32_word_cong: "(\<And>x. x \<in> word_at a \<Longrightarrow> m x = m' x) \<Longrightarrow> rd32 a m = rd32 a m'"
  by (simp add: rd32_def)

section \<open>Arrays of words\<close>

definition span :: "u32 \<Rightarrow> nat \<Rightarrow> u32 set" where
  "span a n = (\<lambda>i. a + word_of_nat i) ` {..< n}"

definition has_words :: "u32 set \<Rightarrow> kst \<Rightarrow> u32 \<Rightarrow> u32 list \<Rightarrow> bool" where
  "has_words A s a ws \<longleftrightarrow> mem_ok A s \<and> (\<forall>i < length ws. word_at (nth_word a i) \<subseteq> A \<and> rd32 (nth_word a i) (mem s) = ws ! i)"

lemma word_at_span: "i < n \<Longrightarrow> word_at (nth_word a i) \<subseteq> span a (4 * n)"
proof -
  assume "i < n"
  then have "a + word_of_nat (4 * i + k) \<in> span a (4 * n)" if "k < 4" for k
    using that unfolding span_def by (intro imageI) auto
  from this [of 0] this [of 1] this [of 2] this [of 3] show ?thesis by (simp add: algebra_simps)
qed

lemma has_words_Nil [simp]: "has_words A s a [] = mem_ok A s"
  by (simp add: has_words_def)

lemma has_words_ld: "has_words A s a ws \<Longrightarrow> ld_words (length ws) a s = Inr ws"
proof (induction ws arbitrary: a)
  case (Cons w ws)
  have 0: "word_at a \<subseteq> A" "rd32 a (mem s) = w" "mem_ok A s" using Cons.prems unfolding has_words_def by fastforce+
  have "has_words A s (a + 4) ws" unfolding has_words_def
  proof (intro conjI allI impI)
    fix i assume "i < length ws"
    moreover have "nth_word (a + 4) i = nth_word a (Suc i)" by simp
    ultimately show "word_at (nth_word (a + 4) i) \<subseteq> A" "rd32 (nth_word (a + 4) i) (mem s) = ws ! i"
      using Cons.prems unfolding has_words_def by (metis Suc_less_eq length_Cons nth_Cons_Suc)+
  qed (rule 0(3))
  then show ?case using Cons.IH ld32_mem [OF 0(3,1)] 0(2) by simp
qed simp

text \<open>A store next to an array extends it, at either end.\<close>

lemma st32_array:
  assumes "has_words A s a (pre @ post)" and "word_at (nth_word b j) \<subseteq> A" and "n < 2 ^ 30" and "j < n"
    and "\<And>i. i < length (pre @ post) \<Longrightarrow> nth_word a i = nth_word b (f i) \<and> f i < n \<and> f i \<noteq> j"
  shows "\<exists>s'. st32 (nth_word b j) v s = Inr s' \<and> same_but_bytes s s' \<and> has_words A s' a (pre @ post) \<and>
     rd32 (nth_word b j) (mem s') = v"
proof -
  from assms(1) have ok: "mem_ok A s" by (simp add: has_words_def)
  from st32_mem [OF ok assms(2)] obtain s' where s': "st32 (nth_word b j) v s = Inr s'" "same_but_bytes s s'"
    "\<forall>x \<in> A. mem s' x = wr32 (nth_word b j) v (mem s) x" by blast
  have "rd32 (nth_word a i) (mem s') = rd32 (nth_word a i) (mem s)" if i: "i < length (pre @ post)" for i
  proof -
    have "word_at (nth_word a i) \<subseteq> A" using assms(1) i by (simp add: has_words_def)
    then have "rd32 (nth_word a i) (mem s') = rd32 (nth_word a i) (wr32 (nth_word b j) v (mem s))"
      using s'(3) by (intro rd32_word_cong) auto
    also have "\<dots> = rd32 (nth_word a i) (mem s)"
      using rd32_wr32_apart [of "f i" j b v "mem s"] assms(3,4) assms(5) [OF i] by simp
    finally show ?thesis .
  qed
  moreover have "rd32 (nth_word b j) (mem s') = rd32 (nth_word b j) (wr32 (nth_word b j) v (mem s))"
    using s'(3) assms(2) by (intro rd32_word_cong) auto
  ultimately show ?thesis using s' assms(1) mem_ok_same [OF s'(2)] by (intro exI [of _ s']) (simp add: has_words_def)
qed

lemma st32_push:
  assumes "has_words A s a ws" and "word_at (a - 4) \<subseteq> A" and "length ws < 2 ^ 30 - 1"
  shows "\<exists>s'. st32 (a - 4) v s = Inr s' \<and> same_but_bytes s s' \<and> has_words A s' (a - 4) (v # ws)"
proof -
  have nth: "nth_word a i = nth_word (a - 4) (i + 1)" for i by simp
  from st32_array [of A s a "[]" ws "a - 4" 0 "Suc (length ws)" Suc v] assms
  obtain s' where s': "st32 (a - 4) v s = Inr s'" "same_but_bytes s s'" "has_words A s' a ws" "rd32 (a - 4) (mem s') = v"
    by auto
  have "has_words A s' (a - 4) (v # ws)" unfolding has_words_def
  proof (intro conjI allI impI)
    fix i assume "i < length (v # ws)"
    then show "word_at (nth_word (a - 4) i) \<subseteq> A" "rd32 (nth_word (a - 4) i) (mem s') = (v # ws) ! i"
      using assms(2) s'(3,4) nth unfolding has_words_def by (cases i; force)+
  qed (use s'(3) in \<open>simp add: has_words_def\<close>)
  with s' show ?thesis by blast
qed

lemma st32_append:
  assumes "has_words A s a ws" and "word_at (nth_word a (length ws)) \<subseteq> A" and "length ws < 2 ^ 30 - 1"
  shows "\<exists>s'. st32 (nth_word a (length ws)) v s = Inr s' \<and> same_but_bytes s s' \<and> has_words A s' a (ws @ [v])"
proof -
  from st32_array [of A s a ws "[]" a "length ws" "Suc (length ws)" id v] assms
  obtain s' where s': "st32 (nth_word a (length ws)) v s = Inr s'" "same_but_bytes s s'" "has_words A s' a ws"
    "rd32 (nth_word a (length ws)) (mem s') = v" by auto
  then have "has_words A s' a (ws @ [v])" using assms(2) by (auto simp: has_words_def nth_append less_Suc_eq)
  with s' show ?thesis by blast
qed

lemma st_words_mem:
  assumes "has_words A s a pre" and "\<And>i. i < length (pre @ ws) \<Longrightarrow> word_at (nth_word a i) \<subseteq> A"
    and "length (pre @ ws) < 2 ^ 30"
  shows "\<exists>s'. st_words (nth_word a (length pre)) ws s = Inr s' \<and> same_but_bytes s s' \<and> has_words A s' a (pre @ ws)"
  using assms
proof (induction ws arbitrary: pre s)
  case (Cons w ws)
  from st32_append [OF Cons.prems(1), of w] Cons.prems(2,3)
  obtain s1 where s1: "st32 (nth_word a (length pre)) w s = Inr s1" "same_but_bytes s s1" "has_words A s1 a (pre @ [w])" by auto
  from Cons.IH [OF s1(3)] Cons.prems(2,3)
  obtain s2 where "st_words (nth_word a (length (pre @ [w]))) ws s1 = Inr s2" "same_but_bytes s1 s2" "has_words A s2 a (pre @ w # ws)"
    by auto
  moreover have "nth_word a (length (pre @ [w])) = nth_word a (length pre) + 4" by simp
  ultimately have "st_words (nth_word a (length pre)) (w # ws) s = Inr s2" using s1(1)
    by (simp only: st_words.simps kbind_Inr)
  then show ?case using same_but_bytes_trans [OF s1(2)] \<open>same_but_bytes s1 s2\<close> \<open>has_words A s2 a (pre @ w # ws)\<close> by blast
qed simp

end
