(* ===== verification/Stack_Frames.thy ===== *)
theory Stack_Frames
  imports Memory_View
begin

text \<open>
  The stacks on which the kernel starts user code: the frame for \<open>iret\<close> on a kernel stack, the stack of a
  software exception handler, and what a thread may ask for with \<open>swexn\<close>.
\<close>

lemma span_word:
  assumes "i < n"
  shows "word_at (nth_word a i) \<subseteq> span a (4 * n)"
  using assms by (rule word_at_span)

lemma push_to_stack_words:
  assumes "has_words A s a ws" and "word_at (a - 4) \<subseteq> A" and "length ws < 2 ^ 30 - 1"
  shows "\<exists>s'. push_to_stack a v s = Inr (s', a - 4) \<and> same_but_bytes s s' \<and> has_words A s' (a - 4) (v # ws)"
  using st32_push [OF assms, of v] by (auto simp: push_to_stack_def)

section \<open>Entering a program\<close>

text \<open>The frame from which a new program is entered. On a kernel stack with room, \<open>load_kernel_stack\<close> sets
  \<open>esp0\<close> to the top of the stack and leaves, from the returned stack pointer up, the user data segment, the
  entry point, the user code segment, the flags, the user stack pointer and the user stack segment: what
  the data-segment load and \<open>iret\<close> of the assembly pop.\<close>

theorem load_kernel_stack_correct:
  assumes "mem_ok (span (k_esp - 24) 24) s"
  shows "\<exists>s'. load_kernel_stack fl c k_esp u_esp program idle s = Inr (s', STARTS idle (k_esp - 24)) \<and>
     ld_words 6 (k_esp - 24) s' = Inr [SEGSEL_USER_DS, program, SEGSEL_USER_CS, fl, u_esp, SEGSEL_USER_DS] \<and>
     esp0 s' c = k_esp \<and> tcbs s' = tcbs s"
proof -
  let ?A = "span (k_esp - 24) 24" and ?s = "s\<lparr>esp0 := (esp0 s)(c := k_esp)\<rparr>"
  have w: "word_at (k_esp - 24 + word_of_nat (4 * i)) \<subseteq> ?A" if "i < 6" for i
    using span_word [of i 6 "k_esp - 24"] that by simp
  have a: "word_at (k_esp - 4) \<subseteq> ?A" "word_at (k_esp - 4 - 4) \<subseteq> ?A" "word_at (k_esp - 4 - 4 - 4) \<subseteq> ?A"
    "word_at (k_esp - 4 - 4 - 4 - 4) \<subseteq> ?A" "word_at (k_esp - 4 - 4 - 4 - 4 - 4) \<subseteq> ?A"
    "word_at (k_esp - 4 - 4 - 4 - 4 - 4 - 4) \<subseteq> ?A"
    using w [of 5] w [of 4] w [of 3] w [of 2] w [of 1] w [of 0] by (simp_all add: algebra_simps)
  have h0: "has_words ?A ?s k_esp []" using assms by (simp add: mem_ok_def place_def)
  obtain s1 where s1: "push_to_stack k_esp SEGSEL_USER_DS ?s = Inr (s1, k_esp - 4)" "same_but_bytes ?s s1"
    "has_words ?A s1 (k_esp - 4) [SEGSEL_USER_DS]" using push_to_stack_words [OF h0 a(1)] by auto
  obtain s2 where s2: "push_to_stack (k_esp - 4) u_esp s1 = Inr (s2, k_esp - 4 - 4)" "same_but_bytes s1 s2"
    "has_words ?A s2 (k_esp - 4 - 4) [u_esp, SEGSEL_USER_DS]" using push_to_stack_words [OF s1(3) a(2)] by auto
  obtain s3 where s3: "push_to_stack (k_esp - 4 - 4) fl s2 = Inr (s3, k_esp - 4 - 4 - 4)" "same_but_bytes s2 s3"
    "has_words ?A s3 (k_esp - 4 - 4 - 4) [fl, u_esp, SEGSEL_USER_DS]" using push_to_stack_words [OF s2(3) a(3)] by auto
  obtain s4 where s4: "push_to_stack (k_esp - 4 - 4 - 4) SEGSEL_USER_CS s3 = Inr (s4, k_esp - 4 - 4 - 4 - 4)" "same_but_bytes s3 s4"
    "has_words ?A s4 (k_esp - 4 - 4 - 4 - 4) [SEGSEL_USER_CS, fl, u_esp, SEGSEL_USER_DS]"
    using push_to_stack_words [OF s3(3) a(4)] by auto
  obtain s5 where s5: "push_to_stack (k_esp - 4 - 4 - 4 - 4) program s4 = Inr (s5, k_esp - 4 - 4 - 4 - 4 - 4)" "same_but_bytes s4 s5"
    "has_words ?A s5 (k_esp - 4 - 4 - 4 - 4 - 4) [program, SEGSEL_USER_CS, fl, u_esp, SEGSEL_USER_DS]"
    using push_to_stack_words [OF s4(3) a(5)] by auto
  obtain s6 where s6: "push_to_stack (k_esp - 4 - 4 - 4 - 4 - 4) SEGSEL_USER_DS s5 = Inr (s6, k_esp - 4 - 4 - 4 - 4 - 4 - 4)" "same_but_bytes s5 s6"
    "has_words ?A s6 (k_esp - 4 - 4 - 4 - 4 - 4 - 4) [SEGSEL_USER_DS, program, SEGSEL_USER_CS, fl, u_esp, SEGSEL_USER_DS]"
    using push_to_stack_words [OF s5(3) a(6)] by auto
  have top: "k_esp - 4 - 4 - 4 - 4 - 4 - 4 = k_esp - 24" by simp
  have same: "same_but_bytes ?s s6" using s1(2) s2(2) s3(2) s4(2) s5(2) s6(2) same_but_bytes_trans by blast
  then have "esp0 s6 c = k_esp" "tcbs s6 = tcbs s" by (auto simp: same_but_bytes_def)
  moreover have "ld_words 6 (k_esp - 24) s6 = Inr [SEGSEL_USER_DS, program, SEGSEL_USER_CS, fl, u_esp, SEGSEL_USER_DS]"
    using has_words_ld [OF s6(3)] unfolding top by (simp add: eval_nat_numeral)
  moreover have "load_kernel_stack fl c k_esp u_esp program idle s = Inr (s6, STARTS idle (k_esp - 24))"
    unfolding load_kernel_stack_def Let_def using s1(1) s2(1) s3(1) s4(1) s5(1) s6(1) top by simp
  ultimately show ?thesis by blast
qed

theorem load_kernel_stack_correct_witness:
  "\<exists>s'. load_kernel_stack 0x202 1 0x201fe0 0xffffff00 0x1000000 False kst_example = Inr (s', STARTS False (0x201fe0 - 24)) \<and>
     ld_words 6 (0x201fe0 - 24) s' = Inr [SEGSEL_USER_DS, 0x1000000, SEGSEL_USER_CS, 0x202, 0xffffff00, SEGSEL_USER_DS] \<and>
     esp0 s' 1 = 0x201fe0 \<and> tcbs s' = tcbs kst_example"
proof (rule load_kernel_stack_correct)
  have "a < USER_MEM_START" if "a \<in> span (0x201fe0 - 24) 24" for a
    using that unfolding span_def USER_MEM_START_def by (auto simp: lessThan_nat_numeral lessThan_Suc)
  then show "mem_ok (span (0x201fe0 - 24) 24) kst_example" by (auto simp: mem_ok_def dest: leD)
qed

section \<open>Software exception handlers\<close>

lemma ureg_of_words_of_ureg [simp]: "ureg_of_words (words_of_ureg u) = u"
  by (simp add: ureg_of_words_def words_of_ureg_def)

lemma build_swexn_stack_words:
  assumes "mem_ok (span (esp3 - 92) 92) s"
  shows "\<exists>s'. build_swexn_stack esp3 arg u s = Inr (s', esp3 - 92) \<and> same_but_bytes s s' \<and>
     has_words (span (esp3 - 92) 92) s' (esp3 - 92) ([BAD_ADDR, arg, esp3 - 80] @ words_of_ureg u)"
proof -
  let ?A = "span (esp3 - 92) 92" and ?p = "esp3 - 80" and ?u = "words_of_ureg u"
  have w: "word_at (esp3 - 92 + word_of_nat (4 * i)) \<subseteq> ?A" if "i < 23" for i
    using span_word [of i 23 "esp3 - 92"] that by simp
  have a: "word_at (?p - 4) \<subseteq> ?A" "word_at (?p - 4 - 4) \<subseteq> ?A" "word_at (?p - 4 - 4 - 4) \<subseteq> ?A"
    using w [of 2] w [of 1] w [of 0] by (simp_all add: algebra_simps)
  have up: "word_at (nth_word ?p i) \<subseteq> ?A" if "i < length ([] @ ?u)" for i
    using w [of "i + 3"] that by (simp add: words_of_ureg_def algebra_simps)
  have len: "length ?u = 20" by (simp add: words_of_ureg_def)
  have h0: "has_words ?A s ?p []" using assms by simp
  obtain s1 where s1: "st_words ?p ?u s = Inr s1" "same_but_bytes s s1" "has_words ?A s1 ?p ?u"
    using st_words_mem [OF h0, of ?u] up len by auto
  obtain s2 where s2: "st32 (?p - 4) ?p s1 = Inr s2" "same_but_bytes s1 s2" "has_words ?A s2 (?p - 4) (?p # ?u)"
    using st32_push [OF s1(3) a(1), of ?p] len by auto
  obtain s3 where s3: "st32 (?p - 4 - 4) arg s2 = Inr s3" "same_but_bytes s2 s3" "has_words ?A s3 (?p - 4 - 4) (arg # ?p # ?u)"
    using st32_push [OF s2(3) a(2), of arg] len by auto
  obtain s4 where s4: "st32 (?p - 4 - 4 - 4) BAD_ADDR s3 = Inr s4" "same_but_bytes s3 s4"
    "has_words ?A s4 (?p - 4 - 4 - 4) (BAD_ADDR # arg # ?p # ?u)"
    using st32_push [OF s3(3) a(3), of BAD_ADDR] len by auto
  have "build_swexn_stack esp3 arg u s = Inr (s4, esp3 - 92)"
    using s1(1) s2(1) s3(1) s4(1) by (simp add: build_swexn_stack_def Let_def SIZEOF_UREG_def)
  moreover have "same_but_bytes s s4" using s1(2) s2(2) s3(2) s4(2) same_but_bytes_trans by blast
  ultimately show ?thesis using s4(3) by simp
qed

lemma ld_words_append:
  "ld_words (m + n) a s = kbind (ld_words m a s) (\<lambda>v. kbind (ld_words n (nth_word a m) s) (\<lambda>w. Inr (v @ w)))"
proof (induction m arbitrary: a)
  case 0
  then show ?case by (cases "ld_words n a s") simp_all
next
  case (Suc m)
  have "nth_word (a + 4) m = nth_word a (Suc m)" by simp
  then show ?case using Suc.IH [of "a + 4"] by (cases "ld32 a s") (simp_all add: add.assoc)
qed

text \<open>C13: what a software exception handler finds. When a thread with a registered handler faults, and the handler's
  stack is mapped, the handler is started at its address in user mode with the stack pointer at a bad return
  address, above it the registered argument and a pointer to the register values, which are the values at the
  fault; the handler is no longer registered.\<close>

theorem run_swexn_correct:
  assumes "tcbs s this = Some t" and "swexn_struct t \<noteq> NULL" and "swexns s (swexn_struct t) = Some w"
    and "mem_ok (span (sw_esp3 w - 92) 92) s"
  shows "\<exists>s' esp ws. run_swexn fl this u s = Inr (s', RUNS_HANDLER (sw_eip w) SEGSEL_USER_CS fl esp SEGSEL_USER_DS) \<and>
     ld_words 3 esp s' = Inr [BAD_ADDR, sw_arg w, esp + 12] \<and>
     ld_words 20 (esp + 12) s' = Inr ws \<and> ureg_of_words ws = u \<and>
     tcbs s' this = Some (t\<lparr>swexn_struct := NULL\<rparr>) \<and> swexns s' (swexn_struct t) = None"
proof -
  let ?x = "swexn_struct t" and ?e = "sw_esp3 w - 92"
  define s1 where "s1 = kfree ?x (s\<lparr>swexns := (swexns s)(?x := None)\<rparr>)"
  define s2 where "s2 = s1\<lparr>tcbs := (tcbs s1)(this \<mapsto> t\<lparr>swexn_struct := NULL\<rparr>)\<rparr>"
  have t1: "tcbs s1 this = Some t" using assms(1) by (simp add: s1_def kfree_def)
  have ok: "mem_ok (span ?e 92) s2" using assms(4) by (simp add: mem_ok_def place_def s2_def s1_def kfree_def)
  obtain s3 where s3: "build_swexn_stack (sw_esp3 w) (sw_arg w) u s2 = Inr (s3, ?e)" "same_but_bytes s2 s3"
    "has_words (span ?e 92) s3 ?e ([BAD_ADDR, sw_arg w, sw_esp3 w - 80] @ words_of_ureg u)"
    using build_swexn_stack_words [OF ok] by blast
  have "free_swexn ?x s = Inr s1" using assms(2,3) by (simp add: free_swexn_def s1_def)
  then have run: "run_swexn fl this u s = Inr (s3, RUNS_HANDLER (sw_eip w) SEGSEL_USER_CS fl ?e SEGSEL_USER_DS)"
    using assms(1,3) t1 s3(1) by (simp add: run_swexn_def s2_def [symmetric])
  have len: "length ([BAD_ADDR, sw_arg w, sw_esp3 w - 80] @ words_of_ureg u) = 3 + 20" by (simp add: words_of_ureg_def)
  have "kbind (ld_words 3 ?e s3) (\<lambda>v. kbind (ld_words 20 (nth_word ?e 3) s3) (\<lambda>w. Inr (v @ w))) =
      Inr ([BAD_ADDR, sw_arg w, sw_esp3 w - 80] @ words_of_ureg u)"
    using has_words_ld [OF s3(3)] unfolding len ld_words_append .
  then obtain v ws where v: "ld_words 3 ?e s3 = Inr v" "ld_words 20 (?e + 12) s3 = Inr ws"
    "v @ ws = [BAD_ADDR, sw_arg w, sw_esp3 w - 80] @ words_of_ureg u" by (auto simp: kbind_eq_Inr)
  have "length v = 3" using v(1) by (auto simp: eval_nat_numeral kbind_eq_Inr)
  then have "v = [BAD_ADDR, sw_arg w, sw_esp3 w - 80] \<and> ws = words_of_ureg u" using v(3) append_eq_append_conv [of v "[BAD_ADDR, sw_arg w, sw_esp3 w - 80]" ws "words_of_ureg u"] by simp
  moreover have "tcbs s3 this = Some (t\<lparr>swexn_struct := NULL\<rparr>)" "swexns s3 ?x = None"
    using same_but_bytes_simps [OF s3(2)] by (simp_all add: s2_def s1_def kfree_def)
  ultimately show ?thesis using run v by (intro exI [of _ s3] exI [of _ ?e] exI [of _ ws]) simp
qed

text \<open>The thread at \<open>0x201fe0\<close> has a handler at \<open>0x1000100\<close> with a stack in kernel memory for this example, and
  faulted with \<open>%eip\<close> at \<open>0x1000040\<close>.\<close>

definition swexn_example :: kst where
  "swexn_example = kst_example\<lparr>tcbs := [0x201fe0 \<mapsto> \<lparr>k_stack_esp = 0x201fe0, tid = 5, pcb = 0x400000, result = 0, state = NORMAL,
       swexn_struct = 0x300000, my_msg = 0x300040, ori_cpu = 1\<rparr>],
     swexns := [0x300000 \<mapsto> \<lparr>sw_esp3 = 0x500000, sw_eip = 0x1000100, sw_arg = 7\<rparr>]\<rparr>"

definition ureg_example :: ureg_t where
  "ureg_example = \<lparr>ur_cause = 14, ur_cr2 = 8, ur_ds = 0x2b, ur_es = 0x2b, ur_fs = 0x2b, ur_gs = 0x2b, ur_edi = 1, ur_esi = 2,
     ur_ebp = 0xffffff00, ur_zero = 0, ur_ebx = 3, ur_edx = 4, ur_ecx = 5, ur_eax = 6, ur_error_code = 6, ur_eip = 0x1000040,
     ur_cs = 0x23, ur_eflags = 0x202, ur_esp = 0xfffffe00, ur_ss = 0x2b\<rparr>"

theorem run_swexn_correct_witness:
  "\<exists>s' esp ws. run_swexn 0x202 0x201fe0 ureg_example swexn_example =
       Inr (s', RUNS_HANDLER (sw_eip \<lparr>sw_esp3 = 0x500000, sw_eip = 0x1000100, sw_arg = 7\<rparr>) SEGSEL_USER_CS 0x202 esp SEGSEL_USER_DS) \<and>
     ld_words 3 esp s' = Inr [BAD_ADDR, sw_arg \<lparr>sw_esp3 = 0x500000, sw_eip = 0x1000100, sw_arg = 7\<rparr>, esp + 12] \<and>
     ld_words 20 (esp + 12) s' = Inr ws \<and> ureg_of_words ws = ureg_example \<and>
     tcbs s' 0x201fe0 = Some (\<lparr>k_stack_esp = 0x201fe0, tid = 5, pcb = 0x400000, result = 0, state = NORMAL,
       swexn_struct = 0x300000, my_msg = 0x300040, ori_cpu = 1\<rparr>\<lparr>swexn_struct := NULL\<rparr>) \<and>
     swexns s' (swexn_struct \<lparr>k_stack_esp = 0x201fe0, tid = 5, pcb = 0x400000, result = 0, state = NORMAL,
       swexn_struct = 0x300000, my_msg = 0x300040, ori_cpu = 1\<rparr>) = None"
proof (rule run_swexn_correct)
  have "a < USER_MEM_START" if "a \<in> span (0x500000 - 92) 92" for a
    using that unfolding span_def USER_MEM_START_def by (auto simp: lessThan_nat_numeral lessThan_Suc)
  then show "mem_ok (span (sw_esp3 \<lparr>sw_esp3 = 0x500000, sw_eip = 0x1000100, sw_arg = 7\<rparr> - 92) 92) swexn_example"
    by (auto simp: mem_ok_def dest: leD)
qed (simp_all add: swexn_example_def)

end
