(* ===== verification/Kernel_Calls.thy ===== *)
theory Kernel_Calls
  imports Core_Search Stack_Frames
begin

text \<open>
  System calls from end to end: a thread on a worker core asks, the manager core polls and serves the
  message, and the worker's next timer interrupt lets the thread continue. This is one behaviour of the
  rest of the system (an \<open>environment\<close>), composed of the modelled functions themselves.
\<close>

section \<open>The rest of the system\<close>

definition serve :: "scanner \<Rightarrow> u32 \<Rightarrow> nat \<Rightarrow> environment" where
  "serve scan buf c s =
     (case manager_round scan buf s of None \<Rightarrow> Inl SPINS
      | Some r \<Rightarrow> kbind r (\<lambda>s. kbind (op_switch False c (- 1) (cur_running_thr s c) s) (\<lambda>(s, th). Inr (s, c))))"

text \<open>A worker core on which only the thread \<open>this\<close> and the idle thread are there, no message is under way, and
  nothing is to be cleaned up.\<close>

definition asks :: "nat \<Rightarrow> u32 \<Rightarrow> tcb_t \<Rightarrow> pcb_t \<Rightarrow> kst \<Rightarrow> bool" where
  "asks c this t p s \<longleftrightarrow> 0 < c \<and> c \<le> num_worker_cores s \<and> this \<noteq> NULL \<and> my_msg t \<noteq> NULL \<and>
     idle_thr s c \<noteq> NULL \<and> idle_thr s c \<noteq> this \<and> tcbs s this = Some t \<and> 0 \<le> tid t \<and> pcbs s (pcb t) = Some p \<and>
     queues s c = [] \<and> (\<forall>i. msg_queues s i = []) \<and> zombie_lists s c = [] \<and>
     zombie_list_locks s c = free_mutex \<and> malloc_lib_locks s c = free_mutex"

text \<open>What the manager sees when it has taken the message \<open>m\<close> of the thread.\<close>

definition asked :: "nat \<Rightarrow> tcb_t \<Rightarrow> msg_t \<Rightarrow> kst \<Rightarrow> kst" where
  "asked c t m s = s\<lparr>msgs := (msgs s)(my_msg t \<mapsto> m), cur_running_thr := (cur_running_thr s)(c := idle_thr s c)\<rparr>"

lemma reap_zombie_none:
  assumes "tcbs s this = Some t" and "0 \<le> tid t" and "zombie_lists s c = []"
    and "zombie_list_locks s c = free_mutex" and "malloc_lib_locks s c = free_mutex"
  shows "reap_zombie c this s = Inr s"
proof -
  have id: "(zombie_list_locks s)(c := free_mutex) = zombie_list_locks s" "(malloc_lib_locks s)(c := free_mutex) = malloc_lib_locks s"
    "(zombie_lists s)(c := []) = zombie_lists s" using assms by (simp_all add: fun_upd_idem)
  have held: "free_mutex\<lparr>lock_holder := tid t, lock_holder := - 1\<rparr> = free_mutex" by (simp add: free_mutex_def)
  show ?thesis using assms id
    by (simp add: reap_zombie_def mutex_try_lock_def get_next_zombie_def unlock_malloc_lib_def unlock_zombie_list_def mutex_unlock_def
        free_mutex_def Let_def)
qed

lemma after_switch_quiet:
  assumes "asks c this t p s"
  shows "\<exists>s'. after_switch OP_SEND_MSG c this s = Inr s' \<and>
     s' = s\<lparr>kvm := (kvm s)\<lparr>cr3 := page_table_base p\<rparr>, esp0 := (esp0 s)(c := tcb_get_high_addr (k_stack_esp t - 1))\<rparr>"
proof -
  let ?s = "s\<lparr>kvm := (kvm s)\<lparr>cr3 := page_table_base p\<rparr>, esp0 := (esp0 s)(c := tcb_get_high_addr (k_stack_esp t - 1))\<rparr>"
  have a: "tcbs s this = Some t" "pcbs s (pcb t) = Some p" "0 \<le> tid t" "zombie_lists s c = []"
     "zombie_list_locks s c = free_mutex" "malloc_lib_locks s c = free_mutex" using assms by (simp_all add: asks_def)
  have r: "reap_zombie c this ?s = Inr ?s" by (rule reap_zombie_none) (use a in simp_all)
  have "(if page_table_base p \<noteq> cr3 (kvm s) then kset_cr3 (page_table_base p) s else s) = s\<lparr>kvm := (kvm s)\<lparr>cr3 := page_table_base p\<rparr>\<rparr>"
    by (simp add: kset_cr3_def)
  then show ?thesis using a r by (simp add: after_switch_def op_codes Let_def)
qed

text \<open>A request is answered when the manager's handler answers it with a response for the core that asked; the
  handler may change the devices, the tables of tasks and what is allocated.\<close>

definition answers :: "nat \<Rightarrow> u32 \<Rightarrow> tcb_t \<Rightarrow> msg_t \<Rightarrow> kst \<Rightarrow> kst \<Rightarrow> bool" where
  "answers c this t r sM sD \<longleftrightarrow>
     (\<exists>cn k l fr. sD = sM\<lparr>msgs := (msgs sM)(my_msg t \<mapsto> r), con := cn, kbd := k, life := l, freed := fr,
        msg_queues := (msg_queues sM)((c - 1) * 2 + 1 := [my_msg t])\<rparr>) \<and>
     mtype r \<in> {RESPONSE, WAIT_RESPONSE} \<and> req_thr r = this"

lemma send_picks_idle:
  assumes "asks c this t p s" and "s1 = s\<lparr>msgs := (msgs s)(my_msg t \<mapsto> m)\<rparr>"
  shows "op_send_msg c this s1 =
     Inr ((asked c t m s)\<lparr>msg_queues := (msg_queues s)((c - 1) * 2 := [my_msg t])\<rparr>, idle_thr s c)"
  using assms by (auto simp: asks_def op_send_msg_def worker_send_msg_def Let_def pick_next_def scheduler_block_def set_running_def asked_def)

lemma manager_takes:
  assumes "asks c this t p s"
  shows "manager_recv_msg ((asked c t m s)\<lparr>msg_queues := (msg_queues s)((c - 1) * 2 := [my_msg t])\<rparr>) =
     Some (asked c t m s, my_msg t)"
proof -
  let ?s = "(asked c t m s)\<lparr>msg_queues := (msg_queues s)((c - 1) * 2 := [my_msg t])\<rparr>"
  have a: "0 < c" "c \<le> num_worker_cores s" "\<forall>i. msg_queues s i = []" using assms by (simp_all add: asks_def)
  have "manager_poll (2 * 0) ?s = Some (?s\<lparr>msg_queues := (msg_queues ?s)(2 * (c - 1) := [])\<rparr>, my_msg t)"
    by (rule manager_poll_first) (use a in \<open>auto simp: asked_def mult.commute\<close>)
  moreover have "?s\<lparr>msg_queues := (msg_queues ?s)(2 * (c - 1) := [])\<rparr> = asked c t m s"
    using a(3) by (simp add: asked_def mult.commute fun_upd_idem)
  ultimately show ?thesis by (simp add: manager_recv_msg_def)
qed

lemma core_resumes:
  assumes "asks c this t p s" and "answers c this t r (asked c t m s) sD"
  shows "op_switch False c (- 1) (cur_running_thr sD c) sD =
     Inr (sD\<lparr>msg_queues := msg_queues s, cur_running_thr := (cur_running_thr s)(c := this)\<rparr>, this)"
proof -
  have a: "0 < c" "c \<le> num_worker_cores s" "\<forall>i. msg_queues s i = []" "this \<noteq> NULL" "my_msg t \<noteq> NULL"
    using assms(1) by (simp_all add: asks_def)
  have upd: "(msg_queues s)((c - 1) * 2 + 1 := []) = msg_queues s" using a(3) by (simp add: fun_upd_idem)
  show ?thesis using assms(2) a upd
    by (auto simp: answers_def asked_def op_switch_def scheduler_get_next_def get_thr_from_msg_queue_def worker_recv_msg_def Let_def
        set_running_def)
qed

text \<open>The state when the thread is back.\<close>

definition served :: "nat \<Rightarrow> u32 \<Rightarrow> tcb_t \<Rightarrow> pcb_t \<Rightarrow> kst \<Rightarrow> kst \<Rightarrow> kst" where
  "served c this t p s sD = sD\<lparr>msg_queues := msg_queues s, cur_running_thr := (cur_running_thr s)(c := this),
     kvm := (kvm s)\<lparr>cr3 := page_table_base p\<rparr>, esp0 := (esp0 s)(c := tcb_get_high_addr (k_stack_esp t - 1))\<rparr>"

lemma request_served:
  assumes a: "asks c this t p s" and m: "msgs s (my_msg t) = Some m" and m1: "m1 = f (m\<lparr>req_thr := this, req_cpu := int c\<rparr>)"
    and d: "manager_dispatch scan buf (my_msg t) (asked c t m1 s) = Inr sD" and r: "answers c this t r (asked c t m1 s) sD"
  shows "send_request (serve scan buf c) c this f s = Inr (served c this t p s sD, c, r)"
proof -
  let ?s1 = "s\<lparr>msgs := (msgs s)(my_msg t \<mapsto> m1)\<rparr>"
  let ?s2 = "(asked c t m1 s)\<lparr>msg_queues := (msg_queues s)((c - 1) * 2 := [my_msg t])\<rparr>"
  let ?s3 = "sD\<lparr>msg_queues := msg_queues s, cur_running_thr := (cur_running_thr s)(c := this)\<rparr>"
  have t: "tcbs s this = Some t" "this \<noteq> NULL" "idle_thr s c \<noteq> this" using a by (simp_all add: asks_def)
  have env: "serve scan buf c ?s2 = Inr (?s3, c)"
    using manager_takes [OF a, of m1] d core_resumes [OF a r] by (simp add: serve_def manager_round_def)
  have a3: "asks c this t p ?s3" using a r by (auto simp: asks_def answers_def asked_def)
  have k3: "kvm ?s3 = kvm s" "esp0 ?s3 = esp0 s" "msgs ?s3 (my_msg t) = Some r" "tcbs ?s3 this = Some t"
    using r t by (auto simp: answers_def asked_def)
  have bk: "after_switch OP_SEND_MSG c this ?s3 = Inr (served c this t p s sD)"
    using after_switch_quiet [OF a3] k3 by (simp add: served_def)
  have sw: "context_switch (serve scan buf c) c OP_SEND_MSG 0 this ?s1 = Inr (served c this t p s sD, c)"
    using t send_picks_idle [OF a refl, of m1] env bk k3
    by (simp add: context_switch_def context_switch_get_next_def come_back_def switched_in_def op_codes)
  show ?thesis using t m m1 sw k3 by (simp add: send_request_def served_def)
qed

section \<open>Texts in kernel memory\<close>

definition blit :: "u32 \<Rightarrow> u8 list \<Rightarrow> (u32 \<Rightarrow> u8) \<Rightarrow> u32 \<Rightarrow> u8" where
  "blit a b m = (\<lambda>x. if unat (x - a) < length b then b ! unat (x - a) else m x)"

lemma blit_Cons:
  assumes "length b < 2 ^ 32 - 1"
  shows "blit (a + 1) b (m(a := x)) = blit a (x # b) m"
proof
  fix y :: u32
  show "blit (a + 1) b (m(a := x)) y = blit a (x # b) m y"
  proof (cases "y = a")
    case True
    have "a - (a + 1) = (- 1 :: u32)" by simp
    then have "unat (y - (a + 1)) = 2 ^ 32 - 1" using True by (simp add: unsigned_minus_1_eq_mask mask_eq_exp_minus_1)
    then show ?thesis using True assms by (simp add: blit_def)
  next
    case False
    let ?d = "y - (a + 1)"
    have "y - a = ?d + 1" by simp
    moreover have "?d \<noteq> - 1" using False by (auto simp: algebra_simps)
    ultimately have "unat (y - a) = Suc (unat ?d)" by (metis add.commute unatSuc add.left_neutral add.right_inverse add_eq_0_iff2)
    then show ?thesis using False by (simp add: blit_def)
  qed
qed

lemma st_bytes_kernel:
  assumes "unat a + length b \<le> unat USER_MEM_START"
  shows "st_bytes a b s = Inr (s\<lparr>kmem := blit a b (kmem s)\<rparr>)"
  using assms
proof (induction b arbitrary: a s)
  case Nil
  have "blit a [] (kmem s) = kmem s" by (simp add: blit_def)
  then show ?case by simp
next
  case (Cons x b)
  have lim: "unat USER_MEM_START = 0x1000000" by (simp add: USER_MEM_START_def)
  then have k: "a < USER_MEM_START" "length b < 2 ^ 32 - 1" using Cons.prems by (simp_all add: word_less_nat_alt)
  have "unat (a + 1) = unat a + 1" using Cons.prems lim by (simp add: unat_word_ariths(1))
  then have u: "unat (a + 1) + length b \<le> unat USER_MEM_START" using Cons.prems by simp
  let ?s = "s\<lparr>kmem := (kmem s)(a := x)\<rparr>"
  have "st_bytes a (x # b) s = st_bytes (a + 1) b ?s" using k by (simp add: st8_def)
  also have "\<dots> = Inr (?s\<lparr>kmem := blit (a + 1) b (kmem ?s)\<rparr>)" by (rule Cons.IH [OF u])
  also have "blit (a + 1) b (kmem ?s) = blit a (x # b) (kmem s)" using blit_Cons [OF k(2), of a "kmem s" x] by simp
  finally show ?case by simp
qed

lemma kbytes_blit:
  assumes "length b < 2 ^ 32"
  shows "kbytes a (length b) (s\<lparr>kmem := blit a b m\<rparr>) = b"
proof (rule nth_equalityI)
  fix j assume "j < length (kbytes a (length b) (s\<lparr>kmem := blit a b m\<rparr>))"
  then have j: "j < length b" by (simp add: kbytes_def)
  then have "unat (word_of_nat j :: u32) = j" using assms by (intro unat_word_of_nat32) simp
  then show "kbytes a (length b) (s\<lparr>kmem := blit a b m\<rparr>) ! j = b ! j" using j by (simp add: kbytes_def blit_def)
qed (simp add: kbytes_def)

lemma ld_bytes_heap [simp]: "ld_bytes n a (s\<lparr>heap := h\<rparr>) = ld_bytes n a s"
proof -
  have "ld8 a (s\<lparr>heap := h\<rparr>) = ld8 a s" for a by (simp add: ld8_def)
  then show ?thesis by (induction n arbitrary: a) simp_all
qed

section \<open>\<open>print\<close>\<close>

lemma user_check_con:
  assumes "user_check c this va n is_null need_w s = Inr (s', rv)"
  shows "con s' = con s"
proof -
  have "make_all_runnable c ths u = Inr u' \<Longrightarrow> con u' = con u" for ths u u'
    by (induction ths arbitrary: u)
      (auto simp: kbind_eq_Inr op_make_runnable_def mod_tcb_def scheduler_make_runnable_def split: if_splits)
  from this show ?thesis using assms
    by (fastforce simp: user_check_def vm_call_def leave_vm_def kbind_eq_Inr mod_pcb_def mod_tcb_def)
qed

lemma print_served:
  assumes a: "asks c this t p s" and m: "msgs s (my_msg t) = Some m" and b: "kbytes kb (length b) s = b" "kb \<noteq> NULL"
    and cn: "putbytes (Some b) (int (length b)) (con s) = Inr cn"
  shows "\<exists>sD r. send_request (serve scan mb c) c this (\<lambda>m. m\<lparr>mtype := PRINT, d0 := int (length b), d1 := uint kb\<rparr>) s =
     Inr (served c this t p s sD, c, r) \<and> con sD = cn \<and> response_result r = 0"
proof -
  define m1 where "m1 = m\<lparr>req_thr := this, req_cpu := int c, mtype := PRINT, d0 := int (length b), d1 := uint kb\<rparr>"
  define r where "r = m1\<lparr>mtype := RESPONSE, d0 := 0\<rparr>"
  let ?M = "asked c t m1 s"
  define sD where "sD = ?M\<lparr>con := cn, msgs := (msgs ?M)(my_msg t \<mapsto> r), msg_queues := (msg_queues ?M)((c - 1) * 2 + 1 := [my_msg t])\<rparr>"
  have c: "0 < c" "c \<le> num_worker_cores s" "\<forall>i. msg_queues s i = []" using a by (simp_all add: asks_def)
  have q: "nat ((int c - 1) * 2 + 1) = (c - 1) * 2 + 1" using c(1) by (simp add: nat_add_distrib nat_mult_distrib of_nat_diff)
  have k: "kbytes kb (length b) ?M = b" using b(1) by (simp add: kbytes_def asked_def)
  have d: "manager_dispatch scan mb (my_msg t) ?M = Inr sD"
    using c q k cn b(2) by (simp add: manager_dispatch_def smp_syscall_print_def asked_def m1_def sD_def r_def)
  have "answers c this t r ?M sD" unfolding answers_def
    by (intro conjI exI [of _ cn] exI [of _ "kbd ?M"] exI [of _ "life ?M"] exI [of _ "freed ?M"]) (simp_all add: sD_def r_def m1_def)
  from request_served [OF a m _ d this] have "send_request (serve scan mb c) c this (\<lambda>m. m\<lparr>mtype := PRINT, d0 := int (length b), d1 := uint kb\<rparr>) s =
     Inr (served c this t p s sD, c, r)" by (simp add: m1_def)
  then show ?thesis by (intro exI [of _ sD] exI [of _ r]) (simp add: sD_def r_def)
qed

text \<open>C4: \<open>print\<close> from end to end. A user thread prints a readable buffer: after the check, the copy into kernel
  memory, the message to the manager core, its service and the answer, the call returns 0 to the thread on
  its core, and the console shows exactly what writing the buffer's bytes to it gives; the kernel buffer is
  released.\<close>

theorem print_reaches_console:
  assumes "user_check c this buf (int (length b)) False False s0 = Inr (s, 0)" and "ld_bytes (length b) buf s = Inr b"
    and "asks c this t p s" and "msgs s (my_msg t) = Some m" and "con_ok (con s)"
    and "heap s = kb # hs" and "kb \<noteq> NULL" and "unat kb + length b \<le> unat USER_MEM_START"
  shows "\<exists>s'. print_syscall_handler (serve scan mb c) c this (int (length b)) buf False s0 = Inr (s', c, 0) \<and>
     putbytes (Some b) (int (length b)) (con s0) = Inr (con s') \<and> con_ok (con s') \<and> kb \<in> set (freed s')"
proof -
  let ?s = "s\<lparr>heap := hs, kmem := blit kb b (kmem s)\<rparr>"
  obtain cn where cn: "put_each b (con s) = Inr cn" "con_ok cn" using put_each_ok [OF assms(5)] by blast
  have p: "putbytes (Some b) (int (length b)) (con s) = Inr cn" using cn by (simp add: putbytes_def)
  have len: "length b < 2 ^ 32" using assms(8) by (simp add: USER_MEM_START_def)
  have a: "asks c this t p ?s" using assms(3) by (simp add: asks_def)
  have kb: "kbytes kb (length b) ?s = b" using kbytes_blit [OF len] by simp
  obtain sD r where sD: "send_request (serve scan mb c) c this (\<lambda>m. m\<lparr>mtype := PRINT, d0 := int (length b), d1 := uint kb\<rparr>) ?s =
     Inr (served c this t p ?s sD, c, r)" "con sD = cn" "response_result r = 0"
    using print_served [OF a _ kb assms(7), of m cn scan mb] assms(4) p by auto
  have "print_syscall_handler (serve scan mb c) c this (int (length b)) buf False s0 = Inr (kfree kb (served c this t p ?s sD), c, 0)"
    using assms(1,2,6,7) sD(1,3) st_bytes_kernel [OF assms(8), of "s\<lparr>heap := hs\<rparr>"]
    by (simp add: print_syscall_handler_def print_from_def kmalloc_def)
  moreover have "con (kfree kb (served c this t p ?s sD)) = cn" "kb \<in> set (freed (kfree kb (served c this t p ?s sD)))"
    using sD(2) by (simp_all add: kfree_def served_def)
  ultimately show ?thesis using p cn(2) user_check_con [OF assms(1)] by auto
qed

text \<open>A thread on core 1 with the text \<open>hello\<close> at the start of user memory.\<close>

definition hello :: "u8 list" where "hello = [104, 101, 108, 108, 111]"

definition asker :: tcb_t where
  "asker = \<lparr>k_stack_esp = 0x201f00, tid = 5, pcb = 0x400000, result = 0, state = NORMAL, swexn_struct = NULL,
     my_msg = 0x300040, ori_cpu = 1\<rparr>"

definition asker_task :: pcb_t where
  "asker_task = \<lparr>pid = 5, page_table_base = 0x100000, ppid = 1, status = 0, cur_thr_num = 1, task_pt_locks = replicate 64 free_mutex\<rparr>"

definition print_example :: kst where
  "print_example = kst_example\<lparr>tcbs := [0x201fe0 \<mapsto> asker], pcbs := [0x400000 \<mapsto> asker_task], msgs := [0x300040 \<mapsto> raw_msg],
     idle_thr := (\<lambda>_. 0x203fe0), cur_running_thr := (\<lambda>_. 0x201fe0), con := con_example, heap := [0x600000],
     kvm := (kvm kst_example)\<lparr>
       tabs := [0x100000 \<mapsto> (\<lambda>i. if i = 4 then 0x101007 else 0), 0x101000 \<mapsto> (\<lambda>j. if j = 0 then 0x300007 else 0)],
       frames := (\<lambda>_ i. hello ! i)\<rparr>\<rparr>"

lemma print_example_check:
  "\<exists>s. user_check 1 0x201fe0 0x1000000 5 False False print_example = Inr (s, 0) \<and> asks 1 0x201fe0 asker asker_task s \<and>
     msgs s 0x300040 = Some raw_msg \<and> con s = con_example \<and> heap s = [0x600000] \<and> ld_bytes 5 0x1000000 s = Inr hello"
proof -
  have locks: "(replicate 64 free_mutex)[0 := free_mutex] = replicate 64 free_mutex" by (metis list_update_id length_replicate nth_replicate zero_less_numeral)
  define v where "v = (kvm print_example)\<lparr>vcpu := 1, pt_locks := replicate 64 free_mutex,
     thr := \<lparr>me = 0x201fe0, tids = tid_of print_example, my_state = NORMAL, made_runnable = []\<rparr>\<rparr>"
  define s where "s = print_example\<lparr>kvm := v\<rparr>"
  have "user_check 1 0x201fe0 0x1000000 5 False False print_example = Inr (s, 0)"
    by (simp add: user_check_def vm_call_def enter_vm_def leave_vm_def print_example_def kst_example_def check_mem_validness_def
      USER_MEM_START_def PAGE_ALIGN_MASK_def page_count_def GET_PD_INDEX_def GET_PT_INDEX_def NUM_PT_PER_LOCK_def PAGE_SIZE_def
      pt_lock_def pt_unlock_def rd_def NUM_ENTRIES_def IS_SET_def PG_P_def PG_RW_def tid_of_def Let_def s_def v_def asker_def
      asker_task_def locks fun_eq_iff)
  moreover have "asks 1 0x201fe0 asker asker_task s"
    by (simp add: asks_def s_def print_example_def kst_example_def asker_def)
  moreover have "ld_bytes 5 0x1000000 s = Inr hello"
  proof -
    have w: "walk 0x1000000 (kvm s) = Inr 0x300000"
      by (simp add: walk_def rd_def s_def v_def print_example_def kst_example_def GET_PD_INDEX_def GET_PT_INDEX_def NUM_ENTRIES_def
          IS_SET_def PG_P_def PAGE_ALIGN_MASK_def)
    have fr: "frames (kvm s) f k = hello ! k" for f k by (simp add: s_def v_def print_example_def)
    have n: "ld_bytes (numeral k) a s = kbind (ld8 a s) (\<lambda>b. kbind (ld_bytes (pred_numeral k) (a + 1) s) (\<lambda>bs. Inr (b # bs)))" for k a
      by (simp add: numeral_eq_Suc)
    show ?thesis by (simp add: n ld8_def read_byte_def w fr USER_MEM_START_def PAGE_ALIGN_MASK_def hello_def)
  qed
  ultimately show ?thesis by (intro exI [of _ s]) (simp add: s_def print_example_def)
qed

theorem print_reaches_console_witness:
  "\<exists>s'. print_syscall_handler (serve (\<lambda>q b. (q, 0)) 0 1) 1 0x201fe0 (int (length hello)) 0x1000000 False print_example = Inr (s', 1, 0) \<and>
     putbytes (Some hello) (int (length hello)) (con print_example) = Inr (con s') \<and> con_ok (con s') \<and> 0x600000 \<in> set (freed s')"
proof -
  have l: "length hello = 5" by (simp add: hello_def)
  from print_example_check obtain s where s: "user_check 1 0x201fe0 0x1000000 5 False False print_example = Inr (s, 0)"
    "asks 1 0x201fe0 asker asker_task s" "msgs s 0x300040 = Some raw_msg" "con s = con_example" "heap s = [0x600000]"
    "ld_bytes 5 0x1000000 s = Inr hello" by blast
  show ?thesis
    by (rule print_reaches_console [where s = s and t = asker and p = asker_task and m = raw_msg and hs = "[]"])
      (use s l con_example_ok in \<open>simp_all add: asker_def USER_MEM_START_def\<close>)
qed

section \<open>\<open>wait\<close>\<close>

text \<open>The task \<open>q\<close> has an unreaped child whose exit status is \<open>e\<close>.\<close>

definition has_zombie :: "int \<Rightarrow> u32 \<Rightarrow> pcb_vanish_wait_t \<Rightarrow> u32 list \<Rightarrow> exit_status_t \<Rightarrow> kst \<Rightarrow> bool" where
  "has_zombie i q v ns e s \<longleftrightarrow> get_task i s = Inr q \<and> q \<noteq> NULL \<and> tasks (life s) q = Some v \<and> num_zombie v \<noteq> 0 \<and>
     (\<exists>n es. child_exit_status_list v = n # ns \<and> es_nodes (life s) n = Some es \<and> exit_statuses (life s) es = Some e)"

lemma get_task_asked [simp]: "get_task i (asked c t m s) = get_task i s"
  by (simp add: get_task_def asked_def)

lemma wait_served:
  assumes a: "asks c this t p s" and m: "msgs s (my_msg t) = Some m" and z: "has_zombie (pid p) q v ns e s"
  shows "\<exists>sD r. send_request (serve scan mb c) c this (\<lambda>m. m\<lparr>mtype := WAIT, d0 := pid p\<rparr>) s =
     Inr (served c this t p s sD, c, r) \<and> wait_response_pid r = es_pid e \<and> wait_response_status r = es_status e \<and>
     tasks (life sD) q = Some (v\<lparr>num_zombie := num_zombie v - 1, child_exit_status_list := ns\<rparr>) \<and> kmem sD = kmem s"
proof -
  define m1 where "m1 = m\<lparr>req_thr := this, req_cpu := int c, mtype := WAIT, d0 := pid p\<rparr>"
  define r where "r = m1\<lparr>mtype := WAIT_RESPONSE, d1 := es_pid e, d0 := es_status e\<rparr>"
  let ?M = "asked c t m1 s"
  from z obtain n es where z': "get_task (pid p) s = Inr q" "q \<noteq> NULL" "tasks (life s) q = Some v" "num_zombie v \<noteq> 0"
    "child_exit_status_list v = n # ns" "es_nodes (life s) n = Some es" "exit_statuses (life s) es = Some e"
    by (auto simp: has_zombie_def)
  let ?v = "v\<lparr>num_zombie := num_zombie v - 1, child_exit_status_list := ns\<rparr>"
  define l where "l = (life s)\<lparr>tasks := (tasks (life s))(q \<mapsto> ?v), exit_statuses := (exit_statuses (life s))(es := None),
     es_nodes := (es_nodes (life s))(n := None)\<rparr>"
  define sD where "sD = ?M\<lparr>msgs := (msgs ?M)(my_msg t \<mapsto> r), life := l, freed := freed s @ [es] @ [n],
     msg_queues := (msg_queues ?M)((c - 1) * 2 + 1 := [my_msg t])\<rparr>"
  have c: "0 < c" "c \<le> num_worker_cores s" "\<forall>i. msg_queues s i = []" using a by (simp_all add: asks_def)
  have c': "nat ((int c - 1) * 2 + 1) = (c - 1) * 2 + 1" using c(1) by (simp add: nat_add_distrib nat_mult_distrib of_nat_diff)
  have d: "manager_dispatch scan mb (my_msg t) ?M = Inr sD"
  proof -
    have M: "msgs ?M (my_msg t) = Some m1" "tasks (life ?M) q = Some v" "es_nodes (life ?M) n = Some es" "life ?M = life s"
       "exit_statuses (life ?M) es = Some e" "num_worker_cores ?M = num_worker_cores s" "\<forall>i. msg_queues ?M i = []" "mtype m1 = WAIT"
       "wait_pid m1 = pid p" "req_cpu m1 = int c" "freed ?M = freed s"
      using z' c by (simp_all add: asked_def m1_def)
    show ?thesis using M z' c c'
      by (simp add: manager_dispatch_def smp_syscall_wait_def reap_child_def kderef_def Let_def sD_def r_def l_def set_life_def kfree_def)
  qed
  have "answers c this t r ?M sD" unfolding answers_def
    by (intro conjI exI [of _ "con ?M"] exI [of _ "kbd ?M"] exI [of _ l] exI [of _ "freed s @ [es] @ [n]"]) (simp_all add: sD_def r_def m1_def)
  from request_served [OF a m _ d this] have "send_request (serve scan mb c) c this (\<lambda>m. m\<lparr>mtype := WAIT, d0 := pid p\<rparr>) s =
     Inr (served c this t p s sD, c, r)" by (simp add: m1_def)
  moreover have "kmem sD = kmem s" by (simp add: sD_def asked_def)
  ultimately show ?thesis by (intro exI [of _ sD] exI [of _ r]) (simp add: sD_def r_def l_def)
qed

text \<open>C3: \<open>wait\<close> from end to end. When a task has an unreaped child, a call of \<open>wait\<close> with a valid address returns
  the child's pid to the thread that asked, the child's exit status is in memory at that address, and the
  child is no longer among the unreaped ones.\<close>

theorem wait_collects_status:
  assumes "user_check c this ptr 4 False True s0 = Inr (s, 0)" and "ptr \<noteq> NULL" and "mem_ok (word_at ptr) s"
    and "asks c this t p s" and "msgs s (my_msg t) = Some m" and "cr3 (kvm s) = page_table_base p"
    and "has_zombie (pid p) q v ns e s" and "0 < es_pid e"
  shows "\<exists>s'. wait_syscall_handler (serve scan mb c) c this ptr s0 = Inr (s', c, es_pid e) \<and>
     ld32 ptr s' = Inr (word_of_int (es_status e)) \<and>
     tasks (life s') q = Some (v\<lparr>num_zombie := num_zombie v - 1, child_exit_status_list := ns\<rparr>)"
proof -
  obtain sD r where sD: "send_request (serve scan mb c) c this (\<lambda>m. m\<lparr>mtype := WAIT, d0 := pid p\<rparr>) s = Inr (served c this t p s sD, c, r)"
    "wait_response_pid r = es_pid e" "wait_response_status r = es_status e"
    "tasks (life sD) q = Some (v\<lparr>num_zombie := num_zombie v - 1, child_exit_status_list := ns\<rparr>)" "kmem sD = kmem s"
    using wait_served [OF assms(4,5,7)] by blast
  let ?S = "served c this t p s sD"
  have k: "kvm ?S = kvm s" using assms(6) by (simp add: served_def)
  have ok: "mem_ok (word_at ptr) ?S" using assms(3) by (simp add: mem_ok_def place_def k)
  from st32_mem [OF ok order_refl, of "word_of_int (es_status e)"] obtain s' where s': "st32 ptr (word_of_int (es_status e)) ?S = Inr s'"
    "same_but_bytes ?S s'" "\<forall>x \<in> word_at ptr. mem s' x = wr32 ptr (word_of_int (es_status e)) (mem ?S) x" by blast
  have ok': "mem_ok (word_at ptr) s'" using ok mem_ok_same [OF s'(2)] by simp
  have "ld32 ptr s' = Inr (rd32 ptr (mem s'))" by (rule ld32_mem [OF ok' order_refl])
  also have "rd32 ptr (mem s') = rd32 ptr (wr32 ptr (word_of_int (es_status e)) (mem ?S))" using s'(3) by (intro rd32_word_cong) auto
  finally have ld: "ld32 ptr s' = Inr (word_of_int (es_status e))" by simp
  have "life s' = life sD" using s'(2) by (auto simp: same_but_bytes_def served_def)
  moreover have "wait_syscall_handler (serve scan mb c) c this ptr s0 = Inr (s', c, es_pid e)"
    using assms(1,2,4,8) sD(1,2,3) s'(1) by (simp add: wait_syscall_handler_def asks_def)
  ultimately show ?thesis using ld sD(4) by auto
qed

text \<open>The same thread, with a writable page and a child, pid 6, that has exited with status 42.\<close>

definition wait_example :: kst where
  "wait_example = print_example\<lparr>life := \<lparr>tasks = [0x20 \<mapsto> \<lparr>child_exit_status_list = [0x32], exit_status = 0x21,
       exit_status_node = 0x22, num_alive = 0, num_zombie = 1, wait_queue = []\<rparr>],
     exit_statuses = [0x31 \<mapsto> \<lparr>es_pid = 6, es_status = 42\<rparr>], es_nodes = [0x32 \<mapsto> 0x31],
     ht_pid_pcb = \<lparr>array = Some [[], [], [], [], [], [(5, 0x20)], []], ht_size = 7, func = (\<lambda>k. uint k mod 7)\<rparr>,
     mgr_init_task = 0x10, fork_next_core = 0\<rparr>\<rparr>"

lemma wait_example_check:
  "\<exists>s. user_check 1 0x201fe0 0x1000000 4 False True wait_example = Inr (s, 0) \<and> asks 1 0x201fe0 asker asker_task s \<and>
     msgs s 0x300040 = Some raw_msg \<and> cr3 (kvm s) = 0x100000 \<and> life s = life wait_example \<and> mem_ok (word_at 0x1000000) s"
proof -
  have locks: "(replicate 64 free_mutex)[0 := free_mutex] = replicate 64 free_mutex" by (metis list_update_id length_replicate nth_replicate zero_less_numeral)
  define v where "v = (kvm wait_example)\<lparr>vcpu := 1, pt_locks := replicate 64 free_mutex,
     thr := \<lparr>me = 0x201fe0, tids = tid_of print_example, my_state = NORMAL, made_runnable = []\<rparr>\<rparr>"
  define s where "s = wait_example\<lparr>kvm := v\<rparr>"
  have "user_check 1 0x201fe0 0x1000000 4 False True wait_example = Inr (s, 0)"
    by (simp add: user_check_def vm_call_def enter_vm_def leave_vm_def wait_example_def print_example_def kst_example_def check_mem_validness_def
      USER_MEM_START_def PAGE_ALIGN_MASK_def page_count_def GET_PD_INDEX_def GET_PT_INDEX_def NUM_PT_PER_LOCK_def PAGE_SIZE_def
      pt_lock_def pt_unlock_def rd_def NUM_ENTRIES_def IS_SET_def PG_P_def PG_RW_def tid_of_def Let_def s_def v_def asker_def
      asker_task_def locks fun_eq_iff)
  moreover have "asks 1 0x201fe0 asker asker_task s"
    by (simp add: asks_def s_def wait_example_def print_example_def kst_example_def asker_def)
  moreover have "mem_ok (word_at 0x1000000) s"
  proof -
    have w: "walk 0x1000000 (kvm s) = Inr 0x300000"
      by (simp add: walk_def rd_def s_def v_def wait_example_def print_example_def kst_example_def GET_PD_INDEX_def GET_PT_INDEX_def NUM_ENTRIES_def
          IS_SET_def PG_P_def PAGE_ALIGN_MASK_def)
    show ?thesis by (auto simp: mem_ok_def place_def w PAGE_ALIGN_MASK_def)
  qed
  ultimately show ?thesis by (intro exI [of _ s]) (simp add: s_def v_def wait_example_def print_example_def kst_example_def)
qed

theorem wait_collects_status_witness:
  "\<exists>s'. wait_syscall_handler (serve (\<lambda>q b. (q, 0)) 0 1) 1 0x201fe0 0x1000000 wait_example = Inr (s', 1, 6) \<and>
     ld32 0x1000000 s' = Inr 42 \<and> map_option num_zombie (tasks (life s') 0x20) = Some 0"
proof -
  from wait_example_check obtain s where s: "user_check 1 0x201fe0 0x1000000 4 False True wait_example = Inr (s, 0)"
    "asks 1 0x201fe0 asker asker_task s" "msgs s 0x300040 = Some raw_msg" "cr3 (kvm s) = 0x100000" "life s = life wait_example"
    "mem_ok (word_at 0x1000000) s" by blast
  let ?v = "\<lparr>child_exit_status_list = [0x32], exit_status = 0x21, exit_status_node = 0x22, num_alive = 0, num_zombie = 1, wait_queue = []\<rparr>"
  have z: "has_zombie (pid asker_task) 0x20 ?v [] \<lparr>es_pid = 6, es_status = 42\<rparr> s"
    by (simp add: has_zombie_def get_task_def hashtable_get_def bucket_def s(5) wait_example_def asker_task_def)
  have "\<exists>s'. wait_syscall_handler (serve (\<lambda>q b. (q, 0)) 0 1) 1 0x201fe0 0x1000000 wait_example = Inr (s', 1, es_pid \<lparr>es_pid = 6, es_status = 42\<rparr>) \<and>
     ld32 0x1000000 s' = Inr (word_of_int (es_status \<lparr>es_pid = 6, es_status = 42\<rparr>)) \<and>
     tasks (life s') 0x20 = Some (?v\<lparr>num_zombie := num_zombie ?v - 1, child_exit_status_list := []\<rparr>)"
    by (rule wait_collects_status [OF s(1) _ s(6,2) _ _ z]) (use s in \<open>simp_all add: asker_def asker_task_def\<close>)
  then show ?thesis by auto
qed

end
