(* ===== verification/Keyhelp.thy ===== *)
theory Keyhelp
  imports Keyboard
begin

text \<open>
  The scancode decoder (\<open>410kern/x86/keyhelp.c\<close>), the function that the keyboard driver and \<open>readline\<close> call for
  every byte of the keyboard: a state machine over the modifier keys and the sequences of several bytes. Its
  static variables \<open>key_state\<close>, \<open>key_internal_state\<close> and \<open>key_sequence\<close> are the state \<open>kh_state\<close> of \<open>Keyboard\<close>,
  where the decoder is the parameter \<open>scan\<close>; \<open>process_scancode\<close> is what it stands for.
\<close>

section \<open>The keys\<close>

definition KH_LSHIFT_KEY :: u16 where "KH_LSHIFT_KEY = 0x8000"
definition KH_RSHIFT_KEY :: u16 where "KH_RSHIFT_KEY = 0x4000"
definition KH_LCONTROL_KEY :: u16 where "KH_LCONTROL_KEY = 0x2000"
definition KH_RCONTROL_KEY :: u16 where "KH_RCONTROL_KEY = 0x1000"
definition KH_RALT_KEY :: u16 where "KH_RALT_KEY = 0x0400"
definition KH_CAPS_LOCK :: u16 where "KH_CAPS_LOCK = 0x0200"
definition KH_PRSCR_UP_SCAN :: u16 where "KH_PRSCR_UP_SCAN = 8"
definition KH_PRSCR_DOWN_SCAN :: u16 where "KH_PRSCR_DOWN_SCAN = 4"
definition KH_PAUSE_SCAN :: u16 where "KH_PAUSE_SCAN = 2"
definition KH_EXTENDED_SCAN :: u16 where "KH_EXTENDED_SCAN = 1"
definition KHE_UNDEFINED :: u8 where "KHE_UNDEFINED = 0x80"
definition KHE_PAUSE :: u8 where "KHE_PAUSE = 0x99"
definition KHE_PRINT_SCREEN :: u8 where "KHE_PRINT_SCREEN = 0x9A"
definition KH_NUMPAD_RES :: u32 where "KH_NUMPAD_RES = 0x20000"
definition KH_MAKE_RES :: u32 where "KH_MAKE_RES = 0x10000"
definition KH_HASDATA_RES :: u32 where "KH_HASDATA_RES = 0x40000"
definition KH_HASRAW_RES :: u32 where "KH_HASRAW_RES = 0x80000"

lemmas kh_consts = KH_LSHIFT_KEY_def KH_RSHIFT_KEY_def KH_LCONTROL_KEY_def KH_RCONTROL_KEY_def KH_RALT_KEY_def KH_CAPS_LOCK_def
  KH_PRSCR_UP_SCAN_def KH_PRSCR_DOWN_SCAN_def KH_PAUSE_SCAN_def KH_EXTENDED_SCAN_def KHE_UNDEFINED_def KHE_PAUSE_def
  KHE_PRINT_SCREEN_def KH_NUMPAD_RES_def KH_MAKE_RES_def KH_HASDATA_RES_def KH_HASRAW_RES_def

text \<open>What a case of the switch of \<open>process_simple_scan\<close> does: the same code always, the macros \<open>KHS_SHIFT\<close>,
  \<open>KHS_SHIFTCTL\<close> and \<open>KHS_SHIFTCAPSCTL\<close> with their characters (control, shifted, plain), a key of the number
  pad, a modifier that is on while it is pressed, a lock that is switched when it is pressed.\<close>

datatype key =
    Plain u8 | Pad u8 | Shift u8 u8 | ShiftCtl u8 u8 u8 | ShiftCapsCtl u8 u8 u8 | Modifier u8 u16 | Lock u8 u16

definition key_table :: "(u8 \<times> key) list" where
  "key_table =
    [(0x01, Plain 0x1B), (0x02, Shift 0x21 0x31), (0x03, ShiftCtl 0x00 0x40 0x32), (0x04, Shift 0x23 0x33),
     (0x05, Shift 0x24 0x34), (0x06, Shift 0x25 0x35), (0x07, ShiftCtl 0x1E 0x5E 0x36), (0x08, Shift 0x26 0x37),
     (0x09, Shift 0x2A 0x38), (0x0A, Shift 0x28 0x39), (0x0B, Shift 0x29 0x30), (0x0C, ShiftCtl 0x1F 0x5F 0x2D),
     (0x0D, Shift 0x2B 0x3D), (0x0E, Plain 0x08), (0x0F, Plain 0x09), (0x10, ShiftCapsCtl 0x11 0x51 0x71),
     (0x11, ShiftCapsCtl 0x17 0x57 0x77), (0x12, ShiftCapsCtl 0x05 0x45 0x65), (0x13, ShiftCapsCtl 0x12 0x52 0x72),
     (0x14, ShiftCapsCtl 0x14 0x54 0x74), (0x15, ShiftCapsCtl 0x19 0x59 0x79), (0x16, ShiftCapsCtl 0x15 0x55 0x75),
     (0x17, ShiftCapsCtl 0x09 0x49 0x69), (0x18, ShiftCapsCtl 0x0F 0x4F 0x6F), (0x19, ShiftCapsCtl 0x10 0x50 0x70),
     (0x1A, ShiftCapsCtl 0x1B 0x7B 0x5B), (0x1B, ShiftCapsCtl 0x1D 0x7D 0x5D), (0x1C, Plain 0x0A),
     (0x1D, Modifier 0x87 0x2000), (0x1E, ShiftCapsCtl 0x01 0x41 0x61), (0x1F, ShiftCapsCtl 0x13 0x53 0x73),
     (0x20, ShiftCapsCtl 0x04 0x44 0x64), (0x21, ShiftCapsCtl 0x06 0x46 0x66), (0x22, ShiftCapsCtl 0x07 0x47 0x67),
     (0x23, ShiftCapsCtl 0x08 0x48 0x68), (0x24, ShiftCapsCtl 0x0A 0x4A 0x6A), (0x25, ShiftCapsCtl 0x0B 0x4B 0x6B),
     (0x26, ShiftCapsCtl 0x0C 0x4C 0x6C), (0x27, Shift 0x3A 0x3B), (0x28, Shift 0x22 0x27), (0x29, Shift 0x7E 0x60),
     (0x2A, Modifier 0x89 0x8000), (0x2B, ShiftCtl 0x1C 0x7C 0x5C), (0x2C, ShiftCapsCtl 0x1A 0x5A 0x7A),
     (0x2D, ShiftCapsCtl 0x18 0x58 0x78), (0x2E, ShiftCapsCtl 0x03 0x43 0x63), (0x2F, ShiftCapsCtl 0x16 0x56 0x76),
     (0x30, ShiftCapsCtl 0x02 0x42 0x62), (0x31, ShiftCapsCtl 0x0E 0x4E 0x6E), (0x32, ShiftCapsCtl 0x0D 0x4D 0x6D),
     (0x33, Shift 0x3C 0x2C), (0x34, Shift 0x3E 0x2E), (0x35, Shift 0x3F 0x2F), (0x36, Modifier 0x8A 0x4000),
     (0x37, Pad 0x2A), (0x38, Modifier 0x85 0x0800), (0x39, Plain 0x20), (0x3A, Lock 0x8B 0x0200), (0x3B, Plain 0x8D),
     (0x3C, Plain 0x8E), (0x3D, Plain 0x8F), (0x3E, Plain 0x90), (0x3F, Plain 0x91), (0x40, Plain 0x92), (0x41, Plain 0x93),
     (0x42, Plain 0x94), (0x43, Plain 0x95), (0x44, Plain 0x96), (0x45, Lock 0x8C 0x0100), (0x47, Pad 0x37),
     (0x48, Pad 0x38), (0x49, Pad 0x39), (0x4A, Pad 0x2D), (0x4B, Pad 0x34), (0x4C, Pad 0x35), (0x4D, Pad 0x36),
     (0x4E, Pad 0x2B), (0x4F, Pad 0x31), (0x50, Pad 0x32), (0x51, Pad 0x33), (0x52, Pad 0x30), (0x53, Pad 0x2E),
     (0x57, Plain 0x97), (0x58, Plain 0x98)]"

definition KHS_SHIFT_CORE :: "u16 \<Rightarrow> bool" where "KHS_SHIFT_CORE ks \<longleftrightarrow> ks AND (KH_LSHIFT_KEY OR KH_RSHIFT_KEY) \<noteq> 0"
definition KHS_CTL_CORE :: "u16 \<Rightarrow> bool" where "KHS_CTL_CORE ks \<longleftrightarrow> ks AND (KH_LCONTROL_KEY OR KH_RCONTROL_KEY) \<noteq> 0"
definition KHS_CAPS :: "u16 \<Rightarrow> bool" where "KHS_CAPS ks \<longleftrightarrow> ks AND KH_CAPS_LOCK \<noteq> 0"

text \<open>The codes \<open>code\<close> and \<open>rcode\<close>, the bits in \<open>res\<close> and the new \<open>key_state\<close>.\<close>

fun press :: "bool \<Rightarrow> u16 \<Rightarrow> key \<Rightarrow> u8 \<times> u8 \<times> u32 \<times> u16" where
  "press pressed ks (Plain c) = (c, c, 0, ks)"
| "press pressed ks (Pad c) = (c, c, KH_NUMPAD_RES, ks)"
| "press pressed ks (Shift s u) = (if KHS_SHIFT_CORE ks then s else u, u, 0, ks)"
| "press pressed ks (ShiftCtl cc s u) = (if KHS_CTL_CORE ks then cc else if KHS_SHIFT_CORE ks then s else u, u, 0, ks)"
| "press pressed ks (ShiftCapsCtl cc s u) =
     (if KHS_CTL_CORE ks then cc
      else if (KHS_SHIFT_CORE ks \<or> KHS_CAPS ks) \<and> \<not> (KHS_SHIFT_CORE ks \<and> KHS_CAPS ks) then s else u, u, 0, ks)"
| "press pressed ks (Modifier r b) = (KHE_UNDEFINED, r, 0, if pressed then ks OR b else ks AND NOT b)"
| "press pressed ks (Lock r b) =
     (KHE_UNDEFINED, r, 0, if pressed then (if ks AND b \<noteq> 0 then ks AND NOT b else ks OR b) else ks)"

text \<open>The end of \<open>process_simple_scan\<close> and of \<open>process_extended_scan\<close>.\<close>

definition compose_result :: "u8 \<Rightarrow> u8 \<Rightarrow> u32 \<Rightarrow> u32" where
  "compose_result code rcode res =
     (if rcode \<noteq> KHE_UNDEFINED \<and> code \<noteq> KHE_UNDEFINED then res OR KH_HASDATA_RES OR ucast code else res) OR
     push_bit 8 (ucast rcode) OR KH_HASRAW_RES"

section \<open>The state machine\<close>

text \<open>A byte that belongs to the sequence of the pause key (\<open>E1 1D 45 E1 9D C5\<close>) at its stage \<open>n\<close> is swallowed,
  at another place it ends the sequence.\<close>

definition pause_stage :: "u32 \<Rightarrow> kh_state \<Rightarrow> kh_state \<times> bool" where
  "pause_stage n = (\<lambda>(ks, ki, q).
     if ki AND KH_PAUSE_SCAN \<noteq> 0 \<and> q = n then ((ks, ki, q + 1), True) else ((ks, ki AND NOT KH_PAUSE_SCAN, 0), False))"

definition simple_key :: "bool \<Rightarrow> u8 \<Rightarrow> kh_state \<Rightarrow> kh_state \<times> u32" where
  "simple_key pressed c = (\<lambda>(ks, ki, q).
     case map_of key_table c of
       None \<Rightarrow> ((ks, ki, q), compose_result KHE_UNDEFINED KHE_UNDEFINED 0)
     | Some a \<Rightarrow> (case press pressed ks a of (code, rcode, res, ks') \<Rightarrow> ((ks', ki, q), compose_result code rcode res)))"

definition process_simple_scan :: "u8 \<Rightarrow> bool \<Rightarrow> kh_state \<Rightarrow> kh_state \<times> u32" where
  "process_simple_scan scancode pressed k =
     (let c = scancode AND 0x7F in
      if c = 0x1D \<or> c = 0x45 then
        (case pause_stage (if c = 0x1D then 0 else 1) k of (k, swallowed) \<Rightarrow>
         if swallowed then (k, 0) else simple_key pressed c k)
      else if c = 0x61 then
        (case k of (ks, ki, q) \<Rightarrow>
         if ki AND KH_PAUSE_SCAN = 0 then ((ks, ki OR KH_PAUSE_SCAN, 0), 0)
         else case pause_stage 2 k of (k, swallowed) \<Rightarrow> if swallowed then (k, 0) else simple_key pressed c k)
      else simple_key pressed c k)"

text \<open>The codes of the switch of \<open>process_extended_scan\<close> that neither return nor belong to the print-screen key.\<close>

definition extended_table :: "(u8 \<times> key) list" where
  "extended_table = [(0x1C, Pad 0x0A), (0x1D, Modifier 0x88 0x1000), (0x35, Pad 0x2F), (0x38, Modifier 0x86 0x0400), (0x48, Plain 0x81),
     (0x4B, Plain 0x82), (0x4D, Plain 0x84), (0x50, Plain 0x83), (0x53, Plain 0x7F)]"

definition process_extended_scan :: "u8 \<Rightarrow> bool \<Rightarrow> kh_state \<Rightarrow> kh_state \<times> u32" where
  "process_extended_scan keypress pressed = (\<lambda>(ks, ki, q).
     let c = keypress AND 0x7F in
     if c = 0x2A then
       (if ki AND KH_PRSCR_UP_SCAN \<noteq> 0
        then ((ks, ki AND NOT KH_PRSCR_UP_SCAN AND NOT KH_EXTENDED_SCAN, q), compose_result KHE_PRINT_SCREEN KHE_PRINT_SCREEN 0)
        else ((ks, (ki OR KH_PRSCR_DOWN_SCAN) AND NOT KH_EXTENDED_SCAN, q), 0))
     else if c = 0x37 then
       (if ki AND KH_PRSCR_DOWN_SCAN \<noteq> 0
        then ((ks, ki AND NOT KH_PRSCR_DOWN_SCAN AND NOT KH_EXTENDED_SCAN, q), compose_result KHE_PRINT_SCREEN KHE_PRINT_SCREEN 0)
        else ((ks, (ki OR KH_PRSCR_UP_SCAN) AND NOT KH_EXTENDED_SCAN, q), 0))
     else case map_of extended_table c of
       None \<Rightarrow> ((ks, ki AND NOT KH_EXTENDED_SCAN, q), compose_result KHE_UNDEFINED KHE_UNDEFINED 0)
     | Some a \<Rightarrow> (case press pressed ks a of (code, rcode, res, ks') \<Rightarrow>
         ((ks', ki AND NOT KH_EXTENDED_SCAN, q), compose_result code rcode res)))"

text \<open>The end of \<open>process_scancode\<close>.\<close>

definition add_state :: "bool \<Rightarrow> kh_state \<times> u32 \<Rightarrow> kh_state \<times> u32" where
  "add_state pressed = (\<lambda>((ks, ki, q), res).
     ((ks, ki, q), (if pressed then res OR KH_MAKE_RES else res) OR push_bit 16 (ucast (ks AND 0xFF00))))"

definition default_scan :: "u8 \<Rightarrow> bool \<Rightarrow> kh_state \<Rightarrow> kh_state \<times> u32" where
  "default_scan keycode pressed = (\<lambda>(ks, ki, q).
     add_state pressed (process_simple_scan keycode pressed (ks, ki AND NOT (KH_PRSCR_UP_SCAN OR KH_PRSCR_DOWN_SCAN), q)))"

definition process_scancode :: scanner where
  "process_scancode k keypress =
     (let pressed = (keypress AND 0x80 = 0); keycode = keypress AND 0x7F in
      case k of (ks, ki, q) \<Rightarrow>
      if ki AND KH_EXTENDED_SCAN \<noteq> 0 then add_state pressed (process_extended_scan keycode pressed k)
      else if keypress = 0x9D then
        (case pause_stage 3 k of (k, swallowed) \<Rightarrow> if swallowed then (k, 0) else default_scan keycode pressed k)
      else if keypress = 0xC5 then
        (if ki AND KH_PAUSE_SCAN \<noteq> 0 \<and> q = 4
         then add_state pressed ((ks, ki AND NOT KH_PAUSE_SCAN, q),
                ucast KHE_PAUSE OR push_bit 8 (ucast KHE_PAUSE) OR KH_HASDATA_RES)
         else default_scan keycode pressed (ks, ki AND NOT KH_PAUSE_SCAN, 0))
      else if keypress = 0xE0 then ((ks, ki OR KH_EXTENDED_SCAN, q), push_bit 16 (ucast ks))
      else default_scan keycode pressed k)"

section \<open>Single keys\<close>

definition has_char :: "u32 \<Rightarrow> bool" where "has_char w \<longleftrightarrow> KH_HASDATA w \<and> KH_ISMAKE w"

text \<open>Keys whose bytes are not part of a sequence.\<close>

definition single :: "u8 \<Rightarrow> bool" where
  "single sc \<longleftrightarrow> sc AND 0x7F = sc \<and> sc \<notin> {0x1D, 0x45, 0x60, 0x61}"

lemma and_pow2: "w AND 2 ^ n \<noteq> 0 \<longleftrightarrow> bit w n" for w :: "'a::len word"
  by (metis and_exp_eq_0_iff_not_bit)

lemma has_data_bit: "KH_HASDATA w \<longleftrightarrow> bit w 18"
  using and_pow2 [of "drop_bit 16 w" 2] by (simp add: KH_HASDATA_def bit_drop_bit_eq)

lemma is_make_bit: "KH_ISMAKE w \<longleftrightarrow> bit w 16"
  using and_pow2 [of "drop_bit 16 w" 0] by (simp add: KH_ISMAKE_def bit_drop_bit_eq)

lemma numeral_bits:
  "bit (0x40000 :: u32) n \<longleftrightarrow> n = 18" "bit (0x10000 :: u32) n \<longleftrightarrow> n = 16" "bit (0x80000 :: u32) n \<longleftrightarrow> n = 19" "bit (0x20000 :: u32) n \<longleftrightarrow> n = 17"
proof -
  have "(0x40000 :: u32) = 2 ^ 18" "(0x10000 :: u32) = 2 ^ 16" "(0x80000 :: u32) = 2 ^ 19" "(0x20000 :: u32) = 2 ^ 17" by simp_all
  then show "bit (0x40000 :: u32) n \<longleftrightarrow> n = 18" "bit (0x10000 :: u32) n \<longleftrightarrow> n = 16" "bit (0x80000 :: u32) n \<longleftrightarrow> n = 19" "bit (0x20000 :: u32) n \<longleftrightarrow> n = 17"
    by (auto simp only: bit_exp_iff) auto
qed

definition result_word :: "bool \<Rightarrow> u16 \<Rightarrow> u8 \<Rightarrow> u8 \<Rightarrow> u32 \<Rightarrow> u32" where
  "result_word pressed ks code rcode res =
     (if pressed then compose_result code rcode res OR KH_MAKE_RES else compose_result code rcode res) OR push_bit 16 (ucast (ks AND 0xFF00))"

lemma high_byte_bit: "bit (ks AND 0xFF00 :: u16) n \<longleftrightarrow> bit ks n \<and> 8 \<le> n \<and> n < 16"
proof -
  have "(0xFF00 :: u16) = push_bit 8 (mask 8)" by (simp add: push_bit_eq_mult mask_eq_exp_minus_1)
  then show ?thesis unfolding bit_and_iff by (simp only: bit_push_bit_iff bit_mask_iff) auto
qed

lemma byte_bit: "bit (b :: u8) n \<Longrightarrow> n < 8"
  using bit_imp_le_length by fastforce

lemma result_word_flags:
  assumes "res \<in> {0, KH_NUMPAD_RES}"
  shows "KH_ISMAKE (result_word pressed ks code rcode res) = pressed"
    and "KH_HASDATA (result_word pressed ks code rcode res) \<longleftrightarrow> rcode \<noteq> KHE_UNDEFINED \<and> code \<noteq> KHE_UNDEFINED"
  using assms
  by (auto simp: is_make_bit has_data_bit result_word_def compose_result_def kh_consts bit_or_iff numeral_bits bit_push_bit_iff bit_ucast_iff high_byte_bit dest: byte_bit)

lemma result_word_char:
  assumes "res \<in> {0, KH_NUMPAD_RES}" and "rcode \<noteq> KHE_UNDEFINED" and "code \<noteq> KHE_UNDEFINED"
  shows "KH_GETCHAR (result_word pressed ks code rcode res) = ucast code"
proof (rule bit_word_eqI)
  fix n :: nat assume "n < LENGTH(32)"
  have m: "(0xFF :: u32) = mask 8" by (simp add: mask_eq_exp_minus_1)
  have "n < 8 \<Longrightarrow> bit (result_word pressed ks code rcode res) n = bit code n"
    using assms by (auto simp: result_word_def compose_result_def bit_or_iff kh_consts numeral_bits bit_push_bit_iff bit_ucast_iff high_byte_bit
      simp del: bit_numeral_word_iff)
  then show "bit (KH_GETCHAR (result_word pressed ks code rcode res)) n = bit (ucast code :: u32) n"
    unfolding KH_GETCHAR_def m by (auto simp: bit_and_iff bit_mask_iff bit_ucast_iff dest: byte_bit)
qed

text \<open>Pressing and releasing a single key outside of every sequence.\<close>

lemma single_pressed:
  assumes "single sc" and "map_of key_table sc = Some a" and "press True ks a = (code, rcode, res, ks')"
  shows "process_scancode (ks, 0, q) sc = ((ks', 0, q), result_word True ks' code rcode res)"
proof -
  have sc: "sc AND 0x7F = sc" using assms(1) by (simp add: single_def)
  have "sc AND 0x80 = (sc AND 0x7F) AND 0x80" using sc by simp
  also have "\<dots> = 0" by (simp add: and.assoc)
  finally have "sc AND 0x80 = 0" .
  moreover have "sc \<noteq> 0x9D" "sc \<noteq> 0xC5" "sc \<noteq> 0xE0" using sc by auto
  ultimately show ?thesis using assms
    by (simp add: process_scancode_def Let_def default_scan_def process_simple_scan_def simple_key_def add_state_def result_word_def single_def)
qed

lemma single_released:
  assumes "single sc" and "map_of key_table sc = Some a" and "press False ks a = (code, rcode, res, ks')"
  shows "process_scancode (ks, 0, q) (sc OR 0x80) = ((ks', 0, q), result_word False ks' code rcode res)"
proof -
  have sc: "sc AND 0x7F = sc" using assms(1) by (simp add: single_def)
  have r: "(sc OR 0x80) AND 0x80 = 0x80" "(sc OR 0x80) AND 0x7F = sc" using sc by (simp_all add: bit.conj_disj_distrib2)
  moreover have "sc OR 0x80 \<noteq> 0x9D" "sc OR 0x80 \<noteq> 0xC5" "sc OR 0x80 \<noteq> 0xE0" using r(2) assms(1) by (auto simp: single_def)
  ultimately show ?thesis using assms sc
    by (simp add: process_scancode_def Let_def default_scan_def process_simple_scan_def simple_key_def add_state_def result_word_def single_def)
qed

section \<open>Typing\<close>

fun plain_char :: "key \<Rightarrow> u8 option" where
  "plain_char (Plain c) = Some c"
| "plain_char (Shift s u) = Some u"
| "plain_char (ShiftCtl cc s u) = Some u"
| "plain_char (ShiftCapsCtl cc s u) = Some u"
| "plain_char _ = None"

fun shifted_char :: "key \<Rightarrow> u8 option" where
  "shifted_char (Shift s u) = Some s"
| "shifted_char (ShiftCtl cc s u) = Some s"
| "shifted_char (ShiftCapsCtl cc s u) = Some s"
| "shifted_char _ = None"

text \<open>The keyboard, apart from the decoder: the rows of a PC keyboard with the US layout, each with the first of its scancodes (set 1),
  which are consecutive in a row, its characters and its characters with the shift key; and the keys for escape, backspace, tab,
  newline and space.\<close>

definition us_rows :: "(nat \<times> string \<times> string) list" where
  "us_rows =
    [(0x02, ''1234567890-='', ''!@#$%^&*()_+''),
     (0x10, ''qwertyuiop[]'', ''QWERTYUIOP{}''),
     (0x1E, ''asdfghjkl;'' @ [CHR 0x27, CHR 0x60], ''ASDFGHJKL:'' @ [CHR 0x22, CHR 0x7E]),
     (0x2B, CHR 0x5C # ''zxcvbnm,./'', ''|ZXCVBNM<>?'')]"

definition row_keys :: "nat \<Rightarrow> string \<Rightarrow> (u8 \<times> u8) list" where
  "row_keys first chars = zip (map of_char chars) (map word_of_nat [first ..< first + length chars])"

definition us_plain :: "(u8 \<times> u8) list" where
  "us_plain = [(0x1B, 0x01), (0x08, 0x0E), (0x09, 0x0F), (0x0A, 0x1C), (0x20, 0x39)] @
     concat (map (\<lambda>(first, plain, shifted). row_keys first plain) us_rows)"

definition us_shifted :: "(u8 \<times> u8) list" where
  "us_shifted = concat (map (\<lambda>(first, plain, shifted). row_keys first shifted) us_rows)"

text \<open>The scancode of the key of a character, and whether it needs the shift key; the bytes the keyboard sends for it.\<close>

definition keystroke :: "u8 \<Rightarrow> (u8 \<times> bool) option" where
  "keystroke ch =
     (case map_of us_plain ch of Some sc \<Rightarrow> Some (sc, False)
      | None \<Rightarrow> (case map_of us_shifted ch of Some sc \<Rightarrow> Some (sc, True) | None \<Rightarrow> None))"

definition strokes :: "u8 \<Rightarrow> u8 list" where
  "strokes ch =
     (case keystroke ch of None \<Rightarrow> []
      | Some (sc, False) \<Rightarrow> [sc, sc OR 0x80]
      | Some (sc, True) \<Rightarrow> [0x2A, sc, sc OR 0x80, 0x2A OR 0x80])"

definition typeable :: "u8 \<Rightarrow> bool" where
  "typeable ch \<longleftrightarrow> keystroke ch \<noteq> None"

text \<open>All characters that a sequence of scancodes gives.\<close>

primrec decode_all :: "scanner \<Rightarrow> kh_state \<Rightarrow> u8 list \<Rightarrow> kh_state \<times> u8 list" where
  "decode_all scan k [] = (k, [])"
| "decode_all scan k (c # cs) =
     (case scan k c of (k', w) \<Rightarrow>
      case decode_all scan k' cs of (k'', chs) \<Rightarrow> (k'', if has_char w then ucast (KH_GETCHAR w) # chs else chs))"

lemma decode_all_append:
  "decode_all scan k (cs @ ds) =
     (case decode_all scan k cs of (k', as) \<Rightarrow> case decode_all scan k' ds of (k'', bs) \<Rightarrow> (k'', as @ bs))"
  by (induction cs arbitrary: k) (auto split: prod.splits)

text \<open>The keys of characters are single, and no character is the undefined code.\<close>

lemma key_table_distinct: "distinct (map fst key_table)"
  by (simp add: key_table_def)

lemma key_table_single: "\<forall>(sc, a) \<in> set key_table. plain_char a \<noteq> None \<longrightarrow> single sc"
  by (simp add: key_table_def single_def)

lemma key_table_defined: "\<forall>(sc, a) \<in> set key_table. plain_char a \<noteq> Some KHE_UNDEFINED \<and> shifted_char a \<noteq> Some KHE_UNDEFINED"
  by (simp add: key_table_def KHE_UNDEFINED_def)

lemma shifted_plain: "shifted_char a \<noteq> None \<Longrightarrow> plain_char a \<noteq> None"
  by (cases a) auto

lemma entry_facts:
  assumes "(sc, a) \<in> set key_table" and "plain_char a \<noteq> None"
  shows "single sc" "map_of key_table sc = Some a" "plain_char a \<noteq> Some KHE_UNDEFINED" "shifted_char a \<noteq> Some KHE_UNDEFINED"
  using assms key_table_single key_table_defined key_table_distinct by (auto dest: map_of_is_SomeI)

definition no_modifiers :: "u16 \<Rightarrow> bool" where
  "no_modifiers ks \<longleftrightarrow> \<not> KHS_SHIFT_CORE ks \<and> \<not> KHS_CTL_CORE ks \<and> \<not> KHS_CAPS ks"

lemma press_plain:
  assumes "plain_char a = Some ch" and "no_modifiers ks"
  shows "press p ks a = (ch, ch, 0, ks)"
  using assms by (cases a) (auto simp: no_modifiers_def)

lemma press_shifted:
  assumes "shifted_char a = Some ch" and "plain_char a = Some u" and "KHS_SHIFT_CORE ks" "\<not> KHS_CTL_CORE ks" "\<not> KHS_CAPS ks"
  shows "press p ks a = (ch, u, 0, ks)"
  using assms by (cases a) auto

lemma clear_absent: "w AND b = 0 \<Longrightarrow> w AND NOT b = w" for w :: "'a::len word"
  by (auto simp: bit_eq_iff bit_and_iff bit_not_iff)

lemma shift_on:
  assumes "no_modifiers ks"
  shows "KHS_SHIFT_CORE (ks OR KH_LSHIFT_KEY)" "\<not> KHS_CTL_CORE (ks OR KH_LSHIFT_KEY)" "\<not> KHS_CAPS (ks OR KH_LSHIFT_KEY)"
    "(ks OR KH_LSHIFT_KEY) AND NOT KH_LSHIFT_KEY = ks"
proof -
  have s: "ks AND 0xC000 = 0" "ks AND 0x3000 = 0" "ks AND 0x200 = 0"
    using assms by (simp_all add: no_modifiers_def KHS_SHIFT_CORE_def KHS_CTL_CORE_def KHS_CAPS_def kh_consts)
  show "KHS_SHIFT_CORE (ks OR KH_LSHIFT_KEY)" "\<not> KHS_CTL_CORE (ks OR KH_LSHIFT_KEY)" "\<not> KHS_CAPS (ks OR KH_LSHIFT_KEY)"
    using s by (simp_all add: KHS_SHIFT_CORE_def KHS_CTL_CORE_def KHS_CAPS_def kh_consts bit.conj_disj_distrib2)
  have "ks AND 0x8000 = (ks AND 0xC000) AND 0x8000" by (simp add: and.assoc)
  with s have "ks AND 0x8000 = 0" by simp
  then have "ks AND NOT 0x8000 = ks" by (rule clear_absent)
  then show "(ks OR KH_LSHIFT_KEY) AND NOT KH_LSHIFT_KEY = ks" by (simp add: kh_consts bit.conj_disj_distrib2)
qed

lemma ucast_byte: "ucast (ucast ch :: u32) = (ch :: u8)"
  by (rule bit_word_eqI) (simp add: bit_ucast_iff)

text \<open>The decoder's table has the layout of the keyboard.\<close>

lemma layout_plain: "\<forall>(ch, sc) \<in> set us_plain. \<exists>a. (sc, a) \<in> set key_table \<and> plain_char a = Some ch"
proof -
  have "list_all (\<lambda>(ch, sc). list_ex (\<lambda>(c, a). c = sc \<and> plain_char a = Some ch) key_table) us_plain" by code_simp
  then show ?thesis unfolding list_all_iff list_ex_iff by fast
qed

lemma layout_shifted: "\<forall>(ch, sc) \<in> set us_shifted. \<exists>a. (sc, a) \<in> set key_table \<and> shifted_char a = Some ch"
proof -
  have "list_all (\<lambda>(ch, sc). list_ex (\<lambda>(c, a). c = sc \<and> shifted_char a = Some ch) key_table) us_shifted" by code_simp
  then show ?thesis unfolding list_all_iff list_ex_iff by fast
qed

lemma single_decoded:
  assumes "single sc" and "map_of key_table sc = Some a" and p: "\<And>b. press b ks a = (ch, u, 0, ks)" and "ch \<noteq> KHE_UNDEFINED" "u \<noteq> KHE_UNDEFINED"
  shows "decode_all process_scancode (ks, 0, q) [sc, sc OR 0x80] = ((ks, 0, q), [ch])"
proof -
  have "has_char (result_word True ks ch u 0)" "\<not> has_char (result_word False ks ch u 0)"
    "KH_GETCHAR (result_word True ks ch u 0) = ucast ch"
    using assms(4,5) by (simp_all add: has_char_def result_word_flags result_word_char)
  then show ?thesis
    using single_pressed [OF assms(1,2) p] single_released [OF assms(1,2) p] by (simp add: ucast_byte)
qed

lemma shift_decoded:
  assumes "no_modifiers ks"
  shows "process_scancode (ks, 0, q) 0x2A = ((ks OR KH_LSHIFT_KEY, 0, q), result_word True (ks OR KH_LSHIFT_KEY) KHE_UNDEFINED 0x89 0)"
    and "process_scancode (ks OR KH_LSHIFT_KEY, 0, q) (0x2A OR 0x80) = ((ks, 0, q), result_word False ks KHE_UNDEFINED 0x89 0)"
proof -
  have k: "single 0x2A" "map_of key_table 0x2A = Some (Modifier 0x89 0x8000)" by (simp_all add: single_def key_table_def)
  from single_pressed [OF k, of ks] show
    "process_scancode (ks, 0, q) 0x2A = ((ks OR KH_LSHIFT_KEY, 0, q), result_word True (ks OR KH_LSHIFT_KEY) KHE_UNDEFINED 0x89 0)"
    by (simp add: KH_LSHIFT_KEY_def)
  from single_released [OF k, of "ks OR KH_LSHIFT_KEY"] shift_on(4) [OF assms] show
    "process_scancode (ks OR KH_LSHIFT_KEY, 0, q) (0x2A OR 0x80) = ((ks, 0, q), result_word False ks KHE_UNDEFINED 0x89 0)"
    by (simp add: KH_LSHIFT_KEY_def)
qed

lemma strokes_decoded:
  assumes "typeable ch" and m: "no_modifiers ks"
  shows "decode_all process_scancode (ks, 0, q) (strokes ch) = ((ks, 0, q), [ch])"
proof -
  from assms(1) obtain sc b where k: "keystroke ch = Some (sc, b)" by (auto simp: typeable_def)
  show ?thesis
  proof (cases b)
    case False
    with k have "(ch, sc) \<in> set us_plain" by (auto simp: keystroke_def dest: map_of_SomeD split: option.splits)
    then obtain a where a: "(sc, a) \<in> set key_table" "plain_char a = Some ch" using layout_plain by blast
    note e = entry_facts [OF a(1)]
    have "decode_all process_scancode (ks, 0, q) [sc, sc OR 0x80] = ((ks, 0, q), [ch])"
      using a(2) e press_plain [OF a(2) m] by (intro single_decoded) auto
    then show ?thesis using k False by (simp add: strokes_def del: decode_all.simps)
  next
    case True
    with k have "(ch, sc) \<in> set us_shifted" by (auto simp: keystroke_def dest: map_of_SomeD split: option.splits)
    then obtain a where a: "(sc, a) \<in> set key_table" "shifted_char a = Some ch" using layout_shifted by blast
    then obtain u where u: "plain_char a = Some u" using shifted_plain by fastforce
    note e = entry_facts [OF a(1)]
    have "decode_all process_scancode (ks OR KH_LSHIFT_KEY, 0, q) [sc, sc OR 0x80] = ((ks OR KH_LSHIFT_KEY, 0, q), [ch])"
      using press_shifted [OF a(2) u shift_on(1,2,3) [OF m]] a(2) u e by (intro single_decoded) auto
    then show ?thesis using k True shift_decoded [OF m]
      by (auto simp: strokes_def has_char_def result_word_flags split: prod.splits)
  qed
qed

lemma text_decoded:
  assumes "no_modifiers ks" and "list_all typeable line"
  shows "decode_all process_scancode (ks, 0, q) (concat (map strokes line)) = ((ks, 0, q), line)"
  using assms(2) by (induction line) (simp_all add: decode_all_append strokes_decoded [OF _ assms(1)])

text \<open>Every printable character can be typed, and so can escape, backspace, tab and newline.\<close>

definition line_char :: "u8 \<Rightarrow> bool" where
  "line_char ch \<longleftrightarrow> 0x20 \<le> ch \<and> ch < 0x7F \<or> ch \<in> {0x1B, 0x08, 0x09, 0x0A}"

lemma typeable_printable: "line_char ch \<Longrightarrow> typeable ch"
proof -
  have "sort (map (uint \<circ> fst) (us_plain @ us_shifted)) = [8, 9, 10, 27] @ [32 .. 126]" by code_simp
  then have all: "set (map (uint \<circ> fst) (us_plain @ us_shifted)) = set ([8, 9, 10, 27] @ [32 .. 126])" by (metis set_sort)
  assume "line_char ch"
  then have "uint ch \<in> {8, 9, 10, 27} \<union> {32 .. 126}" by (auto simp: line_char_def word_le_def word_less_def)
  also have "\<dots> = set ([8, 9, 10, 27] @ [32 .. 126])" unfolding set_append set_upto by simp
  finally obtain x where "x \<in> set (us_plain @ us_shifted)" "uint ch = uint (fst x)" unfolding all [symmetric] by auto
  then have "ch \<in> fst ` set us_plain \<or> ch \<in> fst ` set us_shifted" by (auto simp: word_uint_eq_iff)
  then have "map_of us_plain ch \<noteq> None \<or> map_of us_shifted ch \<noteq> None" unfolding map_of_eq_None_iff by blast
  then show ?thesis by (auto simp: typeable_def keystroke_def split: option.splits)
qed

section \<open>From the keyboard to \<open>readchar\<close>\<close>

text \<open>\<open>n\<close> calls of \<open>readchar\<close>.\<close>

primrec readchars :: "nat \<Rightarrow> scanner \<Rightarrow> keyboard \<Rightarrow> (keyboard \<times> int list) kres" where
  "readchars 0 scan s = Inr (s, [])"
| "readchars (Suc n) scan s = kbind (readchar scan s) (\<lambda>(s, c). kbind (readchars n scan s) (\<lambda>(s, cs). Inr (s, c # cs)))"

lemma decode_first:
  "decode_all scan k cs = (k', ch # chs) \<Longrightarrow>
     \<exists>k1 ds. decode scan k cs = (k1, ds, uint ch) \<and> decode_all scan k1 ds = (k', chs)"
proof (induction cs arbitrary: k)
  case (Cons c cs)
  obtain k1 w where w: "scan k c = (k1, w)" by (cases "scan k c")
  show ?case
  proof (cases "has_char w")
    case True
    have "KH_GETCHAR w = take_bit 8 w" by (simp add: KH_GETCHAR_def take_bit_eq_mask mask_eq_exp_minus_1)
    then have "uint (ucast (KH_GETCHAR w) :: u8) = uint (KH_GETCHAR w)" by (simp add: unsigned_ucast_eq unsigned_take_bit_eq)
    with Cons.prems w True show ?thesis by (auto simp: has_char_def split: prod.splits)
  next
    case False
    with Cons.prems w have "decode_all scan k1 cs = (k', ch # chs)" by (auto split: prod.splits)
    from Cons.IH [OF this] show ?thesis using w False by (auto simp: has_char_def)
  qed
qed simp

lemma decode_none: "decode_all scan k cs = (k', []) \<Longrightarrow> decode scan k cs = (k', [], - 1)"
  by (induction cs arbitrary: k) (auto simp: has_char_def split: prod.splits if_splits)

lemma readchars_decode:
  assumes "ring_ok s" and "decode_all scan (kh s) (scancodes s) = (k', chs)"
  shows "\<exists>s'. readchars (Suc (length chs)) scan s = Inr (s', map uint chs @ [- 1]) \<and> ring_ok s' \<and> kh s' = k' \<and> scancodes s' = []"
  using assms
proof (induction chs arbitrary: s)
  case Nil
  from readchar_decode [OF Nil.prems(1), of scan] decode_none [OF Nil.prems(2)] show ?case by auto
next
  case (Cons ch chs)
  from decode_first [OF Cons.prems(2)] obtain k1 ds where
    d: "decode scan (kh s) (scancodes s) = (k1, ds, uint ch)" "decode_all scan k1 ds = (k', chs)" by blast
  from readchar_decode [OF Cons.prems(1), of scan] d(1) obtain s1 where
    s1: "readchar scan s = Inr (s1, uint ch)" "ring_ok s1" "kh s1 = k1" "scancodes s1 = ds" by auto
  with Cons.IH [of s1] d(2) have "\<exists>s'. readchars (Suc (length chs)) scan s1 = Inr (s', map uint chs @ [- 1]) \<and> ring_ok s' \<and> kh s' = k' \<and> scancodes s' = []"
    by simp
  then show ?case unfolding readchars.simps(2) [of "length (ch # chs)"] s1(1) by (auto simp del: readchars.simps)
qed

text \<open>The interrupts of a sequence of scancodes, when nobody reads meanwhile.\<close>

lemma store_all:
  assumes "ring_ok s" and "length (scancodes s) + length cs \<le> 255"
  shows "ring_ok (fold store_scancode cs s) \<and> scancodes (fold store_scancode cs s) = scancodes s @ cs \<and> kh (fold store_scancode cs s) = kh s"
  using assms
proof (induction cs arbitrary: s)
  case (Cons c cs)
  then have "pending s \<noteq> 255" by simp
  then have "scancodes (store_scancode c s) = scancodes s @ [c]" using store_scancode_scancodes [OF Cons.prems(1)] by simp
  moreover have "kh (store_scancode c s) = kh s" by (simp add: store_scancode_def)
  moreover have "ring_ok (store_scancode c s)" by (rule store_scancode_ok [OF Cons.prems(1)])
  ultimately show ?case using Cons.IH [of "store_scancode c s"] Cons.prems(2) by simp
qed simp

text \<open>C31: what is typed is what is read. A line of printable characters, escapes, tabs, newlines and backspaces is typed on a
  PC keyboard with the US layout, capitals and symbols with the left shift key, with no modifier pressed before and no lock on; as long as the
  bytes fit into the ring, the driver gives exactly these characters, in this order, one for each call of
  \<open>readchar\<close>, and then none.\<close>

theorem typed_line_read:
  assumes "ring_ok s" and "scancodes s = []" and "kh s = (ks, 0, q)" and "no_modifiers ks"
    and "list_all line_char line" and "length (concat (map strokes line)) \<le> 255"
  shows "\<exists>s'. readchars (Suc (length line)) process_scancode (fold store_scancode (concat (map strokes line)) s) =
      Inr (s', map uint line @ [- 1]) \<and> ring_ok s' \<and> kh s' = kh s \<and> scancodes s' = []"
proof -
  let ?s = "fold store_scancode (concat (map strokes line)) s"
  have "ring_ok ?s" "scancodes ?s = concat (map strokes line)" "kh ?s = (ks, 0, q)"
    using store_all [OF assms(1), of "concat (map strokes line)"] assms(2,3,6) by simp_all
  moreover have "list_all typeable line" using assms(5) typeable_printable by (auto simp: list_all_iff)
  ultimately show ?thesis using readchars_decode [of ?s process_scancode "(ks, 0, q)" line] text_decoded [OF assms(4)] assms(3) by simp
qed

definition kbd_example :: keyboard where
  "kbd_example = \<lparr>keybuf = replicate 256 0, front = 250, rear = 250, kh = (0x0100, 0, 0)\<rparr>"

lemma kbd_example_ok: "ring_ok kbd_example" "scancodes kbd_example = []"
  by (simp_all add: ring_ok_def kbd_example_def KEY_BUF_SIZE_def scancodes_def pending_def)

lemma line_example_typeable: "list_all line_char [0x48, 0x69, 0x21, 0x0A]" "length (concat (map strokes [0x48, 0x69, 0x21, 0x0A])) \<le> 255"
  by code_simp+

lemma kbd_example_kh: "kh kbd_example = (0x0100, 0, 0)" "no_modifiers 0x0100"
  by (simp_all add: kbd_example_def no_modifiers_def KHS_SHIFT_CORE_def KHS_CTL_CORE_def KHS_CAPS_def kh_consts)

theorem typed_line_read_witness:
  "\<exists>s'. readchars (Suc (length [0x48, 0x69, 0x21, 0x0A :: u8])) process_scancode
     (fold store_scancode [0x2A, 0x23, 0xA3, 0xAA, 0x17, 0x97, 0x2A, 0x02, 0x82, 0xAA, 0x1C, 0x9C] kbd_example) =
    Inr (s', map uint [0x48, 0x69, 0x21, 0x0A :: u8] @ [- 1])"
proof -
  have "concat (map strokes [0x48, 0x69, 0x21, 0x0A]) = [0x2A, 0x23, 0xA3, 0xAA, 0x17, 0x97, 0x2A, 0x02, 0x82, 0xAA, 0x1C, 0x9C]"
    by code_simp
  then show ?thesis using typed_line_read [OF kbd_example_ok kbd_example_kh line_example_typeable] by metis
qed

end
