(* ===== verification/Message_Types.thy ===== *)
theory Message_Types
  imports Manager
begin

text \<open>
  The types of messages: what the manager core puts into the queue of a worker is of a type that
  \<open>get_thr_from_msg_queue\<close> has a case for. A message of another type would be dropped there, and the thread
  it belongs to would never run again.
\<close>

section \<open>Well-typed queues\<close>

definition to_worker :: "msg_type_t \<Rightarrow> bool" where
  "to_worker t \<longleftrightarrow> t \<in> {FORK, FORK_RESPONSE, WAIT_RESPONSE, RESPONSE, MAKE_RUNNABLE, YIELD, HALT}"

definition typed_queues :: "kst \<Rightarrow> bool" where
  "typed_queues s \<longleftrightarrow> (\<forall>i. \<forall>p \<in> set (msg_queues s (2 * i + 1)). \<exists>m. msgs s p = Some m \<and> to_worker (mtype m))"

lemma typed_frame: "typed_queues s \<Longrightarrow> msgs s' = msgs s \<Longrightarrow> msg_queues s' = msg_queues s \<Longrightarrow> typed_queues s'"
  by (simp add: typed_queues_def)

lemma typed_same [simp]:
  "typed_queues (set_life f s) = typed_queues s" "typed_queues (kfree p s) = typed_queues s" "typed_queues (set_rdl g s) = typed_queues s"
  "typed_queues (s\<lparr>con := cn\<rparr>) = typed_queues s" "typed_queues (s\<lparr>kbd := k\<rparr>) = typed_queues s" "typed_queues (s\<lparr>kmem := b\<rparr>) = typed_queues s"
  by (simp_all add: typed_queues_def set_rdl_def)

lemma send_typed:
  assumes "typed_queues s" and "msgs s p = Some m" and "to_worker (mtype m)" and "manager_send_msg p c s = Inr s'"
  shows "typed_queues s'"
  unfolding typed_queues_def
proof (intro allI ballI)
  fix i q assume "q \<in> set (msg_queues s' (2 * i + 1))"
  then have "q = p \<or> q \<in> set (msg_queues s (2 * i + 1))" using assms(4) by (auto simp: manager_send_msg_Inr split: if_splits)
  then show "\<exists>m. msgs s' q = Some m \<and> to_worker (mtype m)"
    using assms by (auto simp: typed_queues_def manager_send_msg_Inr)
qed

lemma mod_typed:
  assumes "typed_queues s" and "mod_msg p f s = Inr s'" and "\<And>m. msgs s p = Some m \<Longrightarrow> to_worker (mtype m) \<Longrightarrow> to_worker (mtype (f m))"
  shows "typed_queues s'"
  using assms by (fastforce simp: typed_queues_def mod_msg_Inr)

text \<open>An answer: the message is given its type and sent.\<close>

lemma answer_typed:
  assumes "typed_queues s" and "kbind (mod_msg p f s) (manager_send_msg p c) = Inr s'" and "\<And>m. to_worker (mtype (f m))"
  shows "typed_queues s'"
proof -
  from assms(2) obtain s1 where s1: "mod_msg p f s = Inr s1" "manager_send_msg p c s1 = Inr s'" by (auto simp: kbind_eq_Inr)
  from s1(1) obtain m where "msgs s1 p = Some (f m)" by (auto simp: mod_msg_Inr)
  with mod_typed [OF assms(1) s1(1)] assms(3) s1(2) show ?thesis by (blast intro: send_typed)
qed

section \<open>The handlers\<close>

lemma kmalloc_msgs: "kmalloc s = (s', p) \<Longrightarrow> msgs s' = msgs s \<and> msg_queues s' = msg_queues s"
  by (auto simp: kmalloc_def split: list.splits)

lemma ht_put_task_msgs: "ht_put_task i p s = Inr (s', rv) \<Longrightarrow> msgs s' = msgs s \<and> msg_queues s' = msg_queues s"
  by (auto simp: ht_put_task_def kbind_eq_Inr dest!: kmalloc_msgs split: prod.splits)

lemma ht_remove_task_msgs: "ht_remove_task i s = Inr s' \<Longrightarrow> msgs s' = msgs s \<and> msg_queues s' = msg_queues s"
  by (auto simp: ht_remove_task_def kbind_eq_Inr)

lemma create_struct_msgs:
  assumes "create_pcb_vanish_wait_struct i s = Inr (s', rv)"
  shows "msgs s' = msgs s \<and> msg_queues s' = msg_queues s"
proof -
  obtain s1 p where 1: "kmalloc s = (s1, p)" by (cases "kmalloc s")
  show ?thesis
  proof (cases "p = NULL")
    case True
    then show ?thesis using assms 1 kmalloc_msgs [OF 1] by (auto simp: create_pcb_vanish_wait_struct_def)
  next
    case False
    from assms 1 False obtain s2 rv2 where 2: "ht_put_task i p s1 = Inr (s2, rv2)"
      by (auto simp: create_pcb_vanish_wait_struct_def kbind_eq_Inr)
    obtain s3 es where 3: "kmalloc s2 = (s3, es)" by (cases "kmalloc s2")
    define s4 where "s4 = set_life (\<lambda>l. l\<lparr>exit_statuses := (exit_statuses l)(es \<mapsto> \<lparr>es_pid = i, es_status = 0\<rparr>)\<rparr>) s3"
    obtain s5 n where 5: "kmalloc s4 = (s5, n)" by (cases "kmalloc s4")
    show ?thesis
      using assms 1 False 2 3 5 kmalloc_msgs [OF 1] ht_put_task_msgs [OF 2] kmalloc_msgs [OF 3] kmalloc_msgs [OF 5]
      by (auto simp: create_pcb_vanish_wait_struct_def s4_def [symmetric] kbind_eq_Inr dest!: ht_remove_task_msgs split: if_splits) (auto simp: s4_def)
  qed
qed

lemma fork_typed:
  assumes "typed_queues s" and "msgs s msg = Some m" and "mtype m = FORK" and "smp_syscall_fork msg s = Inr s'"
  shows "typed_queues s'"
proof -
  from assms(4,2) obtain s1 rv s2 s3 where c: "create_pcb_vanish_wait_struct (fork_new_tid m) s = Inr (s1, rv)"
    and f: "(if rv < 0 then kbind (mod_msg msg (\<lambda>m. m\<lparr>mtype := FORK_RESPONSE, d1 := - 1\<rparr>) s1) (manager_send_msg msg (req_cpu m)) else Inr s1) = Inr s2"
    and n: "manager_send_msg msg (fork_next_core (life s2) + 1) s2 = Inr s3" and s': "typed_queues s' = typed_queues s3"
    by (auto simp: smp_syscall_fork_def kbind_eq_Inr get_msg_Inr)
  have t: "typed_queues s1" "msgs s1 msg = Some m" using create_struct_msgs [OF c] typed_frame [OF assms(1)] assms(2) by simp_all
  have "typed_queues s2" "\<exists>m. msgs s2 msg = Some m \<and> to_worker (mtype m)"
  proof -
    show "typed_queues s2" using f t by (auto split: if_splits intro: answer_typed [of s1 msg] simp: to_worker_def)
    show "\<exists>m. msgs s2 msg = Some m \<and> to_worker (mtype m)"
      using f t(2) assms(3) by (auto simp: kbind_eq_Inr mod_msg_Inr manager_send_msg_Inr to_worker_def split: if_splits)
  qed
  then show ?thesis using n s' by (auto intro: send_typed)
qed

lemma mod_vw_msgs: "mod_vw p f s = Inr s' \<Longrightarrow> msgs s' = msgs s \<and> msg_queues s' = msg_queues s"
  by (auto simp: mod_vw_Inr)

lemma kbindE: "kbind c f = Inr y \<Longrightarrow> (\<And>x. c = Inr x \<Longrightarrow> f x = Inr y \<Longrightarrow> thesis) \<Longrightarrow> thesis"
  by (auto simp: kbind_eq_Inr)

lemma mod_vw_typed: "mod_vw p f s = Inr s' \<Longrightarrow> typed_queues s' = typed_queues s"
  by (auto simp: mod_vw_Inr)

lemma answer_later_typed:
  assumes "typed_queues s" and "mod_msg w f s = Inr s1" and "\<And>m. to_worker (mtype (f m))"
    and "get_msg w (kfree n (kfree es (set_life g s1))) = Inr m" and "manager_send_msg w c (kfree n (kfree es (set_life g s1))) = Inr s'"
  shows "typed_queues s'"
proof -
  have "typed_queues s1" by (rule mod_typed [OF assms(1,2)]) (rule assms(3))
  moreover have "msgs s1 w = Some m" "to_worker (mtype m)" using assms(2-4) by (auto simp: mod_msg_Inr get_msg_Inr)
  ultimately show ?thesis by (intro send_typed [OF _ _ _ assms(5), of m]) simp_all
qed

lemma reap_child_typed:
  assumes "typed_queues s" and "reap_child p w s = Inr s'"
  shows "typed_queues s'"
  using assms unfolding reap_child_def Let_def
  by (auto elim!: kbindE simp del: vw_simps split: prod.splits option.splits dest!: mod_vw_typed)
    (erule answer_later_typed [rotated], simp add: to_worker_def, assumption+)

lemma wake_waiter_typed:
  assumes "typed_queues s" and "wake_waiter p s = Inr s'"
  shows "typed_queues s'"
proof -
  from assms(2) obtain t where t: "tasks (life s) p = Some t" by (auto simp: wake_waiter_def kbind_eq_Inr get_vw_Inr)
  show ?thesis
  proof (cases "wait_queue t")
    case Nil
    then show ?thesis using assms t by (simp add: wake_waiter_def)
  next
    case (Cons w ws)
    then show ?thesis using assms t by (auto simp: wake_waiter_def intro: reap_child_typed [rotated])
  qed
qed

lemma adopt_children_msgs: "adopt_children ns ini s = Inr s' \<Longrightarrow> msgs s' = msgs s \<and> msg_queues s' = msg_queues s"
  by (induction ns arbitrary: s) (auto simp: kbind_eq_Inr mod_vw_Inr)

lemma vanish_report_typed:
  assumes "typed_queues s" and "vanish_report this_task m s = Inr s'"
  shows "typed_queues s'"
proof -
  from assms(2) obtain parent f g where "wake_waiter parent (set_life f (set_life g s)) = Inr s'"
    by (auto simp: vanish_report_def kbind_eq_Inr get_vw_Inr kderef_Inr mod_vw_Inr Let_def)
  then show ?thesis using wake_waiter_typed assms(1) typed_same(1) by blast
qed

lemma adopt_children_typed: "adopt_children ns ini s = Inr s' \<Longrightarrow> typed_queues s' = typed_queues s"
  using adopt_children_msgs by (simp add: typed_queues_def)

lemma vanish_orphans_typed:
  assumes "typed_queues s" and "vanish_orphans this_task s = Inr s'"
  shows "typed_queues s'"
  using assms unfolding vanish_orphans_def Let_def
  by (auto elim!: kbindE simp del: vw_simps split: if_splits dest!: mod_vw_typed adopt_children_typed) (erule wake_waiter_typed [rotated], assumption)+

lemma vanish_typed:
  assumes "typed_queues s" and "smp_syscall_vanish msg s = Inr s'"
  shows "typed_queues s'"
proof -
  from assms(2) obtain m this_task s1 s2 s3 s4 where
    s: "vanish_report this_task m s = Inr s1" "vanish_forget m s1 = Inr s2" "vanish_orphans this_task s2 = Inr s3"
      "free_pcb_vanish_wait_struct this_task s3 = Inr s4" "kbind (mod_msg msg (\<lambda>m. m\<lparr>mtype := RESPONSE\<rparr>) s4) (manager_send_msg msg (req_cpu m)) = Inr s'"
    by (auto simp: smp_syscall_vanish_def kbind_eq_Inr get_msg_Inr split: if_splits)
  have "typed_queues s2" using vanish_report_typed [OF assms(1) s(1)] s(2) by (auto simp: vanish_forget_def kbind_eq_Inr split: if_splits)
  from vanish_orphans_typed [OF this s(3)] have "typed_queues s4" using s(4) by (auto simp: free_pcb_vanish_wait_struct_def kbind_eq_Inr)
  then show ?thesis using s(5) by (rule answer_typed) (simp add: to_worker_def)
qed

lemma wait_typed:
  assumes "typed_queues s" and "smp_syscall_wait msg s = Inr s'"
  shows "typed_queues s'"
proof -
  have "typed_queues s'" if "kbind (mod_msg msg (\<lambda>m. m\<lparr>mtype := WAIT_RESPONSE, d1 := ECHILD\<rparr>) s) (manager_send_msg msg c) = Inr s'" for c
    using assms(1) that by (rule answer_typed) (simp add: to_worker_def)
  then show ?thesis using assms unfolding smp_syscall_wait_def
    by (auto simp: kbind_eq_Inr simp del: vw_simps split: if_splits dest!: mod_vw_typed intro: reap_child_typed [rotated])
qed

lemma set_init_typed:
  assumes "typed_queues s" and "smp_set_init_pcb msg s = Inr s'"
  shows "typed_queues s'"
proof -
  from assms(2) [unfolded smp_set_init_pcb_def] obtain m y where c: "create_pcb_vanish_wait_struct (set_init_pid m) s = Inr y"
    and r: "(case y of (s, rv) \<Rightarrow> kbind (if rv = 0 then kbind (get_task (set_init_pid m) s) (\<lambda>p. Inr (set_life (\<lambda>l. l\<lparr>mgr_init_task := p\<rparr>) s)) else Inr s) (\<lambda>s.
       kbind (mod_msg msg (\<lambda>m. m\<lparr>mtype := RESPONSE, d0 := rv\<rparr>) s) (manager_send_msg msg (req_cpu m)))) = Inr s'" by (elim kbindE)
  obtain s1 rv where y: "y = (s1, rv)" by (cases y)
  from r [unfolded y prod.case] obtain s2 where
    2: "(if rv = 0 then kbind (get_task (set_init_pid m) s1) (\<lambda>p. Inr (set_life (\<lambda>l. l\<lparr>mgr_init_task := p\<rparr>) s1)) else Inr s1) = Inr s2"
    and 3: "kbind (mod_msg msg (\<lambda>m. m\<lparr>mtype := RESPONSE, d0 := rv\<rparr>) s2) (manager_send_msg msg (req_cpu m)) = Inr s'" by (rule kbindE)
  have "typed_queues s1" using create_struct_msgs c y typed_frame [OF assms(1)] by blast
  then have "typed_queues s2" using 2 by (auto simp: kbind_eq_Inr split: if_splits)
  then show ?thesis using 3 by (rule answer_typed) (simp add: to_worker_def)
qed

lemma fork_response_typed:
  assumes ty: "typed_queues s" and m: "msgs s msg = Some m" "mtype m = FORK_RESPONSE"
    and om: "msgs s (fork_req_msg m) = Some om" "to_worker (mtype om)" and st: "smp_fork_response msg s = Inr s'"
  shows "typed_queues s'"
proof -
  let ?ori = "fork_req_msg m" and ?f = "\<lambda>om. om\<lparr>mtype := FORK_RESPONSE, d1 := fork_result m\<rparr>"
  consider (good) "fork_result m = 0" | (gave_up) "fork_result m \<noteq> 0" "fork_retry_times om = int (num_worker_cores s)"
    | (retry) "fork_result m \<noteq> 0" "fork_retry_times om \<noteq> int (num_worker_cores s)" by blast
  then show ?thesis
  proof cases
    case good
    then obtain p f s1 s2 s3 where 1: "mod_vw p f s = Inr s1" and 2: "mod_msg ?ori ?f s1 = Inr s2" "manager_send_msg ?ori (req_cpu om) s2 = Inr s3"
      and 3: "manager_send_msg msg (req_cpu m) s3 = Inr s'"
      using st m(1) om(1) by (auto simp: smp_fork_response_def Let_def get_msg_Inr elim!: kbindE)
    have "typed_queues s1" using mod_vw_msgs [OF 1] typed_frame [OF ty] by blast
    then have "typed_queues s3" using answer_typed [of s1 ?ori ?f "req_cpu om" s3] 2 by (simp add: kbind_eq_Inr to_worker_def)
    moreover have "\<exists>m'. msgs s3 msg = Some m' \<and> to_worker (mtype m')"
      using 2 m mod_vw_msgs [OF 1] by (auto simp: mod_msg_Inr manager_send_msg_Inr to_worker_def)
    ultimately show ?thesis using 3 by (blast intro: send_typed)
  next
    case gave_up
    then obtain s1 s2 p where 1: "ht_remove_task (fork_new_tid m) s = Inr s1" "free_pcb_vanish_wait_struct p s1 = Inr s2"
      and 2: "kbind (mod_msg ?ori ?f s2) (manager_send_msg ?ori (req_cpu om)) = Inr s'"
      using st m(1) om(1) by (auto simp: smp_fork_response_def Let_def get_msg_Inr elim!: kbindE simp: kbind_eq_Inr)
    have "typed_queues s2" using ht_remove_task_msgs [OF 1(1)] typed_frame [OF ty] 1(2) by (auto simp: free_pcb_vanish_wait_struct_def kbind_eq_Inr)
    then show ?thesis using 2 by (rule answer_typed) (simp add: to_worker_def)
  next
    case retry
    then obtain s1 c where 1: "mod_msg ?ori (\<lambda>om. om\<lparr>d1 := fork_retry_times om + 1\<rparr>) s = Inr s1" "manager_send_msg ?ori c s1 = Inr s'"
      using st m(1) om(1) by (auto simp: smp_fork_response_def Let_def get_msg_Inr elim!: kbindE)
    have "typed_queues s1" using mod_typed [OF ty 1(1)] by simp
    moreover have "\<exists>m'. msgs s1 ?ori = Some m' \<and> to_worker (mtype m')" using 1(1) om by (auto simp: mod_msg_Inr)
    ultimately show ?thesis using 1(2) by (blast intro: send_typed)
  qed
qed

lemma take_char_typed: "take_char ch s = Inr s' \<Longrightarrow> typed_queues s \<Longrightarrow> typed_queues s'"
  by (auto simp: take_char_def kbind_eq_Inr Let_def split: if_splits)

lemma readline_loop_typed: "readline_loop scan th s = Inr (s', b) \<Longrightarrow> typed_queues s \<Longrightarrow> typed_queues s'"
proof (induction scan th s rule: readline_loop.induct)
  case (1 scan th s)
  show ?case
  proof (cases "reading_count (rdl s) < reading_length (rdl s)")
    case False
    then show ?thesis using "1.prems" by (simp add: readline_loop.simps [of scan th s])
  next
    case less: True
    then obtain k ch where r: "readchar scan (kbd s) = Inr (k, ch)"
      using "1.prems" by (auto simp: readline_loop.simps [of scan th s] split: sum.splits)
    show ?thesis
    proof (cases "ch = - 1")
      case True
      then show ?thesis using r "1.prems" less by (auto simp: readline_loop.simps [of scan th s])
    next
      case False
      then obtain s1 where t: "take_char (word_of_int ch) (s\<lparr>kbd := k\<rparr>) = Inr s1"
        using r "1.prems" less by (auto simp: readline_loop.simps [of scan th s] split: sum.splits)
      from take_char_typed [OF t] have ty: "typed_queues s1" using "1.prems"(2) by simp
      show ?thesis
      proof (cases "word_of_int ch = NL")
        case True
        then show ?thesis using r t False ty "1.prems" less by (auto simp: readline_loop.simps [of scan th s])
      next
        case nl: False
        then have "readline_loop scan th s1 = Inr (s', b)" using r t False "1.prems" less by (simp add: readline_loop.simps [of scan th s])
        then show ?thesis using "1.IH" [of "(k, ch)" k ch s1] r t False nl ty less by simp
      qed
    qed
  qed
qed

lemma readline_typed:
  assumes "typed_queues s" and "smp_syscall_readline scan msg s = Inr s'"
  shows "typed_queues s'"
proof (cases "has_read_waiting_thr s")
  case True
  then show ?thesis using assms by (auto simp: smp_syscall_readline_def)
next
  case False
  let ?r = "\<lambda>m. set_rdl (\<lambda>r. r\<lparr>reading_count := 0, reading_length := io_len m, reading_buf := io_buf m\<rparr>) s"
  from False assms(2) obtain m s1 b where l: "readline_loop scan (req_thr m) (?r m) = Inr (s1, b)"
    and r: "(if \<not> b then Inr s1 else kbind (mod_msg msg (\<lambda>m. m\<lparr>mtype := RESPONSE, d0 := reading_count (rdl s1)\<rparr>) s1) (manager_send_msg msg (req_cpu m))) = Inr s'"
    by (auto simp: smp_syscall_readline_def Let_def elim!: kbindE)
  have "typed_queues s1" using readline_loop_typed [OF l] assms(1) by simp
  then show ?thesis using r answer_typed [of s1 msg] by (auto simp: to_worker_def split: if_splits)
qed

lemma console_answer_typed:
  "\<lbrakk>typed_queues s; kbind (mod_msg msg f (s\<lparr>con := cn\<rparr>)) (manager_send_msg msg c) = Inr s'; \<And>m. to_worker (mtype (f m))\<rbrakk> \<Longrightarrow> typed_queues s'"
  using answer_typed [of "s\<lparr>con := cn\<rparr>"] by simp

lemma set_cursor_typed: "typed_queues s \<Longrightarrow> smp_syscall_set_cursor_pos msg s = Inr s' \<Longrightarrow> typed_queues s'"
  unfolding smp_syscall_set_cursor_pos_def
  by (elim kbindE) (auto simp: to_worker_def split: prod.splits elim!: console_answer_typed)

lemma set_color_typed: "typed_queues s \<Longrightarrow> smp_syscall_set_term_color msg s = Inr s' \<Longrightarrow> typed_queues s'"
  unfolding smp_syscall_set_term_color_def
  by (elim kbindE) (auto simp: to_worker_def split: prod.splits elim!: console_answer_typed)

lemma print_typed:
  assumes "typed_queues s" and "smp_syscall_print msg s = Inr s'"
  shows "typed_queues s'"
  using assms(2) unfolding smp_syscall_print_def
proof (rule kbindE)
  fix m assume "kbind (putbytes (if io_buf m = NULL then None else Some (kbytes (io_buf m) (nat (io_len m)) s)) (io_len m) (con s)) (\<lambda>cn.
     kbind (mod_msg msg (\<lambda>m. m\<lparr>mtype := RESPONSE, d0 := 0\<rparr>) (s\<lparr>con := cn\<rparr>)) (manager_send_msg msg (req_cpu m))) = Inr s'"
  then show ?thesis by (rule kbindE) (erule console_answer_typed [OF assms(1)], simp add: to_worker_def)
qed

lemma get_cursor_typed:
  assumes "typed_queues s" and "smp_syscall_get_cursor_pos msg s = Inr s'"
  shows "typed_queues s'"
proof -
  obtain row col where c: "get_cursor (con s) = (row, col)" by (cases "get_cursor (con s)")
  from assms(2) [unfolded smp_syscall_get_cursor_pos_def c prod.case] show ?thesis
    by (rule kbindE) (erule answer_typed [OF assms(1)], simp add: to_worker_def)
qed

text \<open>A search that goes on keeps the type of the message.\<close>

lemma search_typed:
  assumes "typed_queues s" and m: "msgs s msg = Some m" "to_worker (mtype m)"
    and "manager_send_msg msg (req_cpu m) s = Inr s' \<or> kbind (mod_msg msg (\<lambda>m. m\<lparr>d1 := c\<rparr>) s) (manager_send_msg msg c) = Inr s'"
  shows "typed_queues s'"
  using assms(4)
proof
  assume "kbind (mod_msg msg (\<lambda>m. m\<lparr>d1 := c\<rparr>) s) (manager_send_msg msg c) = Inr s'"
  then obtain s1 where s1: "mod_msg msg (\<lambda>m. m\<lparr>d1 := c\<rparr>) s = Inr s1" "manager_send_msg msg c s1 = Inr s'" by (rule kbindE)
  have "typed_queues s1" using mod_typed [OF assms(1) s1(1)] by simp
  moreover have "msgs s1 msg = Some (m\<lparr>d1 := c\<rparr>)" using s1(1) m by (auto simp: mod_msg_Inr)
  ultimately show ?thesis using s1(2) m(2) send_typed by fastforce
qed (rule send_typed [OF assms(1) m])

lemmas handlers_typed = wait_typed vanish_typed set_init_typed readline_typed set_cursor_typed set_color_typed print_typed get_cursor_typed

lemma dispatch_typed:
  assumes ty: "typed_queues s" and st: "manager_dispatch scan buf msg s = Inr s'"
    and fr: "\<forall>m. msgs s msg = Some m \<longrightarrow> mtype m = FORK_RESPONSE \<longrightarrow> (\<exists>om. msgs s (fork_req_msg m) = Some om \<and> to_worker (mtype om))"
  shows "typed_queues s'"
proof -
  from st obtain m where m: "msgs s msg = Some m" by (auto simp: manager_dispatch_def inv_rules)
  note st' = st [unfolded manager_dispatch_def]
  show ?thesis
  proof (cases "mtype m")
    case FORK
    then show ?thesis using st' m fork_typed [OF ty m] by simp
  next
    case FORK_RESPONSE
    then show ?thesis using st' m fork_response_typed [OF ty m] fr by auto
  next
    case VANISH_BACK
    then have "kbind (mod_msg msg (\<lambda>m. m\<lparr>mtype := RESPONSE\<rparr>) s) (manager_send_msg msg (vanish_back_cpu m)) = Inr s'" using st' m by simp
    with ty show ?thesis by (rule answer_typed) (simp add: to_worker_def)
  next
    case MAKE_RUNNABLE
    then show ?thesis using st' m search_typed [OF ty m]
      by (auto simp: smp_make_runnable_syscall_handler_def to_worker_def Let_def split: if_splits)
  next
    case YIELD
    then show ?thesis using st' m search_typed [OF ty m]
      by (auto simp: smp_yield_syscall_handler_def to_worker_def Let_def split: if_splits)
  next
    case HALT
    then show ?thesis using st' m by (auto simp: smp_syscall_halt_def kbind_eq_Inr)
  qed (use st' m ty handlers_typed [OF ty] in simp_all)
qed

text \<open>A worker that takes a message of such a type resumes the thread that the message is about.\<close>

definition resumes :: "msg_t \<Rightarrow> u32" where
  "resumes m = (if mtype m = FORK then fork_new_thr m else req_thr m)"

lemma typed_resumes:
  assumes "typed_queues s" and "0 < cpu" "cpu \<le> num_worker_cores s" and "msg_queues s ((cpu - 1) * 2 + 1) = p # q" and "p \<noteq> NULL"
    and "get_thr_from_msg_queue cpu s = Inr (s', th)"
  shows "\<exists>m. msgs s p = Some m \<and> th = resumes m"
proof -
  have "p \<in> set (msg_queues s (2 * (cpu - 1) + 1))" using assms(4) by (simp add: mult.commute)
  then obtain m where m: "msgs s p = Some m" "to_worker (mtype m)" using assms(1) unfolding typed_queues_def by blast
  have "worker_recv_msg cpu s = Inr (s\<lparr>msg_queues := (msg_queues s)((cpu - 1) * 2 + 1 := q)\<rparr>, p)"
    using assms(2-4) by (simp add: worker_recv_msg_def)
  then show ?thesis using assms(2,5,6) m
    by (cases "mtype m") (auto simp: get_thr_from_msg_queue_def get_msg_Inr kbind_eq_Inr resumes_def to_worker_def)
qed

section \<open>Properties\<close>

text \<open>C6: a worker is only sent messages that it handles. When the queues to the workers hold only messages of the
  types that \<open>get_thr_from_msg_queue\<close> has a case for, this is so after the manager has served any message,
  whatever its type (a \<open>FORK_RESPONSE\<close> names the request it answers); and a worker that takes a message from
  its queue then goes on with the thread that the message is about: none is dropped.\<close>

theorem manager_sends_typed:
  assumes "typed_queues s" and "manager_dispatch scan buf msg s = Inr s'"
    and "\<forall>m. msgs s msg = Some m \<longrightarrow> mtype m = FORK_RESPONSE \<longrightarrow> (\<exists>om. msgs s (fork_req_msg m) = Some om \<and> to_worker (mtype om))"
  shows "typed_queues s' \<and>
     (\<forall>cpu p q s'' th. 0 < cpu \<longrightarrow> cpu \<le> num_worker_cores s' \<longrightarrow> msg_queues s' ((cpu - 1) * 2 + 1) = p # q \<longrightarrow> p \<noteq> NULL \<longrightarrow>
        get_thr_from_msg_queue cpu s' = Inr (s'', th) \<longrightarrow> (\<exists>m. msgs s' p = Some m \<and> th = resumes m))"
  using dispatch_typed [OF assms] typed_resumes by blast

text \<open>A thread on core 2 asks for the position of the cursor.\<close>

definition typed_example :: kst where
  "typed_example = kst_example\<lparr>msgs := [0x1000 \<mapsto> \<lparr>req_thr = 0x201fe0, req_cpu = 2, mtype = GET_CURSOR_POS, d0 = 0, d1 = 0, d2 = 0, d3 = 0\<rparr>]\<rparr>"

theorem manager_sends_typed_witness: "\<exists>s'. manager_dispatch (\<lambda>k c. (k, 0)) 0 0x1000 typed_example = Inr s' \<and> typed_queues s' \<and> msg_queues s' 3 = [0x1000]"
proof -
  have t: "typed_queues typed_example" by (simp add: typed_queues_def typed_example_def kst_example_def)
  obtain s' where s': "manager_dispatch (\<lambda>k c. (k, 0)) 0 0x1000 typed_example = Inr s'" "msg_queues s' 3 = [0x1000]"
    by (cases "get_cursor (con typed_example)")
      (simp add: typed_example_def kst_example_def manager_dispatch_def smp_syscall_get_cursor_pos_def get_msg_def mod_msg_def kderef_def manager_send_msg_def Let_def)
  have "typed_queues s'" using manager_sends_typed [OF t s'(1)] by (simp add: typed_example_def)
  then show ?thesis using s' by blast
qed

end
