(* ===== verification/Timer.thy ===== *)
theory Timer
  imports Kern_Prelude
begin

text \<open>
  The timer devices at boot (\<open>kern/timer_driver.c\<close>): the interval timer that interrupts every 10 ms, and the
  calibration of the counter of the local APIC against it. The handler of the calibrated timer is in
  \<open>Thread_Mgmt\<close>.

  A port or register write is a change of the state: \<open>ports\<close> is the list of all \<open>outb\<close>, \<open>lapic\<close> the registers
  of the local APIC of each core. The current count of an APIC (\<open>LAPIC_TIMER_CUR\<close>) changes by itself: what
  is read there is an argument. So is the answer of \<open>malloc\<close>.
\<close>

section \<open>State and operations\<close>

definition TIMER_RATE :: int where "TIMER_RATE = 1193182"
definition FREQ :: int where "FREQ = 100"
definition TIMER_PERIOD_IO_PORT :: u16 where "TIMER_PERIOD_IO_PORT = 0x40"
definition TIMER_MODE_IO_PORT :: u16 where "TIMER_MODE_IO_PORT = 0x43"
definition TIMER_SQUARE_WAVE :: u8 where "TIMER_SQUARE_WAVE = 0x36"
definition TIMER_ONE_SHOT :: u8 where "TIMER_ONE_SHOT = 0x30"
definition INT_CTL_PORT :: u16 where "INT_CTL_PORT = 0x20"
definition INT_ACK_CURRENT :: u8 where "INT_ACK_CURRENT = 0x20"
definition LAPIC_LVT_TIMER :: u32 where "LAPIC_LVT_TIMER = 0x320"
definition LAPIC_TIMER_INIT :: u32 where "LAPIC_TIMER_INIT = 0x380"
definition LAPIC_TIMER_DIV :: u32 where "LAPIC_TIMER_DIV = 0x3E0"
definition LAPIC_X1 :: u32 where "LAPIC_X1 = 0xB"
definition LAPIC_PERIODIC :: u32 where "LAPIC_PERIODIC = 0x20000"
definition LAPIC_IMASK :: u32 where "LAPIC_IMASK = 0x10000"
definition APIC_TIMER_IDT_ENTRY :: u32 where "APIC_TIMER_IDT_ENTRY = 0x22"

record timers =
  numTicks :: u32
  start_numTicks :: u32
  lapic_timer_init :: u32
  apic_num_ticks :: "nat \<rightharpoonup> u32"
  finished_init_vm :: bool
  finished_cal_apic_timer :: bool
  ports :: "(u16 \<times> u8) list"
  lapic :: "nat \<Rightarrow> u32 \<Rightarrow> u32"

definition outb :: "u16 \<Rightarrow> u8 \<Rightarrow> timers \<Rightarrow> timers" where
  "outb port v s = s\<lparr>ports := ports s @ [(port, v)]\<rparr>"

definition lapic_write :: "nat \<Rightarrow> u32 \<Rightarrow> u32 \<Rightarrow> timers \<Rightarrow> timers" where
  "lapic_write c r v s = s\<lparr>lapic := (lapic s)(c := (lapic s c)(r := v))\<rparr>"

definition init_timer_driver :: "timers \<Rightarrow> timers" where
  "init_timer_driver s =
     (let interrupt_rate = word_of_int (TIMER_RATE div FREQ) :: u16;
          s = outb TIMER_MODE_IO_PORT TIMER_SQUARE_WAVE s;
          s = outb TIMER_PERIOD_IO_PORT (ucast interrupt_rate) s;
          s = outb TIMER_PERIOD_IO_PORT (ucast (drop_bit 8 interrupt_rate)) s
      in s\<lparr>numTicks := 0\<rparr>)"

definition init_lapic_timer_driver :: "bool \<Rightarrow> nat \<Rightarrow> timers \<Rightarrow> timers kres" where
  "init_lapic_timer_driver mem_ok cur_cpu s =
     (if \<not> mem_ok then Inl PANIC
      else
        let s = s\<lparr>apic_num_ticks := (apic_num_ticks s)(cur_cpu \<mapsto> 0)\<rparr>;
            lapic_lvt_timer = lapic s cur_cpu LAPIC_LVT_TIMER;
            s = lapic_write cur_cpu LAPIC_TIMER_INIT (lapic_timer_init s) s;
            s = lapic_write cur_cpu LAPIC_TIMER_DIV LAPIC_X1 s;
            lapic_lvt_timer = lapic_lvt_timer OR LAPIC_PERIODIC;
            lapic_lvt_timer = lapic_lvt_timer AND NOT LAPIC_IMASK;
            lapic_lvt_timer = lapic_lvt_timer OR APIC_TIMER_IDT_ENTRY
        in Inr (lapic_write cur_cpu LAPIC_LVT_TIMER lapic_lvt_timer s))"

text \<open>The second branch of \<open>pic_timer_interrupt_handler\<close>: the count of 100 ms has been read.\<close>

definition calibrate :: "u32 \<Rightarrow> timers \<Rightarrow> timers" where
  "calibrate lapic_timer_cur s =
     (let s = lapic_write 0 LAPIC_TIMER_INIT 0 s;
          s = s\<lparr>apic_num_ticks := (apic_num_ticks s)(0 := None)\<rparr>;
          diff = 0xffffffff - lapic_timer_cur;
          s = s\<lparr>lapic_timer_init := diff div 10\<rparr>;
          s = outb TIMER_MODE_IO_PORT TIMER_ONE_SHOT s
      in s\<lparr>finished_cal_apic_timer := True\<rparr>)"

text \<open>The interrupt reaches core 0 only.\<close>

definition pic_timer_interrupt_handler :: "bool \<Rightarrow> u32 \<Rightarrow> timers \<Rightarrow> timers kres" where
  "pic_timer_interrupt_handler mem_ok lapic_timer_cur s =
     (let s = s\<lparr>numTicks := numTicks s + 1\<rparr> in
      kbind (if finished_init_vm s then
               (if start_numTicks s = 0 then init_lapic_timer_driver mem_ok 0 (s\<lparr>start_numTicks := numTicks s\<rparr>)
                else if numTicks s = start_numTicks s + 10 then Inr (calibrate lapic_timer_cur s)
                else Inr s)
             else Inr s) (\<lambda>s.
      Inr (outb INT_CTL_PORT INT_ACK_CURRENT s)))"

text \<open>A sequence of interrupts with the count that each would read.\<close>

fun pic_run :: "u32 list \<Rightarrow> timers \<Rightarrow> timers kres" where
  "pic_run [] s = Inr s"
| "pic_run (cur # curs) s = kbind (pic_timer_interrupt_handler True cur s) (pic_run curs)"

section \<open>The calibration\<close>
lemma pic_run_snoc: "pic_run (curs @ [cur]) s = kbind (pic_run curs s) (pic_timer_interrupt_handler True cur)"
  by (induction curs arbitrary: s) (simp_all add: kbind_def split: sum.splits)

definition calibrating :: "u32 \<Rightarrow> u32 list \<Rightarrow> timers \<Rightarrow> bool" where
  "calibrating t0 curs s \<longleftrightarrow>
     finished_init_vm s \<and> numTicks s = t0 + word_of_nat (length curs) \<and>
     start_numTicks s = (if curs = [] then 0 else t0 + 1) \<and>
     finished_cal_apic_timer s = (11 \<le> length curs) \<and>
     (11 \<le> length curs \<longrightarrow> lapic_timer_init s = (0xffffffff - curs ! 10) div 10 \<and> apic_num_ticks s 0 = None \<and> lapic s 0 LAPIC_TIMER_INIT = 0) \<and>
     (curs \<noteq> [] \<and> length curs < 11 \<longrightarrow> lapic s 0 LAPIC_TIMER_INIT = 0xffffffff \<and> apic_num_ticks s 0 = Some 0) \<and>
     (length curs < 11 \<longrightarrow> lapic_timer_init s = 0xffffffff)"

lemmas timer_defs = pic_timer_interrupt_handler_def init_lapic_timer_driver_def calibrate_def outb_def lapic_write_def Let_def
  LAPIC_TIMER_INIT_def LAPIC_LVT_TIMER_def LAPIC_TIMER_DIV_def

text \<open>The tick counter does not come back to where the calibration started or ends.\<close>

lemma ticks_apart:
  fixes t0 :: u32
  assumes "unat t0 + n < 2 ^ 32"
  shows "t0 + word_of_nat n = t0 + 11 \<longleftrightarrow> n = 11" and "n \<noteq> 0 \<Longrightarrow> t0 + word_of_nat n \<noteq> 0"
proof -
  have u: "unat (word_of_nat n :: u32) = n" using assms by (simp add: unat_word_of_nat32)
  have "word_of_nat n = (11 :: u32) \<longleftrightarrow> n = 11"
  proof
    assume "word_of_nat n = (11 :: u32)"
    with u show "n = 11" by simp
  qed simp
  then show "t0 + word_of_nat n = t0 + 11 \<longleftrightarrow> n = 11" by simp
  have "unat (t0 + word_of_nat n) = unat t0 + n" using assms u by (simp add: unat_word_ariths)
  then show "n \<noteq> 0 \<Longrightarrow> t0 + word_of_nat n \<noteq> 0" by auto
qed

lemma calibrating_step:
  assumes c: "calibrating t0 curs s" and b: "unat t0 + length curs + 1 < 2 ^ 32"
  shows "\<exists>s'. pic_timer_interrupt_handler True cur s = Inr s' \<and> calibrating t0 (curs @ [cur]) s'"
proof -
  define n where "n = length curs"
  have tk: "numTicks s + 1 = t0 + word_of_nat (Suc n)" using c by (simp add: calibrating_def n_def algebra_simps)
  note ap = ticks_apart [of t0 "Suc n"]
  consider (first) "n = 0" | (wait) "0 < n" "n < 10" | (tenth) "n = 10" | (after) "10 < n" by linarith
  then show ?thesis
  proof cases
    case first
    then show ?thesis using c by (auto simp: calibrating_def timer_defs n_def)
  next
    case wait
    have "start_numTicks s \<noteq> 0" using c wait ticks_apart [of t0 1] b by (auto simp: calibrating_def n_def)
    then show ?thesis using c wait b tk ap by (auto simp: calibrating_def timer_defs n_def nth_append)
  next
    case tenth
    have "start_numTicks s \<noteq> 0" using c tenth ticks_apart [of t0 1] b by (auto simp: calibrating_def n_def)
    then show ?thesis using c tenth b tk ap by (auto simp: calibrating_def timer_defs n_def nth_append)
  next
    case after
    have "start_numTicks s \<noteq> 0" using c after ticks_apart [of t0 1] b by (auto simp: calibrating_def n_def)
    then show ?thesis using c after b tk ap by (auto simp: calibrating_def timer_defs n_def nth_append)
  qed
qed

lemma pic_run_calibrates:
  assumes "calibrating t0 [] s" and "unat t0 + length curs < 2 ^ 32"
  shows "\<exists>s'. pic_run curs s = Inr s' \<and> calibrating t0 curs s'"
  using assms(2)
proof (induction curs rule: rev_induct)
  case Nil
  with assms(1) show ?case by simp
next
  case (snoc cur curs)
  then obtain s1 where s1: "pic_run curs s = Inr s1" "calibrating t0 curs s1" by auto
  from calibrating_step [OF s1(2), of cur] snoc.prems s1(1) show ?case by (simp add: pic_run_snoc)
qed

lemma u32_max: "unat (w :: u32) \<le> 4294967295"
  using unsigned_less [of w, where ?'a = nat] by simp

lemma unat_tenth: "unat ((0xffffffff - cur) div 10 :: u32) = (2 ^ 32 - 1 - unat cur) div 10"
proof -
  have "cur \<le> (0xffffffff :: u32)" using u32_max by (simp add: word_le_nat_alt)
  then have "unat (0xffffffff - cur) = 2 ^ 32 - 1 - unat cur" by (simp add: unat_sub)
  then show ?thesis by (simp add: unat_div)
qed

text \<open>C33: the calibration ends. Whatever the counter of the local APIC does, the wait of \<open>kernel_main\<close> for
  \<open>finished_cal_apic_timer\<close> ends with the eleventh interrupt of the interval timer after virtual memory is
  set up and not earlier; the counter then starts from a tenth of what it has counted between the first and
  the eleventh, it is stopped, and its tick counter is given back. Later interrupts change none of this.\<close>

theorem apic_calibration_ends:
  assumes "finished_init_vm s" and "start_numTicks s = 0" and "\<not> finished_cal_apic_timer s" and "lapic_timer_init s = 0xffffffff"
    and "unat (numTicks s) + length curs < 2 ^ 32"
  shows "\<exists>s'. pic_run curs s = Inr s' \<and> (finished_cal_apic_timer s' \<longleftrightarrow> 11 \<le> length curs) \<and>
    (11 \<le> length curs \<longrightarrow>
       unat (lapic_timer_init s') = (2 ^ 32 - 1 - unat (curs ! 10)) div 10 \<and>
       lapic s' 0 LAPIC_TIMER_INIT = 0 \<and> apic_num_ticks s' 0 = None)"
proof -
  have "calibrating (numTicks s) [] s" using assms by (simp add: calibrating_def)
  from pic_run_calibrates [OF this assms(5)] obtain s' where "pic_run curs s = Inr s'" "calibrating (numTicks s) curs s'" by auto
  then show ?thesis unfolding calibrating_def by (intro exI [of _ s']) (use unat_tenth [of "curs ! 10"] in simp)
qed

definition timers_example :: timers where
  "timers_example = \<lparr>numTicks = 3, start_numTicks = 0, lapic_timer_init = 0xffffffff, apic_num_ticks = Map.empty,
     finished_init_vm = True, finished_cal_apic_timer = False, ports = [], lapic = \<lambda>_ _. 0\<rparr>"

theorem apic_calibration_ends_witness:
  "\<exists>s'. pic_run (replicate 12 0xfff0bdbf) timers_example = Inr s' \<and> finished_cal_apic_timer s' \<and> unat (lapic_timer_init s') = 100000"
proof -
  have "\<exists>s'. pic_run (replicate 12 0xfff0bdbf) timers_example = Inr s' \<and>
     (finished_cal_apic_timer s' \<longleftrightarrow> 11 \<le> length (replicate 12 (0xfff0bdbf :: u32))) \<and>
     (11 \<le> length (replicate 12 (0xfff0bdbf :: u32)) \<longrightarrow>
       unat (lapic_timer_init s') = (2 ^ 32 - 1 - unat (replicate 12 (0xfff0bdbf :: u32) ! 10)) div 10 \<and>
       lapic s' 0 LAPIC_TIMER_INIT = 0 \<and> apic_num_ticks s' 0 = None)"
    by (rule apic_calibration_ends) (simp_all add: timers_example_def)
  then show ?thesis by auto
qed

text \<open>The interval timer is programmed to 100 interrupts a second: the two bytes sent are those of the divisor.
  A local timer, once started, interrupts periodically at its vector, if the vector field had no other bits.\<close>

lemma init_timer_driver_rate:
  "ports (init_timer_driver s) = ports s @ [(0x43, 0x36), (0x40, 0x9B), (0x40, 0x2E)]" and "(0x2E :: nat) * 256 + 0x9B = 1193182 div 100"
  by (simp_all add: init_timer_driver_def Let_def outb_def TIMER_RATE_def FREQ_def TIMER_MODE_IO_PORT_def TIMER_PERIOD_IO_PORT_def
      TIMER_SQUARE_WAVE_def)

lemma lapic_timer_started:
  assumes "init_lapic_timer_driver True c s = Inr s'" and "lapic s c LAPIC_LVT_TIMER AND 0xFF = 0"
  shows "lapic s' c LAPIC_LVT_TIMER AND 0xFF = APIC_TIMER_IDT_ENTRY" and "lapic s' c LAPIC_LVT_TIMER AND LAPIC_IMASK = 0"
    and "lapic s' c LAPIC_LVT_TIMER AND LAPIC_PERIODIC = LAPIC_PERIODIC" and "lapic s' c LAPIC_TIMER_INIT = lapic_timer_init s"
proof -
  define w where "w = lapic s c LAPIC_LVT_TIMER"
  have s': "lapic s' c LAPIC_LVT_TIMER = (w OR LAPIC_PERIODIC) AND NOT LAPIC_IMASK OR APIC_TIMER_IDT_ENTRY"
    "lapic s' c LAPIC_TIMER_INIT = lapic_timer_init s"
    using assms(1) by (auto simp: timer_defs w_def)
  show "lapic s' c LAPIC_TIMER_INIT = lapic_timer_init s" by (rule s'(2))
  have w: "w AND 0xFF = 0" using assms(2) by (simp add: w_def)
  note d = s'(1) LAPIC_PERIODIC_def LAPIC_IMASK_def APIC_TIMER_IDT_ENTRY_def bit.conj_disj_distrib2
  show "lapic s' c LAPIC_LVT_TIMER AND 0xFF = APIC_TIMER_IDT_ENTRY" using w by (simp add: d and.assoc)
  show "lapic s' c LAPIC_LVT_TIMER AND LAPIC_IMASK = 0" by (simp add: d and.assoc)
  show "lapic s' c LAPIC_LVT_TIMER AND LAPIC_PERIODIC = LAPIC_PERIODIC" by (simp add: d and.assoc)
qed

end
