(* ===== verification/Interrupt_Table.thy ===== *)
theory Interrupt_Table
  imports Console Keyboard Timer "HOL-Library.Multiset"
begin

text \<open>
  The interrupt descriptor table (\<open>kern/init_IDT.c\<close>). The table is in memory at \<open>idt_base\<close>, eight bytes for
  each vector. The handlers are the assembly wrappers: a wrapper is a name, and where the linker has put it is
  the argument \<open>addr\<close>. \<open>gate_at\<close> is what the processor reads from an entry; the gates that the
  initialisation leaves are compared with a table of what each vector is for.
\<close>

section \<open>Writing an entry\<close>

definition IDT_ENTRY_SIZE :: u32 where "IDT_ENTRY_SIZE = 8"
definition GATE_OFFSET_BEGIN :: u32 where "GATE_OFFSET_BEGIN = 0"
definition GATE_OFFSET_MID :: u32 where "GATE_OFFSET_MID = 6"
definition GATE_SEGSEL_BEGIN :: u32 where "GATE_SEGSEL_BEGIN = 2"
definition GATE_OPTION_BEGIN :: u32 where "GATE_OPTION_BEGIN = 4"
definition GATE_TRAP_OPTION :: u16 where "GATE_TRAP_OPTION = 0x700"
definition GATE_INTERRUPT_OPTION :: u16 where "GATE_INTERRUPT_OPTION = 0x600"
definition GATE_OPTION_P :: u16 where "GATE_OPTION_P = 0x8000"
definition GATE_OPTION_DPL0 :: u16 where "GATE_OPTION_DPL0 = 0"
definition GATE_OPTION_DPL3 :: u16 where "GATE_OPTION_DPL3 = 0x6000"
definition GATE_OPTION_D :: u16 where "GATE_OPTION_D = 0x800"
definition SEGSEL_KERNEL_CS :: u16 where "SEGSEL_KERNEL_CS = 0x10"

lemmas gate_consts = IDT_ENTRY_SIZE_def GATE_OFFSET_BEGIN_def GATE_OFFSET_MID_def GATE_SEGSEL_BEGIN_def GATE_OPTION_BEGIN_def
  GATE_TRAP_OPTION_def GATE_INTERRUPT_OPTION_def GATE_OPTION_P_def GATE_OPTION_DPL0_def GATE_OPTION_DPL3_def GATE_OPTION_D_def

type_synonym idt_mem = "u32 \<Rightarrow> u8"

text \<open>\<open>memcpy\<close> of two bytes of a local variable: of a 16-bit one, or of half a 32-bit one.\<close>

definition put16 :: "u32 \<Rightarrow> u16 \<Rightarrow> idt_mem \<Rightarrow> idt_mem" where
  "put16 a v m = m(a := ucast v, a + 1 := ucast (drop_bit 8 v))"

definition fill_handler :: "u32 \<Rightarrow> u32 \<Rightarrow> idt_mem \<Rightarrow> idt_mem" where
  "fill_handler base handler_addr m =
     put16 (base + GATE_OFFSET_MID) (ucast (drop_bit 16 handler_addr)) (put16 (base + GATE_OFFSET_BEGIN) (ucast handler_addr) m)"

definition fill_segsel :: "u32 \<Rightarrow> u16 \<Rightarrow> idt_mem \<Rightarrow> idt_mem" where
  "fill_segsel base segsel m = put16 (base + GATE_SEGSEL_BEGIN) segsel m"

definition fill_option :: "u32 \<Rightarrow> int \<Rightarrow> int \<Rightarrow> idt_mem \<Rightarrow> idt_mem" where
  "fill_option base DPL gate_type m =
     (let gate_type_option = if gate_type = 0 then GATE_TRAP_OPTION else GATE_INTERRUPT_OPTION;
          dpl_option = if DPL = 0 then GATE_OPTION_DPL0 else GATE_OPTION_DPL3;
          option = gate_type_option OR GATE_OPTION_D OR GATE_OPTION_P OR dpl_option
      in put16 (base + GATE_OPTION_BEGIN) option m)"

definition install_IDT_entry :: "u32 \<Rightarrow> nat \<Rightarrow> u32 \<Rightarrow> u16 \<Rightarrow> int \<Rightarrow> int \<Rightarrow> idt_mem \<Rightarrow> idt_mem" where
  "install_IDT_entry idt_base index handler segsel DPL gate_type m =
     (let idt_entry = idt_base + word_of_nat index * IDT_ENTRY_SIZE
      in fill_option idt_entry DPL gate_type (fill_segsel idt_entry segsel (fill_handler idt_entry handler m)))"

section \<open>The table\<close>

datatype wrapper =
    keyboard_wrapper | timer_wrapper | apic_timer_wrapper
  | gettid_wrapper | fork_wrapper | exec_wrapper | print_wrapper | new_pages_wrapper | remove_pages_wrapper
  | swexn_wrapper | halt_wrapper | readline_wrapper | set_term_color_wrapper | set_cursor_pos_wrapper
  | get_cursor_pos_wrapper | sleep_wrapper | get_ticks_wrapper | vanish_wrapper | wait_wrapper | set_status_wrapper
  | yield_wrapper | thread_fork_wrapper | deschedule_wrapper | make_runnable_wrapper | readfile_wrapper
  | de_wrapper | db_wrapper | nmi_wrapper | bp_wrapper | of_wrapper | br_wrapper | ud_wrapper | nm_wrapper | df_wrapper
  | cso_wrapper | ts_wrapper | np_wrapper | ss_wrapper | gp_wrapper | pf_wrapper | mf_wrapper | ac_wrapper | mc_wrapper | xf_wrapper

text \<open>Vector, wrapper, privilege and type (0: trap gate, 1: interrupt gate) of the calls of
  \<open>init_exception_IDT\<close> and \<open>init_IDT\<close>, in their order; the segment is always the kernel's.\<close>

definition exception_entries :: "(nat \<times> wrapper \<times> int \<times> int) list" where
  "exception_entries =
    [(0, de_wrapper, 3, 0), (1, db_wrapper, 3, 0), (2, nmi_wrapper, 3, 0), (3, bp_wrapper, 3, 0), (4, of_wrapper, 3, 0),
     (5, br_wrapper, 3, 0), (6, de_wrapper, 3, 0), (7, nm_wrapper, 3, 0), (8, df_wrapper, 3, 0), (9, cso_wrapper, 3, 0),
     (10, ts_wrapper, 3, 0), (11, np_wrapper, 3, 0), (12, ss_wrapper, 3, 0), (13, gp_wrapper, 3, 0), (14, pf_wrapper, 3, 0),
     (16, mf_wrapper, 3, 0), (17, ac_wrapper, 3, 0), (18, mc_wrapper, 3, 0), (19, xf_wrapper, 3, 0)]"

definition device_and_syscall_entries :: "(nat \<times> wrapper \<times> int \<times> int) list" where
  "device_and_syscall_entries =
    [(0x21, keyboard_wrapper, 0, 1), (0x20, timer_wrapper, 0, 1),
     (0x48, gettid_wrapper, 3, 0), (0x41, fork_wrapper, 3, 0), (0x42, exec_wrapper, 3, 0), (0x4E, print_wrapper, 3, 0),
     (0x49, new_pages_wrapper, 3, 0), (0x4A, remove_pages_wrapper, 3, 0), (0x74, swexn_wrapper, 3, 0),
     (0x55, halt_wrapper, 3, 0), (0x4D, readline_wrapper, 3, 0), (0x4F, set_term_color_wrapper, 3, 0),
     (0x50, set_cursor_pos_wrapper, 3, 0), (0x53, get_ticks_wrapper, 3, 1), (0x4B, sleep_wrapper, 3, 0),
     (0x60, vanish_wrapper, 3, 0), (0x44, wait_wrapper, 3, 0), (0x59, set_status_wrapper, 3, 0),
     (0x45, yield_wrapper, 3, 0), (0x52, thread_fork_wrapper, 3, 0), (0x46, deschedule_wrapper, 3, 0),
     (0x47, make_runnable_wrapper, 3, 0), (0x62, readfile_wrapper, 3, 0), (0x51, get_cursor_pos_wrapper, 3, 0),
     (0x22, apic_timer_wrapper, 0, 1)]"

definition install_all :: "u32 \<Rightarrow> (wrapper \<Rightarrow> u32) \<Rightarrow> (nat \<times> wrapper \<times> int \<times> int) list \<Rightarrow> idt_mem \<Rightarrow> idt_mem" where
  "install_all base addr es =
     fold (\<lambda>(index, w, DPL, gate_type). install_IDT_entry base index (addr w) SEGSEL_KERNEL_CS DPL gate_type) es"

definition init_exception_IDT :: "u32 \<Rightarrow> (wrapper \<Rightarrow> u32) \<Rightarrow> idt_mem \<Rightarrow> idt_mem" where
  "init_exception_IDT base addr = install_all base addr exception_entries"

record devices =
  idt :: idt_mem
  dcon :: console
  dkbd :: keyboard
  dtimers :: timers

definition init_IDT :: "u32 \<Rightarrow> (wrapper \<Rightarrow> u32) \<Rightarrow> devices \<Rightarrow> (devices \<times> int) kres" where
  "init_IDT base addr s =
     (let m = install_all base addr device_and_syscall_entries (idt s);
          m = init_exception_IDT base addr m
      in kbind (init_console_driver (dcon s)) (\<lambda>c.
         Inr (s\<lparr>idt := m, dcon := c, dkbd := init_keyboard_driver (dkbd s), dtimers := init_timer_driver (dtimers s)\<rparr>, 0)))"

section \<open>What the processor reads\<close>

text \<open>The fields of an entry as in the processor's manual: the offset is in the first and the last two bytes,
  the type in bits 8 to 12 of the option word, the privilege in bits 13 and 14, presence in bit 15.\<close>

record gate =
  g_offset :: u32
  g_segment :: u16
  g_type :: u16
  g_dpl :: u16
  g_present :: bool

definition get16 :: "u32 \<Rightarrow> idt_mem \<Rightarrow> u16" where
  "get16 a m = ucast (m a) OR push_bit 8 (ucast (m (a + 1)))"

definition gate_at :: "u32 \<Rightarrow> nat \<Rightarrow> idt_mem \<Rightarrow> gate" where
  "gate_at base v m =
     (let e = base + word_of_nat v * 8; opt = get16 (e + 4) m
      in \<lparr>g_offset = ucast (get16 e m) OR push_bit 16 (ucast (get16 (e + 6) m)), g_segment = get16 (e + 2) m,
          g_type = drop_bit 8 opt AND 0x1F, g_dpl = drop_bit 13 opt AND 3, g_present = bit opt 15\<rparr>)"

text \<open>What each vector is for, in the order of the vectors: the exceptions of the processor (0 to 14 and 16 to 19), the clock, the
  keyboard and the clock of the local APIC, and the system calls by their numbers in \<open>spec/syscall_int.h\<close>. The numbers of that
  list that have no wrapper (\<open>SYSCALL_INT\<close>, \<open>GETCHAR_INT\<close>, \<open>MISBEHAVE_INT\<close>, \<open>TASK_VANISH_INT\<close>) are left out.\<close>

definition vector_table :: "(nat \<times> wrapper) list" where
  "vector_table =
    zip [0 ..< 15] [de_wrapper, db_wrapper, nmi_wrapper, bp_wrapper, of_wrapper, br_wrapper, ud_wrapper, nm_wrapper, df_wrapper,
      cso_wrapper, ts_wrapper, np_wrapper, ss_wrapper, gp_wrapper, pf_wrapper] @
    zip [16 ..< 20] [mf_wrapper, ac_wrapper, mc_wrapper, xf_wrapper] @
    zip [0x20 ..< 0x23] [timer_wrapper, keyboard_wrapper, apic_timer_wrapper] @
    [(0x41, fork_wrapper), (0x42, exec_wrapper), (0x44, wait_wrapper), (0x45, yield_wrapper), (0x46, deschedule_wrapper),
     (0x47, make_runnable_wrapper), (0x48, gettid_wrapper), (0x49, new_pages_wrapper), (0x4A, remove_pages_wrapper), (0x4B, sleep_wrapper),
     (0x4D, readline_wrapper), (0x4E, print_wrapper), (0x4F, set_term_color_wrapper), (0x50, set_cursor_pos_wrapper),
     (0x51, get_cursor_pos_wrapper), (0x52, thread_fork_wrapper), (0x53, get_ticks_wrapper), (0x55, halt_wrapper),
     (0x59, set_status_wrapper), (0x60, vanish_wrapper), (0x62, readfile_wrapper), (0x74, swexn_wrapper)]"

definition kernel_gate :: "u32 \<Rightarrow> int \<Rightarrow> int \<Rightarrow> gate" where
  "kernel_gate handler dpl k =
     \<lparr>g_offset = handler, g_segment = 0x10, g_type = if k = 0 then 0xF else 0xE, g_dpl = if dpl = 0 then 0 else 3, g_present = True\<rparr>"

lemma get16_put16: "get16 a (put16 a v m) = v"
proof (rule bit_word_eqI)
  fix n :: nat assume "n < LENGTH(16)"
  then show "bit (get16 a (put16 a v m)) n = bit v n"
    by (cases "n < 8") (auto simp: get16_def put16_def bit_or_iff bit_push_bit_iff bit_ucast_iff bit_drop_bit_eq)
qed

lemma get16_other: "b \<noteq> a \<Longrightarrow> b \<noteq> a + 1 \<Longrightarrow> b + 1 \<noteq> a \<Longrightarrow> get16 b (put16 a v m) = get16 b m"
  by (simp add: get16_def put16_def)

lemma halves: "ucast (ucast h :: u16) OR push_bit 16 (ucast (ucast (drop_bit 16 h) :: u16)) = (h :: u32)"
proof (rule bit_word_eqI)
  fix n :: nat assume "n < LENGTH(32)"
  then show "bit (ucast (ucast h :: u16) OR push_bit 16 (ucast (ucast (drop_bit 16 h) :: u16)) :: u32) n = bit h n"
    by (cases "n < 16") (auto simp: bit_or_iff bit_push_bit_iff bit_ucast_iff bit_drop_bit_eq)
qed

text \<open>Entries do not overlap.\<close>

lemma entry_apart:
  fixes a b :: u32
  assumes "v < 256" and "i < 256" and "a < 8" and "b < 8"
  shows "word_of_nat v * 8 + a = word_of_nat i * 8 + b \<longleftrightarrow> v = i \<and> a = b"
proof
  have u: "unat (word_of_nat n * 8 + w :: u32) = n * 8 + unat w" if "n < 256" "w < 8" for n w
  proof -
    have "unat w < 8" using that(2) by (simp add: word_less_nat_alt)
    then show ?thesis using that(1) by (simp add: unat_word_ariths unat_word_of_nat32)
  qed
  assume "word_of_nat v * 8 + a = word_of_nat i * 8 + b"
  then have e: "v * 8 + unat a = i * 8 + unat b" using u assms by metis
  have "unat a < 8" "unat b < 8" using assms by (simp_all add: word_less_nat_alt)
  with e have "v = i" by linarith
  with e show "v = i \<and> a = b" by (simp add: word_unat_eq_iff)
qed auto

lemma other_entry:
  fixes a b :: u32
  assumes "v < 256" and "i < 256" and "v \<noteq> i" and "a < 7" and "b < 7"
  shows "get16 (base + word_of_nat v * 8 + a) (put16 (base + word_of_nat i * 8 + b) x m) = get16 (base + word_of_nat v * 8 + a) m"
proof -
  have "a < 8" "b < 8" "a + 1 < 8" "b + 1 < 8" using assms(4,5) by (auto simp: word_less_nat_alt unat_word_ariths)
  with assms(3) show ?thesis
    by (intro get16_other) (simp_all add: add.assoc entry_apart [OF assms(1,2)])
qed

lemma gate_installed:
  assumes "v < 256" and "i < 256"
  shows "gate_at base v (install_IDT_entry base i h SEGSEL_KERNEL_CS dpl k m) = (if v = i then kernel_gate h dpl k else gate_at base v m)"
proof -
  note d = install_IDT_entry_def fill_handler_def fill_segsel_def fill_option_def gate_at_def Let_def gate_consts SEGSEL_KERNEL_CS_def
  show ?thesis
  proof (cases "v = i")
    case True
    have "bit (0x8F00 :: u16) 15" "bit (0x8E00 :: u16) 15" "bit (0xEF00 :: u16) 15" "bit (0xEE00 :: u16) 15" by simp_all
    with True show ?thesis
      by (simp add: d get16_put16 get16_other halves kernel_gate_def)
  next
    case False
    note o = other_entry [OF assms False]
    show ?thesis
      by (simp add: d o o [where a = 0, simplified] o [where b = 0, simplified] o [where a = 0 and b = 0, simplified] False)
  qed
qed

section \<open>The table after boot\<close>

lemma install_all_gates:
  assumes "distinct (map fst es)" and "\<forall>e \<in> set es. fst e < 256" and "v < 256"
  shows "gate_at base v (install_all base addr es m) =
    (case map_of es v of None \<Rightarrow> gate_at base v m | Some (w, dpl, k) \<Rightarrow> kernel_gate (addr w) dpl k)"
  using assms
proof (induction es arbitrary: m)
  case (Cons e es)
  obtain i w dpl k where e: "e = (i, w, dpl, k)" by (cases e)
  with Cons.prems have n: "map_of es i = None" by (simp add: map_of_eq_None_iff)
  show ?case using Cons.prems Cons.IH e n by (auto simp: install_all_def gate_installed split: option.split)
qed (simp add: install_all_def)

definition all_entries :: "(nat \<times> wrapper \<times> int \<times> int) list" where
  "all_entries = device_and_syscall_entries @ exception_entries"

text \<open>Vectors that a user program may name in an \<open>int\<close> instruction: the exceptions and the system calls.\<close>

definition user_vector :: "nat \<Rightarrow> bool" where
  "user_vector v \<longleftrightarrow> v \<le> 19 \<and> v \<noteq> 15 \<or> 0x41 \<le> v \<and> v \<le> 0x53 \<and> v \<noteq> 0x43 \<and> v \<noteq> 0x4C \<or> v \<in> {0x55, 0x59, 0x60, 0x62, 0x74}"

definition interrupt_vector :: "nat \<Rightarrow> bool" where
  "interrupt_vector v \<longleftrightarrow> v \<in> {0x20, 0x21, 0x22, 0x53}"

lemma all_entries_ok: "distinct (map fst all_entries)" "\<forall>e \<in> set all_entries. fst e < 256"
  by (simp_all add: all_entries_def device_and_syscall_entries_def exception_entries_def)

text \<open>The list of the calls, sorted, against the table: the one difference is vector 6.\<close>

definition expected_entries :: "(nat \<times> wrapper \<times> int \<times> int) list" where
  "expected_entries = map (\<lambda>(v, w). (v, if v = 6 then de_wrapper else w, if v \<in> {0x20, 0x21, 0x22} then 0 else 3,
     if interrupt_vector v then 1 else 0)) vector_table"

lemma map_of_map_values: "map_of (map (\<lambda>(v, w). (v, f v w)) xs) v = map_option (f v) (map_of xs v)"
  by (induction xs) auto

lemma all_entries_expected: "map_of all_entries = map_of expected_entries"
proof -
  have e: "sort_key fst all_entries = expected_entries" by code_simp
  then have "set all_entries = set expected_entries" by (metis set_sort)
  moreover have "mset (map fst all_entries) = mset (map fst expected_entries)" unfolding e [symmetric] mset_map by simp
  then have "distinct (map fst expected_entries)" using all_entries_ok(1) mset_eq_imp_distinct_iff by blast
  ultimately show ?thesis using all_entries_ok(1) by (simp add: map_of_inject_set)
qed

lemma vector_table_user: "map_of vector_table v \<noteq> None \<and> v \<notin> {0x20, 0x21, 0x22} \<longleftrightarrow> user_vector v"
proof -
  have "map fst vector_table = [0 ..< 15] @ [16 ..< 20] @ [0x20 ..< 0x23] @ [0x41, 0x42] @ [0x44 ..< 0x4C] @ [0x4D ..< 0x54] @ [0x55, 0x59, 0x60, 0x62, 0x74]"
    by code_simp
  then have "fst ` set vector_table = {0 ..< 15} \<union> {16 ..< 20} \<union> {0x20 ..< 0x23} \<union> {0x41, 0x42} \<union> {0x44 ..< 0x4C} \<union> {0x4D ..< 0x54} \<union> {0x55, 0x59, 0x60, 0x62, 0x74}"
    unfolding set_map [symmetric] by (simp only: set_append set_upt list.set) auto
  then have m: "map_of vector_table v \<noteq> None \<longleftrightarrow> v < 15 \<or> 16 \<le> v \<and> v < 20 \<or> 0x20 \<le> v \<and> v < 0x23 \<or> v = 0x41 \<or> v = 0x42 \<or>
      0x44 \<le> v \<and> v < 0x4C \<or> 0x4D \<le> v \<and> v < 0x54 \<or> v = 0x55 \<or> v = 0x59 \<or> v = 0x60 \<or> v = 0x62 \<or> v = 0x74"
    unfolding map_of_eq_None_iff by (simp add: disj_ac conj_ac)
  show ?thesis unfolding m user_vector_def insert_iff empty_iff by presburger
qed

lemma init_IDT_table:
  assumes "init_IDT base addr s = Inr (s', r)" and "v < 256"
  shows "gate_at base v (idt s') =
    (case map_of all_entries v of None \<Rightarrow> gate_at base v (idt s) | Some (w, dpl, k) \<Rightarrow> kernel_gate (addr w) dpl k)"
proof -
  have "idt s' = install_all base addr all_entries (idt s)"
    using assms(1) by (auto simp: init_IDT_def init_exception_IDT_def install_all_def all_entries_def Let_def kbind_eq_Inr)
  with install_all_gates [OF all_entries_ok assms(2)] show ?thesis by simp
qed

text \<open>C39: the interrupt table after boot. Every vector below 256 except 6 has the gate of what it is for: the address of the wrapper
  that \<open>vector_table\<close> names, entered through the kernel's code segment, present, as an interrupt gate (interrupts stay off) for the three
  devices and for \<open>get_ticks\<close> and as a trap gate otherwise, open to user mode except for the devices; a vector that is for nothing
  keeps what it had. Vector 6, an undefined opcode, has the wrapper of a division error instead of its own. If the table had no
  gates before, a user program can enter the kernel by the exceptions and the served system calls and at no other vector.\<close>

theorem init_IDT_gates:
  assumes "init_IDT base addr s = Inr (s', r)" and "v < 256"
  shows "gate_at base v (idt s') =
      (case map_of vector_table v of None \<Rightarrow> gate_at base v (idt s)
       | Some w \<Rightarrow> \<lparr>g_offset = addr (if v = 6 then de_wrapper else w), g_segment = 0x10,
           g_type = if v \<in> {0x20, 0x21, 0x22, 0x53} then 0xE else 0xF,
           g_dpl = if v \<in> {0x20, 0x21, 0x22} then 0 else 3, g_present = True\<rparr>) \<and>
    (\<not> g_present (gate_at base v (idt s)) \<longrightarrow>
       (g_present (gate_at base v (idt s')) \<and> g_dpl (gate_at base v (idt s')) = 3 \<longleftrightarrow> user_vector v))"
proof -
  have g: "gate_at base v (idt s') =
      (case map_of vector_table v of None \<Rightarrow> gate_at base v (idt s)
       | Some w \<Rightarrow> \<lparr>g_offset = addr (if v = 6 then de_wrapper else w), g_segment = 0x10,
           g_type = if v \<in> {0x20, 0x21, 0x22, 0x53} then 0xE else 0xF,
           g_dpl = if v \<in> {0x20, 0x21, 0x22} then 0 else 3, g_present = True\<rparr>)"
    using init_IDT_table [OF assms]
    unfolding all_entries_expected expected_entries_def map_of_map_values
    by (auto simp: kernel_gate_def interrupt_vector_def split: option.splits)
  then show ?thesis using vector_table_user [of v] by (auto split: option.splits)
qed

definition devices_example :: devices where
  "devices_example = \<lparr>idt = \<lambda>_. 0,
     dcon = \<lparr>vmem = replicate 4000 7, term_color = 0, logical_cursor = 0, is_hidden = False, crtc_lsb = 0, crtc_msb = 0\<rparr>,
     dkbd = \<lparr>keybuf = replicate 256 0, front = 0, rear = 0, kh = (0, 0, 0)\<rparr>,
     dtimers = \<lparr>numTicks = 0, start_numTicks = 0, lapic_timer_init = 0xffffffff, apic_num_ticks = Map.empty,
       finished_init_vm = False, finished_cal_apic_timer = False, ports = [], lapic = \<lambda>_ _. 0\<rparr>\<rparr>"

theorem init_IDT_gates_witness:
  "\<exists>s'. init_IDT 0x1000 (\<lambda>w. if w = fork_wrapper then 0x123456 else 0x100000) devices_example = Inr (s', 0) \<and>
     g_offset (gate_at 0x1000 0x41 (idt s')) = 0x123456 \<and> g_dpl (gate_at 0x1000 0x41 (idt s')) = 3 \<and>
     \<not> (g_present (gate_at 0x1000 0x21 (idt s')) \<and> g_dpl (gate_at 0x1000 0x21 (idt s')) = 3)"
proof -
  define f :: "wrapper \<Rightarrow> u32" where "f w = (if w = fork_wrapper then 0x123456 else 0x100000)" for w
  obtain s' where s': "init_IDT 0x1000 f devices_example = Inr (s', 0)"
    by (auto simp: init_IDT_def Let_def init_console_driver_def vread_def devices_example_def)
  have n: "\<not> g_present (gate_at 0x1000 v (idt devices_example))" for v
    by (simp add: gate_at_def Let_def devices_example_def get16_def)
  have m: "map_of vector_table 0x41 = Some fork_wrapper" by code_simp
  have "g_offset (gate_at 0x1000 0x41 (idt s')) = 0x123456" "g_dpl (gate_at 0x1000 0x41 (idt s')) = 3"
    using init_IDT_gates [where v = "0x41", OF s'] m by (simp_all add: f_def)
  moreover have "\<not> (g_present (gate_at 0x1000 0x21 (idt s')) \<and> g_dpl (gate_at 0x1000 0x21 (idt s')) = 3)"
    using conjunct2 [OF init_IDT_gates [where v = "0x21", OF s']] n by (auto simp: user_vector_def)
  ultimately show ?thesis using s' unfolding f_def by blast
qed

text \<open>Vector 6, an undefined opcode, is entered at the wrapper of a division error, which reports exception 0;
  the wrapper \<open>ud_wrapper\<close> is in no entry.\<close>

lemma undefined_opcode_as_division:
  assumes "init_IDT base addr s = Inr (s', r)"
  shows "g_offset (gate_at base 6 (idt s')) = addr de_wrapper" and "\<forall>(v, w, dpl, k) \<in> set all_entries. w \<noteq> ud_wrapper"
proof -
  have "map_of all_entries 6 = Some (de_wrapper, 3, 0)" by (simp add: all_entries_def device_and_syscall_entries_def exception_entries_def)
  then show "g_offset (gate_at base 6 (idt s')) = addr de_wrapper" using init_IDT_table [OF assms, of 6] by (simp add: kernel_gate_def)
  show "\<forall>(v, w, dpl, k) \<in> set all_entries. w \<noteq> ud_wrapper"
    by (simp add: all_entries_def device_and_syscall_entries_def exception_entries_def)
qed

end
