(* ===== verification/Boot.thy ===== *)
theory Boot
  imports Message_Types Run_Queue Thread_Mgmt Syscall_Lifecycle Interrupt_Table
begin

text \<open>
  Booting (\<open>kern/kernel.c\<close>, \<open>kern/ap_kernel.c\<close>, the first half of \<open>smp_manager_boot\<close> in
  \<open>kern/smp_manager_scheduler.c\<close>, and \<open>loadFirstTask\<close>,
  \<open>load_idle_process\<close>, \<open>loadMailboxTask\<close> in \<open>kern/loader.c\<close>), composed of the initialisations of the components.

  Core 0 initialises its own structures, waits for the calibration of the timer, becomes the manager and
  starts the other cores; each of these then initialises its own part of the state and loads its idle task.
  What the machine reports (number of cores, memory, the address of the local APICs) is the record
  \<open>machine_info\<close>; a core that runs is the one in \<open>vcpu\<close>. Assembly that only moves to another stack is left out.
\<close>

section \<open>The cores\<close>

record machine_info =
  mi_phys :: int                        \<comment> \<open>frames of the machine\<close>
  mi_cpus :: nat
  mi_lapic :: u32
  mi_toc :: file_table
  mi_elf :: elf_reader
  mi_eflags :: u32
  mi_idt_base :: u32
  mi_addr :: "wrapper \<Rightarrow> u32"
  mi_pm_mem :: "nat \<Rightarrow> bool \<times> bool \<times> bool"   \<comment> \<open>answers of the allocator in \<open>init_pm\<close> of each core\<close>
  mi_tick_mem :: "nat \<Rightarrow> bool"            \<comment> \<open>and in \<open>init_lapic_timer_driver\<close>\<close>

record boot_st =
  bk :: kst
  bidt :: idt_mem
  btm :: timers
  bdot :: "u8 list option"
  bprint :: mutex_t

definition with_k :: "(kst \<Rightarrow> kst kres) \<Rightarrow> boot_st \<Rightarrow> boot_st kres" where
  "with_k f b = kbind (f (bk b)) (\<lambda>s. Inr (b\<lparr>bk := s\<rparr>))"

text \<open>\<open>if (f() < 0) panic(...)\<close>\<close>

definition must :: "kst \<times> int \<Rightarrow> kst kres" where
  "must = (\<lambda>(s, rv). if rv < 0 then Inl PANIC else Inr s)"

definition kmalloc_init :: "nat \<Rightarrow> kst \<Rightarrow> kst \<times> int" where
  "kmalloc_init c s =
     (case kmalloc s of (s, p) \<Rightarrow>
      if p = NULL then (s, - 1)
      else case mutex_init (malloc_lib_locks s c) of (m, rv) \<Rightarrow>
        (s\<lparr>malloc_lib_locks := (malloc_lib_locks s)(c := m)\<rparr>, if rv < 0 then - 1 else 0))"

text \<open>The structures that every core has of its own: the end of \<open>kernel_init\<close> and of \<open>ap_kernel_init\<close>.\<close>

definition init_core :: "nat \<Rightarrow> kst \<Rightarrow> kst kres" where
  "init_core c s =
     kbind (must (context_switcher_init c s)) (\<lambda>s.
     kbind (must (scheduler_init c s)) (\<lambda>s.
     kbind (must (syscall_vanish_init c s)) (\<lambda>s.
     kbind (must (syscall_deschedule_init c s)) (\<lambda>s.
     must (syscall_sleep_init c s)))))"

definition boot_init_IDT :: "machine_info \<Rightarrow> boot_st \<Rightarrow> boot_st kres" where
  "boot_init_IDT mi b =
     kbind (init_IDT (mi_idt_base mi) (mi_addr mi) \<lparr>idt = bidt b, dcon = con (bk b), dkbd = kbd (bk b), dtimers = btm b\<rparr>) (\<lambda>(d, rv).
     if rv < 0 then Inl PANIC
     else Inr (b\<lparr>bidt := idt d, bk := (bk b)\<lparr>con := dcon d, kbd := dkbd d\<rparr>, btm := dtimers d\<rparr>))"

definition boot_init_vm :: "machine_info \<Rightarrow> kst \<Rightarrow> kst kres" where
  "boot_init_vm mi s =
     (case mi_pm_mem mi 0 of (ok1, ok2, ok3) \<Rightarrow>
      kbind (init_vm (mi_phys mi) (mi_cpus mi) (mi_lapic mi) ok1 ok2 ok3 (kvm s)) (\<lambda>(v, rv).
      must (s\<lparr>kvm := v\<rparr>, rv)))"

definition kernel_init :: "machine_info \<Rightarrow> boot_st \<Rightarrow> boot_st kres" where
  "kernel_init mi b =
     kbind (with_k (\<lambda>s. must (kmalloc_init 0 s)) b) (\<lambda>b.
     kbind (boot_init_IDT mi b) (\<lambda>b.
     kbind (with_k (boot_init_vm mi) b) (\<lambda>b.
     let b = b\<lparr>btm := (btm b)\<lparr>finished_init_vm := True\<rparr>\<rparr> in
     kbind (with_k (init_core 0) b) (\<lambda>b.
     case syscall_readfile_init (mi_toc mi) (bk b) of (s, dot, rv) \<Rightarrow>
     if rv < 0 then Inl PANIC
     else kbind (clear_console (con s)) (\<lambda>cn. Inr (b\<lparr>bk := s\<lparr>con := cn\<rparr>, bdot := dot\<rparr>))))))"

definition loadMailboxTask :: "kst \<Rightarrow> (kst \<times> u32) kres" where
  "loadMailboxTask s =
     kbind (tcb_create_idle_process 0 NORMAL (cr3 (kvm s)) s) (\<lambda>(s, thread).
     if thread = NULL then Inl PANIC
     else Inr (s\<lparr>idle_thr := (idle_thr s)(0 := NULL)\<rparr>, thread))"

text \<open>\<open>kernel_main\<close> after \<open>smp_init\<close> and \<open>dist_kernel_mem\<close>. \<open>curs\<close>: the interrupts of the interval timer until the
  wait for the calibration ends, with what the counter of the local APIC shows at each.\<close>

definition kernel_main :: "machine_info \<Rightarrow> u32 list \<Rightarrow> boot_st \<Rightarrow> (boot_st \<times> u32) kres" where
  "kernel_main mi curs b =
     kbind (kernel_init mi b) (\<lambda>b.
     kbind (pic_run curs (btm b)) (\<lambda>t.
     if \<not> finished_cal_apic_timer t then Inl SPINS
     else kbind (loadMailboxTask (bk b)) (\<lambda>(s, thread). Inr (b\<lparr>bk := s, btm := t\<rparr>, thread))))"

text \<open>The initialisations of \<open>smp_manager_boot\<close> before the other cores are started.\<close>

definition manager_init :: "machine_info \<Rightarrow> boot_st \<Rightarrow> boot_st kres" where
  "manager_init mi b =
     kbind (with_k (\<lambda>s. kbind (msg_init (mi_cpus mi) s) must) b) (\<lambda>b.
     kbind (with_k (\<lambda>s. must (smp_syscall_vanish_init s)) b) (\<lambda>b.
     case smp_syscall_print_init (bprint b) of (m, rv) \<Rightarrow>
     if rv < 0 then Inl PANIC
     else
       kbind (with_k (\<lambda>s. must (smp_syscall_read_init s)) (b\<lparr>bprint := m\<rparr>)) (\<lambda>b.
       kbind (init_lapic_timer_driver (mi_tick_mem mi 0) 0 (btm b)) (\<lambda>t. Inr (b\<lparr>btm := t\<rparr>)))))"

text \<open>\<open>ap_kernel_init\<close>.\<close>

definition boot_init_pm :: "machine_info \<Rightarrow> nat \<Rightarrow> kst \<Rightarrow> kst kres" where
  "boot_init_pm mi c s =
     (case mi_pm_mem mi c of (ok1, ok2, ok3) \<Rightarrow>
      kbind (init_pm (mi_phys mi) (int (mi_cpus mi)) (mi_lapic mi) ok1 ok2 ok3 c (pmem (kvm s))) (\<lambda>(p, rv).
      must (s\<lparr>kvm := (kvm s)\<lparr>pmem := p\<rparr>\<rparr>, rv)))"

definition ap_kernel_init :: "machine_info \<Rightarrow> nat \<Rightarrow> kst \<Rightarrow> kst kres" where
  "ap_kernel_init mi c s =
     (let s = s\<lparr>kvm := adopt_init_pd c ((kvm s)\<lparr>vcpu := c\<rparr>)\<rparr> in
      kbind (must (kmalloc_init c s)) (\<lambda>s.
      kbind (boot_init_pm mi c s) (\<lambda>s.
      kbind (kbind (init_ap_msg c s) must) (init_core c))))"

text \<open>The result is the thread on whose stack \<open>load_idle_process\<close> goes on.\<close>

definition loadFirstTask :: "nat \<Rightarrow> kst \<Rightarrow> (kst \<times> u32) kres" where
  "loadFirstTask c s =
     kbind (tcb_create_idle_process c NORMAL (cr3 (kvm s)) s) (\<lambda>(s, thread).
     if thread = NULL then Inl PANIC else Inr (s, thread))"

definition IDLE :: "u8 list" where "IDLE = [105, 100, 108, 101]"

definition load_idle_process :: "machine_info \<Rightarrow> nat \<Rightarrow> u8 list \<Rightarrow> u32 \<Rightarrow> boot_st \<Rightarrow> (boot_st \<times> kexit) kres" where
  "load_idle_process mi c filename thread b =
     kbind (init_lapic_timer_driver (mi_tick_mem mi c) c (btm b)) (\<lambda>tm.
     kbind (loadTask (mi_toc mi) (mi_elf mi) c thread filename [filename] (bk b)) (\<lambda>(s, r).
     case r of Inl e \<Rightarrow> Inl PANIC
     | Inr (usr_esp, my_program) \<Rightarrow>
         let s = s\<lparr>idle_thr := (idle_thr s)(c := thread)\<rparr> in
         kbind (get_tcb thread s) (\<lambda>t.
         kbind (load_kernel_stack (mi_eflags mi) c (k_stack_esp t) usr_esp my_program (filename = IDLE) s) (\<lambda>(s, x).
         Inr (b\<lparr>bk := s, btm := tm\<rparr>, x)))))"

text \<open>\<open>ap_kernel_main\<close> up to the stack of the idle thread, and all of it.\<close>

definition start_core :: "machine_info \<Rightarrow> nat \<Rightarrow> kst \<Rightarrow> (kst \<times> u32) kres" where
  "start_core mi c s = kbind (ap_kernel_init mi c s) (loadFirstTask c)"

definition ap_kernel_main :: "machine_info \<Rightarrow> nat \<Rightarrow> boot_st \<Rightarrow> (boot_st \<times> kexit) kres" where
  "ap_kernel_main mi c b =
     kbind (start_core mi c (bk b)) (\<lambda>(s, thread). load_idle_process mi c IDLE thread (b\<lparr>bk := s\<rparr>))"

text \<open>\<open>smp_manager_boot\<close> up to its loop: \<open>smp_boot\<close> starts the cores, here one after the other in the order
  \<open>cores\<close>, and \<open>msg_synchronize\<close> waits for all of them.\<close>

primrec boot_cores :: "machine_info \<Rightarrow> nat list \<Rightarrow> boot_st \<Rightarrow> boot_st kres" where
  "boot_cores mi [] b = Inr b"
| "boot_cores mi (c # cores) b = kbind (ap_kernel_main mi c b) (\<lambda>(b, x). boot_cores mi cores b)"

definition smp_manager_boot :: "machine_info \<Rightarrow> nat list \<Rightarrow> boot_st \<Rightarrow> boot_st kres" where
  "smp_manager_boot mi cores b = kbind (manager_init mi b) (boot_cores mi cores)"

section \<open>A worker core after its initialisation\<close>

text \<open>The next \<open>n\<close> calls of \<open>malloc\<close> succeed.\<close>

primrec plenty :: "nat \<Rightarrow> u32 list \<Rightarrow> bool" where
  "plenty 0 h = True"
| "plenty (Suc n) h = (case h of [] \<Rightarrow> False | a # r \<Rightarrow> a \<noteq> NULL \<and> plenty n r)"

lemma plenty_kmalloc: "plenty (Suc n) (heap s) \<Longrightarrow> \<exists>a r. kmalloc s = (s\<lparr>heap := r\<rparr>, a) \<and> a \<noteq> NULL \<and> plenty n r"
  by (auto simp: kmalloc_def split: list.splits)

lemma plenty_Suc: "plenty (Suc n) h \<longleftrightarrow> (\<exists>a r. h = a # r \<and> a \<noteq> NULL \<and> plenty n r)"
  by (auto split: list.splits)

lemma plenty_iff: "plenty n h \<longleftrightarrow> n \<le> length h \<and> NULL \<notin> set (take n h)"
  by (induction n arbitrary: h) (auto split: list.splits)

lemma mutex_init_free: "mutex_init m = (free_mutex, 0)"
  by (simp add: mutex_init_def free_mutex_def)

lemma init_core_ok:
  assumes "plenty (9 + n) (heap s)"
  shows "\<exists>h. plenty n h \<and> init_core c s = Inr (s\<lparr>heap := h, queues := (queues s)(c := []), zombie_lists := (zombie_lists s)(c := []),
    zombie_list_locks := (zombie_list_locks s)(c := free_mutex),
    deschedule_queues := (deschedule_queues s)(c := []), sleep_queue := (sleep_queue s)(c := \<lparr>nodes = [], compare = sleep_queue_compare\<rparr>)\<rparr>)"
proof -
  from assms obtain a b c d e f g h i r where "heap s = a # b # c # d # e # f # g # h # i # r" "plenty n r"
    "a \<noteq> NULL" "b \<noteq> NULL" "c \<noteq> NULL" "d \<noteq> NULL" "e \<noteq> NULL" "f \<noteq> NULL" "g \<noteq> NULL" "h \<noteq> NULL" "i \<noteq> NULL"
    by (auto simp: numeral_eq_Suc plenty_Suc simp del: plenty.simps)
  then show ?thesis
    by (intro exI [of _ r]) (simp add: kmalloc_def must_def init_core_def context_switcher_init_def scheduler_init_def
      syscall_vanish_init_def syscall_deschedule_init_def syscall_sleep_init_def pri_queue_init_def mutex_init_free)
qed

text \<open>The memory of the core: its tree is built with the size that core 0 has set.\<close>

definition frames_divided :: "pm \<Rightarrow> bool" where
  "frames_divided p \<longleftrightarrow> 32 < num_free_frames_per_core p \<and> num_free_frames_per_core p < 2 ^ 31 \<and>
     max_num (seg p) = nat (num_free_frames_per_core p) \<and> size_n (seg p) = leaves_for (num_free_frames_per_core p)"

lemma init_pm_worker:
  assumes "frames_divided p" and "c \<noteq> 0" and "(int c + 1) * num_free_frames_per_core p * 4096 + 0x1000000 \<le> 2 ^ 32"
  shows "\<exists>p'. init_pm phys cpus lap True True True c p = Inr (p', 0) \<and> pm_ok c p' \<and> frames_divided p' \<and>
    num_free_frames_per_core p' = num_free_frames_per_core p \<and>
    seg_frees c (seg p') = {..<nat (num_free_frames_per_core p)} \<and> num_free_frames_left p' c = Some (num_free_frames_per_core p) \<and>
    (\<forall>d. d \<noteq> c \<longrightarrow> seg_tree (seg p') d = seg_tree (seg p) d \<and> pm_lock p' d = pm_lock p d \<and> num_free_frames_left p' d = num_free_frames_left p d)"
proof -
  from assms(1) have d: "32 < num_free_frames_per_core p" "num_free_frames_per_core p < 2 ^ 31"
    "max_num (seg p) = nat (num_free_frames_per_core p)" "size_n (seg p) = leaves_for (num_free_frames_per_core p)"
    by (simp_all add: frames_divided_def)
  from init_seg_tree_worker [OF d assms(2)] obtain t where
    t: "init_seg_tree c True (num_free_frames_per_core p) (seg p) = Inr ((seg p)\<lparr>seg_tree := (seg_tree (seg p))(c := Some t)\<rparr>, 0)"
      "seg_ok c ((seg p)\<lparr>seg_tree := (seg_tree (seg p))(c := Some t)\<rparr>)"
      "seg_frees c ((seg p)\<lparr>seg_tree := (seg_tree (seg p))(c := Some t)\<rparr>) = {..<nat (num_free_frames_per_core p)}" by blast
  then show ?thesis using assms d by (simp add: init_pm_def Let_def mutex_init_free pm_ok_def frames_divided_def zless_nat_eq_int_zless)
qed

text \<open>Core 0 divides the frames when it initialises its own memory.\<close>

lemma init_pm_divides:
  assumes n: "n = (phys - 4096) div cpus" and "32 < n" and "n < 2 ^ 31" and "n * 4096 + 0x1000000 \<le> 2 ^ 32"
  shows "\<exists>p'. init_pm phys cpus lap True True True 0 p = Inr (p', 0) \<and> frames_divided p' \<and> pm_ok 0 p' \<and>
    num_free_frames_per_core p' = n \<and> seg_frees 0 (seg p') = {..<nat n}"
proof -
  from init_seg_tree_correct [OF assms(2,3), of "seg p"] obtain g where
    g: "init_seg_tree 0 True n (seg p) = Inr (g, 0)" "seg_ok 0 g" "seg_frees 0 g = {..<nat n}" "max_num g = nat n" "size_n g = leaves_for n"
    by blast
  have e: "(phys - int (unat USER_MEM_START div PAGE_SIZE)) div cpus = n" using n by (simp add: USER_MEM_START_def PAGE_SIZE_def)
  show ?thesis unfolding init_pm_def e using g assms(2-4)
    by (simp add: Let_def mutex_init_free pm_ok_def frames_divided_def zless_nat_eq_int_zless)
qed

lemma init_ap_msg_ok:
  assumes "plenty (4 + n) (heap s)" and "0 < c" and "c \<le> num_worker_cores s"
  shows "\<exists>h. plenty n h \<and> init_ap_msg c s =
    Inr (s\<lparr>heap := h, msg_queues := (msg_queues s)((c - 1) * 2 := [], (c - 1) * 2 + 1 := [])\<rparr>, 0)"
proof -
  from assms(1) obtain a b c d r where "heap s = a # b # c # d # r" "plenty n r" "a \<noteq> NULL" "b \<noteq> NULL" "c \<noteq> NULL" "d \<noteq> NULL"
    by (auto simp: numeral_eq_Suc plenty_Suc simp del: plenty.simps)
  then show ?thesis using assms(2,3) by (intro exI [of _ r]) (simp add: kmalloc_def init_ap_msg_def)
qed

text \<open>What \<open>ap_kernel_init\<close> leaves: the queues of the core are empty, its locks free, and all frames of its share
  of the memory are in its pool.\<close>

definition core_fresh :: "nat \<Rightarrow> kst \<Rightarrow> bool" where
  "core_fresh c s \<longleftrightarrow> queues s c = [] \<and> msg_queues s ((c - 1) * 2) = [] \<and> msg_queues s ((c - 1) * 2 + 1) = [] \<and>
     zombie_lists s c = [] \<and> zombie_list_locks s c = free_mutex \<and> malloc_lib_locks s c = free_mutex \<and>
     deschedule_queues s c = [] \<and> sleeping c s = [] \<and> sleep_ok c s \<and> pm_ok c (pmem (kvm s)) \<and>
     seg_frees c (seg (pmem (kvm s))) = {..<nat (num_free_frames_per_core (pmem (kvm s)))}"

text \<open>What the other cores have is not touched.\<close>

definition others_kept :: "nat \<Rightarrow> kst \<Rightarrow> kst \<Rightarrow> bool" where
  "others_kept c s s' \<longleftrightarrow> life s' = life s \<and> size_n (seg (pmem (kvm s'))) = size_n (seg (pmem (kvm s))) \<and>
     num_free_frames_per_core (pmem (kvm s')) = num_free_frames_per_core (pmem (kvm s)) \<and> (\<forall>d. d \<noteq> c \<longrightarrow>
     queues s' d = queues s d \<and> (0 < d \<longrightarrow> msg_queues s' ((d - 1) * 2) = msg_queues s ((d - 1) * 2) \<and>
       msg_queues s' ((d - 1) * 2 + 1) = msg_queues s ((d - 1) * 2 + 1)) \<and>
     zombie_lists s' d = zombie_lists s d \<and> zombie_list_locks s' d = zombie_list_locks s d \<and>
     malloc_lib_locks s' d = malloc_lib_locks s d \<and> deschedule_queues s' d = deschedule_queues s d \<and>
     sleep_queue s' d = sleep_queue s d \<and> pm_lock (pmem (kvm s')) d = pm_lock (pmem (kvm s)) d \<and>
     seg_tree (seg (pmem (kvm s'))) d = seg_tree (seg (pmem (kvm s))) d \<and>
     num_free_frames_left (pmem (kvm s')) d = num_free_frames_left (pmem (kvm s)) d)"

lemma ap_kernel_init_ok:
  assumes "plenty (14 + n) (heap s)" and "0 < c" and "c \<le> num_worker_cores s" and "mi_pm_mem mi c = (True, True, True)"
    and "frames_divided (pmem (kvm s))" and "(int c + 1) * num_free_frames_per_core (pmem (kvm s)) * 4096 + 0x1000000 \<le> 2 ^ 32"
  shows "\<exists>s'. ap_kernel_init mi c s = Inr s' \<and> plenty n (heap s') \<and> core_fresh c s' \<and> others_kept c s s' \<and>
    frames_divided (pmem (kvm s')) \<and>
    kstacks s' = kstacks s \<and> tcbs s' = tcbs s \<and> num_worker_cores s' = num_worker_cores s \<and>
    cr3 (kvm s') = init_page_dir (kvm s) c \<and> cr0_pg (kvm s')"
proof -
  from assms(1) obtain a r where h: "heap s = a # r" "a \<noteq> NULL" "plenty (4 + (9 + n)) r"
    by (auto simp: numeral_eq_Suc plenty_Suc simp del: plenty.simps)
  obtain p' where p': "init_pm (mi_phys mi) (int (mi_cpus mi)) (mi_lapic mi) True True True c (pmem (kvm s)) = Inr (p', 0)"
    "pm_ok c p'" "frames_divided p'" "num_free_frames_per_core p' = num_free_frames_per_core (pmem (kvm s))"
    "seg_frees c (seg p') = {..<nat (num_free_frames_per_core (pmem (kvm s)))}"
    "\<forall>d. d \<noteq> c \<longrightarrow> seg_tree (seg p') d = seg_tree (seg (pmem (kvm s))) d \<and> pm_lock p' d = pm_lock (pmem (kvm s)) d \<and> num_free_frames_left p' d = num_free_frames_left (pmem (kvm s)) d"
    using init_pm_worker [OF assms(5) _ assms(6), of "mi_phys mi" "int (mi_cpus mi)" "mi_lapic mi"] assms(2) by auto
  define s1 where "s1 = s\<lparr>heap := r, malloc_lib_locks := (malloc_lib_locks s)(c := free_mutex),
    kvm := (adopt_init_pd c ((kvm s)\<lparr>vcpu := c\<rparr>))\<lparr>pmem := p'\<rparr>\<rparr>"
  have "plenty (4 + (9 + n)) (heap s1)" "c \<le> num_worker_cores s1" using h(3) assms(3) by (simp_all add: s1_def)
  from init_ap_msg_ok [OF this(1) assms(2) this(2)] obtain h2 where
    m: "plenty (9 + n) h2" "init_ap_msg c s1 = Inr (s1\<lparr>heap := h2, msg_queues := (msg_queues s1)((c - 1) * 2 := [], (c - 1) * 2 + 1 := [])\<rparr>, 0)"
    by blast
  define s2 where "s2 = s1\<lparr>heap := h2, msg_queues := (msg_queues s1)((c - 1) * 2 := [], (c - 1) * 2 + 1 := [])\<rparr>"
  have "plenty (9 + n) (heap s2)" using m(1) by (simp add: s2_def)
  from init_core_ok [OF this, of c] obtain h3 where h3: "plenty n h3" and
    k: "init_core c s2 = Inr (s2\<lparr>heap := h3, queues := (queues s2)(c := []), zombie_lists := (zombie_lists s2)(c := []),
    zombie_list_locks := (zombie_list_locks s2)(c := free_mutex),
    deschedule_queues := (deschedule_queues s2)(c := []), sleep_queue := (sleep_queue s2)(c := \<lparr>nodes = [], compare = sleep_queue_compare\<rparr>)\<rparr>)"
    by blast
  have "ap_kernel_init mi c s = kbind (kbind (init_ap_msg c s1) must) (init_core c)"
    using h(1,2) p'(1) assms(4)
    by (simp add: ap_kernel_init_def Let_def kmalloc_init_def kmalloc_def mutex_init_free must_def boot_init_pm_def s1_def adopt_init_pd_def
        enable_paging_def)
  then have "ap_kernel_init mi c s = init_core c s2" using m(2) by (simp add: must_def s2_def)
  moreover have "(d - Suc 0) * 2 \<noteq> (c - Suc 0) * 2" "(d - Suc 0) * 2 \<noteq> Suc ((c - Suc 0) * 2)" if "0 < d" "d \<noteq> c" for d
    using that assms(2) by presburger+
  ultimately show ?thesis using k h3 p' assms(2)
    using assms(5) by (auto simp: s2_def s1_def core_fresh_def others_kept_def sleep_ok_def frames_divided_def adopt_init_pd_def enable_paging_def)
qed

section \<open>All worker cores\<close>

lemma loadFirstTask_ok:
  assumes "kstacks s = k # ks" and "k \<noteq> NULL" and "unat k mod 8192 = 0" and "plenty (2 + n) (heap s)"
  shows "\<exists>h M N P t. plenty n h \<and> state t = NORMAL \<and> k_stack_esp t = k + 8160 \<and> ori_cpu t = int c \<and> k + 8160 \<noteq> NULL \<and>
    loadFirstTask c s =
      Inr (s\<lparr>kstacks := ks, heap := h, msgs := M, id_count := N, tcbs := (tcbs s)(k + 8160 \<mapsto> t), pcbs := P\<rparr>, k + 8160)"
proof -
  from assms(4) obtain a b r where h: "heap s = a # b # r" "a \<noteq> NULL" "b \<noteq> NULL" "plenty n r"
    by (auto simp: numeral_eq_Suc plenty_Suc simp del: plenty.simps)
  have e: "tcb_get_entry k = k + 8160" using stack_entry [OF assms(3), of 0] by simp
  then have e': "tcb_get_high_addr k = k + 8160" by (simp add: tcb_get_entry_def)
  have ne: "k + 8160 \<noteq> NULL"
  proof
    assume "k + 8160 = NULL"
    then have "k = 0xffffe020" by (simp add: eq_neg_iff_add_eq_0 [symmetric])
    with assms(3) show False by simp
  qed
  obtain L where L: "init_pt_locks [0 ..< NUM_PT_LOCKS_PER_PD] raw_locks = (L, None)"
    using pt_locks_ready by metis
  define t where "t = \<lparr>k_stack_esp = k + 8160, tid = id_count s + 1, pcb = b, result = sint (rd32 (k + 8160 + 12) (kmem s)),
    state = NORMAL, swexn_struct = NULL, my_msg = a, ori_cpu = int c\<rparr>"
  show ?thesis
    by (intro exI [of _ r] exI [of _ "(msgs s)(a \<mapsto> raw_msg)"] exI [of _ "id_count s + 1"] exI [of _ t]
        exI [of _ "(pcbs s)(b \<mapsto> \<lparr>pid = tid t, page_table_base = cr3 (kvm s), ppid = 0, status = 0, cur_thr_num = 1, task_pt_locks = L\<rparr>)"])
      (use assms(1,2) h e e' ne L in \<open>simp add: loadFirstTask_def tcb_create_idle_process_def tcb_create_thread_only_def smemalign_stack_def
        kmalloc_def Let_def mod_tcb_def get_tcb_def t_def\<close>)
qed

definition core_can_boot :: "machine_info \<Rightarrow> kst \<Rightarrow> nat \<Rightarrow> bool" where
  "core_can_boot mi s c \<longleftrightarrow> 0 < c \<and> c \<le> num_worker_cores s \<and> mi_pm_mem mi c = (True, True, True) \<and>
     (int c + 1) * num_free_frames_per_core (pmem (kvm s)) * 4096 + 0x1000000 \<le> 2 ^ 32"

text \<open>The core is initialised and its first thread exists.\<close>

definition core_started :: "nat \<Rightarrow> u32 \<Rightarrow> kst \<Rightarrow> bool" where
  "core_started c p s \<longleftrightarrow> core_fresh c s \<and> p \<noteq> NULL \<and> (\<exists>t. tcbs s p = Some t \<and> state t = NORMAL \<and> ori_cpu t = int c)"

lemma start_core_ok:
  assumes "plenty (16 + n) (heap s)" and "core_can_boot mi s c" and "frames_divided (pmem (kvm s))"
    and "kstacks s = k # ks" and "k \<noteq> NULL" and "unat k mod 8192 = 0"
  shows "\<exists>s' t. start_core mi c s = Inr (s', k + 8160) \<and> core_started c (k + 8160) s' \<and> others_kept c s s' \<and>
    plenty n (heap s') \<and> frames_divided (pmem (kvm s')) \<and> kstacks s' = ks \<and> tcbs s' = (tcbs s)(k + 8160 \<mapsto> t) \<and>
    num_worker_cores s' = num_worker_cores s"
proof -
  have "plenty (14 + (2 + n)) (heap s)" using assms(1) by simp
  then obtain s1 where s1: "ap_kernel_init mi c s = Inr s1" "plenty (2 + n) (heap s1)" "core_fresh c s1" "others_kept c s s1"
    "frames_divided (pmem (kvm s1))" "kstacks s1 = kstacks s" "tcbs s1 = tcbs s" "num_worker_cores s1 = num_worker_cores s"
    using ap_kernel_init_ok [of "2 + n" s c mi] assms(2,3) unfolding core_can_boot_def by blast
  with assms(4) have "kstacks s1 = k # ks" by simp
  from loadFirstTask_ok [OF this assms(5,6) s1(2), of c] obtain h M N P t where
    t: "plenty n h" "state t = NORMAL" "ori_cpu t = int c" "k + 8160 \<noteq> NULL"
      "loadFirstTask c s1 = Inr (s1\<lparr>kstacks := ks, heap := h, msgs := M, id_count := N, tcbs := (tcbs s1)(k + 8160 \<mapsto> t), pcbs := P\<rparr>, k + 8160)"
    by blast
  then show ?thesis using s1
    by (auto simp: start_core_def core_started_def core_fresh_def others_kept_def sleep_ok_def)
qed

lemma core_fresh_kept:
  assumes "core_fresh d s" and "others_kept c s s'" and "d \<noteq> c" and "0 < d"
  shows "core_fresh d s'"
proof -
  have "seg_ok d (seg (pmem (kvm s'))) = seg_ok d (seg (pmem (kvm s)))" "seg_frees d (seg (pmem (kvm s'))) = seg_frees d (seg (pmem (kvm s)))"
    using assms(2,3) unfolding seg_ok_def seg_frees_def others_kept_def by (simp_all only: not_False_eq_True simp_thms)
  with assms show ?thesis by (simp add: core_fresh_def others_kept_def sleep_ok_def pm_ok_def)
qed

text \<open>The cores that \<open>smp_boot\<close> starts, with the first thread of each.\<close>

primrec start_cores :: "machine_info \<Rightarrow> nat list \<Rightarrow> kst \<Rightarrow> (kst \<times> (nat \<times> u32) list) kres" where
  "start_cores mi [] s = Inr (s, [])"
| "start_cores mi (c # cores) s =
     kbind (start_core mi c s) (\<lambda>(s, thread).
     kbind (start_cores mi cores s) (\<lambda>(s, th). Inr (s, (c, thread) # th)))"

text \<open>A block of memory for the stack of each core.\<close>

definition good_stacks :: "u32 list \<Rightarrow> bool" where
  "good_stacks ks \<longleftrightarrow> distinct ks \<and> (\<forall>k \<in> set ks. k \<noteq> NULL \<and> unat k mod 8192 = 0)"

lemma core_started_kept:
  assumes "core_started d p s" and "others_kept c s s'" and "d \<noteq> c" and "0 < d" and "tcbs s' = (tcbs s)(q \<mapsto> t)" and "p \<noteq> q"
  shows "core_started d p s'"
  using assms core_fresh_kept [OF _ assms(2-4)] by (auto simp: core_started_def)

lemma core_can_boot_kept:
  "core_can_boot mi s d \<Longrightarrow> others_kept c s s' \<Longrightarrow> num_worker_cores s' = num_worker_cores s \<Longrightarrow> core_can_boot mi s' d"
  by (simp add: core_can_boot_def others_kept_def)

lemma start_cores_ok:
  assumes "plenty (16 * length cores) (heap s)" and "distinct cores" and "\<forall>c \<in> set cores. core_can_boot mi s c"
    and "frames_divided (pmem (kvm s))" and "kstacks s = ks @ ks'" and "length ks = length cores" and "good_stacks ks"
    and "\<forall>(d, p) \<in> set done. d \<notin> set cores \<and> 0 < d \<and> core_started d p s \<and> p \<notin> (\<lambda>k. k + 8160) ` set ks"
  shows "\<exists>s'. start_cores mi cores s = Inr (s', zip cores (map (\<lambda>k. k + 8160) ks)) \<and> life s' = life s \<and>
    (\<forall>(d, p) \<in> set (done @ zip cores (map (\<lambda>k. k + 8160) ks)). core_started d p s')"
  using assms
proof (induction cores arbitrary: s ks "done")
  case (Cons c cores)
  from Cons.prems(6) obtain k kr where ks: "ks = k # kr" "length kr = length cores" by (cases ks) auto
  have "plenty (16 + 16 * length cores) (heap s)" using Cons.prems(1) by simp
  from start_core_ok [OF this, of mi c k "kr @ ks'"] Cons.prems(3,4,5,7) ks obtain s1 t where
    s1: "start_core mi c s = Inr (s1, k + 8160)" "core_started c (k + 8160) s1" "others_kept c s s1"
      "plenty (16 * length cores) (heap s1)" "frames_divided (pmem (kvm s1))" "kstacks s1 = kr @ ks'"
      "tcbs s1 = (tcbs s)(k + 8160 \<mapsto> t)" "num_worker_cores s1 = num_worker_cores s"
    by (auto simp: good_stacks_def)
  have 1: "\<forall>d \<in> set cores. core_can_boot mi s1 d" using Cons.prems(3) core_can_boot_kept [OF _ s1(3,8)] by simp
  have 2: "good_stacks kr" using Cons.prems(7) ks by (simp add: good_stacks_def)
  have "0 < c" using Cons.prems(3) by (simp add: core_can_boot_def)
  have 3: "\<forall>(d, p) \<in> set (done @ [(c, k + 8160)]). d \<notin> set cores \<and> 0 < d \<and> core_started d p s1 \<and> p \<notin> (\<lambda>k. k + 8160) ` set kr"
    using Cons.prems(2,7,8) ks s1(2,3,7) core_started_kept \<open>0 < c\<close> by (auto simp: good_stacks_def)
  from Cons.IH [OF s1(4) _ 1 s1(5,6) ks(2) 2 3] Cons.prems(2) obtain s' where
    "start_cores mi cores s1 = Inr (s', zip cores (map (\<lambda>k. k + 8160) kr))" "life s' = life s1"
    "\<forall>(d, p) \<in> set ((done @ [(c, k + 8160)]) @ zip cores (map (\<lambda>k. k + 8160) kr)). core_started d p s'" by auto
  with s1(1,3) ks show ?case by (simp add: others_kept_def)
qed auto

lemma core_started_inv:
  assumes "core_started c p s"
  shows "core_inv c (s\<lparr>idle_thr := (idle_thr s)(c := p), cur_running_thr := (cur_running_thr s)(c := p)\<rparr>)"
  using assms by (auto simp: core_started_def core_fresh_def core_inv_def ready_def)

lemma fresh_pools_disjoint:
  assumes "core_fresh c s" and "core_fresh d s" and "c \<noteq> d"
    and "i \<in> seg_frees c (seg (pmem (kvm s)))" and "j \<in> seg_frees d (seg (pmem (kvm s)))"
  shows "frame_addr c (pmem (kvm s)) (word_of_nat i) \<noteq> frame_addr d (pmem (kvm s)) (word_of_nat j)"
  using assms by (intro frame_addr_disjoint) (auto simp: core_fresh_def pm_ok_def)

text \<open>C40: the workers boot. If memory suffices and core 0 has divided the frames, then the worker cores, started
  in any order, all come up: each has a first thread of its own, its run queue, message queues, sleepers and
  zombies are empty, its locks are free, all frames of its share are in its pool, and the invariant of run
  queues holds as soon as the first thread is entered as the idle and the running one. No frame is in the pools
  of two cores, and the manager's accounting of tasks is not touched.\<close>

theorem workers_boot:
  assumes "plenty (16 * length cores) (heap s)" and "distinct cores" and "\<forall>c \<in> set cores. core_can_boot mi s c"
    and "frames_divided (pmem (kvm s))" and "kstacks s = ks @ ks'" and "length ks = length cores" and "good_stacks ks"
  shows "\<exists>s' th. start_cores mi cores s = Inr (s', th) \<and> map fst th = cores \<and> distinct (map snd th) \<and>
    (\<forall>(c, p) \<in> set th. core_fresh c s' \<and>
       core_inv c (s'\<lparr>idle_thr := (idle_thr s')(c := p), cur_running_thr := (cur_running_thr s')(c := p)\<rparr>)) \<and>
    (\<forall>c \<in> set cores. \<forall>d \<in> set cores. \<forall>i \<in> seg_frees c (seg (pmem (kvm s'))). \<forall>j \<in> seg_frees d (seg (pmem (kvm s'))).
       c \<noteq> d \<longrightarrow> frame_addr c (pmem (kvm s')) (word_of_nat i) \<noteq> frame_addr d (pmem (kvm s')) (word_of_nat j)) \<and>
    zombies_ok s' = zombies_ok s"
proof -
  define th where "th = zip cores (map (\<lambda>k. k + 8160) ks)"
  obtain s' where s': "start_cores mi cores s = Inr (s', th)" "life s' = life s" "\<forall>(d, p) \<in> set th. core_started d p s'"
    using start_cores_ok [OF assms, of "[]"] unfolding th_def by auto
  have m: "map fst th = cores" "distinct (map snd th)" using assms(6,7) by (simp_all add: th_def good_stacks_def distinct_map)
  have "core_fresh c s'" if "c \<in> set cores" for c
  proof -
    from that have "c \<in> fst ` set th" unfolding m(1) [symmetric] by simp
    then obtain p where "(c, p) \<in> set th" by auto
    with s'(3) show ?thesis by (auto simp: core_started_def)
  qed
  then have "\<forall>c \<in> set cores. \<forall>d \<in> set cores. \<forall>i \<in> seg_frees c (seg (pmem (kvm s'))). \<forall>j \<in> seg_frees d (seg (pmem (kvm s'))).
       c \<noteq> d \<longrightarrow> frame_addr c (pmem (kvm s')) (word_of_nat i) \<noteq> frame_addr d (pmem (kvm s')) (word_of_nat j)"
    using fresh_pools_disjoint by blast
  moreover have "zombies_ok s' = zombies_ok s" using s'(2) by (intro zombies_ok_cong) simp
  moreover have "\<forall>(c, p) \<in> set th. core_fresh c s' \<and>
       core_inv c (s'\<lparr>idle_thr := (idle_thr s')(c := p), cur_running_thr := (cur_running_thr s')(c := p)\<rparr>)"
    using s'(3) core_started_inv by (fastforce simp: core_started_def)
  ultimately show ?thesis using s'(1) m by blast
qed

definition boot_example :: kst where
  "boot_example = kst_example\<lparr>heap :=
    [0x300000, 0x300040, 0x300080, 0x3000c0, 0x300100, 0x300140, 0x300180, 0x3001c0, 0x300200, 0x300240, 0x300280,
     0x3002c0, 0x300300, 0x300340, 0x300380, 0x3003c0, 0x300400, 0x300440, 0x300480, 0x3004c0, 0x300500, 0x300540,
     0x300580, 0x3005c0, 0x300600, 0x300640, 0x300680, 0x3006c0, 0x300700, 0x300740, 0x300780, 0x3007c0]\<rparr>"

definition mi_example :: machine_info where
  "mi_example = \<lparr>mi_phys = 4288, mi_cpus = 3, mi_lapic = 0xfee00000, mi_toc = [],
     mi_elf = \<lparr>elf_check_header = \<lambda>_. False, elf_load_helper = \<lambda>_. None\<rparr>, mi_eflags = 0x202, mi_idt_base = 0x1000, mi_addr = \<lambda>_. 0x100000,
     mi_pm_mem = \<lambda>_. (True, True, True), mi_tick_mem = \<lambda>_. True\<rparr>"

lemma boot_example_ready:
  "plenty (16 * length [2, 1 :: nat]) (heap boot_example)" "\<forall>c \<in> set [2, 1]. core_can_boot mi_example boot_example c"
  "frames_divided (pmem (kvm boot_example))" "kstacks boot_example = [0x200000, 0x202000] @ []" "good_stacks [0x200000, 0x202000]"
proof -
  show "plenty (16 * length [2, 1 :: nat]) (heap boot_example)" by (simp add: plenty_iff boot_example_def)
  show "\<forall>c \<in> set [2, 1]. core_can_boot mi_example boot_example c"
    by (simp add: core_can_boot_def boot_example_def kst_example_def pm_example_def mi_example_def)
  show "frames_divided (pmem (kvm boot_example))"
    by (simp add: frames_divided_def boot_example_def kst_example_def pm_example_def seg_example_def leaves_for_def get_next_pow2_def Let_def)
  show "kstacks boot_example = [0x200000, 0x202000] @ []" by (simp add: boot_example_def kst_example_def)
  show "good_stacks [0x200000, 0x202000]" by (simp add: good_stacks_def)
qed

theorem workers_boot_witness:
  "\<exists>s' th. start_cores mi_example [2, 1] boot_example = Inr (s', th) \<and> map fst th = [2, 1] \<and>
    (\<forall>(c, p) \<in> set th. core_inv c (s'\<lparr>idle_thr := (idle_thr s')(c := p), cur_running_thr := (cur_running_thr s')(c := p)\<rparr>))"
  using workers_boot [OF boot_example_ready(1) _ boot_example_ready(2,3,4) _ boot_example_ready(5)] by force

end
