(* ===== verification/Lmm.thy ===== *)
theory Lmm
  imports Kern_Prelude
begin

text \<open>
  The list memory manager (\<open>410kern/lmm\<close>): memory is cut in regions, each with a list of its free blocks by
  ascending address. A free block holds its own list node, so that a node is an address and a size;
  \<open>next\<close> is the order of the list, and \<open>NULL\<close> its end. Sizes and addresses are 32 bits wide. An assertion that fails is a
  call of \<open>panic()\<close> (\<open>410kern/inc/assert.h\<close>).
\<close>

section \<open>The structures\<close>

type_synonym lmm_node = "u32 \<times> u32"   \<comment> \<open>the address and the \<open>size\<close>\<close>

record lmm_region =
  lr_at :: u32                \<comment> \<open>the address of the structure\<close>
  lr_nodes :: "lmm_node list"
  lr_min :: u32
  lr_max :: u32
  lr_flags :: u32
  lr_pri :: u32
  lr_free :: u32

type_synonym lmm_t = "lmm_region list"

definition ALIGN_MASK :: u32 where "ALIGN_MASK = 7"

definition align_down :: "u32 \<Rightarrow> u32" where "align_down x = x AND NOT ALIGN_MASK"
definition align_up :: "u32 \<Rightarrow> u32" where "align_up x = (x + ALIGN_MASK) AND NOT ALIGN_MASK"

text \<open>The pointer to the first node of a list.\<close>

definition nodes_ptr :: "lmm_node list \<Rightarrow> u32" where
  "nodes_ptr ns = (case ns of [] \<Rightarrow> NULL | n # _ \<Rightarrow> fst n)"

definition lmm_init :: "lmm_t \<Rightarrow> lmm_t" where
  "lmm_init lmm = []"

section \<open>\<open>lmm_add_region\<close>\<close>

fun put_region :: "lmm_region \<Rightarrow> lmm_t \<Rightarrow> lmm_t kres" where
  "put_region reg [] = Inr [reg]"
| "put_region reg (r # rs) =
     (if lr_pri reg < lr_pri r \<or> lr_pri r = lr_pri reg \<and> lr_max reg - lr_min reg < lr_max r - lr_min r
      then kbind (kassert PANIC (lr_at r \<noteq> lr_at reg \<and> (lr_max reg \<le> lr_min r \<or> lr_max r \<le> lr_min reg))) (\<lambda>_.
           kbind (put_region reg rs) (\<lambda>rs. Inr (r # rs)))
      else Inr (reg # r # rs))"

definition lmm_add_region :: "u32 \<Rightarrow> u32 \<Rightarrow> u32 \<Rightarrow> u32 \<Rightarrow> u32 \<Rightarrow> lmm_t \<Rightarrow> lmm_t kres" where
  "lmm_add_region reg addr sz flags pri lmm =
     (let lo = align_up addr; hi = align_down (addr + sz) in
      if hi \<le> lo then Inr lmm
      else put_region \<lparr>lr_at = reg, lr_nodes = [], lr_min = lo, lr_max = hi, lr_flags = flags, lr_pri = pri, lr_free = 0\<rparr> lmm)"

section \<open>\<open>lmm_alloc\<close>\<close>

definition node_asserts :: "u32 \<Rightarrow> lmm_node \<Rightarrow> lmm_node list \<Rightarrow> bool" where
  "node_asserts hi n ns \<longleftrightarrow>
     fst n AND ALIGN_MASK = 0 \<and> snd n AND ALIGN_MASK = 0 \<and> (ns = [] \<or> fst n < nodes_ptr ns) \<and> fst n < hi"

definition region_asserts :: "lmm_region \<Rightarrow> bool" where
  "region_asserts reg \<longleftrightarrow>
     (lr_nodes reg = [] \<and> lr_free reg = 0 \<or> lr_min reg \<le> nodes_ptr (lr_nodes reg)) \<and> lr_free reg \<le> lr_max reg - lr_min reg"

text \<open>The first node that is large enough; its head is returned, its tail stays in the list.\<close>

fun alloc_node :: "u32 \<Rightarrow> u32 \<Rightarrow> lmm_node list \<Rightarrow> (u32 \<times> lmm_node list) option kres" where
  "alloc_node hi sz [] = Inr None"
| "alloc_node hi sz ((a, n) # ns) =
     kbind (kassert PANIC (node_asserts hi (a, n) ns)) (\<lambda>_.
     if sz \<le> n then Inr (Some (a, if sz < n then (a + sz, n - sz) # ns else ns))
     else kbind (alloc_node hi sz ns) (\<lambda>r.
          Inr (map_option (\<lambda>(p, ns). (p, (a, n) # ns)) r)))"

fun alloc_region :: "u32 \<Rightarrow> u32 \<Rightarrow> lmm_t \<Rightarrow> (lmm_t \<times> u32) kres" where
  "alloc_region sz flags [] = Inr ([], NULL)"
| "alloc_region sz flags (reg # regs) =
     kbind (kassert PANIC (region_asserts reg)) (\<lambda>_.
     kbind (if flags AND NOT (lr_flags reg) \<noteq> 0 then Inr None else alloc_node (lr_max reg) sz (lr_nodes reg)) (\<lambda>r.
     case r of None \<Rightarrow> kbind (alloc_region sz flags regs) (\<lambda>(regs, p). Inr (reg # regs, p))
     | Some (p, ns) \<Rightarrow>
         kbind (kassert PANIC (sz \<le> lr_free reg)) (\<lambda>_.
         Inr (reg\<lparr>lr_nodes := ns, lr_free := lr_free reg - sz\<rparr> # regs, p))))"

definition lmm_alloc :: "u32 \<Rightarrow> u32 \<Rightarrow> lmm_t \<Rightarrow> (lmm_t \<times> u32) kres" where
  "lmm_alloc sz flags lmm =
     kbind (kassert PANIC (0 < sz)) (\<lambda>_. alloc_region (align_up sz) flags lmm)"

section \<open>\<open>lmm_alloc_gen\<close>\<close>

definition align_addr :: "nat \<Rightarrow> u32 \<Rightarrow> u32 \<Rightarrow> u32" where
  "align_addr align_bits align_ofs addr =
     fold (\<lambda>i addr. if (addr XOR align_ofs) AND push_bit i 1 \<noteq> 0 then addr + push_bit i 1 else addr) [0 ..< align_bits] addr"

text \<open>The result is the address, the size that is taken out of the list, and the list.\<close>

fun gen_node :: "u32 \<Rightarrow> u32 \<Rightarrow> nat \<Rightarrow> u32 \<Rightarrow> u32 \<Rightarrow> u32 \<Rightarrow> lmm_node list \<Rightarrow> (u32 \<times> u32 \<times> lmm_node list) option kres" where
  "gen_node hi sz align_bits align_ofs in_min in_max [] = Inr None"
| "gen_node hi sz align_bits align_ofs in_min in_max ((a, n) # ns) =
     kbind (kassert PANIC (node_asserts hi (a, n) ns)) (\<lambda>_.
     let skip = kbind (gen_node hi sz align_bits align_ofs in_min in_max ns) (\<lambda>r.
                Inr (map_option (\<lambda>(p, k, ns). (p, k, (a, n) # ns)) r))
     in if n < sz then skip
     else let addr = align_addr align_bits align_ofs (if a < in_min then in_min else a) in
     if n < addr - a + sz then skip
     else if in_max < addr + sz then Inr None
     else let anode = align_down addr; split_size = anode - a in
     kbind (kassert PANIC (a \<le> anode \<and> (a < anode \<longrightarrow> split_size AND ALIGN_MASK = 0))) (\<lambda>_.
     let front = (if a < anode then [(a, split_size)] else []);
         asize = (if a < anode then n - split_size else n);
         k = align_up ((addr AND ALIGN_MASK) + sz);
         rest = (if k < asize then (anode + k, asize - k) # ns else ns)
     in Inr (Some (addr, k, front @ rest))))"

fun gen_region :: "u32 \<Rightarrow> u32 \<Rightarrow> nat \<Rightarrow> u32 \<Rightarrow> u32 \<Rightarrow> u32 \<Rightarrow> lmm_t \<Rightarrow> (lmm_t \<times> u32) kres" where
  "gen_region sz flags align_bits align_ofs in_min in_max [] = Inr ([], NULL)"
| "gen_region sz flags align_bits align_ofs in_min in_max (reg # regs) =
     kbind (kassert PANIC (region_asserts reg)) (\<lambda>_.
     kbind (if flags AND NOT (lr_flags reg) \<noteq> 0 \<or> in_max \<le> lr_min reg \<or> lr_max reg \<le> in_min then Inr None
            else gen_node (lr_max reg) sz align_bits align_ofs in_min in_max (lr_nodes reg)) (\<lambda>r.
     case r of None \<Rightarrow> kbind (gen_region sz flags align_bits align_ofs in_min in_max regs) (\<lambda>(regs, p). Inr (reg # regs, p))
     | Some (p, k, ns) \<Rightarrow>
         kbind (kassert PANIC (k \<le> lr_free reg)) (\<lambda>_.
         Inr (reg\<lparr>lr_nodes := ns, lr_free := lr_free reg - k\<rparr> # regs, p))))"

definition lmm_alloc_gen :: "u32 \<Rightarrow> u32 \<Rightarrow> nat \<Rightarrow> u32 \<Rightarrow> u32 \<Rightarrow> u32 \<Rightarrow> lmm_t \<Rightarrow> (lmm_t \<times> u32) kres" where
  "lmm_alloc_gen sz flags align_bits align_ofs in_min in_size lmm =
     kbind (kassert PANIC (0 < sz)) (\<lambda>_. gen_region sz flags align_bits align_ofs in_min (in_min + in_size) lmm)"

definition lmm_alloc_aligned :: "u32 \<Rightarrow> u32 \<Rightarrow> nat \<Rightarrow> u32 \<Rightarrow> lmm_t \<Rightarrow> (lmm_t \<times> u32) kres" where
  "lmm_alloc_aligned sz flags align_bits align_ofs = lmm_alloc_gen sz flags align_bits align_ofs 0 (- 1)"

definition lmm_alloc_page :: "u32 \<Rightarrow> lmm_t \<Rightarrow> (lmm_t \<times> u32) kres" where
  "lmm_alloc_page flags = lmm_alloc_gen 4096 flags 12 0 0 (- 1)"

section \<open>\<open>lmm_free\<close>\<close>

text \<open>The free list with a new block: between the nodes below it and the others, joined with a neighbour it touches. A node
  at \<open>NULL\<close> ends the list.\<close>

definition join_next :: "u32 \<Rightarrow> u32 \<Rightarrow> lmm_node list \<Rightarrow> lmm_node list" where
  "join_next node sz nexts =
     (case nexts of [] \<Rightarrow> [(node, sz)]
      | (b, m) # ns \<Rightarrow> if b \<le> node + sz then (node, sz + m) # ns else (node, sz) # (b, m) # ns)"

fun free_node :: "u32 \<Rightarrow> u32 \<Rightarrow> lmm_node list \<Rightarrow> lmm_node list kres" where
  "free_node node sz [] = Inr (if node = NULL then [] else [(node, sz)])"
| "free_node node sz ((a, n) # ns) =
     (if \<not> a < node then Inr (if node = NULL then [] else join_next node sz ((a, n) # ns))
      else if ns \<noteq> [] \<and> nodes_ptr ns < node then kbind (free_node node sz ns) (\<lambda>ns. Inr ((a, n) # ns))
      else if node \<le> a + n then
        kbind (kassert PANIC (a + n = node)) (\<lambda>_.
        case ns of [] \<Rightarrow> Inr [(a, n + sz)]
        | (b, m) # ns' \<Rightarrow>
            if b \<le> node + sz then kbind (kassert PANIC (node + sz = b)) (\<lambda>_. Inr ((a, n + (sz + m)) # ns'))
            else Inr ((a, n + sz) # ns))
      else Inr ((a, n) # join_next node sz ns))"

fun free_region :: "u32 \<Rightarrow> u32 \<Rightarrow> lmm_t \<Rightarrow> lmm_t kres" where
  "free_region node sz [] = Inl PANIC"
| "free_region node sz (reg # regs) =
     kbind (kassert PANIC (lr_nodes reg = [] \<and> lr_free reg = 0 \<or> lr_min reg \<le> nodes_ptr (lr_nodes reg))) (\<lambda>_.
     if lr_min reg \<le> node \<and> node < lr_max reg
     then kbind (kassert PANIC (lr_free reg + sz \<le> lr_max reg - lr_min reg)) (\<lambda>_.
          kbind (free_node node sz (lr_nodes reg)) (\<lambda>ns.
          Inr (reg\<lparr>lr_nodes := ns, lr_free := lr_free reg + sz\<rparr> # regs)))
     else kbind (free_region node sz regs) (\<lambda>regs. Inr (reg # regs)))"

definition lmm_free :: "u32 \<Rightarrow> u32 \<Rightarrow> lmm_t \<Rightarrow> lmm_t kres" where
  "lmm_free block sz lmm =
     kbind (kassert PANIC (block \<noteq> 0 \<and> 0 < sz)) (\<lambda>_.
     free_region (align_down block) (align_up ((block AND ALIGN_MASK) + sz)) lmm)"

definition lmm_free_page :: "u32 \<Rightarrow> lmm_t \<Rightarrow> lmm_t kres" where
  "lmm_free_page page = lmm_free page 4096"

section \<open>\<open>lmm_add_free\<close>\<close>

text \<open>The loop goes over the regions of the list; \<open>lmm_free\<close> changes none of the fields it reads.\<close>

fun add_free_regions :: "u32 \<Rightarrow> u32 \<Rightarrow> lmm_region list \<Rightarrow> lmm_t \<Rightarrow> lmm_t kres" where
  "add_free_regions lo hi [] lmm = Inr lmm"
| "add_free_regions lo hi (reg # regs) lmm =
     kbind (kassert PANIC (lr_min reg < lr_max reg \<and> lr_min reg AND ALIGN_MASK = 0 \<and> lr_max reg AND ALIGN_MASK = 0)) (\<lambda>_.
     if lr_min reg < hi \<and> lo < lr_max reg
     then let new_min = max lo (lr_min reg); new_max = min hi (lr_max reg) in
          kbind (kassert PANIC (new_min < new_max)) (\<lambda>_.
          kbind (lmm_free new_min (new_max - new_min) lmm) (add_free_regions lo hi regs))
     else add_free_regions lo hi regs lmm)"

definition lmm_add_free :: "u32 \<Rightarrow> u32 \<Rightarrow> lmm_t \<Rightarrow> lmm_t kres" where
  "lmm_add_free block sz lmm =
     (let lo = align_up block; hi = align_down (block + sz) in
      kbind (kassert PANIC (lo \<le> hi)) (\<lambda>_.
      if hi = lo then Inr lmm else add_free_regions lo hi lmm lmm))"

section \<open>\<open>lmm_avail\<close>, \<open>lmm_find_free\<close>, \<open>lmm_remove_free\<close>, \<open>lmm_dump\<close>\<close>

fun lmm_avail :: "u32 \<Rightarrow> lmm_t \<Rightarrow> u32 kres" where
  "lmm_avail flags [] = Inr 0"
| "lmm_avail flags (reg # regs) =
     kbind (kassert PANIC ((lr_nodes reg = []) = (lr_free reg = 0))) (\<lambda>_.
     if lr_nodes reg = [] then lmm_avail flags regs
     else kbind (kassert PANIC (lr_min reg \<le> nodes_ptr (lr_nodes reg) \<and> nodes_ptr (lr_nodes reg) < lr_max reg \<and>
                                lr_free reg \<le> lr_max reg - lr_min reg)) (\<lambda>_.
     if flags AND NOT (lr_flags reg) \<noteq> 0 then lmm_avail flags regs
     else kbind (lmm_avail flags regs) (\<lambda>count. Inr (lr_free reg + count))))"

text \<open>The first free bytes of a region at or above \<open>start_addr\<close>, when they are below \<open>lowest\<close>.\<close>

fun find_node :: "lmm_region \<Rightarrow> u32 \<Rightarrow> lmm_node list \<Rightarrow> u32 \<times> u32 \<times> u32 \<Rightarrow> (u32 \<times> u32 \<times> u32) kres" where
  "find_node reg start_addr [] lowest = Inr lowest"
| "find_node reg start_addr ((a, n) # ns) lowest =
     kbind (kassert PANIC (lr_min reg \<le> a \<and> a < lr_max reg)) (\<lambda>_.
     if fst lowest \<le> a then Inr lowest
     else if start_addr < a + n
     then Inr (if start_addr < a then (a, n, lr_flags reg) else (start_addr, n - (start_addr - a), lr_flags reg))
     else find_node reg start_addr ns lowest)"

fun find_region :: "u32 \<Rightarrow> lmm_t \<Rightarrow> u32 \<times> u32 \<times> u32 \<Rightarrow> (u32 \<times> u32 \<times> u32) kres" where
  "find_region start_addr [] lowest = Inr lowest"
| "find_region start_addr (reg # regs) lowest =
     (if lr_nodes reg = [] \<or> lr_max reg \<le> start_addr \<or> fst lowest < lr_min reg then find_region start_addr regs lowest
      else kbind (find_node reg start_addr (lr_nodes reg) lowest) (find_region start_addr regs))"

text \<open>The result is the address, the size and the flags.\<close>

definition lmm_find_free :: "u32 \<Rightarrow> lmm_t \<Rightarrow> (u32 \<times> u32 \<times> u32) kres" where
  "lmm_find_free addr lmm = find_region (align_up addr) lmm (- 1, 0, 0)"

partial_function (option) remove_loop :: "u32 \<Rightarrow> u32 \<Rightarrow> u32 \<Rightarrow> lmm_t \<Rightarrow> lmm_t kres option" where
  "remove_loop block rend rstart lmm =
     (if \<not> rstart < rend then Some (Inr lmm)
      else case lmm_find_free rstart lmm of Inl e \<Rightarrow> Some (Inl e)
      | Inr (rstart, sz, flags) \<Rightarrow>
          if rstart < block then Some (Inl PANIC)
          else if sz = 0 \<or> rend \<le> rstart then Some (Inr lmm)
          else let sz = (if rend < rstart + sz then rend - rstart else sz) in
          case lmm_alloc_gen sz flags 0 0 rstart sz lmm of Inl e \<Rightarrow> Some (Inl e)
          | Inr (lmm, ptr) \<Rightarrow> if ptr \<noteq> rstart then Some (Inl PANIC) else remove_loop block rend rstart lmm)"

declare remove_loop.simps [code]

text \<open>\<open>None\<close>: the loop does not end.\<close>

definition lmm_remove_free :: "u32 \<Rightarrow> u32 \<Rightarrow> lmm_t \<Rightarrow> lmm_t kres option" where
  "lmm_remove_free block block_size lmm =
     (if \<not> block < block + block_size then Some (Inl PANIC)
      else remove_loop block (block + block_size) block lmm)"

text \<open>The sanity check of \<open>lmm_dump\<close>, without its output.\<close>

fun dump_nodes :: "u32 \<Rightarrow> lmm_node list \<Rightarrow> u32 kres" where
  "dump_nodes hi [] = Inr 0"
| "dump_nodes hi (n # ns) =
     kbind (kassert PANIC (node_asserts hi n ns \<and> 8 \<le> snd n)) (\<lambda>_.
     kbind (dump_nodes hi ns) (\<lambda>free_check. Inr (snd n + free_check)))"

fun lmm_dump :: "lmm_t \<Rightarrow> unit kres" where
  "lmm_dump [] = Inr ()"
| "lmm_dump (reg # regs) =
     kbind (kassert PANIC (lr_nodes reg = [] \<or> lr_min reg \<le> nodes_ptr (lr_nodes reg))) (\<lambda>_.
     kbind (kassert PANIC (lr_nodes reg = [] \<or> nodes_ptr (lr_nodes reg) < lr_max reg)) (\<lambda>_.
     kbind (kassert PANIC (lr_free reg \<le> lr_max reg - lr_min reg)) (\<lambda>_.
     kbind (dump_nodes (lr_max reg) (lr_nodes reg)) (\<lambda>free_check.
     kbind (kassert PANIC (lr_free reg = free_check)) (\<lambda>_. lmm_dump regs)))))"

section \<open>Words and alignment\<close>

lemma unat_plus: "unat a + unat b < 2 ^ 32 \<Longrightarrow> unat (a + b :: u32) = unat a + unat b"
  by (simp add: unat_word_ariths)

lemma unat_less32: "unat (x :: u32) < 2 ^ 32"
  using unsigned_less [of x] by simp

lemma unat_minus: "unat b \<le> unat a \<Longrightarrow> unat (a - b :: u32) = unat a - unat b"
  by (simp add: unat_sub word_le_nat_alt)

lemma and_ALIGN_MASK: "unat (x AND ALIGN_MASK) = unat x mod 8"
proof -
  have "x AND ALIGN_MASK = take_bit 3 x" by (simp add: ALIGN_MASK_def take_bit_eq_mask mask_eq_exp_minus_1)
  then show ?thesis by (simp add: take_bit_eq_mod unat_mod)
qed

lemma and_ALIGN_MASK_0: "x AND ALIGN_MASK = 0 \<longleftrightarrow> 8 dvd unat x"
  using and_ALIGN_MASK [of x] by (metis dvd_eq_mod_eq_0 unat_0 unat_eq_zero)

lemma unat_lmm_align_down: "unat (align_down x) = unat x - unat x mod 8"
proof -
  have "(x AND NOT ALIGN_MASK) + (x AND ALIGN_MASK) = x"
    by (subst disjunctive_add) (auto simp: bit_eq_iff bit_simps)
  then have "x AND NOT ALIGN_MASK = x - (x AND ALIGN_MASK)" by (simp add: algebra_simps)
  then show ?thesis by (simp add: align_down_def unat_minus and_ALIGN_MASK)
qed

lemma unat_align_up: "unat x + 7 < 2 ^ 32 \<Longrightarrow> unat (align_up x) = (unat x + 7) div 8 * 8"
proof -
  assume "unat x + 7 < 2 ^ 32"
  then have "unat (x + ALIGN_MASK) = unat x + 7" by (subst unat_plus) (simp_all add: ALIGN_MASK_def)
  then show ?thesis using unat_lmm_align_down [of "x + ALIGN_MASK"] by (simp add: align_up_def align_down_def minus_mod_eq_div_mult)
qed

lemmas align_unat = unat_lmm_align_down and_ALIGN_MASK_0 and_ALIGN_MASK

section \<open>The invariant\<close>

text \<open>The bytes of a list of nodes, and the well-formed lists: aligned nodes that are not empty, ascending, and no two of them
  adjacent.\<close>

fun node_bytes :: "lmm_node list \<Rightarrow> nat set" where
  "node_bytes [] = {}"
| "node_bytes ((a, n) # ns) = {unat a ..< unat a + unat n} \<union> node_bytes ns"

fun nodes_ok :: "nat \<Rightarrow> nat \<Rightarrow> lmm_node list \<Rightarrow> bool" where
  "nodes_ok lo hi [] = True"
| "nodes_ok lo hi ((a, n) # ns) =
     (lo \<le> unat a \<and> 8 dvd unat a \<and> 8 dvd unat n \<and> 0 < unat n \<and> unat a + unat n \<le> hi \<and>
      nodes_ok (Suc (unat a + unat n)) hi ns)"

definition node_sum :: "lmm_node list \<Rightarrow> nat" where
  "node_sum ns = sum_list (map (\<lambda>n. unat (snd n)) ns)"

lemma node_sum_simps [simp]: "node_sum [] = 0" "node_sum ((a, n) # ns) = unat n + node_sum ns"
  by (simp_all add: node_sum_def)

definition region_low :: "lmm_region \<Rightarrow> nat" where
  "region_low r = max 1 (unat (lr_min r))"

lemma region_low_upd [simp]: "region_low (r\<lparr>lr_nodes := ns, lr_free := f\<rparr>) = region_low r"
  by (simp add: region_low_def)

lemma region_low_bounds: "unat (lr_min r) \<le> region_low r" "0 < region_low r"
  by (simp_all add: region_low_def)

definition region_ok :: "lmm_region \<Rightarrow> bool" where
  "region_ok r \<longleftrightarrow>
     lr_min r < lr_max r \<and> 8 dvd unat (lr_min r) \<and> 8 dvd unat (lr_max r) \<and>
     nodes_ok (region_low r) (unat (lr_max r)) (lr_nodes r) \<and> unat (lr_free r) = node_sum (lr_nodes r)"

definition apart :: "lmm_region \<Rightarrow> lmm_region \<Rightarrow> bool" where
  "apart r q \<longleftrightarrow> lr_max r \<le> lr_min q \<or> lr_max q \<le> lr_min r"

fun lmm_ok :: "lmm_t \<Rightarrow> bool" where
  "lmm_ok [] = True"
| "lmm_ok (r # rs) = (region_ok r \<and> list_all (apart r) rs \<and> lmm_ok rs)"

definition free_bytes :: "lmm_t \<Rightarrow> nat set" where
  "free_bytes lmm = (\<Union>r \<in> set lmm. node_bytes (lr_nodes r))"

lemma free_bytes_simps [simp]: "free_bytes [] = {}" "free_bytes (r # rs) = node_bytes (lr_nodes r) \<union> free_bytes rs"
  by (simp_all add: free_bytes_def)

lemma nodes_ok_lower: "nodes_ok lo hi ns \<Longrightarrow> lo' \<le> lo \<Longrightarrow> nodes_ok lo' hi ns"
  by (cases ns rule: node_bytes.cases) auto

lemma nodes_ok_bytes: "nodes_ok lo hi ns \<Longrightarrow> node_bytes ns \<subseteq> {lo ..< hi}"
  by (induction lo hi ns rule: nodes_ok.induct) fastforce+

lemma nodes_ok_finite [simp]: "finite (node_bytes ns)"
  by (induction ns rule: node_bytes.induct) auto

lemma nodes_ok_card: "nodes_ok lo hi ns \<Longrightarrow> card (node_bytes ns) = node_sum ns"
proof (induction lo hi ns rule: nodes_ok.induct)
  case (2 lo hi a n ns)
  then have "{unat a ..< unat a + unat n} \<inter> node_bytes ns = {}" using nodes_ok_bytes by fastforce
  then show ?case using 2 by (simp add: card_Un_disjoint)
qed simp

lemma nodes_ok_sum: "nodes_ok lo hi ns \<Longrightarrow> node_sum ns \<le> hi - lo"
  using card_mono [OF _ nodes_ok_bytes, of lo hi ns] nodes_ok_card by fastforce

text \<open>A list is determined by its bytes: the invariant is a normal form.\<close>

lemma node_bytes_Cons_Least:
  assumes "nodes_ok lo hi ((a, n) # ns)"
  shows "unat a = Inf (node_bytes ((a, n) # ns))"
    and "unat a + unat n = (LEAST i. unat a \<le> i \<and> i \<notin> node_bytes ((a, n) # ns))"
proof -
  have r: "node_bytes ns \<subseteq> {Suc (unat a + unat n) ..< hi}" using assms nodes_ok_bytes by simp
  show "unat a = Inf (node_bytes ((a, n) # ns))"
    by (rule cInf_eq_minimum [symmetric]) (use assms r in fastforce)+
  show "unat a + unat n = (LEAST i. unat a \<le> i \<and> i \<notin> node_bytes ((a, n) # ns))"
    by (rule Least_equality [symmetric]) (use r in fastforce)+
qed

lemma node_bytes_tail:
  assumes "nodes_ok lo hi ((a, n) # ns)"
  shows "node_bytes ns = node_bytes ((a, n) # ns) \<inter> {Suc (unat a + unat n) ..}"
proof -
  have "node_bytes ns \<subseteq> {Suc (unat a + unat n) ..< hi}" using assms nodes_ok_bytes by simp
  then show ?thesis by auto
qed

lemma nodes_ok_unique:
  "nodes_ok lo hi ns \<Longrightarrow> nodes_ok lo' hi' ns' \<Longrightarrow> node_bytes ns = node_bytes ns' \<Longrightarrow> ns = ns'"
proof (induction lo hi ns arbitrary: lo' ns' rule: nodes_ok.induct)
  case (1 lo hi)
  then show ?case by (cases ns' rule: node_bytes.cases) auto
next
  case (2 lo hi a n ns)
  then obtain b m ms where ns': "ns' = (b, m) # ms" by (cases ns' rule: node_bytes.cases) auto
  have e: "node_bytes ((a, n) # ns) = node_bytes ((b, m) # ms)" using 2(4) ns' by simp
  have ua: "unat a = unat b"
    using node_bytes_Cons_Least(1) [OF 2(2)] node_bytes_Cons_Least(1) [OF 2(3) [unfolded ns']] by (simp only: e)
  moreover have "unat a + unat n = unat b + unat m"
    using node_bytes_Cons_Least(2) [OF 2(2)] node_bytes_Cons_Least(2) [OF 2(3) [unfolded ns']] by (simp only: e ua)
  ultimately have ab: "a = b" "n = m" by (simp_all add: word_unat_eq_iff)
  have "node_bytes ns = node_bytes ((a, n) # ns) \<inter> {Suc (unat a + unat n) ..}" by (rule node_bytes_tail [OF 2(2)])
  also have "\<dots> = node_bytes ((b, m) # ms) \<inter> {Suc (unat b + unat m) ..}" by (subst e) (simp only: ab)
  also have "\<dots> = node_bytes ms" by (rule node_bytes_tail [OF 2(3) [unfolded ns'], symmetric])
  finally show ?case using 2(1) [of _ ms] 2(2,3) ns' ab by auto
qed

section \<open>Allocation\<close>

lemma node_assertsI:
  assumes "nodes_ok lo (unat hi) ((a, n) # ns)"
  shows "node_asserts hi (a, n) ns"
  using assms by (cases ns rule: node_bytes.cases) (auto simp: node_asserts_def nodes_ptr_def align_unat word_less_nat_alt)

text \<open>The effect of an allocation on a free list: the bytes of the block leave it.\<close>

definition node_took :: "nat \<Rightarrow> nat \<Rightarrow> lmm_node list \<Rightarrow> lmm_node list \<Rightarrow> nat \<Rightarrow> nat \<Rightarrow> bool" where
  "node_took lo hi ns ns' p k \<longleftrightarrow>
     {p ..< p + k} \<subseteq> node_bytes ns \<and> nodes_ok lo hi ns' \<and> node_bytes ns' = node_bytes ns - {p ..< p + k}"

lemma node_took_Cons:
  assumes "nodes_ok lo hi ((a, n) # ns)" and "node_took (Suc (unat a + unat n)) hi ns ns' p k"
  shows "node_took lo hi ((a, n) # ns) ((a, n) # ns') p k"
proof -
  have "node_bytes ns \<subseteq> {Suc (unat a + unat n) ..< hi}" using assms(1) nodes_ok_bytes by simp
  then have "{p ..< p + k} \<inter> {unat a ..< unat a + unat n} = {}" using assms(2) by (fastforce simp: node_took_def)
  then show ?thesis using assms by (auto simp: node_took_def)
qed

text \<open>A block inside a node is taken out of the list: what is in front of it and behind it stays.\<close>

lemma cut_node:
  assumes ok: "nodes_ok lo hi ((a, n) # ns)" and hi: "hi < 2 ^ 32"
    and k: "8 dvd unat d" "8 dvd unat k" "0 < unat k" "unat d + unat k \<le> unat n"
  shows "node_took lo hi ((a, n) # ns)
    ((if 0 < unat d then [(a, d)] else []) @ (if unat d + unat k < unat n then (a + d + k, n - d - k) # ns else ns))
    (unat a + unat d) (unat k)"
proof -
  let ?f = "if 0 < unat d then [(a, d)] else []" and ?r = "if unat d + unat k < unat n then (a + d + k, n - d - k) # ns else ns"
  have u: "unat (a + d) = unat a + unat d" "unat (a + d + k) = unat a + unat d + unat k" "unat (n - d - k) = unat n - unat d - unat k"
    using ok hi k by (simp_all add: unat_plus unat_minus)
  have b: "node_bytes ns \<subseteq> {Suc (unat a + unat n) ..< hi}" using ok nodes_ok_bytes by simp
  have t: "nodes_ok (Suc (unat a + unat n)) hi ns" using ok by simp
  then have r: "nodes_ok (Suc (unat a + unat d)) hi ?r"
    using ok hi k nodes_ok_lower [OF t] by (auto simp: u)
  moreover have "nodes_ok lo hi ?r" by (rule nodes_ok_lower [OF r]) (use ok in simp)
  ultimately have "nodes_ok lo hi (?f @ ?r)" using ok k by auto
  moreover have "node_bytes (?f @ ?r) = node_bytes ((a, n) # ns) - {unat a + unat d ..< unat a + unat d + unat k}"
    using b k by (auto simp: u)
  moreover have "{unat a + unat d ..< unat a + unat d + unat k} \<subseteq> node_bytes ((a, n) # ns)" using k by auto
  ultimately show ?thesis by (simp only: node_took_def simp_thms)
qed

lemma alloc_node_ok:
  assumes "nodes_ok lo (unat hi) ns" and "8 dvd unat sz" and "0 < sz"
  shows "case alloc_node hi sz ns of Inl e \<Rightarrow> False
    | Inr None \<Rightarrow> \<forall>n \<in> set ns. snd n < sz
    | Inr (Some (p, ns')) \<Rightarrow> 8 dvd unat p \<and> node_took lo (unat hi) ns ns' (unat p) (unat sz)"
  using assms
proof (induction hi sz ns arbitrary: lo rule: alloc_node.induct)
  case (2 hi sz a n ns)
  note as = node_assertsI [OF 2(2)]
  show ?case
  proof (cases "sz \<le> n")
    case True
    then have "0 < unat sz" "unat sz \<le> unat n" using 2(4) by (simp_all add: word_le_nat_alt word_less_nat_alt)
    then have "node_took lo (unat hi) ((a, n) # ns) (if sz < n then (a + sz, n - sz) # ns else ns) (unat a) (unat sz)"
      using cut_node [OF 2(2) unat_less32, of 0 sz] 2(3) by (simp add: word_less_nat_alt split: if_splits)
    then show ?thesis using True 2(2) as by (simp add: kassert_def)
  next
    case False
    have "nodes_ok (Suc (unat a + unat n)) (unat hi) ns" using 2(2) by simp
    from 2(1) [OF False this 2(3,4)] False show ?thesis
      using as node_took_Cons [OF 2(2)] by (auto simp: kassert_def split: sum.splits option.splits)
  qed
qed simp

lemma region_asserts_ok: "region_ok r \<Longrightarrow> region_asserts r"
proof -
  assume r: "region_ok r"
  have "node_sum (lr_nodes r) \<le> unat (lr_max r) - region_low r" using r nodes_ok_sum by (simp add: region_ok_def)
  then have "unat (lr_free r) \<le> unat (lr_max r - lr_min r)"
    using r region_low_bounds(1) [of r] by (simp add: region_ok_def unat_minus word_less_nat_alt)
  then show ?thesis using r region_low_bounds(1) [of r]
    by (cases "lr_nodes r" rule: node_bytes.cases)
       (auto simp: region_asserts_def region_ok_def nodes_ptr_def word_le_nat_alt unat_eq_zero)
qed

lemma region_bytes: "region_ok r \<Longrightarrow> node_bytes (lr_nodes r) \<subseteq> {region_low r ..< unat (lr_max r)}"
  using nodes_ok_bytes by (simp add: region_ok_def)

lemma others_bytes: "lmm_ok rs \<Longrightarrow> list_all (apart r) rs \<Longrightarrow> free_bytes rs \<inter> {unat (lr_min r) ..< unat (lr_max r)} = {}"
proof (induction rs)
  case (Cons q qs)
  then have "node_bytes (lr_nodes q) \<subseteq> {unat (lr_min q) ..< unat (lr_max q)}"
    using region_bytes [of q] region_low_bounds(1) [of q] by auto
  then show ?case using Cons by (auto simp: apart_def word_le_nat_alt)
qed simp

lemma free_nonzero: "lmm_ok lmm \<Longrightarrow> 0 \<notin> free_bytes lmm"
proof (induction lmm)
  case (Cons r rs)
  then show ?case using region_bytes [of r] region_low_bounds(2) [of r] by auto
qed simp

lemma region_ok_upd:
  assumes "region_ok r" and "nodes_ok (region_low r) (unat (lr_max r)) ns" and "unat f = node_sum ns"
  shows "region_ok (r\<lparr>lr_nodes := ns, lr_free := f\<rparr>)"
  using assms by (simp add: region_ok_def)

lemma apart_upd [simp]:
  "apart (r\<lparr>lr_nodes := ns, lr_free := f\<rparr>) = apart r" "apart q (r\<lparr>lr_nodes := ns, lr_free := f\<rparr>) = apart q r"
  by (simp_all add: apart_def fun_eq_iff)

text \<open>The fields that no allocation changes.\<close>

definition frame :: "lmm_t \<Rightarrow> (u32 \<times> u32 \<times> u32 \<times> u32 \<times> u32) list" where
  "frame lmm = map (\<lambda>r. (lr_at r, lr_min r, lr_max r, lr_flags r, lr_pri r)) lmm"

lemma frame_simps [simp]:
  "frame [] = []" "frame (r # rs) = (lr_at r, lr_min r, lr_max r, lr_flags r, lr_pri r) # frame rs"
  by (simp_all add: frame_def)

lemma frame_apart: "frame rs = frame qs \<Longrightarrow> list_all (apart r) rs = list_all (apart r) qs"
proof (induction rs arbitrary: qs)
  case (Cons q rs)
  obtain p ps where q: "qs = p # ps" "lr_min p = lr_min q" "lr_max p = lr_max q" "frame rs = frame ps"
    using Cons.prems by (cases qs) simp_all
  show ?case using Cons.IH [OF q(4)] q(1-3) by (simp add: apart_def)
qed (simp add: frame_def)

text \<open>A block inside one region.\<close>

definition in_region :: "nat \<Rightarrow> nat \<Rightarrow> lmm_region \<Rightarrow> bool" where
  "in_region p k r \<longleftrightarrow> region_low r \<le> p \<and> p + k \<le> unat (lr_max r)"

lemma in_region_upd [simp]: "in_region p k (r\<lparr>lr_nodes := ns, lr_free := f\<rparr>) = in_region p k r"
  by (simp add: in_region_def)

lemma in_region_apart:
  assumes "list_ex (in_region p k) rs" and "list_all (apart r) rs" and "0 < k" and "unat (lr_min r) \<le> p" "p < unat (lr_max r)"
  shows False
  using assms(1,2)
proof (induction rs)
  case (Cons q rs)
  then show ?case using assms(3-5) region_low_bounds(1) [of q] by (auto simp: in_region_def apart_def word_le_nat_alt)
qed simp

lemma frame_in_region: "frame rs = frame qs \<Longrightarrow> list_ex (in_region p k) rs = list_ex (in_region p k) qs"
proof (induction rs arbitrary: qs)
  case (Cons q rs)
  obtain r ps where q: "qs = r # ps" "lr_min r = lr_min q" "lr_max r = lr_max q" "frame rs = frame ps"
    using Cons.prems by (cases qs) simp_all
  show ?case using Cons.IH [OF q(4)] q(1-3) by (simp add: in_region_def region_low_def)
qed (simp add: frame_def)

text \<open>The effect of an allocation on a pool.\<close>

definition took :: "lmm_t \<Rightarrow> lmm_t \<Rightarrow> nat \<Rightarrow> nat \<Rightarrow> bool" where
  "took lmm lmm' p k \<longleftrightarrow>
     list_ex (in_region p k) lmm \<and> {p ..< p + k} \<subseteq> free_bytes lmm \<and>
     lmm_ok lmm' \<and> frame lmm' = frame lmm \<and> free_bytes lmm' = free_bytes lmm - {p ..< p + k}"

lemma interval_le: "{p ..< p + k} \<subseteq> {lo ..< hi :: nat} \<Longrightarrow> 0 < k \<Longrightarrow> lo \<le> p \<and> p + k \<le> hi"
  by (cases k) (auto simp: ivl_subset)

lemma took_head:
  assumes ok: "lmm_ok (r # rs)" and t: "node_took (region_low r) (unat (lr_max r)) (lr_nodes r) ns p (unat k)" and k0: "0 < unat k"
  shows "k \<le> lr_free r" and "took (r # rs) (r\<lparr>lr_nodes := ns, lr_free := lr_free r - k\<rparr> # rs) p (unat k)"
proof -
  have r: "region_ok r" and n: "nodes_ok (region_low r) (unat (lr_max r)) (lr_nodes r)" using ok by (simp_all add: region_ok_def)
  note t = t [unfolded node_took_def]
  have c: "card (node_bytes (lr_nodes r)) = unat (lr_free r)" using r nodes_ok_card [OF n] by (simp add: region_ok_def)
  have u: "unat k \<le> unat (lr_free r)" using card_mono [OF nodes_ok_finite conjunct1 [OF t]] c by simp
  then show "k \<le> lr_free r" by (simp add: word_le_nat_alt)
  have "node_sum ns = unat (lr_free r) - unat k"
    using nodes_ok_card [of "region_low r" "unat (lr_max r)" ns] t c by (simp add: card_Diff_subset)
  then have "region_ok (r\<lparr>lr_nodes := ns, lr_free := lr_free r - k\<rparr>)"
    using region_ok_upd [OF r] t u by (simp add: unat_minus)
  moreover have "{p ..< p + unat k} \<inter> free_bytes rs = {}"
    using t region_bytes [OF r] region_low_bounds(1) [of r] others_bytes [of rs r] ok by fastforce
  moreover have "{p ..< p + unat k} \<subseteq> {region_low r ..< unat (lr_max r)}" using subset_trans [OF conjunct1 [OF t] region_bytes [OF r]] .
  from interval_le [OF this k0] have "in_region p (unat k) r" by (simp add: in_region_def)
  ultimately show "took (r # rs) (r\<lparr>lr_nodes := ns, lr_free := lr_free r - k\<rparr> # rs) p (unat k)"
    using t ok by (auto simp: took_def)
qed

lemma took_Cons:
  assumes "lmm_ok (r # rs)" and "took rs rs' p k"
  shows "took (r # rs) (r # rs') p k"
proof -
  have "free_bytes rs \<inter> node_bytes (lr_nodes r) = {}"
    using region_bytes [of r] region_low_bounds(1) [of r] others_bytes [of rs r] assms(1) by fastforce
  then have "{p ..< p + k} \<inter> node_bytes (lr_nodes r) = {}" using assms(2) by (auto simp: took_def)
  then show ?thesis using assms frame_apart [of rs' rs r] by (auto simp: took_def)
qed

lemma took_nonzero: "lmm_ok lmm \<Longrightarrow> took lmm lmm' p k \<Longrightarrow> 0 < k \<Longrightarrow> 0 < p"
  using free_nonzero [of lmm] by (fastforce simp: took_def)

lemma alloc_region_ok:
  assumes "lmm_ok lmm" and "8 dvd unat sz" and "0 < sz"
  shows "case alloc_region sz flags lmm of Inl e \<Rightarrow> False
    | Inr (lmm', p) \<Rightarrow>
        if p = NULL then lmm' = lmm \<and> (\<forall>r \<in> set lmm. flags AND NOT (lr_flags r) = 0 \<longrightarrow> (\<forall>n \<in> set (lr_nodes r). snd n < sz))
        else 8 dvd unat p \<and> took lmm lmm' (unat p) (unat sz)"
  using assms(1)
proof (induction lmm)
  case (Cons r rs)
  have sz: "0 < unat sz" using assms(3) by (simp add: word_less_nat_alt)
  have r: "region_ok r" "region_asserts r" using Cons.prems region_asserts_ok by simp_all
  let ?a = "if flags AND NOT (lr_flags r) \<noteq> 0 then Inr None else alloc_node (lr_max r) sz (lr_nodes r)"
  have "nodes_ok (region_low r) (unat (lr_max r)) (lr_nodes r)" using r by (simp add: region_ok_def)
  from alloc_node_ok [OF this assms(2,3)] consider
      (skip) "?a = Inr None" "flags AND NOT (lr_flags r) = 0 \<Longrightarrow> \<forall>n \<in> set (lr_nodes r). snd n < sz"
    | (found) p ns where "?a = Inr (Some (p, ns))" "8 dvd unat p" "node_took (region_low r) (unat (lr_max r)) (lr_nodes r) ns (unat p) (unat sz)"
    by (cases "flags AND NOT (lr_flags r) = 0") (auto split: sum.splits option.splits)
  then show ?case
  proof cases
    case skip
    obtain rs' p where a: "alloc_region sz flags rs = Inr (rs', p)" using Cons by (auto split: sum.splits)
    then show ?thesis using Cons skip r(2) took_Cons [OF Cons.prems] by (auto simp: kassert_def)
  next
    case found
    note t = took_head [OF Cons.prems found(3) sz]
    then have "p \<noteq> NULL" using took_nonzero [OF Cons.prems] sz by fastforce
    then show ?thesis using t found(1,2) r(2) by (simp add: kassert_def)
  qed
qed simp

text \<open>The block of \<open>lmm_alloc\<close>: at least \<open>sz\<close> bytes, a multiple of eight.\<close>

definition rounded :: "u32 \<Rightarrow> nat" where
  "rounded sz = (unat sz + 7) div 8 * 8"

lemma rounded_align_up:
  assumes "0 < sz" and "unat sz + 7 < 2 ^ 32"
  shows "unat (align_up sz) = rounded sz" and "8 dvd rounded sz" and "0 < align_up sz" and "unat sz \<le> rounded sz"
proof -
  show u: "unat (align_up sz) = rounded sz" and "8 dvd rounded sz" and le: "unat sz \<le> rounded sz"
    using unat_align_up [OF assms(2)] by (simp_all add: rounded_def)
  show "0 < align_up sz" using assms(1) u le by (simp add: word_less_nat_alt)
qed

lemma lmm_alloc_ok:
  assumes "lmm_ok lmm" and "0 < sz" and "unat sz + 7 < 2 ^ 32"
  shows "case lmm_alloc sz flags lmm of Inl e \<Rightarrow> False
    | Inr (lmm', p) \<Rightarrow>
        if p = NULL
        then lmm' = lmm \<and> (\<forall>r \<in> set lmm. flags AND NOT (lr_flags r) = 0 \<longrightarrow> (\<forall>n \<in> set (lr_nodes r). unat (snd n) < rounded sz))
        else 8 dvd unat p \<and> took lmm lmm' (unat p) (rounded sz)"
  using alloc_region_ok [OF assms(1), of "align_up sz" flags] rounded_align_up [OF assms(2,3)] assms(2)
  by (simp add: lmm_alloc_def kassert_def word_less_nat_alt split: sum.splits prod.splits if_splits)

section \<open>Release\<close>

definition node_gave :: "nat \<Rightarrow> nat \<Rightarrow> lmm_node list \<Rightarrow> lmm_node list \<Rightarrow> nat \<Rightarrow> nat \<Rightarrow> bool" where
  "node_gave lo hi ns ns' p k \<longleftrightarrow> nodes_ok lo hi ns' \<and> node_bytes ns' = node_bytes ns \<union> {p ..< p + k}"

lemma node_gave_Cons:
  assumes "nodes_ok lo hi ((a, n) # ns)" and "node_gave (Suc (unat a + unat n)) hi ns ns' p k"
  shows "node_gave lo hi ((a, n) # ns) ((a, n) # ns') p k"
  using assms by (auto simp: node_gave_def)

lemma node_gave_lower: "node_gave lo hi ns ns' p k \<Longrightarrow> lo' \<le> lo \<Longrightarrow> node_gave lo' hi ns ns' p k"
  using nodes_ok_lower by (auto simp: node_gave_def)

text \<open>Nodes above an address that share no byte with a block there are above the block.\<close>

lemma nodes_ok_raise:
  assumes "nodes_ok x hi ns" and "{x ..< y} \<inter> node_bytes ns = {}"
  shows "nodes_ok y hi ns"
proof (cases ns rule: node_bytes.cases)
  case (2 a n ms)
  have "unat a \<in> node_bytes ns" using assms(1) 2 by simp
  then have "\<not> unat a < y" using assms 2 by auto
  then show ?thesis using assms(1) 2 by simp
qed simp

lemma join_next_ok:
  assumes "nodes_ok (unat node + unat sz) hi ns" and "hi < 2 ^ 32"
    and "8 dvd unat node" "8 dvd unat sz" "0 < unat sz" "unat node + unat sz \<le> hi"
  shows "node_gave (unat node) hi ns (join_next node sz ns) (unat node) (unat sz)"
proof (cases ns rule: node_bytes.cases)
  case 1
  then show ?thesis using assms by (simp add: node_gave_def join_next_def)
next
  case (2 b m ms)
  then have u: "unat (node + sz) = unat node + unat sz" "unat (sz + m) = unat sz + unat m"
    using assms by (simp_all add: unat_plus)
  then show ?thesis using assms 2 by (auto simp: node_gave_def join_next_def word_le_nat_alt simp flip: add.assoc)
qed

text \<open>A block that starts where a node ends is joined with it, and with the node behind it when it fills the gap.\<close>

lemma merge_ok:
  assumes "nodes_ok lo hi ((a, n) # ns)" and "a + n = node" and "nodes_ok (unat node + unat sz) hi ns" and "hi < 2 ^ 32"
    and "8 dvd unat sz" "0 < unat sz" "unat node + unat sz \<le> hi" and touch: "unat a + unat n = unat node"
  shows "\<exists>ns'. (case ns of [] \<Rightarrow> Inr [(a, n + sz)]
        | (b, m) # ms \<Rightarrow> if b \<le> node + sz then kbind (kassert PANIC (node + sz = b)) (\<lambda>_. Inr ((a, n + (sz + m)) # ms))
                         else Inr ((a, n + sz) # ns)) = Inr ns' \<and> node_gave lo hi ((a, n) # ns) ns' (unat node) (unat sz)"
proof (cases ns rule: node_bytes.cases)
  case 1
  have "unat (n + sz) = unat n + unat sz" using assms(1,4,7) touch by (simp add: unat_plus)
  then show ?thesis using assms(1,3,5-) 1 by (auto simp: node_gave_def)
next
  case (2 b m ms)
  have u: "unat (n + sz) = unat n + unat sz" "unat (node + sz) = unat node + unat sz" "unat (n + (sz + m)) = unat n + (unat sz + unat m)"
    using assms(1,3,4,7) touch 2 by (simp_all add: unat_plus)
  show ?thesis
  proof (cases "b \<le> node + sz")
    case True
    then have b: "unat b = unat node + unat sz" using assms(3) 2 u by (simp add: word_le_nat_alt)
    then have "unat a + (unat n + (unat sz + unat m)) = unat b + unat m" using touch by simp
    then show ?thesis using assms(1,3,5-) 2 u True b by (auto simp: node_gave_def kassert_def word_unat_eq_iff simp flip: add.assoc)
  next
    case False
    then show ?thesis using assms(1,3,5-) 2 u by (auto simp: node_gave_def word_le_nat_alt simp flip: add.assoc)
  qed
qed

lemma free_node_ok:
  assumes "nodes_ok lo hi ns" and "hi < 2 ^ 32" and "{unat node ..< unat node + unat sz} \<inter> node_bytes ns = {}"
    and "8 dvd unat node" "8 dvd unat sz" "0 < unat sz" "unat node + unat sz \<le> hi" "lo \<le> unat node" "0 < unat node"
  shows "\<exists>ns'. free_node node sz ns = Inr ns' \<and> node_gave lo hi ns ns' (unat node) (unat sz)"
  using assms(1,3,8)
proof (induction ns arbitrary: lo rule: node_bytes.induct)
  case 1
  then show ?case using assms(4-7,9) by (auto simp: node_gave_def unat_eq_zero)
next
  case (2 a n ns)
  let ?k = "unat node + unat sz"
  have n0: "node \<noteq> NULL" using assms(9) by auto
  have tail: "nodes_ok (Suc (unat a + unat n)) hi ns" using 2(2) by simp
  show ?case
  proof (cases "a < node")
    case False
    have "nodes_ok (unat node) hi ((a, n) # ns)" using 2(2) False by (simp add: word_less_nat_alt)
    from node_gave_lower [OF join_next_ok [OF nodes_ok_raise [OF this 2(3)] assms(2,4-7)] 2(4)] show ?thesis
      using False n0 by simp
  next
    case True
    have "unat node \<in> {unat node ..< ?k}" using assms(6) by simp
    then have "unat node \<notin> node_bytes ((a, n) # ns)" using 2(3) by blast
    then have an: "unat a + unat n \<le> unat node" using True by (auto simp: word_less_nat_alt)
    have disj: "{unat node ..< ?k} \<inter> node_bytes ns = {}" using 2(3) by auto
    show ?thesis
    proof (cases "ns \<noteq> [] \<and> nodes_ptr ns < node")
      case deeper: True
      then have "Suc (unat a + unat n) \<le> unat node"
        using tail by (cases ns rule: node_bytes.cases) (auto simp: nodes_ptr_def word_less_nat_alt)
      from 2(1) [OF tail disj this] show ?thesis using True deeper node_gave_Cons [OF 2(2)] by auto
    next
      case False
      then have "nodes_ok (unat node) hi ns"
        using tail by (cases ns rule: node_bytes.cases) (auto simp: nodes_ptr_def word_less_nat_alt)
      from nodes_ok_raise [OF this disj] have up: "nodes_ok ?k hi ns" .
      note jn = join_next_ok [OF up assms(2,4-7)]
      show ?thesis
      proof (cases "unat a + unat n = unat node")
        case touch: True
        then have "a + n = node" using assms(7) assms(2) by (simp add: word_unat_eq_iff unat_plus)
        then show ?thesis using True False merge_ok [OF 2(2) _ up assms(2,5-7) touch] by auto
      next
        case apart: False
        then have "\<not> node \<le> a + n" using an assms(2,7) by (simp add: word_le_nat_alt unat_plus)
        moreover have "node_gave (Suc (unat a + unat n)) hi ns (join_next node sz ns) (unat node) (unat sz)"
          using node_gave_lower [OF jn] apart an by simp
        ultimately show ?thesis using True False node_gave_Cons [OF 2(2)] by auto
      qed
    qed
  qed
qed


text \<open>The effect of a release on a pool.\<close>

definition gave :: "lmm_t \<Rightarrow> lmm_t \<Rightarrow> nat \<Rightarrow> nat \<Rightarrow> bool" where
  "gave lmm lmm' p k \<longleftrightarrow> lmm_ok lmm' \<and> frame lmm' = frame lmm \<and> free_bytes lmm' = free_bytes lmm \<union> {p ..< p + k}"

lemma free_region_ok:
  assumes "lmm_ok lmm" and "list_ex (in_region (unat node) (unat sz)) lmm" and "{unat node ..< unat node + unat sz} \<inter> free_bytes lmm = {}"
    and a: "8 dvd unat node" "8 dvd unat sz" "0 < unat sz"
  shows "\<exists>lmm'. free_region node sz lmm = Inr lmm' \<and> gave lmm lmm' (unat node) (unat sz)"
  using assms(1-3)
proof (induction lmm)
  case (Cons r rs)
  have r: "region_ok r" "region_asserts r" using Cons.prems(1) region_asserts_ok by simp_all
  then have n: "nodes_ok (region_low r) (unat (lr_max r)) (lr_nodes r)" by (simp add: region_ok_def)
  show ?case
  proof (cases "lr_min r \<le> node \<and> node < lr_max r")
    case True
    have here: "in_region (unat node) (unat sz) r"
      using Cons.prems(1,2) in_region_apart [of "unat node" "unat sz" rs r] a(3) True by (auto simp: word_le_nat_alt word_less_nat_alt)
    have disj: "{unat node ..< unat node + unat sz} \<inter> node_bytes (lr_nodes r) = {}" using Cons.prems(3) by auto
    obtain ns where f: "free_node node sz (lr_nodes r) = Inr ns" and g: "node_gave (region_low r) (unat (lr_max r)) (lr_nodes r) ns (unat node) (unat sz)"
      using free_node_ok [OF n unat_less32 disj a] here region_low_bounds(2) [of r] by (auto simp: in_region_def)
    have sum: "node_sum ns = unat (lr_free r) + unat sz"
      using nodes_ok_card [of "region_low r" "unat (lr_max r)" ns] nodes_ok_card [OF n] g r(1) disj
      by (simp add: node_gave_def region_ok_def card_Un_disjoint Int_commute)
    have le: "node_sum ns \<le> unat (lr_max r) - region_low r" using g nodes_ok_sum by (simp add: node_gave_def)
    then have u: "unat (lr_free r + sz) = node_sum ns" using sum unat_less32 [of "lr_max r"] by (simp add: unat_plus)
    then have "lr_free r + sz \<le> lr_max r - lr_min r"
      using le region_low_bounds(1) [of r] r(1) by (simp add: word_le_nat_alt unat_minus region_ok_def word_less_nat_alt)
    moreover have "region_ok (r\<lparr>lr_nodes := ns, lr_free := lr_free r + sz\<rparr>)"
      using region_ok_upd [OF r(1) _ u] g by (simp add: node_gave_def)
    ultimately show ?thesis
      using True f g r(2) Cons.prems(1) by (auto simp: kassert_def region_asserts_def gave_def node_gave_def)
  next
    case False
    then have "\<not> in_region (unat node) (unat sz) r"
      using a(3) region_low_bounds(1) [of r] by (auto simp: in_region_def word_le_nat_alt word_less_nat_alt)
    then obtain rs' where "free_region node sz rs = Inr rs'" "gave rs rs' (unat node) (unat sz)" using Cons by auto
    then show ?thesis
      using False r(2) Cons.prems(1) frame_apart [of rs' rs r] by (auto simp: kassert_def region_asserts_def gave_def)
  qed
qed simp


lemma lmm_free_ok:
  assumes "lmm_ok lmm" and "0 < sz" and "unat sz + 7 < 2 ^ 32" and "8 dvd unat p"
    and "list_ex (in_region (unat p) (rounded sz)) lmm" and "{unat p ..< unat p + rounded sz} \<inter> free_bytes lmm = {}"
  shows "\<exists>lmm'. lmm_free p sz lmm = Inr lmm' \<and> gave lmm lmm' (unat p) (rounded sz)"
proof -
  have d: "align_down p = p" "p AND ALIGN_MASK = 0" using assms(4) by (simp_all add: word_unat_eq_iff align_unat)
  have "p \<noteq> NULL" using assms(5) by (auto simp: list_ex_iff in_region_def region_low_def)
  then show ?thesis
    using free_region_ok [of lmm p "align_up sz"] assms rounded_align_up [OF assms(2,3)]
    by (simp add: lmm_free_def d kassert_def word_less_nat_alt)
qed

text \<open>A pool is determined by its regions and its free bytes.\<close>

lemma lmm_unique: "lmm_ok lmm \<Longrightarrow> lmm_ok lmm' \<Longrightarrow> frame lmm = frame lmm' \<Longrightarrow> free_bytes lmm = free_bytes lmm' \<Longrightarrow> lmm = lmm'"
proof (induction lmm arbitrary: lmm')
  case Nil
  then show ?case by (simp add: frame_def)
next
  case (Cons r rs)
  obtain q qs where q: "lmm' = q # qs" using Cons.prems(3) by (cases lmm') simp_all
  have f: "frame rs = frame qs" and e: "lr_at r = lr_at q" "lr_min r = lr_min q" "lr_max r = lr_max q" "lr_flags r = lr_flags q" "lr_pri r = lr_pri q"
    using Cons.prems(3) q by simp_all
  let ?I = "{unat (lr_min r) ..< unat (lr_max r)}"
  have split: "node_bytes (lr_nodes x) = free_bytes (x # xs) \<inter> ?I" "free_bytes xs = free_bytes (x # xs) - ?I"
    if "lmm_ok (x # xs)" "lr_min x = lr_min r" "lr_max x = lr_max r" for x xs
  proof -
    have "{region_low x ..< unat (lr_max x)} \<subseteq> ?I" using region_low_bounds(1) [of x] that(2,3) by simp
    moreover have "region_ok x" using that(1) by simp
    ultimately have "node_bytes (lr_nodes x) \<subseteq> ?I" using subset_trans [OF region_bytes] by blast
    moreover have "free_bytes xs \<inter> ?I = {}" using others_bytes [of xs x] that by simp
    ultimately show "node_bytes (lr_nodes x) = free_bytes (x # xs) \<inter> ?I" "free_bytes xs = free_bytes (x # xs) - ?I"
      unfolding free_bytes_simps by blast+
  qed
  note s = split [OF Cons.prems(1) refl refl] split [OF Cons.prems(2) [unfolded q] e(2,3) [symmetric]]
  have n: "node_bytes (lr_nodes r) = node_bytes (lr_nodes q)" and b: "free_bytes rs = free_bytes qs"
    by (simp_all only: s Cons.prems(4) q)
  have "nodes_ok (region_low r) (unat (lr_max r)) (lr_nodes r)" "nodes_ok (region_low q) (unat (lr_max q)) (lr_nodes q)"
    and fr: "unat (lr_free r) = node_sum (lr_nodes r)" "unat (lr_free q) = node_sum (lr_nodes q)"
    using Cons.prems(1,2) q by (simp_all add: region_ok_def)
  then have "lr_nodes r = lr_nodes q" using nodes_ok_unique n by blast
  moreover from this have "lr_free r = lr_free q" using fr by (simp add: word_unat_eq_iff)
  ultimately have "r = q" using e by simp
  then show ?case using Cons.IH [OF _ _ f b] Cons.prems(1,2) q by simp
qed


end
