(* ===== verification/Lmm_Pool.thy ===== *)
theory Lmm_Pool
  imports Lmm "HOL-Library.Multiset"
begin

text \<open>
  The rest of the list memory manager: allocation under constraints (\<open>lmm_alloc_gen\<close>), the operations that set
  a pool up, and the properties of the allocator. A client sees a pool through the locale \<open>block_allocator\<close>.
\<close>

section \<open>The aligned address\<close>

lemma unat_push_bit1: "i < 32 \<Longrightarrow> unat (push_bit i 1 :: u32) = 2 ^ i"
  using unat_word_of_nat32 [of "2 ^ i"] power_strict_increasing [of i 32 "2 :: nat"] by (simp add: push_bit_eq_mult)

lemma test_bit: "i < 32 \<Longrightarrow> (w :: u32) AND push_bit i 1 \<noteq> 0 \<longleftrightarrow> bit w i"
proof -
  assume "i < 32"
  then have "bit (w AND push_bit i 1) j \<longleftrightarrow> j = i \<and> bit w i" for j
    by (auto simp: bit_simps)
  then show ?thesis by (metis bit_0_eq bit_eqI bot_apply bot_bool_def)
qed

lemma mod_Suc_bit:
  assumes "x mod 2 ^ i = y mod (2 ^ i :: nat)"
  shows "x mod 2 ^ Suc i = y mod 2 ^ Suc i \<longleftrightarrow> odd (x div 2 ^ i) = odd (y div 2 ^ i)"
proof -
  have "z mod 2 ^ Suc i = 2 ^ i * (z div 2 ^ i mod 2) + z mod 2 ^ i" for z :: nat
    by (metis mod_mult2_eq mult.commute power_Suc)
  then show ?thesis using assms by (auto simp: odd_iff_mod_2_eq_one even_iff_mod_2_eq_zero)
qed

lemma align_addr_ok:
  assumes "unat addr + 2 ^ b \<le> 2 ^ 32" and "b < 32"
  shows "unat addr \<le> unat (align_addr b ofs addr)" and "unat (align_addr b ofs addr) < unat addr + 2 ^ b"
    and "unat (align_addr b ofs addr) mod 2 ^ b = unat ofs mod 2 ^ b"
proof -
  have "unat addr \<le> unat (align_addr b ofs addr) \<and> unat (align_addr b ofs addr) < unat addr + 2 ^ b \<and>
      unat (align_addr b ofs addr) mod 2 ^ b = unat ofs mod 2 ^ b"
    using assms
  proof (induction b)
    case 0
    then show ?case by (simp add: align_addr_def)
  next
    case (Suc i)
    let ?w = "align_addr i ofs addr"
    have i: "i < 32" and p: "unat addr + 2 * 2 ^ i \<le> 2 ^ 32" using Suc.prems by simp_all
    from p have IH: "unat addr \<le> unat ?w" "unat ?w < unat addr + 2 ^ i" "unat ?w mod 2 ^ i = unat ofs mod 2 ^ i"
      using Suc.IH i by simp_all
    have next_w: "align_addr (Suc i) ofs addr = (if bit ?w i = bit ofs i then ?w else ?w + push_bit i 1)"
      using test_bit [OF i, of "?w XOR ofs"] by (auto simp: align_addr_def bit_xor_iff)
    have b: "bit w i = odd (unat w div 2 ^ i)" for w :: u32
      using bit_iff_odd [of "unat w" i] by (simp add: bit_unsigned_iff)
    have u: "unat (?w + push_bit i 1) = unat ?w + 2 ^ i"
      using IH(2) p unat_push_bit1 [OF i] by (subst unat_plus) simp_all
    show ?case
    proof (cases "bit ?w i = bit ofs i")
      case True
      then have "unat ?w mod 2 ^ Suc i = unat ofs mod 2 ^ Suc i" using mod_Suc_bit [OF IH(3)] b by simp
      then show ?thesis using IH True next_w by simp
    next
      case False
      then have "(unat ?w + 2 ^ i) mod 2 ^ Suc i = unat ofs mod 2 ^ Suc i"
        using mod_Suc_bit [of "unat ?w + 2 ^ i" i "unat ofs"] IH(3) b by (simp add: div_add_self2)
      then show ?thesis using IH False next_w u by simp
    qed
  qed
  then show "unat addr \<le> unat (align_addr b ofs addr)" and "unat (align_addr b ofs addr) < unat addr + 2 ^ b"
    and "unat (align_addr b ofs addr) mod 2 ^ b = unat ofs mod 2 ^ b" by simp_all
qed

text \<open>It is the least aligned address from there, so it grows with the address.\<close>

lemma congruent_gap:
  assumes "x mod m = y mod m" and "x < (y :: nat)"
  shows "x + m \<le> y"
proof -
  have "m dvd y - x" using assms by (metis mod_eq_dvd_iff_nat less_imp_le)
  then show ?thesis using assms(2) by (auto dest!: dvd_imp_le)
qed

lemma align_addr_mono:
  assumes "unat x \<le> unat y" and "unat y + 2 ^ b \<le> 2 ^ 32" and "b < 32"
  shows "unat (align_addr b ofs x) \<le> unat (align_addr b ofs y)"
proof (rule ccontr)
  assume "\<not> ?thesis"
  moreover have x: "unat x + 2 ^ b \<le> 2 ^ 32" using assms(1,2) by linarith
  ultimately have "unat (align_addr b ofs y) + 2 ^ b \<le> unat (align_addr b ofs x)"
    using congruent_gap align_addr_ok(3) [OF x assms(3)] align_addr_ok(3) [OF assms(2,3)] by simp
  then show False using align_addr_ok(2) [OF x assms(3), of ofs] align_addr_ok(1) [OF assms(2,3), of ofs] assms(1) by linarith
qed

section \<open>\<open>lmm_alloc_gen\<close>\<close>

text \<open>The address the code computes in a node at \<open>a\<close>; whether the block fits there.\<close>

definition place :: "nat \<Rightarrow> u32 \<Rightarrow> u32 \<Rightarrow> u32 \<Rightarrow> u32" where
  "place b ofs in_min a = align_addr b ofs (if a < in_min then in_min else a)"

definition fits :: "nat \<Rightarrow> u32 \<Rightarrow> u32 \<Rightarrow> u32 \<Rightarrow> u32 \<Rightarrow> lmm_node \<Rightarrow> bool" where
  "fits b ofs in_min in_max sz n \<longleftrightarrow>
     unat (place b ofs in_min (fst n)) + unat sz \<le> unat (fst n) + unat (snd n) \<and> unat (place b ofs in_min (fst n)) + unat sz \<le> unat in_max"

text \<open>The arithmetic of the search does not wrap around below a gigabyte.\<close>

definition small :: "nat \<Rightarrow> u32 \<Rightarrow> bool" where
  "small b in_min \<longleftrightarrow> b \<le> 30 \<and> unat in_min \<le> 2 ^ 30"

lemma place_ok:
  assumes "small b in_min" and "unat a \<le> 2 ^ 30"
  shows "unat a \<le> unat (place b ofs in_min a)" "unat in_min \<le> unat (place b ofs in_min a)" "unat (place b ofs in_min a) < 2 ^ 31"
    and "unat (place b ofs in_min a) mod 2 ^ b = unat ofs mod 2 ^ b"
proof -
  let ?x = "if a < in_min then in_min else a"
  have x: "unat a \<le> unat ?x" "unat in_min \<le> unat ?x" "unat ?x \<le> 2 ^ 30"
    using assms by (auto simp: small_def word_less_nat_alt)
  have b: "b < 32" "(2 :: nat) ^ b \<le> 2 ^ 30" using assms(1) power_increasing [of b 30 "2 :: nat"] by (simp_all add: small_def)
  then have s: "unat ?x + 2 ^ b \<le> 2 ^ 32" using x(3) by simp
  note o = align_addr_ok [OF s b(1), of ofs]
  show "unat a \<le> unat (place b ofs in_min a)" "unat in_min \<le> unat (place b ofs in_min a)" "unat (place b ofs in_min a) < 2 ^ 31"
    "unat (place b ofs in_min a) mod 2 ^ b = unat ofs mod 2 ^ b"
    using o x b(2) by (auto simp: place_def)
qed

lemma place_mono:
  assumes "small b in_min" and "unat a \<le> unat c" and "unat c \<le> 2 ^ 30"
  shows "unat (place b ofs in_min a) \<le> unat (place b ofs in_min c)"
proof -
  have b: "b < 32" "(2 :: nat) ^ b \<le> 2 ^ 30" using assms(1) power_increasing [of b 30 "2 :: nat"] by (simp_all add: small_def)
  show ?thesis unfolding place_def
    by (rule align_addr_mono) (use assms b in \<open>auto simp: small_def word_less_nat_alt\<close>)
qed

text \<open>The cut the code makes for a block at \<open>addr\<close> in a node.\<close>

lemma gen_cut:
  assumes ok: "nodes_ok lo hi ((a, n) # ns)" and hi: "hi < 2 ^ 32" and "0 < sz"
    and ad: "unat a \<le> unat addr" and fit: "unat addr + unat sz \<le> unat a + unat n"
  defines "anode \<equiv> align_down addr" and "k \<equiv> align_up ((addr AND ALIGN_MASK) + sz)"
  shows "unat a \<le> unat anode" and "8 dvd unat (anode - a)" and "unat addr + unat sz \<le> unat anode + unat k"
    and "unat k = (unat addr mod 8 + unat sz + 7) div 8 * 8"
    and "node_took lo hi ((a, n) # ns)
      ((if a < anode then [(a, anode - a)] else []) @
       (if k < (if a < anode then n - (anode - a) else n)
        then (anode + k, (if a < anode then n - (anode - a) else n) - k) # ns else ns)) (unat anode) (unat k)"
proof -
  have al: "8 dvd unat a" "8 dvd unat n" and le: "unat a + unat n \<le> hi" using ok by simp_all
  have an: "unat anode = unat addr div 8 * 8" by (simp add: anode_def unat_lmm_align_down minus_mod_eq_div_mult)
  show ge: "unat a \<le> unat anode" using al(1) ad an by (auto elim!: dvdE)
  then have d: "unat (anode - a) = unat anode - unat a" by (rule unat_minus)
  show dd: "8 dvd unat (anode - a)" using al(1) an by (simp add: d)
  define e where "e = unat a + unat n - unat anode"
  have ad8: "unat addr = unat anode + unat addr mod 8" by (simp add: an)
  have e: "8 dvd e" "unat addr mod 8 + unat sz \<le> e" "e < 2 ^ 32"
  proof -
    show "8 dvd e" unfolding e_def an using al by (intro dvd_diff_nat) simp_all
    show "unat addr mod 8 + unat sz \<le> e" using fit ad8 unfolding e_def by linarith
    show "e < 2 ^ 32" using le hi unfolding e_def by linarith
  qed
  then have e8: "e + 8 \<le> 2 ^ 32" by (auto elim!: dvdE)
  have m: "unat ((addr AND ALIGN_MASK) + sz) = unat addr mod 8 + unat sz"
    using e by (simp add: unat_plus and_ALIGN_MASK)
  show k: "unat k = (unat addr mod 8 + unat sz + 7) div 8 * 8"
    using unat_align_up [of "(addr AND ALIGN_MASK) + sz"] e e8 by (simp add: k_def m)
  then show "unat addr + unat sz \<le> unat anode + unat k" using ad8 by linarith
  have ke: "unat k \<le> e" using e(1,2) unfolding k by (auto elim!: dvdE)
  have k0: "0 < unat k" "8 dvd unat k" using assms(3) by (simp_all add: k word_less_nat_alt div_greater_zero_iff)
  have w: "a < anode \<longleftrightarrow> 0 < unat (anode - a)" using ge by (auto simp: d word_less_nat_alt)
  have n: "unat (anode - a) + unat k \<le> unat n" using ke ge k0(1) unfolding d e_def by linarith
  have "k < (if a < anode then n - (anode - a) else n) \<longleftrightarrow> unat (anode - a) + unat k < unat n"
    using n w by (auto simp: word_less_nat_alt unat_minus)
  moreover have "unat anode = unat a + unat (anode - a)" using ge d by simp
  moreover have "anode = a" if "\<not> a < anode" using that ge by (simp add: word_less_nat_alt word_unat_eq_iff)
  ultimately show "node_took lo hi ((a, n) # ns)
      ((if a < anode then [(a, anode - a)] else []) @
       (if k < (if a < anode then n - (anode - a) else n)
        then (anode + k, (if a < anode then n - (anode - a) else n) - k) # ns else ns)) (unat anode) (unat k)"
    using cut_node [OF ok hi dd k0(2,1) n] w by (cases "a < anode") (simp_all del: nodes_ok.simps node_bytes.simps split: if_splits)
qed


text \<open>The block that a granted request gets, and what the pool loses.\<close>

definition granted :: "nat \<Rightarrow> u32 \<Rightarrow> u32 \<Rightarrow> u32 \<Rightarrow> u32 \<Rightarrow> u32 \<Rightarrow> bool" where
  "granted b ofs in_min in_max sz p \<longleftrightarrow>
     unat p mod 2 ^ b = unat ofs mod 2 ^ b \<and> in_min \<le> p \<and> unat p + unat sz \<le> unat in_max"

definition cut_size :: "u32 \<Rightarrow> u32 \<Rightarrow> nat" where
  "cut_size p sz = (unat p mod 8 + unat sz + 7) div 8 * 8"

lemma nodes_ok_mem: "nodes_ok lo hi ns \<Longrightarrow> (c, m) \<in> set ns \<Longrightarrow> lo \<le> unat c \<and> unat c + unat m \<le> hi \<and> unat c \<in> node_bytes ns"
  by (induction lo hi ns rule: nodes_ok.induct) fastforce+

lemma gen_node_ok:
  assumes "nodes_ok lo (unat hi) ns" and "node_bytes ns \<subseteq> {..< 2 ^ 30}" and "0 < sz" and sm: "small b in_min"
  shows "case gen_node hi sz b ofs in_min in_max ns of Inl e \<Rightarrow> False
    | Inr None \<Rightarrow> \<forall>n \<in> set ns. \<not> fits b ofs in_min in_max sz n
    | Inr (Some (p, k, ns')) \<Rightarrow> granted b ofs in_min in_max sz p \<and> unat k = cut_size p sz \<and>
        node_took lo (unat hi) ns ns' (unat (align_down p)) (unat k)"
  using assms(1,2)
proof (induction ns arbitrary: lo rule: node_bytes.induct)
  case (2 a n ns)
  let ?p = "place b ofs in_min a"
  have hi: "unat hi < 2 ^ 32" by (rule unat_less32)
  have "unat a + unat n - 1 \<in> node_bytes ((a, n) # ns)" using 2(2) by auto
  then have top: "unat a + unat n \<le> 2 ^ 30" using 2(3) by auto
  then have a30: "unat a \<le> 2 ^ 30" by simp
  note as = node_assertsI [OF 2(2)] and pl = place_ok [OF sm a30, of ofs]
  have fold_place: "align_addr b ofs (if a < in_min then in_min else a) = ?p" by (simp add: place_def)
  have IH: "case gen_node hi sz b ofs in_min in_max ns of Inl e \<Rightarrow> False
    | Inr None \<Rightarrow> \<forall>n \<in> set ns. \<not> fits b ofs in_min in_max sz n
    | Inr (Some (p, k, ns')) \<Rightarrow> granted b ofs in_min in_max sz p \<and> unat k = cut_size p sz \<and>
        node_took (Suc (unat a + unat n)) (unat hi) ns ns' (unat (align_down p)) (unat k)"
    using 2(1) [of "Suc (unat a + unat n)"] 2(2,3) by simp
  show ?case
  proof (cases "unat ?p + unat sz \<le> unat a + unat n")
    case False
    then have skip: "n < sz \<or> n < ?p - a + sz"
    proof (cases "n < sz")
      case ns: False
      then have "unat (?p - a + sz) = unat ?p - unat a + unat sz"
        using pl top by (simp add: unat_plus unat_minus word_less_nat_alt)
      then show ?thesis using False pl(1) unfolding word_less_nat_alt by linarith
    qed simp
    have "\<not> fits b ofs in_min in_max sz (a, n)" using False by (simp add: fits_def)
    then show ?thesis using skip as IH node_took_Cons [OF 2(2)]
      by (auto simp: kassert_def Let_def fold_place split: sum.splits option.splits)
  next
    case True
    then have sz: "\<not> n < sz" "unat sz \<le> 2 ^ 30" using pl(1) top by (simp_all add: word_less_nat_alt)
    then have u: "unat (?p - a + sz) = unat ?p - unat a + unat sz" "unat (?p + sz) = unat ?p + unat sz"
      using pl by (simp_all add: unat_plus unat_minus)
    then have fit: "\<not> n < ?p - a + sz" using True pl(1) by (simp add: word_less_nat_alt)
    show ?thesis
    proof (cases "in_max < ?p + sz")
      case past: True
      have "\<not> fits b ofs in_min in_max sz (c, m)" if "(c, m) \<in> set ((a, n) # ns)" for c m
      proof -
        have "nodes_ok (unat a) (unat hi) ((a, n) # ns)" using 2(2) by simp
        from nodes_ok_mem [OF this that] have "unat a \<le> unat c" "unat c \<in> {..< 2 ^ 30}" using 2(3) by blast+
        then have "unat a \<le> unat c" "unat c \<le> 2 ^ 30" by simp_all
        from place_mono [OF sm this, of ofs] show ?thesis using past u(2) by (auto simp: fits_def word_less_nat_alt)
      qed
      then show ?thesis using as sz(1) fit past by (auto simp: kassert_def Let_def fold_place)
    next
      case False
      note cut = gen_cut [OF 2(2) hi assms(3) pl(1) True]
      have "granted b ofs in_min in_max sz ?p"
        using pl False u(2) by (simp add: granted_def word_le_nat_alt word_less_nat_alt)
      then show ?thesis using cut as sz(1) fit False
        by (simp add: kassert_def Let_def fold_place cut_size_def word_le_nat_alt and_ALIGN_MASK_0)
    qed
  qed
qed simp


lemma cut_size_pos: "0 < sz \<Longrightarrow> 0 < cut_size p sz"
  by (simp add: cut_size_def word_less_nat_alt div_greater_zero_iff)

lemma cut_covers: "unat (align_down p) \<le> unat p \<and> unat p + unat sz \<le> unat (align_down p) + cut_size p sz"
proof -
  have "unat p mod 8 + unat sz \<le> (unat p mod 8 + unat sz + 7) div 8 * 8" by simp
  moreover have "unat p mod 8 \<le> unat p" by simp
  ultimately show ?thesis unfolding unat_lmm_align_down cut_size_def by linarith
qed

lemma fits_region:
  assumes "region_ok r" and "n \<in> set (lr_nodes r)" and "node_bytes (lr_nodes r) \<subseteq> {..< 2 ^ 30}" and "small b in_min" and "0 < sz"
    and "fits b ofs in_min in_max sz n"
  shows "lr_min r < in_max" and "in_min < lr_max r"
proof -
  obtain c m where n: "n = (c, m)" by (cases n)
  have "nodes_ok (region_low r) (unat (lr_max r)) (lr_nodes r)" using assms(1) by (simp add: region_ok_def)
  from nodes_ok_mem [OF this] have c: "region_low r \<le> unat c" "unat c + unat m \<le> unat (lr_max r)" "unat c \<in> {..< 2 ^ 30}"
    using assms(2,3) n by blast+
  note pl = place_ok [OF assms(4), of c ofs]
  show "lr_min r < in_max" "in_min < lr_max r"
    using pl c region_low_bounds(1) [of r] assms(5,6) n by (auto simp: fits_def word_less_nat_alt)
qed

lemma gen_region_ok:
  assumes "lmm_ok lmm" and "free_bytes lmm \<subseteq> {..< 2 ^ 30}" and sz: "0 < sz" and sm: "small b in_min"
  shows "case gen_region sz flags b ofs in_min in_max lmm of Inl e \<Rightarrow> False
    | Inr (lmm', p) \<Rightarrow>
        if p = NULL then lmm' = lmm \<and> (\<forall>r \<in> set lmm. flags AND NOT (lr_flags r) = 0 \<longrightarrow> (\<forall>n \<in> set (lr_nodes r). \<not> fits b ofs in_min in_max sz n))
        else granted b ofs in_min in_max sz p \<and> took lmm lmm' (unat (align_down p)) (cut_size p sz)"
  using assms(1,2)
proof (induction lmm)
  case (Cons r rs)
  have r: "region_ok r" "region_asserts r" and b30: "node_bytes (lr_nodes r) \<subseteq> {..< 2 ^ 30}"
    using Cons.prems region_asserts_ok by simp_all
  let ?a = "if flags AND NOT (lr_flags r) \<noteq> 0 \<or> in_max \<le> lr_min r \<or> lr_max r \<le> in_min then Inr None
     else gen_node (lr_max r) sz b ofs in_min in_max (lr_nodes r)"
  have "nodes_ok (region_low r) (unat (lr_max r)) (lr_nodes r)" using r by (simp add: region_ok_def)
  from gen_node_ok [OF this b30 sz sm, of ofs in_max] consider
      (skip) "?a = Inr None" "flags AND NOT (lr_flags r) = 0 \<Longrightarrow> \<forall>n \<in> set (lr_nodes r). \<not> fits b ofs in_min in_max sz n"
    | (found) p k ns where "?a = Inr (Some (p, k, ns))" "granted b ofs in_min in_max sz p" "unat k = cut_size p sz"
        "node_took (region_low r) (unat (lr_max r)) (lr_nodes r) ns (unat (align_down p)) (unat k)"
    using fits_region [OF r(1) _ b30 sm sz, of _ ofs in_max]
    by (cases "flags AND NOT (lr_flags r) \<noteq> 0 \<or> in_max \<le> lr_min r \<or> lr_max r \<le> in_min") (fastforce split: sum.splits option.splits)+
  then show ?case
  proof cases
    case skip
    obtain rs' p where a: "gen_region sz flags b ofs in_min in_max rs = Inr (rs', p)" using Cons by (auto split: sum.splits)
    then show ?thesis using Cons skip r(2) took_Cons [OF Cons.prems(1)] by (auto simp: kassert_def)
  next
    case found
    have k: "0 < unat k" using found(3) cut_size_pos [OF sz] by simp
    note t = took_head [OF Cons.prems(1) found(4) k]
    then have "0 < unat (align_down p)" using took_nonzero [OF Cons.prems(1)] k by fastforce
    then have "p \<noteq> NULL" by (auto simp: unat_lmm_align_down)
    then show ?thesis using t found(1-3) r(2) by (simp add: kassert_def)
  qed
qed simp


lemma lmm_alloc_gen_ok:
  assumes "lmm_ok lmm" and "free_bytes lmm \<subseteq> {..< 2 ^ 30}" and "0 < sz" and "small b in_min"
  shows "case lmm_alloc_gen sz flags b ofs in_min in_size lmm of Inl e \<Rightarrow> False
    | Inr (lmm', p) \<Rightarrow>
        if p = NULL
        then lmm' = lmm \<and> (\<forall>r \<in> set lmm. flags AND NOT (lr_flags r) = 0 \<longrightarrow> (\<forall>n \<in> set (lr_nodes r). \<not> fits b ofs in_min (in_min + in_size) sz n))
        else granted b ofs in_min (in_min + in_size) sz p \<and> took lmm lmm' (unat (align_down p)) (cut_size p sz)"
  using gen_region_ok [OF assms, of flags ofs "in_min + in_size"] assms(3) by (simp add: lmm_alloc_gen_def kassert_def)

section \<open>Release of such a block\<close>

lemma lmm_free_unaligned_ok:
  assumes "lmm_ok lmm" and "0 < sz" and "unat p mod 8 + unat sz + 7 < 2 ^ 32"
    and "list_ex (in_region (unat (align_down p)) (cut_size p sz)) lmm"
    and "{unat (align_down p) ..< unat (align_down p) + cut_size p sz} \<inter> free_bytes lmm = {}"
  shows "\<exists>lmm'. lmm_free p sz lmm = Inr lmm' \<and> gave lmm lmm' (unat (align_down p)) (cut_size p sz)"
proof -
  have u: "unat ((p AND ALIGN_MASK) + sz) = unat p mod 8 + unat sz" using assms(3) by (simp add: unat_plus and_ALIGN_MASK)
  then have k: "unat (align_up ((p AND ALIGN_MASK) + sz)) = cut_size p sz"
    using unat_align_up [of "(p AND ALIGN_MASK) + sz"] assms(3) by (simp add: cut_size_def)
  have "8 dvd unat (align_down p)" "8 dvd cut_size p sz" by (simp_all add: unat_lmm_align_down cut_size_def minus_mod_eq_div_mult)
  moreover have "0 < unat (align_down p)" using assms(4) by (auto simp: list_ex_iff in_region_def region_low_def)
  then have "p \<noteq> NULL" by (auto simp: unat_lmm_align_down)
  ultimately show ?thesis
    using free_region_ok [of lmm "align_down p" "align_up ((p AND ALIGN_MASK) + sz)"] assms k cut_size_pos [OF assms(2), of p]
    by (simp add: lmm_free_def kassert_def)
qed

text \<open>Release undoes an allocation: the pool is what it was, node for node.\<close>

lemma gave_took:
  assumes "lmm_ok lmm" and "took lmm lmm' p k" and "gave lmm' lmm'' p k"
  shows "lmm'' = lmm"
  using lmm_unique [of lmm'' lmm] assms by (auto simp: took_def gave_def)

lemma took_release:
  assumes "took lmm lmm' p k"
  shows "list_ex (in_region p k) lmm'" and "{p ..< p + k} \<inter> free_bytes lmm' = {}" and "lmm_ok lmm'"
  using assms frame_in_region [of lmm' lmm p k] by (auto simp: took_def)

section \<open>The allocator as its clients see it\<close>

text \<open>A list of requests in turn, and the release of a list of blocks in turn.\<close>

primrec alloc_all :: "('r \<Rightarrow> 's \<Rightarrow> ('s \<times> u32) kres) \<Rightarrow> 'r list \<Rightarrow> 's \<Rightarrow> ('s \<times> (u32 \<times> 'r) list) kres" where
  "alloc_all alloc [] s = Inr (s, [])"
| "alloc_all alloc (r # rs) s =
     kbind (alloc r s) (\<lambda>(s, p). kbind (alloc_all alloc rs s) (\<lambda>(s, bs). Inr (s, (p, r) # bs)))"

primrec release_all :: "(u32 \<Rightarrow> 'r \<Rightarrow> 's \<Rightarrow> 's kres) \<Rightarrow> (u32 \<times> 'r) list \<Rightarrow> 's \<Rightarrow> 's kres" where
  "release_all release [] s = Inr s"
| "release_all release (b # bs) s = kbind (release (fst b) (snd b) s) (release_all release bs)"

locale block_allocator =
  fixes inv :: "'s \<Rightarrow> bool" and valid :: "'r \<Rightarrow> bool" and avail :: "'s \<Rightarrow> nat set" and shape :: "'s \<Rightarrow> 'f"
    and home :: "'s \<Rightarrow> u32 \<times> 'r \<Rightarrow> bool" and block :: "u32 \<times> 'r \<Rightarrow> nat set"
    and alloc :: "'r \<Rightarrow> 's \<Rightarrow> ('s \<times> u32) kres" and release :: "u32 \<Rightarrow> 'r \<Rightarrow> 's \<Rightarrow> 's kres"
  assumes alloc_law: "\<lbrakk>inv s; valid r; alloc r s = Inr (s', p); p \<noteq> NULL\<rbrakk> \<Longrightarrow>
        inv s' \<and> shape s' = shape s \<and> home s (p, r) \<and> block (p, r) \<subseteq> avail s \<and> avail s' = avail s - block (p, r)"
    and release_law: "\<lbrakk>inv s; valid r; home s (p, r); block (p, r) \<inter> avail s = {}\<rbrakk> \<Longrightarrow>
        \<exists>s'. release p r s = Inr s' \<and> inv s' \<and> shape s' = shape s \<and> avail s' = avail s \<union> block (p, r)"
    and home_shape: "shape s = shape s' \<Longrightarrow> home s = home s'"
    and determined: "\<lbrakk>inv s; inv s'; shape s = shape s'; avail s = avail s'\<rbrakk> \<Longrightarrow> s = s'"
begin

definition blocks :: "(u32 \<times> 'r) list \<Rightarrow> nat set" where
  "blocks bs = (\<Union>b \<in> set bs. block b)"

definition disjoint_blocks :: "(u32 \<times> 'r) list \<Rightarrow> bool" where
  "disjoint_blocks bs \<longleftrightarrow> sorted_wrt (\<lambda>b c. block b \<inter> block c = {}) bs"

lemma blocks_simps [simp]: "blocks [] = {}" "blocks (b # bs) = block b \<union> blocks bs"
  by (simp_all add: blocks_def)

lemma disjoint_Cons: "disjoint_blocks (b # bs) \<longleftrightarrow> block b \<inter> blocks bs = {} \<and> disjoint_blocks bs"
  by (auto simp: disjoint_blocks_def blocks_def)

lemma disjoint_mset: "mset bs = mset cs \<Longrightarrow> disjoint_blocks bs \<Longrightarrow> disjoint_blocks cs"
proof (induction bs arbitrary: cs)
  case (Cons b bs)
  then obtain ds es where c: "cs = ds @ b # es" by (metis list.set_intros(1) set_mset_mset split_list)
  then have "mset bs = mset (ds @ es)" using Cons.prems(1) by simp
  moreover from this have "set bs = set (ds @ es)" by (rule mset_eq_setD)
  ultimately have "disjoint_blocks (ds @ es)" "block b \<inter> blocks (ds @ es) = {}"
    using Cons by (simp_all add: disjoint_Cons blocks_def)
  then show ?case using c by (auto simp: disjoint_blocks_def sorted_wrt_append blocks_def)
qed simp

lemma alloc_all_law:
  assumes "inv s" and "\<forall>r \<in> set rs. valid r" and "alloc_all alloc rs s = Inr (s', bs)" and "NULL \<notin> fst ` set bs"
  shows "inv s' \<and> shape s' = shape s \<and> (\<forall>b \<in> set bs. home s b \<and> valid (snd b)) \<and> disjoint_blocks bs \<and>
    blocks bs \<subseteq> avail s \<and> avail s' = avail s - blocks bs"
  using assms
proof (induction rs arbitrary: s bs)
  case Nil
  then show ?case by (simp add: disjoint_blocks_def)
next
  case (Cons r rs)
  from Cons.prems(3) obtain s1 p bs1 where 1: "alloc r s = Inr (s1, p)" "alloc_all alloc rs s1 = Inr (s', bs1)" "bs = (p, r) # bs1"
    by (auto simp: kbind_eq_Inr)
  have law: "inv s1 \<and> shape s1 = shape s \<and> home s (p, r) \<and> block (p, r) \<subseteq> avail s \<and> avail s1 = avail s - block (p, r)"
    using alloc_law [OF _ _ 1(1)] Cons.prems 1(3) by auto
  note IH = Cons.IH [OF _ _ 1(2)]
  show ?case using IH law Cons.prems 1(3) home_shape [of s1 s] by (auto simp: disjoint_Cons)
qed

lemma release_all_law:
  assumes "inv s" and "\<forall>b \<in> set bs. home s b \<and> valid (snd b)" and "disjoint_blocks bs" and "blocks bs \<inter> avail s = {}"
  shows "\<exists>s'. release_all release bs s = Inr s' \<and> inv s' \<and> shape s' = shape s \<and> avail s' = avail s \<union> blocks bs"
  using assms
proof (induction bs arbitrary: s)
  case (Cons b bs)
  obtain s1 where 1: "release (fst b) (snd b) s = Inr s1" "inv s1" "shape s1 = shape s" "avail s1 = avail s \<union> block b"
    using release_law [of s "snd b" "fst b"] Cons.prems by auto
  have "\<exists>s'. release_all release bs s1 = Inr s' \<and> inv s' \<and> shape s' = shape s1 \<and> avail s' = avail s1 \<union> blocks bs"
    using Cons.prems 1 home_shape [OF 1(3)] by (intro Cons.IH) (auto simp: disjoint_Cons)
  then show ?case using 1 by auto
qed simp

lemma alloc_release:
  assumes "inv s" and "\<forall>r \<in> set rs. valid r" and "alloc_all alloc rs s = Inr (s', bs)" and "NULL \<notin> fst ` set bs"
    and "mset cs = mset bs"
  shows "disjoint_blocks bs \<and> release_all release cs s' = Inr s"
proof -
  note a = alloc_all_law [OF assms(1-4)]
  have e: "set cs = set bs" using assms(5) by (rule mset_eq_setD)
  then have b: "blocks cs = blocks bs" by (simp add: blocks_def)
  have "disjoint_blocks cs" using disjoint_mset [of bs cs] a assms(5) by simp
  then obtain s2 where 2: "release_all release cs s' = Inr s2" "inv s2" "shape s2 = shape s'" "avail s2 = avail s' \<union> blocks cs"
    using release_all_law [of s' cs] a b e home_shape [of s' s] by auto
  then have "s2 = s" using a assms(1) b by (intro determined) auto
  then show ?thesis using a 2(1) by simp
qed

end

text \<open>The requests of \<open>lmm_alloc\<close>: a size and flags.\<close>

type_synonym plain_request = "u32 \<times> u32"

definition plain_valid :: "plain_request \<Rightarrow> bool" where
  "plain_valid r \<longleftrightarrow> 0 < fst r \<and> unat (fst r) + 7 < 2 ^ 32"

definition plain_home :: "lmm_t \<Rightarrow> u32 \<times> plain_request \<Rightarrow> bool" where
  "plain_home lmm b \<longleftrightarrow> 8 dvd unat (fst b) \<and> list_ex (in_region (unat (fst b)) (rounded (fst (snd b)))) lmm"

definition plain_block :: "u32 \<times> plain_request \<Rightarrow> nat set" where
  "plain_block b = {unat (fst b) ..< unat (fst b) + rounded (fst (snd b))}"

interpretation plain: block_allocator lmm_ok plain_valid free_bytes frame plain_home plain_block
  "\<lambda>r. lmm_alloc (fst r) (snd r)" "\<lambda>p r. lmm_free p (fst r)"
proof (unfold_locales, goal_cases)
  case (1 s r s' p)
  then show ?case
    using lmm_alloc_ok [of s "fst r" "snd r"] by (auto simp: plain_valid_def plain_home_def plain_block_def took_def)
next
  case (2 s r p)
  then show ?case
    using lmm_free_ok [of s "fst r" p] by (auto simp: plain_valid_def plain_home_def plain_block_def gave_def)
next
  case (3 s s')
  then show ?case by (simp add: plain_home_def fun_eq_iff frame_in_region [OF 3])
next
  case (4 s s')
  then show ?case by (rule lmm_unique)
qed

text \<open>The requests of \<open>lmm_alloc_gen\<close>.\<close>

record gen_request =
  rq_size :: u32
  rq_flags :: u32
  rq_bits :: nat
  rq_ofs :: u32
  rq_min :: u32
  rq_range :: u32

definition request :: "gen_request \<Rightarrow> lmm_t \<Rightarrow> (lmm_t \<times> u32) kres" where
  "request r = lmm_alloc_gen (rq_size r) (rq_flags r) (rq_bits r) (rq_ofs r) (rq_min r) (rq_range r)"

definition gen_inv :: "lmm_t \<Rightarrow> bool" where
  "gen_inv lmm \<longleftrightarrow> lmm_ok lmm \<and> free_bytes lmm \<subseteq> {..< 2 ^ 30}"

definition gen_valid :: "gen_request \<Rightarrow> bool" where
  "gen_valid r \<longleftrightarrow> 0 < rq_size r \<and> rq_bits r \<le> 30 \<and> unat (rq_min r) \<le> 2 ^ 30"

definition gen_block :: "u32 \<times> gen_request \<Rightarrow> nat set" where
  "gen_block b = {unat (align_down (fst b)) ..< unat (align_down (fst b)) + cut_size (fst b) (rq_size (snd b))}"

definition gen_home :: "lmm_t \<Rightarrow> u32 \<times> gen_request \<Rightarrow> bool" where
  "gen_home lmm b \<longleftrightarrow> list_ex (in_region (unat (align_down (fst b))) (cut_size (fst b) (rq_size (snd b)))) lmm \<and> gen_block b \<subseteq> {..< 2 ^ 30}"

lemma cut_size_small:
  assumes "{a ..< a + cut_size p sz} \<subseteq> {..< 2 ^ 30}" and "0 < sz"
  shows "unat p mod 8 + unat sz + 7 < 2 ^ 32"
proof -
  have "cut_size p sz \<le> 2 ^ 30" using card_mono [OF _ assms(1)] by simp
  then show ?thesis by (simp add: cut_size_def)
qed

interpretation gen: block_allocator gen_inv gen_valid free_bytes frame gen_home gen_block
  request "\<lambda>p r. lmm_free p (rq_size r)"
proof (unfold_locales, goal_cases)
  case (1 s r s' p)
  then show ?case
    using lmm_alloc_gen_ok [of s "rq_size r" "rq_bits r" "rq_min r" "rq_flags r" "rq_ofs r" "rq_range r"]
    by (auto simp: gen_inv_def gen_valid_def gen_home_def gen_block_def took_def request_def small_def)
next
  case (2 s r p)
  then show ?case
    using lmm_free_unaligned_ok [of s "rq_size r" p] cut_size_small [of _ p "rq_size r"]
    by (auto simp: gen_inv_def gen_valid_def gen_home_def gen_block_def gave_def)
next
  case (3 s s')
  then show ?case by (simp add: gen_home_def fun_eq_iff frame_in_region [OF 3])
next
  case (4 s s')
  then show ?case using lmm_unique by (simp add: gen_inv_def)
qed

section \<open>Properties\<close>

definition demo_pool :: lmm_t where
  "demo_pool = [\<lparr>lr_at = 0x500, lr_nodes = [(0x100000, 0x40), (0x100100, 0x2000)], lr_min = 0x100000, lr_max = 0x1000000,
     lr_flags = 0, lr_pri = 0, lr_free = 0x2040\<rparr>]"

definition demo_page :: gen_request where
  "demo_page = \<lparr>rq_size = 4096, rq_flags = 0, rq_bits = 12, rq_ofs = 0, rq_min = 0, rq_range = - 1\<rparr>"

definition demo_word :: gen_request where
  "demo_word = \<lparr>rq_size = 24, rq_flags = 0, rq_bits = 3, rq_ofs = 4, rq_min = 0, rq_range = - 1\<rparr>"

lemma demo_pool_ok: "gen_inv demo_pool" "lmm_ok demo_pool"
  by (simp_all add: gen_inv_def demo_pool_def region_ok_def region_low_def subset_iff)

text \<open>C35: \<open>lmm_alloc_gen\<close> on a well-formed pool does not panic. It returns an address in the requested range with the
  requested alignment, and takes exactly the bytes of the block, which were free, out of the pool, which stays well-formed; or it
  returns \<open>NULL\<close> and leaves the pool as it was, and then no free block of a region with the flags can hold the request.\<close>

theorem lmm_alloc_gen_correct:
  assumes "lmm_ok lmm" and "free_bytes lmm \<subseteq> {..< 2 ^ 30}" and "0 < sz" and "b \<le> 30" and "unat in_min \<le> 2 ^ 30"
  shows "\<exists>lmm' p. lmm_alloc_gen sz flags b ofs in_min in_size lmm = Inr (lmm', p) \<and>
    (p = NULL \<longrightarrow> lmm' = lmm \<and>
       (\<forall>r \<in> set lmm. flags AND NOT (lr_flags r) = 0 \<longrightarrow> (\<forall>n \<in> set (lr_nodes r). \<not> fits b ofs in_min (in_min + in_size) sz n))) \<and>
    (p \<noteq> NULL \<longrightarrow> in_min \<le> p \<and> unat p + unat sz \<le> unat (in_min + in_size) \<and> unat p mod 2 ^ b = unat ofs mod 2 ^ b \<and>
       lmm_ok lmm' \<and> frame lmm' = frame lmm \<and>
       {unat p ..< unat p + unat sz} \<subseteq> {unat (align_down p) ..< unat (align_down p) + cut_size p sz} \<and>
       {unat (align_down p) ..< unat (align_down p) + cut_size p sz} \<subseteq> free_bytes lmm \<and>
       free_bytes lmm' = free_bytes lmm - {unat (align_down p) ..< unat (align_down p) + cut_size p sz})"
proof -
  obtain lmm' p where a: "lmm_alloc_gen sz flags b ofs in_min in_size lmm = Inr (lmm', p)"
    using lmm_alloc_gen_ok [OF assms(1-3), of b in_min flags ofs in_size] assms(4,5) by (auto simp: small_def split: sum.splits)
  have "{unat p ..< unat p + unat sz} \<subseteq> {unat (align_down p) ..< unat (align_down p) + cut_size p sz}"
    using cut_covers [of p sz] by simp
  then show ?thesis
    using a lmm_alloc_gen_ok [OF assms(1-3), of b in_min flags ofs in_size] assms(4,5)
    by (cases "p = NULL") (simp_all add: small_def granted_def took_def)
qed

theorem lmm_alloc_gen_correct_witness:
  "\<exists>lmm' p. lmm_alloc_gen 4096 0 12 0 0 (- 1) demo_pool = Inr (lmm', p) \<and> p = 0x101000 \<and> unat p mod 2 ^ 12 = 0 \<and> lmm_ok lmm'"
proof -
  have "lmm_alloc_gen 4096 0 12 0 0 (- 1) demo_pool =
      Inr ([\<lparr>lr_at = 0x500, lr_nodes = [(0x100000, 0x40), (0x100100, 0xF00), (0x102000, 0x100)], lr_min = 0x100000, lr_max = 0x1000000,
        lr_flags = 0, lr_pri = 0, lr_free = 0x1040\<rparr>], 0x101000)"
    by code_simp
  then show ?thesis
    using lmm_alloc_gen_correct [of demo_pool 4096 12 0 0 0 "- 1"] demo_pool_ok by (simp add: gen_inv_def)
qed

text \<open>C15: Any number of requests of any sizes, alignments and ranges that the pool grants get blocks that do not overlap, and
  freeing all of them, in whatever order, never panics and restores the pool exactly, free lists and counters.\<close>

theorem lmm_alloc_free_any_order:
  assumes "lmm_ok lmm" and "free_bytes lmm \<subseteq> {..< 2 ^ 30}" and "\<forall>r \<in> set rs. 0 < rq_size r \<and> rq_bits r \<le> 30 \<and> unat (rq_min r) \<le> 2 ^ 30"
    and "alloc_all request rs lmm = Inr (lmm', bs)" and "NULL \<notin> fst ` set bs" and "mset cs = mset bs"
  shows "sorted_wrt (\<lambda>b c. gen_block b \<inter> gen_block c = {}) bs \<and> release_all (\<lambda>p r. lmm_free p (rq_size r)) cs lmm' = Inr lmm"
  using gen.alloc_release [of lmm rs lmm' bs cs] assms by (simp add: gen_inv_def gen_valid_def gen.disjoint_blocks_def)

theorem lmm_alloc_free_any_order_witness:
  "\<exists>lmm'. alloc_all request [demo_page, demo_word] demo_pool = Inr (lmm', [(0x101000, demo_page), (0x100004, demo_word)]) \<and>
     release_all (\<lambda>p r. lmm_free p (rq_size r)) [(0x100004, demo_word), (0x101000, demo_page)] lmm' = Inr demo_pool"
proof -
  let ?bs = "[(0x101000, demo_page), (0x100004, demo_word)]" and ?cs = "[(0x100004, demo_word), (0x101000, demo_page)]"
  have a: "alloc_all request [demo_page, demo_word] demo_pool =
      Inr ([\<lparr>lr_at = 0x500, lr_nodes = [(0x100020, 0x20), (0x100100, 0xF00), (0x102000, 0x100)], lr_min = 0x100000, lr_max = 0x1000000,
        lr_flags = 0, lr_pri = 0, lr_free = 0x1020\<rparr>], ?bs)"
    by code_simp
  have m: "mset ?cs = mset ?bs" by simp
  show ?thesis
    using lmm_alloc_free_any_order [OF _ _ _ a _ m] a demo_pool_ok by (simp add: gen_inv_def demo_page_def demo_word_def)
qed

text \<open>A request within seven bytes of four gigabytes is rounded up to nothing: \<open>lmm_alloc\<close> returns the first block and leaves
  it in the free list, so that the next request gets the same block.\<close>

lemma lmm_alloc_wraps:
  "lmm_alloc 0xFFFFFFFC 0 demo_pool = Inr (demo_pool, 0x100000)" "lmm_alloc 8 0 demo_pool = Inr (lmm', p) \<Longrightarrow> p = 0x100000"
  by (simp_all add: lmm_alloc_def demo_pool_def align_up_def ALIGN_MASK_def kassert_def region_asserts_def node_asserts_def nodes_ptr_def)


end
