(* ===== verification/Lmm_Setup.thy ===== *)
theory Lmm_Setup
  imports Lmm_Pool
begin

text \<open>
  The operations that set a pool up and inspect it: regions (\<open>lmm_add_region\<close>), memory that is given to a pool
  (\<open>lmm_add_free\<close>) and taken from it by address (\<open>lmm_remove_free\<close>), its counters (\<open>lmm_avail\<close>) and its
  sanity check (\<open>lmm_dump\<close>).
\<close>

section \<open>The sanity check and the counters\<close>

lemma dump_nodes_ok:
  assumes "nodes_ok lo (unat hi) ns"
  shows "\<exists>f. dump_nodes hi ns = Inr f \<and> unat f = node_sum ns"
  using assms
proof (induction ns arbitrary: lo rule: node_bytes.induct)
  case (2 a n ns)
  then obtain f where f: "dump_nodes hi ns = Inr f" "unat f = node_sum ns" by auto
  have "node_sum ((a, n) # ns) \<le> unat hi" using nodes_ok_sum [OF 2(2)] by simp
  then have "unat (n + f) = node_sum ((a, n) # ns)" using f(2) unat_less32 [of hi] by (simp add: unat_plus)
  moreover have "8 \<le> n" using 2(2) by (auto simp: word_le_nat_alt dvd_imp_le)
  ultimately show ?case using f(1) node_assertsI [OF 2(2)] by (simp add: kassert_def)
qed simp

lemma head_in_region:
  assumes "region_ok r" and "lr_nodes r \<noteq> []"
  shows "lr_min r \<le> nodes_ptr (lr_nodes r)" and "nodes_ptr (lr_nodes r) < lr_max r" and "0 < unat (lr_free r)"
  using assms region_low_bounds(1) [of r]
  by (cases "lr_nodes r" rule: node_bytes.cases; auto simp: region_ok_def nodes_ptr_def word_le_nat_alt word_less_nat_alt)+

lemma lmm_dump_ok: "lmm_ok lmm \<Longrightarrow> lmm_dump lmm = Inr ()"
proof (induction lmm)
  case (Cons r rs)
  have r: "region_ok r" "lr_free r \<le> lr_max r - lr_min r"
    using Cons.prems region_asserts_ok [of r] by (simp_all add: region_asserts_def)
  then obtain f where "dump_nodes (lr_max r) (lr_nodes r) = Inr f" "f = lr_free r"
    using dump_nodes_ok [of "region_low r" "lr_max r" "lr_nodes r"] by (auto simp: region_ok_def word_unat_eq_iff)
  then show ?case using Cons r head_in_region [OF r(1)] by (auto simp: kassert_def)
qed simp

lemma free_bytes_32: "lmm_ok lmm \<Longrightarrow> free_bytes lmm \<subseteq> {..< 2 ^ 32}"
proof (induction lmm)
  case (Cons r rs)
  have "node_bytes (lr_nodes r) \<subseteq> {region_low r ..< unat (lr_max r)}" using Cons.prems region_bytes by simp
  then show ?case using Cons unat_less32 [of "lr_max r"] by fastforce
qed simp

lemma free_bytes_finite [simp]: "finite (free_bytes lmm)"
  by (simp add: free_bytes_def)

lemma lmm_ok_filter: "lmm_ok lmm \<Longrightarrow> lmm_ok (filter P lmm)"
  by (induction lmm) (auto simp: list_all_iff)

lemma region_span: "region_ok r \<Longrightarrow> node_bytes (lr_nodes r) \<subseteq> {unat (lr_min r) ..< unat (lr_max r)}"
  by (rule subset_trans [OF region_bytes]) (simp_all add: region_low_bounds)

lemma free_bytes_Cons_card:
  assumes "lmm_ok (r # rs)"
  shows "card (free_bytes (r # rs)) = unat (lr_free r) + card (free_bytes rs)"
proof -
  have r: "region_ok r" using assms by simp
  then have "node_bytes (lr_nodes r) \<inter> free_bytes rs = {}"
    using region_span [OF r] others_bytes [of rs r] assms by (simp only: lmm_ok.simps) blast
  moreover have "card (node_bytes (lr_nodes r)) = unat (lr_free r)" using r by (auto simp: region_ok_def dest: nodes_ok_card)
  ultimately show ?thesis by (simp add: card_Un_disjoint)
qed

text \<open>\<open>lmm_avail\<close> is the number of free bytes in the regions with the flags.\<close>

lemma lmm_avail_ok:
  assumes "lmm_ok lmm"
  shows "\<exists>n. lmm_avail flags lmm = Inr n \<and> unat n = card (free_bytes (filter (\<lambda>r. flags AND NOT (lr_flags r) = 0) lmm))"
  using assms
proof (induction lmm)
  case (Cons r rs)
  let ?P = "\<lambda>r. flags AND NOT (lr_flags r) = 0"
  from Cons obtain n where n: "lmm_avail flags rs = Inr n" "unat n = card (free_bytes (filter ?P rs))" by auto
  have r: "region_ok r" using Cons.prems by simp
  have "region_asserts r" by (rule region_asserts_ok [OF r])
  then have f: "lr_free r \<le> lr_max r - lr_min r" by (simp add: region_asserts_def)
  have e: "lr_nodes r = [] \<longleftrightarrow> lr_free r = 0"
    using r head_in_region(3) [OF r] by (cases "lr_nodes r = []") (auto simp: region_ok_def unat_eq_zero)
  have ok: "lmm_ok (r # filter ?P rs)" using Cons.prems lmm_ok_filter [of rs ?P] by (auto simp: list_all_iff)
  have "card (free_bytes (r # filter ?P rs)) \<le> 2 ^ 32 - 1"
  proof -
    have "free_bytes (r # filter ?P rs) \<subseteq> {1 ..< 2 ^ 32}"
      using free_bytes_32 [OF ok] free_nonzero [OF ok] by (auto simp: Suc_le_eq intro: gr0I)
    then show ?thesis using card_mono [of "{1 ..< 2 ^ 32 :: nat}"] by fastforce
  qed
  then have "unat (lr_free r + n) = card (free_bytes (r # filter ?P rs))"
    using free_bytes_Cons_card [OF ok] n(2) by (simp add: unat_plus)
  then show ?case using n e f head_in_region [OF r] by (auto simp: kassert_def)
qed simp

section \<open>Regions\<close>

lemma put_region_ok:
  assumes "lmm_ok lmm" and "region_ok reg" and "list_all (apart reg) lmm" and "lr_at reg \<notin> lr_at ` set lmm"
  shows "\<exists>lmm'. put_region reg lmm = Inr lmm' \<and> lmm_ok lmm' \<and> mset lmm' = add_mset reg (mset lmm)"
  using assms
proof (induction reg lmm rule: put_region.induct)
  case (2 reg r rs)
  have ap: "apart reg r" "apart r reg" using 2(4) by (auto simp: apart_def)
  show ?case
  proof (cases "lr_pri reg < lr_pri r \<or> lr_pri r = lr_pri reg \<and> lr_max reg - lr_min reg < lr_max r - lr_min r")
    case True
    then obtain rs' where rs: "put_region reg rs = Inr rs'" "lmm_ok rs'" "mset rs' = add_mset reg (mset rs)"
      using 2 by (auto simp: apart_def)
    then have "set rs' = insert reg (set rs)" using set_mset_mset [of rs'] by simp
    then have "list_all (apart r) rs'" using 2(2) ap by (simp add: list_all_iff)
    then show ?thesis using True rs ap 2(2,5) by (auto simp: kassert_def apart_def add_mset_commute)
  next
    case False
    then show ?thesis using 2 by auto
  qed
qed simp

lemma mset_free_bytes: "mset lmm' = add_mset r (mset lmm) \<Longrightarrow> free_bytes lmm' = node_bytes (lr_nodes r) \<union> free_bytes lmm"
  using set_mset_mset [of lmm', symmetric] by (simp add: free_bytes_def)

text \<open>A new region that overlaps no region of the pool joins it without free memory.\<close>

lemma lmm_add_region_ok:
  assumes "lmm_ok lmm" and "reg \<notin> lr_at ` set lmm" and "unat addr + unat sz < 2 ^ 32" and "unat addr + 7 < 2 ^ 32"
    and lt: "align_up addr < align_down (addr + sz)"
    and ap: "\<forall>r \<in> set lmm. align_down (addr + sz) \<le> lr_min r \<or> lr_max r \<le> align_up addr"
  shows "\<exists>lmm'. lmm_add_region reg addr sz flags pri lmm = Inr lmm' \<and> lmm_ok lmm' \<and> free_bytes lmm' = free_bytes lmm \<and>
    mset lmm' = add_mset \<lparr>lr_at = reg, lr_nodes = [], lr_min = align_up addr, lr_max = align_down (addr + sz), lr_flags = flags, lr_pri = pri, lr_free = 0\<rparr> (mset lmm)"
proof -
  let ?r = "\<lparr>lr_at = reg, lr_nodes = [], lr_min = align_up addr, lr_max = align_down (addr + sz), lr_flags = flags, lr_pri = pri, lr_free = 0\<rparr>"
  have "region_ok ?r" using lt assms(4)
    by (simp add: region_ok_def unat_align_up unat_lmm_align_down minus_mod_eq_div_mult)
  moreover have "list_all (apart ?r) lmm" using ap by (simp add: list_all_iff apart_def)
  ultimately obtain lmm' where p: "put_region ?r lmm = Inr lmm'" "lmm_ok lmm'" "mset lmm' = add_mset ?r (mset lmm)"
    using put_region_ok [OF assms(1)] assms(2) by fastforce
  then show ?thesis using lt mset_free_bytes [OF p(3)] by (simp add: lmm_add_region_def Let_def)
qed

section \<open>Memory given to a pool\<close>

text \<open>The part of a range that is in a region.\<close>

definition part :: "nat \<Rightarrow> nat \<Rightarrow> lmm_region \<Rightarrow> nat set" where
  "part lo hi r = {max lo (unat (lr_min r)) ..< min hi (unat (lr_max r))}"

definition known :: "lmm_t \<Rightarrow> lmm_region \<Rightarrow> bool" where
  "known lmm r \<longleftrightarrow> (\<exists>q \<in> set lmm. lr_min q = lr_min r \<and> lr_max q = lr_max r)"

lemma known_frame: "frame lmm = frame lmm' \<Longrightarrow> known lmm r = known lmm' r"
proof -
  have "known l r \<longleftrightarrow> (\<exists>x \<in> set (frame l). fst (snd x) = lr_min r \<and> fst (snd (snd x)) = lr_max r)" for l
    by (auto simp: known_def frame_def)
  then show "frame lmm = frame lmm' \<Longrightarrow> known lmm r = known lmm' r" by simp
qed

lemma rounded_dvd: "8 dvd unat x \<Longrightarrow> rounded x = unat x"
  by (auto simp: rounded_def elim!: dvdE)

lemma free_part_ok:
  assumes "lmm_ok lmm" and "region_ok r" and "known lmm r" and al: "8 dvd unat lo" "8 dvd unat hi" "0 < unat lo"
    and lt: "max lo (lr_min r) < min hi (lr_max r)"
    and disj: "{unat (max lo (lr_min r)) ..< unat (min hi (lr_max r))} \<inter> free_bytes lmm = {}"
  shows "\<exists>lmm'. lmm_free (max lo (lr_min r)) (min hi (lr_max r) - max lo (lr_min r)) lmm = Inr lmm' \<and> lmm_ok lmm' \<and>
    frame lmm' = frame lmm \<and> free_bytes lmm' = free_bytes lmm \<union> {unat (max lo (lr_min r)) ..< unat (min hi (lr_max r))}"
proof -
  let ?lo = "max lo (lr_min r)" and ?hi = "min hi (lr_max r)"
  have d: "8 dvd unat ?lo" "8 dvd unat ?hi" using al assms(2) by (simp_all add: max_def min_def region_ok_def)
  have h: "unat ?lo < unat ?hi" using lt by (simp add: word_less_nat_alt)
  then have sz: "unat (?hi - ?lo) = unat ?hi - unat ?lo" by (simp add: unat_minus)
  have "unat ?hi + 8 \<le> 2 ^ 32" using d(2) unat_less32 [of ?hi] by (auto elim!: dvdE)
  then have bound: "unat (?hi - ?lo) + 7 < 2 ^ 32" by (simp add: sz)
  have rd: "rounded (?hi - ?lo) = unat ?hi - unat ?lo" using rounded_dvd [of "?hi - ?lo"] d sz by (simp add: dvd_diff_nat)
  obtain q where q: "q \<in> set lmm" "lr_min q = lr_min r" "lr_max q = lr_max r" using assms(3) by (auto simp: known_def)
  have "region_low q \<le> unat ?lo" "unat ?hi \<le> unat (lr_max q)"
    using q(2,3) al(3) by (auto simp: region_low_def max_def min_def word_le_nat_alt)
  then have "list_ex (in_region (unat ?lo) (rounded (?hi - ?lo))) lmm"
    using q(1) h rd by (auto simp: list_ex_iff in_region_def)
  moreover have "0 < ?hi - ?lo" using h by (simp add: word_less_nat_alt sz)
  moreover have "unat ?lo + rounded (?hi - ?lo) = unat ?hi" using rd h by simp
  ultimately show ?thesis using lmm_free_ok [OF assms(1) _ bound d(1)] disj by (simp only: gave_def)
qed

lemma add_free_regions_ok:
  assumes "lmm_ok lmm" and "lmm_ok regs" and "\<forall>r \<in> set regs. known lmm r \<and> part (unat lo) (unat hi) r \<inter> free_bytes lmm = {}"
    and al: "8 dvd unat lo" "8 dvd unat hi" "0 < unat lo" "lo < hi"
  shows "\<exists>lmm'. add_free_regions lo hi regs lmm = Inr lmm' \<and> lmm_ok lmm' \<and> frame lmm' = frame lmm \<and>
    free_bytes lmm' = free_bytes lmm \<union> (\<Union>r \<in> set regs. part (unat lo) (unat hi) r)"
  using assms(1-3)
proof (induction regs arbitrary: lmm)
  case (Cons r regs)
  have r: "region_ok r" using Cons.prems(2) by simp
  then have as: "lr_min r < lr_max r" "lr_min r AND ALIGN_MASK = 0" "lr_max r AND ALIGN_MASK = 0"
    by (simp_all add: region_ok_def align_unat)
  have ap: "part (unat lo) (unat hi) q \<inter> part (unat lo) (unat hi) r = {}" if "q \<in> set regs" for q
    using Cons.prems(2) that by (auto simp: part_def list_all_iff apart_def word_le_nat_alt)
  show ?case
  proof (cases "lr_min r < hi \<and> lo < lr_max r")
    case False
    then have "part (unat lo) (unat hi) r = {}" by (auto simp: part_def word_less_nat_alt)
    then show ?thesis using Cons False as by (auto simp: kassert_def)
  next
    case True
    let ?lo = "max lo (lr_min r)" and ?hi = "min hi (lr_max r)"
    have lt: "?lo < ?hi" using True as(1) al(4) by (auto simp: max_def min_def)
    have u: "unat ?lo = max (unat lo) (unat (lr_min r))" "unat ?hi = min (unat hi) (unat (lr_max r))"
      by (simp_all add: max_def min_def word_le_nat_alt)
    obtain lmm1 where f: "lmm_free ?lo (?hi - ?lo) lmm = Inr lmm1" and g: "lmm_ok lmm1" "frame lmm1 = frame lmm"
        "free_bytes lmm1 = free_bytes lmm \<union> part (unat lo) (unat hi) r"
      using free_part_ok [OF Cons.prems(1) r _ al(1-3) lt] Cons.prems(3) u by (auto simp: part_def)
    have "\<forall>q \<in> set regs. known lmm1 q \<and> part (unat lo) (unat hi) q \<inter> free_bytes lmm1 = {}"
      using Cons.prems(3) ap known_frame [OF g(2)] g(3) by auto
    then obtain lmm2 where "add_free_regions lo hi regs lmm1 = Inr lmm2" "lmm_ok lmm2" "frame lmm2 = frame lmm1"
        "free_bytes lmm2 = free_bytes lmm1 \<union> (\<Union>r \<in> set regs. part (unat lo) (unat hi) r)"
      using Cons.IH [OF g(1)] Cons.prems(2) by auto
    then show ?thesis using True as lt f g by (auto simp: kassert_def)
  qed
qed simp


text \<open>\<open>lmm_add_free\<close> makes the aligned part of a block free, as far as it is in a region.\<close>

lemma lmm_add_free_ok:
  assumes "lmm_ok lmm" and "0 < unat block" and "unat block + 7 < 2 ^ 32" and "unat block + unat sz < 2 ^ 32"
    and le: "(unat block + 7) div 8 * 8 \<le> (unat block + unat sz) div 8 * 8"
    and disj: "{unat block ..< unat block + unat sz} \<inter> free_bytes lmm = {}"
  shows "\<exists>lmm'. lmm_add_free block sz lmm = Inr lmm' \<and> lmm_ok lmm' \<and> frame lmm' = frame lmm \<and>
    free_bytes lmm' = free_bytes lmm \<union> (\<Union>r \<in> set lmm. part ((unat block + 7) div 8 * 8) ((unat block + unat sz) div 8 * 8) r)"
proof -
  let ?lo = "align_up block" and ?hi = "align_down (block + sz)"
  have u: "unat ?lo = (unat block + 7) div 8 * 8" "unat ?hi = (unat block + unat sz) div 8 * 8"
    using unat_align_up [OF assms(3)] unat_plus [OF assms(4)] by (simp_all add: unat_lmm_align_down minus_mod_eq_div_mult)
  show ?thesis
  proof (cases "?hi = ?lo")
    case True
    then have "unat ?hi = unat ?lo" by simp
    then have "part ((unat block + 7) div 8 * 8) ((unat block + unat sz) div 8 * 8) r = {}" for r by (simp add: part_def u)
    then show ?thesis using True assms(1) by (simp add: lmm_add_free_def Let_def kassert_def u)
  next
    case False
    then have lt: "?lo < ?hi" "?lo \<le> ?hi" using le u by (simp_all add: word_less_nat_alt word_le_nat_alt word_unat_eq_iff)
    have "unat block \<le> unat ?lo" "unat ?hi \<le> unat block + unat sz" unfolding u by simp_all
    then have "part (unat ?lo) (unat ?hi) r \<subseteq> {unat block ..< unat block + unat sz}" for r by (auto simp: part_def)
    then have "\<forall>r \<in> set lmm. known lmm r \<and> part (unat ?lo) (unat ?hi) r \<inter> free_bytes lmm = {}"
      using disj unfolding known_def by blast
    moreover have "0 < unat ?lo" using assms(2) u by (simp add: div_greater_zero_iff)
    ultimately show ?thesis using add_free_regions_ok [OF assms(1,1), of ?lo ?hi] lt False
      by (simp add: lmm_add_free_def Let_def kassert_def u)
  qed
qed

text \<open>A block without an aligned word is refused by an assertion when it crosses no multiple of eight, although the comment
  behind the assertion says that such a block is dropped.\<close>

lemma lmm_add_free_tiny_panics:
  assumes "unat block + 7 < 2 ^ 32" and "unat block mod 8 \<noteq> 0" and "unat block mod 8 + unat sz < 8"
  shows "lmm_add_free block sz lmm = Inl PANIC"
proof -
  define q m where "q = unat block div 8" and "m = unat block mod 8"
  have b: "unat block = 8 * q + m" by (simp add: q_def m_def)
  have "unat sz \<le> 7" using assms(3) by linarith
  then have "unat (block + sz) = unat block + unat sz" using assms(1) by (intro unat_plus) linarith
  then have u: "unat (block + sz) = 8 * q + (m + unat sz)" using b by simp
  have "0 < m" "m < 8" using assms(2) by (simp_all add: m_def)
  then have "(8 * q + m + 7) div 8 = Suc q" by (intro div_nat_eqI) simp_all
  then have "unat (align_up block) = 8 * q + 8" using unat_align_up [OF assms(1)] b by simp
  moreover have "unat (align_down (block + sz)) = 8 * q" using assms(3) by (simp add: unat_lmm_align_down u m_def)
  ultimately show ?thesis by (simp add: lmm_add_free_def Let_def kassert_def word_le_nat_alt)
qed

section \<open>Memory taken from a pool by address\<close>

text \<open>What \<open>lmm_find_free\<close> has found so far in some regions: the rest of a node from an address on, with no free byte between
  \<open>start\<close> and there; or nothing.\<close>

definition found_rest :: "lmm_t \<Rightarrow> nat \<Rightarrow> u32 \<times> u32 \<times> u32 \<Rightarrow> bool" where
  "found_rest lmm start l \<longleftrightarrow>
     (\<exists>r a n. r \<in> set lmm \<and> (a, n) \<in> set (lr_nodes r) \<and> unat a \<le> unat (fst l) \<and> start \<le> unat (fst l) \<and> 8 dvd unat (fst l) \<and>
        unat (fst l) < unat a + unat n \<and> unat (fst (snd l)) = unat a + unat n - unat (fst l) \<and> snd (snd l) = lr_flags r)"

lemma found_restI:
  assumes "r \<in> set lmm" and "(a, n) \<in> set (lr_nodes r)" and "unat a \<le> unat (fst l)" "start \<le> unat (fst l)" "8 dvd unat (fst l)"
    and "unat (fst l) < unat a + unat n" "unat (fst (snd l)) = unat a + unat n - unat (fst l)" "snd (snd l) = lr_flags r"
  shows "found_rest lmm start l"
  using assms unfolding found_rest_def by blast

lemma find_node_ok:
  assumes "nodes_ok lo (unat (lr_max r)) ns" and "unat (lr_min r) \<le> lo" and "set ns \<subseteq> set (lr_nodes r)" and "r \<in> set lmm"
    and "l = (- 1, 0, 0) \<or> found_rest lmm (unat start) l" and "8 dvd unat start"
  shows "\<exists>l'. find_node r start ns l = Inr l' \<and> (l' = (- 1, 0, 0) \<or> found_rest lmm (unat start) l') \<and> unat (fst l') \<le> unat (fst l) \<and>
    node_bytes ns \<inter> {unat start ..< unat (fst l')} = {}"
  using assms(1-3)
proof (induction ns arbitrary: lo rule: node_bytes.induct)
  case (2 a n ns)
  have hd: "lr_min r \<le> a" "a < lr_max r" "8 dvd unat a" "0 < unat n" "unat a + unat n < 2 ^ 32" and tail: "nodes_ok (Suc (unat a + unat n)) (unat (lr_max r)) ns"
    using 2(2,3) unat_less32 [of "lr_max r"] by (auto simp: word_le_nat_alt word_less_nat_alt)
  have b: "node_bytes ns \<subseteq> {Suc (unat a + unat n) ..< unat (lr_max r)}" by (rule nodes_ok_bytes [OF tail])
  show ?case
  proof (cases "fst l \<le> a")
    case True
    then show ?thesis using hd assms(5) b by (auto simp: kassert_def word_le_nat_alt)
  next
    case False
    have an: "unat (a + n) = unat a + unat n" using hd(5) by (rule unat_plus)
    show ?thesis
    proof (cases "start < a + n")
      case True
      let ?l = "if start < a then (a, n, lr_flags r) else (start, n - (start - a), lr_flags r)"
      have "\<not> start < a \<Longrightarrow> unat (n - (start - a)) = unat a + unat n - unat start"
        using True an by (simp add: unat_minus word_less_nat_alt)
      then have "found_rest lmm (unat start) ?l"
        using hd True an assms(4,6) 2(4) by (intro found_restI [of r lmm a n]) (auto simp: word_less_nat_alt)
      moreover have "node_bytes ((a, n) # ns) \<inter> {unat start ..< unat (fst ?l)} = {}" using b by (auto simp: word_less_nat_alt)
      moreover have "unat start \<le> unat (fst l)"
        using assms(5) word_order.extremum [of start] by (auto simp: found_rest_def word_le_nat_alt)
      then have "unat (fst ?l) \<le> unat (fst l)" using False True by (auto simp: word_less_nat_alt word_le_nat_alt)
      ultimately show ?thesis using True False hd(1,2) by (auto simp: kassert_def)
    next
      case past: False
      obtain l' where l': "find_node r start ns l = Inr l'" "l' = (- 1, 0, 0) \<or> found_rest lmm (unat start) l'"
          "unat (fst l') \<le> unat (fst l)" "node_bytes ns \<inter> {unat start ..< unat (fst l')} = {}"
        using 2(1) [OF tail] 2(3,4) hd(1) by (auto simp: word_le_nat_alt)
      have "node_bytes ((a, n) # ns) \<inter> {unat start ..< unat (fst l')} = {}"
        using l'(4) past an by (auto simp: word_less_nat_alt)
      then show ?thesis using l' past False hd(1,2) by (auto simp: kassert_def)
    qed
  qed
qed (use assms in auto)


lemma find_region_ok:
  assumes "\<forall>r \<in> set rs. region_ok r" and "set rs \<subseteq> set lmm" and "8 dvd unat start" and "l = (- 1, 0, 0) \<or> found_rest lmm (unat start) l"
  shows "\<exists>l'. find_region start rs l = Inr l' \<and> (l' = (- 1, 0, 0) \<or> found_rest lmm (unat start) l') \<and> unat (fst l') \<le> unat (fst l) \<and>
    free_bytes rs \<inter> {unat start ..< unat (fst l')} = {}"
  using assms(1,2,4)
proof (induction rs arbitrary: l)
  case (Cons r rs)
  have r: "region_ok r" using Cons.prems(1) by simp
  have lo: "unat (lr_min r) \<le> region_low r" by (rule region_low_bounds)
  show ?case
  proof (cases "lr_nodes r = [] \<or> lr_max r \<le> start \<or> fst l < lr_min r")
    case True
    obtain l' where l': "find_region start rs l = Inr l'" "l' = (- 1, 0, 0) \<or> found_rest lmm (unat start) l'" "unat (fst l') \<le> unat (fst l)"
        "free_bytes rs \<inter> {unat start ..< unat (fst l')} = {}"
      using Cons.IH [of l] Cons.prems by auto
    have "node_bytes (lr_nodes r) \<inter> {unat start ..< unat (fst l')} = {}"
      using True region_span [OF r] l'(3) by (auto simp: word_less_nat_alt word_le_nat_alt)
    then show ?thesis using True l' by (simp add: Int_Un_distrib2)
  next
    case False
    have "nodes_ok (region_low r) (unat (lr_max r)) (lr_nodes r)" using r by (simp add: region_ok_def)
    from find_node_ok [OF this lo subset_refl _ Cons.prems(3) assms(3)] Cons.prems(2) obtain l1 where
      l1: "find_node r start (lr_nodes r) l = Inr l1" "l1 = (- 1, 0, 0) \<or> found_rest lmm (unat start) l1" "unat (fst l1) \<le> unat (fst l)"
        "node_bytes (lr_nodes r) \<inter> {unat start ..< unat (fst l1)} = {}" by auto
    obtain l' where l': "find_region start rs l1 = Inr l'" "l' = (- 1, 0, 0) \<or> found_rest lmm (unat start) l'" "unat (fst l') \<le> unat (fst l1)"
        "free_bytes rs \<inter> {unat start ..< unat (fst l')} = {}"
      using Cons.IH [OF _ _ l1(2)] Cons.prems by auto
    have "{unat start ..< unat (fst l')} \<subseteq> {unat start ..< unat (fst l1)}" using l'(3) by simp
    then have "node_bytes (lr_nodes r) \<inter> {unat start ..< unat (fst l')} = {}" using l1(4) by blast
    then show ?thesis using False l1 l' by (simp add: Int_Un_distrib2)
  qed
qed simp

lemma lmm_ok_regions: "lmm_ok lmm \<Longrightarrow> r \<in> set lmm \<Longrightarrow> region_ok r"
  by (induction lmm) auto

lemma lmm_find_free_ok:
  assumes "lmm_ok lmm" and "8 dvd unat start"
  shows "\<exists>l. lmm_find_free start lmm = Inr l \<and> (l = (- 1, 0, 0) \<or> found_rest lmm (unat start) l) \<and>
    free_bytes lmm \<inter> {unat start ..< unat (fst l)} = {}"
proof -
  have "unat start + 7 < 2 ^ 32" using assms(2) unat_less32 [of start] by (auto elim!: dvdE)
  then have "align_up start = start" using assms(2) unat_align_up [of start] by (auto simp: word_unat_eq_iff elim!: dvdE)
  then show ?thesis
    using find_region_ok [of lmm lmm start "(- 1, 0, 0)"] lmm_ok_regions assms by (auto simp: lmm_find_free_def)
qed

lemma nodes_ok_span: "nodes_ok lo hi ns \<Longrightarrow> (c, m) \<in> set ns \<Longrightarrow> {unat c ..< unat c + unat m} \<subseteq> node_bytes ns \<and> 8 dvd unat c \<and> 8 dvd unat m"
  by (induction lo hi ns rule: nodes_ok.induct) auto

lemma fits_here:
  assumes "unat a \<le> unat x" and "unat x + unat k \<le> unat a + unat n" and "unat x + unat k < 2 ^ 32"
  shows "fits 0 0 x (x + k) k (a, n)"
proof -
  have "place 0 0 x a = x" using assms(1) by (auto simp: place_def align_addr_def word_less_nat_alt word_unat_eq_iff)
  then show ?thesis using assms unat_plus [OF assms(3)] by (simp add: fits_def)
qed

text \<open>One round of the loop takes the free bytes it found, as far as they are in the range.\<close>

lemma remove_round:
  assumes ok: "lmm_ok lmm" "free_bytes lmm \<subseteq> {..< 2 ^ 30}" and f: "found_rest lmm start (x, sz, flags)"
    and "8 dvd unat rend" "x < rend"
  defines "k \<equiv> (if rend < x + sz then rend - x else sz)"
  shows "\<exists>lmm'. lmm_alloc_gen k flags 0 0 x k lmm = Inr (lmm', x) \<and> took lmm lmm' (unat x) (unat k)"
    and "0 < unat k" and "unat x + unat k \<le> unat rend" and "x + sz \<le> rend \<or> unat x + unat k = unat rend"
proof -
  obtain r a n where r: "r \<in> set lmm" "(a, n) \<in> set (lr_nodes r)" "unat a \<le> unat x" "8 dvd unat x" "unat x < unat a + unat n"
      "unat sz = unat a + unat n - unat x" "flags = lr_flags r"
    using f by (auto simp: found_rest_def)
  have n: "nodes_ok (region_low r) (unat (lr_max r)) (lr_nodes r)" using lmm_ok_regions [OF ok(1) r(1)] by (simp add: region_ok_def)
  from nodes_ok_span [OF n r(2)] have sub: "{unat a ..< unat a + unat n} \<subseteq> free_bytes lmm" and an: "8 dvd unat a" "8 dvd unat n"
    using r(1) by (auto simp: free_bytes_def)
  have "{unat a ..< unat a + unat n} \<subseteq> {0 ..< 2 ^ 30}"
    using subset_trans [OF sub ok(2)] by (simp only: lessThan_atLeast0)
  from interval_le [OF this] have top: "unat a + unat n \<le> 2 ^ 30" "8 dvd unat sz"
    using r(3-6) an by (auto intro: dvd_diff_nat)
  have xs: "unat (x + sz) = unat a + unat n" using r(5,6) top by (subst unat_plus) simp_all
  have k: "unat k = min (unat rend - unat x) (unat sz)" and d: "8 dvd unat k"
    using assms(4,5) xs r(4-6) top(2) by (auto simp: k_def word_less_nat_alt unat_minus intro: dvd_diff_nat)
  show k0: "0 < unat k" and kr: "unat x + unat k \<le> unat rend" and "x + sz \<le> rend \<or> unat x + unat k = unat rend"
    using k assms(5) r(5,6) xs by (auto simp: word_less_nat_alt word_le_nat_alt)
  have le: "unat x + unat k \<le> unat a + unat n" "unat x + unat k < 2 ^ 32" using k r(5,6) top by simp_all
  have fit: "fits 0 0 x (x + k) k (a, n)" by (rule fits_here [OF r(3) le])
  have sm: "small 0 x" and p0: "0 < k" using r(5) top k0 by (simp_all add: small_def word_less_nat_alt)
  have e: "align_down x = x" "cut_size x k = unat k"
    using r(4) d by (auto simp: word_unat_eq_iff unat_lmm_align_down cut_size_def elim!: dvdE)
  show "\<exists>lmm'. lmm_alloc_gen k flags 0 0 x k lmm = Inr (lmm', x) \<and> took lmm lmm' (unat x) (unat k)"
  proof -
    note g = lmm_alloc_gen_ok [OF ok p0 sm, of flags 0 k]
    then obtain lmm' p where a: "lmm_alloc_gen k flags 0 0 x k lmm = Inr (lmm', p)" by (auto split: sum.splits)
    have "p \<noteq> NULL" using g a fit r(1,2,7) by auto
    then have "granted 0 0 x (x + k) k p" and t: "took lmm lmm' (unat (align_down p)) (cut_size p k)" using g a by simp_all
    then have "p = x" using unat_plus [OF le(2)] by (simp add: granted_def word_unat_eq_iff word_le_nat_alt)
    then show ?thesis using a t e by simp
  qed
qed

text \<open>The loop ends, because every round takes free bytes.\<close>

lemma remove_loop_ok:
  assumes "lmm_ok lmm" and "free_bytes lmm \<subseteq> {..< 2 ^ 30}" and "8 dvd unat rend" and "8 dvd unat x" "block \<le> x"
    and "free_bytes lmm \<inter> {unat block ..< unat x} = {}"
  shows "\<exists>lmm'. remove_loop block rend x lmm = Some (Inr lmm') \<and> lmm_ok lmm' \<and> frame lmm' = frame lmm \<and>
    free_bytes lmm' = free_bytes lmm - {unat block ..< unat rend}"
  using assms
proof (induction "card (free_bytes lmm)" arbitrary: x lmm rule: less_induct)
  case less
  show ?case
  proof (cases "x < rend")
    case False
    then have "free_bytes lmm \<inter> {unat block ..< unat rend} = {}" using less.prems(6) by (auto simp: word_less_nat_alt)
    then show ?thesis using False less.prems(1) by (subst remove_loop.simps) auto
  next
    case True
    obtain y sz fl where l: "lmm_find_free x lmm = Inr (y, sz, fl)" "(y, sz, fl) = (- 1, 0, 0) \<or> found_rest lmm (unat x) (y, sz, fl)"
        "free_bytes lmm \<inter> {unat x ..< unat y} = {}"
      using lmm_find_free_ok [OF less.prems(1,4)] by (metis fst_conv prod_cases3)
    have xy: "unat x \<le> unat y" using l(2) word_order.extremum [of x] by (auto simp: found_rest_def word_le_nat_alt)
    then have yb: "\<not> y < block" using less.prems(5) by (simp add: word_less_nat_alt word_le_nat_alt)
    have none: "free_bytes lmm \<inter> {unat block ..< unat y} = {}" using l(3) less.prems(6) by fastforce
    show ?thesis
    proof (cases "sz = 0 \<or> rend \<le> y")
      case stop: True
      then have "rend \<le> y" using l(2) by (auto simp: found_rest_def)
      then have "free_bytes lmm \<inter> {unat block ..< unat rend} = {}" using none by (fastforce simp: word_le_nat_alt)
      then show ?thesis using stop True l(1) yb less.prems(1) by (subst remove_loop.simps) auto
    next
      case False
      then have f: "found_rest lmm (unat x) (y, sz, fl)" and yr: "y < rend" using l(2) by auto
      define k where "k = (if rend < y + sz then rend - y else sz)"
      note round = remove_round [OF less.prems(1,2) f less.prems(3) yr, folded k_def]
      then obtain lmm1 where a: "lmm_alloc_gen k fl 0 0 y k lmm = Inr (lmm1, y)" and t: "took lmm lmm1 (unat y) (unat k)" by auto
      note t = t [unfolded took_def]
      have "unat y \<in> {unat y ..< unat y + unat k}" using round(2) by simp
      then have "free_bytes lmm1 \<subset> free_bytes lmm" using t by blast
      then have c: "card (free_bytes lmm1) < card (free_bytes lmm)" by (intro psubset_card_mono) simp_all
      have "\<exists>lmm'. remove_loop block rend y lmm1 = Some (Inr lmm') \<and> lmm_ok lmm' \<and> frame lmm' = frame lmm1 \<and>
          free_bytes lmm' = free_bytes lmm1 - {unat block ..< unat rend}"
        by (rule less.hyps [OF c]) (use t less.prems(2,3) f yb none in \<open>auto simp: found_rest_def\<close>)
      moreover have "free_bytes lmm1 - {unat block ..< unat rend} = free_bytes lmm - {unat block ..< unat rend}"
        using t round(3) yb by (auto simp: word_less_nat_alt)
      ultimately show ?thesis
        using True False l(1) yb a t by (subst remove_loop.simps) (auto simp: Let_def k_def)
    qed
  qed
qed

text \<open>C36: \<open>lmm_remove_free\<close> of an aligned range ends without a panic, whatever is free in it, and takes exactly the free bytes of
  the range out of the pool, which stays well-formed.\<close>

theorem lmm_remove_free_correct:
  assumes "lmm_ok lmm" and "free_bytes lmm \<subseteq> {..< 2 ^ 30}" and "8 dvd unat block" "8 dvd unat sz" "0 < sz" "unat block + unat sz < 2 ^ 32"
  shows "\<exists>lmm'. lmm_remove_free block sz lmm = Some (Inr lmm') \<and> lmm_ok lmm' \<and> frame lmm' = frame lmm \<and>
    free_bytes lmm' = free_bytes lmm - {unat block ..< unat block + unat sz}"
proof -
  have u: "unat (block + sz) = unat block + unat sz" by (rule unat_plus [OF assms(6)])
  then have "block < block + sz" using assms(5) by (simp add: word_less_nat_alt)
  then show ?thesis
    using remove_loop_ok [OF assms(1,2), of "block + sz" block block] assms(3,4) u by (simp add: lmm_remove_free_def)
qed

theorem lmm_remove_free_correct_witness:
  "\<exists>lmm'. lmm_remove_free 0x100020 0x1000 demo_pool = Some (Inr lmm') \<and> lmm_ok lmm' \<and>
     free_bytes lmm' = {0x100000 ..< 0x100020} \<union> {0x101020 ..< 0x102100}"
proof -
  have "free_bytes demo_pool - {0x100020 ..< 0x101020} = {0x100000 ..< 0x100020} \<union> {0x101020 ..< 0x102100}"
    by (auto simp: demo_pool_def)
  then show ?thesis
    using lmm_remove_free_correct [of demo_pool "0x100020" "0x1000"] demo_pool_ok by (auto simp: gen_inv_def)
qed

text \<open>The free bytes below the first aligned address of an unaligned range stay in the pool.\<close>

lemma lmm_remove_free_unaligned:
  "lmm_remove_free 0x100004 0x4 demo_pool = Some (Inr demo_pool)"
  by (simp add: lmm_remove_free_def remove_loop.simps lmm_find_free_def demo_pool_def align_up_def ALIGN_MASK_def kassert_def)


end
