(* ===== verification/Byte_Memory.thy ===== *)
theory Byte_Memory
  imports Kern_Prelude
begin

text \<open>
  Memory as bytes by address, for the C code that works on it directly: the allocator's chunk headers, the string
  functions and the ELF reader. Words are little-endian.
\<close>

type_synonym bmem = "u32 \<Rightarrow> u8"

primrec rd :: "nat \<Rightarrow> u32 \<Rightarrow> bmem \<Rightarrow> u8 list" where
  "rd 0 a m = []"
| "rd (Suc n) a m = m a # rd n (a + 1) m"

primrec wr :: "u32 \<Rightarrow> u8 list \<Rightarrow> bmem \<Rightarrow> bmem" where
  "wr a [] m = m"
| "wr a (b # bs) m = wr (a + 1) bs (m(a := b))"

definition le16 :: "u8 list \<Rightarrow> u16" where
  "le16 b = ucast (b ! 0) OR push_bit 8 (ucast (b ! 1))"

definition le32 :: "u8 list \<Rightarrow> u32" where
  "le32 b = ucast (b ! 0) OR push_bit 8 (ucast (b ! 1)) OR push_bit 16 (ucast (b ! 2)) OR push_bit 24 (ucast (b ! 3))"

definition le16_bytes :: "u16 \<Rightarrow> u8 list" where
  "le16_bytes v = [ucast v, ucast (drop_bit 8 v)]"

definition le32_bytes :: "u32 \<Rightarrow> u8 list" where
  "le32_bytes v = [ucast v, ucast (drop_bit 8 v), ucast (drop_bit 16 v), ucast (drop_bit 24 v)]"

definition rd32 :: "u32 \<Rightarrow> bmem \<Rightarrow> u32" where
  "rd32 a m = le32 (rd 4 a m)"

definition wr32 :: "u32 \<Rightarrow> u32 \<Rightarrow> bmem \<Rightarrow> bmem" where
  "wr32 a v m = wr a (le32_bytes v) m"

section \<open>Words as bytes\<close>

lemma le16_le16_bytes [simp]: "le16 (le16_bytes v) = v"
proof (rule bit_word_eqI)
  fix j assume "j < LENGTH(16)"
  then show "bit (le16 (le16_bytes v)) j = bit v j"
    by (cases "j < 8") (auto simp: le16_def le16_bytes_def bit_simps)
qed

lemma le32_le32_bytes [simp]: "le32 (le32_bytes v) = v"
proof (rule bit_word_eqI)
  fix j assume "j < LENGTH(32)"
  then have j: "j < 32" by simp
  consider "j < 8" | "8 \<le> j" "j < 16" | "16 \<le> j" "j < 24" | "24 \<le> j" using j by linarith
  then show "bit (le32 (le32_bytes v)) j = bit v j"
    using j by cases (auto simp: le32_def le32_bytes_def bit_simps)
qed

lemma length_le_bytes [simp]: "length (le16_bytes h) = 2" "length (le32_bytes v) = 4"
  by (simp_all add: le16_bytes_def le32_bytes_def)

section \<open>Reading what was written\<close>

lemma length_rd [simp]: "length (rd n a m) = n"
  by (induction n arbitrary: a) simp_all

lemma rd_nth: "i < n \<Longrightarrow> rd n a m ! i = m (a + word_of_nat i)"
  by (induction n arbitrary: a i) (auto simp: nth_Cons' algebra_simps of_nat_diff gr0_conv_Suc)

lemma rd_cong: "(\<And>i. i < n \<Longrightarrow> m (a + word_of_nat i) = m' (a + word_of_nat i)) \<Longrightarrow> rd n a m = rd n a m'"
  by (intro nth_equalityI) (simp_all add: rd_nth)

lemma distance_inj: "i < 2 ^ 32 \<Longrightarrow> j < 2 ^ 32 \<Longrightarrow> (a :: u32) + word_of_nat i = a + word_of_nat j \<Longrightarrow> i = j"
  using unat_word_of_nat32 by (metis add_left_cancel)

lemma wr_apply:
  assumes "length bs \<le> 2 ^ 32"
  shows "wr a bs m x = (if unat (x - a) < length bs then bs ! unat (x - a) else m x)"
  using assms
proof (induction bs arbitrary: a m)
  case (Cons b bs)
  show ?case
  proof (cases "x = a")
    case True
    then have "unat (x - (a + 1)) = 2 ^ 32 - 1" by (simp add: unsigned_minus_1_eq_mask mask_eq_exp_minus_1)
    then show ?thesis using Cons True by simp
  next
    case False
    then have "unat (x - (a + 1)) = unat (x - a) - 1" "0 < unat (x - a)"
      by (simp_all add: unat_minus_one diff_diff_eq [symmetric] unat_gt_0)
    then show ?thesis using Cons False by (auto simp: nth_Cons')
  qed
qed simp

lemma rd_wr [simp]: "length bs \<le> 2 ^ 32 \<Longrightarrow> rd (length bs) a (wr a bs m) = bs"
  by (intro nth_equalityI) (simp_all add: rd_nth wr_apply unat_word_of_nat32)

lemma rd32_wr32_same [simp]: "rd32 a (wr32 a v m) = v"
  using rd_wr [of "le32_bytes v" a m] by (simp add: rd32_def wr32_def)

text \<open>Bytes that a write does not reach.\<close>

lemma rd_wr_other:
  assumes "length bs \<le> 2 ^ 32" and "\<And>i. i < n \<Longrightarrow> length bs \<le> unat (c + word_of_nat i - a)"
  shows "rd n c (wr a bs m) = rd n c m"
proof (rule rd_cong)
  fix i assume "i < n"
  then have "\<not> unat (c + word_of_nat i - a) < length bs" using assms(2) by (simp add: not_less)
  then show "wr a bs m (c + word_of_nat i) = m (c + word_of_nat i)" by (simp add: wr_apply [OF assms(1)])
qed


end
