(* ===== verification/Malloc_Wrappers.thy ===== *)
theory Malloc_Wrappers
  imports Mutex
begin

text \<open>
  The locks around the allocator (\<open>kern/malloc_wrappers.c\<close>, and \<open>user/libthread/malloc.c\<close> for a program): a
  call on core \<open>c\<close> holds the mutex of that core, which protects the core's own allocator. The functions of
  the 410 library are an argument, over its state.
\<close>

section \<open>The kernel's wrappers\<close>

record 'a alloc_lib =
  lib_malloc :: "u32 \<Rightarrow> 'a \<Rightarrow> ('a \<times> u32) kres"
  lib_memalign :: "u32 \<Rightarrow> u32 \<Rightarrow> 'a \<Rightarrow> ('a \<times> u32) kres"
  lib_calloc :: "u32 \<Rightarrow> u32 \<Rightarrow> 'a \<Rightarrow> ('a \<times> u32) kres"
  lib_realloc :: "u32 \<Rightarrow> u32 \<Rightarrow> 'a \<Rightarrow> ('a \<times> u32) kres"
  lib_free :: "u32 \<Rightarrow> 'a \<Rightarrow> 'a kres"
  lib_smalloc :: "u32 \<Rightarrow> 'a \<Rightarrow> ('a \<times> u32) kres"
  lib_smemalign :: "u32 \<Rightarrow> u32 \<Rightarrow> 'a \<Rightarrow> ('a \<times> u32) kres"
  lib_sfree :: "u32 \<Rightarrow> u32 \<Rightarrow> 'a \<Rightarrow> 'a kres"

record 'a alloc_st =
  malloc_locks :: "nat \<Rightarrow> mutex_t option"   \<comment> \<open>\<open>None\<close>: the NULL pointer\<close>
  alloc_heap :: "nat \<Rightarrow> 'a"                 \<comment> \<open>the allocator of each core\<close>
  alloc_thr :: kthr

text \<open>\<open>raw\<close> is what the memory of the new mutex holds.\<close>

definition malloc_init :: "'a alloc_lib \<Rightarrow> u32 \<Rightarrow> mutex_t \<Rightarrow> nat \<Rightarrow> 'a alloc_st \<Rightarrow> ('a alloc_st \<times> int) kres" where
  "malloc_init L sizeof_mutex raw c s =
     kbind (lib_malloc L sizeof_mutex (alloc_heap s c)) (\<lambda>(a, p).
      let s = s\<lparr>alloc_heap := (alloc_heap s)(c := a)\<rparr> in
      if p = NULL then Inr (s\<lparr>malloc_locks := (malloc_locks s)(c := None)\<rparr>, - 1)
      else case mutex_init raw of (mp, rv) \<Rightarrow>
        Inr (s\<lparr>malloc_locks := (malloc_locks s)(c \<mapsto> mp)\<rparr>, if rv < 0 then - 1 else 0))"

text \<open>\<open>mutex_lock(lock[cur_cpu]); rv = f(); mutex_unlock(lock[cur_cpu])\<close>\<close>

definition with_lock :: "nat \<Rightarrow> ('a \<Rightarrow> ('a \<times> 'r) kres) \<Rightarrow> 'a alloc_st \<Rightarrow> ('a alloc_st \<times> 'r) kres" where
  "with_lock c f s =
     (case malloc_locks s c of None \<Rightarrow> Inl FAULT
      | Some mp \<Rightarrow>
          kbind (kmutex_lock (alloc_thr s) mp) (\<lambda>mp.
          kbind (f (alloc_heap s c)) (\<lambda>(a, r).
          kbind (kmutex_unlock mp (alloc_thr s)) (\<lambda>(mp, k).
          Inr (\<lparr>malloc_locks = (malloc_locks s)(c \<mapsto> mp), alloc_heap = (alloc_heap s)(c := a), alloc_thr = k\<rparr>, r)))))"

definition malloc :: "'a alloc_lib \<Rightarrow> nat \<Rightarrow> u32 \<Rightarrow> 'a alloc_st \<Rightarrow> ('a alloc_st \<times> u32) kres" where
  "malloc L c sz = with_lock c (lib_malloc L sz)"

definition memalign :: "'a alloc_lib \<Rightarrow> nat \<Rightarrow> u32 \<Rightarrow> u32 \<Rightarrow> 'a alloc_st \<Rightarrow> ('a alloc_st \<times> u32) kres" where
  "memalign L c align sz = with_lock c (lib_memalign L align sz)"

definition calloc :: "'a alloc_lib \<Rightarrow> nat \<Rightarrow> u32 \<Rightarrow> u32 \<Rightarrow> 'a alloc_st \<Rightarrow> ('a alloc_st \<times> u32) kres" where
  "calloc L c nelt eltsize = with_lock c (lib_calloc L nelt eltsize)"

definition realloc :: "'a alloc_lib \<Rightarrow> nat \<Rightarrow> u32 \<Rightarrow> u32 \<Rightarrow> 'a alloc_st \<Rightarrow> ('a alloc_st \<times> u32) kres" where
  "realloc L c buf new_size = with_lock c (lib_realloc L buf new_size)"

definition free :: "'a alloc_lib \<Rightarrow> nat \<Rightarrow> u32 \<Rightarrow> 'a alloc_st \<Rightarrow> ('a alloc_st \<times> unit) kres" where
  "free L c buf = with_lock c (\<lambda>a. kbind (lib_free L buf a) (\<lambda>a. Inr (a, ())))"

definition smalloc :: "'a alloc_lib \<Rightarrow> nat \<Rightarrow> u32 \<Rightarrow> 'a alloc_st \<Rightarrow> ('a alloc_st \<times> u32) kres" where
  "smalloc L c sz = with_lock c (lib_smalloc L sz)"

definition smemalign :: "'a alloc_lib \<Rightarrow> nat \<Rightarrow> u32 \<Rightarrow> u32 \<Rightarrow> 'a alloc_st \<Rightarrow> ('a alloc_st \<times> u32) kres" where
  "smemalign L c align sz = with_lock c (lib_smemalign L align sz)"

definition sfree :: "'a alloc_lib \<Rightarrow> nat \<Rightarrow> u32 \<Rightarrow> u32 \<Rightarrow> 'a alloc_st \<Rightarrow> ('a alloc_st \<times> unit) kres" where
  "sfree L c buf sz = with_lock c (\<lambda>a. kbind (lib_sfree L buf sz a) (\<lambda>a. Inr (a, ())))"

definition get_malloc_lib_lock :: "nat \<Rightarrow> 'a alloc_st \<Rightarrow> mutex_t option" where
  "get_malloc_lib_lock c s = malloc_locks s c"

section \<open>The wrappers of a program\<close>

text \<open>One spinlock, 1 when it is free. \<open>SPINLOCK_LOCK\<close> of a lock that is held waits.\<close>

record 'a ualloc_st =
  mutex_malloc :: int
  ualloc_heap :: 'a

definition umalloc_init :: "'a ualloc_st \<Rightarrow> 'a ualloc_st \<times> int" where
  "umalloc_init s = (s\<lparr>mutex_malloc := 1\<rparr>, 0)"

definition with_spinlock :: "('a \<Rightarrow> ('a \<times> 'r) kres) \<Rightarrow> 'a ualloc_st \<Rightarrow> ('a ualloc_st \<times> 'r) kres" where
  "with_spinlock f s =
     (if mutex_malloc s = 0 then Inl SPINS
      else kbind (f (ualloc_heap s)) (\<lambda>(a, r). Inr (s\<lparr>ualloc_heap := a, mutex_malloc := 1\<rparr>, r)))"

definition umalloc :: "'a alloc_lib \<Rightarrow> u32 \<Rightarrow> 'a ualloc_st \<Rightarrow> ('a ualloc_st \<times> u32) kres" where
  "umalloc L sz = with_spinlock (lib_malloc L sz)"

definition ucalloc :: "'a alloc_lib \<Rightarrow> u32 \<Rightarrow> u32 \<Rightarrow> 'a ualloc_st \<Rightarrow> ('a ualloc_st \<times> u32) kres" where
  "ucalloc L nelt eltsize = with_spinlock (lib_calloc L nelt eltsize)"

definition urealloc :: "'a alloc_lib \<Rightarrow> u32 \<Rightarrow> u32 \<Rightarrow> 'a ualloc_st \<Rightarrow> ('a ualloc_st \<times> u32) kres" where
  "urealloc L buf new_size = with_spinlock (lib_realloc L buf new_size)"

definition ufree :: "'a alloc_lib \<Rightarrow> u32 \<Rightarrow> 'a ualloc_st \<Rightarrow> ('a ualloc_st \<times> unit) kres" where
  "ufree L buf = with_spinlock (\<lambda>a. kbind (lib_free L buf a) (\<lambda>a. Inr (a, ())))"

section \<open>A call is one step of the allocator\<close>

text \<open>With the core's mutex free, a call has the effect and the result of the library's function on the
  allocator of its core, and leaves the mutexes and the other cores' allocators as they were.\<close>

lemma with_lock_step:
  assumes "malloc_locks s c = Some free_mutex" and "0 \<le> my_tid (alloc_thr s)" and "f (alloc_heap s c) = Inr (a, r)"
  shows "\<exists>s'. with_lock c f s = Inr (s', r) \<and> malloc_locks s' = malloc_locks s \<and> alloc_heap s' = (alloc_heap s)(c := a) \<and> alloc_thr s' = alloc_thr s"
  using assms by (auto simp: with_lock_def fun_eq_iff)

lemma malloc_step:
  assumes "malloc_locks s c = Some free_mutex" and "0 \<le> my_tid (alloc_thr s)" and "lib_malloc L sz (alloc_heap s c) = Inr (a, p)"
  shows "\<exists>s'. malloc L c sz s = Inr (s', p) \<and> malloc_locks s' = malloc_locks s \<and> alloc_heap s' = (alloc_heap s)(c := a)"
  using with_lock_step [OF assms(1,2), of "lib_malloc L sz"] assms(3) by (auto simp: malloc_def)

text \<open>A call while another thread of the core holds the mutex waits.\<close>

lemma with_lock_blocks:
  "malloc_locks s c = Some (held_by i) \<Longrightarrow> 0 \<le> i \<Longrightarrow> i \<noteq> my_tid (alloc_thr s) \<Longrightarrow> with_lock c f s = Inl BLOCKS"
  by (simp add: with_lock_def held_by_def kmutex_lock_def mutex_lock_def)

end
