(* ===== verification/Kern_Malloc.thy ===== *)
theory Kern_Malloc
  imports Lmm_Setup Byte_Memory Malloc_Wrappers
begin

text \<open>
  The C allocator of a core (\<open>410kern/malloc\<close>) on its pool \<open>core_malloc_lmm[smp_get_cpu()]\<close>: a chunk starts with its
  size, so that \<open>_free\<close> finds it. The state is the pool and the memory; the nodes of the free lists are part of the pool. At the end
  the allocator is put behind the locks of \<open>malloc_wrappers.c\<close>.
\<close>

section \<open>The functions\<close>

record heap_st =
  hpool :: lmm_t
  hmem :: bmem

definition lib_alloc :: "(lmm_t \<Rightarrow> (lmm_t \<times> u32) kres) \<Rightarrow> heap_st \<Rightarrow> (heap_st \<times> u32) kres" where
  "lib_alloc f h = kbind (f (hpool h)) (\<lambda>(l, p). Inr (h\<lparr>hpool := l\<rparr>, p))"

text \<open>A new chunk gets its size in its first word; the caller gets the address behind it.\<close>

definition put_header :: "u32 \<Rightarrow> heap_st \<times> u32 \<Rightarrow> (heap_st \<times> u32) kres" where
  "put_header sz = (\<lambda>(h, chunk).
     if chunk = NULL then Inr (h, NULL) else Inr (h\<lparr>hmem := wr32 chunk sz (hmem h)\<rparr>, chunk + 4))"

definition u_malloc :: "u32 \<Rightarrow> heap_st \<Rightarrow> (heap_st \<times> u32) kres" where
  "u_malloc sz h = (let sz = sz + 4 in kbind (lib_alloc (lmm_alloc sz 0) h) (put_header sz))"

definition must :: "heap_st \<times> u32 \<Rightarrow> (heap_st \<times> u32) kres" where
  "must = (\<lambda>(h, buf). kbind (kassert PANIC (buf \<noteq> NULL)) (\<lambda>_. Inr (h, buf)))"

definition u_mustmalloc :: "u32 \<Rightarrow> heap_st \<Rightarrow> (heap_st \<times> u32) kres" where
  "u_mustmalloc sz h = kbind (u_malloc sz h) must"

definition u_free :: "u32 \<Rightarrow> heap_st \<Rightarrow> heap_st kres" where
  "u_free p h = (let chunk = p - 4 in kbind (lmm_free chunk (rd32 chunk (hmem h)) (hpool h)) (\<lambda>l. Inr (h\<lparr>hpool := l\<rparr>)))"

definition u_smalloc :: "u32 \<Rightarrow> heap_st \<Rightarrow> (heap_st \<times> u32) kres" where
  "u_smalloc sz = lib_alloc (lmm_alloc sz 0)"

definition u_sfree :: "u32 \<Rightarrow> u32 \<Rightarrow> heap_st \<Rightarrow> heap_st kres" where
  "u_sfree chunk sz h = kbind (lmm_free chunk sz (hpool h)) (\<lambda>l. Inr (h\<lparr>hpool := l\<rparr>))"

definition u_calloc :: "u32 \<Rightarrow> u32 \<Rightarrow> heap_st \<Rightarrow> (heap_st \<times> u32) kres" where
  "u_calloc nelt eltsize h =
     (let allocsize = nelt * eltsize in
      kbind (u_malloc allocsize h) (\<lambda>(h, p).
      if p = NULL then Inr (h, NULL) else Inr (h\<lparr>hmem := wr p (replicate (unat allocsize) 0) (hmem h)\<rparr>, p)))"

definition u_mustcalloc :: "u32 \<Rightarrow> u32 \<Rightarrow> heap_st \<Rightarrow> (heap_st \<times> u32) kres" where
  "u_mustcalloc nelt eltsize h = kbind (u_calloc nelt eltsize h) must"

definition u_realloc :: "u32 \<Rightarrow> u32 \<Rightarrow> heap_st \<Rightarrow> (heap_st \<times> u32) kres" where
  "u_realloc buf new_size h =
     (if buf = NULL then u_malloc new_size h
      else let op = buf - 4; old_size = rd32 op (hmem h); new_size = new_size + 4 in
      kbind (lib_alloc (lmm_alloc new_size 0) h) (\<lambda>(h, np).
      if np = NULL then Inr (h, NULL)
      else let h = h\<lparr>hmem := wr np (rd (unat (min old_size new_size)) op (hmem h)) (hmem h)\<rparr> in
      kbind (u_sfree op old_size h) (\<lambda>h. put_header new_size (h, np))))"

text \<open>The loop \<open>for (shift = 0; (1 << shift) < alignment; shift++)\<close>: above half of the address space no shift of an \<open>int\<close>
  is enough.\<close>

definition align_shift :: "u32 \<Rightarrow> nat option" where
  "align_shift alignment = find (\<lambda>shift. alignment \<le> push_bit shift 1) [0 ..< 32]"

definition u_memalign :: "u32 \<Rightarrow> u32 \<Rightarrow> heap_st \<Rightarrow> (heap_st \<times> u32) kres" where
  "u_memalign alignment sz h =
     (case align_shift alignment of None \<Rightarrow> Inl SPINS
      | Some shift \<Rightarrow>
          let sz = sz + 4 in
          kbind (lib_alloc (lmm_alloc_aligned sz 0 shift (push_bit shift 1 - 4)) h) (put_header sz))"

definition u_smemalign :: "u32 \<Rightarrow> u32 \<Rightarrow> heap_st \<Rightarrow> (heap_st \<times> u32) kres" where
  "u_smemalign alignment sz h =
     (case align_shift alignment of None \<Rightarrow> Inl SPINS
      | Some shift \<Rightarrow> lib_alloc (lmm_alloc_aligned sz 0 shift 0) h)"

text \<open>The library behind the locks of the kernel.\<close>

definition lmm_lib :: "heap_st alloc_lib" where
  "lmm_lib = \<lparr>lib_malloc = u_malloc, lib_memalign = u_memalign, lib_calloc = u_calloc, lib_realloc = u_realloc,
     lib_free = u_free, lib_smalloc = u_smalloc, lib_smemalign = u_smemalign, lib_sfree = u_sfree\<rparr>"

section \<open>Chunks\<close>

text \<open>The bytes that a chunk takes out of the pool, header and padding included.\<close>

definition chunk_bytes :: "u32 \<Rightarrow> u32 \<Rightarrow> nat set" where
  "chunk_bytes p sz = {unat (align_down (p - 4)) ..< unat (align_down (p - 4)) + cut_size (p - 4) (sz + 4)}"

text \<open>A chunk that the heap has handed out: its header holds its size, and none of its bytes is free.\<close>

definition chunk_at :: "heap_st \<Rightarrow> u32 \<Rightarrow> u32 \<Rightarrow> bool" where
  "chunk_at h p sz \<longleftrightarrow>
     rd32 (p - 4) (hmem h) = sz + 4 \<and> unat sz + 18 < 2 ^ 32 \<and>
     list_ex (in_region (unat (align_down (p - 4))) (cut_size (p - 4) (sz + 4))) (hpool h) \<and>
     chunk_bytes p sz \<inter> free_bytes (hpool h) = {}"

lemma plus4: "unat (sz :: u32) + 18 < 2 ^ 32 \<Longrightarrow> unat (sz + 4) = unat sz + 4" "unat (sz :: u32) + 18 < 2 ^ 32 \<Longrightarrow> 0 < sz + 4"
  using unat_plus [of sz 4] by (simp_all add: word_less_nat_alt)

lemma cut_size_aligned: "8 dvd unat p \<Longrightarrow> align_down p = p \<and> cut_size p sz = rounded sz"
  by (simp add: word_unat_eq_iff unat_lmm_align_down cut_size_def rounded_def)

text \<open>What an allocation of a chunk does to the heap.\<close>

definition got_chunk :: "heap_st \<Rightarrow> heap_st \<Rightarrow> u32 \<Rightarrow> u32 \<Rightarrow> bool" where
  "got_chunk h h' p sz \<longleftrightarrow>
     chunk_at h' p sz \<and> lmm_ok (hpool h') \<and> frame (hpool h') = frame (hpool h) \<and> chunk_bytes p sz \<subseteq> free_bytes (hpool h) \<and>
     free_bytes (hpool h') = free_bytes (hpool h) - chunk_bytes p sz \<and> hmem h' = wr32 (p - 4) (sz + 4) (hmem h)"

lemma put_header_ok:
  assumes "took (hpool h) l (unat (align_down chunk)) (cut_size chunk (sz + 4))" and "unat sz + 18 < 2 ^ 32"
  shows "got_chunk h (h\<lparr>hpool := l, hmem := wr32 chunk (sz + 4) (hmem h)\<rparr>) (chunk + 4) sz"
  using assms took_release [OF assms(1)] by (simp add: got_chunk_def chunk_at_def chunk_bytes_def took_def)

lemma aligned_plus4: "8 dvd unat (c :: u32) \<Longrightarrow> c + 4 \<noteq> 0"
proof
  assume "8 dvd unat c" and "c + 4 = 0"
  moreover from this have "c = 0xFFFFFFFC" by (simp add: eq_neg_iff_add_eq_0 [symmetric])
  ultimately show False by simp
qed

text \<open>No free node is as long as the request with its header.\<close>

definition no_room :: "heap_st \<Rightarrow> u32 \<Rightarrow> bool" where
  "no_room h sz \<longleftrightarrow> (\<forall>r \<in> set (hpool h). \<forall>n \<in> set (lr_nodes r). unat (snd n) < rounded (sz + 4))"

text \<open>The header and the bytes the caller asked for are part of the chunk.\<close>

lemma chunk_covers:
  assumes "unat sz + 18 < 2 ^ 32" and "8 dvd unat (p - 4)"
  shows "unat p mod 8 = 4 \<and> {unat p - 4 ..< unat p + unat sz} \<subseteq> chunk_bytes p sz"
proof -
  obtain k where k: "unat (p - 4) = 8 * k" using assms(2) by blast
  have "8 * k < 2 ^ 32" using unat_less32 [of "p - 4"] k by simp
  then have "unat (p - 4) + unat (4 :: u32) < 2 ^ 32" using k by simp
  then have u: "unat p = unat (p - 4) + 4" using unat_plus [of "p - 4" 4] by simp
  then have "unat p mod 8 = 4" using k by simp
  then show ?thesis using cut_covers [of "p - 4" "sz + 4"] plus4(1) [OF assms(1)] u by (auto simp: chunk_bytes_def)
qed

lemma u_malloc_ok:
  assumes "lmm_ok (hpool h)" and "unat sz + 18 < 2 ^ 32"
  shows "\<exists>h' p. u_malloc sz h = Inr (h', p) \<and> (p = NULL \<longrightarrow> h' = h \<and> no_room h sz) \<and>
    (p \<noteq> NULL \<longrightarrow> got_chunk h h' p sz \<and> 8 dvd unat (p - 4))"
proof -
  note sz = plus4 [OF assms(2)]
  have "unat (sz + 4) + 7 < 2 ^ 32" using sz(1) assms(2) by simp
  note a = lmm_alloc_ok [OF assms(1) sz(2) this, of 0]
  then obtain l c where l: "lmm_alloc (sz + 4) 0 (hpool h) = Inr (l, c)" by (auto split: sum.splits)
  show ?thesis
  proof (cases "c = NULL")
    case True
    then show ?thesis using a l by (auto simp: u_malloc_def lib_alloc_def put_header_def Let_def no_room_def)
  next
    case False
    then have c: "8 dvd unat c" "took (hpool h) l (unat (align_down c)) (cut_size c (sz + 4))"
      using a l cut_size_aligned [of c "sz + 4"] by simp_all
    have "c + 4 \<noteq> NULL" using c(1) aligned_plus4 by blast
    then show ?thesis using False l c put_header_ok [OF c(2) assms(2)]
      by (simp add: u_malloc_def lib_alloc_def put_header_def Let_def)
  qed
qed

lemma sfree_chunk:
  assumes "lmm_ok (hpool h)" and "unat sz + 18 < 2 ^ 32"
    and "list_ex (in_region (unat (align_down (p - 4))) (cut_size (p - 4) (sz + 4))) (hpool h)" and "chunk_bytes p sz \<inter> free_bytes (hpool h) = {}"
  shows "\<exists>l. u_sfree (p - 4) (sz + 4) h = Inr (h\<lparr>hpool := l\<rparr>) \<and> lmm_ok l \<and> frame l = frame (hpool h) \<and> free_bytes l = free_bytes (hpool h) \<union> chunk_bytes p sz"
proof -
  note sz = plus4 [OF assms(2)]
  have "unat (p - 4) mod 8 < 8" by simp
  then have "unat (p - 4) mod 8 + unat (sz + 4) + 7 < 2 ^ 32" using sz(1) assms(2) by linarith
  from lmm_free_unaligned_ok [OF assms(1) sz(2) this] show ?thesis
    using assms(3,4) by (auto simp: u_sfree_def chunk_bytes_def gave_def)
qed

lemma u_free_ok:
  assumes "lmm_ok (hpool h)" and "chunk_at h p sz"
  shows "\<exists>l. u_free p h = Inr (h\<lparr>hpool := l\<rparr>) \<and> lmm_ok l \<and> frame l = frame (hpool h) \<and> free_bytes l = free_bytes (hpool h) \<union> chunk_bytes p sz"
  using sfree_chunk [of h sz p] assms by (simp add: u_free_def u_sfree_def Let_def chunk_at_def)

section \<open>\<open>malloc\<close> and \<open>free\<close>\<close>

text \<open>Writes into the chunk behind its header keep the header.\<close>

definition writes_only :: "u32 \<Rightarrow> u32 \<Rightarrow> bmem \<Rightarrow> bmem \<Rightarrow> bool" where
  "writes_only p sz m m' \<longleftrightarrow> (\<forall>x. unat sz \<le> unat (x - p) \<longrightarrow> m' x = m x)"

lemma header_kept:
  assumes "writes_only p sz m m'" and "unat sz + 18 < 2 ^ 32"
  shows "rd32 (p - 4) m' = rd32 (p - 4) m"
proof -
  have "rd 4 (p - 4) m' = rd 4 (p - 4) m"
  proof (rule rd_cong)
    fix i :: nat assume i: "i < 4"
    then consider "i = 0" | "i = 1" | "i = 2" | "i = 3" by linarith
    then have "unat (word_of_nat i - 4 :: u32) = 2 ^ 32 - 4 + i" by cases (simp_all add: unsigned_minus_1_eq_mask mask_eq_exp_minus_1)
    moreover have "p - 4 + word_of_nat i - p = word_of_nat i - 4" by simp
    ultimately have "unat sz \<le> unat (p - 4 + word_of_nat i - p)" using assms(2) by simp
    then show "m' (p - 4 + word_of_nat i) = m (p - 4 + word_of_nat i)" using assms(1) by (simp add: writes_only_def)
  qed
  then show ?thesis by (simp add: rd32_def)
qed


text \<open>A free after a malloc restores the pool, whatever the program wrote into its block in between.\<close>

lemma u_malloc_free:
  assumes ok: "lmm_ok (hpool h)" and sz: "unat sz + 18 < 2 ^ 32" and m: "u_malloc sz h = Inr (h', p)" "p \<noteq> NULL"
    and w: "writes_only p sz (hmem h') m'"
  shows "u_free p (h'\<lparr>hmem := m'\<rparr>) = Inr (h\<lparr>hmem := m'\<rparr>)"
proof -
  have g: "got_chunk h h' p sz" using u_malloc_ok [OF ok sz] m by auto
  note g = g [unfolded got_chunk_def]
  have "chunk_at (h'\<lparr>hmem := m'\<rparr>) p sz" using g header_kept [OF w sz] by (simp add: chunk_at_def)
  then obtain l where l: "u_free p (h'\<lparr>hmem := m'\<rparr>) = Inr (h'\<lparr>hmem := m', hpool := l\<rparr>)" "lmm_ok l" "frame l = frame (hpool h')"
      "free_bytes l = free_bytes (hpool h') \<union> chunk_bytes p sz"
    using u_free_ok [of "h'\<lparr>hmem := m'\<rparr>" p sz] g by auto
  have "l = hpool h" by (rule lmm_unique) (use l g ok in auto)
  then show ?thesis using l(1) by simp
qed

text \<open>C16: \<open>malloc\<close> in the kernel, and the \<open>free\<close> that follows. When the mutex of the core is free, \<open>malloc\<close> returns, with the
  mutexes and the other cores' allocators as they were. It returns 0 only when no free node of the core's pool is as long as the
  request with its header, and then nothing has changed; otherwise the address is a multiple of 8 plus 4, the header in front of it
  holds the size, and the header and all requested bytes were free and are not free any more. A \<open>free\<close> of the block, after
  arbitrary writes into the block, returns, restores the core's pool exactly and leaves the mutexes as they were. When another
  thread holds the mutex of the core, both calls wait.\<close>

theorem kernel_malloc_free:
  assumes "malloc_locks s c = Some free_mutex" and "0 \<le> my_tid (alloc_thr s)" and "lmm_ok (hpool (alloc_heap s c))" and "unat sz + 18 < 2 ^ 32"
  shows "(\<exists>s' p. malloc lmm_lib c sz s = Inr (s', p) \<and> malloc_locks s' = malloc_locks s \<and> (\<forall>d. d \<noteq> c \<longrightarrow> alloc_heap s' d = alloc_heap s d) \<and>
      (p = NULL \<longrightarrow> alloc_heap s' = alloc_heap s \<and> no_room (alloc_heap s c) sz) \<and>
      (p \<noteq> NULL \<longrightarrow> unat p mod 8 = 4 \<and> rd32 (p - 4) (hmem (alloc_heap s' c)) = sz + 4 \<and>
         {unat p - 4 ..< unat p + unat sz} \<subseteq> free_bytes (hpool (alloc_heap s c)) \<and>
         {unat p - 4 ..< unat p + unat sz} \<inter> free_bytes (hpool (alloc_heap s' c)) = {} \<and>
         (\<forall>m'. writes_only p sz (hmem (alloc_heap s' c)) m' \<longrightarrow>
           (\<exists>s''. free lmm_lib c p (s'\<lparr>alloc_heap := (alloc_heap s')(c := (alloc_heap s' c)\<lparr>hmem := m'\<rparr>)\<rparr>) = Inr (s'', ()) \<and>
              malloc_locks s'' = malloc_locks s \<and> alloc_heap s'' = (alloc_heap s)(c := (alloc_heap s c)\<lparr>hmem := m'\<rparr>))))) \<and>
    (\<forall>i q. 0 \<le> i \<and> i \<noteq> my_tid (alloc_thr s) \<longrightarrow>
       malloc lmm_lib c sz (s\<lparr>malloc_locks := (malloc_locks s)(c \<mapsto> held_by i)\<rparr>) = Inl BLOCKS \<and>
       free lmm_lib c q (s\<lparr>malloc_locks := (malloc_locks s)(c \<mapsto> held_by i)\<rparr>) = Inl BLOCKS)"
proof (rule conjI)
  obtain h p where m: "u_malloc sz (alloc_heap s c) = Inr (h, p)" "p = NULL \<longrightarrow> h = alloc_heap s c \<and> no_room (alloc_heap s c) sz"
      and g: "p \<noteq> NULL \<longrightarrow> got_chunk (alloc_heap s c) h p sz \<and> 8 dvd unat (p - 4)"
    using u_malloc_ok [OF assms(3,4)] by auto
  obtain s' where s': "malloc lmm_lib c sz s = Inr (s', p)" "malloc_locks s' = malloc_locks s" "alloc_heap s' = (alloc_heap s)(c := h)"
      "alloc_thr s' = alloc_thr s"
    using with_lock_step [OF assms(1,2), of "lib_malloc lmm_lib sz"] m(1) by (auto simp: malloc_def lmm_lib_def)
  have f: "\<exists>s''. free lmm_lib c p (s'\<lparr>alloc_heap := (alloc_heap s')(c := (alloc_heap s' c)\<lparr>hmem := m'\<rparr>)\<rparr>) = Inr (s'', ()) \<and>
      malloc_locks s'' = malloc_locks s \<and> alloc_heap s'' = (alloc_heap s)(c := (alloc_heap s c)\<lparr>hmem := m'\<rparr>)"
    if "p \<noteq> NULL" "writes_only p sz (hmem (alloc_heap s' c)) m'" for m'
  proof -
    let ?s = "s'\<lparr>alloc_heap := (alloc_heap s')(c := (alloc_heap s' c)\<lparr>hmem := m'\<rparr>)\<rparr>"
    have u: "u_free p (h\<lparr>hmem := m'\<rparr>) = Inr ((alloc_heap s c)\<lparr>hmem := m'\<rparr>)"
      using u_malloc_free [OF assms(3,4)] m(1) that s' by simp
    have "\<exists>s''. free lmm_lib c p ?s = Inr (s'', ()) \<and> malloc_locks s'' = malloc_locks ?s \<and>
        alloc_heap s'' = (alloc_heap ?s)(c := (alloc_heap s c)\<lparr>hmem := m'\<rparr>) \<and> alloc_thr s'' = alloc_thr ?s"
      unfolding free_def by (rule with_lock_step) (use assms(1,2) s' u in \<open>simp_all add: lmm_lib_def\<close>)
    then show ?thesis using s' by auto
  qed
  have c: "unat p mod 8 = 4" "{unat p - 4 ..< unat p + unat sz} \<subseteq> chunk_bytes p sz" if "p \<noteq> NULL"
    using chunk_covers [OF assms(4)] g that by auto
  show "\<exists>s' p. malloc lmm_lib c sz s = Inr (s', p) \<and> malloc_locks s' = malloc_locks s \<and> (\<forall>d. d \<noteq> c \<longrightarrow> alloc_heap s' d = alloc_heap s d) \<and>
      (p = NULL \<longrightarrow> alloc_heap s' = alloc_heap s \<and> no_room (alloc_heap s c) sz) \<and>
      (p \<noteq> NULL \<longrightarrow> unat p mod 8 = 4 \<and> rd32 (p - 4) (hmem (alloc_heap s' c)) = sz + 4 \<and>
         {unat p - 4 ..< unat p + unat sz} \<subseteq> free_bytes (hpool (alloc_heap s c)) \<and>
         {unat p - 4 ..< unat p + unat sz} \<inter> free_bytes (hpool (alloc_heap s' c)) = {} \<and>
         (\<forall>m'. writes_only p sz (hmem (alloc_heap s' c)) m' \<longrightarrow>
           (\<exists>s''. free lmm_lib c p (s'\<lparr>alloc_heap := (alloc_heap s')(c := (alloc_heap s' c)\<lparr>hmem := m'\<rparr>)\<rparr>) = Inr (s'', ()) \<and>
              malloc_locks s'' = malloc_locks s \<and> alloc_heap s'' = (alloc_heap s)(c := (alloc_heap s c)\<lparr>hmem := m'\<rparr>))))"
    using s' m(2) g c f by (intro exI [of _ s'] exI [of _ p]) (auto simp: got_chunk_def chunk_at_def)
qed (auto simp: malloc_def free_def intro!: with_lock_blocks)

definition demo_heap :: "heap_st alloc_st" where
  "demo_heap = \<lparr>malloc_locks = (\<lambda>_. Some free_mutex), alloc_heap = (\<lambda>_. \<lparr>hpool = demo_pool, hmem = (\<lambda>_. 0)\<rparr>),
     alloc_thr = \<lparr>me = 1, tids = (\<lambda>_. 7), my_state = NORMAL, made_runnable = []\<rparr>\<rparr>"

theorem kernel_malloc_free_witness:
  "(\<exists>s' s''. malloc lmm_lib 0 100 demo_heap = Inr (s', 0x100104) \<and>
     free lmm_lib 0 0x100104 (s'\<lparr>alloc_heap := (alloc_heap s')(0 := (alloc_heap s' 0)\<lparr>hmem := (hmem (alloc_heap s' 0))(0x100110 := 42)\<rparr>)\<rparr>) = Inr (s'', ()) \<and>
     hpool (alloc_heap s'' 0) = demo_pool) \<and>
   malloc lmm_lib 0 100 (demo_heap\<lparr>malloc_locks := (malloc_locks demo_heap)(0 \<mapsto> held_by 3)\<rparr>) = Inl BLOCKS"
proof -
  have a: "lmm_alloc 104 0 demo_pool =
      Inr ([\<lparr>lr_at = 0x500, lr_nodes = [(0x100000, 0x40), (0x100168, 0x1F98)], lr_min = 0x100000, lr_max = 0x1000000,
        lr_flags = 0, lr_pri = 0, lr_free = 0x1FD8\<rparr>], 0x100100)"
    by code_simp
  have l: "malloc_locks demo_heap 0 = Some free_mutex" and t: "0 \<le> my_tid (alloc_thr demo_heap)" and ok: "lmm_ok (hpool (alloc_heap demo_heap 0))"
    using demo_pool_ok by (simp_all add: demo_heap_def)
  have p: "hpool (alloc_heap demo_heap 0) = demo_pool" by (simp add: demo_heap_def)
  have "lib_malloc lmm_lib 100 (alloc_heap demo_heap 0) =
      Inr (\<lparr>hpool = [\<lparr>lr_at = 0x500, lr_nodes = [(0x100000, 0x40), (0x100168, 0x1F98)], lr_min = 0x100000, lr_max = 0x1000000,
        lr_flags = 0, lr_pri = 0, lr_free = 0x1FD8\<rparr>], hmem = wr32 0x100100 104 (\<lambda>_. 0)\<rparr>, 0x100104)"
    by (simp add: lmm_lib_def u_malloc_def lib_alloc_def put_header_def a demo_heap_def)
  from malloc_step [OF l t this] obtain s' where m: "malloc lmm_lib 0 100 demo_heap = Inr (s', 0x100104)" by auto
  have w: "writes_only 0x100104 100 (hmem (alloc_heap s' 0)) ((hmem (alloc_heap s' 0))(0x100110 := 42))"
    by (auto simp: writes_only_def)
  note K = kernel_malloc_free [OF l t ok, of 100]
  have "3 \<noteq> my_tid (alloc_thr demo_heap)" by (simp add: demo_heap_def)
  then have "malloc lmm_lib 0 100 (demo_heap\<lparr>malloc_locks := (malloc_locks demo_heap)(0 \<mapsto> held_by 3)\<rparr>) = Inl BLOCKS"
    using conjunct2 [OF K] by simp
  moreover have "\<exists>s''. free lmm_lib 0 0x100104
      (s'\<lparr>alloc_heap := (alloc_heap s')(0 := (alloc_heap s' 0)\<lparr>hmem := (hmem (alloc_heap s' 0))(0x100110 := 42)\<rparr>)\<rparr>) = Inr (s'', ()) \<and>
      alloc_heap s'' = (alloc_heap demo_heap)(0 := (alloc_heap demo_heap 0)\<lparr>hmem := (hmem (alloc_heap s' 0))(0x100110 := 42)\<rparr>)"
    using conjunct1 [OF K] m w by force
  ultimately show ?thesis using m p by auto
qed

section \<open>\<open>calloc\<close>, \<open>realloc\<close> and \<open>memalign\<close>\<close>

text \<open>A block of \<open>calloc\<close> is zero.\<close>

lemma u_calloc_ok:
  assumes "lmm_ok (hpool h)" and "unat (nelt * eltsize) + 18 < 2 ^ 32" and "u_calloc nelt eltsize h = Inr (h', p)" and "p \<noteq> NULL"
  shows "rd (unat (nelt * eltsize)) p (hmem h') = replicate (unat (nelt * eltsize)) 0 \<and> chunk_at h' p (nelt * eltsize)"
proof -
  let ?n = "nelt * eltsize"
  obtain h1 where h1: "got_chunk h h1 p ?n" "h' = h1\<lparr>hmem := wr p (replicate (unat ?n) 0) (hmem h1)\<rparr>"
    using u_malloc_ok [OF assms(1,2)] assms(3,4) by (auto simp: u_calloc_def Let_def split: if_splits)
  have "writes_only p ?n (hmem h1) (hmem h')" using h1(2) unat_less32 [of ?n] by (auto simp: writes_only_def wr_apply)
  then have "chunk_at h' p ?n" using h1 header_kept [OF _ assms(2)] by (auto simp: got_chunk_def chunk_at_def)
  moreover have "rd (unat ?n) p (hmem h') = replicate (unat ?n) 0"
    using rd_wr [of "replicate (unat ?n) 0" p "hmem h1"] unat_less32 [of ?n] h1(2) by simp
  ultimately show ?thesis by simp
qed

text \<open>The product is not checked: a request for four gigabytes gets a block without a single byte.\<close>

lemma u_calloc_wraps: "u_calloc 0x10000 0x10000 h = u_calloc 0 0 h"
proof -
  have "(0x10000 :: u32) * 0x10000 = 0 * 0" by code_simp
  then show ?thesis by (simp only: u_calloc_def)
qed


lemma min_plus4:
  assumes "unat sz + 18 < 2 ^ 32" and "unat n + 18 < 2 ^ 32"
  shows "unat (min (sz + 4) (n + 4 :: u32)) = min (unat sz) (unat n) + 4"
  using plus4(1) [OF assms(1)] plus4(1) [OF assms(2)] by (simp add: min_def word_le_nat_alt)

text \<open>The block behind a copied header.\<close>

lemma copied_block:
  fixes sz n :: u32
  assumes "unat sz + 18 < 2 ^ 32" and "unat n + 18 < 2 ^ 32"
  shows "rd (min (unat sz) (unat n)) (np + 4) (wr32 np v (wr np (rd (unat (min (sz + 4) (n + 4))) op m) m)) =
    rd (min (unat sz) (unat n)) (op + 4) m"
proof (intro nth_equalityI)
  fix i assume "i < length (rd (min (unat sz) (unat n)) (np + 4) (wr32 np v (wr np (rd (unat (min (sz + 4) (n + 4))) op m) m)))"
  then have i: "i < min (unat sz) (unat n)" by simp
  have d: "unat (np + 4 + word_of_nat i - np) = 4 + i"
    using i assms unat_word_of_nat32 [of "4 + i"] by (simp add: algebra_simps)
  have "wr32 np v (wr np (rd (unat (min (sz + 4) (n + 4))) op m) m) (np + 4 + word_of_nat i) = m (op + word_of_nat (4 + i))"
    using i d assms min_plus4 [OF assms] by (simp add: wr32_def wr_apply rd_nth)
  then show "rd (min (unat sz) (unat n)) (np + 4) (wr32 np v (wr np (rd (unat (min (sz + 4) (n + 4))) op m) m)) ! i =
      rd (min (unat sz) (unat n)) (op + 4) m ! i"
    using i by (simp add: rd_nth algebra_simps)
qed simp

text \<open>\<open>realloc\<close> of a block of \<open>sz\<close> bytes to \<open>n\<close> bytes returns a block of \<open>n\<close> bytes with the old contents, up to
  the smaller of the two sizes; the old block's bytes are free again, those of the new one are not. When there is no memory it
  returns \<open>NULL\<close> and the old block is as it was.\<close>

theorem realloc_correct:
  assumes "lmm_ok (hpool h)" and "chunk_at h buf sz" and "buf \<noteq> NULL" and "unat n + 18 < 2 ^ 32"
  shows "\<exists>h' p. u_realloc buf n h = Inr (h', p) \<and> (p = NULL \<longrightarrow> h' = h) \<and>
    (p \<noteq> NULL \<longrightarrow> chunk_at h' p n \<and> lmm_ok (hpool h') \<and>
       rd (min (unat sz) (unat n)) p (hmem h') = rd (min (unat sz) (unat n)) buf (hmem h) \<and>
       free_bytes (hpool h') = free_bytes (hpool h) - chunk_bytes p n \<union> chunk_bytes buf sz)"
proof -
  note c = assms(2) [unfolded chunk_at_def]
  then have sz: "unat sz + 18 < 2 ^ 32" "rd32 (buf - 4) (hmem h) = sz + 4" by simp_all
  note n = plus4 [OF assms(4)]
  have "unat (n + 4) + 7 < 2 ^ 32" using n(1) assms(4) by simp
  note a = lmm_alloc_ok [OF assms(1) n(2) this, of 0]
  then obtain l np where l: "lmm_alloc (n + 4) 0 (hpool h) = Inr (l, np)" by (auto split: sum.splits)
  show ?thesis
  proof (cases "np = NULL")
    case True
    then show ?thesis using a l assms(3) by (simp add: u_realloc_def lib_alloc_def Let_def)
  next
    case False
    then have t: "8 dvd unat np" "took (hpool h) l (unat (align_down np)) (cut_size np (n + 4))"
      using a l cut_size_aligned [of np "n + 4"] by simp_all
    note tk = t(2) [unfolded took_def] and rl = took_release [OF t(2)]
    define h1 where "h1 = h\<lparr>hpool := l, hmem := wr np (rd (unat (min (sz + 4) (n + 4))) (buf - 4) (hmem h)) (hmem h)\<rparr>"
    have "chunk_bytes buf sz \<inter> free_bytes l = {}" using c tk by blast
    then obtain l2 where f: "u_sfree (buf - 4) (sz + 4) h1 = Inr (h1\<lparr>hpool := l2\<rparr>)" "lmm_ok l2" "frame l2 = frame l"
        "free_bytes l2 = free_bytes l \<union> chunk_bytes buf sz"
      using sfree_chunk [of h1 sz buf] c rl(3) frame_in_region [of l "hpool h"] tk by (auto simp: h1_def)
    define h2 where "h2 = h1\<lparr>hpool := l2, hmem := wr32 np (n + 4) (hmem h1)\<rparr>"
    have r: "u_realloc buf n h = Inr (h2, np + 4)"
      using l False assms(3) f(1) sz(2) by (simp add: u_realloc_def lib_alloc_def put_header_def Let_def h1_def h2_def)
    have ch: "chunk_bytes (np + 4) n = {unat (align_down np) ..< unat (align_down np) + cut_size np (n + 4)}" by (simp add: chunk_bytes_def)
    then have "chunk_bytes (np + 4) n \<inter> free_bytes l2 = {}" using f(4) tk rl(2) c by auto
    then have "chunk_at h2 (np + 4) n"
      using rl(1) frame_in_region [OF f(3)] assms(4) by (simp add: chunk_at_def h2_def)
    moreover have "rd (min (unat sz) (unat n)) (np + 4) (hmem h2) = rd (min (unat sz) (unat n)) buf (hmem h)"
      using copied_block [OF sz(1) assms(4), of np "n + 4" "buf - 4" "hmem h"] by (simp add: h1_def h2_def)
    ultimately show ?thesis using r f(2,4) tk ch aligned_plus4 [OF t(1)] by (simp add: h2_def)
  qed
qed


definition realloc_heap :: heap_st where
  "realloc_heap = \<lparr>hpool = [\<lparr>lr_at = 0x500, lr_nodes = [(0x100040, 0x100)], lr_min = 0x100000, lr_max = 0x1000000,
     lr_flags = 0, lr_pri = 0, lr_free = 0x100\<rparr>], hmem = (wr32 0x100000 16 (\<lambda>_. 5))\<rparr>"

theorem realloc_correct_witness:
  "\<exists>h'. u_realloc 0x100004 40 realloc_heap = Inr (h', 0x100044) \<and> rd 12 0x100044 (hmem h') = replicate 12 5"
proof -
  have c: "chunk_at realloc_heap 0x100004 12"
    by (auto simp: chunk_at_def realloc_heap_def chunk_bytes_def cut_size_def in_region_def region_low_def unat_lmm_align_down)
  have ok: "lmm_ok (hpool realloc_heap)" by (simp add: realloc_heap_def region_ok_def region_low_def)
  have a: "lmm_alloc 44 0 (hpool realloc_heap) =
      Inr ([\<lparr>lr_at = 0x500, lr_nodes = [(0x100070, 0xD0)], lr_min = 0x100000, lr_max = 0x1000000, lr_flags = 0, lr_pri = 0, lr_free = 0xD0\<rparr>], 0x100040)"
    by code_simp
  obtain h' p where r: "u_realloc 0x100004 40 realloc_heap = Inr (h', p)"
      and p: "p \<noteq> NULL \<longrightarrow> rd (min 12 40) p (hmem h') = rd (min 12 40) 0x100004 (hmem realloc_heap)"
    using realloc_correct [OF ok c, of 40] by auto
  have "p = 0x100044"
    using r a by (auto simp: u_realloc_def lib_alloc_def put_header_def Let_def kbind_eq_Inr)
  moreover have "rd 12 0x100004 (hmem realloc_heap) = replicate 12 5"
  proof (intro nth_equalityI)
    fix i assume "i < length (rd 12 0x100004 (hmem realloc_heap))"
    then have i: "i < 12" by simp
    then have "unat (4 + word_of_nat i :: u32) = 4 + i" using unat_word_of_nat32 [of "4 + i"] by simp
    then show "rd 12 0x100004 (hmem realloc_heap) ! i = replicate 12 5 ! i"
      using i by (simp add: rd_nth realloc_heap_def wr32_def wr_apply)
  qed simp
  ultimately show ?thesis using r p by auto
qed


text \<open>For a power of two, \<open>memalign\<close> returns a multiple of it.\<close>

lemma align_shift_power: "k < 32 \<Longrightarrow> align_shift (push_bit k 1) = Some k"
proof -
  assume k: "k < 32"
  have "(push_bit k 1 :: u32) \<le> push_bit j 1 \<longleftrightarrow> k \<le> j" if "j < 32" for j
    using k that unat_push_bit1 [OF k] unat_push_bit1 [OF that] unfolding word_le_nat_alt by (metis numeral_One numeral_le_iff power_increasing_iff semiring_norm(69,74) one_less_numeral_iff semiring_norm(76))
  then show ?thesis unfolding align_shift_def find_Some_iff using k by (intro exI [of _ k]) auto
qed

lemma u_memalign_ok:
  assumes ok: "lmm_ok (hpool h)" "free_bytes (hpool h) \<subseteq> {..< 2 ^ 30}" and k: "k \<le> 30" and sz: "unat sz + 18 < 2 ^ 32"
  shows "\<exists>h' p. u_memalign (push_bit k 1) sz h = Inr (h', p) \<and> (p = NULL \<longrightarrow> h' = h) \<and>
    (p \<noteq> NULL \<longrightarrow> got_chunk h h' p sz \<and> 2 ^ k dvd unat p)"
proof -
  let ?ofs = "push_bit k 1 - 4 :: u32"
  note n = plus4 [OF sz]
  have k32: "k < 32" and sm: "small k 0" using k by (simp_all add: small_def)
  note g = lmm_alloc_gen_ok [OF ok n(2) sm, of 0 ?ofs "- 1"]
  then obtain l c where l: "lmm_alloc_gen (sz + 4) 0 k ?ofs 0 (- 1) (hpool h) = Inr (l, c)" by (auto split: sum.splits)
  have m: "u_memalign (push_bit k 1) sz h = put_header (sz + 4) (h\<lparr>hpool := l\<rparr>, c)"
    using align_shift_power [OF k32] l by (simp add: u_memalign_def lib_alloc_def lmm_alloc_aligned_def Let_def)
  show ?thesis
  proof (cases "c = NULL")
    case True
    then show ?thesis using g l m by (simp add: put_header_def)
  next
    case False
    then have gr: "granted k ?ofs 0 (- 1) (sz + 4) c" and t: "took (hpool h) l (unat (align_down c)) (cut_size c (sz + 4))"
      using g l by simp_all
    have "unat c + unat (sz + 4) < 2 ^ 32" using gr unat_less32 [of "- 1"] unfolding granted_def by linarith
    then have u: "unat (c + 4) = unat c + 4" using n(1) by (subst unat_plus) simp_all
    have "2 ^ k dvd unat ?ofs + 4"
    proof -
      have "(unat ?ofs + 4) mod 2 ^ 32 = 2 ^ k" using unat_push_bit1 [OF k32] unat_word_ariths(1) [of ?ofs 4] by simp
      moreover have "(2 :: nat) ^ k dvd 2 ^ 32" using k32 by (intro le_imp_power_dvd) simp
      ultimately show ?thesis by (metis dvd_refl dvd_mod_iff)
    qed
    moreover have "(unat c + 4) mod 2 ^ k = (unat ?ofs + 4) mod 2 ^ k" using gr unfolding granted_def by (metis mod_add_left_eq)
    ultimately have "2 ^ k dvd unat (c + 4)" by (simp add: u dvd_eq_mod_eq_0)
    moreover have "c + 4 \<noteq> NULL" using u by (metis unat_0 add_is_0 zero_neq_numeral)
    ultimately show ?thesis using False m put_header_ok [OF t sz] by (simp add: put_header_def)
  qed
qed


end
