(* ===== verification/Boot_Memory.thy ===== *)
theory Boot_Memory
  imports Kern_Malloc PM
begin

text \<open>
  The kernel's memory before \<open>kernel_main\<close>: \<open>mb_util_lmm\<close> (\<open>410kern/boot/util_lmm.c\<close>) gives all memory that the boot
  loader reported to the pool \<open>malloc_lmm\<close>, with holes for what is in use; \<open>mb_entry\<close> (\<open>410kern/entry.c\<close>) keeps the
  memory between one megabyte and \<open>USER_MEM_START\<close> of it and gives core 0 its first heap; \<open>dist_kernel_mem\<close>
  (\<open>kern/vm.c\<close>) shares the rest among the cores. Physical memory is mapped at 0 (\<open>phys_mem_va\<close>).
\<close>

section \<open>\<open>mb_util_lmm\<close>\<close>

record multiboot_module =
  mod_start :: u32
  mod_end :: u32
  mod_string :: u32
  mod_strlen :: u32    \<comment> \<open>the length of the string at \<open>mod_string\<close>\<close>

record mbinfo_t =
  mb_flags :: u32
  mem_lower :: u32
  mem_upper :: u32
  cmdline :: u32
  cmdline_len :: u32   \<comment> \<open>the length of the string at \<open>cmdline\<close>\<close>
  mods_addr :: u32
  mods :: "multiboot_module list"   \<comment> \<open>\<open>mods_count\<close> modules\<close>

text \<open>Addresses that the linker defines.\<close>

record kernel_image =
  ki_start :: u32
  ki_kimg :: u32
  ki_end :: u32
  ki_reg1mb :: u32
  ki_reg16mb :: u32
  ki_reghigh :: u32
  ki_kern_mem_reg :: "nat \<Rightarrow> u32"

definition MULTIBOOT_MEMORY :: u32 where "MULTIBOOT_MEMORY = 1"
definition MULTIBOOT_CMDLINE :: u32 where "MULTIBOOT_CMDLINE = 4"
definition MULTIBOOT_MODS :: u32 where "MULTIBOOT_MODS = 8"

definition module_holes :: "multiboot_module \<Rightarrow> (u32 \<times> u32) list" where
  "module_holes m =
     (if mod_string m \<noteq> 0 then [(mod_string m, mod_string m + mod_strlen m + 1)] else []) @ [(mod_start m, mod_end m)]"

text \<open>The arguments of \<open>skip\<close>, in the order of the calls.\<close>

definition mem_holes :: "mbinfo_t \<Rightarrow> kernel_image \<Rightarrow> (u32 \<times> u32) list" where
  "mem_holes mbi ki =
     (let cmd_start = (if mb_flags mbi AND MULTIBOOT_CMDLINE \<noteq> 0 then cmdline mbi else 0);
          cmd_end = (if cmd_start \<noteq> 0 then cmd_start + cmdline_len mbi + 1 else 0)
      in [(mem_lower mbi * 1024, 0x100000), (0x100000 + mem_upper mbi * 1024, 0xFFFFFFFF), (ki_start ki, ki_end ki),
          (ki_kimg ki, ki_end ki), (cmd_start, cmd_end)] @
         (if mb_flags mbi AND MULTIBOOT_MODS \<noteq> 0 \<and> mods mbi \<noteq> []
          then (mods_addr mbi, mods_addr mbi + word_of_nat (length (mods mbi)) * 16) # concat (map module_holes (mods mbi))
          else []))"

text \<open>The calls of \<open>skip\<close> on a range: \<open>Inl\<close> is the jump to \<open>retry\<close> with a new \<open>min\<close>, \<open>Inr\<close> the \<open>max\<close> behind the last
  call.\<close>

fun skip :: "(u32 \<times> u32) list \<Rightarrow> u32 \<Rightarrow> u32 \<Rightarrow> u32 + u32" where
  "skip [] lo hi = Inr hi"
| "skip ((hole_min, hole_max) # hs) lo hi =
     (if hole_min < hi \<and> lo < hole_max
      then if lo < hole_min then skip hs lo hole_min else Inl hole_max
      else skip hs lo hi)"

lemma skip_progress: "lo < hi \<Longrightarrow> skip hs lo hi = Inl b \<Longrightarrow> lo < b" "lo < hi \<Longrightarrow> skip hs lo hi = Inr h \<Longrightarrow> lo < h \<and> h \<le> hi"
  by (induction hs lo hi rule: skip.induct) (auto split: if_splits)

function free_memory :: "(u32 \<times> u32) list \<Rightarrow> u32 \<Rightarrow> lmm_t \<Rightarrow> lmm_t kres" where
  "free_memory hs lo lmm =
     (if \<not> lo < 0xFFFFFFFF then Inr lmm
      else case skip hs lo 0xFFFFFFFF of Inl hole_max \<Rightarrow> free_memory hs hole_max lmm
      | Inr hi \<Rightarrow>
          case lmm_add_free lo (hi - lo) lmm of Inl e \<Rightarrow> Inl e | Inr lmm \<Rightarrow> free_memory hs hi lmm)"
  by pat_completeness auto
termination
proof (relation "measure (\<lambda>(hs, lo, lmm). 2 ^ 32 - unat lo)", goal_cases)
  case 1
  show ?case by simp
next
  case (2 hs lo lmm b)
  then have "lo < b" using skip_progress(1) by simp
  then show ?case using unat_less32 [of b] by (simp add: word_less_nat_alt)
next
  case (3 hs lo lmm hi lmm')
  then have "lo < hi" using skip_progress(2) by simp
  then show ?case using unat_less32 [of hi] by (simp add: word_less_nat_alt)
qed

declare free_memory.simps [simp del]

text \<open>The priorities are unsigned.\<close>

definition LMM_PRI_1MB :: u32 where "LMM_PRI_1MB = - 2"
definition LMM_PRI_16MB :: u32 where "LMM_PRI_16MB = - 1"
definition LMM_PRI_HIGH :: u32 where "LMM_PRI_HIGH = 0"

definition boot_regions :: "kernel_image \<Rightarrow> lmm_t kres" where
  "boot_regions ki =
     kbind (lmm_add_region (ki_reg1mb ki) 0 0x100000 3 LMM_PRI_1MB (lmm_init [])) (\<lambda>lmm.
     kbind (lmm_add_region (ki_reg16mb ki) 0x100000 0xF00000 2 LMM_PRI_16MB lmm) (\<lambda>lmm.
     lmm_add_region (ki_reghigh ki) 0x1000000 0xFEFFFFFF 0 LMM_PRI_HIGH lmm))"

definition mb_util_lmm :: "mbinfo_t \<Rightarrow> kernel_image \<Rightarrow> lmm_t kres" where
  "mb_util_lmm mbi ki = kbind (boot_regions ki) (free_memory (mem_holes mbi ki) 0x500)"

section \<open>What becomes free\<close>

definition region_bytes_of :: "lmm_t \<Rightarrow> nat set" where
  "region_bytes_of lmm = (\<Union>r \<in> set lmm. {unat (lr_min r) ..< unat (lr_max r)})"

text \<open>A byte whose aligned double word is above \<open>lo\<close> and touches no hole.\<close>

definition outside_holes :: "(u32 \<times> u32) list \<Rightarrow> nat \<Rightarrow> nat \<Rightarrow> bool" where
  "outside_holes hs lo x \<longleftrightarrow>
     lo \<le> x div 8 * 8 \<and> x div 8 * 8 + 8 \<le> 0xFFFFFFFF \<and>
     (\<forall>h \<in> set hs. {x div 8 * 8 ..< x div 8 * 8 + 8} \<inter> {unat (fst h) ..< unat (snd h)} = {})"

text \<open>Holes that are not turned round, and no end in the last seven bytes of the address space but the last one.\<close>

definition low_end :: "u32 \<Rightarrow> bool" where
  "low_end a \<longleftrightarrow> a \<le> 0xFFFFFFF8 \<or> a = 0xFFFFFFFF"

definition hole_ok :: "u32 \<Rightarrow> u32 \<times> u32 \<Rightarrow> bool" where
  "hole_ok lo h \<longleftrightarrow> (fst h < snd h \<or> snd h \<le> lo) \<and> low_end (fst h) \<and> low_end (snd h)"

lemma skip_Inl:
  assumes "skip hs lo hi = Inl b" and "lo < hi"
  shows "\<exists>a. (a, b) \<in> set hs \<and> a \<le> lo \<and> lo < b"
  using assms by (induction hs lo hi rule: skip.induct) (auto split: if_splits)

lemma skip_Inr:
  assumes "skip hs lo hi = Inr h" and "lo < hi"
  shows "h \<le> hi \<and> (h = hi \<or> (\<exists>b. (h, b) \<in> set hs \<and> lo < b)) \<and>
    (\<forall>x \<in> set hs. {unat lo ..< unat h} \<inter> {unat (fst x) ..< unat (snd x)} = {})"
  using assms
proof (induction hs lo hi rule: skip.induct)
  case (2 a b hs lo hi)
  show ?case
  proof (cases "a < hi \<and> lo < b")
    case True
    then have "lo < a" "skip hs lo a = Inr h" using 2(3) by (simp_all split: if_splits)
    then show ?thesis using 2(1) [OF True] True by (fastforce simp: word_less_nat_alt word_le_nat_alt)
  next
    case False
    then have "skip hs lo hi = Inr h" using 2(3) by auto
    then show ?thesis using 2(2) [OF False] 2(4) False by (fastforce simp: word_less_nat_alt word_le_nat_alt)
  qed
qed simp

lemma words_of_range:
  fixes x lo hi :: nat
  shows "(lo + 7) div 8 * 8 \<le> x \<longleftrightarrow> lo \<le> x div 8 * 8" and "x < hi div 8 * 8 \<longleftrightarrow> x div 8 * 8 + 8 \<le> hi"
proof -
  have "(lo + 7) div 8 * 8 \<le> x \<longleftrightarrow> (lo + 7) div 8 < Suc (x div 8)" by (simp add: less_eq_div_iff_mult_less_eq [symmetric] less_Suc_eq_le)
  also have "\<dots> \<longleftrightarrow> lo + 7 < Suc (x div 8) * 8" by (rule div_less_iff_less_mult) simp
  finally show "(lo + 7) div 8 * 8 \<le> x \<longleftrightarrow> lo \<le> x div 8 * 8" by auto
  have "x < hi div 8 * 8 \<longleftrightarrow> Suc (x div 8) \<le> hi div 8" by (simp add: div_less_iff_less_mult [symmetric] Suc_le_eq)
  also have "\<dots> \<longleftrightarrow> Suc (x div 8) * 8 \<le> hi" by (rule less_eq_div_iff_mult_less_eq) simp
  finally show "x < hi div 8 * 8 \<longleftrightarrow> x div 8 * 8 + 8 \<le> hi" by (simp add: add.commute)
qed

text \<open>One range goes to the pool.\<close>

lemma add_range:
  assumes "lmm_ok lmm" and "0 < unat lo" and "low_end lo" and "lo < hi" and "{unat lo ..< unat hi} \<inter> free_bytes lmm = {}"
    and "lmm_add_free lo (hi - lo) lmm = Inr lmm'"
  shows "lmm_ok lmm' \<and> frame lmm' = frame lmm \<and>
    free_bytes lmm' = free_bytes lmm \<union> {x \<in> region_bytes_of lmm. unat lo \<le> x div 8 * 8 \<and> x div 8 * 8 + 8 \<le> unat hi}"
proof -
  have u: "unat (hi - lo) = unat hi - unat lo" "unat lo + unat (hi - lo) = unat hi"
    using assms(4) by (simp_all add: unat_minus word_less_nat_alt)
  have lo: "unat lo + 7 < 2 ^ 32" using assms(3,4) unat_less32 [of hi] by (auto simp: low_end_def word_le_nat_alt word_less_nat_alt)
  have "align_up lo \<le> align_down (lo + (hi - lo))"
    using assms(6) by (auto simp: lmm_add_free_def Let_def kassert_def split: if_splits)
  then have le: "(unat lo + 7) div 8 * 8 \<le> (unat lo + unat (hi - lo)) div 8 * 8"
    using unat_align_up [OF lo] u by (simp add: word_le_nat_alt unat_lmm_align_down minus_mod_eq_div_mult)
  have b: "unat lo + unat (hi - lo) < 2 ^ 32" and d: "{unat lo ..< unat lo + unat (hi - lo)} \<inter> free_bytes lmm = {}"
    using u unat_less32 [of hi] assms(5) by auto
  have "(\<Union>r \<in> set lmm. part ((unat lo + 7) div 8 * 8) (unat hi div 8 * 8) r) =
      {x \<in> region_bytes_of lmm. unat lo \<le> x div 8 * 8 \<and> x div 8 * 8 + 8 \<le> unat hi}"
    using words_of_range by (auto simp: region_bytes_of_def part_def)
  then show ?thesis using lmm_add_free_ok [OF assms(1,2) lo b le d] assms(6) u(2) by simp
qed


lemma region_bytes_frame: "frame lmm = frame lmm' \<Longrightarrow> region_bytes_of lmm = region_bytes_of lmm'"
proof -
  have "region_bytes_of l = (\<Union>x \<in> set (frame l). {unat (fst (snd x)) ..< unat (fst (snd (snd x)))})" for l
    by (auto simp: region_bytes_of_def frame_def)
  then show "frame lmm = frame lmm' \<Longrightarrow> region_bytes_of lmm = region_bytes_of lmm'" by simp
qed

lemma usable_retry:
  assumes "(a, b) \<in> set hs" and "a \<le> lo" and "lo < b"
  shows "outside_holes hs (unat lo) x \<longleftrightarrow> outside_holes hs (unat b) x"
proof -
  let ?w = "x div 8 * 8"
  have "unat b \<le> ?w" if "outside_holes hs (unat lo) x"
  proof (rule ccontr)
    assume "\<not> unat b \<le> ?w"
    moreover have "unat a \<le> ?w" using that assms(2) by (auto simp: outside_holes_def word_le_nat_alt)
    ultimately have "?w \<in> {?w ..< ?w + 8} \<inter> {unat a ..< unat b}" by simp
    then show False using that assms(1) unfolding outside_holes_def by (metis empty_iff fst_conv snd_conv)
  qed
  then show ?thesis using assms(3) by (auto simp: outside_holes_def word_less_nat_alt)
qed

lemma usable_range:
  assumes "lo < hi" and "hi = 0xFFFFFFFF \<or> (\<exists>b. (hi, b) \<in> set hs \<and> hi < b)"
    and "\<forall>h \<in> set hs. {unat lo ..< unat hi} \<inter> {unat (fst h) ..< unat (snd h)} = {}"
  shows "outside_holes hs (unat lo) x \<longleftrightarrow> unat lo \<le> x div 8 * 8 \<and> x div 8 * 8 + 8 \<le> unat hi \<or> outside_holes hs (unat hi) x"
proof -
  let ?w = "x div 8 * 8"
  have top: "unat hi \<le> 0xFFFFFFFF" using unat_less32 [of hi] by simp
  have "?w + 8 \<le> unat hi \<or> unat hi \<le> ?w" if u: "outside_holes hs (unat lo) x"
  proof (rule ccontr)
    assume n: "\<not> (?w + 8 \<le> unat hi \<or> unat hi \<le> ?w)"
    then have "hi \<noteq> 0xFFFFFFFF" using u by (auto simp: outside_holes_def)
    then obtain b where b: "(hi, b) \<in> set hs" "hi < b" using assms(2) by auto
    then have "unat hi \<in> {?w ..< ?w + 8} \<inter> {unat hi ..< unat b}" using n by (simp add: word_less_nat_alt)
    then show False using u b(1) unfolding outside_holes_def by (metis empty_iff fst_conv snd_conv)
  qed
  moreover have "outside_holes hs (unat lo) x" if "unat lo \<le> ?w" "?w + 8 \<le> unat hi"
  proof -
    have "{?w ..< ?w + 8} \<subseteq> {unat lo ..< unat hi}" using that by simp
    then have "\<forall>h \<in> set hs. {?w ..< ?w + 8} \<inter> {unat (fst h) ..< unat (snd h)} = {}" using assms(3) by blast
    then show ?thesis using that top by (simp add: outside_holes_def)
  qed
  moreover have "unat lo \<le> unat hi" using assms(1) by (simp add: word_less_nat_alt)
  ultimately show ?thesis by (auto simp: outside_holes_def)
qed

lemma usable_not_in_hole:
  assumes "outside_holes hs lo x" and "(a, b) \<in> set hs"
  shows "x < unat a \<or> unat b \<le> x"
proof (rule ccontr)
  assume "\<not> ?thesis"
  moreover have "x div 8 * 8 \<le> x" "x < x div 8 * 8 + 8" by simp_all
  ultimately have "x \<in> {x div 8 * 8 ..< x div 8 * 8 + 8} \<inter> {unat a ..< unat b}" by simp
  then show False using assms unfolding outside_holes_def by (metis empty_iff fst_conv snd_conv)
qed

lemma hole_ok_mono: "hole_ok lo h \<Longrightarrow> lo \<le> lo' \<Longrightarrow> hole_ok lo' h"
  by (auto simp: hole_ok_def)

lemma free_memory_ok:
  assumes "lmm_ok lmm" and "0 < unat lo" and "low_end lo" and "free_bytes lmm \<subseteq> {..< unat lo}" and "\<forall>h \<in> set hs. hole_ok lo h"
    and "free_memory hs lo lmm = Inr lmm'"
  shows "lmm_ok lmm' \<and> frame lmm' = frame lmm \<and> free_bytes lmm' = free_bytes lmm \<union> {x \<in> region_bytes_of lmm. outside_holes hs (unat lo) x}"
  using assms
proof (induction hs lo lmm rule: free_memory.induct)
  case (1 hs lo lmm)
  show ?case
  proof (cases "lo < 0xFFFFFFFF")
    case False
    then have "\<not> outside_holes hs (unat lo) x" for x by (auto simp: outside_holes_def word_less_nat_alt)
    then show ?thesis using 1(3,8) False by (subst (asm) free_memory.simps) simp
  next
    case True
    show ?thesis
    proof (cases "skip hs lo 0xFFFFFFFF")
      case (Inl b)
      then obtain a where a: "(a, b) \<in> set hs" "a \<le> lo" "lo < b" using skip_Inl True by blast
      have "free_memory hs b lmm = Inr lmm'" using 1(8) True Inl by (subst (asm) free_memory.simps) simp
      moreover have "low_end b" "\<forall>h \<in> set hs. hole_ok b h" using 1(7) a hole_ok_mono by (auto simp: hole_ok_def)
      moreover have "free_bytes lmm \<subseteq> {..< unat b}" "0 < unat b" using 1(6) a(3) by (auto simp: word_less_nat_alt)
      ultimately show ?thesis using 1(1) [OF _ Inl] True 1(3) usable_retry [OF a] by simp
    next
      case (Inr hi)
      note sk = skip_Inr [OF Inr True] and lh = skip_progress(2) [OF True Inr]
      obtain l1 where l1: "lmm_add_free lo (hi - lo) lmm = Inr l1" "free_memory hs hi l1 = Inr lmm'"
        using 1(8) True Inr by (subst (asm) free_memory.simps) (auto split: sum.splits)
      have dj: "{unat lo ..< unat hi} \<inter> free_bytes lmm = {}" using 1(6) by auto
      have 2: "lmm_ok l1" "frame l1 = frame lmm"
          "free_bytes l1 = free_bytes lmm \<union> {x \<in> region_bytes_of lmm. unat lo \<le> x div 8 * 8 \<and> x div 8 * 8 + 8 \<le> unat hi}"
        using add_range [OF 1(3,4,5) conjunct1 [OF lh] dj l1(1)] by simp_all
      have hole: "hi = 0xFFFFFFFF \<or> (\<exists>b. (hi, b) \<in> set hs \<and> hi < b)" using sk 1(7) by (fastforce simp: hole_ok_def)
      have w: "x < unat hi" if "x div 8 * 8 + 8 \<le> unat hi" for x using words_of_range(2) [of x "unat hi"] that by linarith
      have "low_end hi" using hole 1(7) by (auto simp: hole_ok_def low_end_def)
      moreover have "\<forall>h \<in> set hs. hole_ok hi h" using 1(7) lh hole_ok_mono by (auto dest: less_imp_le)
      moreover have "free_bytes l1 \<subseteq> {..< unat hi}" "0 < unat hi" using 2(3) 1(6) lh w by (auto simp: word_less_nat_alt)
      ultimately have "lmm_ok lmm' \<and> frame lmm' = frame l1 \<and> free_bytes lmm' = free_bytes l1 \<union> {x \<in> region_bytes_of l1. outside_holes hs (unat hi) x}"
        using 1(2) [OF _ Inr l1(1) 2(1)] True l1(2) by simp
      then show ?thesis using 2 region_bytes_frame [OF 2(2)] usable_range [OF conjunct1 [OF lh] hole] sk by auto
    qed
  qed
qed


section \<open>\<open>mb_entry\<close>\<close>

definition MAX_CPUS :: nat where "MAX_CPUS = 16"
definition LMM_0_INIT_MEM :: u32 where "LMM_0_INIT_MEM = 0x40000"

primrec core_pools :: "kernel_image \<Rightarrow> nat \<Rightarrow> lmm_t list kres" where
  "core_pools ki 0 = Inr []"
| "core_pools ki (Suc cpu_no) =
     kbind (core_pools ki cpu_no) (\<lambda>ps.
     kbind (lmm_add_region (ki_kern_mem_reg ki cpu_no) 0x100000 0xF00000 0 0 (lmm_init [])) (\<lambda>p. Inr (ps @ [p])))"

text \<open>The part of \<open>mb_entry\<close> before \<open>kernel_main\<close> that sets the memory up: the pool of all kernel memory, the pools of the cores
  and the number of frames.\<close>

definition mb_entry :: "mbinfo_t \<Rightarrow> kernel_image \<Rightarrow> (lmm_t \<times> lmm_t list \<times> u32) kres option" where
  "mb_entry mbi ki =
     (if mb_flags mbi AND MULTIBOOT_MEMORY = 0 then Some (Inl PANIC)
      else let n_phys_frames = (mem_upper mbi + 1024) div 4 in
      if \<not> sint (USER_MEM_START div 4096) < sint n_phys_frames then Some (Inl PANIC)
      else obind (Some (mb_util_lmm mbi ki)) (\<lambda>malloc_lmm.
      obind (lmm_remove_free 0 0x100000 malloc_lmm) (\<lambda>malloc_lmm.
      obind (lmm_remove_free USER_MEM_START (- 8 - USER_MEM_START) malloc_lmm) (\<lambda>malloc_lmm.
      obind (Some (core_pools ki MAX_CPUS)) (\<lambda>cores.
      obind (Some (lmm_alloc LMM_0_INIT_MEM 0 malloc_lmm)) (\<lambda>(malloc_lmm, smidge).
      if smidge = NULL then Some (Inl PANIC)
      else obind (Some (lmm_add_free smidge LMM_0_INIT_MEM (cores ! 0))) (\<lambda>p.
      Some (Inr (malloc_lmm, cores[0 := p], n_phys_frames)))))))))"

section \<open>\<open>dist_kernel_mem\<close>\<close>

text \<open>The loop asks for four bytes less until it gets a block.\<close>

partial_function (option) smidge_loop :: "lmm_t \<Rightarrow> u32 \<Rightarrow> (lmm_t \<times> u32 \<times> u32) kres option" where
  "smidge_loop lmm kmem_avail =
     (case lmm_alloc kmem_avail 0 lmm of Inl e \<Rightarrow> Some (Inl e)
      | Inr (lmm', smidge) \<Rightarrow>
          if smidge \<noteq> NULL then Some (Inr (lmm', smidge, kmem_avail)) else smidge_loop lmm' (kmem_avail - 4))"

declare smidge_loop.simps [code]

fun share :: "nat \<Rightarrow> u32 \<Rightarrow> u32 \<Rightarrow> lmm_t list \<Rightarrow> lmm_t list kres" where
  "share i smidge per_core [] = Inr []"
| "share i smidge per_core (p # ps) =
     kbind (lmm_add_free (smidge + word_of_nat i * per_core) per_core p) (\<lambda>p.
     kbind (share (Suc i) smidge per_core ps) (\<lambda>ps. Inr (p # ps)))"

text \<open>The pools of the \<open>cpus\<close> cores of the machine.\<close>

definition dist_kernel_mem :: "nat \<Rightarrow> lmm_t \<Rightarrow> lmm_t list \<Rightarrow> (lmm_t \<times> lmm_t list) kres option" where
  "dist_kernel_mem cpus lmm cores =
     obind (Some (lmm_avail 0 lmm)) (\<lambda>kmem_avail.
     obind (smidge_loop lmm kmem_avail) (\<lambda>(lmm, smidge, kmem_avail).
     let kmem_per_core = kmem_avail div word_of_nat cpus in
     obind (Some (share 0 smidge kmem_per_core (take cpus cores))) (\<lambda>ps. Some (Inr (lmm, ps @ drop cpus cores)))))"

section \<open>The regions\<close>

definition distinct_regions :: "kernel_image \<Rightarrow> bool" where
  "distinct_regions ki \<longleftrightarrow> distinct [ki_reg1mb ki, ki_reg16mb ki, ki_reghigh ki]"

text \<open>Because the priorities are unsigned, the memory between one and sixteen megabytes comes first, then the memory below it,
  and high memory last; the comment says that high memory is used first and low memory is the most precious.\<close>

lemma boot_regions_order:
  assumes "distinct_regions ki"
  shows "boot_regions ki = Inr
    [\<lparr>lr_at = ki_reg16mb ki, lr_nodes = [], lr_min = 0x100000, lr_max = 0x1000000, lr_flags = 2, lr_pri = - 1, lr_free = 0\<rparr>,
     \<lparr>lr_at = ki_reg1mb ki, lr_nodes = [], lr_min = 0, lr_max = 0x100000, lr_flags = 3, lr_pri = - 2, lr_free = 0\<rparr>,
     \<lparr>lr_at = ki_reghigh ki, lr_nodes = [], lr_min = 0x1000000, lr_max = 0xFFFFFFF8, lr_flags = 0, lr_pri = 0, lr_free = 0\<rparr>]"
  using assms
  by (simp add: boot_regions_def lmm_init_def lmm_add_region_def Let_def align_up_def align_down_def ALIGN_MASK_def
    LMM_PRI_1MB_def LMM_PRI_16MB_def LMM_PRI_HIGH_def distinct_regions_def kassert_def word_gt_0)


definition core_region :: "kernel_image \<Rightarrow> nat \<Rightarrow> lmm_region" where
  "core_region ki i = \<lparr>lr_at = ki_kern_mem_reg ki i, lr_nodes = [], lr_min = 0x100000, lr_max = 0x1000000,
     lr_flags = 0, lr_pri = 0, lr_free = 0\<rparr>"

lemma core_pools_ok: "core_pools ki n = Inr (map (\<lambda>i. [core_region ki i]) [0 ..< n])"
  by (induction n) (simp_all add: core_region_def lmm_init_def lmm_add_region_def Let_def align_up_def align_down_def ALIGN_MASK_def)

text \<open>What is in use when the kernel starts, by the layout of the information that the boot loader passes: a string with its final
  zero, a module with its string, the table of the modules (16 bytes each), the command line, and the image of the kernel. Bit 2 of
  the flags says that there is a command line, bit 3 that there are modules.\<close>

definition string_bytes :: "u32 \<Rightarrow> u32 \<Rightarrow> nat set" where
  "string_bytes a n = (if a = 0 then {} else {unat a .. unat a + unat n})"

definition module_bytes :: "multiboot_module \<Rightarrow> nat set" where
  "module_bytes m = {unat (mod_start m) ..< unat (mod_end m)} \<union> string_bytes (mod_string m) (mod_strlen m)"

definition boot_in_use :: "mbinfo_t \<Rightarrow> kernel_image \<Rightarrow> nat set" where
  "boot_in_use mbi ki =
     {unat (ki_start ki) ..< unat (ki_end ki)} \<union> {unat (ki_kimg ki) ..< unat (ki_end ki)} \<union>
     (if bit (mb_flags mbi) 2 then string_bytes (cmdline mbi) (cmdline_len mbi) else {}) \<union>
     (if bit (mb_flags mbi) 3
      then {unat (mods_addr mbi) ..< unat (mods_addr mbi) + 16 * length (mods mbi)} \<union> (\<Union>m \<in> set (mods mbi). module_bytes m) else {})"

text \<open>The kernel's part of the memory: the aligned double words between one and sixteen megabytes that the machine has and that are
  not in use.\<close>

definition kernel_bytes :: "mbinfo_t \<Rightarrow> kernel_image \<Rightarrow> nat set" where
  "kernel_bytes mbi ki = {x. 0x100000 \<le> x \<and> x < 0x1000000 \<and> x < 0x100000 + 1024 * unat (mem_upper mbi) \<and>
     {x div 8 * 8 ..< x div 8 * 8 + 8} \<inter> boot_in_use mbi ki = {}}"

text \<open>A machine with at most one gigabyte, in which all of that lies; the image and the modules are not empty.\<close>

definition machine_ok :: "mbinfo_t \<Rightarrow> kernel_image \<Rightarrow> bool" where
  "machine_ok mbi ki \<longleftrightarrow>
     distinct_regions ki \<and> unat (mem_lower mbi) < 1024 \<and> 0x100000 + unat (mem_upper mbi) * 1024 \<le> 2 ^ 30 \<and>
     ki_start ki < ki_end ki \<and> ki_kimg ki < ki_end ki \<and> unat (ki_end ki) \<le> 2 ^ 30 \<and>
     unat (cmdline mbi) + unat (cmdline_len mbi) < 2 ^ 30 \<and> unat (mods_addr mbi) + 16 * length (mods mbi) \<le> 2 ^ 30 \<and>
     (\<forall>m \<in> set (mods mbi). mod_start m < mod_end m \<and> unat (mod_end m) \<le> 2 ^ 30 \<and> unat (mod_string m) + unat (mod_strlen m) < 2 ^ 30)"

lemma flag_bits: "(f :: u32) AND MULTIBOOT_CMDLINE \<noteq> 0 \<longleftrightarrow> bit f 2" "f AND MULTIBOOT_MODS \<noteq> 0 \<longleftrightarrow> bit f 3"
proof -
  have "f AND 2 ^ n \<noteq> 0 \<longleftrightarrow> bit f n" for n by (simp add: and_exp_eq_0_iff_not_bit)
  from this [of 2] this [of 3] show "f AND MULTIBOOT_CMDLINE \<noteq> 0 \<longleftrightarrow> bit f 2" "f AND MULTIBOOT_MODS \<noteq> 0 \<longleftrightarrow> bit f 3"
    by (simp_all add: MULTIBOOT_CMDLINE_def MULTIBOOT_MODS_def)
qed

lemma unat_string_end: "unat a + unat n < 2 ^ 30 \<Longrightarrow> unat (a + n + 1 :: u32) = unat a + unat n + 1"
  by (simp add: unat_word_ariths)

text \<open>The ranges that \<open>mb_util_lmm\<close> skips, read as sets.\<close>

abbreviation hole_set :: "u32 \<times> u32 \<Rightarrow> nat set" where
  "hole_set h \<equiv> {unat (fst h) ..< unat (snd h)}"

lemma module_holes_set:
  assumes "unat (mod_string m) + unat (mod_strlen m) < 2 ^ 30"
  shows "(\<Union>h \<in> set (module_holes m). hole_set h) = module_bytes m"
  using unat_string_end [OF assms] by (auto simp: module_holes_def module_bytes_def string_bytes_def)

lemma mem_holes_set:
  assumes "machine_ok mbi ki"
  shows "(\<Union>h \<in> set (mem_holes mbi ki). hole_set h) =
    {unat (mem_lower mbi) * 1024 ..< 0x100000} \<union> {0x100000 + 1024 * unat (mem_upper mbi) ..< 0xFFFFFFFF} \<union> boot_in_use mbi ki"
proof -
  note m = assms [unfolded machine_ok_def]
  have up: "unat (0x100000 + mem_upper mbi * 1024) = 0x100000 + 1024 * unat (mem_upper mbi)" using m by (simp add: unat_word_ariths)
  have lw: "unat (mem_lower mbi * 1024) = unat (mem_lower mbi) * 1024" using m by (simp add: unat_word_ariths)
  have c: "unat (cmdline mbi + cmdline_len mbi + 1) = unat (cmdline mbi) + unat (cmdline_len mbi) + 1" using m unat_string_end by blast
  have l: "length (mods mbi) \<le> 2 ^ 26" using m by simp
  then have "unat (word_of_nat (length (mods mbi)) :: u32) = length (mods mbi)" by (intro unat_word_of_nat32) simp
  then have t: "unat (mods_addr mbi + word_of_nat (length (mods mbi)) * 16) = unat (mods_addr mbi) + 16 * length (mods mbi)"
    using m l by (simp add: unat_word_ariths)
  have "\<forall>x \<in> set (mods mbi). (\<Union>h \<in> set (module_holes x). hole_set h) = module_bytes x" using m module_holes_set by blast
  then have mods: "(\<Union>h \<in> set (concat (map module_holes (mods mbi))). hole_set h) = (\<Union>m \<in> set (mods mbi). module_bytes m)" by auto
  let ?cmd = "if bit (mb_flags mbi) 2 then cmdline mbi else 0"
  have cmd: "{unat ?cmd ..< unat (if ?cmd \<noteq> 0 then ?cmd + cmdline_len mbi + 1 else 0)} =
      (if bit (mb_flags mbi) 2 then string_bytes (cmdline mbi) (cmdline_len mbi) else {})"
    using c by (auto simp: string_bytes_def)
  show ?thesis
  proof (cases "bit (mb_flags mbi) 3 \<and> mods mbi \<noteq> []")
    case True
    then have "(\<Union>h \<in> set (mem_holes mbi ki). hole_set h) =
        {unat (mem_lower mbi) * 1024 ..< 0x100000} \<union> {0x100000 + 1024 * unat (mem_upper mbi) ..< 0xFFFFFFFF} \<union>
        {unat (ki_start ki) ..< unat (ki_end ki)} \<union> {unat (ki_kimg ki) ..< unat (ki_end ki)} \<union>
        {unat ?cmd ..< unat (if ?cmd \<noteq> 0 then ?cmd + cmdline_len mbi + 1 else 0)} \<union>
        {unat (mods_addr mbi) ..< unat (mods_addr mbi) + 16 * length (mods mbi)} \<union>
        (\<Union>h \<in> set (concat (map module_holes (mods mbi))). hole_set h)"
      unfolding mem_holes_def flag_bits Let_def by (simp add: up lw t Un_assoc)
    then show ?thesis unfolding cmd mods using True by (simp add: boot_in_use_def Un_assoc)
  next
    case False
    then have e: "(\<Union>h \<in> set (mem_holes mbi ki). hole_set h) =
        {unat (mem_lower mbi) * 1024 ..< 0x100000} \<union> {0x100000 + 1024 * unat (mem_upper mbi) ..< 0xFFFFFFFF} \<union>
        {unat (ki_start ki) ..< unat (ki_end ki)} \<union> {unat (ki_kimg ki) ..< unat (ki_end ki)} \<union>
        {unat ?cmd ..< unat (if ?cmd \<noteq> 0 then ?cmd + cmdline_len mbi + 1 else 0)}"
      unfolding mem_holes_def flag_bits Let_def by (auto simp: up lw)
    show ?thesis unfolding e cmd using False by (auto simp: boot_in_use_def)
  qed
qed

lemma mem_holes_ok:
  assumes "machine_ok mbi ki"
  shows "\<forall>h \<in> set (mem_holes mbi ki). hole_ok 0x500 h"
proof -
  note m = assms [unfolded machine_ok_def]
  have ok: "hole_ok 0x500 (a, b)" if "unat a < unat b" "unat b \<le> 2 ^ 30" for a b
    using that by (simp add: hole_ok_def low_end_def word_less_nat_alt word_le_nat_alt)
  have "unat (mem_lower mbi * 1024) = unat (mem_lower mbi) * 1024" "unat (0x100000 + mem_upper mbi * 1024) = 0x100000 + unat (mem_upper mbi) * 1024"
    using m by (simp_all add: unat_word_ariths)
  then have "hole_ok 0x500 (mem_lower mbi * 1024, 0x100000)" "hole_ok 0x500 (0x100000 + mem_upper mbi * 1024, 0xFFFFFFFF)"
    using m by (simp_all add: hole_ok_def low_end_def word_less_nat_alt word_le_nat_alt)
  moreover have "hole_ok 0x500 (ki_start ki, ki_end ki)" "hole_ok 0x500 (ki_kimg ki, ki_end ki)"
    using m by (simp_all add: ok word_less_nat_alt)
  moreover have s: "hole_ok 0x500 (a, a + n + 1)" if "unat a + unat n < 2 ^ 30" for a n
    using that unat_string_end [OF that] by (intro ok) simp_all
  moreover have "hole_ok 0x500 (0, 0)" by (simp add: hole_ok_def low_end_def)
  moreover have "hole_ok 0x500 (mods_addr mbi, mods_addr mbi + word_of_nat (length (mods mbi)) * 16)" if "mods mbi \<noteq> []"
  proof -
    have l: "length (mods mbi) \<le> 2 ^ 26" using m by simp
    then have "unat (word_of_nat (length (mods mbi)) :: u32) = length (mods mbi)" by (intro unat_word_of_nat32) simp
    then have "unat (mods_addr mbi + word_of_nat (length (mods mbi)) * 16) = unat (mods_addr mbi) + 16 * length (mods mbi)"
      using m l by (simp add: unat_word_ariths)
    then show ?thesis using that m by (intro ok) simp_all
  qed
  moreover have "\<forall>x \<in> set (mods mbi). \<forall>h \<in> set (module_holes x). hole_ok 0x500 h"
    using m s ok by (auto simp: module_holes_def word_less_nat_alt)
  ultimately show ?thesis using m by (auto simp: mem_holes_def Let_def)
qed

lemma kernel_bytes_holes:
  assumes "machine_ok mbi ki"
  shows "kernel_bytes mbi ki = {x \<in> {0x100000 ..< 0x1000000}. outside_holes (mem_holes mbi ki) 0x500 x}"
proof -
  let ?W = "\<lambda>x :: nat. {x div 8 * 8 ..< x div 8 * 8 + 8}" and ?U = "0x100000 + 1024 * unat (mem_upper mbi)"
  have "outside_holes (mem_holes mbi ki) 0x500 x \<longleftrightarrow> x < ?U \<and> ?W x \<inter> boot_in_use mbi ki = {}" if x: "0x100000 \<le> x" "x < 0x1000000" for x
  proof -
    have w: "0x100000 \<le> x div 8 * 8" using div_le_mono [OF x(1), of 8] by simp
    have h: "x div 8 * 8 + 8 \<le> 0xFFFFFFFF" using x(2) by simp
    have top: "?W x \<inter> {?U ..< 0xFFFFFFFF} = {} \<longleftrightarrow> x < ?U"
    proof -
      have "x < ?U \<longleftrightarrow> x div 8 * 8 + 8 \<le> ?U" using words_of_range(2) [of x ?U] by simp
      moreover have "x \<in> ?W x" by simp
      ultimately show ?thesis using h by (auto simp: disjoint_iff)
    qed
    have "outside_holes (mem_holes mbi ki) 0x500 x \<longleftrightarrow> ?W x \<inter> (\<Union>h \<in> set (mem_holes mbi ki). hole_set h) = {}"
      using w h unfolding outside_holes_def by (auto simp: Int_UN_distrib)
    also have "\<dots> \<longleftrightarrow> ?W x \<inter> {?U ..< 0xFFFFFFFF} = {} \<and> ?W x \<inter> boot_in_use mbi ki = {}"
      unfolding mem_holes_set [OF assms] using w by (auto simp: Int_Un_distrib)
    finally show ?thesis unfolding top .
  qed
  then show ?thesis by (auto simp: kernel_bytes_def)
qed

lemma mb_util_lmm_ok:
  assumes "machine_ok mbi ki" and "mb_util_lmm mbi ki = Inr lmm"
  shows "lmm_ok lmm" and "free_bytes lmm = {x \<in> {..< 0xFFFFFFF8}. outside_holes (mem_holes mbi ki) 0x500 x}"
    and "free_bytes lmm \<subseteq> {..< 2 ^ 30}"
proof -
  note h = mem_holes_ok [OF assms(1)]
  have d: "distinct_regions ki" and up: "0x100000 + unat (mem_upper mbi) * 1024 \<le> 2 ^ 30" using assms(1) by (simp_all add: machine_ok_def)
  obtain l0 where l0: "boot_regions ki = Inr l0" "lmm_ok l0" "free_bytes l0 = {}" "region_bytes_of l0 = {0x100000 ..< 0x1000000} \<union> {0 ..< 0x100000} \<union> {0x1000000 ..< 0xFFFFFFF8}"
    by (rule that [OF boot_regions_order [OF d]]) (simp_all add: region_ok_def apart_def region_bytes_of_def Un_assoc)
  have f: "free_memory (mem_holes mbi ki) 0x500 l0 = Inr lmm" using assms(2) l0(1) by (simp add: mb_util_lmm_def)
  have r: "region_bytes_of l0 = {..< 0xFFFFFFF8}" unfolding l0(4) by (auto simp: not_less)
  from free_memory_ok [OF l0(2) _ _ _ h f] l0(3) r
  show ok: "lmm_ok lmm" and fb: "free_bytes lmm = {x \<in> {..< 0xFFFFFFF8}. outside_holes (mem_holes mbi ki) 0x500 x}"
    by (simp_all add: low_end_def)
  have "unat (0x100000 + mem_upper mbi * 1024) = 0x100000 + unat (mem_upper mbi) * 1024"
    using up by (simp add: unat_word_ariths)
  moreover have top: "(0x100000 + mem_upper mbi * 1024, 0xFFFFFFFF) \<in> set (mem_holes mbi ki)" by (simp add: mem_holes_def Let_def)
  ultimately have "x < 2 ^ 30" if u: "outside_holes (mem_holes mbi ki) 0x500 x" for x
  proof -
    have "x < x div 8 * 8 + 8" by simp
    then have "x < 0xFFFFFFFF" using u unfolding outside_holes_def by linarith
    then show ?thesis using usable_not_in_hole [OF u top] up \<open>unat (0x100000 + _) = _\<close> by simp
  qed
  then show "free_bytes lmm \<subseteq> {..< 2 ^ 30}" using fb by auto
qed


section \<open>The kernel's heap\<close>

lemma remove_user_memory:
  assumes "machine_ok mbi ki" and "mb_util_lmm mbi ki = Inr l0"
  shows "\<exists>l1 l2. lmm_remove_free 0 0x100000 l0 = Some (Inr l1) \<and>
    lmm_remove_free USER_MEM_START (- 8 - USER_MEM_START) l1 = Some (Inr l2) \<and> lmm_ok l2 \<and> free_bytes l2 = kernel_bytes mbi ki"
proof -
  note u = mb_util_lmm_ok [OF assms]
  obtain l1 where l1: "lmm_remove_free 0 0x100000 l0 = Some (Inr l1)" "lmm_ok l1" "free_bytes l1 = free_bytes l0 - {..< 0x100000}"
    using remove_loop_ok [OF u(1,3), where rend = "0x100000" and x = 0 and block = 0] by (auto simp: lmm_remove_free_def lessThan_atLeast0)
  have "free_bytes l1 \<subseteq> {..< 2 ^ 30}" using l1(3) u(3) by auto
  moreover have e: "USER_MEM_START + (- 8 - USER_MEM_START) = (0xFFFFFFF8 :: u32)" by (simp add: USER_MEM_START_def)
  ultimately obtain l2 where l2: "lmm_remove_free USER_MEM_START (- 8 - USER_MEM_START) l1 = Some (Inr l2)" "lmm_ok l2"
      "free_bytes l2 = free_bytes l1 - {0x1000000 ..< 0xFFFFFFF8}"
    using remove_loop_ok [OF l1(2), where rend = "0xFFFFFFF8" and x = USER_MEM_START and block = USER_MEM_START]
    unfolding lmm_remove_free_def e by (auto simp: USER_MEM_START_def)
  have "free_bytes l2 = kernel_bytes mbi ki" unfolding l2(3) l1(3) u(2) kernel_bytes_holes [OF assms(1)] by auto
  then show ?thesis using l1(1) l2 by blast
qed

lemma init_mem: "0 < LMM_0_INIT_MEM" "unat LMM_0_INIT_MEM + 7 < 2 ^ 32" "rounded LMM_0_INIT_MEM = 0x40000"
  by (simp_all add: LMM_0_INIT_MEM_def rounded_def)

lemma first_heap:
  assumes "{unat p ..< unat p + 0x40000} \<subseteq> {0x100000 ..< 0x1000000}" and "8 dvd unat p"
    and "lr_min r = 0x100000" "lr_max r = 0x1000000" "lr_nodes r = []" "lr_free r = 0"
  shows "\<exists>q. lmm_add_free p LMM_0_INIT_MEM [r] = Inr q \<and> lmm_ok q \<and> free_bytes q = {unat p ..< unat p + 0x40000}"
proof -
  have b: "0x100000 \<le> unat p" "unat p + 0x40000 \<le> 0x1000000" using interval_le [OF assms(1)] by simp_all
  have "region_ok r" using assms(3-6) by (simp add: region_ok_def)
  moreover have "(unat p + 7) div 8 * 8 = unat p" "(unat p + 0x40000) div 8 * 8 = unat p + 0x40000" using assms(2) by (auto elim!: dvdE)
  ultimately show ?thesis
    using lmm_add_free_ok [of "[r]" p LMM_0_INIT_MEM] b assms(3-5) by (auto simp: LMM_0_INIT_MEM_def part_def)
qed

text \<open>C17: When \<open>mb_entry\<close> has set the memory up, the free memory of the kernel, in the common pool and in core 0's heap, is exactly
  the set of aligned double words between one megabyte and \<open>USER_MEM_START\<close> that the machine has and of which no byte belongs to the
  kernel image, the command line, the table of the boot modules, a module or the string of a module; core 0's heap and the common pool share no byte, and the other cores' heaps are still empty. The
  set-up ends on every machine with less than a gigabyte: only an assertion can stop it.\<close>

theorem mb_entry_heap:
  assumes "machine_ok mbi ki"
  shows "\<exists>r. mb_entry mbi ki = Some r \<and>
    (\<forall>lmm cores n. r = Inr (lmm, cores, n) \<longrightarrow>
       lmm_ok lmm \<and> list_all lmm_ok cores \<and> length cores = MAX_CPUS \<and>
       free_bytes lmm \<union> free_bytes (cores ! 0) = kernel_bytes mbi ki \<and> free_bytes lmm \<inter> free_bytes (cores ! 0) = {} \<and>
       (\<forall>i. 0 < i \<longrightarrow> i < MAX_CPUS \<longrightarrow> free_bytes (cores ! i) = {}))"
proof -
  show ?thesis
  proof (cases "mb_flags mbi AND MULTIBOOT_MEMORY = 0 \<or> \<not> sint (USER_MEM_START div 4096) < sint ((mem_upper mbi + 1024) div 4) \<or> (\<exists>e. mb_util_lmm mbi ki = Inl e)")
    case True
    then have "\<exists>e. mb_entry mbi ki = Some (Inl e)" by (auto simp: mb_entry_def Let_def)
    then show ?thesis by auto
  next
    case False
    then obtain l0 where go: "mb_util_lmm mbi ki = Inr l0" "mb_flags mbi AND MULTIBOOT_MEMORY \<noteq> 0"
        "sint (USER_MEM_START div 4096) < sint ((mem_upper mbi + 1024) div 4)"
      by (cases "mb_util_lmm mbi ki") auto
    obtain l1 l2 where l: "lmm_remove_free 0 0x100000 l0 = Some (Inr l1)" "lmm_remove_free USER_MEM_START (- 8 - USER_MEM_START) l1 = Some (Inr l2)"
        "lmm_ok l2" "free_bytes l2 = kernel_bytes mbi ki"
      using remove_user_memory [OF assms go(1)] by blast
    obtain l3 p where a: "lmm_alloc LMM_0_INIT_MEM 0 l2 = Inr (l3, p)" and t: "p \<noteq> NULL \<longrightarrow> 8 dvd unat p \<and> took l2 l3 (unat p) 0x40000"
      using lmm_alloc_ok [OF l(3) init_mem(1,2), of 0] by (auto simp: init_mem(3) split: sum.splits if_splits)
    have e: "mb_entry mbi ki = (if p = NULL then Some (Inl PANIC) else
        obind (Some (lmm_add_free p LMM_0_INIT_MEM [core_region ki 0])) (\<lambda>q. Some (Inr (l3, (map (\<lambda>i. [core_region ki i]) [0 ..< MAX_CPUS])[0 := q], (mem_upper mbi + 1024) div 4))))"
      using go l(1,2) a by (simp add: mb_entry_def Let_def core_pools_ok MAX_CPUS_def core_region_def)
    show ?thesis
    proof (cases "p = NULL")
      case True
      then show ?thesis using e by simp
    next
      case False
      note t = t [rule_format, OF False]
      have sub: "kernel_bytes mbi ki \<subseteq> {0x100000 ..< 0x1000000}" by (auto simp: kernel_bytes_def)
      have in_kernel: "{unat p ..< unat p + 0x40000} \<subseteq> {0x100000 ..< 0x1000000}"
        using t l(4) unfolding took_def using sub by blast
      obtain q where q: "lmm_add_free p LMM_0_INIT_MEM [core_region ki 0] = Inr q" "lmm_ok q" "free_bytes q = {unat p ..< unat p + 0x40000}"
        using first_heap [OF in_kernel conjunct1 [OF t], of "core_region ki 0"] by (auto simp: core_region_def)
      have "lmm_ok [core_region ki i]" "free_bytes [core_region ki i] = {}" for i by (simp_all add: core_region_def region_ok_def)
      then show ?thesis using e False q t l(4) by (auto simp: took_def list_all_length nth_list_update MAX_CPUS_def)
    qed
  qed
qed


section \<open>The cores' heaps\<close>

lemma add_free_Inr:
  assumes "lmm_ok lmm" and "0 < unat block" and lo: "unat block + 7 < 2 ^ 32" and b: "unat block + unat sz < 2 ^ 32"
    and d: "{unat block ..< unat block + unat sz} \<inter> free_bytes lmm = {}" and r: "lmm_add_free block sz lmm = Inr lmm'"
  shows "lmm_ok lmm' \<and> free_bytes lmm' \<subseteq> free_bytes lmm \<union> {unat block ..< unat block + unat sz}"
proof -
  have "align_up block \<le> align_down (block + sz)"
    using r by (auto simp: lmm_add_free_def Let_def kassert_def split: if_splits)
  then have le: "(unat block + 7) div 8 * 8 \<le> (unat block + unat sz) div 8 * 8"
    using unat_align_up [OF lo] unat_plus [OF b] by (simp add: word_le_nat_alt unat_lmm_align_down minus_mod_eq_div_mult)
  have "unat block \<le> (unat block + 7) div 8 * 8" "(unat block + unat sz) div 8 * 8 \<le> unat block + unat sz" by simp_all
  then have "part ((unat block + 7) div 8 * 8) ((unat block + unat sz) div 8 * 8) q \<subseteq> {unat block ..< unat block + unat sz}" for q
    by (auto simp: part_def)
  then show ?thesis using lmm_add_free_ok [OF assms(1,2) lo b le d] r by auto
qed

lemma eight_dvd_free: "lmm_ok lmm \<Longrightarrow> 8 dvd card (free_bytes lmm)"
proof (induction lmm)
  case (Cons r rs)
  have "nodes_ok lo hi ns \<Longrightarrow> 8 dvd node_sum ns" for lo hi ns by (induction lo hi ns rule: nodes_ok.induct) auto
  then have "8 dvd unat (lr_free r)" using Cons.prems by (auto simp: region_ok_def)
  then show ?case using Cons free_bytes_Cons_card [OF Cons.prems] by simp
qed simp

text \<open>The loop ends: with less and less memory asked for, the request is granted or is for nothing, which an assertion stops.\<close>

lemma smidge_loop_ok:
  assumes "lmm_ok lmm" and "unat k \<le> 2 ^ 30" and "4 dvd unat k"
  shows "\<exists>r. smidge_loop lmm k = Some r \<and>
    (\<forall>lmm' p k'. r = Inr (lmm', p, k') \<longrightarrow> p \<noteq> NULL \<and> 0 < unat k' \<and> unat k' \<le> 2 ^ 30 \<and> took lmm lmm' (unat p) (rounded k'))"
  using assms(2,3)
proof (induction "unat k" arbitrary: k rule: less_induct)
  case less
  show ?case
  proof (cases "k = 0")
    case True
    then show ?thesis by (subst smidge_loop.simps) (simp add: lmm_alloc_def kassert_def)
  next
    case False
    then have k: "0 < k" "unat k + 7 < 2 ^ 32" "4 \<le> unat k"
      using less.prems by (auto simp: word_gt_0 dvd_imp_le unat_gt_0)
    obtain lmm1 p where a: "lmm_alloc k 0 lmm = Inr (lmm1, p)" "if p = NULL then lmm1 = lmm else took lmm lmm1 (unat p) (rounded k)"
      using lmm_alloc_ok [OF assms(1) k(1,2), of 0] by (auto split: sum.splits if_splits)
    show ?thesis
    proof (cases "p = NULL")
      case True
      have u: "unat (k - 4) = unat k - 4" using k(3) by (simp add: unat_minus)
      then have "\<exists>r. smidge_loop lmm (k - 4) = Some r \<and>
          (\<forall>lmm' p k'. r = Inr (lmm', p, k') \<longrightarrow> p \<noteq> NULL \<and> 0 < unat k' \<and> unat k' \<le> 2 ^ 30 \<and> took lmm lmm' (unat p) (rounded k'))"
        using less.prems k(3) by (intro less.hyps) (auto intro: dvd_diff_nat)
      then show ?thesis using True a by (subst smidge_loop.simps) simp
    next
      case found: False
      then show ?thesis using a less.prems(1) k(3) by (subst smidge_loop.simps) simp
    qed
  qed
qed

text \<open>The share of a core.\<close>

definition share_bytes :: "nat \<Rightarrow> nat \<Rightarrow> nat \<Rightarrow> nat set" where
  "share_bytes start per i = {start + i * per ..< start + Suc i * per}"

lemma share_start:
  fixes smidge per :: u32
  assumes "unat smidge + i * unat per \<le> 2 ^ 31"
  shows "unat (smidge + word_of_nat i * per) = unat smidge + i * unat per"
proof -
  have "word_of_nat i * per = word_of_nat (i * unat per)" by simp
  moreover have "unat (word_of_nat (i * unat per) :: u32) = i * unat per" using assms by (intro unat_word_of_nat32) simp
  ultimately show ?thesis using assms by (subst unat_plus) simp_all
qed

lemma share_ok:
  assumes "share i smidge per ps = Inr ps'" and "list_all lmm_ok ps" and "0 < unat smidge"
    and "unat smidge + (i + length ps) * unat per \<le> 2 ^ 31"
    and "\<forall>p \<in> set ps. {unat smidge ..< unat smidge + (i + length ps) * unat per} \<inter> free_bytes p = {}"
  shows "length ps' = length ps \<and>
    (\<forall>j < length ps. lmm_ok (ps' ! j) \<and> free_bytes (ps' ! j) \<subseteq> free_bytes (ps ! j) \<union> share_bytes (unat smidge) (unat per) (i + j))"
  using assms
proof (induction ps arbitrary: i ps')
  case (Cons p ps)
  let ?b = "smidge + word_of_nat i * per" and ?S = "unat smidge" and ?P = "unat per"
  obtain q qs where q: "lmm_add_free ?b per p = Inr q" "share (Suc i) smidge per ps = Inr qs" "ps' = q # qs"
    using Cons.prems(1) by (auto simp: kbind_eq_Inr)
  have le: "?S + i * ?P + ?P \<le> ?S + (i + length (p # ps)) * ?P" by simp
  then have b: "unat ?b = ?S + i * ?P" using Cons.prems(4) by (intro share_start) linarith
  have in_all: "share_bytes ?S ?P i \<subseteq> {?S ..< ?S + (i + length (p # ps)) * ?P}" using le by (auto simp: share_bytes_def)
  have sb: "share_bytes ?S ?P i = {unat ?b ..< unat ?b + ?P}" unfolding b by (simp add: share_bytes_def ac_simps)
  have bnd: "unat ?b + ?P \<le> 2 ^ 31" unfolding b using le Cons.prems(4) by linarith
  have "share_bytes ?S ?P i \<inter> free_bytes p = {}" using in_all Cons.prems(5) by auto
  then have head: "lmm_ok q \<and> free_bytes q \<subseteq> free_bytes p \<union> share_bytes ?S ?P i"
    using add_free_Inr [OF _ _ _ _ _ q(1)] sb bnd b Cons.prems(2,3) by simp
  have tail: "length qs = length ps \<and>
      (\<forall>j < length ps. lmm_ok (qs ! j) \<and> free_bytes (qs ! j) \<subseteq> free_bytes (ps ! j) \<union> share_bytes ?S ?P (Suc i + j))"
    using Cons.prems(2-5) by (intro Cons.IH [OF q(2)]) simp_all
  show ?case
  proof (intro conjI allI impI)
    show "length ps' = length (p # ps)" using tail q(3) by simp
    fix j assume j: "j < length (p # ps)"
    show "lmm_ok (ps' ! j)" "free_bytes (ps' ! j) \<subseteq> free_bytes ((p # ps) ! j) \<union> share_bytes ?S ?P (i + j)"
      using head tail q(3) j by (cases j; simp)+
  qed
qed simp


lemma share_disjoint: "i \<noteq> j \<Longrightarrow> share_bytes start per i \<inter> share_bytes start per j = {}"
proof -
  have "share_bytes start per i \<inter> share_bytes start per j = {}" if "i < j" for i j
  proof -
    have "Suc i * per \<le> j * per" using that by (intro mult_le_mono1) simp
    then show ?thesis by (auto simp: share_bytes_def)
  qed
  then show "i \<noteq> j \<Longrightarrow> share_bytes start per i \<inter> share_bytes start per j = {}" by (metis Int_commute linorder_neqE_nat)
qed

lemma share_in_block:
  assumes "i < n"
  shows "share_bytes start (k div n) i \<subseteq> {start ..< start + k}"
proof -
  have "Suc i * (k div n) \<le> n * (k div n)" using assms by (intro mult_le_mono1) simp
  also have "\<dots> \<le> k" by simp
  finally show ?thesis by (auto simp: share_bytes_def)
qed

definition separate :: "lmm_t list \<Rightarrow> bool" where
  "separate ps \<longleftrightarrow> (\<forall>i < length ps. \<forall>j < length ps. i \<noteq> j \<longrightarrow> free_bytes (ps ! i) \<inter> free_bytes (ps ! j) = {})"

lemma shares_separate:
  assumes "lmm_ok lmm" and "free_bytes lmm \<subseteq> {..< 2 ^ 30}" and "list_all lmm_ok cores" and sep: "separate (lmm # cores)"
    and c: "0 < cpus" "cpus \<le> length cores" "cpus \<le> 16"
    and t: "took lmm l (unat p) (rounded k)" and p: "p \<noteq> NULL" "0 < unat k"
    and sh: "share 0 p (k div word_of_nat cpus) (take cpus cores) = Inr ps"
  shows "list_all lmm_ok (l # ps @ drop cpus cores) \<and> length (ps @ drop cpus cores) = length cores \<and> separate (l # ps @ drop cpus cores) \<and>
    (\<forall>i < length cores. free_bytes ((ps @ drop cpus cores) ! i) \<subseteq> free_bytes (cores ! i) \<union> free_bytes lmm)"
proof -
  let ?per = "unat k div cpus" and ?B = "{unat p ..< unat p + rounded k}"
  have per: "unat (k div word_of_nat cpus) = ?per" using c(3) by (simp add: unat_div unat_word_of_nat32)
  note t = t [unfolded took_def]
  have kr: "unat k \<le> rounded k" by (simp add: rounded_def)
  have "?B \<subseteq> {0 ..< 2 ^ 30}" using t assms(2) by (simp only: lessThan_atLeast0) blast
  from interval_le [OF this] have top: "unat p + rounded k \<le> 2 ^ 30" using p(2) kr by linarith
  have n: "length (take cpus cores) = cpus" using c(2) by simp
  have nk: "cpus * ?per \<le> unat k" by simp
  define cores' where "cores' = ps @ drop cpus cores"
  define E where "E i = (if i < cpus then share_bytes (unat p) ?per i else {})" for i
  have sep_nth: "free_bytes ((lmm # cores) ! i) \<inter> free_bytes ((lmm # cores) ! j) = {}"
    if "i < length (lmm # cores)" "j < length (lmm # cores)" "i \<noteq> j" for i j
    using sep that by (simp add: separate_def)
  have core_lmm: "free_bytes lmm \<inter> free_bytes (cores ! i) = {}" if "i < length cores" for i
    using sep_nth [of 0 "Suc i"] that by simp
  have core_core: "free_bytes (cores ! i) \<inter> free_bytes (cores ! j) = {}" if "i < length cores" "j < length cores" "i \<noteq> j" for i j
    using sep_nth [of "Suc i" "Suc j"] that by simp
  have "{unat p ..< unat p + unat k} \<subseteq> ?B" using kr by simp
  then have EB: "E i \<subseteq> ?B" for i using share_in_block [of i cpus "unat p" "unat k"] unfolding E_def by (cases "i < cpus") auto
  have EE: "E i \<inter> E j = {}" if "i \<noteq> j" for i j using share_disjoint [OF that] by (simp add: E_def)
  have "\<forall>q \<in> set (take cpus cores). {unat p ..< unat p + cpus * ?per} \<inter> free_bytes q = {}"
  proof
    fix q assume "q \<in> set (take cpus cores)"
    then obtain i where "i < length cores" "q = cores ! i" using in_set_takeD [of q] by (metis in_set_conv_nth)
    then have "free_bytes lmm \<inter> free_bytes q = {}" using core_lmm by simp
    moreover have "{unat p ..< unat p + cpus * ?per} \<subseteq> ?B" using le_trans [OF nk kr] by auto
    ultimately show "{unat p ..< unat p + cpus * ?per} \<inter> free_bytes q = {}" using t by blast
  qed
  moreover have all31: "unat p + cpus * ?per \<le> 2 ^ 31"
    using top le_trans [OF nk kr] power_increasing [of 30 31 "2 :: nat"] by linarith
  moreover have "list_all lmm_ok (take cpus cores)" using assms(3) by (auto simp: list_all_iff dest: in_set_takeD)
  ultimately have so: "length ps = cpus" "\<And>j. j < cpus \<Longrightarrow> lmm_ok (ps ! j) \<and> free_bytes (ps ! j) \<subseteq> free_bytes (cores ! j) \<union> share_bytes (unat p) ?per j"
    using share_ok [OF sh] p(1) all31 c(2) by (simp_all add: per unat_gt_0)
  have len: "length cores' = length cores" using so(1) c(2) by (simp add: cores'_def)
  have each: "lmm_ok (cores' ! i) \<and> free_bytes (cores' ! i) \<subseteq> free_bytes (cores ! i) \<union> E i" if "i < length cores" for i
    using so that assms(3) by (auto simp: cores'_def nth_append E_def list_all_length)
  have "separate (l # cores')"
    unfolding separate_def
  proof (intro allI impI)
    fix i j assume ij: "i < length (l # cores')" "j < length (l # cores')" "i \<noteq> j"
    have l_core: "free_bytes l \<inter> free_bytes (cores' ! i) = {}" if "i < length cores" for i
      using each [OF that] core_lmm [OF that] EB [of i] t by blast
    have "free_bytes (cores' ! i) \<inter> free_bytes (cores' ! j) = {}" if "i < length cores" "j < length cores" "i \<noteq> j" for i j
      using each [OF that(1)] each [OF that(2)] core_core [OF that] EE [OF that(3)] EB [of i] EB [of j] core_lmm [OF that(1)] core_lmm [OF that(2)] t by blast
    then show "free_bytes ((l # cores') ! i) \<inter> free_bytes ((l # cores') ! j) = {}"
      using ij len l_core by (cases i; cases j) (auto simp: Int_commute)
  qed
  moreover have "list_all lmm_ok cores'" using each len by (simp add: list_all_length)
  then have "list_all lmm_ok (l # cores')" using t by simp
  moreover have "free_bytes (cores' ! i) \<subseteq> free_bytes (cores ! i) \<union> free_bytes lmm" if "i < length cores" for i
    using each [OF that] EB [of i] t by blast
  ultimately show ?thesis using len unfolding cores'_def by blast
qed

text \<open>C37: Sharing the kernel's memory among the cores ends; when no assertion stops it, the heaps of the cores are well-formed and no
  byte is in two of them, or in one of them and in what is left of the common pool: each core's allocator, under its own lock, hands
  out memory of its own. Every byte of a heap was free before.\<close>

theorem dist_pools_separate:
  assumes "lmm_ok lmm" and "free_bytes lmm \<subseteq> {..< 2 ^ 30}" and "list_all lmm_ok cores" and "separate (lmm # cores)"
    and "0 < cpus" and "cpus \<le> length cores" and "cpus \<le> 16"
  shows "\<exists>r. dist_kernel_mem cpus lmm cores = Some r \<and>
    (\<forall>lmm' cores'. r = Inr (lmm', cores') \<longrightarrow>
       list_all lmm_ok (lmm' # cores') \<and> length cores' = length cores \<and> separate (lmm' # cores') \<and>
       (\<forall>i < length cores. free_bytes (cores' ! i) \<subseteq> free_bytes (cores ! i) \<union> free_bytes lmm))"
proof -
  obtain n where n: "lmm_avail 0 lmm = Inr n" "unat n = card (free_bytes lmm)" using lmm_avail_ok [OF assms(1), of 0] by auto
  have "unat n \<le> 2 ^ 30" "4 dvd unat n"
    using card_mono [OF _ assms(2)] eight_dvd_free [OF assms(1)] n(2) by (auto dest: dvd_trans [of 4 8, rotated])
  from smidge_loop_ok [OF assms(1) this] obtain r1 where r1: "smidge_loop lmm n = Some r1"
      "\<And>l p k. r1 = Inr (l, p, k) \<Longrightarrow> p \<noteq> NULL \<and> 0 < unat k \<and> unat k \<le> 2 ^ 30 \<and> took lmm l (unat p) (rounded k)" by auto
  show ?thesis
  proof (cases r1)
    case (Inl e)
    then show ?thesis using n r1 by (simp add: dist_kernel_mem_def)
  next
    case (Inr x)
    obtain l p k where x: "r1 = Inr (l, p, k)" using Inr by (cases x) auto
    then have p: "p \<noteq> NULL" "0 < unat k" and t: "took lmm l (unat p) (rounded k)" using r1(2) by auto
    define per where "per = k div word_of_nat cpus"
    show ?thesis
    proof (cases "share 0 p per (take cpus cores)")
      case (Inl e)
      then show ?thesis using n r1 x by (simp add: dist_kernel_mem_def per_def)
    next
      case (Inr ps)
      have d: "dist_kernel_mem cpus lmm cores = Some (Inr (l, ps @ drop cpus cores))" using n r1 x Inr by (simp add: dist_kernel_mem_def per_def)
      show ?thesis using shares_separate [OF assms t p Inr [unfolded per_def]] d by simp
    qed
  qed
qed


section \<open>A machine\<close>

text \<open>64 megabytes, a kernel image from one to two megabytes, a command line and one module.\<close>

definition demo_mbi :: mbinfo_t where
  "demo_mbi = \<lparr>mb_flags = 13, mem_lower = 640, mem_upper = 64512, cmdline = 0x9000, cmdline_len = 12, mods_addr = 0x9100,
     mods = [\<lparr>mod_start = 0x300000, mod_end = 0x310000, mod_string = 0x9200, mod_strlen = 7\<rparr>]\<rparr>"

definition demo_image :: kernel_image where
  "demo_image = \<lparr>ki_start = 0x100000, ki_kimg = 0x100000, ki_end = 0x200000, ki_reg1mb = 0x180000, ki_reg16mb = 0x180020,
     ki_reghigh = 0x180040, ki_kern_mem_reg = (\<lambda>i. 0x180100 + word_of_nat i * 28)\<rparr>"

lemma demo_machine_ok: "machine_ok demo_mbi demo_image"
  by (simp add: machine_ok_def distinct_regions_def demo_mbi_def demo_image_def)

lemma demo_kernel_bytes: "kernel_bytes demo_mbi demo_image = {0x200000 ..< 0x300000} \<union> {0x310000 ..< 0x1000000}"
proof -
  have "{x div 8 * 8 ..< x div 8 * 8 + 8} \<inter> {8 * a ..< 8 * b} = {} \<longleftrightarrow> x \<notin> {8 * a ..< 8 * b}" for a b x :: nat
  proof -
    have A: "x < 8 * a \<longleftrightarrow> x div 8 * 8 + 8 \<le> 8 * a" using words_of_range(2) [of x "8 * a"] by (simp add: mult.commute)
    have B: "8 * b \<le> x \<longleftrightarrow> 8 * b \<le> x div 8 * 8" using words_of_range(1) [of "8 * b" x] by (simp add: mult.commute)
    show ?thesis
    proof
      assume "{x div 8 * 8 ..< x div 8 * 8 + 8} \<inter> {8 * a ..< 8 * b} = {}"
      moreover have "x \<in> {x div 8 * 8 ..< x div 8 * 8 + 8}" by simp
      ultimately show "x \<notin> {8 * a ..< 8 * b}" by blast
    next
      assume "x \<notin> {8 * a ..< 8 * b}"
      then have "x div 8 * 8 + 8 \<le> 8 * a \<or> 8 * b \<le> x div 8 * 8" unfolding A [symmetric] B [symmetric] by auto
      then show "{x div 8 * 8 ..< x div 8 * 8 + 8} \<inter> {8 * a ..< 8 * b} = {}" by auto
    qed
  qed
  from this [of _ "0x20000" "0x40000"] this [of _ "0x60000" "0x62000"]
  have w: "{x div 8 * 8 ..< x div 8 * 8 + 8} \<inter> {0x100000 ..< 0x200000} = {} \<longleftrightarrow> x \<notin> {0x100000 ..< 0x200000}"
    "{x div 8 * 8 ..< x div 8 * 8 + 8} \<inter> {0x300000 ..< 0x310000} = {} \<longleftrightarrow> x \<notin> {0x300000 ..< 0x310000}" for x :: nat by simp_all
  have u: "boot_in_use demo_mbi demo_image = {0x100000 ..< 0x200000} \<union> {0x300000 ..< 0x310000} \<union> ({0x9000 .. 0x900C} \<union> {0x9100 ..< 0x9110} \<union> {0x9200 .. 0x9207})"
    by (auto simp: boot_in_use_def module_bytes_def string_bytes_def demo_mbi_def demo_image_def)
  have "{x div 8 * 8 ..< x div 8 * 8 + 8} \<inter> boot_in_use demo_mbi demo_image = {} \<longleftrightarrow> x \<notin> {0x100000 ..< 0x200000} \<union> {0x300000 ..< 0x310000}"
    if "0x100000 \<le> x" for x
  proof -
    have "0x100000 \<le> x div 8 * 8" using div_le_mono [OF that, of 8] by simp
    then have "{x div 8 * 8 ..< x div 8 * 8 + 8} \<inter> ({0x9000 .. 0x900C} \<union> {0x9100 ..< 0x9110} \<union> {0x9200 .. 0x9207}) = {}" by auto
    then show ?thesis unfolding u using w [of x] by (simp add: Int_Un_distrib)
  qed
  note K = this
  have mu: "unat (mem_upper demo_mbi) = 64512" by (simp add: demo_mbi_def)
  show ?thesis
  proof (rule set_eqI)
    fix x show "x \<in> kernel_bytes demo_mbi demo_image \<longleftrightarrow> x \<in> {0x200000 ..< 0x300000} \<union> {0x310000 ..< 0x1000000}"
    proof (cases "0x100000 \<le> x")
      case True
      show ?thesis unfolding kernel_bytes_def mem_Collect_eq K [OF True] mu using True by auto
    next
      case False
      then show ?thesis by (auto simp: kernel_bytes_def)
    qed
  qed
qed

theorem mb_entry_heap_witness:
  "\<exists>lmm cores n. mb_entry demo_mbi demo_image = Some (Inr (lmm, cores, n)) \<and>
     free_bytes lmm \<union> free_bytes (cores ! 0) = {0x200000 ..< 0x300000} \<union> {0x310000 ..< 0x1000000} \<and> free_bytes (cores ! 0) = {0x200000 ..< 0x240000}"
proof -
  have "case mb_entry demo_mbi demo_image of Some (Inr (lmm, cores, n)) \<Rightarrow> map lr_nodes (cores ! 0) = [[(0x200000, 0x40000)]] | _ \<Rightarrow> False"
    by code_simp
  then obtain lmm cores n where e: "mb_entry demo_mbi demo_image = Some (Inr (lmm, cores, n))"
      and "map lr_nodes (cores ! 0) = [[(0x200000, 0x40000)]]"
    by (auto split: option.splits sum.splits prod.splits)
  then have "free_bytes (cores ! 0) = {0x200000 ..< 0x240000}" by (auto simp: free_bytes_def)
  then show ?thesis using e mb_entry_heap [OF demo_machine_ok] demo_kernel_bytes by auto
qed

theorem dist_pools_separate_witness:
  "\<exists>lmm' cores'. dist_kernel_mem 2 demo_pool [[core_region demo_image 0], [core_region demo_image 1]] = Some (Inr (lmm', cores')) \<and>
     free_bytes (cores' ! 0) = {0x100100 ..< 0x101100} \<and> free_bytes (cores' ! 1) = {0x101100 ..< 0x102100} \<and> separate (lmm' # cores')"
proof -
  have "case dist_kernel_mem 2 demo_pool [[core_region demo_image 0], [core_region demo_image 1]] of
      Some (Inr (lmm', cores')) \<Rightarrow> map lr_nodes (cores' ! 0) = [[(0x100100, 0x1000)]] \<and> map lr_nodes (cores' ! 1) = [[(0x101100, 0x1000)]] | _ \<Rightarrow> False"
    by code_simp
  then obtain lmm' cores' where e: "dist_kernel_mem 2 demo_pool [[core_region demo_image 0], [core_region demo_image 1]] = Some (Inr (lmm', cores'))"
      and "map lr_nodes (cores' ! 0) = [[(0x100100, 0x1000)]]" "map lr_nodes (cores' ! 1) = [[(0x101100, 0x1000)]]"
    by (auto split: option.splits sum.splits prod.splits)
  then have "free_bytes (cores' ! 0) = {0x100100 ..< 0x101100}" "free_bytes (cores' ! 1) = {0x101100 ..< 0x102100}" by (auto simp: free_bytes_def)
  moreover have "separate (demo_pool # [[core_region demo_image 0], [core_region demo_image 1]])"
    by (auto simp: separate_def core_region_def less_Suc_eq nth_Cons')
  ultimately show ?thesis
    using e dist_pools_separate [of demo_pool "[[core_region demo_image 0], [core_region demo_image 1]]" 2] demo_pool_ok
    by (auto simp: gen_inv_def core_region_def region_ok_def)
qed


end
