(* ===== verification/User_Queue.thy ===== *)
theory User_Queue
  imports Simple_Queue
begin

text \<open>
  The wait queue of the user thread library (\<open>user/libthread/queue.c\<close>): a doubly linked list between two
  allocated sentinel nodes. It is translated over a heap of nodes and shown to meet the same contract of a
  FIFO queue as the kernel's queue; the locks of the library then hold the list of their nodes.
\<close>

section \<open>Nodes and queues\<close>

text \<open>The pointers of the nodes are kept in \<open>links\<close> (whose field \<open>thr_f\<close> has no counterpart here).\<close>

record node_heap =
  ktid_f :: "u32 \<Rightarrow> int"
  reject_f :: "u32 \<Rightarrow> int"
  links :: simple_node_heap

record deque_t =
  dhead :: u32
  dtail :: u32

definition node_next :: "u32 \<Rightarrow> node_heap \<Rightarrow> u32" where "node_next n h = next_f (links h) n"
definition node_prev :: "u32 \<Rightarrow> node_heap \<Rightarrow> u32" where "node_prev n h = prev_f (links h) n"

definition put_next :: "u32 \<Rightarrow> u32 \<Rightarrow> node_heap \<Rightarrow> node_heap" where
  "put_next n v h = h\<lparr>links := set_next n v (links h)\<rparr>"

definition put_prev :: "u32 \<Rightarrow> u32 \<Rightarrow> node_heap \<Rightarrow> node_heap" where
  "put_prev n v h = h\<lparr>links := set_prev n v (links h)\<rparr>"

lemmas node_defs [kdefs] = node_next_def node_prev_def put_next_def put_prev_def set_next_def set_prev_def

section \<open>The operations\<close>

text \<open>\<open>h0\<close> and \<open>t0\<close> are the answers of the two calls of \<open>malloc\<close>.\<close>

definition queue_init :: "u32 \<Rightarrow> u32 \<Rightarrow> deque_t \<Rightarrow> node_heap \<Rightarrow> deque_t \<times> node_heap \<times> int" where
  "queue_init h0 t0 d h =
     (let d = d\<lparr>dhead := h0, dtail := t0\<rparr> in
      if dhead d = NULL \<or> dtail d = NULL then (d, h, - 1)
      else let h = put_next (dhead d) (dtail d) h;
               h = put_prev (dhead d) NULL h;
               h = put_prev (dtail d) (dhead d) h;
               h = put_next (dtail d) NULL h
           in (d, h, 0))"

definition enqueue :: "deque_t \<Rightarrow> u32 \<Rightarrow> node_heap \<Rightarrow> node_heap kres" where
  "enqueue d element h =
     (if dtail d = NULL then Inl FAULT
      else let h = put_prev element (node_prev (dtail d) h) h;
               h = put_next element (dtail d) h;
               h = put_next (node_prev (dtail d) h) element h
           in Inr (put_prev (dtail d) element h))"

definition dequeue :: "deque_t \<Rightarrow> node_heap \<Rightarrow> (node_heap \<times> u32) kres" where
  "dequeue d h =
     (if dhead d = NULL then Inl FAULT
      else if node_next (dhead d) h = dtail d then Inr (h, NULL)
      else let element = node_next (dhead d) h;
               h = put_next (dhead d) (node_next (node_next (dhead d) h) h) h;
               h = put_prev (node_next (dhead d) h) (dhead d) h
           in Inr (h, element))"

text \<open>The result carries the sentinels that are given back to \<open>free\<close>.\<close>

definition queue_destroy :: "deque_t \<Rightarrow> node_heap \<Rightarrow> (deque_t \<times> u32 list \<times> int) kres" where
  "queue_destroy d h =
     (if dhead d = NULL then Inl FAULT
      else if node_next (dhead d) h \<noteq> dtail d then Inr (d, [], - 1)
      else Inr (d\<lparr>dhead := NULL, dtail := NULL\<rparr>, [dhead d, dtail d], 0))"

definition queue_is_active :: "deque_t \<Rightarrow> int" where
  "queue_is_active d = (if dhead d = NULL \<or> dtail d = NULL then 0 else 1)"

section \<open>The list a queue represents\<close>

definition uq_rep :: "deque_t \<Rightarrow> node_heap \<Rightarrow> u32 list \<Rightarrow> bool" where
  "uq_rep d h ns \<longleftrightarrow> dll (links h) (dhead d) ns (dtail d) \<and> distinct (dhead d # ns @ [dtail d]) \<and>
     NULL \<notin> set (dhead d # ns @ [dtail d])"

lemma queue_init_rep:
  assumes "queue_init h0 t0 d h = (d', h', 0)" and "h0 \<noteq> t0"
  shows "uq_rep d' h' [] \<and> queue_is_active d' = 1"
  using assms by (auto simp: queue_init_def uq_rep_def queue_is_active_def node_defs Let_def split: if_splits)

lemma enqueue_rep:
  assumes rep: "uq_rep d h ns" and new: "n \<notin> set ns" "n \<noteq> NULL" "n \<noteq> dhead d" "n \<noteq> dtail d"
  shows "\<exists>h'. enqueue d n h = Inr h' \<and> uq_rep d h' (ns @ [n])"
proof -
  from rep have d: "dll (links h) (dhead d) ns (dtail d)" and dist: "distinct (dhead d # ns @ [dtail d])"
    and nn: "dtail d \<noteq> NULL" by (auto simp: uq_rep_def)
  let ?l = "last (dhead d # ns)"
  have p: "prev_f (links h) (dtail d) = ?l" using dll_last [OF d] .
  have ne: "?l \<noteq> n" using new last_in_set [of "dhead d # ns"] by auto
  have "enqueue d n h = Inr (h\<lparr>links := (links h)\<lparr>next_f := (next_f (links h))(n := dtail d, ?l := n),
     prev_f := (prev_f (links h))(n := ?l, dtail d := n)\<rparr>\<rparr>)"
    using new p ne nn by (simp add: enqueue_def node_defs Let_def fun_upd_twist)
  with dll_snoc [OF d dist, of n] new rep show ?thesis by (auto simp: uq_rep_def)
qed

lemma dequeue_empty: "uq_rep d h [] \<Longrightarrow> dequeue d h = Inr (h, NULL)"
  by (auto simp: uq_rep_def dequeue_def node_defs)

lemma dequeue_rep:
  assumes rep: "uq_rep d h (n # ns)"
  shows "\<exists>h'. dequeue d h = Inr (h', n) \<and> uq_rep d h' ns"
proof -
  from rep have d: "dll (links h) (dhead d) (n # ns) (dtail d)" and dist: "distinct (dhead d # n # ns @ [dtail d])"
    and nn: "dhead d \<noteq> NULL" by (auto simp: uq_rep_def)
  have "next_f (links h) n = hd (ns @ [dtail d])" using d by (intro dll_first) simp
  then have "dequeue d h = Inr (h\<lparr>links := (links h)\<lparr>next_f := (next_f (links h))(dhead d := hd (ns @ [dtail d])),
     prev_f := (prev_f (links h))(hd (ns @ [dtail d]) := dhead d)\<rparr>\<rparr>, n)"
    using d dist nn by (auto simp: dequeue_def node_defs Let_def)
  with dll_bypass [OF d dist] rep show ?thesis by (auto simp: uq_rep_def)
qed

lemma queue_destroy_rep:
  "uq_rep d h ns \<Longrightarrow> queue_destroy d h =
     (if ns = [] then Inr (d\<lparr>dhead := NULL, dtail := NULL\<rparr>, [dhead d, dtail d], 0) else Inr (d, [], - 1))"
  by (cases ns) (auto simp: uq_rep_def queue_destroy_def node_defs)

text \<open>A destroyed queue is not active, and using it is a wild access.\<close>

lemma queue_destroyed:
  assumes "queue_destroy d h = Inr (d', fs, 0)"
  shows "queue_is_active d' = 0" "enqueue d' n h = Inl FAULT" "dequeue d' h = Inl FAULT"
  using assms by (auto simp: queue_destroy_def queue_is_active_def enqueue_def dequeue_def split: if_splits)

text \<open>The queue meets the contract of the kernel's queues: elements come out in arrival order.\<close>

definition uq_enq :: "deque_t \<Rightarrow> u32 \<Rightarrow> node_heap \<Rightarrow> node_heap" where
  "uq_enq d n h = (case enqueue d n h of Inr h' \<Rightarrow> h' | Inl _ \<Rightarrow> h)"

definition uq_deq :: "deque_t \<Rightarrow> node_heap \<Rightarrow> node_heap \<times> u32 option" where
  "uq_deq d h = (case dequeue d h of Inr (h', r) \<Rightarrow> (h', if r = NULL then None else Some r) | Inl _ \<Rightarrow> (h, None))"

interpretation wait_queue: fifo_queue "uq_rep d" "uq_enq d" "uq_deq d" "\<lambda>n. n \<noteq> NULL \<and> n \<noteq> dhead d \<and> n \<noteq> dtail d" for d
proof unfold_locales
  fix h ns n assume "uq_rep d h ns" "n \<notin> set ns" "n \<noteq> NULL \<and> n \<noteq> dhead d \<and> n \<noteq> dtail d"
  then show "uq_rep d (uq_enq d n h) (ns @ [n])" using enqueue_rep [of d h ns n] by (auto simp: uq_enq_def)
next
  fix h assume "uq_rep d h []"
  then show "uq_deq d h = (h, None)" by (simp add: uq_deq_def dequeue_empty)
next
  fix h n ns assume "uq_rep d h (n # ns)"
  moreover from this have "n \<noteq> NULL" by (auto simp: uq_rep_def)
  ultimately show "\<exists>h'. uq_deq d h = (h', Some n) \<and> uq_rep d h' ns" using dequeue_rep [of d h n ns] by (auto simp: uq_deq_def)
qed

end
