(* ===== verification/User_Mutex.thy ===== *)
theory User_Mutex
  imports User_Queue "HOL-Library.Sublist"
begin

text \<open>
  The mutex of the user thread library (\<open>user/libthread/mutex.c\<close>). The code between \<open>SPINLOCK_LOCK\<close> and
  \<open>SPINLOCK_UNLOCK\<close> of the inner lock is one step; a waiting thread polls the \<open>reject\<close> flag of its node
  between calls of \<open>yield\<close>. Threads are named by their kernel ids, the value \<open>thr_getktid\<close> returns.
\<close>

section \<open>Operations\<close>

record unode_t =
  ktid :: int
  reject :: int

record umutex_t =
  lock_available :: int       \<comment> \<open>1 unlocked, 0 locked, -1 destroyed\<close>
  waiters :: "u32 list"       \<comment> \<open>the nodes in \<open>deque\<close> (theory \<open>User_Queue\<close>)\<close>

text \<open>\<open>ok\<close> is whether \<open>queue_init\<close> got its two sentinels.\<close>

definition umutex_init :: "bool \<Rightarrow> umutex_t \<Rightarrow> umutex_t \<times> int" where
  "umutex_init ok mp = (mp\<lparr>lock_available := 1, waiters := []\<rparr>, if ok then 0 else - 1)"

text \<open>\<open>mutex_lock\<close> up to its loop; \<open>tmp\<close> is the node that \<open>malloc\<close> returned (the code repeats the call until
  it gets one). \<open>True\<close>: the caller has the mutex; \<open>False\<close>: it polls its node.\<close>

definition umutex_lock ::
  "u32 \<Rightarrow> int \<Rightarrow> umutex_t \<Rightarrow> (u32 \<rightharpoonup> unode_t) \<Rightarrow> (umutex_t \<times> (u32 \<rightharpoonup> unode_t) \<times> bool) kres" where
  "umutex_lock tmp kt mp ns =
     (if lock_available mp < 0 then Inl PANIC
      else if lock_available mp \<noteq> 0 then Inr (mp\<lparr>lock_available := 0\<rparr>, ns, True)
      else Inr (mp\<lparr>waiters := q_enqueue (waiters mp) tmp\<rparr>, ns(tmp \<mapsto> \<lparr>ktid = kt, reject = 0\<rparr>), False))"

datatype unlock_result =
    Try_again          \<comment> \<open>the mutex is not locked: yield and look again\<close>
  | Released
  | Handed_to int      \<comment> \<open>the mutex stays locked for this thread, to which the caller yields\<close>

text \<open>The body of \<open>mutex_unlock\<close> after its first test, which is not repeated when the loop goes round.\<close>

definition umutex_unlock_locked ::
  "umutex_t \<Rightarrow> (u32 \<rightharpoonup> unode_t) \<Rightarrow> (umutex_t \<times> (u32 \<rightharpoonup> unode_t) \<times> unlock_result) kres" where
  "umutex_unlock_locked mp ns =
     (if lock_available mp = 1 then Inr (mp, ns, Try_again)
      else if lock_available mp < 0 then Inl FAULT
      else case q_dequeue (waiters mp) of
             (None, _) \<Rightarrow> Inr (mp\<lparr>lock_available := 1\<rparr>, ns, Released)
           | (Some tmp, q) \<Rightarrow> kbind (kderef ns tmp) (\<lambda>v.
               Inr (mp\<lparr>waiters := q\<rparr>, ns(tmp \<mapsto> v\<lparr>reject := 1\<rparr>), Handed_to (ktid v))))"

definition umutex_unlock ::
  "umutex_t \<Rightarrow> (u32 \<rightharpoonup> unode_t) \<Rightarrow> (umutex_t \<times> (u32 \<rightharpoonup> unode_t) \<times> unlock_result) kres" where
  "umutex_unlock mp ns = (if lock_available mp < 0 then Inl PANIC else umutex_unlock_locked mp ns)"

text \<open>One attempt of \<open>mutex_destroy\<close> (\<open>first\<close>: the test for a destroyed mutex comes only once); \<open>None\<close>: the
  mutex is locked or has waiters, yield and look again. Once the mutex was found unlocked the loop that
  waits for the queue does not look at \<open>lock_available\<close> again.\<close>

definition umutex_destroy :: "bool \<Rightarrow> bool \<Rightarrow> umutex_t \<Rightarrow> (umutex_t option \<times> bool) kres" where
  "umutex_destroy first seen_unlocked mp =
     (if first \<and> lock_available mp < 0 then Inl PANIC
      else if \<not> seen_unlocked \<and> lock_available mp \<noteq> 1 then Inr (None, False)
      else if waiters mp \<noteq> [] then Inr (None, True)
      else Inr (Some (mp\<lparr>lock_available := - 1\<rparr>), True))"

section \<open>Threads using the mutex\<close>

datatype upc =
    Idle                 \<comment> \<open>not in a call\<close>
  | Polling u32          \<comment> \<open>in \<open>while(!tmp->reject) yield(-1)\<close>\<close>
  | Holding              \<comment> \<open>\<open>mutex_lock\<close> has returned\<close>

record um_sys =
  umtx :: umutex_t
  unodes :: "u32 \<rightharpoonup> unode_t"
  upc :: "int \<Rightarrow> upc"

datatype um_event = Arrives int | Enters int | Leaves int

inductive um_step :: "um_sys \<Rightarrow> um_event \<Rightarrow> um_sys \<Rightarrow> bool" where
  lock: "\<lbrakk>upc s t = Idle; unodes s tmp = None; tmp \<noteq> NULL; umutex_lock tmp t (umtx s) (unodes s) = Inr (m, ns, got)\<rbrakk> \<Longrightarrow>
     um_step s (Arrives t) (s\<lparr>umtx := m, unodes := ns, upc := (upc s)(t := if got then Holding else Polling tmp)\<rparr>)"
| poll: "\<lbrakk>upc s t = Polling tmp; unodes s tmp = Some v; reject v \<noteq> 0\<rbrakk> \<Longrightarrow>
     um_step s (Enters t) (s\<lparr>unodes := (unodes s)(tmp := None), upc := (upc s)(t := Holding)\<rparr>)"
| unlock: "\<lbrakk>upc s t = Holding; umutex_unlock (umtx s) (unodes s) = Inr (m, ns, r); r \<noteq> Try_again\<rbrakk> \<Longrightarrow>
     um_step s (Leaves t) (s\<lparr>umtx := m, unodes := ns, upc := (upc s)(t := Idle)\<rparr>)"

definition um_init :: um_sys where
  "um_init = \<lparr>umtx = fst (umutex_init True \<lparr>lock_available = 0, waiters = []\<rparr>), unodes = Map.empty, upc = (\<lambda>_. Idle)\<rparr>"

inductive um_run :: "um_event list \<Rightarrow> um_sys \<Rightarrow> bool" where
  start: "um_run [] um_init"
| more: "\<lbrakk>um_run es s; um_step s e s'\<rbrakk> \<Longrightarrow> um_run (es @ [e]) s'"

text \<open>The specification: threads arrive in some order and leave in that order, and only the thread at the
  front is inside.\<close>

definition arrivals :: "um_event list \<Rightarrow> int list" where
  "arrivals es = concat (map (\<lambda>e. case e of Arrives t \<Rightarrow> [t] | _ \<Rightarrow> []) es)"

definition departures :: "um_event list \<Rightarrow> int list" where
  "departures es = concat (map (\<lambda>e. case e of Leaves t \<Rightarrow> [t] | _ \<Rightarrow> []) es)"

lemma arrivals_simps [simp]: "arrivals [] = []" "arrivals (es @ [Arrives t]) = arrivals es @ [t]"
  "arrivals (es @ [Enters t]) = arrivals es" "arrivals (es @ [Leaves t]) = arrivals es"
  by (simp_all add: arrivals_def)

lemma departures_simps [simp]: "departures [] = []" "departures (es @ [Arrives t]) = departures es"
  "departures (es @ [Enters t]) = departures es" "departures (es @ [Leaves t]) = departures es @ [t]"
  by (simp_all add: departures_def)

section \<open>The queue of threads\<close>

text \<open>\<open>queued s q\<close>: the threads in the mutex are \<open>q\<close>, the front one holds it or has been handed it, the others
  poll the nodes of the queue in that order.\<close>

definition in_front :: "um_sys \<Rightarrow> int \<Rightarrow> bool" where
  "in_front s t \<longleftrightarrow> upc s t = Holding \<or>
     (\<exists>n v. upc s t = Polling n \<and> n \<notin> set (waiters (umtx s)) \<and> unodes s n = Some v \<and> reject v \<noteq> 0)"

definition behind :: "um_sys \<Rightarrow> int \<Rightarrow> u32 \<Rightarrow> bool" where
  "behind s t n \<longleftrightarrow> upc s t = Polling n \<and> unodes s n = Some \<lparr>ktid = t, reject = 0\<rparr>"

primrec queued :: "um_sys \<Rightarrow> int list \<Rightarrow> bool" where
  "queued s [] \<longleftrightarrow> lock_available (umtx s) = 1 \<and> waiters (umtx s) = [] \<and> (\<forall>u. upc s u = Idle)"
| "queued s (t # r) \<longleftrightarrow> lock_available (umtx s) = 0 \<and> in_front s t \<and> list_all2 (behind s) r (waiters (umtx s)) \<and>
     distinct (t # r) \<and> distinct (waiters (umtx s)) \<and> (\<forall>u. upc s u = Idle \<longleftrightarrow> u \<notin> set (t # r))"

lemma queued_init: "queued um_init []"
  by (simp add: um_init_def umutex_init_def)

lemma behind_index:
  assumes "list_all2 (behind s) r w" and "u \<in> set r"
  shows "\<exists>n \<in> set w. behind s u n"
  using assms by (auto simp: list_all2_conv_all_nth in_set_conv_nth) (metis nth_mem)

lemma behind_nodes:
  assumes "list_all2 (behind s) r w" and "n \<in> set w"
  shows "\<exists>u \<in> set r. behind s u n"
  using assms by (auto simp: list_all2_conv_all_nth in_set_conv_nth) (metis nth_mem)

lemma behind_cong:
  assumes "list_all2 (behind s) r w" and "\<And>u n. u \<in> set r \<Longrightarrow> n \<in> set w \<Longrightarrow> behind s u n \<Longrightarrow> behind s' u n"
  shows "list_all2 (behind s') r w"
  using assms(1) by (rule list.rel_mono_strong) (use assms(2) in blast)

text \<open>Each kind of step moves the queue.\<close>

lemma queued_lock:
  assumes q: "queued s q" and t: "upc s t = Idle" and tmp: "unodes s tmp = None"
    and l: "umutex_lock tmp t (umtx s) (unodes s) = Inr (m, ns, got)"
    and s': "s' = s\<lparr>umtx := m, unodes := ns, upc := (upc s)(t := if got then Holding else Polling tmp)\<rparr>"
  shows "queued s' (q @ [t])"
proof (cases q)
  case Nil
  then show ?thesis using q t l by (auto simp: umutex_lock_def in_front_def s')
next
  case (Cons h r)
  have m: "m = (umtx s)\<lparr>waiters := waiters (umtx s) @ [tmp]\<rparr>" "ns = (unodes s)(tmp \<mapsto> \<lparr>ktid = t, reject = 0\<rparr>)" "\<not> got"
    using q l Cons by (auto simp: umutex_lock_def)
  have b: "list_all2 (behind s) r (waiters (umtx s))" and f: "in_front s h" and ht: "t \<noteq> h" "t \<notin> set r" using q t Cons by auto
  have new: "tmp \<notin> set (waiters (umtx s))" using behind_nodes [OF b, of tmp] tmp by (auto simp: behind_def)
  have "list_all2 (behind s') r (waiters (umtx s))"
    by (rule behind_cong [OF b]) (use ht tmp in \<open>auto simp: behind_def s' m\<close>)
  moreover have "behind s' t tmp" using m(2,3) by (simp add: behind_def s')
  moreover have "in_front s' h"
  proof (cases "upc s h = Holding")
    case False
    then obtain n v where "upc s h = Polling n" "n \<notin> set (waiters (umtx s))" "unodes s n = Some v" "reject v \<noteq> 0"
      using f by (auto simp: in_front_def)
    moreover from this have "n \<noteq> tmp" using tmp by auto
    ultimately show ?thesis using ht by (simp add: in_front_def s' m)
  qed (use ht in \<open>simp add: in_front_def s'\<close>)
  ultimately show ?thesis using q Cons m new ht by (auto simp: s' list_all2_appendI)
qed

lemma queued_poll:
  assumes q: "queued s q" and t: "upc s t = Polling n" "unodes s n = Some v" "reject v \<noteq> 0"
    and s': "s' = s\<lparr>unodes := (unodes s)(n := None), upc := (upc s)(t := Holding)\<rparr>"
  shows "queued s' q \<and> hd q = t"
proof (cases q)
  case Nil
  then show ?thesis using q t by auto
next
  case (Cons h r)
  have b: "list_all2 (behind s) r (waiters (umtx s))" and f: "in_front s h" and d: "h \<notin> set r" using q Cons by auto
  have "t \<notin> set r" using behind_index [OF b, of t] t by (auto simp: behind_def)
  moreover have "t \<in> set q" using q t(1) Cons by (metis queued.simps(2) upc.distinct(1))
  ultimately have th: "t = h" using Cons by simp
  have "n \<notin> set (waiters (umtx s))" using behind_nodes [OF b, of n] t by (auto simp: behind_def)
  then have "list_all2 (behind s') r (waiters (umtx s))"
    using d th by (intro behind_cong [OF b]) (auto simp: behind_def s')
  then show ?thesis using q Cons th by (auto simp: s' in_front_def)
qed

lemma queued_unlock:
  assumes q: "queued s q" and t: "upc s t = Holding" and u: "umutex_unlock (umtx s) (unodes s) = Inr (m, ns, r)"
    and s': "s' = s\<lparr>umtx := m, unodes := ns, upc := (upc s)(t := Idle)\<rparr>"
  shows "q = t # tl q \<and> queued s' (tl q)"
proof (cases q)
  case Nil
  then show ?thesis using q t by auto
next
  case (Cons h rs)
  have b: "list_all2 (behind s) rs (waiters (umtx s))" and d: "h \<notin> set rs" and la: "lock_available (umtx s) = 0" using q Cons by auto
  have "t \<notin> set rs" using behind_index [OF b, of t] t by (auto simp: behind_def)
  moreover have "t \<in> set q" using q t Cons by (metis queued.simps(2) upc.distinct(3))
  ultimately have th: "t = h" using Cons by simp
  show ?thesis
  proof (cases rs)
    case Nil
    then have wn: "waiters (umtx s) = []" and idle: "\<forall>u. upc s u = Idle \<longleftrightarrow> u \<noteq> t" using b q Cons th by auto
    then have "m = (umtx s)\<lparr>lock_available := 1\<rparr>" using u la by (simp add: umutex_unlock_def umutex_unlock_locked_def)
    then show ?thesis using wn idle Nil Cons th by (simp add: s')
  next
    case (Cons h2 r2)
    then obtain n w where w: "waiters (umtx s) = n # w" "behind s h2 n" "list_all2 (behind s) r2 w" using b by (auto simp: list_all2_Cons1)
    have m: "m = (umtx s)\<lparr>waiters := w\<rparr>" "ns = (unodes s)(n \<mapsto> \<lparr>ktid = h2, reject = 1\<rparr>)"
      using u la w by (auto simp: umutex_unlock_def umutex_unlock_locked_def behind_def)
    have nw: "n \<notin> set w" using q w \<open>q = h # rs\<close> by simp
    have "list_all2 (behind s') r2 w"
    proof (rule behind_cong [OF w(3)])
      fix u k assume "u \<in> set r2" "k \<in> set w" "behind s u k"
      moreover from this have "k \<noteq> n" "u \<noteq> t" using nw d th Cons by auto
      ultimately show "behind s' u k" by (simp add: behind_def s' m)
    qed
    moreover have "h2 \<noteq> t" using d th Cons by auto
    then have "in_front s' h2" using w(2) nw by (simp add: in_front_def behind_def s' m)
    moreover have "\<forall>u. upc s' u = Idle \<longleftrightarrow> u \<notin> set rs" "distinct rs" using q \<open>q = h # rs\<close> th by (auto simp: s')
    moreover have "umtx s' = (umtx s)\<lparr>waiters := w\<rparr>" "distinct w" using q \<open>q = h # rs\<close> w(1) by (simp_all add: s' m)
    ultimately show ?thesis using la th \<open>q = h # rs\<close> Cons by simp
  qed
qed

text \<open>The threads inside are the arrivals that have not left.\<close>

lemma um_run_queued: "um_run es s \<Longrightarrow> \<exists>q. queued s q \<and> arrivals es = departures es @ q"
proof (induction rule: um_run.induct)
  case start
  then show ?case using queued_init by auto
next
  case (more es s e s')
  then obtain q where q: "queued s q" "arrivals es = departures es @ q" by blast
  from more.hyps(2) show ?case
  proof (cases rule: um_step.cases)
    case (lock t tmp m ns got)
    then have "queued s' (q @ [t])" using queued_lock [OF q(1)] by blast
    then show ?thesis using q(2) lock(1) by auto
  next
    case (poll t tmp v)
    then show ?thesis using queued_poll [OF q(1)] q(2) by auto
  next
    case (unlock t m ns r)
    then have "q = t # tl q \<and> queued s' (tl q)" using queued_unlock [OF q(1)] by blast
    then show ?thesis using q(2) unlock(1) by (intro exI [of _ "tl q"]) (metis append_Cons append_Nil append_assoc arrivals_simps(4) departures_simps(4))
  qed
qed

lemma queued_holder: "queued s q \<Longrightarrow> upc s t = Holding \<Longrightarrow> q \<noteq> [] \<and> hd q = t"
proof (cases q)
  case (Cons h r)
  assume q: "queued s q" and t: "upc s t = Holding"
  have b: "list_all2 (behind s) r (waiters (umtx s))" using q Cons by simp
  have "t \<notin> set r" using behind_index [OF b, of t] t by (auto simp: behind_def)
  moreover have "t \<in> set q" using q t Cons by (metis queued.simps(2) upc.distinct(3))
  ultimately show ?thesis using Cons by simp
qed simp

text \<open>No unlock panics or waits, and every queue moves: the front thread can take a step.\<close>

lemma queued_unlock_ok:
  assumes "queued s q" and "upc s t = Holding"
  shows "\<exists>m ns r. umutex_unlock (umtx s) (unodes s) = Inr (m, ns, r) \<and> r \<noteq> Try_again"
proof -
  obtain h r where q: "q = h # r" using queued_holder [OF assms] by (cases q) auto
  show ?thesis
  proof (cases "waiters (umtx s)")
    case Nil
    then show ?thesis using assms q by (simp add: umutex_unlock_def umutex_unlock_locked_def)
  next
    case (Cons n w)
    then obtain u where "behind s u n" using assms(1) q by (auto simp: list_all2_Cons2)
    then show ?thesis using assms(1) q Cons by (simp add: umutex_unlock_def umutex_unlock_locked_def behind_def)
  qed
qed

section \<open>Properties\<close>

text \<open>C24: the mutex is a fair lock. In every run of any number of threads, the threads leave the mutex in
  exactly the order in which they called \<open>mutex_lock\<close>; at most one thread, the first one that has not left,
  holds it at a time; and while some thread has not left, the first one can take its next step (enter, or
  leave without a panic or a wait), so none is left behind.\<close>

theorem umutex_fair:
  assumes "um_run es s"
  shows "prefix (departures es) (arrivals es) \<and>
     (\<forall>t. upc s t = Holding \<longrightarrow> prefix (departures es @ [t]) (arrivals es)) \<and>
     (departures es \<noteq> arrivals es \<longrightarrow> (\<exists>s'. um_step s (Enters (arrivals es ! length (departures es))) s' \<or>
        um_step s (Leaves (arrivals es ! length (departures es))) s'))"
proof -
  obtain q where q: "queued s q" "arrivals es = departures es @ q" using um_run_queued [OF assms] by blast
  have "prefix (departures es @ [t]) (arrivals es)" if "upc s t = Holding" for t
    using queued_holder [OF q(1) that] q(2) by (cases q) (auto simp: prefix_def)
  moreover have "\<exists>s'. um_step s (Enters (arrivals es ! length (departures es))) s' \<or>
     um_step s (Leaves (arrivals es ! length (departures es))) s'" if "departures es \<noteq> arrivals es"
  proof -
    from that q obtain h r where h: "q = h # r" by (cases q) auto
    then have nth: "arrivals es ! length (departures es) = h" using q(2) by simp
    have "in_front s h" using q(1) h by simp
    then consider "upc s h = Holding" | n v where "upc s h = Polling n" "unodes s n = Some v" "reject v \<noteq> 0" by (auto simp: in_front_def)
    then show ?thesis
    proof cases
      case 1
      from queued_unlock_ok [OF q(1) 1] obtain m ns r where "umutex_unlock (umtx s) (unodes s) = Inr (m, ns, r)" "r \<noteq> Try_again" by blast
      from um_step.unlock [OF 1 this] show ?thesis using nth by metis
    next
      case 2
      from um_step.poll [OF this] show ?thesis using nth by metis
    qed
  qed
  ultimately show ?thesis using q(2) by (simp add: prefix_def)
qed

text \<open>Two threads: the second waits for the first, which then leaves.\<close>

lemma um_run_two: "\<exists>s. um_run [Arrives 1, Arrives 2, Leaves 1] s"
proof -
  let ?s1 = "um_init\<lparr>umtx := \<lparr>lock_available = 0, waiters = []\<rparr>, unodes := Map.empty, upc := (upc um_init)(1 := Holding)\<rparr>"
  have "um_step um_init (Arrives 1) (um_init\<lparr>umtx := \<lparr>lock_available = 0, waiters = []\<rparr>, unodes := Map.empty,
      upc := (upc um_init)(1 := if True then Holding else Polling 8)\<rparr>)"
    by (rule um_step.lock) (simp_all add: um_init_def umutex_init_def umutex_lock_def)
  from um_run.more [OF um_run.start this] have r1: "um_run [Arrives 1] ?s1" by simp
  let ?s2 = "?s1\<lparr>umtx := \<lparr>lock_available = 0, waiters = [8]\<rparr>, unodes := [8 \<mapsto> \<lparr>ktid = 2, reject = 0\<rparr>], upc := (upc ?s1)(2 := Polling 8)\<rparr>"
  have "um_step ?s1 (Arrives 2) (?s1\<lparr>umtx := \<lparr>lock_available = 0, waiters = [8]\<rparr>, unodes := [8 \<mapsto> \<lparr>ktid = 2, reject = 0\<rparr>],
      upc := (upc ?s1)(2 := if False then Holding else Polling 8)\<rparr>)"
    by (rule um_step.lock) (simp_all add: um_init_def umutex_lock_def)
  from um_run.more [OF r1 this] have r2: "um_run [Arrives 1, Arrives 2] ?s2" by simp
  have "\<exists>s. um_step ?s2 (Leaves 1) s"
    by (rule exI, rule um_step.unlock) (simp_all add: um_init_def umutex_unlock_def umutex_unlock_locked_def, simp)
  with r2 show ?thesis using um_run.more [OF r2] by fastforce
qed

theorem umutex_fair_witness:
  "\<exists>s. um_run [Arrives 1, Arrives 2, Leaves 1] s \<and> (\<exists>s'. um_step s (Enters 2) s' \<or> um_step s (Leaves 2) s')"
proof -
  obtain s where s: "um_run [Arrives 1, Arrives 2, Leaves 1] s" using um_run_two by blast
  have "arrivals [Arrives 1, Arrives 2, Leaves 1] = [1, 2]" "departures [Arrives 1, Arrives 2, Leaves 1] = [1]"
    by (simp_all add: arrivals_def departures_def)
  with umutex_fair [OF s] s show ?thesis by auto
qed

end
