(* ===== verification/User_Cond.thy ===== *)
theory User_Cond
  imports User_Mutex
begin

text \<open>
  Condition variables of the user thread library (\<open>user/libthread/cond_var.c\<close>). The code under \<open>cv->mutex\<close> is
  not interrupted by other code under it (theory \<open>User_Mutex\<close>), but a thread that signals still holds that mutex while it
  calls \<open>make_runnable\<close>, and the thread it has just taken from the queue runs on meanwhile. The two system
  calls are used as documented: \<open>deschedule\<close> tests \<open>*reject\<close> and blocks in one step with respect to
  \<open>make_runnable\<close>, which makes a descheduled thread runnable and has no effect on another one.
\<close>

section \<open>Operations\<close>

record ucond_t =
  cactive :: bool            \<comment> \<open>\<open>queue_is_active(&cv->deque)\<close>\<close>
  cwaiters :: "u32 list"     \<comment> \<open>the nodes in \<open>deque\<close>\<close>

definition ucond_init :: "bool \<Rightarrow> bool \<Rightarrow> ucond_t \<Rightarrow> ucond_t \<times> int" where
  "ucond_init mutex_ok queue_ok cv =
     (cv\<lparr>cactive := queue_ok, cwaiters := []\<rparr>, if mutex_ok \<and> queue_ok then 0 else - 1)"

text \<open>One attempt of \<open>cond_destroy\<close>; \<open>None\<close>: threads are waiting, yield and look again.\<close>

definition ucond_destroy :: "bool \<Rightarrow> ucond_t \<Rightarrow> ucond_t option kres" where
  "ucond_destroy first cv =
     (if \<not> cactive cv then Inl (if first then PANIC else FAULT)
      else if cwaiters cv \<noteq> [] then Inr None
      else Inr (Some (cv\<lparr>cactive := False\<rparr>)))"

text \<open>\<open>cond_wait\<close> up to its loop (where it also unlocks the caller's mutex).\<close>

definition ucond_wait :: "u32 \<Rightarrow> int \<Rightarrow> ucond_t \<Rightarrow> (u32 \<rightharpoonup> unode_t) \<Rightarrow> (ucond_t \<times> (u32 \<rightharpoonup> unode_t)) kres" where
  "ucond_wait tmp kt cv ns =
     (if \<not> cactive cv then Inl PANIC
      else Inr (cv\<lparr>cwaiters := q_enqueue (cwaiters cv) tmp\<rparr>, ns(tmp \<mapsto> \<lparr>ktid = kt, reject = 0\<rparr>)))"

text \<open>Take one thread from the queue: the body of \<open>cond_signal\<close>, and of the loop of \<open>cond_broadcast\<close>.\<close>

definition ucond_take :: "ucond_t \<Rightarrow> (u32 \<rightharpoonup> unode_t) \<Rightarrow> (ucond_t \<times> (u32 \<rightharpoonup> unode_t) \<times> int option) kres" where
  "ucond_take cv ns =
     (case q_dequeue (cwaiters cv) of
        (None, _) \<Rightarrow> Inr (cv, ns, None)
      | (Some tmp, q) \<Rightarrow> kbind (kderef ns tmp) (\<lambda>v.
          Inr (cv\<lparr>cwaiters := q\<rparr>, ns(tmp \<mapsto> v\<lparr>reject := 1\<rparr>), Some (ktid v))))"

definition ucond_signal :: "ucond_t \<Rightarrow> (u32 \<rightharpoonup> unode_t) \<Rightarrow> (ucond_t \<times> (u32 \<rightharpoonup> unode_t) \<times> int option) kres" where
  "ucond_signal cv ns = (if \<not> cactive cv then Inl PANIC else ucond_take cv ns)"

text \<open>The loop of \<open>cond_broadcast\<close> without its calls of \<open>make_runnable\<close>: the threads it wakes, in order.\<close>

fun ucond_drain :: "u32 list \<Rightarrow> (u32 \<rightharpoonup> unode_t) \<Rightarrow> ((u32 \<rightharpoonup> unode_t) \<times> int list) kres" where
  "ucond_drain [] ns = Inr (ns, [])"
| "ucond_drain (tmp # q) ns =
     kbind (kderef ns tmp) (\<lambda>v.
     kbind (ucond_drain q (ns(tmp \<mapsto> v\<lparr>reject := 1\<rparr>))) (\<lambda>(ns, us). Inr (ns, ktid v # us)))"

definition ucond_broadcast :: "ucond_t \<Rightarrow> (u32 \<rightharpoonup> unode_t) \<Rightarrow> (ucond_t \<times> (u32 \<rightharpoonup> unode_t) \<times> int list) kres" where
  "ucond_broadcast cv ns =
     (if \<not> cactive cv then Inl PANIC
      else kbind (ucond_drain (cwaiters cv) ns) (\<lambda>(ns, us). Inr (cv\<lparr>cwaiters := []\<rparr>, ns, us)))"

section \<open>Threads using the condition variable\<close>

datatype cpc =
    Away                     \<comment> \<open>not in a call\<close>
  | At_reject u32            \<comment> \<open>about to test \<open>!tmp->reject\<close>\<close>
  | At_deschedule u32        \<comment> \<open>about to call \<open>deschedule(&tmp->reject)\<close>\<close>
  | Descheduled u32          \<comment> \<open>blocked in the kernel\<close>
  | Waking int bool          \<comment> \<open>holds \<open>cv->mutex\<close>, about to call \<open>make_runnable\<close>; \<open>True\<close>: in \<open>cond_broadcast\<close>\<close>
  | Draining                 \<comment> \<open>holds \<open>cv->mutex\<close>, about to dequeue in the loop of \<open>cond_broadcast\<close>\<close>

record cv_sys =
  cvar :: ucond_t
  cnodes :: "u32 \<rightharpoonup> unode_t"
  cpc :: "int \<Rightarrow> cpc"

definition cgoto :: "int \<Rightarrow> cpc \<Rightarrow> cv_sys \<Rightarrow> cv_sys" where
  "cgoto t p s = s\<lparr>cpc := (cpc s)(t := p)\<rparr>"

definition has_cv_mutex :: "cpc \<Rightarrow> bool" where
  "has_cv_mutex p = (case p of Waking u b \<Rightarrow> True | Draining \<Rightarrow> True | _ \<Rightarrow> False)"

definition cv_free :: "cv_sys \<Rightarrow> bool" where
  "cv_free s \<longleftrightarrow> (\<forall>t. \<not> has_cv_mutex (cpc s t))"

text \<open>What \<open>make_runnable\<close> does to the thread that is waked, by the contract of the system call: the kernel finds the thread on
  whatever core it is. The kernel's own search does so when the number of workers is odd (theory \<open>Core_Search\<close>).\<close>

definition kernel_make_runnable :: "int \<Rightarrow> cv_sys \<Rightarrow> cv_sys" where
  "kernel_make_runnable u s = (case cpc s u of Descheduled n \<Rightarrow> cgoto u (At_reject n) s | _ \<Rightarrow> s)"

datatype cv_event = Waits int | Wakes int | All_waked | Silent

inductive cv_step :: "cv_sys \<Rightarrow> cv_event \<Rightarrow> cv_sys \<Rightarrow> bool" where
  wait: "\<lbrakk>cpc s t = Away; cv_free s; cnodes s tmp = None; tmp \<noteq> NULL; ucond_wait tmp t (cvar s) (cnodes s) = Inr (c, ns)\<rbrakk> \<Longrightarrow>
     cv_step s (Waits t) (cgoto t (At_reject tmp) (s\<lparr>cvar := c, cnodes := ns\<rparr>))"
| test: "\<lbrakk>cpc s t = At_reject n; cnodes s n = Some v; reject v = 0\<rbrakk> \<Longrightarrow>
     cv_step s Silent (cgoto t (At_deschedule n) s)"
| leave: "\<lbrakk>cpc s t = At_reject n; cnodes s n = Some v; reject v \<noteq> 0\<rbrakk> \<Longrightarrow>
     cv_step s Silent (cgoto t Away (s\<lparr>cnodes := (cnodes s)(n := None)\<rparr>))"
| deschedule: "\<lbrakk>cpc s t = At_deschedule n; cnodes s n = Some v\<rbrakk> \<Longrightarrow>
     cv_step s Silent (cgoto t (if reject v \<noteq> 0 then At_reject n else Descheduled n) s)"
| signal: "\<lbrakk>cpc s t = Away; cv_free s; ucond_signal (cvar s) (cnodes s) = Inr (c, ns, Some u)\<rbrakk> \<Longrightarrow>
     cv_step s (Wakes u) (cgoto t (Waking u False) (s\<lparr>cvar := c, cnodes := ns\<rparr>))"
| broadcast: "\<lbrakk>cpc s t = Away; cv_free s; cactive (cvar s)\<rbrakk> \<Longrightarrow> cv_step s Silent (cgoto t Draining s)"
| drain: "\<lbrakk>cpc s t = Draining; ucond_take (cvar s) (cnodes s) = Inr (c, ns, Some u)\<rbrakk> \<Longrightarrow>
     cv_step s (Wakes u) (cgoto t (Waking u True) (s\<lparr>cvar := c, cnodes := ns\<rparr>))"
| drained: "\<lbrakk>cpc s t = Draining; ucond_take (cvar s) (cnodes s) = Inr (c, ns, None)\<rbrakk> \<Longrightarrow>
     cv_step s All_waked (cgoto t Away s)"
| make_runnable: "cpc s t = Waking u b \<Longrightarrow>
     cv_step s Silent (cgoto t (if b then Draining else Away) (kernel_make_runnable u s))"
| spurious: "cpc s t = Descheduled n \<Longrightarrow> cv_step s Silent (cgoto t (At_reject n) s)"

definition cv_init :: cv_sys where
  "cv_init = \<lparr>cvar = fst (ucond_init True True \<lparr>cactive = False, cwaiters = []\<rparr>), cnodes = Map.empty, cpc = (\<lambda>_. Away)\<rparr>"

inductive cv_run :: "cv_event list \<Rightarrow> cv_sys \<Rightarrow> bool" where
  start: "cv_run [] cv_init"
| more: "\<lbrakk>cv_run es s; cv_step s e s'\<rbrakk> \<Longrightarrow> cv_run (es @ [e]) s'"

definition waited :: "cv_event list \<Rightarrow> int list" where
  "waited es = concat (map (\<lambda>e. case e of Waits t \<Rightarrow> [t] | _ \<Rightarrow> []) es)"

definition waked :: "cv_event list \<Rightarrow> int list" where
  "waked es = concat (map (\<lambda>e. case e of Wakes t \<Rightarrow> [t] | _ \<Rightarrow> []) es)"

lemma waited_simps [simp]: "waited [] = []" "waited (es @ [Waits t]) = waited es @ [t]"
  "waited (es @ [Wakes t]) = waited es" "waited (es @ [All_waked]) = waited es" "waited (es @ [Silent]) = waited es"
  by (simp_all add: waited_def)

lemma waked_simps [simp]: "waked [] = []" "waked (es @ [Waits t]) = waked es"
  "waked (es @ [Wakes t]) = waked es @ [t]" "waked (es @ [All_waked]) = waked es" "waked (es @ [Silent]) = waked es"
  by (simp_all add: waked_def)

section \<open>The invariant\<close>

definition waits_on :: "cpc \<Rightarrow> u32 \<Rightarrow> bool" where
  "waits_on p n \<longleftrightarrow> p \<in> {At_reject n, At_deschedule n, Descheduled n}"

text \<open>A node belongs to one waiting thread and is in the queue until its flag is set; a thread that is
  blocked with its flag set is about to be made runnable.\<close>

definition node_ok :: "cv_sys \<Rightarrow> int \<Rightarrow> u32 \<Rightarrow> bool" where
  "node_ok s t n \<longleftrightarrow> (\<exists>v. cnodes s n = Some v \<and> ktid v = t \<and> (n \<in> set (cwaiters (cvar s)) \<longleftrightarrow> reject v = 0) \<and>
     (cpc s t = Descheduled n \<longrightarrow> reject v = 0 \<or> (\<exists>w b. cpc s w = Waking t b)))"

definition cv_inv :: "cv_sys \<Rightarrow> bool" where
  "cv_inv s \<longleftrightarrow> cactive (cvar s) \<and> distinct (cwaiters (cvar s)) \<and>
     (\<forall>t n. waits_on (cpc s t) n \<longrightarrow> node_ok s t n) \<and>
     (\<forall>n \<in> set (cwaiters (cvar s)). \<exists>t. waits_on (cpc s t) n) \<and>
     (\<forall>t u. has_cv_mutex (cpc s t) \<longrightarrow> has_cv_mutex (cpc s u) \<longrightarrow> t = u)"

text \<open>The threads in the queue.\<close>

definition in_queue :: "cv_sys \<Rightarrow> int list" where
  "in_queue s = map (\<lambda>n. ktid (the (cnodes s n))) (cwaiters (cvar s))"

lemma cgoto_simps [simp]: "cpc (cgoto t p s) = (cpc s)(t := p)" "cvar (cgoto t p s) = cvar s" "cnodes (cgoto t p s) = cnodes s"
  by (simp_all add: cgoto_def)

lemma waits_on_simps [simp]: "\<not> waits_on Away n" "\<not> waits_on (Waking u b) n" "\<not> waits_on Draining n"
  "waits_on (At_reject m) n \<longleftrightarrow> m = n" "waits_on (At_deschedule m) n \<longleftrightarrow> m = n" "waits_on (Descheduled m) n \<longleftrightarrow> m = n"
  by (auto simp: waits_on_def)

lemma has_cv_mutex_simps [simp]: "\<not> has_cv_mutex Away" "has_cv_mutex (Waking u b)" "has_cv_mutex Draining"
  "\<not> has_cv_mutex (At_reject n)" "\<not> has_cv_mutex (At_deschedule n)" "\<not> has_cv_mutex (Descheduled n)"
  by (simp_all add: has_cv_mutex_def)

lemma cv_inv_init: "cv_inv cv_init"
  by (simp add: cv_inv_def cv_init_def ucond_init_def)

lemma cv_invD:
  assumes "cv_inv s"
  shows "cactive (cvar s)" "distinct (cwaiters (cvar s))" "\<And>t n. waits_on (cpc s t) n \<Longrightarrow> node_ok s t n"
    "\<And>n. n \<in> set (cwaiters (cvar s)) \<Longrightarrow> \<exists>t. waits_on (cpc s t) n"
    "\<And>t u. has_cv_mutex (cpc s t) \<Longrightarrow> has_cv_mutex (cpc s u) \<Longrightarrow> t = u"
  using assms unfolding cv_inv_def by blast+

lemma cv_invI:
  assumes "cactive (cvar s)" "distinct (cwaiters (cvar s))" "\<And>t n. waits_on (cpc s t) n \<Longrightarrow> node_ok s t n"
    "\<And>n. n \<in> set (cwaiters (cvar s)) \<Longrightarrow> \<exists>t. waits_on (cpc s t) n"
    "\<And>t u. has_cv_mutex (cpc s t) \<Longrightarrow> has_cv_mutex (cpc s u) \<Longrightarrow> t = u"
  shows "cv_inv s"
  unfolding cv_inv_def using assms by blast

lemma node_owner:
  assumes "cv_inv s" and "waits_on (cpc s t) n" and "waits_on (cpc s u) n"
  shows "t = u"
  using cv_invD(3) [OF assms(1,2)] cv_invD(3) [OF assms(1,3)] by (auto simp: node_ok_def)

lemma in_queue_ktid:
  assumes "cv_inv s" and "n \<in> set (cwaiters (cvar s))"
  shows "\<exists>t. waits_on (cpc s t) n \<and> cnodes s n = Some \<lparr>ktid = t, reject = 0\<rparr>"
proof -
  obtain t where t: "waits_on (cpc s t) n" using cv_invD(4) [OF assms] by blast
  then obtain v where "cnodes s n = Some v" "ktid v = t" "reject v = 0" using cv_invD(3) [OF assms(1) t] assms(2) by (auto simp: node_ok_def)
  then show ?thesis using t by (cases v) auto
qed

lemma waking_upd:
  assumes "\<not> has_cv_mutex (cpc s t)" and "\<not> has_cv_mutex p"
  shows "(\<exists>w b. ((cpc s)(t := p)) w = Waking u b) \<longleftrightarrow> (\<exists>w b. cpc s w = Waking u b)"
  using assms by (metis fun_upd_apply has_cv_mutex_simps(2))

text \<open>Steps of one thread that change neither the queue nor a node.\<close>

lemma cv_inv_move:
  assumes inv: "cv_inv s" and t: "waits_on (cpc s t) n" and p: "waits_on p n"
    and d: "p = Descheduled n \<Longrightarrow> \<exists>v. cnodes s n = Some v \<and> reject v = 0"
  shows "cv_inv (cgoto t p s)"
proof (rule cv_invI)
  have no: "\<not> has_cv_mutex (cpc s t)" "\<not> has_cv_mutex p" using t p by (auto simp: waits_on_def)
  fix u m assume "waits_on (cpc (cgoto t p s) u) m"
  moreover have wk: "(\<exists>w b. ((cpc s)(t := p)) w = Waking u b) \<longleftrightarrow> (\<exists>w b. cpc s w = Waking u b)"
    by (rule waking_upd [OF no])
  moreover have "m = n" if "waits_on p m" using that p by (auto simp: waits_on_def)
  ultimately show "node_ok (cgoto t p s) u m"
    using cv_invD(3) [OF inv, of u m] cv_invD(3) [OF inv t] d by (cases "u = t") (auto simp: node_ok_def)
next
  fix m assume "m \<in> set (cwaiters (cvar (cgoto t p s)))"
  then obtain u where "waits_on (cpc s u) m" using cv_invD(4) [OF inv, of m] by auto
  then show "\<exists>u. waits_on (cpc (cgoto t p s) u) m" using t p by (cases "u = t") (auto simp: waits_on_def intro: exI [of _ u] exI [of _ t])
next
  fix u w assume "has_cv_mutex (cpc (cgoto t p s) u)" "has_cv_mutex (cpc (cgoto t p s) w)"
  moreover have "\<not> has_cv_mutex p" using p by (auto simp: waits_on_def)
  ultimately show "u = w" using cv_invD(5) [OF inv] by (auto split: if_splits)
qed (use cv_invD [OF inv] in simp_all)

lemma cv_inv_wait:
  assumes inv: "cv_inv s" and t: "cpc s t = Away" "cv_free s" "cnodes s tmp = None"
    and w: "ucond_wait tmp t (cvar s) (cnodes s) = Inr (c, ns)"
    and s': "s' = cgoto t (At_reject tmp) (s\<lparr>cvar := c, cnodes := ns\<rparr>)"
  shows "cv_inv s' \<and> in_queue s' = in_queue s @ [t]"
proof
  have c: "c = (cvar s)\<lparr>cwaiters := cwaiters (cvar s) @ [tmp]\<rparr>" "ns = (cnodes s)(tmp \<mapsto> \<lparr>ktid = t, reject = 0\<rparr>)"
    using w cv_invD(1) [OF inv] by (simp_all add: ucond_wait_def)
  have new: "tmp \<notin> set (cwaiters (cvar s))" using in_queue_ktid [OF inv, of tmp] t(3) by auto
  show "cv_inv s'"
  proof (rule cv_invI)
    fix u m assume u: "waits_on (cpc s' u) m"
    show "node_ok s' u m"
    proof (cases "u = t")
      case False
      then have ok: "node_ok s u m" using u cv_invD(3) [OF inv] by (simp add: s')
      then have "m \<noteq> tmp" using t(3) by (auto simp: node_ok_def)
      moreover have "\<forall>w b. cpc s w \<noteq> Waking u b" using t(2) by (metis cv_free_def has_cv_mutex_simps(2))
      ultimately show ?thesis using ok False by (auto simp: node_ok_def s' c)
    qed (use u in \<open>simp add: node_ok_def s' c\<close>)
  next
    fix m assume "m \<in> set (cwaiters (cvar s'))"
    then consider "m = tmp" | u where "waits_on (cpc s u) m" using cv_invD(4) [OF inv, of m] by (auto simp: s' c)
    then show "\<exists>u. waits_on (cpc s' u) m"
    proof cases
      case (2 u)
      then show ?thesis using t(1) by (intro exI [of _ u]) (auto simp: s')
    qed (auto simp: s')
  qed (use new t cv_invD [OF inv] in \<open>auto simp: s' c cv_free_def split: if_splits\<close>)
  show "in_queue s' = in_queue s @ [t]" using new by (auto simp: in_queue_def s' c)
qed

lemma cv_inv_leave:
  assumes inv: "cv_inv s" and t: "cpc s t = At_reject n" "cnodes s n = Some v" "reject v \<noteq> 0"
    and s': "s' = cgoto t Away (s\<lparr>cnodes := (cnodes s)(n := None)\<rparr>)"
  shows "cv_inv s' \<and> in_queue s' = in_queue s"
proof
  have out: "n \<notin> set (cwaiters (cvar s))" using in_queue_ktid [OF inv, of n] t(2,3) by auto
  show "cv_inv s'"
  proof (rule cv_invI)
    fix u m assume u: "waits_on (cpc s' u) m"
    then have ut: "u \<noteq> t" and um: "waits_on (cpc s u) m" by (auto simp: s' split: if_splits)
    then have "m \<noteq> n" using node_owner [OF inv um, of t] t(1) by auto
    moreover have "(\<exists>w b. cpc s' w = Waking u b) \<longleftrightarrow> (\<exists>w b. cpc s w = Waking u b)"
      using waking_upd [of s t Away u] t(1) by (simp add: s')
    ultimately show "node_ok s' u m" using cv_invD(3) [OF inv um] ut by (auto simp: node_ok_def s')
  next
    fix m assume m: "m \<in> set (cwaiters (cvar s'))"
    then obtain u where "waits_on (cpc s u) m" "m \<noteq> n" using cv_invD(4) [OF inv, of m] out by (auto simp: s')
    then show "\<exists>u. waits_on (cpc s' u) m" using t(1) by (intro exI [of _ u]) (auto simp: s')
  qed (use cv_invD [OF inv] t in \<open>auto simp: s' split: if_splits\<close>)
  show "in_queue s' = in_queue s" using out by (auto simp: in_queue_def s')
qed

text \<open>Taking a thread from the queue, by a thread that alone has the mutex of the condition variable.\<close>

lemma cv_inv_take:
  assumes inv: "cv_inv s" and alone: "\<And>w. w \<noteq> t \<Longrightarrow> \<not> has_cv_mutex (cpc s w)" and t: "cpc s t \<in> {Away, Draining}"
    and tk: "ucond_take (cvar s) (cnodes s) = Inr (c, ns, Some u)"
    and s': "s' = cgoto t (Waking u b) (s\<lparr>cvar := c, cnodes := ns\<rparr>)"
  shows "cv_inv s' \<and> in_queue s = u # in_queue s'"
proof
  obtain n q where q: "cwaiters (cvar s) = n # q" using tk by (cases "cwaiters (cvar s)") (auto simp: ucond_take_def)
  then have n: "n \<notin> set q" "distinct q" using cv_invD(2) [OF inv] by auto
  obtain x where x: "waits_on (cpc s x) n" "cnodes s n = Some \<lparr>ktid = x, reject = 0\<rparr>" using in_queue_ktid [OF inv, of n] q by auto
  have c: "c = (cvar s)\<lparr>cwaiters := q\<rparr>" "ns = (cnodes s)(n \<mapsto> \<lparr>ktid = u, reject = 1\<rparr>)" "u = x"
    using tk q x(2) by (auto simp: ucond_take_def)
  have xt: "x \<noteq> t" using t x(1) by auto
  show "cv_inv s'"
  proof (rule cv_invI)
    fix y m assume y: "waits_on (cpc s' y) m"
    then have ym: "waits_on (cpc s y) m" and yt: "y \<noteq> t" by (auto simp: s' split: if_splits)
    have wk: "cpc s' t = Waking u b" by (simp add: s')
    show "node_ok s' y m"
    proof (cases "m = n")
      case True
      then have "y = x" using node_owner [OF inv ym, of x] x(1) by simp
      then show ?thesis using True n c wk by (auto simp: node_ok_def s')
    next
      case False
      have "\<forall>w b. cpc s w \<noteq> Waking y b" using alone t by (metis has_cv_mutex_simps(2) insertE singletonD cpc.distinct)
      then show ?thesis using cv_invD(3) [OF inv ym] False yt q by (auto simp: node_ok_def s' c)
    qed
  next
    fix m assume "m \<in> set (cwaiters (cvar s'))"
    then obtain y where "waits_on (cpc s y) m" using cv_invD(4) [OF inv, of m] q by (auto simp: s' c)
    then show "\<exists>y. waits_on (cpc s' y) m" using t by (intro exI [of _ y]) (auto simp: s')
  qed (use cv_invD(1) [OF inv] n alone in \<open>auto simp: s' c split: if_splits\<close>)
  show "in_queue s = u # in_queue s'" using q n x(2) by (auto simp: in_queue_def s' c)
qed

lemma cv_inv_lock:
  assumes inv: "cv_inv s" and t: "cpc s t = Away" and free: "cv_free s"
  shows "cv_inv (cgoto t Draining s) \<and> in_queue (cgoto t Draining s) = in_queue s"
proof
  show "cv_inv (cgoto t Draining s)"
  proof (rule cv_invI)
    fix u m assume "waits_on (cpc (cgoto t Draining s) u) m"
    then have um: "waits_on (cpc s u) m" "u \<noteq> t" by (auto split: if_splits)
    moreover have "\<forall>w b. cpc s w \<noteq> Waking u b" using free by (metis cv_free_def has_cv_mutex_simps(2))
    ultimately show "node_ok (cgoto t Draining s) u m" using cv_invD(3) [OF inv um(1)] by (auto simp: node_ok_def)
  next
    fix m assume "m \<in> set (cwaiters (cvar (cgoto t Draining s)))"
    then obtain u where "waits_on (cpc s u) m" using cv_invD(4) [OF inv, of m] by auto
    then show "\<exists>u. waits_on (cpc (cgoto t Draining s) u) m" using t by (intro exI [of _ u]) auto
  qed (use cv_invD [OF inv] free in \<open>auto simp: cv_free_def split: if_splits\<close>)
qed (simp add: in_queue_def)

text \<open>The thread that has the mutex releases it, or goes on, after its call of \<open>make_runnable\<close>.\<close>

lemma cv_inv_make_runnable:
  assumes inv: "cv_inv s" and t: "cpc s t = Waking u b"
    and s': "s' = cgoto t (if b then Draining else Away) (kernel_make_runnable u s)"
  shows "cv_inv s' \<and> in_queue s' = in_queue s"
proof
  let ?k = "kernel_make_runnable u s"
  have k: "cvar ?k = cvar s" "cnodes ?k = cnodes s" by (auto simp: kernel_make_runnable_def split: cpc.splits)
  have pc: "cpc ?k x = (case cpc s x of Descheduled n \<Rightarrow> if x = u then At_reject n else Descheduled n | p \<Rightarrow> p)" for x
    by (auto simp: kernel_make_runnable_def split: cpc.splits)
  have w: "waits_on (cpc ?k x) m \<longleftrightarrow> waits_on (cpc s x) m" "has_cv_mutex (cpc ?k x) \<longleftrightarrow> has_cv_mutex (cpc s x)" for x m
    by (auto simp: pc split: cpc.splits)
  have dk: "cpc ?k x = Descheduled m \<longleftrightarrow> cpc s x = Descheduled m \<and> x \<noteq> u" for x m by (auto simp: pc split: cpc.splits)
  have only: "x = t" if "has_cv_mutex (cpc s x)" for x using cv_invD(5) [OF inv that, of t] t by simp
  show "cv_inv s'"
  proof (rule cv_invI)
    fix x m assume "waits_on (cpc s' x) m"
    then have xm: "waits_on (cpc s x) m" "x \<noteq> t" by (auto simp: s' w split: if_splits)
    have "cnodes s m = Some v \<Longrightarrow> cpc s x = Descheduled m \<Longrightarrow> x \<noteq> u \<Longrightarrow> reject v = 0" for v
      using cv_invD(3) [OF inv xm(1)] only t by (metis (no_types, lifting) cpc.inject(4) has_cv_mutex_simps(2) node_ok_def option.inject)
    then show "node_ok s' x m" using cv_invD(3) [OF inv xm(1)] xm(2) unfolding node_ok_def by (fastforce simp: s' k dk)
  next
    fix m assume "m \<in> set (cwaiters (cvar s'))"
    then obtain x where "waits_on (cpc s x) m" using cv_invD(4) [OF inv, of m] by (auto simp: s' k)
    then show "\<exists>x. waits_on (cpc s' x) m" using t by (intro exI [of _ x]) (auto simp: s' w)
  next
    fix x y assume "has_cv_mutex (cpc s' x)" "has_cv_mutex (cpc s' y)"
    then show "x = y" using only by (auto simp: s' w split: if_splits)
  qed (use cv_invD(1,2) [OF inv] in \<open>simp_all add: s' k\<close>)
  show "in_queue s' = in_queue s" by (simp add: in_queue_def s' k)
qed

lemma cv_inv_step:
  assumes inv: "cv_inv s" and st: "cv_step s e s'"
  shows "cv_inv s' \<and>
     (case e of Waits t \<Rightarrow> in_queue s' = in_queue s @ [t] | Wakes u \<Rightarrow> in_queue s = u # in_queue s'
      | All_waked \<Rightarrow> in_queue s = [] \<and> in_queue s' = [] | Silent \<Rightarrow> in_queue s' = in_queue s)"
  using st
proof (cases rule: cv_step.cases)
  case (wait t tmp c ns)
  then show ?thesis using cv_inv_wait [OF inv] by simp
next
  case (test t n v)
  then show ?thesis using cv_inv_move [OF inv, of t n "At_deschedule n"] by (simp add: in_queue_def)
next
  case (leave t n v)
  then show ?thesis using cv_inv_leave [OF inv] by simp
next
  case (deschedule t n v)
  have "cv_inv s'" unfolding deschedule(2)
    by (rule cv_inv_move [OF inv, of t n]) (use deschedule(3,4) in \<open>auto split: if_splits\<close>)
  then show ?thesis using deschedule(1,2) by (simp add: in_queue_def)
next
  case (signal t c ns u)
  have tk: "ucond_take (cvar s) (cnodes s) = Inr (c, ns, Some u)" using signal(5) cv_invD(1) [OF inv] by (simp add: ucond_signal_def)
  have "cv_inv s' \<and> in_queue s = u # in_queue s'"
    by (rule cv_inv_take [OF inv _ _ tk signal(2)]) (use signal(3,4) in \<open>simp_all add: cv_free_def\<close>)
  then show ?thesis by (simp add: signal(1))
next
  case (broadcast t)
  then show ?thesis using cv_inv_lock [OF inv] by simp
next
  case (drain t c ns u)
  have "w \<noteq> t \<Longrightarrow> \<not> has_cv_mutex (cpc s w)" for w using cv_invD(5) [OF inv, of w t] drain(3) by auto
  then have "cv_inv s' \<and> in_queue s = u # in_queue s'"
    by (rule cv_inv_take [OF inv _ _ drain(4,2)]) (simp_all add: drain(3))
  then show ?thesis by (simp add: drain(1))
next
  case (drained t c ns)
  have em: "cwaiters (cvar s) = []" using drained(4) by (cases "cwaiters (cvar s)") (auto simp: ucond_take_def kbind_eq_Inr)
  have only: "x = t" if "has_cv_mutex (cpc s x)" for x using cv_invD(5) [OF inv that, of t] drained(3) by simp
  have "cv_inv s'"
  proof (rule cv_invI)
    fix x m assume "waits_on (cpc s' x) m"
    then have x: "waits_on (cpc s x) m" "x \<noteq> t" using drained(2) by (auto split: if_splits)
    have "cpc s w \<noteq> Waking x b" for w b using only [of w] drained(3) by auto
    then show "node_ok s' x m" using cv_invD(3) [OF inv x(1)] x(2) drained(2) by (auto simp: node_ok_def)
  qed (use em cv_invD(1) [OF inv] only drained(2) in \<open>auto split: if_splits\<close>)
  then show ?thesis using em drained(1,2) by (simp add: in_queue_def)
next
  case (make_runnable t u b)
  then show ?thesis using cv_inv_make_runnable [OF inv] by simp
next
  case (spurious t n)
  then show ?thesis using cv_inv_move [OF inv, of t n "At_reject n"] by (simp add: in_queue_def)
qed

lemma cv_run_inv: "cv_run es s \<Longrightarrow> cv_inv s \<and> waited es = waked es @ in_queue s"
proof (induction rule: cv_run.induct)
  case start
  then show ?case using cv_inv_init by (simp add: cv_init_def ucond_init_def in_queue_def)
next
  case (more es s e s')
  then show ?case using cv_inv_step [of s e s'] by (cases e) auto
qed

section \<open>Properties\<close>

text \<open>C25: condition variables lose no wake-up. In every interleaving of waits, signals and broadcasts: the threads
  are waked in the order in which they began to wait; a thread blocked in the kernel has not been waked yet,
  or the thread that waked it is about to make it runnable; and when a broadcast ends, every thread that has
  begun to wait has been waked.\<close>

theorem cond_no_lost_wakeup:
  assumes "cv_run es s"
  shows "prefix (waked es) (waited es) \<and>
     (\<forall>t n. cpc s t = Descheduled n \<longrightarrow> (\<exists>v. cnodes s n = Some v \<and> (reject v = 0 \<longrightarrow> n \<in> set (cwaiters (cvar s))) \<and>
        (reject v \<noteq> 0 \<longrightarrow> (\<exists>w b. cpc s w = Waking t b)))) \<and>
     (\<forall>s'. cv_step s All_waked s' \<longrightarrow> waked es = waited es)"
proof -
  have inv: "cv_inv s" and q: "waited es = waked es @ in_queue s" using cv_run_inv [OF assms] by simp_all
  have "\<exists>v. cnodes s n = Some v \<and> (reject v = 0 \<longrightarrow> n \<in> set (cwaiters (cvar s))) \<and> (reject v \<noteq> 0 \<longrightarrow> (\<exists>w b. cpc s w = Waking t b))"
    if "cpc s t = Descheduled n" for t n
    using cv_invD(3) [OF inv, of t n] that by (auto simp: node_ok_def)
  moreover have "in_queue s = []" if "cv_step s All_waked s'" for s' using cv_inv_step [OF inv that] by simp
  ultimately show ?thesis using q by (simp add: prefix_def)
qed

text \<open>One thread waits, blocks, and is waked by another one.\<close>

lemma cv_run_one: "\<exists>s. cv_run [Waits 1, Silent, Silent, Wakes 1] s \<and> cpc s 1 = Descheduled 8"
proof -
  let ?s1 = "cgoto 1 (At_reject 8) (cv_init\<lparr>cvar := \<lparr>cactive = True, cwaiters = [8]\<rparr>, cnodes := [8 \<mapsto> \<lparr>ktid = 1, reject = 0\<rparr>]\<rparr>)"
  have "cv_step cv_init (Waits 1) ?s1"
    by (rule cv_step.wait) (simp_all add: cv_init_def cv_free_def ucond_init_def ucond_wait_def)
  from cv_run.more [OF cv_run.start this] have r: "cv_run [Waits 1] ?s1" by simp
  let ?s2 = "cgoto 1 (At_deschedule 8) ?s1"
  have "cv_step ?s1 Silent ?s2" by (rule cv_step.test, simp, simp, simp)
  from cv_run.more [OF r this] have r: "cv_run [Waits 1, Silent] ?s2" by simp
  let ?s3 = "cgoto 1 (if reject \<lparr>ktid = 1, reject = 0\<rparr> \<noteq> 0 then At_reject 8 else Descheduled 8) ?s2"
  have "cv_step ?s2 Silent ?s3" by (rule cv_step.deschedule) simp_all
  from cv_run.more [OF r this] have r: "cv_run [Waits 1, Silent, Silent] ?s3" by simp
  let ?s4 = "cgoto 2 (Waking 1 False) (?s3\<lparr>cvar := \<lparr>cactive = True, cwaiters = []\<rparr>, cnodes := [8 \<mapsto> \<lparr>ktid = 1, reject = 1\<rparr>]\<rparr>)"
  have "cv_step ?s3 (Wakes 1) ?s4"
    by (rule cv_step.signal) (simp_all add: cv_init_def cv_free_def ucond_signal_def ucond_take_def)
  from cv_run.more [OF r this] have "cv_run [Waits 1, Silent, Silent, Wakes 1] ?s4" by simp
  then show ?thesis by (intro exI [of _ ?s4]) simp
qed

theorem cond_no_lost_wakeup_witness:
  "\<exists>s. cv_run [Waits 1, Silent, Silent, Wakes 1] s \<and> cpc s 1 = Descheduled 8 \<and>
     (\<exists>v. cnodes s 8 = Some v \<and> (reject v = 0 \<or> (\<exists>w b. cpc s w = Waking 1 b)))"
proof -
  obtain s where s: "cv_run [Waits 1, Silent, Silent, Wakes 1] s" "cpc s 1 = Descheduled 8" using cv_run_one by blast
  with cond_no_lost_wakeup [OF s(1)] show ?thesis by blast
qed

end
