(* ===== verification/User_Locks.thy ===== *)
theory User_Locks
  imports User_Cond
begin

text \<open>
  Semaphores (\<open>user/libthread/sem.c\<close>) and readers/writers locks (\<open>user/libthread/rwlock.c\<close>). Both are built from
  a mutex and condition variables: the code under the mutex is one step, and a condition variable is the
  list of the threads that wait on it, which are waked in that order (theory \<open>User_Cond\<close>). A thread that
  has been waked takes the mutex again and goes round the loop it waits in.
\<close>

section \<open>Counting threads\<close>

definition num_at :: "(int \<Rightarrow> 'p) \<Rightarrow> 'p set \<Rightarrow> int" where
  "num_at pc S = int (card {t. pc t \<in> S})"

lemma finite_upd [simp]: "finite {x. (pc(t := p)) x \<in> S} \<longleftrightarrow> finite {x. pc x \<in> S}"
proof -
  have "{x. (pc(t := p)) x \<in> S} - {t} = {x. pc x \<in> S} - {t}" by auto
  then show ?thesis by (metis finite_Diff_insert finite_Diff2 finite.emptyI)
qed

lemma num_at_upd:
  assumes "finite {x. pc x \<in> S}"
  shows "num_at (pc(t := p)) S = num_at pc S + of_bool (p \<in> S) - of_bool (pc t \<in> S)"
proof -
  define B where "B = {x. pc x \<in> S} - {t}"
  have B: "finite B" "t \<notin> B" using assms by (auto simp: B_def)
  have "{x. (pc(t := p)) x \<in> S} = (if p \<in> S then insert t B else B)" by (auto simp: B_def)
  then have new: "num_at (pc(t := p)) S = int (card B) + of_bool (p \<in> S)" using B by (simp add: num_at_def)
  have "{x. pc x \<in> S} = (if pc t \<in> S then insert t B else B)" by (auto simp: B_def)
  then have "num_at pc S = int (card B) + of_bool (pc t \<in> S)" using B by (simp add: num_at_def)
  with new show ?thesis by simp
qed

lemma num_at_nonneg [simp]: "0 \<le> num_at pc S"
  by (simp add: num_at_def)

lemma num_at_not_neg [simp]: "num_at pc S \<noteq> - 1" "- 1 \<noteq> num_at pc S" "num_at pc S \<noteq> - numeral k" "- numeral k \<noteq> num_at pc S"
  using num_at_nonneg [of pc S] by (linarith, linarith, (smt (verit) neg_0_le_iff_le not_numeral_le_zero)+)

lemma num_at_0: "finite {x. pc x \<in> S} \<Longrightarrow> num_at pc S = 0 \<longleftrightarrow> (\<forall>t. pc t \<notin> S)"
  by (simp add: num_at_def)

lemma num_at_pos: "finite {x. pc x \<in> S} \<Longrightarrow> pc t \<in> S \<Longrightarrow> 0 < num_at pc S"
  using num_at_0 [of pc S] num_at_nonneg [of pc S] by (metis order_less_le)

section \<open>Semaphores\<close>

record usem_t =
  scount :: int
  scond :: "int list"

text \<open>\<open>ok\<close>: the mutex and the condition variable could be initialised.\<close>

definition sem_init :: "bool \<Rightarrow> int \<Rightarrow> usem_t \<Rightarrow> usem_t \<times> int" where
  "sem_init ok n sem = (if \<not> ok then (sem, - 1) else if n < 0 then (sem, - 1) else (sem\<lparr>scount := n, scond := []\<rparr>, 0))"

text \<open>The loop of \<open>sem_wait\<close>: \<open>True\<close>, the semaphore was decremented; \<open>False\<close>, the caller waits.\<close>

definition sem_wait_loop :: "int \<Rightarrow> usem_t \<Rightarrow> usem_t \<times> bool" where
  "sem_wait_loop t sem =
     (if scount sem = 0 then (sem\<lparr>scond := q_enqueue (scond sem) t\<rparr>, False) else (sem\<lparr>scount := scount sem - 1\<rparr>, True))"

definition sem_wait :: "int \<Rightarrow> usem_t \<Rightarrow> (usem_t \<times> bool) kres" where
  "sem_wait t sem =
     (if 0 < scount sem then Inr (sem\<lparr>scount := scount sem - 1\<rparr>, True)
      else if scount sem < 0 then Inl PANIC
      else Inr (sem_wait_loop t sem))"

text \<open>\<open>sem_signal\<close> increments under the mutex and signals after it has released the mutex.\<close>

definition sem_signal :: "usem_t \<Rightarrow> usem_t kres" where
  "sem_signal sem = (if scount sem < 0 then Inl PANIC else Inr (sem\<lparr>scount := scount sem + 1\<rparr>))"

definition sem_wake_one :: "usem_t \<Rightarrow> usem_t \<times> int option" where
  "sem_wake_one sem = (case q_dequeue (scond sem) of (r, q) \<Rightarrow> (sem\<lparr>scond := q\<rparr>, r))"

text \<open>The part of \<open>sem_destroy\<close> under the mutex; then the mutex and the condition variable are destroyed.\<close>

definition sem_destroy :: "usem_t \<Rightarrow> usem_t kres" where
  "sem_destroy sem = (if scount sem < 0 then Inl PANIC else Inr (sem\<lparr>scount := - 1\<rparr>))"

datatype spc =
    S_away
  | S_waiting        \<comment> \<open>in \<open>cond_wait\<close>\<close>
  | S_waked          \<comment> \<open>signalled, on its way back to the loop\<close>
  | S_signalling     \<comment> \<open>in \<open>sem_signal\<close>, about to call \<open>cond_signal\<close>\<close>

record sem_sys =
  sem :: usem_t
  spc :: "int \<Rightarrow> spc"

datatype sem_event = Decrements | Increments | Other

inductive sem_step :: "sem_sys \<Rightarrow> sem_event \<Rightarrow> sem_sys \<Rightarrow> bool" where
  wait: "\<lbrakk>spc s t = S_away; sem_wait t (sem s) = Inr (m, got)\<rbrakk> \<Longrightarrow>
     sem_step s (if got then Decrements else Other) (s\<lparr>sem := m, spc := (spc s)(t := if got then S_away else S_waiting)\<rparr>)"
| resume: "\<lbrakk>spc s t = S_waked; sem_wait_loop t (sem s) = (m, got)\<rbrakk> \<Longrightarrow>
     sem_step s (if got then Decrements else Other) (s\<lparr>sem := m, spc := (spc s)(t := if got then S_away else S_waiting)\<rparr>)"
| increment: "\<lbrakk>spc s t = S_away; sem_signal (sem s) = Inr m\<rbrakk> \<Longrightarrow>
     sem_step s Increments (s\<lparr>sem := m, spc := (spc s)(t := S_signalling)\<rparr>)"
| wake: "\<lbrakk>spc s t = S_signalling; sem_wake_one (sem s) = (m, r)\<rbrakk> \<Longrightarrow>
     sem_step s Other (s\<lparr>sem := m, spc := (case r of None \<Rightarrow> (spc s)(t := S_away) | Some u \<Rightarrow> (spc s)(t := S_away, u := S_waked))\<rparr>)"

inductive sem_run :: "int \<Rightarrow> sem_event list \<Rightarrow> sem_sys \<Rightarrow> bool" for n where
  start: "sem_init True n m0 = (m, 0) \<Longrightarrow> sem_run n [] \<lparr>sem = m, spc = (\<lambda>_. S_away)\<rparr>"
| more: "\<lbrakk>sem_run n es s; sem_step s e s'\<rbrakk> \<Longrightarrow> sem_run n (es @ [e]) s'"

text \<open>Threads in the queue are those that wait; every unit that is available while threads wait has a
  thread on its way to it.\<close>

definition sem_inv :: "sem_sys \<Rightarrow> bool" where
  "sem_inv s \<longleftrightarrow> finite {t. spc s t \<in> {S_waked, S_signalling}} \<and> 0 \<le> scount (sem s) \<and>
     (\<forall>t. t \<in> set (scond (sem s)) \<longleftrightarrow> spc s t = S_waiting) \<and> distinct (scond (sem s)) \<and>
     (scond (sem s) \<noteq> [] \<longrightarrow> scount (sem s) \<le> num_at (spc s) {S_waked, S_signalling})"

lemma sem_inv_finite: "sem_inv s \<Longrightarrow> finite {x. ((spc s)(t := p)) x \<in> {S_waked, S_signalling}}"
  unfolding finite_upd by (simp only: sem_inv_def)

lemma sem_inv_num:
  assumes "sem_inv s"
  shows "num_at ((spc s)(t := p)) {S_waked, S_signalling} =
     num_at (spc s) {S_waked, S_signalling} + of_bool (p \<in> {S_waked, S_signalling}) - of_bool (spc s t \<in> {S_waked, S_signalling})"
    "spc s t \<in> {S_waked, S_signalling} \<Longrightarrow> 0 < num_at (spc s) {S_waked, S_signalling}"
  using assms num_at_upd [of "spc s" "{S_waked, S_signalling}" t p] num_at_pos [of "spc s" "{S_waked, S_signalling}" t]
  by (simp_all only: sem_inv_def)

lemma sem_invI:
  assumes "finite {t. spc s t \<in> {S_waked, S_signalling}}" "0 \<le> scount (sem s)"
    "\<And>t. t \<in> set (scond (sem s)) \<longleftrightarrow> spc s t = S_waiting" "distinct (scond (sem s))"
    "scond (sem s) \<noteq> [] \<Longrightarrow> scount (sem s) \<le> num_at (spc s) {S_waked, S_signalling}"
  shows "sem_inv s"
  using assms unfolding sem_inv_def by blast

lemma sem_invD:
  assumes "sem_inv s"
  shows "0 \<le> scount (sem s)" "\<And>t. t \<in> set (scond (sem s)) \<longleftrightarrow> spc s t = S_waiting" "distinct (scond (sem s))"
    "scond (sem s) \<noteq> [] \<Longrightarrow> scount (sem s) \<le> num_at (spc s) {S_waked, S_signalling}"
  using assms unfolding sem_inv_def by blast+

text \<open>A decrement, and a wait, by a thread outside or a thread that was waked.\<close>

lemma sem_inv_decrement:
  assumes inv: "sem_inv s" and t: "spc s t \<in> {S_away, S_waked}" and c: "0 < scount (sem s)"
  shows "sem_inv (s\<lparr>sem := (sem s)\<lparr>scount := scount (sem s) - 1\<rparr>, spc := (spc s)(t := S_away)\<rparr>)"
  by (rule sem_invI) (use sem_invD [OF inv] sem_inv_num(1) [OF inv, of t S_away] sem_inv_num(2) [OF inv, of t] sem_inv_finite [OF inv, of t S_away] t c in auto)

lemma sem_inv_enqueue:
  assumes inv: "sem_inv s" and t: "spc s t \<in> {S_away, S_waked}" and c: "scount (sem s) = 0"
  shows "sem_inv (s\<lparr>sem := (sem s)\<lparr>scond := scond (sem s) @ [t]\<rparr>, spc := (spc s)(t := S_waiting)\<rparr>)"
  by (rule sem_invI) (use sem_invD [OF inv] sem_inv_num(1) [OF inv, of t S_waiting] sem_inv_num(2) [OF inv, of t] sem_inv_finite [OF inv, of t S_waiting] t c in auto)

lemma sem_inv_wake:
  assumes inv: "sem_inv s" and t: "spc s t = S_signalling" and q: "scond (sem s) = u # q"
  shows "sem_inv (s\<lparr>sem := (sem s)\<lparr>scond := q\<rparr>, spc := (spc s)(t := S_away, u := S_waked)\<rparr>)"
proof -
  let ?p = "(spc s)(t := S_away)"
  have u: "spc s u = S_waiting" "u \<noteq> t" "u \<notin> set q" "t \<notin> set q" using sem_invD(2) [OF inv, of u] sem_invD(2) [OF inv, of t] sem_invD(3) [OF inv] q t by auto
  have f: "finite {x. ?p x \<in> {S_waked, S_signalling}}" by (rule sem_inv_finite [OF inv])
  then have f': "finite {x. (?p(u := S_waked)) x \<in> {S_waked, S_signalling}}" by (simp only: finite_upd)
  have "num_at (?p(u := S_waked)) {S_waked, S_signalling} = num_at (spc s) {S_waked, S_signalling}"
    using num_at_upd [of ?p, OF f, of u S_waked] sem_inv_num(1) [OF inv, of t S_away] t u by (simp add: fun_upd_def)
  then show ?thesis using sem_invD [OF inv] f' u q t by (intro sem_invI) auto
qed

lemma sem_inv_step:
  assumes inv: "sem_inv s" and st: "sem_step s e s'"
  shows "sem_inv s' \<and> scount (sem s') = scount (sem s) + (case e of Increments \<Rightarrow> 1 | Decrements \<Rightarrow> - 1 | Other \<Rightarrow> 0)"
  using st
proof (cases rule: sem_step.cases)
  case (wait t m got)
  then show ?thesis using sem_inv_decrement [OF inv, of t] sem_inv_enqueue [OF inv, of t] sem_invD(1) [OF inv]
    by (auto simp: sem_wait_def sem_wait_loop_def split: if_splits)
next
  case (resume t m got)
  then show ?thesis using sem_inv_decrement [OF inv, of t] sem_inv_enqueue [OF inv, of t] sem_invD(1) [OF inv]
    by (auto simp: sem_wait_loop_def split: if_splits)
next
  case (increment t m)
  have m: "m = (sem s)\<lparr>scount := scount (sem s) + 1\<rparr>" using increment(4) by (auto simp: sem_signal_def split: if_splits)
  have "sem_inv s'" unfolding increment(2) m
    by (rule sem_invI) (use sem_invD [OF inv] sem_inv_num(1) [OF inv, of t S_signalling] sem_inv_finite [OF inv, of t S_signalling] increment(3) in auto)
  then show ?thesis by (simp add: increment(1,2) m)
next
  case (wake t m r)
  show ?thesis
  proof (cases "scond (sem s)")
    case Nil
    then have m: "m = sem s" "r = None" using wake(4) by (auto simp: sem_wake_one_def)
    have "sem_inv s'" unfolding wake(2) m option.case
      by (rule sem_invI) (use sem_invD [OF inv] Nil sem_inv_finite [OF inv, of t S_away] wake(3) in auto)
    then show ?thesis by (simp add: wake(1,2) m)
  next
    case (Cons u q)
    then have m: "m = (sem s)\<lparr>scond := q\<rparr>" "r = Some u" using wake(4) by (auto simp: sem_wake_one_def)
    then show ?thesis using sem_inv_wake [OF inv wake(3) Cons] by (simp add: wake(1,2))
  qed
qed

definition num_events :: "sem_event \<Rightarrow> sem_event list \<Rightarrow> int" where
  "num_events e es = int (length (filter ((=) e) es))"

lemma sem_run_inv:
  assumes "sem_run n es s"
  shows "sem_inv s \<and> scount (sem s) = n + num_events Increments es - num_events Decrements es"
  using assms
proof (induction rule: sem_run.induct)
  case (start m0 m)
  then show ?case by (auto simp: sem_inv_def sem_init_def num_events_def num_at_def split: if_splits)
next
  case (more es s e s')
  then show ?case using sem_inv_step [of s e s'] by (cases e) (simp_all add: num_events_def)
qed

text \<open>Semaphores. In every run of any number of threads over a semaphore that starts at \<open>n\<close>, the decrements
  never exceed \<open>n\<close> and the increments so far, the counter is exactly the difference, and while the counter
  is positive and a thread waits, some thread is on its way to take a unit or to wake a waiting thread: no
  unit is forgotten.\<close>

theorem sem_counts:
  assumes "sem_run n es s"
  shows "num_events Decrements es \<le> n + num_events Increments es \<and>
     scount (sem s) = n + num_events Increments es - num_events Decrements es \<and>
     (0 < scount (sem s) \<and> (\<exists>t. spc s t = S_waiting) \<longrightarrow> (\<exists>t. spc s t \<in> {S_waked, S_signalling}))"
proof -
  have inv: "sem_inv s" and c: "scount (sem s) = n + num_events Increments es - num_events Decrements es"
    using sem_run_inv [OF assms] by simp_all
  have "\<exists>t. spc s t \<in> {S_waked, S_signalling}" if p: "0 < scount (sem s)" and w: "spc s t = S_waiting" for t
  proof (rule ccontr)
    assume "\<not> ?thesis"
    then have "num_at (spc s) {S_waked, S_signalling} = 0" by (simp add: num_at_def)
    moreover have "scond (sem s) \<noteq> []" using sem_invD(2) [OF inv, of t] w by auto
    ultimately show False using sem_invD(4) [OF inv] p by simp
  qed
  then show ?thesis using c sem_invD(1) [OF inv] by auto
qed

text \<open>A thread waits at 0 and another one increments.\<close>

lemma sem_run_two: "\<exists>s. sem_run 0 [Other, Increments] s \<and> spc s 1 = S_waiting \<and> scount (sem s) = 1"
proof -
  let ?s0 = "\<lparr>sem = \<lparr>scount = 0, scond = []\<rparr>, spc = (\<lambda>_. S_away)\<rparr> :: sem_sys"
  have "sem_init True 0 \<lparr>scount = 0, scond = []\<rparr> = (\<lparr>scount = 0, scond = []\<rparr>, 0)" by (simp add: sem_init_def)
  then have r0: "sem_run 0 [] ?s0" by (rule sem_run.start)
  let ?s1 = "?s0\<lparr>sem := \<lparr>scount = 0, scond = [1]\<rparr>, spc := (spc ?s0)(1 := S_waiting)\<rparr>"
  have "sem_step ?s0 (if False then Decrements else Other)
     (?s0\<lparr>sem := \<lparr>scount = 0, scond = [1]\<rparr>, spc := (spc ?s0)(1 := if False then S_away else S_waiting)\<rparr>)"
    by (rule sem_step.wait) (simp_all add: sem_wait_def sem_wait_loop_def)
  from sem_run.more [OF r0 this] have r1: "sem_run 0 [Other] ?s1" by simp
  have "sem_step ?s1 Increments (?s1\<lparr>sem := \<lparr>scount = 1, scond = [1]\<rparr>, spc := (spc ?s1)(2 := S_signalling)\<rparr>)"
    by (rule sem_step.increment) (simp_all add: sem_signal_def)
  from sem_run.more [OF r1 this] show ?thesis by (intro exI) (auto simp del: fun_upd_apply, simp_all)
qed

theorem sem_counts_witness:
  "\<exists>s. sem_run 0 [Other, Increments] s \<and> spc s 1 = S_waiting \<and> (\<exists>t. spc s t \<in> {S_waked, S_signalling})"
proof -
  obtain s where s: "sem_run 0 [Other, Increments] s" "spc s 1 = S_waiting" "scount (sem s) = 1" using sem_run_two by blast
  from sem_counts [OF s(1)] s show ?thesis by auto
qed

section \<open>Readers/writers locks\<close>

record rwlock_t =
  lock_state :: int               \<comment> \<open>0 free, \<open>n > 0\<close> readers, -1 a writer, -2 destroyed\<close>
  writer_waiting_count :: int
  reader_waiting_count :: int
  cond_reader :: "int list"
  cond_writer :: "int list"

definition rwlock_init :: "bool \<Rightarrow> rwlock_t \<Rightarrow> rwlock_t \<times> int" where
  "rwlock_init ok rw =
     (rw\<lparr>lock_state := 0, writer_waiting_count := 0, reader_waiting_count := 0, cond_reader := [], cond_writer := []\<rparr>,
      if ok then 0 else - 1)"

text \<open>The loops of \<open>rwlock_lock\<close>; \<open>False\<close>: the caller is in \<open>cond_wait\<close>.\<close>

definition rwlock_read_loop :: "int \<Rightarrow> rwlock_t \<Rightarrow> rwlock_t \<times> bool" where
  "rwlock_read_loop t rw =
     (if (lock_state rw \<noteq> 0 \<or> 0 < writer_waiting_count rw) \<and> \<not> (0 < lock_state rw \<and> writer_waiting_count rw = 0)
      then (rw\<lparr>cond_reader := q_enqueue (cond_reader rw) t\<rparr>, False)
      else (rw\<lparr>reader_waiting_count := reader_waiting_count rw - 1, lock_state := lock_state rw + 1\<rparr>, True))"

definition rwlock_write_loop :: "int \<Rightarrow> rwlock_t \<Rightarrow> rwlock_t \<times> bool" where
  "rwlock_write_loop t rw =
     (if lock_state rw \<noteq> 0 then (rw\<lparr>cond_writer := q_enqueue (cond_writer rw) t\<rparr>, False)
      else (rw\<lparr>writer_waiting_count := writer_waiting_count rw - 1, lock_state := - 1\<rparr>, True))"

datatype rw_type = RWLOCK_READ | RWLOCK_WRITE

definition rwlock_lock :: "rw_type \<Rightarrow> int \<Rightarrow> rwlock_t \<Rightarrow> (rwlock_t \<times> bool) kres" where
  "rwlock_lock ty t rw =
     (if lock_state rw = - 2 then Inl PANIC
      else case ty of
        RWLOCK_READ \<Rightarrow> Inr (rwlock_read_loop t (rw\<lparr>reader_waiting_count := reader_waiting_count rw + 1\<rparr>))
      | RWLOCK_WRITE \<Rightarrow> Inr (rwlock_write_loop t (rw\<lparr>writer_waiting_count := writer_waiting_count rw + 1\<rparr>)))"

text \<open>\<open>None\<close>: the lock is not locked, yield and look again. Otherwise the threads that are waked.\<close>

definition rwlock_unlock_locked :: "rwlock_t \<Rightarrow> rwlock_t \<times> int list option" where
  "rwlock_unlock_locked rw =
     (if lock_state rw = 0 then (rw, None)
      else
        let rw = rw\<lparr>lock_state := if 0 < lock_state rw then lock_state rw - 1 else lock_state rw + 1\<rparr> in
        if lock_state rw = 0 then
          (if 0 < writer_waiting_count rw
           then (case q_dequeue (cond_writer rw) of (None, q) \<Rightarrow> (rw, Some []) | (Some u, q) \<Rightarrow> (rw\<lparr>cond_writer := q\<rparr>, Some [u]))
           else (rw\<lparr>cond_reader := []\<rparr>, Some (cond_reader rw)))
        else (rw, Some []))"

definition rwlock_unlock :: "rwlock_t \<Rightarrow> (rwlock_t \<times> int list option) kres" where
  "rwlock_unlock rw = (if lock_state rw = - 2 then Inl PANIC else Inr (rwlock_unlock_locked rw))"

definition rwlock_downgrade :: "rwlock_t \<Rightarrow> (rwlock_t \<times> int list) kres" where
  "rwlock_downgrade rw =
     (if lock_state rw \<noteq> - 1 then Inl PANIC else Inr (rw\<lparr>lock_state := 1, cond_reader := []\<rparr>, cond_reader rw))"

text \<open>One attempt of \<open>rwlock_destroy\<close>; \<open>None\<close>: in use, yield and look again.\<close>

definition rwlock_destroy :: "bool \<Rightarrow> rwlock_t \<Rightarrow> rwlock_t option kres" where
  "rwlock_destroy first rw =
     (if first \<and> lock_state rw = - 2 then Inl PANIC
      else if lock_state rw \<noteq> 0 \<or> reader_waiting_count rw \<noteq> 0 \<or> writer_waiting_count rw \<noteq> 0 then Inr None
      else Inr (Some (rw\<lparr>lock_state := - 2\<rparr>)))"

datatype rwpc = RW_away | R_waiting | R_waked | W_waiting | W_waked | Reads | Writes

record rw_sys =
  rwl :: rwlock_t
  rwpc :: "int \<Rightarrow> rwpc"

definition rw_waked :: "rwpc \<Rightarrow> rwpc" where
  "rw_waked p = (case p of R_waiting \<Rightarrow> R_waked | W_waiting \<Rightarrow> W_waked | _ \<Rightarrow> p)"

definition rw_wake :: "int list \<Rightarrow> (int \<Rightarrow> rwpc) \<Rightarrow> int \<Rightarrow> rwpc" where
  "rw_wake us pc = (\<lambda>x. if x \<in> set us then rw_waked (pc x) else pc x)"

inductive rw_step :: "rw_sys \<Rightarrow> rw_sys \<Rightarrow> bool" where
  lock_r: "\<lbrakk>rwpc s t = RW_away; rwlock_lock RWLOCK_READ t (rwl s) = Inr (m, got)\<rbrakk> \<Longrightarrow>
     rw_step s (s\<lparr>rwl := m, rwpc := (rwpc s)(t := if got then Reads else R_waiting)\<rparr>)"
| again_r: "\<lbrakk>rwpc s t = R_waked; rwlock_read_loop t (rwl s) = (m, got)\<rbrakk> \<Longrightarrow>
     rw_step s (s\<lparr>rwl := m, rwpc := (rwpc s)(t := if got then Reads else R_waiting)\<rparr>)"
| lock_w: "\<lbrakk>rwpc s t = RW_away; rwlock_lock RWLOCK_WRITE t (rwl s) = Inr (m, got)\<rbrakk> \<Longrightarrow>
     rw_step s (s\<lparr>rwl := m, rwpc := (rwpc s)(t := if got then Writes else W_waiting)\<rparr>)"
| again_w: "\<lbrakk>rwpc s t = W_waked; rwlock_write_loop t (rwl s) = (m, got)\<rbrakk> \<Longrightarrow>
     rw_step s (s\<lparr>rwl := m, rwpc := (rwpc s)(t := if got then Writes else W_waiting)\<rparr>)"
| unlock: "\<lbrakk>rwpc s t = Reads \<or> rwpc s t = Writes; rwlock_unlock (rwl s) = Inr (m, Some us)\<rbrakk> \<Longrightarrow>
     rw_step s (s\<lparr>rwl := m, rwpc := rw_wake us ((rwpc s)(t := RW_away))\<rparr>)"
| downgrade: "\<lbrakk>rwpc s t = Writes; rwlock_downgrade (rwl s) = Inr (m, us)\<rbrakk> \<Longrightarrow>
     rw_step s (s\<lparr>rwl := m, rwpc := rw_wake us ((rwpc s)(t := Reads))\<rparr>)"

inductive rw_reachable :: "rw_sys \<Rightarrow> bool" where
  start: "rwlock_init True m0 = (m, 0) \<Longrightarrow> rw_reachable \<lparr>rwl = m, rwpc = (\<lambda>_. RW_away)\<rparr>"
| step: "\<lbrakk>rw_reachable s; rw_step s s'\<rbrakk> \<Longrightarrow> rw_reachable s'"

text \<open>The counters count, the queues hold the threads that wait, the state says who is inside; a free lock
  that a writer waits for has a writer on its way, and readers wait only for a writer.\<close>

definition rw_core :: "rwlock_t \<Rightarrow> (int \<Rightarrow> rwpc) \<Rightarrow> bool" where
  "rw_core rw pc \<longleftrightarrow> finite {t. pc t \<noteq> RW_away} \<and>
     writer_waiting_count rw = num_at pc {W_waiting, W_waked} \<and> reader_waiting_count rw = num_at pc {R_waiting, R_waked} \<and>
     distinct (cond_reader rw) \<and> (\<forall>t. t \<in> set (cond_reader rw) \<longleftrightarrow> pc t = R_waiting) \<and>
     distinct (cond_writer rw) \<and> (\<forall>t. t \<in> set (cond_writer rw) \<longleftrightarrow> pc t = W_waiting) \<and>
     (lock_state rw = - 1 \<and> num_at pc {Writes} = 1 \<and> num_at pc {Reads} = 0 \<or> lock_state rw = num_at pc {Reads} \<and> num_at pc {Writes} = 0)"

definition rw_inv :: "rwlock_t \<Rightarrow> (int \<Rightarrow> rwpc) \<Rightarrow> bool" where
  "rw_inv rw pc \<longleftrightarrow> rw_core rw pc \<and>
     (lock_state rw = 0 \<and> 0 < writer_waiting_count rw \<longrightarrow> (\<exists>t. pc t = W_waked)) \<and>
     (0 \<le> lock_state rw \<and> writer_waiting_count rw = 0 \<longrightarrow> cond_reader rw = [])"

lemma rw_inv_finite: "rw_inv rw pc \<Longrightarrow> RW_away \<notin> S \<Longrightarrow> finite {t. pc t \<in> S}"
  unfolding rw_inv_def rw_core_def by (elim conjE, erule rev_finite_subset) auto

lemma rw_inv_num:
  assumes "rw_inv rw pc" and "RW_away \<notin> S"
  shows "num_at (pc(t := p)) S = num_at pc S + of_bool (p \<in> S) - of_bool (pc t \<in> S)"
  by (rule num_at_upd [OF rw_inv_finite [OF assms]])

lemma rw_inv_pos: "rw_inv rw pc \<Longrightarrow> RW_away \<notin> S \<Longrightarrow> pc t \<in> S \<Longrightarrow> 0 < num_at pc S"
  using num_at_pos [OF rw_inv_finite] by blast

lemma rw_inv_finite_upd: "rw_inv rw pc \<Longrightarrow> finite {x. (pc(t := p)) x \<noteq> RW_away}"
  using finite_upd [of pc t p "- {RW_away}"] by (simp add: rw_inv_def rw_core_def)

lemmas rw_nums = rw_inv_num [where S = "{W_waiting, W_waked}"] rw_inv_num [where S = "{R_waiting, R_waked}"]
  rw_inv_num [where S = "{Writes}"] rw_inv_num [where S = "{Reads}"]

lemma rw_invD:
  assumes "rw_inv rw pc"
  shows "writer_waiting_count rw = num_at pc {W_waiting, W_waked}" "reader_waiting_count rw = num_at pc {R_waiting, R_waked}"
    "distinct (cond_reader rw)" "\<And>t. t \<in> set (cond_reader rw) \<longleftrightarrow> pc t = R_waiting"
    "distinct (cond_writer rw)" "\<And>t. t \<in> set (cond_writer rw) \<longleftrightarrow> pc t = W_waiting"
    "lock_state rw = - 1 \<and> num_at pc {Writes} = 1 \<and> num_at pc {Reads} = 0 \<or> lock_state rw = num_at pc {Reads} \<and> num_at pc {Writes} = 0"
    "lock_state rw = 0 \<Longrightarrow> 0 < writer_waiting_count rw \<Longrightarrow> \<exists>t. pc t = W_waked"
    "0 \<le> lock_state rw \<Longrightarrow> writer_waiting_count rw = 0 \<Longrightarrow> cond_reader rw = []"
  using assms unfolding rw_inv_def rw_core_def by blast+

lemma rw_invI:
  assumes "finite {t. pc t \<noteq> RW_away}" "writer_waiting_count rw = num_at pc {W_waiting, W_waked}"
    "reader_waiting_count rw = num_at pc {R_waiting, R_waked}"
    "distinct (cond_reader rw)" "\<And>t. t \<in> set (cond_reader rw) \<longleftrightarrow> pc t = R_waiting"
    "distinct (cond_writer rw)" "\<And>t. t \<in> set (cond_writer rw) \<longleftrightarrow> pc t = W_waiting"
    "lock_state rw = - 1 \<and> num_at pc {Writes} = 1 \<and> num_at pc {Reads} = 0 \<or> lock_state rw = num_at pc {Reads} \<and> num_at pc {Writes} = 0"
    "lock_state rw = 0 \<Longrightarrow> 0 < writer_waiting_count rw \<Longrightarrow> \<exists>t. pc t = W_waked"
    "0 \<le> lock_state rw \<Longrightarrow> writer_waiting_count rw = 0 \<Longrightarrow> cond_reader rw = []"
  shows "rw_inv rw pc"
  using assms unfolding rw_inv_def rw_core_def by blast

text \<open>A thread that arrives is like one that was waked.\<close>

lemma rw_inv_arrive_r:
  assumes inv: "rw_inv rw pc" and t: "pc t = RW_away"
  shows "rw_inv (rw\<lparr>reader_waiting_count := reader_waiting_count rw + 1\<rparr>) (pc(t := R_waked))"
proof (rule rw_invI)
  fix x
  assume "lock_state (rw\<lparr>reader_waiting_count := reader_waiting_count rw + 1\<rparr>) = 0"
     "0 < writer_waiting_count (rw\<lparr>reader_waiting_count := reader_waiting_count rw + 1\<rparr>)"
  then obtain x where "pc x = W_waked" using rw_invD(8) [OF inv] by auto
  then show "\<exists>x. (pc(t := R_waked)) x = W_waked" using t by (intro exI [of _ x]) auto
qed (use rw_invD [OF inv] rw_nums [OF inv, of t R_waked] rw_inv_finite_upd [OF inv, of t R_waked] t in simp_all)

lemma rw_inv_arrive_w:
  assumes inv: "rw_inv rw pc" and t: "pc t = RW_away"
  shows "rw_inv (rw\<lparr>writer_waiting_count := writer_waiting_count rw + 1\<rparr>) (pc(t := W_waked))"
proof (rule rw_invI)
  show "\<exists>x. (pc(t := W_waked)) x = W_waked" by (intro exI [of _ t]) simp
  assume "writer_waiting_count (rw\<lparr>writer_waiting_count := writer_waiting_count rw + 1\<rparr>) = 0"
  then show "cond_reader (rw\<lparr>writer_waiting_count := writer_waiting_count rw + 1\<rparr>) = []"
    using rw_invD(1) [OF inv] num_at_nonneg [of pc "{W_waiting, W_waked}"] by simp
qed (use rw_invD(1-7) [OF inv] rw_nums [OF inv, of t W_waked] rw_inv_finite_upd [OF inv, of t W_waked] t in simp_all)

lemma rw_inv_loop_r:
  assumes inv: "rw_inv rw pc" and t: "pc t = R_waked" and l: "rwlock_read_loop t rw = (m, got)"
  shows "rw_inv m (pc(t := if got then Reads else R_waiting))"
proof (cases got)
  case True
  have nn: "0 \<le> writer_waiting_count rw" "lock_state rw = - 1 \<or> 0 \<le> lock_state rw" using rw_invD(1,7) [OF inv] by auto
  have m: "m = rw\<lparr>reader_waiting_count := reader_waiting_count rw - 1, lock_state := lock_state rw + 1\<rparr>"
    and g: "0 \<le> lock_state rw" "writer_waiting_count rw = 0"
    using l nn True by (auto simp: rwlock_read_loop_def split: if_splits)
  have "cond_reader rw = []" using rw_invD(9) [OF inv] g by simp
  then have "rw_inv m (pc(t := Reads))" unfolding m
    by (intro rw_invI) (use rw_invD(1-7) [OF inv] rw_nums [OF inv, of t Reads] rw_inv_finite_upd [OF inv, of t Reads] t g in auto)
  then show ?thesis using True by simp
next
  case False
  then have m: "m = rw\<lparr>cond_reader := cond_reader rw @ [t]\<rparr>" and g: "\<not> (0 \<le> lock_state rw \<and> writer_waiting_count rw = 0)"
    using l by (auto simp: rwlock_read_loop_def split: if_splits)
  have "rw_inv m (pc(t := R_waiting))" unfolding m
  proof (rule rw_invI)
    assume "lock_state (rw\<lparr>cond_reader := cond_reader rw @ [t]\<rparr>) = 0" "0 < writer_waiting_count (rw\<lparr>cond_reader := cond_reader rw @ [t]\<rparr>)"
    then obtain x where "pc x = W_waked" using rw_invD(8) [OF inv] by auto
    then show "\<exists>x. (pc(t := R_waiting)) x = W_waked" using t by (intro exI [of _ x]) auto
  qed (use rw_invD(1-7) [OF inv] rw_nums [OF inv, of t R_waiting] rw_inv_finite_upd [OF inv, of t R_waiting] t g in auto)
  then show ?thesis using False by simp
qed

lemma rw_inv_loop_w:
  assumes inv: "rw_inv rw pc" and t: "pc t = W_waked" and l: "rwlock_write_loop t rw = (m, got)"
  shows "rw_inv m (pc(t := if got then Writes else W_waiting))"
proof (cases got)
  case True
  then have m: "m = rw\<lparr>writer_waiting_count := writer_waiting_count rw - 1, lock_state := - 1\<rparr>" and g: "lock_state rw = 0"
    using l by (auto simp: rwlock_write_loop_def split: if_splits)
  then have "num_at pc {Reads} = 0" "num_at pc {Writes} = 0" using rw_invD(7) [OF inv] by auto
  then have "rw_inv m (pc(t := Writes))" unfolding m
    by (intro rw_invI) (use rw_invD(1-6) [OF inv] rw_nums [OF inv, of t Writes] rw_inv_finite_upd [OF inv, of t Writes] t in auto)
  then show ?thesis using True by simp
next
  case False
  then have m: "m = rw\<lparr>cond_writer := cond_writer rw @ [t]\<rparr>" and g: "lock_state rw \<noteq> 0"
    using l by (auto simp: rwlock_write_loop_def split: if_splits)
  have "0 < writer_waiting_count rw" using rw_inv_pos [OF inv, of "{W_waiting, W_waked}" t] rw_invD(1) [OF inv] t by simp
  then have "rw_inv m (pc(t := W_waiting))" unfolding m
    by (intro rw_invI) (use rw_invD(1-7) [OF inv] rw_nums [OF inv, of t W_waiting] rw_inv_finite_upd [OF inv, of t W_waiting] t g in auto)
  then show ?thesis using False by simp
qed

text \<open>Waking threads changes neither who is inside nor how many wait.\<close>

lemma rw_wake_num: "(\<And>p. rw_waked p \<in> S \<longleftrightarrow> p \<in> S) \<Longrightarrow> num_at (rw_wake us pc) S = num_at pc S"
  by (simp add: num_at_def rw_wake_def if_distrib [of "\<lambda>p. p \<in> S"] cong: if_cong)

lemma rw_wake_Nil [simp]: "rw_wake [] pc = pc"
  by (simp add: rw_wake_def)

lemma rw_waked_classes [simp]:
  "rw_waked p = W_waked \<longleftrightarrow> p = W_waiting \<or> p = W_waked"
  "rw_waked p = R_waked \<longleftrightarrow> p = R_waiting \<or> p = R_waked"
  "rw_waked p = Writes \<longleftrightarrow> p = Writes" "rw_waked p = Reads \<longleftrightarrow> p = Reads" "rw_waked p = RW_away \<longleftrightarrow> p = RW_away"
  "rw_waked p \<noteq> R_waiting" "rw_waked p \<noteq> W_waiting"
  by (cases p; simp add: rw_waked_def)+

lemma rw_core_wake:
  assumes c: "rw_core rw pc" and cr: "set cr = set (cond_reader rw) - set us" "distinct cr"
    and cw: "set cw = set (cond_writer rw) - set us" "distinct cw"
  shows "rw_core (rw\<lparr>cond_reader := cr, cond_writer := cw\<rparr>) (rw_wake us pc)"
proof -
  have "{t. rw_wake us pc t \<noteq> RW_away} = {t. pc t \<noteq> RW_away}" by (auto simp: rw_wake_def)
  then show ?thesis using c cr cw by (simp add: rw_core_def rw_wake_num) (auto simp: rw_wake_def)
qed

text \<open>A thread goes out, or from writing to reading: the core of the invariant for the new state of the lock.\<close>

lemma rw_core_release:
  assumes inv: "rw_inv rw pc" and t: "pc t = Reads \<or> pc t = Writes"
  shows "rw_core (rw\<lparr>lock_state := if 0 < lock_state rw then lock_state rw - 1 else lock_state rw + 1\<rparr>) (pc(t := RW_away))"
    and "pc t = Writes \<longleftrightarrow> lock_state rw = - 1" and "lock_state rw = - 1 \<or> 0 < lock_state rw"
proof -
  have r: "pc t = Reads \<Longrightarrow> 0 < num_at pc {Reads}" "pc t = Writes \<Longrightarrow> 0 < num_at pc {Writes}"
    using rw_inv_pos [OF inv, of "{Reads}" t] rw_inv_pos [OF inv, of "{Writes}" t] by simp_all
  show w: "pc t = Writes \<longleftrightarrow> lock_state rw = - 1" and l: "lock_state rw = - 1 \<or> 0 < lock_state rw" using rw_invD(7) [OF inv] t r by auto
  show "rw_core (rw\<lparr>lock_state := if 0 < lock_state rw then lock_state rw - 1 else lock_state rw + 1\<rparr>) (pc(t := RW_away))"
    using t rw_invD(1-7) [OF inv] rw_nums [OF inv, of t RW_away] rw_inv_finite_upd [OF inv, of t RW_away] w l
    unfolding rw_core_def by auto
qed

lemma rw_core_downgrade:
  assumes inv: "rw_inv rw pc" and t: "pc t = Writes"
  shows "rw_core (rw\<lparr>lock_state := 1\<rparr>) (pc(t := Reads))"
proof -
  have "0 < num_at pc {Writes}" using rw_inv_pos [OF inv, of "{Writes}" t] t by simp
  then have "num_at pc {Writes} = 1" "num_at pc {Reads} = 0" using rw_invD(7) [OF inv] by auto
  then show ?thesis
    using t rw_invD(1-6) [OF inv] rw_nums [OF inv, of t Reads] rw_inv_finite_upd [OF inv, of t Reads] unfolding rw_core_def by auto
qed

text \<open>All waiting readers are waked.\<close>

lemma rw_core_broadcast:
  assumes c: "rw_core rw pc"
  shows "rw_core (rw\<lparr>cond_reader := []\<rparr>) (rw_wake (cond_reader rw) pc)"
proof -
  have "set (cond_writer rw) \<inter> set (cond_reader rw) = {}" using c by (auto simp: rw_core_def)
  then have "set (cond_writer rw) = set (cond_writer rw) - set (cond_reader rw)" by auto
  from rw_core_wake [OF c _ _ this, of "[]"] c show ?thesis by (simp add: rw_core_def)
qed

lemma rw_inv_unlock:
  assumes inv: "rw_inv rw pc" and t: "pc t = Reads \<or> pc t = Writes" and u: "rwlock_unlock rw = Inr (m, Some us)"
  shows "rw_inv m (rw_wake us (pc(t := RW_away)))"
proof -
  let ?l = "if 0 < lock_state rw then lock_state rw - 1 else lock_state rw + 1" and ?p = "pc(t := RW_away)"
  let ?r = "rw\<lparr>lock_state := ?l\<rparr>"
  have c: "rw_core ?r ?p" and ls: "pc t = Writes \<longleftrightarrow> lock_state rw = - 1" "lock_state rw = - 1 \<or> 0 < lock_state rw"
    using rw_core_release [OF inv t] by simp_all
  have r: "rwlock_unlock_locked rw = (m, Some us)" "lock_state rw \<noteq> 0" using u ls by (auto simp: rwlock_unlock_def split: if_splits)
  consider (stays) "?l \<noteq> 0" | (writer) u q where "?l = 0" "0 < writer_waiting_count rw" "cond_writer rw = u # q"
    | (none) "?l = 0" "0 < writer_waiting_count rw" "cond_writer rw = []" | (readers) "?l = 0" "\<not> 0 < writer_waiting_count rw"
    by (cases "cond_writer rw") auto
  then show ?thesis
  proof cases
    case stays
    then have m: "m = ?r" "us = []" using r by (auto simp: rwlock_unlock_locked_def Let_def split: if_splits)
    show ?thesis using c stays ls rw_invD(9) [OF inv] by (auto simp: rw_inv_def m split: if_splits)
  next
    case writer
    then have m: "m = ?r\<lparr>cond_writer := q\<rparr>" "us = [u]" using r by (auto simp: rwlock_unlock_locked_def Let_def split: if_splits)
    have w: "pc u = W_waiting" "distinct (u # q)" "u \<notin> set (cond_reader rw)" "u \<noteq> t"
      using rw_invD(4-6) [OF inv] writer(3) t by (metis list.set_intros(1) rwpc.distinct)+
    have "rw_core (?r\<lparr>cond_reader := cond_reader ?r, cond_writer := q\<rparr>) (rw_wake [u] ?p)"
      by (rule rw_core_wake [OF c]) (use w writer(3) rw_invD(3) [OF inv] in auto)
    moreover have "rw_wake [u] ?p u = W_waked" using w by (simp add: rw_wake_def rw_waked_def)
    ultimately show ?thesis using writer(2) by (auto simp: rw_inv_def m)
  next
    case none
    then have m: "m = ?r" "us = []" using r by (auto simp: rwlock_unlock_locked_def Let_def split: if_splits)
    have "0 < num_at pc {W_waiting, W_waked}" using none(2) rw_invD(1) [OF inv] by simp
    then obtain x where "pc x \<in> {W_waiting, W_waked}" using num_at_0 [OF rw_inv_finite [OF inv, of "{W_waiting, W_waked}"]] by fastforce
    then have "pc x = W_waked" using rw_invD(6) [OF inv, of x] none(3) by auto
    then have "\<exists>x. ?p x = W_waked" using t by (intro exI [of _ x]) auto
    then show ?thesis using c none(2) unfolding rw_inv_def m rw_wake_Nil by (simp del: fun_upd_apply)
  next
    case readers
    then have m: "m = ?r\<lparr>cond_reader := []\<rparr>" "us = cond_reader ?r" using r by (auto simp: rwlock_unlock_locked_def Let_def split: if_splits)
    then show ?thesis using rw_core_broadcast [OF c] readers(2) by (auto simp: rw_inv_def)
  qed
qed

lemma rw_inv_reachable: "rw_reachable s \<Longrightarrow> rw_inv (rwl s) (rwpc s)"
proof (induction rule: rw_reachable.induct)
  case (start m0 m)
  then show ?case by (auto simp: rw_inv_def rw_core_def rwlock_init_def num_at_def)
next
  case (step s s')
  note inv = step.IH
  have ls: "lock_state (rwl s) \<noteq> - 2" using rw_invD(7) [OF inv] num_at_nonneg [of "rwpc s" "{Reads}"] by auto
  from step.hyps(2) show ?case
  proof (cases rule: rw_step.cases)
    case (lock_r t m got)
    then have "rwlock_read_loop t ((rwl s)\<lparr>reader_waiting_count := reader_waiting_count (rwl s) + 1\<rparr>) = (m, got)" using ls by (simp add: rwlock_lock_def)
    from rw_inv_loop_r [OF rw_inv_arrive_r [OF inv lock_r(2)] _ this] show ?thesis by (cases got) (simp_all add: lock_r(1) fun_upd_def cong: if_cong)
  next
    case (again_r t m got)
    from rw_inv_loop_r [OF inv again_r(2,3)] show ?thesis by (cases got) (simp_all add: again_r(1) fun_upd_def)
  next
    case (lock_w t m got)
    then have "rwlock_write_loop t ((rwl s)\<lparr>writer_waiting_count := writer_waiting_count (rwl s) + 1\<rparr>) = (m, got)" using ls by (simp add: rwlock_lock_def)
    from rw_inv_loop_w [OF rw_inv_arrive_w [OF inv lock_w(2)] _ this] show ?thesis by (cases got) (simp_all add: lock_w(1) fun_upd_def cong: if_cong)
  next
    case (again_w t m got)
    from rw_inv_loop_w [OF inv again_w(2,3)] show ?thesis by (cases got) (simp_all add: again_w(1) fun_upd_def)
  next
    case (unlock t m us)
    then show ?thesis using rw_inv_unlock [OF inv] by simp
  next
    case (downgrade t m us)
    then have m: "m = (rwl s)\<lparr>lock_state := 1, cond_reader := []\<rparr>" "us = cond_reader ((rwl s)\<lparr>lock_state := 1\<rparr>)"
      by (auto simp: rwlock_downgrade_def split: if_splits)
    show ?thesis using rw_core_broadcast [OF rw_core_downgrade [OF inv downgrade(2)]] by (simp add: rw_inv_def downgrade(1) m)
  qed
qed

text \<open>C22: readers/writers exclusion. In every reachable state, while a thread writes no other thread reads or
  writes, and \<open>lock_state\<close> is -1 exactly then; otherwise it is the number of readers. The waiting counters
  are the numbers of threads that are in the lock call.\<close>

theorem rwlock_exclusion:
  assumes "rw_reachable s"
  shows "(\<forall>t. rwpc s t = Writes \<longrightarrow> lock_state (rwl s) = - 1 \<and> (\<forall>u. u \<noteq> t \<longrightarrow> rwpc s u \<noteq> Writes \<and> rwpc s u \<noteq> Reads)) \<and>
     ((\<forall>t. rwpc s t \<noteq> Writes) \<longrightarrow> lock_state (rwl s) = num_at (rwpc s) {Reads}) \<and>
     writer_waiting_count (rwl s) = num_at (rwpc s) {W_waiting, W_waked} \<and>
     reader_waiting_count (rwl s) = num_at (rwpc s) {R_waiting, R_waked}"
proof -
  have inv: "rw_inv (rwl s) (rwpc s)" by (rule rw_inv_reachable [OF assms])
  have w: "lock_state (rwl s) = - 1 \<and> (\<forall>u. u \<noteq> t \<longrightarrow> rwpc s u \<noteq> Writes \<and> rwpc s u \<noteq> Reads)" if t: "rwpc s t = Writes" for t
  proof -
    have "0 < num_at (rwpc s) {Writes}" using rw_inv_pos [OF inv, of "{Writes}" t] t by simp
    then have l: "lock_state (rwl s) = - 1" "num_at (rwpc s) {Writes} = 1" "num_at (rwpc s) {Reads} = 0" using rw_invD(7) [OF inv] by auto
    obtain x where "{u. rwpc s u = Writes} = {x}" using l(2) by (auto simp: num_at_def card_1_singleton_iff)
    moreover have "\<forall>u. rwpc s u \<noteq> Reads" using l(3) num_at_0 [OF rw_inv_finite [OF inv, of "{Reads}"]] by simp
    ultimately show ?thesis using t l(1) by (metis (mono_tags, lifting) mem_Collect_eq singletonD)
  qed
  moreover have "lock_state (rwl s) = num_at (rwpc s) {Reads}" if "\<forall>t. rwpc s t \<noteq> Writes"
    using rw_invD(7) [OF inv] that by (auto simp: num_at_def)
  ultimately show ?thesis using rw_invD(1,2) [OF inv] by blast
qed

text \<open>A writer inside and a reader that waits.\<close>

lemma rw_run_two: "\<exists>s. rw_reachable s \<and> rwpc s 1 = Writes \<and> rwpc s 2 = R_waiting"
proof -
  let ?m = "\<lparr>lock_state = 0, writer_waiting_count = 0, reader_waiting_count = 0, cond_reader = [], cond_writer = []\<rparr>"
  let ?s0 = "\<lparr>rwl = ?m, rwpc = (\<lambda>_. RW_away)\<rparr> :: rw_sys"
  have r0: "rw_reachable ?s0" by (rule rw_reachable.start [of ?m]) (simp add: rwlock_init_def)
  let ?s1 = "?s0\<lparr>rwl := ?m\<lparr>lock_state := - 1\<rparr>, rwpc := (rwpc ?s0)(1 := if True then Writes else W_waiting)\<rparr>"
  have "rw_step ?s0 ?s1" by (rule rw_step.lock_w) (simp_all add: rwlock_lock_def rwlock_write_loop_def)
  with r0 have r1: "rw_reachable ?s1" by (rule rw_reachable.step)
  let ?s2 = "?s1\<lparr>rwl := ?m\<lparr>lock_state := - 1, reader_waiting_count := 1, cond_reader := [2]\<rparr>, rwpc := (rwpc ?s1)(2 := if False then Reads else R_waiting)\<rparr>"
  have "rw_step ?s1 ?s2" by (rule rw_step.lock_r) (simp_all add: rwlock_lock_def rwlock_read_loop_def)
  with r1 have "rw_reachable ?s2" by (rule rw_reachable.step)
  then show ?thesis by (intro exI [of _ ?s2]) simp
qed

theorem rwlock_exclusion_witness:
  "\<exists>s. rw_reachable s \<and> rwpc s 1 = Writes \<and> rwpc s 2 = R_waiting \<and> lock_state (rwl s) = - 1 \<and> rwpc s 3 \<noteq> Reads"
proof -
  obtain s where s: "rw_reachable s" "rwpc s 1 = Writes" "rwpc s 2 = R_waiting" using rw_run_two by blast
  with rwlock_exclusion [OF s(1)] have "lock_state (rwl s) = - 1" "rwpc s 3 \<noteq> Reads" by (metis numeral_eq_one_iff num.distinct(3), metis numeral_eq_one_iff num.distinct(3))
  with s show ?thesis by blast
qed

text \<open>Nobody is left waiting for a free readers/writers lock. In every reachable state, if the lock is free and
  no thread has been waked, no thread waits; and readers wait only while a writer has the lock or waits for
  it.\<close>

theorem rwlock_nobody_left:
  assumes "rw_reachable s"
  shows "(lock_state (rwl s) = 0 \<and> (\<forall>t. rwpc s t \<noteq> W_waked) \<longrightarrow> (\<forall>t. rwpc s t \<noteq> R_waiting \<and> rwpc s t \<noteq> W_waiting)) \<and>
     ((\<exists>t. rwpc s t = R_waiting) \<longrightarrow> (\<exists>u. rwpc s u \<in> {Writes, W_waiting, W_waked}))"
proof -
  have inv: "rw_inv (rwl s) (rwpc s)" by (rule rw_inv_reachable [OF assms])
  have w0: "writer_waiting_count (rwl s) = 0 \<longleftrightarrow> (\<forall>t. rwpc s t \<noteq> W_waiting \<and> rwpc s t \<noteq> W_waked)"
    using rw_invD(1) [OF inv] num_at_0 [OF rw_inv_finite [OF inv, of "{W_waiting, W_waked}"]] by auto
  have nn: "0 \<le> writer_waiting_count (rwl s)" using rw_invD(1) [OF inv] by simp
  have "rwpc s t \<noteq> R_waiting \<and> rwpc s t \<noteq> W_waiting" if f: "lock_state (rwl s) = 0" "\<forall>t. rwpc s t \<noteq> W_waked" for t
  proof -
    have "writer_waiting_count (rwl s) = 0" using rw_invD(8) [OF inv f(1)] f(2) nn by fastforce
    then show ?thesis using rw_invD(4) [OF inv, of t] w0 f(1) rw_invD(9) [OF inv] by auto
  qed
  moreover have "\<exists>u. rwpc s u \<in> {Writes, W_waiting, W_waked}" if t: "rwpc s t = R_waiting" for t
  proof (rule ccontr)
    assume n: "\<not> ?thesis"
    then have "writer_waiting_count (rwl s) = 0" "num_at (rwpc s) {Writes} = 0" using w0 by (auto simp: num_at_def)
    then have "cond_reader (rwl s) = []" using rw_invD(7,9) [OF inv] by auto
    then show False using rw_invD(4) [OF inv, of t] t by simp
  qed
  ultimately show ?thesis by blast
qed

theorem rwlock_nobody_left_witness:
  "\<exists>s. rw_reachable s \<and> rwpc s 2 = R_waiting \<and> (\<exists>u. rwpc s u \<in> {Writes, W_waiting, W_waked})"
proof -
  obtain s where s: "rw_reachable s" "rwpc s 2 = R_waiting" using rw_run_two by blast
  with rwlock_nobody_left [OF s(1)] show ?thesis by blast
qed

end
