(* ===== verification/User_Hashtable.thy ===== *)
theory User_Hashtable
  imports Hashtable
begin

text \<open>
  The hash table of the user thread library (\<open>user/libthread/hashtable.c\<close>), over its linked nodes: the array
  holds one head node per bucket, whose \<open>next\<close> field begins the chain. It is shown to be equivalent to the
  table of theory \<open>Hashtable\<close>, in which a bucket is a list of pairs; the library is then modelled with that one.
\<close>

section \<open>Nodes\<close>

record hnode_heap =
  hnext :: "u32 \<Rightarrow> u32"
  hkey :: "u32 \<Rightarrow> u32"
  hval :: "u32 \<Rightarrow> u32"
  hlive :: "u32 set"             \<comment> \<open>the nodes that came from \<open>malloc\<close> and have not been freed\<close>

record uhashtable_t =
  uarray :: u32                  \<comment> \<open>the array of head nodes, 12 bytes each\<close>
  usize :: int
  ufunc :: "u32 \<Rightarrow> int"
  ulocked :: bool                \<comment> \<open>the mutex \<open>lock\<close> is held\<close>

definition head_node :: "uhashtable_t \<Rightarrow> int \<Rightarrow> u32" where
  "head_node t i = uarray t + 12 * word_of_int i"

definition ht_lock :: "uhashtable_t \<Rightarrow> uhashtable_t kres" where
  "ht_lock t = (if ulocked t then Inl BLOCKS else Inr (t\<lparr>ulocked := True\<rparr>))"

definition ht_unlock :: "uhashtable_t \<Rightarrow> uhashtable_t" where
  "ht_unlock t = t\<lparr>ulocked := False\<rparr>"

definition hfree :: "u32 \<Rightarrow> hnode_heap \<Rightarrow> hnode_heap" where
  "hfree n h = h\<lparr>hlive := hlive h - {n}\<rparr>"

definition bucket_head :: "uhashtable_t \<Rightarrow> int \<Rightarrow> u32 kres" where
  "bucket_head t i = (if 0 \<le> i \<and> i < usize t then Inr (head_node t i) else Inl FAULT)"

section \<open>Operations\<close>

text \<open>The loop of \<open>hashtable_init\<close> over the heads from \<open>i\<close>.\<close>

fun clear_heads :: "nat \<Rightarrow> int \<Rightarrow> uhashtable_t \<Rightarrow> hnode_heap \<Rightarrow> hnode_heap" where
  "clear_heads 0 i t h = h"
| "clear_heads (Suc n) i t h = clear_heads n (i + 1) t (h\<lparr>hnext := (hnext h)(head_node t i := NULL)\<rparr>)"

text \<open>\<open>arr\<close> is the answer of \<open>malloc\<close>, \<open>mok\<close> whether \<open>mutex_init\<close> succeeded.\<close>

definition uhashtable_init :: "u32 \<Rightarrow> bool \<Rightarrow> uhashtable_t \<times> hnode_heap \<Rightarrow> (uhashtable_t \<times> hnode_heap) \<times> int" where
  "uhashtable_init arr mok = (\<lambda>(t, h).
     let t = t\<lparr>uarray := arr\<rparr> in
     if arr = NULL then ((t, h), - 1)
     else ((t\<lparr>ulocked := False\<rparr>, clear_heads (nat (usize t)) 0 t (h\<lparr>hlive := hlive h \<union> head_node t ` {0 ..< usize t}\<rparr>)), if mok then 0 else - 1))"

text \<open>\<open>hp\<close> is the node: the code repeats \<open>malloc\<close> until it gets one.\<close>

definition uhashtable_put :: "u32 \<Rightarrow> u32 \<Rightarrow> u32 \<Rightarrow> uhashtable_t \<times> hnode_heap \<Rightarrow> (uhashtable_t \<times> hnode_heap) kres" where
  "uhashtable_put hp key v = (\<lambda>(t, h).
     let index = ufunc t key;
         h = h\<lparr>hlive := insert hp (hlive h), hkey := (hkey h)(hp := key), hval := (hval h)(hp := v)\<rparr>
     in kbind (ht_lock t) (\<lambda>t.
        kbind (bucket_head t index) (\<lambda>a.
        let h = h\<lparr>hnext := (hnext h)(hp := hnext h a)\<rparr>;
            h = h\<lparr>hnext := (hnext h)(a := hp)\<rparr>
        in Inr (ht_unlock t, h))))"

partial_function (option) get_loop :: "u32 \<Rightarrow> u32 \<Rightarrow> hnode_heap \<Rightarrow> (u32 \<times> int) option" where
  "get_loop key hp h =
     (if hnext h hp \<noteq> NULL then
        (if hkey h (hnext h hp) = key then Some (hval h (hnext h hp), 1) else get_loop key (hnext h hp) h)
      else Some (NULL, 0))"

declare get_loop.simps [code]

definition uhashtable_get :: "u32 \<Rightarrow> uhashtable_t \<times> hnode_heap \<Rightarrow> ((uhashtable_t \<times> hnode_heap) \<times> u32 \<times> int) kres" where
  "uhashtable_get key = (\<lambda>(t, h).
     let index = ufunc t key in
     kbind (ht_lock t) (\<lambda>t.
     kbind (bucket_head t index) (\<lambda>a.
     case get_loop key a h of None \<Rightarrow> Inl SPINS | Some r \<Rightarrow> Inr ((ht_unlock t, h), r))))"

text \<open>The node that is unlinked is released: \<open>free(tmp)\<close>.\<close>

partial_function (option) remove_loop :: "u32 \<Rightarrow> u32 \<Rightarrow> hnode_heap \<Rightarrow> (hnode_heap \<times> u32 \<times> int) option" where
  "remove_loop key hp h =
     (if hnext h hp \<noteq> NULL then
        (if hkey h (hnext h hp) = key then
           (let tmp = hnext h hp; h' = h\<lparr>hnext := (hnext h)(hp := hnext h (hnext h hp))\<rparr>
            in Some (hfree tmp h', hval h' tmp, 1))
         else remove_loop key (hnext h hp) h)
      else Some (h, NULL, 0))"

declare remove_loop.simps [code]

definition uhashtable_remove :: "u32 \<Rightarrow> uhashtable_t \<times> hnode_heap \<Rightarrow> ((uhashtable_t \<times> hnode_heap) \<times> u32 \<times> int) kres" where
  "uhashtable_remove key = (\<lambda>(t, h).
     let index = ufunc t key in
     kbind (ht_lock t) (\<lambda>t.
     kbind (bucket_head t index) (\<lambda>a.
     case remove_loop key a h of None \<Rightarrow> Inl SPINS | Some (h, r) \<Rightarrow> Inr ((ht_unlock t, h), r))))"

text \<open>The loop of \<open>hashtable_destroy\<close> over one chain and that over the buckets from \<open>i\<close>; with the nodes released, in order.\<close>

partial_function (option) free_chain :: "u32 \<Rightarrow> hnode_heap \<Rightarrow> (hnode_heap \<times> u32 list) option" where
  "free_chain a h =
     (if hnext h a \<noteq> NULL then
        Option.bind (free_chain a (hfree (hnext h a) (h\<lparr>hnext := (hnext h)(a := hnext h (hnext h a))\<rparr>))) (\<lambda>(h', fs). Some (h', hnext h a # fs))
      else Some (h, []))"

declare free_chain.simps [code]

primrec destroy_loop :: "nat \<Rightarrow> int \<Rightarrow> uhashtable_t \<Rightarrow> hnode_heap \<Rightarrow> (hnode_heap \<times> u32 list) option" where
  "destroy_loop 0 i t h = Some (h, [])"
| "destroy_loop (Suc n) i t h =
     Option.bind (free_chain (head_node t i) h) (\<lambda>(h, fs). Option.bind (destroy_loop n (i + 1) t h) (\<lambda>(h, gs). Some (h, fs @ gs)))"

definition uhashtable_destroy :: "uhashtable_t \<times> hnode_heap \<Rightarrow> (hnode_heap \<times> u32 list) kres" where
  "uhashtable_destroy = (\<lambda>(t, h).
     case destroy_loop (nat (usize t)) 0 t h of None \<Rightarrow> Inl SPINS | Some (h, fs) \<Rightarrow> Inr (h\<lparr>hlive := hlive h - head_node t ` {0 ..< usize t}\<rparr>, fs @ [uarray t]))"

section \<open>The chains\<close>

primrec chain :: "hnode_heap \<Rightarrow> u32 \<Rightarrow> u32 list \<Rightarrow> bool" where
  "chain h a [] \<longleftrightarrow> hnext h a = NULL"
| "chain h a (n # ns) \<longleftrightarrow> hnext h a = n \<and> n \<noteq> NULL \<and> chain h n ns"

definition pairs :: "hnode_heap \<Rightarrow> u32 list \<Rightarrow> (u32 \<times> u32) list" where
  "pairs h ns = map (\<lambda>n. (hkey h n, hval h n)) ns"

lemma chain_cong: "\<lbrakk>\<And>n. n \<in> set (a # ns) \<Longrightarrow> hnext h' n = hnext h n\<rbrakk> \<Longrightarrow> chain h' a ns = chain h a ns"
  by (induction ns arbitrary: a) simp_all

lemma chain_relink: "\<lbrakk>chain h a ns; hnext h' b = hnext h a; \<And>x. x \<in> set ns \<Longrightarrow> hnext h' x = hnext h x\<rbrakk> \<Longrightarrow> chain h' b ns"
  using chain_cong [of "hd ns" "tl ns" h' h] by (cases ns) simp_all

text \<open>Every node of a chain is released once, and the loop ends.\<close>

lemma free_chain_frees:
  "\<lbrakk>chain h a ns; distinct (a # ns)\<rbrakk> \<Longrightarrow> \<exists>h'. free_chain a h = Some (h', ns) \<and> (\<forall>x. x \<noteq> a \<longrightarrow> hnext h' x = hnext h x)"
proof (induction ns arbitrary: h)
  case Nil
  then show ?case by (subst free_chain.simps) simp
next
  case (Cons n ns)
  let ?h = "hfree n (h\<lparr>hnext := (hnext h)(a := hnext h n)\<rparr>)"
  have "chain ?h a ns" by (rule chain_relink [of h n]) (use Cons.prems in \<open>auto simp: hfree_def\<close>)
  then obtain h' where h': "free_chain a ?h = Some (h', ns)" "\<forall>x. x \<noteq> a \<longrightarrow> hnext h' x = hnext ?h x" using Cons.IH [of ?h] Cons.prems by auto
  then show ?case using Cons.prems by (subst free_chain.simps) (auto simp: hfree_def)
qed

lemma pairs_cong: "(\<And>x. x \<in> set ns \<Longrightarrow> hkey h' x = hkey h x \<and> hval h' x = hval h x) \<Longrightarrow> pairs h' ns = pairs h ns"
  by (simp add: pairs_def)

lemma get_loop_chain: "chain h a ns \<Longrightarrow> get_loop key a h = Some (chain_get key (pairs h ns))"
  by (induction ns arbitrary: a) (subst get_loop.simps, simp add: pairs_def)+

lemma remove_loop_chain:
  assumes "chain h a ns" and "distinct (a # ns)"
  shows "\<exists>h' ms. remove_loop key a h = Some (h', snd (chain_remove key (pairs h ns))) \<and> chain h' a ms \<and>
     pairs h' ms = fst (chain_remove key (pairs h ns)) \<and> set ms \<subseteq> set ns \<and> distinct ms \<and>
     hkey h' = hkey h \<and> hval h' = hval h \<and> (\<forall>x. x \<notin> set (a # ns) \<longrightarrow> hnext h' x = hnext h x) \<and>
     hlive h - set ns \<subseteq> hlive h' \<and> hlive h \<inter> set ms \<subseteq> hlive h'"
  using assms
proof (induction ns arbitrary: a)
  case Nil
  then show ?case by (subst remove_loop.simps) (auto simp: pairs_def intro: exI [of _ "[]"])
next
  case (Cons n ns)
  show ?case
  proof (cases "hkey h n = key")
    case True
    let ?h = "hfree n (h\<lparr>hnext := (hnext h)(a := hnext h n)\<rparr>)"
    have "chain ?h a ns"
    proof (cases ns)
      case (Cons m ms)
      then have "chain ?h m ms = chain h m ms" using \<open>distinct (a # n # ns)\<close> by (intro chain_cong) (auto simp: hfree_def)
      then show ?thesis using \<open>chain h a (n # ns)\<close> Cons by (simp add: hfree_def)
    qed (use Cons.prems in \<open>auto simp: hfree_def\<close>)
    then show ?thesis using True Cons.prems by (subst remove_loop.simps) (auto simp: pairs_def Let_def hfree_def intro!: exI [of _ ns])
  next
    case False
    obtain h' ms where r: "remove_loop key n h = Some (h', snd (chain_remove key (pairs h ns)))" "chain h' n ms"
      "pairs h' ms = fst (chain_remove key (pairs h ns))" "set ms \<subseteq> set ns" "distinct ms" "hkey h' = hkey h" "hval h' = hval h"
      "\<forall>x. x \<notin> set (n # ns) \<longrightarrow> hnext h' x = hnext h x" "hlive h - set ns \<subseteq> hlive h'" "hlive h \<inter> set ms \<subseteq> hlive h'"
      using Cons.IH [of n] Cons.prems by auto
    have "hnext h' a = n" using r(8) Cons.prems by auto
    then have "chain h' a (n # ms)" using r(2) Cons.prems by simp
    moreover have "remove_loop key a h = Some (h', snd (chain_remove key (pairs h (n # ns))))"
      using False Cons.prems r(1) by (subst remove_loop.simps) (simp add: pairs_def split: prod.splits)
    moreover have "pairs h' (n # ms) = fst (chain_remove key (pairs h (n # ns)))" using False r(3,6,7) by (simp add: pairs_def split: prod.splits)
    ultimately show ?thesis using r Cons.prems by (intro exI [of _ h'] exI [of _ "n # ms"]) auto
  qed
qed

section \<open>Equivalence with the table of lists\<close>

text \<open>\<open>ns ! i\<close> are the nodes of bucket \<open>i\<close>; no node is in two chains and none is a head, and all came from \<open>malloc\<close> and have not
  been freed.\<close>

definition ut_rep :: "uhashtable_t \<times> hnode_heap \<Rightarrow> u32 list list \<Rightarrow> hashtable_t \<Rightarrow> bool" where
  "ut_rep s ns k \<longleftrightarrow> (case s of (t, h) \<Rightarrow> \<not> ulocked t \<and> ufunc t = func k \<and> usize t = ht_size k \<and> length ns = nat (usize t) \<and>
     (\<exists>a. array k = Some a \<and> length a = length ns \<and>
       (\<forall>i < length ns. chain h (head_node t (int i)) (ns ! i) \<and> pairs h (ns ! i) = a ! i)) \<and>
     (\<forall>i < length ns. distinct (head_node t (int i) # ns ! i) \<and> set (head_node t (int i) # ns ! i) \<subseteq> hlive h) \<and>
     (\<forall>i < length ns. \<forall>j < length ns. i \<noteq> j \<longrightarrow> set (head_node t (int i) # ns ! i) \<inter> set (head_node t (int j) # ns ! j) = {}))"

lemma bucket_head_bucket:
  assumes "ut_rep (t, h) ns k"
  shows "(\<exists>j < length ns. i = int j \<and> bucket_head t i = Inr (head_node t (int j)) \<and> bucket k i = Inr (pairs h (ns ! j))) \<or>
     (bucket_head t i = Inl FAULT \<and> bucket k i = Inl FAULT)"
proof (cases "0 \<le> i \<and> i < usize t")
  case True
  then have "nat i < length ns" "i = int (nat i)" using assms by (auto simp: ut_rep_def)
  then show ?thesis using assms True by (intro disjI1 exI [of _ "nat i"]) (auto simp: ut_rep_def bucket_head_def bucket_def)
qed (use assms in \<open>auto simp: ut_rep_def bucket_head_def bucket_def nat_less_iff\<close>)

text \<open>One chain is replaced, and the others are not touched.\<close>

lemma ut_rep_update:
  assumes rep: "ut_rep (t, h) ns k" and j: "j < length ns" and ch: "chain h' (head_node t (int j)) ms" "distinct (head_node t (int j) # ms)"
    and new: "\<And>i. i < length ns \<Longrightarrow> i \<noteq> j \<Longrightarrow> set ms \<inter> set (head_node t (int i) # ns ! i) = {}"
    and keep: "\<And>i x. i < length ns \<Longrightarrow> i \<noteq> j \<Longrightarrow> x \<in> set (head_node t (int i) # ns ! i) \<Longrightarrow> hnext h' x = hnext h x"
    and kv: "\<And>i x. i < length ns \<Longrightarrow> i \<noteq> j \<Longrightarrow> x \<in> set (ns ! i) \<Longrightarrow> hkey h' x = hkey h x \<and> hval h' x = hval h x"
    and live: "set (head_node t (int j) # ms) \<subseteq> hlive h'"
      "\<And>i. i < length ns \<Longrightarrow> i \<noteq> j \<Longrightarrow> set (head_node t (int i) # ns ! i) \<subseteq> hlive h'"
  shows "ut_rep (t, h') (ns[j := ms]) (set_bucket k (int j) (pairs h' ms))"
proof -
  obtain a where a: "array k = Some a" "length a = length ns"
    "\<forall>i < length ns. chain h (head_node t (int i)) (ns ! i) \<and> pairs h (ns ! i) = a ! i" using rep by (auto simp: ut_rep_def)
  have "chain h' (head_node t (int i)) (ns ! i)" "pairs h' (ns ! i) = a ! i" if "i < length ns" "i \<noteq> j" for i
    using a(3) that keep kv chain_cong [of "head_node t (int i)" "ns ! i" h' h] pairs_cong [of "ns ! i" h' h] by auto
  then have "\<forall>i < length ns. chain h' (head_node t (int i)) (ns[j := ms] ! i) \<and> pairs h' (ns[j := ms] ! i) = a[j := pairs h' ms] ! i"
    using ch(1) j a(2) by (auto simp: nth_list_update)
  moreover have "distinct (head_node t (int i) # ns[j := ms] ! i) \<and> set (head_node t (int i) # ns[j := ms] ! i) \<subseteq> hlive h'" if "i < length ns" for i
    using rep ch(2) j live(1) live(2) [OF that] that by (cases "i = j") (auto simp: ut_rep_def)
  moreover have "set (head_node t (int i) # ns[j := ms] ! i) \<inter> set (head_node t (int l) # ns[j := ms] ! l) = {}"
    if il: "i < length ns" "l < length ns" "i \<noteq> l" for i l
  proof -
    have d: "set (head_node t (int i) # ns ! i) \<inter> set (head_node t (int l) # ns ! l) = {}" using rep il by (auto simp: ut_rep_def)
    show ?thesis
    proof (cases "i = j")
      case True
      then show ?thesis using d new [OF il(2)] il by auto
    next
      case False
      then show ?thesis using d new [OF il(1)] il by (cases "l = j") auto
    qed
  qed
  ultimately show ?thesis using rep a(1,2) by (simp add: ut_rep_def)
qed

lemma put_equiv:
  assumes rep: "ut_rep s ns k" and fr: "hp \<noteq> NULL" "hp \<notin> hlive (snd s)"
  shows "(\<exists>s' k' j. uhashtable_put hp key v s = Inr s' \<and> hashtable_put True key v k = Inr (k', 0) \<and>
       ut_rep s' (ns[j := hp # ns ! j]) k') \<or>
     (uhashtable_put hp key v s = Inl FAULT \<and> hashtable_put True key v k = Inl FAULT)"
proof -
  obtain t h where s: "s = (t, h)" by (cases s)
  have hp: "hp \<noteq> NULL" "\<forall>i < length ns. hp \<notin> set (head_node (fst s) (int i) # ns ! i)" using rep fr by (auto simp: ut_rep_def s)
  have t: "\<not> ulocked t" "ufunc t = func k" using rep by (auto simp: ut_rep_def s)
  have un: "ht_unlock (t\<lparr>ulocked := True\<rparr>) = t" using t(1) by (simp add: ht_unlock_def)
  have bh: "bucket_head (t\<lparr>ulocked := True\<rparr>) i = bucket_head t i" for i by (simp add: bucket_head_def head_node_def)
  show ?thesis
  proof (cases "bucket_head t (func k key)")
    case (Inl e)
    then have "bucket_head t (func k key) = Inl FAULT" "bucket k (func k key) = Inl FAULT"
      using bucket_head_bucket [of t h ns k "func k key"] rep by (auto simp: s)
    then show ?thesis using t by (simp add: uhashtable_put_def hashtable_put_def ht_lock_def s bh Let_def)
  next
    case (Inr b)
    then obtain j where j: "j < length ns" "func k key = int j" "b = head_node t (int j)" "bucket k (int j) = Inr (pairs h (ns ! j))"
      using bucket_head_bucket [of t h ns k "func k key"] rep by (auto simp: s)
    let ?a = "head_node t (int j)"
    let ?h = "h\<lparr>hlive := insert hp (hlive h), hkey := (hkey h)(hp := key), hval := (hval h)(hp := v), hnext := (hnext h)(hp := hnext h ?a, ?a := hp)\<rparr>"
    have old: "chain h ?a (ns ! j)" "distinct (?a # ns ! j)" and fresh: "hp \<noteq> ?a" "hp \<notin> set (ns ! j)"
      using rep hp(2) j(1) by (auto simp: ut_rep_def s)
    have "chain ?h hp (ns ! j)" by (rule chain_relink [OF old(1)]) (use old(2) fresh in auto)
    then have ch: "chain ?h ?a (hp # ns ! j)" using hp(1) by simp
    have p: "pairs ?h (hp # ns ! j) = (key, v) # pairs h (ns ! j)" using fresh by (auto simp: pairs_def)
    have "ut_rep (t, ?h) (ns[j := hp # ns ! j]) (set_bucket k (int j) (pairs ?h (hp # ns ! j)))"
    proof (rule ut_rep_update [OF rep [unfolded s] j(1) ch])
      fix i x assume i: "i < length ns" "i \<noteq> j"
      have d: "set (?a # ns ! j) \<inter> set (head_node t (int i) # ns ! i) = {}" "hp \<notin> set (head_node t (int i) # ns ! i)"
        using rep i j(1) hp(2) by (auto simp: ut_rep_def s)
      show "set (hp # ns ! j) \<inter> set (head_node t (int i) # ns ! i) = {}" using d by auto
      show "x \<in> set (head_node t (int i) # ns ! i) \<Longrightarrow> hnext ?h x = hnext h x" using d by auto
      show "x \<in> set (ns ! i) \<Longrightarrow> hkey ?h x = hkey h x \<and> hval ?h x = hval h x" using d by auto
      show "set (head_node t (int i) # ns ! i) \<subseteq> hlive ?h" using rep i by (auto simp: ut_rep_def s)
    qed (use old(2) fresh rep j(1) in \<open>auto simp: ut_rep_def s\<close>)
    moreover have "uhashtable_put hp key v s = Inr (t, ?h)"
      using Inr t j fresh un by (simp add: uhashtable_put_def ht_lock_def s bh Let_def)
    moreover have "hashtable_put True key v k = Inr (set_bucket k (int j) (pairs ?h (hp # ns ! j)), 0)"
      using j p by (simp add: hashtable_put_def)
    ultimately show ?thesis by (auto simp: s)
  qed
qed

lemma get_equiv:
  assumes rep: "ut_rep s ns k"
  shows "uhashtable_get key s = kbind (hashtable_get key k) (\<lambda>r. Inr (s, r))"
proof -
  obtain t h where s: "s = (t, h)" by (cases s)
  have t: "\<not> ulocked t" "ufunc t = func k" using rep by (auto simp: ut_rep_def s)
  have un: "ht_unlock (t\<lparr>ulocked := True\<rparr>) = t" using t(1) by (simp add: ht_unlock_def)
  have bh: "bucket_head (t\<lparr>ulocked := True\<rparr>) i = bucket_head t i" for i by (simp add: bucket_head_def head_node_def)
  consider (out) "bucket_head t (func k key) = Inl FAULT" "bucket k (func k key) = Inl FAULT"
    | (here) j where "j < length ns" "bucket_head t (func k key) = Inr (head_node t (int j))" "bucket k (func k key) = Inr (pairs h (ns ! j))"
    using bucket_head_bucket [of t h ns k "func k key"] rep by (auto simp: s)
  then show ?thesis
  proof cases
    case out
    then show ?thesis using t by (simp add: uhashtable_get_def hashtable_get_def ht_lock_def s bh Let_def)
  next
    case here
    have "chain h (head_node t (int j)) (ns ! j)" using rep here(1) by (auto simp: ut_rep_def s)
    from get_loop_chain [OF this, of key] show ?thesis using t here(2,3) un
      by (simp add: uhashtable_get_def hashtable_get_def ht_lock_def s bh Let_def)
  qed
qed

lemma remove_equiv:
  assumes rep: "ut_rep s ns k"
  shows "(\<exists>s' k' ns' r. uhashtable_remove key s = Inr (s', r) \<and> hashtable_remove key k = Inr (k', r) \<and> ut_rep s' ns' k') \<or>
     (uhashtable_remove key s = Inl FAULT \<and> hashtable_remove key k = Inl FAULT)"
proof -
  obtain t h where s: "s = (t, h)" by (cases s)
  have t: "\<not> ulocked t" "ufunc t = func k" using rep by (auto simp: ut_rep_def s)
  have un: "ht_unlock (t\<lparr>ulocked := True\<rparr>) = t" using t(1) by (simp add: ht_unlock_def)
  have bh: "bucket_head (t\<lparr>ulocked := True\<rparr>) i = bucket_head t i" for i by (simp add: bucket_head_def head_node_def)
  consider (out) "bucket_head t (func k key) = Inl FAULT" "bucket k (func k key) = Inl FAULT"
    | (here) j where "j < length ns" "func k key = int j" "bucket_head t (func k key) = Inr (head_node t (int j))"
        "bucket k (func k key) = Inr (pairs h (ns ! j))"
    using bucket_head_bucket [of t h ns k "func k key"] rep by (auto simp: s)
  then show ?thesis
  proof cases
    case out
    then show ?thesis using t by (simp add: uhashtable_remove_def hashtable_remove_def ht_lock_def s bh Let_def)
  next
    case here
    let ?a = "head_node t (int j)"
    have old: "chain h ?a (ns ! j)" "distinct (?a # ns ! j)" using rep here(1) by (auto simp: ut_rep_def s)
    obtain h' ms where r: "remove_loop key ?a h = Some (h', snd (chain_remove key (pairs h (ns ! j))))" "chain h' ?a ms"
      "pairs h' ms = fst (chain_remove key (pairs h (ns ! j)))" "set ms \<subseteq> set (ns ! j)" "distinct ms" "hkey h' = hkey h" "hval h' = hval h"
      "\<forall>x. x \<notin> set (?a # ns ! j) \<longrightarrow> hnext h' x = hnext h x" "hlive h - set (ns ! j) \<subseteq> hlive h'" "hlive h \<inter> set ms \<subseteq> hlive h'"
      using remove_loop_chain [OF old] by blast
    have l: "set (head_node t (int i) # ns ! i) \<subseteq> hlive h" if "i < length ns" for i using rep that by (auto simp: ut_rep_def s)
    have "ut_rep (t, h') (ns[j := ms]) (set_bucket k (int j) (pairs h' ms))"
    proof (rule ut_rep_update [OF rep [unfolded s] here(1) r(2)])
      fix i x assume i: "i < length ns" "i \<noteq> j"
      have d: "set (?a # ns ! j) \<inter> set (head_node t (int i) # ns ! i) = {}" using rep i here(1) by (auto simp: ut_rep_def s)
      show "set ms \<inter> set (head_node t (int i) # ns ! i) = {}" using d r(4) by auto
      show "x \<in> set (head_node t (int i) # ns ! i) \<Longrightarrow> hnext h' x = hnext h x" using d r(8) by blast
      show "set (head_node t (int i) # ns ! i) \<subseteq> hlive h'" using d r(9) l [OF i(1)] by auto
    next
      show "set (?a # ms) \<subseteq> hlive h'" using l [OF here(1)] old(2) r(4,9,10) by auto
    qed (use old(2) r(4-7) in auto)
    moreover have "uhashtable_remove key s = Inr ((t, h'), snd (chain_remove key (pairs h (ns ! j))))"
      using here(3) t r(1) un by (simp add: uhashtable_remove_def ht_lock_def s bh Let_def)
    moreover have "hashtable_remove key k = Inr (set_bucket k (int j) (pairs h' ms), snd (chain_remove key (pairs h (ns ! j))))"
      using here(2,4) r(3) by (simp add: hashtable_remove_def split: prod.splits)
    ultimately show ?thesis by (intro disjI1 exI conjI) (auto simp: s)
  qed
qed

text \<open>An initialised table is empty.\<close>

lemma head_node_inj:
  assumes "12 * usize t \<le> 2 ^ 32" and "0 \<le> i" "i < usize t" "0 \<le> j" "j < usize t" and "head_node t i = head_node t j"
  shows "i = j"
proof -
  have "12 * word_of_int i = (12 * word_of_int j :: u32)" using assms(6) by (simp add: head_node_def)
  then have "(word_of_int (12 * i) :: u32) = word_of_int (12 * j)" by simp
  then have "take_bit 32 (12 * i) = take_bit 32 (12 * j)" unfolding word_of_int_eq_iff by simp
  moreover have "12 * i < 2 ^ 32" "12 * j < 2 ^ 32" using assms(1-5) by linarith+
  ultimately show ?thesis using assms(2,4) by (simp add: take_bit_int_eq_self)
qed

lemma clear_heads_next:
  "hnext (clear_heads n i t h) x = (if \<exists>j. i \<le> j \<and> j < i + int n \<and> x = head_node t j then NULL else hnext h x)"
proof (induction n arbitrary: i h)
  case (Suc n)
  have "(\<exists>j. i \<le> j \<and> j < i + int (Suc n) \<and> x = head_node t j) \<longleftrightarrow> x = head_node t i \<or> (\<exists>j. i + 1 \<le> j \<and> j < i + 1 + int n \<and> x = head_node t j)"
  proof -
    have "i \<le> j \<and> j < i + int (Suc n) \<longleftrightarrow> j = i \<or> i + 1 \<le> j \<and> j < i + 1 + int n" for j by auto
    then show ?thesis by metis
  qed
  then show ?case using Suc [of "i + 1" "h\<lparr>hnext := (hnext h)(head_node t i := NULL)\<rparr>"] by (auto simp del: of_nat_Suc)
qed auto

lemma clear_heads_live: "hlive (clear_heads n i t h) = hlive h"
  by (induction n arbitrary: i h) simp_all

lemma init_rep:
  assumes "arr \<noteq> NULL" and "0 \<le> usize t" and "12 * usize t \<le> 2 ^ 32"
  shows "ut_rep (fst (uhashtable_init arr True (t, h))) (replicate (nat (usize t)) [])
     (fst (hashtable_init True \<lparr>array = None, ht_size = usize t, func = ufunc t\<rparr>))"
proof -
  let ?t = "t\<lparr>uarray := arr\<rparr>"
  have hd: "head_node (?t\<lparr>ulocked := False\<rparr>) i = head_node ?t i" for i by (simp add: head_node_def)
  have inj: "i \<noteq> j \<Longrightarrow> i < nat (usize t) \<Longrightarrow> j < nat (usize t) \<Longrightarrow> head_node ?t (int i) \<noteq> head_node ?t (int j)" for i j
    using head_node_inj [of ?t "int i" "int j"] assms(2,3) by (auto simp: nat_less_iff zless_nat_eq_int_zless)
  let ?h = "h\<lparr>hlive := hlive h \<union> head_node ?t ` {0 ..< usize t}\<rparr>"
  have live: "head_node ?t (int i) \<in> head_node ?t ` {0 ..< usize t}" if "i < nat (usize t)" for i using that by (intro imageI) auto
  have "hnext (clear_heads (nat (usize t)) 0 ?t ?h) (head_node ?t (int i)) = NULL" if "i < nat (usize t)" for i
  proof -
    have "\<exists>j. 0 \<le> j \<and> j < 0 + int (nat (usize t)) \<and> head_node ?t (int i) = head_node ?t j" using that by (intro exI [of _ "int i"]) auto
    then show ?thesis unfolding clear_heads_next by simp
  qed
  then show ?thesis using assms(1,2) inj live
    by (auto simp: ut_rep_def uhashtable_init_def hashtable_init_def hd pairs_def Let_def clear_heads_live)
qed

section \<open>Sequences of calls\<close>

datatype hop = Put u32 u32 u32 | Get u32 | Remove u32     \<comment> \<open>the first argument of \<open>Put\<close> is the new node\<close>

fun user_results :: "hop list \<Rightarrow> uhashtable_t \<times> hnode_heap \<Rightarrow> (u32 \<times> int) list kres" where
  "user_results [] s = Inr []"
| "user_results (Put hp key v # ops) s = kbind (uhashtable_put hp key v s) (user_results ops)"
| "user_results (Get key # ops) s = kbind (uhashtable_get key s) (\<lambda>(s, r). kbind (user_results ops s) (\<lambda>rs. Inr (r # rs)))"
| "user_results (Remove key # ops) s = kbind (uhashtable_remove key s) (\<lambda>(s, r). kbind (user_results ops s) (\<lambda>rs. Inr (r # rs)))"

fun table_results :: "hop list \<Rightarrow> hashtable_t \<Rightarrow> (u32 \<times> int) list kres" where
  "table_results [] k = Inr []"
| "table_results (Put hp key v # ops) k = kbind (hashtable_put True key v k) (\<lambda>(k, rv). table_results ops k)"
| "table_results (Get key # ops) k = kbind (hashtable_get key k) (\<lambda>r. kbind (table_results ops k) (\<lambda>rs. Inr (r # rs)))"
| "table_results (Remove key # ops) k = kbind (hashtable_remove key k) (\<lambda>(k, r). kbind (table_results ops k) (\<lambda>rs. Inr (r # rs)))"

text \<open>The answers of \<open>malloc\<close> in a run: each is not \<open>NULL\<close> and not a node in use at that time; a node that a removal has freed may
  come again.\<close>

fun malloc_answers_ok :: "hop list \<Rightarrow> uhashtable_t \<times> hnode_heap \<Rightarrow> bool" where
  "malloc_answers_ok [] s \<longleftrightarrow> True"
| "malloc_answers_ok (Put hp key v # ops) s \<longleftrightarrow> hp \<noteq> NULL \<and> hp \<notin> hlive (snd s) \<and>
     (case uhashtable_put hp key v s of Inl e \<Rightarrow> True | Inr s' \<Rightarrow> malloc_answers_ok ops s')"
| "malloc_answers_ok (Get key # ops) s \<longleftrightarrow> (case uhashtable_get key s of Inl e \<Rightarrow> True | Inr (s', r) \<Rightarrow> malloc_answers_ok ops s')"
| "malloc_answers_ok (Remove key # ops) s \<longleftrightarrow> (case uhashtable_remove key s of Inl e \<Rightarrow> True | Inr (s', r) \<Rightarrow> malloc_answers_ok ops s')"

lemma results_equal:
  assumes "ut_rep s ns k" and "malloc_answers_ok ops s"
  shows "user_results ops s = table_results ops k"
  using assms
proof (induction ops arbitrary: s ns k)
  case (Cons x ops)
  show ?case
  proof (cases x)
    case (Put hp key v)
    have hp: "hp \<noteq> NULL" "hp \<notin> hlive (snd s)" using Cons.prems(2) Put by simp_all
    from put_equiv [OF Cons.prems(1) hp, of key v] show ?thesis
    proof (elim disjE exE conjE)
      fix s' k' j assume "uhashtable_put hp key v s = Inr s'" "hashtable_put True key v k = Inr (k', 0)" "ut_rep s' (ns[j := hp # ns ! j]) k'"
      then show ?thesis using Cons.IH [of s'] Cons.prems(2) Put by auto
    qed (simp add: Put)
  next
    case (Get key)
    then show ?thesis using get_equiv [OF Cons.prems(1), of key] Cons.IH [OF Cons.prems(1)] Cons.prems(2)
      by (cases "hashtable_get key k") simp_all
  next
    case (Remove key)
    from remove_equiv [OF Cons.prems(1), of key] show ?thesis
    proof (elim disjE exE conjE)
      fix s' k' ns' r assume "uhashtable_remove key s = Inr (s', r)" "hashtable_remove key k = Inr (k', r)" "ut_rep s' ns' k'"
      then show ?thesis using Cons.IH [of s' ns' k'] Cons.prems(2) Remove by simp
    qed (simp add: Remove)
  qed
qed simp

section \<open>Properties\<close>

text \<open>C27: the linked table and the table of lists are equivalent. From an initialised table, every sequence of
  \<open>hashtable_put\<close>, \<open>hashtable_get\<close> and \<open>hashtable_remove\<close> of the user library, run on its linked nodes, gives
  the same results (values, \<open>is_find\<close> and wild accesses for a hash out of range) as the same calls on the
  table whose buckets are lists, and every loop over a chain ends. Of \<open>malloc\<close> it is assumed only that a node it
  returns is not in use at that time: not a head, and not a node that it returned before and that was not freed since. The
  nodes that \<open>hashtable_remove\<close> frees may be used again.\<close>

theorem uhashtable_equivalent:
  assumes "arr \<noteq> NULL" and "0 \<le> usize t" and "12 * usize t \<le> 2 ^ 32"
    and "malloc_answers_ok ops (fst (uhashtable_init arr True (t, h)))"
  shows "user_results ops (fst (uhashtable_init arr True (t, h))) =
     table_results ops (fst (hashtable_init True \<lparr>array = None, ht_size = usize t, func = ufunc t\<rparr>))"
  by (rule results_equal [OF init_rep [OF assms(1-3)] assms(4)])

text \<open>Two keys of one bucket; the node of the removed pair is handed out again, for a key of another bucket.\<close>

definition reuse_ops :: "hop list" where
  "reuse_ops = [Put 0x100 7 40, Put 0x200 10 41, Remove 7, Put 0x100 8 42, Get 10, Get 8, Get 7]"

definition reuse_start :: "uhashtable_t \<times> hnode_heap" where
  "reuse_start = (\<lparr>uarray = 0, usize = 3, ufunc = (\<lambda>k. uint k mod 3), ulocked = True\<rparr>,
     \<lparr>hnext = (\<lambda>_. 5), hkey = (\<lambda>_. 0), hval = (\<lambda>_. 0), hlive = {}\<rparr>)"

theorem uhashtable_equivalent_witness:
  "malloc_answers_ok reuse_ops (fst (uhashtable_init 0x1000 True reuse_start)) \<and>
   user_results reuse_ops (fst (uhashtable_init 0x1000 True reuse_start)) = Inr [(40, 1), (41, 1), (42, 1), (NULL, 0)]"
proof -
  have ok: "malloc_answers_ok reuse_ops (fst (uhashtable_init 0x1000 True (fst reuse_start, snd reuse_start)))"
    by code_simp
  have "table_results reuse_ops (fst (hashtable_init True \<lparr>array = None, ht_size = usize (fst reuse_start), func = ufunc (fst reuse_start)\<rparr>)) =
     Inr [(40, 1), (41, 1), (42, 1), (NULL, 0)]"
    by code_simp
  then show ?thesis using ok uhashtable_equivalent [OF _ _ _ ok] by (simp add: reuse_start_def)
qed

end
