(* ===== verification/Thread_Slots.thy ===== *)
theory Thread_Slots
  imports Kern_Prelude
begin

text \<open>
  The table of threads of the user thread library (\<open>user/libthread/arraytcb.c\<close>): which thread uses which
  stack. The array holds pointers to control blocks, index by stack; freed indexes are kept in a list for
  reuse. The caller's mutex is part of the state, as its operations are calls inside the insertion.
\<close>

section \<open>Data\<close>

datatype thr_state_t = RUNNING | JOINED

record utcb_t =
  tcb_ktid :: int
  tcb_tid :: int
  tcb_state :: thr_state_t
  cond_ok :: bool              \<comment> \<open>the initialisation of \<open>cond_var\<close> succeeded\<close>
  joiners :: "int list"        \<comment> \<open>the threads that wait on \<open>cond_var\<close>\<close>

record arraytcb_s =
  maxsize :: int
  cursize :: int
  data :: "u32 list"
  avail_list :: "int list"
  blocks :: "u32 \<rightharpoonup> utcb_t"    \<comment> \<open>the control blocks that are allocated\<close>
  array_locked :: bool         \<comment> \<open>the mutex that protects the table is held\<close>

definition lock_array :: "arraytcb_s \<Rightarrow> arraytcb_s kres" where
  "lock_array a = (if array_locked a then Inl BLOCKS else Inr (a\<lparr>array_locked := True\<rparr>))"

definition unlock_array :: "arraytcb_s \<Rightarrow> arraytcb_s" where
  "unlock_array a = a\<lparr>array_locked := False\<rparr>"

text \<open>Access to the array at an \<open>int\<close> index.\<close>

definition get_data :: "int \<Rightarrow> arraytcb_s \<Rightarrow> u32 kres" where
  "get_data i a = (if 0 \<le> i \<and> i < int (length (data a)) then Inr (data a ! nat i) else Inl FAULT)"

definition put_data :: "int \<Rightarrow> u32 \<Rightarrow> arraytcb_s \<Rightarrow> arraytcb_s kres" where
  "put_data i p a = (if 0 \<le> i \<and> i < int (length (data a)) then Inr (a\<lparr>data := (data a)[nat i := p]\<rparr>) else Inl FAULT)"

section \<open>Operations\<close>

text \<open>\<open>arr\<close>, \<open>dat\<close> and \<open>lst\<close> are the answers of the allocator; that of \<open>calloc\<close> is not tested by the code.\<close>

definition arraytcb_init :: "u32 \<Rightarrow> u32 \<Rightarrow> u32 \<Rightarrow> int \<Rightarrow> arraytcb_s \<Rightarrow> arraytcb_s \<times> int" where
  "arraytcb_init arr dat lst sz a =
     (if sz \<le> 0 then (a, - 1)
      else if arr = NULL then (a, - 1)
      else let a = a\<lparr>maxsize := sz, cursize := 0, data := (if dat = NULL then [] else replicate (nat sz) NULL)\<rparr> in
        if lst = NULL then (a, - 1) else (a\<lparr>avail_list := []\<rparr>, 0))"

definition double_array :: "u32 \<Rightarrow> arraytcb_s \<Rightarrow> (arraytcb_s \<times> int) kres" where
  "double_array dat a =
     (let newsize = maxsize a * 2 in
      if dat = NULL then Inr (a, - 1)
      else if int (length (data a)) < cursize a then Inl FAULT
      else Inr (a\<lparr>maxsize := newsize, data := take (nat (cursize a)) (data a) @ replicate (nat (newsize - cursize a)) NULL\<rparr>, 0))"

text \<open>\<open>thr\<close> and \<open>dat\<close> are the answers of \<open>malloc\<close> and of the \<open>calloc\<close> in \<open>double_array\<close>, \<open>cok\<close> whether \<open>cond_init\<close>
  succeeded, \<open>junk\<close> what the new block held before in \<open>ktid\<close>.\<close>

definition new_block :: "int \<Rightarrow> bool \<Rightarrow> int \<Rightarrow> utcb_t" where
  "new_block junk cok tid = \<lparr>tcb_ktid = junk, tcb_tid = tid, tcb_state = RUNNING, cond_ok = cok, joiners = []\<rparr>"

definition arraytcb_insert_thread :: "u32 \<Rightarrow> u32 \<Rightarrow> int \<Rightarrow> bool \<Rightarrow> int \<Rightarrow> arraytcb_s \<Rightarrow> (arraytcb_s \<times> int) kres" where
  "arraytcb_insert_thread thr dat junk cok tid a =
     (if thr = NULL then Inr (a, - 1)
      else
        kbind (lock_array (a\<lparr>blocks := (blocks a)(thr \<mapsto> new_block junk cok tid)\<rparr>)) (\<lambda>a.
        case avail_list a of
          index # l \<Rightarrow> kbind (put_data index thr (a\<lparr>avail_list := l\<rparr>)) (\<lambda>a. Inr (unlock_array a, index))
        | [] \<Rightarrow>
            kbind (if cursize a = maxsize a then double_array dat a else Inr (a, 0)) (\<lambda>(a, rv).
            if rv < 0 then Inr (a\<lparr>blocks := (blocks a)(thr := None)\<rparr>, - 1)
            else let index = cursize a in
              kbind (put_data index thr (a\<lparr>cursize := cursize a + 1\<rparr>)) (\<lambda>a. Inr (unlock_array a, index)))))"

text \<open>Called with the mutex held. \<open>cond_destroy\<close> waits until nobody waits on the condition variable, which
  cannot happen while the caller holds the mutex that the waiting threads need.\<close>

definition arraytcb_delete_thread :: "int \<Rightarrow> arraytcb_s \<Rightarrow> (arraytcb_s \<times> int) kres" where
  "arraytcb_delete_thread index a =
     kbind (get_data index a) (\<lambda>thr.
     if thr = NULL then Inr (a, - 1)
     else
       kbind (put_data index NULL a) (\<lambda>a.
       kbind (kderef (blocks a) thr) (\<lambda>b.
       if \<not> cond_ok b then Inl PANIC
       else if joiners b \<noteq> [] then Inl SPINS
       else Inr (a\<lparr>blocks := (blocks a)(thr := None), avail_list := index # avail_list a\<rparr>, 0))))"

definition arraytcb_get_thread :: "int \<Rightarrow> arraytcb_s \<Rightarrow> u32 kres" where
  "arraytcb_get_thread index a = (if index < 0 \<or> cursize a \<le> index then Inr NULL else get_data index a)"

fun find_in :: "u32 list \<Rightarrow> int \<Rightarrow> (u32 \<rightharpoonup> utcb_t) \<Rightarrow> u32 kres" where
  "find_in [] tid m = Inr NULL"
| "find_in (p # ps) tid m =
     (if p \<noteq> NULL then kbind (kderef m p) (\<lambda>b. if tcb_tid b = tid then Inr p else find_in ps tid m) else find_in ps tid m)"

definition arraytcb_find_thread :: "int \<Rightarrow> arraytcb_s \<Rightarrow> u32 kres" where
  "arraytcb_find_thread tid a = find_in (take (nat (cursize a)) (data a)) tid (blocks a)"

definition mod_block :: "u32 \<Rightarrow> (utcb_t \<Rightarrow> utcb_t) \<Rightarrow> arraytcb_s \<Rightarrow> arraytcb_s kres" where
  "mod_block p f a = kbind (kderef (blocks a) p) (\<lambda>b. Inr (a\<lparr>blocks := (blocks a)(p \<mapsto> f b)\<rparr>))"

definition arraytcb_set_ktid :: "int \<Rightarrow> int \<Rightarrow> arraytcb_s \<Rightarrow> (arraytcb_s \<times> int) kres" where
  "arraytcb_set_ktid index ktid a =
     (if cursize a \<le> index then Inr (a, - 1)
      else kbind (get_data index a) (\<lambda>p.
        if p = NULL then Inr (a, - 1) else kbind (mod_block p (\<lambda>b. b\<lparr>tcb_ktid := ktid\<rparr>) a) (\<lambda>a. Inr (a, 0))))"

definition arraytcb_is_valid :: "int \<Rightarrow> arraytcb_s \<Rightarrow> int" where
  "arraytcb_is_valid index a = (if index < 0 \<or> cursize a \<le> index then 0 else 1)"

text \<open>The blocks that are released, in order; the array and its descriptor follow.\<close>

definition arraytcb_free :: "arraytcb_s \<Rightarrow> u32 list" where
  "arraytcb_free a = filter (\<lambda>p. p \<noteq> NULL) (take (nat (cursize a)) (data a))"

section \<open>The invariant\<close>

text \<open>The free indexes below \<open>cursize\<close> are exactly those in the list, each once; each block is in one slot.\<close>

definition slots_ok :: "arraytcb_s \<Rightarrow> bool" where
  "slots_ok a \<longleftrightarrow> 0 < maxsize a \<and> int (length (data a)) = maxsize a \<and> 0 \<le> cursize a \<and> cursize a \<le> maxsize a \<and>
     distinct (avail_list a) \<and> (\<forall>i. i \<in> set (avail_list a) \<longleftrightarrow> 0 \<le> i \<and> i < cursize a \<and> data a ! nat i = NULL) \<and>
     (\<forall>i < length (data a). data a ! i \<noteq> NULL \<longrightarrow> blocks a (data a ! i) \<noteq> None) \<and>
     (\<forall>i j. i < length (data a) \<longrightarrow> j < length (data a) \<longrightarrow> data a ! i = data a ! j \<longrightarrow> data a ! i \<noteq> NULL \<longrightarrow> i = j)"

text \<open>The slot that a thread has.\<close>

definition slot :: "arraytcb_s \<Rightarrow> int \<Rightarrow> u32" where
  "slot a i = (if 0 \<le> i \<and> i < cursize a then data a ! nat i else NULL)"

lemma arraytcb_init_ok:
  assumes "arraytcb_init arr dat lst sz a = (a', 0)" and "dat \<noteq> NULL"
  shows "slots_ok a' \<and> (\<forall>i. slot a' i = NULL)"
  using assms by (auto simp: arraytcb_init_def slots_ok_def slot_def Let_def split: if_splits)

lemma slots_okI:
  assumes "0 < maxsize a" "int (length (data a)) = maxsize a" "0 \<le> cursize a" "cursize a \<le> maxsize a" "distinct (avail_list a)"
    "\<And>i. i \<in> set (avail_list a) \<longleftrightarrow> 0 \<le> i \<and> i < cursize a \<and> data a ! nat i = NULL"
    "\<And>i. i < length (data a) \<Longrightarrow> data a ! i \<noteq> NULL \<Longrightarrow> blocks a (data a ! i) \<noteq> None"
    "\<And>i j. i < length (data a) \<Longrightarrow> j < length (data a) \<Longrightarrow> data a ! i = data a ! j \<Longrightarrow> data a ! i \<noteq> NULL \<Longrightarrow> i = j"
  shows "slots_ok a"
  using assms unfolding slots_ok_def by blast

lemma slots_okD:
  assumes "slots_ok a"
  shows "0 < maxsize a" "int (length (data a)) = maxsize a" "0 \<le> cursize a" "cursize a \<le> maxsize a" "distinct (avail_list a)"
    "\<And>i. i \<in> set (avail_list a) \<longleftrightarrow> 0 \<le> i \<and> i < cursize a \<and> data a ! nat i = NULL"
    "\<And>i. i < length (data a) \<Longrightarrow> data a ! i \<noteq> NULL \<Longrightarrow> blocks a (data a ! i) \<noteq> None"
    "\<And>i j. i < length (data a) \<Longrightarrow> j < length (data a) \<Longrightarrow> data a ! i = data a ! j \<Longrightarrow> data a ! i \<noteq> NULL \<Longrightarrow> i = j"
  using assms unfolding slots_ok_def by blast+

text \<open>A new block in a slot that no thread has.\<close>

lemma slots_ok_put:
  assumes ok: "slots_ok a" and i: "i < length (data a)" and thr: "thr \<noteq> NULL" "blocks a thr = None"
    and l: "distinct l" "\<And>j. j \<in> set l \<longleftrightarrow> 0 \<le> j \<and> j < n \<and> (data a)[i := thr] ! nat j = NULL" and n: "0 \<le> n" "n \<le> maxsize a"
  shows "slots_ok (a\<lparr>blocks := (blocks a)(thr \<mapsto> b), avail_list := l, data := (data a)[i := thr], cursize := n, array_locked := k\<rparr>)"
proof (rule slots_okI)
  have fresh: "data a ! j \<noteq> thr" if "j < length (data a)" for j using slots_okD(7) [OF ok that] thr by auto
  fix x y
  let ?a = "a\<lparr>blocks := (blocks a)(thr \<mapsto> b), avail_list := l, data := (data a)[i := thr], cursize := n, array_locked := k\<rparr>"
  assume x: "x < length (data ?a)"
  show "data ?a ! x \<noteq> NULL \<Longrightarrow> blocks ?a (data ?a ! x) \<noteq> None" using x slots_okD(7) [OF ok, of x] by (cases "x = i") auto
  assume y: "y < length (data ?a)" and e: "data ?a ! x = data ?a ! y" "data ?a ! x \<noteq> NULL"
  then show "x = y" using x fresh [of x] fresh [of y] slots_okD(8) [OF ok, of x y] by (cases "x = i"; cases "y = i") auto
qed (use slots_okD(1,2) [OF ok] l n in simp_all)

lemma double_array_ok:
  assumes ok: "slots_ok a" and full: "cursize a = maxsize a" and "dat \<noteq> NULL"
  shows "\<exists>a'. double_array dat a = Inr (a', 0) \<and> slots_ok a' \<and> a' = a\<lparr>maxsize := maxsize a * 2, data := data a @ replicate (nat (maxsize a)) NULL\<rparr>"
proof -
  let ?a = "a\<lparr>maxsize := maxsize a * 2, data := data a @ replicate (nat (maxsize a)) NULL\<rparr>"
  have len: "nat (cursize a) = length (data a)" "nat (maxsize a * 2 - cursize a) = nat (maxsize a)" using slots_okD [OF ok] full by auto
  have "double_array dat a = Inr (?a, 0)" using assms(3) slots_okD(2) [OF ok] full len by (simp add: double_array_def Let_def)
  moreover have "slots_ok ?a"
  proof (rule slots_okI)
    fix i j
    assume i: "i < length (data ?a)"
    then show "data ?a ! i \<noteq> NULL \<Longrightarrow> blocks ?a (data ?a ! i) \<noteq> None" using slots_okD(7) [OF ok, of i] by (auto simp: nth_append split: if_splits)
    assume "j < length (data ?a)" "data ?a ! i = data ?a ! j" "data ?a ! i \<noteq> NULL"
    then show "i = j" using i slots_okD(8) [OF ok, of i j] by (auto simp: nth_append split: if_splits)
  next
    fix i show "i \<in> set (avail_list ?a) \<longleftrightarrow> 0 \<le> i \<and> i < cursize ?a \<and> data ?a ! nat i = NULL"
      using slots_okD(6) [OF ok, of i] slots_okD(2) [OF ok] full by (auto simp: nth_append)
  qed (use slots_okD [OF ok] full in auto)
  ultimately show ?thesis by blast
qed

text \<open>With no free index the next one is used.\<close>

lemma insert_at_end:
  assumes ok: "slots_ok a" and l: "avail_list a = []" and lim: "cursize a < maxsize a" and thr: "thr \<noteq> NULL" "blocks a thr = None"
    and a': "a' = a\<lparr>blocks := (blocks a)(thr \<mapsto> b), cursize := cursize a + 1, data := (data a)[nat (cursize a) := thr], array_locked := k\<rparr>"
  shows "slots_ok a' \<and> slot a' (cursize a) = thr \<and> (\<forall>j. j \<noteq> cursize a \<longrightarrow> slot a' j = slot a j)"
proof -
  have c: "0 \<le> cursize a" "nat (cursize a) < length (data a)" using slots_okD [OF ok] lim by auto
  have "a' = a\<lparr>blocks := (blocks a)(thr \<mapsto> b), avail_list := [], data := (data a)[nat (cursize a) := thr], cursize := cursize a + 1, array_locked := k\<rparr>"
    using l by (simp add: a')
  moreover have "slots_ok \<dots>"
  proof (rule slots_ok_put [OF ok c(2) thr])
    fix j show "j \<in> set [] \<longleftrightarrow> 0 \<le> j \<and> j < cursize a + 1 \<and> (data a)[nat (cursize a) := thr] ! nat j = NULL"
      using slots_okD(6) [OF ok, of j] l c thr(1) by (cases "j = cursize a") (auto simp: nth_list_update)
  qed (use c lim in simp_all)
  moreover have "slot a' (cursize a) = thr" using c by (simp add: slot_def a')
  moreover have "\<forall>j. j \<noteq> cursize a \<longrightarrow> slot a' j = slot a j" using c by (auto simp: slot_def a' nth_list_update)
  ultimately show ?thesis by simp
qed

text \<open>A freed index is used again.\<close>

lemma insert_reuse:
  assumes ok: "slots_ok a" and l: "avail_list a = i # rest" and thr: "thr \<noteq> NULL" "blocks a thr = None"
    and a': "a' = a\<lparr>blocks := (blocks a)(thr \<mapsto> b), avail_list := rest, data := (data a)[nat i := thr], array_locked := k\<rparr>"
  shows "0 \<le> i \<and> i < cursize a \<and> slot a i = NULL \<and> slots_ok a' \<and> slot a' i = thr \<and> (\<forall>j. j \<noteq> i \<longrightarrow> slot a' j = slot a j)"
proof -
  have i: "0 \<le> i" "i < cursize a" "data a ! nat i = NULL" and rest: "distinct rest" "i \<notin> set rest"
    using slots_okD(5) [OF ok] slots_okD(6) [OF ok, of i] l by auto
  have n: "nat i < length (data a)" using i slots_okD(2,4) [OF ok] by auto
  have "a' = a\<lparr>blocks := (blocks a)(thr \<mapsto> b), avail_list := rest, data := (data a)[nat i := thr], cursize := cursize a, array_locked := k\<rparr>"
    by (simp add: a')
  moreover have "slots_ok \<dots>"
  proof (rule slots_ok_put [OF ok n thr rest(1)])
    fix j show "j \<in> set rest \<longleftrightarrow> 0 \<le> j \<and> j < cursize a \<and> (data a)[nat i := thr] ! nat j = NULL"
      using slots_okD(6) [OF ok, of j] l rest i n thr(1) by (cases "j = i") (auto simp: nth_list_update)
  qed (use slots_okD(3,4) [OF ok] in simp_all)
  moreover have "slot a' i = thr" using i n by (simp add: slot_def a')
  moreover have "\<forall>j. j \<noteq> i \<longrightarrow> slot a' j = slot a j" using i n by (auto simp: slot_def a' nth_list_update)
  ultimately show ?thesis using i by (simp add: slot_def)
qed

lemma delete_thread_ok:
  assumes ok: "slots_ok a" and i: "0 \<le> i" "i < cursize a" and thr: "slot a i = thr" "thr \<noteq> NULL"
    and b: "blocks a thr = Some b" "cond_ok b" "joiners b = []"
  shows "\<exists>a'. arraytcb_delete_thread i a = Inr (a', 0) \<and> slots_ok a' \<and> slot a' i = NULL \<and> (\<forall>j. j \<noteq> i \<longrightarrow> slot a' j = slot a j) \<and>
     a' = a\<lparr>data := (data a)[nat i := NULL], blocks := (blocks a)(thr := None), avail_list := i # avail_list a\<rparr>"
proof -
  let ?a = "a\<lparr>data := (data a)[nat i := NULL], blocks := (blocks a)(thr := None), avail_list := i # avail_list a\<rparr>"
  have n: "nat i < length (data a)" "i < int (length (data a))" "data a ! nat i = thr" using i thr slots_okD(2,4) [OF ok] by (auto simp: slot_def)
  have "slots_ok ?a"
  proof (rule slots_okI)
    fix j show "j \<in> set (avail_list ?a) \<longleftrightarrow> 0 \<le> j \<and> j < cursize ?a \<and> data ?a ! nat j = NULL"
      using slots_okD(6) [OF ok, of j] i n by (cases "j = i") (auto simp: nth_list_update)
  next
    fix x y assume x: "x < length (data ?a)"
    have other: "data a ! x \<noteq> thr" if "x \<noteq> nat i" using slots_okD(8) [OF ok, of x "nat i"] that x n thr(2) by auto
    show "data ?a ! x \<noteq> NULL \<Longrightarrow> blocks ?a (data ?a ! x) \<noteq> None"
      using x slots_okD(7) [OF ok, of x] other by (cases "x = nat i") auto
    show "y < length (data ?a) \<Longrightarrow> data ?a ! x = data ?a ! y \<Longrightarrow> data ?a ! x \<noteq> NULL \<Longrightarrow> x = y"
      using x slots_okD(8) [OF ok, of x y] by (cases "x = nat i"; cases "y = nat i") auto
  next
    show "distinct (avail_list ?a)" using slots_okD(5) [OF ok] slots_okD(6) [OF ok, of i] n thr(2) by auto
  qed (use slots_okD(1-4) [OF ok] in simp_all)
  moreover have "arraytcb_delete_thread i a = Inr (?a, 0)"
    using i n thr(2) b by (simp add: arraytcb_delete_thread_def get_data_def put_data_def)
  moreover have "slot ?a i = NULL" "\<forall>j. j \<noteq> i \<longrightarrow> slot ?a j = slot a j" using i n by (auto simp: slot_def nth_list_update)
  ultimately show ?thesis by blast
qed

text \<open>The search finds the thread, if it has a slot.\<close>

lemma find_in_correct:
  assumes "\<And>p. p \<in> set ps \<Longrightarrow> p \<noteq> NULL \<Longrightarrow> m p \<noteq> None"
  shows "\<exists>p. find_in ps tid m = Inr p \<and> (p \<noteq> NULL \<longrightarrow> p \<in> set ps \<and> (\<exists>b. m p = Some b \<and> tcb_tid b = tid)) \<and>
     (p = NULL \<longrightarrow> (\<forall>q \<in> set ps. q \<noteq> NULL \<longrightarrow> (\<forall>b. m q = Some b \<longrightarrow> tcb_tid b \<noteq> tid)))"
  using assms
proof (induction ps)
  case (Cons p ps)
  obtain r where r: "find_in ps tid m = Inr r" "r \<noteq> NULL \<longrightarrow> r \<in> set ps \<and> (\<exists>b. m r = Some b \<and> tcb_tid b = tid)"
    "r = NULL \<longrightarrow> (\<forall>q \<in> set ps. q \<noteq> NULL \<longrightarrow> (\<forall>b. m q = Some b \<longrightarrow> tcb_tid b \<noteq> tid))" using Cons by auto
  show ?case
  proof (cases "p = NULL")
    case False
    then obtain b where b: "m p = Some b" using Cons.prems [of p] by auto
    show ?thesis using False b r by (cases "tcb_tid b = tid") auto
  qed (use r in auto)
qed simp

lemma find_thread_correct:
  assumes ok: "slots_ok a"
  shows "\<exists>p. arraytcb_find_thread tid a = Inr p \<and> (p \<noteq> NULL \<longrightarrow> (\<exists>i b. slot a i = p \<and> blocks a p = Some b \<and> tcb_tid b = tid)) \<and>
     (p = NULL \<longrightarrow> (\<forall>i b. slot a i \<noteq> NULL \<longrightarrow> blocks a (slot a i) = Some b \<longrightarrow> tcb_tid b \<noteq> tid))"
proof -
  let ?ps = "take (nat (cursize a)) (data a)"
  have len: "nat (cursize a) \<le> length (data a)" using slots_okD(2-4) [OF ok] by auto
  have live: "p \<in> set ?ps \<Longrightarrow> \<exists>i. slot a i = p" for p
    using slots_okD(3) [OF ok] by (force simp: in_set_conv_nth slot_def intro: exI [of _ "int k" for k])
  have dom: "p \<in> set ?ps \<Longrightarrow> p \<noteq> NULL \<Longrightarrow> blocks a p \<noteq> None" for p
    using slots_okD(7) [OF ok] by (metis in_set_conv_nth in_set_takeD)
  have slot: "slot a i \<noteq> NULL \<Longrightarrow> slot a i \<in> set ?ps" for i
    using len by (auto simp: slot_def in_set_conv_nth intro: exI [of _ "nat i"])
  from find_in_correct [of ?ps "blocks a" tid] dom obtain p where
    p: "find_in ?ps tid (blocks a) = Inr p" "p \<noteq> NULL \<longrightarrow> p \<in> set ?ps \<and> (\<exists>b. blocks a p = Some b \<and> tcb_tid b = tid)"
      "p = NULL \<longrightarrow> (\<forall>q \<in> set ?ps. q \<noteq> NULL \<longrightarrow> (\<forall>b. blocks a q = Some b \<longrightarrow> tcb_tid b \<noteq> tid))" by auto
  show ?thesis unfolding arraytcb_find_thread_def using p live slot by (intro exI [of _ p]) blast
qed

text \<open>A new thread gets a slot of its own.\<close>

lemma insert_thread_correct:
  assumes "slots_ok a" and "\<not> array_locked a" and "thr \<noteq> NULL" and "blocks a thr = None" and "dat \<noteq> NULL"
  shows "\<exists>a' i. arraytcb_insert_thread thr dat junk cok tid a = Inr (a', i) \<and> slots_ok a' \<and> \<not> array_locked a' \<and>
     i = (case avail_list a of [] \<Rightarrow> cursize a | i # _ \<Rightarrow> i) \<and> slot a i = NULL \<and> slot a' i = thr \<and>
     blocks a' = (blocks a)(thr \<mapsto> new_block junk cok tid) \<and> (\<forall>j. j \<noteq> i \<longrightarrow> slot a' j = slot a j)"
proof (cases "avail_list a")
  case (Cons i rest)
  let ?a = "a\<lparr>blocks := (blocks a)(thr \<mapsto> new_block junk cok tid), avail_list := rest, data := (data a)[nat i := thr], array_locked := False\<rparr>"
  have r: "0 \<le> i \<and> i < cursize a \<and> slot a i = NULL \<and> slots_ok ?a \<and> slot ?a i = thr \<and> (\<forall>j. j \<noteq> i \<longrightarrow> slot ?a j = slot a j)"
    by (rule insert_reuse [OF assms(1) Cons assms(3,4) refl])
  have "i < int (length (data a))" using r slots_okD(2,4) [OF assms(1)] by simp
  then have "arraytcb_insert_thread thr dat junk cok tid a = Inr (?a, i)"
    using assms(2,3) Cons r by (simp add: arraytcb_insert_thread_def lock_array_def put_data_def unlock_array_def)
  with r Cons show ?thesis by (intro exI [of _ ?a] exI [of _ i]) simp
next
  case Nil
  define g where "g = (if cursize a = maxsize a then a\<lparr>maxsize := maxsize a * 2, data := data a @ replicate (nat (maxsize a)) NULL\<rparr> else a)"
  have g: "slots_ok g" "avail_list g = []" "blocks g = blocks a" "cursize g = cursize a" "cursize g < maxsize g" "\<forall>j. slot g j = slot a j"
    using double_array_ok [OF assms(1) _ assms(5)] Nil slots_okD(1-4) [OF assms(1)] assms(1) by (auto simp: g_def slot_def nth_append)
  let ?a = "g\<lparr>blocks := (blocks g)(thr \<mapsto> new_block junk cok tid), cursize := cursize g + 1, data := (data g)[nat (cursize g) := thr], array_locked := False\<rparr>"
  have r: "slots_ok ?a \<and> slot ?a (cursize g) = thr \<and> (\<forall>j. j \<noteq> cursize g \<longrightarrow> slot ?a j = slot g j)"
    by (rule insert_at_end [OF g(1,2,5) assms(3) _ refl]) (simp add: g(3) assms(4))
  let ?l = "a\<lparr>blocks := (blocks a)(thr \<mapsto> new_block junk cok tid), array_locked := True\<rparr>"
  have dbl: "(if cursize ?l = maxsize ?l then double_array dat ?l else Inr (?l, 0)) =
     Inr (g\<lparr>blocks := (blocks a)(thr \<mapsto> new_block junk cok tid), array_locked := True\<rparr>, 0)"
    using slots_okD(1,2) [OF assms(1)] assms(5) by (auto simp: g_def double_array_def Let_def)
  have lim: "0 \<le> cursize a" "cursize a < int (length (data g))" using g(4,5) slots_okD(2,3) [OF g(1)] by simp_all
  have "arraytcb_insert_thread thr dat junk cok tid a = Inr (?a, cursize a)"
    using assms(2,3) Nil dbl lim g(3,4)
    by (simp add: arraytcb_insert_thread_def lock_array_def put_data_def unlock_array_def Let_def)
  with r Nil g(3,4,6) show ?thesis by (intro exI [of _ ?a] exI [of _ "cursize a"]) (simp add: slot_def)
qed

section \<open>Properties\<close>

text \<open>A new thread gets a stack of its own. With memory left, \<open>arraytcb_insert_thread\<close> puts the new block
  into a slot that no thread had, reusing the index freed last if there is one and doubling the array when
  it is full; every other thread keeps its slot, the table stays sound and the mutex is released.\<close>

theorem arraytcb_insert_correct:
  assumes "slots_ok a" and "\<not> array_locked a" and "thr \<noteq> NULL" and "blocks a thr = None" and "dat \<noteq> NULL"
  shows "\<exists>a' i. arraytcb_insert_thread thr dat junk cok tid a = Inr (a', i) \<and> slots_ok a' \<and> \<not> array_locked a' \<and>
     i = (case avail_list a of [] \<Rightarrow> cursize a | i # _ \<Rightarrow> i) \<and> slot a i = NULL \<and> slot a' i = thr \<and>
     blocks a' = (blocks a)(thr \<mapsto> new_block junk cok tid) \<and> (\<forall>j. j \<noteq> i \<longrightarrow> slot a' j = slot a j)"
  by (rule insert_thread_correct [OF assms])

definition slots_example :: arraytcb_s where
  "slots_example = \<lparr>maxsize = 2, cursize = 2, data = [0x100, 0x200], avail_list = [],
     blocks = [0x100 \<mapsto> new_block 7 True 0, 0x200 \<mapsto> new_block 8 True 1], array_locked = False\<rparr>"

lemma slots_example_ok: "slots_ok slots_example"
  by (rule slots_okI) (auto simp: slots_example_def nth_Cons less_Suc_eq split: nat.splits)

theorem arraytcb_insert_correct_witness:
  "\<exists>a' i. arraytcb_insert_thread 0x300 0x400 0 True 2 slots_example = Inr (a', i) \<and> slots_ok a' \<and> i = 2 \<and> slot a' 2 = 0x300 \<and> slot a' 1 = 0x200"
proof -
  have e: "avail_list slots_example = []" "cursize slots_example = 2" "slot slots_example 1 = 0x200" by (simp_all add: slots_example_def slot_def)
  from arraytcb_insert_correct [OF slots_example_ok, of "0x300" "0x400" 0 True 2] obtain a' i where
    r: "arraytcb_insert_thread 0x300 0x400 0 True 2 slots_example = Inr (a', i)" "slots_ok a'" "i = 2" "slot a' i = 0x300"
      "\<forall>j. j \<noteq> i \<longrightarrow> slot a' j = slot slots_example j" using e by (auto simp: slots_example_def)
  then show ?thesis using e(3) by (intro exI [of _ a'] exI [of _ i]) simp
qed

text \<open>A failed insertion keeps the mutex. When the array is full and cannot be doubled, \<open>arraytcb_insert_thread\<close>
  returns -1 without releasing the mutex of the table: every later insertion blocks.\<close>

theorem arraytcb_insert_keeps_lock:
  assumes "slots_ok a" and "\<not> array_locked a" and "avail_list a = []" and "cursize a = maxsize a" and "thr \<noteq> NULL"
  shows "\<exists>a'. arraytcb_insert_thread thr NULL junk cok tid a = Inr (a', - 1) \<and> array_locked a' \<and>
     (\<forall>thr' dat' junk' cok' tid'. thr' \<noteq> NULL \<longrightarrow> arraytcb_insert_thread thr' dat' junk' cok' tid' a' = Inl BLOCKS)"
  using assms by (simp add: arraytcb_insert_thread_def lock_array_def double_array_def Let_def)

theorem arraytcb_insert_keeps_lock_witness:
  "\<exists>a'. arraytcb_insert_thread 0x300 NULL 0 True 2 slots_example = Inr (a', - 1) \<and> array_locked a' \<and>
     arraytcb_insert_thread 0x300 0x400 0 True 2 a' = Inl BLOCKS"
  using arraytcb_insert_keeps_lock [OF slots_example_ok, of "0x300" 0 True 2] by (auto simp: slots_example_def)

end
