(* ===== verification/Thread_Stacks.thy ===== *)
theory Thread_Stacks
  imports Thread_Slots Syscall_Base VM_Space
begin

text \<open>
  The stacks of threads (\<open>user/libthread/thr_lib_helper.c\<close>): stack 0 is the one the kernel made for the root
  thread, stack \<open>i\<close> lies \<open>i\<close> times the stack size below its lower end. Stacks need not be multiples of a page,
  so that neighbours share pages, and a page must be removed only when no thread alive uses it.
\<close>

section \<open>State\<close>

record stacks_t =
  root_low :: u32       \<comment> \<open>\<open>root_thread_stack_low\<close>, 0 until the first thread is created\<close>
  root_high :: u32
  stack_size :: u32

definition ALIGNMENT :: u32 where "ALIGNMENT = 4"
definition ERROR_MISALIGNMENT :: u32 where "ERROR_MISALIGNMENT = 3"
definition ERROR_NEW_PAGES_OVERLAP_EXISTING_REGION :: int where "ERROR_NEW_PAGES_OVERLAP_EXISTING_REGION = - 258"
definition PG_SIZE :: u32 where "PG_SIZE = 4096"

definition thr_lib_helper_init :: "u32 \<Rightarrow> u32 \<Rightarrow> stacks_t \<Rightarrow> stacks_t \<times> int" where
  "thr_lib_helper_init get_root_high sz st = (st\<lparr>stack_size := sz, root_high := get_root_high\<rparr>, 0)"

definition thread_stack_low :: "int \<Rightarrow> stacks_t \<Rightarrow> u32" where
  "thread_stack_low index st = root_low st - word_of_int index * stack_size st"

definition thread_stack_high :: "int \<Rightarrow> stacks_t \<Rightarrow> u32" where
  "thread_stack_high index st = thread_stack_low index st + stack_size st - 1"

section \<open>Allocation\<close>

text \<open>\<open>while(new_stack_top % ALIGNMENT != 0) new_stack_top--\<close>\<close>

function align_down :: "u32 \<Rightarrow> u32" where
  "align_down x = (if x mod 4 \<noteq> 0 then align_down (x - 1) else x)"
  by auto
termination
proof (relation "measure unat")
  fix x :: u32 assume "x mod 4 \<noteq> 0"
  then have "x \<noteq> 0" by auto
  then have "unat (x - 1) < unat x" by (metis Suc_pred' lessI unat_gt_0 unat_minus_one)
  then show "(x - 1, x) \<in> measure unat" by simp
qed simp

declare align_down.simps [simp del]

text \<open>\<open>root\<close> is \<open>get_root_thread_stack_low\<close> and \<open>np\<close> the system call \<open>new_pages\<close>, over the state \<open>e\<close> of the rest.\<close>

definition fixate_root :: "('e \<Rightarrow> 'e \<times> u32) \<Rightarrow> int \<Rightarrow> stacks_t \<times> 'e \<Rightarrow> (stacks_t \<times> 'e) \<times> bool" where
  "fixate_root root index = (\<lambda>(st, e).
     if index = 1 \<and> root_low st = 0 then
       (case root e of (e, l) \<Rightarrow> ((st\<lparr>root_low := l\<rparr>, e), l mod ALIGNMENT = 0))
     else ((st, e), True))"

text \<open>The three parts of the region: \<open>Inl\<close> carries the error that is returned.\<close>

definition alloc_stack :: "(u32 \<Rightarrow> u32 \<Rightarrow> 'e \<Rightarrow> 'e \<times> int) \<Rightarrow> u32 \<Rightarrow> u32 \<Rightarrow> 'e \<Rightarrow> 'e \<times> int" where
  "alloc_stack np low high e =
     (let low_page = low AND PAGE_ALIGN_MASK; high_page = high AND PAGE_ALIGN_MASK;
          num_pages = (high_page - low_page) div PG_SIZE
      in case np high_page PG_SIZE e of (e, ret) \<Rightarrow>
         if ret \<noteq> 0 \<and> ret \<noteq> ERROR_NEW_PAGES_OVERLAP_EXISTING_REGION then (e, ret)
         else case (if 1 < num_pages then np (low_page + PG_SIZE) ((num_pages - 1) * PG_SIZE) e else (e, 0)) of (e, ret) \<Rightarrow>
         if ret \<noteq> 0 then (e, ret)
         else if low_page \<noteq> high_page then
           (case np low_page PG_SIZE e of (e, ret) \<Rightarrow>
            if ret \<noteq> 0 \<and> ret \<noteq> ERROR_NEW_PAGES_OVERLAP_EXISTING_REGION then (e, ret) else (e, 0))
         else (e, 0))"

definition get_new_stack_top ::
  "('e \<Rightarrow> 'e \<times> u32) \<Rightarrow> (u32 \<Rightarrow> u32 \<Rightarrow> 'e \<Rightarrow> 'e \<times> int) \<Rightarrow> int \<Rightarrow> stacks_t \<times> 'e \<Rightarrow> (stacks_t \<times> 'e) \<times> u32" where
  "get_new_stack_top root np index s =
     (case fixate_root root index s of ((st, e), ok) \<Rightarrow>
      if \<not> ok then ((st, e), ERROR_MISALIGNMENT)
      else if index = 0 then ((st, e), root_low st)
      else let low = thread_stack_low index st; high = thread_stack_high index st in
        case alloc_stack np low high e of (e, ret) \<Rightarrow>
        if ret \<noteq> 0 then ((st, e), word_of_int ret) else ((st, e), align_down high))"

section \<open>Which pages to remove\<close>

record page_remove_info =
  highest_page_base :: u32
  highest_page_can_remove :: int
  middle_pages_base :: u32
  middle_pages_can_remove :: int
  lowest_page_base :: u32
  lowest_page_can_remove :: int

text \<open>The loop over the stacks above that share the highest page, and the one over the stacks below that share
  the lowest page: 0 if a thread alive uses the page.\<close>

function upper_loop :: "arraytcb_s \<Rightarrow> u32 \<Rightarrow> u32 \<Rightarrow> int \<Rightarrow> int \<Rightarrow> u32 \<Rightarrow> int kres" where
  "upper_loop a sz high_page index i upper_stack_low =
     (if upper_stack_low AND PAGE_ALIGN_MASK = high_page \<and> index - 1 \<noteq> 0 then
        (if arraytcb_is_valid (index - i) a = 0 then Inr 1
         else case arraytcb_get_thread (index - i) a of Inl e \<Rightarrow> Inl e
           | Inr p \<Rightarrow> if p \<noteq> NULL then Inr 0 else upper_loop a sz high_page index (i + 1) (upper_stack_low + sz))
      else Inr 1)"
  by auto
termination
  by (relation "measure (\<lambda>(a, sz, hp, index, i, u). nat (index - i + 1))") (auto simp: arraytcb_is_valid_def split: if_splits)

function lower_loop :: "arraytcb_s \<Rightarrow> u32 \<Rightarrow> u32 \<Rightarrow> int \<Rightarrow> int \<Rightarrow> u32 \<Rightarrow> int kres" where
  "lower_loop a sz low_page index i lower_stack_high =
     (if lower_stack_high AND PAGE_ALIGN_MASK = low_page then
        (if arraytcb_is_valid (index + i) a = 0 then Inr 1
         else case arraytcb_get_thread (index + i) a of Inl e \<Rightarrow> Inl e
           | Inr p \<Rightarrow> if p \<noteq> NULL then Inr 0 else lower_loop a sz low_page index (i + 1) (lower_stack_high - sz))
      else Inr 1)"
  by auto
termination
  by (relation "measure (\<lambda>(a, sz, lp, index, i, u). nat (cursize a - (index + i)))") (auto simp: arraytcb_is_valid_def split: if_splits)

declare upper_loop.simps [simp del] lower_loop.simps [simp del]

definition get_pages_to_remove :: "int \<Rightarrow> arraytcb_s \<Rightarrow> stacks_t \<Rightarrow> page_remove_info \<Rightarrow> page_remove_info kres" where
  "get_pages_to_remove index a st info =
     (if index = 0 then
        Inr (info\<lparr>highest_page_can_remove := 0, middle_pages_can_remove := 0, lowest_page_can_remove := 0\<rparr>)
      else
        let low = thread_stack_low index st; high = thread_stack_high index st;
            high_page = high AND PAGE_ALIGN_MASK; low_page = low AND PAGE_ALIGN_MASK
        in kbind (upper_loop a (stack_size st) high_page index 1 (high + 1)) (\<lambda>can_remove.
           let info = (if can_remove \<noteq> 0 then info\<lparr>highest_page_base := high_page, highest_page_can_remove := 1\<rparr>
                       else info\<lparr>highest_page_can_remove := 0\<rparr>);
               num_pages = (high_page - low_page) div PG_SIZE;
               info = (if 1 < num_pages then info\<lparr>middle_pages_base := low_page + PG_SIZE, middle_pages_can_remove := 1\<rparr>
                       else info\<lparr>middle_pages_can_remove := 0\<rparr>)
           in kbind (lower_loop a (stack_size st) low_page index 1 (low - 1)) (\<lambda>can_remove.
              Inr (if low_page \<noteq> high_page then
                     (if can_remove \<noteq> 0 then info\<lparr>lowest_page_base := low_page, lowest_page_can_remove := 1\<rparr>
                      else info\<lparr>lowest_page_can_remove := 0\<rparr>)
                   else info\<lparr>lowest_page_can_remove := 0,
                     highest_page_can_remove := (if highest_page_can_remove info \<noteq> 0 \<and> can_remove \<noteq> 0 then 1 else 0)\<rparr>))))"

section \<open>The stack of an address\<close>

definition get_stack_position_index :: "u32 \<Rightarrow> stacks_t \<Rightarrow> int" where
  "get_stack_position_index esp st =
     (if esp \<le> root_high st \<and> root_low st \<le> esp then 0
      else sint (1 + (root_low st - esp - 1) div stack_size st))"

section \<open>The regions of the stacks\<close>

text \<open>All stacks up to the \<open>n\<close>-th lie above address 0.\<close>

definition stacks_fit :: "stacks_t \<Rightarrow> nat \<Rightarrow> bool" where
  "stacks_fit st n \<longleftrightarrow> 0 < unat (stack_size st) \<and> n * unat (stack_size st) \<le> unat (root_low st)"

lemma stacks_fit_le: "stacks_fit st n \<Longrightarrow> k \<le> n \<Longrightarrow> stacks_fit st k"
  unfolding stacks_fit_def by (meson le_trans mult_le_mono1)

lemma unat_thread_stack_low:
  assumes "stacks_fit st k"
  shows "unat (thread_stack_low (int k) st) = unat (root_low st) - k * unat (stack_size st)"
proof -
  have b: "k * unat (stack_size st) < 2 ^ 32" using assms u32_bound [of "root_low st"] by (simp add: stacks_fit_def)
  have "word_of_int (int k) * stack_size st = (word_of_nat (k * unat (stack_size st)) :: u32)" by simp
  then have u: "unat (word_of_int (int k) * stack_size st) = k * unat (stack_size st)" using b by (simp only: unat_word_of_nat32)
  then have "word_of_int (int k) * stack_size st \<le> root_low st" using assms by (simp add: word_le_nat_alt stacks_fit_def)
  then show ?thesis using u by (simp add: thread_stack_low_def unat_sub)
qed

lemma unat_thread_stack_high:
  assumes "stacks_fit st (Suc k)"
  shows "unat (thread_stack_high (int (Suc k)) st) = unat (root_low st) - k * unat (stack_size st) - 1"
proof -
  let ?S = "unat (stack_size st)" and ?R = "unat (root_low st)"
  have f: "0 < ?S" "Suc k * ?S \<le> ?R" using assms by (simp_all add: stacks_fit_def)
  have l: "unat (thread_stack_low (int (Suc k)) st) = ?R - Suc k * ?S" by (rule unat_thread_stack_low [OF assms])
  have "?R - Suc k * ?S + ?S < 2 ^ 32" using f u32_bound [of "root_low st"] by simp
  then have s: "unat (thread_stack_low (int (Suc k)) st + stack_size st) = ?R - k * ?S" using f l by (simp add: unat_word_ariths(1))
  have ne: "thread_stack_low (int (Suc k)) st + stack_size st \<noteq> 0" using s f by (metis add_lessD1 diff_is_0_eq mult_Suc not_le unat_0 less_add_same_cancel2 order_less_le_trans)
  show ?thesis using s unat_minus_one [OF ne] by (simp add: thread_stack_high_def)
qed

definition in_stack :: "stacks_t \<Rightarrow> nat \<Rightarrow> u32 \<Rightarrow> bool" where
  "in_stack st k x \<longleftrightarrow> thread_stack_low (int k) st \<le> x \<and> x \<le> thread_stack_high (int k) st"

lemma in_stack_unat:
  assumes "stacks_fit st (Suc k)"
  shows "in_stack st (Suc k) x \<longleftrightarrow> unat (root_low st) - Suc k * unat (stack_size st) \<le> unat x \<and>
     unat x < unat (root_low st) - k * unat (stack_size st)"
proof -
  have "k * unat (stack_size st) < unat (root_low st)" using assms by (auto simp: stacks_fit_def)
  then show ?thesis using unat_thread_stack_low [OF assms] unat_thread_stack_high [OF assms] by (auto simp: in_stack_def word_le_nat_alt)
qed

text \<open>Every address of a stack leads to its index.\<close>

lemma stack_index_of_address:
  assumes fit: "stacks_fit st (Suc k)" and x: "in_stack st (Suc k) x" and k: "Suc k < 2 ^ 31"
  shows "get_stack_position_index x st = int (Suc k)"
proof -
  let ?S = "unat (stack_size st)" and ?R = "unat (root_low st)"
  have S: "0 < ?S" and ks: "Suc k * ?S \<le> ?R" using fit by (simp_all add: stacks_fit_def)
  have x': "?R - Suc k * ?S \<le> unat x" "unat x < ?R - k * ?S" using x in_stack_unat [OF fit] by simp_all
  have lt: "unat x < ?R" using x'(2) by linarith
  then have d: "unat (root_low st - x) = ?R - unat x" by (simp add: unat_sub word_le_nat_alt)
  have "root_low st - x \<noteq> 0" using lt by auto
  from unat_minus_one [OF this] have d1: "unat (root_low st - x - 1) = ?R - unat x - 1" using d by simp
  have "(?R - unat x - 1) div ?S = k"
    by (rule div_nat_eqI) (use x' S ks in \<open>auto simp: algebra_simps\<close>)
  then have q: "unat ((root_low st - x - 1) div stack_size st) = k" using d1 by (simp add: unat_div)
  have "(root_low st - x - 1) div stack_size st = word_of_nat k" unfolding q [symmetric] by simp
  then have "sint (1 + (root_low st - x - 1) div stack_size st) = int (Suc k)" using sint_word_of_nat32 [OF k] by (simp only: of_nat_Suc)
  moreover have "\<not> root_low st \<le> x" using lt by (simp add: word_le_nat_alt)
  ultimately show ?thesis by (simp add: get_stack_position_index_def)
qed

lemma unat_mod4: "unat ((x :: u32) mod 4) = unat x mod 4" "(x :: u32) mod 4 = 0 \<longleftrightarrow> unat x mod 4 = 0"
proof -
  show u: "unat (x mod 4) = unat x mod 4" by (simp add: unat_mod)
  show "x mod 4 = 0 \<longleftrightarrow> unat x mod 4 = 0" unfolding u [symmetric] by (simp add: unat_eq_0)
qed

lemma unat_align_down: "unat (align_down x) = unat x div 4 * 4"
proof (induction x rule: align_down.induct)
  case (1 x)
  show ?case
  proof (cases "x mod 4 = 0")
    case False
    have "x \<noteq> 0" using False by auto
    from unat_minus_one [OF this] have u: "unat (x - 1) = unat x - 1" .
    have m: "unat x mod 4 \<noteq> 0" using False by (simp add: unat_mod4)
    have "unat (align_down x) = (unat x - 1) div 4 * 4" using 1 False u by (simp add: align_down.simps [of x])
    also have "(unat x - 1) div 4 = unat x div 4" using m by (cases "unat x") (simp_all add: div_Suc)
    finally show ?thesis .
  next
    case True
    then have "unat x mod 4 = 0" by (simp add: unat_mod4)
    then show ?thesis using True by (simp add: align_down.simps [of x]) presburger
  qed
qed

text \<open>A successful \<open>get_new_stack_top\<close> for a slot above 0.\<close>

lemma new_stack_top:
  assumes "get_new_stack_top root np (int (Suc k)) (st, e) = ((st', e'), x)" and "stacks_fit st' (Suc k)" and "16 \<le> unat (stack_size st')"
    and ok: "snd (fixate_root root (int (Suc k)) (st, e))"
    and np: "snd (alloc_stack np (thread_stack_low (int (Suc k)) st') (thread_stack_high (int (Suc k)) st') (snd (fst (fixate_root root (int (Suc k)) (st, e))))) = 0"
  shows "x mod 4 = 0 \<and> in_stack st' (Suc k) x \<and> in_stack st' (Suc k) (x - 12)"
proof -
  let ?S = "unat (stack_size st')" and ?R = "unat (root_low st')"
  have x: "x = align_down (thread_stack_high (int (Suc k)) st')"
    using assms(1) ok np by (auto simp: get_new_stack_top_def Let_def split: prod.splits if_splits)
  have f: "k * ?S + ?S \<le> ?R" using assms(2) by (simp add: stacks_fit_def)
  have h: "unat (thread_stack_high (int (Suc k)) st') = ?R - k * ?S - 1" by (rule unat_thread_stack_high [OF assms(2)])
  have u: "unat x = (?R - k * ?S - 1) div 4 * 4" using h by (simp add: x unat_align_down)
  then have b: "unat x \<le> ?R - k * ?S - 1" "?R - k * ?S - 4 \<le> unat x" by presburger+
  then have "12 \<le> x" using assms(3) f by (simp add: word_le_nat_alt)
  then have u12: "unat (x - 12) = unat x - 12" by (simp add: unat_sub)
  have "x mod 4 = 0" using u by (simp add: unat_mod4)
  then show ?thesis using b u12 f assms(3) by (simp add: in_stack_unat [OF assms(2)]) linarith
qed

section \<open>The loops over the neighbours\<close>

lemma get_thread_slot: "slots_ok a \<Longrightarrow> 0 \<le> j \<Longrightarrow> j < cursize a \<Longrightarrow> arraytcb_get_thread j a = Inr (slot a j)"
  using slots_okD(2,4) [of a] by (simp add: arraytcb_get_thread_def get_data_def slot_def)

lemma next_stack: "thread_stack_low (j + 1) st = thread_stack_low j st - stack_size st"
  "thread_stack_high (j + 1) st = thread_stack_high j st - stack_size st" "thread_stack_high (j + 1) st = thread_stack_low j st - 1"
  "thread_stack_low (j - 1) st = thread_stack_low j st + stack_size st" "thread_stack_low (j - 1) st = thread_stack_high j st + 1"
  by (simp_all add: thread_stack_low_def thread_stack_high_def algebra_simps)

text \<open>Each loop finds the first live thread among the consecutive neighbours that share the page.\<close>

lemma lower_loop_finds:
  assumes ok: "slots_ok a" and "1 \<le> i" and "0 \<le> index"
  shows "lower_loop a (stack_size st) lp index i (thread_stack_high (index + i) st) =
     Inr (if \<exists>j. index + i \<le> j \<and> j < cursize a \<and> slot a j \<noteq> NULL \<and>
            (\<forall>j'. index + i \<le> j' \<and> j' \<le> j \<longrightarrow> thread_stack_high j' st AND PAGE_ALIGN_MASK = lp) then 0 else 1)"
  using assms(2)
proof (induction "nat (cursize a - (index + i))" arbitrary: i rule: less_induct)
  case less
  let ?Q = "\<lambda>i j. index + i \<le> j \<and> j < cursize a \<and> slot a j \<noteq> NULL \<and>
     (\<forall>j'. index + i \<le> j' \<and> j' \<le> j \<longrightarrow> thread_stack_high j' st AND PAGE_ALIGN_MASK = lp)"
  show ?case
  proof (cases "thread_stack_high (index + i) st AND PAGE_ALIGN_MASK = lp \<and> index + i < cursize a")
    case True
    then have v: "arraytcb_is_valid (index + i) a = 1" "arraytcb_get_thread (index + i) a = Inr (slot a (index + i))"
      using less.prems assms(3) get_thread_slot [OF ok] by (simp_all add: arraytcb_is_valid_def)
    show ?thesis
    proof (cases "slot a (index + i) = NULL")
      case False
      then have "?Q i (index + i)" using True by auto
      then show ?thesis using True v False by (subst lower_loop.simps) auto
    next
      case null: True
      have "(\<exists>j. ?Q i j) \<longleftrightarrow> (\<exists>j. ?Q (i + 1) j)"
      proof
        assume "\<exists>j. ?Q i j"
        then obtain j where "?Q i j" by blast
        moreover from this null have "j \<noteq> index + i" by auto
        ultimately have "?Q (i + 1) j" by auto
        then show "\<exists>j. ?Q (i + 1) j" by blast
      next
        assume "\<exists>j. ?Q (i + 1) j"
        then obtain j where j: "?Q (i + 1) j" by blast
        have "\<forall>j'. index + i \<le> j' \<and> j' \<le> j \<longrightarrow> thread_stack_high j' st AND PAGE_ALIGN_MASK = lp"
          using j True by (metis add.assoc order_le_less zle_add1_eq_le less_add_one order_less_le zless_imp_add1_zle)
        then show "\<exists>j. ?Q i j" using j by (intro exI [of _ j]) auto
      qed
      moreover have "lower_loop a (stack_size st) lp index i (thread_stack_high (index + i) st) =
          lower_loop a (stack_size st) lp index (i + 1) (thread_stack_high (index + (i + 1)) st)"
        using True v null next_stack(2) [of "index + i" st] by (subst lower_loop.simps) (simp add: add.assoc)
      ultimately show ?thesis using less.hyps [of "i + 1"] less.prems True by simp
    qed
  next
    case False
    then have "\<not> (\<exists>j. ?Q i j)" by (metis order_less_le_trans order_refl not_less)
    then show ?thesis using False less.prems assms(3) by (subst lower_loop.simps) (auto simp: arraytcb_is_valid_def)
  qed
qed

lemma upper_loop_finds:
  assumes ok: "slots_ok a" and "1 \<le> i" and idx: "index < cursize a" "index \<noteq> 1"
  shows "upper_loop a (stack_size st) hp index i (thread_stack_low (index - i) st) =
     Inr (if \<exists>j. 0 \<le> j \<and> j \<le> index - i \<and> slot a j \<noteq> NULL \<and>
            (\<forall>j'. j \<le> j' \<and> j' \<le> index - i \<longrightarrow> thread_stack_low j' st AND PAGE_ALIGN_MASK = hp) then 0 else 1)"
  using assms(2)
proof (induction "nat (index - i + 1)" arbitrary: i rule: less_induct)
  case less
  let ?Q = "\<lambda>i j. 0 \<le> j \<and> j \<le> index - i \<and> slot a j \<noteq> NULL \<and>
     (\<forall>j'. j \<le> j' \<and> j' \<le> index - i \<longrightarrow> thread_stack_low j' st AND PAGE_ALIGN_MASK = hp)"
  show ?case
  proof (cases "thread_stack_low (index - i) st AND PAGE_ALIGN_MASK = hp \<and> 0 \<le> index - i")
    case True
    then have v: "arraytcb_is_valid (index - i) a = 1" "arraytcb_get_thread (index - i) a = Inr (slot a (index - i))"
      using less.prems idx get_thread_slot [OF ok, of "index - i"] by (simp_all add: arraytcb_is_valid_def)
    show ?thesis
    proof (cases "slot a (index - i) = NULL")
      case False
      then have "?Q i (index - i)" using True by auto
      then show ?thesis using True v False idx by (subst upper_loop.simps) auto
    next
      case null: True
      have "(\<exists>j. ?Q i j) \<longleftrightarrow> (\<exists>j. ?Q (i + 1) j)"
      proof
        assume "\<exists>j. ?Q i j"
        then obtain j where "?Q i j" by blast
        moreover from this null have "j \<noteq> index - i" by auto
        ultimately have "?Q (i + 1) j" by auto
        then show "\<exists>j. ?Q (i + 1) j" by blast
      next
        assume "\<exists>j. ?Q (i + 1) j"
        then obtain j where j: "?Q (i + 1) j" by blast
        have "thread_stack_low j' st AND PAGE_ALIGN_MASK = hp" if "j \<le> j' \<and> j' \<le> index - i" for j'
          using j True that by (cases "j' = index - i") auto
        then show "\<exists>j. ?Q i j" using j by (intro exI [of _ j]) auto
      qed
      moreover have "upper_loop a (stack_size st) hp index i (thread_stack_low (index - i) st) =
          upper_loop a (stack_size st) hp index (i + 1) (thread_stack_low (index - (i + 1)) st)"
        using True v null next_stack(4) [of "index - i" st] idx by (subst upper_loop.simps) (simp add: diff_diff_eq)
      ultimately show ?thesis using less.hyps [of "i + 1"] less.prems True by simp
    qed
  next
    case False
    then have "\<not> (\<exists>j. ?Q i j)" by (metis order_trans order_refl)
    then show ?thesis using False less.prems idx by (subst upper_loop.simps) (auto simp: arraytcb_is_valid_def)
  qed
qed

section \<open>Pages and stacks\<close>

text \<open>The number of the page of an address; stack \<open>j\<close> has bytes in page \<open>p\<close>.\<close>

definition page_no :: "u32 \<Rightarrow> nat" where "page_no x = unat x div 4096"

definition uses_page :: "stacks_t \<Rightarrow> nat \<Rightarrow> nat \<Rightarrow> bool" where
  "uses_page st j p \<longleftrightarrow> (\<exists>x. in_stack st j x \<and> page_no x = p)"

lemma same_page: "x AND PAGE_ALIGN_MASK = y AND PAGE_ALIGN_MASK \<longleftrightarrow> page_no x = page_no y"
  by (metis (no_types, lifting) mult_cancel2 page_no_def unat_page word_unat_eq_iff zero_neq_numeral)

lemma page_no_mono: "x \<le> y \<Longrightarrow> page_no x \<le> page_no y"
  by (simp add: page_no_def word_le_nat_alt div_le_mono)

text \<open>Stacks with a lower index lie above.\<close>

lemma stacks_order:
  assumes "stacks_fit st n" and "j < k" and "k \<le> n"
  shows "thread_stack_high (int k) st < thread_stack_low (int j) st"
proof -
  obtain m where k: "k = Suc m" "j \<le> m" using assms(2) by (cases k) auto
  have f: "stacks_fit st (Suc m)" "stacks_fit st j" using stacks_fit_le [OF assms(1)] assms(2,3) k by auto
  have "j * unat (stack_size st) \<le> m * unat (stack_size st)" "m * unat (stack_size st) < unat (root_low st)"
    using k f(1) by (auto simp: stacks_fit_def)
  then have "unat (root_low st) - m * unat (stack_size st) - 1 < unat (root_low st) - j * unat (stack_size st)" by linarith
  then show ?thesis unfolding word_less_nat_alt k(1) unat_thread_stack_high [OF f(1)] unat_thread_stack_low [OF f(2)] .
qed

lemma stack_low_high:
  assumes "stacks_fit st n" and "0 < k" and "k \<le> n"
  shows "thread_stack_low (int k) st \<le> thread_stack_high (int k) st"
proof -
  obtain m where k: "k = Suc m" using assms(2) by (cases k) auto
  have f: "stacks_fit st (Suc m)" using stacks_fit_le [OF assms(1)] assms(3) k by auto
  then have "unat (root_low st) - Suc m * unat (stack_size st) \<le> unat (root_low st) - m * unat (stack_size st) - 1" by (auto simp: stacks_fit_def)
  then show ?thesis using unat_thread_stack_high [OF f] unat_thread_stack_low [OF f] k by (simp add: word_le_nat_alt)
qed

lemma in_stack_ends:
  assumes "stacks_fit st n" and "0 < k" and "k \<le> n"
  shows "in_stack st k (thread_stack_low (int k) st)" "in_stack st k (thread_stack_high (int k) st)"
  using stack_low_high [OF assms] by (simp_all add: in_stack_def)

text \<open>A stack below uses the lowest page exactly when its highest address is there, and then all stacks between
  do; and likewise above.\<close>

lemma uses_lowest_page:
  assumes f: "stacks_fit st n" and "k < j" and "j \<le> n"
  shows "uses_page st j (page_no (thread_stack_low (int k) st)) \<longleftrightarrow> page_no (thread_stack_high (int j) st) = page_no (thread_stack_low (int k) st)"
proof
  let ?p = "page_no (thread_stack_low (int k) st)"
  assume "uses_page st j ?p"
  then obtain x where "x \<le> thread_stack_high (int j) st" "page_no x = ?p" by (auto simp: uses_page_def in_stack_def)
  moreover have "thread_stack_high (int j) st \<le> thread_stack_low (int k) st" using stacks_order [OF f assms(2,3)] by simp
  ultimately show "page_no (thread_stack_high (int j) st) = ?p" using page_no_mono by (metis order_antisym)
qed (use in_stack_ends(2) [OF f, of j] assms in \<open>auto simp: uses_page_def\<close>)

lemma uses_highest_page:
  assumes f: "stacks_fit st n" and "0 < j" and "j < k" and "k \<le> n"
  shows "uses_page st j (page_no (thread_stack_high (int k) st)) \<longleftrightarrow> page_no (thread_stack_low (int j) st) = page_no (thread_stack_high (int k) st)"
proof
  let ?p = "page_no (thread_stack_high (int k) st)"
  assume "uses_page st j ?p"
  then obtain x where "thread_stack_low (int j) st \<le> x" "page_no x = ?p" by (auto simp: uses_page_def in_stack_def)
  moreover have "thread_stack_high (int k) st \<le> thread_stack_low (int j) st" using stacks_order [OF f assms(3,4)] by simp
  ultimately show "page_no (thread_stack_low (int j) st) = ?p" using page_no_mono by (metis order_antisym)
qed (use in_stack_ends(1) [OF f, of j] assms in \<open>auto simp: uses_page_def\<close>)

lemma lower_chain:
  assumes f: "stacks_fit st n" and kj: "k < j" "j \<le> n" and p: "page_no (thread_stack_high (int j) st) = page_no (thread_stack_low (int k) st)"
    and j': "int k + 1 \<le> j'" "j' \<le> int j"
  shows "page_no (thread_stack_high j' st) = page_no (thread_stack_low (int k) st)"
proof -
  obtain m where m: "j' = int m" "k < m" "m \<le> j" using j' by (cases j' rule: int_cases2) auto
  have "thread_stack_high (int j) st \<le> thread_stack_high (int m) st"
    using stacks_order [OF f, of m j] stack_low_high [OF f, of m] m kj by (cases "m = j") auto
  moreover have "thread_stack_high (int m) st \<le> thread_stack_low (int k) st" using stacks_order [OF f m(2)] m kj by simp
  ultimately show ?thesis unfolding m(1) using p page_no_mono by (metis order_antisym)
qed

lemma upper_chain:
  assumes f: "stacks_fit st n" and kj: "0 < j" "j < k" "k \<le> n" and p: "page_no (thread_stack_low (int j) st) = page_no (thread_stack_high (int k) st)"
    and j': "int j \<le> j'" "j' \<le> int k - 1"
  shows "page_no (thread_stack_low j' st) = page_no (thread_stack_high (int k) st)"
proof -
  obtain m where m: "j' = int m" "j \<le> m" "m < k" using j' by (cases j' rule: int_cases2) auto
  have "thread_stack_low (int m) st \<le> thread_stack_low (int j) st"
    using stacks_order [OF f, of j m] stack_low_high [OF f, of m] m kj by (cases "m = j") auto
  moreover have "thread_stack_high (int k) st \<le> thread_stack_low (int m) st" using stacks_order [OF f m(3) kj(3)] by simp
  ultimately show ?thesis unfolding m(1) using p page_no_mono by (metis order_antisym)
qed

text \<open>A thread alive, other than that of stack \<open>k\<close> and the root thread, has bytes of its stack in page \<open>p\<close>.\<close>

definition page_used :: "arraytcb_s \<Rightarrow> stacks_t \<Rightarrow> nat \<Rightarrow> nat \<Rightarrow> bool" where
  "page_used a st k p \<longleftrightarrow> (\<exists>j. 0 < j \<and> j \<noteq> k \<and> slot a (int j) \<noteq> NULL \<and> uses_page st j p)"

lemma lower_loop_exact:
  assumes ok: "slots_ok a" and f: "stacks_fit st (nat (cursize a))"
  shows "lower_loop a (stack_size st) (thread_stack_low (int k) st AND PAGE_ALIGN_MASK) (int k) 1 (thread_stack_low (int k) st - 1) =
     Inr (if \<exists>j > k. slot a (int j) \<noteq> NULL \<and> uses_page st j (page_no (thread_stack_low (int k) st)) then 0 else 1)"
proof -
  let ?p = "page_no (thread_stack_low (int k) st)"
  have "(\<exists>j. int k + 1 \<le> j \<and> j < cursize a \<and> slot a j \<noteq> NULL \<and>
     (\<forall>j'. int k + 1 \<le> j' \<and> j' \<le> j \<longrightarrow> page_no (thread_stack_high j' st) = ?p)) \<longleftrightarrow>
     (\<exists>j > k. slot a (int j) \<noteq> NULL \<and> uses_page st j ?p)" (is "?l \<longleftrightarrow> ?r")
  proof
    assume ?l
    then obtain j where j: "int k + 1 \<le> j" "j < cursize a" "slot a j \<noteq> NULL" "page_no (thread_stack_high j st) = ?p" by blast
    obtain m where m: "j = int m" "k < m" using j(1) by (cases j rule: int_cases2) auto
    then have "uses_page st m ?p" using uses_lowest_page [OF f m(2)] j(2,4) by auto
    then show ?r using j(3) m by blast
  next
    assume ?r
    then obtain m where m: "k < m" "slot a (int m) \<noteq> NULL" "uses_page st m ?p" by blast
    then have lim: "int m < cursize a" "m \<le> nat (cursize a)" by (auto simp: slot_def split: if_splits)
    have "page_no (thread_stack_high (int m) st) = ?p" using uses_lowest_page [OF f m(1) lim(2)] m(3) by simp
    then show ?l using lower_chain [OF f m(1) lim(2)] m lim by (intro exI [of _ "int m"]) auto
  qed
  then show ?thesis using lower_loop_finds [OF ok, of 1 "int k" st "thread_stack_low (int k) st AND PAGE_ALIGN_MASK"] next_stack(3) [of "int k" st]
    by (simp add: same_page)
qed

text \<open>Above the first stack is the root thread's, which begins at a page.\<close>

lemma root_page:
  assumes "stacks_fit st n" and "aligned (root_low st)" and "0 < k" and "k \<le> n"
  shows "page_no (thread_stack_high (int k) st) < page_no (root_low st)"
proof -
  have "thread_stack_low 0 st = root_low st" by (simp add: thread_stack_low_def)
  then have "unat (thread_stack_high (int k) st) < unat (root_low st)" using stacks_order [OF assms(1,3,4)] by (simp add: word_less_nat_alt)
  moreover obtain m where "unat (root_low st) = m * 4096" using assms(2) by (auto simp: aligned_unat mult.commute elim: dvdE)
  ultimately show ?thesis by (simp add: page_no_def less_mult_imp_div_less)
qed

lemma upper_loop_exact:
  assumes ok: "slots_ok a" and f: "stacks_fit st (nat (cursize a))" and al: "aligned (root_low st)" and k: "0 < k" "int k < cursize a"
  shows "upper_loop a (stack_size st) (thread_stack_high (int k) st AND PAGE_ALIGN_MASK) (int k) 1 (thread_stack_high (int k) st + 1) =
     Inr (if \<exists>j > 0. j < k \<and> slot a (int j) \<noteq> NULL \<and> uses_page st j (page_no (thread_stack_high (int k) st)) then 0 else 1)"
proof (cases "k = 1")
  case True
  then show ?thesis by (subst upper_loop.simps) auto
next
  case False
  let ?p = "page_no (thread_stack_high (int k) st)"
  have kn: "k \<le> nat (cursize a)" using k(2) by simp
  have r: "page_no (thread_stack_low 0 st) \<noteq> ?p" using root_page [OF f al k(1) kn] by (simp add: thread_stack_low_def)
  have "(\<exists>j. 0 \<le> j \<and> j \<le> int k - 1 \<and> slot a j \<noteq> NULL \<and> (\<forall>j'. j \<le> j' \<and> j' \<le> int k - 1 \<longrightarrow> page_no (thread_stack_low j' st) = ?p)) \<longleftrightarrow>
     (\<exists>j > 0. j < k \<and> slot a (int j) \<noteq> NULL \<and> uses_page st j ?p)" (is "?l \<longleftrightarrow> ?r")
  proof
    assume ?l
    then obtain j where j: "0 \<le> j" "j \<le> int k - 1" "slot a j \<noteq> NULL" "page_no (thread_stack_low j st) = ?p" by auto
    then have "j \<noteq> 0" using r by auto
    then obtain m where m: "j = int m" "0 < m" "m < k" using j by (cases j rule: int_cases2) auto
    then have "uses_page st m ?p" using uses_highest_page [OF f m(2,3) kn] j(4) by simp
    then show ?r using j(3) m by blast
  next
    assume ?r
    then obtain m where m: "0 < m" "m < k" "slot a (int m) \<noteq> NULL" "uses_page st m ?p" by blast
    have "page_no (thread_stack_low (int m) st) = ?p" using uses_highest_page [OF f m(1,2) kn] m(4) by simp
    then show ?l using upper_chain [OF f m(1,2) kn] m by (intro exI [of _ "int m"]) auto
  qed
  then show ?thesis using upper_loop_finds [OF ok, of 1 "int k" st "thread_stack_high (int k) st AND PAGE_ALIGN_MASK"] False k(2) next_stack(5) [of "int k" st]
    by (simp add: same_page)
qed

text \<open>Where the neighbours cannot reach.\<close>

lemma upper_not_below:
  assumes f: "stacks_fit st n" and "0 < k" "k \<le> n" "j < k" "uses_page st j p"
  shows "page_no (thread_stack_high (int k) st) \<le> p"
proof -
  obtain x where "thread_stack_low (int j) st \<le> x" "page_no x = p" using assms(5) by (auto simp: uses_page_def in_stack_def)
  then show ?thesis using stacks_order [OF f assms(4,3)] page_no_mono [of "thread_stack_high (int k) st" x] by simp
qed

lemma lower_not_above:
  assumes f: "stacks_fit st n" and "k < j" "j \<le> n" "uses_page st j p"
  shows "p \<le> page_no (thread_stack_low (int k) st)"
proof -
  obtain x where "x \<le> thread_stack_high (int j) st" "page_no x = p" using assms(4) by (auto simp: uses_page_def in_stack_def)
  then show ?thesis using stacks_order [OF f assms(2,3)] page_no_mono [of x "thread_stack_low (int k) st"] by simp
qed

lemma page_used_split:
  assumes f: "stacks_fit st (nat (cursize a))" and k: "0 < k" "int k < cursize a"
  shows "page_used a st k p \<longleftrightarrow> (\<exists>j > 0. j < k \<and> slot a (int j) \<noteq> NULL \<and> uses_page st j p) \<or> (\<exists>j > k. slot a (int j) \<noteq> NULL \<and> uses_page st j p)"
proof -
  have "0 < j \<and> j \<noteq> k \<longleftrightarrow> 0 < j \<and> j < k \<or> k < j" for j using k(1) by auto
  then show ?thesis unfolding page_used_def by blast
qed

lemma page_used_ends:
  assumes f: "stacks_fit st (nat (cursize a))" and k: "0 < k" "int k < cursize a"
    and d: "page_no (thread_stack_low (int k) st) < page_no (thread_stack_high (int k) st)"
  shows "page_used a st k (page_no (thread_stack_high (int k) st)) \<longleftrightarrow>
      (\<exists>j > 0. j < k \<and> slot a (int j) \<noteq> NULL \<and> uses_page st j (page_no (thread_stack_high (int k) st)))"
    and "page_used a st k (page_no (thread_stack_low (int k) st)) \<longleftrightarrow>
      (\<exists>j > k. slot a (int j) \<noteq> NULL \<and> uses_page st j (page_no (thread_stack_low (int k) st)))"
    and "page_no (thread_stack_low (int k) st) < p \<Longrightarrow> p < page_no (thread_stack_high (int k) st) \<Longrightarrow> \<not> page_used a st k p"
proof -
  have kn: "k \<le> nat (cursize a)" using k(2) by simp
  have lim: "slot a (int j) \<noteq> NULL \<Longrightarrow> j \<le> nat (cursize a)" for j by (auto simp: slot_def split: if_splits)
  note up = upper_not_below [OF f k(1) kn] and lo = lower_not_above [OF f]
  show "page_used a st k (page_no (thread_stack_high (int k) st)) \<longleftrightarrow>
      (\<exists>j > 0. j < k \<and> slot a (int j) \<noteq> NULL \<and> uses_page st j (page_no (thread_stack_high (int k) st)))"
    using page_used_split [OF f k] lo lim d by (meson not_less)
  show "page_used a st k (page_no (thread_stack_low (int k) st)) \<longleftrightarrow>
      (\<exists>j > k. slot a (int j) \<noteq> NULL \<and> uses_page st j (page_no (thread_stack_low (int k) st)))"
    using page_used_split [OF f k] up d by (meson not_less)
  show "page_no (thread_stack_low (int k) st) < p \<Longrightarrow> p < page_no (thread_stack_high (int k) st) \<Longrightarrow> \<not> page_used a st k p"
    using page_used_split [OF f k, of p] up lo lim by (meson not_less)
qed

lemma num_pages:
  assumes "x \<le> y"
  shows "1 < ((y AND PAGE_ALIGN_MASK) - (x AND PAGE_ALIGN_MASK)) div PG_SIZE \<longleftrightarrow> page_no x + 1 < page_no y"
proof -
  have le: "page_no x \<le> page_no y" using page_no_mono [OF assms] .
  have u: "unat (x AND PAGE_ALIGN_MASK) = page_no x * 4096" "unat (y AND PAGE_ALIGN_MASK) = page_no y * 4096" by (simp_all add: unat_page page_no_def)
  then have "unat ((y AND PAGE_ALIGN_MASK) - (x AND PAGE_ALIGN_MASK)) = (page_no y - page_no x) * 4096"
    using le by (simp add: unat_sub word_le_nat_alt diff_mult_distrib)
  then have "unat (((y AND PAGE_ALIGN_MASK) - (x AND PAGE_ALIGN_MASK)) div PG_SIZE) = page_no y - page_no x" by (simp add: unat_div PG_SIZE_def)
  then show ?thesis using le by (auto simp: word_less_nat_alt)
qed

section \<open>Properties\<close>

text \<open>C23: the pages of a finished thread. Whatever the stack size, \<open>get_pages_to_remove\<close> returns, and gives up the
  highest and the lowest page of the thread's stack exactly when no other thread that is alive has bytes of
  its stack in that page (one answer when the two are the same page), and the pages between exactly when
  there are any; no other thread uses those.\<close>

theorem pages_to_remove_exact:
  assumes "slots_ok a" and "stacks_fit st (nat (cursize a))" and "aligned (root_low st)" and "0 < k" and "int k < cursize a"
  shows "\<exists>r. get_pages_to_remove (int k) a st info = Inr r \<and>
     (highest_page_can_remove r \<noteq> 0 \<longleftrightarrow> \<not> page_used a st k (page_no (thread_stack_high (int k) st))) \<and>
     (highest_page_can_remove r \<noteq> 0 \<longrightarrow> highest_page_base r = thread_stack_high (int k) st AND PAGE_ALIGN_MASK) \<and>
     (lowest_page_can_remove r \<noteq> 0 \<longleftrightarrow> page_no (thread_stack_low (int k) st) \<noteq> page_no (thread_stack_high (int k) st) \<and>
        \<not> page_used a st k (page_no (thread_stack_low (int k) st))) \<and>
     (lowest_page_can_remove r \<noteq> 0 \<longrightarrow> lowest_page_base r = thread_stack_low (int k) st AND PAGE_ALIGN_MASK) \<and>
     (middle_pages_can_remove r \<noteq> 0 \<longleftrightarrow> page_no (thread_stack_low (int k) st) + 1 < page_no (thread_stack_high (int k) st)) \<and>
     (middle_pages_can_remove r \<noteq> 0 \<longrightarrow> middle_pages_base r = (thread_stack_low (int k) st AND PAGE_ALIGN_MASK) + PG_SIZE) \<and>
     (\<forall>p. page_no (thread_stack_low (int k) st) < p \<and> p < page_no (thread_stack_high (int k) st) \<longrightarrow> \<not> page_used a st k p)"
proof -
  let ?lo = "thread_stack_low (int k) st" and ?hi = "thread_stack_high (int k) st"
  let ?up = "\<exists>j > 0. j < k \<and> slot a (int j) \<noteq> NULL \<and> uses_page st j (page_no ?hi)"
  let ?dn = "\<exists>j > k. slot a (int j) \<noteq> NULL \<and> uses_page st j (page_no ?lo)"
  have lh: "?lo \<le> ?hi" by (rule stack_low_high [OF assms(2,4)]) (use assms(5) in simp)
  have run: "\<exists>r. get_pages_to_remove (int k) a st info = Inr r \<and>
     (highest_page_can_remove r \<noteq> 0 \<longleftrightarrow> \<not> ?up \<and> (page_no ?lo = page_no ?hi \<longrightarrow> \<not> ?dn)) \<and> (highest_page_can_remove r \<noteq> 0 \<longrightarrow> highest_page_base r = ?hi AND PAGE_ALIGN_MASK) \<and>
     (lowest_page_can_remove r \<noteq> 0 \<longleftrightarrow> page_no ?lo \<noteq> page_no ?hi \<and> \<not> ?dn) \<and> (lowest_page_can_remove r \<noteq> 0 \<longrightarrow> lowest_page_base r = ?lo AND PAGE_ALIGN_MASK) \<and>
     (middle_pages_can_remove r \<noteq> 0 \<longleftrightarrow> page_no ?lo + 1 < page_no ?hi) \<and> (middle_pages_can_remove r \<noteq> 0 \<longrightarrow> middle_pages_base r = (?lo AND PAGE_ALIGN_MASK) + PG_SIZE)"
    using assms(4) unfolding get_pages_to_remove_def Let_def upper_loop_exact [OF assms] lower_loop_exact [OF assms(1,2)] num_pages [OF lh] same_page
    by (cases ?up; cases ?dn; cases "page_no ?lo = page_no ?hi"; cases "page_no ?lo + 1 < page_no ?hi") simp_all
  show ?thesis
  proof (cases "page_no ?lo = page_no ?hi")
    case True
    have "page_used a st k (page_no ?hi) \<longleftrightarrow> ?up \<or> ?dn" using page_used_split [OF assms(2,4,5), of "page_no ?hi"] True by simp
    with run True show ?thesis by (elim ex_forward) auto
  next
    case False
    then have "page_no ?lo < page_no ?hi" using page_no_mono [OF lh] by simp
    note e = page_used_ends [OF assms(2,4,5) this]
    from run False show ?thesis unfolding e(1,2) using e(3) by (elim ex_forward) auto
  qed
qed

text \<open>Stacks of 6000 bytes below \<open>0x8000000\<close>: the threads on stacks 0 and 1 are alive.\<close>

definition stacks_example :: stacks_t where
  "stacks_example = \<lparr>root_low = 0x8000000, root_high = 0x8001000, stack_size = 6000\<rparr>"

definition table_example :: arraytcb_s where
  "table_example = \<lparr>maxsize = 4, cursize = 3, data = [0x100, 0x200, 0, 0], avail_list = [2],
     blocks = [0x100 \<mapsto> new_block 7 True 0, 0x200 \<mapsto> new_block 8 True 1], array_locked = False\<rparr>"

lemma table_example_ok: "slots_ok table_example"
proof (rule slots_okI)
  fix i show "i \<in> set (avail_list table_example) \<longleftrightarrow> 0 \<le> i \<and> i < cursize table_example \<and> data table_example ! nat i = NULL"
  proof -
    have "0 \<le> i \<and> i < 3 \<longleftrightarrow> i = 0 \<or> i = 1 \<or> i = 2" by auto
    then show ?thesis by (auto simp: table_example_def)
  qed
qed (auto simp: table_example_def nth_Cons less_Suc_eq split: nat.splits)

lemma stacks_example_fit: "stacks_fit stacks_example 3" "aligned (root_low stacks_example)"
  by (simp_all add: stacks_fit_def stacks_example_def aligned_unat)

theorem pages_to_remove_exact_witness:
  "\<exists>r. get_pages_to_remove 2 table_example stacks_example
       \<lparr>highest_page_base = 0, highest_page_can_remove = 0, middle_pages_base = 0, middle_pages_can_remove = 0,
        lowest_page_base = 0, lowest_page_can_remove = 0\<rparr> = Inr r \<and> highest_page_can_remove r = 0"
proof -
  let ?i = "\<lparr>highest_page_base = 0, highest_page_can_remove = 0, middle_pages_base = 0, middle_pages_can_remove = 0,
        lowest_page_base = 0, lowest_page_can_remove = 0\<rparr>"
  have c: "cursize table_example = 3" by (simp add: table_example_def)
  have "uses_page stacks_example 1 (page_no (thread_stack_high 2 stacks_example))" unfolding uses_page_def
    by (rule exI [of _ "0x7FFE890"]) (simp add: in_stack_def page_no_def thread_stack_low_def thread_stack_high_def stacks_example_def)
  then have "page_used table_example stacks_example 2 (page_no (thread_stack_high 2 stacks_example))"
    by (auto simp: page_used_def slot_def table_example_def intro!: exI [of _ 1])
  then show ?thesis using pages_to_remove_exact [OF table_example_ok, of stacks_example 2 ?i] stacks_example_fit c by auto
qed

text \<open>A thread finds its own control block. For the stack of every slot above 0, the top that
  \<open>get_new_stack_top\<close> returns is aligned and in the stack, and so is what \<open>thr_create\<close> puts below it; and from
  every address of the stack \<open>get_stack_position_index\<close> computes that slot.\<close>

theorem stack_top_roundtrip:
  assumes "stacks_fit st (Suc k)" and "16 \<le> unat (stack_size st)" and "Suc k < 2 ^ 31" and "root_low st \<noteq> 0"
    and "alloc_stack np (thread_stack_low (int (Suc k)) st) (thread_stack_high (int (Suc k)) st) e = (e', 0)"
  shows "\<exists>x. get_new_stack_top root np (int (Suc k)) (st, e) = ((st, e'), x) \<and> x mod ALIGNMENT = 0 \<and>
     in_stack st (Suc k) x \<and> in_stack st (Suc k) (x - 12) \<and>
     (\<forall>y. in_stack st (Suc k) y \<longrightarrow> get_stack_position_index y st = int (Suc k))"
proof -
  have fx: "fixate_root root (int (Suc k)) (st, e) = ((st, e), True)" using assms(4) by (simp add: fixate_root_def)
  obtain x where x: "get_new_stack_top root np (int (Suc k)) (st, e) = ((st, e'), x)"
    using fx assms(5) by (simp add: get_new_stack_top_def Let_def)
  have "x mod 4 = 0 \<and> in_stack st (Suc k) x \<and> in_stack st (Suc k) (x - 12)"
    by (rule new_stack_top [OF x assms(1,2)]) (simp_all only: fx assms(5) fst_conv snd_conv)
  then show ?thesis using x stack_index_of_address [OF assms(1) _ assms(3)] by (auto simp: ALIGNMENT_def)
qed

lemma alloc_always: "alloc_stack (\<lambda>b l e. (e, 0)) lo hi e = (e, 0)"
  by (simp add: alloc_stack_def Let_def)

theorem stack_top_roundtrip_witness:
  "\<exists>x. get_new_stack_top (\<lambda>e. (e, 0)) (\<lambda>b l e. (e, 0)) (int (Suc 1)) (stacks_example, ()) = ((stacks_example, ()), x) \<and> x mod ALIGNMENT = 0 \<and>
     in_stack stacks_example (Suc 1) x \<and> get_stack_position_index x stacks_example = int (Suc 1)"
proof -
  have "\<exists>x. get_new_stack_top (\<lambda>e. (e, 0)) (\<lambda>b l e. (e, 0)) (int (Suc 1)) (stacks_example, ()) = ((stacks_example, ()), x) \<and> x mod ALIGNMENT = 0 \<and>
     in_stack stacks_example (Suc 1) x \<and> in_stack stacks_example (Suc 1) (x - 12) \<and>
     (\<forall>y. in_stack stacks_example (Suc 1) y \<longrightarrow> get_stack_position_index y stacks_example = int (Suc 1))"
  proof (rule stack_top_roundtrip [OF _ _ _ _ alloc_always])
    show "stacks_fit stacks_example (Suc 1)" by (rule stacks_fit_le [OF stacks_example_fit(1)]) simp
    show "16 \<le> unat (stack_size stacks_example)" "root_low stacks_example \<noteq> 0" by (simp_all add: stacks_example_def)
    show "Suc 1 < 2 ^ 31" by simp
  qed
  then show ?thesis by (elim ex_forward conjE) (intro conjI, assumption+, erule allE, erule mp)
qed

text \<open>A thread on the root's stack finds the wrong control block. When slot 0 is reused, \<open>get_new_stack_top\<close>
  returns the lower end of the root's stack, so that the new thread starts with its stack pointer 12 bytes
  below it, in stack 1: its index is 1 and not 0.\<close>

theorem root_slot_reused:
  assumes "stacks_fit st 1" and "12 \<le> unat (stack_size st)" and "root_low st \<noteq> 0"
  shows "get_new_stack_top root np 0 (st, e) = ((st, e), root_low st) \<and> in_stack st 1 (root_low st - 12) \<and>
     get_stack_position_index (root_low st - 12) st = 1"
proof -
  have f: "stacks_fit st (Suc 0)" using assms(1) by simp
  have "12 \<le> unat (root_low st)" using assms(1,2) by (simp add: stacks_fit_def)
  then have "unat (root_low st - 12) = unat (root_low st) - 12" by (simp add: unat_sub word_le_nat_alt)
  then have s: "in_stack st (Suc 0) (root_low st - 12)" using in_stack_unat [OF f] assms(1,2) by (auto simp: stacks_fit_def)
  have "get_stack_position_index (root_low st - 12) st = int (Suc 0)" by (rule stack_index_of_address [OF f s]) simp
  then show ?thesis using s by (simp add: get_new_stack_top_def fixate_root_def)
qed

theorem root_slot_reused_witness:
  "get_new_stack_top (\<lambda>e. (e, 0)) (\<lambda>b l e. (e, 0)) 0 (stacks_example, ()) = ((stacks_example, ()), 0x8000000) \<and>
   get_stack_position_index (0x8000000 - 12) stacks_example = 1"
  using root_slot_reused [of stacks_example "\<lambda>e. (e, 0)" "\<lambda>b l e. (e, 0)" "()"] by (simp add: stacks_fit_def stacks_example_def)

end
