(* ===== verification/Autostack.thy ===== *)
theory Autostack
  imports Thread_Stacks
begin

text \<open>
  The growing stack of the root thread (\<open>user/libautostack/autostack.c\<close>), and the part of
  \<open>thr_lib_helper.c\<close> that walks its frames. The system calls and the allocator of the C library are
  arguments, over the state \<open>e\<close> of the rest of the machine.
\<close>

section \<open>State\<close>

record autostack_t =
  exn_stack_high :: u32
  exn_stack_low :: u32
  root_thread_stack_low :: u32
  root_thread_stack_high :: u32
  ebp__main :: u32

definition VALID_OUTBOUND :: u32 where "VALID_OUTBOUND = 4"
definition EXCEPTION_STACK_SIZE :: u32 where "EXCEPTION_STACK_SIZE = 256"
definition ERROR_SWEXN_REGIS :: u32 where "ERROR_SWEXN_REGIS = 3"
definition ERROR_NEW_PAGES_GENERAL :: u32 where "ERROR_NEW_PAGES_GENERAL = 3"
definition SWEXN_CAUSE_PAGEFAULT :: u32 where "SWEXN_CAUSE_PAGEFAULT = 0xE"

text \<open>\<open>swexn(esp3, eip, arg, newureg)\<close> with \<open>arg\<close> 0, as every call here has it.\<close>

type_synonym 'e swexn_call = "u32 \<Rightarrow> u32 \<Rightarrow> ureg_t option \<Rightarrow> 'e \<Rightarrow> 'e \<times> int"

section \<open>Operations\<close>

definition get_root_thread_stack_low ::
  "'e swexn_call \<Rightarrow> (u32 \<Rightarrow> 'e \<Rightarrow> 'e) \<Rightarrow> autostack_t \<times> 'e \<Rightarrow> (autostack_t \<times> 'e) \<times> u32" where
  "get_root_thread_stack_low swexn free = (\<lambda>(au, e).
     case swexn NULL NULL None e of (e, r) \<Rightarrow>
     if r < 0 then ((au, e), ERROR_SWEXN_REGIS)
     else ((au, if exn_stack_low au \<noteq> 0 then free (exn_stack_low au) e else e), root_thread_stack_low au))"

definition get_root_thread_stack_high :: "autostack_t \<Rightarrow> u32" where
  "get_root_thread_stack_high au = root_thread_stack_high au"

definition allocate_pages ::
  "(u32 \<Rightarrow> u32 \<Rightarrow> 'e \<Rightarrow> 'e \<times> int) \<Rightarrow> u32 \<Rightarrow> u32 \<Rightarrow> autostack_t \<times> 'e \<Rightarrow> (autostack_t \<times> 'e) \<times> u32" where
  "allocate_pages np range_high range_low = (\<lambda>(au, e).
     let highest_page = range_high AND PAGE_ALIGN_MASK; lowest_page = range_low AND PAGE_ALIGN_MASK;
         num_pages = 1 + (highest_page - lowest_page) div PG_SIZE;
         num_pages = (if highest_page = root_thread_stack_low au AND PAGE_ALIGN_MASK then num_pages - 1 else num_pages)
     in if 0 < sint num_pages then
          (case np lowest_page (num_pages * PG_SIZE) e of (e, r) \<Rightarrow>
             if r \<noteq> 0 then ((au, e), ERROR_NEW_PAGES_GENERAL) else ((au, e), lowest_page))
        else ((au, e), lowest_page))"

text \<open>\<open>handler\<close> is the address of the handler. The result tells whether \<open>swexn\<close> resumed the faulting instruction;
  otherwise the handler returns.\<close>

definition swexn_handler ::
  "'e swexn_call \<Rightarrow> (u32 \<Rightarrow> u32 \<Rightarrow> 'e \<Rightarrow> 'e \<times> int) \<Rightarrow> u32 \<Rightarrow> ureg_t \<Rightarrow> autostack_t \<times> 'e \<Rightarrow> (autostack_t \<times> 'e) \<times> bool" where
  "swexn_handler swexn np handler ureg s =
     (if ur_cause ureg = SWEXN_CAUSE_PAGEFAULT then
        (if ur_ebp ureg < ur_cr2 ureg \<or> ur_cr2 ureg + VALID_OUTBOUND < ur_esp ureg then (s, False)
         else case allocate_pages np (root_thread_stack_low (fst s) - 1) (ur_cr2 ureg) s of ((au, e), new_low) \<Rightarrow>
           if new_low = ERROR_NEW_PAGES_GENERAL then ((au, e), False)
           else let au = au\<lparr>root_thread_stack_low := new_low\<rparr> in
             case swexn (exn_stack_high au) handler (Some ureg) e of (e, r) \<Rightarrow> ((au, e), \<not> r < 0))
      else (s, False))"

text \<open>\<open>mem\<close> is the memory by words, \<open>ebp\<close> the frame of \<open>install_autostack\<close>, \<open>new_base\<close> the answer of \<open>malloc\<close>.\<close>

definition get_last_ebp :: "(u32 \<Rightarrow> u32) \<Rightarrow> u32 \<Rightarrow> u32" where
  "get_last_ebp mem ebp = mem ebp"

definition install_autostack ::
  "'e swexn_call \<Rightarrow> u32 \<Rightarrow> u32 \<Rightarrow> (u32 \<Rightarrow> u32) \<Rightarrow> u32 \<Rightarrow> u32 \<Rightarrow> u32 \<Rightarrow> autostack_t \<times> 'e \<Rightarrow> autostack_t \<times> 'e" where
  "install_autostack swexn handler new_base mem ebp stack_high stack_low = (\<lambda>(au, e).
     let au = au\<lparr>ebp__main := get_last_ebp mem ebp, root_thread_stack_high := stack_high, root_thread_stack_low := stack_low\<rparr> in
     if new_base = NULL then (au, e)
     else
       let au = au\<lparr>exn_stack_low := new_base, exn_stack_high := align_down (new_base + EXCEPTION_STACK_SIZE - 1)\<rparr>
       in (au, fst (swexn (exn_stack_high au) handler None e)))"

text \<open>The loop of \<open>set_rootthr_retaddr\<close>: the frame whose caller's frame is that of \<open>_main\<close>.\<close>

partial_function (option) trace_back :: "(u32 \<Rightarrow> u32) \<Rightarrow> u32 \<Rightarrow> u32 \<Rightarrow> u32 option" where
  "trace_back mem main ebp =
     (if get_last_ebp mem ebp \<noteq> main then trace_back mem main (get_last_ebp mem ebp) else Some ebp)"

text \<open>\<open>load\<close> and \<open>store\<close> access the memory of \<open>e\<close>; \<open>ebp\<close> is the frame of \<open>set_rootthr_retaddr\<close>.\<close>

definition set_rootthr_retaddr ::
  "('e \<Rightarrow> u32 \<Rightarrow> u32) \<Rightarrow> (u32 \<Rightarrow> u32 \<Rightarrow> 'e \<Rightarrow> 'e kres) \<Rightarrow> u32 \<Rightarrow> autostack_t \<Rightarrow> u32 \<Rightarrow> 'e \<Rightarrow> 'e kres" where
  "set_rootthr_retaddr load store thr_ret2exit au ebp e =
     (case trace_back (load e) (ebp__main au) ebp of None \<Rightarrow> Inl SPINS
      | Some ebp \<Rightarrow> store (ebp + 4) thr_ret2exit e)"

section \<open>Lemmas\<close>

text \<open>The frames of the functions active above \<open>_main\<close>, innermost first.\<close>

primrec call_frames :: "(u32 \<Rightarrow> u32) \<Rightarrow> u32 \<Rightarrow> u32 list \<Rightarrow> bool" where
  "call_frames mem b [] \<longleftrightarrow> True"
| "call_frames mem b (f # fs) \<longleftrightarrow> mem b = f \<and> call_frames mem f fs"

lemma trace_back_frames:
  "call_frames mem b (fs @ [main]) \<Longrightarrow> main \<notin> set fs \<Longrightarrow> trace_back mem main b = Some (last (b # fs))"
  by (induction fs arbitrary: b) (subst trace_back.simps, auto simp: get_last_ebp_def)+

lemma page_below:
  assumes "r \<noteq> (0 :: u32)"
  shows "page_no (r - 1) = (if aligned r then page_no r - 1 else page_no r)"
proof -
  have u: "unat (r - 1) = unat r - 1" using unat_minus_one [OF assms] .
  have p: "0 < unat r" using assms by (simp add: unat_gt_0)
  show ?thesis
  proof (cases "4096 dvd unat r")
    case True
    then obtain q where q: "unat r = 4096 * q" by blast
    then have "0 < q" using p by simp
    then have "(4096 * q - 1) div 4096 = q - 1" by (cases q) (simp_all add: div_nat_eqI)
    then show ?thesis using True q u by (simp add: page_no_def aligned_unat)
  next
    case False
    then have "unat r mod 4096 \<noteq> 0" by (simp add: dvd_eq_mod_eq_0)
    then have "(unat r - 1) div 4096 = unat r div 4096" using p by (cases "unat r") (simp_all add: div_Suc)
    then show ?thesis using False u by (auto simp: page_no_def aligned_unat)
  qed
qed

lemma unat_masked: "unat (x AND PAGE_ALIGN_MASK) = page_no x * 4096"
  by (simp add: unat_page page_no_def)

text \<open>The distance of two page bases.\<close>

lemma unat_pages_between:
  assumes "page_no x \<le> page_no y"
  shows "unat ((y AND PAGE_ALIGN_MASK) - (x AND PAGE_ALIGN_MASK)) = (page_no y - page_no x) * 4096"
  using assms by (simp add: unat_sub word_le_nat_alt unat_masked diff_mult_distrib)

lemma page_no_bound: "page_no x < 2 ^ 20"
  using u32_bound [of x] by (simp add: page_no_def) 

text \<open>The pages that \<open>allocate_pages\<close> asks for below the stack are those down to the page of the address.\<close>

lemma pages_missing:
  assumes c: "c < r"
  defines "n \<equiv> (if (r - 1) AND PAGE_ALIGN_MASK = r AND PAGE_ALIGN_MASK
      then 1 + (((r - 1) AND PAGE_ALIGN_MASK) - (c AND PAGE_ALIGN_MASK)) div PG_SIZE - 1
      else 1 + (((r - 1) AND PAGE_ALIGN_MASK) - (c AND PAGE_ALIGN_MASK)) div PG_SIZE)"
  shows "n * PG_SIZE = (r AND PAGE_ALIGN_MASK) - (c AND PAGE_ALIGN_MASK)" and "sint n = int (page_no r - page_no c)"
proof -
  have r0: "r \<noteq> 0" using c by auto
  have le: "c \<le> r - 1" using c by (simp add: word_le_nat_alt word_less_nat_alt unat_minus_one [OF r0])
  have "unat ((((r - 1) AND PAGE_ALIGN_MASK) - (c AND PAGE_ALIGN_MASK)) div PG_SIZE) = page_no (r - 1) - page_no c"
    using unat_pages_between [OF page_no_mono [OF le]] by (simp add: unat_div PG_SIZE_def)
  from arg_cong [OF this, of "word_of_nat :: nat \<Rightarrow> u32"]
  have q: "(((r - 1) AND PAGE_ALIGN_MASK) - (c AND PAGE_ALIGN_MASK)) div PG_SIZE = word_of_nat (page_no (r - 1) - page_no c)" by simp
  have pos: "0 < page_no r" if "aligned r"
  proof -
    have "unat r \<noteq> 0" using r0 by (simp add: unat_eq_0)
    moreover have "unat r = page_no r * 4096" using that div_mult_mod_eq [of "unat r" 4096] by (simp add: aligned_unat page_no_def)
    ultimately show ?thesis by simp
  qed
  have same: "(r - 1) AND PAGE_ALIGN_MASK = r AND PAGE_ALIGN_MASK \<longleftrightarrow> \<not> (aligned r)"
    using same_page [of "r - 1" r] page_below [OF r0] pos by auto
  have m: "page_no c \<le> page_no r" "page_no c \<le> page_no (r - 1)" using page_no_mono [OF le] page_no_mono [of c r] c by simp_all
  have n: "n = word_of_nat (page_no r - page_no c)"
  proof (cases "aligned r")
    case True
    then have "page_no r - page_no c = Suc (page_no (r - 1) - page_no c)" using m page_below [OF r0] pos by auto
    then show ?thesis using same True by (simp add: n_def q)
  next
    case False
    then show ?thesis using same page_below [OF r0] q by (simp add: n_def)
  qed
  have b: "page_no r - page_no c < 2 ^ 20" using page_no_bound [of r] by simp
  then show "sint n = int (page_no r - page_no c)" unfolding n by (intro sint_word_of_nat32) simp
  have "unat n = page_no r - page_no c" unfolding n using b by (intro unat_word_of_nat32) simp
  then have "unat (n * PG_SIZE) = (page_no r - page_no c) * 4096" using b by (simp add: unat_word_ariths(2) PG_SIZE_def)
  then show "n * PG_SIZE = (r AND PAGE_ALIGN_MASK) - (c AND PAGE_ALIGN_MASK)"
    using unat_pages_between [OF m(1)] by (simp add: word_unat_eq_iff)
qed

section \<open>Properties\<close>

text \<open>The root stack grows by the missing pages. On a page fault below the stack but within the frame of the
  function (or one push below it), the handler asks \<open>new_pages\<close> for exactly the pages from the one of the
  address up to the first that the stack already has, all of them and no other; with success the stack
  begins at the page of the address and \<open>swexn\<close> re-installs the handler and resumes, otherwise the handler
  returns with the bounds of the stack unchanged.\<close>

theorem autostack_grows:
  assumes "ur_cause ureg = SWEXN_CAUSE_PAGEFAULT" and "ur_cr2 ureg \<le> ur_ebp ureg" and "ur_esp ureg \<le> ur_cr2 ureg + 4"
    and "ur_cr2 ureg < root_thread_stack_low au"
  shows "\<exists>base len. aligned base \<and> aligned len \<and> base \<le> ur_cr2 ureg \<and> unat (ur_cr2 ureg) < unat base + 4096 \<and>
     unat base + unat len = page_no (root_thread_stack_low au) * 4096 \<and>
     swexn_handler swexn np handler ureg (au, e) =
       (case if len = 0 then (e, 0) else np base len e of (e, r) \<Rightarrow>
        if r \<noteq> 0 then ((au, e), False)
        else (case swexn (exn_stack_high au) handler (Some ureg) e of (e, r) \<Rightarrow> ((au\<lparr>root_thread_stack_low := base\<rparr>, e), \<not> r < 0)))"
proof -
  let ?r = "root_thread_stack_low au" and ?c = "ur_cr2 ureg"
  let ?b = "?c AND PAGE_ALIGN_MASK" and ?l = "(?r AND PAGE_ALIGN_MASK) - (?c AND PAGE_ALIGN_MASK)"
  have m: "page_no ?c \<le> page_no ?r" using page_no_mono [of ?c ?r] assms(4) by simp
  note n = pages_missing [OF assms(4)]
  have l: "unat ?l = (page_no ?r - page_no ?c) * 4096" by (rule unat_pages_between [OF m])
  then have z: "?l = 0 \<longleftrightarrow> page_no ?r = page_no ?c" using m by (simp add: unat_eq_0 [symmetric])
  have b3: "?b \<noteq> 3" 
  proof
    assume "?b = 3"
    then have "page_no ?c * 4096 = 3" using unat_masked [of ?c] by simp
    then show False by (cases "page_no ?c") simp_all
  qed
  have cond: "\<not> (ur_ebp ureg < ?c \<or> ?c + VALID_OUTBOUND < ur_esp ureg)" using assms(2,3) by (simp add: VALID_OUTBOUND_def not_less)
  have "allocate_pages np (?r - 1) ?c (au, e) =
      (case if ?l = 0 then (e, 0) else np ?b ?l e of (e, r) \<Rightarrow> if r \<noteq> 0 then ((au, e), ERROR_NEW_PAGES_GENERAL) else ((au, e), ?b))"
    using n z m by (simp add: allocate_pages_def Let_def)
  then have "swexn_handler swexn np handler ureg (au, e) =
       (case if ?l = 0 then (e, 0) else np ?b ?l e of (e, r) \<Rightarrow>
        if r \<noteq> 0 then ((au, e), False)
        else (case swexn (exn_stack_high au) handler (Some ureg) e of (e, r) \<Rightarrow> ((au\<lparr>root_thread_stack_low := ?b\<rparr>, e), \<not> r < 0)))"
    using assms(1) b3 cond
    by (cases "if ?l = 0 then (e, 0) else np ?b ?l e") (simp add: swexn_handler_def ERROR_NEW_PAGES_GENERAL_def)
  moreover have "aligned ?b" "aligned ?l" using l by (simp_all add: aligned_unat unat_masked)
  moreover have "?b \<le> ?c" "unat ?c < unat ?b + 4096" 
    using div_mult_mod_eq [of "unat ?c" 4096] mod_less_divisor [of 4096 "unat ?c"] unfolding word_le_nat_alt unat_masked page_no_def by linarith+
  moreover have "unat ?b + unat ?l = page_no ?r * 4096" using l m by (simp add: unat_masked diff_mult_distrib)
  ultimately show ?thesis by blast
qed

text \<open>A stack of one page at the top and a push below it.\<close>

definition autostack_example :: autostack_t where
  "autostack_example = \<lparr>exn_stack_high = 0x5000, exn_stack_low = 0x4F04, root_thread_stack_low = 0xFFFFF000,
     root_thread_stack_high = 0xFFFFFFFF, ebp__main = 0xFFFFFF00\<rparr>"

definition fault_example :: ureg_t where
  "fault_example = (ureg_of_words (replicate 20 0))\<lparr>ur_cause := 0xE, ur_cr2 := 0xFFFFDFFC, ur_ebp := 0xFFFFF010, ur_esp := 0xFFFFE000\<rparr>"

theorem autostack_grows_witness:
  "swexn_handler (\<lambda>esp eip u e. (e, 0)) (\<lambda>b l e. (e @ [(b, l)], 0)) 0x1000100 fault_example (autostack_example, []) =
     ((autostack_example\<lparr>root_thread_stack_low := 0xFFFFD000\<rparr>, [(0xFFFFD000, 0x2000)]), True)"
proof -
  have "ur_cause fault_example = SWEXN_CAUSE_PAGEFAULT" "ur_cr2 fault_example \<le> ur_ebp fault_example"
    "ur_esp fault_example \<le> ur_cr2 fault_example + 4" "ur_cr2 fault_example < root_thread_stack_low autostack_example"
    by (simp_all add: fault_example_def autostack_example_def SWEXN_CAUSE_PAGEFAULT_def)
  from autostack_grows [OF this, of "\<lambda>esp eip u e. (e, 0)" "\<lambda>b l e. (e @ [(b, l)], 0)" "0x1000100" "[]"] obtain base len where
    r: "aligned base" "base \<le> 0xFFFFDFFC" "unat (0xFFFFDFFC :: u32) < unat base + 4096" "unat base + unat len = 4294963200"
      "swexn_handler (\<lambda>esp eip u e. (e, 0)) (\<lambda>b l e. (e @ [(b, l)], 0)) 0x1000100 fault_example (autostack_example, []) =
       (case if len = 0 then ([], 0) else ([(base, len)], 0 :: int) of (e, r) \<Rightarrow>
        if r \<noteq> 0 then ((autostack_example, e), False) else ((autostack_example\<lparr>root_thread_stack_low := base\<rparr>, e), True))"
    by (auto simp: fault_example_def autostack_example_def page_no_def)
  have "unat base = unat base div 4096 * 4096" using r(1) div_mult_mod_eq [of "unat base" 4096] by (simp add: aligned_unat)
  moreover have "unat base \<le> 4294959100" "4294955004 < unat base" using r(2,3) by (simp_all add: word_le_nat_alt)
  moreover have "n = 1048573" if "4294955004 < n * 4096" "n * 4096 \<le> 4294959100" for n :: nat using that by linarith
  ultimately have "unat base div 4096 = 1048573" by metis
  then have "unat base = 4294955008" using \<open>unat base = unat base div 4096 * 4096\<close> by simp
  then have "base = 0xFFFFD000" "len = 0x2000" using r(4) by (simp_all add: word_unat_eq_iff)
  then show ?thesis using r(5) by simp
qed

text \<open>\<open>main\<close> returns to \<open>thr_exit\<close>. With \<open>fs\<close> the frames of the functions active between \<open>thr_init\<close> and \<open>_main\<close>
  in the chain of saved frame pointers, \<open>set_rootthr_retaddr\<close> ends and stores the address of \<open>thr_ret2exit\<close>
  over the return address of the outermost of them, \<open>main\<close>, and nowhere else.\<close>

theorem rootthr_retaddr_correct:
  assumes "call_frames (load e) ebp (fs @ [ebp__main au])" and "ebp__main au \<notin> set fs"
  shows "set_rootthr_retaddr load store thr_ret2exit au ebp e = store (last (ebp # fs) + 4) thr_ret2exit e"
  using trace_back_frames [OF assms] by (simp add: set_rootthr_retaddr_def del: last.simps)

theorem rootthr_retaddr_correct_witness:
  "set_rootthr_retaddr (\<lambda>e. e) (\<lambda>a v e. Inr (e(a := v))) 0x1000200 autostack_example 0xFFFFFE00 (\<lambda>a. if a = 0xFFFFFE00 then 0xFFFFFE80 else 0xFFFFFF00) =
     Inr ((\<lambda>a. if a = 0xFFFFFE00 then 0xFFFFFE80 else 0xFFFFFF00)(0xFFFFFE84 := 0x1000200))"
  using rootthr_retaddr_correct [of "\<lambda>e. e" "\<lambda>a. if a = 0xFFFFFE00 then 0xFFFFFE80 else 0xFFFFFF00" "0xFFFFFE00" "[0xFFFFFE80]" autostack_example]
  by (simp add: autostack_example_def)

end
