(* ===== verification/Thread_Lib.thy ===== *)
theory Thread_Lib
  imports Autostack Hashtable
begin

text \<open>
  The thread library (\<open>user/libthread/thr_lib.c\<close>). Its state is the table of threads, the stacks, the table of
  exit statuses (in the form of theory \<open>Hashtable\<close>, to which the linked table of the library is equivalent) and
  the rest \<open>machine\<close> of the user's machine, which the system calls in \<open>ucalls\<close> work on. Each operation is cut
  where it holds no mutex; \<open>others\<close> is what the other threads do there.
\<close>

section \<open>State\<close>

record 'e thrlib =
  arraytcb :: arraytcb_s
  stack_info :: stacks_t
  autost :: autostack_t
  thread_count :: u32
  hash_exit :: hashtable_t
  remove_info :: page_remove_info
  signalled :: "int list"          \<comment> \<open>the waiting threads that \<open>cond_signal\<close> took off a queue\<close>
  machine :: 'e

record 'e ucalls =
  uc_swexn :: "'e swexn_call"
  uc_free :: "u32 \<Rightarrow> 'e \<Rightarrow> 'e"
  uc_new_pages :: "u32 \<Rightarrow> u32 \<Rightarrow> 'e \<Rightarrow> 'e \<times> int"
  uc_remove_pages :: "u32 \<Rightarrow> 'e \<Rightarrow> 'e \<times> int"
  uc_thread_fork :: "u32 \<Rightarrow> u32 \<Rightarrow> 'e \<Rightarrow> 'e \<times> int"
  uc_yield :: "int \<Rightarrow> 'e \<Rightarrow> 'e \<times> int"
  uc_load :: "'e \<Rightarrow> u32 \<Rightarrow> u32"
  uc_store :: "u32 \<Rightarrow> u32 \<Rightarrow> 'e \<Rightarrow> 'e kres"

definition INIT_THR_NUM :: int where "INIT_THR_NUM = 32"
definition EXIT_HASH_SIZE :: int where "EXIT_HASH_SIZE = 1021"

section \<open>Initialisation\<close>

text \<open>\<open>%\<close> on an \<open>int\<close> truncates towards 0.\<close>

definition thr_exitstatus_hashfunc :: "u32 \<Rightarrow> int" where
  "thr_exitstatus_hashfunc key =
     (let utid = sint key in if 0 \<le> utid then utid mod EXIT_HASH_SIZE else - ((- utid) mod EXIT_HASH_SIZE))"

definition thr_hashtableexit_init :: "bool \<Rightarrow> bool \<Rightarrow> hashtable_t \<Rightarrow> hashtable_t \<times> int" where
  "thr_hashtableexit_init hok mok h =
     (case hashtable_init hok (h\<lparr>ht_size := EXIT_HASH_SIZE, func := thr_exitstatus_hashfunc\<rparr>) of (h, r) \<Rightarrow>
      (h, if r = 0 \<and> \<not> mok then - 1 else r))"

text \<open>The answers of the allocator and of the initialisers of mutexes and condition variables.\<close>

record init_answers =
  mutex_count_ok :: bool
  mutex_array_ok :: bool
  ia_arr :: u32
  ia_dat :: u32
  ia_lst :: u32
  ia_hash_ok :: bool
  ia_hash_mutex_ok :: bool
  ia_thr :: u32
  ia_dat2 :: u32
  ia_junk :: int
  ia_cond_ok :: bool

text \<open>The insertion goes to a table that may not be there: \<open>arraytcb\<close> is NULL when its allocation failed.\<close>

definition thr_init :: "'e ucalls \<Rightarrow> init_answers \<Rightarrow> u32 \<Rightarrow> u32 \<Rightarrow> int \<Rightarrow> u32 \<Rightarrow> 'e thrlib \<Rightarrow> ('e thrlib \<times> int) kres" where
  "thr_init k ia thr_ret2exit ebp gettid sz s =
     kbind (set_rootthr_retaddr (uc_load k) (uc_store k) thr_ret2exit (autost s) ebp (machine s)) (\<lambda>e.
     let s = s\<lparr>machine := e, thread_count := 1\<rparr>;
         r1 = (if mutex_count_ok ia then 0 else - 1 :: int);
         r2 = (if mutex_array_ok ia then 0 else - 1 :: int)
     in case arraytcb_init (ia_arr ia) (ia_dat ia) (ia_lst ia) INIT_THR_NUM (arraytcb s) of (a, r3) \<Rightarrow>
        case thr_lib_helper_init (get_root_thread_stack_high (autost s)) sz (stack_info s) of (st, r4) \<Rightarrow>
        case thr_hashtableexit_init (ia_hash_ok ia) (ia_hash_mutex_ok ia) (hash_exit s) of (h, r5) \<Rightarrow>
        if ia_arr ia = NULL then Inl FAULT
        else
          kbind (arraytcb_insert_thread (ia_thr ia) (ia_dat2 ia) (ia_junk ia) (ia_cond_ok ia) 0 (a\<lparr>array_locked := False\<rparr>)) (\<lambda>(a, r6).
          kbind (arraytcb_set_ktid 0 gettid a) (\<lambda>(a, r7).
          Inr (s\<lparr>arraytcb := a, stack_info := st, hash_exit := h\<rparr>,
               if r1 = 0 \<and> r2 = 0 \<and> r3 = 0 \<and> r4 = 0 \<and> r5 = 0 \<and> r6 = 0 \<and> r7 = 0 then 0 else - 1))))"

section \<open>Creation\<close>

definition take_tid :: "'e thrlib \<Rightarrow> 'e thrlib \<times> int" where
  "take_tid s = (s\<lparr>thread_count := thread_count s + 1\<rparr>, sint (thread_count s))"

definition insert_tid :: "u32 \<Rightarrow> u32 \<Rightarrow> int \<Rightarrow> bool \<Rightarrow> int \<Rightarrow> 'e thrlib \<Rightarrow> ('e thrlib \<times> int) kres" where
  "insert_tid blk dat junk cok utid s =
     kbind (arraytcb_insert_thread blk dat junk cok utid (arraytcb s)) (\<lambda>(a, index). Inr (s\<lparr>arraytcb := a\<rparr>, index))"

definition new_stack :: "'e ucalls \<Rightarrow> int \<Rightarrow> 'e thrlib \<Rightarrow> 'e thrlib \<times> u32" where
  "new_stack k index s =
     (case get_new_stack_top (get_root_thread_stack_low (uc_swexn k) (uc_free k))
             (\<lambda>b l (au, e). case uc_new_pages k b l e of (e, r) \<Rightarrow> ((au, e), r)) index (stack_info s, autost s, machine s) of
        ((st, au, e), x) \<Rightarrow> (s\<lparr>stack_info := st, autost := au, machine := e\<rparr>, x))"

text \<open>The arguments are stored and the thread is started; \<open>Inl\<close> carries a crash.\<close>

definition start_thread :: "'e ucalls \<Rightarrow> u32 \<Rightarrow> u32 \<Rightarrow> int \<Rightarrow> 'e thrlib \<Rightarrow> ('e thrlib \<times> int) kres" where
  "start_thread k f args index s =
     (case new_stack k index s of (s, stack_addr) \<Rightarrow>
      if stack_addr mod ALIGNMENT \<noteq> 0 then Inr (s, - 1)
      else
        kbind (uc_store k (stack_addr - 4) args (machine s)) (\<lambda>e.
        kbind (uc_store k (stack_addr - 12) (word_of_int index) e) (\<lambda>e.
        case uc_thread_fork k f (stack_addr - 12) e of (e, child_ktid) \<Rightarrow>
        Inr (s\<lparr>machine := e\<rparr>, if child_ktid < 0 then - 1 else child_ktid))))"

definition note_ktid :: "int \<Rightarrow> int \<Rightarrow> int \<Rightarrow> 'e thrlib \<Rightarrow> 'e thrlib kres" where
  "note_ktid utid index child_ktid s =
     kbind (lock_array (arraytcb s)) (\<lambda>a.
     kbind (arraytcb_get_thread index a) (\<lambda>p.
     kbind (if p = NULL then Inr a
            else kbind (kderef (blocks a) p) (\<lambda>b.
              if tcb_tid b = utid then kbind (arraytcb_set_ktid index child_ktid a) (\<lambda>(a, _). Inr a) else Inr a)) (\<lambda>a.
     Inr (s\<lparr>arraytcb := unlock_array a\<rparr>))))"

definition thr_create ::
  "'e ucalls \<Rightarrow> ('e thrlib \<Rightarrow> 'e thrlib kres) \<Rightarrow> u32 \<Rightarrow> u32 \<Rightarrow> int \<Rightarrow> bool \<Rightarrow> u32 \<Rightarrow> u32 \<Rightarrow> 'e thrlib \<Rightarrow> ('e thrlib \<times> int) kres" where
  "thr_create k others blk dat junk cok f args s =
     (case take_tid s of (s, utid) \<Rightarrow>
      kbind (others s) (\<lambda>s.
      kbind (insert_tid blk dat junk cok utid s) (\<lambda>(s, index).
      if index = - 1 then Inr (s, - 1)
      else
        kbind (others s) (\<lambda>s.
        kbind (start_thread k f args index s) (\<lambda>(s, child_ktid).
        if child_ktid < 0 then Inr (s, - 1)
        else
          kbind (others s) (\<lambda>s.
          kbind (note_ktid utid index child_ktid s) (\<lambda>s. Inr (s, utid))))))))"

text \<open>The first steps of the new thread (\<open>thr_create_kernel.S\<close>): it stores its own kernel id.\<close>

definition thread_begins :: "int \<Rightarrow> int \<Rightarrow> 'e thrlib \<Rightarrow> 'e thrlib kres" where
  "thread_begins index gettid s =
     kbind (arraytcb_set_ktid index gettid (arraytcb s)) (\<lambda>(a, _). Inr (s\<lparr>arraytcb := a\<rparr>))"

section \<open>The calling thread\<close>

definition my_tcb :: "u32 \<Rightarrow> 'e thrlib \<Rightarrow> utcb_t option kres" where
  "my_tcb esp s =
     kbind (arraytcb_get_thread (get_stack_position_index esp (stack_info s)) (arraytcb s)) (\<lambda>p.
     if p = NULL then Inr None else kbind (kderef (blocks (arraytcb s)) p) (\<lambda>b. Inr (Some b)))"

definition thr_getid :: "u32 \<Rightarrow> 'e thrlib \<Rightarrow> int kres" where
  "thr_getid esp s = kbind (my_tcb esp s) (\<lambda>t. Inr (case t of None \<Rightarrow> - 1 | Some b \<Rightarrow> tcb_tid b))"

definition thr_getktid :: "u32 \<Rightarrow> 'e thrlib \<Rightarrow> int kres" where
  "thr_getktid esp s = kbind (my_tcb esp s) (\<lambda>t. Inr (case t of None \<Rightarrow> - 1 | Some b \<Rightarrow> tcb_ktid b))"

definition thr_yield :: "'e ucalls \<Rightarrow> int \<Rightarrow> 'e thrlib \<Rightarrow> ('e thrlib \<times> int) kres" where
  "thr_yield k utid s =
     (if utid = - 1 then (case uc_yield k (- 1) (machine s) of (e, r) \<Rightarrow> Inr (s\<lparr>machine := e\<rparr>, r))
      else
        kbind (lock_array (arraytcb s)) (\<lambda>a.
        kbind (arraytcb_find_thread utid a) (\<lambda>p.
        if p = NULL then Inr (s\<lparr>arraytcb := unlock_array a\<rparr>, - 1)
        else
          kbind (kderef (blocks a) p) (\<lambda>b.
          case uc_yield k (tcb_ktid b) (machine s) of (e, r) \<Rightarrow>
          Inr (s\<lparr>arraytcb := unlock_array a, machine := e\<rparr>, r)))))"

section \<open>Join\<close>

text \<open>Up to the place where the caller fails, waits under its kernel id, or goes on to the table.\<close>

datatype join_begin = Join_fails | Join_waits int | Join_reaps

definition thr_join_begin :: "u32 \<Rightarrow> int \<Rightarrow> 'e thrlib \<Rightarrow> ('e thrlib \<times> join_begin) kres" where
  "thr_join_begin esp utid s =
     (if thread_count s \<le> word_of_int utid then Inr (s, Join_fails)
      else
        kbind (lock_array (arraytcb s)) (\<lambda>a.
        kbind (arraytcb_find_thread utid a) (\<lambda>p.
        if p = NULL then Inr (s\<lparr>arraytcb := unlock_array a\<rparr>, Join_reaps)
        else
          kbind (kderef (blocks a) p) (\<lambda>b.
          case tcb_state b of
            JOINED \<Rightarrow> Inr (s\<lparr>arraytcb := unlock_array a\<rparr>, Join_fails)
          | RUNNING \<Rightarrow>
              kbind (thr_getktid esp s) (\<lambda>self.
              if \<not> cond_ok b then Inl PANIC
              else kbind (mod_block p (\<lambda>b. b\<lparr>tcb_state := JOINED, joiners := joiners b @ [self]\<rparr>) a) (\<lambda>a.
                Inr (s\<lparr>arraytcb := unlock_array a\<rparr>, Join_waits self)))))))"

text \<open>The end of \<open>cond_wait\<close>: only a thread that was signalled goes on, and it takes the mutex again.\<close>

definition thr_join_wake :: "int \<Rightarrow> 'e thrlib \<Rightarrow> 'e thrlib kres" where
  "thr_join_wake self s =
     (if self \<in> set (signalled s) then
        kbind (lock_array (arraytcb s)) (\<lambda>a. Inr (s\<lparr>arraytcb := unlock_array a, signalled := remove1 self (signalled s)\<rparr>))
      else Inl BLOCKS)"

text \<open>The status goes to \<open>*statusp\<close> if there is one.\<close>

definition thr_join_reap :: "int \<Rightarrow> bool \<Rightarrow> 'e thrlib \<Rightarrow> ('e thrlib \<times> int \<times> u32 option) kres" where
  "thr_join_reap utid statusp s =
     kbind (hashtable_remove (word_of_int utid) (hash_exit s)) (\<lambda>(h, v, is_find).
     Inr (s\<lparr>hash_exit := h\<rparr>, if is_find \<noteq> 0 then 0 else - 1, if statusp then Some v else None))"

text \<open>\<open>asleep\<close> is what the other threads do while the caller is descheduled.\<close>

definition thr_join ::
  "('e thrlib \<Rightarrow> 'e thrlib kres) \<Rightarrow> ('e thrlib \<Rightarrow> 'e thrlib kres) \<Rightarrow> u32 \<Rightarrow> int \<Rightarrow> bool \<Rightarrow> 'e thrlib \<Rightarrow> ('e thrlib \<times> int \<times> u32 option) kres" where
  "thr_join asleep others esp utid statusp s =
     kbind (thr_join_begin esp utid s) (\<lambda>(s, r).
     case r of
       Join_fails \<Rightarrow> Inr (s, - 1, None)
     | Join_waits self \<Rightarrow>
         kbind (asleep s) (\<lambda>s. kbind (thr_join_wake self s) (\<lambda>s. kbind (others s) (thr_join_reap utid statusp)))
     | Join_reaps \<Rightarrow> kbind (others s) (thr_join_reap utid statusp))"

section \<open>Exit\<close>

text \<open>\<open>asm_thr_exit\<close>: the pages go in this order, and what \<open>remove_pages\<close> answers is not looked at.\<close>

definition asm_thr_exit :: "'e ucalls \<Rightarrow> page_remove_info \<Rightarrow> 'e \<Rightarrow> 'e" where
  "asm_thr_exit k info e =
     (let rm = (\<lambda>can base e. if can \<noteq> (0 :: int) then fst (uc_remove_pages k base e) else e) in
      rm (lowest_page_can_remove info) (lowest_page_base info)
        (rm (middle_pages_can_remove info) (middle_pages_base info)
          (rm (highest_page_can_remove info) (highest_page_base info) e)))"

definition thr_exit_report :: "u32 \<Rightarrow> u32 \<Rightarrow> 'e thrlib \<Rightarrow> ('e thrlib \<times> int \<times> u32) kres" where
  "thr_exit_report esp estatus s =
     (let index = get_stack_position_index esp (stack_info s) in
      kbind (arraytcb_get_thread index (arraytcb s)) (\<lambda>p.
      if p = NULL then Inl PANIC
      else
        kbind (kderef (blocks (arraytcb s)) p) (\<lambda>b.
        kbind (hashtable_put True (word_of_int (tcb_tid b)) estatus (hash_exit s)) (\<lambda>(h, _).
        Inr (s\<lparr>hash_exit := h\<rparr>, index, p)))))"

definition signal_joiner :: "u32 \<Rightarrow> arraytcb_s \<Rightarrow> (arraytcb_s \<times> int list) kres" where
  "signal_joiner p a =
     kbind (kderef (blocks a) p) (\<lambda>b.
     case tcb_state b of
       RUNNING \<Rightarrow> Inr (a, [])
     | JOINED \<Rightarrow>
         if \<not> cond_ok b then Inl PANIC
         else (case joiners b of [] \<Rightarrow> Inr (a, [])
               | w # ws \<Rightarrow> kbind (mod_block p (\<lambda>b. b\<lparr>joiners := ws\<rparr>) a) (\<lambda>a. Inr (a, [w]))))"

definition thr_exit_leave :: "'e ucalls \<Rightarrow> int \<Rightarrow> u32 \<Rightarrow> 'e thrlib \<Rightarrow> 'e thrlib kres" where
  "thr_exit_leave k index p s =
     kbind (lock_array (arraytcb s)) (\<lambda>a.
     kbind (signal_joiner p a) (\<lambda>(a, ws).
     kbind (arraytcb_delete_thread index a) (\<lambda>(a, r).
     if r < 0 then Inl PANIC
     else
       kbind (get_pages_to_remove index a (stack_info s) (remove_info s)) (\<lambda>info.
       Inr (s\<lparr>arraytcb := unlock_array a, signalled := signalled s @ ws, remove_info := info,
              machine := asm_thr_exit k info (machine s)\<rparr>)))))"

definition thr_exit :: "'e ucalls \<Rightarrow> ('e thrlib \<Rightarrow> 'e thrlib kres) \<Rightarrow> u32 \<Rightarrow> u32 \<Rightarrow> 'e thrlib \<Rightarrow> 'e thrlib kres" where
  "thr_exit k others esp estatus s =
     kbind (thr_exit_report esp estatus s) (\<lambda>(s, index, p).
     kbind (others s) (thr_exit_leave k index p))"

section \<open>The threads in the table\<close>

definition tcbs :: "arraytcb_s \<Rightarrow> int \<rightharpoonup> utcb_t" where
  "tcbs a i = (if slot a i = NULL then None else blocks a (slot a i))"

lemma slot_locked [simp]: "slot (a\<lparr>array_locked := l\<rparr>) = slot a" "slot (unlock_array a) = slot a"
  by (simp_all add: slot_def unlock_array_def fun_eq_iff)

lemma locked_simps [simp]:
  "tcbs (a\<lparr>array_locked := l\<rparr>) = tcbs a" "slots_ok (a\<lparr>array_locked := l\<rparr>) = slots_ok a"
  "tcbs (unlock_array a) = tcbs a" "slots_ok (unlock_array a) = slots_ok a" "\<not> array_locked (unlock_array a)"
  by (simp_all add: tcbs_def slots_ok_def fun_eq_iff) (simp_all add: unlock_array_def)

lemma lock_free: "\<not> array_locked a \<Longrightarrow> lock_array a = Inr (a\<lparr>array_locked := True\<rparr>)"
  by (simp add: lock_array_def)

lemma tcbsD: "tcbs a i = Some b \<Longrightarrow> slot a i \<noteq> NULL \<and> blocks a (slot a i) = Some b \<and> 0 \<le> i \<and> i < cursize a"
  by (auto simp: tcbs_def slot_def split: if_splits)

lemma slot_thread: "slots_ok a \<Longrightarrow> slot a i \<noteq> NULL \<Longrightarrow> \<exists>b. tcbs a i = Some b"
  using slots_okD(2,4,7) [of a] by (force simp: tcbs_def slot_def split: if_splits)

lemma slot_inj:
  assumes "slots_ok a" and "slot a i = slot a j" and "slot a i \<noteq> NULL"
  shows "i = j"
proof -
  have b: "0 \<le> i" "i < cursize a" "0 \<le> j" "j < cursize a" using assms(2,3) by (auto simp: slot_def split: if_splits)
  then have "nat i = nat j" using slots_okD(2,4) [OF assms(1)] slots_okD(8) [OF assms(1), of "nat i" "nat j"] assms(2,3) by (auto simp: slot_def)
  then show ?thesis using b by simp
qed

lemma insert_threads:
  assumes "slots_ok a" and "\<not> array_locked a" and "p \<noteq> NULL" and "blocks a p = None" and "dat \<noteq> NULL"
  shows "\<exists>a' i. arraytcb_insert_thread p dat junk cok t a = Inr (a', i) \<and> slots_ok a' \<and> \<not> array_locked a' \<and> i \<noteq> - 1 \<and>
     tcbs a i = None \<and> tcbs a' = (tcbs a)(i \<mapsto> new_block junk cok t) \<and> (\<forall>j. j \<noteq> i \<longrightarrow> slot a' j = slot a j)"
proof -
  from insert_thread_correct [OF assms, of junk cok t] obtain a' i where
    r: "arraytcb_insert_thread p dat junk cok t a = Inr (a', i)" "slots_ok a'" "\<not> array_locked a'" "slot a i = NULL" "slot a' i = p"
      "blocks a' = (blocks a)(p \<mapsto> new_block junk cok t)" "\<forall>j. j \<noteq> i \<longrightarrow> slot a' j = slot a j" by blast
  have fresh: "slot a j \<noteq> p" for j using slot_thread [OF assms(1), of j] assms(3,4) by (auto simp: tcbs_def)
  have "0 \<le> i" using r(5) assms(3) by (auto simp: slot_def split: if_splits)
  moreover have "tcbs a' = (tcbs a)(i \<mapsto> new_block junk cok t)"
    using r(5-7) assms(3) fresh by (auto simp: tcbs_def fun_eq_iff)
  ultimately show ?thesis using r by (intro exI [of _ a'] exI [of _ i]) (simp add: tcbs_def)
qed

lemma delete_threads:
  assumes "slots_ok a" and "tcbs a i = Some b" and "cond_ok b" and "joiners b = []"
  shows "\<exists>a'. arraytcb_delete_thread i a = Inr (a', 0) \<and> slots_ok a' \<and> tcbs a' = (tcbs a)(i := None) \<and> (\<forall>j. j \<noteq> i \<longrightarrow> slot a' j = slot a j)"
proof -
  note t = tcbsD [OF assms(2)]
  from delete_thread_ok [OF assms(1), of i "slot a i" b] t assms(3,4) obtain a' where
    r: "arraytcb_delete_thread i a = Inr (a', 0)" "slots_ok a'" "slot a' i = NULL" "\<forall>j. j \<noteq> i \<longrightarrow> slot a' j = slot a j"
      "a' = a\<lparr>data := (data a)[nat i := NULL], blocks := (blocks a)(slot a i := None), avail_list := i # avail_list a\<rparr>" by blast
  have b: "blocks a' = (blocks a)(slot a i := None)" by (subst r(5)) simp
  have "tcbs a' = (tcbs a)(i := None)"
  proof (rule ext)
    fix j show "tcbs a' j = ((tcbs a)(i := None)) j"
      using b r(3,4) slot_inj [OF assms(1), of j i] by (auto simp: tcbs_def)
  qed
  then show ?thesis using r by blast
qed

lemma mod_block_threads:
  assumes ok: "slots_ok a" and t: "tcbs a i = Some b"
  shows "\<exists>a'. mod_block (slot a i) f a = Inr a' \<and> slots_ok a' \<and> slot a' = slot a \<and> cursize a' = cursize a \<and>
     array_locked a' = array_locked a \<and> tcbs a' = (tcbs a)(i \<mapsto> f b)"
proof -
  let ?a = "a\<lparr>blocks := (blocks a)(slot a i \<mapsto> f b)\<rparr>"
  have "mod_block (slot a i) f a = Inr ?a" using tcbsD [OF t] by (simp add: mod_block_def)
  moreover have "slots_ok ?a" using ok unfolding slots_ok_def by auto
  moreover have sl: "slot ?a = slot a" by (simp add: slot_def fun_eq_iff)
  moreover have "tcbs ?a j = ((tcbs a)(i \<mapsto> f b)) j" for j
    using tcbsD [OF t] slot_inj [OF ok, of j i] sl by (auto simp: tcbs_def)
  ultimately show ?thesis by (intro exI [of _ ?a]) (simp add: fun_eq_iff)
qed

lemma find_threads:
  assumes "slots_ok a"
  obtains "arraytcb_find_thread t a = Inr NULL" and "\<And>i b. tcbs a i = Some b \<Longrightarrow> tcb_tid b \<noteq> t"
  | i b where "arraytcb_find_thread t a = Inr (slot a i)" and "tcbs a i = Some b" and "tcb_tid b = t"
proof -
  from find_thread_correct [OF assms, of t] obtain p where
    p: "arraytcb_find_thread t a = Inr p" "p \<noteq> NULL \<Longrightarrow> \<exists>i b. slot a i = p \<and> blocks a p = Some b \<and> tcb_tid b = t"
      "p = NULL \<Longrightarrow> \<forall>i b. slot a i \<noteq> NULL \<longrightarrow> blocks a (slot a i) = Some b \<longrightarrow> tcb_tid b \<noteq> t" by auto
  show ?thesis
  proof (cases "p = NULL")
    case True
    show ?thesis
    proof (rule that(1))
      show "arraytcb_find_thread t a = Inr NULL" using p(1) True by simp
      show "tcb_tid b \<noteq> t" if "tcbs a i = Some b" for i b using p(3) [OF True] tcbsD [OF that] by blast
    qed
  next
    case False
    from p(2) [OF False] obtain i b where "slot a i = p" "blocks a p = Some b" "tcb_tid b = t" by blast
    then show ?thesis using that(2) [of i b] p(1) False by (auto simp: tcbs_def)
  qed
qed

lemma get_thread_tcbs: "slots_ok a \<Longrightarrow> tcbs a i = Some b \<Longrightarrow> arraytcb_get_thread i a = Inr (slot a i)"
  using tcbsD [of a i b] by (simp add: get_thread_slot)

lemma get_thread_cases:
  assumes "slots_ok a"
  obtains "arraytcb_get_thread i a = Inr NULL" and "tcbs a i = None"
  | b where "arraytcb_get_thread i a = Inr (slot a i)" and "slot a i \<noteq> NULL" and "tcbs a i = Some b"
proof (cases "slot a i = NULL")
  case True
  then show ?thesis using that(1) get_thread_slot [OF assms, of i] by (auto simp: tcbs_def arraytcb_get_thread_def slot_def split: if_splits)
next
  case False
  from slot_thread [OF assms False] obtain b where "tcbs a i = Some b" by blast
  with that(2) False get_thread_tcbs [OF assms this] show ?thesis by blast
qed

lemma set_ktid_threads:
  assumes "slots_ok a" and "0 \<le> i" and "arraytcb_set_ktid i c a = Inr (a', r)"
  shows "slots_ok a' \<and> slot a' = slot a \<and> array_locked a' = array_locked a \<and>
     tcbs a' = (case tcbs a i of None \<Rightarrow> tcbs a | Some b \<Rightarrow> (tcbs a)(i \<mapsto> b\<lparr>tcb_ktid := c\<rparr>))"
proof (cases "tcbs a i")
  case None
  then have "slot a i = NULL" using slot_thread [OF assms(1), of i] by auto
  then have "a' = a" using assms slots_okD(2-4) [OF assms(1)] by (auto simp: arraytcb_set_ktid_def slot_def get_data_def split: if_splits)
  then show ?thesis using None assms(1) by simp
next
  case (Some b)
  note t = tcbsD [OF Some]
  have "get_data i a = Inr (slot a i)" using t slots_okD(2,4) [OF assms(1)] by (simp add: get_data_def slot_def)
  moreover from mod_block_threads [OF assms(1) Some, of "\<lambda>b. b\<lparr>tcb_ktid := c\<rparr>"] obtain a2 where
    "mod_block (slot a i) (\<lambda>b. b\<lparr>tcb_ktid := c\<rparr>) a = Inr a2" "slots_ok a2" "slot a2 = slot a" "array_locked a2 = array_locked a"
    "tcbs a2 = (tcbs a)(i \<mapsto> b\<lparr>tcb_ktid := c\<rparr>)" by blast
  ultimately show ?thesis using assms(3) t Some by (simp add: arraytcb_set_ktid_def)
qed

text \<open>The search for pages to remove always returns.\<close>

lemma get_thread_returns: "slots_ok a \<Longrightarrow> \<exists>p. arraytcb_get_thread j a = Inr p"
  using slots_okD(2,4) [of a] by (auto simp: arraytcb_get_thread_def get_data_def)

lemma upper_loop_returns: "slots_ok a \<Longrightarrow> \<exists>r. upper_loop a sz hp index i u = Inr r"
proof (induction a sz hp index i u rule: upper_loop.induct)
  case (1 a sz hp index i u)
  from get_thread_returns [OF "1.prems", of "index - i"] obtain p where "arraytcb_get_thread (index - i) a = Inr p" by blast
  then show ?case using 1 by (subst upper_loop.simps) auto
qed

lemma lower_loop_returns: "slots_ok a \<Longrightarrow> \<exists>r. lower_loop a sz lp index i u = Inr r"
proof (induction a sz lp index i u rule: lower_loop.induct)
  case (1 a sz lp index i u)
  from get_thread_returns [OF "1.prems", of "index + i"] obtain p where "arraytcb_get_thread (index + i) a = Inr p" by blast
  then show ?case using 1 by (subst lower_loop.simps) auto
qed

lemma get_pages_returns: "slots_ok a \<Longrightarrow> \<exists>r. get_pages_to_remove index a st info = Inr r"
proof -
  assume ok: "slots_ok a"
  let ?h = "thread_stack_high index st" and ?l = "thread_stack_low index st"
  from upper_loop_returns [OF ok] obtain u where "upper_loop a (stack_size st) (?h AND PAGE_ALIGN_MASK) index 1 (?h + 1) = Inr u" by blast
  moreover from lower_loop_returns [OF ok] obtain l where "lower_loop a (stack_size st) (?l AND PAGE_ALIGN_MASK) index 1 (?l - 1) = Inr l" by blast
  ultimately show ?thesis by (simp add: get_pages_to_remove_def Let_def)
qed

section \<open>The invariant\<close>

text \<open>What holds whenever no thread is inside a critical section: the thread ids in the table are different and
  were given out, and a thread that nobody joined has nobody waiting.\<close>

definition tcb_ok :: "u32 \<Rightarrow> utcb_t \<Rightarrow> bool" where
  "tcb_ok n b \<longleftrightarrow> 0 \<le> tcb_tid b \<and> tcb_tid b < uint n \<and> cond_ok b \<and>
     (case tcb_state b of RUNNING \<Rightarrow> joiners b = [] | JOINED \<Rightarrow> length (joiners b) \<le> 1)"

definition lib_ok :: "'e thrlib \<Rightarrow> bool" where
  "lib_ok s \<longleftrightarrow> slots_ok (arraytcb s) \<and> \<not> array_locked (arraytcb s) \<and> ht_ok (hash_exit s) \<and>
     func (hash_exit s) = thr_exitstatus_hashfunc \<and> ht_size (hash_exit s) = EXIT_HASH_SIZE \<and> thread_count s < 2 ^ 31 \<and>
     (\<forall>b \<in> ran (tcbs (arraytcb s)). tcb_ok (thread_count s) b) \<and>
     (\<forall>i j b c. tcbs (arraytcb s) i = Some b \<longrightarrow> tcbs (arraytcb s) j = Some c \<longrightarrow> tcb_tid b = tcb_tid c \<longrightarrow> i = j)"

lemma lib_okD:
  assumes "lib_ok s"
  shows "slots_ok (arraytcb s)" "\<not> array_locked (arraytcb s)" "ht_ok (hash_exit s)" "func (hash_exit s) = thr_exitstatus_hashfunc"
    "ht_size (hash_exit s) = EXIT_HASH_SIZE" "thread_count s < 2 ^ 31" "uint (thread_count s) < 2 ^ 31"
    "\<And>i b. tcbs (arraytcb s) i = Some b \<Longrightarrow> tcb_ok (thread_count s) b"
    "\<And>i j b c. tcbs (arraytcb s) i = Some b \<Longrightarrow> tcbs (arraytcb s) j = Some c \<Longrightarrow> tcb_tid b = tcb_tid c \<Longrightarrow> i = j"
  using assms by (auto simp: lib_ok_def ran_def word_less_def)

lemma tcb_okD:
  "tcb_ok n b \<Longrightarrow> 0 \<le> tcb_tid b \<and> tcb_tid b < uint n \<and> cond_ok b"
  by (simp add: tcb_ok_def)

lemma tcb_ok_mono: "tcb_ok n b \<Longrightarrow> uint n \<le> uint m \<Longrightarrow> tcb_ok m b"
  by (auto simp: tcb_ok_def)

text \<open>Every thread id has its bucket.\<close>

lemma sint_tid: "0 \<le> t \<Longrightarrow> t < 2 ^ 31 \<Longrightarrow> sint (word_of_int t :: u32) = t"
  using sint_word_of_nat32 [of "nat t"] by simp

lemma tid_in_range: "lib_ok s \<Longrightarrow> 0 \<le> t \<Longrightarrow> t < 2 ^ 31 \<Longrightarrow> in_range (hash_exit s) (word_of_int t)"
  using sint_tid [of t] lib_okD(4,5) [of s] by (simp add: in_range_def thr_exitstatus_hashfunc_def EXIT_HASH_SIZE_def)

lemma tid_inj: "\<lbrakk>0 \<le> t; t < 2 ^ 31; 0 \<le> u; u < 2 ^ 31\<rbrakk> \<Longrightarrow> (word_of_int t :: u32) = word_of_int u \<longleftrightarrow> t = u"
  using sint_tid by metis

lemma joinable: "\<lbrakk>lib_ok s; 0 \<le> t; t < 2 ^ 31\<rbrakk> \<Longrightarrow> thread_count s \<le> word_of_int t \<longleftrightarrow> uint (thread_count s) \<le> t"
  by (simp add: word_le_def unsigned_of_int take_bit_int_eq_self)

section \<open>The pieces under the invariant\<close>

lemma exit_report_ok:
  assumes ok: "lib_ok s" and i: "get_stack_position_index esp (stack_info s) = i" and b: "tcbs (arraytcb s) i = Some b"
  shows "thr_exit_report esp v s = Inr (s\<lparr>hash_exit := put_ok (word_of_int (tcb_tid b)) v (hash_exit s)\<rparr>, i, slot (arraytcb s) i)"
proof -
  have "in_range (hash_exit s) (word_of_int (tcb_tid b))"
    using tid_in_range [OF ok, of "tcb_tid b"] tcb_okD [OF lib_okD(8) [OF ok b]] lib_okD(7) [OF ok] by linarith
  then show ?thesis
    using get_thread_tcbs [OF lib_okD(1) [OF ok] b] tcbsD [OF b] i hashtable_put_returns [OF lib_okD(3) [OF ok]]
    by (simp add: thr_exit_report_def Let_def)
qed

lemma signal_joiner_ok:
  assumes ok: "slots_ok a" and b: "tcbs a i = Some b" and t: "tcb_ok n b"
  shows "\<exists>a' b'. signal_joiner (slot a i) a = Inr (a', joiners b) \<and> slots_ok a' \<and> slot a' = slot a \<and> tcbs a' = (tcbs a)(i \<mapsto> b') \<and>
     cond_ok b' \<and> joiners b' = []"
proof (cases "joiners b")
  case Nil
  then have "signal_joiner (slot a i) a = Inr (a, [])"
    using tcbsD [OF b] tcb_okD [OF t] by (simp add: signal_joiner_def split: thr_state_t.splits)
  then show ?thesis using Nil ok b tcb_okD [OF t] by (intro exI [of _ a] exI [of _ b]) (simp add: fun_upd_idem)
next
  case (Cons w ws)
  then have j: "tcb_state b = JOINED" "ws = []" using t by (auto simp: tcb_ok_def split: thr_state_t.splits)
  from mod_block_threads [OF ok b, of "\<lambda>b. b\<lparr>joiners := []\<rparr>"] obtain a' where
    a': "mod_block (slot a i) (\<lambda>b. b\<lparr>joiners := []\<rparr>) a = Inr a'" "slots_ok a'" "slot a' = slot a" "tcbs a' = (tcbs a)(i \<mapsto> b\<lparr>joiners := []\<rparr>)" by blast
  have "signal_joiner (slot a i) a = Inr (a', [w])" using tcbsD [OF b] tcb_okD [OF t] j Cons a'(1) by (simp add: signal_joiner_def)
  then show ?thesis using Cons j a' tcb_okD [OF t] by (intro exI [of _ a'] exI [of _ "b\<lparr>joiners := []\<rparr>"]) simp
qed

lemma exit_leave_ok:
  assumes ok: "lib_ok s" and b: "tcbs (arraytcb s) i = Some b" and p: "p = slot (arraytcb s) i"
  shows "\<exists>s'. thr_exit_leave k i p s = Inr s' \<and> slots_ok (arraytcb s') \<and> \<not> array_locked (arraytcb s') \<and>
     tcbs (arraytcb s') = (tcbs (arraytcb s))(i := None) \<and> (\<forall>j. j \<noteq> i \<longrightarrow> slot (arraytcb s') j = slot (arraytcb s) j) \<and>
     signalled s' = signalled s @ joiners b \<and> hash_exit s' = hash_exit s \<and> thread_count s' = thread_count s \<and> stack_info s' = stack_info s"
proof -
  let ?a = "arraytcb s\<lparr>array_locked := True\<rparr>"
  have l: "lock_array (arraytcb s) = Inr ?a" by (rule lock_free [OF lib_okD(2) [OF ok]])
  have "slots_ok ?a" "tcbs ?a i = Some b" using lib_okD(1) [OF ok] b by simp_all
  from signal_joiner_ok [OF this lib_okD(8) [OF ok b]] obtain a1 b1 where
    a1: "signal_joiner (slot ?a i) ?a = Inr (a1, joiners b)" "slots_ok a1" "slot a1 = slot ?a" "tcbs a1 = (tcbs ?a)(i \<mapsto> b1)"
      "cond_ok b1" "joiners b1 = []" by blast
  from delete_threads [OF a1(2) _ a1(5,6), of i] a1(4) obtain a2 where
    a2: "arraytcb_delete_thread i a1 = Inr (a2, 0)" "slots_ok a2" "tcbs a2 = (tcbs a1)(i := None)" "\<forall>j. j \<noteq> i \<longrightarrow> slot a2 j = slot a1 j" by auto
  from get_pages_returns [OF a2(2)] obtain info where "get_pages_to_remove i a2 (stack_info s) (remove_info s) = Inr info" by blast
  then show ?thesis using l a1 a2 p by (simp add: thr_exit_leave_def)
qed

lemma join_reap_ok:
  assumes ok: "lib_ok s" and t: "0 \<le> t" "t < 2 ^ 31"
  shows "thr_join_reap t statusp s =
     Inr (s\<lparr>hash_exit := fst (rem_ok (word_of_int t) (hash_exit s))\<rparr>,
       (case ht_values (hash_exit s) (word_of_int t) of [] \<Rightarrow> (- 1, if statusp then Some NULL else None)
        | v # _ \<Rightarrow> (0, if statusp then Some v else None)))"
  using hashtable_remove_returns [OF lib_okD(3) [OF ok] tid_in_range [OF ok t]] ht.rem_result [OF lib_okD(3) [OF ok] tid_in_range [OF ok t]]
    ht.get_vals [OF lib_okD(3) [OF ok] tid_in_range [OF ok t]]
  by (auto simp: thr_join_reap_def split: list.splits option.splits)

lemma table_func [simp]:
  "func (put_ok k v h) = func h" "ht_size (put_ok k v h) = ht_size h" "func (fst (rem_ok k h)) = func h" "ht_size (fst (rem_ok k h)) = ht_size h"
  by (auto simp: put_ok_def hashtable_put_def rem_ok_def hashtable_remove_def kbind_def Let_def split: sum.splits prod.splits)

lemma lib_ok_table:
  "\<lbrakk>lib_ok s; ht_ok h; func h = func (hash_exit s); ht_size h = ht_size (hash_exit s)\<rbrakk> \<Longrightarrow> lib_ok (s\<lparr>hash_exit := h\<rparr>)"
  by (simp add: lib_ok_def)

lemma lib_ok_put: "\<lbrakk>lib_ok s; 0 \<le> t; t < 2 ^ 31\<rbrakk> \<Longrightarrow> lib_ok (s\<lparr>hash_exit := put_ok (word_of_int t) v (hash_exit s)\<rparr>)"
  by (rule lib_ok_table) (simp_all add: ht.put_inv lib_okD(3) tid_in_range)

lemma lib_ok_rem: "\<lbrakk>lib_ok s; 0 \<le> t; t < 2 ^ 31\<rbrakk> \<Longrightarrow> lib_ok (s\<lparr>hash_exit := fst (rem_ok (word_of_int t) (hash_exit s))\<rparr>)"
  by (rule lib_ok_table) (simp_all add: ht.rem_inv lib_okD(3) tid_in_range)

text \<open>A change of the table of threads that takes threads away, or changes one and keeps its id.\<close>

lemma lib_ok_delete:
  assumes ok: "lib_ok s" and "slots_ok (arraytcb s')" "\<not> array_locked (arraytcb s')" "tcbs (arraytcb s') = (tcbs (arraytcb s))(i := None)"
    "hash_exit s' = hash_exit s" "thread_count s' = thread_count s"
  shows "lib_ok s'"
  using assms lib_okD(8,9) [OF ok] unfolding lib_ok_def by (auto simp: ran_def split: if_splits)

lemma lib_ok_update:
  assumes ok: "lib_ok s" and "tcbs (arraytcb s) i = Some b" and "slots_ok (arraytcb s')" "\<not> array_locked (arraytcb s')"
    "tcbs (arraytcb s') = (tcbs (arraytcb s))(i \<mapsto> c)" "tcb_tid c = tcb_tid b" "tcb_ok (thread_count s) c"
    "hash_exit s' = hash_exit s" "thread_count s' = thread_count s"
  shows "lib_ok s'"
proof -
  have old: "\<exists>d'. tcbs (arraytcb s) j = Some d' \<and> tcb_tid d' = tcb_tid d" if "tcbs (arraytcb s') j = Some d" for j d
    using that assms(2,5,6) by (cases "j = i") auto
  have inj: "\<forall>j1 j2 b1 b2. tcbs (arraytcb s') j1 = Some b1 \<longrightarrow> tcbs (arraytcb s') j2 = Some b2 \<longrightarrow> tcb_tid b1 = tcb_tid b2 \<longrightarrow> j1 = j2"
    by (metis old lib_okD(9) [OF ok])
  have "tcb_ok (thread_count s') d" if "tcbs (arraytcb s') j = Some d" for j d
    using that assms(5,7,9) lib_okD(8) [OF ok, of j d] by (cases "j = i") simp_all
  then have "\<forall>b \<in> ran (tcbs (arraytcb s')). tcb_ok (thread_count s') b" by (auto simp: ran_def)
  with inj show ?thesis using lib_okD(3-6) [OF ok] assms(3,4,8,9) unfolding lib_ok_def by simp
qed

text \<open>A thread that runs to the end of \<open>thr_exit\<close>.\<close>

lemma thr_exit_ok:
  assumes ok: "lib_ok s" and i: "get_stack_position_index esp (stack_info s) = i" and b: "tcbs (arraytcb s) i = Some b"
  shows "\<exists>s'. thr_exit k Inr esp v s = Inr s' \<and> lib_ok s' \<and> tcbs (arraytcb s') = (tcbs (arraytcb s))(i := None) \<and>
     signalled s' = signalled s @ joiners b \<and> hash_exit s' = put_ok (word_of_int (tcb_tid b)) v (hash_exit s) \<and> thread_count s' = thread_count s"
proof -
  let ?s = "s\<lparr>hash_exit := put_ok (word_of_int (tcb_tid b)) v (hash_exit s)\<rparr>"
  have t: "0 \<le> tcb_tid b" "tcb_tid b < 2 ^ 31" using tcb_okD [OF lib_okD(8) [OF ok b]] lib_okD(7) [OF ok] by linarith+
  note r = exit_report_ok [OF ok i b] and ok1 = lib_ok_put [OF ok t, of v]
  from exit_leave_ok [OF ok1, of i b "slot (arraytcb s) i" k] b obtain s' where
    s': "thr_exit_leave k i (slot (arraytcb s) i) ?s = Inr s'" "slots_ok (arraytcb s')" "\<not> array_locked (arraytcb s')"
      "tcbs (arraytcb s') = (tcbs (arraytcb s))(i := None)" "signalled s' = signalled s @ joiners b" "hash_exit s' = hash_exit ?s"
      "thread_count s' = thread_count s" by auto
  have "lib_ok s'" by (rule lib_ok_delete [OF ok1, of _ i]) (use s' in simp_all)
  then show ?thesis using r s' by (simp add: thr_exit_def)
qed

text \<open>The beginning of a join, by the three ways it can go.\<close>

lemma join_begin_gone:
  assumes ok: "lib_ok s" and t: "0 \<le> t" "t < uint (thread_count s)" and "\<And>i b. tcbs (arraytcb s) i = Some b \<Longrightarrow> tcb_tid b \<noteq> t"
  shows "\<exists>s'. thr_join_begin esp t s = Inr (s', Join_reaps) \<and> s' = s\<lparr>arraytcb := unlock_array (arraytcb s\<lparr>array_locked := True\<rparr>)\<rparr>"
proof -
  let ?a = "arraytcb s\<lparr>array_locked := True\<rparr>"
  have "slots_ok ?a" using lib_okD(1) [OF ok] by simp
  then have "arraytcb_find_thread t ?a = Inr NULL" by (rule find_threads [of _ t]) (use assms(4) in auto)
  then show ?thesis using joinable [OF ok t(1)] t(2) lib_okD(7) [OF ok] lock_free [OF lib_okD(2) [OF ok]]
    by (simp add: thr_join_begin_def)
qed

lemma find_unique:
  assumes ok: "lib_ok s" and b: "tcbs (arraytcb s) i = Some b"
  shows "arraytcb_find_thread (tcb_tid b) (arraytcb s\<lparr>array_locked := l\<rparr>) = Inr (slot (arraytcb s) i)"
proof -
  have "slots_ok (arraytcb s\<lparr>array_locked := l\<rparr>)" using lib_okD(1) [OF ok] by simp
  then show ?thesis by (rule find_threads [of _ "tcb_tid b"]) (use b lib_okD(9) [OF ok, of _ _ i b] in auto)
qed

lemma join_begin_waits:
  assumes ok: "lib_ok s" and b: "tcbs (arraytcb s) i = Some b" "tcb_state b = RUNNING" and w: "thr_getktid esp s = Inr w"
  shows "\<exists>s'. thr_join_begin esp (tcb_tid b) s = Inr (s', Join_waits w) \<and> lib_ok s' \<and>
     tcbs (arraytcb s') = (tcbs (arraytcb s))(i \<mapsto> b\<lparr>tcb_state := JOINED, joiners := [w]\<rparr>) \<and> slot (arraytcb s') = slot (arraytcb s) \<and>
     hash_exit s' = hash_exit s \<and> thread_count s' = thread_count s \<and> signalled s' = signalled s \<and> stack_info s' = stack_info s"
proof -
  let ?a = "arraytcb s\<lparr>array_locked := True\<rparr>" and ?f = "\<lambda>b. b\<lparr>tcb_state := JOINED, joiners := joiners b @ [w]\<rparr>"
  note tok = lib_okD(8) [OF ok b(1)]
  have "slots_ok ?a" "tcbs ?a i = Some b" using lib_okD(1) [OF ok] b by simp_all
  from mod_block_threads [OF this, of ?f] obtain a' where
    a': "mod_block (slot ?a i) ?f ?a = Inr a'" "slots_ok a'" "slot a' = slot ?a" "tcbs a' = (tcbs ?a)(i \<mapsto> ?f b)" by blast
  have j: "joiners b = []" using tok b(2) by (simp add: tcb_ok_def)
  have "uint (thread_count s) > tcb_tid b" "0 \<le> tcb_tid b" "cond_ok b" using tcb_okD [OF tok] by simp_all
  then have r: "thr_join_begin esp (tcb_tid b) s = Inr (s\<lparr>arraytcb := unlock_array a'\<rparr>, Join_waits w)"
    using joinable [OF ok, of "tcb_tid b"] lib_okD(7) [OF ok] lock_free [OF lib_okD(2) [OF ok]] find_unique [OF ok b(1), of True]
      tcbsD [OF b(1)] a'(1) b(2) w by (simp add: thr_join_begin_def)
  have "tcb_ok (thread_count s) (?f b)" using tok j by (simp add: tcb_ok_def)
  then have "lib_ok (s\<lparr>arraytcb := unlock_array a'\<rparr>)" using a' by (intro lib_ok_update [OF ok b(1), of _ "?f b"]) simp_all
  then show ?thesis using r a' j by simp
qed

text \<open>The mutex taken and released.\<close>

definition relocked :: "'e thrlib \<Rightarrow> 'e thrlib" where
  "relocked s = s\<lparr>arraytcb := unlock_array (arraytcb s\<lparr>array_locked := True\<rparr>)\<rparr>"

lemma relocked_simps [simp]:
  "hash_exit (relocked s) = hash_exit s" "thread_count (relocked s) = thread_count s"
  "tcbs (arraytcb (relocked s)) = tcbs (arraytcb s)" "signalled (relocked s) = signalled s"
  by (auto simp: relocked_def lib_ok_def)

lemma relocked_ok: "lib_ok s \<Longrightarrow> lib_ok (relocked s)"
  by (simp add: relocked_def lib_ok_def)

lemma tid_bounds: "lib_ok s \<Longrightarrow> tcbs (arraytcb s) i = Some b \<Longrightarrow> 0 \<le> tcb_tid b \<and> tcb_tid b < uint (thread_count s) \<and> tcb_tid b < 2 ^ 31"
  using tcb_okD [OF lib_okD(8)] lib_okD(7) by fastforce

lemma reap_value:
  assumes "lib_ok s" and t: "0 \<le> t" "t < 2 ^ 31" and "ht_values (hash_exit s) (word_of_int t) = v # vs"
  shows "\<exists>s'. thr_join_reap t True s = Inr (s', 0, Some v) \<and> lib_ok s' \<and> ht_values (hash_exit s') (word_of_int t) = vs \<and>
     arraytcb s' = arraytcb s \<and> thread_count s' = thread_count s"
  using join_reap_ok [OF assms(1) t, of True] lib_ok_rem [OF assms(1) t] assms(4)
    ht.rem_vals [OF lib_okD(3) [OF assms(1)] tid_in_range [OF assms(1) t] tid_in_range [OF assms(1) t]] by auto

lemma join_gone:
  assumes "lib_ok s" and "0 \<le> t" "t < uint (thread_count s)" and "\<And>i b. tcbs (arraytcb s) i = Some b \<Longrightarrow> tcb_tid b \<noteq> t"
  shows "thr_join asleep Inr esp t statusp s = thr_join_reap t statusp (relocked s)"
  using join_begin_gone [where esp = esp, OF assms] by (auto simp: thr_join_def relocked_def)

lemma exit_then_join:
  assumes "lib_ok s" and "get_stack_position_index esp (stack_info s) = i" and b: "tcbs (arraytcb s) i = Some b"
    and empty: "ht_values (hash_exit s) (word_of_int (tcb_tid b)) = []"
  shows "\<exists>s1 s2 s3. thr_exit k Inr esp v s = Inr s1 \<and> thr_join Inr Inr esp' (tcb_tid b) True s1 = Inr (s2, 0, Some v) \<and>
     thr_join Inr Inr esp' (tcb_tid b) True s2 = Inr (s3, - 1, Some NULL)"
proof -
  let ?t = "tcb_tid b" and ?w = "word_of_int (tcb_tid b) :: u32"
  have t: "0 \<le> ?t" "?t < uint (thread_count s)" "?t < 2 ^ 31" using tid_bounds [OF assms(1) b] by simp_all
  from thr_exit_ok [OF assms(1-3), of k v] obtain s1 where
    s1: "thr_exit k Inr esp v s = Inr s1" "lib_ok s1" "tcbs (arraytcb s1) = (tcbs (arraytcb s))(i := None)"
      "hash_exit s1 = put_ok ?w v (hash_exit s)" "thread_count s1 = thread_count s" by blast
  have gone: "tcb_tid c \<noteq> ?t" if "tcbs (arraytcb s1) j = Some c" for j c
    using that s1(3) lib_okD(9) [OF assms(1) _ b, of j c] by (auto split: if_splits)
  have "ht_values (hash_exit (relocked s1)) ?w = v # []"
    using empty s1(4) ht.put_vals [OF lib_okD(3) [OF assms(1)] tid_in_range [OF assms(1) t(1,3)] tid_in_range [OF assms(1) t(1,3)]] by simp
  from reap_value [OF relocked_ok [OF s1(2)] t(1,3) this] obtain s2 where
    s2: "thr_join_reap ?t True (relocked s1) = Inr (s2, 0, Some v)" "lib_ok s2" "ht_values (hash_exit s2) ?w = []"
      "tcbs (arraytcb s2) = tcbs (arraytcb s1)" "thread_count s2 = thread_count s" using s1(5) by auto
  have "thr_join Inr Inr esp' ?t True s1 = Inr (s2, 0, Some v)"
    using join_gone [where asleep = Inr and esp = esp' and statusp = True, OF s1(2) t(1) _ gone] s1(5) t(2) s2(1) by simp
  moreover have "thr_join Inr Inr esp' ?t True s2 = Inr (relocked s2\<lparr>hash_exit := fst (rem_ok ?w (hash_exit s2))\<rparr>, - 1, Some NULL)"
    using join_gone [where asleep = Inr and esp = esp' and statusp = True, OF s2(2) t(1)] gone s2(3-5) t(2) join_reap_ok [OF relocked_ok [OF s2(2)] t(1,3), of True] by auto
  ultimately show ?thesis using s1(1) by blast
qed

lemma join_then_exit:
  assumes "lib_ok s" and "get_stack_position_index esp (stack_info s) = i" and b: "tcbs (arraytcb s) i = Some b" "tcb_state b = RUNNING"
    and w: "thr_getktid esp' s = Inr w"
  shows "\<exists>s2. thr_join (thr_exit k Inr esp v) Inr esp' (tcb_tid b) True s = Inr (s2, 0, Some v)"
proof -
  let ?t = "tcb_tid b" and ?w = "word_of_int (tcb_tid b) :: u32"
  have t: "0 \<le> ?t" "?t < 2 ^ 31" using tid_bounds [OF assms(1) b(1)] by simp_all
  from join_begin_waits [OF assms(1) b w] obtain s0 where
    s0: "thr_join_begin esp' ?t s = Inr (s0, Join_waits w)" "lib_ok s0" "tcbs (arraytcb s0) i = Some (b\<lparr>tcb_state := JOINED, joiners := [w]\<rparr>)"
      "hash_exit s0 = hash_exit s" "stack_info s0 = stack_info s" by auto
  from thr_exit_ok [OF s0(2) _ s0(3), of esp k v] assms(2) s0(4,5) obtain s1 where
    s1: "thr_exit k Inr esp v s0 = Inr s1" "lib_ok s1" "w \<in> set (signalled s1)" "hash_exit s1 = put_ok ?w v (hash_exit s)" by auto
  let ?s1 = "s1\<lparr>arraytcb := unlock_array (arraytcb s1\<lparr>array_locked := True\<rparr>), signalled := remove1 w (signalled s1)\<rparr>"
  have wake: "thr_join_wake w s1 = Inr ?s1" using s1(3) lock_free [OF lib_okD(2) [OF s1(2)]] by (simp add: thr_join_wake_def)
  have "lib_ok ?s1" using s1(2) by (simp add: lib_ok_def)
  moreover have "ht_values (hash_exit ?s1) ?w = v # ht_values (hash_exit s) ?w"
    using s1(4) ht.put_vals [OF lib_okD(3) [OF assms(1)] tid_in_range [OF assms(1) t] tid_in_range [OF assms(1) t]] by simp
  ultimately obtain s2 where "thr_join_reap ?t True ?s1 = Inr (s2, 0, Some v)" using reap_value [OF _ t] by blast
  then show ?thesis using s0(1) s1(1) wake by (auto simp: thr_join_def)
qed

section \<open>Properties\<close>

text \<open>C26: a status is delivered in either order. When a thread exits with a status and another joins it, after
  (it finds the status in the table) or before (it waits until the exit wakes it), the join returns 0 with
  that status; a second join fails. No call panics or hangs.\<close>

theorem exit_join_roundtrip:
  assumes "lib_ok s" and "get_stack_position_index esp (stack_info s) = i" and "tcbs (arraytcb s) i = Some b" and "tcb_state b = RUNNING"
    and "ht_values (hash_exit s) (word_of_int (tcb_tid b)) = []" and "thr_getktid esp' s = Inr w"
  shows "(\<exists>s1 s2 s3. thr_exit k Inr esp v s = Inr s1 \<and> thr_join Inr Inr esp' (tcb_tid b) True s1 = Inr (s2, 0, Some v) \<and>
             thr_join Inr Inr esp' (tcb_tid b) True s2 = Inr (s3, - 1, Some NULL)) \<and>
         (\<exists>s2. thr_join (thr_exit k Inr esp v) Inr esp' (tcb_tid b) True s = Inr (s2, 0, Some v))"
  using exit_then_join [OF assms(1-3,5), of k v esp'] join_then_exit [OF assms(1-4,6)] by blast

text \<open>Two threads on the stacks of \<open>stacks_example\<close>, the second about to exit; a machine without errors.\<close>

definition no_info :: page_remove_info where
  "no_info = \<lparr>highest_page_base = 0, highest_page_can_remove = 0, middle_pages_base = 0, middle_pages_can_remove = 0,
     lowest_page_base = 0, lowest_page_can_remove = 0\<rparr>"

definition lib_example :: "unit thrlib" where
  "lib_example = \<lparr>arraytcb = slots_example, stack_info = stacks_example, autost = autostack_example, thread_count = 2,
     hash_exit = \<lparr>array = Some (replicate 1021 []), ht_size = 1021, func = thr_exitstatus_hashfunc\<rparr>,
     remove_info = no_info, signalled = [], machine = ()\<rparr>"

definition calls_example :: "unit ucalls" where
  "calls_example = \<lparr>uc_swexn = (\<lambda>_ _ _ e. (e, 0)), uc_free = (\<lambda>_ e. e), uc_new_pages = (\<lambda>_ _ e. (e, - 12)), uc_remove_pages = (\<lambda>_ e. (e, 0)),
     uc_thread_fork = (\<lambda>_ _ e. (e, 9)), uc_yield = (\<lambda>_ e. (e, 0)), uc_load = (\<lambda>_ _. 0), uc_store = (\<lambda>_ _ e. Inr e)\<rparr>"

lemma tcbs_example: "tcbs slots_example = [0 \<mapsto> new_block 7 True 0, 1 \<mapsto> new_block 8 True 1]"
proof -
  have "\<not> (0 \<le> i \<and> i < 2)" if "i \<noteq> 0" "i \<noteq> 1" for i :: int using that by auto
  then show ?thesis by (auto simp: tcbs_def slot_def slots_example_def fun_eq_iff nth_Cons split: nat.splits)
qed

lemma lib_example_ok: "lib_ok lib_example"
  using slots_example_ok
  by (auto simp: lib_ok_def lib_example_def tcbs_example tcb_ok_def new_block_def ran_def ht_ok_def EXIT_HASH_SIZE_def split: if_splits)
    (simp add: slots_example_def)

lemma lib_example_facts:
  "get_stack_position_index 0x7FFFF00 (stack_info lib_example) = 1" "tcbs (arraytcb lib_example) 1 = Some (new_block 8 True 1)"
  "thr_getktid 0x8000010 lib_example = Inr 7" "ht_values (hash_exit lib_example) 1 = []"
proof -
  have i: "get_stack_position_index 0x7FFFF00 stacks_example = 1" "get_stack_position_index 0x8000010 stacks_example = 0"
    by (simp_all add: get_stack_position_index_def stacks_example_def)
  show "get_stack_position_index 0x7FFFF00 (stack_info lib_example) = 1" "tcbs (arraytcb lib_example) 1 = Some (new_block 8 True 1)"
    using i by (simp_all add: lib_example_def tcbs_example)
  have "my_tcb 0x8000010 lib_example = Inr (Some (new_block 7 True 0))"
    using i(2) by (simp add: my_tcb_def lib_example_def slots_example_def arraytcb_get_thread_def get_data_def)
  then show "thr_getktid 0x8000010 lib_example = Inr 7" by (simp add: thr_getktid_def new_block_def)
  show "ht_values (hash_exit lib_example) 1 = []" by (simp add: ht_values_def lib_example_def thr_exitstatus_hashfunc_def EXIT_HASH_SIZE_def)
qed

theorem exit_join_roundtrip_witness:
  "\<exists>s2. thr_join (thr_exit calls_example Inr 0x7FFFF00 42) Inr 0x8000010 1 True lib_example = Inr (s2, 0, Some 42)"
  using exit_join_roundtrip [OF lib_example_ok, of "0x7FFFF00" 1 "new_block 8 True 1" "0x8000010" 7 calls_example 42] lib_example_facts
  by (simp add: new_block_def)

text \<open>C38: a failed allocation becomes a stack. When the kernel has no memory for the first page of the new stack,
  \<open>new_pages\<close> returns -12, which \<open>get_new_stack_top\<close> returns as an address; it is a multiple of 4, so that
  \<open>thr_create\<close> takes it for a stack: it stores the arguments at 0xFFFFFFF0 and below and starts the thread
  there, in the stack of the root thread, whose index it then has.\<close>

theorem thr_create_error_as_stack:
  assumes "0 < index" and "root_low (stack_info s) \<noteq> 0"
    and "uc_new_pages k (thread_stack_high index (stack_info s) AND PAGE_ALIGN_MASK) PG_SIZE (machine s) = (e, ENOMEM)"
    and "root_low (stack_info s) \<le> 0xFFFFFFE8" and "root_high (stack_info s) = 0xFFFFFFFF"
  shows "start_thread k f args index s =
      kbind (uc_store k 0xFFFFFFF0 args e) (\<lambda>e.
      kbind (uc_store k 0xFFFFFFE8 (word_of_int index) e) (\<lambda>e.
      case uc_thread_fork k f 0xFFFFFFE8 e of (e, child_ktid) \<Rightarrow>
      Inr (s\<lparr>machine := e\<rparr>, if child_ktid < 0 then - 1 else child_ktid))) \<and>
     get_stack_position_index 0xFFFFFFE8 (stack_info s) = 0"
proof -
  have "new_stack k index s = (s\<lparr>machine := e\<rparr>, 0xFFFFFFF4)"
    using assms(1-3) by (simp add: new_stack_def get_new_stack_top_def fixate_root_def alloc_stack_def Let_def ENOMEM_def
        ERROR_NEW_PAGES_OVERLAP_EXISTING_REGION_def)
  moreover have "(0xFFFFFFF4 :: u32) mod ALIGNMENT = 0" by (simp add: ALIGNMENT_def)
  ultimately show ?thesis using assms(4,5) by (simp add: start_thread_def get_stack_position_index_def)
qed

theorem thr_create_error_as_stack_witness:
  "start_thread calls_example 0x1000000 5 1 (lib_example\<lparr>stack_info := stacks_example\<lparr>root_low := 0xFFFFF000, root_high := 0xFFFFFFFF\<rparr>\<rparr>) =
     Inr (lib_example\<lparr>stack_info := stacks_example\<lparr>root_low := 0xFFFFF000, root_high := 0xFFFFFFFF\<rparr>\<rparr>, 9)"
  using thr_create_error_as_stack [of 1 "lib_example\<lparr>stack_info := stacks_example\<lparr>root_low := 0xFFFFF000, root_high := 0xFFFFFFFF\<rparr>\<rparr>" calls_example "()" "0x1000000" 5]
  by (simp add: calls_example_def ENOMEM_def)

end
