(* ===== verification/Thread_Runs.thy ===== *)
theory Thread_Runs
  imports Thread_Lib
begin

text \<open>
  The threads of a program using the library, interleaved: a step is one critical section of one thread,
  or what it does between two. The run keeps, beside the state of the library, where each call stands
  (\<open>taken\<close>, \<open>waiting\<close>, \<open>reaping\<close>, \<open>leaving\<close>) and what happened (\<open>exited\<close>, \<open>reaped\<close>).
\<close>

section \<open>Steps\<close>

record 'e trun =
  lib :: "'e thrlib"
  taken :: "int list"               \<comment> \<open>ids of threads that \<open>thr_create\<close> has not yet put into the table\<close>
  waiting :: "(int \<times> int) list"     \<comment> \<open>kernel id of a thread inside \<open>cond_wait\<close>, and the thread it joins\<close>
  reaping :: "int list"             \<comment> \<open>threads whose status is about to be looked up\<close>
  leaving :: "(int \<times> u32) list"     \<comment> \<open>slots of threads that have put their status into the table\<close>
  exited :: "(int \<times> u32) list"
  reaped :: "(int \<times> u32) list"      \<comment> \<open>what joins that returned 0 delivered\<close>

text \<open>There is memory for control blocks, and fewer than $2^{31}$ threads; a thread that waits does not call
  \<open>thr_join\<close>, and one that is in \<open>thr_exit\<close> does not call it again.\<close>

inductive tstep :: "'e ucalls \<Rightarrow> 'e trun \<Rightarrow> 'e trun \<Rightarrow> bool" for k :: "'e ucalls" where
  Take: "\<lbrakk>thread_count (lib r) < 0x7FFFFFFF; take_tid (lib r) = (s, t)\<rbrakk> \<Longrightarrow>
    tstep k r (r\<lparr>lib := s, taken := t # taken r\<rparr>)"
| Insert: "\<lbrakk>t \<in> set (taken r); p \<noteq> NULL; blocks (arraytcb (lib r)) p = None; dat \<noteq> NULL; insert_tid p dat junk True t (lib r) = Inr (s, i)\<rbrakk> \<Longrightarrow>
    tstep k r (r\<lparr>lib := s, taken := removeAll t (taken r)\<rparr>)"
| Start: "start_thread k f args i (lib r) = Inr (s, c) \<Longrightarrow> tstep k r (r\<lparr>lib := s\<rparr>)"
| Note: "0 \<le> i \<Longrightarrow> note_ktid t i c (lib r) = Inr s \<Longrightarrow> tstep k r (r\<lparr>lib := s\<rparr>)"
| Begin: "0 \<le> i \<Longrightarrow> thread_begins i c (lib r) = Inr s \<Longrightarrow> tstep k r (r\<lparr>lib := s\<rparr>)"
| Join_fail: "\<lbrakk>- (2 ^ 31) \<le> t; t < 2 ^ 31; thr_join_begin esp t (lib r) = Inr (s, Join_fails)\<rbrakk> \<Longrightarrow> tstep k r (r\<lparr>lib := s\<rparr>)"
| Join_wait: "\<lbrakk>- (2 ^ 31) \<le> t; t < 2 ^ 31; thr_join_begin esp t (lib r) = Inr (s, Join_waits w); w \<notin> fst ` set (waiting r)\<rbrakk> \<Longrightarrow>
    tstep k r (r\<lparr>lib := s, waiting := (w, t) # waiting r\<rparr>)"
| Join_go: "\<lbrakk>- (2 ^ 31) \<le> t; t < 2 ^ 31; thr_join_begin esp t (lib r) = Inr (s, Join_reaps)\<rbrakk> \<Longrightarrow>
    tstep k r (r\<lparr>lib := s, reaping := t # reaping r\<rparr>)"
| Join_wake: "\<lbrakk>(w, t) \<in> set (waiting r); thr_join_wake w (lib r) = Inr s\<rbrakk> \<Longrightarrow>
    tstep k r (r\<lparr>lib := s, waiting := removeAll (w, t) (waiting r), reaping := t # reaping r\<rparr>)"
| Join_reap: "\<lbrakk>t \<in> set (reaping r); thr_join_reap t True (lib r) = Inr (s, ret, Some v)\<rbrakk> \<Longrightarrow>
    tstep k r (r\<lparr>lib := s, reaping := remove1 t (reaping r), reaped := (if ret = 0 then (t, v) # reaped r else reaped r)\<rparr>)"
| Exit_report: "\<lbrakk>thr_exit_report esp v (lib r) = Inr (s, i, p); i \<notin> fst ` set (leaving r); blocks (arraytcb (lib r)) p = Some b\<rbrakk> \<Longrightarrow>
    tstep k r (r\<lparr>lib := s, leaving := (i, p) # leaving r, exited := (tcb_tid b, v) # exited r\<rparr>)"
| Exit_leave: "\<lbrakk>(i, p) \<in> set (leaving r); thr_exit_leave k i p (lib r) = Inr s\<rbrakk> \<Longrightarrow>
    tstep k r (r\<lparr>lib := s, leaving := removeAll (i, p) (leaving r)\<rparr>)"

section \<open>The invariant\<close>

definition tid_at :: "'e trun \<Rightarrow> int \<rightharpoonup> int" where
  "tid_at r i = map_option tcb_tid (tcbs (arraytcb (lib r)) i)"

definition given :: "'e trun \<Rightarrow> int set" where
  "given r = {t. 0 \<le> t \<and> t < uint (thread_count (lib r))}"

definition ids_ok :: "'e trun \<Rightarrow> bool" where
  "ids_ok r \<longleftrightarrow> distinct (taken r) \<and> set (taken r) \<subseteq> given r - ran (tid_at r) - fst ` set (exited r) \<and>
     distinct (map fst (exited r)) \<and> fst ` set (exited r) \<subseteq> given r \<and> set (reaping r) \<subseteq> given r \<and> snd ` set (waiting r) \<subseteq> given r"

definition leave_ok :: "'e trun \<Rightarrow> bool" where
  "leave_ok r \<longleftrightarrow> distinct (map fst (leaving r)) \<and>
     (\<forall>(i, p) \<in> set (leaving r). p = slot (arraytcb (lib r)) i \<and> (\<exists>t \<in> fst ` set (exited r). tid_at r i = Some t)) \<and>
     (\<forall>i. \<forall>t \<in> fst ` set (exited r). tid_at r i = Some t \<longrightarrow> i \<in> fst ` set (leaving r))"

definition pending :: "'e trun \<Rightarrow> int \<Rightarrow> u32 list" where
  "pending r t = (if t \<in> fst ` set (reaped r) then [] else case map_of (exited r) t of None \<Rightarrow> [] | Some v \<Rightarrow> [v])"

definition table_ok :: "'e trun \<Rightarrow> bool" where
  "table_ok r \<longleftrightarrow> (\<forall>t. 0 \<le> t \<longrightarrow> t < 2 ^ 31 \<longrightarrow> ht_values (hash_exit (lib r)) (word_of_int t) = pending r t) \<and>
     distinct (map fst (reaped r)) \<and> set (reaped r) \<subseteq> set (exited r)"

definition run_ok :: "'e trun \<Rightarrow> bool" where
  "run_ok r \<longleftrightarrow> lib_ok (lib r) \<and> ids_ok r \<and> leave_ok r \<and> table_ok r"

lemma run_okD: "run_ok r \<Longrightarrow> lib_ok (lib r)" "run_ok r \<Longrightarrow> ids_ok r" "run_ok r \<Longrightarrow> leave_ok r" "run_ok r \<Longrightarrow> table_ok r"
  by (simp_all add: run_ok_def)

lemma given_bound: "lib_ok (lib r) \<Longrightarrow> t \<in> given r \<Longrightarrow> 0 \<le> t \<and> t < 2 ^ 31"
  using lib_okD(7) [of "lib r"] by (auto simp: given_def)

lemma leave_okI:
  assumes "distinct (map fst (leaving r))"
    and "\<And>i p. (i, p) \<in> set (leaving r) \<Longrightarrow> p = slot (arraytcb (lib r)) i \<and> (\<exists>t \<in> fst ` set (exited r). tid_at r i = Some t)"
    and "\<And>i t. t \<in> fst ` set (exited r) \<Longrightarrow> tid_at r i = Some t \<Longrightarrow> i \<in> fst ` set (leaving r)"
  shows "leave_ok r"
  using assms unfolding leave_ok_def by blast

lemma leave_okD:
  assumes "leave_ok r"
  shows "distinct (map fst (leaving r))"
    and "(i, p) \<in> set (leaving r) \<Longrightarrow> p = slot (arraytcb (lib r)) i \<and> (\<exists>t \<in> fst ` set (exited r). tid_at r i = Some t)"
    and "t \<in> fst ` set (exited r) \<Longrightarrow> tid_at r i = Some t \<Longrightarrow> i \<in> fst ` set (leaving r)"
  using assms unfolding leave_ok_def by blast+

text \<open>A step that changes neither ids nor slots nor the table of statuses.\<close>

lemma run_ok_same:
  assumes "run_ok r" and "lib_ok s" and "\<And>i. map_option tcb_tid (tcbs (arraytcb s) i) = tid_at r i"
    and "slot (arraytcb s) = slot (arraytcb (lib r))" and "hash_exit s = hash_exit (lib r)" and "thread_count s = thread_count (lib r)"
    and "snd ` set ws \<subseteq> given r" and "set rs \<subseteq> given r"
  shows "run_ok (r\<lparr>lib := s, waiting := ws, reaping := rs\<rparr>)"
proof -
  let ?r = "r\<lparr>lib := s, waiting := ws, reaping := rs\<rparr>"
  have t: "tid_at ?r = tid_at r" using assms(3) by (simp add: tid_at_def fun_eq_iff)
  have g: "given ?r = given r" using assms(6) by (simp add: given_def)
  have "ids_ok ?r" using run_okD(2) [OF assms(1)] assms(7,8) unfolding ids_ok_def t g by auto
  moreover have "leave_ok ?r" using run_okD(3) [OF assms(1)] assms(4) unfolding leave_ok_def t by simp
  moreover have "pending ?r = pending r" by (simp add: pending_def fun_eq_iff)
  then have "table_ok ?r" using run_okD(4) [OF assms(1)] assms(5) by (simp add: table_ok_def)
  ultimately show ?thesis using assms(2) by (simp add: run_ok_def)
qed

lemma run_ok_lib:
  assumes "run_ok r" and "lib_ok s" and "\<And>i. map_option tcb_tid (tcbs (arraytcb s) i) = tid_at r i"
    and "slot (arraytcb s) = slot (arraytcb (lib r))" and "hash_exit s = hash_exit (lib r)" and "thread_count s = thread_count (lib r)"
  shows "run_ok (r\<lparr>lib := s\<rparr>)"
  using run_ok_same [OF assms, of "waiting r" "reaping r"] run_okD(2) [OF assms(1)] by (simp add: ids_ok_def)

text \<open>What joins look at of a thread.\<close>

definition join_view :: "'e thrlib \<Rightarrow> int \<rightharpoonup> int \<times> thr_state_t \<times> int list" where
  "join_view s i = map_option (\<lambda>b. (tcb_tid b, tcb_state b, joiners b)) (tcbs (arraytcb s) i)"

definition same_threads :: "'e thrlib \<Rightarrow> 'e thrlib \<Rightarrow> bool" where
  "same_threads s s' \<longleftrightarrow> lib_ok s' \<and> join_view s' = join_view s \<and> slot (arraytcb s') = slot (arraytcb s) \<and> hash_exit s' = hash_exit s \<and>
     thread_count s' = thread_count s \<and> signalled s' = signalled s"

lemma same_run: "run_ok r \<Longrightarrow> same_threads (lib r) s \<Longrightarrow> run_ok (r\<lparr>lib := s\<rparr>)"
proof (rule run_ok_lib)
  assume "same_threads (lib r) s"
  then have "map_option fst (join_view s i) = map_option fst (join_view (lib r) i)" for i by (simp add: same_threads_def)
  then show "map_option tcb_tid (tcbs (arraytcb s) i) = tid_at r i" for i by (simp add: join_view_def tid_at_def option.map_comp comp_def)
qed (simp_all add: same_threads_def)

lemma same_relocked: "lib_ok s \<Longrightarrow> same_threads s (relocked s)"
  by (simp add: same_threads_def relocked_ok join_view_def fun_eq_iff) (simp add: relocked_def)

section \<open>Every step keeps the invariant\<close>

lemma take_ok:
  assumes ok: "run_ok r" and lim: "thread_count (lib r) < 0x7FFFFFFF" and st: "take_tid (lib r) = (s, t)"
  shows "run_ok (r\<lparr>lib := s, taken := t # taken r\<rparr>)"
proof -
  let ?r = "r\<lparr>lib := s, taken := t # taken r\<rparr>" and ?n = "thread_count (lib r)"
  note l = run_okD(1) [OF ok]
  have u: "uint (?n + 1) = uint ?n + 1" using lim by (simp add: uint_word_ariths word_less_def)
  have s: "s = lib r\<lparr>thread_count := ?n + 1\<rparr>" "t = uint ?n" using st sint_tid [of "uint ?n"] lib_okD(7) [OF l]
    by (auto simp: take_tid_def)
  have "lib_ok s" using l lim u tcb_ok_mono unfolding s(1) lib_ok_def by (auto simp: word_less_def)
  moreover have "t \<notin> given r" "given ?r = insert t (given r)" using u by (auto simp: given_def s)
  moreover have "ran (tid_at r) \<subseteq> given r" using tcb_okD [OF lib_okD(8) [OF l]] by (fastforce simp: ran_def tid_at_def given_def)
  moreover have "tid_at ?r = tid_at r" by (simp add: tid_at_def s fun_eq_iff)
  ultimately have "lib_ok s" "ids_ok ?r" using run_okD(2) [OF ok] by (auto simp: ids_ok_def)
  moreover have "leave_ok ?r" using run_okD(3) [OF ok] by (simp add: leave_ok_def tid_at_def s)
  moreover have "table_ok ?r" using run_okD(4) [OF ok] by (simp add: table_ok_def pending_def s)
  ultimately show ?thesis by (simp add: run_ok_def)
qed

lemma insert_ok:
  assumes ok: "run_ok r" and t: "t \<in> set (taken r)" and p: "p \<noteq> NULL" "blocks (arraytcb (lib r)) p = None" "dat \<noteq> NULL"
    and st: "insert_tid p dat junk True t (lib r) = Inr (s, i)"
  shows "run_ok (r\<lparr>lib := s, taken := removeAll t (taken r)\<rparr>)"
proof -
  let ?r = "r\<lparr>lib := s, taken := removeAll t (taken r)\<rparr>"
  note l = run_okD(1) [OF ok]
  from insert_threads [OF lib_okD(1,2) [OF l] p, of junk True t] st obtain a' where
    a': "s = lib r\<lparr>arraytcb := a'\<rparr>" "slots_ok a'" "\<not> array_locked a'" "tcbs (arraytcb (lib r)) i = None"
      "tcbs a' = (tcbs (arraytcb (lib r)))(i \<mapsto> new_block junk True t)" "\<forall>j. j \<noteq> i \<longrightarrow> slot a' j = slot (arraytcb (lib r)) j"
    by (auto simp: insert_tid_def)
  have sl: "\<forall>j. j \<noteq> i \<longrightarrow> slot (arraytcb s) j = slot (arraytcb (lib r)) j" using a'(1,6) by simp
  have tg: "t \<in> given r" "t \<notin> ran (tid_at r)" "t \<notin> fst ` set (exited r)" using run_okD(2) [OF ok] t by (auto simp: ids_ok_def)
  have ta: "tid_at ?r = (tid_at r)(i \<mapsto> t)" "tid_at r i = None" using a' by (auto simp: tid_at_def new_block_def fun_eq_iff)
  have "tcb_ok (thread_count (lib r)) (new_block junk True t)" using tg(1) by (simp add: tcb_ok_def new_block_def given_def)
  moreover have "tcb_tid b \<noteq> t" if "tcbs (arraytcb (lib r)) j = Some b" for j b using tg(2) that by (auto simp: ran_def tid_at_def)
  ultimately have "lib_ok s" using l a' unfolding lib_ok_def by (auto simp: ran_def new_block_def split: if_splits)
  moreover have g: "given ?r = given r" by (simp add: given_def a'(1))
  have "ids_ok ?r" using run_okD(2) [OF ok] ta(2) unfolding ids_ok_def g ta(1) by (auto simp: distinct_removeAll ran_def split: if_splits)
  moreover have "leave_ok ?r"
  proof (rule leave_okI)
    note lv = leave_okD [OF run_okD(3) [OF ok]]
    show "distinct (map fst (leaving ?r))" using lv(1) by simp
    fix j q assume j: "(j, q) \<in> set (leaving ?r)"
    then have "j \<noteq> i" using lv(2) [of j q] ta(2) by auto
    then show "q = slot (arraytcb (lib ?r)) j \<and> (\<exists>t \<in> fst ` set (exited ?r). tid_at ?r j = Some t)"
      using j lv(2) [of j q] sl by (simp add: ta(1))
  next
    fix j u assume "u \<in> fst ` set (exited ?r)" "tid_at ?r j = Some u"
    then show "j \<in> fst ` set (leaving ?r)"
      using leave_okD(3) [OF run_okD(3) [OF ok], of u j] tg(3) by (cases "j = i") (simp_all add: ta(1))
  qed
  moreover have "table_ok ?r" using run_okD(4) [OF ok] by (simp add: table_ok_def pending_def a'(1))
  ultimately show ?thesis by (simp add: run_ok_def)
qed

lemma start_same:
  assumes ok: "lib_ok s" and st: "start_thread k f args i s = Inr (s', c)"
  shows "same_threads s s'"
proof -
  have "\<exists>x y z. s' = s\<lparr>stack_info := x, autost := y, machine := z\<rparr>"
    using st by (auto simp: start_thread_def new_stack_def kbind_def split: prod.splits if_splits sum.splits) (metis thrlib.surjective thrlib.update_convs)+
  then obtain x y z where s: "s' = s\<lparr>stack_info := x, autost := y, machine := z\<rparr>" by blast
  show ?thesis using ok by (simp add: same_threads_def join_view_def lib_ok_def s fun_eq_iff)
qed

text \<open>The kernel id of a thread is not part of the invariant.\<close>

lemma tcb_ok_ktid: "tcb_ok n (b\<lparr>tcb_ktid := c\<rparr>) = tcb_ok n b"
  by (cases "tcb_state b") (simp_all add: tcb_ok_def)

lemma ktid_same:
  assumes ok: "lib_ok s" and i: "0 \<le> i" and st: "arraytcb_set_ktid i c (arraytcb s\<lparr>array_locked := l\<rparr>) = Inr (a, x)"
    and a': "a' = unlock_array a \<or> a' = a \<and> \<not> l"
  shows "same_threads s (s\<lparr>arraytcb := a'\<rparr>)"
proof -
  have "slots_ok (arraytcb s\<lparr>array_locked := l\<rparr>)" using lib_okD(1) [OF ok] by simp
  note t = set_ktid_threads [OF this i st]
  have a: "slots_ok a'" "\<not> array_locked a'" "slot a' = slot (arraytcb s)" "tcbs a' = tcbs a" using t a' by auto
  show ?thesis
  proof (cases "tcbs (arraytcb s) i")
    case None
    then have u: "tcbs a' = tcbs (arraytcb s)" using t a(4) by simp
    show ?thesis using ok a(1-3) unfolding same_threads_def lib_ok_def by (simp add: u join_view_def fun_eq_iff)
  next
    case (Some b)
    have u: "tcbs a' = (tcbs (arraytcb s))(i \<mapsto> b\<lparr>tcb_ktid := c\<rparr>)" using t a(4) Some by simp
    have "lib_ok (s\<lparr>arraytcb := a'\<rparr>)"
      by (rule lib_ok_update [OF ok Some, of _ "b\<lparr>tcb_ktid := c\<rparr>"]) (use a u lib_okD(8) [OF ok Some] in \<open>simp_all add: tcb_ok_ktid\<close>)
    then show ?thesis using a(3) u Some by (simp add: same_threads_def join_view_def fun_eq_iff)
  qed
qed

lemma begin_same:
  assumes ok: "lib_ok s" and i: "0 \<le> i" and st: "thread_begins i c s = Inr s'"
  shows "same_threads s s'"
proof -
  from st obtain a x where a: "arraytcb_set_ktid i c (arraytcb s) = Inr (a, x)" "s' = s\<lparr>arraytcb := a\<rparr>"
    by (auto simp: thread_begins_def kbind_def split: sum.splits)
  have "arraytcb s\<lparr>array_locked := False\<rparr> = arraytcb s" using lib_okD(2) [OF ok] by simp
  then show ?thesis using ktid_same [OF ok i, of c False a x a] a by simp
qed

lemma note_same:
  assumes ok: "lib_ok s" and i: "0 \<le> i" and st: "note_ktid t i c s = Inr s'"
  shows "same_threads s s'"
proof -
  let ?a = "arraytcb s\<lparr>array_locked := True\<rparr>"
  have "s' = relocked s \<or> (\<exists>a x. s' = s\<lparr>arraytcb := unlock_array a\<rparr> \<and> arraytcb_set_ktid i c ?a = Inr (a, x))"
    using st lock_free [OF lib_okD(2) [OF ok]] by (auto simp: note_ktid_def kbind_def relocked_def split: sum.splits if_splits)
  then show ?thesis using same_relocked [OF ok] ktid_same [OF ok i] by blast
qed

text \<open>How a join begins; a negative id is a large unsigned number.\<close>

lemma joinable_tid:
  assumes "lib_ok s" and "- (2 ^ 31) \<le> t" "t < 2 ^ 31" and "\<not> thread_count s \<le> word_of_int t"
  shows "0 \<le> t \<and> t < uint (thread_count s)"
proof (cases "0 \<le> t")
  case True
  then show ?thesis using joinable [OF assms(1) True assms(3)] assms(4) by simp
next
  case False
  then have "t mod 2 ^ 32 = t + 2 ^ 32" using assms(2) by (intro int_mod_pos_eq [where q = "- 1"]) simp_all
  then have "uint (word_of_int t :: u32) = t + 2 ^ 32" by (simp add: unsigned_of_int take_bit_eq_mod)
  then show ?thesis using assms(2,4) lib_okD(7) [OF assms(1)] by (simp add: word_le_def)
qed

lemma join_begin_cases:
  assumes ok: "lib_ok s" and t: "- (2 ^ 31) \<le> t" "t < 2 ^ 31" and st: "thr_join_begin esp t s = Inr (s', x)"
  obtains "x = Join_fails" and "s' = s \<or> s' = relocked s"
  | "x = Join_reaps" and "s' = relocked s" and "0 \<le> t" and "t < uint (thread_count s)"
  | w i b where "x = Join_waits w" and "tcbs (arraytcb s) i = Some b" and "tcb_tid b = t" and "tcb_state b = RUNNING"
      and "thr_getktid esp s = Inr w" and "0 \<le> t" and "t < uint (thread_count s)"
proof (cases "thread_count s \<le> word_of_int t")
  case True
  then show ?thesis using st that(1) by (simp add: thr_join_begin_def)
next
  case False
  note tr = joinable_tid [OF ok t False] and lk = lock_free [OF lib_okD(2) [OF ok]]
  have "slots_ok (arraytcb s\<lparr>array_locked := True\<rparr>)" using lib_okD(1) [OF ok] by simp
  then show ?thesis
  proof (rule find_threads [of _ t])
    assume f: "arraytcb_find_thread t (arraytcb s\<lparr>array_locked := True\<rparr>) = Inr NULL"
    show ?thesis using st False lk f that(2) tr by (simp add: thr_join_begin_def relocked_def)
  next
    fix i b assume f: "arraytcb_find_thread t (arraytcb s\<lparr>array_locked := True\<rparr>) = Inr (slot (arraytcb s\<lparr>array_locked := True\<rparr>) i)"
      and b: "tcbs (arraytcb s\<lparr>array_locked := True\<rparr>) i = Some b" "tcb_tid b = t"
    have b': "tcbs (arraytcb s) i = Some b" using b by simp
    show ?thesis
    proof (cases "tcb_state b")
      case JOINED
      then show ?thesis using st False lk f tcbsD [OF b'] that(1) by (simp add: thr_join_begin_def relocked_def)
    next
      case RUNNING
      then obtain w where "thr_getktid esp s = Inr w" "x = Join_waits w"
        using st False lk f tcbsD [OF b'] by (auto simp: thr_join_begin_def kbind_def split: sum.splits if_splits)
      then show ?thesis using that(3) b' b(2) RUNNING tr by blast
    qed
  qed
qed

lemma join_fail_same:
  assumes ok: "lib_ok s" and "- (2 ^ 31) \<le> t" "t < 2 ^ 31" "thr_join_begin esp t s = Inr (s', Join_fails)"
  shows "same_threads s s'"
  using assms by (rule join_begin_cases) (use ok same_relocked [OF ok] in \<open>auto simp: same_threads_def\<close>)

lemmas same_steps = start_same note_same begin_same join_fail_same

lemma join_go_same:
  assumes ok: "lib_ok s" and "- (2 ^ 31) \<le> t" "t < 2 ^ 31" "thr_join_begin esp t s = Inr (s', Join_reaps)"
  shows "same_threads s s'"
  using assms by (rule join_begin_cases) (use same_relocked [OF ok] in simp_all)

lemma join_go_ok:
  assumes ok: "run_ok r" and "- (2 ^ 31) \<le> t" "t < 2 ^ 31" "thr_join_begin esp t (lib r) = Inr (s, Join_reaps)"
  shows "run_ok (r\<lparr>lib := s, reaping := t # reaping r\<rparr>)"
  using run_okD(1) [OF ok] assms(2-4)
proof (rule join_begin_cases)
  assume s: "s = relocked (lib r)" and t: "0 \<le> t" "t < uint (thread_count (lib r))"
  have "run_ok (r\<lparr>lib := s, waiting := waiting r, reaping := t # reaping r\<rparr>)"
    by (rule run_ok_same [OF ok]) (use s t ok relocked_ok [OF run_okD(1) [OF ok]] run_okD(2) [OF ok] in
        \<open>simp_all add: tid_at_def relocked_def ids_ok_def given_def\<close>)
  then show ?thesis by simp
qed simp_all

lemma join_wait_ok:
  assumes ok: "run_ok r" and "- (2 ^ 31) \<le> t" "t < 2 ^ 31" "thr_join_begin esp t (lib r) = Inr (s, Join_waits w)"
  shows "run_ok (r\<lparr>lib := s, waiting := (w, t) # waiting r\<rparr>)"
  using run_okD(1) [OF ok] assms(2-4)
proof (rule join_begin_cases)
  fix w' i b assume b: "tcbs (arraytcb (lib r)) i = Some b" "tcb_tid b = t" "tcb_state b = RUNNING"
    and "thr_getktid esp (lib r) = Inr w'" and t: "0 \<le> t" "t < uint (thread_count (lib r))"
  from join_begin_waits [OF run_okD(1) [OF ok] b(1,3) this(4)] assms(4) b(2) have
    s: "lib_ok s" "tcbs (arraytcb s) = (tcbs (arraytcb (lib r)))(i \<mapsto> b\<lparr>tcb_state := JOINED, joiners := [w]\<rparr>)"
      "slot (arraytcb s) = slot (arraytcb (lib r))" "hash_exit s = hash_exit (lib r)" "thread_count s = thread_count (lib r)" by auto
  have "run_ok (r\<lparr>lib := s, waiting := (w, t) # waiting r, reaping := reaping r\<rparr>)"
    by (rule run_ok_same [OF ok s(1)]) (use s b(1) t run_okD(2) [OF ok] in \<open>auto simp: tid_at_def ids_ok_def given_def\<close>)
  then show ?thesis by simp
qed simp_all

lemma join_wake_ok:
  assumes ok: "run_ok r" and w: "(w, t) \<in> set (waiting r)" "thr_join_wake w (lib r) = Inr s"
  shows "run_ok (r\<lparr>lib := s, waiting := removeAll (w, t) (waiting r), reaping := t # reaping r\<rparr>)"
proof -
  have s: "s = (relocked (lib r))\<lparr>signalled := remove1 w (signalled (lib r))\<rparr>"
    using w(2) lock_free [OF lib_okD(2) [OF run_okD(1) [OF ok]]] by (simp add: thr_join_wake_def relocked_def split: if_splits)
  have "lib_ok s" using run_okD(1) [OF ok] by (simp add: s lib_ok_def relocked_def)
  then show ?thesis
    by (rule run_ok_same [OF ok]) (use w(1) run_okD(2) [OF ok] in \<open>auto simp: s tid_at_def ids_ok_def relocked_def\<close>)
qed

text \<open>A status taken from the table is gone.\<close>

lemma join_reap_run:
  assumes ok: "run_ok r" and t: "t \<in> set (reaping r)" and st: "thr_join_reap t True (lib r) = Inr (s, ret, Some v)"
  shows "run_ok (r\<lparr>lib := s, reaping := remove1 t (reaping r), reaped := (if ret = 0 then (t, v) # reaped r else reaped r)\<rparr>)"
proof -
  let ?r = "r\<lparr>lib := s, reaping := remove1 t (reaping r), reaped := (if ret = 0 then (t, v) # reaped r else reaped r)\<rparr>"
  note l = run_okD(1) [OF ok] and tb = run_okD(4) [OF ok]
  have tr: "0 \<le> t" "t < 2 ^ 31" using given_bound [OF l, of t] run_okD(2) [OF ok] t by (auto simp: ids_ok_def)
  have vals: "ht_values (hash_exit (lib r)) (word_of_int t) = pending r t" using tb tr by (simp add: table_ok_def)
  have s: "s = lib r\<lparr>hash_exit := fst (rem_ok (word_of_int t) (hash_exit (lib r)))\<rparr>" "(ret, Some v) = (case pending r t of [] \<Rightarrow> (- 1, Some NULL) | v # _ \<Rightarrow> (0, Some v))"
    using st join_reap_ok [OF l tr, of True] vals by (auto split: list.splits)
  have new: "ret = 0 \<longleftrightarrow> t \<notin> fst ` set (reaped r) \<and> map_of (exited r) t = Some v" "ret \<noteq> 0 \<Longrightarrow> pending r t = []" "ret = 0 \<Longrightarrow> pending r t = [v]"
    using s(2) by (auto simp: pending_def split: list.splits option.splits if_splits)
  have "ht_values (hash_exit s) (word_of_int u) = pending ?r u" if u: "0 \<le> u" "u < 2 ^ 31" for u
  proof -
    have "ht_values (hash_exit s) (word_of_int u) = (if u = t then tl (pending r t) else pending r u)"
      using ht.rem_vals [OF lib_okD(3) [OF l] tid_in_range [OF l tr] tid_in_range [OF l u]] tid_inj [OF u tr] tb u vals by (auto simp: s(1) table_ok_def)
    then show ?thesis using new by (cases "ret = 0") (auto simp: pending_def)
  qed
  then have "table_ok ?r" using tb new(1) by (auto simp: table_ok_def dest: map_of_SomeD)
  moreover have "lib_ok s" unfolding s(1) by (rule lib_ok_rem [OF l tr])
  moreover have ti: "tid_at ?r = tid_at r" "given ?r = given r" by (simp_all add: tid_at_def given_def s(1) fun_eq_iff)
  have "ids_ok ?r" using run_okD(2) [OF ok] set_remove1_subset [of t "reaping r"] unfolding ids_ok_def ti by auto
  moreover have "leave_ok ?r" using run_okD(3) [OF ok] by (simp add: leave_ok_def tid_at_def s(1))
  ultimately show ?thesis by (simp add: run_ok_def)
qed

lemma exit_report_run:
  assumes ok: "run_ok r" and st: "thr_exit_report esp v (lib r) = Inr (s, i, p)" and i: "i \<notin> fst ` set (leaving r)"
    and b: "blocks (arraytcb (lib r)) p = Some b"
  shows "run_ok (r\<lparr>lib := s, leaving := (i, p) # leaving r, exited := (tcb_tid b, v) # exited r\<rparr>)"
proof -
  let ?r = "r\<lparr>lib := s, leaving := (i, p) # leaving r, exited := (tcb_tid b, v) # exited r\<rparr>" and ?a = "arraytcb (lib r)" and ?t = "tcb_tid b"
  note l = run_okD(1) [OF ok] and tb = run_okD(4) [OF ok] and lv = leave_okD [OF run_okD(3) [OF ok]]
  have ix: "i = get_stack_position_index esp (stack_info (lib r))" "arraytcb_get_thread i ?a = Inr p" "p \<noteq> NULL"
    using st by (auto simp: thr_exit_report_def kbind_def Let_def split: sum.splits if_splits)
  have bi: "tcbs ?a i = Some b" "p = slot ?a i"
    by (rule get_thread_cases [OF lib_okD(1) [OF l], of i]; use ix(2,3) b in \<open>simp add: tcbs_def\<close>)+
  have s: "s = lib r\<lparr>hash_exit := put_ok (word_of_int ?t) v (hash_exit (lib r))\<rparr>" using st exit_report_ok [OF l ix(1) [symmetric] bi(1), of v] by simp
  have tr: "0 \<le> ?t" "?t < 2 ^ 31" "?t \<in> given r" using tid_bounds [OF l bi(1)] by (simp_all add: given_def)
  have ti: "tid_at r i = Some ?t" "tid_at ?r = tid_at r" "given ?r = given r" using bi by (simp_all add: tid_at_def given_def s fun_eq_iff)
  have new: "?t \<notin> fst ` set (exited r)" using lv(3) [of ?t i] ti(1) i by blast
  then have nr: "?t \<notin> fst ` set (reaped r)" using tb by (auto simp: table_ok_def)
  have "ht_values (hash_exit s) (word_of_int u) = pending ?r u" if u: "0 \<le> u" "u < 2 ^ 31" for u
    using ht.put_vals [OF lib_okD(3) [OF l] tid_in_range [OF l tr(1,2)] tid_in_range [OF l u], of v] tid_inj [OF u tr(1,2)] tb u new nr tr
    by (auto simp: s table_ok_def pending_def map_of_eq_None_iff split: option.splits)
  then have "table_ok ?r" using tb by (auto simp: table_ok_def)
  moreover have "lib_ok s" unfolding s by (rule lib_ok_put [OF l tr(1,2)])
  moreover have "ids_ok ?r" using run_okD(2) [OF ok] new tr(3) ti by (auto simp: ids_ok_def ran_def)
  moreover have "leave_ok ?r"
  proof (rule leave_okI)
    show "distinct (map fst (leaving ?r))" using lv(1) i by simp
    fix j q assume "(j, q) \<in> set (leaving ?r)"
    then show "q = slot (arraytcb (lib ?r)) j \<and> (\<exists>t \<in> fst ` set (exited ?r). tid_at ?r j = Some t)"
      using lv(2) [of j q] ti bi(2) unfolding ti(2) by (auto simp: s)
  next
    fix j u assume u: "u \<in> fst ` set (exited ?r)" "tid_at ?r j = Some u"
    then show "j \<in> fst ` set (leaving ?r)"
      using lv(3) [of u j] lib_okD(9) [OF l _ bi(1), of j] unfolding ti(2) by (auto simp: tid_at_def)
  qed
  ultimately show ?thesis by (simp add: run_ok_def)
qed

lemma exit_leave_run:
  assumes ok: "run_ok r" and i: "(i, p) \<in> set (leaving r)" and st: "thr_exit_leave k i p (lib r) = Inr s"
  shows "run_ok (r\<lparr>lib := s, leaving := removeAll (i, p) (leaving r)\<rparr>)"
proof -
  let ?r = "r\<lparr>lib := s, leaving := removeAll (i, p) (leaving r)\<rparr>"
  note l = run_okD(1) [OF ok] and lv = leave_okD [OF run_okD(3) [OF ok]]
  from lv(2) [OF i] obtain b where b: "p = slot (arraytcb (lib r)) i" "tcbs (arraytcb (lib r)) i = Some b" by (auto simp: tid_at_def)
  from exit_leave_ok [OF l b(2,1), of k] st have
    s: "slots_ok (arraytcb s)" "\<not> array_locked (arraytcb s)" "tcbs (arraytcb s) = (tcbs (arraytcb (lib r)))(i := None)"
      "\<forall>j. j \<noteq> i \<longrightarrow> slot (arraytcb s) j = slot (arraytcb (lib r)) j" "hash_exit s = hash_exit (lib r)" "thread_count s = thread_count (lib r)" by auto
  have only: "x = (i, p)" if "x \<in> set (leaving r)" "fst x = i" for x using that i lv(1) by (auto simp: distinct_map inj_on_def)
  have ti: "tid_at ?r = (tid_at r)(i := None)" "given ?r = given r" using s(3,6) by (auto simp: tid_at_def given_def fun_eq_iff)
  have "lib_ok s" by (rule lib_ok_delete [OF l s(1-3,5,6)])
  moreover have "ids_ok ?r" using run_okD(2) [OF ok] unfolding ids_ok_def ti by (auto simp: ran_def split: if_splits)
  moreover have "table_ok ?r" using run_okD(4) [OF ok] by (simp add: table_ok_def pending_def s(5))
  moreover have "leave_ok ?r"
  proof (rule leave_okI)
    show "distinct (map fst (leaving ?r))" using lv(1) by (simp add: distinct_map_filter removeAll_filter_not_eq)
    fix j q assume "(j, q) \<in> set (leaving ?r)"
    then have "(j, q) \<in> set (leaving r)" "j \<noteq> i" using only [of "(j, q)"] by auto
    then show "q = slot (arraytcb (lib ?r)) j \<and> (\<exists>t \<in> fst ` set (exited ?r). tid_at ?r j = Some t)"
      using lv(2) [of j q] s(4) unfolding ti(1) by simp
  next
    fix j u assume u: "u \<in> fst ` set (exited ?r)" "tid_at ?r j = Some u"
    then have "j \<noteq> i" "j \<in> fst ` set (leaving r)" using lv(3) [of u j] unfolding ti(1) by (auto split: if_splits)
    then show "j \<in> fst ` set (leaving ?r)" by force
  qed
  ultimately show ?thesis by (simp add: run_ok_def)
qed

lemma tstep_ok: "tstep k r r' \<Longrightarrow> run_ok r \<Longrightarrow> run_ok r'"
  by (induction rule: tstep.induct)
    (blast intro: take_ok insert_ok same_run same_steps run_okD(1) join_wait_ok join_go_ok join_wake_ok join_reap_run exit_report_run exit_leave_run)+

section \<open>Nobody waits in vain\<close>

text \<open>A thread inside \<open>cond_wait\<close> is the joiner of a thread that is still there, or was woken by one that exited.\<close>

definition served :: "'e trun \<Rightarrow> int \<Rightarrow> int \<Rightarrow> bool" where
  "served r w t \<longleftrightarrow> (\<exists>i. join_view (lib r) i = Some (t, JOINED, [w])) \<or> w \<in> set (signalled (lib r)) \<and> t \<in> fst ` set (exited r)"

definition waits_ok :: "'e trun \<Rightarrow> bool" where
  "waits_ok r \<longleftrightarrow> distinct (map fst (waiting r)) \<and> (\<forall>(w, t) \<in> set (waiting r). served r w t)"

lemma waits_okI:
  assumes "waits_ok r" and "distinct (map fst (waiting r'))"
    and "\<And>w t. (w, t) \<in> set (waiting r') \<Longrightarrow> (w, t) \<in> set (waiting r) \<Longrightarrow> served r w t \<Longrightarrow> served r' w t"
    and "\<And>w t. (w, t) \<in> set (waiting r') \<Longrightarrow> (w, t) \<notin> set (waiting r) \<Longrightarrow> served r' w t"
  shows "waits_ok r'"
  using assms unfolding waits_ok_def by blast

lemma same_waits:
  assumes "waits_ok r" and "join_view s = join_view (lib r)" and "signalled s = signalled (lib r)" and "set (exited r) \<subseteq> set (exited r')"
    and "lib r' = s" and "waiting r' = waiting r"
  shows "waits_ok r'"
  by (rule waits_okI [OF assms(1)]) (use assms in \<open>auto simp: waits_ok_def served_def\<close>)

lemma same_threads_waits: "waits_ok r \<Longrightarrow> same_threads (lib r) s \<Longrightarrow> waits_ok (r\<lparr>lib := s\<rparr>)"
  by (rule same_waits) (simp_all add: same_threads_def)

lemma insert_waits:
  assumes ok: "run_ok r" "waits_ok r" and p: "p \<noteq> NULL" "blocks (arraytcb (lib r)) p = None" "dat \<noteq> NULL"
    and st: "insert_tid p dat junk True t (lib r) = Inr (s, i)"
  shows "waits_ok (r\<lparr>lib := s, taken := ts\<rparr>)"
proof -
  from insert_threads [OF lib_okD(1,2) [OF run_okD(1) [OF ok(1)]] p, of junk True t] st obtain a' where
    a': "s = lib r\<lparr>arraytcb := a'\<rparr>" "tcbs (arraytcb (lib r)) i = None" "tcbs a' = (tcbs (arraytcb (lib r)))(i \<mapsto> new_block junk True t)"
    by (auto simp: insert_tid_def)
  have v: "join_view (lib r) j = Some x \<Longrightarrow> join_view s j = Some x" for j x using a' by (auto simp: join_view_def)
  show ?thesis 
  proof (rule waits_okI [OF ok(2)])
    fix w u assume "served r w u"
    then show "served (r\<lparr>lib := s, taken := ts\<rparr>) w u" using v a'(1) unfolding served_def by fastforce
  qed (use ok(2) in \<open>simp_all add: waits_ok_def\<close>)
qed

lemma join_wait_waits:
  assumes ok: "run_ok r" "waits_ok r" and st: "- (2 ^ 31) \<le> t" "t < 2 ^ 31" "thr_join_begin esp t (lib r) = Inr (s, Join_waits w)"
    and w: "w \<notin> fst ` set (waiting r)"
  shows "waits_ok (r\<lparr>lib := s, waiting := (w, t) # waiting r\<rparr>)"
  using run_okD(1) [OF ok(1)] st
proof (rule join_begin_cases)
  fix w' i b assume b: "tcbs (arraytcb (lib r)) i = Some b" "tcb_tid b = t" "tcb_state b = RUNNING" and k: "thr_getktid esp (lib r) = Inr w'"
  from join_begin_waits [OF run_okD(1) [OF ok(1)] b(1,3) k] st(3) b(2) have
    s: "tcbs (arraytcb s) = (tcbs (arraytcb (lib r)))(i \<mapsto> b\<lparr>tcb_state := JOINED, joiners := [w]\<rparr>)" "signalled s = signalled (lib r)" by auto
  have v: "join_view s = (join_view (lib r))(i \<mapsto> (t, JOINED, [w]))" "join_view (lib r) i = Some (t, RUNNING, joiners b)"
    using s(1) b by (simp_all add: join_view_def fun_eq_iff)
  then have keep: "join_view (lib r) j = Some (u, JOINED, x) \<Longrightarrow> join_view s j = Some (u, JOINED, x)" for j u x by auto
  show ?thesis
  proof (rule waits_okI [OF ok(2)])
    show "distinct (map fst (waiting (r\<lparr>lib := s, waiting := (w, t) # waiting r\<rparr>)))" using ok(2) w by (simp add: waits_ok_def)
    show "served (r\<lparr>lib := s, waiting := (w, t) # waiting r\<rparr>) x u" if "served r x u" for x u
      using that keep s(2) unfolding served_def by fastforce
    show "served (r\<lparr>lib := s, waiting := (w, t) # waiting r\<rparr>) x u"
      if "(x, u) \<in> set (waiting (r\<lparr>lib := s, waiting := (w, t) # waiting r\<rparr>))" "(x, u) \<notin> set (waiting r)" for x u
      using that v(1) by (auto simp: served_def)
  qed
qed simp_all

lemma join_wake_waits:
  assumes ok: "run_ok r" "waits_ok r" and w: "(w, t) \<in> set (waiting r)" "thr_join_wake w (lib r) = Inr s"
  shows "waits_ok (r\<lparr>lib := s, waiting := removeAll (w, t) (waiting r), reaping := rs\<rparr>)"
proof -
  have s: "s = (relocked (lib r))\<lparr>signalled := remove1 w (signalled (lib r))\<rparr>"
    using w(2) lock_free [OF lib_okD(2) [OF run_okD(1) [OF ok(1)]]] by (simp add: thr_join_wake_def relocked_def split: if_splits)
  then have v: "join_view s = join_view (lib r)" by (simp add: join_view_def fun_eq_iff)
  have d: "distinct (map fst (waiting r))" using ok(2) by (simp add: waits_ok_def)
  have other: "w' \<noteq> w" if "(w', u) \<in> set (waiting r)" "(w', u) \<noteq> (w, t)" for w' u using that w(1) d unfolding distinct_map inj_on_def by fastforce
  show ?thesis
  proof (rule waits_okI [OF ok(2)])
    show "distinct (map fst (waiting (r\<lparr>lib := s, waiting := removeAll (w, t) (waiting r), reaping := rs\<rparr>)))"
      using d by (simp add: distinct_map_filter removeAll_filter_not_eq)
    fix x u assume "(x, u) \<in> set (waiting (r\<lparr>lib := s, waiting := removeAll (w, t) (waiting r), reaping := rs\<rparr>))"
      and xu: "(x, u) \<in> set (waiting r)" and old: "served r x u"
    then have "(x, u) \<noteq> (w, t)" by auto
    from other [OF xu this] have "x \<noteq> w" .
    then have "x \<in> set (signalled s) \<longleftrightarrow> x \<in> set (signalled (lib r))" by (simp add: s in_set_remove1)
    then show "served (r\<lparr>lib := s, waiting := removeAll (w, t) (waiting r), reaping := rs\<rparr>) x u" using old v by (simp add: served_def)
  qed simp
qed

lemma exit_leave_waits:
  assumes ok: "run_ok r" "waits_ok r" and i: "(i, p) \<in> set (leaving r)" and st: "thr_exit_leave k i p (lib r) = Inr s"
  shows "waits_ok (r\<lparr>lib := s, leaving := ls\<rparr>)"
proof -
  from leave_okD(2) [OF run_okD(3) [OF ok(1)] i] obtain b where
    b: "p = slot (arraytcb (lib r)) i" "tcbs (arraytcb (lib r)) i = Some b" "tcb_tid b \<in> fst ` set (exited r)" by (auto simp: tid_at_def)
  from exit_leave_ok [OF run_okD(1) [OF ok(1)] b(2,1), of k] st have
    s: "tcbs (arraytcb s) = (tcbs (arraytcb (lib r)))(i := None)" "signalled s = signalled (lib r) @ joiners b" by auto
  have v: "join_view s = (join_view (lib r))(i := None)" "join_view (lib r) i = Some (tcb_tid b, tcb_state b, joiners b)"
    using s(1) b(2) by (simp_all add: join_view_def fun_eq_iff)
  have "served (r\<lparr>lib := s, leaving := ls\<rparr>) w t" if "served r w t" for w t
    using that unfolding served_def
  proof (elim disjE exE)
    fix j assume "join_view (lib r) j = Some (t, JOINED, [w])"
    then show "(\<exists>i. join_view (lib (r\<lparr>lib := s, leaving := ls\<rparr>)) i = Some (t, JOINED, [w])) \<or>
        w \<in> set (signalled (lib (r\<lparr>lib := s, leaving := ls\<rparr>))) \<and> t \<in> fst ` set (exited (r\<lparr>lib := s, leaving := ls\<rparr>))"
      using v b(3) s(2) by (cases "j = i") auto
  qed (use s(2) in auto)
  then show ?thesis by (intro waits_okI [OF ok(2)]) (use ok(2) in \<open>simp_all add: waits_ok_def\<close>)
qed

lemma tstep_waits: "tstep k r r' \<Longrightarrow> run_ok r \<Longrightarrow> waits_ok r \<Longrightarrow> waits_ok r'"
proof (induction rule: tstep.induct)
  case (Take r s t)
  then have s: "s = lib r\<lparr>thread_count := thread_count (lib r) + 1\<rparr>" by (simp add: take_tid_def)
  show ?case by (rule same_waits [OF Take.prems(2)]) (simp_all add: s join_view_def fun_eq_iff)
next
  case (Join_go t esp r s)
  from join_go_same [OF run_okD(1) [OF Join_go.prems(1)] Join_go.hyps] have s: "same_threads (lib r) s" .
  show ?case by (rule same_waits [OF Join_go.prems(2)]) (use s in \<open>simp_all add: same_threads_def\<close>)
next
  case (Join_reap t r s ret v)
  then obtain h where s: "s = lib r\<lparr>hash_exit := h\<rparr>" by (auto simp: thr_join_reap_def kbind_def split: sum.splits)
  show ?case by (rule same_waits [OF Join_reap.prems(2)]) (simp_all add: s join_view_def fun_eq_iff)
next
  case (Exit_report esp v r s i p b)
  then obtain h where s: "s = lib r\<lparr>hash_exit := h\<rparr>" by (auto simp: thr_exit_report_def kbind_def Let_def split: sum.splits if_splits)
  show ?case by (rule same_waits [OF Exit_report.prems(2)]) (auto simp: s join_view_def fun_eq_iff)
qed (blast intro: insert_waits join_wait_waits join_wake_waits exit_leave_waits same_threads_waits same_steps run_okD(1))+

section \<open>The start of a program\<close>

definition start_run :: "'e thrlib \<Rightarrow> 'e trun" where
  "start_run s = \<lparr>lib = s, taken = [], waiting = [], reaping = [], leaving = [], exited = [], reaped = []\<rparr>"

lemma insert_not_full: "cursize a \<noteq> maxsize a \<Longrightarrow> arraytcb_insert_thread p d junk cok t a = arraytcb_insert_thread p d' junk cok t a"
  by (auto simp: arraytcb_insert_thread_def lock_array_def split: list.splits)

lemma thr_init_parts:
  assumes "thr_init k ia ret ebp tid0 sz s0 = Inr (s, 0)"
  obtains e a a2 st h x where "arraytcb_init (ia_arr ia) (ia_dat ia) (ia_lst ia) INIT_THR_NUM (arraytcb s0) = (a, 0)"
    and "thr_hashtableexit_init (ia_hash_ok ia) (ia_hash_mutex_ok ia) (hash_exit s0) = (h, 0)"
    and "arraytcb_insert_thread (ia_thr ia) (ia_dat2 ia) (ia_junk ia) (ia_cond_ok ia) 0 (a\<lparr>array_locked := False\<rparr>) = Inr (a2, 0)"
    and "arraytcb_set_ktid 0 tid0 a2 = Inr (x, 0)" and "s = s0\<lparr>machine := e, thread_count := 1, arraytcb := x, stack_info := st, hash_exit := h\<rparr>"
  using assms by (auto simp: thr_init_def kbind_def Let_def split: sum.splits prod.splits if_splits)

lemma first_thread:
  assumes i: "arraytcb_init arr dat lst INIT_THR_NUM a0 = (a, 0)"
    and n: "arraytcb_insert_thread p d junk True 0 (a\<lparr>array_locked := False\<rparr>) = Inr (a2, 0)" and fresh: "blocks a0 p = None"
  shows "slots_ok a2 \<and> \<not> array_locked a2 \<and> tcbs a2 = [0 \<mapsto> new_block junk True 0]"
proof -
  let ?a = "a\<lparr>array_locked := False\<rparr>"
  have a: "cursize a = 0" "maxsize a = 32" "avail_list a = []" "blocks a = blocks a0" "dat = NULL \<Longrightarrow> data a = []"
    using i by (auto simp: arraytcb_init_def INIT_THR_NUM_def Let_def split: if_splits)
  have p: "p \<noteq> NULL" using n by (auto simp: arraytcb_insert_thread_def split: if_splits)
  have "dat \<noteq> NULL"
  proof
    assume "dat = NULL"
    then show False using n a p by (simp add: arraytcb_insert_thread_def lock_array_def put_data_def Let_def)
  qed
  from arraytcb_init_ok [OF i this] have ok: "slots_ok ?a" "\<And>j. slot a j = NULL" by simp_all
  then have e: "tcbs ?a = Map.empty" by (auto simp: tcbs_def)
  have "cursize ?a \<noteq> maxsize ?a" using a by simp
  from insert_threads [OF ok(1) _ p, of 1 junk True 0] insert_not_full [OF this, of p 1 junk True 0 d] n fresh a(4) e show ?thesis by auto
qed

lemma thr_init_ok:
  assumes st: "thr_init k ia ret ebp tid0 sz s0 = Inr (s, 0)" and "ia_cond_ok ia" and "blocks (arraytcb s0) (ia_thr ia) = None"
  shows "lib_ok s \<and> (\<forall>t. 0 \<le> t \<longrightarrow> t < 2 ^ 31 \<longrightarrow> ht_values (hash_exit s) (word_of_int t) = []) \<and>
     tcbs (arraytcb s) = [0 \<mapsto> (new_block (ia_junk ia) True 0)\<lparr>tcb_ktid := tid0\<rparr>]"
  using st
proof (rule thr_init_parts)
  fix e a a2 st h x
  assume i: "arraytcb_init (ia_arr ia) (ia_dat ia) (ia_lst ia) INIT_THR_NUM (arraytcb s0) = (a, 0)"
    and h: "thr_hashtableexit_init (ia_hash_ok ia) (ia_hash_mutex_ok ia) (hash_exit s0) = (h, 0)"
    and n: "arraytcb_insert_thread (ia_thr ia) (ia_dat2 ia) (ia_junk ia) (ia_cond_ok ia) 0 (a\<lparr>array_locked := False\<rparr>) = Inr (a2, 0)"
    and x: "arraytcb_set_ktid 0 tid0 a2 = Inr (x, 0)"
    and s: "s = s0\<lparr>machine := e, thread_count := 1, arraytcb := x, stack_info := st, hash_exit := h\<rparr>"
  have f: "slots_ok a2" "\<not> array_locked a2" "tcbs a2 = [0 \<mapsto> new_block (ia_junk ia) True 0]" using first_thread [OF i _ assms(3)] n assms(2) by simp_all
  have x': "slots_ok x" "\<not> array_locked x" "tcbs x = [0 \<mapsto> (new_block (ia_junk ia) True 0)\<lparr>tcb_ktid := tid0\<rparr>]"
    using set_ktid_threads [OF f(1) _ x] f(2,3) by simp_all
  have h': "array h = Some (replicate 1021 [])" "ht_size h = EXIT_HASH_SIZE" "func h = thr_exitstatus_hashfunc"
    using h by (auto simp: thr_hashtableexit_init_def hashtable_init_def EXIT_HASH_SIZE_def split: if_splits)
  have "lib_ok s" using x' h' unfolding lib_ok_def s
    by (auto simp: ht_ok_def EXIT_HASH_SIZE_def tcb_ok_def new_block_def split: if_splits)
  moreover have "ht_values h (word_of_int t) = []" if "0 \<le> t" "t < 2 ^ 31" for t
    using h' sint_tid [OF that] that by (simp add: ht_values_def thr_exitstatus_hashfunc_def EXIT_HASH_SIZE_def)
  ultimately show ?thesis using x'(3) by (simp add: s)
qed

lemma start_ok: "lib_ok s \<Longrightarrow> (\<forall>t. 0 \<le> t \<longrightarrow> t < 2 ^ 31 \<longrightarrow> ht_values (hash_exit s) (word_of_int t) = []) \<Longrightarrow> run_ok (start_run s) \<and> waits_ok (start_run s)"
  by (simp add: run_ok_def ids_ok_def leave_ok_def table_ok_def pending_def waits_ok_def start_run_def)

lemma runs_ok:
  assumes "(tstep k)\<^sup>*\<^sup>* r r'" and "run_ok r \<and> waits_ok r"
  shows "run_ok r' \<and> waits_ok r'"
  using assms by (induction rule: rtranclp_induct) (blast intro: tstep_ok tstep_waits)+

section \<open>A program with one thread\<close>

definition answers_example :: init_answers where
  "answers_example = \<lparr>mutex_count_ok = True, mutex_array_ok = True, ia_arr = 0x100, ia_dat = 0x200, ia_lst = 0x300, ia_hash_ok = True,
     ia_hash_mutex_ok = True, ia_thr = 0x400, ia_dat2 = 0, ia_junk = 0, ia_cond_ok = True\<rparr>"

definition calls_main :: "unit ucalls" where
  "calls_main = calls_example\<lparr>uc_load := (\<lambda>_ _. 0xFFFFFF00)\<rparr>"

definition lib_main :: "unit thrlib" where
  "lib_main = lib_example\<lparr>arraytcb := \<lparr>maxsize = 0, cursize = 0, data = [], avail_list = [], blocks = Map.empty, array_locked = False\<rparr>\<rparr>"

lemma main_starts:
  "\<exists>s. thr_init calls_main answers_example 0x1000200 0xFFFFFE00 7 4096 lib_main = Inr (s, 0) \<and> thread_count s = 1 \<and>
     get_stack_position_index 0x8000010 (stack_info s) = 0"
proof -
  have "trace_back (\<lambda>_. 0xFFFFFF00) 0xFFFFFF00 0xFFFFFE00 = Some 0xFFFFFE00" by (subst trace_back.simps) (simp add: get_last_ebp_def)
  then show ?thesis
    by (simp add: thr_init_def calls_main_def calls_example_def answers_example_def lib_main_def lib_example_def autostack_example_def set_rootthr_retaddr_def
        arraytcb_init_def INIT_THR_NUM_def thr_lib_helper_init_def get_root_thread_stack_high_def thr_hashtableexit_init_def hashtable_init_def
        arraytcb_insert_thread_def lock_array_def put_data_def unlock_array_def arraytcb_set_ktid_def get_data_def mod_block_def
        stacks_example_def get_stack_position_index_def)
qed

lemma main_ok:
  assumes "thr_init calls_main answers_example 0x1000200 0xFFFFFE00 7 4096 lib_main = Inr (s, 0)"
  shows "lib_ok s \<and> tcbs (arraytcb s) 0 = Some ((new_block 0 True 0)\<lparr>tcb_ktid := 7\<rparr>) \<and> ht_values (hash_exit s) 0 = [] \<and> run_ok (start_run s)"
proof -
  from thr_init_ok [OF assms] have r: "lib_ok s" "\<forall>t. 0 \<le> t \<longrightarrow> t < 2 ^ 31 \<longrightarrow> ht_values (hash_exit s) (word_of_int t) = []"
    "tcbs (arraytcb s) = [0 \<mapsto> (new_block 0 True 0)\<lparr>tcb_ktid := 7\<rparr>]"
    by (simp_all add: answers_example_def lib_main_def)
  then show ?thesis using r(2) [rule_format, of 0] start_ok [of s] by simp
qed

text \<open>The root thread exits, and another thread joins it.\<close>

lemma main_run:
  assumes "thr_init calls_main answers_example 0x1000200 0xFFFFFE00 7 4096 lib_main = Inr (s, 0)" and "thread_count s = 1"
    and i: "get_stack_position_index 0x8000010 (stack_info s) = 0"
  shows "\<exists>r. (tstep calls_main)\<^sup>*\<^sup>* (start_run s) r \<and> reaped r = [(0, 42)]"
proof -
  let ?b = "(new_block 0 True 0)\<lparr>tcb_ktid := 7\<rparr>" and ?p = "slot (arraytcb s) 0"
  have ok: "lib_ok s" "tcbs (arraytcb s) 0 = Some ?b" "ht_values (hash_exit s) 0 = []" using main_ok [OF assms(1)] by simp_all
  have t: "tcb_tid ?b = 0" by (simp add: new_block_def)
  let ?s1 = "s\<lparr>hash_exit := put_ok 0 42 (hash_exit s)\<rparr>"
  let ?r1 = "(start_run s)\<lparr>lib := ?s1, leaving := [(0, ?p)], exited := [(0, 42)]\<rparr>"
  have "thr_exit_report 0x8000010 42 s = Inr (?s1, 0, ?p)" using exit_report_ok [OF ok(1) i ok(2), of 42] t by simp
  then have 1: "tstep calls_main (start_run s) ?r1"
    using Exit_report [of "0x8000010" 42 "start_run s" ?s1 0 ?p ?b calls_main] tcbsD [OF ok(2)] t by (simp add: start_run_def)
  have ok1: "lib_ok ?s1" using lib_ok_put [OF ok(1), of 0 42] by simp
  from exit_leave_ok [OF ok1, of 0 ?b ?p calls_main] ok(2) obtain s2 where
    s2: "thr_exit_leave calls_main 0 ?p ?s1 = Inr s2" "slots_ok (arraytcb s2)" "\<not> array_locked (arraytcb s2)" "tcbs (arraytcb s2) = (tcbs (arraytcb ?s1))(0 := None)"
      "hash_exit s2 = hash_exit ?s1" "thread_count s2 = 1" using assms(2) by auto
  let ?r2 = "?r1\<lparr>lib := s2, leaving := []\<rparr>"
  have 2: "tstep calls_main ?r1 ?r2" using Exit_leave [of 0 ?p ?r1 calls_main s2] s2(1) by simp
  have ok2: "lib_ok s2" by (rule lib_ok_delete [OF ok1 s2(2-5)]) (use s2(6) assms(2) in simp)
  have "tcb_tid b \<noteq> 0" if "tcbs (arraytcb s2) j = Some b" for j b using that s2(4) lib_okD(9) [OF ok(1) _ ok(2), of j b] t by (auto split: if_splits)
  then obtain s3 where s3: "thr_join_begin 0x8000010 0 s2 = Inr (s3, Join_reaps)" "s3 = relocked s2"
    using join_begin_gone [where t = 0 and esp = "0x8000010", OF ok2] s2(6) by (auto simp: relocked_def)
  let ?r3 = "?r2\<lparr>lib := s3, reaping := [0]\<rparr>"
  have 3: "tstep calls_main ?r2 ?r3" using Join_go [of 0 "0x8000010" ?r2 s3 calls_main] s3(1) by (simp add: start_run_def)
  have "ht_values (hash_exit s3) 0 = [42]" using s3(2) s2(5) ok(3) tid_in_range [OF ok(1), of 0] lib_okD(3) [OF ok(1)] ht.put_vals [of "hash_exit s" 0 0 42] by simp
  then obtain s4 where "thr_join_reap 0 True s3 = Inr (s4, 0, Some 42)" using reap_value [of s3 0 42 "[]"] relocked_ok [OF ok2] s3(2) by auto
  then have 4: "tstep calls_main ?r3 (?r3\<lparr>lib := s4, reaping := [], reaped := [(0, 42)]\<rparr>)" using Join_reap [of 0 ?r3 s4 0 42 calls_main] by (simp add: start_run_def)
  have "(tstep calls_main)\<^sup>*\<^sup>* (start_run s) (?r3\<lparr>lib := s4, reaping := [], reaped := [(0, 42)]\<rparr>)"
    using 1 2 3 4 by (meson rtranclp.rtrancl_refl rtranclp.rtrancl_into_rtrancl)
  then show ?thesis by (intro exI conjI) (assumption, simp add: start_run_def)
qed

section \<open>Properties\<close>

text \<open>C5: every exit status is delivered at most once, and unchanged. However the threads of a program interleave
  after a successful \<open>thr_init\<close>, what the joins that returned 0 delivered are statuses with which those very
  threads called \<open>thr_exit\<close>, no two of them of the same thread, and no thread exits twice.\<close>

theorem status_delivered_once:
  assumes "thr_init k ia ret ebp tid0 sz s0 = Inr (s, 0)" and "ia_cond_ok ia" and "blocks (arraytcb s0) (ia_thr ia) = None"
    and "(tstep k)\<^sup>*\<^sup>* (start_run s) r"
  shows "set (reaped r) \<subseteq> set (exited r) \<and> distinct (map fst (reaped r)) \<and> distinct (map fst (exited r))"
  using runs_ok [OF assms(4)] start_ok [of s] thr_init_ok [OF assms(1-3)] by (simp add: run_ok_def ids_ok_def table_ok_def)

theorem status_delivered_once_witness:
  "\<exists>s r. (tstep calls_main)\<^sup>*\<^sup>* (start_run s) r \<and> reaped r = [(0, 42)] \<and> (0, 42) \<in> set (exited r)"
proof -
  from main_starts obtain s where s: "thr_init calls_main answers_example 0x1000200 0xFFFFFE00 7 4096 lib_main = Inr (s, 0)" "thread_count s = 1"
    "get_stack_position_index 0x8000010 (stack_info s) = 0" by blast
  from main_run [OF this] obtain r where r: "(tstep calls_main)\<^sup>*\<^sup>* (start_run s) r" "reaped r = [(0, 42)]" by blast
  have "set (reaped r) \<subseteq> set (exited r)" using status_delivered_once [OF s(1) _ _ r(1)] by (simp add: answers_example_def lib_main_def)
  then show ?thesis using r by (intro exI [of _ s] exI [of _ r]) simp
qed

text \<open>No joiner is forgotten. In every interleaving a thread that sleeps in \<open>thr_join\<close> is the only one registered
  with a thread that has not left the table, or has been woken and the thread it joins has exited.\<close>

theorem joiner_not_forgotten:
  assumes "thr_init k ia ret ebp tid0 sz s0 = Inr (s, 0)" and "ia_cond_ok ia" and "blocks (arraytcb s0) (ia_thr ia) = None"
    and "(tstep k)\<^sup>*\<^sup>* (start_run s) r" and "(w, t) \<in> set (waiting r)"
  shows "(\<exists>i b. tcbs (arraytcb (lib r)) i = Some b \<and> tcb_tid b = t \<and> tcb_state b = JOINED \<and> joiners b = [w]) \<or>
     w \<in> set (signalled (lib r)) \<and> t \<in> fst ` set (exited r)"
proof -
  have "served r w t" using runs_ok [OF assms(4)] start_ok [of s] thr_init_ok [OF assms(1-3)] assms(5) by (auto simp: waits_ok_def)
  then show ?thesis by (auto simp: served_def join_view_def)
qed

theorem joiner_not_forgotten_witness:
  "\<exists>s r. (tstep calls_main)\<^sup>*\<^sup>* (start_run s) r \<and> waiting r = [(7, 0)] \<and>
     ((\<exists>i b. tcbs (arraytcb (lib r)) i = Some b \<and> tcb_tid b = 0 \<and> tcb_state b = JOINED \<and> joiners b = [7]) \<or>
      7 \<in> set (signalled (lib r)) \<and> 0 \<in> fst ` set (exited r))"
proof -
  from main_starts obtain s where s: "thr_init calls_main answers_example 0x1000200 0xFFFFFE00 7 4096 lib_main = Inr (s, 0)"
    "get_stack_position_index 0x8000010 (stack_info s) = 0" by blast
  have ok: "lib_ok s" "tcbs (arraytcb s) 0 = Some ((new_block 0 True 0)\<lparr>tcb_ktid := 7\<rparr>)" using main_ok [OF s(1)] by simp_all
  have "my_tcb 0x8000010 s = Inr (Some ((new_block 0 True 0)\<lparr>tcb_ktid := 7\<rparr>))"
    using s(2) get_thread_tcbs [OF lib_okD(1) [OF ok(1)] ok(2)] tcbsD [OF ok(2)] by (simp add: my_tcb_def)
  then have "thr_getktid 0x8000010 s = Inr 7" by (simp add: thr_getktid_def)
  from join_begin_waits [OF ok(1,2) _ this] obtain s' where "thr_join_begin 0x8000010 0 s = Inr (s', Join_waits 7)" by (auto simp: new_block_def)
  then have "tstep calls_main (start_run s) ((start_run s)\<lparr>lib := s', waiting := [(7, 0)]\<rparr>)"
    using Join_wait [of 0 "0x8000010" "start_run s" s' 7 calls_main] by (simp add: start_run_def)
  then have run: "(tstep calls_main)\<^sup>*\<^sup>* (start_run s) ((start_run s)\<lparr>lib := s', waiting := [(7, 0)]\<rparr>)" by blast
  show ?thesis
    using joiner_not_forgotten [OF s(1) _ _ run, of 7 0] run
    by (intro exI [of _ s] exI [of _ "(start_run s)\<lparr>lib := s', waiting := [(7, 0)]\<rparr>"]) (simp add: answers_example_def lib_main_def)
qed

text \<open>A joiner can be overtaken. A thread that waited in \<open>thr_join\<close> and was woken by the exit can still fail: when
  a third thread joins between the exit and the moment the woken thread has the mutex again, that one gets
  the status, with 0, and the thread that waited gets -1 and the status 0.\<close>

theorem joiner_overtaken:
  assumes "lib_ok s" and "get_stack_position_index esp (stack_info s) = i" and "tcbs (arraytcb s) i = Some b" and "tcb_state b = RUNNING"
    and "ht_values (hash_exit s) (word_of_int (tcb_tid b)) = []" and "thr_getktid esp' s = Inr w"
    and "others = (\<lambda>s. kbind (thr_exit k Inr esp v s) (\<lambda>s. kbind (thr_join Inr Inr esp'' (tcb_tid b) True s) (\<lambda>(s, r, x).
            if r = 0 \<and> x = Some v then Inr s else Inl PANIC)))"
  shows "\<exists>s'. thr_join others Inr esp' (tcb_tid b) True s = Inr (s', - 1, Some NULL)"
proof -
  let ?t = "tcb_tid b" and ?w = "word_of_int (tcb_tid b) :: u32"
  have t: "0 \<le> ?t" "?t < uint (thread_count s)" "?t < 2 ^ 31" using tid_bounds [OF assms(1,3)] by simp_all
  from join_begin_waits [OF assms(1,3,4,6)] obtain s0 where
    s0: "thr_join_begin esp' ?t s = Inr (s0, Join_waits w)" "lib_ok s0" "tcbs (arraytcb s0) i = Some (b\<lparr>tcb_state := JOINED, joiners := [w]\<rparr>)"
      "hash_exit s0 = hash_exit s" "stack_info s0 = stack_info s" "thread_count s0 = thread_count s" by auto
  from thr_exit_ok [OF s0(2) _ s0(3), of esp k v] assms(2) s0(4-6) obtain s1 where
    s1: "thr_exit k Inr esp v s0 = Inr s1" "lib_ok s1" "w \<in> set (signalled s1)" "hash_exit s1 = put_ok ?w v (hash_exit s)"
      "thread_count s1 = thread_count s" "tcbs (arraytcb s1) = (tcbs (arraytcb s0))(i := None)" by auto
  have gone: "tcb_tid c \<noteq> ?t" if "tcbs (arraytcb s1) j = Some c" for j c
    using that s1(6) lib_okD(9) [OF s0(2) _ s0(3), of j c] by (auto split: if_splits)
  have "ht_values (hash_exit (relocked s1)) ?w = v # []"
    using assms(5) s1(4) ht.put_vals [OF lib_okD(3) [OF assms(1)] tid_in_range [OF assms(1) t(1,3)] tid_in_range [OF assms(1) t(1,3)]] by simp
  from reap_value [OF relocked_ok [OF s1(2)] t(1,3) this] obtain s2 where
    s2: "thr_join_reap ?t True (relocked s1) = Inr (s2, 0, Some v)" "lib_ok s2" "ht_values (hash_exit s2) ?w = []" by blast
  then have sg: "signalled s2 = signalled s1" by (auto simp: thr_join_reap_def kbind_def split: sum.splits)
  have "thr_join Inr Inr esp'' ?t True s1 = Inr (s2, 0, Some v)"
    using join_gone [where asleep = Inr and esp = esp'' and statusp = True, OF s1(2) t(1) _ gone] s1(5) t(2) s2(1) by simp
  then have o: "others s0 = Inr s2" using s1(1) by (simp add: assms(7))
  let ?s2 = "(relocked s2)\<lparr>signalled := remove1 w (signalled s2)\<rparr>"
  have "thr_join_wake w s2 = Inr ?s2" using s1(3) sg lock_free [OF lib_okD(2) [OF s2(2)]] by (simp add: thr_join_wake_def relocked_def)
  moreover have "lib_ok ?s2" using relocked_ok [OF s2(2)] by (simp add: lib_ok_def)
  ultimately show ?thesis using s0(1) o join_reap_ok [of ?s2 ?t True] t(1,3) s2(3) by (simp add: thr_join_def)
qed

theorem joiner_overtaken_witness:
  "\<exists>s'. thr_join (\<lambda>s. kbind (thr_exit calls_example Inr 0x7FFFF00 42 s) (\<lambda>s. kbind (thr_join Inr Inr 0x8000020 1 True s) (\<lambda>(s, r, x).
      if r = 0 \<and> x = Some 42 then Inr s else Inl PANIC))) Inr 0x8000010 1 True lib_example = Inr (s', - 1, Some NULL)"
  using joiner_overtaken [OF lib_example_ok, of "0x7FFFF00" 1 "new_block 8 True 1" "0x8000010" 7 _ calls_example 42 "0x8000020"] lib_example_facts
  by (simp add: new_block_def)

end
