(* ===== verification/User_Heap.thy ===== *)
theory User_Heap
  imports Byte_Memory Malloc_Wrappers "HOL-Library.Signed_Division"
begin

text \<open>
  The allocator of a program (\<open>410user/libmalloc\<close>): blocks that lie one behind the other, each with its size and an
  allocated bit in the word before it (header) and in its last word (footer), between a prologue block and an epilogue
  header. \<open>memlib.c\<close> grows the heap with \<open>new_pages\<close>. Memory is accessible where the kernel has given pages; any other
  access is a \<open>FAULT\<close>. The C values are \<open>int\<close>s: words here, compared as signed numbers, with sums that wrap.
\<close>

section \<open>The memory of the program\<close>

record mm_st =
  mm_mem :: bmem
  mm_areas :: "(u32 \<times> u32) list"   \<comment> \<open>what \<open>new_pages\<close> has given: base and length\<close>
  mm_answers :: "nat \<Rightarrow> int"        \<comment> \<open>the answer of the kernel to each call of \<open>new_pages\<close> that is legal\<close>
  mm_calls :: nat
  mm_end :: u32                     \<comment> \<open>the end of the program image\<close>
  mem_max_addr :: u32
  mem_brkp :: u32
  mem_alloctop :: u32
  heap_listp :: u32
  mm_inited :: bool

text \<open>What the kernel refuses whatever memory it has: bases that are not at a page of user memory, lengths that are not a
  positive number of pages, and areas that wrap or reach the last page, which the first stack has.\<close>

definition legal_area :: "u32 \<Rightarrow> u32 \<Rightarrow> bool" where
  "legal_area base len \<longleftrightarrow>
     4096 dvd unat base \<and> 0x1000000 \<le> base \<and> 0 < sint len \<and> 4096 dvd unat len \<and> unat base + unat len < 2 ^ 32"

definition sys_new_pages :: "u32 \<Rightarrow> u32 \<Rightarrow> mm_st \<Rightarrow> mm_st \<times> int" where
  "sys_new_pages base len s =
     (let rv = if legal_area base len then mm_answers s (mm_calls s) else - 1;
          s = s\<lparr>mm_calls := Suc (mm_calls s)\<rparr>
      in if rv = 0 then (s\<lparr>mm_areas := (base, len) # mm_areas s\<rparr>, 0) else (s, rv))"

text \<open>An access of \<open>n\<close> bytes at \<open>p\<close> that lies in one area.\<close>

definition accessible :: "mm_st \<Rightarrow> nat \<Rightarrow> u32 \<Rightarrow> bool" where
  "accessible s n p \<longleftrightarrow> list_ex (\<lambda>(b, l). b \<le> p \<and> unat p + n \<le> unat b + unat l) (mm_areas s)"

section \<open>\<open>memlib.c\<close>\<close>

partial_function (option) mem_init_loop :: "mm_st \<Rightarrow> mm_st option" where
  "mem_init_loop s =
     (case sys_new_pages (mem_brkp s) 4096 s of (s, rv) \<Rightarrow>
        if rv \<noteq> 0 then mem_init_loop (s\<lparr>mem_brkp := mem_brkp s + 4096\<rparr>) else Some s)"

declare mem_init_loop.simps [code]

definition mem_init :: "u32 \<Rightarrow> mm_st \<Rightarrow> mm_st option" where
  "mem_init max_heap_addr s =
     (case mem_init_loop (s\<lparr>mem_max_addr := max_heap_addr, mem_brkp := (mm_end s + 4096) AND 0xFFFFF000\<rparr>) of None \<Rightarrow> None
      | Some s \<Rightarrow> Some (s\<lparr>mem_alloctop := mem_brkp s + 4096\<rparr>))"

definition mem_grow :: "u32 \<Rightarrow> mm_st \<Rightarrow> mm_st \<times> bool" where
  "mem_grow incr s =
     (if mem_alloctop s < mem_brkp s + incr then
        let allocincr = (mem_brkp s + incr - mem_alloctop s + 4095) AND 0xFFFFF000 in
        case sys_new_pages (mem_alloctop s) allocincr s of (s, rv) \<Rightarrow>
          if rv \<noteq> 0 then (s, False) else (s\<lparr>mem_alloctop := mem_alloctop s + allocincr\<rparr>, True)
      else (s, True))"

definition mem_sbrk :: "u32 \<Rightarrow> mm_st \<Rightarrow> mm_st \<times> u32" where
  "mem_sbrk incr s =
     (let old_brk = mem_brkp s in
      if sint incr < 0 \<or> mem_max_addr s < old_brk + incr then (s, NULL)
      else case mem_grow incr s of (s, ok) \<Rightarrow>
        if ok then (s\<lparr>mem_brkp := mem_brkp s + incr\<rparr>, old_brk) else (s, NULL))"

section \<open>The macros of \<open>mm_malloc.h\<close>\<close>

definition PACK :: "u32 \<Rightarrow> u32 \<Rightarrow> u32" where "PACK sz alloc = sz OR alloc"

definition GET :: "u32 \<Rightarrow> mm_st \<Rightarrow> u32 kres" where
  "GET p s = (if accessible s 4 p then Inr (rd32 p (mm_mem s)) else Inl FAULT)"

definition PUT :: "u32 \<Rightarrow> u32 \<Rightarrow> mm_st \<Rightarrow> mm_st kres" where
  "PUT p v s = (if accessible s 4 p then Inr (s\<lparr>mm_mem := wr32 p v (mm_mem s)\<rparr>) else Inl FAULT)"

definition GET_SIZE :: "u32 \<Rightarrow> mm_st \<Rightarrow> u32 kres" where
  "GET_SIZE p s = kbind (GET p s) (\<lambda>w. Inr (w AND NOT 7))"

definition GET_ALLOC :: "u32 \<Rightarrow> mm_st \<Rightarrow> u32 kres" where
  "GET_ALLOC p s = kbind (GET p s) (\<lambda>w. Inr (w AND 1))"

definition HDRP :: "u32 \<Rightarrow> u32" where "HDRP bp = bp - 4"

definition FTRP :: "u32 \<Rightarrow> mm_st \<Rightarrow> u32 kres" where
  "FTRP bp s = kbind (GET_SIZE (HDRP bp) s) (\<lambda>z. Inr (bp + z - 8))"

definition NEXT_BLKP :: "u32 \<Rightarrow> mm_st \<Rightarrow> u32 kres" where
  "NEXT_BLKP bp s = kbind (GET_SIZE (bp - 4) s) (\<lambda>z. Inr (bp + z))"

definition PREV_BLKP :: "u32 \<Rightarrow> mm_st \<Rightarrow> u32 kres" where
  "PREV_BLKP bp s = kbind (GET_SIZE (bp - 8) s) (\<lambda>z. Inr (bp - z))"

text \<open>\<open>PUT(HDRP(bp), v)\<close>, \<open>PUT(FTRP(bp), v)\<close>\<close>

definition put_hdr :: "u32 \<Rightarrow> u32 \<Rightarrow> mm_st \<Rightarrow> mm_st kres" where
  "put_hdr bp v s = PUT (HDRP bp) v s"

definition put_ftr :: "u32 \<Rightarrow> u32 \<Rightarrow> mm_st \<Rightarrow> mm_st kres" where
  "put_ftr bp v s = kbind (FTRP bp s) (\<lambda>f. PUT f v s)"

section \<open>\<open>mm_malloc.c\<close>\<close>

definition coalesce :: "u32 \<Rightarrow> mm_st \<Rightarrow> (mm_st \<times> u32) kres" where
  "coalesce bp s =
     kbind (PREV_BLKP bp s) (\<lambda>prev. kbind (FTRP prev s) (\<lambda>f. kbind (GET_ALLOC f s) (\<lambda>prev_alloc.
     kbind (NEXT_BLKP bp s) (\<lambda>nxt. kbind (GET_ALLOC (HDRP nxt) s) (\<lambda>next_alloc.
     kbind (GET_SIZE (HDRP bp) s) (\<lambda>sz.
     if prev_alloc \<noteq> 0 \<and> next_alloc \<noteq> 0 then Inr (s, bp)
     else if prev_alloc \<noteq> 0 \<and> next_alloc = 0 then
       kbind (GET_SIZE (HDRP nxt) s) (\<lambda>z. let sz = sz + z in
       kbind (put_hdr bp (PACK sz 0) s) (\<lambda>s. kbind (put_ftr bp (PACK sz 0) s) (\<lambda>s. Inr (s, bp))))
     else if prev_alloc = 0 \<and> next_alloc \<noteq> 0 then
       kbind (GET_SIZE (HDRP prev) s) (\<lambda>z. let sz = sz + z in
       kbind (put_ftr bp (PACK sz 0) s) (\<lambda>s. kbind (PREV_BLKP bp s) (\<lambda>p. kbind (put_hdr p (PACK sz 0) s) (\<lambda>s.
       kbind (PREV_BLKP bp s) (\<lambda>p. Inr (s, p))))))
     else
       kbind (GET_SIZE (HDRP prev) s) (\<lambda>z. kbind (FTRP nxt s) (\<lambda>f. kbind (GET_SIZE f s) (\<lambda>y. let sz = sz + (z + y) in
       kbind (put_hdr prev (PACK sz 0) s) (\<lambda>s. kbind (NEXT_BLKP bp s) (\<lambda>n. kbind (put_ftr n (PACK sz 0) s) (\<lambda>s.
       kbind (PREV_BLKP bp s) (\<lambda>p. Inr (s, p)))))))) ))))))"

definition extend_heap :: "u32 \<Rightarrow> mm_st \<Rightarrow> (mm_st \<times> u32) kres" where
  "extend_heap words s =
     (let sz = if words AND 1 \<noteq> 0 then (words + 1) * 4 else words * 4 in
      case mem_sbrk sz s of (s, bp) \<Rightarrow>
        if bp = NULL then Inr (s, NULL)
        else kbind (put_hdr bp (PACK sz 0) s) (\<lambda>s. kbind (put_ftr bp (PACK sz 0) s) (\<lambda>s.
          kbind (NEXT_BLKP bp s) (\<lambda>n. kbind (put_hdr n (PACK 0 1) s) (\<lambda>s. coalesce bp s)))))"

definition place :: "u32 \<Rightarrow> u32 \<Rightarrow> mm_st \<Rightarrow> mm_st kres" where
  "place bp asize s =
     kbind (GET_SIZE (HDRP bp) s) (\<lambda>csize.
     if 16 \<le> sint (csize - asize) then
       kbind (put_hdr bp (PACK asize 1) s) (\<lambda>s. kbind (put_ftr bp (PACK asize 1) s) (\<lambda>s.
       kbind (NEXT_BLKP bp s) (\<lambda>bp. kbind (put_hdr bp (PACK (csize - asize) 0) s) (\<lambda>s. put_ftr bp (PACK (csize - asize) 0) s))))
     else kbind (put_hdr bp (PACK csize 1) s) (\<lambda>s. put_ftr bp (PACK csize 1) s))"

text \<open>A round of the search ends it (\<open>Inl\<close>) or goes on at the next block.\<close>

definition find_fit_round :: "u32 \<Rightarrow> mm_st \<Rightarrow> u32 \<Rightarrow> (u32 + u32) kres" where
  "find_fit_round asize s bp =
     kbind (GET_SIZE (HDRP bp) s) (\<lambda>z.
     if \<not> 0 < sint z then Inr (Inl NULL)
     else kbind (GET_ALLOC (HDRP bp) s) (\<lambda>a.
       if a = 0 \<and> sint asize \<le> sint z then Inr (Inl bp)
       else kbind (NEXT_BLKP bp s) (\<lambda>n. Inr (Inr n))))"

partial_function (option) find_fit_loop :: "u32 \<Rightarrow> mm_st \<Rightarrow> u32 \<Rightarrow> u32 kres option" where
  "find_fit_loop asize s bp =
     (case find_fit_round asize s bp of Inl e \<Rightarrow> Some (Inl e)
      | Inr (Inl p) \<Rightarrow> Some (Inr p)
      | Inr (Inr n) \<Rightarrow> find_fit_loop asize s n)"

declare find_fit_loop.simps [code]

definition find_fit :: "u32 \<Rightarrow> mm_st \<Rightarrow> u32 kres option" where
  "find_fit asize s = find_fit_loop asize s (heap_listp s)"

text \<open>The size of a block for a request, header and footer included.\<close>

definition adjust :: "u32 \<Rightarrow> u32" where
  "adjust sz = (if sint sz \<le> 8 then 16 else word_of_int (8 * (sint (sz + 15) sdiv 8)))"

definition mm_malloc :: "u32 \<Rightarrow> mm_st \<Rightarrow> (mm_st \<times> u32) kres option" where
  "mm_malloc sz s =
     (if sint sz \<le> 0 then Some (Inr (s, NULL))
      else let asize = adjust sz in
      obind (find_fit asize s) (\<lambda>bp.
      if bp \<noteq> NULL then obind (Some (place bp asize s)) (\<lambda>s. Some (Inr (s, bp)))
      else let extendsize = if 4096 < sint asize then asize else 4096 in
      obind (Some (extend_heap (extendsize div 4) s)) (\<lambda>(s, bp).
      if bp = NULL then Some (Inr (s, NULL))
      else obind (Some (place bp asize s)) (\<lambda>s. Some (Inr (s, bp))))))"

definition mm_free :: "u32 \<Rightarrow> mm_st \<Rightarrow> mm_st kres" where
  "mm_free bp s =
     (if bp = NULL then Inr s
      else kbind (GET_SIZE (HDRP bp) s) (\<lambda>sz.
      kbind (put_hdr bp (PACK sz 0) s) (\<lambda>s. kbind (put_ftr bp (PACK sz 0) s) (\<lambda>s. kbind (coalesce bp s) (\<lambda>(s, _). Inr s)))))"

text \<open>\<open>memcpy\<close> and \<open>bzero\<close>, byte by byte.\<close>

definition mm_put :: "u32 \<Rightarrow> u8 list \<Rightarrow> mm_st \<Rightarrow> mm_st kres" where
  "mm_put p bs s =
     (if list_all (\<lambda>i. accessible s 1 (p + word_of_nat i)) [0 ..< length bs] then Inr (s\<lparr>mm_mem := wr p bs (mm_mem s)\<rparr>) else Inl FAULT)"

definition mm_get :: "u32 \<Rightarrow> nat \<Rightarrow> mm_st \<Rightarrow> u8 list kres" where
  "mm_get p n s = (if list_all (\<lambda>i. accessible s 1 (p + word_of_nat i)) [0 ..< n] then Inr (rd n p (mm_mem s)) else Inl FAULT)"

definition mm_realloc :: "u32 \<Rightarrow> u32 \<Rightarrow> mm_st \<Rightarrow> (mm_st \<times> u32) kres option" where
  "mm_realloc p sz s =
     obind (mm_malloc sz s) (\<lambda>(s, new_chunk).
     if new_chunk = NULL then Some (Inr (s, NULL))
     else if p = NULL then Some (Inr (s, new_chunk))
     else Some (kbind (GET_SIZE (HDRP p) s) (\<lambda>old_size.
       kbind (mm_get p (unat (if old_size < sz then old_size else sz)) s) (\<lambda>bs. kbind (mm_put new_chunk bs s) (\<lambda>s.
       kbind (mm_free p s) (\<lambda>s. Inr (s, new_chunk)))))))"

definition mm_init :: "mm_st \<Rightarrow> (mm_st \<times> int) kres option" where
  "mm_init s =
     (case mem_init 0xFFFFFFFF s of None \<Rightarrow> None
      | Some s \<Rightarrow>
          case mem_sbrk 16 s of (s, p) \<Rightarrow>
          let s = s\<lparr>heap_listp := p\<rparr> in
          if p = NULL then Some (Inr (s, - 1))
          else Some (kbind (PUT p 0 s) (\<lambda>s. kbind (PUT (p + 4) (PACK 8 1) s) (\<lambda>s. kbind (PUT (p + 8) (PACK 8 1) s) (\<lambda>s.
            kbind (PUT (p + 4 + 8) (PACK 0 1) s) (\<lambda>s. let s = s\<lparr>heap_listp := p + 8\<rparr> in
            kbind (extend_heap (4096 div 4) s) (\<lambda>(s, q). Inr (s, if q = NULL then - 1 else 0))))))))"

section \<open>\<open>malloc.c\<close>\<close>

text \<open>The first call sets the heap up.\<close>

definition with_init :: "(mm_st \<Rightarrow> (mm_st \<times> u32) kres option) \<Rightarrow> mm_st \<Rightarrow> (mm_st \<times> u32) kres option" where
  "with_init f s =
     (if mm_inited s then f s
      else obind (mm_init s) (\<lambda>(s, rv). if rv < 0 then Some (Inr (s, NULL)) else f (s\<lparr>mm_inited := True\<rparr>)))"

definition lib_malloc_user :: "u32 \<Rightarrow> mm_st \<Rightarrow> (mm_st \<times> u32) kres option" where
  "lib_malloc_user sz = with_init (mm_malloc sz)"

definition lib_calloc_user :: "u32 \<Rightarrow> u32 \<Rightarrow> mm_st \<Rightarrow> (mm_st \<times> u32) kres option" where
  "lib_calloc_user nelt eltsize =
     with_init (\<lambda>s. obind (mm_malloc (nelt * eltsize) s) (\<lambda>(s, new).
       if new = NULL then Some (Inr (s, NULL))
       else Some (kbind (mm_put new (replicate (unat (nelt * eltsize)) 0) s) (\<lambda>s. Inr (s, new)))))"

definition lib_realloc_user :: "u32 \<Rightarrow> u32 \<Rightarrow> mm_st \<Rightarrow> (mm_st \<times> u32) kres option" where
  "lib_realloc_user buf new_size s = (if mm_inited s then mm_realloc buf new_size s else Some (Inr (s, NULL)))"

definition lib_free_user :: "u32 \<Rightarrow> mm_st \<Rightarrow> mm_st kres" where
  "lib_free_user buf s = (if mm_inited s then mm_free buf s else Inr s)"

section \<open>Words of the heap\<close>

text \<open>Addresses and sizes are numbers below \<open>2 ^ 32\<close>.\<close>

definition w32 :: "nat \<Rightarrow> u32" where "w32 = word_of_nat"

lemma w32_add: "w32 a + w32 b = w32 (a + b)"
  by (simp add: w32_def)

lemma w32_minus: "k \<le> a \<Longrightarrow> w32 a - w32 k = w32 (a - k)"
  by (simp add: w32_def of_nat_diff)

lemma w32_minus_numeral: "4 \<le> a \<Longrightarrow> w32 a - 4 = w32 (a - 4)" "8 \<le> a \<Longrightarrow> w32 a - 8 = w32 (a - 8)"
  using w32_minus [of 4 a] w32_minus [of 8 a] by (simp_all add: w32_def)

lemma unat_w32: "a < 2 ^ 32 \<Longrightarrow> unat (w32 a) = a"
  by (simp add: w32_def unat_word_of_nat32)

lemma sint_w32: "a < 2 ^ 31 \<Longrightarrow> sint (w32 a) = int a"
  by (simp add: w32_def sint_word_of_nat32)

text \<open>The word at an address, and the memory with it replaced.\<close>

definition word_at :: "bmem \<Rightarrow> nat \<Rightarrow> u32" where
  "word_at m a = rd32 (w32 a) m"

definition put_at :: "bmem \<Rightarrow> nat \<Rightarrow> u32 \<Rightarrow> bmem" where
  "put_at m a v = wr32 (w32 a) v m"

text \<open>Only bytes from \<open>lo\<close> up to \<open>hi\<close> differ.\<close>

definition changed :: "nat \<Rightarrow> nat \<Rightarrow> bmem \<Rightarrow> bmem \<Rightarrow> bool" where
  "changed lo hi m m' \<longleftrightarrow> (\<forall>x. unat x < lo \<or> hi \<le> unat x \<longrightarrow> m' x = m x)"

lemma put_at_apply: "a + 4 \<le> 2 ^ 32 \<Longrightarrow> unat x < a \<or> a + 4 \<le> unat x \<Longrightarrow> put_at m a v x = m x"
proof -
  assume a: "a + 4 \<le> 2 ^ 32" "unat x < a \<or> a + 4 \<le> unat x"
  have u: "unat (w32 a) = a" using a(1) by (simp add: unat_w32)
  have "4 \<le> unat (x - w32 a)"
  proof (cases "w32 a \<le> x")
    case True
    then show ?thesis using a(2) u by (simp add: unat_sub word_le_nat_alt)
  next
    case False
    then have "unat (x - w32 a) = 2 ^ 32 + unat x - a"
      using u by (simp add: unat_sub_if_size word_size word_le_nat_alt)
    then show ?thesis using a(1) by simp
  qed
  then show ?thesis by (simp add: put_at_def wr32_def wr_apply)
qed

lemma changed_put: "lo \<le> a \<Longrightarrow> a + 4 \<le> hi \<Longrightarrow> hi \<le> 2 ^ 32 \<Longrightarrow> changed lo hi m (put_at m a v)"
  using put_at_apply [of a _ m v] by (auto simp: changed_def)

lemma changed_refl: "changed lo hi m m"
  by (simp add: changed_def)

lemma changed_trans: "changed lo hi m m' \<Longrightarrow> changed lo hi m' m'' \<Longrightarrow> changed lo hi m m''"
  by (simp add: changed_def)

lemma changed_mono: "changed lo hi m m' \<Longrightarrow> lo' \<le> lo \<Longrightarrow> hi \<le> hi' \<Longrightarrow> changed lo' hi' m m'"
  by (auto simp: changed_def)

lemma word_at_changed:
  assumes "changed lo hi m m'" and "a + 4 \<le> lo \<or> hi \<le> a" and "a + 4 \<le> 2 ^ 32"
  shows "word_at m' a = word_at m a"
proof -
  have "rd 4 (w32 a) m' = rd 4 (w32 a) m"
  proof (rule rd_cong)
    fix i :: nat assume "i < 4"
    then have "unat (w32 a + word_of_nat i) = a + i"
      using assms(3) unat_word_of_nat32 [of "a + i"] by (simp add: w32_def)
    then show "m' (w32 a + word_of_nat i) = m (w32 a + word_of_nat i)"
      using assms(1,2) \<open>i < 4\<close> by (auto simp: changed_def)
  qed
  then show ?thesis by (simp add: word_at_def rd32_def)
qed

lemma word_at_put [simp]: "word_at (put_at m a v) a = v"
  by (simp add: word_at_def put_at_def)

lemma word_at_put_other: "a + 4 \<le> b \<or> b + 4 \<le> a \<Longrightarrow> a + 4 \<le> 2 ^ 32 \<Longrightarrow> b + 4 \<le> 2 ^ 32 \<Longrightarrow> word_at (put_at m b v) a = word_at m a"
  by (rule word_at_changed [OF changed_put [of b b "b + 4"]]) auto

section \<open>Headers and footers\<close>

definition tag :: "nat \<Rightarrow> bool \<Rightarrow> u32" where
  "tag z al = PACK (w32 z) (of_bool al)"

lemma tag_read:
  assumes "8 dvd z" and "z < 2 ^ 32"
  shows "tag z al AND NOT 7 = w32 z" and "tag z al AND 1 = of_bool al"
proof -
  obtain k where k: "z = 8 * k" using assms(1) by blast
  then have w: "w32 z = push_bit 3 (word_of_nat k)" by (simp add: push_bit_eq_mult w32_def)
  have 7: "(7 :: u32) = mask 3" by (simp add: mask_numeral)
  have "bit (7 :: u32) i \<longleftrightarrow> i < 3" for i unfolding 7 by (auto simp: bit_mask_iff)
  then obtain M :: u32 where M: "7 = M" "\<And>i. bit M i \<longleftrightarrow> i < 3" by blast
  show "tag z al AND NOT 7 = w32 z"
    unfolding tag_def PACK_def w M(1) by (rule bit_eqI) (auto simp: bit_simps M(2) bit_1_iff)
  show "tag z al AND 1 = of_bool al"
    unfolding tag_def PACK_def w by (rule bit_eqI) (auto simp: bit_simps bit_1_iff)
qed

text \<open>The words from \<open>lo\<close> up to \<open>hi\<close> can be accessed.\<close>

definition granted :: "mm_st \<Rightarrow> nat \<Rightarrow> nat \<Rightarrow> bool" where
  "granted s lo hi \<longleftrightarrow> hi < 2 ^ 32 \<and> (\<forall>p. lo \<le> p \<longrightarrow> p + 4 \<le> hi \<longrightarrow> 4 dvd p \<longrightarrow> accessible s 4 (w32 p))"

lemma granted_mem [simp]: "granted (s\<lparr>mm_mem := m\<rparr>) lo hi = granted s lo hi"
  by (simp add: granted_def accessible_def)

lemma granted_word: "granted s lo hi \<Longrightarrow> lo \<le> p \<Longrightarrow> p + 4 \<le> hi \<Longrightarrow> 4 dvd p \<Longrightarrow> accessible s 4 (w32 p)"
  by (simp add: granted_def)

lemma GET_at: "accessible s 4 (w32 p) \<Longrightarrow> GET (w32 p) s = Inr (word_at (mm_mem s) p)"
  by (simp add: GET_def word_at_def)

lemma PUT_at: "accessible s 4 (w32 p) \<Longrightarrow> PUT (w32 p) v s = Inr (s\<lparr>mm_mem := put_at (mm_mem s) p v\<rparr>)"
  by (simp add: PUT_def put_at_def)

text \<open>A word that holds a tag can be read and replaced.\<close>

definition tagged :: "mm_st \<Rightarrow> nat \<Rightarrow> nat \<Rightarrow> bool \<Rightarrow> bool" where
  "tagged s p z al \<longleftrightarrow> accessible s 4 (w32 p) \<and> 8 dvd z \<and> z < 2 ^ 31 \<and> word_at (mm_mem s) p = tag z al"

lemma tagged_read:
  assumes "tagged s p z al"
  shows "GET_SIZE (w32 p) s = Inr (w32 z)" and "GET_ALLOC (w32 p) s = Inr (of_bool al)"
  using assms tag_read [of z al] by (simp_all add: tagged_def GET_SIZE_def GET_ALLOC_def GET_at)

lemma HDRP_at: "4 \<le> a \<Longrightarrow> HDRP (w32 a) = w32 (a - 4)"
  unfolding HDRP_def by (rule w32_minus_numeral)

lemma block_pointers:
  assumes "tagged s (a - 4) z al" and "8 \<le> a"
  shows "GET_SIZE (HDRP (w32 a)) s = Inr (w32 z)" "GET_ALLOC (HDRP (w32 a)) s = Inr (of_bool al)"
    "FTRP (w32 a) s = Inr (w32 (a + z - 8))" "NEXT_BLKP (w32 a) s = Inr (w32 (a + z))"
    "put_ftr (w32 a) v s = PUT (w32 (a + z - 8)) v s"
proof -
  note r = tagged_read [OF assms(1)]
  have h: "HDRP (w32 a) = w32 (a - 4)" using assms(2) by (intro HDRP_at) simp
  show hz: "GET_SIZE (HDRP (w32 a)) s = Inr (w32 z)" "GET_ALLOC (HDRP (w32 a)) s = Inr (of_bool al)"
    unfolding h by (rule r)+
  have "w32 a + w32 z - 8 = w32 (a + z - 8)"
    using w32_minus_numeral(2) [of "a + z"] assms(2) by (simp add: w32_add)
  then show f: "FTRP (w32 a) s = Inr (w32 (a + z - 8))" unfolding FTRP_def hz by simp
  show "NEXT_BLKP (w32 a) s = Inr (w32 (a + z))"
    using hz(1) unfolding NEXT_BLKP_def HDRP_def by (simp add: w32_add)
  show "put_ftr (w32 a) v s = PUT (w32 (a + z - 8)) v s" unfolding put_ftr_def f by simp
qed

lemma prev_pointer:
  assumes "tagged s (a - 8) y al" and "8 \<le> a" and "y \<le> a"
  shows "PREV_BLKP (w32 a) s = Inr (w32 (a - y))"
proof -
  have "GET_SIZE (w32 a - 8) s = Inr (w32 y)"
    unfolding w32_minus_numeral(2) [OF assms(2)] by (rule tagged_read [OF assms(1)])
  then show ?thesis unfolding PREV_BLKP_def using w32_minus [OF assms(3)] by simp
qed

lemma put_hdr_at: "4 \<le> a \<Longrightarrow> put_hdr (w32 a) v s = PUT (w32 (a - 4)) v s"
  by (simp only: put_hdr_def HDRP_at)

section \<open>Blocks one behind the other\<close>

text \<open>Blocks are sizes and allocated bits; \<open>a\<close> is the address of the first block behind its header.\<close>

type_synonym blocks = "(nat \<times> bool) list"

definition len :: "blocks \<Rightarrow> nat" where
  "len bs = sum_list (map fst bs)"

lemma len_simps [simp]: "len [] = 0" "len (b # bs) = fst b + len bs" "len (us @ vs) = len us + len vs"
  by (simp_all add: len_def)

fun seg :: "bmem \<Rightarrow> nat \<Rightarrow> blocks \<Rightarrow> bool" where
  "seg m a [] \<longleftrightarrow> True"
| "seg m a ((z, al) # bs) \<longleftrightarrow> word_at m (a - 4) = tag z al \<and> word_at m (a + z - 8) = tag z al \<and> seg m (a + z) bs"

lemma seg_append [simp]: "seg m a (us @ vs) \<longleftrightarrow> seg m a us \<and> seg m (a + len us) vs"
  by (induction us arbitrary: a) (auto simp: add.assoc)

definition sizes_ok :: "blocks \<Rightarrow> bool" where
  "sizes_ok bs \<longleftrightarrow> (\<forall>b \<in> set bs. 8 dvd fst b \<and> 8 \<le> fst b)"

lemma sizes_ok_simps [simp]:
  "sizes_ok []" "sizes_ok (b # bs) \<longleftrightarrow> 8 dvd fst b \<and> 8 \<le> fst b \<and> sizes_ok bs" "sizes_ok (us @ vs) \<longleftrightarrow> sizes_ok us \<and> sizes_ok vs"
  by (auto simp: sizes_ok_def)

lemma sizes_ok_dvd: "sizes_ok bs \<Longrightarrow> 8 dvd len bs"
  by (induction bs) auto

text \<open>Changes before or behind the blocks leave them.\<close>

lemma seg_changed:
  assumes "seg m a bs" and "changed lo hi m m'" and "a - 4 + len bs \<le> lo \<or> hi \<le> a - 4"
    and "4 \<le> a" and "a + len bs \<le> 2 ^ 32" and "sizes_ok bs"
  shows "seg m' a bs"
  using assms(1,3-6)
proof (induction bs arbitrary: a)
  case (Cons b bs)
  obtain z al where b: "b = (z, al)" by (cases b)
  have "word_at m' (a - 4) = word_at m (a - 4)" "word_at m' (a + z - 8) = word_at m (a + z - 8)"
    using Cons.prems b by (intro word_at_changed [OF assms(2)]; simp; linarith)+
  moreover have "seg m' (a + z) bs"
    using Cons.prems b by (intro Cons.IH) (simp_all, linarith)
  ultimately show ?case using Cons.prems(1) b by simp
qed simp

text \<open>The blocks \<open>bs\<close> fill the heap from \<open>hl\<close> up to the epilogue.\<close>

definition heap_at :: "mm_st \<Rightarrow> nat \<Rightarrow> blocks \<Rightarrow> bool" where
  "heap_at s hl bs \<longleftrightarrow> 8 \<le> hl \<and> 8 dvd hl \<and> sizes_ok bs \<and> len bs < 2 ^ 31 \<and> granted s (hl - 8) (hl + len bs) \<and>
     seg (mm_mem s) hl bs \<and> word_at (mm_mem s) (hl + len bs - 4) = tag 0 True"

text \<open>The header that follows some of the blocks.\<close>

definition next_tag :: "blocks \<Rightarrow> nat \<times> bool" where
  "next_tag bs = (case bs of [] \<Rightarrow> (0, True) | b # _ \<Rightarrow> b)"

lemma heap_at_next:
  assumes "heap_at s hl (us @ vs)"
  shows "tagged s (hl + len us - 4) (fst (next_tag vs)) (snd (next_tag vs))"
proof -
  have "8 dvd len us" using assms sizes_ok_dvd by (auto simp: heap_at_def)
  then have "4 dvd hl + len us - 4" using assms by (auto simp: heap_at_def elim!: dvdE)
  then have "accessible s 4 (w32 (hl + len us - 4))"
    using assms by (intro granted_word [of s "hl - 8" "hl + len (us @ vs)"]) (auto simp: heap_at_def)
  then show ?thesis
    using assms by (cases vs) (auto simp: heap_at_def tagged_def next_tag_def ac_simps)
qed

lemma heap_at_block:
  assumes "heap_at s hl (us @ (z, al) # vs)"
  shows "tagged s (hl + len us - 4) z al" and "tagged s (hl + len us + z - 8) z al" and "tagged s (hl + len us + z - 4) (fst (next_tag vs)) (snd (next_tag vs))"
    and "8 \<le> hl + len us" and "hl + len us + z < 2 ^ 32"
proof -
  show "tagged s (hl + len us - 4) z al" using heap_at_next [OF assms] by (simp add: next_tag_def)
  have "8 dvd len us" using assms sizes_ok_dvd by (auto simp: heap_at_def)
  then have "4 dvd hl + len us + z - 8" using assms by (auto simp: heap_at_def elim!: dvdE)
  then have "accessible s 4 (w32 (hl + len us + z - 8))"
    using assms by (intro granted_word [of s "hl - 8" "hl + len (us @ (z, al) # vs)"]) (auto simp: heap_at_def)
  then show "tagged s (hl + len us + z - 8) z al" using assms by (simp add: tagged_def heap_at_def)
  show "tagged s (hl + len us + z - 4) (fst (next_tag vs)) (snd (next_tag vs))"
    using heap_at_next [of s hl "us @ [(z, al)]" vs] assms by (simp add: add.assoc)
  show "8 \<le> hl + len us" "hl + len us + z < 2 ^ 32" using assms by (simp_all add: heap_at_def granted_def)
qed

text \<open>Replacing consecutive blocks by others of the same length, with changes only within them.\<close>

lemma heap_at_replace:
  assumes "heap_at s hl (us @ ws @ vs)" and "changed (hl + len us - 4) (hl + len us + len ws - 4) (mm_mem s) m'"
    and "seg m' (hl + len us) ws'" and "len ws' = len ws" and "sizes_ok ws'"
  shows "heap_at (s\<lparr>mm_mem := m'\<rparr>) hl (us @ ws' @ vs)"
proof -
  have "seg m' hl us" using assms(1) by (intro seg_changed [OF _ assms(2)]) (auto simp: heap_at_def granted_def)
  moreover have "seg m' (hl + len us + len ws) vs" using assms(1) by (intro seg_changed [OF _ assms(2)]) (auto simp: heap_at_def granted_def)
  moreover have "word_at m' (hl + len (us @ ws @ vs) - 4) = word_at (mm_mem s) (hl + len (us @ ws @ vs) - 4)"
    using assms(1) by (intro word_at_changed [OF assms(2)]) (auto simp: heap_at_def granted_def)
  ultimately show ?thesis using assms by (simp add: heap_at_def add.assoc)
qed

lemma accessible_mem [simp]: "accessible (s\<lparr>mm_mem := m\<rparr>) n p = accessible s n p"
  by (simp add: accessible_def)

lemma PACK_tag: "PACK (w32 z) 0 = tag z False" "PACK (w32 z) 1 = tag z True"
  by (simp_all add: tag_def)

lemma PUT_tag:
  "accessible s 4 (w32 p) \<Longrightarrow> PUT (w32 p) v (s\<lparr>mm_mem := m\<rparr>) = Inr (s\<lparr>mm_mem := put_at m p v\<rparr>)"
  by (simp add: PUT_at)

lemma tagged_put:
  "accessible s 4 (w32 p) \<Longrightarrow> 8 dvd z \<Longrightarrow> z < 2 ^ 31 \<Longrightarrow> tagged (s\<lparr>mm_mem := put_at m p (tag z al)\<rparr>) p z al"
  by (simp add: tagged_def)

lemma tagged_put_other:
  "tagged (s\<lparr>mm_mem := m\<rparr>) q z al \<Longrightarrow> q + 4 \<le> p \<or> p + 4 \<le> q \<Longrightarrow> p + 4 \<le> 2 ^ 32 \<Longrightarrow> q + 4 \<le> 2 ^ 32 \<Longrightarrow>
   tagged (s\<lparr>mm_mem := put_at m p v\<rparr>) q z al"
  by (simp add: tagged_def word_at_put_other)

section \<open>\<open>place\<close>\<close>

definition split_block :: "nat \<Rightarrow> nat \<Rightarrow> blocks" where
  "split_block z asize = (if 16 \<le> z - asize then [(asize, True), (z - asize, False)] else [(z, True)])"

lemma heap_at_words:
  assumes "heap_at s hl (us @ (z, al) # vs)" and "8 dvd k" and "k \<le> z"
  shows "accessible s 4 (w32 (hl + len us + k - 4))" and "8 \<le> k \<Longrightarrow> accessible s 4 (w32 (hl + len us + k - 8))"
proof -
  have "8 dvd len us" using assms sizes_ok_dvd by (auto simp: heap_at_def)
  then have "4 dvd hl + len us + k - 4" "4 dvd hl + len us + k - 8" using assms by (auto simp: heap_at_def elim!: dvdE)
  then show "accessible s 4 (w32 (hl + len us + k - 4))" "8 \<le> k \<Longrightarrow> accessible s 4 (w32 (hl + len us + k - 8))"
    using assms by (auto intro!: granted_word [of s "hl - 8" "hl + len (us @ (z, al) # vs)"] simp: heap_at_def)
qed

text \<open>A block that is taken as a whole.\<close>

lemma place_whole:
  assumes "heap_at s hl (us @ (z, al) # vs)" and "\<not> 16 \<le> sint (w32 z - asize)" and "16 \<le> z"
  shows "\<exists>m'. place (w32 (hl + len us)) asize s = Inr (s\<lparr>mm_mem := m'\<rparr>) \<and>
    heap_at (s\<lparr>mm_mem := m'\<rparr>) hl (us @ [(z, True)] @ vs) \<and> changed (hl + len us - 4) (hl + len us + z - 4) (mm_mem s) m'"
proof -
  define a where "a = hl + len us"
  define m1 where "m1 = put_at (mm_mem s) (a - 4) (tag z True)"
  define m2 where "m2 = put_at m1 (a + z - 8) (tag z True)"
  note b = heap_at_block [OF assms(1), folded a_def]
  have z: "8 dvd z" "z < 2 ^ 31" using assms(1) by (auto simp: heap_at_def)
  obtain c where c: "a = c + 8" using b(4) le_Suc_ex by (metis add.commute)
  have acc: "accessible s 4 (w32 (a - 4))" "accessible s 4 (w32 (a + z - 8))" using b(1,2) by (simp_all add: tagged_def)
  have t1: "tagged (s\<lparr>mm_mem := m1\<rparr>) (a - 4) z True" unfolding m1_def using acc z by (intro tagged_put) auto
  have "place (w32 a) asize s = Inr (s\<lparr>mm_mem := m2\<rparr>)"
    using assms(2) b(4) acc block_pointers(1) [OF b(1,4)] block_pointers(5) [OF t1 b(4)]
    by (simp add: place_def PACK_tag put_hdr_at PUT_at PUT_tag m1_def [symmetric] m2_def [symmetric])
  moreover have cg: "changed (a - 4) (a + z - 4) (mm_mem s) m2"
    unfolding m2_def m1_def using b(4,5) assms(3) by (intro changed_trans [OF _ changed_put] changed_refl) auto
  moreover have "seg m2 a [(z, True)]" unfolding m2_def m1_def using b(5) assms(3) by (simp add: c word_at_put_other)
  moreover have "heap_at (s\<lparr>mm_mem := m2\<rparr>) hl (us @ [(z, True)] @ vs)"
    using heap_at_replace [of s hl us "[(z, al)]" vs m2 "[(z, True)]"] assms calculation z by (simp add: a_def)
  ultimately show ?thesis unfolding a_def by blast
qed

lemma place_blocks:
  assumes "heap_at s hl (us @ (z, al) # vs)" and "8 dvd asize" and "16 \<le> asize" and "asize \<le> z"
  shows "\<exists>m'. place (w32 (hl + len us)) (w32 asize) s = Inr (s\<lparr>mm_mem := m'\<rparr>) \<and>
    heap_at (s\<lparr>mm_mem := m'\<rparr>) hl (us @ split_block z asize @ vs) \<and> changed (hl + len us - 4) (hl + len us + z - 4) (mm_mem s) m'"
proof -
  define a where "a = hl + len us"
  define m where "m = mm_mem s"
  have z: "8 dvd z" "z < 2 ^ 31" and a: "8 \<le> a" "a + z < 2 ^ 32" using assms(1) by (auto simp: heap_at_def a_def granted_def)
  obtain b where b: "a = b + 8" using a(1) le_Suc_ex by (metis add.commute)
  obtain k where k: "z = asize + k" using assms(4) le_Suc_ex by blast
  have t: "tagged (s\<lparr>mm_mem := m\<rparr>) (a - 4) z al" using heap_at_block(1) [OF assms(1)] by (simp add: a_def m_def)
  have acc: "accessible s 4 (w32 (a - 4))" "accessible s 4 (w32 (a + asize - 8))"
    "accessible s 4 (w32 (a + asize - 4))" "accessible s 4 (w32 (a + z - 8))"
    using heap_at_words [OF assms(1)] assms(2-4) z heap_at_words(1) [OF assms(1), of 0] by (simp_all add: a_def)
  have d: "w32 z - w32 asize = w32 (z - asize)" by (rule w32_minus [OF assms(4)])
  have "sint (w32 (z - asize)) = int (z - asize)" using z by (intro sint_w32) simp
  then have sd: "16 \<le> sint (w32 (z - asize)) \<longleftrightarrow> 16 \<le> z - asize" by linarith
  have cs: "GET_SIZE (HDRP (w32 a)) (s\<lparr>mm_mem := m\<rparr>) = Inr (w32 z)" by (rule block_pointers [OF t a(1)])
  show ?thesis
  proof (cases "16 \<le> z - asize")
    case True
    define m1 where "m1 = put_at m (a - 4) (tag asize True)"
    define m2 where "m2 = put_at m1 (a + asize - 8) (tag asize True)"
    define m3 where "m3 = put_at m2 (a + asize - 4) (tag (z - asize) False)"
    define m4 where "m4 = put_at m3 (a + z - 8) (tag (z - asize) False)"
    have r: "8 dvd z - asize" using z(1) assms(2) by (rule dvd_diff_nat)
    have t1: "tagged (s\<lparr>mm_mem := m1\<rparr>) (a - 4) asize True" unfolding m1_def using acc assms z by (intro tagged_put) auto
    have t2: "tagged (s\<lparr>mm_mem := m2\<rparr>) (a - 4) asize True" unfolding m2_def using t1 assms(3,4) a by (intro tagged_put_other) auto
    have t3: "tagged (s\<lparr>mm_mem := m3\<rparr>) (a + asize - 4) (z - asize) False"
      unfolding m3_def using acc r z by (intro tagged_put) auto
    have e: "place (w32 a) (w32 asize) (s\<lparr>mm_mem := m\<rparr>) = Inr (s\<lparr>mm_mem := m4\<rparr>)"
      using cs True sd a acc block_pointers(5) [OF t1 a(1)] block_pointers(4) [OF t2 a(1)] block_pointers(5) [OF t3] assms(3,4)
      by (simp add: place_def d PACK_tag put_hdr_at PUT_tag m1_def [symmetric] m2_def [symmetric] m3_def [symmetric] m4_def [symmetric])
    have c: "changed (a - 4) (a + z - 4) m m4"
      unfolding m4_def m3_def m2_def m1_def using a assms(3,4) True
      by (intro changed_trans [OF _ changed_put] changed_refl) auto
    have "seg m4 a (split_block z asize)"
      unfolding m4_def m3_def m2_def m1_def using a(2) assms(3) True by (simp add: b k split_block_def word_at_put_other)
    then have "heap_at (s\<lparr>mm_mem := m4\<rparr>) hl (us @ split_block z asize @ vs)"
      using heap_at_replace [of s hl us "[(z, al)]" vs m4 "split_block z asize"] assms c r True
      by (simp add: a_def m_def split_block_def)
    then show ?thesis using e c by (auto simp: a_def m_def)
  next
    case False
    then have "split_block z asize = [(z, True)]" by (simp add: split_block_def)
    then show ?thesis using place_whole [OF assms(1), of "w32 asize"] False sd d assms(3,4) by simp
  qed
qed

section \<open>\<open>coalesce\<close>\<close>

text \<open>A free block at the end of some blocks, and at their start.\<close>

definition free_last :: "blocks \<Rightarrow> blocks \<times> nat" where
  "free_last us = (if us \<noteq> [] \<and> \<not> snd (last us) then (butlast us, fst (last us)) else (us, 0))"

definition free_first :: "blocks \<Rightarrow> blocks \<times> nat" where
  "free_first vs = (case vs of (x, False) # ws \<Rightarrow> (ws, x) | _ \<Rightarrow> (vs, 0))"

text \<open>The blocks after the merge of a free block of size \<open>z\<close> with its free neighbours.\<close>

definition merged :: "blocks \<Rightarrow> nat \<Rightarrow> blocks \<Rightarrow> blocks" where
  "merged us z vs = fst (free_last us) @ (snd (free_last us) + z + snd (free_first vs), False) # fst (free_first vs)"

text \<open>What \<open>coalesce\<close> leaves, for a block at \<open>a\<close>.\<close>

definition coalesced :: "mm_st \<Rightarrow> nat \<Rightarrow> blocks \<Rightarrow> nat \<Rightarrow> blocks \<Rightarrow> bool" where
  "coalesced s hl us z vs \<longleftrightarrow>
     (let b = hl + len (fst (free_last us)) in
      \<exists>m'. coalesce (w32 (hl + len us)) s = Inr (s\<lparr>mm_mem := m'\<rparr>, w32 b) \<and> heap_at (s\<lparr>mm_mem := m'\<rparr>) hl (merged us z vs) \<and>
        changed (b - 4) (b + (snd (free_last us) + z + snd (free_first vs)) - 4) (mm_mem s) m')"

text \<open>The words that \<open>coalesce\<close> reads first.\<close>

lemma coalesce_reads:
  assumes "heap_at s hl (us @ (y, pa) # (z, False) # vs)" and "b = hl + len us"
  shows "PREV_BLKP (w32 (b + y)) s = Inr (w32 b)" "FTRP (w32 b) s = Inr (w32 (b + y - 8))" "GET_ALLOC (w32 (b + y - 8)) s = Inr (of_bool pa)"
    "NEXT_BLKP (w32 (b + y)) s = Inr (w32 (b + y + z))" "GET_ALLOC (HDRP (w32 (b + y + z))) s = Inr (of_bool (snd (next_tag vs)))"
    "GET_SIZE (HDRP (w32 (b + y))) s = Inr (w32 z)" "GET_SIZE (HDRP (w32 b)) s = Inr (w32 y)"
    "GET_SIZE (HDRP (w32 (b + y + z))) s = Inr (w32 (fst (next_tag vs)))"
proof -
  note p = heap_at_block [OF assms(1), folded assms(2)]
  have q: "heap_at s hl ((us @ [(y, pa)]) @ (z, False) # vs)" using assms(1) by simp
  have bq: "hl + len (us @ [(y, pa)]) = b + y" using assms(2) by simp
  note r = heap_at_block [OF q, unfolded bq]
  show "PREV_BLKP (w32 (b + y)) s = Inr (w32 b)" using prev_pointer [of s "b + y" y pa] p r(4) by simp
  show "FTRP (w32 b) s = Inr (w32 (b + y - 8))" "GET_SIZE (HDRP (w32 b)) s = Inr (w32 y)" by (rule block_pointers [OF p(1,4)])+
  show "GET_ALLOC (w32 (b + y - 8)) s = Inr (of_bool pa)" by (rule tagged_read [OF p(2)])
  show "NEXT_BLKP (w32 (b + y)) s = Inr (w32 (b + y + z))" "GET_SIZE (HDRP (w32 (b + y))) s = Inr (w32 z)"
    by (rule block_pointers [OF r(1,4)])+
  have "8 \<le> b + y + z" using r(4) by simp
  then show "GET_ALLOC (HDRP (w32 (b + y + z))) s = Inr (of_bool (snd (next_tag vs)))"
    "GET_SIZE (HDRP (w32 (b + y + z))) s = Inr (w32 (fst (next_tag vs)))"
    by (rule block_pointers [OF r(3)])+
qed

lemma coalesce_none:
  assumes "heap_at s hl (us @ (y, True) # (z, False) # vs)" and "snd (next_tag vs)"
  shows "coalesced s hl (us @ [(y, True)]) z vs"
proof -
  note r = coalesce_reads [OF assms(1) refl]
  have f: "free_first vs = (vs, 0)" using assms(2) by (auto simp: free_first_def next_tag_def split: list.splits bool.splits)
  have "coalesce (w32 (hl + len us + y)) s = Inr (s, w32 (hl + len us + y))" using assms(2) by (simp add: coalesce_def r)
  then have "coalesce (w32 (hl + len (us @ [(y, True)]))) s = Inr (s\<lparr>mm_mem := mm_mem s\<rparr>, w32 (hl + len (us @ [(y, True)])))"
    by (simp add: add.assoc)
  then show ?thesis
    using assms(1) unfolding coalesced_def merged_def Let_def f
    by (intro exI [of _ "mm_mem s"]) (simp add: free_last_def changed_refl)
qed

lemma coalesce_next:
  assumes "heap_at s hl (us @ (y, True) # (z, False) # (x, False) # vs)"
  shows "coalesced s hl (us @ [(y, True)]) z ((x, False) # vs)"
proof -
  define a where "a = hl + len us + y"
  define m1 where "m1 = put_at (mm_mem s) (a - 4) (tag (z + x) False)"
  define m2 where "m2 = put_at m1 (a + (z + x) - 8) (tag (z + x) False)"
  note r = coalesce_reads [OF assms refl, folded a_def, unfolded next_tag_def, simplified]
  have z: "8 dvd z + x" "z + x < 2 ^ 31" "16 \<le> z + x" and a: "8 \<le> a" "a + (z + x) < 2 ^ 32"
    using assms by (auto simp: heap_at_def a_def granted_def)
  obtain b where b: "a = b + 8" using a(1) le_Suc_ex by (metis add.commute)
  have h: "heap_at s hl ((us @ [(y, True), (z, False)]) @ (x, False) # vs)" "heap_at s hl ((us @ [(y, True)]) @ (z, False) # (x, False) # vs)"
    using assms by simp_all
  have acc: "accessible s 4 (w32 (a - 4))" "accessible s 4 (w32 (a + (z + x) - 8))"
    using heap_at_words(1) [OF h(2), of 0] heap_at_block(2) [OF h(1)] by (simp_all add: a_def tagged_def ac_simps)
  have t1: "tagged (s\<lparr>mm_mem := m1\<rparr>) (a - 4) (z + x) False" unfolding m1_def using acc z by (intro tagged_put) auto
  have "coalesce (w32 a) s = Inr (s\<lparr>mm_mem := m2\<rparr>, w32 a)"
    using a acc block_pointers(5) [OF t1 a(1)]
    by (simp add: coalesce_def r w32_add PACK_tag put_hdr_at PUT_tag m1_def [symmetric] m2_def [symmetric] PUT_at)
  moreover have c: "changed (a - 4) (a + (z + x) - 4) (mm_mem s) m2"
    unfolding m2_def m1_def using a z by (intro changed_trans [OF _ changed_put] changed_refl) auto
  moreover have "seg m2 a [(z + x, False)]" unfolding m2_def m1_def using a(2) z(3) by (simp add: b word_at_put_other)
  ultimately show ?thesis
    using heap_at_replace [of s hl "us @ [(y, True)]" "[(z, False), (x, False)]" vs m2 "[(z + x, False)]"] assms z(1,3)
    unfolding coalesced_def merged_def Let_def by (intro exI [of _ m2]) (simp add: free_last_def free_first_def a_def add.assoc)
qed

lemma coalesce_prev:
  assumes "heap_at s hl (us @ (y, False) # (z, False) # vs)" and "snd (next_tag vs)"
  shows "coalesced s hl (us @ [(y, False)]) z vs"
proof -
  define b where "b = hl + len us"
  define m1 where "m1 = put_at (mm_mem s) (b + y + z - 8) (tag (z + y) False)"
  define m2 where "m2 = put_at m1 (b - 4) (tag (z + y) False)"
  note r = coalesce_reads [OF assms(1) b_def]
  have f: "free_first vs = (vs, 0)" using assms(2) by (auto simp: free_first_def next_tag_def split: list.splits bool.splits)
  have z: "8 dvd z + y" "z + y < 2 ^ 31" "8 \<le> z" "8 \<le> y" and a: "8 \<le> b" "b + y + z < 2 ^ 32"
    using assms by (auto simp: heap_at_def b_def granted_def)
  obtain c where c: "b = c + 8" using a(1) le_Suc_ex by (metis add.commute)
  have h: "heap_at s hl ((us @ [(y, False)]) @ (z, False) # vs)" using assms by simp
  have t: "tagged s (b + y - 4) z False" "tagged s (b + y - 8) y False"
    using heap_at_block(1) [OF h] heap_at_block(2) [OF assms(1)] by (simp_all add: b_def add.assoc)
  have acc: "accessible s 4 (w32 (b - 4))" "accessible s 4 (w32 (b + y + z - 8))"
    using heap_at_block(1) [OF assms(1)] heap_at_block(2) [OF h] by (simp_all add: b_def tagged_def ac_simps)
  have t1: "tagged (s\<lparr>mm_mem := m1\<rparr>) (b + y - 8) y False"
    unfolding m1_def using t(2) a z by (intro tagged_put_other) (auto simp: c)
  have t2: "tagged (s\<lparr>mm_mem := m2\<rparr>) (b + y - 8) y False"
    unfolding m2_def using t1 a z by (intro tagged_put_other) (auto simp: c)
  have "coalesce (w32 (b + y)) s = Inr (s\<lparr>mm_mem := m2\<rparr>, w32 b)"
    using a acc assms(2) block_pointers(5) [of s "b + y" z False] t(1) prev_pointer [OF t1] prev_pointer [OF t2]
    by (simp add: coalesce_def r w32_add PACK_tag put_hdr_at PUT_tag m1_def [symmetric] m2_def [symmetric] PUT_at)
  moreover have cg: "changed (b - 4) (b + (y + z) - 4) (mm_mem s) m2"
    unfolding m2_def m1_def using a z by (intro changed_trans [OF _ changed_put] changed_refl) auto
  moreover have "seg m2 b [(y + z, False)]" unfolding m2_def m1_def using a(2) z(3,4) by (simp add: c word_at_put_other ac_simps)
  ultimately show ?thesis
    using heap_at_replace [of s hl us "[(y, False), (z, False)]" vs m2 "[(y + z, False)]"] assms z(1,3)
    unfolding coalesced_def merged_def Let_def f by (intro exI [of _ m2]) (simp add: free_last_def b_def add.assoc add.commute [of z y])
qed

lemma coalesce_both:
  assumes "heap_at s hl (us @ (y, False) # (z, False) # (x, False) # vs)"
  shows "coalesced s hl (us @ [(y, False)]) z ((x, False) # vs)"
proof -
  define b where "b = hl + len us"
  define t where "t = z + (y + x)"
  define m1 where "m1 = put_at (mm_mem s) (b - 4) (tag t False)"
  define m2 where "m2 = put_at m1 (b + y + z + x - 8) (tag t False)"
  note r = coalesce_reads [OF assms(1) b_def, unfolded next_tag_def, simplified]
  have z: "8 dvd t" "t < 2 ^ 31" "8 \<le> z" "8 \<le> y" "8 \<le> x" and a: "8 \<le> b" "b + y + z + x < 2 ^ 32"
    using assms by (auto simp: heap_at_def b_def granted_def t_def)
  obtain c where c: "b = c + 8" using a(1) le_Suc_ex by (metis add.commute)
  have h: "heap_at s hl ((us @ [(y, False)]) @ (z, False) # (x, False) # vs)" "heap_at s hl ((us @ [(y, False), (z, False)]) @ (x, False) # vs)"
    using assms by simp_all
  have g: "tagged s (b - 4) y False" "tagged s (b + y - 8) y False" "tagged s (b + y - 4) z False" "tagged s (b + y + z - 4) x False" "tagged s (b + y + z + x - 8) x False"
    using heap_at_block(1,2) [OF assms(1)] heap_at_block(1) [OF h(1)] heap_at_block(1,2) [OF h(2)] by (simp_all add: b_def add.assoc)
  have acc: "accessible s 4 (w32 (b - 4))" "accessible s 4 (w32 (b + y + z + x - 8))" using g(1,5) by (simp_all add: tagged_def)
  have t1: "tagged (s\<lparr>mm_mem := m1\<rparr>) (b + y - 4) z False" "tagged (s\<lparr>mm_mem := m1\<rparr>) (b + y + z - 4) x False" "tagged (s\<lparr>mm_mem := m1\<rparr>) (b + y - 8) y False"
    unfolding m1_def using g a z by (auto intro!: tagged_put_other simp: c)
  have t2: "tagged (s\<lparr>mm_mem := m2\<rparr>) (b + y - 8) y False"
    unfolding m2_def using t1(3) a z by (intro tagged_put_other) (auto simp: c)
  have "coalesce (w32 (b + y)) s = Inr (s\<lparr>mm_mem := m2\<rparr>, w32 b)"
    using a acc block_pointers(3) [OF g(4)] tagged_read(1) [OF g(5)] block_pointers(4) [OF t1(1)] block_pointers(5) [OF t1(2)] prev_pointer [OF t2]
    by (simp add: coalesce_def r w32_add PACK_tag put_hdr_at PUT_tag t_def [symmetric] m1_def [symmetric] m2_def [symmetric] PUT_at)
  moreover have cg: "changed (b - 4) (b + t - 4) (mm_mem s) m2"
    unfolding m2_def m1_def using a z by (intro changed_trans [OF _ changed_put] changed_refl) (auto simp: t_def)
  moreover have "seg m2 b [(t, False)]" unfolding m2_def m1_def using a(2) z(3,4,5) by (simp add: c t_def word_at_put_other ac_simps)
  moreover have "y + z + x = t" by (simp add: t_def)
  ultimately show ?thesis
    using heap_at_replace [of s hl us "[(y, False), (z, False), (x, False)]" vs m2 "[(t, False)]"] assms z(1,3)
    unfolding coalesced_def merged_def Let_def
    by (intro exI [of _ m2]) (simp add: free_last_def free_first_def b_def t_def ac_simps)
qed

lemma coalesce_ok:
  assumes "heap_at s hl (us @ (z, False) # vs)" and "us \<noteq> []"
  shows "coalesced s hl us z vs"
proof -
  obtain us' y pa where us: "us = us' @ [(y, pa)]" using assms(2) by (metis rev_exhaust surj_pair)
  then have h: "heap_at s hl (us' @ (y, pa) # (z, False) # vs)" using assms(1) by simp
  show ?thesis
  proof (cases "snd (next_tag vs)")
    case True
    then show ?thesis using coalesce_none [of s hl us' y z vs] coalesce_prev [of s hl us' y z vs] h us by (cases pa) auto
  next
    case False
    then obtain x ws where "vs = (x, False) # ws" by (cases vs) (auto simp: next_tag_def)
    then show ?thesis using coalesce_next [of s hl us' y z x ws] coalesce_both [of s hl us' y z x ws] h us by (cases pa) auto
  qed
qed

section \<open>\<open>find_fit\<close>\<close>

text \<open>The offset of the first free block that is big enough.\<close>

fun fit :: "nat \<Rightarrow> blocks \<Rightarrow> nat option" where
  "fit asize [] = None"
| "fit asize ((z, al) # bs) = (if \<not> al \<and> asize \<le> z then Some 0 else map_option ((+) z) (fit asize bs))"

lemma fit_Some:
  "fit asize bs = Some k \<Longrightarrow> \<exists>us z vs. bs = us @ (z, False) # vs \<and> k = len us \<and> asize \<le> z \<and> fit asize us = None"
proof (induction bs arbitrary: k)
  case (Cons b bs)
  obtain z al where b: "b = (z, al)" by (cases b)
  show ?case
  proof (cases "\<not> al \<and> asize \<le> z")
    case True
    then show ?thesis using Cons.prems b by (intro exI [of _ "[]"] exI [of _ z] exI [of _ bs]) simp
  next
    case False
    then obtain k' where k': "fit asize bs = Some k'" "k = z + k'" using Cons.prems b by (auto split: if_splits)
    then obtain us y vs where "bs = us @ (y, False) # vs \<and> k' = len us \<and> asize \<le> y \<and> fit asize us = None" using Cons.IH by blast
    then show ?thesis using k' b False by (intro exI [of _ "b # us"] exI [of _ y] exI [of _ vs]) auto
  qed
qed simp

lemma find_fit_loop_ok:
  assumes "heap_at s hl (us @ vs)"
  shows "find_fit_loop asize s (w32 (hl + len us)) =
    Some (Inr (case fit (nat (sint asize)) vs of None \<Rightarrow> NULL | Some k \<Rightarrow> w32 (hl + len us + k)))"
  using assms
proof (induction vs arbitrary: us)
  case Nil
  have "8 \<le> hl + len us" using Nil by (simp add: heap_at_def)
  then have "find_fit_round asize s (w32 (hl + len us)) = Inr (Inl NULL)"
    using block_pointers(1) [of s "hl + len us" 0 True] heap_at_next [OF Nil] by (simp add: find_fit_round_def next_tag_def w32_def)
  then show ?case by (subst find_fit_loop.simps) simp
next
  case (Cons b bs)
  obtain z al where b: "b = (z, al)" by (cases b)
  have h: "heap_at s hl (us @ (z, al) # bs)" using Cons.prems b by simp
  note q = heap_at_block [OF h]
  have z: "0 < z" "z < 2 ^ 31" using h by (auto simp: heap_at_def)
  have c: "0 < sint (w32 z)" "sint asize \<le> sint (w32 z) \<longleftrightarrow> nat (sint asize) \<le> z" using z by (simp_all add: sint_w32 nat_le_iff)
  show ?case
  proof (cases "\<not> al \<and> nat (sint asize) \<le> z")
    case True
    then have "find_fit_round asize s (w32 (hl + len us)) = Inr (Inl (w32 (hl + len us)))"
      using block_pointers [OF q(1,4)] c by (simp add: find_fit_round_def)
    then show ?thesis using True b by (subst find_fit_loop.simps) simp
  next
    case False
    then have "find_fit_round asize s (w32 (hl + len us)) = Inr (Inr (w32 (hl + len us + z)))"
      using block_pointers [OF q(1,4)] c by (auto simp: find_fit_round_def)
    moreover have "find_fit_loop asize s (w32 (hl + len us + z)) =
      Some (Inr (case fit (nat (sint asize)) bs of None \<Rightarrow> NULL | Some k \<Rightarrow> w32 (hl + len us + z + k)))"
      using Cons.IH [of "us @ [(z, al)]"] h by (cases "fit (nat (sint asize)) bs") (simp_all add: add.assoc)
    ultimately show ?thesis using False b by (subst find_fit_loop.simps) (auto split: option.splits simp: add.assoc)
  qed
qed

section \<open>The invariant\<close>

definition heap_inv :: "mm_st \<Rightarrow> blocks \<Rightarrow> bool" where
  "heap_inv s bs \<longleftrightarrow>
     (let hl = unat (heap_listp s) in
      heap_at s hl ((8, True) # bs) \<and> (\<forall>b \<in> set bs. 16 \<le> fst b) \<and> successively (\<lambda>b c. snd b \<or> snd c) bs \<and>
      unat (mem_brkp s) = hl + 8 + len bs \<and> mem_brkp s \<le> mem_alloctop s \<and> 4096 dvd unat (mem_alloctop s) \<and>
      granted s (hl - 8) (unat (mem_alloctop s)) \<and> mem_max_addr s = 0xFFFFFFFF)"

text \<open>The addresses and the sizes of the allocated blocks.\<close>

fun allocs :: "nat \<Rightarrow> blocks \<Rightarrow> (nat \<times> nat) list" where
  "allocs a [] = []"
| "allocs a ((z, al) # bs) = (if al then [(a, z)] else []) @ allocs (a + z) bs"

definition chunks :: "mm_st \<Rightarrow> blocks \<Rightarrow> (nat \<times> nat) set" where
  "chunks s bs = set (allocs (unat (heap_listp s) + 8) bs)"

text \<open>The bytes of a chunk, its header and footer included.\<close>

definition chunk_span :: "nat \<times> nat \<Rightarrow> nat set" where
  "chunk_span c = {fst c - 4 ..< fst c + snd c - 4}"

lemma allocs_append [simp]: "allocs a (us @ vs) = allocs a us @ allocs (a + len us) vs"
  by (induction a us rule: allocs.induct) (auto simp: add.assoc)

lemma allocs_bounds: "c \<in> set (allocs a bs) \<Longrightarrow> a \<le> fst c \<and> fst c + snd c \<le> a + len bs"
  by (induction a bs rule: allocs.induct) (auto split: if_splits)

lemma allocs_split:
  "(q, z) \<in> set (allocs a bs) \<Longrightarrow> \<exists>us vs. bs = us @ (z, True) # vs \<and> q = a + len us"
proof (induction a bs rule: allocs.induct)
  case (2 a y al bs)
  show ?case
  proof (cases "al \<and> (q, z) = (a, y)")
    case True
    then show ?thesis by (intro exI [of _ "[]"] exI [of _ bs]) simp
  next
    case False
    then have "(q, z) \<in> set (allocs (a + y) bs)" using 2(2) by (auto split: if_splits)
    then obtain us vs where "bs = us @ (z, True) # vs \<and> q = a + y + len us" using 2(1) by blast
    then show ?thesis by (intro exI [of _ "(y, al) # us"] exI [of _ vs]) simp
  qed
qed simp

text \<open>Changes within one stretch of blocks that are not allocated leave the chunks before and behind it as they are.\<close>

lemma chunks_kept:
  assumes "changed (a + len us - 4) (a + len us + len ws - 4) m m'" and "c \<in> set (allocs a us) \<union> set (allocs (a + len us + len ws) vs)"
    and "unat x \<in> chunk_span c"
  shows "m' x = m x"
proof -
  have "unat x < a + len us - 4 \<or> a + len us + len ws - 4 \<le> unat x"
    using assms(2,3) allocs_bounds [of c a us] allocs_bounds [of c "a + len us + len ws" vs] by (auto simp: chunk_span_def)
  then show ?thesis using assms(1) by (auto simp: changed_def)
qed

lemma chunks_apart:
  assumes "c \<in> set (allocs a us) \<union> set (allocs (a + len us + z) vs)" and "8 \<le> a" and "y \<le> z"
  shows "chunk_span c \<inter> chunk_span (a + len us, y) = {}"
  using assms allocs_bounds [of c a us] allocs_bounds [of c "a + len us + z" vs] by (auto simp: chunk_span_def)

section \<open>\<open>mm_free\<close>\<close>

lemma successively_merge:
  assumes "successively (\<lambda>b c. snd b \<or> snd c) (us @ (z, al) # vs)" and "16 \<le> z" and "\<forall>b \<in> set (us @ vs). 16 \<le> fst b"
  shows "successively (\<lambda>b c. snd b \<or> snd c) (merged us z vs)" and "\<forall>b \<in> set (merged us z vs). 16 \<le> fst b"
proof -
  obtain us' y where u: "free_last us = (us', y)" by (cases "free_last us")
  obtain vs' x where v: "free_first vs = (vs', x)" by (cases "free_first vs")
  have "successively (\<lambda>b c. snd b \<or> snd c) (us' @ [(k, False)]) \<and> set us' \<subseteq> set us" for k
    using u assms(1) by (cases us rule: rev_cases) (auto simp: free_last_def successively_append_iff last_append split: if_splits)
  moreover have "successively (\<lambda>b c. snd b \<or> snd c) ((k, False) # vs') \<and> set vs' \<subseteq> set vs" for k
    using v assms(1) by (cases vs) (auto simp: free_first_def successively_append_iff successively_Cons split: bool.splits)
  ultimately show "successively (\<lambda>b c. snd b \<or> snd c) (merged us z vs)" "\<forall>b \<in> set (merged us z vs). 16 \<le> fst b"
    using assms(2,3) u v by (auto simp: merged_def successively_append_iff successively_Cons)
qed

lemma free_last_Cons: "free_last ((8, True) # us) = ((8, True) # fst (free_last us), snd (free_last us))"
  by (simp add: free_last_def)

lemma merged_parts:
  shows "merged ((8, True) # us) z vs = (8, True) # merged us z vs"
    and "allocs a (merged us z vs) = allocs a us @ allocs (a + len us + z) vs"
    and "len (merged us z vs) = len us + z + len vs"
    and "len (fst (free_last us)) + snd (free_last us) = len us"
    and "allocs a (fst (free_last us)) = allocs a us"
    and "len (fst (free_first vs)) + snd (free_first vs) = len vs"
    and "allocs (b + snd (free_first vs)) (fst (free_first vs)) = allocs b vs"
proof -
  show u: "len (fst (free_last us)) + snd (free_last us) = len us" "allocs a (fst (free_last us)) = allocs a us" for a
    by (cases us rule: rev_cases, auto simp: free_last_def)+
  show v: "len (fst (free_first vs)) + snd (free_first vs) = len vs" "allocs (b + snd (free_first vs)) (fst (free_first vs)) = allocs b vs" for b
    by (cases vs, auto simp: free_first_def split: bool.splits)+
  show "merged ((8, True) # us) z vs = (8, True) # merged us z vs" by (simp add: merged_def free_last_Cons)
  show "len (merged us z vs) = len us + z + len vs" using u(1) v(1) by (simp add: merged_def)
  have "a + (len (fst (free_last us)) + (snd (free_last us) + z + snd (free_first vs))) = (a + len us + z) + snd (free_first vs)"
    using u(1) by simp
  then have "allocs (a + (len (fst (free_last us)) + (snd (free_last us) + z + snd (free_first vs)))) (fst (free_first vs)) = allocs (a + len us + z) vs"
    using v(2) [of "a + len us + z"] by (simp only:)
  then show "allocs a (merged us z vs) = allocs a us @ allocs (a + len us + z) vs"
    by (simp add: merged_def u(2) add.assoc)
qed

text \<open>The invariant only looks at the memory and at the boundaries.\<close>

lemma heap_inv_mem:
  assumes "heap_inv s bs" and "heap_at (s\<lparr>mm_mem := m'\<rparr>) (unat (heap_listp s)) ((8, True) # bs')" and "len bs' = len bs"
    and "\<forall>b \<in> set bs'. 16 \<le> fst b" and "successively (\<lambda>b c. snd b \<or> snd c) bs'"
  shows "heap_inv (s\<lparr>mm_mem := m'\<rparr>) bs'"
  using assms by (simp add: heap_inv_def Let_def)

text \<open>The merge in terms of the chunks.\<close>

lemma coalesce_inv:
  assumes "heap_at s hl ((8, True) # us @ (z, False) # vs)"
  shows "\<exists>m' r. coalesce (w32 (hl + 8 + len us)) s = Inr (s\<lparr>mm_mem := m'\<rparr>, r) \<and>
    heap_at (s\<lparr>mm_mem := m'\<rparr>) hl ((8, True) # merged us z vs) \<and> r = w32 (hl + 8 + len (fst (free_last us))) \<and>
    (\<forall>c \<in> set (allocs (hl + 8) us) \<union> set (allocs (hl + 8 + len us + z) vs). \<forall>x. unat x \<in> chunk_span c \<longrightarrow> m' x = mm_mem s x)"
proof -
  define u where "u = fst (free_last us)"
  define t where "t = snd (free_last us) + z + snd (free_first vs)"
  note p = merged_parts
  obtain m' where m': "coalesce (w32 (hl + 8 + len us)) s = Inr (s\<lparr>mm_mem := m'\<rparr>, w32 (hl + 8 + len u))"
    "heap_at (s\<lparr>mm_mem := m'\<rparr>) hl ((8, True) # merged us z vs)" "changed (hl + 8 + len u - 4) (hl + 8 + len u + t - 4) (mm_mem s) m'"
    using coalesce_ok [of s hl "(8, True) # us" z vs] assms
    by (auto simp: coalesced_def free_last_Cons p(1) Let_def u_def t_def add.assoc)
  have e: "hl + 8 + len u + t = hl + 8 + len us + z + snd (free_first vs)" using p(4) by (simp add: u_def t_def)
  have al: "allocs (hl + 8 + len u + t) (fst (free_first vs)) = allocs (hl + 8 + len us + z) vs" unfolding e by (rule p(7))
  have "m' x = mm_mem s x" if "c \<in> set (allocs (hl + 8) us) \<union> set (allocs (hl + 8 + len us + z) vs)" "unat x \<in> chunk_span c" for c x
    using that p(5) [of "hl + 8" us] m'(3) al
    by (intro chunks_kept [of "hl + 8" u "[(t, False)]" "mm_mem s" m' c "fst (free_first vs)" x]) (simp_all add: u_def)
  then show ?thesis using m'(1,2) by (intro exI [of _ m'] exI [of _ "w32 (hl + 8 + len u)"]) (simp add: u_def)
qed

lemma mm_free_ok:
  assumes "heap_inv s bs" and "(q, z) \<in> chunks s bs"
  shows "\<exists>m' bs'. mm_free (w32 q) s = Inr (s\<lparr>mm_mem := m'\<rparr>) \<and> heap_inv (s\<lparr>mm_mem := m'\<rparr>) bs' \<and> len bs' = len bs \<and>
    chunks (s\<lparr>mm_mem := m'\<rparr>) bs' = chunks s bs - {(q, z)} \<and>
    (\<forall>c \<in> chunks s bs - {(q, z)}. \<forall>x. unat x \<in> chunk_span c \<longrightarrow> m' x = mm_mem s x)"
proof -
  define hl where "hl = unat (heap_listp s)"
  obtain us vs where bs: "bs = us @ (z, True) # vs" and q: "q = hl + 8 + len us"
    using allocs_split assms(2) unfolding chunks_def hl_def by blast
  have h: "heap_at s hl ((8, True) # us @ (z, True) # vs)" "\<forall>b \<in> set bs. 16 \<le> fst b" "successively (\<lambda>b c. snd b \<or> snd c) bs"
    using assms(1) bs by (auto simp: heap_inv_def hl_def Let_def)
  define m1 where "m1 = put_at (mm_mem s) (q - 4) (tag z False)"
  define m2 where "m2 = put_at m1 (q + z - 8) (tag z False)"
  have h': "heap_at s hl (((8, True) # us) @ (z, True) # vs)" "hl + len ((8, True) # us) = q" using h q by simp_all
  note b = heap_at_block [OF h'(1), unfolded h'(2)]
  have z: "8 dvd z" "z < 2 ^ 31" "16 \<le> z" using h bs by (auto simp: heap_at_def)
  obtain c where c: "q = c + 8" using b(4) le_Suc_ex by (metis add.commute)
  have acc: "accessible s 4 (w32 (q - 4))" "accessible s 4 (w32 (q + z - 8))" using b(1,2) by (simp_all add: tagged_def)
  have t1: "tagged (s\<lparr>mm_mem := m1\<rparr>) (q - 4) z False" unfolding m1_def using acc z by (intro tagged_put) auto
  have cg: "changed (q - 4) (q + z - 4) (mm_mem s) m2"
    unfolding m2_def m1_def using b(4,5) z by (intro changed_trans [OF _ changed_put] changed_refl) auto
  have "seg m2 q [(z, False)]" unfolding m2_def m1_def using b(5) z(3) by (simp add: c word_at_put_other)
  then have h2: "heap_at (s\<lparr>mm_mem := m2\<rparr>) hl ((8, True) # us @ (z, False) # vs)"
    using heap_at_replace [of s hl "(8, True) # us" "[(z, True)]" vs m2 "[(z, False)]"] h cg z q by simp
  from coalesce_inv [OF this] obtain m' r where m': "coalesce (w32 q) (s\<lparr>mm_mem := m2\<rparr>) = Inr (s\<lparr>mm_mem := m'\<rparr>, r)"
    "heap_at (s\<lparr>mm_mem := m'\<rparr>) hl ((8, True) # merged us z vs)"
    "\<forall>c \<in> set (allocs (hl + 8) us) \<union> set (allocs (hl + 8 + len us + z) vs). \<forall>x. unat x \<in> chunk_span c \<longrightarrow> m' x = m2 x"
    by (auto simp: q)
  have "w32 q \<noteq> NULL" using b(4,5) unat_w32 [of q] by (metis add_lessD1 not_numeral_le_zero unat_0)
  then have e: "mm_free (w32 q) s = Inr (s\<lparr>mm_mem := m'\<rparr>)"
    using block_pointers(1) [OF b(1,4)] block_pointers(5) [OF t1 b(4)] acc b(4) m'(1)
    by (simp add: mm_free_def PACK_tag put_hdr_at PUT_at PUT_tag m1_def [symmetric] m2_def [symmetric])
  have "successively (\<lambda>b c. snd b \<or> snd c) (us @ (z, True) # vs)" "\<forall>b \<in> set (us @ vs). 16 \<le> fst b" using h(2,3) bs by auto
  note sm = successively_merge [OF this(1) z(3) this(2)]
  have inv: "heap_inv (s\<lparr>mm_mem := m'\<rparr>) (merged us z vs)"
    by (rule heap_inv_mem [OF assms(1) m'(2) [unfolded hl_def] _ sm(2,1)]) (simp add: bs merged_parts(3))
  have "(q, z) \<notin> set (allocs (hl + 8) us)" "(q, z) \<notin> set (allocs (hl + 8 + len us + z) vs)"
    using allocs_bounds [of "(q, z)" "hl + 8" us] allocs_bounds [of "(q, z)" "hl + 8 + len us + z" vs] z(3) q by auto
  then have ch: "chunks s bs - {(q, z)} = set (allocs (hl + 8) us) \<union> set (allocs (hl + 8 + len us + z) vs)"
    by (auto simp: chunks_def bs q hl_def)
  moreover have "chunks (s\<lparr>mm_mem := m'\<rparr>) (merged us z vs) = set (allocs (hl + 8) us) \<union> set (allocs (hl + 8 + len us + z) vs)"
    by (simp add: chunks_def merged_parts(2) hl_def)
  moreover have "m2 x = mm_mem s x" if "c \<in> set (allocs (hl + 8) us) \<union> set (allocs (hl + 8 + len us + z) vs)" "unat x \<in> chunk_span c" for c x
    using chunks_kept [of "hl + 8" us "[(z, True)]" "mm_mem s" m2 c vs x] cg that q by simp
  ultimately have "chunks (s\<lparr>mm_mem := m'\<rparr>) (merged us z vs) = chunks s bs - {(q, z)}"
    "\<forall>c \<in> chunks s bs - {(q, z)}. \<forall>x. unat x \<in> chunk_span c \<longrightarrow> m' x = mm_mem s x"
    using m'(3) unfolding ch by (blast, metis)
  moreover have "len (merged us z vs) = len bs" by (simp add: merged_parts(3) bs)
  ultimately show ?thesis using e inv by blast
qed

section \<open>\<open>mm_malloc\<close>\<close>

text \<open>What an allocation does to the chunks: a new one at \<open>p\<close> with room for \<open>n\<close> bytes behind its header and before its footer,
  apart from the others, whose bytes stay as they were.\<close>

definition new_chunk :: "mm_st \<Rightarrow> blocks \<Rightarrow> mm_st \<Rightarrow> blocks \<Rightarrow> nat \<Rightarrow> nat \<Rightarrow> bool" where
  "new_chunk s bs s' bs' p n \<longleftrightarrow>
     (\<exists>z. n + 8 \<le> z \<and> chunks s' bs' = insert (p, z) (chunks s bs) \<and> 8 dvd p \<and>
        (\<forall>c \<in> chunks s bs. chunk_span c \<inter> chunk_span (p, z) = {} \<and> (\<forall>x. unat x \<in> chunk_span c \<longrightarrow> mm_mem s' x = mm_mem s x)))"

lemma place_inv:
  assumes "heap_inv s (us @ (z, False) # vs)" and "8 dvd asize" and "16 \<le> asize" and "asize \<le> z" and "n + 8 \<le> asize"
    and "hl = unat (heap_listp s)"
  shows "\<exists>m'. place (w32 (hl + 8 + len us)) (w32 asize) s = Inr (s\<lparr>mm_mem := m'\<rparr>) \<and>
    heap_inv (s\<lparr>mm_mem := m'\<rparr>) (us @ split_block z asize @ vs) \<and>
    new_chunk s (us @ (z, False) # vs) (s\<lparr>mm_mem := m'\<rparr>) (us @ split_block z asize @ vs) (hl + 8 + len us) n"
proof -
  have h: "heap_at s hl (((8, True) # us) @ (z, False) # vs)" "\<forall>b \<in> set (us @ (z, False) # vs). 16 \<le> fst b"
    "successively (\<lambda>b c. snd b \<or> snd c) (us @ (z, False) # vs)"
    using assms(1,6) by (auto simp: heap_inv_def Let_def)
  obtain m' where m': "place (w32 (hl + 8 + len us)) (w32 asize) s = Inr (s\<lparr>mm_mem := m'\<rparr>)"
    "heap_at (s\<lparr>mm_mem := m'\<rparr>) hl ((8, True) # us @ split_block z asize @ vs)"
    "changed (hl + 8 + len us - 4) (hl + 8 + len us + z - 4) (mm_mem s) m'"
    using place_blocks [OF h(1) assms(2-4)] by (auto simp: add.assoc)
  define y where "y = (if 16 \<le> z - asize then asize else z)"
  have y: "asize \<le> y" "y \<le> z" using assms(4) by (auto simp: y_def)
  have lb: "len (split_block z asize) = z" using assms(4) by (auto simp: split_block_def)
  have "successively (\<lambda>b c. snd b \<or> snd c) (us @ split_block z asize @ vs)"
    using h(3) by (auto simp: successively_append_iff successively_Cons split_block_def)
  moreover have "\<forall>b \<in> set (us @ split_block z asize @ vs). 16 \<le> fst b" using h(2) assms(3) by (auto simp: split_block_def)
  ultimately have inv: "heap_inv (s\<lparr>mm_mem := m'\<rparr>) (us @ split_block z asize @ vs)"
    using m'(2) assms(6) lb by (intro heap_inv_mem [OF assms(1)]) (simp_all)
  have c: "chunks s (us @ (z, False) # vs) = set (allocs (hl + 8) us) \<union> set (allocs (hl + 8 + len us + z) vs)"
    using assms(6) by (simp add: chunks_def)
  have "chunks (s\<lparr>mm_mem := m'\<rparr>) (us @ split_block z asize @ vs) = insert (hl + 8 + len us, y) (chunks s (us @ (z, False) # vs))"
    unfolding c using assms(4,6) lb by (auto simp: chunks_def split_block_def y_def add.assoc)
  moreover have "8 dvd hl + 8 + len us" using h(1) sizes_ok_dvd [of us] by (simp add: heap_at_def)
  moreover have "chunk_span c \<inter> chunk_span (hl + 8 + len us, y) = {} \<and> (\<forall>x. unat x \<in> chunk_span c \<longrightarrow> m' x = mm_mem s x)"
    if "c \<in> set (allocs (hl + 8) us) \<union> set (allocs (hl + 8 + len us + z) vs)" for c
    using that y(2) m'(3) chunks_kept [of "hl + 8" us "[(z, False)]" "mm_mem s" m' c vs] chunks_apart [of c "hl + 8" us z vs y]
    by simp
  ultimately have "new_chunk s (us @ (z, False) # vs) (s\<lparr>mm_mem := m'\<rparr>) (us @ split_block z asize @ vs) (hl + 8 + len us) n"
    unfolding new_chunk_def c using y(1) assms(5) by (intro exI [of _ y]) auto
  then show ?thesis using m'(1) inv by blast
qed

text \<open>\<open>mem_sbrk\<close> gives the bytes behind the heap, or changes nothing.\<close>

lemma u32_less: "unat (x :: u32) < 2 ^ 32"
  using unsigned_less [where 'a = nat and w = x] by simp

lemma round_up: "(x :: nat) \<le> (x + 4095) div 4096 * 4096"
  using div_mult_mod_eq [of "x + 4095" 4096] mod_less_divisor [of 4096 "x + 4095"] by linarith

lemma page_up: "unat (x :: u32) + 4095 < 2 ^ 32 \<Longrightarrow> unat ((x + 4095) AND 0xFFFFF000) = (unat x + 4095) div 4096 * 4096"
proof -
  assume a: "unat x + 4095 < 2 ^ 32"
  define y where "y = x + 4095"
  have u: "unat y = unat x + 4095" using a by (simp add: y_def unat_word_ariths)
  have m: "(0xFFFFF000 :: u32) = NOT (mask 12)" by (simp add: mask_eq_exp_minus_1)
  have "y AND NOT (mask 12) = push_bit 12 (drop_bit 12 y)" by (rule bit_eqI) (auto simp: bit_simps)
  then have "unat (y AND NOT (mask 12)) = unat (push_bit 12 (drop_bit 12 y))" by simp
  also have "\<dots> = unat y div 4096 * 4096"
    using u32_less [of y] le_less_trans [OF div_times_less_eq_dividend, of "unat y" 4096 "2 ^ 32"]
    by (simp add: drop_bit_eq_div push_bit_eq_mult unat_word_ariths unat_div)
  finally show ?thesis using u unfolding m y_def by simp
qed

lemma accessible_area: "accessible s n p \<Longrightarrow> accessible (s\<lparr>mm_areas := b # mm_areas s\<rparr>) n p"
  by (simp add: accessible_def)

text \<open>The kernel does not give the pages that \<open>mem_sbrk\<close> asks for.\<close>

definition no_pages :: "mm_st \<Rightarrow> nat \<Rightarrow> bool" where
  "no_pages s ext \<longleftrightarrow>
     \<not> (legal_area (mem_alloctop s) (w32 ((unat (mem_brkp s) + ext - unat (mem_alloctop s) + 4095) div 4096 * 4096)) \<and> mm_answers s (mm_calls s) = 0)"

lemma sys_new_pages_cases:
  "sys_new_pages b l s = (s\<lparr>mm_calls := Suc (mm_calls s), mm_areas := (b, l) # mm_areas s\<rparr>, 0) \<and> legal_area b l \<or>
   (\<exists>rv. rv \<noteq> 0 \<and> sys_new_pages b l s = (s\<lparr>mm_calls := Suc (mm_calls s)\<rparr>, rv) \<and> \<not> (legal_area b l \<and> mm_answers s (mm_calls s) = 0))"
  by (auto simp: sys_new_pages_def Let_def)

text \<open>A new area behind the accessible memory extends it.\<close>

lemma granted_area:
  assumes "granted s lo (unat tp)" and "4096 dvd unat tp" and "legal_area tp l"
  shows "granted (s\<lparr>mm_calls := c, mm_areas := (tp, l) # mm_areas s\<rparr>) lo (unat tp + unat l)"
proof -
  have "accessible (s\<lparr>mm_calls := c, mm_areas := (tp, l) # mm_areas s\<rparr>) 4 (w32 p)"
    if p: "lo \<le> p" "p + 4 \<le> unat tp + unat l" "4 dvd p" for p
  proof (cases "p + 4 \<le> unat tp")
    case True
    then show ?thesis using granted_word [OF assms(1) p(1) True p(3)] by (simp add: accessible_def)
  next
    case False
    moreover have "4 dvd unat tp" using assms(2) by (rule dvd_trans [rotated]) simp
    ultimately have "unat tp \<le> p" using p(3) by (auto elim!: dvdE)
    then show ?thesis using assms(3) p(2) unat_w32 [of p] by (simp add: accessible_def legal_area_def word_le_nat_alt)
  qed
  then show ?thesis using assms(3) by (simp add: granted_def legal_area_def)
qed

lemma mem_sbrk_ok:
  assumes "heap_inv s bs" and "ext < 2 ^ 31" and "unat (mem_brkp s) + ext < 2 ^ 32" and "hl = unat (heap_listp s)"
  shows "\<exists>s' p. mem_sbrk (w32 ext) s = (s', p) \<and> (p = NULL \<and> s' = s\<lparr>mm_calls := Suc (mm_calls s)\<rparr> \<and> no_pages s ext \<or>
    p = mem_brkp s \<and> mm_mem s' = mm_mem s \<and> heap_listp s' = heap_listp s \<and> mem_max_addr s' = mem_max_addr s \<and> mm_inited s' = mm_inited s \<and>
    unat (mem_brkp s') = unat (mem_brkp s) + ext \<and> mem_brkp s' \<le> mem_alloctop s' \<and> 4096 dvd unat (mem_alloctop s') \<and>
    granted s' (hl - 8) (unat (mem_alloctop s')))"
proof -
  define b where "b = mem_brkp s"
  define t where "t = mem_alloctop s"
  have i: "b \<le> t" "4096 dvd unat t" "granted s (hl - 8) (unat t)" "mem_max_addr s = 0xFFFFFFFF"
    using assms(1,4) by (auto simp: heap_inv_def Let_def b_def t_def)
  have e: "unat (w32 ext) = ext" using assms(2) by (simp add: unat_w32)
  have be: "unat (b + w32 ext) = unat b + ext" using assms(3) e by (simp add: unat_word_ariths b_def)
  have c: "\<not> sint (w32 ext) < 0" "\<not> mem_max_addr s < b + w32 ext"
    using assms(2) i(4) by (simp_all add: sint_w32 not_less word_le_nat_alt be) (use be u32_less [of "b + w32 ext"] in simp)
  show ?thesis
  proof (cases "t < b + w32 ext")
    case False
    then show ?thesis
      using c i be by (auto simp: mem_sbrk_def mem_grow_def b_def [symmetric] t_def [symmetric] granted_def accessible_def)
  next
    case True
    define l where "l = (b + w32 ext - t + 4095) AND 0xFFFFF000"
    have d: "unat (b + w32 ext - t) = unat b + ext - unat t"
      using True be by (simp add: unat_sub word_less_nat_alt word_le_nat_alt)
    then have "unat (b + w32 ext - t) \<le> ext" using i(1) by (simp add: word_le_nat_alt)
    then have l: "unat l = (unat b + ext - unat t + 4095) div 4096 * 4096"
      using page_up [of "b + w32 ext - t"] assms(2) d by (simp add: l_def)
    have lb: "unat b + ext - unat t \<le> unat l" unfolding l by (rule round_up)
    consider "sys_new_pages t l s = (s\<lparr>mm_calls := Suc (mm_calls s), mm_areas := (t, l) # mm_areas s\<rparr>, 0)" "legal_area t l"
      | rv where "rv \<noteq> 0" "sys_new_pages t l s = (s\<lparr>mm_calls := Suc (mm_calls s)\<rparr>, rv)" "\<not> (legal_area t l \<and> mm_answers s (mm_calls s) = 0)"
      using sys_new_pages_cases by blast
    then show ?thesis
    proof cases
      case 1
      then have tl: "unat (t + l) = unat t + unat l" by (simp add: legal_area_def unat_word_ariths)
      have "4096 dvd unat (t + l)" unfolding tl l using i(2) by simp
      moreover have "granted (s\<lparr>mm_calls := Suc (mm_calls s), mm_areas := (t, l) # mm_areas s\<rparr>) (hl - 8) (unat (t + l))"
        unfolding tl by (rule granted_area [OF i(3,2) 1(2)])
      moreover have "unat b + ext \<le> unat t + unat l" using lb by simp
      ultimately show ?thesis
        using c True 1(1) be tl by (simp add: mem_sbrk_def mem_grow_def b_def [symmetric] t_def [symmetric] l_def [symmetric] word_le_nat_alt granted_def accessible_def)
    next
      case 2
      have "l = w32 ((unat b + ext - unat t + 4095) div 4096 * 4096)" unfolding l [symmetric] by (simp add: w32_def)
      then have "no_pages s ext" using 2(3) by (simp add: no_pages_def b_def [symmetric] t_def [symmetric])
      then show ?thesis using 2 c True by (simp add: mem_sbrk_def mem_grow_def b_def [symmetric] t_def [symmetric] l_def [symmetric])
    qed
  qed
qed

lemma heap_inv_calls [simp]: "heap_inv (s\<lparr>mm_calls := c\<rparr>) bs = heap_inv s bs" "chunks (s\<lparr>mm_calls := c\<rparr>) bs = chunks s bs"
  by (simp_all add: heap_inv_def heap_at_def granted_def accessible_def chunks_def)

lemma granted_mono: "granted s lo hi \<Longrightarrow> hi' \<le> hi \<Longrightarrow> granted s lo hi'"
  by (simp add: granted_def)

text \<open>The heap with a free block appended, as \<open>extend_heap\<close> writes it.\<close>

lemma extend_writes:
  assumes "heap_at s hl L" and "granted s1 (hl - 8) (b + ext)" and "mm_mem s1 = mm_mem s" and "b = hl + len L"
    and "8 dvd ext" and "16 \<le> ext" and "len L + ext < 2 ^ 31"
  shows "\<exists>m'. kbind (put_hdr (w32 b) (PACK (w32 ext) 0) s1) (\<lambda>s. kbind (put_ftr (w32 b) (PACK (w32 ext) 0) s) (\<lambda>s.
      kbind (NEXT_BLKP (w32 b) s) (\<lambda>n. put_hdr n (PACK 0 1) s))) = Inr (s1\<lparr>mm_mem := m'\<rparr>) \<and>
    heap_at (s1\<lparr>mm_mem := m'\<rparr>) hl (L @ [(ext, False)]) \<and> changed (b - 4) (b + ext) (mm_mem s) m'"
proof -
  define m1 where "m1 = put_at (mm_mem s) (b - 4) (tag ext False)"
  define m2 where "m2 = put_at m1 (b + ext - 8) (tag ext False)"
  define m3 where "m3 = put_at m2 (b + ext - 4) (tag 0 True)"
  have h: "8 \<le> hl" "8 dvd hl" "sizes_ok L" "seg (mm_mem s) hl L" using assms(1) by (simp_all add: heap_at_def)
  have b: "8 \<le> b" "8 dvd b" "b + ext < 2 ^ 32" using assms(2,4) h sizes_ok_dvd [OF h(3)] by (auto simp: granted_def)
  obtain c where c: "b = c + 8" using b(1) le_Suc_ex by (metis add.commute)
  have "4 dvd b - 4" "4 dvd b + ext - 8" "4 dvd b + ext - 4" using b assms(5,6) by (auto elim!: dvdE)
  then have acc: "accessible s1 4 (w32 (b - 4))" "accessible s1 4 (w32 (b + ext - 8))" "accessible s1 4 (w32 (b + ext - 4))"
    using b assms(4,6) h(1) by (auto intro!: granted_word [OF assms(2)])
  have t1: "tagged (s1\<lparr>mm_mem := m1\<rparr>) (b - 4) ext False" unfolding m1_def using acc assms(5,7) by (intro tagged_put) auto
  have t2: "tagged (s1\<lparr>mm_mem := m2\<rparr>) (b - 4) ext False" unfolding m2_def using t1 b assms(6) by (intro tagged_put_other) (auto simp: c)
  have p0: "PACK 0 1 = tag 0 True" by (simp add: tag_def w32_def)
  have e: "kbind (put_hdr (w32 b) (PACK (w32 ext) 0) s1) (\<lambda>s. kbind (put_ftr (w32 b) (PACK (w32 ext) 0) s) (\<lambda>s.
      kbind (NEXT_BLKP (w32 b) s) (\<lambda>n. put_hdr n (PACK 0 1) s))) = Inr (s1\<lparr>mm_mem := m3\<rparr>)"
    using b acc block_pointers(5) [OF t1 b(1)] block_pointers(4) [OF t2 b(1)]
    by (simp add: assms(3) p0 PACK_tag put_hdr_at PUT_at PUT_tag m1_def [symmetric] m2_def [symmetric] m3_def [symmetric])
  have cg: "changed (b - 4) (b + ext) (mm_mem s) m3"
    unfolding m3_def m2_def m1_def using b assms(6) by (intro changed_trans [OF _ changed_put] changed_refl) auto
  have "seg m3 hl L" using h assms(4) b by (intro seg_changed [OF _ cg]) auto
  moreover have "seg m3 b [(ext, False)]" "word_at m3 (b + ext - 4) = tag 0 True"
    unfolding m3_def m2_def m1_def using b assms(6) by (simp_all add: c word_at_put_other)
  ultimately have "heap_at (s1\<lparr>mm_mem := m3\<rparr>) hl (L @ [(ext, False)])"
    using h assms by (simp add: heap_at_def add.assoc)
  with e cg show ?thesis by blast
qed

lemma extend_heap_ok:
  assumes "heap_inv s bs" and "8 dvd ext" and "16 \<le> ext" and "8 + len bs + ext < 2 ^ 31" and "unat (mem_brkp s) + ext < 2 ^ 32"
    and "hl = unat (heap_listp s)"
  shows "\<exists>s' r. extend_heap (w32 (ext div 4)) s = Inr (s', r) \<and> (r = NULL \<and> s' = s\<lparr>mm_calls := Suc (mm_calls s)\<rparr> \<and> no_pages s ext \<or>
    heap_listp s' = heap_listp s \<and> mm_inited s' = mm_inited s \<and> heap_inv s' (merged bs ext []) \<and> r = w32 (hl + 8 + len (fst (free_last bs))) \<and>
    (\<forall>c \<in> chunks s bs. \<forall>x. unat x \<in> chunk_span c \<longrightarrow> mm_mem s' x = mm_mem s x))"
proof -
  obtain k where k: "ext = 8 * k" using assms(2) by blast
  have "w32 (ext div 4) AND 1 = 0" using k by (simp add: w32_def and_one_eq mod2_eq_if)
  moreover have "w32 (ext div 4) * 4 = w32 ext" using k by (simp add: w32_def)
  ultimately have sz: "(if w32 (ext div 4) AND 1 \<noteq> 0 then (w32 (ext div 4) + 1) * 4 else w32 (ext div 4) * 4) = w32 ext" by simp
  define b where "b = hl + len ((8, True) # bs)"
  have i: "heap_at s hl ((8, True) # bs)" "unat (mem_brkp s) = b" "\<forall>b \<in> set bs. 16 \<le> fst b" "successively (\<lambda>b c. snd b \<or> snd c) bs" "mem_max_addr s = 0xFFFFFFFF"
    using assms(1,6) by (auto simp: heap_inv_def Let_def b_def)
  have bw: "mem_brkp s = w32 b" unfolding i(2) [symmetric] by (simp add: w32_def)
  obtain s1 p where s1: "mem_sbrk (w32 ext) s = (s1, p)"
    "p = NULL \<and> s1 = s\<lparr>mm_calls := Suc (mm_calls s)\<rparr> \<and> no_pages s ext \<or>
      p = mem_brkp s \<and> mm_mem s1 = mm_mem s \<and> heap_listp s1 = heap_listp s \<and> mem_max_addr s1 = mem_max_addr s \<and> mm_inited s1 = mm_inited s \<and>
      unat (mem_brkp s1) = unat (mem_brkp s) + ext \<and> mem_brkp s1 \<le> mem_alloctop s1 \<and> 4096 dvd unat (mem_alloctop s1) \<and>
      granted s1 (hl - 8) (unat (mem_alloctop s1))"
    using mem_sbrk_ok [OF assms(1) _ assms(5,6)] assms(4) by auto
  show ?thesis
  proof (cases "p = NULL")
    case True
    then have "mem_brkp s \<noteq> p" using i(1,2) by (auto simp: b_def heap_at_def)
    then have "s1 = s\<lparr>mm_calls := Suc (mm_calls s)\<rparr>" "no_pages s ext" using s1(2) by auto
    then show ?thesis using True s1(1) by (simp add: extend_heap_def sz Let_def)
  next
    case False
    then have g: "p = w32 b" "mm_mem s1 = mm_mem s" "heap_listp s1 = heap_listp s" "mem_max_addr s1 = mem_max_addr s" "mm_inited s1 = mm_inited s"
      "unat (mem_brkp s1) = b + ext" "mem_brkp s1 \<le> mem_alloctop s1" "4096 dvd unat (mem_alloctop s1)" "granted s1 (hl - 8) (unat (mem_alloctop s1))"
      using s1(2) bw i(2) by auto
    have "granted s1 (hl - 8) (b + ext)" using granted_mono [OF g(9)] g(6,7) by (simp add: word_le_nat_alt)
    from extend_writes [OF i(1) this g(2) b_def assms(2,3)] obtain m2 where m2:
      "kbind (put_hdr (w32 b) (PACK (w32 ext) 0) s1) (\<lambda>s. kbind (put_ftr (w32 b) (PACK (w32 ext) 0) s) (\<lambda>s.
         kbind (NEXT_BLKP (w32 b) s) (\<lambda>n. put_hdr n (PACK 0 1) s))) = Inr (s1\<lparr>mm_mem := m2\<rparr>)"
      "heap_at (s1\<lparr>mm_mem := m2\<rparr>) hl ((8, True) # bs @ [(ext, False)])" "changed (b - 4) (b + ext) (mm_mem s) m2"
      using assms(4) by auto
    from coalesce_inv [of "s1\<lparr>mm_mem := m2\<rparr>" hl bs ext "[]"] m2(2) obtain m' where m':
      "coalesce (w32 b) (s1\<lparr>mm_mem := m2\<rparr>) = Inr (s1\<lparr>mm_mem := m'\<rparr>, w32 (hl + 8 + len (fst (free_last bs))))"
      "heap_at (s1\<lparr>mm_mem := m'\<rparr>) hl ((8, True) # merged bs ext [])"
      "\<forall>c \<in> set (allocs (hl + 8) bs). \<forall>x. unat x \<in> chunk_span c \<longrightarrow> m' x = m2 x"
      by (auto simp: b_def add.assoc)
    have "successively (\<lambda>b c. snd b \<or> snd c) (bs @ (ext, True) # [])" "\<forall>b \<in> set (bs @ []). 16 \<le> fst b"
      using i(3,4) by (simp_all add: successively_append_iff)
    note sm = successively_merge [OF this(1) assms(3) this(2)]
    then have "heap_inv (s1\<lparr>mm_mem := m'\<rparr>) (merged bs ext [])"
      using m'(2) g assms(6) i(5) by (simp add: heap_inv_def Let_def merged_parts(3) b_def)
    moreover have "extend_heap (w32 (ext div 4)) s = Inr (s1\<lparr>mm_mem := m'\<rparr>, w32 (hl + 8 + len (fst (free_last bs))))"
    proof -
      have "extend_heap (w32 (ext div 4)) s = kbind (kbind (put_hdr (w32 b) (PACK (w32 ext) 0) s1) (\<lambda>s. kbind (put_ftr (w32 b) (PACK (w32 ext) 0) s) (\<lambda>s.
         kbind (NEXT_BLKP (w32 b) s) (\<lambda>n. put_hdr n (PACK 0 1) s)))) (coalesce (w32 b))"
        using s1(1) False g(1) by (simp add: extend_heap_def sz Let_def)
      then show ?thesis by (simp only: m2(1) kbind_Inr m'(1))
    qed
    moreover have "m' x = mm_mem s x" if "c \<in> chunks s bs" "unat x \<in> chunk_span c" for c x
    proof -
      have "unat x < b - 4" using that allocs_bounds [of c "hl + 8" bs] by (auto simp: chunks_def chunk_span_def assms(6) b_def)
      then show ?thesis using m'(3) that m2(3) by (auto simp: chunks_def assms(6) changed_def)
    qed
    ultimately show ?thesis using g(3,5) by auto
  qed
qed

text \<open>The size of a block that holds \<open>n\<close> bytes.\<close>

definition asz :: "nat \<Rightarrow> nat" where
  "asz n = (n + 15) div 8 * 8"

lemma asz_bounds: "8 dvd asz n" "n + 8 \<le> asz n" "asz n \<le> n + 15" "0 < n \<Longrightarrow> 16 \<le> asz n"
  using div_mult_mod_eq [of "n + 15" 8] mod_less_divisor [of 8 "n + 15"] by (simp_all add: asz_def)

lemma w32_4096: "w32 4096 = 4096"
  by (simp add: w32_def)

lemma sint_unat: "unat (x :: u32) < 2 ^ 31 \<Longrightarrow> sint x = int (unat x)"
  using sint_w32 [of "unat x"] by (simp add: w32_def)

lemma adjust_asz:
  assumes "0 < unat sz" and "unat sz + 15 < 2 ^ 31"
  shows "adjust sz = w32 (asz (unat sz))"
proof -
  have s: "sint sz = int (unat sz)" "sint (sz + 15) = int (unat sz + 15)"
    using assms(2) sint_unat [of sz] sint_unat [of "sz + 15"] by (simp_all add: unat_word_ariths)
  show ?thesis
  proof (cases "unat sz \<le> 8")
    case True
    then have "unat sz + 15 = 16 + (unat sz - 1)" "unat sz - 1 < 8" using assms(1) by auto
    then have "asz (unat sz) = 16" by (simp add: asz_def)
    moreover have "sint sz \<le> 8" unfolding s(1) using True by linarith
    ultimately show ?thesis by (simp add: adjust_def w32_def)
  next
    case False
    have "int (m + 15) sdiv 8 = int ((m + 15) div 8)" for m
      by (simp add: signed_divide_int_def zdiv_int)
    then have "8 * (int (unat sz + 15) sdiv 8) = int (asz (unat sz))" by (simp add: asz_def del: of_nat_add)
    moreover have "\<not> sint sz \<le> 8" unfolding s(1) using False by linarith
    ultimately show ?thesis unfolding adjust_def s(2) by (simp add: w32_def)
  qed
qed

lemma new_chunk_trans:
  assumes "new_chunk s1 bs1 s2 bs2 p n" and "chunks s1 bs1 = chunks s bs"
    and "\<forall>c \<in> chunks s bs. \<forall>x. unat x \<in> chunk_span c \<longrightarrow> mm_mem s1 x = mm_mem s x"
  shows "new_chunk s bs s2 bs2 p n"
  using assms unfolding new_chunk_def by (metis (no_types, lifting))

definition fits_heap :: "mm_st \<Rightarrow> blocks \<Rightarrow> nat \<Rightarrow> bool" where
  "fits_heap s bs n \<longleftrightarrow> 8 + len bs + max 4096 (asz n) < 2 ^ 31 \<and> unat (mem_brkp s) + max 4096 (asz n) < 2 ^ 32"

lemma mm_malloc_ok:
  assumes "heap_inv s bs" and "0 < unat sz" and "fits_heap s bs (unat sz)"
  shows "\<exists>s' p bs'. mm_malloc sz s = Some (Inr (s', p)) \<and> heap_inv s' bs' \<and> mm_inited s' = mm_inited s \<and> heap_listp s' = heap_listp s \<and>
    (if p = NULL then fit (asz (unat sz)) bs = None \<and> no_pages s (max 4096 (asz (unat sz))) \<and> s' = s\<lparr>mm_calls := Suc (mm_calls s)\<rparr> \<and> bs' = bs
     else new_chunk s bs s' bs' (unat p) (unat sz))"
proof -
  define hl where "hl = unat (heap_listp s)"
  define n where "n = unat sz"
  define ext where "ext = max 4096 (asz n)"
  note a = asz_bounds [of n]
  have n: "0 < n" "n + 15 < 2 ^ 31 + 8" "asz n < 2 ^ 31" "ext < 2 ^ 31" using assms(2,3) a(2) by (auto simp: fits_heap_def n_def ext_def)
  have lim: "n + 15 < 2 ^ 31"
    using assms(3) a by (auto simp: fits_heap_def n_def elim!: dvdE)
  have adj: "adjust sz = w32 (asz n)" unfolding n_def using assms(2) lim by (intro adjust_asz) (simp_all add: n_def)
  have e: "sint sz = int n" unfolding n_def using lim by (intro sint_unat) (simp add: n_def)
  have sz: "0 < sint sz" unfolding e using n(1) by simp
  have i: "heap_at s hl ((8, True) # bs)" using assms(1) by (simp add: heap_inv_def Let_def hl_def)
  have hw: "heap_listp s = w32 hl" by (simp add: hl_def w32_def)
  have ff: "find_fit (w32 (asz n)) s = Some (Inr (case fit (asz n) bs of None \<Rightarrow> NULL | Some k \<Rightarrow> w32 (hl + 8 + k)))"
    using find_fit_loop_ok [of s hl "[]" "(8, True) # bs" "w32 (asz n)"] i n(3) sint_w32 [of "asz n"] by (cases "fit (asz n) bs") (simp_all add: find_fit_def hw add.assoc)
  have nz: "w32 (hl + 8 + len us) \<noteq> NULL \<and> unat (w32 (hl + 8 + len us)) = hl + 8 + len us" if "len us \<le> len bs" for us
  proof -
    have "hl + 8 + len us < 2 ^ 32" using i that by (simp add: heap_at_def granted_def)
    then show ?thesis using unat_w32 by (metis add_is_0 unat_0 zero_neq_numeral)
  qed
  show ?thesis
  proof (cases "fit (asz n) bs")
    case (Some k)
    then obtain us z vs where b: "bs = us @ (z, False) # vs" "k = len us" "asz n \<le> z" using fit_Some by blast
    obtain m' where m': "place (w32 (hl + 8 + len us)) (w32 (asz n)) s = Inr (s\<lparr>mm_mem := m'\<rparr>)"
      "heap_inv (s\<lparr>mm_mem := m'\<rparr>) (us @ split_block z (asz n) @ vs)"
      "new_chunk s bs (s\<lparr>mm_mem := m'\<rparr>) (us @ split_block z (asz n) @ vs) (hl + 8 + len us) n"
      using place_inv [of s us z vs "asz n" n hl] assms(1) b a n(1) by (auto simp: hl_def)
    have "mm_malloc sz s = Some (Inr (s\<lparr>mm_mem := m'\<rparr>, w32 (hl + 8 + len us)))"
      using sz ff Some b(2) m'(1) nz [of us] by (simp add: mm_malloc_def adj Let_def b(1))
    then show ?thesis using m'(2,3) nz [of us] b(1) by (auto simp: n_def)
  next
    case None
    have es: "(if 4096 < sint (w32 (asz n)) then w32 (asz n) else 4096) = w32 ext"
      using n(3) w32_4096 by (auto simp: ext_def sint_w32 max_def)
    have xt: "8 dvd ext" "16 \<le> ext" using a(1) by (auto simp: ext_def max_def)
    have lm: "8 + len bs + ext < 2 ^ 31" "unat (mem_brkp s) + ext < 2 ^ 32" using assms(3) by (simp_all add: fits_heap_def ext_def n_def)
    have "w32 ext div 4 = w32 (ext div 4)"
      using n(4) by (simp add: word_unat_eq_iff unat_div unat_w32)
    moreover obtain s1 r where s1: "extend_heap (w32 (ext div 4)) s = Inr (s1, r)" "r = NULL \<and> s1 = s\<lparr>mm_calls := Suc (mm_calls s)\<rparr> \<and> no_pages s ext \<or>
      heap_listp s1 = heap_listp s \<and> mm_inited s1 = mm_inited s \<and> heap_inv s1 (merged bs ext []) \<and> r = w32 (hl + 8 + len (fst (free_last bs))) \<and>
      (\<forall>c \<in> chunks s bs. \<forall>x. unat x \<in> chunk_span c \<longrightarrow> mm_mem s1 x = mm_mem s x)"
      using extend_heap_ok [OF assms(1) xt lm hl_def] by blast
    ultimately have e: "mm_malloc sz s = (if r = NULL then Some (Inr (s1, NULL)) else obind (Some (place r (w32 (asz n)) s1)) (\<lambda>s. Some (Inr (s, r))))"
      using sz ff None es by (simp add: mm_malloc_def adj Let_def)
    define us where "us = fst (free_last bs)"
    have lu: "len us \<le> len bs" using merged_parts(4) [of bs] by (simp add: us_def)
    show ?thesis
    proof (cases "r = NULL")
      case True
      then have "s1 = s\<lparr>mm_calls := Suc (mm_calls s)\<rparr>" "no_pages s ext" using s1(2) nz [OF lu] by (auto simp: us_def)
      then show ?thesis using e True None assms(1) by (simp add: n_def ext_def)
    next
      case False
      then have g: "heap_listp s1 = heap_listp s" "mm_inited s1 = mm_inited s" "heap_inv s1 (merged bs ext [])" "r = w32 (hl + 8 + len us)"
        "\<forall>c \<in> chunks s bs. \<forall>x. unat x \<in> chunk_span c \<longrightarrow> mm_mem s1 x = mm_mem s x" using s1(2) by (auto simp: us_def)
      define z where "z = snd (free_last bs) + ext"
      have mg: "merged bs ext [] = us @ (z, False) # []" by (simp add: merged_def us_def z_def free_first_def)
      have "chunks s1 (merged bs ext []) = chunks s bs" using g(1) by (simp add: chunks_def merged_parts(2))
      note ch = this [unfolded mg]
      have "asz n \<le> z" by (simp add: z_def ext_def)
      then obtain m' where m': "place r (w32 (asz n)) s1 = Inr (s1\<lparr>mm_mem := m'\<rparr>)"
        "heap_inv (s1\<lparr>mm_mem := m'\<rparr>) (us @ split_block z (asz n) @ [])"
        "new_chunk s1 (us @ (z, False) # []) (s1\<lparr>mm_mem := m'\<rparr>) (us @ split_block z (asz n) @ []) (hl + 8 + len us) n"
        using place_inv [of s1 us z "[]" "asz n" n hl] g a n(1) mg by (auto simp: hl_def)
      have "new_chunk s bs (s1\<lparr>mm_mem := m'\<rparr>) (us @ split_block z (asz n) @ []) (unat r) n"
        using new_chunk_trans [OF m'(3) ch g(5)] nz [OF lu] g(4) by simp
      then show ?thesis using e False m'(1,2) g by (auto simp: n_def)
    qed
  qed
qed

end
