(* ===== verification/User_Malloc.thy ===== *)
theory User_Malloc
  imports User_Heap
begin

text \<open>
  What a program sees of its allocator: \<open>mm_init\<close> builds a heap that satisfies the invariant of \<open>User_Heap\<close>, and the chunks that
  a program has keep what it wrote into them until it frees them, for every sequence of calls.
\<close>

section \<open>\<open>mm_init\<close>\<close>

text \<open>The kernel gives the \<open>k\<close>-th page that \<open>mem_init\<close> asks for.\<close>

definition page_given :: "mm_st \<Rightarrow> nat \<Rightarrow> bool" where
  "page_given s k \<longleftrightarrow> legal_area (mem_brkp s + 4096 * word_of_nat k) 4096 \<and> mm_answers s (mm_calls s + k) = 0"

lemma mem_init_loop_ok:
  assumes "page_given s k" and "\<forall>j < k. \<not> page_given s j"
  shows "mem_init_loop s = Some (s\<lparr>mem_brkp := mem_brkp s + 4096 * word_of_nat k, mm_calls := mm_calls s + Suc k,
    mm_areas := (mem_brkp s + 4096 * word_of_nat k, 4096) # mm_areas s\<rparr>)"
  using assms
proof (induction k arbitrary: s)
  case 0
  then have "sys_new_pages (mem_brkp s) 4096 s = (s\<lparr>mm_calls := Suc (mm_calls s), mm_areas := (mem_brkp s, 4096) # mm_areas s\<rparr>, 0)"
    by (simp add: page_given_def sys_new_pages_def)
  then show ?case by (subst mem_init_loop.simps) simp
next
  case (Suc k)
  define s1 where "s1 = s\<lparr>mm_calls := Suc (mm_calls s), mem_brkp := mem_brkp s + 4096\<rparr>"
  have p: "page_given s1 j = page_given s (Suc j)" for j by (simp add: page_given_def s1_def algebra_simps)
  have "\<not> page_given s 0" using Suc.prems(2) by simp
  then obtain rv where "sys_new_pages (mem_brkp s) 4096 s = (s\<lparr>mm_calls := Suc (mm_calls s)\<rparr>, rv)" "rv \<noteq> 0"
    using sys_new_pages_cases [of "mem_brkp s" 4096 s] by (auto simp: page_given_def sys_new_pages_def)
  then have "mem_init_loop s = mem_init_loop s1" by (subst mem_init_loop.simps) (simp add: s1_def)
  moreover have "mem_init_loop s1 = Some (s1\<lparr>mem_brkp := mem_brkp s1 + 4096 * word_of_nat k, mm_calls := mm_calls s1 + Suc k,
    mm_areas := (mem_brkp s1 + 4096 * word_of_nat k, 4096) # mm_areas s1\<rparr>)"
    using Suc.prems by (intro Suc.IH) (auto simp: p)
  ultimately show ?case by (simp add: s1_def algebra_simps)
qed

text \<open>Where \<open>mem_init\<close> starts to ask.\<close>

definition first_break :: "mm_st \<Rightarrow> mm_st" where
  "first_break s = s\<lparr>mem_max_addr := 0xFFFFFFFF, mem_brkp := (mm_end s + 4096) AND 0xFFFFF000\<rparr>"

text \<open>The four words of an empty heap.\<close>

lemma first_words:
  assumes "granted s b (b + 4096)" and "8 dvd b" and "0 < b" and "mem_max_addr s = 0xFFFFFFFF"
    and "unat (mem_brkp s) = b + 16" and "unat (mem_alloctop s) = b + 4096" and "4096 dvd b"
  shows "\<exists>m'. kbind (PUT (w32 b) 0 s) (\<lambda>s. kbind (PUT (w32 b + 4) (PACK 8 1) s) (\<lambda>s. kbind (PUT (w32 b + 8) (PACK 8 1) s)
      (PUT (w32 b + 4 + 8) (PACK 0 1)))) = Inr (s\<lparr>mm_mem := m'\<rparr>) \<and>
    heap_inv (s\<lparr>heap_listp := w32 b + 8, mm_mem := m'\<rparr>) []"
proof -
  have b: "b + 4096 < 2 ^ 32" using assms(1) by (simp add: granted_def)
  define m1 where "m1 = put_at (mm_mem s) b 0"
  define m2 where "m2 = put_at m1 (b + 4) (tag 8 True)"
  define m3 where "m3 = put_at m2 (b + 8) (tag 8 True)"
  define m4 where "m4 = put_at m3 (b + 12) (tag 0 True)"
  have w: "w32 b + 4 = w32 (b + 4)" "w32 b + 8 = w32 (b + 8)" "w32 (b + 4) + 8 = w32 (b + 12)" by (simp_all add: w32_def)
  have p: "PACK 8 1 = tag 8 True" "PACK 0 1 = tag 0 True" by (simp_all add: tag_def w32_def)
  have "4 dvd b" using assms(2) by (rule dvd_trans [rotated]) simp
  then have acc: "accessible s 4 (w32 b)" "accessible s 4 (w32 (b + 4))" "accessible s 4 (w32 (b + 8))" "accessible s 4 (w32 (b + 12))"
    by (auto intro!: granted_word [OF assms(1)])
  have e: "kbind (PUT (w32 b) 0 s) (\<lambda>s. kbind (PUT (w32 b + 4) (PACK 8 1) s) (\<lambda>s. kbind (PUT (w32 b + 8) (PACK 8 1) s)
      (PUT (w32 b + 4 + 8) (PACK 0 1)))) = Inr (s\<lparr>mm_mem := m4\<rparr>)"
    using acc by (simp add: w p PUT_at PUT_tag m1_def [symmetric] m2_def [symmetric] m3_def [symmetric] m4_def [symmetric])
  have u: "unat (w32 (b + 8)) = b + 8" using b by (simp add: unat_w32)
  have "word_at m4 (b + 4) = tag 8 True" "word_at m4 (b + 8) = tag 8 True" "word_at m4 (b + 12) = tag 0 True"
    unfolding m4_def m3_def m2_def m1_def using b by (simp_all add: word_at_put_other)
  then have "word_at m4 (4 + b) = tag 8 True" "word_at m4 (b + 8) = tag 8 True" "word_at m4 (12 + b) = tag 0 True"
    by (simp_all only: add.commute)
  then have "heap_inv (s\<lparr>heap_listp := w32 (b + 8), mm_mem := m4\<rparr>) []"
    using assms b by (simp add: heap_inv_def heap_at_def u word_le_nat_alt granted_def accessible_def)
  then show ?thesis using e w(2) by auto
qed

lemma mm_init_ok:
  assumes k: "page_given (first_break s) k" and "\<forall>j < k. \<not> page_given (first_break s) j"
  shows "\<exists>s' rv. mm_init s = Some (Inr (s', rv)) \<and> mm_inited s' = mm_inited s \<and>
    (rv = - 1 \<and> \<not> page_given (first_break s) (Suc k) \<or>
     rv = 0 \<and> heap_inv s' [(4096, False)] \<and> heap_listp s' = mem_brkp (first_break s) + 4096 * word_of_nat k + 8)"
proof -
  define p where "p = mem_brkp (first_break s) + 4096 * word_of_nat k"
  define s1 where "s1 = (first_break s)\<lparr>mem_brkp := p, mm_calls := mm_calls s + Suc k, mm_areas := (p, 4096) # mm_areas s, mem_alloctop := p + 4096\<rparr>"
  from mem_init_loop_ok [OF assms] have mi: "mem_init 0xFFFFFFFF s = Some s1"
    by (simp add: mem_init_def first_break_def s1_def p_def)
  define b where "b = unat p"
  have pw: "p = w32 b" by (simp add: b_def w32_def)
  have l: "4096 dvd b" "0x1000000 \<le> b" "b + 4096 < 2 ^ 32" using k by (auto simp: page_given_def legal_area_def p_def b_def word_le_nat_alt)
  define s2 where "s2 = s1\<lparr>mem_brkp := p + 16\<rparr>"
  have u: "unat (p + 16) = b + 16" "unat (p + 4096) = b + 4096" using l by (simp_all add: unat_word_ariths b_def)
  have "\<not> p + 4096 < p + 16" "\<not> 0xFFFFFFFF < p + 16" using u l(3) by (simp_all add: word_less_nat_alt)
  then have sb: "mem_sbrk 16 s1 = (s2, p)" by (simp add: mem_sbrk_def mem_grow_def s2_def s1_def first_break_def)
  have "granted s2 b (b + 4096)"
    using l unat_w32 by (auto simp: granted_def accessible_def s2_def s1_def first_break_def word_le_nat_alt b_def [symmetric])
  moreover have "8 dvd b" using l(1) by (rule dvd_trans [rotated]) simp
  ultimately have "\<exists>m'. kbind (PUT (w32 b) 0 (s2\<lparr>heap_listp := p\<rparr>)) (\<lambda>s. kbind (PUT (w32 b + 4) (PACK 8 1) s) (\<lambda>s. kbind (PUT (w32 b + 8) (PACK 8 1) s)
      (PUT (w32 b + 4 + 8) (PACK 0 1)))) = Inr ((s2\<lparr>heap_listp := p\<rparr>)\<lparr>mm_mem := m'\<rparr>) \<and>
    heap_inv ((s2\<lparr>heap_listp := p\<rparr>)\<lparr>heap_listp := w32 b + 8, mm_mem := m'\<rparr>) []"
    using l u by (intro first_words) (simp_all add: s2_def s1_def first_break_def granted_def accessible_def)
  then obtain m' where m': "kbind (PUT p 0 (s2\<lparr>heap_listp := p\<rparr>)) (\<lambda>s. kbind (PUT (p + 4) (PACK 8 1) s) (\<lambda>s. kbind (PUT (p + 8) (PACK 8 1) s)
      (PUT (p + 4 + 8) (PACK 0 1)))) = Inr (s2\<lparr>heap_listp := p, mm_mem := m'\<rparr>)"
    "heap_inv (s2\<lparr>heap_listp := p + 8, mm_mem := m'\<rparr>) []" unfolding pw by auto
  define s3 where "s3 = s2\<lparr>heap_listp := p + 8, mm_mem := m'\<rparr>"
  have "b + 8192 \<le> 2 ^ 32" using l(1,3) by (auto elim!: dvdE)
  then have "unat (mem_brkp s3) + 4096 < 2 ^ 32" using u(1) by (simp add: s3_def s2_def)
  then obtain s' r where x: "extend_heap (w32 (4096 div 4)) s3 = Inr (s', r)" "r = NULL \<and> s' = s3\<lparr>mm_calls := Suc (mm_calls s3)\<rparr> \<and> no_pages s3 4096 \<or>
    mm_inited s' = mm_inited s3 \<and> heap_listp s' = p + 8 \<and> heap_inv s' [(4096, False)] \<and> r = w32 (unat (heap_listp s3) + 8)"
    using extend_heap_ok [OF m'(2) [folded s3_def], of 4096] by (auto simp: merged_def free_last_def free_first_def s3_def)
  have "mm_init s = Some (kbind (kbind (PUT p 0 (s2\<lparr>heap_listp := p\<rparr>)) (\<lambda>s. kbind (PUT (p + 4) (PACK 8 1) s) (\<lambda>s. kbind (PUT (p + 8) (PACK 8 1) s)
      (PUT (p + 4 + 8) (PACK 0 1))))) (\<lambda>s. kbind (extend_heap (4096 div 4) (s\<lparr>heap_listp := p + 8\<rparr>)) (\<lambda>(s, q). Inr (s, if q = NULL then - 1 else 0))))"
    using mi sb l(2) b_def by (auto simp: mm_init_def Let_def)
  moreover have "(4096 div 4 :: u32) = w32 (4096 div 4)" by (simp add: w32_def)
  moreover have "s2\<lparr>heap_listp := p, mm_mem := m'\<rparr>\<lparr>heap_listp := p + 8\<rparr> = s3" by (simp add: s3_def)
  ultimately have e: "mm_init s = Some (Inr (s', if r = NULL then - 1 else 0))" by (simp only: m'(1) x(1) kbind_Inr prod.case)
  have "mm_inited s3 = mm_inited s" by (simp add: s3_def s2_def s1_def first_break_def)
  moreover have "no_pages s3 4096 \<longleftrightarrow> \<not> page_given (first_break s) (Suc k)"
    using u by (simp add: no_pages_def page_given_def s3_def s2_def s1_def first_break_def p_def w32_4096 algebra_simps)
  moreover have "w32 (unat (heap_listp s3) + 8) \<noteq> NULL"
  proof -
    have "unat (heap_listp s3) + 8 = b + 16" using l(3) by (simp add: s3_def unat_word_ariths b_def)
    moreover have "unat (w32 (b + 16)) = b + 16" using l(3) by (intro unat_w32) simp
    ultimately show ?thesis by (metis add_is_0 unat_0 zero_neq_numeral)
  qed
  ultimately show ?thesis using e x(2) by (auto simp: p_def)
qed

section \<open>Runs of a program\<close>

text \<open>The memory, and for each chunk that the program has the bytes that it expects there.\<close>

type_synonym prog = "mm_st \<times> (u32 \<rightharpoonup> u8 list)"

text \<open>The heap can grow for a request without reaching half of the address space, or its end.\<close>

definition room :: "mm_st \<Rightarrow> u32 \<Rightarrow> bool" where
  "room s sz \<longleftrightarrow> sint sz \<le> 0 \<or>
     unat (mem_brkp s) - unat (heap_listp s) + max 4096 (asz (unat sz)) < 2 ^ 31 \<and> unat (mem_brkp s) + max 4096 (asz (unat sz)) < 2 ^ 32"

inductive prog_step :: "prog \<Rightarrow> prog \<Rightarrow> bool" where
  got: "\<lbrakk>room s sz; lib_malloc_user sz s = Some (Inr (s', p)); p \<noteq> NULL\<rbrakk> \<Longrightarrow>
     prog_step (s, live) (s', live(p \<mapsto> rd (unat sz) p (mm_mem s')))"
| refused: "\<lbrakk>room s sz; lib_malloc_user sz s = Some (Inr (s', NULL))\<rbrakk> \<Longrightarrow> prog_step (s, live) (s', live)"
| stored: "\<lbrakk>live p = Some c; i < length c\<rbrakk> \<Longrightarrow>
     prog_step (s, live) (s\<lparr>mm_mem := (mm_mem s)(p + word_of_nat i := v)\<rparr>, live(p \<mapsto> c[i := v]))"
| freed: "\<lbrakk>live p = Some c; lib_free_user p s = Inr s'\<rbrakk> \<Longrightarrow> prog_step (s, live) (s', live(p := None))"

inductive prog_run :: "prog \<Rightarrow> prog \<Rightarrow> bool" where
  start: "prog_run st st"
| step: "prog_run st st' \<Longrightarrow> prog_step st' st'' \<Longrightarrow> prog_run st st''"

text \<open>A chunk of the program with its bytes.\<close>

definition holds :: "mm_st \<Rightarrow> blocks \<Rightarrow> u32 \<Rightarrow> u8 list \<Rightarrow> bool" where
  "holds s bs p c \<longleftrightarrow> (\<exists>z. (unat p, z) \<in> chunks s bs \<and> length c + 8 \<le> z) \<and> rd (length c) p (mm_mem s) = c"

definition prog_ok :: "prog \<Rightarrow> bool" where
  "prog_ok st \<longleftrightarrow> mm_inited (fst st) \<and> (\<exists>bs. heap_inv (fst st) bs \<and> (\<forall>p c. snd st p = Some c \<longrightarrow> holds (fst st) bs p c))"

lemma chunk_bounds:
  assumes "heap_inv s bs" and "(q, z) \<in> chunks s bs"
  shows "unat (heap_listp s) + 8 \<le> q" and "q + z \<le> unat (mem_brkp s)" and "8 dvd q" and "8 dvd z" and "16 \<le> z"
proof -
  have b: "unat (heap_listp s) + 8 \<le> q \<and> q + z \<le> unat (heap_listp s) + 8 + len bs"
    using allocs_bounds [of "(q, z)"] assms(2) by (auto simp: chunks_def)
  obtain us vs where u: "bs = us @ (z, True) # vs" "q = unat (heap_listp s) + 8 + len us"
    using allocs_split assms(2) unfolding chunks_def by blast
  have h: "heap_at s (unat (heap_listp s)) ((8, True) # bs)" "\<forall>b \<in> set bs. 16 \<le> fst b" "unat (mem_brkp s) = unat (heap_listp s) + 8 + len bs"
    using assms(1) by (auto simp: heap_inv_def Let_def)
  show "unat (heap_listp s) + 8 \<le> q" "q + z \<le> unat (mem_brkp s)" using b h(3) by auto
  show "8 dvd q" "8 dvd z" "16 \<le> z" using h u sizes_ok_dvd [of us] by (auto simp: heap_at_def)
qed

text \<open>The payload of a chunk as addresses.\<close>

lemma payload_unat:
  assumes "heap_inv s bs" and "(unat p, z) \<in> chunks s bs" and "n + 8 \<le> z" and "i < n"
  shows "unat (p + word_of_nat i :: u32) = unat p + i" and "unat p + i \<in> chunk_span (unat p, z)"
proof -
  have "unat p + i < 2 ^ 32" using chunk_bounds(2) [OF assms(1,2)] assms(3,4) u32_less [of "mem_brkp s"] by linarith
  then show "unat (p + word_of_nat i) = unat p + i" by (simp add: unat_word_ariths unat_word_of_nat32 take_bit_nat_eq_self unsigned_of_nat)
  show "unat p + i \<in> chunk_span (unat p, z)" using assms(3,4) by (auto simp: chunk_span_def)
qed

lemma chunks_disjoint:
  assumes "heap_inv s bs" and "c \<in> chunks s bs" and "d \<in> chunks s bs" and "c \<noteq> d"
  shows "chunk_span c \<inter> chunk_span d = {}"
proof -
  have "chunk_span c \<inter> chunk_span d = {}" if "c \<in> set (allocs a bs)" "d \<in> set (allocs a bs)" "8 \<le> a" for a
    using that
  proof (induction a bs rule: allocs.induct)
    case (2 a z al bs)
    show ?case
    proof (cases "c \<in> set (allocs (a + z) bs) \<and> d \<in> set (allocs (a + z) bs)")
      case True
      then show ?thesis using 2 by auto
    next
      case False
      then have "al" "c = (a, z) \<and> d \<in> set (allocs (a + z) bs) \<or> d = (a, z) \<and> c \<in> set (allocs (a + z) bs)"
        using 2(2,3) assms(4) by (auto split: if_splits)
      then show ?thesis using allocs_bounds [of c "a + z" bs] allocs_bounds [of d "a + z" bs] by (auto simp: chunk_span_def)
    qed
  qed simp
  then show ?thesis using assms(2,3) by (simp add: chunks_def)
qed

text \<open>Chunks whose bytes do not change still hold what they held.\<close>

lemma holds_kept:
  assumes "holds s bs p c" and "heap_inv s bs" and "\<forall>d \<in> chunks s bs - X. \<forall>x. unat x \<in> chunk_span d \<longrightarrow> mm_mem s' x = mm_mem s x"
    and "chunks s bs - X \<subseteq> chunks s' bs'" and "\<forall>z. (unat p, z) \<notin> X"
  shows "holds s' bs' p c"
proof -
  obtain z where z: "(unat p, z) \<in> chunks s bs" "length c + 8 \<le> z" and r: "rd (length c) p (mm_mem s) = c" using assms(1) by (auto simp: holds_def)
  have "rd (length c) p (mm_mem s') = rd (length c) p (mm_mem s)"
  proof (rule rd_cong)
    fix i assume "i < length c"
    then have "unat (p + word_of_nat i) \<in> chunk_span (unat p, z)" using payload_unat [OF assms(2) z] by simp
    then show "mm_mem s' (p + word_of_nat i) = mm_mem s (p + word_of_nat i)" using assms(3,5) z(1) by blast
  qed
  then show ?thesis using z r assms(4,5) by (auto simp: holds_def)
qed

text \<open>A store into the payload of a chunk leaves the heap well-formed.\<close>

lemma heap_inv_store:
  assumes "heap_inv s bs" and "(unat p, z) \<in> chunks s bs" and "n + 8 \<le> z" and "i < n"
  shows "heap_inv (s\<lparr>mm_mem := (mm_mem s)(p + word_of_nat i := v)\<rparr>) bs"
proof -
  define hl where "hl = unat (heap_listp s)"
  obtain us vs where u: "bs = us @ (z, True) # vs" "unat p = hl + 8 + len us" using allocs_split assms(2) unfolding chunks_def hl_def by blast
  have h: "heap_at s hl (((8, True) # us) @ [(z, True)] @ vs)" "\<forall>b \<in> set bs. 16 \<le> fst b" "successively (\<lambda>b c. snd b \<or> snd c) bs"
    using assms(1) u by (auto simp: heap_inv_def Let_def hl_def)
  define m' where "m' = (mm_mem s)(p + word_of_nat i := v)"
  note pu = payload_unat(1) [OF assms]
  have c1: "changed (unat p) (unat p + z - 8) (mm_mem s) m'" using pu assms(3,4) by (auto simp: m'_def changed_def)
  have c2: "changed (unat p - 4) (unat p + z - 4) (mm_mem s) m'" by (rule changed_mono [OF c1]) auto
  have pz: "unat p + z < 2 ^ 32" using chunk_bounds(2) [OF assms(1,2)] u32_less [of "mem_brkp s"] by linarith
  have "seg (mm_mem s) (unat p) [(z, True)]" using h(1) u(2) by (simp add: heap_at_def add.assoc)
  moreover have "word_at m' (unat p - 4) = word_at (mm_mem s) (unat p - 4)" "word_at m' (unat p + z - 8) = word_at (mm_mem s) (unat p + z - 8)"
    using u(2) pz assms(3) by (auto intro!: word_at_changed [OF c1])
  ultimately have "seg m' (unat p) [(z, True)]" by simp
  then have "heap_at (s\<lparr>mm_mem := m'\<rparr>) hl (((8, True) # us) @ [(z, True)] @ vs)"
    using heap_at_replace [OF h(1), of m' "[(z, True)]"] c2 u(2) h(1) by (simp add: heap_at_def add.assoc)
  then show ?thesis using heap_inv_mem [OF assms(1), of m' bs] h(2,3) u(1) by (simp add: hl_def m'_def)
qed

lemma w32_unat: "w32 (unat p) = p"
  by (simp add: w32_def)

lemma room_fits:
  assumes "room s sz" and "0 < sint sz" and "heap_inv s bs"
  shows "fits_heap s bs (unat sz)" and "0 < unat sz"
proof -
  have "unat (mem_brkp s) = unat (heap_listp s) + 8 + len bs" using assms(3) by (simp add: heap_inv_def Let_def)
  then show "fits_heap s bs (unat sz)" using assms(1,2) by (simp add: room_def fits_heap_def)
  show "0 < unat sz" using assms(2) by (cases "sz = 0") (auto simp: unat_gt_0)
qed

lemma malloc_returns:
  assumes "heap_inv s bs" and "mm_inited s" and "room s sz"
  shows "\<exists>s' p bs'. lib_malloc_user sz s = Some (Inr (s', p)) \<and> heap_inv s' bs' \<and> mm_inited s' \<and>
    (if p = NULL then bs' = bs \<and> mm_mem s' = mm_mem s \<and> heap_listp s' = heap_listp s else new_chunk s bs s' bs' (unat p) (unat sz))"
proof (cases "0 < sint sz")
  case True
  obtain s' p bs' where "mm_malloc sz s = Some (Inr (s', p))" "heap_inv s' bs'" "mm_inited s' = mm_inited s" "heap_listp s' = heap_listp s"
    "if p = NULL then fit (asz (unat sz)) bs = None \<and> no_pages s (max 4096 (asz (unat sz))) \<and> s' = s\<lparr>mm_calls := Suc (mm_calls s)\<rparr> \<and> bs' = bs else new_chunk s bs s' bs' (unat p) (unat sz)"
    using mm_malloc_ok [OF assms(1)] room_fits [OF assms(3) True assms(1)] by blast
  then show ?thesis using assms(2) by (auto simp: lib_malloc_user_def with_init_def split: if_splits)
next
  case False
  then show ?thesis using assms by (simp add: lib_malloc_user_def with_init_def mm_malloc_def)
qed

lemma malloc_finds:
  assumes "heap_inv s bs" and "0 < unat sz" and "fits_heap s bs (unat sz)" and "fit (asz (unat sz)) bs \<noteq> None"
  shows "\<exists>s' p. mm_malloc sz s = Some (Inr (s', p)) \<and> p \<noteq> NULL"
proof -
  obtain s' p bs' where "mm_malloc sz s = Some (Inr (s', p))"
    "if p = NULL then fit (asz (unat sz)) bs = None \<and> no_pages s (max 4096 (asz (unat sz))) \<and> s' = s\<lparr>mm_calls := Suc (mm_calls s)\<rparr> \<and> bs' = bs
     else new_chunk s bs s' bs' (unat p) (unat sz)"
    using mm_malloc_ok [OF assms(1-3)] by blast
  then show ?thesis using assms(4) by (cases "p = NULL") simp_all
qed

lemma step_ok:
  assumes "prog_step st st'" and "prog_ok st"
  shows "prog_ok st'"
  using assms
proof cases
  case (got s sz s' p live)
  obtain bs where bs: "mm_inited s" "heap_inv s bs" "\<And>q c. live q = Some c \<Longrightarrow> holds s bs q c" using assms(2) got(1) by (auto simp: prog_ok_def)
  obtain bs' where b: "heap_inv s' bs'" "mm_inited s'" "new_chunk s bs s' bs' (unat p) (unat sz)"
    using malloc_returns [OF bs(2,1) got(3)] got(4,5) by auto
  have "holds s' bs' q c" if "live q = Some c" for q c
    using b(3) by (intro holds_kept [OF bs(3) [OF that] bs(2), of "{}"]) (auto simp: new_chunk_def)
  moreover have "holds s' bs' p (rd (unat sz) p (mm_mem s'))" using b(3) by (auto simp: holds_def new_chunk_def)
  ultimately show ?thesis using b got(2) by (auto simp: prog_ok_def)
next
  case (refused s sz s' live)
  obtain bs where bs: "mm_inited s" "heap_inv s bs" "\<And>q c. live q = Some c \<Longrightarrow> holds s bs q c" using assms(2) refused(1) by (auto simp: prog_ok_def)
  have "heap_inv s' bs" "mm_inited s'" "mm_mem s' = mm_mem s" "heap_listp s' = heap_listp s"
    using malloc_returns [OF bs(2,1) refused(3)] refused(4) by auto
  moreover from this have "holds s' bs q c" if "live q = Some c" for q c using bs(3) [OF that] by (simp add: holds_def chunks_def)
  ultimately show ?thesis using refused(2) by (auto simp: prog_ok_def)
next
  case (stored live p c i s v)
  obtain bs where bs: "mm_inited s" "heap_inv s bs" "\<And>q c. live q = Some c \<Longrightarrow> holds s bs q c" using assms(2) stored(1) by (auto simp: prog_ok_def)
  obtain z where z: "(unat p, z) \<in> chunks s bs" "length c + 8 \<le> z" "rd (length c) p (mm_mem s) = c" using bs(3) [OF stored(3)] by (auto simp: holds_def)
  define s' where "s' = s\<lparr>mm_mem := (mm_mem s)(p + word_of_nat i := v)\<rparr>"
  note pu = payload_unat [OF bs(2) z(1,2)]
  have inv: "heap_inv s' bs" unfolding s'_def using heap_inv_store [OF bs(2) z(1,2) stored(4)] .
  have ch: "chunks s' bs = chunks s bs" by (simp add: s'_def chunks_def)
  have "rd (length c) p (mm_mem s') = c[i := v]"
  proof (rule nth_equalityI)
    fix j assume j: "j < length (rd (length c) p (mm_mem s'))"
    then have "p + word_of_nat j = p + word_of_nat i \<longleftrightarrow> j = i" using pu(1) [of j] pu(1) [OF stored(4)] by (metis add_left_cancel length_rd)
    moreover have "mm_mem s (p + word_of_nat j) = c ! j" using rd_nth [of j "length c" p "mm_mem s"] j z(3) by simp
    ultimately show "rd (length c) p (mm_mem s') ! j = c[i := v] ! j" using j stored(4) by (simp add: rd_nth s'_def nth_list_update)
  qed simp
  then have "holds s' bs p (c[i := v])" using z ch by (auto simp: holds_def)
  moreover have "holds s' bs q d" if "live q = Some d" "q \<noteq> p" for q d
  proof (rule holds_kept [OF bs(3) [OF that(1)] bs(2), of "{(unat p, z)}"])
    show "\<forall>e \<in> chunks s bs - {(unat p, z)}. \<forall>x. unat x \<in> chunk_span e \<longrightarrow> mm_mem s' x = mm_mem s x"
    proof (intro ballI allI impI)
      fix e and x :: u32 assume "e \<in> chunks s bs - {(unat p, z)}" "unat x \<in> chunk_span e"
      then have "chunk_span e \<inter> chunk_span (unat p, z) = {}" by (intro chunks_disjoint [OF bs(2) _ z(1)]) auto
      then have "unat x \<noteq> unat (p + word_of_nat i)" using pu [OF stored(4)] \<open>unat x \<in> chunk_span e\<close> by auto
      then have "x \<noteq> p + word_of_nat i" by blast
      then show "mm_mem s' x = mm_mem s x" by (simp add: s'_def)
    qed
    show "chunks s bs - {(unat p, z)} \<subseteq> chunks s' bs" using ch by auto
    show "\<forall>y. (unat q, y) \<notin> {(unat p, z)}" using that(2) by (auto simp: word_unat_eq_iff)
  qed
  ultimately show ?thesis using stored(2) inv bs(1) by (auto simp: prog_ok_def s'_def)
next
  case (freed live p c s s')
  obtain bs where bs: "mm_inited s" "heap_inv s bs" "\<And>q c. live q = Some c \<Longrightarrow> holds s bs q c" using assms(2) freed(1) by (auto simp: prog_ok_def)
  obtain z where z: "(unat p, z) \<in> chunks s bs" using bs(3) [OF freed(3)] by (auto simp: holds_def)
  obtain m' bs' where f: "mm_free p s = Inr (s\<lparr>mm_mem := m'\<rparr>)" "heap_inv (s\<lparr>mm_mem := m'\<rparr>) bs'"
    "chunks (s\<lparr>mm_mem := m'\<rparr>) bs' = chunks s bs - {(unat p, z)}"
    "\<forall>c \<in> chunks s bs - {(unat p, z)}. \<forall>x. unat x \<in> chunk_span c \<longrightarrow> m' x = mm_mem s x"
    using mm_free_ok [OF bs(2) z] by (auto simp: w32_unat)
  have s': "s' = s\<lparr>mm_mem := m'\<rparr>" using freed(4) f(1) bs(1) by (simp add: lib_free_user_def)
  have "holds s' bs' q d" if "live q = Some d" "q \<noteq> p" for q d
    using f(3,4) that(2) s' by (intro holds_kept [OF bs(3) [OF that(1)] bs(2), of "{(unat p, z)}"]) (auto simp: word_unat_eq_iff)
  then show ?thesis using freed(2) f(2) s' bs(1) by (auto simp: prog_ok_def)
qed

lemma run_ok: "prog_run st st' \<Longrightarrow> prog_ok st \<Longrightarrow> prog_ok st'"
  by (induction rule: prog_run.induct) (auto intro: step_ok)

lemma granted_byte:
  assumes "granted s lo hi" and "4 dvd lo" and "4 dvd hi" and "lo \<le> p" and "p < hi"
  shows "accessible s 1 (w32 p)"
proof -
  define q where "q = p div 4 * 4"
  have "p < q + 4" "q \<le> p" using div_mult_mod_eq [of p 4] mod_less_divisor [of 4 p] by (simp_all add: q_def)
  moreover obtain j k where jk: "lo = 4 * j" "hi = 4 * k" using assms(2,3) by (auto elim!: dvdE)
  moreover have "j \<le> p div 4" "p div 4 < k" using jk assms(4,5) calculation(1,2) by (auto simp: q_def less_eq_div_iff_mult_less_eq mult.commute)
  then have "lo \<le> q" "q + 4 \<le> hi" by (simp_all add: jk q_def)
  ultimately have "accessible s 4 (w32 q)" "unat (w32 q) = q" "unat (w32 p) = p"
    using assms(1,5) by (auto intro!: granted_word [OF assms(1)] unat_w32 simp: q_def granted_def)
  then show ?thesis using \<open>p < q + 4\<close> \<open>q \<le> p\<close> by (force simp: accessible_def list_ex_iff word_le_nat_alt)
qed

lemma heap_inv_inited: "heap_inv (s\<lparr>mm_inited := b\<rparr>) bs = heap_inv s bs"
  by (simp add: heap_inv_def heap_at_def granted_def accessible_def Let_def)

section \<open>Properties\<close>

text \<open>C18: the heap of a program. Once \<open>mm_init\<close> has set the heap up, and whatever the program allocates, stores into its chunks and
  frees: each of its chunks is accessible, aligned to eight bytes and holds what the program stored there, no two of them overlap, and
  every further request (with room for it) and every release of a chunk returns.\<close>

theorem program_heap_safe:
  assumes "\<exists>k. page_given (first_break s0) k" and "mm_init s0 = Some (Inr (s, 0))"
    and "prog_run (s\<lparr>mm_inited := True\<rparr>, Map.empty) (s', live)"
  shows "(\<forall>p c. live p = Some c \<longrightarrow> 8 dvd unat p \<and> rd (length c) p (mm_mem s') = c \<and> (\<forall>i < length c. accessible s' 1 (p + word_of_nat i))) \<and>
    (\<forall>p c q d. live p = Some c \<and> live q = Some d \<and> p \<noteq> q \<longrightarrow> {unat p ..< unat p + length c} \<inter> {unat q ..< unat q + length d} = {}) \<and>
    (\<forall>sz. room s' sz \<longrightarrow> (\<exists>s'' p. lib_malloc_user sz s' = Some (Inr (s'', p)))) \<and>
    (\<forall>p \<in> dom live. \<exists>s''. lib_free_user p s' = Inr s'')"
proof -
  have "page_given (first_break s0) (LEAST k. page_given (first_break s0) k)" using assms(1) by (rule LeastI_ex)
  then have "heap_inv s [(4096, False)]" using mm_init_ok [of s0] not_less_Least [of _ "page_given (first_break s0)"] assms(2) by fastforce
  then have "prog_ok (s\<lparr>mm_inited := True\<rparr>, Map.empty)" by (auto simp: prog_ok_def heap_inv_inited)
  then have "prog_ok (s', live)" using run_ok [OF assms(3)] by simp
  then obtain bs where bs: "mm_inited s'" "heap_inv s' bs" "\<And>q c. live q = Some c \<Longrightarrow> holds s' bs q c" by (auto simp: prog_ok_def)
  have 1: "8 dvd unat p \<and> rd (length c) p (mm_mem s') = c \<and> (\<forall>i < length c. accessible s' 1 (p + word_of_nat i))" if l: "live p = Some c" for p c
  proof -
    obtain z where z: "(unat p, z) \<in> chunks s' bs" "length c + 8 \<le> z" "rd (length c) p (mm_mem s') = c" using bs(3) [OF l] by (auto simp: holds_def)
    note cb = chunk_bounds [OF bs(2) z(1)]
    have h: "granted s' (unat (heap_listp s') - 8) (unat (mem_alloctop s'))" "8 dvd unat (heap_listp s')" "4096 dvd unat (mem_alloctop s')" "mem_brkp s' \<le> mem_alloctop s'"
      using bs(2) by (auto simp: heap_inv_def heap_at_def Let_def)
    have "4 dvd unat (heap_listp s') - 8" "4 dvd unat (mem_alloctop s')" using h(2,3) by (auto elim!: dvdE)
    then have a: "accessible s' 1 (w32 (unat p + i))" if "i < length c" for i
      using cb(1,2) h(4) z(2) that by (intro granted_byte [OF h(1)]) (auto simp: word_le_nat_alt)
    have "accessible s' 1 (p + word_of_nat i)" if "i < length c" for i
      using a [OF that] by (simp add: w32_def)
    then show ?thesis using cb(3) z(3) by simp
  qed
  have 2: "{unat p ..< unat p + length c} \<inter> {unat q ..< unat q + length d} = {}" if l: "live p = Some c" "live q = Some d" "p \<noteq> q" for p c q d
  proof -
    obtain y z where z: "(unat p, y) \<in> chunks s' bs" "length c + 8 \<le> y" "(unat q, z) \<in> chunks s' bs" "length d + 8 \<le> z"
      using bs(3) [OF l(1)] bs(3) [OF l(2)] by (auto simp: holds_def)
    have "chunk_span (unat p, y) \<inter> chunk_span (unat q, z) = {}" using l(3) by (intro chunks_disjoint [OF bs(2) z(1,3)]) (auto simp: word_unat_eq_iff)
    then show ?thesis using z(2,4) by (force simp: chunk_span_def)
  qed
  have 3: "\<exists>s'' p. lib_malloc_user sz s' = Some (Inr (s'', p))" if "room s' sz" for sz using malloc_returns [OF bs(2,1) that] by blast
  have 4: "\<exists>s''. lib_free_user p s' = Inr s''" if d: "p \<in> dom live" for p
  proof -
    obtain c where "live p = Some c" using d by auto
    then obtain z where "(unat p, z) \<in> chunks s' bs" using bs(3) unfolding holds_def by blast
    then show ?thesis using mm_free_ok [OF bs(2)] bs(1) w32_unat [of p] by (fastforce simp: lib_free_user_def)
  qed
  show ?thesis using 1 2 3 4 by blast
qed

text \<open>A program at \<open>0x1003456\<close> whose first request for a page is refused.\<close>

definition demo_program :: mm_st where
  "demo_program = \<lparr>mm_mem = \<lambda>_. 0xCC, mm_areas = [], mm_answers = \<lambda>n. if n = 0 then - 5 else 0, mm_calls = 0, mm_end = 0x1003456,
     mem_max_addr = 0, mem_brkp = 0, mem_alloctop = 0, heap_listp = 0, mm_inited = False\<rparr>"

lemma demo_pages: "page_given (first_break demo_program) j \<longleftrightarrow> j \<noteq> 0 \<and> legal_area (0x1004000 + 4096 * word_of_nat j) 4096"
  by (auto simp: page_given_def first_break_def demo_program_def)

lemma demo_init:
  "\<exists>s. mm_init demo_program = Some (Inr (s, 0)) \<and> heap_inv s [(4096, False)] \<and> heap_listp s = 0x1005008"
proof -
  have "page_given (first_break demo_program) 1" "\<forall>j < 1. \<not> page_given (first_break demo_program) j" "page_given (first_break demo_program) (Suc 1)"
    by (simp_all add: demo_pages legal_area_def)
  then show ?thesis using mm_init_ok [of demo_program 1] by (auto simp: first_break_def demo_program_def)
qed

theorem program_heap_safe_witness:
  "\<exists>s s' p c. mm_init demo_program = Some (Inr (s, 0)) \<and> prog_run (s\<lparr>mm_inited := True\<rparr>, Map.empty) (s', [p \<mapsto> c]) \<and>
     length c = 100 \<and> c ! 3 = 42 \<and> rd 100 p (mm_mem s') = c"
proof -
  obtain s where s: "mm_init demo_program = Some (Inr (s, 0))" "heap_inv s [(4096, False)]" "heap_listp s = 0x1005008" using demo_init by blast
  define s1 where "s1 = s\<lparr>mm_inited := True\<rparr>"
  have inv: "heap_inv s1 [(4096, False)]" using s(2) by (simp add: s1_def heap_inv_inited)
  have "unat (mem_brkp s1) = 0x1005008 + 8 + 4096" using s(2,3) by (simp add: heap_inv_def s1_def)
  then have room: "room s1 100" "fits_heap s1 [(4096, False)] (unat (100 :: u32))" using s(3) by (simp_all add: room_def fits_heap_def asz_def s1_def)
  have f: "fit (asz (unat (100 :: u32))) [(4096, False)] \<noteq> None" by (simp add: asz_def)
  have "0 < unat (100 :: u32)" by simp
  from malloc_finds [OF inv this room(2) f] obtain s2 p where m: "mm_malloc 100 s1 = Some (Inr (s2, p))" "p \<noteq> NULL" by blast
  define c where "c = rd (unat (100 :: u32)) p (mm_mem s2)"
  define s3 where "s3 = s2\<lparr>mm_mem := (mm_mem s2)(p + word_of_nat 3 := 42)\<rparr>"
  have 1: "prog_step (s1, Map.empty) (s2, [p \<mapsto> c])"
    unfolding c_def using room(1) m by (intro got) (simp_all add: lib_malloc_user_def with_init_def s1_def)
  have "prog_step (s2, [p \<mapsto> c]) (s3, [p \<mapsto> c](p \<mapsto> c[3 := 42]))"
    unfolding s3_def by (rule stored) (simp_all add: c_def)
  then have "prog_run (s1, Map.empty) (s3, [p \<mapsto> c](p \<mapsto> c[3 := 42]))" by (rule prog_run.step [OF prog_run.step [OF prog_run.start 1]])
  then have r: "prog_run (s\<lparr>mm_inited := True\<rparr>, Map.empty) (s3, [p \<mapsto> c[3 := 42]])" by (simp add: s1_def)
  have pg: "\<exists>k. page_given (first_break demo_program) k" by (intro exI [of _ 1]) (simp add: demo_pages legal_area_def)
  have l: "length (c[3 := 42]) = 100" "c[3 := 42] ! 3 = 42" by (simp_all add: c_def)
  have "rd (length (c[3 := 42])) p (mm_mem s3) = c[3 := 42]" 
    using program_heap_safe [OF pg s(1) r, THEN conjunct1, rule_format, of p "c[3 := 42]"] by simp
  then show ?thesis using s(1) r l by metis
qed

section \<open>Requests that overflow\<close>

lemma sint_negative: "2 ^ 31 \<le> unat (x :: u32) \<Longrightarrow> sint x < 0"
proof -
  assume a: "2 ^ 31 \<le> unat x"
  then have "unat x div 2 ^ 31 = 1" using u32_less [of x] by (simp add: div_nat_eqI)
  then have "bit (unat x) 31" by (simp add: bit_iff_odd)
  then show ?thesis using bit_last_iff [of x] by (simp add: bit_unsigned_iff)
qed

text \<open>The largest request: the sum of the size and the overhead wraps to a negative block size, which every free block satisfies. The caller
  gets the first free block, however small it is.\<close>

lemma mm_malloc_huge:
  assumes "heap_inv s (us @ (z, False) # vs)" and "\<forall>b \<in> set us. snd b" and "hl = unat (heap_listp s)"
  shows "\<exists>s'. mm_malloc 0x7FFFFFFF s = Some (Inr (s', w32 (hl + 8 + len us))) \<and> heap_inv s' (us @ [(z, True)] @ vs)"
proof -
  have adj: "adjust 0x7FFFFFFF = 0x80000010" by (simp add: adjust_def signed_divide_int_def)
  have h: "heap_at s hl (((8, True) # us) @ (z, False) # vs)" "\<forall>b \<in> set (us @ (z, False) # vs). 16 \<le> fst b"
    "successively (\<lambda>b c. snd b \<or> snd c) (us @ (z, False) # vs)"
    using assms(1,3) by (auto simp: heap_inv_def Let_def)
  have "fit 0 (ws @ (z, False) # vs) = Some (len ws)" if "\<forall>b \<in> set ws. snd b" for ws
    using that by (induction ws) auto
  then have "find_fit 0x80000010 s = Some (Inr (w32 (hl + 8 + len us)))"
    using find_fit_loop_ok [of s hl "[]" "((8, True) # us) @ (z, False) # vs" "0x80000010"] h(1) assms(2,3)
    by (simp add: find_fit_def w32_unat add.assoc del: append_Cons)
  moreover have z: "z < 2 ^ 31" "16 \<le> z" using h by (auto simp: heap_at_def)
  have "unat (w32 z - 0x80000010) = z + 0x7FFFFFF0"
    using z unat_w32 [of z] by (simp add: unat_sub_if_size word_size word_le_nat_alt)
  then have "sint (w32 z - 0x80000010) < 0" using z(2) by (intro sint_negative) simp
  then obtain m' where m': "place (w32 (hl + 8 + len us)) 0x80000010 s = Inr (s\<lparr>mm_mem := m'\<rparr>)"
    "heap_at (s\<lparr>mm_mem := m'\<rparr>) hl ((8, True) # us @ [(z, True)] @ vs)"
    using place_whole [OF h(1), of "0x80000010"] z(2) by (auto simp: add.assoc)
  moreover have "heap_inv (s\<lparr>mm_mem := m'\<rparr>) (us @ [(z, True)] @ vs)"
    using m'(2) h(2,3) assms(3) by (intro heap_inv_mem [OF assms(1)]) (auto simp: successively_append_iff successively_Cons)
  moreover have "w32 (hl + 8 + len us) \<noteq> NULL"
    using heap_at_block(4,5) [OF h(1)] unat_w32 [of "hl + 8 + len us"] by (auto simp: add.assoc)
  ultimately show ?thesis using adj by (simp add: mm_malloc_def)
qed

text \<open>A break that passes the end of the address space: no page is asked for, and the break goes back to low addresses.\<close>

lemma mem_sbrk_wraps:
  assumes "2 ^ 32 \<le> unat (mem_brkp s) + unat incr" and "0 \<le> sint incr" and "mem_brkp s + incr \<le> mem_alloctop s" and "mem_max_addr s = 0xFFFFFFFF"
  shows "mem_sbrk incr s = (s\<lparr>mem_brkp := mem_brkp s + incr\<rparr>, mem_brkp s)"
  using assms u32_less [of "mem_brkp s + incr"] by (simp add: mem_sbrk_def mem_grow_def Let_def word_less_nat_alt word_le_nat_alt)

end
