(* ===== verification/Spec2Isabelle.thy ===== *)
theory Spec2Isabelle
  imports VM_Regions Spinlock Kernel_Calls Keyhelp Boot Boot_Memory User_Locks User_Hashtable Thread_Runs User_Malloc
begin

text \<open>
  \<^bold>\<open>A multi-core x86 kernel and its thread library.\<close> The program is the kernel under \<open>src/kern\<close> and the
  libraries under \<open>src/user\<close> that make threads, locks and a growing stack out of its system calls. Core 0, the manager, owns the console,
  the keyboard and the table of tasks; every other core, a worker, runs user threads with its own run
  queue, its own pool of physical frames and its own allocator. A system call that concerns another core
  is a message from the caller's worker to the manager, which answers it or sends the thread on.

  \<^bold>\<open>How C is represented.\<close> Every operation is a function with the state as an explicit argument. Its result
  type \<open>kres\<close> (theory \<open>Kern_Prelude\<close>) is a sum: a failure (\<open>PANIC\<close>, a wild access \<open>FAULT\<close>, a thread that
  \<open>BLOCKS\<close> where the caller cannot go on, \<open>HALTS\<close>, an endless loop \<open>SPINS\<close>) or a value. Objects in memory
  are entries of partial maps from addresses; 32-bit unsigned values, addresses and page-table entries are
  words, C \<open>int\<close>s that cannot overflow in the code are integers, and where the sum of two of them can
  overflow the wrap-around is written out. Loops are recursion on the list or count they run over; the
  loops that may not end are \<open>partial_function (option)\<close> (\<open>None\<close>: no return) with a theorem that they do
  return: there is no fuel in the development. The answers of \<open>malloc\<close>, \<open>smemalign\<close> and \<open>memalign\<close> are lists
  in the state, so that every theorem holds for every allocation failure. Code between the lock and the
  unlock of a spinlock or of a kernel mutex is one step, which theories \<open>Spinlock\<close> and \<open>Mutex\<close> justify.

  \<^bold>\<open>Data structures.\<close>
  \<^item> \<open>Simple_Queue\<close> (\<open>simple_queue.c\<close>): a doubly linked list in a store of nodes; the operations refine
    operations on lists (locale \<open>fifo_queue\<close>), which the other components use.
  \<^item> \<open>Priority_Queue\<close> (\<open>priority_queue.c\<close>): a list sorted by a comparison function; locale \<open>comparator\<close> is what
    it needs of the function, interpreted on the comparison of \<open>sleep\<close> in \<open>Thread_Mgmt\<close>.
  \<^item> \<open>Hashtable\<close> (\<open>hashtable.c\<close>): chains per bucket; locale \<open>key_stacks\<close> is its contract.
  \<^item> \<open>Seg_Tree\<close> (\<open>seg_tree.c\<close>): the tree of bitmaps that finds the least free frame (locale \<open>frame_pool\<close>).

  \<^bold>\<open>Locks.\<close>
  \<^item> \<open>Spinlock\<close> (\<open>spinlock.c\<close>) and \<open>Mutex\<close> (\<open>mutex.c\<close>): each operation, and the system of threads that use
    one lock as a step relation: mutual exclusion, no lost wake-up, and the interleaving in which a stale
    wake-up panics.

  \<^bold>\<open>Memory.\<close>
  \<^item> \<open>PM\<close> (\<open>pm.c\<close>): the pools of frames and the reservation counter.
  \<^item> \<open>VM\<close> (definitions), \<open>VM_Space\<close>, \<open>VM_Regions\<close> (\<open>vm.c\<close>): page directories and tables as arrays in a store,
    frames as byte arrays, the page-table locks; zero-fill pages, \<open>new_pages\<close> and \<open>remove_pages\<close>, whole
    address spaces, the check of user pointers.
  \<^item> \<open>Memory_View\<close>: memory by virtual address as one function, for the stacks the kernel builds.

  \<^bold>\<open>Devices.\<close>
  \<^item> \<open>Console\<close> (\<open>console_driver.c\<close>): video memory, cursor, scrolling.
  \<^item> \<open>Keyboard\<close> (\<open>keyboard_driver.c\<close>): the ring of scancodes, with the decoder as a parameter; \<open>Keyhelp\<close>
    (\<open>keyhelp.c\<close> of the course library): the decoder, and that a typed line is what \<open>readchar\<close> gives.
  \<^item> \<open>Timer\<close> (\<open>timer_driver.c\<close>): the programming of the timers and their calibration; the handler of the
    calibrated timer is in \<open>Thread_Mgmt\<close>.
  \<^item> \<open>Interrupt_Table\<close> (\<open>init_IDT.c\<close>): the descriptors in memory and what the processor reads from them.

  \<^bold>\<open>Threads and cores.\<close>
  \<^item> \<open>Kernel_State\<close>: the record of the whole kernel and access to its objects.
  \<^item> \<open>Control_Block\<close> (\<open>control_block.c\<close>), \<open>Smp_Message\<close> (\<open>smp_message.c\<close>), \<open>Scheduler\<close> (\<open>scheduler.c\<close>),
    \<open>Context_Switcher\<close> (\<open>context_switcher.c\<close>). The stack switch itself is assembly: a thread that is
    switched away continues with what an argument \<open>env\<close> says the system did until it runs again. Theorems
    over \<open>env\<close> hold for all of them. \<open>Run_Queue\<close> has the invariant of a core's queues, the race of block and
    wake-up, and the copy of a kernel stack by \<open>fork\<close>.

  \<^bold>\<open>The manager core.\<close>
  \<^item> \<open>Smp_Lifecycle\<close>, \<open>Smp_Consoleio\<close>, \<open>Manager\<close> (\<open>smp_syscall_*.c\<close>, \<open>smp_manager_scheduler.c\<close>): the handlers
    and the dispatch on the message type. \<open>Manager\<close> shows the invariant on zombies and waiting threads for
    every message, \<open>Life_Properties\<close> that exit statuses reach the parent, \<open>Core_Search\<close> which cores a search
    visits, \<open>Message_Types\<close> that the manager sends the workers only messages of the types they handle.

  \<^bold>\<open>System calls and exceptions on the worker.\<close>
  \<^item> \<open>Syscall_Base\<close> (\<open>syscall_memory.c\<close>, \<open>syscall_misc.c\<close>), \<open>Thread_Mgmt\<close> (\<open>syscall_thr_management.c\<close> and the
    timer interrupt), \<open>Syscall_Console\<close> (\<open>syscall_consoleio.c\<close>), \<open>Loader\<close> (\<open>loader.c\<close>), \<open>Syscall_Lifecycle\<close>
    (\<open>syscall_lifecycle.c\<close>), \<open>Exception_Handler\<close> (\<open>exception_handler.c\<close>). The handlers return how they leave
    the kernel (\<open>kexit\<close>). \<open>Stack_Frames\<close> shows the stacks on which user code is entered.

  \<^bold>\<open>The allocator.\<close>
  \<^item> \<open>Lmm\<close>, \<open>Lmm_Pool\<close>, \<open>Lmm_Setup\<close> (\<open>410kern/lmm\<close>): the list memory manager, whose free blocks are sorted lists
    in regions. Every function keeps the invariant (\<open>lmm_ok\<close>), under which no assertion fails; allocation and release take
    and give exactly one block. Locale \<open>block_allocator\<close> is what a sequence of both relies on.
  \<^item> \<open>Byte_Memory\<close>: memory by byte. \<open>Kern_Malloc\<close> (\<open>410kern/malloc\<close>): the functions of the C library on a pool, with
    the header of each chunk in memory. \<open>Malloc_Wrappers\<close> (\<open>malloc_wrappers.c\<close> of the kernel and of the user library):
    each call between the lock and the unlock of its core; the allocator is a parameter there, which
    \<open>Kern_Malloc\<close> provides.
  \<^item> \<open>Boot_Memory\<close> (\<open>util_lmm.c\<close>, \<open>entry.c\<close> and \<open>dist_kernel_mem\<close> of \<open>vm.c\<close>): which memory becomes the heap, and its
    division between the cores.
  In the theories of the kernel the answers of the allocator remain lists in the state: what they may be is what these
  theories show.

  \<^bold>\<open>The user library.\<close>
  \<^item> \<open>User_Queue\<close> (\<open>queue.c\<close>), \<open>User_Mutex\<close> (\<open>mutex.c\<close>), \<open>User_Cond\<close> (\<open>cond_var.c\<close>), \<open>User_Locks\<close> (\<open>sem.c\<close>,
    \<open>rwlock.c\<close>): each operation, and the threads that use a lock as a step relation over these operations.
  \<^item> \<open>Thread_Slots\<close> (\<open>arraytcb.c\<close>), \<open>Thread_Stacks\<close> and part of \<open>Autostack\<close> (\<open>thr_lib_helper.c\<close>): the table of
    control blocks, where the stack of each is, and which pages of it can be given back.
  \<^item> \<open>Autostack\<close> (\<open>autostack.c\<close>): the exception handler that grows the stack of the root thread.
  \<^item> \<open>User_Hashtable\<close> (\<open>hashtable.c\<close> of the library): the chains as linked nodes, equivalent to \<open>Hashtable\<close>.
  \<^item> \<open>User_Heap\<close>, \<open>User_Malloc\<close> (\<open>410user/libmalloc\<close>): the allocator of a program, whose blocks lie one behind the other with
    their sizes in the words around them. The theories show which blocks each operation leaves, and that in every run the chunks of
    a program keep what it stored in them. The page requests may be refused at any time.
  \<^item> \<open>Thread_Lib\<close> (\<open>thr_lib.c\<close>): creation, exit and join. Each call is cut where it holds no mutex; the cut
    calls are the steps of \<open>Thread_Runs\<close>, whose runs are all interleavings of the threads of a program.

  \<^bold>\<open>Boot.\<close> \<open>Boot\<close> (\<open>kernel.c\<close>, \<open>ap_kernel.c\<close>, \<open>smp_manager_boot\<close> and the first tasks of
  \<open>loader.c\<close>): the initialisations of all components composed as the code composes them, and that the workers come
  up, in any order, in states that satisfy the invariants of the other theories.

  \<^bold>\<open>The composition.\<close> \<open>Kernel_Calls\<close> instantiates the environment of a system call with the modelled manager
  core and the modelled timer switch of the caller's core (\<open>serve\<close>), and follows \<open>print\<close> and \<open>wait\<close> from the
  user's pointer through the message, the manager's handler and the answer back to the caller.

  \<^bold>\<open>What the theorems show.\<close> Data structures: refinement of their list, map and set specifications. Locks:
  safety and liveness of all interleavings. Memory: the least usable frame is given out and no frame twice,
  regions are mapped and removed exactly, faults on zero-fill pages are repaired. Threads: the invariant of
  run queues under the operations of the context switcher, with messages from the manager pending, a fork up to the point where it
  waits for the manager; the one operation that breaks it is part of the statement. Tasks: the accounting of children. The user
  library: exclusion and no forgotten waiter for its locks, and that every exit status is delivered at most
  once and to a thread that joined. Texts,
  stacks and buffers: bounds and exact contents. Tables (the layout of the keyboard, the interrupt vectors, the memory in use at boot)
  are compared with tables written down apart from the code's. A theorem that shows a defect of the code says so in its
  text; the manifest lists them as findings.

  \<^bold>\<open>Not modelled.\<close> Assembly, \<open>msg_synchronize\<close> (a busy wait at boot), the debug log, the stubs of the system
  calls, the libraries of the course that are not named above (formatted printing, ELF reader, start of the processors) and the
  test programs. Translation caches are modelled only as the list of
  invalidations that were issued. Memory is sequentially consistent.
\<close>

end
